(* ===== verification/Prelude.thy ===== *)
theory Prelude
  imports Main "HOL-Library.Word" "HOL-Library.Monad_Syntax"
begin

unbundle bit_operations_syntax

text \<open>
  Shared vocabulary of the MicrOS development: names for Rust's machine integers, the
  panic monad (the kernel is built with the dev profile, so arithmetic overflow, a failed
  \<open>assert!\<close>, \<open>unwrap\<close> on \<open>None\<close> and an out-of-range index all abort), loops over ranges in
  that monad, big-endian byte codecs, and the generic facts about lists and words that the
  component theories use.
\<close>

named_theorems panic_simps \<open>unfolding rules for checked machine arithmetic\<close>
named_theorems codec_simps \<open>rules for byte-level encoders and decoders\<close>

section \<open>Machine integers\<close>

type_synonym u8 = "8 word"
type_synonym u16 = "16 word"
type_synonym u32 = "32 word"
type_synonym u64 = "64 word"
type_synonym i64 = int

text \<open>The byte of the path separator.\<close>

abbreviation SLASH :: u8 where "SLASH \<equiv> 0x2F"

text \<open>
  A computation that may panic has type \<open>'a option\<close>: \<open>None\<close> is the panic. Where the Rust
  function itself returns an \<open>Option\<close> the model has type \<open>'a option option\<close>; the outer layer is
  the panic and the inner one is Rust's \<open>Option\<close>.
\<close>

definition checked_add :: "'a::len word \<Rightarrow> 'a word \<Rightarrow> 'a word option" where
  [panic_simps]: "checked_add a b = (if unat a + unat b < 2 ^ LENGTH('a) then Some (a + b) else None)"

definition checked_sub :: "'a::len word \<Rightarrow> 'a word \<Rightarrow> 'a word option" where
  [panic_simps]: "checked_sub a b = (if b \<le> a then Some (a - b) else None)"

definition checked_mul :: "'a::len word \<Rightarrow> 'a word \<Rightarrow> 'a word option" where
  [panic_simps]: "checked_mul a b = (if unat a * unat b < 2 ^ LENGTH('a) then Some (a * b) else None)"

definition saturating_add :: "'a::len word \<Rightarrow> 'a word \<Rightarrow> 'a word" where
  "saturating_add a b = (if unat a + unat b < 2 ^ LENGTH('a) then a + b else - 1)"

definition saturating_mul :: "'a::len word \<Rightarrow> 'a word \<Rightarrow> 'a word" where
  "saturating_mul a b = (if unat a * unat b < 2 ^ LENGTH('a) then a * b else - 1)"

definition is_power_of_two :: "'a::len word \<Rightarrow> bool" where
  "is_power_of_two a \<longleftrightarrow> list_ex (\<lambda>k. a = 2 ^ k) [0..<LENGTH('a)]"

definition trailing_zeros :: "'a::len word \<Rightarrow> nat" where
  "trailing_zeros w = length (takeWhile (\<lambda>i. \<not> bit w i) [0..<LENGTH('a)])"

text \<open>\<open>assert!(b)\<close> and the guard of a checked operation.\<close>

definition assert_that :: "bool \<Rightarrow> unit option" where
  [panic_simps]: "assert_that b = (if b then Some () else None)"

section \<open>Loops in the panic monad\<close>

fun foldM :: "('a \<Rightarrow> 's \<Rightarrow> 's option) \<Rightarrow> 'a list \<Rightarrow> 's \<Rightarrow> 's option" where
  "foldM f [] s = Some s"
| "foldM f (x # xs) s = (case f x s of None \<Rightarrow> None | Some s' \<Rightarrow> foldM f xs s')"

section \<open>Big-endian codecs\<close>

definition be16 :: "u16 \<Rightarrow> u8 list" where
  "be16 w = [ucast (drop_bit 8 w), ucast w]"

definition from_be16 :: "u8 \<Rightarrow> u8 \<Rightarrow> u16" where
  "from_be16 a b = push_bit 8 (ucast a) OR ucast b"

definition be32 :: "u32 \<Rightarrow> u8 list" where
  "be32 w = [ucast (drop_bit 24 w), ucast (drop_bit 16 w), ucast (drop_bit 8 w), ucast w]"

definition from_be32 :: "u8 \<Rightarrow> u8 \<Rightarrow> u8 \<Rightarrow> u8 \<Rightarrow> u32" where
  "from_be32 a b c d =
     push_bit 24 (ucast a) OR push_bit 16 (ucast b) OR push_bit 8 (ucast c) OR ucast d"

text \<open>\<open>out[i..i + src.len()].copy_from_slice(&src)\<close> on a buffer that is long enough.\<close>

definition splice :: "'a list \<Rightarrow> nat \<Rightarrow> 'a list \<Rightarrow> 'a list" where
  "splice out i src = take i out @ src @ drop (i + length src) out"

section \<open>Checked arithmetic\<close>

lemma checked_add_Some_iff:
  "checked_add a b = Some c \<longleftrightarrow> unat a + unat b < 2 ^ LENGTH('a) \<and> c = a + b"
  for a b :: "'a::len word"
  by (auto simp: checked_add_def)

lemma unat_checked_add:
  "checked_add a b = Some c \<Longrightarrow> unat c = unat a + unat b"
  for a b :: "'a::len word"
  by (auto simp: checked_add_def unat_word_ariths split: if_splits)

lemma unat_checked_sub:
  "checked_sub a b = Some c \<Longrightarrow> unat c = unat a - unat b \<and> unat b \<le> unat a"
  for a b :: "'a::len word"
  by (auto simp: checked_sub_def unat_sub word_le_nat_alt split: if_splits)

lemma unat_checked_mul:
  "checked_mul a b = Some c \<Longrightarrow> unat c = unat a * unat b"
  for a b :: "'a::len word"
  by (auto simp: checked_mul_def unat_word_ariths split: if_splits)

lemma unat_minus_one_max: "unat (- 1 :: 'a::len word) = 2 ^ LENGTH('a) - 1"
  by (simp add: unsigned_minus_1_eq_mask mask_eq_exp_minus_1)

lemma unat_pow2: "k < LENGTH('a) \<Longrightarrow> unat (2 ^ k :: 'a::len word) = 2 ^ k"
  using unat_of_nat [of "2 ^ k", where ?'a = 'a] by simp

lemma unat_u8: "unat (x :: u8) \<le> 255"
proof -
  have "unat x < 2 ^ LENGTH(8)" by (rule unsigned_less)
  then show ?thesis by simp
qed

lemma u32_small: "unat (x :: u32) < 2 ^ 32"
proof -
  have "unat x < 2 ^ LENGTH(32)" by (rule unsigned_less)
  then show ?thesis by simp
qed

lemma u32_of_nat: "n < 2 ^ 32 \<Longrightarrow> unat (of_nat n :: u32) = n"
  by (simp only: unat_of_nat) simp

lemma unat_ucast_up: "unat (ucast (x :: 'a::len word) :: 'b::len word) = unat x" if "LENGTH('a) \<le> LENGTH('b)"
proof -
  have "unat x < 2 ^ LENGTH('a)" by (rule unsigned_less)
  also have "\<dots> \<le> 2 ^ LENGTH('b)" using that by simp
  finally show ?thesis by (simp add: unsigned_ucast_eq take_bit_nat_eq_self)
qed

lemma u16_small: "unat (x :: u16) < 2 ^ 16"
proof -
  have "unat x < 2 ^ LENGTH(16)" by (rule unsigned_less)
  then show ?thesis by simp
qed

lemma unat_saturating_add:
  "unat (saturating_add a b) = min (unat a + unat b) (2 ^ LENGTH('a) - 1)"
  for a b :: "'a::len word"
  by (auto simp: saturating_add_def unat_word_ariths unat_minus_one_max)

section \<open>Trailing zeros and powers of two\<close>

lemma trailing_zeros_least:
  fixes w :: "'a::len word"
  assumes "w \<noteq> 0"
  shows "trailing_zeros w < LENGTH('a) \<and> bit w (trailing_zeros w) \<and> (\<forall>j < trailing_zeros w. \<not> bit w j)"
proof -
  let ?P = "\<lambda>i. \<not> bit w i" and ?xs = "[0..<LENGTH('a)]"
  from assms obtain i where i: "i < LENGTH('a)" "bit w i"
    by (metis bit_eqI bit_imp_le_length bit_0_eq bot_apply bot_bool_def)
  have "\<exists>x \<in> set ?xs. \<not> ?P x" using i by auto
  then have lt: "length (takeWhile ?P ?xs) < length ?xs"
    by (metis length_takeWhile_le le_neq_implies_less takeWhile_eq_all_conv takeWhile_eq_take take_all_iff le_refl)
  then have b: "bit w (trailing_zeros w)"
    using nth_length_takeWhile [OF lt] by (simp add: trailing_zeros_def)
  have "\<not> bit w j" if "j < trailing_zeros w" for j
  proof -
    from that have "takeWhile ?P ?xs ! j \<in> set (takeWhile ?P ?xs)"
      by (simp add: trailing_zeros_def)
    moreover have "takeWhile ?P ?xs ! j = j"
      using that lt by (simp add: trailing_zeros_def takeWhile_nth)
    ultimately show ?thesis by (auto dest: set_takeWhileD)
  qed
  with b lt show ?thesis by (simp add: trailing_zeros_def)
qed

lemma is_power_of_two_iff: "is_power_of_two a \<longleftrightarrow> (\<exists>k < LENGTH('a). a = 2 ^ k)"
  for a :: "'a::len word"
  by (auto simp: is_power_of_two_def list_ex_iff)

lemma unat_and_not_mask:
  fixes x :: "'a::len word"
  assumes "k < LENGTH('a)"
  shows "unat (x AND NOT (2 ^ k - 1)) = unat x - unat x mod 2 ^ k"
proof -
  have m: "(2 ^ k - 1 :: 'a word) = mask k" by (simp add: mask_eq_exp_minus_1)
  have "x = (x AND mask k) OR (x AND NOT (mask k))"
    by (rule bit_word_eqI) (auto simp: bit_simps)
  also have "\<dots> = (x AND mask k) + (x AND NOT (mask k))"
    by (rule disjunctive_add_eq_or [symmetric]) (rule bit_word_eqI, auto simp: bit_simps)
  finally have "x AND NOT (mask k) = x - take_bit k x"
    by (simp add: take_bit_eq_mask algebra_simps)
  moreover have t: "unat (take_bit k x) = unat x mod 2 ^ k"
    by (metis unsigned_take_bit_eq take_bit_eq_mod)
  moreover have "take_bit k x \<le> x"
    by (simp add: word_le_nat_alt t)
  ultimately show ?thesis
    by (simp add: m unat_sub)
qed

section \<open>Loop rules\<close>

lemma foldM_append:
  "foldM f (xs @ ys) s = (case foldM f xs s of None \<Rightarrow> None | Some s' \<Rightarrow> foldM f ys s')"
  by (induction xs arbitrary: s) (auto split: option.splits)

text \<open>The loop rule for \<open>for i in lo..hi\<close>: an invariant indexed by the loop counter.\<close>

lemma foldM_range_rule:
  assumes "P lo s" and "lo \<le> hi"
    and step: "\<And>i s. lo \<le> i \<Longrightarrow> i < hi \<Longrightarrow> P i s \<Longrightarrow> \<exists>s'. f i s = Some s' \<and> P (Suc i) s'"
  shows "\<exists>s'. foldM f [lo..<hi] s = Some s' \<and> P hi s'"
  using assms(2) step
proof (induction hi rule: dec_induct)
  case base
  with assms(1) show ?case by simp
next
  case (step n)
  then obtain t where t: "foldM f [lo..<n] s = Some t" "P n t" by auto
  with step obtain t' where "f n t = Some t'" "P (Suc n) t'" by (meson less_Suc_eq)
  with t step.hyps show ?case by (simp add: foldM_append)
qed

lemma foldM_inv:
  assumes "foldM f xs s = Some s'" and "P s"
    and "\<And>x s s'. x \<in> set xs \<Longrightarrow> P s \<Longrightarrow> f x s = Some s' \<Longrightarrow> P s'"
  shows "P s'"
  using assms
proof (induction xs arbitrary: s)
  case Nil
  then show ?case by simp
next
  case (Cons x xs)
  then obtain t where t: "f x s = Some t" "foldM f xs t = Some s'"
    by (auto split: option.splits)
  with Cons.prems have "P t" by (meson list.set_intros(1))
  with Cons t show ?case by auto
qed

section \<open>Codec laws\<close>

lemma length_be16 [simp]: "length (be16 w) = 2"
  by (simp add: be16_def)

lemma length_be32 [simp]: "length (be32 w) = 4"
  by (simp add: be32_def)

lemma from_be16_be16 [codec_simps]:
  "from_be16 (ucast (drop_bit 8 w)) (ucast w) = w"
  by (rule bit_word_eqI) (auto simp: from_be16_def bit_simps)

lemma from_be32_be32 [codec_simps]:
  "from_be32 (ucast (drop_bit 24 w)) (ucast (drop_bit 16 w)) (ucast (drop_bit 8 w)) (ucast w) = w"
  by (rule bit_word_eqI) (auto simp: from_be32_def bit_simps, (rule ccontr, auto simp: not_less)+)

lemma length_splice [simp]:
  "i + length src \<le> length out \<Longrightarrow> length (splice out i src) = length out"
  by (simp add: splice_def)

section \<open>Searching a range\<close>

lemma find_append:
  "find P (xs @ ys) = (case find P xs of None \<Rightarrow> find P ys | Some x \<Rightarrow> Some x)"
  by (induction xs) auto

lemma upt_append_le: "i \<le> j \<Longrightarrow> j \<le> k \<Longrightarrow> [i..<k] = [i..<j] @ [j..<k]"
  by (metis le_add_diff_inverse upt_add_eq_append)

lemma find_range_None: "find P [a..<b] = None \<longleftrightarrow> (\<forall>i. a \<le> i \<and> i < b \<longrightarrow> \<not> P i)"
  by (auto simp: find_None_iff)

lemma find_range_Some:
  "find P [a..<b] = Some i \<longleftrightarrow> a \<le> i \<and> i < b \<and> P i \<and> (\<forall>j. a \<le> j \<and> j < i \<longrightarrow> \<not> P j)"
proof
  assume "find P [a..<b] = Some i"
  then obtain k where k: "k < b - a" "P (a + k)" "i = a + k" "\<forall>j < k. \<not> P (a + j)"
    by (auto simp: find_Some_iff)
  moreover have "\<not> P j" if "a \<le> j" "j < i" for j
    using k(3,4) that by (metis le_add_diff_inverse nat_add_left_cancel_less)
  ultimately show "a \<le> i \<and> i < b \<and> P i \<and> (\<forall>j. a \<le> j \<and> j < i \<longrightarrow> \<not> P j)" by auto
next
  assume "a \<le> i \<and> i < b \<and> P i \<and> (\<forall>j. a \<le> j \<and> j < i \<longrightarrow> \<not> P j)"
  then show "find P [a..<b] = Some i"
    by (auto simp: find_Some_iff intro!: exI [of _ "i - a"])
qed

section \<open>First-match tables\<close>

text \<open>
  \<open>iter_mut().find(P)\<close> followed by a write, \<open>position(P)\<close> followed by \<open>remove\<close>, and the bounded
  push that drops the oldest element, as the ARP cache, the UDP queue and the TCP table use them.
\<close>

fun update_first :: "('a \<Rightarrow> bool) \<Rightarrow> ('a \<Rightarrow> 'a) \<Rightarrow> 'a list \<Rightarrow> 'a list" where
  "update_first P f [] = []"
| "update_first P f (x # xs) = (if P x then f x # xs else x # update_first P f xs)"

fun remove_first :: "('a \<Rightarrow> bool) \<Rightarrow> 'a list \<Rightarrow> 'a list" where
  "remove_first P [] = []"
| "remove_first P (x # xs) = (if P x then xs else x # remove_first P xs)"

definition push_evict :: "nat \<Rightarrow> 'a \<Rightarrow> 'a list \<Rightarrow> 'a list" where
  "push_evict n x xs = (if length xs \<ge> n then tl xs else xs) @ [x]"

lemma word_less_add_one: "x < x + 1" if "x \<noteq> - 1" for x :: "'a::len word"
proof -
  have "unat x \<noteq> 2 ^ LENGTH('a) - 1" using that unat_minus_one_max [where ?'a = 'a] by (simp add: word_unat_eq_iff)
  moreover have "unat x < 2 ^ LENGTH('a)" by (rule unsigned_less)
  ultimately have "unat x + 1 < 2 ^ LENGTH('a)" by linarith
  then show ?thesis by (simp add: word_less_nat_alt unat_word_ariths)
qed

lemma length_update_first [simp]: "length (update_first P f xs) = length xs"
  by (induction xs) auto

lemma length_push_evict: "length xs \<le> n \<Longrightarrow> 0 < n \<Longrightarrow> length (push_evict n x xs) \<le> n"
  by (auto simp: push_evict_def)

lemma set_push_evict: "set (push_evict n x xs) \<subseteq> insert x (set xs)"
  using list.set_sel(2) [of xs] by (cases xs) (auto simp: push_evict_def)

lemma find_update_first:
  "(\<And>x. P x \<Longrightarrow> P (f x)) \<Longrightarrow> find P (update_first P f xs) = map_option f (find P xs)"
  by (induction xs) auto

lemma find_update_first_other:
  "(\<And>x. P x \<Longrightarrow> \<not> Q x) \<Longrightarrow> (\<And>x. P x \<Longrightarrow> \<not> Q (f x)) \<Longrightarrow> find Q (update_first P f xs) = find Q xs"
  by (induction xs) auto

lemma set_update_first:
  "x \<in> set (update_first P f xs) \<Longrightarrow> x \<in> set xs \<or> (\<exists>y \<in> set xs. P y \<and> x = f y)"
  by (induction xs) (auto split: if_splits)

lemma length_remove_first: "length (remove_first P xs) \<le> length xs"
  by (induction xs) auto

lemma set_remove_first: "set (remove_first P xs) \<subseteq> set xs"
  by (induction xs) auto

lemma find_remove_first_other:
  "(\<And>x. P x \<Longrightarrow> \<not> Q x) \<Longrightarrow> find Q (remove_first P xs) = find Q xs"
  by (induction xs) auto

lemma update_first_none: "find P xs = None \<Longrightarrow> update_first P f xs = xs"
  by (induction xs) (auto split: if_splits)

lemma remove_first_none: "find P xs = None \<Longrightarrow> remove_first P xs = xs"
  by (induction xs) (auto split: if_splits)

text \<open>
  A table whose entries carry a key: while keys are distinct, a first-match update or removal
  acts on the one entry of that key.
\<close>

locale keyed_table =
  fixes key :: "'a \<Rightarrow> 'k"
begin

abbreviation lookup :: "'k \<Rightarrow> 'a list \<Rightarrow> 'a option" where
  "lookup k xs \<equiv> find (\<lambda>x. key x = k) xs"

lemma map_key_update_first:
  "(\<And>x. key (f x) = key x) \<Longrightarrow> map key (update_first P f xs) = map key xs"
  by (induction xs) auto

lemma lookup_update:
  "(\<And>x. key (f x) = key x) \<Longrightarrow>
   lookup k (update_first (\<lambda>x. key x = k') f xs)
     = (if k = k' then map_option f (lookup k xs) else lookup k xs)"
  by (induction xs) auto

lemma distinct_remove_first:
  "distinct (map key xs) \<Longrightarrow> distinct (map key (remove_first P xs))"
proof (induction xs)
  case (Cons x xs)
  then show ?case using set_remove_first [of P xs] by auto
qed simp

lemma lookup_None: "lookup k xs = None \<longleftrightarrow> k \<notin> key ` set xs"
  by (auto simp: find_None_iff)

lemma lookup_remove:
  "distinct (map key xs) \<Longrightarrow>
   lookup k (remove_first (\<lambda>x. key x = k') xs) = (if k = k' then None else lookup k xs)"
proof (induction xs)
  case (Cons x xs)
  then have "lookup (key x) xs = None" by (simp add: lookup_None)
  with Cons show ?case by auto
qed simp

lemma lookup_append_fresh:
  "k \<notin> key ` set xs \<Longrightarrow> lookup k' (xs @ [x]) = (if k' \<in> key ` set xs then lookup k' xs
     else if key x = k' then Some x else None)"
  by (induction xs) (auto simp: find_None_iff)

end

section \<open>Pages\<close>

lemma and_fff: "x AND 0xfff = of_nat (unat x mod 4096)" "unat (x AND NOT 0xfff) = unat x - unat x mod 4096" for x :: u64
proof -
  have m: "(0xfff :: u64) = mask 12" by (simp add: mask_eq_exp_minus_1)
  have "unat (x AND 0xfff) = unat x mod 4096" unfolding m take_bit_eq_mask [symmetric] unsigned_take_bit_eq by (simp add: take_bit_eq_mod)
  then show "x AND 0xfff = of_nat (unat x mod 4096)" by (metis of_nat_unat ucast_id)
  show "unat (x AND NOT 0xfff) = unat x - unat x mod 4096" using unat_and_not_mask [of 12 x] by simp
qed

text \<open>A page and an offset in it.\<close>

lemma unat_page_offset:
  assumes "4096 dvd unat (p :: u64)" "r < 4096"
  shows "unat (p + of_nat r) = unat p + r"
proof -
  have u: "unat p < 2 ^ 64" using unsigned_less [of p, where ?'a = nat] by simp
  obtain k where k: "unat p = 4096 * k" using assms(1) by blast
  with u have "k < 2 ^ 52" by simp
  then have "unat p + r < 2 ^ 64" using k assms(2) by simp
  moreover have "unat (of_nat r :: u64) = r" using assms(2) by (simp add: unat_of_nat)
  ultimately show ?thesis by (simp add: unat_word_ariths)
qed

lemma page_offset:
  assumes "4096 dvd unat (p :: u64)" "r < 4096"
  shows "(p + of_nat r) AND NOT 0xfff = p" "(p + of_nat r) AND 0xfff = of_nat r"
proof -
  note u = unat_page_offset [OF assms]
  have m: "unat (p + of_nat r) mod 4096 = r" unfolding u using assms by (simp add: mod_add_eq [symmetric, of "unat p"] del: mod_add_eq)
  show "(p + of_nat r) AND 0xfff = of_nat r" by (simp only: and_fff(1) m)
  show "(p + of_nat r) AND NOT 0xfff = p" using and_fff(2) [of "p + of_nat r"] m u by (simp add: word_unat_eq_iff)
qed

lemma page_split: "x = (x AND NOT 0xfff) + of_nat (unat x mod 4096)" "4096 dvd unat (x AND NOT 0xfff)" for x :: u64
proof -
  show d: "4096 dvd unat (x AND NOT 0xfff)" unfolding and_fff(2) minus_mod_eq_div_mult by simp
  show "x = (x AND NOT 0xfff) + of_nat (unat x mod 4096)"
  proof -
    have "unat ((x AND NOT 0xfff) + of_nat (unat x mod 4096)) = unat (x AND NOT 0xfff) + unat x mod 4096"
      by (rule unat_page_offset [OF d]) simp
    then show ?thesis unfolding and_fff(2) word_unat_eq_iff by simp
  qed
qed

text \<open>The bytes of two pages are apart.\<close>

lemma pages_distinct_bytes:
  assumes "4096 dvd unat (u :: u64)" "4096 dvd unat f" "r < 4096"
  shows "unat (u + of_nat r - f) < 4096 \<longleftrightarrow> u = f" "u + of_nat r = f + of_nat k \<Longrightarrow> k < 4096 \<Longrightarrow> u = f \<and> r = k"
proof -
  have d: "4096 dvd unat (u - f)"
  proof -
    have "unat (u - f) = (if unat f \<le> unat u then unat u - unat f else unat u + 2 ^ 64 - unat f)" by (simp add: unat_sub_if')
    moreover have "4096 dvd unat u + 2 ^ 64 - unat f" using assms(1,2) by (intro dvd_diff_nat) simp_all
    ultimately show ?thesis using assms(1,2) by simp
  qed
  have e: "u + of_nat r - f = (u - f) + of_nat r" by simp
  show "unat (u + of_nat r - f) < 4096 \<longleftrightarrow> u = f"
  proof
    assume "unat (u + of_nat r - f) < 4096"
    then have "unat (u - f) < 4096" unfolding e unat_page_offset [OF d assms(3)] by simp
    then have "unat (u - f) = 0" using d by (auto elim: dvdE)
    then show "u = f" by (simp add: unat_eq_zero)
  qed (use assms(3) in \<open>simp add: unat_of_nat\<close>)
  show "u = f \<and> r = k" if "u + of_nat r = f + of_nat k" "k < 4096"
  proof -
    have "u = f" using page_offset(1) [OF assms(1,3)] page_offset(1) [OF assms(2) that(2)] that(1) by metis
    moreover have "unat u + r = unat f + k" using that unat_page_offset [OF assms(1,3)] unat_page_offset [OF assms(2) that(2)] by metis
    ultimately show ?thesis by simp
  qed
qed

lemma aligned_add: "4096 dvd unat p \<Longrightarrow> 4096 dvd unat (p + of_nat j * 4096)" for p :: u64
proof -
  assume "4096 dvd unat p"
  moreover have "unat (p + of_nat j * 4096) = (unat p + j * 4096) mod 2 ^ 64"
  proof -
    have "p + of_nat j * 4096 = of_nat (unat p + j * 4096)" by simp
    then show ?thesis by (simp only: unat_of_nat) (simp add: take_bit_eq_mod)
  qed
  ultimately show ?thesis by (simp add: dvd_mod)
qed

end
