(* ===== verification/Align.thy ===== *)
theory Align
  imports Prelude
begin

text \<open>
  \<^verbatim>\<open>kernel/utils/align.rs\<close>: rounding an address down or up to a power-of-two boundary. Both
  functions assert that the alignment is a power of two; \<open>align_up\<close> also panics when
  \<open>x + a\<close> overflows.
\<close>

definition align_down :: "u64 \<Rightarrow> u64 \<Rightarrow> u64 option" where
  "align_down x a = do {
     assert_that (is_power_of_two a);
     Some (x AND NOT (a - 1))
   }"

definition align_up :: "u64 \<Rightarrow> u64 \<Rightarrow> u64 option" where
  "align_up x a = do {
     assert_that (is_power_of_two a);
     y \<leftarrow> checked_add x a;
     Some ((y - 1) AND NOT (a - 1))
   }"

lemma align_down_pow2:
  assumes "k < 64"
  shows "\<exists>y. align_down x (2 ^ k) = Some y \<and> unat y = unat x - unat x mod 2 ^ k"
proof -
  have "is_power_of_two (2 ^ k :: u64)"
    using assms by (auto simp: is_power_of_two_iff)
  moreover have "unat (x AND NOT (2 ^ k - 1)) = unat x - unat x mod 2 ^ k"
    using assms by (intro unat_and_not_mask) simp
  ultimately show ?thesis by (simp add: align_down_def assert_that_def)
qed

lemma align_up_pow2:
  assumes "k < 64" and "unat x + 2 ^ k < 2 ^ 64"
  shows "\<exists>y. align_up x (2 ^ k) = Some y
    \<and> unat y = (unat x + 2 ^ k - 1) - (unat x + 2 ^ k - 1) mod 2 ^ k"
proof -
  have p: "is_power_of_two (2 ^ k :: u64)"
    using assms by (auto simp: is_power_of_two_iff)
  have u: "unat (2 ^ k :: u64) = 2 ^ k"
    using assms(1) by (simp add: unat_pow2)
  then have s: "unat (x + 2 ^ k) = unat x + 2 ^ k"
    using assms(2) by (simp add: unat_word_ariths)
  then have "x + 2 ^ k \<noteq> 0" by (metis add_is_0 power_not_zero unat_0 zero_neq_numeral)
  then have "unat (x + 2 ^ k - 1) = unat x + 2 ^ k - 1"
    by (simp add: unat_minus_one s)
  moreover have "unat ((x + 2 ^ k - 1) AND NOT (2 ^ k - 1))
      = unat (x + 2 ^ k - 1) - unat (x + 2 ^ k - 1) mod 2 ^ k"
    using assms(1) by (intro unat_and_not_mask) simp
  ultimately show ?thesis
    using p u assms(2) by (simp add: align_up_def assert_that_def checked_add_def)
qed

text \<open>The instances every caller uses: rounding to the 4 KiB page.\<close>

lemma align_down_page: "\<exists>y. align_down x 4096 = Some y \<and> unat y = 4096 * (unat x div 4096)"
proof -
  have "\<exists>y. align_down x (2 ^ 12) = Some y \<and> unat y = unat x - unat x mod 2 ^ 12"
    by (rule align_down_pow2) simp
  then show ?thesis by (simp add: minus_mod_eq_mult_div)
qed

lemma align_up_page:
  assumes "unat x + 4096 < 2 ^ 64"
  shows "\<exists>y. align_up x 4096 = Some y \<and> unat y = 4096 * ((unat x + 4095) div 4096)"
proof -
  have "\<exists>y. align_up x (2 ^ 12) = Some y
    \<and> unat y = (unat x + 2 ^ 12 - 1) - (unat x + 2 ^ 12 - 1) mod 2 ^ 12"
    by (rule align_up_pow2) (use assms in simp_all)
  then show ?thesis by (simp add: minus_mod_eq_mult_div add.commute)
qed

end
