(* ===== verification/Bitset.thy ===== *)
theory Bitset
  imports Prelude
begin

text \<open>
  \<^verbatim>\<open>kernel/utils/bitset.rs\<close>: a fixed array of 64-bit words used as a set of small indices, the
  bitmap of both the physical frame pool and the virtual arena. \<open>WORDS\<close> is the length of
  \<open>storage\<close>; an index beyond it panics. The abstraction \<open>bits\<close> reads a bitset as a predicate
  on indices, and every operation is specified against it. The locale \<open>index_set\<close> states
  the contract that the two allocators rely on.
\<close>

record bitset =
  storage :: "u64 list"

definition bitset_new :: "nat \<Rightarrow> bitset" where
  "bitset_new WORDS = \<lparr>storage = replicate WORDS 0\<rparr>"

definition get_unchecked :: "bitset \<Rightarrow> nat \<Rightarrow> bool option" where
  "get_unchecked s i =
     (let w = i div 64; b = i mod 64
      in if w < length (storage s) then Some (drop_bit b (storage s ! w) AND 1 = 1) else None)"

definition set_unchecked :: "bitset \<Rightarrow> nat \<Rightarrow> bool \<Rightarrow> bitset option" where
  "set_unchecked s i v =
     (let w = i div 64; b = i mod 64
      in if w < length (storage s)
         then Some (s\<lparr>storage := (storage s)[w :=
                (if v then storage s ! w OR push_bit b 1
                 else storage s ! w AND NOT (push_bit b 1))]\<rparr>)
         else None)"

text \<open>\<open>self.storage[w] = x\<close>, and the read-modify-write of one word.\<close>

definition upd_word :: "nat \<Rightarrow> (u64 \<Rightarrow> u64) \<Rightarrow> bitset \<Rightarrow> bitset option" where
  "upd_word w f s =
     (if w < length (storage s) then Some (s\<lparr>storage := (storage s)[w := f (storage s ! w)]\<rparr>)
      else None)"

definition fill_tracked :: "bitset \<Rightarrow> nat \<Rightarrow> bool \<Rightarrow> bitset option" where
  "fill_tracked s tracked v =
     (let full_words = tracked div 64; rem_bits = tracked mod 64 in
      if v then do {
        s \<leftarrow> foldM (\<lambda>w. upd_word w (\<lambda>_. - 1)) [0..<full_words] s;
        if rem_bits > 0 then upd_word full_words (\<lambda>x. x OR (push_bit rem_bits 1 - 1)) s else Some s
      } else do {
        s \<leftarrow> foldM (\<lambda>w. upd_word w (\<lambda>_. 0)) [0..<full_words] s;
        if rem_bits > 0 then upd_word full_words (\<lambda>x. x AND NOT (push_bit rem_bits 1 - 1)) s
        else Some s
      })"

definition set_range :: "bitset \<Rightarrow> nat \<Rightarrow> nat \<Rightarrow> nat \<Rightarrow> bool \<Rightarrow> bitset option" where
  "set_range st start end tracked v =
     (let s = min start tracked; e = min end tracked in
      if s \<ge> e then Some st
      else foldM (\<lambda>i st. set_unchecked st i v) [s..<e] st)"

text \<open>The scan over the full words: the inner \<open>None\<close> is "no word had a clear bit".\<close>

fun first_free_words :: "bitset \<Rightarrow> nat list \<Rightarrow> nat option option" where
  "first_free_words s [] = Some None"
| "first_free_words s (w # ws) =
     (if w < length (storage s)
      then (if storage s ! w \<noteq> - 1
            then Some (Some (w * 64 + trailing_zeros (NOT (storage s ! w))))
            else first_free_words s ws)
      else None)"

definition first_free :: "bitset \<Rightarrow> nat \<Rightarrow> nat option option" where
  "first_free s tracked =
     (if tracked = 0 then Some None else
      let full_words = tracked div 64; rem_bits = tracked mod 64 in
      case first_free_words s [0..<full_words] of
        None \<Rightarrow> None
      | Some (Some i) \<Rightarrow> Some (Some i)
      | Some None \<Rightarrow>
          (if rem_bits > 0 then
             (if full_words < length (storage s) then
                (let valid_mask = push_bit rem_bits 1 - 1;
                     masked = storage s ! full_words OR NOT valid_mask in
                 if masked \<noteq> - 1 then
                   (let bt = trailing_zeros (NOT masked) in do {
                      assert_that (bt < rem_bits);
                      Some (Some (full_words * 64 + bt)) })
                 else Some None)
              else None)
           else Some None))"

text \<open>The loop of \<open>find_run\<close>: the remaining indices, the current run and its start.\<close>

fun find_run_loop :: "bitset \<Rightarrow> nat \<Rightarrow> nat list \<Rightarrow> nat \<Rightarrow> nat \<Rightarrow> nat option option" where
  "find_run_loop s n [] run start = Some None"
| "find_run_loop s n (i # is) run start =
     (case get_unchecked s i of
        None \<Rightarrow> None
      | Some b \<Rightarrow>
          (if \<not> b then
             (let start' = (if run = 0 then i else start) in
              if run + 1 = n then Some (Some start') else find_run_loop s n is (run + 1) start')
           else find_run_loop s n is 0 start))"

definition find_run :: "bitset \<Rightarrow> nat \<Rightarrow> nat \<Rightarrow> nat option option" where
  "find_run s tracked n =
     (if n = 0 \<or> n > tracked then Some None else find_run_loop s n [0..<tracked] 0 0)"

section \<open>Abstraction\<close>

definition capacity_bits :: "bitset \<Rightarrow> nat" where
  "capacity_bits s = 64 * length (storage s)"

definition bits :: "bitset \<Rightarrow> nat \<Rightarrow> bool" where
  "bits s i \<longleftrightarrow> i < capacity_bits s \<and> bit (storage s ! (i div 64)) (i mod 64)"

lemma div64_less_iff: "i div 64 < n \<longleftrightarrow> i < 64 * n" for i n :: nat
  by auto

lemma div_mod_64_neq: "i \<noteq> j \<Longrightarrow> i div 64 = j div 64 \<Longrightarrow> i mod 64 \<noteq> j mod 64" for i j :: nat
  by (metis div_mult_mod_eq)

lemma get_unchecked_eq:
  "get_unchecked s i = (if i < capacity_bits s then Some (bits s i) else None)"
  by (simp add: get_unchecked_def bits_def capacity_bits_def div64_less_iff Let_def
      and_one_eq odd_iff_mod_2_eq_one [symmetric] bit_iff_odd_drop_bit)

lemma capacity_upd_word:
  "upd_word w f s = Some s' \<Longrightarrow> capacity_bits s' = capacity_bits s"
  by (auto simp: upd_word_def capacity_bits_def split: if_splits)

lemma set_unchecked_spec:
  assumes "i < capacity_bits s"
  shows "\<exists>s'. set_unchecked s i v = Some s' \<and> bits s' = (bits s)(i := v)
    \<and> capacity_bits s' = capacity_bits s"
proof -
  let ?s' = "the (set_unchecked s i v)"
  have w: "i div 64 < length (storage s)"
    using assms by (simp add: capacity_bits_def div64_less_iff)
  have "bits ?s' j = ((bits s)(i := v)) j" for j
  proof (cases "j div 64 = i div 64")
    case True
    have m: "i mod 64 < 64" "j mod 64 < 64" by simp_all
    show ?thesis
    proof (cases "j = i")
      case True
      with w m show ?thesis
        by (auto simp: set_unchecked_def bits_def capacity_bits_def Let_def div64_less_iff bit_simps)
    next
      case False
      from False True have "j mod 64 \<noteq> i mod 64" by (rule div_mod_64_neq)
      with True False w m show ?thesis
        by (auto simp: set_unchecked_def bits_def capacity_bits_def Let_def div64_less_iff bit_simps)
    qed
  next
    case False
    then show ?thesis
      using w by (auto simp: set_unchecked_def bits_def capacity_bits_def Let_def)
  qed
  moreover have "set_unchecked s i v = Some ?s'" "capacity_bits ?s' = capacity_bits s"
    using w by (auto simp: set_unchecked_def capacity_bits_def Let_def)
  ultimately show ?thesis by blast
qed

lemma bits_beyond: "bits s i \<Longrightarrow> i < capacity_bits s"
  by (simp add: bits_def)

lemma bits_bitset_new [simp]: "bits (bitset_new n) i = False"
  by (auto simp: bits_def bitset_new_def capacity_bits_def div64_less_iff)

lemma capacity_bitset_new [simp]: "capacity_bits (bitset_new n) = 64 * n"
  by (simp add: capacity_bits_def bitset_new_def)

section \<open>\<open>set_range\<close> and \<open>fill_tracked\<close>\<close>

lemma set_range_spec:
  assumes "min end tracked \<le> capacity_bits s"
  shows "\<exists>s'. set_range s start end tracked v = Some s'
    \<and> capacity_bits s' = capacity_bits s
    \<and> bits s' = (\<lambda>i. if start \<le> i \<and> i < end \<and> i < tracked then v else bits s i)"
proof (cases "min start tracked < min end tracked")
  case False
  then show ?thesis by (auto simp: set_range_def Let_def fun_eq_iff)
next
  case True
  let ?s = "min start tracked" and ?e = "min end tracked"
  let ?P = "\<lambda>k t. capacity_bits t = capacity_bits s
    \<and> bits t = (\<lambda>i. if ?s \<le> i \<and> i < k then v else bits s i)"
  have "\<exists>t'. foldM (\<lambda>i st. set_unchecked st i v) [?s..<?e] s = Some t' \<and> ?P ?e t'"
  proof (rule foldM_range_rule [where P = ?P])
    fix k t assume k: "?s \<le> k" "k < ?e" and P: "?P k t"
    with assms have "k < capacity_bits t" by (simp add: min_def split: if_splits)
    from set_unchecked_spec [OF this, of v] k P
    show "\<exists>t'. set_unchecked t k v = Some t' \<and> ?P (Suc k) t'"
      by (auto simp: fun_eq_iff less_Suc_eq)
  qed (use True in \<open>auto simp: fun_eq_iff\<close>)
  with True show ?thesis by (auto simp: set_range_def Let_def fun_eq_iff)
qed

lemma upd_word_spec:
  assumes "64 * w < capacity_bits s"
  shows "\<exists>s'. upd_word w f s = Some s' \<and> capacity_bits s' = capacity_bits s
    \<and> bits s' = (\<lambda>i. if i div 64 = w then bit (f (storage s ! w)) (i mod 64) else bits s i)"
  using assms by (auto simp: upd_word_def capacity_bits_def bits_def fun_eq_iff div64_less_iff)

text \<open>The loop over full words writes whole words of a constant.\<close>

lemma fill_words_spec:
  assumes "64 * n \<le> capacity_bits s" and "\<And>j. j < 64 \<Longrightarrow> bit c j = v"
  shows "\<exists>s'. foldM (\<lambda>w. upd_word w (\<lambda>_. c)) [0..<n] s = Some s'
    \<and> capacity_bits s' = capacity_bits s
    \<and> bits s' = (\<lambda>i. if i < 64 * n then v else bits s i)"
proof -
  let ?P = "\<lambda>k t. capacity_bits t = capacity_bits s
    \<and> bits t = (\<lambda>i. if i < 64 * k then v else bits s i)"
  have "\<exists>t'. foldM (\<lambda>w. upd_word w (\<lambda>_. c)) [0..<n] s = Some t' \<and> ?P n t'"
  proof (rule foldM_range_rule [where P = ?P])
    fix k t assume k: "0 \<le> k" "k < n" and P: "?P k t"
    with assms(1) have "64 * k < capacity_bits t" by simp
    from upd_word_spec [OF this, of "\<lambda>_. c"] P assms(2)
    show "\<exists>t'. upd_word k (\<lambda>_. c) t = Some t' \<and> ?P (Suc k) t'"
      by (auto simp: fun_eq_iff)
  qed auto
  then show ?thesis by simp
qed

lemma low_mask_bit: "r < 64 \<Longrightarrow> bit (2 ^ r - 1 :: u64) j \<longleftrightarrow> j < r"
  by (auto simp: mask_eq_exp_minus_1 [symmetric] bit_mask_iff)

lemma fill_rem_spec:
  assumes "r < 64" "0 < r" and "64 * n < capacity_bits s"
  shows "\<exists>s'. upd_word n (if v then (\<lambda>x. x OR (push_bit r 1 - 1))
        else (\<lambda>x. x AND NOT (push_bit r 1 - 1))) s = Some s'
    \<and> capacity_bits s' = capacity_bits s
    \<and> bits s' = (\<lambda>i. if 64 * n \<le> i \<and> i < 64 * n + r then v else bits s i)"
proof -
  let ?f = "if v then (\<lambda>x. x OR (push_bit r 1 - 1)) else (\<lambda>x. x AND NOT (push_bit r 1 - 1)) :: u64 \<Rightarrow> u64"
  obtain s' where s': "upd_word n ?f s = Some s'" "capacity_bits s' = capacity_bits s"
    "bits s' = (\<lambda>i. if i div 64 = n then bit (?f (storage s ! n)) (i mod 64) else bits s i)"
    using upd_word_spec [OF assms(3)] by blast
  have "bits s' i = (if 64 * n \<le> i \<and> i < 64 * n + r then v else bits s i)" for i
  proof (cases "i div 64 = n")
    case True
    then have i: "i = 64 * n + i mod 64" by auto
    have m: "i mod 64 < 64" by simp
    have "i < capacity_bits s"
      using assms(3) True by (auto simp: capacity_bits_def)
    then have b: "bits s i = bit (storage s ! n) (i mod 64)" using True by (simp add: bits_def)
    have lt: "i < 64 * n + r \<longleftrightarrow> i mod 64 < r" "64 * n \<le> i" using i by linarith+
    show ?thesis
      unfolding s'(3) using True m
      by (cases v) (simp_all add: b lt bit_simps low_mask_bit assms(1))
  next
    case False
    then have "\<not> (64 * n \<le> i \<and> i < 64 * n + r)" using assms(1) by auto
    with False show ?thesis unfolding s'(3) by auto
  qed
  with s'(1,2) show ?thesis by (auto simp: fun_eq_iff)
qed

text \<open>\<open>fill_tracked\<close> writes exactly the tracked indices.\<close>

lemma fill_tracked_spec:
  assumes "tracked \<le> capacity_bits s"
  shows "\<exists>s'. fill_tracked s tracked v = Some s'
    \<and> capacity_bits s' = capacity_bits s
    \<and> bits s' = (\<lambda>i. if i < tracked then v else bits s i)"
proof -
  let ?n = "tracked div 64" and ?r = "tracked mod 64"
  let ?c = "if v then - 1 else 0 :: u64"
  have n: "64 * ?n \<le> capacity_bits s" using assms times_div_less_eq_dividend [of 64 tracked] by linarith
  have tr: "tracked = 64 * ?n + ?r" by simp
  obtain t where t: "foldM (\<lambda>w. upd_word w (\<lambda>_. ?c)) [0..<?n] s = Some t"
      "capacity_bits t = capacity_bits s" "bits t = (\<lambda>i. if i < 64 * ?n then v else bits s i)"
  proof -
    have "bit ?c j = v" if "j < 64" for j using that by simp
    from fill_words_spec [OF n this] that show thesis by blast
  qed
  show ?thesis
  proof (cases "?r = 0")
    case True
    with t tr show ?thesis by (auto simp: fill_tracked_def Let_def)
  next
    case False
    have "64 * ?n < capacity_bits t" using False assms t(2) tr by linarith
    from fill_rem_spec [OF _ _ this, of ?r v] False
    obtain t' where "upd_word ?n (if v then (\<lambda>x. x OR (push_bit ?r 1 - 1))
        else (\<lambda>x. x AND NOT (push_bit ?r 1 - 1))) t = Some t'"
      "capacity_bits t' = capacity_bits t"
      "bits t' = (\<lambda>i. if 64 * ?n \<le> i \<and> i < 64 * ?n + ?r then v else bits t i)" by auto
    with t False show ?thesis
      by (cases v) (auto simp: fill_tracked_def Let_def fun_eq_iff)
  qed
qed

section \<open>\<open>first_free\<close> returns the least clear index\<close>

lemma word_scan:
  fixes x :: u64
  assumes "w < length (storage s)" and "m \<le> 64"
    and x: "\<And>j. j < 64 \<Longrightarrow> bit x j \<longleftrightarrow> bit (storage s ! w) j \<or> m \<le> j"
  shows "find (\<lambda>i. \<not> bits s i) [64 * w..<64 * w + m]
    = (if x = - 1 then None else Some (64 * w + trailing_zeros (NOT x)))
    \<and> (x \<noteq> - 1 \<longrightarrow> trailing_zeros (NOT x) < m)"
proof -
  have b: "bits s (64 * w + j) \<longleftrightarrow> bit (storage s ! w) j" if "j < 64" for j
    using that assms(1) by (auto simp: bits_def capacity_bits_def)
  have split: "\<exists>j. i = 64 * w + j \<and> j < m" if "64 * w \<le> i" "i < 64 * w + m" for i
    using that by (intro exI [of _ "i - 64 * w"]) auto
  show ?thesis
  proof (cases "x = - 1")
    case True
    then have "bit (storage s ! w) j" if "j < m" for j
      using x [of j] that assms(2) by simp
    with True b assms(2) show ?thesis
      by (auto simp: find_range_None dest!: split)
  next
    case False
    have "NOT x \<noteq> 0"
    proof
      assume "NOT x = 0"
      then have "NOT (NOT x) = NOT 0" by simp
      with False show False by simp
    qed
    from trailing_zeros_least [OF this]
    have tz: "trailing_zeros (NOT x) < 64" "\<not> bit x (trailing_zeros (NOT x))"
      "\<And>j. j < trailing_zeros (NOT x) \<Longrightarrow> bit x j"
      by (auto simp: bit_simps)
    then have lt: "trailing_zeros (NOT x) < m" and
      nb: "\<not> bit (storage s ! w) (trailing_zeros (NOT x))" using x by auto
    have "bit (storage s ! w) j" if "j < trailing_zeros (NOT x)" for j
      using tz(3) [OF that] that lt assms(2) x [of j] by auto
    with b lt nb False assms(2) tz(1) show ?thesis
      by (auto simp: find_range_Some dest!: split [OF _ less_trans])
  qed
qed

lemma first_free_words_spec:
  assumes "k \<le> n" and "n \<le> length (storage s)"
  shows "first_free_words s [k..<n] = Some (find (\<lambda>i. \<not> bits s i) [64 * k..<64 * n])"
  using assms
proof (induction k rule: inc_induct)
  case base
  then show ?case by simp
next
  case (step k)
  then have k: "k < length (storage s)" by simp
  have "64 * Suc k \<le> 64 * n" using step by (intro mult_le_mono2) simp
  then have "[64 * k..<64 * n] = [64 * k..<64 * k + 64] @ [64 * Suc k..<64 * n]"
    using upt_append_le [of "64 * k" "64 * k + 64" "64 * n"] by (simp add: add.commute)
  moreover have "find (\<lambda>i. \<not> bits s i) [64 * k..<64 * k + 64]
      = (if storage s ! k = - 1 then None else Some (64 * k + trailing_zeros (NOT (storage s ! k))))"
    using word_scan [OF k, of 64 "storage s ! k"] by auto
  moreover have "[k..<n] = k # [Suc k..<n]" using step by (simp add: upt_conv_Cons)
  ultimately show ?case
    using step k by (cases "storage s ! k = - 1") (simp_all add: find_append mult.commute)
qed

text \<open>
  The word-at-a-time search agrees with the bit-at-a-time one: \<open>first_free\<close> returns the least
  clear index below \<open>tracked\<close>, never panics, and its \<open>debug_assert!\<close> always holds.
\<close>

lemma first_free_eq_find:
  assumes "tracked \<le> capacity_bits s"
  shows "first_free s tracked = Some (find (\<lambda>i. \<not> bits s i) [0..<tracked])"
proof -
  let ?n = "tracked div 64" and ?r = "tracked mod 64"
  have tr: "tracked = 64 * ?n + ?r" by simp
  have n: "?n \<le> length (storage s)"
    using assms by (simp add: capacity_bits_def div_le_mono [of tracked "64 * length (storage s)" 64, simplified])
  have upt: "[0..<tracked] = [0..<64 * ?n] @ [64 * ?n..<64 * ?n + ?r]"
    by (metis tr upt_append_le le_add1 zero_le)
  have ffw: "first_free_words s [0..<?n] = Some (find (\<lambda>i. \<not> bits s i) [0..<64 * ?n])"
    using first_free_words_spec [OF _ n, of 0] by simp
  show ?thesis
  proof (cases "?r = 0")
    case True
    then show ?thesis
      using ffw upt by (auto simp: first_free_def Let_def find_append split: option.splits)
  next
    case False
    then have "64 * ?n < 64 * length (storage s)"
      using assms tr unfolding capacity_bits_def by linarith
    then have lt: "?n < length (storage s)" by simp
    have r: "?r < 64" by simp
    let ?x = "storage s ! ?n OR NOT (push_bit ?r 1 - 1)"
    have "find (\<lambda>i. \<not> bits s i) [64 * ?n..<64 * ?n + ?r]
        = (if ?x = - 1 then None else Some (64 * ?n + trailing_zeros (NOT ?x)))
      \<and> (?x \<noteq> - 1 \<longrightarrow> trailing_zeros (NOT ?x) < ?r)"
      by (rule word_scan [OF lt]) (use r in \<open>auto simp: bit_simps low_mask_bit\<close>)
    with False ffw lt show ?thesis
      unfolding upt find_append
      by (auto simp: first_free_def Let_def assert_that_def mult.commute split: option.splits)
  qed
qed

section \<open>\<open>find_run\<close> returns the least run of clear indices\<close>

text \<open>The reference definition: the least start of \<open>n\<close> consecutive clear indices below \<open>tracked\<close>.\<close>

definition clear_run :: "bitset \<Rightarrow> nat \<Rightarrow> nat \<Rightarrow> nat \<Rightarrow> bool" where
  "clear_run s tracked n i \<longleftrightarrow> i + n \<le> tracked \<and> (\<forall>j < n. \<not> bits s (i + j))"

text \<open>
  The loop invariant at index \<open>i\<close>: the last \<open>run\<close> indices are clear and start at \<open>start\<close>, and no
  full run starts before the current one.
\<close>

lemma find_run_loop_spec:
  assumes "tracked \<le> capacity_bits s" "i \<le> tracked" "run < n" "run \<le> i"
    and "run > 0 \<longrightarrow> start = i - run"
    and "\<forall>j. i - run \<le> j \<and> j < i \<longrightarrow> \<not> bits s j"
    and "\<forall>k < i - run. \<not> clear_run s tracked n k"
  shows "find_run_loop s n [i..<tracked] run start = Some (find (clear_run s tracked n) [0..<tracked])"
  using assms(2-)
proof (induction "tracked - i" arbitrary: i run start)
  case 0
  have "\<not> clear_run s tracked n k" if "k < tracked" for k
    using 0 that by (cases "k < i - run") (auto simp: clear_run_def)
  then have "find (clear_run s tracked n) [0..<tracked] = None" by (simp add: find_range_None)
  with 0 show ?case by simp
next
  case (Suc d)
  then have i: "i < tracked" "i < capacity_bits s" using assms(1) by auto
  let ?start = "if run = 0 then i else start"
  have st: "?start = i - run" using Suc.prems by auto
  consider (used) "bits s i" | (full) "\<not> bits s i" "run + 1 = n" | (more) "\<not> bits s i" "run + 1 < n"
    using Suc.prems(2) by linarith
  then show ?case
  proof cases
    case used
    have "\<not> clear_run s tracked n k" if "k < i + 1" for k
    proof (cases "k < i - run")
      case False
      with that used Suc.prems(2,3) show ?thesis
        by (auto simp: clear_run_def intro!: exI [of _ "i - k"])
    qed (use Suc.prems in simp)
    moreover have "find_run_loop s n [i..<tracked] run start = find_run_loop s n [i + 1..<tracked] 0 start"
      using i used by (simp add: upt_conv_Cons get_unchecked_eq)
    moreover have "\<forall>j. i + 1 - 0 \<le> j \<and> j < i + 1 \<longrightarrow> \<not> bits s j" "d = tracked - (i + 1)"
      using Suc.hyps(2) by linarith+
    ultimately show ?thesis
      using Suc.hyps(1) [of "i + 1" 0 start] Suc.prems(2) i by simp
  next
    case full
    have "clear_run s tracked n (i - run)"
      unfolding clear_run_def
    proof (intro conjI allI impI)
      show "i - run + n \<le> tracked" using full i Suc.prems(3) by linarith
      fix j assume "j < n"
      then have "i - run + j = i \<or> (i - run \<le> i - run + j \<and> i - run + j < i)"
        using full Suc.prems(3) by linarith
      then show "\<not> bits s (i - run + j)" using full Suc.prems(5) by metis
    qed
    then have "find (clear_run s tracked n) [0..<tracked] = Some (i - run)"
      using i Suc.prems by (auto simp: find_range_Some)
    with full i st show ?thesis by (simp add: upt_conv_Cons get_unchecked_eq Let_def)
  next
    case more
    have "find_run_loop s n [i..<tracked] run start = find_run_loop s n [i + 1..<tracked] (run + 1) ?start"
      using i more by (simp add: upt_conv_Cons get_unchecked_eq Let_def)
    moreover have "\<forall>j. i + 1 - (run + 1) \<le> j \<and> j < i + 1 \<longrightarrow> \<not> bits s j"
      using more Suc.prems(5) by (auto simp: less_Suc_eq)
    ultimately show ?thesis
      using Suc.hyps(1) [of "i + 1" "run + 1" ?start] Suc.hyps(2) Suc.prems(3,6) i more st by simp
  qed
qed

lemma find_run_eq_find:
  assumes "tracked \<le> capacity_bits s"
  shows "find_run s tracked n
    = Some (if n = 0 then None else find (clear_run s tracked n) [0..<tracked])"
proof (cases "n = 0 \<or> n > tracked")
  case True
  then have "n \<noteq> 0 \<Longrightarrow> find (clear_run s tracked n) [0..<tracked] = None"
    by (simp add: find_range_None clear_run_def)
  with True show ?thesis by (simp add: find_run_def)
next
  case False
  then show ?thesis
    using find_run_loop_spec [OF assms, of 0 0 n 0] by (simp add: find_run_def)
qed

section \<open>Properties\<close>

text \<open>
  For every bitmap and every tracked range it covers, \<open>first_free\<close> does not panic and returns
  the least clear index, or \<open>None\<close> exactly when every tracked index is set.
\<close>

lemma first_free_least:
  assumes "tracked \<le> capacity_bits s"
  shows "(\<forall>i. first_free s tracked = Some (Some i)
            \<longleftrightarrow> i < tracked \<and> \<not> bits s i \<and> (\<forall>j < i. bits s j))
       \<and> (first_free s tracked = Some None \<longleftrightarrow> (\<forall>i < tracked. bits s i))
       \<and> first_free s tracked \<noteq> None"
  using first_free_eq_find [OF assms] by (auto simp: find_range_None find_range_Some)

lemma first_free_least_example:
  "first_free \<lparr>storage = [- 1, 7]\<rparr> 70 = Some (Some 67) \<longleftrightarrow>
     (67 < (70::nat) \<and> \<not> bits \<lparr>storage = [- 1, 7]\<rparr> 67 \<and> (\<forall>j < 67. bits \<lparr>storage = [- 1, 7]\<rparr> j))"
  using first_free_least [of 70 "\<lparr>storage = [- 1, 7]\<rparr>"] by (simp add: capacity_bits_def)

text \<open>
  C38: \<open>find_run\<close> returns the least start of a run of \<open>n\<close> clear indices inside the tracked range,
  and \<open>None\<close> exactly when \<open>n\<close> is zero or there is no such run.
\<close>

theorem find_run_least:
  assumes "tracked \<le> capacity_bits s"
  shows "(\<forall>i. find_run s tracked n = Some (Some i)
            \<longleftrightarrow> 0 < n \<and> i + n \<le> tracked \<and> (\<forall>k < n. \<not> bits s (i + k))
              \<and> (\<forall>j < i. \<exists>k < n. bits s (j + k)))
       \<and> (find_run s tracked n = Some None
            \<longleftrightarrow> n = 0 \<or> (\<forall>i. i + n \<le> tracked \<longrightarrow> (\<exists>k < n. bits s (i + k))))"
proof (cases "n = 0")
  case True
  then show ?thesis using find_run_eq_find [OF assms, of n] by simp
next
  case False
  have lt: "i + n \<le> tracked \<Longrightarrow> i < tracked" for i using False by simp
  have "clear_run s tracked n j \<longleftrightarrow> (\<forall>k < n. \<not> bits s (j + k))" if "j < i" "i + n \<le> tracked" for i j
    using that by (auto simp: clear_run_def)
  then show ?thesis
    using find_run_eq_find [OF assms, of n] False
    by (auto simp: find_range_None find_range_Some clear_run_def dest: lt)
qed

theorem find_run_least_witness:
  "find_run \<lparr>storage = [5, 0]\<rparr> 100 2 = Some (Some 3)"
proof -
  have b: "bits \<lparr>storage = [5, 0]\<rparr> 0" "\<not> bits \<lparr>storage = [5, 0]\<rparr> 1" "bits \<lparr>storage = [5, 0]\<rparr> 2"
    "\<not> bits \<lparr>storage = [5, 0]\<rparr> 3" "\<not> bits \<lparr>storage = [5, 0]\<rparr> 4"
    by (code_simp)+
  have "(\<forall>k < 2. \<not> bits \<lparr>storage = [5, 0]\<rparr> (3 + k)) \<and> (\<forall>j < 3. \<exists>k < 2. bits \<lparr>storage = [5, 0]\<rparr> (j + k))"
    using b by (auto simp: numeral_eq_Suc less_Suc_eq)
  then show ?thesis
    using find_run_least [of 100 "\<lparr>storage = [5, 0]\<rparr>" 2] by (simp add: capacity_bits_def)
qed

text \<open>
  The bulk writes are exact. \<open>fill_tracked\<close> writes the indices below \<open>tracked\<close> and
  \<open>set_range\<close> those of the clipped range; every other index keeps its value and nothing panics.
\<close>

lemma bulk_writes_exact:
  assumes "tracked \<le> capacity_bits s"
  shows "(\<exists>s'. fill_tracked s tracked v = Some s' \<and> (\<forall>i. bits s' i \<longleftrightarrow> (if i < tracked then v else bits s i)))
       \<and> (\<exists>s'. set_range s start end tracked v = Some s'
            \<and> (\<forall>i. bits s' i \<longleftrightarrow> (if start \<le> i \<and> i < end \<and> i < tracked then v else bits s i)))"
proof -
  have "min end tracked \<le> capacity_bits s" using assms by simp
  from set_range_spec [OF this, of start v] fill_tracked_spec [OF assms, of v] show ?thesis by auto
qed

lemma bulk_writes_exact_example:
  "\<exists>s'. set_range \<lparr>storage = [0, 0]\<rparr> 60 200 70 True = Some s'
     \<and> (\<forall>i. bits s' i \<longleftrightarrow> (if 60 \<le> i \<and> i < 200 \<and> i < 70 then True else bits \<lparr>storage = [0, 0]\<rparr> i))"
  using bulk_writes_exact [of 70 "\<lparr>storage = [0, 0]\<rparr>" True 60 200] by (simp add: capacity_bits_def)

end
