(* ===== verification/Frame.thy ===== *)
theory Frame
  imports Align Bitset
begin

text \<open>
  \<^verbatim>\<open>kernel/mm/phys/frame.rs\<close>: the pool of physical 4 KiB frames, a bitmap over the physical
  range that the boot loader's memory map spans. A set bit is a frame in use (or never
  usable). The \<open>PhysFrame\<close> type is third-party code: a frame is its start
  address, and \<open>PhysFrame::containing_address(PhysAddr::new(pa))\<close> is the parameter \<open>pf\<close>,
  \<open>None\<close> where \<open>PhysAddr::new\<close> panics. What is relied on is \<open>frames_accepted\<close>: an
  aligned frame address of the pool is returned unchanged.

  The abstraction \<open>free_frames\<close> is the set of frame addresses that may be handed out. The
  locale \<open>frame_source\<close> is the contract every client of \<open>frame::alloc\<close> uses.
\<close>

abbreviation FRAME_SIZE :: u64 where "FRAME_SIZE \<equiv> 4096"

record frame_pool =
  base :: u64
  tracked :: nat
  bm :: bitset

text \<open>A memory map entry of the boot loader; \<open>usable\<close> is \<open>entry_type == EntryType::USABLE\<close>.\<close>

record mem_entry =
  e_base :: u64
  e_length :: u64
  usable :: bool

definition frame_pool_new :: "nat \<Rightarrow> frame_pool" where
  "frame_pool_new WORDS = \<lparr>base = 0, tracked = 0, bm = bitset_new WORDS\<rparr>"

definition phys_of_idx :: "frame_pool \<Rightarrow> nat \<Rightarrow> u64 option" where
  "phys_of_idx p idx = do {
     off \<leftarrow> checked_mul (of_nat idx) FRAME_SIZE;
     checked_add (base p) off
   }"

definition idx_of_phys :: "frame_pool \<Rightarrow> u64 \<Rightarrow> nat option" where
  "idx_of_phys p pa =
     (if pa < base p then None
      else let off = pa - base p in
        if off mod FRAME_SIZE \<noteq> 0 then None
        else let idx = unat (off div FRAME_SIZE) in if idx < tracked p then Some idx else None)"

text \<open>The first loop of \<open>init_inner\<close>: the span of the memory map.\<close>

fun memmap_span :: "mem_entry list \<Rightarrow> u64 \<Rightarrow> u64 \<Rightarrow> u64 \<times> u64" where
  "memmap_span [] min_base max_end = (min_base, max_end)"
| "memmap_span (e # es) min_base max_end =
     (let b = e_base e; en = saturating_add b (e_length e)
      in memmap_span es (if b < min_base then b else min_base) (if en > max_end then en else max_end))"

text \<open>The body of the second loop: clear the bits of one usable entry.\<close>

definition release_entry :: "mem_entry \<Rightarrow> frame_pool \<Rightarrow> frame_pool option" where
  "release_entry e p =
     (if usable e then do {
        s \<leftarrow> align_up (e_base e) FRAME_SIZE;
        eend \<leftarrow> align_down (saturating_add (e_base e) (e_length e)) FRAME_SIZE;
        if eend \<le> s then Some p else do {
          d0 \<leftarrow> checked_sub s (base p);
          d1 \<leftarrow> checked_sub eend (base p);
          let i0 = unat (d0 div FRAME_SIZE); i1 = unat (d1 div FRAME_SIZE) in
          if i0 \<ge> tracked p then Some p
          else let i1 = (if i1 > tracked p then tracked p else i1) in do {
            b \<leftarrow> set_range (bm p) i0 i1 (tracked p) False;
            Some (p\<lparr>bm := b\<rparr>)
          }
        }
      } else Some p)"

text \<open>\<open>MAX_BITS\<close> is the capacity of the pool's bitmap.\<close>

definition init_inner :: "mem_entry list \<Rightarrow> frame_pool \<Rightarrow> frame_pool option" where
  "init_inner entries p = (let (lo, hi) = memmap_span entries (- 1) 0 in do {
     min_base \<leftarrow> align_down lo FRAME_SIZE;
     max_end \<leftarrow> align_up hi FRAME_SIZE;
     span \<leftarrow> checked_sub max_end min_base;
     let total_frames = unat (span div FRAME_SIZE);
         n = min total_frames (capacity_bits (bm p)) in do {
       b \<leftarrow> fill_tracked (bm p) n True;
       foldM release_entry entries (p\<lparr>base := min_base, tracked := n, bm := b\<rparr>)
     }
   })"

definition try_alloc :: "(u64 \<Rightarrow> u64 option) \<Rightarrow> frame_pool \<Rightarrow> (u64 option \<times> frame_pool) option" where
  "try_alloc pf p =
     (if tracked p = 0 then Some (None, p) else do {
        r \<leftarrow> first_free (bm p) (tracked p);
        case r of
          Some idx \<Rightarrow> do {
            b \<leftarrow> set_unchecked (bm p) idx True;
            pa \<leftarrow> phys_of_idx p idx;
            f \<leftarrow> pf pa;
            Some (Some f, p\<lparr>bm := b\<rparr>)
          }
        | None \<Rightarrow> Some (None, p)
      })"

definition free_inner :: "u64 \<Rightarrow> frame_pool \<Rightarrow> frame_pool option" where
  "free_inner frame p =
     (case idx_of_phys p frame of
        Some idx \<Rightarrow> do { b \<leftarrow> set_unchecked (bm p) idx False; Some (p\<lparr>bm := b\<rparr>) }
      | None \<Rightarrow> Some p)"

section \<open>Invariant and abstraction\<close>

definition frame_at :: "frame_pool \<Rightarrow> nat \<Rightarrow> u64" where
  "frame_at p i = base p + of_nat i * FRAME_SIZE"

definition pool_inv :: "frame_pool \<Rightarrow> bool" where
  "pool_inv p \<longleftrightarrow> unat (base p) mod 4096 = 0 \<and> tracked p \<le> capacity_bits (bm p)
     \<and> unat (base p) + tracked p * 4096 \<le> 2 ^ 52"

definition frames_accepted :: "(u64 \<Rightarrow> u64 option) \<Rightarrow> frame_pool \<Rightarrow> bool" where
  "frames_accepted pf p \<longleftrightarrow> (\<forall>i < tracked p. pf (frame_at p i) = Some (frame_at p i))"

definition pool_ok :: "(u64 \<Rightarrow> u64 option) \<Rightarrow> frame_pool \<Rightarrow> bool" where
  "pool_ok pf p \<longleftrightarrow> pool_inv p \<and> frames_accepted pf p"

definition free_frames :: "frame_pool \<Rightarrow> u64 set" where
  "free_frames p = {frame_at p i | i. i < tracked p \<and> \<not> bits (bm p) i}"

lemma unat_frame_at:
  assumes "pool_inv p" "i \<le> tracked p"
  shows "unat (frame_at p i) = unat (base p) + i * 4096" "unat (of_nat i * FRAME_SIZE) = i * 4096"
proof -
  have b: "unat (base p) + i * 4096 \<le> 2 ^ 52"
    using assms mult_le_mono1 [OF assms(2), of 4096] by (auto simp: pool_inv_def)
  then have i: "i < 2 ^ 64" by simp
  then have "unat (of_nat i :: u64) = i" by (simp add: unat_of_nat)
  then show m: "unat (of_nat i * FRAME_SIZE) = i * 4096"
    using b by (simp add: unat_word_ariths)
  show "unat (frame_at p i) = unat (base p) + i * 4096"
    unfolding frame_at_def using b by (simp only: unat_word_ariths(1) m) simp
qed

lemma frame_at_inj:
  assumes "pool_inv p" "i < tracked p" "j < tracked p"
  shows "frame_at p i = frame_at p j \<longleftrightarrow> i = j"
proof
  assume "frame_at p i = frame_at p j"
  then have "unat (base p) + i * 4096 = unat (base p) + j * 4096"
    using assms by (metis unat_frame_at(1) less_imp_le)
  then show "i = j" by simp
qed simp

lemma phys_of_idx_ok:
  assumes "pool_inv p" "i < tracked p"
  shows "phys_of_idx p i = Some (frame_at p i)"
proof -
  have b: "unat (base p) + i * 4096 \<le> 2 ^ 52"
    using assms mult_le_mono1 [of i "tracked p" 4096] by (auto simp: pool_inv_def)
  then have i: "unat (of_nat i :: u64) = i" by (simp add: unat_of_nat)
  moreover have "unat (of_nat i * FRAME_SIZE) = i * 4096" "i * 4096 < 2 ^ 64"
    using unat_frame_at(2) [OF assms(1), of i] assms(2) b by simp_all
  ultimately show ?thesis
    using b by (simp add: phys_of_idx_def checked_mul_def checked_add_def frame_at_def)
qed

lemma idx_of_phys_frame_at:
  assumes "pool_inv p" "i < tracked p"
  shows "idx_of_phys p (frame_at p i) = Some i"
proof -
  note u = unat_frame_at [OF assms(1) less_imp_le [OF assms(2)]]
  have "frame_at p i - base p = of_nat i * FRAME_SIZE" by (simp add: frame_at_def)
  moreover have "of_nat i * FRAME_SIZE mod FRAME_SIZE = 0" "unat (of_nat i * FRAME_SIZE div FRAME_SIZE) = i"
    using u(2) by (simp_all add: word_eq_iff_unsigned unat_mod_distrib unat_div_distrib
        flip: unat_eq_zero)
  ultimately show ?thesis
    using u(1) assms(2) by (auto simp: idx_of_phys_def Let_def word_less_nat_alt)
qed

lemma idx_of_phys_Some:
  assumes "idx_of_phys p pa = Some i"
  shows "i < tracked p \<and> pa = frame_at p i"
proof -
  from assms have i: "i = unat ((pa - base p) div FRAME_SIZE)" "i < tracked p"
    and m: "(pa - base p) mod FRAME_SIZE = 0"
    by (auto simp: idx_of_phys_def Let_def split: if_splits)
  have "pa - base p = (pa - base p) div FRAME_SIZE * FRAME_SIZE"
    using m by (metis add.right_neutral div_mult_mod_eq)
  then show ?thesis using i by (simp add: frame_at_def algebra_simps)
qed

section \<open>The contract of a frame source\<close>

text \<open>
  What clients of \<open>frame::alloc\<close> rely on: while a frame is available an allocation succeeds,
  hands out an available frame and takes it out of the available set; otherwise it returns
  \<open>None\<close> and changes nothing. The loop \<open>alloc_frames\<close> is the one that \<open>sys_shm_create\<close> and
  the arena share.
\<close>

fun alloc_frames :: "('p \<Rightarrow> ('f option \<times> 'p) option) \<Rightarrow> nat \<Rightarrow> 'p \<Rightarrow> ('f list option \<times> 'p) option" where
  "alloc_frames alloc 0 p = Some (Some [], p)"
| "alloc_frames alloc (Suc n) p =
     (case alloc p of
        None \<Rightarrow> None
      | Some (None, p') \<Rightarrow> Some (None, p')
      | Some (Some f, p') \<Rightarrow>
          (case alloc_frames alloc n p' of
             None \<Rightarrow> None
           | Some (None, p'') \<Rightarrow> Some (None, p'')
           | Some (Some fs, p'') \<Rightarrow> Some (Some (f # fs), p'')))"

locale frame_source =
  fixes alloc :: "'p \<Rightarrow> ('f option \<times> 'p) option"
    and avail :: "'p \<Rightarrow> 'f set"
    and ok :: "'p \<Rightarrow> bool"
  assumes finite_avail: "finite (avail p)"
    and alloc_some: "ok p \<Longrightarrow> avail p \<noteq> {} \<Longrightarrow>
      \<exists>f p'. alloc p = Some (Some f, p') \<and> f \<in> avail p \<and> avail p' = avail p - {f} \<and> ok p'"
    and alloc_none: "ok p \<Longrightarrow> avail p = {} \<Longrightarrow> alloc p = Some (None, p)"
begin

lemma alloc_frames_enough:
  assumes "ok p" and "n \<le> card (avail p)"
  shows "\<exists>fs p'. alloc_frames alloc n p = Some (Some fs, p') \<and> length fs = n \<and> distinct fs
    \<and> set fs \<subseteq> avail p \<and> avail p' = avail p - set fs \<and> ok p'"
  using assms
proof (induction n arbitrary: p)
  case 0
  then show ?case by simp
next
  case (Suc n)
  then have "avail p \<noteq> {}" by auto
  with Suc.prems(1) obtain f q where f: "alloc p = Some (Some f, q)" "f \<in> avail p"
      "avail q = avail p - {f}" "ok q"
    using alloc_some by blast
  then have "n \<le> card (avail q)" using Suc.prems(2) finite_avail [of p] by simp
  from Suc.IH [OF f(4) this] obtain fs p' where
    "alloc_frames alloc n q = Some (Some fs, p')" "length fs = n" "distinct fs"
    "set fs \<subseteq> avail q" "avail p' = avail q - set fs" "ok p'" by blast
  with f show ?case by (auto intro!: exI [of _ "f # fs"])
qed

lemma alloc_frames_exhausts:
  assumes "ok p" and "card (avail p) < n"
  shows "\<exists>p'. alloc_frames alloc n p = Some (None, p') \<and> avail p' = {} \<and> ok p'"
  using assms
proof (induction n arbitrary: p)
  case 0
  then show ?case by simp
next
  case (Suc n)
  show ?case
  proof (cases "avail p = {}")
    case True
    with Suc.prems(1) show ?thesis by (simp add: alloc_none)
  next
    case False
    with Suc.prems(1) obtain f q where f: "alloc p = Some (Some f, q)" "f \<in> avail p"
        "avail q = avail p - {f}" "ok q"
      using alloc_some by blast
    moreover from f have "Suc (card (avail q)) = card (avail p)"
      using finite_avail [of p] by (metis card_Suc_Diff1)
    then have "card (avail q) < n" using Suc.prems(2) by simp
    ultimately obtain p' where "alloc_frames alloc n q = Some (None, p')" "avail p' = {}" "ok p'"
      using Suc.IH by blast
    with f show ?thesis by simp
  qed
qed

lemma alloc_frames_cases:
  assumes "ok p"
  shows "\<exists>r p'. alloc_frames alloc n p = Some (r, p') \<and> ok p' \<and> avail p' \<subseteq> avail p
    \<and> (r = None \<longleftrightarrow> card (avail p) < n)
    \<and> (\<forall>fs. r = Some fs \<longrightarrow> length fs = n \<and> distinct fs \<and> set fs \<subseteq> avail p \<and> avail p' = avail p - set fs)"
proof (cases "n \<le> card (avail p)")
  case True
  from alloc_frames_enough [OF assms this] True show ?thesis by (fastforce simp: not_less)
next
  case False
  then have "card (avail p) < n" by simp
  with alloc_frames_exhausts [OF assms this] show ?thesis by fastforce
qed

end

section \<open>The frame pool meets the contract\<close>

lemma finite_free_frames: "finite (free_frames p)"
proof -
  have "free_frames p \<subseteq> frame_at p ` {..<tracked p}" by (auto simp: free_frames_def)
  then show ?thesis by (rule finite_subset) simp
qed

lemma frame_at_bm [simp]: "frame_at (p\<lparr>bm := b\<rparr>) i = frame_at p i"
  by (simp add: frame_at_def)

lemma pool_ok_bm:
  "pool_ok pf p \<Longrightarrow> capacity_bits b = capacity_bits (bm p) \<Longrightarrow> pool_ok pf (p\<lparr>bm := b\<rparr>)"
  by (simp add: pool_ok_def pool_inv_def frames_accepted_def)

lemma free_frames_set_bit:
  assumes "pool_inv p" "i < tracked p" "bits b = (bits (bm p))(i := v)"
  shows "free_frames (p\<lparr>bm := b\<rparr>)
    = (if v then free_frames p - {frame_at p i} else insert (frame_at p i) (free_frames p))"
  using assms frame_at_inj [OF assms(1)] by (auto simp: free_frames_def split: if_splits)

text \<open>\<open>try_alloc\<close> hands out the lowest free frame and removes exactly that frame.\<close>

lemma try_alloc_lowest:
  assumes "pool_ok pf p" and "free_frames p \<noteq> {}"
  shows "\<exists>p'. try_alloc pf p = Some (Some (Min (free_frames p)), p')
    \<and> free_frames p' = free_frames p - {Min (free_frames p)} \<and> pool_ok pf p'"
proof -
  have inv: "pool_inv p" using assms(1) by (simp add: pool_ok_def)
  then have cap: "tracked p \<le> capacity_bits (bm p)" by (simp add: pool_inv_def)
  have "find (\<lambda>i. \<not> bits (bm p) i) [0..<tracked p] \<noteq> None"
    using assms(2) by (auto simp: find_range_None free_frames_def)
  then obtain i where "find (\<lambda>i. \<not> bits (bm p) i) [0..<tracked p] = Some i" by blast
  then have ff: "first_free (bm p) (tracked p) = Some (Some i)" and
    i: "i < tracked p" "\<not> bits (bm p) i" "\<And>j. j < i \<Longrightarrow> bits (bm p) j"
    using first_free_eq_find [OF cap] by (auto simp: find_range_Some)
  have "unat (frame_at p i) \<le> unat (frame_at p j)" if "j < tracked p" "\<not> bits (bm p) j" for j
  proof -
    have "i \<le> j" using i(3) that(2) not_le by blast
    then show ?thesis
      using unat_frame_at(1) [OF inv less_imp_le] i(1) that(1) by (simp add: mult_le_mono1)
  qed
  then have "Min (free_frames p) = frame_at p i"
    using i finite_free_frames by (intro Min_eqI) (auto simp: free_frames_def word_le_nat_alt)
  moreover obtain b where b: "set_unchecked (bm p) i True = Some b"
      "bits b = (bits (bm p))(i := True)" "capacity_bits b = capacity_bits (bm p)"
    using set_unchecked_spec [of i "bm p" True] i(1) cap by auto
  moreover have "phys_of_idx p i = Some (frame_at p i)" using phys_of_idx_ok [OF inv i(1)] .
  moreover have "pf (frame_at p i) = Some (frame_at p i)"
    using assms(1) i(1) by (simp add: pool_ok_def frames_accepted_def)
  ultimately show ?thesis
    using ff i(1) free_frames_set_bit [OF inv i(1) b(2)] pool_ok_bm [OF assms(1) b(3)]
    by (simp add: try_alloc_def)
qed

lemma try_alloc_keeps:
  assumes "try_alloc pf p = Some (r, p')"
  shows "base p' = base p \<and> tracked p' = tracked p"
  using assms unfolding try_alloc_def
  by (cases "tracked p = 0"; cases "first_free (bm p) (tracked p)")
     (fastforce split: option.splits Option.bind_splits)+

lemma try_alloc_empty:
  assumes "pool_ok pf p" and "free_frames p = {}"
  shows "try_alloc pf p = Some (None, p)"
proof -
  have "tracked p \<le> capacity_bits (bm p)" using assms(1) by (simp add: pool_ok_def pool_inv_def)
  moreover have "find (\<lambda>i. \<not> bits (bm p) i) [0..<tracked p] = None"
    using assms(2) by (auto simp: find_range_None free_frames_def)
  ultimately show ?thesis by (simp add: try_alloc_def first_free_eq_find)
qed

interpretation pool: frame_source "try_alloc pf" free_frames "pool_ok pf" for pf
proof unfold_locales
  fix p assume "pool_ok pf p" "free_frames p \<noteq> {}"
  with try_alloc_lowest [OF this] show "\<exists>f p'. try_alloc pf p = Some (Some f, p')
    \<and> f \<in> free_frames p \<and> free_frames p' = free_frames p - {f} \<and> pool_ok pf p'"
    using Min_in [OF finite_free_frames] by blast
qed (simp_all add: finite_free_frames try_alloc_empty)

text \<open>\<open>free_inner\<close> returns a tracked frame to the free set and ignores every other address.\<close>

lemma free_inner_spec:
  assumes "pool_ok pf p"
  shows "\<exists>p'. free_inner frame p = Some p' \<and> pool_ok pf p'
    \<and> free_frames p' = (if \<exists>i < tracked p. frame = frame_at p i then insert frame (free_frames p)
                        else free_frames p)"
proof (cases "idx_of_phys p frame")
  case None
  moreover have inv: "pool_inv p" using assms by (simp add: pool_ok_def)
  ultimately have "\<not> (\<exists>i < tracked p. frame = frame_at p i)"
    using idx_of_phys_frame_at [OF inv] by auto
  with None assms show ?thesis by (auto simp: free_inner_def)
next
  case (Some i)
  then have i: "i < tracked p" "frame = frame_at p i" by (auto dest: idx_of_phys_Some)
  have inv: "pool_inv p" using assms by (simp add: pool_ok_def)
  then have "i < capacity_bits (bm p)" using i(1) by (simp add: pool_inv_def)
  from set_unchecked_spec [OF this, of False] obtain b where b:
    "set_unchecked (bm p) i False = Some b" "bits b = (bits (bm p))(i := False)"
    "capacity_bits b = capacity_bits (bm p)" by blast
  with Some i free_frames_set_bit [OF inv i(1) b(2)] pool_ok_bm [OF assms b(3)] show ?thesis
    by (auto simp: free_inner_def)
qed

section \<open>Initialisation from the memory map\<close>

text \<open>
  The memory maps \<open>init_inner\<close> is written for: at least one entry, and every entry below the
  52-bit physical address limit.
\<close>

definition memmap_ok :: "mem_entry list \<Rightarrow> bool" where
  "memmap_ok entries \<longleftrightarrow> entries \<noteq> []
     \<and> (\<forall>e \<in> set entries. unat (e_base e) + unat (e_length e) \<le> 2 ^ 52)"

text \<open>A frame that lies wholly inside a usable entry.\<close>

definition inside_usable :: "mem_entry list \<Rightarrow> nat \<Rightarrow> bool" where
  "inside_usable entries f \<longleftrightarrow> (\<exists>e \<in> set entries. usable e
     \<and> unat (e_base e) \<le> f \<and> f + 4096 \<le> unat (e_base e) + unat (e_length e))"

lemma entry_end:
  "unat (e_base e) + unat (e_length e) \<le> 2 ^ 52 \<Longrightarrow>
   unat (saturating_add (e_base e) (e_length e)) = unat (e_base e) + unat (e_length e)"
  by (simp add: unat_saturating_add)

lemma memmap_span_bounds:
  assumes "memmap_span es lo hi = (lo', hi')"
    and "\<forall>e \<in> set es. unat (e_base e) + unat (e_length e) \<le> 2 ^ 52" and "unat hi \<le> 2 ^ 52"
  shows "lo' \<le> lo \<and> hi \<le> hi' \<and> unat hi' \<le> 2 ^ 52
    \<and> (\<forall>e \<in> set es. lo' \<le> e_base e \<and> unat (e_base e) + unat (e_length e) \<le> unat hi')"
  using assms
proof (induction es arbitrary: lo hi)
  case Nil
  then show ?case by simp
next
  case (Cons e es)
  let ?en = "saturating_add (e_base e) (e_length e)"
  have en: "unat ?en = unat (e_base e) + unat (e_length e)"
    using Cons.prems(2) by (intro entry_end) simp
  let ?lo = "if e_base e < lo then e_base e else lo" and ?hi = "if ?en > hi then ?en else hi"
  have "memmap_span es ?lo ?hi = (lo', hi')" using Cons.prems(1) by (simp add: Let_def)
  moreover have "unat ?hi \<le> 2 ^ 52" using Cons.prems(2,3) en by simp
  ultimately have "lo' \<le> ?lo \<and> ?hi \<le> hi' \<and> unat hi' \<le> 2 ^ 52
    \<and> (\<forall>e \<in> set es. lo' \<le> e_base e \<and> unat (e_base e) + unat (e_length e) \<le> unat hi')"
    using Cons.IH Cons.prems(2) by simp
  moreover have "?lo \<le> lo" "?lo \<le> e_base e" "hi \<le> ?hi" "?en \<le> ?hi" by auto
  ultimately show ?case using en by (auto simp: word_le_nat_alt)
qed

text \<open>The lowest and the highest address of a memory map.\<close>

definition map_lo :: "mem_entry list \<Rightarrow> nat" where
  "map_lo es = Min ((\<lambda>e. unat (e_base e)) ` set es)"

definition map_hi :: "mem_entry list \<Rightarrow> nat" where
  "map_hi es = Max ((\<lambda>e. unat (e_base e) + unat (e_length e)) ` set es)"

lemma memmap_span_eq:
  assumes "memmap_span es lo hi = (l, h)" "\<forall>e \<in> set es. unat (e_base e) + unat (e_length e) \<le> 2 ^ 52"
  shows "unat l = Min (insert (unat lo) ((\<lambda>e. unat (e_base e)) ` set es))
    \<and> unat h = Max (insert (unat hi) ((\<lambda>e. unat (e_base e) + unat (e_length e)) ` set es))"
  using assms
proof (induction es arbitrary: lo hi)
  case (Cons e es)
  let ?en = "saturating_add (e_base e) (e_length e)"
  let ?lo = "if e_base e < lo then e_base e else lo" and ?hi = "if ?en > hi then ?en else hi"
  have en: "unat ?en = unat (e_base e) + unat (e_length e)" using Cons.prems(2) by (intro entry_end) simp
  have ih: "unat l = Min (insert (unat ?lo) ((\<lambda>e. unat (e_base e)) ` set es))"
    "unat h = Max (insert (unat ?hi) ((\<lambda>e. unat (e_base e) + unat (e_length e)) ` set es))"
    using Cons.IH [of ?lo ?hi] Cons.prems by (simp_all add: Let_def)
  have lo: "unat ?lo = min (unat (e_base e)) (unat lo)" by (auto simp: word_less_nat_alt)
  have hi: "unat ?hi = max (unat ?en) (unat hi)" by (auto simp: word_less_nat_alt)
  show ?case unfolding ih lo hi en
    by (cases "es = []") (auto simp: Min_insert2 Max_insert2 min.assoc max.assoc min.left_commute max.left_commute)
qed simp

lemma memmap_span_limits:
  assumes "memmap_ok es" "memmap_span es (- 1) 0 = (l, h)"
  shows "unat l = map_lo es" "unat h = map_hi es"
proof -
  have ne: "set es \<noteq> {}" and b: "\<forall>e \<in> set es. unat (e_base e) + unat (e_length e) \<le> 2 ^ 52"
    using assms(1) by (auto simp: memmap_ok_def)
  have "\<forall>e \<in> set es. unat (e_base e) \<le> unat (- 1 :: u64)"
    by (metis word_le_nat_alt word_order.extremum)
  then have "map_lo es \<le> unat (- 1 :: u64)" using ne unfolding map_lo_def by (subst Min_le_iff) (auto simp del: set_empty)
  then show "unat l = map_lo es" "unat h = map_hi es"
    using memmap_span_eq [OF assms(2) b] ne by (simp_all add: map_lo_def map_hi_def)
qed

lemma release_range_iff:
  fixes b s l B i :: nat
  assumes "b = 4096 * B" "b \<le> s"
  shows "(s + 4095) div 4096 - B \<le> i \<and> i < (s + l) div 4096 - B
    \<longleftrightarrow> s \<le> b + i * 4096 \<and> b + i * 4096 + 4096 \<le> s + l"
  using assms by auto

text \<open>One usable entry frees exactly the tracked frames that lie wholly inside it.\<close>

lemma release_entry_spec:
  assumes inv: "pool_inv p" and le: "unat (base p) \<le> unat (e_base e)"
    and len: "unat (e_base e) + unat (e_length e) \<le> 2 ^ 52"
  shows "\<exists>b. release_entry e p = Some (p\<lparr>bm := b\<rparr>) \<and> capacity_bits b = capacity_bits (bm p)
    \<and> (\<forall>i < tracked p. bits b i \<longleftrightarrow> bits (bm p) i
         \<and> \<not> (usable e \<and> unat (e_base e) \<le> unat (base p) + i * 4096
              \<and> unat (base p) + i * 4096 + 4096 \<le> unat (e_base e) + unat (e_length e)))"
proof (cases "usable e")
  case False
  then show ?thesis by (auto simp: release_entry_def intro!: exI [of _ "bm p"])
next
  case True
  let ?B = "unat (base p) div 4096"
  have B: "unat (base p) = 4096 * ?B" using inv by (auto simp: pool_inv_def)
  obtain s where s: "align_up (e_base e) FRAME_SIZE = Some s"
      "unat s = 4096 * ((unat (e_base e) + 4095) div 4096)"
    using align_up_page [of "e_base e"] len by auto
  obtain n where n: "align_down (saturating_add (e_base e) (e_length e)) FRAME_SIZE = Some n"
      "unat n = 4096 * ((unat (e_base e) + unat (e_length e)) div 4096)"
    using align_down_page entry_end [OF len] by metis
  let ?i0 = "(unat (e_base e) + 4095) div 4096 - ?B"
  let ?i1 = "(unat (e_base e) + unat (e_length e)) div 4096 - ?B"
  note iff = release_range_iff [OF B le, of _ "unat (e_length e)"]
  show ?thesis
  proof (cases "n \<le> s")
    case True
    then have "?i1 \<le> ?i0" using s(2) n(2) by (simp add: word_le_nat_alt diff_le_mono)
    then show ?thesis
      using s n True \<open>usable e\<close> iff
      by (fastforce simp: release_entry_def intro!: exI [of _ "bm p"])
  next
    case False
    have bs: "base p \<le> s" using le s(2) B by (simp add: word_le_nat_alt)
    have bn: "base p \<le> n" using bs False by simp
    have i0: "unat ((s - base p) div FRAME_SIZE) = ?i0"
      using bs s(2) B by (simp add: unat_div_distrib unat_sub div_mult_self1_is_m flip: diff_mult_distrib2)
    have i1: "unat ((n - base p) div FRAME_SIZE) = ?i1"
      using bn n(2) B by (simp add: unat_div_distrib unat_sub div_mult_self1_is_m flip: diff_mult_distrib2)
    have mc: "min (min ?i1 (tracked p)) (tracked p) \<le> capacity_bits (bm p)"
      using inv by (auto simp: pool_inv_def min_def)
    from set_range_spec [OF mc, of ?i0 False]
    obtain b where b: "set_range (bm p) ?i0 (min ?i1 (tracked p)) (tracked p) False = Some b"
      "capacity_bits b = capacity_bits (bm p)"
      "bits b = (\<lambda>i. if ?i0 \<le> i \<and> i < min ?i1 (tracked p) \<and> i < tracked p then False else bits (bm p) i)"
      by blast
    have rel: "release_entry e p = (if ?i0 \<ge> tracked p then Some p else Some (p\<lparr>bm := b\<rparr>))"
      using s(1) n(1) False True bs bn b(1)
      by (auto simp: release_entry_def checked_sub_def i0 i1 Let_def min_def)
    have eq: "bits b i \<longleftrightarrow> bits (bm p) i \<and> \<not> (unat (e_base e) \<le> unat (base p) + i * 4096
        \<and> unat (base p) + i * 4096 + 4096 \<le> unat (e_base e) + unat (e_length e))"
      if "i < tracked p" for i
      using that iff [of i] by (auto simp: b(3))
    show ?thesis
    proof (cases "?i0 \<ge> tracked p")
      case True
      then have "bits b i = bits (bm p) i" if "i < tracked p" for i using that by (simp add: b(3))
      then show ?thesis
        using rel True eq \<open>usable e\<close> by (auto intro!: exI [of _ "bm p"])
    next
      case False
      then show ?thesis using rel b(2) eq \<open>usable e\<close> by auto
    qed
  qed
qed

lemma release_entries_spec:
  assumes "pool_inv p"
    and "\<forall>e \<in> set es. unat (base p) \<le> unat (e_base e) \<and> unat (e_base e) + unat (e_length e) \<le> 2 ^ 52"
  shows "\<exists>b. foldM release_entry es p = Some (p\<lparr>bm := b\<rparr>) \<and> capacity_bits b = capacity_bits (bm p)
    \<and> (\<forall>i < tracked p. bits b i \<longleftrightarrow> bits (bm p) i \<and> \<not> inside_usable es (unat (base p) + i * 4096))"
  using assms
proof (induction es arbitrary: p)
  case Nil
  then show ?case by (auto simp: inside_usable_def intro!: exI [of _ "bm p"])
next
  case (Cons e es)
  from release_entry_spec [OF Cons.prems(1), of e] Cons.prems(2)
  obtain b where b: "release_entry e p = Some (p\<lparr>bm := b\<rparr>)" "capacity_bits b = capacity_bits (bm p)"
    "\<forall>i < tracked p. bits b i \<longleftrightarrow> bits (bm p) i
         \<and> \<not> (usable e \<and> unat (e_base e) \<le> unat (base p) + i * 4096
              \<and> unat (base p) + i * 4096 + 4096 \<le> unat (e_base e) + unat (e_length e))"
    by auto
  have "pool_inv (p\<lparr>bm := b\<rparr>)" using Cons.prems(1) b(2) by (simp add: pool_inv_def)
  from Cons.IH [OF this] Cons.prems(2) obtain c where
    "foldM release_entry es (p\<lparr>bm := b\<rparr>) = Some (p\<lparr>bm := c\<rparr>)" "capacity_bits c = capacity_bits b"
    "\<forall>i < tracked p. bits c i \<longleftrightarrow> bits b i \<and> \<not> inside_usable es (unat (base p) + i * 4096)"
    by auto
  with b show ?case by (auto simp: inside_usable_def)
qed

text \<open>
  \<open>init_inner\<close> never panics on such a map, establishes the pool invariant, and leaves free
  exactly the page-aligned frames below the end of the tracked range that lie wholly inside a
  usable entry. The tracked range starts at the page of the lowest address of the map and ends at its highest
  address, rounded up, or where the bitmap ends.
\<close>

lemma init_inner_spec:
  assumes ok: "memmap_ok entries"
  shows "\<exists>p'. init_inner entries p = Some p' \<and> pool_inv p'
    \<and> capacity_bits (bm p') = capacity_bits (bm p)
    \<and> (\<forall>i < tracked p'. \<not> bits (bm p') i \<longleftrightarrow> inside_usable entries (unat (frame_at p' i)))
    \<and> unat (base p') = 4096 * (map_lo entries div 4096)
    \<and> tracked p' = min ((map_hi entries + 4095) div 4096 - map_lo entries div 4096) (capacity_bits (bm p))"
proof -
  obtain lo hi where lh: "memmap_span entries (- 1) 0 = (lo, hi)" by fastforce
  have bd: "unat hi \<le> 2 ^ 52"
      "\<forall>e \<in> set entries. lo \<le> e_base e \<and> unat (e_base e) + unat (e_length e) \<le> unat hi"
    using memmap_span_bounds [OF lh] ok by (auto simp: memmap_ok_def)
  obtain mb where mb: "align_down lo FRAME_SIZE = Some mb" "unat mb = 4096 * (unat lo div 4096)"
    using align_down_page by blast
  obtain me where me: "align_up hi FRAME_SIZE = Some me" "unat me = 4096 * ((unat hi + 4095) div 4096)"
    using align_up_page [of hi] bd(1) by auto
  have me52: "unat me \<le> 2 ^ 52"
    using me(2) bd(1) div_le_mono [of "unat hi + 4095" "2 ^ 52 + 4095" 4096] by simp
  obtain e where "e \<in> set entries" using ok unfolding memmap_ok_def by (meson list.set_sel(1))
  then have "unat lo \<le> unat hi" using bd(2) by (fastforce simp: word_le_nat_alt)
  then have mbe: "mb \<le> me" using mb(2) me(2) by (simp add: word_le_nat_alt)
  let ?n = "min (unat ((me - mb) div FRAME_SIZE)) (capacity_bits (bm p))"
  obtain b where b: "fill_tracked (bm p) ?n True = Some b" "capacity_bits b = capacity_bits (bm p)"
      "bits b = (\<lambda>i. if i < ?n then True else bits (bm p) i)"
    using fill_tracked_spec [of ?n "bm p" True] by auto
  let ?q = "p\<lparr>base := mb, tracked := ?n, bm := b\<rparr>"
  have "?n * 4096 \<le> unat me - unat mb"
    using mbe mult_le_mono1 [OF min.cobounded1 [of "unat ((me - mb) div FRAME_SIZE)" "capacity_bits (bm p)"], of 4096]
    by (simp add: unat_div_distrib unat_sub)
  then have inv: "pool_inv ?q"
    using mbe me52 mb(2) b(2) by (simp add: pool_inv_def word_le_nat_alt)
  have "\<forall>e \<in> set entries. unat (base ?q) \<le> unat (e_base e)
      \<and> unat (e_base e) + unat (e_length e) \<le> 2 ^ 52"
    using bd ok mb(2) by (auto simp: memmap_ok_def word_le_nat_alt)
  from release_entries_spec [OF inv this] obtain c where c:
    "foldM release_entry entries ?q = Some (?q\<lparr>bm := c\<rparr>)" "capacity_bits c = capacity_bits b"
    "\<forall>i < ?n. bits c i \<longleftrightarrow> bits b i \<and> \<not> inside_usable entries (unat mb + i * 4096)"
    by auto
  have inv': "pool_inv (?q\<lparr>bm := c\<rparr>)" using inv c(2) by (simp add: pool_inv_def)
  have "init_inner entries p = Some (?q\<lparr>bm := c\<rparr>)"
    using lh mb(1) me(1) mbe b(1) c(1) by (simp add: init_inner_def checked_sub_def Let_def)
  moreover have "\<not> bits c i \<longleftrightarrow> inside_usable entries (unat (frame_at (?q\<lparr>bm := c\<rparr>) i))" if "i < ?n" for i
    using that c(3) b(3) unat_frame_at(1) [OF inv', of i] by simp
  moreover note lim = memmap_span_limits [OF ok lh]
  have "unat mb = 4096 * (map_lo entries div 4096)" using mb(2) lim(1) by simp
  moreover have "unat ((me - mb) div FRAME_SIZE) = (map_hi entries + 4095) div 4096 - map_lo entries div 4096"
    using mbe mb(2) me(2) lim by (simp add: unat_div_distrib unat_sub flip: diff_mult_distrib2)
  ultimately show ?thesis using inv' b(2) c(2) by auto
qed

lemma inside_usable_limits:
  assumes "inside_usable es a"
  shows "map_lo es \<le> a" "a + 4096 \<le> map_hi es"
proof -
  obtain e where e: "e \<in> set es" "unat (e_base e) \<le> a" "a + 4096 \<le> unat (e_base e) + unat (e_length e)"
    using assms by (auto simp: inside_usable_def)
  have "map_lo es \<le> unat (e_base e)" unfolding map_lo_def by (rule Min_le) (use e(1) in auto)
  moreover have "unat (e_base e) + unat (e_length e) \<le> map_hi es" unfolding map_hi_def by (rule Max_ge) (use e(1) in auto)
  ultimately show "map_lo es \<le> a" "a + 4096 \<le> map_hi es" using e by simp_all
qed

section \<open>Properties\<close>

text \<open>
  C29: \<open>init_inner\<close> on a memory map below the 52-bit limit never panics and establishes the pool invariant. The pool
  starts at the page of the lowest address of the map and has as many frames as there are pages up to its highest
  address, or bits in the bitmap if those are fewer. Free are then exactly the page-aligned frames that lie wholly
  inside a usable entry and below the end of the bitmap: all of usable memory when the bitmap covers the map.
\<close>

theorem init_frees_usable_frames:
  assumes "memmap_ok entries"
  shows "\<exists>p'. init_inner entries p = Some p' \<and> pool_inv p'
    \<and> unat (base p') = 4096 * (map_lo entries div 4096)
    \<and> tracked p' = min ((map_hi entries + 4095) div 4096 - map_lo entries div 4096) (capacity_bits (bm p))
    \<and> free_frames p' = {f. unat f mod 4096 = 0 \<and> inside_usable entries (unat f)
         \<and> unat f div 4096 < map_lo entries div 4096 + capacity_bits (bm p)}"
proof -
  obtain p' where p': "init_inner entries p = Some p'" and inv: "pool_inv p'"
    and b: "\<forall>i < tracked p'. \<not> bits (bm p') i \<longleftrightarrow> inside_usable entries (unat (frame_at p' i))"
    and bs: "unat (base p') = 4096 * (map_lo entries div 4096)"
    and tr: "tracked p' = min ((map_hi entries + 4095) div 4096 - map_lo entries div 4096) (capacity_bits (bm p))"
    using init_inner_spec [OF assms] by blast
  have at: "unat (frame_at p' i) = 4096 * (map_lo entries div 4096 + i)" if "i < tracked p'" for i
    using unat_frame_at(1) [OF inv, of i] that bs by simp
  have "f \<in> free_frames p' \<longleftrightarrow> unat f mod 4096 = 0 \<and> inside_usable entries (unat f)
      \<and> unat f div 4096 < map_lo entries div 4096 + capacity_bits (bm p)" for f
  proof
    assume "f \<in> free_frames p'"
    then obtain i where i: "f = frame_at p' i" "i < tracked p'" "\<not> bits (bm p') i"
      by (auto simp: free_frames_def)
    with b at [of i] tr show "unat f mod 4096 = 0 \<and> inside_usable entries (unat f)
      \<and> unat f div 4096 < map_lo entries div 4096 + capacity_bits (bm p)" by simp
  next
    assume f: "unat f mod 4096 = 0 \<and> inside_usable entries (unat f)
      \<and> unat f div 4096 < map_lo entries div 4096 + capacity_bits (bm p)"
    note lim = inside_usable_limits [OF conjunct1 [OF conjunct2 [OF f]]]
    define i where "i = unat f div 4096 - map_lo entries div 4096"
    have lo: "map_lo entries div 4096 \<le> unat f div 4096" using lim(1) by (rule div_le_mono)
    have "unat f div 4096 + 1 = (unat f + 4096) div 4096" by simp
    also have "\<dots> \<le> (map_hi entries + 4095) div 4096" by (rule div_le_mono) (use lim(2) in simp)
    finally have lt: "i < tracked p'" using f lo by (auto simp: i_def tr)
    have "unat f = 4096 * (map_lo entries div 4096 + i)" using f lo by (auto simp: i_def)
    then have fi: "f = frame_at p' i" using at [OF lt] by (simp add: word_unat_eq_iff)
    have "inside_usable entries (unat (frame_at p' i))" using f unfolding fi by blast
    with b lt have "\<not> bits (bm p') i" by blast
    with lt show "f \<in> free_frames p'" unfolding free_frames_def fi by blast
  qed
  then show ?thesis using p' inv bs tr by (intro exI [of _ p'] conjI set_eqI) simp_all
qed

text \<open>A map of 12 KiB of usable memory that starts inside a page, and a page of firmware.\<close>

theorem init_frees_usable_frames_witness:
  "\<exists>p'. init_inner [\<lparr>e_base = 0x1800, e_length = 0x3000, usable = True\<rparr>, \<lparr>e_base = 0x5000, e_length = 0x1000, usable = False\<rparr>]
       (frame_pool_new 1) = Some p'
     \<and> base p' = 0x1000 \<and> tracked p' = 5 \<and> free_frames p' = {0x2000, 0x3000}"
proof -
  let ?es = "[\<lparr>e_base = 0x1800, e_length = 0x3000, usable = True\<rparr>, \<lparr>e_base = 0x5000, e_length = 0x1000, usable = False\<rparr>]"
  have ok: "memmap_ok ?es" by (simp add: memmap_ok_def)
  have m: "map_lo ?es = 0x1800" "map_hi ?es = 0x6000" "capacity_bits (bm (frame_pool_new 1)) = 64"
    by (simp_all add: map_lo_def map_hi_def frame_pool_new_def bitset_new_def capacity_bits_def)
  have "unat f mod 4096 = 0 \<and> inside_usable ?es (unat f) \<and> unat f div 4096 < 1 + 64 \<longleftrightarrow> f \<in> {0x2000, 0x3000}" for f :: u64
  proof -
    have "inside_usable ?es (unat f) \<longleftrightarrow> 0x1800 \<le> unat f \<and> unat f \<le> 0x3800" by (auto simp: inside_usable_def)
    moreover have "n = 0x2000 \<or> n = 0x3000" if "n mod 4096 = 0" "0x1800 \<le> n" "n \<le> 0x3800" for n :: nat
    proof -
      from that(1) obtain q where "n = 4096 * q" by auto
      with that(2,3) have "n = 4096 * q" "q = 2 \<or> q = 3" by auto
      then show ?thesis by auto
    qed
    ultimately show ?thesis by (auto simp: word_unat_eq_iff)
  qed
  then have "{f. unat f mod 4096 = 0 \<and> inside_usable ?es (unat f) \<and> unat f div 4096 < 1 + 64} = {0x2000, 0x3000 :: u64}"
    by (simp only: Collect_mem_eq)
  moreover have "(0x1800 :: nat) div 4096 = 1" "(0x6000 + 4095 :: nat) div 4096 = 6" by simp_all
  moreover obtain p' where p': "init_inner ?es (frame_pool_new 1) = Some p'" "unat (base p') = 4096 * (0x1800 div 4096)"
    "tracked p' = min ((0x6000 + 4095) div 4096 - 0x1800 div 4096) 64"
    "free_frames p' = {f. unat f mod 4096 = 0 \<and> inside_usable ?es (unat f) \<and> unat f div 4096 < 0x1800 div 4096 + 64}"
    using init_frees_usable_frames [OF ok, of "frame_pool_new 1"] unfolding m by blast
  ultimately have "init_inner ?es (frame_pool_new 1) = Some p'" "unat (base p') = 0x1000" "tracked p' = 5" "free_frames p' = {0x2000, 0x3000}"
    by simp_all
  moreover from this(2) have "base p' = 0x1000" by (simp add: word_unat_eq_iff)
  ultimately show ?thesis by blast
qed

text \<open>
  C15: asking a sound pool for \<open>n\<close> frames gives \<open>n\<close> distinct frames, all of them free before and
  none free after, or, when fewer than \<open>n\<close> are free, fails; it never panics.
\<close>

theorem frames_handed_out_once:
  assumes "pool_ok pf p"
  shows "\<exists>r p'. alloc_frames (try_alloc pf) n p = Some (r, p') \<and> pool_ok pf p'
    \<and> (r = None \<longleftrightarrow> card (free_frames p) < n)
    \<and> (\<forall>fs. r = Some fs \<longrightarrow> length fs = n \<and> distinct fs \<and> set fs \<subseteq> free_frames p
          \<and> free_frames p' = free_frames p - set fs)"
  using pool.alloc_frames_cases [OF assms, of n] by blast

theorem frames_handed_out_once_witness:
  "\<exists>r p'. alloc_frames (try_alloc Some) 2 \<lparr>base = 0x1000, tracked = 3, bm = \<lparr>storage = [2]\<rparr>\<rparr> = Some (r, p')
    \<and> pool_ok Some p'
    \<and> (r = None \<longleftrightarrow> card (free_frames \<lparr>base = 0x1000, tracked = 3, bm = \<lparr>storage = [2]\<rparr>\<rparr>) < 2)
    \<and> (\<forall>fs. r = Some fs \<longrightarrow> length fs = 2 \<and> distinct fs
          \<and> set fs \<subseteq> free_frames \<lparr>base = 0x1000, tracked = 3, bm = \<lparr>storage = [2]\<rparr>\<rparr>
          \<and> free_frames p' = free_frames \<lparr>base = 0x1000, tracked = 3, bm = \<lparr>storage = [2]\<rparr>\<rparr> - set fs)"
proof -
  have "pool_ok Some \<lparr>base = 0x1000, tracked = 3, bm = \<lparr>storage = [2]\<rparr>\<rparr>"
    by (simp add: pool_ok_def pool_inv_def frames_accepted_def capacity_bits_def)
  from frames_handed_out_once [OF this, of 2] show ?thesis .
qed

text \<open>
  Freeing what was just allocated restores the free set; in between the frame is not
  available.
\<close>

lemma alloc_free_roundtrip:
  assumes "pool_ok pf p" and "free_frames p \<noteq> {}"
  shows "\<exists>f p' p''. try_alloc pf p = Some (Some f, p') \<and> f = Min (free_frames p) \<and> f \<notin> free_frames p'
    \<and> free_inner f p' = Some p'' \<and> free_frames p'' = free_frames p"
proof -
  let ?f = "Min (free_frames p)"
  obtain p' where p': "try_alloc pf p = Some (Some ?f, p')" "free_frames p' = free_frames p - {?f}"
      "pool_ok pf p'" using try_alloc_lowest [OF assms] by blast
  have f: "?f \<in> free_frames p" using assms(2) finite_free_frames by simp
  then obtain i where "i < tracked p" "?f = frame_at p i" unfolding free_frames_def by blast
  then have "\<exists>i < tracked p'. ?f = frame_at p' i"
    using try_alloc_keeps [OF p'(1)] unfolding frame_at_def by metis
  with free_inner_spec [OF p'(3), of ?f] obtain p'' where
    p'': "free_inner ?f p' = Some p''" "free_frames p'' = insert ?f (free_frames p')" by metis
  have "?f \<notin> free_frames p'" "free_frames p'' = free_frames p"
    unfolding p''(2) p'(2) using f by blast+
  with p'(1) p''(1) show ?thesis by blast
qed

lemma alloc_free_roundtrip_example:
  "\<exists>f p' p''. try_alloc Some \<lparr>base = 0x1000, tracked = 3, bm = \<lparr>storage = [2]\<rparr>\<rparr> = Some (Some f, p')
    \<and> f = Min (free_frames \<lparr>base = 0x1000, tracked = 3, bm = \<lparr>storage = [2]\<rparr>\<rparr>)
    \<and> f \<notin> free_frames p' \<and> free_inner f p' = Some p''
    \<and> free_frames p'' = free_frames \<lparr>base = 0x1000, tracked = 3, bm = \<lparr>storage = [2]\<rparr>\<rparr>"
proof -
  let ?p = "\<lparr>base = 0x1000, tracked = 3, bm = \<lparr>storage = [2]\<rparr>\<rparr>"
  have "\<not> bits \<lparr>storage = [2]\<rparr> 0" by code_simp
  then have "frame_at ?p 0 \<in> free_frames ?p" by (auto simp: free_frames_def)
  then have ne: "free_frames ?p \<noteq> {}" by blast
  have "pool_ok Some ?p"
    by (simp add: pool_ok_def pool_inv_def frames_accepted_def capacity_bits_def)
  from alloc_free_roundtrip [OF this ne] show ?thesis .
qed

end
