(* ===== verification/Mapper.thy ===== *)
theory Mapper
  imports Frame
begin

text \<open>
  \<^verbatim>\<open>kernel/mm/map/mapper.rs\<close>: the kernel's view of the active page tables. The page-table walker
  itself is the third-party \<open>x86_64\<close> crate, so its operations are the fields of the
  parameter record \<open>x86_ops\<close>; \<open>'h\<close> is the hardware state they act on (page tables in memory and
  the TLB). \<open>x_map_to\<close> takes the frame allocator it may call for intermediate tables.
\<close>

datatype map_to_error = FrameAllocationFailed | ParentEntryHugePage | PageAlreadyMapped u64
datatype unmap_error = UnmapHugePage | PageNotMapped | InvalidFrameAddress

datatype pt_flag = PRESENT | WRITABLE | NO_EXECUTE | USER_ACCESSIBLE | WRITE_THROUGH | NO_CACHE

record 'h x86_ops =
  x_frame :: "u64 \<Rightarrow> u64 option"
  x_virt :: "u64 \<Rightarrow> u64 option"
  x_page :: "u64 \<Rightarrow> u64"
  x_map_to :: "('h \<times> frame_pool \<Rightarrow> (u64 option \<times> 'h \<times> frame_pool) option) \<Rightarrow> u64 \<Rightarrow> u64 \<Rightarrow> pt_flag set
     \<Rightarrow> 'h \<times> frame_pool \<Rightarrow> ((map_to_error + unit) \<times> 'h \<times> frame_pool) option"
  x_unmap :: "u64 \<Rightarrow> 'h \<Rightarrow> (unmap_error + u64) \<times> 'h"
  x_translate_addr :: "u64 \<Rightarrow> 'h \<Rightarrow> u64 option"
  x_translate_page :: "u64 \<Rightarrow> 'h \<Rightarrow> u64 option"
  x_flush :: "u64 \<Rightarrow> 'h \<Rightarrow> 'h"
  x_zero_frame :: "u64 \<Rightarrow> 'h \<Rightarrow> 'h"

datatype map_err = NoFrames | MapE map_to_error
datatype unmap_err = NotMapped | Other
datatype prot_err = ProtNotMapped

datatype prot = RW | RO | RX | RWX | MMIO | UserRW | UserRX

fun prot_flags :: "prot \<Rightarrow> pt_flag set" where
  "prot_flags RW = {PRESENT, WRITABLE, NO_EXECUTE}"
| "prot_flags RO = {PRESENT, NO_EXECUTE}"
| "prot_flags RX = {PRESENT}"
| "prot_flags RWX = {PRESENT, WRITABLE}"
| "prot_flags MMIO = {PRESENT, WRITABLE, NO_EXECUTE, WRITE_THROUGH, NO_CACHE}"
| "prot_flags UserRW = {PRESENT, WRITABLE, NO_EXECUTE, USER_ACCESSIBLE}"
| "prot_flags UserRX = {PRESENT, USER_ACCESSIBLE}"

text \<open>
  The state the memory subsystem keeps: the hardware, whether \<open>MAPPER\<close> holds a mapper
  (every operation calls \<open>expect\<close> on it), and the frame pool.
\<close>

record 'h mm =
  hw :: 'h
  mapper_set :: bool
  pool :: frame_pool

definition align4k :: "'h x86_ops \<Rightarrow> u64 \<Rightarrow> u64 option" where
  "align4k ops va = x_virt ops (va AND NOT 0xfff)"

text \<open>\<open>frame::alloc\<close> and \<open>frame::free\<close> on the pool of the subsystem.\<close>

definition frame_alloc :: "'h x86_ops \<Rightarrow> 'h mm \<Rightarrow> (u64 option \<times> 'h mm) option" where
  "frame_alloc ops m = do {
     (r, p) \<leftarrow> try_alloc (x_frame ops) (pool m);
     Some (r, m\<lparr>pool := p\<rparr>)
   }"

definition frame_free :: "u64 \<Rightarrow> 'h mm \<Rightarrow> 'h mm option" where
  "frame_free f m = do { p \<leftarrow> free_inner f (pool m); Some (m\<lparr>pool := p\<rparr>) }"

text \<open>\<open>TableAlloc::allocate_frame\<close>: a fresh frame, zeroed through the direct map.\<close>

definition allocate_frame ::
  "'h x86_ops \<Rightarrow> 'h \<times> frame_pool \<Rightarrow> (u64 option \<times> 'h \<times> frame_pool) option" where
  "allocate_frame ops hp = do {
     (r, p) \<leftarrow> try_alloc (x_frame ops) (snd hp);
     Some (case r of None \<Rightarrow> (None, fst hp, p) | Some f \<Rightarrow> (Some f, x_zero_frame ops f (fst hp), p))
   }"

definition translate :: "'h x86_ops \<Rightarrow> u64 \<Rightarrow> 'h mm \<Rightarrow> u64 option option" where
  "translate ops va m = do {
     assert_that (mapper_set m);
     Some (x_translate_addr ops va (hw m))
   }"

definition map_fixed ::
  "'h x86_ops \<Rightarrow> u64 \<Rightarrow> u64 \<Rightarrow> prot \<Rightarrow> 'h mm \<Rightarrow> ((map_err + unit) \<times> 'h mm) option" where
  "map_fixed ops va frame prt m = do {
     assert_that (mapper_set m);
     a \<leftarrow> align4k ops va;
     let page = x_page ops a in do {
       (r, h, p) \<leftarrow> x_map_to ops (allocate_frame ops) page frame (prot_flags prt) (hw m, pool m);
       Some (case r of
          Inl e \<Rightarrow> (Inl (MapE e), m\<lparr>hw := h, pool := p\<rparr>)
        | Inr _ \<Rightarrow> (Inr (), m\<lparr>hw := x_flush ops page h, pool := p\<rparr>))
     }
   }"

definition unmap :: "'h x86_ops \<Rightarrow> u64 \<Rightarrow> 'h mm \<Rightarrow> ((unmap_err + u64) \<times> 'h mm) option" where
  "unmap ops va m = do {
     assert_that (mapper_set m);
     a \<leftarrow> align4k ops va;
     let page = x_page ops a; (r, h) = x_unmap ops page (hw m) in
     Some (case r of
        Inr frame \<Rightarrow> (Inr frame, m\<lparr>hw := x_flush ops page h\<rparr>)
      | Inl PageNotMapped \<Rightarrow> (Inl NotMapped, m\<lparr>hw := h\<rparr>)
      | Inl _ \<Rightarrow> (Inl Other, m\<lparr>hw := h\<rparr>))
   }"

definition protect ::
  "'h x86_ops \<Rightarrow> u64 \<Rightarrow> prot \<Rightarrow> 'h mm \<Rightarrow> ((prot_err + unit) \<times> 'h mm) option" where
  "protect ops va prt m = do {
     assert_that (mapper_set m);
     a \<leftarrow> align4k ops va;
     let page = x_page ops a in
     case x_translate_page ops page (hw m) of
       None \<Rightarrow> Some (Inl ProtNotMapped, m)
     | Some frame \<Rightarrow>
         (let (r, h) = x_unmap ops page (hw m) in
          case r of
            Inl _ \<Rightarrow> Some (Inl ProtNotMapped, m\<lparr>hw := h\<rparr>)
          | Inr _ \<Rightarrow> do {
              (r', h', p) \<leftarrow> x_map_to ops (allocate_frame ops) page frame (prot_flags prt)
                 (x_flush ops page h, pool m);
              Some (case r' of
                 Inl _ \<Rightarrow> (Inl ProtNotMapped, m\<lparr>hw := h', pool := p\<rparr>)
               | Inr _ \<Rightarrow> (Inr (), m\<lparr>hw := x_flush ops page h', pool := p\<rparr>))
            })
   }"

section \<open>Facts about the flag table\<close>

text \<open>No protection other than the explicit \<open>RWX\<close> is both writable and executable.\<close>

lemma prot_flags_wx:
  "WRITABLE \<in> prot_flags p \<Longrightarrow> NO_EXECUTE \<notin> prot_flags p \<Longrightarrow> p = RWX"
  by (cases p) auto

lemma prot_flags_user: "USER_ACCESSIBLE \<in> prot_flags p \<longleftrightarrow> p \<in> {UserRW, UserRX}"
  by (cases p) auto

lemma prot_flags_present: "PRESENT \<in> prot_flags p"
  by (cases p) auto

lemma map_fixed_mapper_set:
  "map_fixed ops va f p m = Some (r, m') \<Longrightarrow> mapper_set m' = mapper_set m"
  by (auto simp: map_fixed_def Let_def split: Option.bind_splits sum.splits prod.splits)

lemma unmap_frame_pool:
  assumes "unmap ops va m = Some (r, m')"
  shows "mapper_set m' = mapper_set m \<and> pool m' = pool m"
proof -
  from assms obtain a where "align4k ops va = Some a"
    by (auto simp: unmap_def split: Option.bind_splits)
  with assms show ?thesis
    by (cases "x_unmap ops (x_page ops a) (hw m)")
      (auto simp: unmap_def Let_def assert_that_def split: sum.splits unmap_error.splits if_splits)
qed

end
