(* ===== verification/Vmarena.thy ===== *)
theory Vmarena
  imports Mapper
begin

text \<open>
  \<^verbatim>\<open>kernel/mm/virt/vmarena.rs\<close>: the arena of kernel virtual pages. \<open>alloc_n\<close> reserves the first run of
  clear bits, then backs each page with a fresh frame; \<open>free_n\<close> unmaps and clears the run.
  The state \<open>vm\<close> is the arena beside the memory subsystem it calls.
\<close>

abbreviation PAGE_SIZE :: u64 where "PAGE_SIZE \<equiv> 4096"

record arena =
  a_base :: u64
  pages :: nat
  a_bm :: bitset
  inited :: bool

record 'h vm =
  arena :: arena
  once :: bool
  mem :: "'h mm"

definition vmarena_init :: "u64 \<Rightarrow> u64 \<Rightarrow> 'h vm \<Rightarrow> 'h vm" where
  "vmarena_init arena_base arena_size s =
     (if once s then s
      else let n = unat (arena_size div PAGE_SIZE) in
        s\<lparr>once := True, arena := (arena s)\<lparr>a_base := arena_base, pages := n, inited := True\<rparr>\<rparr>)"

text \<open>\<open>VirtAddr::new(base + (idx as u64) * PAGE_SIZE)\<close>.\<close>

definition page_va :: "'h x86_ops \<Rightarrow> u64 \<Rightarrow> nat \<Rightarrow> u64 option" where
  "page_va ops b idx = do {
     off \<leftarrow> checked_mul (of_nat idx) PAGE_SIZE;
     a \<leftarrow> checked_add b off;
     x_virt ops a
   }"

text \<open>
  The backing loop: for each page a fresh frame is mapped read-write; the first missing frame
  or failed mapping makes the caller return \<open>None\<close> (\<open>False\<close> here), with what was done so far kept.
\<close>

fun back_pages :: "'h x86_ops \<Rightarrow> u64 \<Rightarrow> nat \<Rightarrow> nat \<Rightarrow> 'h mm \<Rightarrow> (bool \<times> 'h mm) option" where
  "back_pages ops b idx 0 m = Some (True, m)"
| "back_pages ops b idx (Suc n) m = do {
     va \<leftarrow> page_va ops b idx;
     (f, m) \<leftarrow> frame_alloc ops m;
     case f of
       None \<Rightarrow> Some (False, m)
     | Some frame \<Rightarrow> do {
         (r, m) \<leftarrow> map_fixed ops va frame RW m;
         case r of Inl _ \<Rightarrow> Some (False, m) | Inr _ \<Rightarrow> back_pages ops b (idx + 1) n m
       }
   }"

definition alloc_n :: "'h x86_ops \<Rightarrow> nat \<Rightarrow> 'h vm \<Rightarrow> (u64 option \<times> 'h vm) option" where
  "alloc_n ops n s = (let a = arena s in do {
     assert_that (inited a \<and> pages a > 0);
     r \<leftarrow> find_run (a_bm a) (pages a) n;
     case r of
       None \<Rightarrow> Some (None, s)
     | Some idx \<Rightarrow> do {
         b \<leftarrow> set_range (a_bm a) idx (idx + n) (pages a) True;
         (ok, m) \<leftarrow> back_pages ops (a_base a) idx n (mem s);
         let s' = s\<lparr>arena := a\<lparr>a_bm := b\<rparr>, mem := m\<rparr> in
         if ok then do { va \<leftarrow> page_va ops (a_base a) idx; Some (Some va, s') }
         else Some (None, s')
       }
   })"

definition vm_alloc :: "'h x86_ops \<Rightarrow> 'h vm \<Rightarrow> (u64 option \<times> 'h vm) option" where
  "vm_alloc ops s = alloc_n ops 1 s"

text \<open>
  \<open>find_aligned_bitset\<close>: \<open>i\<close> is rounded up to the alignment, then its \<open>n\<close> bits are tested.
  The loop ends because \<open>i\<close> grows.
\<close>

fun run_clear :: "bitset \<Rightarrow> nat \<Rightarrow> nat list \<Rightarrow> bool option" where
  "run_clear bs i [] = Some True"
| "run_clear bs i (k # ks) =
     (case get_unchecked bs (i + k) of
        None \<Rightarrow> None | Some b \<Rightarrow> if b then Some False else run_clear bs i ks)"

function find_aligned_bitset :: "bitset \<Rightarrow> nat \<Rightarrow> nat \<Rightarrow> nat \<Rightarrow> nat \<Rightarrow> nat option option" where
  "find_aligned_bitset bs pgs n align i =
     (if i + n \<le> pgs then
        (if align = 0 then None
         else let i' = i + (align - i mod align) mod align in
           case run_clear bs i' [0..<n] of
             None \<Rightarrow> None
           | Some True \<Rightarrow> Some (Some i')
           | Some False \<Rightarrow> find_aligned_bitset bs pgs n align (i' + 1))
      else Some None)"
  by pat_completeness auto
termination
  by (relation "measure (\<lambda>(bs, pgs, n, align, i). Suc pgs - i)") auto

declare find_aligned_bitset.simps [simp del]

definition alloc_aligned :: "'h x86_ops \<Rightarrow> nat \<Rightarrow> nat \<Rightarrow> 'h vm \<Rightarrow> (u64 option \<times> 'h vm) option" where
  "alloc_aligned ops n align_pages s = (let a = arena s in do {
     assert_that (inited a);
     r \<leftarrow> find_aligned_bitset (a_bm a) (pages a) n align_pages 0;
     case r of
       None \<Rightarrow> Some (None, s)
     | Some idx \<Rightarrow> do {
         b \<leftarrow> set_range (a_bm a) idx (idx + n) (pages a) True;
         (ok, m) \<leftarrow> back_pages ops (a_base a) idx n (mem s);
         let s' = s\<lparr>arena := a\<lparr>a_bm := b\<rparr>, mem := m\<rparr> in
         if ok then do { va \<leftarrow> page_va ops (a_base a) idx; Some (Some va, s') }
         else Some (None, s')
       }
   })"

fun unback_pages :: "'h x86_ops \<Rightarrow> u64 \<Rightarrow> nat \<Rightarrow> nat \<Rightarrow> 'h mm \<Rightarrow> 'h mm option" where
  "unback_pages ops b idx 0 m = Some m"
| "unback_pages ops b idx (Suc n) m = do {
     va \<leftarrow> page_va ops b idx;
     (r, m) \<leftarrow> unmap ops va m;
     m \<leftarrow> (case r of Inr frame \<Rightarrow> frame_free frame m | Inl _ \<Rightarrow> Some m);
     unback_pages ops b (idx + 1) n m
   }"

definition free_n :: "'h x86_ops \<Rightarrow> u64 \<Rightarrow> nat \<Rightarrow> 'h vm \<Rightarrow> 'h vm option" where
  "free_n ops start n s = (let a = arena s in do {
     assert_that (inited a);
     assert_that (start \<ge> a_base a \<and> (start - a_base a) mod PAGE_SIZE = 0);
     let idx = unat ((start - a_base a) div PAGE_SIZE) in do {
       assert_that (idx + n \<le> pages a);
       m \<leftarrow> unback_pages ops (a_base a) idx n (mem s);
       b \<leftarrow> set_range (a_bm a) idx (idx + n) (pages a) False;
       Some (s\<lparr>arena := a\<lparr>a_bm := b\<rparr>, mem := m\<rparr>)
     }
   })"

definition vm_free :: "'h x86_ops \<Rightarrow> u64 \<Rightarrow> 'h vm \<Rightarrow> 'h vm option" where
  "vm_free ops start s = free_n ops start 1 s"

definition is_mapped :: "'h x86_ops \<Rightarrow> u64 \<Rightarrow> 'h vm \<Rightarrow> bool option" where
  "is_mapped ops va s = do { r \<leftarrow> translate ops va (mem s); Some (r \<noteq> None) }"

fun count_used :: "bitset \<Rightarrow> nat list \<Rightarrow> nat \<Rightarrow> nat option" where
  "count_used bs [] c = Some c"
| "count_used bs (i # is) c =
     (case get_unchecked bs i of None \<Rightarrow> None | Some b \<Rightarrow> count_used bs is (if b then c + 1 else c))"

definition used_pages :: "'h vm \<Rightarrow> nat option" where
  "used_pages s = count_used (a_bm (arena s)) [0..<pages (arena s)] 0"

definition total_pages :: "'h vm \<Rightarrow> nat" where
  "total_pages s = pages (arena s)"

section \<open>Invariant\<close>

text \<open>
  \<open>virt_accepted\<close> is what is relied on of \<open>VirtAddr::new\<close>: the addresses of the arena's pages are
  canonical, so they are returned unchanged.
\<close>

definition page_at :: "arena \<Rightarrow> nat \<Rightarrow> u64" where
  "page_at a i = a_base a + of_nat i * PAGE_SIZE"

definition page_idx :: "arena \<Rightarrow> u64 \<Rightarrow> nat" where
  "page_idx a va = unat ((va - a_base a) div PAGE_SIZE)"

definition virt_accepted :: "'h x86_ops \<Rightarrow> arena \<Rightarrow> bool" where
  "virt_accepted ops a \<longleftrightarrow> (\<forall>i < pages a. x_virt ops (page_at a i) = Some (page_at a i))"

definition arena_inv :: "'h x86_ops \<Rightarrow> arena \<Rightarrow> bool" where
  "arena_inv ops a \<longleftrightarrow> inited a \<and> 0 < pages a \<and> pages a \<le> capacity_bits (a_bm a)
     \<and> unat (a_base a) mod 4096 = 0 \<and> unat (a_base a) + pages a * 4096 < 2 ^ 64
     \<and> virt_accepted ops a"

lemma arena_inv_bm:
  "arena_inv ops a \<Longrightarrow> capacity_bits b = capacity_bits (a_bm a) \<Longrightarrow> arena_inv ops (a\<lparr>a_bm := b\<rparr>)"
  by (simp add: arena_inv_def virt_accepted_def page_at_def)

lemma page_at_bm [simp]: "page_at (a\<lparr>a_bm := b\<rparr>) = page_at a" "page_idx (a\<lparr>a_bm := b\<rparr>) = page_idx a"
  by (auto simp: page_at_def page_idx_def fun_eq_iff)

lemma unat_page_off:
  assumes "arena_inv ops a" "i < pages a"
  shows "unat (of_nat i :: u64) = i" "unat (of_nat i * PAGE_SIZE) = i * 4096"
    "unat (a_base a) + i * 4096 < 2 ^ 64"
proof -
  show b: "unat (a_base a) + i * 4096 < 2 ^ 64"
    using assms mult_le_mono1 [of i "pages a" 4096] by (auto simp: arena_inv_def)
  then show i: "unat (of_nat i :: u64) = i" by (simp add: unat_of_nat)
  show "unat (of_nat i * PAGE_SIZE) = i * 4096"
    using b by (simp add: unat_word_ariths i)
qed

lemma unat_page_at:
  assumes "arena_inv ops a" "i < pages a"
  shows "unat (page_at a i) = unat (a_base a) + i * 4096"
  unfolding page_at_def using unat_page_off [OF assms] by (simp only: unat_word_ariths(1)) simp

lemma page_idx_page_at:
  assumes "arena_inv ops a" "i < pages a"
  shows "page_idx a (page_at a i) = i"
  using unat_page_off [OF assms] by (simp add: page_idx_def page_at_def unat_div_distrib)

lemma page_va_ok:
  assumes "arena_inv ops a" "i < pages a"
  shows "page_va ops (a_base a) i = Some (page_at a i)"
  using assms unat_page_off [OF assms]
  by (simp add: page_va_def checked_mul_def checked_add_def page_at_def arena_inv_def virt_accepted_def)

section \<open>\<open>alloc_n\<close> and \<open>free_n\<close> on the bitmap\<close>

text \<open>
  Whatever the mapper does, \<open>alloc_n\<close> either finds no run and changes nothing, or reserves the
  first run of \<open>n\<close> clear pages. The reservation stays even when backing the run fails.
\<close>

lemma alloc_n_cases:
  assumes inv: "arena_inv ops (arena s)" and run: "alloc_n ops n s = Some (r, s')"
  shows "(r = None \<and> s' = s \<and> (n = 0 \<or> (\<forall>i. \<not> clear_run (a_bm (arena s)) (pages (arena s)) n i)))
    \<or> (\<exists>i b. 0 < n \<and> clear_run (a_bm (arena s)) (pages (arena s)) n i
        \<and> (\<forall>j < i. \<not> clear_run (a_bm (arena s)) (pages (arena s)) n j)
        \<and> r \<in> {None, Some (page_at (arena s) i)}
        \<and> arena s' = (arena s)\<lparr>a_bm := b\<rparr> \<and> capacity_bits b = capacity_bits (a_bm (arena s))
        \<and> bits b = (\<lambda>k. (i \<le> k \<and> k < i + n) \<or> bits (a_bm (arena s)) k))"
proof -
  let ?a = "arena s" and ?find = "find (clear_run (a_bm (arena s)) (pages (arena s)) n) [0..<pages (arena s)]"
  have cap: "pages ?a \<le> capacity_bits (a_bm ?a)" and ini: "inited ?a \<and> 0 < pages ?a"
    using inv by (auto simp: arena_inv_def)
  note fr = find_run_eq_find [OF cap, of n]
  show ?thesis
  proof (cases "n = 0 \<or> ?find = None")
    case True
    then have "find_run (a_bm ?a) (pages ?a) n = Some None" using fr by auto
    then have "r = None \<and> s' = s"
      using run ini by (auto simp: alloc_n_def assert_that_def Let_def)
    moreover have "n = 0 \<or> (\<forall>i. \<not> clear_run (a_bm ?a) (pages ?a) n i)"
      using True by (auto simp: find_range_None clear_run_def)
    ultimately show ?thesis by blast
  next
    case False
    then obtain i where n: "0 < n" and i: "?find = Some i" by auto
    then have ci: "clear_run (a_bm ?a) (pages ?a) n i" "i < pages ?a"
        "\<forall>j < i. \<not> clear_run (a_bm ?a) (pages ?a) n j"
      by (auto simp: find_range_Some)
    then have le: "i + n \<le> pages ?a" by (simp add: clear_run_def)
    obtain b where b: "set_range (a_bm ?a) i (i + n) (pages ?a) True = Some b"
        "capacity_bits b = capacity_bits (a_bm ?a)"
        "bits b = (\<lambda>k. if i \<le> k \<and> k < i + n \<and> k < pages ?a then True else bits (a_bm ?a) k)"
    proof -
      have "min (i + n) (pages ?a) \<le> capacity_bits (a_bm ?a)" using cap by (simp add: min_def)
      from set_range_spec [OF this, of i True] that show thesis by blast
    qed
    have "bits b = (\<lambda>k. (i \<le> k \<and> k < i + n) \<or> bits (a_bm ?a) k)"
      unfolding b(3) using le by auto
    moreover have "arena s' = ?a\<lparr>a_bm := b\<rparr> \<and> r \<in> {None, Some (page_at ?a i)}"
      using run fr ini n i b(1) page_va_ok [OF inv ci(2)]
      by (auto simp: alloc_n_def assert_that_def Let_def split: Option.bind_splits if_splits)
    ultimately show ?thesis using n ci b(2) by blast
  qed
qed

lemma free_n_spec:
  assumes inv: "arena_inv ops (arena s)" and run: "free_n ops va n s = Some s'"
  shows "page_idx (arena s) va + n \<le> pages (arena s) \<and> (\<exists>b. arena s' = (arena s)\<lparr>a_bm := b\<rparr>
    \<and> capacity_bits b = capacity_bits (a_bm (arena s))
    \<and> bits b = (\<lambda>k. \<not> (page_idx (arena s) va \<le> k \<and> k < page_idx (arena s) va + n)
                    \<and> bits (a_bm (arena s)) k))"
proof -
  let ?a = "arena s" and ?i = "page_idx (arena s) va"
  have le: "?i + n \<le> pages ?a"
    using run by (auto simp: free_n_def page_idx_def Let_def assert_that_def split: if_splits)
  have "min (?i + n) (pages ?a) \<le> capacity_bits (a_bm ?a)" using inv by (auto simp: arena_inv_def)
  from set_range_spec [OF this, of ?i False] obtain b where b:
    "set_range (a_bm ?a) ?i (?i + n) (pages ?a) False = Some b" "capacity_bits b = capacity_bits (a_bm ?a)"
    "bits b = (\<lambda>k. if ?i \<le> k \<and> k < ?i + n \<and> k < pages ?a then False else bits (a_bm ?a) k)" by blast
  have "arena s' = ?a\<lparr>a_bm := b\<rparr>"
    using run b(1) by (auto simp: free_n_def page_idx_def [symmetric] Let_def assert_that_def
        split: Option.bind_splits if_splits)
  moreover have "bits b = (\<lambda>k. \<not> (?i \<le> k \<and> k < ?i + n) \<and> bits (a_bm ?a) k)"
    unfolding b(3) using le by auto
  ultimately show ?thesis using le b(2) by blast
qed

section \<open>Live allocations as a state machine\<close>

text \<open>
  A run of the arena: allocations that succeed are recorded as \<open>(address, pages)\<close>, failed ones
  are not, and a caller frees what it was given.
\<close>

inductive vm_step :: "'h x86_ops \<Rightarrow> 'h vm \<times> (u64 \<times> nat) list \<Rightarrow> 'h vm \<times> (u64 \<times> nat) list \<Rightarrow> bool"
  for ops where
  step_alloc: "alloc_n ops n s = Some (Some va, s') \<Longrightarrow> vm_step ops (s, live) (s', (va, n) # live)"
| step_alloc_fail: "alloc_n ops n s = Some (None, s') \<Longrightarrow> vm_step ops (s, live) (s', live)"
| step_free: "(va, n) \<in> set live \<Longrightarrow> free_n ops va n s = Some s' \<Longrightarrow>
     vm_step ops (s, live) (s', remove1 (va, n) live)"

inductive vm_reachable :: "'h x86_ops \<Rightarrow> 'h vm \<Rightarrow> 'h vm \<times> (u64 \<times> nat) list \<Rightarrow> bool"
  for ops s0 where
  reach_init: "vm_reachable ops s0 (s0, [])"
| reach_step: "vm_reachable ops s0 c \<Longrightarrow> vm_step ops c c' \<Longrightarrow> vm_reachable ops s0 c'"

definition run_of :: "arena \<Rightarrow> u64 \<times> nat \<Rightarrow> nat set" where
  "run_of a x = {page_idx a (fst x)..<page_idx a (fst x) + snd x}"

definition live_inv :: "arena \<Rightarrow> (u64 \<times> nat) list \<Rightarrow> bool" where
  "live_inv a live \<longleftrightarrow> distinct live
     \<and> (\<forall>x \<in> set live. 0 < snd x \<and> page_idx a (fst x) + snd x \<le> pages a
          \<and> fst x = page_at a (page_idx a (fst x)) \<and> (\<forall>i \<in> run_of a x. bits (a_bm a) i))
     \<and> (\<forall>x \<in> set live. \<forall>y \<in> set live. x \<noteq> y \<longrightarrow> run_of a x \<inter> run_of a y = {})"

lemma run_of_bm [simp]: "run_of (a\<lparr>a_bm := b\<rparr>) x = run_of a x"
  by (simp add: run_of_def)

lemma live_inv_grow_bits:
  assumes "live_inv a live" and "\<And>k. bits (a_bm a) k \<Longrightarrow> bits b k"
  shows "live_inv (a\<lparr>a_bm := b\<rparr>) live"
  using assms unfolding live_inv_def by auto

lemma live_inv_alloc:
  assumes inv: "arena_inv ops a" and live: "live_inv a live" and n: "0 < n"
    and ci: "clear_run (a_bm a) (pages a) n i"
    and b: "bits b = (\<lambda>k. (i \<le> k \<and> k < i + n) \<or> bits (a_bm a) k)"
  shows "live_inv (a\<lparr>a_bm := b\<rparr>) ((page_at a i, n) # live)"
proof -
  have i: "i < pages a" "i + n \<le> pages a" using ci n by (auto simp: clear_run_def)
  have idx: "page_idx a (page_at a i) = i" using page_idx_page_at [OF inv i(1)] .
  let ?x = "(page_at a i, n)"
  have rx: "run_of a ?x = {i..<i + n}" by (simp add: run_of_def idx)
  have clear: "\<not> bits (a_bm a) k" if "k \<in> {i..<i + n}" for k
    using ci that unfolding clear_run_def
    by (metis atLeastLessThan_iff le_add_diff_inverse nat_add_left_cancel_less)
  have disj: "run_of a y \<inter> {i..<i + n} = {}" if "y \<in> set live" for y
    using live that clear unfolding live_inv_def by blast
  have "?x \<notin> set live"
    using disj [of ?x] n by (auto simp: rx)
  moreover have "live_inv (a\<lparr>a_bm := b\<rparr>) live"
    using live by (rule live_inv_grow_bits) (simp add: b)
  ultimately show ?thesis
    using disj rx n i idx unfolding live_inv_def by (auto simp: b)
qed

lemma live_inv_free:
  assumes live: "live_inv a live" and x: "(va, n) \<in> set live"
    and b: "bits b = (\<lambda>k. \<not> (page_idx a va \<le> k \<and> k < page_idx a va + n) \<and> bits (a_bm a) k)"
  shows "live_inv (a\<lparr>a_bm := b\<rparr>) (remove1 (va, n) live)"
proof -
  have d: "distinct live" using live by (simp add: live_inv_def)
  have "bits b k" if "y \<in> set live" "y \<noteq> (va, n)" "k \<in> run_of a y" for y k
  proof -
    have "k \<notin> run_of a (va, n)" using live x that unfolding live_inv_def by blast
    moreover have "bits (a_bm a) k" using live that unfolding live_inv_def by blast
    ultimately show ?thesis by (auto simp: b run_of_def)
  qed
  with live d show ?thesis unfolding live_inv_def by auto
qed

lemma vm_step_inv:
  assumes "vm_step ops c c'" and "arena_inv ops (arena (fst c))" and "live_inv (arena (fst c)) (snd c)"
  shows "arena_inv ops (arena (fst c')) \<and> live_inv (arena (fst c')) (snd c')
    \<and> a_base (arena (fst c')) = a_base (arena (fst c)) \<and> pages (arena (fst c')) = pages (arena (fst c))"
  using assms
proof (cases rule: vm_step.cases)
  case (step_alloc n s va s' live)
  with assms alloc_n_cases [of ops s n "Some va" s'] show ?thesis
    by (auto intro: arena_inv_bm live_inv_alloc)
next
  case (step_alloc_fail n s s' live)
  with assms alloc_n_cases [of ops s n None s'] show ?thesis
    by (auto intro!: arena_inv_bm live_inv_grow_bits)
next
  case (step_free va n live s s')
  with assms free_n_spec [of ops s va n s'] show ?thesis
    by (auto intro!: arena_inv_bm live_inv_free)
qed

lemma vm_reachable_inv:
  assumes "vm_reachable ops s0 c" and "arena_inv ops (arena s0)"
  shows "arena_inv ops (arena (fst c)) \<and> live_inv (arena (fst c)) (snd c)
    \<and> a_base (arena (fst c)) = a_base (arena s0) \<and> pages (arena (fst c)) = pages (arena s0)"
  using assms
proof (induction rule: vm_reachable.induct)
  case reach_init
  then show ?case by (simp add: live_inv_def)
next
  case (reach_step c c')
  then show ?case using vm_step_inv [of ops c c'] by simp
qed

section \<open>Totality\<close>

text \<open>
  The whole subsystem in working order: the arena invariant, an initialised mapper, a sound
  frame pool. \<open>unmap\<close> cannot panic then, and neither can \<open>free_n\<close> on a page-aligned address of the
  arena.
\<close>

definition vm_ok :: "'h x86_ops \<Rightarrow> 'h vm \<Rightarrow> bool" where
  "vm_ok ops s \<longleftrightarrow> arena_inv ops (arena s) \<and> mapper_set (mem s) \<and> pool_ok (x_frame ops) (pool (mem s))"

lemma page_aligned_and:
  assumes "unat (x :: u64) mod 4096 = 0"
  shows "x AND - 4096 = x"
proof -
  have "unat (x AND NOT (2 ^ 12 - 1)) = unat x - unat x mod 2 ^ 12"
    by (rule unat_and_not_mask) simp
  then have "unat (x AND - 4096) = unat x" using assms by simp
  then show ?thesis by (rule word_unat_eq_iff [THEN iffD2])
qed

lemma align4k_page_at:
  assumes "arena_inv ops a" "i < pages a"
  shows "align4k ops (page_at a i) = Some (page_at a i)"
proof -
  have "unat (page_at a i) mod 4096 = 0"
    using unat_page_at [OF assms] assms(1) by (simp add: arena_inv_def mod_add_left_eq [symmetric])
  then show ?thesis
    using assms by (simp add: align4k_def page_aligned_and arena_inv_def virt_accepted_def)
qed

lemma unback_pages_total:
  assumes "arena_inv ops a" "i + n \<le> pages a" "mapper_set m" "pool_ok (x_frame ops) (pool m)"
  shows "\<exists>m'. unback_pages ops (a_base a) i n m = Some m' \<and> mapper_set m' \<and> pool_ok (x_frame ops) (pool m')"
  using assms(2-)
proof (induction n arbitrary: i m)
  case 0
  then show ?case by simp
next
  case (Suc n)
  then have i: "i < pages a" by simp
  have "unmap ops (page_at a i) m \<noteq> None"
    using Suc.prems(2) align4k_page_at [OF assms(1) i]
    by (simp add: unmap_def assert_that_def Let_def split: prod.splits)
  then obtain r m1 where m1: "unmap ops (page_at a i) m = Some (r, m1)" by auto
  then have ok1: "mapper_set m1" "pool_ok (x_frame ops) (pool m1)"
    using unmap_frame_pool [OF m1] Suc.prems by auto
  have "\<exists>m2. (case r of Inr frame \<Rightarrow> frame_free frame m1 | Inl _ \<Rightarrow> Some m1) = Some m2
      \<and> mapper_set m2 \<and> pool_ok (x_frame ops) (pool m2)"
  proof (cases r)
    case (Inr f)
    from free_inner_spec [OF ok1(2), of f] obtain p' where
      "free_inner f (pool m1) = Some p'" "pool_ok (x_frame ops) p'" by blast
    with Inr ok1(1) show ?thesis by (simp add: frame_free_def)
  qed (use ok1 in simp)
  then obtain m2 where m2: "(case r of Inr frame \<Rightarrow> frame_free frame m1 | Inl _ \<Rightarrow> Some m1) = Some m2"
      "mapper_set m2" "pool_ok (x_frame ops) (pool m2)" by blast
  with Suc.IH [of "i + 1" m2] Suc.prems(1) m1 page_va_ok [OF assms(1) i] show ?case by simp
qed

lemma free_n_total:
  assumes ok: "vm_ok ops s" and i: "i < pages (arena s)" "i + n \<le> pages (arena s)"
  shows "\<exists>s'. free_n ops (page_at (arena s) i) n s = Some s' \<and> vm_ok ops s'"
proof -
  let ?a = "arena s"
  have inv: "arena_inv ops ?a" using ok by (simp add: vm_ok_def)
  have off: "page_at ?a i - a_base ?a = of_nat i * PAGE_SIZE" by (simp add: page_at_def)
  have "(of_nat i * PAGE_SIZE :: u64) mod PAGE_SIZE = 0"
    using unat_page_off(2) [OF inv i(1)]
    by (simp add: unat_mod_distrib flip: unat_eq_zero)
  moreover have "a_base ?a \<le> page_at ?a i"
    using unat_page_at [OF inv i(1)] by (simp add: word_le_nat_alt)
  moreover have idx: "unat ((page_at ?a i - a_base ?a) div PAGE_SIZE) = i"
    using page_idx_page_at [OF inv i(1)] by (simp add: page_idx_def)
  moreover obtain m where m: "unback_pages ops (a_base ?a) i n (mem s) = Some m" "mapper_set m"
      "pool_ok (x_frame ops) (pool m)"
    using unback_pages_total [OF inv i(2)] ok by (auto simp: vm_ok_def)
  moreover obtain b where "set_range (a_bm ?a) i (i + n) (pages ?a) False = Some b"
      "capacity_bits b = capacity_bits (a_bm ?a)"
  proof -
    have "min (i + n) (pages ?a) \<le> capacity_bits (a_bm ?a)" using inv by (auto simp: arena_inv_def)
    from set_range_spec [OF this, of i False] that show thesis by blast
  qed
  ultimately show ?thesis
    using inv i inv arena_inv_bm [OF inv]
    by (simp add: free_n_def assert_that_def Let_def off vm_ok_def arena_inv_def [of _ "arena s"])
qed

section \<open>The aligned search\<close>

lemma run_clear_True:
  assumes "run_clear bs i ks = Some True" "k \<in> set ks"
  shows "\<not> bits bs (i + k)"
  using assms by (induction ks) (auto simp: get_unchecked_eq split: option.splits if_splits)

text \<open>What the search does guarantee: an aligned start whose \<open>n\<close> bits are clear.\<close>

lemma find_aligned_bitset_sound:
  assumes "find_aligned_bitset bs pgs n align i = Some (Some j)"
  shows "j mod align = 0 \<and> (\<forall>k < n. \<not> bits bs (j + k))"
  using assms
proof (induction bs pgs n align i rule: find_aligned_bitset.induct)
  case (1 bs pgs n align i)
  let ?i = "i + (align - i mod align) mod align"
  from "1.prems" have g: "i + n \<le> pgs" "align \<noteq> 0"
    by (auto simp: find_aligned_bitset.simps [of bs pgs n align i] split: if_splits)
  have al: "?i mod align = 0"
  proof -
    have "?i mod align = (i mod align + (align - i mod align)) mod align"
      by (metis mod_add_left_eq mod_add_right_eq)
    also have "i mod align + (align - i mod align) = align"
      using g(2) by (simp add: less_imp_le)
    finally show ?thesis by simp
  qed
  show ?case
  proof (cases "run_clear bs ?i [0..<n]")
    case None
    with "1.prems" g show ?thesis
      by (simp add: find_aligned_bitset.simps [of bs pgs n align i] Let_def)
  next
    case (Some r)
    then show ?thesis
    proof (cases r)
      case True
      then have "j = ?i"
        using "1.prems" g Some by (simp add: find_aligned_bitset.simps [of bs pgs n align i] Let_def)
      with Some True al show ?thesis by (auto dest: run_clear_True)
    next
      case False
      then have "find_aligned_bitset bs pgs n align (?i + 1) = Some (Some j)"
        using "1.prems" g Some by (simp add: find_aligned_bitset.simps [of bs pgs n align i] Let_def)
      with "1.IH" [OF g refl Some] False show ?thesis by simp
    qed
  qed
qed

section \<open>Totality of allocation\<close>

text \<open>
  What is relied on of \<open>Mapper::map_to\<close>: it returns, and it touches the frame pool only through
  the allocator it is given, so a sound pool stays sound and no frame becomes free.
\<close>

definition map_to_keeps_pool :: "'h x86_ops \<Rightarrow> bool" where
  "map_to_keeps_pool ops \<longleftrightarrow> (\<forall>page frame flags h p. pool_ok (x_frame ops) p \<longrightarrow>
     (\<exists>r h' p'. x_map_to ops (allocate_frame ops) page frame flags (h, p) = Some (r, h', p')
        \<and> pool_ok (x_frame ops) p' \<and> free_frames p' \<subseteq> free_frames p))"

lemma frame_alloc_total:
  assumes "mapper_set m" "pool_ok (x_frame ops) (pool m)"
  shows "\<exists>f m'. frame_alloc ops m = Some (f, m') \<and> mapper_set m' \<and> pool_ok (x_frame ops) (pool m')
    \<and> (f = None \<longleftrightarrow> free_frames (pool m) = {})"
proof (cases "free_frames (pool m) = {}")
  case True
  then show ?thesis using try_alloc_empty [OF assms(2)] assms by (simp add: frame_alloc_def)
next
  case False
  from try_alloc_lowest [OF assms(2) this] assms False show ?thesis by (auto simp: frame_alloc_def)
qed

lemma map_fixed_total:
  assumes "map_to_keeps_pool ops" "mapper_set m" "pool_ok (x_frame ops) (pool m)"
    and "align4k ops va = Some va'"
  shows "\<exists>r m'. map_fixed ops va f prt m = Some (r, m') \<and> mapper_set m' \<and> pool_ok (x_frame ops) (pool m')
    \<and> free_frames (pool m') \<subseteq> free_frames (pool m)"
proof -
  obtain r h p where "x_map_to ops (allocate_frame ops) (x_page ops va') f (prot_flags prt) (hw m, pool m)
      = Some (r, h, p)" "pool_ok (x_frame ops) p" "free_frames p \<subseteq> free_frames (pool m)"
    using assms(1,3) unfolding map_to_keeps_pool_def by blast
  then show ?thesis
    using assms(2,4) by (cases r) (simp_all add: map_fixed_def assert_that_def Let_def)
qed

lemma back_pages_total:
  assumes "arena_inv ops a" "map_to_keeps_pool ops" "i + n \<le> pages a" "mapper_set m"
    and "pool_ok (x_frame ops) (pool m)"
  shows "\<exists>ok m'. back_pages ops (a_base a) i n m = Some (ok, m') \<and> mapper_set m'
    \<and> pool_ok (x_frame ops) (pool m')"
  using assms(3-)
proof (induction n arbitrary: i m)
  case 0
  then show ?case by auto
next
  case (Suc n)
  then have i: "i < pages a" by simp
  note va = page_va_ok [OF assms(1) i] align4k_page_at [OF assms(1) i]
  obtain f m1 where m1: "frame_alloc ops m = Some (f, m1)" "mapper_set m1" "pool_ok (x_frame ops) (pool m1)"
    using frame_alloc_total Suc.prems(2,3) by blast
  show ?case
  proof (cases f)
    case None
    then show ?thesis using m1 va by auto
  next
    case (Some frame)
    obtain r m2 where m2: "map_fixed ops (page_at a i) frame RW m1 = Some (r, m2)" "mapper_set m2"
        "pool_ok (x_frame ops) (pool m2)"
      using map_fixed_total [OF assms(2) m1(2,3) va(2)] by blast
    show ?thesis
    proof (cases r)
      case (Inr u)
      with Suc.IH [of "i + 1" m2] Suc.prems(1) m1 m2 va Some show ?thesis by simp
    qed (use m1 m2 va Some in auto)
  qed
qed

lemma alloc_n_total:
  assumes ok: "vm_ok ops s" and mt: "map_to_keeps_pool ops"
  shows "\<exists>r s'. alloc_n ops n s = Some (r, s') \<and> vm_ok ops s'"
proof -
  let ?a = "arena s"
  have inv: "arena_inv ops ?a" using ok by (simp add: vm_ok_def)
  then have cap: "pages ?a \<le> capacity_bits (a_bm ?a)" and ini: "inited ?a \<and> 0 < pages ?a"
    by (auto simp: arena_inv_def)
  show ?thesis
  proof (cases "n = 0 \<or> find (clear_run (a_bm ?a) (pages ?a) n) [0..<pages ?a] = None")
    case True
    then have "find_run (a_bm ?a) (pages ?a) n = Some None" using find_run_eq_find [OF cap, of n] by auto
    then show ?thesis using ini ok by (simp add: alloc_n_def assert_that_def Let_def)
  next
    case False
    then obtain i where fi: "find (clear_run (a_bm ?a) (pages ?a) n) [0..<pages ?a] = Some i" and n: "0 < n"
      by auto
    then have i: "i < pages ?a" "i + n \<le> pages ?a" by (auto simp: find_range_Some clear_run_def)
    have fr: "find_run (a_bm ?a) (pages ?a) n = Some (Some i)"
      using find_run_eq_find [OF cap, of n] fi n by simp
    have "min (i + n) (pages ?a) \<le> capacity_bits (a_bm ?a)" using cap by (simp add: min_def)
    from set_range_spec [OF this, of i True] obtain b where
      b: "set_range (a_bm ?a) i (i + n) (pages ?a) True = Some b" "capacity_bits b = capacity_bits (a_bm ?a)"
      by blast
    obtain k m where m: "back_pages ops (a_base ?a) i n (mem s) = Some (k, m)" "mapper_set m"
        "pool_ok (x_frame ops) (pool m)"
      using back_pages_total [OF inv mt i(2), of "mem s"] ok by (auto simp: vm_ok_def)
    show ?thesis
      using ini fr b m page_va_ok [OF inv i(1)] arena_inv_bm [OF inv b(2)]
      by (simp add: alloc_n_def assert_that_def Let_def vm_ok_def)
  qed
qed

section \<open>A concrete page-table model for the witnesses\<close>

text \<open>
  Page tables as an association list from pages to frames; intermediate tables cost nothing and
  every address is accepted.
\<close>

definition flat_ops :: "(u64 \<times> u64) list x86_ops" where
  "flat_ops = \<lparr>x_frame = Some, x_virt = Some, x_page = (\<lambda>a. a),
     x_map_to = (\<lambda>alloc page frame flags (h, p).
        Some (if map_of h page = None then (Inr (), (page, frame) # h, p)
              else (Inl (PageAlreadyMapped frame), h, p))),
     x_unmap = (\<lambda>page h. case map_of h page of None \<Rightarrow> (Inl PageNotMapped, h)
        | Some f \<Rightarrow> (Inr f, filter (\<lambda>x. fst x \<noteq> page) h)),
     x_translate_addr = (\<lambda>va h. map_of h (va AND NOT 0xfff)),
     x_translate_page = (\<lambda>page h. map_of h page),
     x_flush = (\<lambda>page h. h), x_zero_frame = (\<lambda>f h. h)\<rparr>"

definition flat_vm :: "u64 \<Rightarrow> (u64 \<times> u64) list vm" where
  "flat_vm w = \<lparr>arena = \<lparr>a_base = 0x10000, pages = 4, a_bm = \<lparr>storage = [0]\<rparr>, inited = True\<rparr>, once = True,
     mem = \<lparr>hw = [], mapper_set = True, pool = \<lparr>base = 0x1000, tracked = 3, bm = \<lparr>storage = [w]\<rparr>\<rparr>\<rparr>\<rparr>"

lemma flat_map_to: "map_to_keeps_pool flat_ops"
  by (auto simp: map_to_keeps_pool_def flat_ops_def)

lemma flat_vm_ok: "vm_ok flat_ops (flat_vm w)"
  by (simp add: vm_ok_def arena_inv_def virt_accepted_def pool_ok_def pool_inv_def frames_accepted_def
      capacity_bits_def flat_ops_def flat_vm_def)

lemma flat_scan:
  "find_run \<lparr>storage = [0]\<rparr> 4 2 = Some (Some 0)" "find_run \<lparr>storage = [3]\<rparr> 4 1 = Some (Some 2)"
  "set_range \<lparr>storage = [0]\<rparr> 0 2 4 True = Some \<lparr>storage = [3]\<rparr>"
  "set_range \<lparr>storage = [3]\<rparr> 2 3 4 True = Some \<lparr>storage = [7]\<rparr>"
  "first_free \<lparr>storage = [0]\<rparr> 3 = Some (Some 0)" "first_free \<lparr>storage = [1]\<rparr> 3 = Some (Some 1)"
  "first_free \<lparr>storage = [3]\<rparr> 3 = Some (Some 2)"
  "set_unchecked \<lparr>storage = [0]\<rparr> 0 True = Some \<lparr>storage = [1]\<rparr>"
  "set_unchecked \<lparr>storage = [1]\<rparr> 1 True = Some \<lparr>storage = [3]\<rparr>"
  "set_unchecked \<lparr>storage = [3]\<rparr> 2 True = Some \<lparr>storage = [7]\<rparr>"
  by code_simp+

lemma flat_two_allocs:
  "\<exists>s1 s2 w v. alloc_n flat_ops 2 (flat_vm 0) = Some (Some w, s1) \<and> alloc_n flat_ops 1 s1 = Some (Some v, s2)"
proof -
  have two: "back_pages ops b i 2 m = back_pages ops b i (Suc (Suc 0)) m"
    for ops :: "(u64 \<times> u64) list x86_ops" and b i m by (simp add: numeral_2_eq_2)
  have "(case alloc_n flat_ops 2 (flat_vm 0) of Some (Some w, s1) \<Rightarrow>
      (case alloc_n flat_ops 1 s1 of Some (Some v, s2) \<Rightarrow> True | _ \<Rightarrow> False) | _ \<Rightarrow> False)"
    by (simp add: alloc_n_def flat_vm_def flat_ops_def assert_that_def Let_def flat_scan page_va_def
      checked_mul_def checked_add_def frame_alloc_def try_alloc_def phys_of_idx_def map_fixed_def align4k_def two
      flat_scan [unfolded One_nat_def numeral_2_eq_2 numeral_3_eq_3])
  then show ?thesis by (fastforce split: option.splits)
qed
section \<open>Properties\<close>

text \<open>
  C1: in every state reached from an initialised arena by allocations and frees, the byte ranges of
  the live allocations lie inside the arena and are pairwise disjoint.
\<close>

theorem live_allocations_disjoint:
  assumes "vm_reachable ops s0 (s, live)" and "arena_inv ops (arena s0)"
  shows "distinct live
    \<and> (\<forall>(va, n) \<in> set live. unat (a_base (arena s0)) \<le> unat va
         \<and> unat va + n * 4096 \<le> unat (a_base (arena s0)) + pages (arena s0) * 4096)
    \<and> (\<forall>(va, n) \<in> set live. \<forall>(wa, k) \<in> set live. (va, n) \<noteq> (wa, k) \<longrightarrow>
         unat va + n * 4096 \<le> unat wa \<or> unat wa + k * 4096 \<le> unat va)"
proof -
  let ?a = "arena s"
  from vm_reachable_inv [OF assms] have inv: "arena_inv ops ?a" and live: "live_inv ?a live"
    and same: "a_base ?a = a_base (arena s0)" "pages ?a = pages (arena s0)" by auto
  have ua: "unat va = unat (a_base ?a) + page_idx ?a va * 4096" "page_idx ?a va + n \<le> pages ?a" "0 < n"
    if "(va, n) \<in> set live" for va n
  proof -
    from that live have x: "0 < n" "page_idx ?a va + n \<le> pages ?a" "va = page_at ?a (page_idx ?a va)"
      unfolding live_inv_def by fastforce+
    then have "unat (page_at ?a (page_idx ?a va)) = unat (a_base ?a) + page_idx ?a va * 4096"
      by (intro unat_page_at [OF inv]) linarith
    with x show "unat va = unat (a_base ?a) + page_idx ?a va * 4096" "page_idx ?a va + n \<le> pages ?a" "0 < n"
      by simp_all
  qed
  have "unat va + n * 4096 \<le> unat wa \<or> unat wa + k * 4096 \<le> unat va"
    if "(va, n) \<in> set live" "(wa, k) \<in> set live" "(va, n) \<noteq> (wa, k)" for va n wa k
  proof -
    have "run_of ?a (va, n) \<inter> run_of ?a (wa, k) = {}" using live that unfolding live_inv_def by blast
    then have "page_idx ?a va + n \<le> page_idx ?a wa \<or> page_idx ?a wa + k \<le> page_idx ?a va"
      using ua(3) that by (force simp: run_of_def)
    then show ?thesis using ua(1) [OF that(1)] ua(1) [OF that(2)] by linarith
  qed
  moreover have "unat (a_base ?a) \<le> unat va \<and> unat va + n * 4096 \<le> unat (a_base ?a) + pages ?a * 4096"
    if "(va, n) \<in> set live" for va n
    using ua(1,2) [OF that] by linarith
  moreover have "distinct live" using live by (simp add: live_inv_def)
  ultimately show ?thesis unfolding same by blast
qed

theorem live_allocations_disjoint_witness:
  "\<exists>s v w. distinct [(v, 1), (w, 2)] \<and> vm_reachable flat_ops (flat_vm 0) (s, [(v, 1), (w, 2)])
    \<and> (unat v + 1 * 4096 \<le> unat w \<or> unat w + 2 * 4096 \<le> unat v)"
proof -
  obtain s1 w s2 v where a: "alloc_n flat_ops 2 (flat_vm 0) = Some (Some w, s1)"
    "alloc_n flat_ops 1 s1 = Some (Some v, s2)" using flat_two_allocs by blast
  have r: "vm_reachable flat_ops (flat_vm 0) (s2, [(v, 1), (w, 2)])"
    by (rule reach_step [OF reach_step [OF reach_init step_alloc [OF a(1)]] step_alloc [OF a(2)]])
  have "arena_inv flat_ops (arena (flat_vm 0))" using flat_vm_ok [of 0] by (simp add: vm_ok_def)
  from live_allocations_disjoint [OF r this] r show ?thesis by (intro exI [of _ s2] exI [of _ v] exI [of _ w]) auto
qed

text \<open>
  C28: \<open>alloc_n\<close> never panics; when it returns an address, freeing that address with the same page
  count never panics either and gives back the bitmap as it was.
\<close>

theorem alloc_n_free_n_roundtrip:
  assumes "vm_ok ops s" and "map_to_keeps_pool ops"
  shows "\<exists>r s'. alloc_n ops n s = Some (r, s') \<and> vm_ok ops s' \<and> (\<forall>va. r = Some va \<longrightarrow>
    (\<exists>s''. free_n ops va n s' = Some s'' \<and> vm_ok ops s''
       \<and> bits (a_bm (arena s'')) = bits (a_bm (arena s))))"
proof -
  let ?a = "arena s"
  obtain r s' where s': "alloc_n ops n s = Some (r, s')" "vm_ok ops s'" using alloc_n_total [OF assms] by blast
  have inv: "arena_inv ops ?a" "arena_inv ops (arena s')" using assms(1) s'(2) by (auto simp: vm_ok_def)
  have "\<exists>s''. free_n ops va n s' = Some s'' \<and> vm_ok ops s'' \<and> bits (a_bm (arena s'')) = bits (a_bm ?a)"
    if "r = Some va" for va
  proof -
    from alloc_n_cases [OF inv(1) s'(1)] that obtain i b where i: "0 < n" "clear_run (a_bm ?a) (pages ?a) n i"
      and va: "va = page_at ?a i" and a': "arena s' = ?a\<lparr>a_bm := b\<rparr>"
      and b: "bits b = (\<lambda>k. (i \<le> k \<and> k < i + n) \<or> bits (a_bm ?a) k)" by auto
    have lt: "i < pages ?a" "i + n \<le> pages ?a" using i by (auto simp: clear_run_def)
    have clear: "\<not> bits (a_bm ?a) k" if "i \<le> k" "k < i + n" for k
      using i(2) that unfolding clear_run_def by (metis le_add_diff_inverse nat_add_left_cancel_less)
    obtain s'' where s'': "free_n ops va n s' = Some s''" "vm_ok ops s''"
      using free_n_total [OF s'(2), of i n] lt a' va by auto
    have "page_idx (arena s') va = i" using page_idx_page_at [OF inv(1) lt(1)] a' va by simp
    with free_n_spec [OF inv(2) s''(1)] obtain c where "arena s'' = (arena s')\<lparr>a_bm := c\<rparr>"
      "bits c = (\<lambda>k. \<not> (i \<le> k \<and> k < i + n) \<and> bits (a_bm (arena s')) k)" by auto
    then have "bits (a_bm (arena s'')) = bits (a_bm ?a)" using clear by (auto simp: a' b fun_eq_iff)
    with s'' show ?thesis by blast
  qed
  with s' show ?thesis by blast
qed

theorem alloc_n_free_n_roundtrip_witness:
  "\<exists>r s'. alloc_n flat_ops 2 (flat_vm 0) = Some (r, s') \<and> vm_ok flat_ops s' \<and> (\<forall>va. r = Some va \<longrightarrow>
    (\<exists>s''. free_n flat_ops va 2 s' = Some s'' \<and> vm_ok flat_ops s''
       \<and> bits (a_bm (arena s'')) = bits (a_bm (arena (flat_vm 0)))))"
  by (rule alloc_n_free_n_roundtrip [OF flat_vm_ok flat_map_to])

text \<open>
  When the frame pool is empty, \<open>alloc_n\<close> on an arena that has room returns \<open>None\<close> and yet
  leaves the whole run marked used: the address space is lost, since no caller holds its address.
\<close>

lemma alloc_n_failure_keeps_reservation:
  assumes "vm_ok ops s" and "0 < n" and "clear_run (a_bm (arena s)) (pages (arena s)) n j"
    and "free_frames (pool (mem s)) = {}"
  shows "\<exists>s' i. alloc_n ops n s = Some (None, s') \<and> clear_run (a_bm (arena s)) (pages (arena s)) n i
    \<and> (\<forall>k < n. \<not> bits (a_bm (arena s)) (i + k) \<and> bits (a_bm (arena s')) (i + k))"
proof -
  let ?a = "arena s"
  have inv: "arena_inv ops ?a" and ok: "mapper_set (mem s)" "pool_ok (x_frame ops) (pool (mem s))"
    using assms(1) by (auto simp: vm_ok_def)
  then have cap: "pages ?a \<le> capacity_bits (a_bm ?a)" and ini: "inited ?a \<and> 0 < pages ?a"
    by (auto simp: arena_inv_def)
  have "j \<in> {0..<pages ?a}" using assms(2,3) by (auto simp: clear_run_def)
  then obtain i where fi: "find (clear_run (a_bm ?a) (pages ?a) n) [0..<pages ?a] = Some i"
    using assms(3) by (cases "find (clear_run (a_bm ?a) (pages ?a) n) [0..<pages ?a]")
      (auto simp: find_range_None)
  then have i: "i < pages ?a" "clear_run (a_bm ?a) (pages ?a) n i" by (auto simp: find_range_Some)
  have fr: "find_run (a_bm ?a) (pages ?a) n = Some (Some i)"
    using find_run_eq_find [OF cap, of n] fi assms(2) by simp
  have "min (i + n) (pages ?a) \<le> capacity_bits (a_bm ?a)" using cap by (simp add: min_def)
  from set_range_spec [OF this, of i True] obtain b where
    b: "set_range (a_bm ?a) i (i + n) (pages ?a) True = Some b" by blast
  have "try_alloc (x_frame ops) (pool (mem s)) = Some (None, pool (mem s))"
    using try_alloc_empty [OF ok(2) assms(4)] .
  then have "back_pages ops (a_base ?a) i n (mem s) = Some (False, mem s)"
    using assms(2) page_va_ok [OF inv i(1)] by (cases n) (simp_all add: frame_alloc_def)
  with ini fr b have al: "alloc_n ops n s = Some (None, s\<lparr>arena := ?a\<lparr>a_bm := b\<rparr>, mem := mem s\<rparr>)"
    by (simp add: alloc_n_def assert_that_def Let_def)
  from alloc_n_cases [OF inv al] assms(2,3) obtain i' c where
    i': "clear_run (a_bm ?a) (pages ?a) n i'"
    and eq: "?a\<lparr>a_bm := b\<rparr> = ?a\<lparr>a_bm := c\<rparr>"
    and c: "bits c = (\<lambda>k. (i' \<le> k \<and> k < i' + n) \<or> bits (a_bm ?a) k)" by auto
  have "b = c" using arg_cong [OF eq, of a_bm] by simp
  then have "\<not> bits (a_bm ?a) (i' + k) \<and> bits b (i' + k)" if "k < n" for k
    using i' that c by (simp add: clear_run_def)
  with al i' show ?thesis by auto
qed

lemma alloc_n_failure_keeps_reservation_example:
  "\<exists>s' i. alloc_n flat_ops 2 (flat_vm 7) = Some (None, s')
    \<and> clear_run (a_bm (arena (flat_vm 7))) (pages (arena (flat_vm 7))) 2 i
    \<and> (\<forall>k < 2. \<not> bits (a_bm (arena (flat_vm 7))) (i + k) \<and> bits (a_bm (arena s')) (i + k))"
proof (rule alloc_n_failure_keeps_reservation [OF flat_vm_ok, where j = 0])
  show "clear_run (a_bm (arena (flat_vm 7))) (pages (arena (flat_vm 7))) 2 0"
    by (simp add: clear_run_def flat_vm_def bits_def)
  have "bits (bm (pool (mem (flat_vm 7)))) i" if "i = 0 \<or> i = 1 \<or> i = 2" for i
    using that by (auto simp: flat_vm_def bits_def capacity_bits_def bit_simps)
  moreover have "i = 0 \<or> i = 1 \<or> i = 2" if "i < tracked (pool (mem (flat_vm 7)))" for i
    using that by (auto simp: flat_vm_def)
  ultimately show "free_frames (pool (mem (flat_vm 7))) = {}" unfolding free_frames_def by blast
qed simp

text \<open>
  The aligned search rounds its candidate up after the bounds test, so it can return a run
  that ends behind the arena: here pages 8 to 11 of an arena of 10 pages.
\<close>

lemma find_aligned_bitset_overrun:
  "find_aligned_bitset \<lparr>storage = [1]\<rparr> 10 4 8 0 = Some (Some 8) \<and> \<not> 8 + 4 \<le> (10 :: nat)"
  by (simp add: find_aligned_bitset.simps [of _ _ _ _ 0] find_aligned_bitset.simps [of _ _ _ _ "Suc 0"]
      upt_rec get_unchecked_def)

end
