(* ===== verification/Errno.thy ===== *)
theory Errno
  imports Prelude
begin

text \<open>
  \<^verbatim>\<open>crates/abi/src/errno.rs\<close>: the error numbers of the system-call interface. A failing call returns
  the negated number; \<open>i64\<close> results are mathematical integers.
\<close>

definition EPERM :: i64 where "EPERM = 1"
definition ENOENT :: i64 where "ENOENT = 2"
definition ESRCH :: i64 where "ESRCH = 3"
definition EIO :: i64 where "EIO = 5"
definition EAGAIN :: i64 where "EAGAIN = 11"
definition ENOMEM :: i64 where "ENOMEM = 12"
definition EFAULT :: i64 where "EFAULT = 14"
definition ENODEV :: i64 where "ENODEV = 19"
definition EINVAL :: i64 where "EINVAL = 22"
definition ENOSPC :: i64 where "ENOSPC = 28"
definition ENOSYS :: i64 where "ENOSYS = 38"

lemmas errno_defs = EPERM_def ENOENT_def ESRCH_def EIO_def EAGAIN_def ENOMEM_def EFAULT_def ENODEV_def
  EINVAL_def ENOSPC_def ENOSYS_def

end
