(* ===== verification/User_Mem.thy ===== *)
theory User_Mem
  imports Errno
begin

text \<open>
  \<^verbatim>\<open>kernel/mm/aspace/user_copy.rs\<close> and \<^verbatim>\<open>kernel/syscall/util.rs\<close>: how system calls read and write user
  memory. The memory the current address space maps is a function from addresses to bytes; that an
  address in the user range is mapped is assumed by the source too (an unmapped one faults). A
  \<open>repr(C)\<close> argument block is the list of its bytes, its \<open>u64\<close> fields are little-endian slices.
\<close>

type_synonym umem = "u64 \<Rightarrow> u8"

definition USER_MAX :: u64 where "USER_MAX = 0x00007FFFFFFFF000"

definition is_user_range :: "u64 \<Rightarrow> nat \<Rightarrow> bool" where
  "is_user_range ptr len =
     (if len = 0 then True
      else case checked_add ptr (of_nat len) of
        None \<Rightarrow> False
      | Some e \<Rightarrow> ptr < e \<and> e \<le> USER_MAX)"

definition read_bytes :: "umem \<Rightarrow> u64 \<Rightarrow> nat \<Rightarrow> u8 list" where
  "read_bytes m a n = map (\<lambda>i. m (a + of_nat i)) [0..<n]"

definition write_bytes :: "umem \<Rightarrow> u64 \<Rightarrow> u8 list \<Rightarrow> umem" where
  "write_bytes m a bs = (\<lambda>x. if unat (x - a) < length bs then bs ! unat (x - a) else m x)"

definition copy_from_user :: "umem \<Rightarrow> u64 \<Rightarrow> nat \<Rightarrow> u8 list option" where
  "copy_from_user m src_user len = (if is_user_range src_user len then Some (read_bytes m src_user len) else None)"

definition copy_to_user :: "umem \<Rightarrow> u64 \<Rightarrow> u8 list \<Rightarrow> umem option" where
  "copy_to_user m dst_user src =
     (if is_user_range dst_user (length src) then Some (write_bytes m dst_user src) else None)"

section \<open>Little-endian fields\<close>

definition le64 :: "u64 \<Rightarrow> u8 list" where
  "le64 w = map (\<lambda>i. ucast (drop_bit (8 * i) w)) [0..<8]"

definition le32 :: "u32 \<Rightarrow> u8 list" where
  "le32 w = map (\<lambda>i. ucast (drop_bit (8 * i) w)) [0..<4]"

definition from_le64 :: "u8 list \<Rightarrow> u64" where
  "from_le64 bs = foldr (\<lambda>b acc. push_bit 8 acc OR ucast b) (take 8 bs) 0"

definition field64 :: "u8 list \<Rightarrow> nat \<Rightarrow> u64" where
  "field64 bs k = from_le64 (drop (8 * k) bs)"

definition field16 :: "u8 list \<Rightarrow> nat \<Rightarrow> u16" where
  "field16 bs k = ucast (bs ! k) OR push_bit 8 (ucast (bs ! (k + 1)))"

definition field32 :: "u8 list \<Rightarrow> nat \<Rightarrow> u32" where
  "field32 bs k = ucast (field16 bs k) OR push_bit 16 (ucast (field16 bs (k + 2)))"

definition le16f :: "u16 \<Rightarrow> u8 list" where
  "le16f w = [ucast w, ucast (drop_bit 8 w)]"

section \<open>UTF-8\<close>

text \<open>\<open>core::str::from_utf8\<close> accepts exactly the well-formed sequences of the Unicode standard.\<close>

definition in_range :: "u8 \<Rightarrow> u8 \<Rightarrow> u8 \<Rightarrow> bool" where
  "in_range lo hi b \<longleftrightarrow> lo \<le> b \<and> b \<le> hi"

abbreviation cont :: "u8 \<Rightarrow> bool" where "cont \<equiv> in_range 0x80 0xBF"

fun utf8_valid :: "u8 list \<Rightarrow> bool" where
  "utf8_valid [] = True"
| "utf8_valid (b # bs) =
     (if b < 0x80 then utf8_valid bs
      else if in_range 0xC2 0xDF b then (case bs of c # r \<Rightarrow> cont c \<and> utf8_valid r | [] \<Rightarrow> False)
      else if in_range 0xE0 0xEF b then
        (case bs of
           c # d # r \<Rightarrow> (if b = 0xE0 then in_range 0xA0 0xBF c else if b = 0xED then in_range 0x80 0x9F c else cont c)
             \<and> cont d \<and> utf8_valid r
         | _ \<Rightarrow> False)
      else if in_range 0xF0 0xF4 b then
        (case bs of
           c # d # e # r \<Rightarrow> (if b = 0xF0 then in_range 0x90 0xBF c else if b = 0xF4 then in_range 0x80 0x8F c else cont c)
             \<and> cont d \<and> cont e \<and> utf8_valid r
         | _ \<Rightarrow> False)
      else False)"

section \<open>\<open>syscall/util.rs\<close>\<close>

text \<open>The loop \<open>while buf.last() == Some(0) { buf.pop(); }\<close>.\<close>

definition strip_nul :: "u8 list \<Rightarrow> u8 list" where
  "strip_nul buf = rev (dropWhile (\<lambda>b. b = 0) (rev buf))"

definition copy_user_str :: "umem \<Rightarrow> u64 \<Rightarrow> u64 \<Rightarrow> i64 + u8 list" where
  "copy_user_str m ptr len =
     (if ptr = 0 then Inl (- EFAULT)
      else if len = 0 \<or> len > 4096 then Inl (- EINVAL)
      else case copy_from_user m ptr (unat len) of
        None \<Rightarrow> Inl (- EFAULT)
      | Some buf \<Rightarrow>
          (let buf = strip_nul buf in
           if 0 \<in> set buf then Inl (- EINVAL)
           else if utf8_valid buf then Inr buf else Inl (- EINVAL)))"

definition copy_user_struct :: "umem \<Rightarrow> u64 \<Rightarrow> nat \<Rightarrow> i64 + u8 list" where
  "copy_user_struct m ptr sz =
     (if ptr = 0 then Inl (- EFAULT)
      else case copy_from_user m ptr sz of None \<Rightarrow> Inl (- EFAULT) | Some tmp \<Rightarrow> Inr tmp)"

section \<open>Facts\<close>

lemma length_le [simp]: "length (le32 a) = 4" "length (le64 b) = 8"
  by (simp_all add: le32_def le64_def)

lemma is_user_range_iff:
  assumes "len < 2 ^ 64"
  shows "is_user_range ptr len \<longleftrightarrow> len = 0 \<or> unat ptr + len \<le> unat USER_MAX"
proof (cases "len = 0")
  case False
  have l: "unat (of_nat len :: u64) = len" using assms by (simp only: unat_of_nat) simp
  show ?thesis
  proof (cases "unat ptr + len < 2 ^ 64")
    case True
    then have "unat (ptr + of_nat len) = unat ptr + len" by (simp add: unat_word_ariths l)
    with True False l show ?thesis
      by (simp add: is_user_range_def checked_add_def word_less_nat_alt word_le_nat_alt)
  next
    case over: False
    have "unat USER_MAX < 2 ^ 64" by (simp add: USER_MAX_def)
    with over False l show ?thesis by (simp add: is_user_range_def checked_add_def)
  qed
qed (simp add: is_user_range_def)

lemma length_read_bytes [simp]: "length (read_bytes m a n) = n"
  by (simp add: read_bytes_def)

lemma read_bytes_Nil [simp]: "read_bytes m a n = [] \<longleftrightarrow> n = 0"
  by (simp add: read_bytes_def)

lemma unat_add_diff:
  assumes "i < 2 ^ 64"
  shows "unat (a + of_nat i - a :: u64) = i"
  using assms by (simp add: unat_of_nat)

text \<open>What \<open>copy_to_user\<close> wrote is what a read of the same place returns; other addresses keep their byte.\<close>

lemma read_write_bytes:
  assumes "length bs < 2 ^ 64"
  shows "read_bytes (write_bytes m a bs) a (length bs) = bs"
proof (rule nth_equalityI)
  fix i assume "i < length (read_bytes (write_bytes m a bs) a (length bs))"
  then have "i < length bs" by simp
  moreover from this have "unat (a + of_nat i - a) = i" using assms by (intro unat_add_diff) simp
  ultimately show "read_bytes (write_bytes m a bs) a (length bs) ! i = bs ! i"
    by (simp add: read_bytes_def write_bytes_def)
qed simp

lemma write_bytes_append:
  assumes "length xs + length ys \<le> 2 ^ 64"
  shows "write_bytes (write_bytes m a xs) (a + of_nat (length xs)) ys = write_bytes m a (xs @ ys)"
proof
  fix x
  define d where "d = unat (x - a)"
  have "d < 2 ^ LENGTH(64)" unfolding d_def by (rule unsigned_less)
  then have d: "d < 2 ^ 64" by simp
  have e: "unat (x - (a + of_nat (length xs))) = (if length xs \<le> d then d - length xs else 2 ^ 64 + d - length xs)"
  proof -
    have "x = a + word_of_int (int d)" by (simp add: d_def)
    then have "x - (a + of_nat (length xs)) = word_of_int (int d - int (length xs))"
      by (simp add: wi_hom_sub [symmetric])
    then have "unat (x - (a + of_nat (length xs))) = nat (take_bit LENGTH(64) (int d - int (length xs)))"
      by (simp only: unsigned_of_int of_nat_id)
    then have "unat (x - (a + of_nat (length xs))) = nat ((int d - int (length xs)) mod 2 ^ 64)"
      by (simp add: take_bit_eq_mod)
    moreover have "(int d - int (length xs)) mod 2 ^ 64 = (if length xs \<le> d then int d - int (length xs)
        else 2 ^ 64 + int d - int (length xs))"
    proof (cases "length xs \<le> d")
      case False
      have "(int d - int (length xs)) mod 2 ^ 64 = (int d - int (length xs) + 2 ^ 64) mod 2 ^ 64" by simp
      also have "\<dots> = int d - int (length xs) + 2 ^ 64" using False assms by (intro mod_pos_pos_trivial) simp_all
      finally show ?thesis using False by simp
    qed (use d in simp)
    ultimately show ?thesis using assms by (auto simp: nat_eq_iff)
  qed
  show "write_bytes (write_bytes m a xs) (a + of_nat (length xs)) ys x = write_bytes m a (xs @ ys) x"
    using assms by (cases "length xs \<le> d") (auto simp: write_bytes_def e d_def [symmetric] nth_append)
qed

text \<open>Reading next to a write, and a part of what was written.\<close>

lemma read_write_apart:
  assumes "unat a + n \<le> unat b \<or> unat b + length bs \<le> unat a" "unat a + n < 2 ^ 64" "unat b + length bs < 2 ^ 64"
  shows "read_bytes (write_bytes m b bs) a n = read_bytes m a n"
proof -
  have "length bs \<le> unat (a + of_nat i - b)" if i: "i < n" for i
  proof -
    have s: "unat (a + of_nat i) = unat a + i" using i assms(2) by (simp add: unat_word_ariths unat_of_nat)
    then have "unat (a + of_nat i - b) = (if unat b \<le> unat a + i then unat a + i - unat b else unat a + i + 2 ^ 64 - unat b)"
      by (simp add: unat_sub_if')
    then show ?thesis using assms i by auto
  qed
  then show ?thesis by (fastforce simp: read_bytes_def write_bytes_def)
qed

lemma read_write_inside:
  assumes "i + n \<le> length bs" "length bs < 2 ^ 64"
  shows "read_bytes (write_bytes m a bs) (a + of_nat i) n = take n (drop i bs)"
proof (rule nth_equalityI)
  fix k assume k: "k < length (read_bytes (write_bytes m a bs) (a + of_nat i) n)"
  have "a + of_nat i + of_nat k - a = (of_nat (i + k) :: u64)" by simp
  then have "unat (a + of_nat i + of_nat k - a) = i + k" using k assms by (simp only: unat_of_nat length_read_bytes) simp
  with k assms show "read_bytes (write_bytes m a bs) (a + of_nat i) n ! k = take n (drop i bs) ! k"
    by (simp add: read_bytes_def write_bytes_def)
qed (use assms in simp)

lemma write_bytes_outside:
  assumes "is_user_range a (length bs)" "length bs < 2 ^ 64" "USER_MAX \<le> x"
  shows "write_bytes m a bs x = m x"
proof (cases "bs = []")
  case False
  then have "unat a + length bs \<le> unat USER_MAX" using assms(1,2) by (simp add: is_user_range_iff)
  moreover have "unat USER_MAX \<le> unat x" using assms(3) by (simp add: word_le_nat_alt)
  ultimately have "unat a \<le> unat x" "length bs \<le> unat x - unat a" by linarith+
  then have "length bs \<le> unat (x - a)" by (simp add: unat_sub word_le_nat_alt)
  then show ?thesis by (simp add: write_bytes_def)
qed (simp add: write_bytes_def)

lemma copy_to_user_reads_back:
  "copy_to_user m dst bs = Some m' \<Longrightarrow> length bs < 2 ^ 64 \<Longrightarrow> read_bytes m' dst (length bs) = bs"
  by (auto simp: copy_to_user_def read_write_bytes split: if_splits)

lemma copy_to_user_kernel:
  "copy_to_user m dst bs = Some m' \<Longrightarrow> length bs < 2 ^ 64 \<Longrightarrow> USER_MAX \<le> x \<Longrightarrow> m' x = m x"
  by (auto simp: copy_to_user_def write_bytes_outside split: if_splits)

lemma foldr_le_bytes:
  "foldr (\<lambda>b acc. push_bit 8 acc OR ucast b) (map (\<lambda>i. ucast (drop_bit (8 * i) w) :: u8) [k..<k + n]) 0
     = take_bit (8 * n) (drop_bit (8 * k) w)" for w :: u64
proof (induction n arbitrary: k)
  case (Suc n)
  have "[k..<k + Suc n] = k # [Suc k..<Suc k + n]" by (simp add: upt_conv_Cons)
  moreover have "push_bit 8 (take_bit (8 * n) (drop_bit (8 * Suc k) w)) OR ucast (ucast (drop_bit (8 * k) w) :: u8)
      = take_bit (8 * Suc n) (drop_bit (8 * k) w)"
    by (rule bit_word_eqI) (auto simp: bit_simps not_less algebra_simps)
  ultimately show ?case using Suc.IH [of "Suc k"] by simp
qed simp

lemma from_le64_le64 [codec_simps]: "from_le64 (le64 w) = w"
proof -
  have "from_le64 (le64 w) = take_bit 64 w"
    using foldr_le_bytes [of w 0 8] by (simp add: from_le64_def le64_def)
  then show ?thesis by (simp add: take_bit_word_eq_self)
qed

lemma copy_user_str_spec:
  assumes "copy_user_str m ptr len = Inr str"
  shows "0 \<notin> set str \<and> utf8_valid str \<and> length str \<le> 4096 \<and> ptr \<noteq> 0"
proof -
  have "length (strip_nul xs) \<le> length xs" for xs
    unfolding strip_nul_def by (metis length_dropWhile_le length_rev)
  moreover have "unat len \<le> 4096" if "len \<le> 4096" using that by (simp add: word_le_nat_alt)
  ultimately show ?thesis
    using assms by (fastforce simp: copy_user_str_def copy_from_user_def Let_def not_less
        split: if_splits intro: le_trans)
qed

end
