(* ===== verification/Ipc.thy ===== *)
theory Ipc
  imports Vmarena User_Mem
begin

text \<open>
  \<^verbatim>\<open>kernel/syscall/chan.rs\<close> and \<^verbatim>\<open>kernel/syscall/shm.rs\<close>: message channels and shared memory. The state is
  the user memory the caller passes buffers in, the two tables behind their mutexes (\<open>BTreeMap\<close>s, so
  finite maps), the identifier counters, and the memory subsystem that backs shared pages.
\<close>

definition MAX_MSG :: nat where "MAX_MSG = 1024"
definition MAX_QUEUE_MSGS :: nat where "MAX_QUEUE_MSGS = 64"
definition USER_SHM_BASE :: u64 where "USER_SHM_BASE = 0x0000500000000000"
definition USER_SHM_STRIDE :: u64 where "USER_SHM_STRIDE = 0x01000000"
definition SHM_MAX_SIZE :: u64 where "SHM_MAX_SIZE = 64 * 1024 * 1024"

record shm_obj =
  shm_size :: u64
  shm_frames :: "u64 list"

record 'h ipc =
  um :: umem
  chans :: "u64 \<rightharpoonup> u8 list list"
  next_chan_id :: u64
  shms :: "u64 \<rightharpoonup> shm_obj"
  next_shm_id :: u64
  imm :: "'h mm"

section \<open>Channels\<close>

definition sys_chan_create :: "u64 \<Rightarrow> 'h ipc \<Rightarrow> i64 \<times> 'h ipc" where
  "sys_chan_create args_ptr s =
     (case copy_user_struct (um s) args_ptr 8 of
        Inl e \<Rightarrow> (e, s)
      | Inr _ \<Rightarrow>
          (let i = next_chan_id s
           in (sint i, s\<lparr>next_chan_id := i + 1, chans := (chans s)(i \<mapsto> [])\<rparr>)))"

text \<open>\<open>ChanSendArgs\<close>: \<open>chan_id\<close>, \<open>data_ptr\<close>, \<open>data_len\<close>.\<close>

definition sys_chan_send :: "u64 \<Rightarrow> 'h ipc \<Rightarrow> i64 \<times> 'h ipc" where
  "sys_chan_send args_ptr s =
     (case copy_user_struct (um s) args_ptr 24 of
        Inl e \<Rightarrow> (e, s)
      | Inr args \<Rightarrow>
          (let chan_id = field64 args 0; data_ptr = field64 args 1; len = unat (field64 args 2) in
           if chan_id = 0 then (- EINVAL, s)
           else if data_ptr = 0 then (- EFAULT, s)
           else if len = 0 then (0, s)
           else if len > MAX_MSG then (- EINVAL, s)
           else case copy_from_user (um s) data_ptr len of
             None \<Rightarrow> (- EFAULT, s)
           | Some buf \<Rightarrow>
               (case chans s chan_id of
                  None \<Rightarrow> (- ESRCH, s)
                | Some q \<Rightarrow>
                    if length q \<ge> MAX_QUEUE_MSGS then (- EAGAIN, s)
                    else (int len, s\<lparr>chans := (chans s)(chan_id \<mapsto> q @ [buf])\<rparr>))))"

text \<open>\<open>ChanRecvArgs\<close>: \<open>chan_id\<close>, \<open>out_ptr\<close>, \<open>out_cap\<close>. The message is popped before it is copied out.\<close>

definition sys_chan_recv :: "u64 \<Rightarrow> 'h ipc \<Rightarrow> i64 \<times> 'h ipc" where
  "sys_chan_recv args_ptr s =
     (case copy_user_struct (um s) args_ptr 24 of
        Inl e \<Rightarrow> (e, s)
      | Inr args \<Rightarrow>
          (let chan_id = field64 args 0; out_ptr = field64 args 1; cap = unat (field64 args 2) in
           if chan_id = 0 then (- EINVAL, s)
           else if out_ptr = 0 then (- EFAULT, s)
           else if cap = 0 then (0, s)
           else case chans s chan_id of
             None \<Rightarrow> (- ESRCH, s)
           | Some [] \<Rightarrow> (- EAGAIN, s)
           | Some (msg # q) \<Rightarrow>
               if length msg > cap then (- EINVAL, s)
               else let s = s\<lparr>chans := (chans s)(chan_id \<mapsto> q)\<rparr> in
                 case copy_to_user (um s) out_ptr msg of
                   None \<Rightarrow> (- EFAULT, s)
                 | Some m \<Rightarrow> (int (length msg), s\<lparr>um := m\<rparr>)))"

section \<open>Shared memory\<close>

text \<open>The file's own \<open>align_up\<close> (with its plain addition) and \<open>align_down\<close>.\<close>

definition shm_align_up :: "u64 \<Rightarrow> u64 \<Rightarrow> u64 option" where
  "shm_align_up x a = do { y \<leftarrow> checked_add x (a - 1); Some (y AND NOT (a - 1)) }"

definition shm_align_down :: "u64 \<Rightarrow> u64 \<Rightarrow> u64" where
  "shm_align_down x a = x AND NOT (a - 1)"

text \<open>\<open>ShmCreateArgs\<close>: \<open>size\<close>, \<open>flags\<close>. The outer option is the panic.\<close>

definition sys_shm_create :: "'h x86_ops \<Rightarrow> u64 \<Rightarrow> 'h ipc \<Rightarrow> (i64 \<times> 'h ipc) option" where
  "sys_shm_create ops args_ptr s =
     (case copy_user_struct (um s) args_ptr 16 of
        Inl e \<Rightarrow> Some (e, s)
      | Inr args \<Rightarrow>
          (let size = field64 args 0 in
           if size = 0 then Some (- EINVAL, s)
           else if size > SHM_MAX_SIZE then Some (- EINVAL, s)
           else do {
             size_aligned \<leftarrow> shm_align_up size PAGE_SIZE;
             let pages = unat (size_aligned div PAGE_SIZE);
             (r, m) \<leftarrow> alloc_frames (frame_alloc ops) pages (imm s);
             case r of
               None \<Rightarrow> Some (- ENOSPC, s\<lparr>imm := m\<rparr>)
             | Some frames \<Rightarrow>
                 (let i = next_shm_id s in
                  Some (sint i, s\<lparr>imm := m, next_shm_id := i + 1,
                    shms := (shms s)(i \<mapsto> \<lparr>shm_size = size_aligned, shm_frames = frames\<rparr>)\<rparr>))
           }))"

fun shm_map_pages :: "'h x86_ops \<Rightarrow> u64 \<Rightarrow> u64 list \<Rightarrow> nat list \<Rightarrow> 'h mm \<Rightarrow> (bool \<times> 'h mm) option" where
  "shm_map_pages ops b frames [] m = Some (True, m)"
| "shm_map_pages ops b frames (i # is) m = do {
     va \<leftarrow> page_va ops b i;
     assert_that (i < length frames);
     (r, m) \<leftarrow> map_fixed ops va (frames ! i) UserRW m;
     case r of Inl _ \<Rightarrow> Some (False, m) | Inr _ \<Rightarrow> shm_map_pages ops b frames is m
   }"

text \<open>\<open>ShmMapArgs\<close>: \<open>shm_id\<close>, \<open>desired_va\<close>, \<open>flags\<close>.\<close>

definition sys_shm_map :: "'h x86_ops \<Rightarrow> u64 \<Rightarrow> 'h ipc \<Rightarrow> (i64 \<times> 'h ipc) option" where
  "sys_shm_map ops args_ptr s =
     (case copy_user_struct (um s) args_ptr 24 of
        Inl e \<Rightarrow> Some (e, s)
      | Inr args \<Rightarrow>
          (let shm_id = field64 args 0; desired_va = field64 args 1 in
           if shm_id = 0 then Some (- EINVAL, s)
           else case shms s shm_id of
             None \<Rightarrow> Some (- ESRCH, s)
           | Some obj \<Rightarrow>
               (let va = shm_align_down desired_va PAGE_SIZE in
                if desired_va \<noteq> 0 \<and> (va = 0 \<or> va \<ge> 0x0000800000000000) then Some (- EINVAL, s)
                else do {
                  base_va \<leftarrow> (if desired_va \<noteq> 0 then Some va
                              else checked_add USER_SHM_BASE (saturating_mul shm_id USER_SHM_STRIDE));
                  if shm_size obj > USER_SHM_STRIDE then Some (- EINVAL, s)
                  else do {
                    (ok, m) \<leftarrow> shm_map_pages ops base_va (shm_frames obj)
                       [0..<unat (shm_size obj div PAGE_SIZE)] (imm s);
                    Some (if ok then sint base_va else - EIO, s\<lparr>imm := m\<rparr>)
                  }
                })))"

section \<open>Channel invariant\<close>

definition chan_ok :: "u8 list list \<Rightarrow> bool" where
  "chan_ok q \<longleftrightarrow> length q \<le> MAX_QUEUE_MSGS \<and> (\<forall>m \<in> set q. 0 < length m \<and> length m \<le> MAX_MSG)"

definition chan_inv :: "'h ipc \<Rightarrow> bool" where
  "chan_inv s \<longleftrightarrow> (\<forall>i q. chans s i = Some q \<longrightarrow> chan_ok q)"

lemma chan_create_inv: "chan_inv s \<Longrightarrow> chan_inv (snd (sys_chan_create p s))"
  by (auto simp: sys_chan_create_def chan_inv_def chan_ok_def Let_def split: sum.splits)

lemma chan_send_inv:
  assumes "chan_inv s"
  shows "chan_inv (snd (sys_chan_send p s))"
proof -
  have "chan_ok (q @ [read_bytes m a n])" if "chan_ok q" "length q < MAX_QUEUE_MSGS" "0 < n" "n \<le> MAX_MSG" for q m a n
    using that by (auto simp: chan_ok_def)
  then show ?thesis
    using assms
    by (auto simp: sys_chan_send_def chan_inv_def Let_def copy_from_user_def not_le not_less
        split: sum.splits option.splits)
qed

lemma chan_recv_inv:
  assumes "chan_inv s"
  shows "chan_inv (snd (sys_chan_recv p s))"
proof -
  have "chan_ok q" if "chan_ok (x # q)" for x q using that by (auto simp: chan_ok_def)
  with assms show ?thesis
    by (auto simp: sys_chan_recv_def chan_inv_def Let_def split: sum.splits option.splits list.splits)
qed

section \<open>Channels as exactly-once FIFO queues\<close>

text \<open>The fields of the argument block a call names, and the queue of a channel.\<close>

definition arg :: "'h ipc \<Rightarrow> u64 \<Rightarrow> nat \<Rightarrow> u64" where
  "arg s p k = field64 (read_bytes (um s) p 24) k"

lemma chan_send_ok:
  assumes "sys_chan_send p s = (r, s')" "0 < r"
  shows "\<exists>q. chans s (arg s p 0) = Some q \<and> length q < MAX_QUEUE_MSGS \<and> r = int (unat (arg s p 2))
    \<and> s' = s\<lparr>chans := (chans s)(arg s p 0 \<mapsto> q @ [read_bytes (um s) (arg s p 1) (unat (arg s p 2))])\<rparr>"
  using assms
  by (auto simp: sys_chan_send_def copy_user_struct_def copy_from_user_def arg_def Let_def errno_defs
      split: sum.splits option.splits if_splits)

lemma chan_send_fail: "sys_chan_send p s = (r, s') \<Longrightarrow> r \<le> 0 \<Longrightarrow> s' = s"
  by (auto simp: sys_chan_send_def Let_def uint_0_iff split: sum.splits option.splits if_splits)

lemma chan_recv_ok:
  assumes "sys_chan_recv p s = (r, s')" "0 < r"
  shows "\<exists>msg q m. chans s (arg s p 0) = Some (msg # q) \<and> r = int (length msg)
    \<and> copy_to_user (um s) (arg s p 1) msg = Some m \<and> length msg \<le> unat (arg s p 2)
    \<and> s' = s\<lparr>chans := (chans s)(arg s p 0 \<mapsto> q), um := m\<rparr>"
  using assms
  by (auto simp: sys_chan_recv_def copy_user_struct_def copy_from_user_def arg_def Let_def errno_defs
      split: sum.splits option.splits if_splits list.splits)

lemma chan_recv_fail:
  "sys_chan_recv p s = (r, s') \<Longrightarrow> r < 0 \<Longrightarrow> r \<noteq> - EFAULT \<Longrightarrow> s' = s"
  by (auto simp: sys_chan_recv_def Let_def split: sum.splits option.splits if_splits list.splits)

text \<open>
  Two processes on one channel \<open>c\<close>: \<open>sent\<close> are the byte strings accepted by successful sends,
  \<open>got\<close> the byte strings found in the receivers' buffers after successful receives. In between, user
  code may change user memory at will, and calls on other channels and failing calls happen; a
  receive that fails with \<open>EFAULT\<close> is left out.
\<close>

inductive chan_trace :: "u64 \<Rightarrow> 'h ipc \<Rightarrow> 'h ipc \<times> u8 list list \<times> u8 list list \<Rightarrow> bool" for c s0 where
  tr_start: "chan_trace c s0 (s0, [], [])"
| tr_send: "chan_trace c s0 (s, sent, got) \<Longrightarrow> sys_chan_send p s = (r, s') \<Longrightarrow> 0 < r \<Longrightarrow> arg s p 0 = c \<Longrightarrow>
     chan_trace c s0 (s', sent @ [read_bytes (um s) (arg s p 1) (unat (arg s p 2))], got)"
| tr_send_other: "chan_trace c s0 (s, sent, got) \<Longrightarrow> sys_chan_send p s = (r, s') \<Longrightarrow> r \<le> 0 \<or> arg s p 0 \<noteq> c \<Longrightarrow>
     chan_trace c s0 (s', sent, got)"
| tr_recv: "chan_trace c s0 (s, sent, got) \<Longrightarrow> sys_chan_recv p s = (r, s') \<Longrightarrow> 0 < r \<Longrightarrow> arg s p 0 = c \<Longrightarrow>
     chan_trace c s0 (s', sent, got @ [read_bytes (um s') (arg s p 1) (nat r)])"
| tr_recv_other: "chan_trace c s0 (s, sent, got) \<Longrightarrow> sys_chan_recv p s = (r, s') \<Longrightarrow>
     (r < 0 \<and> r \<noteq> - EFAULT) \<or> (0 < r \<and> arg s p 0 \<noteq> c) \<Longrightarrow> chan_trace c s0 (s', sent, got)"
| tr_user: "chan_trace c s0 (s, sent, got) \<Longrightarrow> chan_trace c s0 (s\<lparr>um := m\<rparr>, sent, got)"

lemma chan_trace_fifo:
  assumes "chan_trace c s0 x" "chans s0 c = Some []" "chan_inv s0"
  shows "chan_inv (fst x) \<and> (\<exists>q. chans (fst x) c = Some q \<and> fst (snd x) = snd (snd x) @ q)"
  using assms
proof (induction rule: chan_trace.induct)
  case (tr_send s sent got p r s')
  then have "chan_inv s'" using chan_send_inv [of s p] by simp
  with tr_send chan_send_ok [OF tr_send.hyps(2,3)] show ?case by auto
next
  case (tr_send_other s sent got p r s')
  then have "chan_inv s'" using chan_send_inv [of s p] by simp
  with tr_send_other chan_send_ok [OF tr_send_other.hyps(2)] chan_send_fail [OF tr_send_other.hyps(2)] show ?case
    by (cases "0 < r") auto
next
  case (tr_recv s sent got p r s')
  then have inv: "chan_inv s'" using chan_recv_inv [of s p] by simp
  from chan_recv_ok [OF tr_recv.hyps(2,3)] tr_recv.hyps(4) obtain msg q m where
    q: "chans s c = Some (msg # q)" "r = int (length msg)" "copy_to_user (um s) (arg s p 1) msg = Some m"
    "s' = s\<lparr>chans := (chans s)(c \<mapsto> q), um := m\<rparr>" by auto
  have "chan_ok (msg # q)" using tr_recv.IH [OF tr_recv.prems] q(1) unfolding chan_inv_def by auto
  then have "length msg \<le> MAX_MSG" by (simp add: chan_ok_def)
  then have "read_bytes m (arg s p 1) (length msg) = msg"
    using copy_to_user_reads_back [OF q(3)] by (simp add: MAX_MSG_def)
  with tr_recv q inv show ?case by simp
next
  case (tr_recv_other s sent got p r s')
  then have "chan_inv s'" using chan_recv_inv [of s p] by simp
  with tr_recv_other chan_recv_ok [OF tr_recv_other.hyps(2)] chan_recv_fail [OF tr_recv_other.hyps(2)] show ?case
    by (cases "0 < r") auto
qed (auto simp: chan_inv_def)

section \<open>Shared memory\<close>

interpretation mmf: frame_source "frame_alloc ops" "\<lambda>m. free_frames (pool m)" "\<lambda>m. pool_ok (x_frame ops) (pool m)"
  for ops :: "'h x86_ops"
proof unfold_locales
  fix m :: "'h mm" assume ok: "pool_ok (x_frame ops) (pool m)" and "free_frames (pool m) \<noteq> {}"
  from pool.alloc_some [OF this] obtain f p where "try_alloc (x_frame ops) (pool m) = Some (Some f, p)"
    "f \<in> free_frames (pool m)" "free_frames p = free_frames (pool m) - {f}" "pool_ok (x_frame ops) p" by blast
  then show "\<exists>f m'. frame_alloc ops m = Some (Some f, m') \<and> f \<in> free_frames (pool m)
      \<and> free_frames (pool m') = free_frames (pool m) - {f} \<and> pool_ok (x_frame ops) (pool m')"
    by (auto simp: frame_alloc_def)
next
  fix m :: "'h mm" assume "pool_ok (x_frame ops) (pool m)" "free_frames (pool m) = {}"
  then show "frame_alloc ops m = Some (None, m)" by (simp add: frame_alloc_def try_alloc_empty)
qed (rule finite_free_frames)

text \<open>
  Ownership of frames: no frame of a shared object is free, no two objects share a frame, an
  object has one frame per page of its size, and identifiers stay below the counter.
\<close>

definition shm_inv :: "'h x86_ops \<Rightarrow> 'h ipc \<Rightarrow> bool" where
  "shm_inv ops s \<longleftrightarrow> pool_ok (x_frame ops) (pool (imm s))
     \<and> (\<forall>i x. shms s i = Some x \<longrightarrow> i < next_shm_id s \<and> distinct (shm_frames x)
          \<and> length (shm_frames x) = unat (shm_size x div PAGE_SIZE)
          \<and> set (shm_frames x) \<inter> free_frames (pool (imm s)) = {})
     \<and> (\<forall>i j x y. i \<noteq> j \<and> shms s i = Some x \<and> shms s j = Some y
          \<longrightarrow> set (shm_frames x) \<inter> set (shm_frames y) = {})"

lemma shm_align_up_total:
  assumes "sz \<le> SHM_MAX_SIZE"
  shows "\<exists>a. shm_align_up sz PAGE_SIZE = Some a"
  using assms by (auto simp: shm_align_up_def checked_add_def SHM_MAX_SIZE_def word_le_nat_alt)

lemma shm_inv_shrink_pool:
  assumes "shm_inv ops s" "pool_ok (x_frame ops) (pool m)" "free_frames (pool m) \<subseteq> free_frames (pool (imm s))"
  shows "shm_inv ops (s\<lparr>imm := m\<rparr>)"
  using assms unfolding shm_inv_def by fastforce

lemma shm_inv_insert:
  assumes inv: "shm_inv ops s" and wrap: "next_shm_id s \<noteq> - 1"
    and fs: "distinct fs" "length fs = unat (sz div PAGE_SIZE)" "set fs \<subseteq> free_frames (pool (imm s))"
    and m: "free_frames (pool m) = free_frames (pool (imm s)) - set fs" "pool_ok (x_frame ops) (pool m)"
  shows "shm_inv ops (s\<lparr>imm := m, next_shm_id := next_shm_id s + 1,
    shms := (shms s)(next_shm_id s \<mapsto> \<lparr>shm_size = sz, shm_frames = fs\<rparr>)\<rparr>)"
proof -
  let ?i = "next_shm_id s" and ?x = "\<lparr>shm_size = sz, shm_frames = fs\<rparr>"
  have up: "?i < ?i + 1" using wrap by (rule word_less_add_one)
  have old: "j < ?i + 1 \<and> distinct (shm_frames y) \<and> length (shm_frames y) = unat (shm_size y div PAGE_SIZE)
      \<and> set (shm_frames y) \<inter> free_frames (pool m) = {} \<and> set (shm_frames y) \<inter> set fs = {}"
    if "shms s j = Some y" for j y
  proof -
    have "j < ?i" using inv that unfolding shm_inv_def by blast
    with up have "j < ?i + 1" by order
    moreover have "distinct (shm_frames y)" "length (shm_frames y) = unat (shm_size y div PAGE_SIZE)"
      "set (shm_frames y) \<inter> free_frames (pool (imm s)) = {}"
      using inv that unfolding shm_inv_def by blast+
    ultimately show ?thesis using fs(3) m(1) by blast
  qed
  show ?thesis
    unfolding shm_inv_def
  proof (intro conjI allI impI)
    show "pool_ok (x_frame ops) (pool (imm (s\<lparr>imm := m, next_shm_id := ?i + 1, shms := (shms s)(?i \<mapsto> ?x)\<rparr>)))"
      using m(2) by simp
  qed (use old inv fs m up in \<open>auto simp: shm_inv_def split: if_splits\<close>)
qed

text \<open>
  The outcome of \<open>sys_shm_create\<close> on a readable argument block with an acceptable size: an object with
  fresh frames when there are enough, else \<open>ENOSPC\<close> with every frame gone and no object to show for it.
\<close>

lemma shm_create_outcome:
  assumes inv: "shm_inv ops s" and wrap: "next_shm_id s \<noteq> - 1"
    and args: "copy_user_struct (um s) p 16 = Inr args" "field64 args 0 \<noteq> 0" "field64 args 0 \<le> SHM_MAX_SIZE"
  shows "\<exists>a r s'. shm_align_up (field64 args 0) PAGE_SIZE = Some a \<and> sys_shm_create ops p s = Some (r, s') \<and> shm_inv ops s'
    \<and> (if unat (a div PAGE_SIZE) \<le> card (free_frames (pool (imm s)))
       then r = sint (next_shm_id s) \<and> shms s (next_shm_id s) = None
          \<and> (\<exists>fs. shms s' = (shms s)(next_shm_id s \<mapsto> \<lparr>shm_size = a, shm_frames = fs\<rparr>)
              \<and> set fs \<subseteq> free_frames (pool (imm s)))
       else r = - ENOSPC \<and> shms s' = shms s \<and> free_frames (pool (imm s')) = {})"
proof -
  obtain a where a: "shm_align_up (field64 args 0) PAGE_SIZE = Some a" using shm_align_up_total [OF args(3)] by blast
  let ?n = "unat (a div PAGE_SIZE)" and ?fr = "free_frames (pool (imm s))"
  have ok: "pool_ok (x_frame ops) (pool (imm s))" using inv by (simp add: shm_inv_def)
  have run: "sys_shm_create ops p s = (case alloc_frames (frame_alloc ops) ?n (imm s) of
      None \<Rightarrow> None | Some (None, m) \<Rightarrow> Some (- ENOSPC, s\<lparr>imm := m\<rparr>)
    | Some (Some fs, m) \<Rightarrow> Some (sint (next_shm_id s), s\<lparr>imm := m, next_shm_id := next_shm_id s + 1,
        shms := (shms s)(next_shm_id s \<mapsto> \<lparr>shm_size = a, shm_frames = fs\<rparr>)\<rparr>))"
    using args a leD [OF args(3)] by (simp add: sys_shm_create_def Let_def split: option.splits Option.bind_split)
  show ?thesis
  proof (cases "?n \<le> card ?fr")
    case True
    from mmf.alloc_frames_enough [OF ok this] obtain fs m where
      fs: "alloc_frames (frame_alloc ops) ?n (imm s) = Some (Some fs, m)" "length fs = ?n" "distinct fs"
        "set fs \<subseteq> ?fr" "free_frames (pool m) = ?fr - set fs" "pool_ok (x_frame ops) (pool m)" by blast
    have "shms s (next_shm_id s) = None"
      using inv unfolding shm_inv_def by (metis less_irrefl option.exhaust)
    with True a run fs shm_inv_insert [OF inv wrap fs(3,2,4,5,6)] show ?thesis by auto
  next
    case False
    then have "card ?fr < ?n" by simp
    from mmf.alloc_frames_exhausts [OF ok this] obtain m where
      m: "alloc_frames (frame_alloc ops) ?n (imm s) = Some (None, m)" "free_frames (pool m) = {}"
        "pool_ok (x_frame ops) (pool m)" by blast
    then have "shm_inv ops (s\<lparr>imm := m\<rparr>)" by (intro shm_inv_shrink_pool [OF inv]) simp_all
    with False a run m show ?thesis by auto
  qed
qed

lemma shm_create_refused:
  "copy_user_struct (um s) p 16 = Inl e \<or>
   (copy_user_struct (um s) p 16 = Inr args \<and> (field64 args 0 = 0 \<or> SHM_MAX_SIZE < field64 args 0))
   \<Longrightarrow> \<exists>r. sys_shm_create ops p s = Some (r, s)"
  by (auto simp: sys_shm_create_def Let_def)

lemma shm_create_total:
  assumes "shm_inv ops s" and "next_shm_id s \<noteq> - 1"
  shows "\<exists>r s'. sys_shm_create ops p s = Some (r, s') \<and> shm_inv ops s'"
proof (cases "copy_user_struct (um s) p 16")
  case (Inl e)
  with shm_create_refused [of s p e] assms(1) show ?thesis by blast
next
  case (Inr args)
  show ?thesis
  proof (cases "field64 args 0 = 0 \<or> SHM_MAX_SIZE < field64 args 0")
    case True
    with Inr shm_create_refused [of s p _ args] assms(1) show ?thesis by blast
  next
    case False
    then have "field64 args 0 \<noteq> 0" "field64 args 0 \<le> SHM_MAX_SIZE" by auto
    from shm_create_outcome [OF assms Inr this] show ?thesis by blast
  qed
qed

section \<open>Properties\<close>

text \<open>Concrete states for the witnesses: one argument block at address 0x1000 and one channel.\<close>

definition block :: "u64 list \<Rightarrow> umem" where
  "block ws = write_bytes (\<lambda>_. 0) 0x1000 (concat (map le64 ws))"

definition ipc0 :: "u64 list \<Rightarrow> (u64 \<times> u64) list ipc" where
  "ipc0 ws = \<lparr>um = block ws, chans = [1 \<mapsto> []], next_chan_id = 2, shms = Map.empty, next_shm_id = 1,
     imm = mem (flat_vm 0)\<rparr>"

text \<open>
  C10: a channel delivers every accepted message exactly once, whole and in order: what successful
  receives put in user buffers, followed by what is still queued, is what successful sends took,
  whatever else user code and calls on other channels do; the queue holds at most 64 messages of 1
  to 1024 bytes.
\<close>

theorem channel_is_fifo:
  assumes "chan_trace c s0 (s, sent, got)" and "chans s0 c = Some []" and "chan_inv s0"
  shows "\<exists>q. chans s c = Some q \<and> sent = got @ q \<and> length q \<le> 64 \<and> (\<forall>m \<in> set q. 0 < length m \<and> length m \<le> 1024)"
proof -
  from chan_trace_fifo [OF assms] obtain q where "chan_inv s" "chans s c = Some q" "sent = got @ q" by auto
  moreover from this have "chan_ok q" unfolding chan_inv_def by blast
  ultimately show ?thesis by (auto simp: chan_ok_def MAX_MSG_def MAX_QUEUE_MSGS_def)
qed

theorem channel_is_fifo_witness:
  "\<exists>s' sent q. sys_chan_send 0x1000 (ipc0 [1, 0x2000, 3]) = (3, s') \<and> sent = [[0, 0, 0]] \<and> chans s' 1 = Some q
    \<and> sent = [] @ q"
proof -
  let ?s = "ipc0 [1, 0x2000, 3]"
  have a: "arg ?s 0x1000 0 = 1" "arg ?s 0x1000 1 = 0x2000" "arg ?s 0x1000 2 = 3" by code_simp+
  have rd: "read_bytes (um ?s) 0x2000 3 = [0, 0, 0]" by code_simp
  have u: "is_user_range 0x1000 24" "is_user_range 0x2000 3" by (simp_all add: is_user_range_iff USER_MAX_def)
  have ch: "chans ?s 1 = Some []" by (simp add: ipc0_def)
  obtain s' where s': "sys_chan_send 0x1000 ?s = (3, s')"
    using a u ch by (simp add: sys_chan_send_def copy_user_struct_def copy_from_user_def arg_def Let_def
        MAX_MSG_def MAX_QUEUE_MSGS_def)
  have "chan_trace 1 ?s (s', [] @ [read_bytes (um ?s) (arg ?s 0x1000 1) (unat (arg ?s 0x1000 2))], [])"
    by (rule tr_send [OF tr_start s']) (simp_all add: a)
  then have t: "chan_trace 1 ?s (s', [[0, 0, 0]], [])" by (simp add: a a(2) [unfolded One_nat_def] rd)
  have "chan_inv ?s" by (simp add: ipc0_def chan_inv_def chan_ok_def)
  from channel_is_fifo [OF t ch this] s' show ?thesis by auto
qed

text \<open>
  A receive whose output buffer is not a user range reports \<open>EFAULT\<close> after it has removed the
  message: the message is lost to every receiver.
\<close>

lemma chan_recv_fault_loses_message:
  assumes "copy_user_struct (um s) p 24 = Inr args" and "field64 args 0 \<noteq> 0" and "field64 args 1 \<noteq> 0"
    and "chans s (field64 args 0) = Some (msg # q)" and "0 < length msg" and "length msg \<le> unat (field64 args 2)"
    and "\<not> is_user_range (field64 args 1) (length msg)"
  shows "\<exists>s'. sys_chan_recv p s = (- EFAULT, s') \<and> chans s' (field64 args 0) = Some q \<and> um s' = um s"
proof -
  have "0 < unat (field64 args 2)" using assms(5,6) by linarith
  with assms show ?thesis by (auto simp: sys_chan_recv_def copy_to_user_def Let_def)
qed

lemma chan_recv_fault_loses_message_example:
  "\<exists>s'. sys_chan_recv 0x1000 ((ipc0 [1, 0xffff800000000000, 8])\<lparr>chans := [1 \<mapsto> [[7]]]\<rparr>) = (- EFAULT, s')
     \<and> chans s' 1 = Some []"
proof -
  let ?s = "(ipc0 [1, 0xffff800000000000, 8])\<lparr>chans := [1 \<mapsto> [[7]]]\<rparr>"
  let ?a = "read_bytes (um ?s) 0x1000 24"
  have "copy_user_struct (um ?s) 0x1000 24 = Inr ?a"
    by (simp add: copy_user_struct_def copy_from_user_def is_user_range_iff USER_MAX_def)
  moreover have f: "field64 ?a 0 = 1" "field64 ?a 1 = 0xffff800000000000" "field64 ?a 2 = 8" by code_simp+
  moreover have "\<not> is_user_range 0xffff800000000000 1" by (simp add: is_user_range_iff USER_MAX_def)
  ultimately show ?thesis using chan_recv_fault_loses_message [where s = ?s and p = "0x1000" and args = ?a and msg = "[7]" and q = "[]"] by fastforce
qed

text \<open>
  C14: the frames of shared objects are never free and never shared between objects: \<open>sys_shm_create\<close>
  never panics, keeps this, and backs a new object with as many fresh frames as its size has pages.
\<close>

theorem shm_frames_exclusive:
  assumes "shm_inv ops s" and "next_shm_id s \<noteq> - 1"
  shows "\<exists>r s'. sys_shm_create ops p s = Some (r, s') \<and> shm_inv ops s'
    \<and> (\<forall>i j x y. i \<noteq> j \<and> shms s' i = Some x \<and> shms s' j = Some y \<longrightarrow> set (shm_frames x) \<inter> set (shm_frames y) = {})
    \<and> (\<forall>i x. shms s' i = Some x \<longrightarrow> set (shm_frames x) \<inter> free_frames (pool (imm s')) = {}
         \<and> length (shm_frames x) = unat (shm_size x div PAGE_SIZE))"
  using shm_create_total [OF assms, of p] unfolding shm_inv_def by blast

lemma ipc0_shm_inv: "shm_inv flat_ops (ipc0 ws)"
  using flat_vm_ok [of 0] by (simp add: shm_inv_def ipc0_def vm_ok_def)

theorem shm_frames_exclusive_witness:
  "\<exists>r s'. sys_shm_create flat_ops 0x1000 (ipc0 [5000, 0]) = Some (r, s') \<and> shm_inv flat_ops s'"
  using shm_frames_exclusive [where s = "ipc0 [5000, 0]" and p = "0x1000", OF ipc0_shm_inv] by (auto simp: ipc0_def)

text \<open>
  When memory runs out in the middle of \<open>sys_shm_create\<close>, the call fails with \<open>ENOSPC\<close>, creates no
  object, and keeps every frame it had taken: afterwards no frame is free.
\<close>

lemma shm_create_enospc_leaks:
  assumes "shm_inv ops s" and "next_shm_id s \<noteq> - 1"
    and "copy_user_struct (um s) p 16 = Inr args" and "field64 args 0 \<noteq> 0" and "field64 args 0 \<le> SHM_MAX_SIZE"
    and "shm_align_up (field64 args 0) PAGE_SIZE = Some a" and "card (free_frames (pool (imm s))) < unat (a div PAGE_SIZE)"
  shows "\<exists>s'. sys_shm_create ops p s = Some (- ENOSPC, s') \<and> shms s' = shms s \<and> free_frames (pool (imm s')) = {}"
  using shm_create_outcome [OF assms(1-5)] assms(6,7) by auto

lemma ipc0_create_args:
  "copy_user_struct (um (ipc0 ws)) 0x1000 16 = Inr (read_bytes (um (ipc0 ws)) 0x1000 16)"
  by (simp add: copy_user_struct_def copy_from_user_def is_user_range_iff USER_MAX_def)

lemma card_free_frames: "card (free_frames p) \<le> tracked p"
proof -
  have "free_frames p \<subseteq> frame_at p ` {..<tracked p}" by (auto simp: free_frames_def)
  then have "card (free_frames p) \<le> card (frame_at p ` {..<tracked p})" by (rule card_mono [rotated]) simp
  also have "\<dots> \<le> card {..<tracked p}" by (rule card_image_le) simp
  finally show ?thesis by simp
qed

lemma shm_create_enospc_leaks_example:
  "\<exists>s'. sys_shm_create flat_ops 0x1000 (ipc0 [0x5000, 0]) = Some (- ENOSPC, s')
     \<and> shms s' = shms (ipc0 [0x5000, 0]) \<and> free_frames (pool (imm s')) = {}"
proof (rule shm_create_enospc_leaks [OF ipc0_shm_inv _ ipc0_create_args, where a = "0x5000"])
  have f: "field64 (read_bytes (um (ipc0 [0x5000, 0])) 0x1000 16) 0 = 0x5000" by code_simp
  show "field64 (read_bytes (um (ipc0 [0x5000, 0])) 0x1000 16) 0 \<noteq> 0"
    "field64 (read_bytes (um (ipc0 [0x5000, 0])) 0x1000 16) 0 \<le> SHM_MAX_SIZE"
    "shm_align_up (field64 (read_bytes (um (ipc0 [0x5000, 0])) 0x1000 16) 0) PAGE_SIZE = Some 0x5000"
    unfolding f by (simp_all add: SHM_MAX_SIZE_def shm_align_up_def checked_add_def)
  have "unat ((0x5000 :: u64) div PAGE_SIZE) = 5" by (simp add: unat_div_distrib)
  moreover have "tracked (pool (imm (ipc0 [0x5000, 0]))) = 3" by (simp add: ipc0_def flat_vm_def)
  ultimately show "card (free_frames (pool (imm (ipc0 [0x5000, 0])))) < unat ((0x5000 :: u64) div PAGE_SIZE)"
    using card_free_frames [of "pool (imm (ipc0 [0x5000, 0]))"] by simp
qed (simp add: ipc0_def)

text \<open>
  A user program can stop the kernel. A desired address is checked only against the end of the
  lower half, not together with the object's size: mapping an object of two pages at the last
  page of the lower half reaches the first non-canonical address, on which \<open>VirtAddr::new\<close>
  panics.
\<close>

lemma shm_map_panics_at_canonical_end:
  assumes "copy_user_struct (um s) p 24 = Inr args" and "field64 args 0 \<noteq> 0" and "field64 args 1 = 0x00007ffffffff000"
    and "shms s (field64 args 0) = Some obj" and "shm_size obj = 0x2000" and "length (shm_frames obj) = 2"
    and "x_virt ops 0x00007ffffffff000 = Some 0x00007ffffffff000" and "x_virt ops 0x0000800000000000 = None"
    and "map_fixed ops 0x00007ffffffff000 (shm_frames obj ! 0) UserRW (imm s) = Some (Inr (), m)"
  shows "sys_shm_map ops p s = None"
proof -
  have "(0x00007ffffffff000 :: u64) AND NOT (PAGE_SIZE - 1) = 0x00007ffffffff000" by simp
  moreover have "[0..<unat ((0x2000 :: u64) div PAGE_SIZE)] = [0, 1]" by (simp add: unat_div_distrib upt_rec)
  ultimately show ?thesis
    using assms
    by (simp add: sys_shm_map_def shm_align_down_def Let_def USER_SHM_STRIDE_def page_va_def checked_add_def
        checked_mul_def assert_that_def)
qed

text \<open>The page tables of the witnesses above, with the canonical check of \<open>VirtAddr::new\<close>.\<close>

definition canon_ops :: "(u64 \<times> u64) list x86_ops" where
  "canon_ops = flat_ops\<lparr>x_virt := (\<lambda>a. if a < 0x0000800000000000 \<or> a \<ge> 0xffff800000000000 then Some a else None)\<rparr>"

lemma shm_map_panics_at_canonical_end_example:
  "sys_shm_map canon_ops 0x1000 ((ipc0 [1, 0x00007ffffffff000, 0])\<lparr>shms := [1 \<mapsto> \<lparr>shm_size = 0x2000, shm_frames = [0x1000, 0x2000]\<rparr>]\<rparr>) = None"
proof -
  let ?s = "(ipc0 [1, 0x00007ffffffff000, 0])\<lparr>shms := [1 \<mapsto> \<lparr>shm_size = 0x2000, shm_frames = [0x1000, 0x2000]\<rparr>]\<rparr>"
  let ?a = "read_bytes (um ?s) 0x1000 24" and ?o = "\<lparr>shm_size = 0x2000, shm_frames = [0x1000, 0x2000]\<rparr>"
  have c: "copy_user_struct (um ?s) 0x1000 24 = Inr ?a"
    by (simp add: copy_user_struct_def copy_from_user_def is_user_range_iff USER_MAX_def)
  have f: "field64 ?a 0 = 1" "field64 ?a 1 = 0x00007ffffffff000" by code_simp+
  obtain m where m: "map_fixed canon_ops 0x00007ffffffff000 (shm_frames ?o ! 0) UserRW (imm ?s) = Some (Inr (), m)"
    by (simp add: map_fixed_def align4k_def canon_ops_def flat_ops_def ipc0_def flat_vm_def assert_that_def Let_def)
  show ?thesis
    by (rule shm_map_panics_at_canonical_end [OF c _ _ _ _ _ _ _ m]) (simp_all only: f, simp_all add: canon_ops_def)
qed

text \<open>
  An object larger than 16 MiB can be created, its frames are taken, and yet no \<open>sys_shm_map\<close>
  call ever maps it.
\<close>

lemma shm_oversized_never_mapped:
  assumes "shms s i = Some obj" and "USER_SHM_STRIDE < shm_size obj" and "arg s p 0 = i"
  shows "sys_shm_map ops p s \<in> {None, Some (- EINVAL, s), Some (- EFAULT, s)}"
  using assms
  by (auto simp: sys_shm_map_def copy_user_struct_def copy_from_user_def arg_def Let_def
      split: option.splits Option.bind_splits if_splits)

lemma shm_oversized_never_mapped_example:
  "sys_shm_map flat_ops 0x1000 ((ipc0 [1, 0, 0])\<lparr>shms := [1 \<mapsto> \<lparr>shm_size = 0x2000000, shm_frames = []\<rparr>]\<rparr>)
     \<in> {None, Some (- EINVAL, (ipc0 [1, 0, 0])\<lparr>shms := [1 \<mapsto> \<lparr>shm_size = 0x2000000, shm_frames = []\<rparr>]\<rparr>),
        Some (- EFAULT, (ipc0 [1, 0, 0])\<lparr>shms := [1 \<mapsto> \<lparr>shm_size = 0x2000000, shm_frames = []\<rparr>]\<rparr>)}"
proof (rule shm_oversized_never_mapped)
  show "arg ((ipc0 [1, 0, 0])\<lparr>shms := [1 \<mapsto> \<lparr>shm_size = 0x2000000, shm_frames = []\<rparr>]\<rparr>) 0x1000 0 = 1" by code_simp
  show "USER_SHM_STRIDE < shm_size \<lparr>shm_size = 0x2000000, shm_frames = []\<rparr>" by (simp add: USER_SHM_STRIDE_def)
qed simp

end
