(* ===== verification/Checksum.thy ===== *)
theory Checksum
  imports Prelude
begin

text \<open>
  \<^verbatim>\<open>kernel/net/checksum.rs\<close> and the \<open>add_words\<close> helpers of \<^verbatim>\<open>udp.rs\<close> and \<^verbatim>\<open>tcp.rs\<close>: the Internet
  checksum over a byte slice. The index loops become recursion on the slice, two bytes at a
  time. The reference is the natural number \<open>word_sum\<close>; the wrapping 32-bit accumulator
  agrees with it for every slice the stack can hold, and folding the carries keeps the value
  modulo 65535.
\<close>

fun add_words :: "u32 \<Rightarrow> u8 list \<Rightarrow> u32" where
  "add_words acc (a # b # rest) =
     add_words (acc + ucast (push_bit 8 (ucast a :: u16) OR ucast b)) rest"
| "add_words acc [a] = acc + push_bit 8 (ucast a)"
| "add_words acc [] = acc"

function fold_carries :: "u32 \<Rightarrow> u32" where
  "fold_carries acc =
     (if drop_bit 16 acc \<noteq> 0 then fold_carries ((acc AND 0xffff) + drop_bit 16 acc) else acc)"
  by pat_completeness auto

lemma unat_fold_step:
  "unat ((acc AND 0xffff) + drop_bit 16 acc) = unat acc mod 65536 + unat acc div 65536" for acc :: u32
proof -
  have m: "unat (acc AND 0xffff) = unat acc mod 65536"
  proof -
    have "unat (take_bit 16 acc) = unat acc mod 2 ^ 16"
      by (metis unsigned_take_bit_eq take_bit_eq_mod)
    then show ?thesis by (simp add: take_bit_eq_mask mask_eq_exp_minus_1)
  qed
  have d: "unat (drop_bit 16 acc) = unat acc div 65536"
    by (simp add: unat_div_distrib drop_bit_eq_div)
  have "unat acc < 2 ^ LENGTH(32)" by (rule unsigned_less)
  then have "unat acc < 2 ^ 32" by simp
  then have "unat acc div 65536 < 65536" by (simp add: div_less_iff_less_mult)
  moreover have "unat acc mod 65536 < 65536" by simp
  ultimately have "unat acc mod 65536 + unat acc div 65536 < 2 ^ 32" by simp
  then show ?thesis by (simp add: unat_word_ariths m d)
qed

lemma fold_guard: "drop_bit 16 acc \<noteq> 0 \<longleftrightarrow> 65536 \<le> unat acc" for acc :: u32
proof -
  have "drop_bit 16 acc = 0 \<longleftrightarrow> unat acc div 65536 = 0"
    by (simp add: unat_div_distrib drop_bit_eq_div flip: unat_eq_zero)
  also have "\<dots> \<longleftrightarrow> unat acc < 65536" by auto
  finally show ?thesis by auto
qed

lemma fold_step_decreases:
  "65536 \<le> n \<Longrightarrow> n mod 65536 + n div 65536 < n" for n :: nat
  using div_mult_mod_eq [of n 65536] div_greater_zero_iff [of n 65536] by linarith

termination fold_carries
  by (relation "measure unat")
    (simp_all add: unat_fold_step fold_guard fold_step_decreases del: unat_plus_if')

declare fold_carries.simps [simp del]

definition internet_checksum :: "u8 list \<Rightarrow> u16" where
  "internet_checksum data = NOT (ucast (fold_carries (add_words 0 data)))"

text \<open>\<open>udp_checksum\<close> and \<open>tcp_checksum\<close>: the same sum over a pseudo header and the segment.\<close>

definition pseudo_header :: "u8 list \<Rightarrow> u8 list \<Rightarrow> u8 \<Rightarrow> nat \<Rightarrow> u8 list" where
  "pseudo_header src_ip dst_ip proto len = src_ip @ dst_ip @ [0, proto] @ be16 (of_nat len)"

definition transport_checksum :: "u8 \<Rightarrow> u8 list \<Rightarrow> u8 list \<Rightarrow> u8 list \<Rightarrow> u16" where
  "transport_checksum proto src_ip dst_ip segment =
     NOT (ucast (fold_carries
       (add_words (add_words 0 (pseudo_header src_ip dst_ip proto (length segment))) segment)))"

section \<open>The reference sum\<close>

fun word_sum :: "u8 list \<Rightarrow> nat" where
  "word_sum (a # b # rest) = unat a * 256 + unat b + word_sum rest"
| "word_sum [a] = unat a * 256"
| "word_sum [] = 0"

lemma unat_be_pair: "unat (push_bit 8 (ucast a :: u16) OR ucast b) = unat a * 256 + unat b" for a b :: u8
proof -
  have a: "unat a < 256" and b: "unat b < 256" using unat_u8 [of a] unat_u8 [of b] by simp_all
  have "push_bit 8 (ucast a :: u16) OR ucast b = push_bit 8 (ucast a) + ucast b"
    by (rule disjunctive_add_eq_or [symmetric], rule bit_word_eqI)
      (auto simp: bit_simps dest: bit_imp_le_length)
  also have "\<dots> = of_nat (unat a * 256 + unat b)"
    by (simp add: push_bit_eq_mult mult.commute)
  finally show ?thesis using a b by (simp only: unat_of_nat) simp
qed

lemma unat_from_be16: "unat (from_be16 a b) = unat a * 256 + unat b"
  by (simp add: from_be16_def unat_be_pair)

lemma word_sum_bound: "word_sum data \<le> 65535 * ((length data + 1) div 2)"
proof (induction data rule: word_sum.induct)
  case (1 a b rest)
  have "unat a \<le> 255" "unat b \<le> 255" using unat_u8 by simp_all
  with 1 show ?case by simp
next
  case (2 a)
  have "unat a \<le> 255" using unat_u8 by simp
  then show ?case by simp
qed simp

lemma add_words_eq: "add_words acc data = acc + of_nat (word_sum data)"
proof (induction acc data rule: add_words.induct)
  case (1 acc a b rest)
  have "(ucast (push_bit 8 (ucast a :: u16) OR ucast b) :: u32) = of_nat (unat a * 256 + unat b)"
    by (metis unat_be_pair of_nat_unat)
  with 1 show ?case by (simp add: algebra_simps)
next
  case (2 acc a)
  then show ?case by (simp add: push_bit_eq_mult mult.commute)
qed simp

lemma word_sum_append:
  "even (length xs) \<Longrightarrow> word_sum (xs @ ys) = word_sum xs + word_sum ys"
  by (induction xs rule: word_sum.induct) auto

lemma word_sum_be16: "word_sum (be16 w) = unat w"
  using unat_from_be16 [of "ucast (drop_bit 8 w)" "ucast w"] from_be16_be16 [of w]
  by (simp add: be16_def)

section \<open>Folding the carries\<close>

text \<open>The fold keeps the residue modulo 65535 and is zero only for zero.\<close>

lemma fold_carries_spec:
  "unat (fold_carries acc) < 65536 \<and> unat (fold_carries acc) mod 65535 = unat acc mod 65535
   \<and> (fold_carries acc = 0 \<longleftrightarrow> acc = 0)"
proof (induction acc rule: fold_carries.induct)
  case (1 acc)
  show ?case
  proof (cases "drop_bit 16 acc = 0")
    case True
    then have "unat acc < 65536" using fold_guard [of acc] by auto
    with True show ?thesis by (simp add: fold_carries.simps [of acc])
  next
    case False
    let ?n = "(acc AND 0xffff) + drop_bit 16 acc"
    have "unat acc = unat acc mod 65536 + unat acc div 65536 + 65535 * (unat acc div 65536)"
      using div_mult_mod_eq [of "unat acc" 65536] by linarith
    then have m: "unat acc mod 65535 = unat ?n mod 65535"
      unfolding unat_fold_step by (metis mod_mult_self2)
    have "unat ?n \<noteq> 0"
      using False unfolding fold_guard unat_fold_step by (simp add: div_eq_0_iff)
    then have "?n \<noteq> 0" by auto
    moreover have "acc \<noteq> 0" using False by auto
    ultimately show ?thesis
      using "1.IH" [OF False] False m by (simp add: fold_carries.simps [of acc])
  qed
qed

text \<open>
  The ones'-complement law: a sum that is a positive multiple of 65535 folds to \<open>0xffff\<close>,
  whose complement is zero; this is the receiver's test.
\<close>

lemma checksum_zero_iff:
  fixes s :: u32
  shows "NOT (ucast (fold_carries s) :: u16) = 0 \<longleftrightarrow> s \<noteq> 0 \<and> unat s mod 65535 = 0"
proof -
  let ?f = "fold_carries s"
  have f: "unat ?f < 65536" "unat ?f mod 65535 = unat s mod 65535" "?f = 0 \<longleftrightarrow> s = 0"
    using fold_carries_spec [of s] by auto
  have u: "unat (ucast ?f :: u16) = unat ?f" using f(1) by (simp add: unsigned_ucast_eq take_bit_eq_mod)
  have "NOT (ucast ?f :: u16) = 0 \<longleftrightarrow> ucast ?f = (- 1 :: u16)"
    by (metis bit.double_compl bit.compl_zero)
  also have "\<dots> \<longleftrightarrow> unat ?f = 65535"
    using u unat_minus_one_max [where ?'a = 16] by (simp add: word_unat_eq_iff)
  also have "\<dots> \<longleftrightarrow> s \<noteq> 0 \<and> unat s mod 65535 = 0"
  proof
    assume r: "s \<noteq> 0 \<and> unat s mod 65535 = 0"
    then have "65535 dvd unat ?f" "0 < unat ?f" using f by (auto simp: unat_gt_0)
    then have "65535 \<le> unat ?f" by (rule dvd_imp_le)
    with f(1) show "unat ?f = 65535" by simp
  qed (use f in auto)
  finally show ?thesis .
qed

text \<open>
  Adding the complement of the folded sum, or \<open>0xffff\<close> where that complement is zero, to a sum
  that has not overflowed makes the receiver's test succeed.
\<close>

lemma checksum_complement:
  assumes "t + 65535 < 2 ^ 32" and c: "c = NOT (ucast (fold_carries (of_nat t)) :: u16)"
    and c': "c' = c \<or> (c = 0 \<and> c' = 0xffff)"
  shows "NOT (ucast (fold_carries (of_nat (t + unat c'))) :: u16) = 0"
proof -
  let ?f = "unat (fold_carries (of_nat t))"
  have t: "unat (of_nat t :: u32) = t" using assms(1) by (simp add: unat_of_nat)
  have f: "?f < 65536" "?f mod 65535 = t mod 65535" "?f = 0 \<longleftrightarrow> t = 0"
    using fold_carries_spec [of "of_nat t"] t by (auto simp flip: unat_eq_zero)
  have "unat c = 65535 - ?f"
  proof -
    have "c = - 1 - ucast (fold_carries (of_nat t))" by (simp add: c not_eq_complement)
    moreover have "unat (ucast (fold_carries (of_nat t)) :: u16) = ?f"
      using f(1) by (simp add: unsigned_ucast_eq take_bit_eq_mod)
    ultimately show ?thesis
      using f(1) by (simp add: unat_sub_if' unat_minus_one_max)
  qed
  then have cases: "unat c' = 65535 - ?f \<or> (?f = 65535 \<and> unat c' = 65535)"
    using c' f(1) by auto
  then have pos: "0 < t + unat c'" using f by auto
  have lt: "t + unat c' < 2 ^ 32" using cases assms(1) by auto
  have "(t + unat c') mod 65535 = 0"
  proof -
    have "(t + unat c') mod 65535 = (?f mod 65535 + unat c') mod 65535"
      by (simp add: f(2) mod_add_left_eq)
    also have "\<dots> = (?f + unat c') mod 65535" by (simp add: mod_add_left_eq)
    also have "\<dots> = 0" using cases f(1) by auto
    finally show ?thesis .
  qed
  moreover have "unat (of_nat (t + unat c') :: u32) = t + unat c'"
    using lt by (simp only: unat_of_nat) simp
  ultimately show ?thesis
    using pos checksum_zero_iff [of "of_nat (t + unat c')"] by (auto simp flip: unat_eq_zero)
qed

text \<open>Writing the checksum into a zeroed field at an even offset makes the slice verify.\<close>

lemma internet_checksum_verifies:
  assumes "even (length pre)" and "length pre + length post \<le> 65535"
    and "c = internet_checksum (pre @ [0, 0] @ post)"
  shows "internet_checksum (pre @ be16 c @ post) = 0"
proof -
  let ?t = "word_sum pre + word_sum post"
  have z: "word_sum (pre @ [0, 0] @ post) = ?t"
    and w: "word_sum (pre @ be16 c @ post) = ?t + unat c"
    using assms(1) by (simp_all add: word_sum_append word_sum_be16)
  have "?t \<le> 65535 * ((length pre + 1) div 2) + 65535 * ((length post + 1) div 2)"
    by (intro add_mono word_sum_bound)
  also have "\<dots> \<le> 65535 * 32769" using assms(2) by linarith
  finally have "?t + 65535 < 2 ^ 32" by simp
  moreover have "c = NOT (ucast (fold_carries (of_nat ?t)) :: u16)"
    using assms(3) z by (simp add: internet_checksum_def add_words_eq)
  ultimately have "NOT (ucast (fold_carries (of_nat (?t + unat c))) :: u16) = 0"
    by (intro checksum_complement) auto
  then show ?thesis by (simp add: internet_checksum_def add_words_eq w)
qed

lemma transport_sum:
  assumes "length src_ip = 4" "length dst_ip = 4"
  shows "transport_checksum proto src_ip dst_ip segment
    = NOT (ucast (fold_carries (of_nat (word_sum src_ip + word_sum dst_ip + unat proto
        + unat (of_nat (length segment) :: u16) + word_sum segment))))"
  using assms
  by (simp add: transport_checksum_def pseudo_header_def add_words_eq word_sum_append word_sum_be16 algebra_simps)

text \<open>The same law for the UDP and TCP checksums, whose sum includes the pseudo header.\<close>

lemma transport_checksum_verifies:
  assumes ip: "length src_ip = 4" "length dst_ip = 4"
    and "even (length pre)" and "length pre + length post \<le> 65535"
    and c: "c = transport_checksum proto src_ip dst_ip (pre @ [0, 0] @ post)"
    and c': "c' = c \<or> (c = 0 \<and> c' = 0xffff)"
  shows "transport_checksum proto src_ip dst_ip (pre @ be16 c' @ post) = 0"
proof -
  let ?l = "unat (of_nat (length (pre @ [0, 0 :: u8] @ post)) :: u16)"
  let ?t = "word_sum src_ip + word_sum dst_ip + unat proto + ?l + (word_sum pre + word_sum post)"
  have l: "unat (of_nat (length (pre @ be16 c' @ post)) :: u16) = ?l" by simp
  have b: "word_sum src_ip \<le> 65535 * 2" "word_sum dst_ip \<le> 65535 * 2" "unat proto \<le> 255"
    using word_sum_bound [of src_ip] word_sum_bound [of dst_ip] ip unat_u8 [of proto] by simp_all
  have "?l < 2 ^ LENGTH(16)" by (rule unsigned_less)
  moreover have "word_sum pre + word_sum post
      \<le> 65535 * ((length pre + 1) div 2) + 65535 * ((length post + 1) div 2)"
    by (intro add_mono word_sum_bound)
  moreover have "\<dots> \<le> 65535 * 32769" using assms(4) by linarith
  ultimately have "?t + 65535 < 2 ^ 32" using b by simp
  moreover have "c = NOT (ucast (fold_carries (of_nat ?t)) :: u16)"
    using c assms(3) by (simp add: transport_sum [OF ip] word_sum_append)
  ultimately have "NOT (ucast (fold_carries (of_nat (?t + unat c'))) :: u16) = 0"
    using c' by (rule checksum_complement)
  moreover have "word_sum (pre @ be16 c' @ post) = word_sum pre + word_sum post + unat c'"
    using assms(3) by (simp add: word_sum_append word_sum_be16)
  ultimately show ?thesis
    by (simp add: transport_sum [OF ip] algebra_simps)
qed

end
