(* ===== verification/Net_State.thy ===== *)
theory Net_State
  imports Checksum
begin

text \<open>
  The state of the network stack (\<^verbatim>\<open>kernel/net\<close>): the static tables of \<^verbatim>\<open>arp.rs\<close>, \<^verbatim>\<open>ipv4.rs\<close>, \<^verbatim>\<open>icmpv4.rs\<close>,
  \<^verbatim>\<open>udp.rs\<close> and \<^verbatim>\<open>tcp.rs\<close> in one record, and the interface \<^verbatim>\<open>iface.rs\<close> to the NIC. The
  driver below \<open>iface\<close> is the parameter record \<open>nic_ops\<close> over a device state \<open>'d\<close>. The fixed
  arrays \<open>[u8; 4]\<close> and \<open>[u8; 6]\<close> are lists of that length. Logging is not modelled.
\<close>

type_synonym ip = "u8 list"
type_synonym mac = "u8 list"

record 'd nic_ops =
  nic_is_ready :: "'d \<Rightarrow> bool"
  nic_mac_addr :: "'d \<Rightarrow> mac option"
  nic_link_up :: "'d \<Rightarrow> bool"
  nic_mtu :: "'d \<Rightarrow> u16 option"
  nic_recv_frame :: "nat \<Rightarrow> 'd \<Rightarrow> u8 list option \<times> 'd"
  nic_send_frame :: "u8 list \<Rightarrow> 'd \<Rightarrow> bool \<times> 'd"

record arp_entry =
  ae_ip :: ip
  ae_mac :: mac

record udp_datagram =
  d_src_ip :: ip
  d_src_port :: u16
  d_dst_port :: u16
  d_data :: "u8 list"

datatype tcp_state = SynSent | Established | CloseWait | Closed

record tcp_connection =
  c_fd :: u64
  c_state :: tcp_state
  c_local_port :: u16
  c_remote_port :: u16
  c_remote_ip :: ip
  c_remote_mac :: mac
  c_iss :: u32
  c_snd_nxt :: u32
  c_rcv_nxt :: u32
  c_pending_ack :: bool
  c_rx :: "u8 list"

record 'd net =
  dev :: 'd
  arp_cache :: "arp_entry list"
  next_id :: u16
  icmp_next_seq :: u16
  udp_rx :: "udp_datagram list"
  conns :: "tcp_connection list"
  next_fd :: u64
  next_port :: u16
  next_seq :: u32

text \<open>The statics at boot.\<close>

definition net_init :: "'d \<Rightarrow> 'd net" where
  "net_init d = \<lparr>dev = d, arp_cache = [], next_id = 1, icmp_next_seq = 1, udp_rx = [], conns = [],
     next_fd = 1, next_port = 49152, next_seq = 0x10000000\<rparr>"

section \<open>\<open>iface.rs\<close>\<close>

definition IPV4_ADDR :: ip where "IPV4_ADDR = [10, 0, 2, 15]"
definition IPV4_NETMASK :: ip where "IPV4_NETMASK = [255, 255, 255, 0]"
definition IPV4_GATEWAY :: ip where "IPV4_GATEWAY = [10, 0, 2, 2]"

definition is_ready :: "'d nic_ops \<Rightarrow> 'd net \<Rightarrow> bool" where
  "is_ready ops s = nic_is_ready ops (dev s)"

definition mac_addr :: "'d nic_ops \<Rightarrow> 'd net \<Rightarrow> mac option" where
  "mac_addr ops s = nic_mac_addr ops (dev s)"

definition link_up :: "'d nic_ops \<Rightarrow> 'd net \<Rightarrow> bool" where
  "link_up ops s = nic_link_up ops (dev s)"

definition mtu :: "'d nic_ops \<Rightarrow> 'd net \<Rightarrow> u16" where
  "mtu ops s = (case nic_mtu ops (dev s) of Some m \<Rightarrow> m | None \<Rightarrow> 1500)"

definition recv_frame :: "'d nic_ops \<Rightarrow> nat \<Rightarrow> 'd net \<Rightarrow> u8 list option \<times> 'd net" where
  "recv_frame ops cap s = (let (r, d) = nic_recv_frame ops cap (dev s) in (r, s\<lparr>dev := d\<rparr>))"

definition send_frame :: "'d nic_ops \<Rightarrow> u8 list \<Rightarrow> 'd net \<Rightarrow> bool \<times> 'd net" where
  "send_frame ops frame s = (let (r, d) = nic_send_frame ops frame (dev s) in (r, s\<lparr>dev := d\<rparr>))"

definition is_our_ipv4 :: "ip \<Rightarrow> bool" where
  "is_our_ipv4 addr \<longleftrightarrow> addr = IPV4_ADDR"

definition is_our_mac :: "'d nic_ops \<Rightarrow> 'd net \<Rightarrow> mac \<Rightarrow> bool" where
  "is_our_mac ops s m = (case mac_addr ops s of Some ours \<Rightarrow> m = ours | None \<Rightarrow> False)"

definition is_broadcast_mac :: "mac \<Rightarrow> bool" where
  "is_broadcast_mac m \<longleftrightarrow> m = replicate 6 0xff"

lemma length_IPV4_ADDR [simp]: "length IPV4_ADDR = 4"
  by (simp add: IPV4_ADDR_def)

text \<open>Sending a frame touches the device only.\<close>

lemma send_frame_dev: "send_frame ops f s = (r, s') \<Longrightarrow> \<exists>d. s' = s\<lparr>dev := d\<rparr>"
  by (auto simp: send_frame_def Let_def split: prod.splits)

end
