(* ===== verification/Ethernet.thy ===== *)
theory Ethernet
  imports Net_State
begin

text \<open>
  \<^verbatim>\<open>kernel/net/ethernet.rs\<close>: framing. \<open>eth_build\<close> writes into a caller's buffer and returns how much of it
  is the frame, \<open>eth_parse\<close> is its inverse up to the padding to the 60-byte minimum.
\<close>

definition ETHERTYPE_IPV4 :: u16 where "ETHERTYPE_IPV4 = 0x0800"
definition ETHERTYPE_ARP :: u16 where "ETHERTYPE_ARP = 0x0806"

abbreviation ETH_HEADER_LEN :: nat where "ETH_HEADER_LEN \<equiv> 14"
abbreviation ETH_MIN_FRAME_LEN_NO_FCS :: nat where "ETH_MIN_FRAME_LEN_NO_FCS \<equiv> 60"

record ethernet_frame =
  f_dst :: mac
  f_src :: mac
  f_ethertype :: u16
  f_payload :: "u8 list"

definition eth_parse :: "u8 list \<Rightarrow> ethernet_frame option" where
  "eth_parse frame =
     (if length frame < ETH_HEADER_LEN then None
      else Some \<lparr>f_dst = take 6 frame, f_src = take 6 (drop 6 frame),
        f_ethertype = from_be16 (frame ! 12) (frame ! 13), f_payload = drop ETH_HEADER_LEN frame\<rparr>)"

definition eth_build :: "mac \<Rightarrow> mac \<Rightarrow> u16 \<Rightarrow> u8 list \<Rightarrow> u8 list \<Rightarrow> (nat \<times> u8 list) option" where
  "eth_build dst src ethertype payload out =
     (let raw_total = ETH_HEADER_LEN + length payload;
          total = max raw_total ETH_MIN_FRAME_LEN_NO_FCS in
      if length out < total then None
      else let out = splice out 0 dst;
               out = splice out 6 src;
               out = splice out 12 (be16 ethertype);
               out = splice out 14 payload;
               out = (if total > raw_total then splice out raw_total (replicate (total - raw_total) 0)
                      else out)
           in Some (total, out))"

definition eth_send :: "'d nic_ops \<Rightarrow> mac \<Rightarrow> u16 \<Rightarrow> u8 list \<Rightarrow> 'd net \<Rightarrow> bool \<times> 'd net" where
  "eth_send ops dst ethertype payload s =
     (case mac_addr ops s of
        None \<Rightarrow> (False, s)
      | Some src \<Rightarrow>
          (case eth_build dst src ethertype payload (replicate 1600 0) of
             None \<Rightarrow> (False, s)
           | Some (n, frame) \<Rightarrow> send_frame ops (take n frame) s))"

section \<open>What \<open>eth_build\<close> writes\<close>

definition eth_bytes :: "mac \<Rightarrow> mac \<Rightarrow> u16 \<Rightarrow> u8 list \<Rightarrow> u8 list" where
  "eth_bytes dst src ethertype payload =
     dst @ src @ be16 ethertype @ payload @ replicate (46 - length payload) 0"

lemma eth_build_eq:
  assumes "length dst = 6" "length src = 6"
  shows "eth_build dst src et payload out =
    (if length out < max (14 + length payload) 60 then None
     else Some (max (14 + length payload) 60,
       eth_bytes dst src et payload @ drop (max (14 + length payload) 60) out))"
  using assms
  by (cases "length payload < 46") (simp_all add: eth_build_def Let_def splice_def eth_bytes_def max_def add.commute)

lemma length_eth_bytes:
  "length dst = 6 \<Longrightarrow> length src = 6 \<Longrightarrow>
   length (eth_bytes dst src et payload) = max (14 + length payload) 60"
  by (auto simp: eth_bytes_def)

lemma eth_parse_bytes:
  assumes "length dst = 6" "length src = 6"
  shows "eth_parse (eth_bytes dst src et payload) = Some \<lparr>f_dst = dst, f_src = src, f_ethertype = et,
    f_payload = payload @ replicate (46 - length payload) 0\<rparr>"
  using assms
  by (simp add: eth_parse_def eth_bytes_def nth_append be16_def codec_simps)

lemma eth_send_eq:
  assumes "mac_addr ops s = Some src" "length dst = 6" "length src = 6"
  shows "eth_send ops dst et payload s =
    (if length payload \<le> 1586 then send_frame ops (eth_bytes dst src et payload) s else (False, s))"
  using assms
  by (simp add: eth_send_def eth_build_eq length_eth_bytes max_def)

lemma eth_send_dev: "eth_send ops dst et p s = (r, s') \<Longrightarrow> \<exists>d. s' = s\<lparr>dev := d\<rparr>"
  by (auto simp: eth_send_def split: option.splits prod.splits dest: send_frame_dev intro: exI [of _ "dev s"])

end
