(* ===== verification/Arp.thy ===== *)
theory Arp
  imports Ethernet
begin

text \<open>
  \<^verbatim>\<open>kernel/net/arp.rs\<close>: the cache of at most 32 address bindings (oldest dropped first), the handler of
  received packets, and the two packets the kernel sends.
\<close>

definition ARP_MAX :: nat where "ARP_MAX = 32"

definition arp_lookup :: "ip \<Rightarrow> 'd net \<Rightarrow> mac option" where
  "arp_lookup addr s = map_option ae_mac (find (\<lambda>e. ae_ip e = addr) (arp_cache s))"

definition arp_update :: "ip \<Rightarrow> mac \<Rightarrow> 'd net \<Rightarrow> 'd net" where
  "arp_update addr m s =
     (if addr = [0, 0, 0, 0] \<or> m = replicate 6 0 \<or> m = replicate 6 0xff then s
      else if find (\<lambda>e. ae_ip e = addr) (arp_cache s) \<noteq> None
      then s\<lparr>arp_cache := update_first (\<lambda>e. ae_ip e = addr) (\<lambda>e. e\<lparr>ae_mac := m\<rparr>) (arp_cache s)\<rparr>
      else s\<lparr>arp_cache := push_evict ARP_MAX \<lparr>ae_ip = addr, ae_mac = m\<rparr> (arp_cache s)\<rparr>)"

text \<open>The 28 bytes that \<open>send_request\<close> and \<open>send_reply\<close> fill in.\<close>

definition arp_packet :: "u16 \<Rightarrow> mac \<Rightarrow> ip \<Rightarrow> mac \<Rightarrow> ip \<Rightarrow> u8 list" where
  "arp_packet oper sha spa tha tpa =
     be16 1 @ be16 0x0800 @ [6, 4] @ be16 oper @ sha @ spa @ tha @ tpa"

definition send_request :: "'d nic_ops \<Rightarrow> ip \<Rightarrow> 'd net \<Rightarrow> bool \<times> 'd net" where
  "send_request ops target_ip s =
     (case mac_addr ops s of
        None \<Rightarrow> (False, s)
      | Some src_mac \<Rightarrow>
          eth_send ops (replicate 6 0xff) ETHERTYPE_ARP
            (arp_packet 1 src_mac IPV4_ADDR (replicate 6 0) target_ip) s)"

definition send_reply :: "'d nic_ops \<Rightarrow> mac \<Rightarrow> ip \<Rightarrow> 'd net \<Rightarrow> bool \<times> 'd net" where
  "send_reply ops dst_mac dst_ip s =
     (case mac_addr ops s of
        None \<Rightarrow> (False, s)
      | Some src_mac \<Rightarrow>
          eth_send ops dst_mac ETHERTYPE_ARP (arp_packet 2 src_mac IPV4_ADDR dst_mac dst_ip) s)"

definition arp_handle_packet :: "'d nic_ops \<Rightarrow> ethernet_frame \<Rightarrow> 'd net \<Rightarrow> 'd net" where
  "arp_handle_packet ops frame s =
     (let p = f_payload frame in
      if length p < 28 then s
      else let htype = from_be16 (p ! 0) (p ! 1);
               ptype = from_be16 (p ! 2) (p ! 3);
               hlen = p ! 4; plen = p ! 5;
               oper = from_be16 (p ! 6) (p ! 7) in
        if htype \<noteq> 1 then s
        else if ptype \<noteq> 0x0800 then s
        else if hlen \<noteq> 6 \<or> plen \<noteq> 4 then s
        else let sha = take 6 (drop 8 p); spa = take 4 (drop 14 p); tpa = take 4 (drop 24 p);
                 s = arp_update spa sha s in
          if oper = 1 then (if is_our_ipv4 tpa then snd (send_reply ops sha spa s) else s)
          else s)"

section \<open>The cache\<close>

interpretation arp: keyed_table ae_ip .

text \<open>At most 32 bindings, one per address, none of them for an invalid address.\<close>

definition arp_inv :: "arp_entry list \<Rightarrow> bool" where
  "arp_inv c \<longleftrightarrow> length c \<le> ARP_MAX \<and> distinct (map ae_ip c)
     \<and> (\<forall>e \<in> set c. ae_ip e \<noteq> [0, 0, 0, 0] \<and> ae_mac e \<noteq> replicate 6 0 \<and> ae_mac e \<noteq> replicate 6 0xff)"

definition arp_valid :: "ip \<Rightarrow> mac \<Rightarrow> bool" where
  "arp_valid addr m \<longleftrightarrow> addr \<noteq> [0, 0, 0, 0] \<and> m \<noteq> replicate 6 0 \<and> m \<noteq> replicate 6 0xff"

lemma arp_update_frame:
  "\<exists>c. arp_update addr m s = s\<lparr>arp_cache := c\<rparr>"
  by (auto simp: arp_update_def intro: exI [of _ "arp_cache s"])

lemma arp_update_inv:
  assumes "arp_inv (arp_cache s)"
  shows "arp_inv (arp_cache (arp_update addr m s))"
proof -
  let ?c = "arp_cache s"
  consider (bad) "\<not> arp_valid addr m" | (hit) "arp_valid addr m" "find (\<lambda>e. ae_ip e = addr) ?c \<noteq> None"
    | (miss) "arp_valid addr m" "find (\<lambda>e. ae_ip e = addr) ?c = None" by blast
  then show ?thesis
  proof cases
    case bad
    then show ?thesis using assms by (auto simp: arp_update_def arp_valid_def)
  next
    case hit
    have "map ae_ip (update_first (\<lambda>e. ae_ip e = addr) (\<lambda>e. e\<lparr>ae_mac := m\<rparr>) ?c) = map ae_ip ?c"
      by (rule arp.map_key_update_first) simp
    with hit assms show ?thesis
      by (auto simp: arp_update_def arp_valid_def arp_inv_def dest!: set_update_first)
  next
    case miss
    let ?x = "\<lparr>ae_ip = addr, ae_mac = m\<rparr>"
    have "length (push_evict ARP_MAX ?x ?c) \<le> ARP_MAX"
      using assms by (intro length_push_evict) (auto simp: arp_inv_def ARP_MAX_def)
    moreover have "addr \<notin> ae_ip ` set ?c" using miss(2) unfolding arp.lookup_None .
    then have "distinct (map ae_ip (push_evict ARP_MAX ?x ?c))"
      using assms by (cases ?c) (auto simp: push_evict_def arp_inv_def)
    moreover have "arp_update addr m s = s\<lparr>arp_cache := push_evict ARP_MAX ?x ?c\<rparr>"
      using miss by (auto simp: arp_update_def arp_valid_def)
    ultimately show ?thesis
      using miss assms set_push_evict [of ARP_MAX ?x ?c] by (fastforce simp: arp_inv_def arp_valid_def)
  qed
qed

lemma arp_lookup_update:
  assumes "arp_valid addr m"
  shows "arp_lookup addr (arp_update addr m s) = Some m"
proof (cases "find (\<lambda>e. ae_ip e = addr) (arp_cache s)")
  case None
  then show ?thesis
    using assms by (cases "arp_cache s")
      (auto simp: arp_update_def arp_lookup_def arp_valid_def push_evict_def find_append
        split: option.splits if_splits dest: list.set_sel(2))
next
  case (Some e)
  then show ?thesis
    using assms by (auto simp: arp_update_def arp_lookup_def arp_valid_def find_update_first)
qed

text \<open>Another address keeps its binding, except the oldest one when a full cache takes a new entry.\<close>

lemma arp_lookup_update_other:
  assumes "other \<noteq> addr"
    and "length (arp_cache s) < ARP_MAX \<or> arp_lookup addr s \<noteq> None \<or> ae_ip (hd (arp_cache s)) \<noteq> other"
  shows "arp_lookup other (arp_update addr m s) = arp_lookup other s"
proof (cases "find (\<lambda>e. ae_ip e = addr) (arp_cache s)")
  case None
  then show ?thesis
    using assms by (cases "arp_cache s")
      (auto simp: arp_update_def arp_lookup_def push_evict_def find_append split: option.splits)
next
  case (Some e)
  then show ?thesis
    using assms(1) arp.lookup_update [of "\<lambda>e. e\<lparr>ae_mac := m\<rparr>" other addr "arp_cache s"]
    by (simp add: arp_update_def arp_lookup_def)
qed

lemma eth_send_arp_cache: "arp_cache (snd (eth_send ops d t p s)) = arp_cache s"
  using eth_send_dev [of ops d t p s] by (cases "eth_send ops d t p s") fastforce

lemma send_reply_dev: "\<exists>d. snd (send_reply ops m i s) = s\<lparr>dev := d\<rparr>"
proof (cases "mac_addr ops s")
  case None
  then show ?thesis by (auto simp: send_reply_def intro: exI [of _ "dev s"])
next
  case (Some src)
  then show ?thesis
    using eth_send_dev [of ops m ETHERTYPE_ARP "arp_packet 2 src IPV4_ADDR m i" s]
    by (cases "eth_send ops m ETHERTYPE_ARP (arp_packet 2 src IPV4_ADDR m i) s") (auto simp: send_reply_def)
qed

text \<open>A received ARP packet changes the cache and the device only, and keeps the cache invariant.\<close>

lemma arp_handle_packet_frame:
  "\<exists>c d. arp_handle_packet ops f s = s\<lparr>arp_cache := c, dev := d\<rparr>
     \<and> (arp_inv (arp_cache s) \<longrightarrow> arp_inv c)"
proof -
  let ?p = "f_payload f"
  let ?spa = "take 4 (drop 14 ?p)" and ?sha = "take 6 (drop 8 ?p)"
  obtain c where c: "arp_update ?spa ?sha s = s\<lparr>arp_cache := c\<rparr>" using arp_update_frame by blast
  then have inv: "arp_inv (arp_cache s) \<longrightarrow> arp_inv c"
    using arp_update_inv [of s ?spa ?sha] by simp
  obtain d where d: "snd (send_reply ops ?sha ?spa (s\<lparr>arp_cache := c\<rparr>)) = s\<lparr>arp_cache := c, dev := d\<rparr>"
    using send_reply_dev [of ops ?sha ?spa "s\<lparr>arp_cache := c\<rparr>"] by blast
  let ?r = "arp_handle_packet ops f s"
  have "?r = s \<or> ?r = s\<lparr>arp_cache := c\<rparr> \<or> ?r = s\<lparr>arp_cache := c, dev := d\<rparr>"
    by (simp add: arp_handle_packet_def Let_def c d)
  then show ?thesis
  proof (elim disjE)
    assume "?r = s"
    then show ?thesis by (auto intro!: exI [of _ "arp_cache s"] exI [of _ "dev s"])
  next
    assume "?r = s\<lparr>arp_cache := c\<rparr>"
    then show ?thesis using inv by (auto intro!: exI [of _ c] exI [of _ "dev s"])
  qed (use inv in auto)
qed

end
