(* ===== verification/Ipv4.thy ===== *)
theory Ipv4
  imports Arp
begin

text \<open>
  \<^verbatim>\<open>kernel/net/ipv4.rs\<close>: parsing (header checks, checksum, no fragments) and sending of IPv4 packets,
  and \<^verbatim>\<open>kernel/net/icmpv4.rs\<close>, the echo protocol on top of it.
\<close>

definition IPV4_PROTO_ICMP :: u8 where "IPV4_PROTO_ICMP = 1"
definition IPV4_PROTO_TCP :: u8 where "IPV4_PROTO_TCP = 6"
definition IPV4_PROTO_UDP :: u8 where "IPV4_PROTO_UDP = 17"

abbreviation IPV4_HEADER_LEN :: nat where "IPV4_HEADER_LEN \<equiv> 20"

record ipv4_packet =
  p_src :: ip
  p_dst :: ip
  p_proto :: u8
  p_ttl :: u8
  p_payload :: "u8 list"

definition ipv4_parse :: "u8 list \<Rightarrow> ipv4_packet option" where
  "ipv4_parse buf =
     (if length buf < IPV4_HEADER_LEN then None
      else let version = drop_bit 4 (buf ! 0); ihl_words = buf ! 0 AND 0x0f in
        if version \<noteq> 4 then None
        else if ihl_words < 5 then None
        else let ihl = unat ihl_words * 4 in
          if length buf < ihl then None
          else let total_len = unat (from_be16 (buf ! 2) (buf ! 3)) in
            if total_len < ihl \<or> total_len > length buf then None
            else if internet_checksum (take ihl buf) \<noteq> 0 then None
            else let flags_frag = from_be16 (buf ! 6) (buf ! 7);
                     frag_offset = flags_frag AND 0x1fff;
                     more_frags = (flags_frag AND 0x2000 \<noteq> 0) in
              if frag_offset \<noteq> 0 \<or> more_frags then None
              else Some \<lparr>p_src = take 4 (drop 12 buf), p_dst = take 4 (drop 16 buf),
                p_proto = buf ! 9, p_ttl = buf ! 8, p_payload = drop ihl (take total_len buf)\<rparr>)"

text \<open>The header with a given checksum field, as the writes to \<open>ip_packet\<close> leave it.\<close>

definition ipv4_header :: "nat \<Rightarrow> u16 \<Rightarrow> u8 \<Rightarrow> u16 \<Rightarrow> ip \<Rightarrow> ip \<Rightarrow> u8 list" where
  "ipv4_header total_len ident proto csum src_ip dst_ip =
     [push_bit 4 4 OR 5, 0] @ be16 (of_nat total_len) @ be16 ident @ be16 0 @ [64, proto]
       @ be16 csum @ src_ip @ dst_ip"

definition ipv4_send :: "'d nic_ops \<Rightarrow> mac \<Rightarrow> ip \<Rightarrow> u8 \<Rightarrow> u8 list \<Rightarrow> 'd net \<Rightarrow> bool \<times> 'd net" where
  "ipv4_send ops dst_mac dst_ip proto payload s =
     (if length payload + IPV4_HEADER_LEN > 0xffff then (False, s)
      else let src_ip = IPV4_ADDR; total_len = IPV4_HEADER_LEN + length payload in
        if 1600 < total_len then (False, s)
        else let ident = next_id s;
                 s = s\<lparr>next_id := ident + 1\<rparr>;
                 csum = internet_checksum (ipv4_header total_len ident proto 0 src_ip dst_ip);
                 packet = ipv4_header total_len ident proto csum src_ip dst_ip @ payload
             in eth_send ops dst_mac ETHERTYPE_IPV4 packet s)"

section \<open>\<open>icmpv4.rs\<close>\<close>

definition send_echo_request :: "'d nic_ops \<Rightarrow> mac \<Rightarrow> ip \<Rightarrow> 'd net \<Rightarrow> bool \<times> 'd net" where
  "send_echo_request ops dst_mac dst_ip s =
     (let sq = icmp_next_seq s;
          s = s\<lparr>icmp_next_seq := sq + 1\<rparr>;
          payload = map (of_nat \<circ> of_char) ''MicrOS64 ping'';
          req = (\<lambda>c. [8, 0] @ be16 c @ be16 0x4d53 @ be16 sq @ payload);
          csum = internet_checksum (req 0)
      in ipv4_send ops dst_mac dst_ip IPV4_PROTO_ICMP (req csum) s)"

definition send_echo_reply :: "'d nic_ops \<Rightarrow> mac \<Rightarrow> ip \<Rightarrow> u8 list \<Rightarrow> 'd net \<Rightarrow> bool \<times> 'd net" where
  "send_echo_reply ops dst_mac dst_ip req s =
     (if length req > 1400 then (False, s)
      else let reply = (\<lambda>c. [0, 0] @ be16 c @ drop 4 req);
               csum = internet_checksum (reply 0)
           in ipv4_send ops dst_mac dst_ip IPV4_PROTO_ICMP (reply csum) s)"

definition icmp_handle_packet :: "'d nic_ops \<Rightarrow> mac \<Rightarrow> ipv4_packet \<Rightarrow> 'd net \<Rightarrow> 'd net" where
  "icmp_handle_packet ops src_mac packet s =
     (let p = p_payload packet in
      if length p < 8 then s
      else let kind = p ! 0; code = p ! 1 in
        if internet_checksum p \<noteq> 0 then s
        else if kind = 8 \<and> code = 0 then snd (send_echo_reply ops src_mac (p_src packet) p s)
        else s)"

section \<open>Round trip\<close>

lemma length_ipv4_header [simp]:
  "length src = 4 \<Longrightarrow> length dst = 4 \<Longrightarrow> length (ipv4_header n i p c src dst) = 20"
  by (simp add: ipv4_header_def)

lemma ipv4_header_verifies:
  assumes "length src = 4" "length dst = 4" "c = internet_checksum (ipv4_header n i p 0 src dst)"
  shows "internet_checksum (ipv4_header n i p c src dst) = 0"
proof -
  let ?pre = "[push_bit 4 4 OR 5, 0] @ be16 (of_nat n) @ be16 i @ be16 0 @ [64, p]"
  have eq: "ipv4_header n i p x src dst = ?pre @ be16 x @ (src @ dst)" for x
    by (simp add: ipv4_header_def)
  have "internet_checksum (?pre @ be16 c @ (src @ dst)) = 0"
  proof (rule internet_checksum_verifies)
    show "c = internet_checksum (?pre @ [0, 0] @ (src @ dst))"
      using assms(3) eq [of 0] by (simp add: be16_def)
  qed (use assms in simp_all)
  then show ?thesis by (simp add: eq)
qed

lemma drop_bit_header: "drop_bit 4 (0x45 :: u8) = 4" "(0x45 :: u8) AND 0x0f = 5"
  by (simp_all add: drop_bit_eq_div)

text \<open>
  A packet built by \<open>ipv4_send\<close>, with any trailing padding, parses to its own fields and
  payload.
\<close>

lemma ipv4_parse_header:
  assumes len: "length src = 4" "length dst = 4" and n: "n = 20 + length payload" "n < 65536"
    and c: "c = internet_checksum (ipv4_header n i p 0 src dst)"
  shows "ipv4_parse (ipv4_header n i p c src dst @ payload @ pad)
    = Some \<lparr>p_src = src, p_dst = dst, p_proto = p, p_ttl = 64, p_payload = payload\<rparr>"
proof -
  let ?h = "ipv4_header n i p c src dst" and ?b = "ipv4_header n i p c src dst @ payload @ pad"
  have h: "?h = [0x45, 0, ucast (drop_bit 8 (of_nat n :: u16)), ucast (of_nat n :: u16)] @ be16 i @ [0, 0, 64, p]
      @ be16 c @ src @ dst"
    by (simp add: ipv4_header_def be16_def)
  have l: "length ?h = 20" using len by simp
  have nth: "?b ! 0 = 0x45" "?b ! 2 = ucast (drop_bit 8 (of_nat n :: u16))" "?b ! 3 = ucast (of_nat n :: u16)"
    "?b ! 6 = 0" "?b ! 7 = 0" "?b ! 8 = 64" "?b ! 9 = p"
    unfolding h by (simp_all add: be16_def)
  have tot: "unat (from_be16 (?b ! 2) (?b ! 3)) = n"
    unfolding nth from_be16_be16 using n(2) by (simp add: unat_of_nat)
  have ck: "internet_checksum (take 20 ?b) = 0"
    using ipv4_header_verifies [OF len c] l by simp
  have sd: "take 4 (drop 12 ?b) = src" "take 4 (drop 16 ?b) = dst"
    unfolding h using len by (simp_all add: be16_def)
  have pl: "drop 20 (take n ?b) = payload" using l n(1) by simp
  have fr: "from_be16 (?b ! 6) (?b ! 7) = 0" unfolding nth by (simp add: from_be16_def)
  have u5: "unat (5 :: u8) * 4 = 20" by simp
  show ?thesis
    unfolding ipv4_parse_def Let_def nth(1) drop_bit_header u5 tot ck sd pl fr nth(6,7)
    using l n by simp
qed

text \<open>What \<open>ipv4_send\<close> puts on the wire.\<close>

definition ipv4_bytes :: "u16 \<Rightarrow> ip \<Rightarrow> u8 \<Rightarrow> u8 list \<Rightarrow> u8 list" where
  "ipv4_bytes ident dst_ip proto payload =
     (let n = 20 + length payload
      in ipv4_header n ident proto (internet_checksum (ipv4_header n ident proto 0 IPV4_ADDR dst_ip))
           IPV4_ADDR dst_ip @ payload)"

lemma ipv4_send_eq:
  assumes "length payload \<le> 1566" "length dst_ip = 4" "length dst_mac = 6"
    and "mac_addr ops s = Some src" "length src = 6"
  shows "ipv4_send ops dst_mac dst_ip proto payload s
    = send_frame ops (eth_bytes dst_mac src ETHERTYPE_IPV4 (ipv4_bytes (next_id s) dst_ip proto payload))
        (s\<lparr>next_id := next_id s + 1\<rparr>)"
  using assms
  by (simp add: ipv4_send_def Let_def ipv4_bytes_def eth_send_eq mac_addr_def)

lemma ipv4_parse_bytes:
  assumes "length payload \<le> 1566" "length dst_ip = 4"
  shows "ipv4_parse (ipv4_bytes ident dst_ip proto payload @ pad)
    = Some \<lparr>p_src = IPV4_ADDR, p_dst = dst_ip, p_proto = proto, p_ttl = 64, p_payload = payload\<rparr>"
  unfolding ipv4_bytes_def Let_def append_assoc
  using assms by (intro ipv4_parse_header) auto

text \<open>Sending an IPv4 packet touches the device and the identification counter only.\<close>

lemma ipv4_send_frame:
  "\<exists>d i. snd (ipv4_send ops m a p pl s) = s\<lparr>dev := d, next_id := i\<rparr>"
proof -
  let ?s = "s\<lparr>next_id := next_id s + 1\<rparr>" and ?r = "ipv4_send ops m a p pl s"
  have "?r = (False, s) \<or> (\<exists>x. ?r = eth_send ops m ETHERTYPE_IPV4 x ?s)"
    by (auto simp: ipv4_send_def Let_def)
  then show ?thesis
  proof
    assume "?r = (False, s)"
    then show ?thesis by (auto intro!: exI [of _ "dev s"] exI [of _ "next_id s"])
  next
    assume "\<exists>x. ?r = eth_send ops m ETHERTYPE_IPV4 x ?s"
    then obtain x where x: "?r = eth_send ops m ETHERTYPE_IPV4 x ?s" ..
    obtain d where "snd (eth_send ops m ETHERTYPE_IPV4 x ?s) = ?s\<lparr>dev := d\<rparr>"
      using eth_send_dev [of ops m ETHERTYPE_IPV4 x ?s] by (metis prod.collapse)
    with x show ?thesis by (auto intro!: exI [of _ d] exI [of _ "next_id s + 1"])
  qed
qed

lemma icmp_handle_packet_frame:
  "\<exists>d i. icmp_handle_packet ops m p s = s\<lparr>dev := d, next_id := i\<rparr>"
proof -
  let ?r = "icmp_handle_packet ops m p s"
  have "?r = s \<or> (\<exists>x. ?r = snd (ipv4_send ops m (p_src p) IPV4_PROTO_ICMP x s))"
    by (auto simp: icmp_handle_packet_def send_echo_reply_def Let_def)
  then show ?thesis
  proof
    assume "?r = s"
    then show ?thesis by (auto intro!: exI [of _ "dev s"] exI [of _ "next_id s"])
  qed (use ipv4_send_frame in metis)
qed

end
