(* ===== verification/Udp.thy ===== *)
theory Udp
  imports Ipv4
begin

text \<open>
  \<^verbatim>\<open>kernel/net/udp.rs\<close>, the parts below the polling loop: routing, the checksum, the segment that
  \<open>send_to\<close> builds, the receive handler and one iteration of \<open>recv_from\<close>.
\<close>

definition UDP_HEADER_LEN :: nat where "UDP_HEADER_LEN = 8"
definition MAX_UDP_PAYLOAD :: nat where "MAX_UDP_PAYLOAD = 1472"
definition MAX_UDP_QUEUE :: nat where "MAX_UDP_QUEUE = 32"

definition same_subnet :: "ip \<Rightarrow> ip \<Rightarrow> ip \<Rightarrow> bool" where
  "same_subnet a b msk = list_all (\<lambda>i. (a ! i AND msk ! i) = (b ! i AND msk ! i)) [0..<4]"

definition next_hop_for :: "ip \<Rightarrow> ip" where
  "next_hop_for dst_ip =
     (if same_subnet IPV4_ADDR dst_ip IPV4_NETMASK then dst_ip else IPV4_GATEWAY)"

definition udp_checksum :: "ip \<Rightarrow> ip \<Rightarrow> u8 list \<Rightarrow> u16" where
  "udp_checksum src_ip dst_ip segment = transport_checksum IPV4_PROTO_UDP src_ip dst_ip segment"

text \<open>The segment \<open>send_to\<close> assembles: a computed checksum of zero is sent as \<open>0xffff\<close>.\<close>

definition udp_header :: "u16 \<Rightarrow> u16 \<Rightarrow> nat \<Rightarrow> u16 \<Rightarrow> u8 list" where
  "udp_header src_port dst_port udp_len csum =
     be16 src_port @ be16 dst_port @ be16 (of_nat udp_len) @ be16 csum"

definition udp_segment :: "ip \<Rightarrow> u16 \<Rightarrow> u16 \<Rightarrow> u8 list \<Rightarrow> u8 list" where
  "udp_segment dst_ip dst_port src_port data =
     (let udp_len = UDP_HEADER_LEN + length data;
          csum = udp_checksum IPV4_ADDR dst_ip (udp_header src_port dst_port udp_len 0 @ data);
          csum = (if csum = 0 then 0xffff else csum)
      in udp_header src_port dst_port udp_len csum @ data)"

definition udp_handle_packet :: "ipv4_packet \<Rightarrow> 'd net \<Rightarrow> 'd net" where
  "udp_handle_packet packet s =
     (let p = p_payload packet in
      if length p < UDP_HEADER_LEN then s
      else let src_port = from_be16 (p ! 0) (p ! 1);
               dst_port = from_be16 (p ! 2) (p ! 3);
               udp_len = unat (from_be16 (p ! 4) (p ! 5));
               recv_csum = from_be16 (p ! 6) (p ! 7) in
        if udp_len < UDP_HEADER_LEN \<or> udp_len > length p then s
        else if recv_csum \<noteq> 0 \<and> udp_checksum (p_src packet) (p_dst packet) (take udp_len p) \<noteq> 0 then s
        else let data = drop UDP_HEADER_LEN (take udp_len p) in
          s\<lparr>udp_rx := push_evict MAX_UDP_QUEUE
              \<lparr>d_src_ip = p_src packet, d_src_port = src_port, d_dst_port = dst_port, d_data = data\<rparr>
              (udp_rx s)\<rparr>)"

text \<open>The body of the loop of \<open>recv_from\<close> before it polls: take the first datagram for the port.\<close>

definition udp_take :: "u16 \<Rightarrow> nat \<Rightarrow> 'd net \<Rightarrow> (ip \<times> u16 \<times> u8 list) option \<times> 'd net" where
  "udp_take local_port cap s =
     (case find (\<lambda>d. d_dst_port d = local_port) (udp_rx s) of
        None \<Rightarrow> (None, s)
      | Some d \<Rightarrow>
          (Some (d_src_ip d, d_src_port d, take (min cap (length (d_data d))) (d_data d)),
           s\<lparr>udp_rx := remove_first (\<lambda>d. d_dst_port d = local_port) (udp_rx s)\<rparr>))"

section \<open>Segments\<close>

lemma length_udp_header [simp]: "length (udp_header a b n c) = 8"
  by (simp add: udp_header_def)

lemma length_udp_segment [simp]: "length (udp_segment d dp sp data) = 8 + length data"
  by (simp add: udp_segment_def Let_def)

lemma udp_segment_verifies:
  assumes "length dst_ip = 4" "length data \<le> 65000"
  shows "udp_checksum IPV4_ADDR dst_ip (udp_segment dst_ip dst_port src_port data) = 0"
proof -
  let ?pre = "be16 src_port @ be16 dst_port @ be16 (of_nat (8 + length data))"
  let ?c = "udp_checksum IPV4_ADDR dst_ip (udp_header src_port dst_port (8 + length data) 0 @ data)"
  let ?c' = "if ?c = 0 then 0xffff else ?c"
  have "transport_checksum IPV4_PROTO_UDP IPV4_ADDR dst_ip (?pre @ be16 ?c' @ data) = 0"
  proof (rule transport_checksum_verifies)
    show "?c = transport_checksum IPV4_PROTO_UDP IPV4_ADDR dst_ip (?pre @ [0, 0] @ data)"
      by (simp add: udp_checksum_def udp_header_def be16_def)
  qed (use assms in auto)
  then have "udp_checksum IPV4_ADDR dst_ip (?pre @ be16 ?c' @ data) = 0"
    by (simp only: udp_checksum_def)
  moreover have "udp_segment dst_ip dst_port src_port data = ?pre @ be16 ?c' @ data"
    by (simp only: udp_segment_def Let_def UDP_HEADER_LEN_def udp_header_def append_assoc)
  ultimately show ?thesis by (simp only:)
qed

text \<open>
  A segment built by \<open>send_to\<close> and received unchanged is queued with its ports and payload.
\<close>

lemma udp_handle_segment:
  assumes "length dst_ip = 4" "length data \<le> 65000"
    and "p_src packet = IPV4_ADDR" "p_dst packet = dst_ip"
    and "p_payload packet = udp_segment dst_ip dst_port src_port data"
  shows "udp_handle_packet packet s = s\<lparr>udp_rx := push_evict MAX_UDP_QUEUE
    \<lparr>d_src_ip = IPV4_ADDR, d_src_port = src_port, d_dst_port = dst_port, d_data = data\<rparr> (udp_rx s)\<rparr>"
proof -
  let ?seg = "udp_segment dst_ip dst_port src_port data" and ?n = "8 + length data"
  obtain c where c: "?seg = udp_header src_port dst_port ?n c @ data"
    unfolding udp_segment_def Let_def UDP_HEADER_LEN_def by blast
  have seg: "?seg = [ucast (drop_bit 8 src_port), ucast src_port, ucast (drop_bit 8 dst_port), ucast dst_port,
      ucast (drop_bit 8 (of_nat ?n :: u16)), ucast (of_nat ?n :: u16), ucast (drop_bit 8 c), ucast c] @ data"
    unfolding c udp_header_def be16_def by simp
  have nth: "?seg ! 0 = ucast (drop_bit 8 src_port)" "?seg ! 1 = ucast src_port"
    "?seg ! 2 = ucast (drop_bit 8 dst_port)" "?seg ! 3 = ucast dst_port"
    "?seg ! 4 = ucast (drop_bit 8 (of_nat ?n :: u16))" "?seg ! 5 = ucast (of_nat ?n :: u16)"
    unfolding seg by (simp_all only: append_Cons nth_Cons_0 nth_Cons_numeral nth_Cons_Suc
        One_nat_def pred_numeral_simps BitM.simps diff_Suc_1) simp_all
  have n: "unat (of_nat ?n :: u16) = ?n" using assms(2) by (simp only: unat_of_nat) simp
  have ck: "udp_checksum IPV4_ADDR dst_ip ?seg = 0" using assms(1,2) by (rule udp_segment_verifies)
  have d: "drop 8 ?seg = data" by (simp add: c)
  show ?thesis
    unfolding udp_handle_packet_def assms(3-) Let_def nth from_be16_be16 n UDP_HEADER_LEN_def
    using ck d by simp
qed

section \<open>The receive queue\<close>

text \<open>\<open>udp_take\<close> is first-in first-out per port and leaves every other port's datagrams alone.\<close>

lemma filter_remove_first:
  "filter P (remove_first P xs) = tl (filter P xs)"
  by (induction xs) (auto simp: filter_empty_conv)

lemma filter_remove_first_other:
  "(\<And>x. P x \<Longrightarrow> \<not> Q x) \<Longrightarrow> filter Q (remove_first P xs) = filter Q xs"
  by (induction xs) auto

lemma find_filter: "find P xs = (case filter P xs of [] \<Rightarrow> None | x # _ \<Rightarrow> Some x)"
  by (induction xs) auto

definition port_queue :: "u16 \<Rightarrow> 'd net \<Rightarrow> udp_datagram list" where
  "port_queue port s = filter (\<lambda>d. d_dst_port d = port) (udp_rx s)"

lemma udp_take_fifo:
  "udp_take port cap s = (r, s') \<Longrightarrow>
   port_queue port s' = tl (port_queue port s)
   \<and> (port' \<noteq> port \<longrightarrow> port_queue port' s' = port_queue port' s)
   \<and> r = (case port_queue port s of [] \<Rightarrow> None
        | d # _ \<Rightarrow> Some (d_src_ip d, d_src_port d, take cap (d_data d)))"
  unfolding udp_take_def port_queue_def find_filter
  by (auto simp: filter_remove_first filter_remove_first_other min_def split: list.splits if_splits)

lemma udp_handle_bounded:
  "length (udp_rx s) \<le> MAX_UDP_QUEUE \<Longrightarrow> length (udp_rx (udp_handle_packet p s)) \<le> MAX_UDP_QUEUE"
  by (simp add: udp_handle_packet_def Let_def length_push_evict MAX_UDP_QUEUE_def)

lemma udp_handle_packet_frame: "\<exists>q. udp_handle_packet p s = s\<lparr>udp_rx := q\<rparr>"
  by (auto simp: udp_handle_packet_def Let_def intro: exI [of _ "udp_rx s"])

end
