(* ===== verification/Tcp.thy ===== *)
theory Tcp
  imports Udp
begin

text \<open>
  \<^verbatim>\<open>kernel/net/tcp.rs\<close>, the parts below the polling loops: the segment codec, the connection table and
  the receive handler with its four-state machine.
\<close>

definition TCP_FIN :: u16 where "TCP_FIN = 0x01"
definition TCP_SYN :: u16 where "TCP_SYN = 0x02"
definition TCP_RST :: u16 where "TCP_RST = 0x04"
definition TCP_PSH :: u16 where "TCP_PSH = 0x08"
definition TCP_ACK :: u16 where "TCP_ACK = 0x10"
definition TCP_WINDOW :: u16 where "TCP_WINDOW = 4096"
definition MAX_TCP_SEGMENT :: nat where "MAX_TCP_SEGMENT = 1200"

lemmas tcp_flag_defs = TCP_FIN_def TCP_SYN_def TCP_RST_def TCP_PSH_def TCP_ACK_def

abbreviation TCP_HEADER_LEN :: nat where "TCP_HEADER_LEN \<equiv> 20"

record tcp_header =
  h_src_port :: u16
  h_dst_port :: u16
  h_seq :: u32
  h_ack :: u32
  h_data_offset :: nat
  h_flags :: u16
  h_window :: u16

record tcp_tx_info =
  t_remote_mac :: mac
  t_remote_ip :: ip
  t_local_port :: u16
  t_remote_port :: u16
  t_seq :: u32
  t_ack :: u32

definition parse_tcp :: "u8 list \<Rightarrow> (tcp_header \<times> u8 list) option" where
  "parse_tcp buf =
     (if length buf < TCP_HEADER_LEN then None
      else let data_offset = unat (drop_bit 4 (buf ! 12)) * 4 in
        if data_offset < TCP_HEADER_LEN \<or> data_offset > length buf then None
        else Some (\<lparr>h_src_port = from_be16 (buf ! 0) (buf ! 1),
             h_dst_port = from_be16 (buf ! 2) (buf ! 3),
             h_seq = from_be32 (buf ! 4) (buf ! 5) (buf ! 6) (buf ! 7),
             h_ack = from_be32 (buf ! 8) (buf ! 9) (buf ! 10) (buf ! 11),
             h_data_offset = data_offset, h_flags = ucast (buf ! 13),
             h_window = from_be16 (buf ! 14) (buf ! 15)\<rparr>, drop data_offset buf))"

definition tcp_checksum :: "ip \<Rightarrow> ip \<Rightarrow> u8 list \<Rightarrow> u16" where
  "tcp_checksum src_ip dst_ip segment = transport_checksum IPV4_PROTO_TCP src_ip dst_ip segment"

text \<open>The 20 header bytes with a given checksum field, as \<open>send_tcp_packet\<close> writes them.\<close>

definition tcp_header_bytes :: "u16 \<Rightarrow> u16 \<Rightarrow> u32 \<Rightarrow> u32 \<Rightarrow> u16 \<Rightarrow> u16 \<Rightarrow> u8 list" where
  "tcp_header_bytes src_port dst_port sq ak flags csum =
     be16 src_port @ be16 dst_port @ be32 sq @ be32 ak @ [push_bit 4 5, ucast flags]
       @ be16 TCP_WINDOW @ be16 csum @ be16 0"

definition tcp_segment :: "ip \<Rightarrow> u16 \<Rightarrow> u16 \<Rightarrow> u32 \<Rightarrow> u32 \<Rightarrow> u16 \<Rightarrow> u8 list \<Rightarrow> u8 list" where
  "tcp_segment dst_ip src_port dst_port sq ak flags payload =
     (let csum = tcp_checksum IPV4_ADDR dst_ip (tcp_header_bytes src_port dst_port sq ak flags 0 @ payload)
      in tcp_header_bytes src_port dst_port sq ak flags csum @ payload)"

definition send_tcp_packet ::
  "'d nic_ops \<Rightarrow> mac \<Rightarrow> ip \<Rightarrow> u16 \<Rightarrow> u16 \<Rightarrow> u32 \<Rightarrow> u32 \<Rightarrow> u16 \<Rightarrow> u8 list \<Rightarrow> 'd net \<Rightarrow> bool \<times> 'd net" where
  "send_tcp_packet ops dst_mac dst_ip src_port dst_port sq ak flags payload s =
     (if length payload > MAX_TCP_SEGMENT then (False, s)
      else let total_len = TCP_HEADER_LEN + length payload in
        if total_len > 1500 then (False, s)
        else ipv4_send ops dst_mac dst_ip IPV4_PROTO_TCP
          (tcp_segment dst_ip src_port dst_port sq ak flags payload) s)"

section \<open>The connection table\<close>

definition conn :: "u64 \<Rightarrow> 'd net \<Rightarrow> tcp_connection option" where
  "conn fd s = find (\<lambda>c. c_fd c = fd) (conns s)"

definition update_conn :: "u64 \<Rightarrow> (tcp_connection \<Rightarrow> tcp_connection) \<Rightarrow> 'd net \<Rightarrow> 'd net" where
  "update_conn fd f s = s\<lparr>conns := update_first (\<lambda>c. c_fd c = fd) f (conns s)\<rparr>"

definition drop_conn :: "u64 \<Rightarrow> 'd net \<Rightarrow> 'd net" where
  "drop_conn fd s = s\<lparr>conns := remove_first (\<lambda>c. c_fd c = fd) (conns s)\<rparr>"

definition is_established :: "u64 \<Rightarrow> 'd net \<Rightarrow> bool" where
  "is_established fd s = (case conn fd s of Some c \<Rightarrow> c_state c = Established | None \<Rightarrow> False)"

definition is_closed :: "u64 \<Rightarrow> 'd net \<Rightarrow> bool" where
  "is_closed fd s = (case conn fd s of Some c \<Rightarrow> c_state c = Closed | None \<Rightarrow> True)"

definition syn_retransmit_info :: "u64 \<Rightarrow> 'd net \<Rightarrow> (mac \<times> ip \<times> u16 \<times> u32) option" where
  "syn_retransmit_info fd s =
     (case conn fd s of
        None \<Rightarrow> None
      | Some c \<Rightarrow> if c_state c \<noteq> SynSent then None
          else Some (c_remote_mac c, c_remote_ip c, c_local_port c, c_iss c))"

definition pending_ack_info :: "u64 \<Rightarrow> 'd net \<Rightarrow> tcp_tx_info option \<times> 'd net" where
  "pending_ack_info fd s =
     (case conn fd s of
        None \<Rightarrow> (None, s)
      | Some c \<Rightarrow>
          if \<not> c_pending_ack c then (None, s)
          else (Some \<lparr>t_remote_mac = c_remote_mac c, t_remote_ip = c_remote_ip c,
                 t_local_port = c_local_port c, t_remote_port = c_remote_port c,
                 t_seq = c_snd_nxt c, t_ack = c_rcv_nxt c\<rparr>,
               update_conn fd (\<lambda>c. c\<lparr>c_pending_ack := False\<rparr>) s))"

definition flush_pending_ack :: "'d nic_ops \<Rightarrow> u64 \<Rightarrow> 'd net \<Rightarrow> bool \<times> 'd net" where
  "flush_pending_ack ops fd s =
     (case pending_ack_info fd s of
        (None, s) \<Rightarrow> (True, s)
      | (Some tx, s) \<Rightarrow>
          send_tcp_packet ops (t_remote_mac tx) (t_remote_ip tx) (t_local_port tx) (t_remote_port tx)
            (t_seq tx) (t_ack tx) TCP_ACK [] s)"

definition tcp_close :: "'d nic_ops \<Rightarrow> u64 \<Rightarrow> 'd net \<Rightarrow> 'd net" where
  "tcp_close ops fd s =
     (case conn fd s of
        None \<Rightarrow> s
      | Some c \<Rightarrow>
          (let s' = drop_conn fd s in
           if c_state c = Established \<or> c_state c = CloseWait
           then snd (send_tcp_packet ops (c_remote_mac c) (c_remote_ip c) (c_local_port c) (c_remote_port c)
                  (c_snd_nxt c) (c_rcv_nxt c) (TCP_FIN OR TCP_ACK) [] s')
           else s'))"

section \<open>The receive handler\<close>

text \<open>What one segment does to the connection it matches.\<close>

definition tcp_input :: "tcp_header \<Rightarrow> u8 list \<Rightarrow> mac \<Rightarrow> ip \<Rightarrow> tcp_connection \<Rightarrow> tcp_connection" where
  "tcp_input hdr payload src_mac src_ip c =
     (let c = (if c_state c = SynSent then c\<lparr>c_remote_ip := src_ip\<rparr> else c);
          c = c\<lparr>c_remote_mac := src_mac\<rparr> in
      if h_flags hdr AND TCP_RST \<noteq> 0 then c\<lparr>c_state := Closed\<rparr>
      else case c_state c of
        SynSent \<Rightarrow>
          (let syn_ack = (h_flags hdr AND TCP_SYN \<noteq> 0 \<and> h_flags hdr AND TCP_ACK \<noteq> 0) in
           if syn_ack \<and> h_ack hdr = c_snd_nxt c
           then c\<lparr>c_rcv_nxt := h_seq hdr + 1, c_state := Established, c_pending_ack := True\<rparr>
           else c)
      | Closed \<Rightarrow> c
      | _ \<Rightarrow>
          (let c = (if payload \<noteq> [] \<and> h_seq hdr = c_rcv_nxt c
                    then c\<lparr>c_rx := c_rx c @ payload, c_rcv_nxt := c_rcv_nxt c + of_nat (length payload),
                           c_pending_ack := True\<rparr>
                    else c) in
           if h_flags hdr AND TCP_FIN \<noteq> 0
           then c\<lparr>c_rcv_nxt := c_rcv_nxt c + 1, c_state := CloseWait, c_pending_ack := True\<rparr>
           else c))"

definition conn_matches :: "tcp_header \<Rightarrow> ip \<Rightarrow> tcp_connection \<Rightarrow> bool" where
  "conn_matches hdr src_ip c \<longleftrightarrow> c_local_port c = h_dst_port hdr \<and> c_remote_port c = h_src_port hdr
     \<and> (c_remote_ip c = src_ip \<or> c_state c = SynSent)"

definition tcp_handle_packet :: "mac \<Rightarrow> ipv4_packet \<Rightarrow> 'd net \<Rightarrow> 'd net" where
  "tcp_handle_packet src_mac packet s =
     (case parse_tcp (p_payload packet) of
        None \<Rightarrow> s
      | Some (hdr, payload) \<Rightarrow>
          (let src_ip = p_src packet; dst_ip = p_dst packet in
           if tcp_checksum src_ip dst_ip (p_payload packet) \<noteq> 0 then s
           else s\<lparr>conns := update_first (conn_matches hdr src_ip)
                     (tcp_input hdr payload src_mac src_ip) (conns s)\<rparr>))"

section \<open>Segment round trip\<close>

lemma length_tcp_header_bytes [simp]: "length (tcp_header_bytes a b c d f k) = 20"
  by (simp add: tcp_header_bytes_def)

lemma length_tcp_segment [simp]: "length (tcp_segment i a b c d f pl) = 20 + length pl"
  by (simp add: tcp_segment_def Let_def)

lemma tcp_segment_verifies:
  assumes "length dst_ip = 4" "length payload \<le> 65000"
  shows "tcp_checksum IPV4_ADDR dst_ip (tcp_segment dst_ip sp dp sq ak flags payload) = 0"
proof -
  let ?pre = "be16 sp @ be16 dp @ be32 sq @ be32 ak @ [push_bit 4 5, ucast flags] @ be16 TCP_WINDOW"
  let ?post = "be16 0 @ payload"
  let ?c = "tcp_checksum IPV4_ADDR dst_ip (tcp_header_bytes sp dp sq ak flags 0 @ payload)"
  have "transport_checksum IPV4_PROTO_TCP IPV4_ADDR dst_ip (?pre @ be16 ?c @ ?post) = 0"
  proof (rule transport_checksum_verifies)
    show "?c = transport_checksum IPV4_PROTO_TCP IPV4_ADDR dst_ip (?pre @ [0, 0] @ ?post)"
      by (simp add: tcp_checksum_def tcp_header_bytes_def be16_def)
  qed (use assms in auto)
  then have "tcp_checksum IPV4_ADDR dst_ip (?pre @ be16 ?c @ ?post) = 0"
    by (simp only: tcp_checksum_def)
  moreover have "tcp_segment dst_ip sp dp sq ak flags payload = ?pre @ be16 ?c @ ?post"
    by (simp only: tcp_segment_def Let_def tcp_header_bytes_def append_assoc)
  ultimately show ?thesis by (simp only:)
qed

lemma ucast_flags: "f < 256 \<Longrightarrow> ucast (ucast f :: u8) = f" for f :: u16
  by (simp add: word_unat_eq_iff unsigned_ucast_eq take_bit_eq_mod word_less_nat_alt unat_mod_distrib)

lemma parse_tcp_segment:
  assumes "flags < 256"
  shows "parse_tcp (tcp_segment dst_ip sp dp sq ak flags payload)
    = Some (\<lparr>h_src_port = sp, h_dst_port = dp, h_seq = sq, h_ack = ak, h_data_offset = 20,
        h_flags = flags, h_window = TCP_WINDOW\<rparr>, payload)"
proof -
  let ?seg = "tcp_segment dst_ip sp dp sq ak flags payload"
  obtain c where c: "?seg = tcp_header_bytes sp dp sq ak flags c @ payload"
    unfolding tcp_segment_def Let_def by blast
  have seg: "?seg = [ucast (drop_bit 8 sp), ucast sp, ucast (drop_bit 8 dp), ucast dp,
      ucast (drop_bit 24 sq), ucast (drop_bit 16 sq), ucast (drop_bit 8 sq), ucast sq,
      ucast (drop_bit 24 ak), ucast (drop_bit 16 ak), ucast (drop_bit 8 ak), ucast ak,
      0x50, ucast flags, ucast (drop_bit 8 TCP_WINDOW), ucast TCP_WINDOW,
      ucast (drop_bit 8 c), ucast c, 0, 0] @ payload"
    unfolding c tcp_header_bytes_def be16_def be32_def by (simp add: push_bit_eq_mult)
  have l: "length ?seg = 20 + length payload" by simp
  have nth: "?seg ! 0 = ucast (drop_bit 8 sp)" "?seg ! 1 = ucast sp" "?seg ! 2 = ucast (drop_bit 8 dp)"
    "?seg ! 3 = ucast dp" "?seg ! 4 = ucast (drop_bit 24 sq)" "?seg ! 5 = ucast (drop_bit 16 sq)"
    "?seg ! 6 = ucast (drop_bit 8 sq)" "?seg ! 7 = ucast sq" "?seg ! 8 = ucast (drop_bit 24 ak)"
    "?seg ! 9 = ucast (drop_bit 16 ak)" "?seg ! 10 = ucast (drop_bit 8 ak)" "?seg ! 11 = ucast ak"
    "?seg ! 12 = 0x50" "?seg ! 13 = ucast flags" "?seg ! 14 = ucast (drop_bit 8 TCP_WINDOW)"
    "?seg ! 15 = ucast TCP_WINDOW"
    unfolding seg by simp_all
  have off: "unat (drop_bit 4 (0x50 :: u8)) * 4 = 20" by (simp add: drop_bit_eq_div)
  have d: "drop 20 ?seg = payload" by (simp add: c)
  show ?thesis
    unfolding parse_tcp_def Let_def nth off d from_be16_be16 from_be32_be32 ucast_flags [OF assms]
    using l by simp
qed

section \<open>Connection state machine\<close>

interpretation tcp: keyed_table c_fd .

lemma tcp_input_keeps [simp]:
  "c_fd (tcp_input h pl m i c) = c_fd c" "c_local_port (tcp_input h pl m i c) = c_local_port c"
  "c_remote_port (tcp_input h pl m i c) = c_remote_port c" "c_iss (tcp_input h pl m i c) = c_iss c"
  "c_snd_nxt (tcp_input h pl m i c) = c_snd_nxt c"
  by (auto simp: tcp_input_def Let_def split: tcp_state.splits)

lemma tcp_handle_packet_fds: "map c_fd (conns (tcp_handle_packet m p s)) = map c_fd (conns s)"
  by (auto simp: tcp_handle_packet_def Let_def tcp.map_key_update_first split: option.splits)

lemma tcp_handle_packet_frame: "\<exists>cs. tcp_handle_packet m p s = s\<lparr>conns := cs\<rparr>"
  by (auto simp: tcp_handle_packet_def Let_def split: option.splits intro: exI [of _ "conns s"])

text \<open>The transitions the handler can make, with the guard of each.\<close>

inductive tcp_transition :: "tcp_header \<Rightarrow> u32 \<Rightarrow> tcp_state \<Rightarrow> tcp_state \<Rightarrow> bool" for hdr snd_nxt where
  reset: "h_flags hdr AND TCP_RST \<noteq> 0 \<Longrightarrow> tcp_transition hdr snd_nxt st Closed"
| syn_acked: "h_flags hdr AND TCP_RST = 0 \<Longrightarrow> h_flags hdr AND TCP_SYN \<noteq> 0 \<Longrightarrow> h_flags hdr AND TCP_ACK \<noteq> 0
     \<Longrightarrow> h_ack hdr = snd_nxt \<Longrightarrow> tcp_transition hdr snd_nxt SynSent Established"
| fin_seen: "h_flags hdr AND TCP_RST = 0 \<Longrightarrow> h_flags hdr AND TCP_FIN \<noteq> 0 \<Longrightarrow> st \<in> {Established, CloseWait}
     \<Longrightarrow> tcp_transition hdr snd_nxt st CloseWait"
| stay: "h_flags hdr AND TCP_RST = 0 \<Longrightarrow> tcp_transition hdr snd_nxt st st"

inductive_cases tcp_transition_from_closed: "tcp_transition hdr n Closed st"

lemma tcp_input_transition:
  "tcp_transition hdr (c_snd_nxt c) (c_state c) (c_state (tcp_input hdr pl m i c))"
proof (cases "h_flags hdr AND TCP_RST = 0")
  case False
  then show ?thesis by (auto simp: tcp_input_def Let_def intro: tcp_transition.reset)
next
  case True
  then show ?thesis
    by (cases "c_state c") (auto simp: tcp_input_def Let_def intro: tcp_transition.intros)
qed

lemma closed_is_final: "c_state c = Closed \<Longrightarrow> c_state (tcp_input hdr pl m i c) = Closed"
  using tcp_input_transition [of hdr c pl m i] by (auto elim: tcp_transition_from_closed)

section \<open>The byte stream\<close>

text \<open>
  A segment is truthful for a peer's byte stream \<open>S\<close> whose first byte has sequence number
  \<open>irs\<close> if its payload is the piece of \<open>S\<close> at the offset its sequence number names.
\<close>

definition truthful :: "u32 \<Rightarrow> u8 list \<Rightarrow> tcp_header \<times> u8 list \<Rightarrow> bool" where
  "truthful irs S seg \<longleftrightarrow> (\<exists>off. off + length (snd seg) \<le> length S
     \<and> h_seq (fst seg) = irs + of_nat off \<and> snd seg = take (length (snd seg)) (drop off S))"

definition plain_data :: "tcp_header \<Rightarrow> bool" where
  "plain_data hdr \<longleftrightarrow> h_flags hdr AND TCP_RST = 0 \<and> h_flags hdr AND TCP_FIN = 0"

definition stream_inv :: "u32 \<Rightarrow> u8 list \<Rightarrow> tcp_connection \<Rightarrow> bool" where
  "stream_inv irs S c \<longleftrightarrow> c_state c = Established
     \<and> (\<exists>k \<le> length S. c_rx c = take k S \<and> c_rcv_nxt c = irs + of_nat k)"

lemma of_nat_u32_inj: "a < 2 ^ 32 \<Longrightarrow> b < 2 ^ 32 \<Longrightarrow> (of_nat a :: u32) = of_nat b \<longleftrightarrow> a = b"
  by (metis unat_of_nat len_num1 len_bit0 mod_less word_unat_eq_iff power_numeral numeral_Bit0
      mult_2 nat_mult_1_right mult_1 one_add_one)

lemma stream_inv_step:
  assumes inv: "stream_inv irs S c" and len: "length S < 2 ^ 32"
    and seg: "truthful irs S (hdr, pl)" and plain: "plain_data hdr"
  shows "stream_inv irs S (tcp_input hdr pl m i c)"
proof -
  obtain k where k: "k \<le> length S" "c_rx c = take k S" "c_rcv_nxt c = irs + of_nat k"
    and st: "c_state c = Established" using inv by (auto simp: stream_inv_def)
  obtain off where off: "off + length pl \<le> length S" "h_seq hdr = irs + of_nat off"
      "pl = take (length pl) (drop off S)" using seg by (auto simp: truthful_def)
  show ?thesis
  proof (cases "pl \<noteq> [] \<and> h_seq hdr = c_rcv_nxt c")
    case False
    then show ?thesis
      using inv st plain by (auto simp: tcp_input_def Let_def stream_inv_def plain_data_def)
  next
    case True
    then have "(of_nat off :: u32) = of_nat k" using off(2) k(3) by simp
    then have "off = k" using of_nat_u32_inj [of off k] off(1) k(1) len by simp
    then have "take k S @ pl = take (k + length pl) S"
      using off(3) by (metis take_add)
    with True st plain k off(1) \<open>off = k\<close> show ?thesis
      by (auto simp: tcp_input_def Let_def stream_inv_def plain_data_def
          intro!: exI [of _ "k + length pl"])
  qed
qed

definition tcp_inputs :: "(tcp_header \<times> u8 list) list \<Rightarrow> mac \<Rightarrow> ip \<Rightarrow> tcp_connection \<Rightarrow> tcp_connection" where
  "tcp_inputs segs m i c = fold (\<lambda>(h, pl). tcp_input h pl m i) segs c"

lemma stream_inv_inputs:
  assumes "stream_inv irs S c" "length S < 2 ^ 32"
    and "\<And>seg. seg \<in> set segs \<Longrightarrow> truthful irs S seg \<and> plain_data (fst seg)"
  shows "stream_inv irs S (tcp_inputs segs m i c)"
  using assms
proof (induction segs arbitrary: c)
  case Nil
  then show ?case by (simp add: tcp_inputs_def)
next
  case (Cons seg segs)
  obtain h pl where seg: "seg = (h, pl)" by fastforce
  have "stream_inv irs S (tcp_input h pl m i c)"
    using Cons.prems(1,2) Cons.prems(3) [of seg] seg by (intro stream_inv_step) auto
  with Cons show ?case by (simp add: tcp_inputs_def seg)
qed

end
