(* ===== verification/Net_Stack.thy ===== *)
theory Net_Stack
  imports Tcp Errno
begin

text \<open>
  The polling layer: \<open>ipv4::handle_packet\<close> and \<open>ethernet::poll_once\<close>, which dispatch a received
  frame, and the calls that poll in bounded loops (\<open>resolve_mac\<close>, \<open>udp::send_to\<close>,
  \<open>udp::recv_from\<close>, \<open>tcp::connect\<close>, \<open>tcp::send\<close>, \<open>tcp::recv\<close>). A \<open>for _ in 0..polls\<close> loop is recursion on
  the number of iterations left. Errors are the negated error numbers of \<^verbatim>\<open>crates/abi/src/errno.rs\<close>.
\<close>

definition ipv4_handle_packet :: "'d nic_ops \<Rightarrow> ethernet_frame \<Rightarrow> 'd net \<Rightarrow> 'd net" where
  "ipv4_handle_packet ops frame s =
     (case ipv4_parse (f_payload frame) of
        None \<Rightarrow> s
      | Some packet \<Rightarrow>
          if \<not> is_our_ipv4 (p_dst packet) \<and> p_dst packet \<noteq> [255, 255, 255, 255] then s
          else if p_proto packet = IPV4_PROTO_ICMP then icmp_handle_packet ops (f_src frame) packet s
          else if p_proto packet = IPV4_PROTO_TCP then tcp_handle_packet (f_src frame) packet s
          else if p_proto packet = IPV4_PROTO_UDP then udp_handle_packet packet s
          else s)"

definition poll_once :: "'d nic_ops \<Rightarrow> 'd net \<Rightarrow> bool \<times> 'd net" where
  "poll_once ops s =
     (if \<not> is_ready ops s then (False, s)
      else case recv_frame ops 4096 s of
        (None, s) \<Rightarrow> (False, s)
      | (Some buf, s) \<Rightarrow>
          if length buf = 0 then (True, s)
          else case eth_parse buf of
            None \<Rightarrow> (True, s)
          | Some frame \<Rightarrow>
              if \<not> is_our_mac ops s (f_dst frame) \<and> \<not> is_broadcast_mac (f_dst frame) then (True, s)
              else if f_ethertype frame = ETHERTYPE_ARP then (True, arp_handle_packet ops frame s)
              else if f_ethertype frame = ETHERTYPE_IPV4 then (True, ipv4_handle_packet ops frame s)
              else (True, s))"

fun resolve_loop :: "'d nic_ops \<Rightarrow> ip \<Rightarrow> nat \<Rightarrow> 'd net \<Rightarrow> mac option \<times> 'd net" where
  "resolve_loop ops addr 0 s = (None, s)"
| "resolve_loop ops addr (Suc n) s =
     (let s = snd (poll_once ops s) in
      case arp_lookup addr s of Some m \<Rightarrow> (Some m, s) | None \<Rightarrow> resolve_loop ops addr n s)"

definition resolve_mac :: "'d nic_ops \<Rightarrow> ip \<Rightarrow> nat \<Rightarrow> 'd net \<Rightarrow> mac option \<times> 'd net" where
  "resolve_mac ops addr polls s =
     (case arp_lookup addr s of
        Some m \<Rightarrow> (Some m, s)
      | None \<Rightarrow>
          (case send_request ops addr s of
             (False, s) \<Rightarrow> (None, s)
           | (True, s) \<Rightarrow> resolve_loop ops addr polls s))"

section \<open>UDP sockets\<close>

definition send_to ::
  "'d nic_ops \<Rightarrow> ip \<Rightarrow> u16 \<Rightarrow> u16 \<Rightarrow> u8 list \<Rightarrow> u32 \<Rightarrow> 'd net \<Rightarrow> (i64 + nat) \<times> 'd net" where
  "send_to ops dst_ip dst_port src_port data timeout_polls s =
     (if dst_ip = [0, 0, 0, 0] \<or> dst_port = 0 \<or> src_port = 0 then (Inl (- EINVAL), s)
      else if data = [] \<or> length data > MAX_UDP_PAYLOAD then (Inl (- EINVAL), s)
      else if \<not> is_ready ops s then (Inl (- ENODEV), s)
      else if \<not> link_up ops s then (Inl (- EIO), s)
      else let polls = (if timeout_polls = 0 then 20000 else unat timeout_polls) in
        case resolve_mac ops (next_hop_for dst_ip) polls s of
          (None, s) \<Rightarrow> (Inl (- EAGAIN), s)
        | (Some dst_mac, s) \<Rightarrow>
            (case ipv4_send ops dst_mac dst_ip IPV4_PROTO_UDP (udp_segment dst_ip dst_port src_port data) s of
               (False, s) \<Rightarrow> (Inl (- EIO), s)
             | (True, s) \<Rightarrow> (Inr (length data), s)))"

fun recv_loop ::
  "'d nic_ops \<Rightarrow> u16 \<Rightarrow> nat \<Rightarrow> nat \<Rightarrow> 'd net \<Rightarrow> (i64 + ip \<times> u16 \<times> u8 list) \<times> 'd net" where
  "recv_loop ops port cap 0 s = (Inl (- EAGAIN), s)"
| "recv_loop ops port cap (Suc n) s =
     (case udp_take port cap s of
        (Some r, s) \<Rightarrow> (Inr r, s)
      | (None, s) \<Rightarrow> recv_loop ops port cap n (snd (poll_once ops s)))"

definition recv_from ::
  "'d nic_ops \<Rightarrow> u16 \<Rightarrow> nat \<Rightarrow> u32 \<Rightarrow> 'd net \<Rightarrow> (i64 + ip \<times> u16 \<times> u8 list) \<times> 'd net" where
  "recv_from ops local_port cap timeout_polls s =
     (if local_port = 0 \<or> cap = 0 then (Inl (- EINVAL), s)
      else recv_loop ops local_port cap (if timeout_polls = 0 then 20000 else unat timeout_polls) s)"

section \<open>TCP sockets\<close>

definition SYN_RETRANSMIT_EVERY_POLLS :: nat where "SYN_RETRANSMIT_EVERY_POLLS = 4096"

text \<open>The polling loop of \<open>connect\<close>: \<open>poll\<close> is the loop counter, the first argument what is left.\<close>

fun connect_loop :: "'d nic_ops \<Rightarrow> u64 \<Rightarrow> u16 \<Rightarrow> nat \<Rightarrow> nat \<Rightarrow> 'd net \<Rightarrow> (i64 + u64) \<times> 'd net" where
  "connect_loop ops fd dst_port 0 poll s = (Inl (- EAGAIN), drop_conn fd s)"
| "connect_loop ops fd dst_port (Suc n) poll s =
     (let s = snd (poll_once ops s) in
      if is_established fd s then
        (case flush_pending_ack ops fd s of
           (False, s) \<Rightarrow> (Inl (- EIO), drop_conn fd s)
         | (True, s) \<Rightarrow> (Inr fd, s))
      else if is_closed fd s then (Inl (- EIO), drop_conn fd s)
      else let s = (if poll \<noteq> 0 \<and> poll mod SYN_RETRANSMIT_EVERY_POLLS = 0
                    then (case syn_retransmit_info fd s of
                            Some (m, i, port, sq) \<Rightarrow>
                              snd (send_tcp_packet ops m i port dst_port sq 0 TCP_SYN [] s)
                          | None \<Rightarrow> s)
                    else s)
        in connect_loop ops fd dst_port n (poll + 1) s)"

definition connect :: "'d nic_ops \<Rightarrow> ip \<Rightarrow> u16 \<Rightarrow> u32 \<Rightarrow> 'd net \<Rightarrow> (i64 + u64) \<times> 'd net" where
  "connect ops dst_ip dst_port timeout_polls s =
     (if dst_ip = [0, 0, 0, 0] \<or> dst_port = 0 then (Inl (- EINVAL), s)
      else if \<not> is_ready ops s then (Inl (- ENODEV), s)
      else if \<not> link_up ops s then (Inl (- EIO), s)
      else let polls = (if timeout_polls = 0 then 120000 else unat timeout_polls) in
        case resolve_mac ops (next_hop_for dst_ip) polls s of
          (None, s) \<Rightarrow> (Inl (- EAGAIN), s)
        | (Some dst_mac, s) \<Rightarrow>
            (let fd = next_fd s; local_port = next_port s; iss = next_seq s;
                 c = \<lparr>c_fd = fd, c_state = SynSent, c_local_port = local_port, c_remote_port = dst_port,
                      c_remote_ip = dst_ip, c_remote_mac = dst_mac, c_iss = iss, c_snd_nxt = iss + 1,
                      c_rcv_nxt = 0, c_pending_ack = False, c_rx = []\<rparr>;
                 s = s\<lparr>next_fd := fd + 1, next_port := local_port + 1, next_seq := iss + 0x1000,
                       conns := conns s @ [c]\<rparr>
             in case send_tcp_packet ops dst_mac dst_ip local_port dst_port iss 0 TCP_SYN [] s of
                  (False, s) \<Rightarrow> (Inl (- EIO), drop_conn fd s)
                | (True, s) \<Rightarrow> connect_loop ops fd dst_port polls 0 s))"

text \<open>The 2048 polls at the end of \<open>send\<close>.\<close>

fun drain_acks :: "'d nic_ops \<Rightarrow> u64 \<Rightarrow> nat \<Rightarrow> 'd net \<Rightarrow> 'd net" where
  "drain_acks ops fd 0 s = s"
| "drain_acks ops fd (Suc n) s =
     drain_acks ops fd n (snd (flush_pending_ack ops fd (snd (poll_once ops s))))"

definition tcp_send :: "'d nic_ops \<Rightarrow> u64 \<Rightarrow> u8 list \<Rightarrow> 'd net \<Rightarrow> (i64 + nat) \<times> 'd net" where
  "tcp_send ops fd data s =
     (if data = [] then (Inl (- EINVAL), s)
      else let s = snd (flush_pending_ack ops fd s);
               n = min (length data) MAX_TCP_SEGMENT in
        case conn fd s of
          None \<Rightarrow> (Inl (- EINVAL), s)
        | Some c \<Rightarrow>
            if c_state c \<noteq> Established \<and> c_state c \<noteq> CloseWait then (Inl (- EIO), s)
            else let s = update_conn fd (\<lambda>c. c\<lparr>c_snd_nxt := c_snd_nxt c + of_nat n\<rparr>) s in
              case send_tcp_packet ops (c_remote_mac c) (c_remote_ip c) (c_local_port c) (c_remote_port c)
                     (c_snd_nxt c) (c_rcv_nxt c) (TCP_PSH OR TCP_ACK) (take n data) s of
                (False, s) \<Rightarrow> (Inl (- EIO), s)
              | (True, s) \<Rightarrow> (Inr n, drain_acks ops fd 2048 s))"

definition DEFAULT_IO_POLLS :: nat where "DEFAULT_IO_POLLS = 40000"

fun tcp_recv_loop :: "'d nic_ops \<Rightarrow> u64 \<Rightarrow> nat \<Rightarrow> nat \<Rightarrow> 'd net \<Rightarrow> (i64 + u8 list) \<times> 'd net" where
  "tcp_recv_loop ops fd cap 0 s = (Inl (- EAGAIN), s)"
| "tcp_recv_loop ops fd cap (Suc k) s =
     (case conn fd s of
        None \<Rightarrow> (Inl (- EINVAL), s)
      | Some c \<Rightarrow>
          if c_rx c \<noteq> [] then
            (let n = min cap (length (c_rx c)) in
             (Inr (take n (c_rx c)), update_conn fd (\<lambda>c. c\<lparr>c_rx := drop n (c_rx c)\<rparr>) s))
          else if c_state c = CloseWait \<or> c_state c = Closed then (Inr [], s)
          else tcp_recv_loop ops fd cap k (snd (flush_pending_ack ops fd (snd (poll_once ops s)))))"

definition tcp_recv :: "'d nic_ops \<Rightarrow> u64 \<Rightarrow> nat \<Rightarrow> 'd net \<Rightarrow> (i64 + u8 list) \<times> 'd net" where
  "tcp_recv ops fd cap s =
     (if cap = 0 then (Inl (- EINVAL), s) else tcp_recv_loop ops fd cap DEFAULT_IO_POLLS s)"

section \<open>The invariant of the stack\<close>

text \<open>
  Bounded tables, one ARP binding per address, sender addresses of four bytes, one connection per descriptor,
  and every descriptor below the next one to hand out.
\<close>

definition srcs_ok :: "'d net \<Rightarrow> bool" where
  "srcs_ok s \<longleftrightarrow> (\<forall>d \<in> set (udp_rx s). length (d_src_ip d) = 4)"

definition net_inv :: "'d net \<Rightarrow> bool" where
  "net_inv s \<longleftrightarrow> arp_inv (arp_cache s) \<and> length (udp_rx s) \<le> MAX_UDP_QUEUE \<and> srcs_ok s
     \<and> distinct (map c_fd (conns s)) \<and> (\<forall>c \<in> set (conns s). c_fd c < next_fd s)"

definition same_fds :: "'d net \<Rightarrow> 'd net \<Rightarrow> bool" where
  "same_fds s s' \<longleftrightarrow> map c_fd (conns s') = map c_fd (conns s) \<and> next_fd s' = next_fd s"

lemma net_inv_init: "net_inv (net_init d)"
  by (simp add: net_inv_def net_init_def arp_inv_def srcs_ok_def)

lemma net_inv_fds:
  "net_inv s \<longleftrightarrow> arp_inv (arp_cache s) \<and> length (udp_rx s) \<le> MAX_UDP_QUEUE \<and> srcs_ok s
     \<and> distinct (map c_fd (conns s)) \<and> (\<forall>fd \<in> set (map c_fd (conns s)). fd < next_fd s)"
  by (auto simp: net_inv_def)

lemma same_fds_refl [simp]: "same_fds s s"
  by (simp add: same_fds_def)

lemma same_fds_trans: "same_fds s t \<Longrightarrow> same_fds t u \<Longrightarrow> same_fds s u"
  by (simp add: same_fds_def)

text \<open>A step of the stack below the socket calls: it keeps the invariant and the descriptors.\<close>

definition net_step :: "'d net \<Rightarrow> 'd net \<Rightarrow> bool" where
  "net_step s s' \<longleftrightarrow> same_fds s s' \<and> (net_inv s \<longrightarrow> net_inv s')"

lemma net_step_refl [simp]: "net_step s s"
  by (simp add: net_step_def)

lemma net_step_trans: "net_step s t \<Longrightarrow> net_step t u \<Longrightarrow> net_step s u"
  by (auto simp: net_step_def intro: same_fds_trans)

lemma net_step_frame:
  "arp_inv (arp_cache s) \<longrightarrow> arp_inv (arp_cache s') \<Longrightarrow> udp_rx s' = udp_rx s \<Longrightarrow>
   map c_fd (conns s') = map c_fd (conns s) \<Longrightarrow> next_fd s' = next_fd s \<Longrightarrow> net_step s s'"
  by (simp add: net_step_def same_fds_def net_inv_fds srcs_ok_def)

lemma ipv4_send_step: "net_step s (snd (ipv4_send ops m a p pl s))"
  using ipv4_send_frame [of ops m a p pl s] by (auto intro!: net_step_frame)

lemma send_tcp_packet_frame:
  "\<exists>d i. snd (send_tcp_packet ops m a sp dp sq ak f pl s) = s\<lparr>dev := d, next_id := i\<rparr>"
proof (cases "length pl > MAX_TCP_SEGMENT \<or> 20 + length pl > 1500")
  case True
  then have "snd (send_tcp_packet ops m a sp dp sq ak f pl s) = s" by (auto simp: send_tcp_packet_def Let_def)
  then show ?thesis by (auto intro!: exI [of _ "dev s"] exI [of _ "next_id s"])
next
  case False
  then show ?thesis using ipv4_send_frame by (simp add: send_tcp_packet_def Let_def)
qed

lemma send_tcp_packet_step: "net_step s (snd (send_tcp_packet ops m a sp dp sq ak f pl s))"
  using send_tcp_packet_frame [of ops m a sp dp sq ak f pl s] by (auto intro!: net_step_frame)

lemma update_conn_step: "(\<And>c. c_fd (f c) = c_fd c) \<Longrightarrow> net_step s (update_conn fd f s)"
  by (auto simp: update_conn_def tcp.map_key_update_first intro!: net_step_frame)

lemma flush_pending_ack_step: "net_step s (snd (flush_pending_ack ops fd s))"
proof -
  have "net_step s (snd (pending_ack_info fd s))"
    by (auto simp: pending_ack_info_def intro!: update_conn_step split: option.splits)
  then show ?thesis
    by (auto simp: flush_pending_ack_def split: prod.splits option.splits
        intro: net_step_trans send_tcp_packet_step)
qed

lemma ipv4_parse_src: "ipv4_parse buf = Some p \<Longrightarrow> length (p_src p) = 4"
  by (auto simp: ipv4_parse_def Let_def split: if_splits)

lemma udp_handle_srcs: "srcs_ok s \<Longrightarrow> length (p_src p) = 4 \<Longrightarrow> srcs_ok (udp_handle_packet p s)"
  using set_push_evict by (fastforce simp: udp_handle_packet_def srcs_ok_def Let_def)

lemma ipv4_handle_packet_step: "net_step s (ipv4_handle_packet ops f s)"
proof -
  have u: "net_step s (udp_handle_packet p s)" if "ipv4_parse (f_payload f) = Some p" for p
    using udp_handle_packet_frame [of p s] udp_handle_bounded [of s p] udp_handle_srcs [of s p] ipv4_parse_src [OF that]
    by (auto simp: net_step_def same_fds_def net_inv_fds)
  have t: "net_step s (tcp_handle_packet m p s)" for m p
    using tcp_handle_packet_frame [of m p s] tcp_handle_packet_fds [of m p s]
    by (auto intro!: net_step_frame)
  have i: "net_step s (icmp_handle_packet ops m p s)" for m p
    using icmp_handle_packet_frame [of ops m p s] by (auto intro!: net_step_frame)
  show ?thesis by (simp add: ipv4_handle_packet_def u t i split: option.splits)
qed

lemma arp_handle_packet_step: "net_step s (arp_handle_packet ops f s)"
  using arp_handle_packet_frame [of ops f s] by (auto intro!: net_step_frame)

text \<open>One poll keeps the invariant, whatever frame arrives.\<close>

lemma poll_once_step: "net_step s (snd (poll_once ops s))"
proof -
  obtain r d where "nic_recv_frame ops 4096 (dev s) = (r, d)" by fastforce
  then have rf: "recv_frame ops 4096 s = (r, s\<lparr>dev := d\<rparr>)" by (simp add: recv_frame_def)
  have 1: "net_step s (s\<lparr>dev := d\<rparr>)" by (auto intro!: net_step_frame)
  show ?thesis
    using 1 net_step_trans [OF 1 arp_handle_packet_step] net_step_trans [OF 1 ipv4_handle_packet_step]
    by (auto simp: poll_once_def rf split: option.splits)
qed

lemma resolve_loop_step: "net_step s (snd (resolve_loop ops a n s))"
  by (induction n arbitrary: s)
    (auto simp: Let_def split: option.splits intro: net_step_trans poll_once_step)

lemma send_request_step: "net_step s (snd (send_request ops a s))"
proof (cases "mac_addr ops s")
  case (Some m)
  let ?e = "eth_send ops (replicate 6 0xff) ETHERTYPE_ARP (arp_packet 1 m IPV4_ADDR (replicate 6 0) a) s"
  obtain d where "snd ?e = s\<lparr>dev := d\<rparr>"
    using eth_send_dev [of ops "replicate 6 0xff" ETHERTYPE_ARP "arp_packet 1 m IPV4_ADDR (replicate 6 0) a" s]
    by (metis prod.collapse)
  with Some show ?thesis by (auto simp: send_request_def intro!: net_step_frame)
qed (simp add: send_request_def)

lemma resolve_mac_step: "net_step s (snd (resolve_mac ops a n s))"
  using send_request_step [of s ops a]
  by (auto simp: resolve_mac_def split: option.splits prod.splits bool.splits
      intro: net_step_trans resolve_loop_step)

lemma drain_acks_step: "net_step s (drain_acks ops fd n s)"
proof (induction n arbitrary: s)
  case (Suc n)
  have "net_step s (snd (flush_pending_ack ops fd (snd (poll_once ops s))))"
    using poll_once_step flush_pending_ack_step by (rule net_step_trans)
  then show ?case using Suc.IH by (auto intro: net_step_trans)
qed simp

section \<open>Connecting\<close>

lemma conn_update:
  "(\<And>c. c_fd (f c) = c_fd c) \<Longrightarrow>
   conn fd (update_conn fd' f s) = (if fd = fd' then map_option f (conn fd s) else conn fd s)"
  unfolding conn_def update_conn_def by (simp add: tcp.lookup_update)

lemma conn_send_tcp_packet [simp]: "conn fd (snd (send_tcp_packet ops m a sp dp sq ak f pl s)) = conn fd s"
proof -
  obtain d i where "snd (send_tcp_packet ops m a sp dp sq ak f pl s) = s\<lparr>dev := d, next_id := i\<rparr>"
    using send_tcp_packet_frame [of ops m a sp dp sq ak f pl s] by auto
  then show ?thesis by (simp add: conn_def)
qed

text \<open>Flushing a pending acknowledgement clears one flag and nothing else of the connection.\<close>

lemma conn_flush_pending_ack:
  "conn fd (snd (flush_pending_ack ops fd s)) = map_option (\<lambda>c. c\<lparr>c_pending_ack := False\<rparr>) (conn fd s)"
proof -
  have *: "conn fd (snd (pending_ack_info fd s)) = map_option (\<lambda>c. c\<lparr>c_pending_ack := False\<rparr>) (conn fd s)"
    by (auto simp: pending_ack_info_def conn_update split: option.splits)
  then show ?thesis
    by (cases "pending_ack_info fd s")
      (auto simp: flush_pending_ack_def split: option.splits)
qed

lemma is_established_flush: "is_established fd (snd (flush_pending_ack ops fd s)) = is_established fd s"
  unfolding is_established_def conn_flush_pending_ack by (cases "conn fd s") simp_all

lemma drop_conn_fds:
  assumes "map c_fd (conns s) = fds @ [fd]" "fd \<notin> set fds"
  shows "map c_fd (conns (drop_conn fd s)) = fds"
proof -
  have "map c_fd (remove_first (\<lambda>c. c_fd c = fd) cs) = fds" if "map c_fd cs = fds @ [fd]" "fd \<notin> set fds" for cs fds
    using that by (induction cs arbitrary: fds) (auto simp: Cons_eq_append_conv)
  with assms show ?thesis by (simp add: drop_conn_def)
qed

lemma drop_conn_inv: "net_inv s \<Longrightarrow> net_inv (drop_conn fd s)"
  unfolding net_inv_def drop_conn_def srcs_ok_def
  by (auto intro: tcp.distinct_remove_first dest: subsetD [OF set_remove_first])

text \<open>
  The polling loop of \<open>connect\<close> started on a connection it added last: on an error that connection
  is gone again, on success it is established; the others are still there.
\<close>

lemma connect_loop_outcome:
  assumes "connect_loop ops fd dp n poll s = (r, s')"
    and "map c_fd (conns s) = fds @ [fd]" "fd \<notin> set fds" "net_inv s"
  shows "net_inv s' \<and> next_fd s' = next_fd s \<and>
    (case r of Inl e \<Rightarrow> e \<in> {- EAGAIN, - EIO} \<and> map c_fd (conns s') = fds
     | Inr f \<Rightarrow> f = fd \<and> is_established fd s' \<and> map c_fd (conns s') = fds @ [fd])"
  using assms
proof (induction n arbitrary: poll s)
  case 0
  then show ?case by (auto simp: drop_conn_fds drop_conn_inv) (simp add: drop_conn_def)
next
  case (Suc n)
  let ?t = "snd (poll_once ops s)"
  have t: "map c_fd (conns ?t) = fds @ [fd]" "next_fd ?t = next_fd s" "net_inv ?t"
    using poll_once_step [of s ops] Suc.prems by (auto simp: net_step_def same_fds_def)
  show ?case
  proof (cases "is_established fd ?t")
    case True
    obtain b u where u: "flush_pending_ack ops fd ?t = (b, u)" by fastforce
    have fu: "map c_fd (conns u) = fds @ [fd]" "next_fd u = next_fd s" "net_inv u"
      using flush_pending_ack_step [of ?t ops fd] u t by (auto simp: net_step_def same_fds_def)
    have "is_established fd u" using is_established_flush [of fd ops ?t] u True by simp
    with True Suc.prems(1,3) u fu show ?thesis
      by (cases b) (auto simp: Let_def drop_conn_fds drop_conn_inv, simp_all add: drop_conn_def)
  next
    case False
    show ?thesis
    proof (cases "is_closed fd ?t")
      case True
      with False Suc.prems(1,3) t show ?thesis
        by (auto simp: Let_def drop_conn_fds drop_conn_inv) (simp add: drop_conn_def)
    next
      case nc: False
      let ?u = "if poll \<noteq> 0 \<and> poll mod SYN_RETRANSMIT_EVERY_POLLS = 0
                then (case syn_retransmit_info fd ?t of
                        Some (m, i, port, sq) \<Rightarrow> snd (send_tcp_packet ops m i port dp sq 0 TCP_SYN [] ?t)
                      | None \<Rightarrow> ?t)
                else ?t"
      have "net_step ?t ?u" using send_tcp_packet_step by (auto split: option.splits)
      then have u: "map c_fd (conns ?u) = fds @ [fd]" "next_fd ?u = next_fd s" "net_inv ?u"
        using t by (auto simp: net_step_def same_fds_def)
      have "connect_loop ops fd dp n (poll + 1) ?u = (r, s')"
        using Suc.prems(1) False nc by (simp add: Let_def)
      from Suc.IH [OF this u(1) Suc.prems(3) u(3)] u(2) show ?thesis by simp
    qed
  qed
qed

section \<open>What the sender puts on the wire reaches the receiver's queue\<close>

definition udp_frame :: "mac \<Rightarrow> mac \<Rightarrow> u16 \<Rightarrow> ip \<Rightarrow> u16 \<Rightarrow> u16 \<Rightarrow> u8 list \<Rightarrow> u8 list" where
  "udp_frame dst_mac src_mac ident dst_ip dst_port src_port data =
     eth_bytes dst_mac src_mac ETHERTYPE_IPV4
       (ipv4_bytes ident dst_ip IPV4_PROTO_UDP (udp_segment dst_ip dst_port src_port data))"

lemma send_to_frame:
  assumes "dst_ip \<noteq> [0, 0, 0, 0]" "length dst_ip = 4" "dst_port \<noteq> 0" "src_port \<noteq> 0"
    and "data \<noteq> []" "length data \<le> MAX_UDP_PAYLOAD"
    and "is_ready ops s" "link_up ops s" "mac_addr ops s = Some src_mac" "length src_mac = 6"
    and "arp_lookup (next_hop_for dst_ip) s = Some dst_mac" "length dst_mac = 6"
  shows "send_to ops dst_ip dst_port src_port data t s =
    (case nic_send_frame ops (udp_frame dst_mac src_mac (next_id s) dst_ip dst_port src_port data) (dev s) of
       (ok, d) \<Rightarrow> (if ok then Inr (length data) else Inl (- EIO), s\<lparr>next_id := next_id s + 1, dev := d\<rparr>))"
proof -
  have "length (udp_segment dst_ip dst_port src_port data) \<le> 1566"
    using assms(6) by (simp add: MAX_UDP_PAYLOAD_def)
  note sent = ipv4_send_eq [OF this assms(2,12,9,10)]
  show ?thesis
    using assms
    by (auto simp: send_to_def resolve_mac_def sent send_frame_def udp_frame_def Let_def split: prod.splits)
qed

lemma poll_udp_frame:
  assumes "dst_ip \<in> {IPV4_ADDR, [255, 255, 255, 255]}" "length data \<le> MAX_UDP_PAYLOAD"
    and "length dst_mac = 6" "length src_mac = 6"
    and "is_ready ops s"
    and "nic_recv_frame ops 4096 (dev s)
      = (Some (udp_frame dst_mac src_mac ident dst_ip dst_port src_port data), d)"
    and "is_our_mac ops (s\<lparr>dev := d\<rparr>) dst_mac \<or> is_broadcast_mac dst_mac"
  shows "poll_once ops s = (True, s\<lparr>dev := d, udp_rx := push_evict MAX_UDP_QUEUE
    \<lparr>d_src_ip = IPV4_ADDR, d_src_port = src_port, d_dst_port = dst_port, d_data = data\<rparr> (udp_rx s)\<rparr>)"
proof -
  let ?seg = "udp_segment dst_ip dst_port src_port data"
  let ?ip = "ipv4_bytes ident dst_ip IPV4_PROTO_UDP ?seg"
  let ?F = "udp_frame dst_mac src_mac ident dst_ip dst_port src_port data"
  have l: "length ?seg \<le> 1566" "length dst_ip = 4" "length data \<le> 65000"
    using assms(1,2) by (auto simp: MAX_UDP_PAYLOAD_def)
  have pe: "eth_parse ?F = Some \<lparr>f_dst = dst_mac, f_src = src_mac, f_ethertype = ETHERTYPE_IPV4,
      f_payload = ?ip @ replicate (46 - length ?ip) 0\<rparr>"
    unfolding udp_frame_def by (rule eth_parse_bytes [OF assms(3,4)])
  have "ipv4_parse (?ip @ replicate (46 - length ?ip) 0) = Some \<lparr>p_src = IPV4_ADDR, p_dst = dst_ip,
      p_proto = IPV4_PROTO_UDP, p_ttl = 64, p_payload = ?seg\<rparr>"
    by (rule ipv4_parse_bytes [OF l(1,2)])
  moreover have "udp_handle_packet \<lparr>p_src = IPV4_ADDR, p_dst = dst_ip, p_proto = IPV4_PROTO_UDP,
        p_ttl = 64, p_payload = ?seg\<rparr> (s\<lparr>dev := d\<rparr>)
      = s\<lparr>dev := d, udp_rx := push_evict MAX_UDP_QUEUE
          \<lparr>d_src_ip = IPV4_ADDR, d_src_port = src_port, d_dst_port = dst_port, d_data = data\<rparr> (udp_rx s)\<rparr>"
    by (subst udp_handle_segment [OF l(2,3), where dst_port = dst_port and src_port = src_port]) simp_all
  ultimately have h: "ipv4_handle_packet ops \<lparr>f_dst = dst_mac, f_src = src_mac, f_ethertype = ETHERTYPE_IPV4,
      f_payload = ?ip @ replicate (46 - length ?ip) 0\<rparr> (s\<lparr>dev := d\<rparr>)
      = s\<lparr>dev := d, udp_rx := push_evict MAX_UDP_QUEUE
          \<lparr>d_src_ip = IPV4_ADDR, d_src_port = src_port, d_dst_port = dst_port, d_data = data\<rparr> (udp_rx s)\<rparr>"
    using assms(1) by (auto simp: ipv4_handle_packet_def is_our_ipv4_def IPV4_PROTO_UDP_def
        IPV4_PROTO_ICMP_def IPV4_PROTO_TCP_def)
  have "recv_frame ops 4096 s = (Some ?F, s\<lparr>dev := d\<rparr>)" using assms(6) by (simp add: recv_frame_def)
  moreover have "length ?F \<noteq> 0" using assms(3) by (auto simp: udp_frame_def eth_bytes_def)
  ultimately show ?thesis
    using assms(5,7) pe h by (auto simp: poll_once_def ETHERTYPE_ARP_def ETHERTYPE_IPV4_def)
qed

end
