(* ===== verification/Net_Properties.thy ===== *)
theory Net_Properties
  imports Net_Stack
begin

text \<open>
  What the network stack guarantees across its layers. The witnesses run on a loopback NIC whose
  device state is the queue of frames in flight.
\<close>

section \<open>A loopback device for the witnesses\<close>

definition loop_mac :: mac where "loop_mac = [0x52, 0x54, 0, 0, 0, 1]"

definition loop_ops :: "u8 list list nic_ops" where
  "loop_ops = \<lparr>nic_is_ready = (\<lambda>d. True), nic_mac_addr = (\<lambda>d. Some loop_mac), nic_link_up = (\<lambda>d. True),
     nic_mtu = (\<lambda>d. None),
     nic_recv_frame = (\<lambda>cap d. case d of [] \<Rightarrow> (None, []) | f # fs \<Rightarrow> (Some (take cap f), fs)),
     nic_send_frame = (\<lambda>f d. (True, d @ [f]))\<rparr>"

definition loop_net :: "u8 list list net" where
  "loop_net = (net_init [])\<lparr>arp_cache := [\<lparr>ae_ip = IPV4_ADDR, ae_mac = loop_mac\<rparr>]\<rparr>"

definition loop_conn :: tcp_connection where
  "loop_conn = \<lparr>c_fd = 1, c_state = Established, c_local_port = 49152, c_remote_port = 80,
     c_remote_ip = [10, 0, 2, 2], c_remote_mac = loop_mac, c_iss = 0x10000000, c_snd_nxt = 0x10000001,
     c_rcv_nxt = 100, c_pending_ack = False, c_rx = []\<rparr>"

definition loop_hdr :: "u32 \<Rightarrow> u16 \<Rightarrow> tcp_header" where
  "loop_hdr sq flags = \<lparr>h_src_port = 80, h_dst_port = 49152, h_seq = sq, h_ack = 0x10000001,
     h_data_offset = 20, h_flags = flags, h_window = 0\<rparr>"

lemma length_loop_mac [simp]: "length loop_mac = 6"
  by (simp add: loop_mac_def)

lemma loop_mac_unicast: "loop_mac \<noteq> replicate 6 0" "loop_mac \<noteq> replicate 6 0xff"
  by code_simp+

section \<open>Checksums\<close>

lemma word_sum_change:
  assumes "even (length pre)"
  shows "word_sum (pre @ be16 w @ post) = word_sum pre + unat w + word_sum post"
  using assms by (simp add: word_sum_append word_sum_be16)

lemma add_mod_cancel:
  fixes a b t m :: nat
  assumes "(t + a) mod m = (t + b) mod m"
  shows "a mod m = b mod m"
proof -
  have "int (t + a) mod int m = int (t + b) mod int m" using assms by (metis of_nat_mod)
  then have "int m dvd int (t + a) - int (t + b)" by (simp only: mod_eq_dvd_iff)
  then have "int a mod int m = int b mod int m" by (simp add: mod_eq_dvd_iff)
  then show ?thesis by (metis of_nat_mod of_nat_eq_iff)
qed

lemma checksum_zero_word:
  assumes "even (length a)" "length a + length b \<le> 65535"
  shows "internet_checksum (a @ be16 x @ b) = 0
    \<longleftrightarrow> word_sum a + word_sum b + unat x \<noteq> 0 \<and> (word_sum a + word_sum b + unat x) mod 65535 = 0"
proof -
  let ?t = "word_sum a + word_sum b"
  have "?t \<le> 65535 * ((length a + 1) div 2) + 65535 * ((length b + 1) div 2)"
    by (intro add_mono word_sum_bound)
  also have "\<dots> \<le> 65535 * 32769" using assms(2) by linarith
  finally have t: "?t \<le> 65535 * 32769" .
  have "unat x < 2 ^ LENGTH(16)" by (rule unsigned_less)
  then have "unat (of_nat (?t + unat x) :: u32) = ?t + unat x"
    using t by (simp only: unat_of_nat) simp
  moreover have "internet_checksum (a @ be16 x @ b) = NOT (ucast (fold_carries (of_nat (?t + unat x))) :: u16)"
    by (simp add: internet_checksum_def add_words_eq word_sum_change [OF assms(1)] algebra_simps)
  ultimately show ?thesis
    using checksum_zero_iff [of "of_nat (?t + unat x)"] by (simp flip: unat_eq_zero)
qed

text \<open>Of two words that are congruent modulo 65535 one is zero and the other \<open>0xffff\<close>.\<close>

lemma u16_congruent:
  fixes v w :: u16
  assumes "unat w mod 65535 = unat v mod 65535" "w \<noteq> v"
  shows "{v, w} = {0, 0xffff}"
proof -
  have "unat w < 2 ^ LENGTH(16)" "unat v < 2 ^ LENGTH(16)" by (rule unsigned_less)+
  then have "unat w \<le> 65535" "unat v \<le> 65535" by simp_all
  moreover have "unat w \<noteq> unat v" using assms(2) by (simp add: word_unat_eq_iff)
  ultimately have "unat w = 0 \<and> unat v = 65535 \<or> unat w = 65535 \<and> unat v = 0"
    using assms(1) by (cases "unat w = 65535"; cases "unat v = 65535") auto
  then have "w = 0 \<and> v = 0xffff \<or> w = 0xffff \<and> v = 0" by (auto simp: word_unat_eq_iff)
  then show ?thesis by auto
qed

text \<open>
  C39: the sender writes the checksum of the header into its zeroed field, and the receiver's sum over the
  result is zero. When any one 16-bit word of that message, a word of the data or the checksum itself, at any even
  offset, is altered in transit from \<open>v\<close> to \<open>w\<close>, the sum is not zero; the one exception is a change between
  the two representations of zero, \<open>0\<close> and \<open>0xffff\<close>.
\<close>

theorem checksum_detects_word_error:
  assumes "even (length pre)" and "length pre + length post \<le> 65535"
    and "c = internet_checksum (pre @ [0, 0] @ post)" and "pre @ be16 c @ post = a @ be16 v @ b" and "even (length a)"
    and "w \<noteq> v" and "{v, w} \<noteq> {0, 0xffff}"
  shows "internet_checksum (pre @ be16 c @ post) = 0 \<and> internet_checksum (a @ be16 w @ b) \<noteq> 0"
proof
  show c0: "internet_checksum (pre @ be16 c @ post) = 0"
    using assms(1-3) by (rule internet_checksum_verifies)
  have "length (pre @ be16 c @ post) = length (a @ be16 v @ b)" using assms(4) by simp
  then have l: "length a + length b \<le> 65535" using assms(2) by simp
  show "internet_checksum (a @ be16 w @ b) \<noteq> 0"
  proof
    let ?t = "word_sum a + word_sum b"
    assume "internet_checksum (a @ be16 w @ b) = 0"
    then have "(?t + unat w) mod 65535 = (?t + unat v) mod 65535"
      using c0 unfolding assms(4) checksum_zero_word [OF assms(5) l] by simp
    then have "unat w mod 65535 = unat v mod 65535" by (rule add_mod_cancel)
    from u16_congruent [OF this assms(6)] assms(7) show False by blast
  qed
qed

text \<open>The first word of a small message is altered, and its checksum is not.\<close>

theorem checksum_detects_word_error_witness:
  "internet_checksum ([0x45, 0] @ be16 0xb0ff @ [10, 0]) = 0 \<and> internet_checksum ([] @ be16 0x4501 @ [0xb0, 0xff, 10, 0]) \<noteq> 0"
proof (rule checksum_detects_word_error)
  show "0xb0ff = internet_checksum ([0x45, 0] @ [0, 0] @ [10, 0])" by code_simp
  show "[0x45, 0] @ be16 0xb0ff @ [10, 0] = [] @ be16 0x4500 @ [0xb0, 0xff, 10, 0]" by code_simp
  show "0x4501 \<noteq> (0x4500 :: u16)" "{0x4500, 0x4501 :: u16} \<noteq> {0, 0xffff}" by (auto simp: doubleton_eq_iff)
qed simp_all

section \<open>Framing\<close>

text \<open>
  A frame that \<open>eth_build\<close> writes is at least 60 bytes long and parses back to its addresses,
  type and payload, the payload followed by the padding zeros; it refuses only a buffer that is too
  small.
\<close>

lemma eth_build_parse:
  assumes "length dst = 6" and "length src = 6"
  shows "case eth_build dst src et payload out of
      None \<Rightarrow> length out < max (14 + length payload) 60
    | Some (n, frame) \<Rightarrow> n = max (14 + length payload) 60 \<and> n \<le> length out \<and> length frame = length out
        \<and> eth_parse (take n frame) = Some \<lparr>f_dst = dst, f_src = src, f_ethertype = et,
             f_payload = payload @ replicate (46 - length payload) 0\<rparr>"
  using assms by (auto simp: eth_build_eq length_eth_bytes eth_parse_bytes)

lemma eth_build_parse_example:
  "\<exists>frame. eth_build loop_mac loop_mac 0x0806 [1, 2] (replicate 64 9) = Some (60, frame)
     \<and> eth_parse (take 60 frame) = Some \<lparr>f_dst = loop_mac, f_src = loop_mac, f_ethertype = 0x0806,
          f_payload = [1, 2] @ replicate 44 0\<rparr>"
proof -
  have l: "length loop_mac = 6" by (simp add: loop_mac_def)
  have "length (replicate 64 (9 :: u8)) = 64" by (rule length_replicate)
  with eth_build_parse [OF l l, where et = "0x0806" and payload = "[1, 2]" and out = "replicate 64 9"] show ?thesis
    by (cases "eth_build loop_mac loop_mac 0x0806 [1, 2] (replicate 64 9)") (auto)
qed

text \<open>
  What \<open>ipv4_send\<close> hands to the driver parses, on the receiver's side and behind the Ethernet
  padding, to exactly the protocol, addresses and payload that were sent.
\<close>

lemma ipv4_send_parse:
  assumes "length payload \<le> 1566" and "length dst_ip = 4" and "length dst_mac = 6"
    and "mac_addr ops s = Some src" and "length src = 6"
  shows "\<exists>F fr. ipv4_send ops dst_mac dst_ip proto payload s
        = send_frame ops F (s\<lparr>next_id := next_id s + 1\<rparr>)
      \<and> eth_parse F = Some fr \<and> f_dst fr = dst_mac \<and> f_src fr = src \<and> f_ethertype fr = ETHERTYPE_IPV4
      \<and> ipv4_parse (f_payload fr) = Some \<lparr>p_src = IPV4_ADDR, p_dst = dst_ip, p_proto = proto, p_ttl = 64,
            p_payload = payload\<rparr>"
  unfolding ipv4_send_eq [OF assms] eth_parse_bytes [OF assms(3,5)]
  using eth_parse_bytes [OF assms(3,5)] ipv4_parse_bytes [OF assms(1,2)] by fastforce

lemma ipv4_send_parse_example:
  "\<exists>F fr. ipv4_send loop_ops loop_mac [10, 0, 2, 2] 17 [1, 2, 3] loop_net
        = send_frame loop_ops F (loop_net\<lparr>next_id := next_id loop_net + 1\<rparr>)
      \<and> eth_parse F = Some fr \<and> f_dst fr = loop_mac \<and> f_src fr = loop_mac \<and> f_ethertype fr = ETHERTYPE_IPV4
      \<and> ipv4_parse (f_payload fr) = Some \<lparr>p_src = IPV4_ADDR, p_dst = [10, 0, 2, 2], p_proto = 17, p_ttl = 64,
            p_payload = [1, 2, 3]\<rparr>"
  by (rule ipv4_send_parse) (simp_all add: mac_addr_def loop_ops_def)

section \<open>Address resolution\<close>

text \<open>
  A received binding is what the next lookup returns, other addresses keep theirs unless the
  full cache evicts the oldest, and the cache stays bounded with one binding per address.
\<close>

lemma arp_cache_contract:
  assumes "arp_inv (arp_cache s)" and "arp_valid addr m" and "other \<noteq> addr"
    and "length (arp_cache s) < ARP_MAX \<or> arp_lookup addr s \<noteq> None \<or> ae_ip (hd (arp_cache s)) \<noteq> other"
  shows "arp_lookup addr (arp_update addr m s) = Some m
    \<and> arp_lookup other (arp_update addr m s) = arp_lookup other s
    \<and> arp_inv (arp_cache (arp_update addr m s))"
  using assms arp_lookup_update arp_lookup_update_other arp_update_inv by blast

lemma arp_cache_contract_example:
  "arp_lookup [10, 0, 2, 2] (arp_update [10, 0, 2, 2] loop_mac loop_net) = Some loop_mac
    \<and> arp_lookup IPV4_ADDR (arp_update [10, 0, 2, 2] loop_mac loop_net) = arp_lookup IPV4_ADDR loop_net
    \<and> arp_inv (arp_cache (arp_update [10, 0, 2, 2] loop_mac loop_net))"
  by (rule arp_cache_contract)
    (simp_all add: loop_net_def net_init_def arp_inv_def arp_valid_def loop_mac_unicast IPV4_ADDR_def ARP_MAX_def)

lemma resolve_loop_lookup: "resolve_loop ops addr n s = (Some m, s') \<Longrightarrow> arp_lookup addr s' = Some m"
  by (induction n arbitrary: s) (auto simp: Let_def split: option.splits)

text \<open>
  An address that \<open>resolve_mac\<close> returns is the one the cache binds to the requested IP at that
  moment, and with a hit nothing is sent and no state changes.
\<close>

lemma resolve_mac_sound:
  assumes "resolve_mac ops addr polls s = (Some m, s')"
  shows "arp_lookup addr s' = Some m \<and> (arp_lookup addr s \<noteq> None \<longrightarrow> s' = s)"
  using assms
  by (auto simp: resolve_mac_def split: option.splits prod.splits bool.splits dest: resolve_loop_lookup)

lemma resolve_mac_sound_example:
  "resolve_mac loop_ops IPV4_ADDR 3 loop_net = (Some loop_mac, loop_net) \<and> arp_lookup IPV4_ADDR loop_net = Some loop_mac"
proof -
  have r: "resolve_mac loop_ops IPV4_ADDR 3 loop_net = (Some loop_mac, loop_net)"
    by (simp add: resolve_mac_def arp_lookup_def loop_net_def)
  with resolve_mac_sound [OF this] show ?thesis by simp
qed

section \<open>UDP\<close>

lemma port_queue_push:
  assumes "length (udp_rx s) < MAX_UDP_QUEUE"
  shows "port_queue port (s\<lparr>dev := d, udp_rx := push_evict MAX_UDP_QUEUE x (udp_rx s)\<rparr>)
    = port_queue port s @ (if d_dst_port x = port then [x] else [])"
  using assms by (simp add: port_queue_def push_evict_def)

lemma udp_take_some:
  assumes "port_queue port s = x # q"
  shows "\<exists>s'. udp_take port cap s = (Some (d_src_ip x, d_src_port x, take cap (d_data x)), s') \<and> port_queue port s' = q"
  using udp_take_fifo [of port cap s _ _] assms by (cases "udp_take port cap s") fastforce

text \<open>
  End to end. \<open>send_to\<close> hands the driver exactly one frame; a stack on the destination address (or
  any, for the broadcast address) whose driver delivers that frame returns the sender's address, the
  source port and the payload, cut to the caller's buffer, from \<open>recv_from\<close> on the destination port.
\<close>

lemma udp_end_to_end:
  assumes "dst_ip \<in> {IPV4_ADDR, [255, 255, 255, 255]}" and "dst_port \<noteq> 0" and "src_port \<noteq> 0"
    and "data \<noteq> []" and "length data \<le> MAX_UDP_PAYLOAD"
    and "is_ready ops s" and "link_up ops s" and "mac_addr ops s = Some src_mac" and "length src_mac = 6"
    and "arp_lookup (next_hop_for dst_ip) s = Some dst_mac" and "length dst_mac = 6"
    and "is_ready rops r" and "length (udp_rx r) < MAX_UDP_QUEUE" and "port_queue dst_port r = []"
    and "nic_recv_frame rops 4096 (dev r)
      = (Some (udp_frame dst_mac src_mac (next_id s) dst_ip dst_port src_port data), e)"
    and "is_our_mac rops (r\<lparr>dev := e\<rparr>) dst_mac \<or> is_broadcast_mac dst_mac"
    and "0 < cap" and "1 < polls"
  shows "send_to ops dst_ip dst_port src_port data t s
      = (case nic_send_frame ops (udp_frame dst_mac src_mac (next_id s) dst_ip dst_port src_port data) (dev s) of
           (ok, d) \<Rightarrow> (if ok then Inr (length data) else Inl (- EIO), s\<lparr>next_id := next_id s + 1, dev := d\<rparr>))
    \<and> (\<exists>r'. recv_from rops dst_port cap polls r
      = (Inr (IPV4_ADDR, src_port, take cap data), r') \<and> port_queue dst_port r' = [])"
proof
  have ip: "dst_ip \<noteq> [0, 0, 0, 0]" "length dst_ip = 4" using assms(1) by (auto simp: IPV4_ADDR_def)
  show "send_to ops dst_ip dst_port src_port data t s
      = (case nic_send_frame ops (udp_frame dst_mac src_mac (next_id s) dst_ip dst_port src_port data) (dev s) of
           (ok, d) \<Rightarrow> (if ok then Inr (length data) else Inl (- EIO), s\<lparr>next_id := next_id s + 1, dev := d\<rparr>))"
    by (rule send_to_frame [OF ip assms(2-11)])
  let ?x = "\<lparr>d_src_ip = IPV4_ADDR, d_src_port = src_port, d_dst_port = dst_port, d_data = data\<rparr>"
  let ?r = "r\<lparr>dev := e, udp_rx := push_evict MAX_UDP_QUEUE ?x (udp_rx r)\<rparr>"
  have poll: "poll_once rops r = (True, ?r)"
    by (rule poll_udp_frame [OF assms(1,5,11,9,12,15,16)])
  have q: "port_queue dst_port ?r = [?x]" using port_queue_push [OF assms(13)] assms(14) by simp
  from udp_take_some [OF q, of cap] obtain r' where
    r': "udp_take dst_port cap ?r = (Some (IPV4_ADDR, src_port, take cap data), r')" "port_queue dst_port r' = []"
    by auto
  have none: "udp_take dst_port cap r = (None, r)"
    using assms(14) by (simp add: udp_take_def port_queue_def find_filter)
  have "1 < unat polls" using assms(18) by (simp add: word_less_nat_alt)
  then obtain k where k: "unat polls = Suc (Suc k)" "polls \<noteq> 0"
    using that [of "unat polls - 2"] by fastforce
  then have "recv_from rops dst_port cap polls r = (Inr (IPV4_ADDR, src_port, take cap data), r')"
    using assms(2,17) none poll r'(1) by (simp add: recv_from_def)
  with r'(2) show "\<exists>r'. recv_from rops dst_port cap polls r
      = (Inr (IPV4_ADDR, src_port, take cap data), r') \<and> port_queue dst_port r' = []" by blast
qed

lemma loop_recv:
  "length F \<le> 4096 \<Longrightarrow> nic_recv_frame loop_ops 4096 (dev (loop_net\<lparr>dev := [F]\<rparr>)) = (Some F, [])"
  by (simp add: loop_ops_def)

lemma length_udp_frame:
  assumes "length a = 6" "length b = 6" "length i = 4" "length data \<le> MAX_UDP_PAYLOAD"
  shows "length (udp_frame a b ident i p q data) \<le> 4096"
  using assms
  by (simp add: udp_frame_def length_eth_bytes ipv4_bytes_def Let_def MAX_UDP_PAYLOAD_def)

lemma udp_end_to_end_example:
  "\<exists>F. send_to loop_ops IPV4_ADDR 53 4000 [1, 2, 3] 0 loop_net
      = (Inr (length [1, 2, 3 :: u8]), loop_net\<lparr>next_id := next_id loop_net + 1, dev := [F]\<rparr>)
    \<and> (\<exists>r'. recv_from loop_ops 53 2 10 (loop_net\<lparr>dev := [F]\<rparr>)
          = (Inr (IPV4_ADDR, 4000, take 2 [1, 2, 3]), r') \<and> port_queue 53 r' = [])"
proof -
  let ?F = "udp_frame loop_mac loop_mac (next_id loop_net) IPV4_ADDR 53 4000 [1, 2, 3]"
  let ?r = "loop_net\<lparr>dev := [?F]\<rparr>"
  have hop: "next_hop_for IPV4_ADDR = IPV4_ADDR" by (simp add: next_hop_for_def same_subnet_def list_all_iff)
  have arp: "arp_lookup (next_hop_for IPV4_ADDR) loop_net = Some loop_mac"
    by (simp add: hop arp_lookup_def loop_net_def)
  have r: "nic_recv_frame loop_ops 4096 (dev ?r) = (Some ?F, [])"
    by (rule loop_recv) (simp add: length_udp_frame MAX_UDP_PAYLOAD_def)
  have "send_to loop_ops IPV4_ADDR 53 4000 [1, 2, 3] 0 loop_net
      = (case nic_send_frame loop_ops ?F (dev loop_net) of
           (ok, d) \<Rightarrow> (if ok then Inr (length [1, 2, 3 :: u8]) else Inl (- EIO), loop_net\<lparr>next_id := next_id loop_net + 1, dev := d\<rparr>))
    \<and> (\<exists>r'. recv_from loop_ops 53 2 10 ?r = (Inr (IPV4_ADDR, 4000, take 2 [1, 2, 3]), r') \<and> port_queue 53 r' = [])"
    by (rule udp_end_to_end [OF _ _ _ _ _ _ _ _ length_loop_mac arp length_loop_mac _ _ _ r])
      (simp_all add: MAX_UDP_PAYLOAD_def MAX_UDP_QUEUE_def is_ready_def link_up_def mac_addr_def is_our_mac_def
        port_queue_def loop_ops_def loop_net_def net_init_def)
  then show ?thesis by (intro exI [of _ ?F]) (simp add: loop_ops_def loop_net_def net_init_def)
qed

text \<open>
  Each port's datagrams are delivered in arrival order, one per call, without touching other
  ports; a call that finds none for its port takes nothing.
\<close>

lemma udp_fifo_per_port:
  assumes "udp_take port cap s = (r, s')"
  shows "port_queue port s' = tl (port_queue port s)
    \<and> (\<forall>other. other \<noteq> port \<longrightarrow> port_queue other s' = port_queue other s)
    \<and> r = (case port_queue port s of [] \<Rightarrow> None
         | d # _ \<Rightarrow> Some (d_src_ip d, d_src_port d, take cap (d_data d)))"
  using udp_take_fifo [OF assms] by simp

lemma udp_fifo_per_port_example:
  "\<exists>s' :: u8 list list net. port_queue 53 s' = []
    \<and> port_queue 80 s' = [\<lparr>d_src_ip = IPV4_ADDR, d_src_port = 9, d_dst_port = 80, d_data = [8]\<rparr>]"
proof -
  let ?s = "loop_net\<lparr>udp_rx := [\<lparr>d_src_ip = IPV4_ADDR, d_src_port = 9, d_dst_port = 53, d_data = [7]\<rparr>,
     \<lparr>d_src_ip = IPV4_ADDR, d_src_port = 9, d_dst_port = 80, d_data = [8]\<rparr>]\<rparr>"
  obtain r s' where "udp_take 53 4 ?s = (r, s')" by fastforce
  from udp_fifo_per_port [OF this] have "port_queue 53 s' = tl (port_queue 53 ?s)"
    "port_queue 80 s' = port_queue 80 ?s" by auto
  then show ?thesis by (intro exI [of _ s']) (simp add: port_queue_def)
qed

section \<open>TCP\<close>

text \<open>
  A segment \<open>send_tcp_packet\<close> builds carries a checksum that the receiver accepts and parses back
  to its ports, numbers, flags and payload.
\<close>

lemma tcp_segment_roundtrip:
  assumes "length dst_ip = 4" and "length payload \<le> MAX_TCP_SEGMENT" and "flags < 256"
  shows "tcp_checksum IPV4_ADDR dst_ip (tcp_segment dst_ip sp dp sq ak flags payload) = 0
    \<and> parse_tcp (tcp_segment dst_ip sp dp sq ak flags payload)
      = Some (\<lparr>h_src_port = sp, h_dst_port = dp, h_seq = sq, h_ack = ak, h_data_offset = 20,
          h_flags = flags, h_window = TCP_WINDOW\<rparr>, payload)"
  using assms tcp_segment_verifies [of dst_ip payload] parse_tcp_segment [of flags]
  by (simp add: MAX_TCP_SEGMENT_def)

lemma tcp_segment_roundtrip_example:
  "tcp_checksum IPV4_ADDR [10, 0, 2, 2] (tcp_segment [10, 0, 2, 2] 1 80 7 9 0x18 [1, 2, 3]) = 0
    \<and> parse_tcp (tcp_segment [10, 0, 2, 2] 1 80 7 9 0x18 [1, 2, 3])
      = Some (\<lparr>h_src_port = 1, h_dst_port = 80, h_seq = 7, h_ack = 9, h_data_offset = 20,
          h_flags = 0x18, h_window = TCP_WINDOW\<rparr>, [1, 2, 3])"
  by (rule tcp_segment_roundtrip) (simp_all add: MAX_TCP_SEGMENT_def)

text \<open>
  C30: the connection state changes only along the handler's transitions: a reset closes, a matching
  SYN-ACK establishes a connection that sent its SYN, a FIN moves an open one to \<open>CloseWait\<close>;
  nothing reopens a closed connection.
\<close>

theorem tcp_state_machine:
  "tcp_transition hdr (c_snd_nxt c) (c_state c) (c_state (tcp_input hdr pl m i c))
    \<and> (c_state c \<noteq> Established \<and> c_state (tcp_input hdr pl m i c) = Established
         \<longrightarrow> c_state c = SynSent \<and> h_ack hdr = c_snd_nxt c \<and> c_rcv_nxt (tcp_input hdr pl m i c) = h_seq hdr + 1)
    \<and> (c_state c = Closed \<longrightarrow> c_state (tcp_input hdr pl m i c) = Closed)"
proof (intro conjI impI)
  show t: "tcp_transition hdr (c_snd_nxt c) (c_state c) (c_state (tcp_input hdr pl m i c))"
    by (rule tcp_input_transition)
  assume "c_state c \<noteq> Established \<and> c_state (tcp_input hdr pl m i c) = Established"
  then show "c_state c = SynSent" "h_ack hdr = c_snd_nxt c"
      "c_rcv_nxt (tcp_input hdr pl m i c) = h_seq hdr + 1"
    using t by (auto simp: tcp_input_def Let_def split: tcp_state.splits if_splits elim: tcp_transition.cases)
qed (rule closed_is_final)

theorem tcp_state_machine_witness:
  "c_state loop_conn = Established \<and> c_state (tcp_input (loop_hdr 100 TCP_RST) [] loop_mac IPV4_ADDR loop_conn) = Closed
    \<and> c_state (tcp_input (loop_hdr 100 TCP_ACK) [5] loop_mac IPV4_ADDR
         (tcp_input (loop_hdr 100 TCP_RST) [] loop_mac IPV4_ADDR loop_conn)) = Closed"
proof -
  have c: "c_state (tcp_input (loop_hdr 100 TCP_RST) [] loop_mac IPV4_ADDR loop_conn) = Closed"
    by (simp add: tcp_input_def Let_def loop_hdr_def TCP_RST_def)
  with tcp_state_machine [of "loop_hdr 100 TCP_ACK"
      "tcp_input (loop_hdr 100 TCP_RST) [] loop_mac IPV4_ADDR loop_conn" "[5]" loop_mac IPV4_ADDR]
  show ?thesis by (simp add: loop_conn_def)
qed

text \<open>
  C4: whatever order the peer's data segments arrive in, duplicated, delayed or lost, an established
  connection's receive buffer is a prefix of the peer's byte stream and the acknowledgement number
  names its end.
\<close>

theorem tcp_delivers_stream_prefix:
  assumes "c_state c = Established" and "c_rx c = []" and "c_rcv_nxt c = irs" and "length S < 2 ^ 32"
    and "\<forall>seg \<in> set segs. truthful irs S seg \<and> plain_data (fst seg)"
  shows "\<exists>k \<le> length S. c_rx (tcp_inputs segs m i c) = take k S
    \<and> c_rcv_nxt (tcp_inputs segs m i c) = irs + of_nat k \<and> c_state (tcp_inputs segs m i c) = Established"
proof -
  have "stream_inv irs S c" using assms(1-3) by (auto simp: stream_inv_def)
  then have "stream_inv irs S (tcp_inputs segs m i c)" using assms(4,5) by (intro stream_inv_inputs) auto
  then show ?thesis by (auto simp: stream_inv_def)
qed

theorem tcp_delivers_stream_prefix_witness:
  "\<exists>k \<le> length [1, 2, 3 :: u8].
     c_rx (tcp_inputs [(loop_hdr 101 TCP_ACK, [2, 3]), (loop_hdr 100 TCP_ACK, [1])] loop_mac IPV4_ADDR loop_conn)
       = take k [1, 2, 3]
   \<and> c_rcv_nxt (tcp_inputs [(loop_hdr 101 TCP_ACK, [2, 3]), (loop_hdr 100 TCP_ACK, [1])] loop_mac IPV4_ADDR loop_conn)
       = 100 + of_nat k
   \<and> c_state (tcp_inputs [(loop_hdr 101 TCP_ACK, [2, 3]), (loop_hdr 100 TCP_ACK, [1])] loop_mac IPV4_ADDR loop_conn)
       = Established"
proof (rule tcp_delivers_stream_prefix)
  have "truthful 100 [1, 2, 3] (loop_hdr 101 TCP_ACK, [2, 3])"
    unfolding truthful_def by (rule exI [of _ 1]) (simp add: loop_hdr_def)
  moreover have "truthful 100 [1, 2, 3] (loop_hdr 100 TCP_ACK, [1])"
    unfolding truthful_def by (rule exI [of _ 0]) (simp add: loop_hdr_def)
  ultimately show "\<forall>seg \<in> set [(loop_hdr 101 TCP_ACK, [2, 3]), (loop_hdr 100 TCP_ACK, [1])].
      truthful 100 [1, 2, 3] seg \<and> plain_data (fst seg)"
    by (simp add: plain_data_def loop_hdr_def tcp_flag_defs)
qed (simp_all add: loop_conn_def)

text \<open>
  A FIN is taken without looking at its sequence number. A FIN that overtakes the last data
  segment closes the receiving side, shifts the expected number by one, and the missing byte is
  then refused for good; a retransmitted FIN shifts it again.
\<close>

lemma tcp_early_fin_loses_data:
  "let c1 = tcp_input (loop_hdr 101 (TCP_FIN OR TCP_ACK)) [] loop_mac IPV4_ADDR loop_conn;
       c2 = tcp_input (loop_hdr 100 TCP_ACK) [7] loop_mac IPV4_ADDR c1;
       c3 = tcp_input (loop_hdr 101 (TCP_FIN OR TCP_ACK)) [] loop_mac IPV4_ADDR c2
   in c_state c1 = CloseWait \<and> c_rcv_nxt c1 = 101 \<and> c_rx c2 = [] \<and> c_rcv_nxt c3 = 102"
  by (simp add: tcp_input_def Let_def loop_hdr_def loop_conn_def tcp_flag_defs)

section \<open>The socket calls\<close>

lemma net_inv_add_conn:
  assumes "net_inv s" "c_fd c = next_fd s" "next_fd s \<noteq> - 1"
  shows "net_inv (s\<lparr>next_fd := next_fd s + 1, next_port := p, next_seq := q, conns := conns s @ [c]\<rparr>)"
    and "next_fd s \<notin> set (map c_fd (conns s))"
proof -
  have up: "next_fd s < next_fd s + 1"
    using assms(3) by (rule word_less_add_one)
  then have "fd < next_fd s + 1" if "fd < next_fd s" for fd using that by order
  with assms(1,2) up show "net_inv (s\<lparr>next_fd := next_fd s + 1, next_port := p, next_seq := q, conns := conns s @ [c]\<rparr>)"
    by (auto simp: net_inv_def srcs_ok_def)
  show "next_fd s \<notin> set (map c_fd (conns s))" using assms(1) by (auto simp: net_inv_def)
qed

lemma resolve_mac_keeps:
  assumes "net_inv s" "resolve_mac ops a n s = (r, t)"
  shows "net_inv t \<and> map c_fd (conns t) = map c_fd (conns s) \<and> next_fd t = next_fd s"
  using resolve_mac_step [of s ops a n] assms by (simp add: net_step_def same_fds_def)

lemma connect_spec:
  assumes "net_inv s" and "next_fd s \<noteq> - 1" and "connect ops dst_ip dst_port t s = (r, s')"
  shows "net_inv s' \<and> (case r of
      Inl e \<Rightarrow> e \<in> {- EINVAL, - ENODEV, - EIO, - EAGAIN} \<and> map c_fd (conns s') = map c_fd (conns s)
    | Inr fd \<Rightarrow> fd = next_fd s \<and> fd \<notin> set (map c_fd (conns s))
        \<and> map c_fd (conns s') = map c_fd (conns s) @ [fd] \<and> is_established fd s')"
proof (cases "dst_ip = [0, 0, 0, 0] \<or> dst_port = 0 \<or> \<not> is_ready ops s \<or> \<not> link_up ops s")
  case True
  with assms show ?thesis by (auto simp: connect_def split: if_splits)
next
  case False
  let ?polls = "if t = 0 then 120000 else unat t"
  obtain m u where u: "resolve_mac ops (next_hop_for dst_ip) ?polls s = (m, u)" by fastforce
  note ku = resolve_mac_keeps [OF assms(1) u]
  show ?thesis
  proof (cases m)
    case None
    with assms(3) False u ku show ?thesis by (auto simp: connect_def Let_def)
  next
    case (Some dst_mac)
    let ?c = "\<lparr>c_fd = next_fd u, c_state = SynSent, c_local_port = next_port u, c_remote_port = dst_port,
       c_remote_ip = dst_ip, c_remote_mac = dst_mac, c_iss = next_seq u, c_snd_nxt = next_seq u + 1,
       c_rcv_nxt = 0, c_pending_ack = False, c_rx = []\<rparr>"
    let ?v = "u\<lparr>next_fd := next_fd u + 1, next_port := next_port u + 1, next_seq := next_seq u + 0x1000,
       conns := conns u @ [?c]\<rparr>"
    obtain b w where w: "send_tcp_packet ops dst_mac dst_ip (next_port u) dst_port (next_seq u) 0 TCP_SYN [] ?v = (b, w)"
      by fastforce
    have fresh: "next_fd u \<notin> set (map c_fd (conns u))" and v: "net_inv ?v"
      using net_inv_add_conn [of u ?c] ku assms(2) by simp_all
    have kw: "net_inv w" "map c_fd (conns w) = map c_fd (conns u) @ [next_fd u]"
      using send_tcp_packet_step [of ?v ops dst_mac dst_ip "next_port u" dst_port "next_seq u" 0 TCP_SYN "[]"] w v
      by (simp_all add: net_step_def same_fds_def)
    have run: "(r, s') = (if b then connect_loop ops (next_fd u) dst_port ?polls 0 w
        else (Inl (- EIO), drop_conn (next_fd u) w))"
      using assms(3) False u Some w by (cases b) (simp_all add: connect_def Let_def)
    show ?thesis
    proof (cases b)
      case True
      with run connect_loop_outcome [of ops "next_fd u" dst_port ?polls 0 w r s', OF _ kw(2) fresh kw(1)] ku fresh
      show ?thesis by (auto split: sum.splits)
    next
      case False
      with run kw drop_conn_fds [OF kw(2) fresh] drop_conn_inv [OF kw(1)] ku show ?thesis by simp
    qed
  qed
qed

text \<open>
  \<open>connect\<close> always returns; on an error the table holds the descriptors it held before, on success
  exactly one more, which was never in use and whose connection is established.
\<close>

lemma connect_outcome:
  assumes "net_inv s" and "next_fd s \<noteq> - 1" and "connect ops dst_ip dst_port t s = (r, s')"
  shows "net_inv s' \<and> (case r of
      Inl e \<Rightarrow> e \<in> {- EINVAL, - ENODEV, - EIO, - EAGAIN} \<and> map c_fd (conns s') = map c_fd (conns s)
    | Inr fd \<Rightarrow> fd = next_fd s \<and> fd \<notin> set (map c_fd (conns s))
        \<and> map c_fd (conns s') = map c_fd (conns s) @ [fd] \<and> is_established fd s')"
  using assms by (rule connect_spec)

lemma connect_outcome_example:
  "\<exists>r s'. connect loop_ops IPV4_ADDR 80 5 loop_net = (r, s') \<and> net_inv s'"
proof -
  obtain r s' where r: "connect loop_ops IPV4_ADDR 80 5 loop_net = (r, s')" by fastforce
  have "net_inv loop_net"
    by (simp add: net_inv_def srcs_ok_def loop_net_def net_init_def arp_inv_def ARP_MAX_def IPV4_ADDR_def loop_mac_unicast)
  moreover have "next_fd loop_net \<noteq> - 1" by (simp add: loop_net_def net_init_def)
  ultimately have "net_inv s'" using connect_outcome [OF _ _ r] by blast
  with r show ?thesis by blast
qed

lemma tcp_recv_loop_step: "net_step s (snd (tcp_recv_loop ops fd cap n s))"
proof (induction n arbitrary: s)
  case (Suc n)
  have "net_step s (snd (flush_pending_ack ops fd (snd (poll_once ops s))))"
    using poll_once_step flush_pending_ack_step by (rule net_step_trans)
  with Suc.IH show ?case
    by (auto simp: Let_def split: option.splits intro: net_step_trans update_conn_step)
qed simp

lemma recv_loop_step: "net_step s (snd (recv_loop ops port cap n s))"
proof (induction n arbitrary: s)
  case (Suc n)
  have t: "net_step s (snd (udp_take port cap s))"
    using set_remove_first [of "\<lambda>d. d_dst_port d = port" "udp_rx s"]
    by (auto simp: udp_take_def net_step_def same_fds_def net_inv_def srcs_ok_def split: option.splits
        dest: le_trans [OF length_remove_first])
  then have "net_step s (snd (recv_loop ops port cap n (snd (poll_once ops (snd (udp_take port cap s))))))"
    using poll_once_step Suc.IH net_step_trans by blast
  with t show ?case by (auto split: prod.splits option.splits)
qed simp

lemma tcp_send_step: "net_step s (snd (tcp_send ops fd data s))"
proof -
  let ?f = "snd (flush_pending_ack ops fd s)" and ?n = "min (length data) MAX_TCP_SEGMENT"
  let ?u = "update_conn fd (\<lambda>c. c\<lparr>c_snd_nxt := c_snd_nxt c + of_nat ?n\<rparr>) ?f"
  have f: "net_step s ?f" by (rule flush_pending_ack_step)
  have u: "net_step s ?u" using f update_conn_step by (rule net_step_trans) simp
  have "net_step s (snd (case x of (False, s) \<Rightarrow> (Inl (- EIO), s) | (True, s) \<Rightarrow> (Inr ?n, drain_acks ops fd 2048 s)))"
    if "net_step s (snd x)" for x :: "bool \<times> 'a net"
    using that net_step_trans [OF that drain_acks_step] by (cases x; cases "fst x") auto
  then have "net_step s (snd (case send_tcp_packet ops m a sp dp sq ak fl pl ?u of
      (False, s) \<Rightarrow> (Inl (- EIO), s) | (True, s) \<Rightarrow> (Inr ?n, drain_acks ops fd 2048 s)))"
    for m a sp dp sq ak fl pl
    using net_step_trans [OF u send_tcp_packet_step] by blast
  with f show ?thesis by (simp add: tcp_send_def Let_def split: option.splits)
qed

lemma send_to_step: "net_step s (snd (send_to ops dip dp sp data t s))"
proof -
  have "net_step s (snd (case x of (None, s) \<Rightarrow> (Inl (- EAGAIN), s) | (Some m, s) \<Rightarrow>
      (case ipv4_send ops m dip IPV4_PROTO_UDP (udp_segment dip dp sp data) s of
         (False, s) \<Rightarrow> (Inl (- EIO), s) | (True, s) \<Rightarrow> (Inr (length data), s))))"
    if "net_step s (snd x)" for x :: "mac option \<times> 'a net"
  proof (cases x)
    case (Pair m u)
    obtain b v where v: "ipv4_send ops (the m) dip IPV4_PROTO_UDP (udp_segment dip dp sp data) u = (b, v)"
      by fastforce
    have "net_step s v" using net_step_trans [OF that ipv4_send_step] Pair v by (metis snd_conv)
    with that Pair v show ?thesis by (cases m; cases b) auto
  qed
  from this [OF resolve_mac_step] show ?thesis by (simp add: send_to_def Let_def)
qed

lemma tcp_close_inv: "net_inv s \<Longrightarrow> net_inv (tcp_close ops fd s)"
  using drop_conn_inv [of s fd] send_tcp_packet_step [of "drop_conn fd s" ops]
  by (auto simp: tcp_close_def Let_def net_step_def split: option.splits)

text \<open>
  The stack as its callers drive it: any sequence of polls and socket calls, with any arguments
  and any frames from the driver. \<open>connect\<close> is called at most \<open>2^64 - 1\<close> times.
\<close>

inductive net_call :: "'d nic_ops \<Rightarrow> 'd net \<Rightarrow> 'd net \<Rightarrow> bool" for ops where
  call_poll: "net_call ops s (snd (poll_once ops s))"
| call_send_to: "net_call ops s (snd (send_to ops dip dp sp data t s))"
| call_recv_from: "net_call ops s (snd (recv_from ops port cap t s))"
| call_connect: "next_fd s \<noteq> - 1 \<Longrightarrow> net_call ops s (snd (connect ops dip dp t s))"
| call_send: "net_call ops s (snd (tcp_send ops fd data s))"
| call_recv: "net_call ops s (snd (tcp_recv ops fd cap s))"
| call_close: "net_call ops s (tcp_close ops fd s)"

lemma net_call_inv:
  assumes "net_call ops s s'" and "net_inv s"
  shows "net_inv s'"
  using assms
proof (cases rule: net_call.cases)
  case (call_connect dip dp t)
  obtain r u where "connect ops dip dp t s = (r, u)" by fastforce
  with connect_spec [OF assms(2) call_connect(2) this] call_connect(1) show ?thesis by simp
next
  case (call_recv fd cap)
  then show ?thesis using tcp_recv_loop_step [of s ops fd cap DEFAULT_IO_POLLS] assms(2)
    by (simp add: tcp_recv_def net_step_def)
next
  case (call_recv_from port cap t)
  then show ?thesis using recv_loop_step [of s ops port cap] assms(2)
    by (simp add: recv_from_def net_step_def)
next
  case call_poll
  then show ?thesis using poll_once_step [of s ops] assms(2) by (simp add: net_step_def)
next
  case (call_send_to dip dp sp data t)
  then show ?thesis using send_to_step [of s ops dip dp sp data t] assms(2) by (simp add: net_step_def)
next
  case (call_send fd data)
  then show ?thesis using tcp_send_step [of s ops fd data] assms(2) by (simp add: net_step_def)
next
  case (call_close fd)
  then show ?thesis using assms(2) by (simp add: tcp_close_inv)
qed

text \<open>
  From boot on, after any sequence of polls and socket calls and whatever frames arrive, the ARP
  cache holds at most 32 valid bindings with one per address, the UDP queue at most 32 datagrams,
  and no two connections share a descriptor.
\<close>

lemma net_stack_invariant:
  assumes "(net_call ops)\<^sup>*\<^sup>* (net_init d) s"
  shows "arp_inv (arp_cache s) \<and> length (udp_rx s) \<le> MAX_UDP_QUEUE \<and> distinct (map c_fd (conns s))"
proof -
  have "net_inv s" using assms by (induction rule: rtranclp_induct) (auto simp: net_inv_init intro: net_call_inv)
  then show ?thesis by (simp add: net_inv_def)
qed

lemma net_stack_invariant_example:
  "\<exists>s. s = snd (poll_once loop_ops (snd (send_to loop_ops [255, 255, 255, 255] 67 68 [1] 3 (net_init []))))
    \<and> arp_inv (arp_cache s) \<and> length (udp_rx s) \<le> MAX_UDP_QUEUE \<and> distinct (map c_fd (conns s))"
proof -
  let ?s = "snd (send_to loop_ops [255, 255, 255, 255] 67 68 [1] 3 (net_init []))"
  have "(net_call loop_ops)\<^sup>*\<^sup>* (net_init []) (snd (poll_once loop_ops ?s))"
    by (rule converse_rtranclp_into_rtranclp, rule call_send_to) (rule r_into_rtranclp, rule call_poll)
  from net_stack_invariant [OF this] show ?thesis by simp
qed

text \<open>
  \<open>tcp::recv\<close> on a connection with buffered bytes returns the longest prefix that fits the
  caller's buffer and keeps the rest, so that successive reads concatenate to the stream; with an
  empty buffer and a closed peer it reports the end of the stream.
\<close>

lemma tcp_recv_reads_prefix:
  assumes "conn fd s = Some c" and "0 < cap"
  shows "(c_rx c \<noteq> [] \<longrightarrow> (\<exists>xs s' c'. tcp_recv ops fd cap s = (Inr xs, s') \<and> conn fd s' = Some c'
             \<and> xs @ c_rx c' = c_rx c \<and> length xs = min cap (length (c_rx c)) \<and> c_rcv_nxt c' = c_rcv_nxt c))
    \<and> (c_rx c = [] \<and> c_state c \<in> {CloseWait, Closed} \<longrightarrow> tcp_recv ops fd cap s = (Inr [], s))"
proof -
  have "tcp_recv ops fd cap s = tcp_recv_loop ops fd cap (Suc 39999) s"
    using assms(2) by (simp add: tcp_recv_def DEFAULT_IO_POLLS_def)
  then show ?thesis using assms(1) unfolding tcp_recv_loop.simps by (auto simp: Let_def conn_update)
qed

lemma tcp_recv_reads_prefix_example:
  "\<exists>xs s' c'. tcp_recv loop_ops 1 2 (loop_net\<lparr>conns := [loop_conn\<lparr>c_rx := [1, 2, 3]\<rparr>]\<rparr>) = (Inr xs, s')
     \<and> conn 1 s' = Some c' \<and> xs @ c_rx c' = [1, 2, 3]"
proof -
  have "conn 1 (loop_net\<lparr>conns := [loop_conn\<lparr>c_rx := [1, 2, 3]\<rparr>]\<rparr>) = Some (loop_conn\<lparr>c_rx := [1, 2, 3]\<rparr>)"
    by (simp add: conn_def loop_conn_def)
  from tcp_recv_reads_prefix [OF this, of 2 loop_ops] show ?thesis by fastforce
qed

end
