(* ===== verification/Net_Syscalls.thy ===== *)
theory Net_Syscalls
  imports Net_Properties User_Mem
begin

text \<open>
  \<^verbatim>\<open>kernel/syscall/net.rs\<close>: the network system calls. Their state is the user memory of the caller and the
  network stack; argument blocks are the \<open>repr(C)\<close> layouts of \<^verbatim>\<open>crates/abi/src/types.rs\<close>.
\<close>

record 'd net_sys =
  n_um :: umem
  n_net :: "'d net"

text \<open>\<open>net::max_frame_len\<close> of the driver: a page less the 12 bytes of the device header.\<close>

definition max_frame_len :: nat where "max_frame_len = 4096 - 12"

definition PING_RESULT_SENT :: i64 where "PING_RESULT_SENT = 0"
definition PING_RESULT_ARP_SENT_ONLY :: i64 where "PING_RESULT_ARP_SENT_ONLY = 1"

section \<open>Frames and the interface\<close>

definition net_info :: "'d nic_ops \<Rightarrow> 'd net \<Rightarrow> u8 list" where
  "net_info ops s =
     (let mtu' = (case nic_mtu ops (dev s) of Some m \<Rightarrow> ucast m | None \<Rightarrow> 0) :: u32;
          flags = (if nic_link_up ops (dev s) then 1 else 0) OR (if nic_mac_addr ops (dev s) = None then 0 else 2) OR 4 :: u32;
          mac = (case nic_mac_addr ops (dev s) of Some m \<Rightarrow> m | None \<Rightarrow> replicate 6 0)
      in le32 flags @ le32 mtu' @ mac @ [0, 0] @ IPV4_ADDR @ IPV4_NETMASK @ IPV4_GATEWAY @ [0, 0, 0, 0])"

definition sys_net_info :: "'d nic_ops \<Rightarrow> u64 \<Rightarrow> 'd net_sys \<Rightarrow> i64 \<times> 'd net_sys" where
  "sys_net_info ops out_ptr s =
     (if out_ptr = 0 then (- EFAULT, s)
      else if \<not> is_ready ops (n_net s) then (- ENODEV, s)
      else case copy_to_user (n_um s) out_ptr (net_info ops (n_net s)) of
        None \<Rightarrow> (- EFAULT, s)
      | Some m \<Rightarrow> (0, s\<lparr>n_um := m\<rparr>))"

text \<open>\<open>NetIoArgs\<close>: \<open>buf_ptr\<close>, \<open>buf_len\<close>.\<close>

definition sys_net_recv :: "'d nic_ops \<Rightarrow> u64 \<Rightarrow> 'd net_sys \<Rightarrow> i64 \<times> 'd net_sys" where
  "sys_net_recv ops args_ptr s =
     (case copy_user_struct (n_um s) args_ptr 16 of
        Inl e \<Rightarrow> (e, s)
      | Inr args \<Rightarrow>
          if field64 args 0 = 0 then (- EFAULT, s)
          else if field64 args 1 = 0 then (- EINVAL, s)
          else if \<not> is_ready ops (n_net s) then (- ENODEV, s)
          else let cap = min (unat (field64 args 1)) max_frame_len in
            if cap = 0 then (- EINVAL, s)
            else case recv_frame ops cap (n_net s) of
              (None, t) \<Rightarrow> (- EAGAIN, s\<lparr>n_net := t\<rparr>)
            | (Some frame, t) \<Rightarrow>
                if frame = [] then (0, s\<lparr>n_net := t\<rparr>)
                else (case copy_to_user (n_um s) (field64 args 0) frame of
                    None \<Rightarrow> (- EFAULT, s\<lparr>n_net := t\<rparr>)
                  | Some m \<Rightarrow> (int (length frame), s\<lparr>n_um := m, n_net := t\<rparr>)))"

definition sys_net_send :: "'d nic_ops \<Rightarrow> u64 \<Rightarrow> 'd net_sys \<Rightarrow> i64 \<times> 'd net_sys" where
  "sys_net_send ops args_ptr s =
     (case copy_user_struct (n_um s) args_ptr 16 of
        Inl e \<Rightarrow> (e, s)
      | Inr args \<Rightarrow>
          if field64 args 0 = 0 then (- EFAULT, s)
          else if field64 args 1 = 0 then (- EINVAL, s)
          else if \<not> is_ready ops (n_net s) then (- ENODEV, s)
          else let len = unat (field64 args 1) in
            if len > max_frame_len then (- EINVAL, s)
            else case copy_from_user (n_um s) (field64 args 0) len of
              None \<Rightarrow> (- EFAULT, s)
            | Some buf \<Rightarrow>
                (case send_frame ops buf (n_net s) of
                   (False, t) \<Rightarrow> (- EIO, s\<lparr>n_net := t\<rparr>)
                 | (True, t) \<Rightarrow> (int len, s\<lparr>n_net := t\<rparr>)))"

section \<open>Ping\<close>

text \<open>The 1024 polls after the echo request; the replies are only logged.\<close>

definition send_gateway_echo_and_poll :: "'d nic_ops \<Rightarrow> mac \<Rightarrow> ip \<Rightarrow> 'd net \<Rightarrow> i64 \<times> 'd net" where
  "send_gateway_echo_and_poll ops gateway_mac gateway_ip s =
     (case send_echo_request ops gateway_mac gateway_ip s of
        (False, s) \<Rightarrow> (- EIO, s)
      | (True, s) \<Rightarrow> (PING_RESULT_SENT, ((\<lambda>s. snd (poll_once ops s)) ^^ 1024) s))"

definition ping_gateway :: "'d nic_ops \<Rightarrow> 'd net \<Rightarrow> i64 \<times> 'd net" where
  "ping_gateway ops s =
     (if \<not> is_ready ops s then (- ENODEV, s)
      else if \<not> link_up ops s then (- EIO, s)
      else if IPV4_GATEWAY = [0, 0, 0, 0] then (- EINVAL, s)
      else case arp_lookup IPV4_GATEWAY s of
        Some m \<Rightarrow> send_gateway_echo_and_poll ops m IPV4_GATEWAY s
      | None \<Rightarrow>
          (case send_request ops IPV4_GATEWAY s of
             (False, s) \<Rightarrow> (- EIO, s)
           | (True, s) \<Rightarrow>
               (case resolve_loop ops IPV4_GATEWAY 512 s of
                  (Some m, s) \<Rightarrow> send_gateway_echo_and_poll ops m IPV4_GATEWAY s
                | (None, s) \<Rightarrow> (PING_RESULT_ARP_SENT_ONLY, s))))"

definition sys_net_ping_gateway :: "'d nic_ops \<Rightarrow> 'd net_sys \<Rightarrow> i64 \<times> 'd net_sys" where
  "sys_net_ping_gateway ops s = (let (r, t) = ping_gateway ops (n_net s) in (r, s\<lparr>n_net := t\<rparr>))"

section \<open>TCP\<close>

text \<open>\<open>TcpConnectArgs\<close>: \<open>dst_ip\<close>, \<open>dst_port\<close>, two bytes of padding, \<open>timeout_polls\<close>.\<close>

definition sys_tcp_connect :: "'d nic_ops \<Rightarrow> u64 \<Rightarrow> 'd net_sys \<Rightarrow> i64 \<times> 'd net_sys" where
  "sys_tcp_connect ops args_ptr s =
     (case copy_user_struct (n_um s) args_ptr 12 of
        Inl e \<Rightarrow> (e, s)
      | Inr args \<Rightarrow>
          (let (r, t) = connect ops (take 4 args) (field16 args 4) (field32 args 8) (n_net s) in
           (case r of Inr fd \<Rightarrow> sint fd | Inl e \<Rightarrow> e, s\<lparr>n_net := t\<rparr>)))"

text \<open>\<open>TcpIoArgs\<close>: \<open>fd\<close>, \<open>buf_ptr\<close>, \<open>buf_len\<close>.\<close>

definition sys_tcp_send :: "'d nic_ops \<Rightarrow> u64 \<Rightarrow> 'd net_sys \<Rightarrow> i64 \<times> 'd net_sys" where
  "sys_tcp_send ops args_ptr s =
     (case copy_user_struct (n_um s) args_ptr 24 of
        Inl e \<Rightarrow> (e, s)
      | Inr args \<Rightarrow>
          if field64 args 0 = 0 \<or> field64 args 1 = 0 \<or> field64 args 2 = 0 then (- EINVAL, s)
          else case copy_from_user (n_um s) (field64 args 1) (min (unat (field64 args 2)) 1200) of
            None \<Rightarrow> (- EFAULT, s)
          | Some buf \<Rightarrow>
              (let (r, t) = tcp_send ops (field64 args 0) buf (n_net s) in
               (case r of Inr n \<Rightarrow> int n | Inl e \<Rightarrow> e, s\<lparr>n_net := t\<rparr>)))"

definition sys_tcp_recv :: "'d nic_ops \<Rightarrow> u64 \<Rightarrow> 'd net_sys \<Rightarrow> i64 \<times> 'd net_sys" where
  "sys_tcp_recv ops args_ptr s =
     (case copy_user_struct (n_um s) args_ptr 24 of
        Inl e \<Rightarrow> (e, s)
      | Inr args \<Rightarrow>
          if field64 args 0 = 0 \<or> field64 args 1 = 0 \<or> field64 args 2 = 0 then (- EINVAL, s)
          else case tcp_recv ops (field64 args 0) (min (unat (field64 args 2)) 4096) (n_net s) of
            (Inl e, t) \<Rightarrow> (e, s\<lparr>n_net := t\<rparr>)
          | (Inr data, t) \<Rightarrow>
              if data = [] then (0, s\<lparr>n_net := t\<rparr>)
              else (case copy_to_user (n_um s) (field64 args 1) data of
                  None \<Rightarrow> (- EFAULT, s\<lparr>n_net := t\<rparr>)
                | Some m \<Rightarrow> (int (length data), s\<lparr>n_um := m, n_net := t\<rparr>)))"

definition sys_tcp_close :: "'d nic_ops \<Rightarrow> u64 \<Rightarrow> 'd net_sys \<Rightarrow> i64 \<times> 'd net_sys" where
  "sys_tcp_close ops fd s = (if fd = 0 then (- EINVAL, s) else (0, s\<lparr>n_net := tcp_close ops fd (n_net s)\<rparr>))"

section \<open>UDP\<close>

text \<open>
  \<open>UdpSendToArgs\<close>: \<open>dst_ip\<close>, \<open>dst_port\<close>, \<open>src_port\<close>, \<open>buf_ptr\<close>, \<open>buf_len\<close>, \<open>timeout_polls\<close>, padding.
  \<open>UdpRecvFromArgs\<close>: \<open>local_port\<close>, padding, \<open>timeout_polls\<close>, \<open>out_ptr\<close>, \<open>out_cap\<close>, \<open>src_ip\<close>, \<open>src_port\<close>, padding;
  the call writes the block back with the sender in it.
\<close>

definition sys_udp_send_to :: "'d nic_ops \<Rightarrow> u64 \<Rightarrow> 'd net_sys \<Rightarrow> i64 \<times> 'd net_sys" where
  "sys_udp_send_to ops args_ptr s =
     (case copy_user_struct (n_um s) args_ptr 32 of
        Inl e \<Rightarrow> (e, s)
      | Inr args \<Rightarrow>
          if field64 args 1 = 0 \<or> field64 args 2 = 0 then (- EINVAL, s)
          else case copy_from_user (n_um s) (field64 args 1) (min (unat (field64 args 2)) 1472) of
            None \<Rightarrow> (- EFAULT, s)
          | Some buf \<Rightarrow>
              (let (r, t) = send_to ops (take 4 args) (field16 args 4) (field16 args 6) buf (field32 args 24) (n_net s) in
               (case r of Inr n \<Rightarrow> int n | Inl e \<Rightarrow> e, s\<lparr>n_net := t\<rparr>)))"

definition sys_udp_recv_from :: "'d nic_ops \<Rightarrow> u64 \<Rightarrow> 'd net_sys \<Rightarrow> i64 \<times> 'd net_sys" where
  "sys_udp_recv_from ops args_ptr s =
     (case copy_user_struct (n_um s) args_ptr 32 of
        Inl e \<Rightarrow> (e, s)
      | Inr args \<Rightarrow>
          if field16 args 0 = 0 \<or> field64 args 1 = 0 \<or> field64 args 2 = 0 then (- EINVAL, s)
          else case recv_from ops (field16 args 0) (min (unat (field64 args 2)) 4096) (field32 args 4) (n_net s) of
            (Inl e, t) \<Rightarrow> (e, s\<lparr>n_net := t\<rparr>)
          | (Inr (src_ip, src_port, data), t) \<Rightarrow>
              (case copy_to_user (n_um s) (field64 args 1) data of
                 None \<Rightarrow> (- EFAULT, s\<lparr>n_net := t\<rparr>)
               | Some m \<Rightarrow>
                   (case copy_to_user m args_ptr (take 24 args @ src_ip @ le16f src_port @ drop 30 args) of
                      None \<Rightarrow> (- EFAULT, s\<lparr>n_um := m, n_net := t\<rparr>)
                    | Some m \<Rightarrow> (int (length data), s\<lparr>n_um := m, n_net := t\<rparr>))))"

section \<open>Where the calls write\<close>

lemma copy_to_user_changes: "copy_to_user m a bs = Some m' \<Longrightarrow> m' x \<noteq> m x \<Longrightarrow> unat (x - a) < length bs"
  by (auto simp: copy_to_user_def write_bytes_def split: if_splits)

lemma copy_user_struct_length: "copy_user_struct m p n = Inr args \<Longrightarrow> length args = n"
  by (auto simp: copy_user_struct_def copy_from_user_def split: if_splits)

text \<open>A driver fills at most the buffer it is given.\<close>

definition nic_recv_bounded :: "'d nic_ops \<Rightarrow> bool" where
  "nic_recv_bounded ops \<longleftrightarrow> (\<forall>cap d f d'. nic_recv_frame ops cap d = (Some f, d') \<longrightarrow> length f \<le> cap)"

lemma tcp_recv_bound: "tcp_recv_loop ops fd cap n s = (Inr xs, t) \<Longrightarrow> length xs \<le> cap"
  by (induction ops fd cap n s rule: tcp_recv_loop.induct) (auto simp: Let_def split: option.splits if_splits)

lemma recv_loop_bound: "recv_loop ops port cap n s = (Inr (i, p, xs), t) \<Longrightarrow> length xs \<le> cap"
proof (induction ops port cap n s rule: recv_loop.induct)
  case (2 ops port cap n s)
  then show ?case by (auto simp: udp_take_def split: prod.splits option.splits)
qed simp

lemma recv_from_bound: "recv_from ops port cap k s = (Inr (i, p, xs), t) \<Longrightarrow> length xs \<le> cap"
  by (auto simp: recv_from_def dest: recv_loop_bound split: if_splits)

lemma recv_loop_src: "recv_loop ops port cap n s = (Inr (i, p, xs), t) \<Longrightarrow> net_inv s \<Longrightarrow> length i = 4"
proof (induction ops port cap n s rule: recv_loop.induct)
  case (2 ops port cap n s)
  show ?case
  proof (cases "find (\<lambda>d. d_dst_port d = port) (udp_rx s)")
    case None
    then have "udp_take port cap s = (None, s)" by (simp add: udp_take_def)
    with 2 poll_once_step [of s ops] show ?thesis by (simp add: net_step_def)
  next
    case (Some d)
    then have "d \<in> set (udp_rx s)" using find_Some_iff by (metis nth_mem)
    with Some 2 show ?thesis by (auto simp: udp_take_def net_inv_def srcs_ok_def)
  qed
qed simp

text \<open>
  \<open>r\<close> is at most the length of the buffer at \<open>buf\<close>, and memory changed in the first \<open>r\<close> bytes of the buffer only:
  an error changes nothing.
\<close>

definition filled :: "umem \<Rightarrow> u64 \<Rightarrow> u64 \<Rightarrow> i64 \<Rightarrow> umem \<Rightarrow> bool" where
  "filled m buf len r m' \<longleftrightarrow> r \<le> uint len \<and> (\<forall>x. m' x \<noteq> m x \<longrightarrow> uint (x - buf) < r)"

lemma filled_same: "r \<le> 0 \<Longrightarrow> filled m buf len r m"
  using uint_ge_0 [of len] by (auto simp: filled_def intro: order_trans)

lemma filled_copy: "copy_to_user m buf bs = Some m' \<Longrightarrow> length bs \<le> unat len \<Longrightarrow> filled m buf len (int (length bs)) m'"
  using copy_to_user_changes [of m buf bs m'] unfolding filled_def uint_nat of_nat_less_iff of_nat_le_iff by blast

lemma filled_error: "filled m buf len (- EFAULT) m" "filled m buf len (- EINVAL) m" "filled m buf len (- ENODEV) m"
  "filled m buf len (- EAGAIN) m" "filled m buf len 0 m"
  by (rule filled_same, simp add: errno_defs)+

lemma tcp_recv_error: "tcp_recv_loop ops fd cap n s = (Inl e, t) \<Longrightarrow> e \<le> 0"
  by (induction ops fd cap n s rule: tcp_recv_loop.induct) (auto simp: errno_defs Let_def split: option.splits if_splits)

lemma sys_tcp_recv_filled:
  assumes "copy_user_struct (n_um s) ptr 24 = Inr args"
  shows "filled (n_um s) (field64 args 1) (field64 args 2) (fst (sys_tcp_recv ops ptr s)) (n_um (snd (sys_tcp_recv ops ptr s)))"
proof -
  have "e \<le> 0" if "tcp_recv ops fd cap s' = (Inl e, t)" for fd cap s' e t
    using that tcp_recv_error by (auto simp: tcp_recv_def errno_defs split: if_splits)
  moreover have "length xs \<le> unat (field64 args 2)" if "tcp_recv ops fd (min (unat (field64 args 2)) 4096) s' = (Inr xs, t)" for fd s' xs t
    using that tcp_recv_bound by (fastforce simp: tcp_recv_def split: if_splits)
  ultimately show ?thesis using assms filled_copy filled_same
    by (auto simp: sys_tcp_recv_def filled_error split: prod.split sum.split option.split)
qed

lemma sys_net_recv_filled:
  assumes "nic_recv_bounded ops" "copy_user_struct (n_um s) ptr 16 = Inr args"
  shows "filled (n_um s) (field64 args 0) (field64 args 1) (fst (sys_net_recv ops ptr s)) (n_um (snd (sys_net_recv ops ptr s)))"
proof -
  have "length xs \<le> unat (field64 args 1)" if "recv_frame ops (min (unat (field64 args 1)) k) t = (Some xs, t')" for xs t t' k
    using that assms(1) unfolding nic_recv_bounded_def recv_frame_def Let_def by (fastforce split: prod.splits)
  then show ?thesis using assms(2) filled_copy
    by (auto simp: sys_net_recv_def filled_error Let_def split: prod.split sum.split option.split)
qed

lemma recv_from_facts:
  assumes "recv_from ops port cap k s = (r, t)" "net_inv s"
  shows "case r of Inl e \<Rightarrow> e \<le> 0 | Inr (i, p, xs) \<Rightarrow> length i = 4 \<and> length xs \<le> cap"
proof -
  have err: "recv_loop ops port cap n s = (Inl e, t) \<Longrightarrow> e \<le> 0" for n s e
    by (induction ops port cap n s rule: recv_loop.induct) (auto simp: errno_defs split: prod.splits option.splits)
  have "e \<le> 0" if "r = Inl e" for e
    using assms(1) that err [of _ s e] by (auto simp: recv_from_def errno_defs split: if_splits)
  moreover have "length i = 4 \<and> length xs \<le> cap" if "r = Inr (i, p, xs)" for i p xs
    using assms that recv_loop_src [of ops port cap _ s i p xs t] recv_loop_bound [of ops port cap _ s i p xs t]
    by (auto simp: recv_from_def split: if_splits)
  ultimately show ?thesis by (auto split: sum.splits)
qed

text \<open>Both copies of a datagram call succeed or nothing is written: the block was readable, so it can be written.\<close>

lemma sys_udp_recv_from_cases:
  assumes "copy_user_struct (n_um s) ptr 32 = Inr args" "net_inv (n_net s)" "sys_udp_recv_from ops ptr s = (r, s')"
  shows "(r \<le> 0 \<and> n_um s' = n_um s) \<or> (\<exists>src_ip src_port xs m. r = int (length xs) \<and> length xs \<le> min (unat (field64 args 2)) 4096 \<and> length src_ip = 4
    \<and> copy_to_user (n_um s) (field64 args 1) xs = Some m \<and> copy_to_user m ptr (take 24 args @ src_ip @ le16f src_port @ drop 30 args) = Some (n_um s'))"
proof (cases "field16 args 0 = 0 \<or> field64 args 1 = 0 \<or> field64 args 2 = 0")
  case True
  then show ?thesis using assms(1,3) by (auto simp: sys_udp_recv_from_def errno_defs)
next
  case False
  obtain q t where q: "recv_from ops (field16 args 0) (min (unat (field64 args 2)) 4096) (field32 args 4) (n_net s) = (q, t)" by fastforce
  note f = recv_from_facts [OF q assms(2)]
  show ?thesis
  proof (cases q)
    case (Inl e)
    then show ?thesis using False assms(1,3) q f by (auto simp: sys_udp_recv_from_def)
  next
    case (Inr v)
    obtain i p xs where v: "v = (i, p, xs)" by (cases v)
    have l: "length i = 4" "length xs \<le> min (unat (field64 args 2)) 4096" using f Inr v by auto
    have "length args = 32" "is_user_range ptr 32" using assms(1) by (auto simp: copy_user_struct_def copy_from_user_def split: if_splits)
    then have w: "\<exists>m'. copy_to_user m ptr (take 24 args @ i @ le16f p @ drop 30 args) = Some m'" for m using l(1) by (simp add: copy_to_user_def le16f_def)
    show ?thesis
    proof (cases "copy_to_user (n_um s) (field64 args 1) xs")
      case None
      then show ?thesis using False assms(1,3) q Inr v by (auto simp: sys_udp_recv_from_def errno_defs)
    next
      case (Some m)
      obtain m' where m': "copy_to_user m ptr (take 24 args @ i @ le16f p @ drop 30 args) = Some m'" using w by blast
      have "r = int (length xs)" "n_um s' = m'" using Some m' False assms(1,3) q Inr v by (auto simp: sys_udp_recv_from_def)
      with Some m' l show ?thesis by blast
    qed
  qed
qed

text \<open>The calls, as the dispatcher selects them.\<close>

datatype net_syscall = NetInfo u64 | NetRecv u64 | NetSend u64 | NetPing | TcpConnect u64 | TcpSend u64 | TcpRecv u64 | TcpClose u64
  | UdpSendTo u64 | UdpRecvFrom u64

fun run_net :: "'d nic_ops \<Rightarrow> net_syscall \<Rightarrow> 'd net_sys \<Rightarrow> i64 \<times> 'd net_sys" where
  "run_net ops (NetInfo p) s = sys_net_info ops p s"
| "run_net ops (NetRecv p) s = sys_net_recv ops p s"
| "run_net ops (NetSend p) s = sys_net_send ops p s"
| "run_net ops NetPing s = sys_net_ping_gateway ops s"
| "run_net ops (TcpConnect p) s = sys_tcp_connect ops p s"
| "run_net ops (TcpSend p) s = sys_tcp_send ops p s"
| "run_net ops (TcpRecv p) s = sys_tcp_recv ops p s"
| "run_net ops (TcpClose fd) s = sys_tcp_close ops fd s"
| "run_net ops (UdpSendTo p) s = sys_udp_send_to ops p s"
| "run_net ops (UdpRecvFrom p) s = sys_udp_recv_from ops p s"

text \<open>What the stack does in a call: a step below the sockets, or one of the calls on sockets.\<close>

lemma send_frame_step: "net_step s (snd (send_frame ops f s))"
  by (auto simp: send_frame_def Let_def split: prod.splits intro!: net_step_frame)

lemma recv_frame_step: "net_step s (snd (recv_frame ops cap s))"
  by (auto simp: recv_frame_def Let_def split: prod.splits intro!: net_step_frame)

lemma ping_gateway_step: "net_step s (snd (ping_gateway ops s))"
proof -
  have polls: "net_step t (((\<lambda>s. snd (poll_once ops s)) ^^ n) t)" for n and t :: "'a net"
    by (induction n) (auto intro: net_step_trans poll_once_step)
  have echo: "net_step t (snd (send_gateway_echo_and_poll ops m i t))" for m i and t :: "'a net"
  proof -
    obtain b u where b: "send_echo_request ops m i t = (b, u)" by fastforce
    have "net_step t (t\<lparr>icmp_next_seq := k\<rparr>)" for k by (auto intro!: net_step_frame)
    from net_step_trans [OF this ipv4_send_step] have "net_step t (snd (send_echo_request ops m i t))"
      unfolding send_echo_request_def Let_def .
    then have "net_step t u" using b by simp
    then show ?thesis using b net_step_trans [OF \<open>net_step t u\<close> polls [of u 1024]] by (cases b) (auto simp: send_gateway_echo_and_poll_def)
  qed
  show ?thesis
  proof (cases "arp_lookup IPV4_GATEWAY s")
    case None
    obtain b t where b: "send_request ops IPV4_GATEWAY s = (b, t)" by fastforce
    obtain r u where r: "resolve_loop ops IPV4_GATEWAY 512 t = (r, u)" by fastforce
    have st: "net_step s t" using send_request_step [of s ops IPV4_GATEWAY] b by simp
    have su: "net_step s u" using net_step_trans [OF st resolve_loop_step [of t ops IPV4_GATEWAY 512]] r by simp
    show ?thesis using None b r st su net_step_trans [OF su echo] by (cases b; cases r) (simp_all add: ping_gateway_def)
  qed (simp add: ping_gateway_def echo)
qed

text \<open>The invariant, from the pair that a call returns.\<close>

lemma net_inv_after:
  assumes "net_inv s"
  shows "recv_frame ops cap s = (a, t) \<Longrightarrow> net_inv t" "send_frame ops f s = (b, t) \<Longrightarrow> net_inv t" "ping_gateway ops s = (r, t) \<Longrightarrow> net_inv t"
    "next_fd s \<noteq> - 1 \<Longrightarrow> connect ops i p k s = (c, t) \<Longrightarrow> net_inv t" "tcp_send ops fd xs s = (d, t) \<Longrightarrow> net_inv t"
    "tcp_recv ops fd cap s = (e, t) \<Longrightarrow> net_inv t" "send_to ops i p q xs k s = (d, t) \<Longrightarrow> net_inv t" "recv_from ops p cap k s = (g, t) \<Longrightarrow> net_inv t"
  using assms recv_frame_step [of s ops cap] send_frame_step [of s ops f] ping_gateway_step [of s ops]
    net_call_inv [OF call_connect assms, of ops i p k] net_call_inv [OF call_send assms, of ops fd xs] net_call_inv [OF call_recv assms, of ops fd cap]
    net_call_inv [OF call_send_to assms, of ops i p q xs k] net_call_inv [OF call_recv_from assms, of ops p cap k]
  by (simp_all add: net_step_def)

lemma run_net_inv:
  assumes "net_inv (n_net s)" "next_fd (n_net s) \<noteq> - 1"
  shows "net_inv (n_net (snd (run_net ops c s)))"
  using assms tcp_close_inv [OF assms(1)]
  by (cases c) (auto simp: sys_net_info_def sys_net_recv_def sys_net_send_def sys_net_ping_gateway_def sys_tcp_connect_def sys_tcp_send_def
    sys_tcp_recv_def sys_tcp_close_def sys_udp_send_to_def sys_udp_recv_from_def Let_def split: sum.split prod.split option.split bool.split
    dest: net_inv_after)

text \<open>Kernel memory is not written.\<close>

definition nic_ok :: "'d nic_ops \<Rightarrow> bool" where
  "nic_ok ops \<longleftrightarrow> nic_recv_bounded ops \<and> (\<forall>d m. nic_mac_addr ops d = Some m \<longrightarrow> length m = 6)"

lemma filled_kernel: 
  assumes "copy_to_user m a bs = Some m'" "length bs \<le> 4096" "USER_MAX \<le> x"
  shows "m' x = m x"
  using copy_to_user_kernel [OF assms(1)] assms(2,3) by simp

lemma run_net_kernel:
  assumes "nic_ok ops" "net_inv (n_net s)" "USER_MAX \<le> x"
  shows "n_um (snd (run_net ops c s)) x = n_um s x"
proof (cases c)
  case (NetInfo p)
  have "length (net_info ops (n_net s)) \<le> 4096" using assms(1)
    by (auto simp: net_info_def nic_ok_def Let_def IPV4_ADDR_def IPV4_NETMASK_def IPV4_GATEWAY_def split: option.split)
  then show ?thesis using NetInfo filled_kernel assms(3) by (auto simp: sys_net_info_def split: option.split)
next
  case (NetRecv p)
  have "length f \<le> 4096" if "recv_frame ops (min n max_frame_len) t = (Some f, t')" for n f t t'
    using that assms(1) unfolding nic_ok_def nic_recv_bounded_def recv_frame_def Let_def max_frame_len_def by (fastforce split: prod.splits)
  then show ?thesis using NetRecv filled_kernel assms(3)
    by (auto simp: sys_net_recv_def Let_def split: sum.split prod.split option.split)
next
  case (TcpRecv p)
  have "length f \<le> 4096" if "tcp_recv ops fd (min n 4096) t = (Inr f, t')" for fd n f t t'
    using that tcp_recv_bound by (fastforce simp: tcp_recv_def split: if_splits)
  then show ?thesis using TcpRecv filled_kernel assms(3)
    by (auto simp: sys_tcp_recv_def split: sum.split prod.split option.split)
next
  case (UdpRecvFrom p)
  show ?thesis
  proof (cases "copy_user_struct (n_um s) p 32")
    case (Inr args)
    obtain r s' where r: "sys_udp_recv_from ops p s = (r, s')" by fastforce
    from sys_udp_recv_from_cases [OF Inr assms(2) r] show ?thesis
    proof (elim disjE exE conjE)
      fix i q xs m
      assume w: "length xs \<le> min (unat (field64 args 2)) 4096" "length i = 4" "copy_to_user (n_um s) (field64 args 1) xs = Some m"
        "copy_to_user m p (take 24 args @ i @ le16f q @ drop 30 args) = Some (n_um s')"
      have "n_um s' x = m x" by (rule filled_kernel [OF w(4) _ assms(3)]) (use w(2) copy_user_struct_length [OF Inr] in \<open>simp add: le16f_def\<close>)
      then show ?thesis using filled_kernel [OF w(3) _ assms(3)] w(1) UdpRecvFrom r by simp
    qed (simp add: UdpRecvFrom r)
  qed (simp add: UdpRecvFrom sys_udp_recv_from_def)
qed (auto simp: sys_net_send_def sys_net_ping_gateway_def sys_tcp_connect_def sys_tcp_send_def sys_tcp_close_def sys_udp_send_to_def Let_def
   split: sum.split prod.split option.split bool.split)

section \<open>A datagram from one process to another\<close>

definition udp_send_args :: "umem \<Rightarrow> u64 \<Rightarrow> ip \<Rightarrow> u16 \<Rightarrow> u16 \<Rightarrow> u64 \<Rightarrow> u64 \<Rightarrow> u32 \<Rightarrow> bool" where
  "udp_send_args m ptr dst_ip dst_port src_port buf len t \<longleftrightarrow> (\<exists>args. copy_user_struct m ptr 32 = Inr args \<and> take 4 args = dst_ip
     \<and> field16 args 4 = dst_port \<and> field16 args 6 = src_port \<and> field64 args 1 = buf \<and> field64 args 2 = len \<and> field32 args 24 = t \<and> buf \<noteq> 0)"

definition udp_recv_args :: "umem \<Rightarrow> u64 \<Rightarrow> u16 \<Rightarrow> u32 \<Rightarrow> u64 \<Rightarrow> u64 \<Rightarrow> bool" where
  "udp_recv_args m ptr port t out cap \<longleftrightarrow> (\<exists>args. copy_user_struct m ptr 32 = Inr args \<and> field16 args 0 = port \<and> field32 args 4 = t
     \<and> field64 args 1 = out \<and> field64 args 2 = cap \<and> out \<noteq> 0)"

lemma sys_udp_send_to_args:
  assumes "udp_send_args (n_um s) ptr dst_ip dst_port src_port buf len t" "len \<noteq> 0" "unat len \<le> 1472"
    "copy_from_user (n_um s) buf (unat len) = Some data" "send_to ops dst_ip dst_port src_port data t (n_net s) = (Inr n, u)"
  shows "sys_udp_send_to ops ptr s = (int n, s\<lparr>n_net := u\<rparr>)"
  using assms by (auto simp: udp_send_args_def sys_udp_send_to_def Let_def min_def)

lemma sys_udp_recv_from_args:
  assumes "udp_recv_args (n_um s) ptr port t out cap" "port \<noteq> 0" "cap \<noteq> 0"
    "recv_from ops port (min (unat cap) 4096) t (n_net s) = (Inr (src_ip, src_port, xs), u)" "length src_ip = 4" "length xs \<le> 4096"
    "is_user_range out (length xs)" "unat out + length xs \<le> unat ptr \<or> unat ptr + 32 \<le> unat out"
  shows "\<exists>m. sys_udp_recv_from ops ptr s = (int (length xs), s\<lparr>n_um := m, n_net := u\<rparr>)
    \<and> read_bytes m out (length xs) = xs \<and> read_bytes m (ptr + 24) 4 = src_ip \<and> read_bytes m (ptr + 28) 2 = le16f src_port"
proof -
  obtain args where a: "copy_user_struct (n_um s) ptr 32 = Inr args" "field16 args 0 = port" "field32 args 4 = t" "field64 args 1 = out"
    "field64 args 2 = cap" "out \<noteq> 0" using assms(1) by (auto simp: udp_recv_args_def)
  let ?b = "take 24 args @ src_ip @ le16f src_port @ drop 30 args"
  let ?w = "write_bytes (n_um s) out xs"
  let ?m = "write_bytes ?w ptr ?b"
  have l: "length args = 32" "length ?b = 32" using copy_user_struct_length [OF a(1)] assms(5) by (simp_all add: le16f_def)
  have p: "is_user_range ptr 32" using a(1) by (auto simp: copy_user_struct_def copy_from_user_def split: if_splits)
  then have pm: "unat ptr + 32 \<le> unat USER_MAX" by (simp add: is_user_range_iff)
  have um: "unat USER_MAX < 2 ^ 63" by (simp add: USER_MAX_def)
  have om: "unat out + length xs < 2 ^ 64 \<or> xs = []" using assms(6,7) um by (auto simp: is_user_range_iff)
  have "sys_udp_recv_from ops ptr s = (int (length xs), s\<lparr>n_um := ?m, n_net := u\<rparr>)"
    using a assms(2-4,7) p l(2) by (simp add: sys_udp_recv_from_def copy_to_user_def)
  moreover have "read_bytes ?m out (length xs) = xs"
  proof (cases "xs = []")
    case False
    have "read_bytes ?m out (length xs) = read_bytes ?w out (length xs)"
      by (rule read_write_apart) (use assms(8) om False pm um l in auto)
    also have "\<dots> = xs" using assms(6) by (intro read_write_bytes) simp
    finally show ?thesis .
  qed simp
  moreover have "read_bytes ?m (ptr + 24) 4 = src_ip"
    using read_write_inside [of 24 4 ?b ?w ptr] l assms(5) by simp
  moreover have "read_bytes ?m (ptr + 28) 2 = le16f src_port"
    using read_write_inside [of 28 2 ?b ?w ptr] l assms(5) by (simp add: le16f_def)
  ultimately show ?thesis by blast
qed

text \<open>
  User memory with a send block, three bytes of data, a block for a call on a port and one for a connection.
\<close>

definition udp_image :: umem where
  "udp_image a =
     (case map_of [(0x1000, 10), (0x1002, 2), (0x1003, 15), (0x1004, 53), (0x1006, 0xA0), (0x1007, 0x0F), (0x1009, 0x20), (0x1010, 3),
        (0x2000, 1), (0x2001, 2), (0x2002, 3), (0x3000, 53), (0x3004, 10), (0x3009, 0x40), (0x3010, 2)] a of Some b \<Rightarrow> b | None \<Rightarrow> 0)"

lemma udp_image_bytes:
  "read_bytes udp_image 0x1000 32 = [10, 0, 2, 15, 53, 0, 0xA0, 0x0F, 0, 0x20, 0, 0, 0, 0, 0, 0, 3, 0, 0, 0, 0, 0, 0, 0, 0, 0, 0, 0, 0, 0, 0, 0]"
  "read_bytes udp_image 0x2000 3 = [1, 2, 3]"
  "read_bytes udp_image 0x3000 32 = [53, 0, 0, 0, 10, 0, 0, 0, 0, 0x40, 0, 0, 0, 0, 0, 0, 2, 0, 0, 0, 0, 0, 0, 0, 0, 0, 0, 0, 0, 0, 0, 0]"
  by code_simp+

lemma udp_image_args:
  "udp_send_args udp_image 0x1000 IPV4_ADDR 53 4000 0x2000 3 0" "udp_recv_args udp_image 0x3000 53 10 0x4000 2"
proof -
  have r: "is_user_range 0x1000 32" "is_user_range 0x3000 32" by (simp_all add: is_user_range_iff USER_MAX_def)
  show "udp_send_args udp_image 0x1000 IPV4_ADDR 53 4000 0x2000 3 0" "udp_recv_args udp_image 0x3000 53 10 0x4000 2"
    using r udp_image_bytes
    by (simp_all add: udp_send_args_def udp_recv_args_def copy_user_struct_def copy_from_user_def field16_def field32_def field64_def from_le64_def IPV4_ADDR_def)
qed

lemma loop_ops_ok: "nic_ok loop_ops"
  by (auto simp: nic_ok_def nic_recv_bounded_def loop_ops_def split: list.splits)

lemma loop_net_inv: "net_inv loop_net"
  by (simp add: net_inv_def srcs_ok_def loop_net_def net_init_def arp_inv_def ARP_MAX_def IPV4_ADDR_def loop_mac_unicast)

section \<open>Properties\<close>

text \<open>
  C17: No receiving call writes outside the caller's buffer. For \<open>sys_net_recv\<close> and \<open>sys_tcp_recv\<close> the result is at most
  the length of the buffer and exactly its first bytes, as many as the result says, may change, none of them on
  an error; \<open>sys_udp_recv_from\<close> changes its argument block besides, and neither on an error.
\<close>

theorem recv_calls_fill_buffer:
  assumes "nic_ok ops" and "net_inv (n_net s)"
  shows "(\<forall>args. copy_user_struct (n_um s) ptr 16 = Inr args \<longrightarrow> (case sys_net_recv ops ptr s of
            (r, s') \<Rightarrow> r \<le> uint (field64 args 1) \<and> (\<forall>x. n_um s' x \<noteq> n_um s x \<longrightarrow> uint (x - field64 args 0) < r)))
    \<and> (\<forall>args. copy_user_struct (n_um s) ptr 24 = Inr args \<longrightarrow> (case sys_tcp_recv ops ptr s of
            (r, s') \<Rightarrow> r \<le> uint (field64 args 2) \<and> (\<forall>x. n_um s' x \<noteq> n_um s x \<longrightarrow> uint (x - field64 args 1) < r)))
    \<and> (\<forall>args. copy_user_struct (n_um s) ptr 32 = Inr args \<longrightarrow> (case sys_udp_recv_from ops ptr s of
            (r, s') \<Rightarrow> r \<le> uint (field64 args 2) \<and> (\<forall>x. n_um s' x \<noteq> n_um s x \<longrightarrow>
               0 \<le> r \<and> (uint (x - field64 args 1) < r \<or> uint (x - ptr) < 32))))"
proof (intro conjI allI impI)
  have n: "nic_recv_bounded ops" using assms(1) by (simp add: nic_ok_def)
  fix args
  show "case sys_net_recv ops ptr s of
      (r, s') \<Rightarrow> r \<le> uint (field64 args 1) \<and> (\<forall>x. n_um s' x \<noteq> n_um s x \<longrightarrow> uint (x - field64 args 0) < r)"
    if "copy_user_struct (n_um s) ptr 16 = Inr args"
    using sys_net_recv_filled [OF n that] by (simp add: filled_def case_prod_unfold)
  show "case sys_tcp_recv ops ptr s of
      (r, s') \<Rightarrow> r \<le> uint (field64 args 2) \<and> (\<forall>x. n_um s' x \<noteq> n_um s x \<longrightarrow> uint (x - field64 args 1) < r)"
    if "copy_user_struct (n_um s) ptr 24 = Inr args"
    using sys_tcp_recv_filled [OF that] by (simp add: filled_def case_prod_unfold)
  show "case sys_udp_recv_from ops ptr s of (r, s') \<Rightarrow> r \<le> uint (field64 args 2) \<and> (\<forall>x. n_um s' x \<noteq> n_um s x \<longrightarrow>
      0 \<le> r \<and> (uint (x - field64 args 1) < r \<or> uint (x - ptr) < 32))"
    if a: "copy_user_struct (n_um s) ptr 32 = Inr args"
  proof -
    obtain r s' where r: "sys_udp_recv_from ops ptr s = (r, s')" by fastforce
    from sys_udp_recv_from_cases [OF a assms(2) r]
    have "r \<le> uint (field64 args 2) \<and> (\<forall>x. n_um s' x \<noteq> n_um s x \<longrightarrow> 0 \<le> r \<and> (uint (x - field64 args 1) < r \<or> uint (x - ptr) < 32))"
    proof (elim disjE exE conjE)
      assume "r \<le> 0" "n_um s' = n_um s"
      then show ?thesis using filled_same [of r "n_um s" 0 "field64 args 2"] by (simp add: filled_def)
    next
      fix i q xs m
      assume w: "r = int (length xs)" "length xs \<le> min (unat (field64 args 2)) 4096" "length i = 4"
        "copy_to_user (n_um s) (field64 args 1) xs = Some m" "copy_to_user m ptr (take 24 args @ i @ le16f q @ drop 30 args) = Some (n_um s')"
      have l: "length (take 24 args @ i @ le16f q @ drop 30 args) = 32" using w(3) copy_user_struct_length [OF a] by (simp add: le16f_def)
      have "unat (x - ptr) < 32" if "n_um s' x \<noteq> m x" for x using copy_to_user_changes [OF w(5) that] unfolding l .
      moreover have "unat (x - field64 args 1) < length xs" if "m x \<noteq> n_um s x" for x using copy_to_user_changes [OF w(4) that] .
      ultimately have "unat (x - field64 args 1) < length xs \<or> unat (x - ptr) < 32" if "n_um s' x \<noteq> n_um s x" for x using that by (metis (full_types))
      then show ?thesis using w(2) unfolding w(1) uint_nat of_nat_le_iff of_nat_less_iff
        by (metis min.boundedE of_nat_0_le_iff of_nat_less_numeral_iff)
    qed
    with r show ?thesis by simp
  qed
qed

theorem recv_calls_fill_buffer_witness:
  "case sys_udp_recv_from loop_ops 0x3000 \<lparr>n_um = udp_image, n_net = loop_net\<rparr> of (r, s') \<Rightarrow>
     r \<le> 2 \<and> (\<forall>x. n_um s' x \<noteq> udp_image x \<longrightarrow> 0 \<le> r \<and> (uint (x - 0x4000) < r \<or> uint (x - 0x3000) < 32))"
proof -
  let ?s = "\<lparr>n_um = udp_image, n_net = loop_net\<rparr>"
  obtain args where a: "copy_user_struct (n_um ?s) 0x3000 32 = Inr args" "field64 args 1 = 0x4000" "field64 args 2 = 2"
    using udp_image_args(2) by (auto simp: udp_recv_args_def)
  have "net_inv (n_net ?s)" using loop_net_inv by simp
  from recv_calls_fill_buffer [OF loop_ops_ok this, THEN conjunct2, THEN conjunct2, THEN spec, THEN mp, OF a(1)]
  show ?thesis unfolding a(2,3) by simp
qed

text \<open>
  C16: Every network call keeps the invariant of the stack: bounded tables, one ARP binding per address, one
  connection per descriptor below the next one to hand out. And it keeps the kernel's memory: no byte at or above
  the end of the user range changes, whatever the argument blocks say and whatever frames arrive.
\<close>

theorem net_syscalls_safe:
  assumes "nic_ok ops" and "net_inv (n_net s)" and "next_fd (n_net s) \<noteq> - 1" and "USER_MAX \<le> x"
  shows "net_inv (n_net (snd (run_net ops c s))) \<and> n_um (snd (run_net ops c s)) x = n_um s x"
  using run_net_inv [OF assms(2,3)] run_net_kernel [OF assms(1,2,4)] by blast

theorem net_syscalls_safe_witness:
  "net_inv (n_net (snd (run_net loop_ops (UdpSendTo 0x1000) \<lparr>n_um = udp_image, n_net = loop_net\<rparr>)))
    \<and> n_um (snd (run_net loop_ops (UdpSendTo 0x1000) \<lparr>n_um = udp_image, n_net = loop_net\<rparr>)) USER_MAX
      = n_um \<lparr>n_um = udp_image, n_net = loop_net\<rparr> USER_MAX"
  by (rule net_syscalls_safe) (simp_all add: loop_ops_ok loop_net_inv, simp add: loop_net_def net_init_def)

text \<open>
  C3: A datagram goes from one process to another. When the caller's block names the destination, the ports and a
  buffer of at most 1472 bytes and the driver takes the frame, \<open>sys_udp_send_to\<close> returns the length of the data; a
  process whose stack gets this frame and that waits on the destination port receives from \<open>sys_udp_recv_from\<close> the
  length, the bytes at the start of its buffer, cut to it, and the sender's address and port in its block.
\<close>

theorem udp_syscalls_end_to_end:
  assumes "udp_send_args (n_um s) ap dst_ip dst_port src_port buf len t" and "copy_from_user (n_um s) buf (unat len) = Some data"
    and "len \<noteq> 0" "unat len \<le> 1472" "dst_ip \<in> {IPV4_ADDR, [255, 255, 255, 255]}" "dst_port \<noteq> 0" "src_port \<noteq> 0"
    and "is_ready ops (n_net s)" "link_up ops (n_net s)" "mac_addr ops (n_net s) = Some src_mac" "length src_mac = 6"
    and "arp_lookup (next_hop_for dst_ip) (n_net s) = Some dst_mac" "length dst_mac = 6"
    and "nic_send_frame ops (udp_frame dst_mac src_mac (next_id (n_net s)) dst_ip dst_port src_port data) (dev (n_net s)) = (True, d)"
    and "is_ready rops (n_net r)" "length (udp_rx (n_net r)) < MAX_UDP_QUEUE" "port_queue dst_port (n_net r) = []"
    and "nic_recv_frame rops 4096 (dev (n_net r))
      = (Some (udp_frame dst_mac src_mac (next_id (n_net s)) dst_ip dst_port src_port data), e)"
    and "is_our_mac rops ((n_net r)\<lparr>dev := e\<rparr>) dst_mac \<or> is_broadcast_mac dst_mac"
    and "udp_recv_args (n_um r) rp dst_port polls out cap" "1 < polls" "cap \<noteq> 0" "is_user_range out (min (unat cap) (length data))"
    and "unat out + min (unat cap) (length data) \<le> unat rp \<or> unat rp + 32 \<le> unat out"
  shows "sys_udp_send_to ops ap s = (int (length data), s\<lparr>n_net := (n_net s)\<lparr>next_id := next_id (n_net s) + 1, dev := d\<rparr>\<rparr>)
    \<and> (\<exists>m t. sys_udp_recv_from rops rp r = (int (min (unat cap) (length data)), r\<lparr>n_um := m, n_net := t\<rparr>)
         \<and> read_bytes m out (min (unat cap) (length data)) = take (unat cap) data
         \<and> read_bytes m (rp + 24) 4 = IPV4_ADDR \<and> read_bytes m (rp + 28) 2 = le16f src_port)"
proof -
  have l: "length data = unat len" using assms(2) by (auto simp: copy_from_user_def split: if_splits)
  then have ne: "data \<noteq> []" using assms(3) by (auto simp: unat_eq_zero)
  have lc: "length data \<le> MAX_UDP_PAYLOAD" using l assms(4) by (simp add: MAX_UDP_PAYLOAD_def)
  let ?cap = "min (unat cap) 4096"
  have c: "0 < ?cap" using assms(22) by (simp add: unat_gt_0)
  from udp_end_to_end [OF assms(5-7) ne lc assms(8-13,15-19) c assms(21), of t]
  have send: "send_to ops dst_ip dst_port src_port data t (n_net s) = (Inr (length data), (n_net s)\<lparr>next_id := next_id (n_net s) + 1, dev := d\<rparr>)"
    and "\<exists>u. recv_from rops dst_port ?cap polls (n_net r) = (Inr (IPV4_ADDR, src_port, take ?cap data), u)"
    using assms(14) by auto
  then obtain u where u: "recv_from rops dst_port ?cap polls (n_net r) = (Inr (IPV4_ADDR, src_port, take ?cap data), u)" by blast
  have tk: "take ?cap data = take (unat cap) data" "length (take (unat cap) data) = min (unat cap) (length data)"
    using l assms(4) by (auto simp: min_def)
  have "length (take (unat cap) data) \<le> 4096" using l assms(4) by simp
  from sys_udp_recv_from_args [OF assms(20,6,22) u [unfolded tk(1)] _ this] tk(2) assms(23,24) sys_udp_send_to_args [OF assms(1,3,4,2) send]
  show ?thesis by auto
qed

theorem udp_syscalls_end_to_end_witness:
  "\<exists>F. sys_udp_send_to loop_ops 0x1000 \<lparr>n_um = udp_image, n_net = loop_net\<rparr>
      = (3, \<lparr>n_um = udp_image, n_net = loop_net\<lparr>next_id := next_id loop_net + 1, dev := [F]\<rparr>\<rparr>)
    \<and> (\<exists>m t. sys_udp_recv_from loop_ops 0x3000 \<lparr>n_um = udp_image, n_net = loop_net\<lparr>dev := [F]\<rparr>\<rparr> = (2, \<lparr>n_um = m, n_net = t\<rparr>)
         \<and> read_bytes m 0x4000 2 = [1, 2])"
proof -
  let ?F = "udp_frame loop_mac loop_mac (next_id loop_net) IPV4_ADDR 53 4000 [1, 2, 3]"
  let ?s = "\<lparr>n_um = udp_image, n_net = loop_net\<rparr>"
  let ?r = "\<lparr>n_um = udp_image, n_net = loop_net\<lparr>dev := [?F]\<rparr>\<rparr>"
  have hop: "next_hop_for IPV4_ADDR = IPV4_ADDR" by (simp add: next_hop_for_def same_subnet_def list_all_iff)
  have arp: "arp_lookup (next_hop_for IPV4_ADDR) (n_net ?s) = Some loop_mac" by (simp add: hop arp_lookup_def loop_net_def)
  have f: "nic_recv_frame loop_ops 4096 (dev (n_net ?r)) = (Some ?F, [])"
    using loop_recv [of ?F] by (simp add: length_udp_frame MAX_UDP_PAYLOAD_def)
  have data: "copy_from_user (n_um ?s) 0x2000 (unat (3 :: u64)) = Some [1, 2, 3]"
    using udp_image_bytes(2) by (simp add: copy_from_user_def is_user_range_iff USER_MAX_def)
  have args: "udp_send_args (n_um ?s) 0x1000 IPV4_ADDR 53 4000 0x2000 3 0" "udp_recv_args (n_um ?r) 0x3000 53 10 0x4000 2"
    using udp_image_args by simp_all
  have "sys_udp_send_to loop_ops 0x1000 ?s
      = (int (length [1, 2, 3 :: u8]), ?s\<lparr>n_net := (n_net ?s)\<lparr>next_id := next_id (n_net ?s) + 1, dev := [?F]\<rparr>\<rparr>)
    \<and> (\<exists>m t. sys_udp_recv_from loop_ops 0x3000 ?r = (int (min (unat (2 :: u64)) (length [1, 2, 3 :: u8])), ?r\<lparr>n_um := m, n_net := t\<rparr>)
         \<and> read_bytes m 0x4000 (min (unat (2 :: u64)) (length [1, 2, 3 :: u8])) = take (unat (2 :: u64)) [1, 2, 3]
         \<and> read_bytes m (0x3000 + 24) 4 = IPV4_ADDR \<and> read_bytes m (0x3000 + 28) 2 = le16f 4000)"
    by (rule udp_syscalls_end_to_end [OF args(1) data _ _ _ _ _ _ _ _ length_loop_mac arp length_loop_mac _ _ _ _ _ _ args(2), where e = "[]"])
      (use f in \<open>simp_all add: is_user_range_iff USER_MAX_def MAX_UDP_QUEUE_def is_ready_def link_up_def mac_addr_def is_our_mac_def
        port_queue_def loop_ops_def loop_net_def net_init_def\<close>)
  then show ?thesis by (intro exI [of _ ?F]) (auto simp: numeral_2_eq_2 [symmetric])
qed

end
