(* ===== verification/Blk.thy ===== *)
theory Blk
  imports User_Mem
begin

text \<open>
  The block device as the file systems see it (\<^verbatim>\<open>drivers/virtio/blk.rs\<close>, \<open>read_at\<close> and \<open>write_at\<close>), and the
  combinators for code that can panic, return an error and write to the disk.

  The transfer of whole 512-byte sectors (\<open>read_sectors512\<close>, \<open>write_sectors512\<close>) is done by the device
  through shared memory: it is the parameter record \<open>blk_ops\<close> over the device's state. \<open>blk_ok\<close> is what the
  virtio block device guarantees: a read returns the stored bytes and a completed write stores them.
\<close>

section \<open>Errors, panics and state\<close>

text \<open>
  \<open>rbind\<close> is the \<open>?\<close> operator in code that only reads, \<open>sbind\<close> in code that writes, \<open>getr\<close> a read inside
  code that writes. \<open>None\<close> is a panic, or a loop that does not end.
\<close>

definition rbind :: "('e + 'a) option \<Rightarrow> ('a \<Rightarrow> ('e + 'c) option) \<Rightarrow> ('e + 'c) option" where
  "rbind m f = Option.bind m (\<lambda>r. case r of Inl e \<Rightarrow> Some (Inl e) | Inr a \<Rightarrow> f a)"

definition sbind ::
  "(('e + 'a) \<times> 'd) option \<Rightarrow> ('a \<Rightarrow> 'd \<Rightarrow> (('e + 'c) \<times> 'd) option) \<Rightarrow> (('e + 'c) \<times> 'd) option" where
  "sbind m f = Option.bind m (\<lambda>rd. case rd of (r, d) \<Rightarrow> (case r of Inl e \<Rightarrow> Some (Inl e, d) | Inr a \<Rightarrow> f a d))"

definition getr :: "'d \<Rightarrow> ('e + 'a) option \<Rightarrow> ('a \<Rightarrow> (('e + 'c) \<times> 'd) option) \<Rightarrow> (('e + 'c) \<times> 'd) option" where
  "getr d m f = Option.bind m (\<lambda>r. case r of Inl e \<Rightarrow> Some (Inl e, d) | Inr a \<Rightarrow> f a)"

lemma rbind_simps [simp]:
  "rbind None f = None" "rbind (Some (Inl e)) f = Some (Inl e)" "rbind (Some (Inr a)) f = f a"
  by (simp_all add: rbind_def)

lemma sbind_simps [simp]:
  "sbind None f = None" "sbind (Some (Inl e, d)) f = Some (Inl e, d)" "sbind (Some (Inr a, d)) g = g a d"
  by (simp_all add: sbind_def)

lemma getr_simps [simp]:
  "getr d None f = None" "getr d (Some (Inl e)) f = Some (Inl e, d)" "getr d (Some (Inr a)) g = g a"
  by (simp_all add: getr_def)

lemma sbind_assoc: "sbind (sbind m f) g = sbind m (\<lambda>a d. sbind (f a d) g)"
proof (cases m)
  case (Some p)
  then show ?thesis by (cases p; cases "fst p") auto
qed simp

lemma rbind_mono [partial_function_mono]:
  assumes "mono_option B" "\<And>y. mono_option (\<lambda>f. C y f)"
  shows "mono_option (\<lambda>f. rbind (B f) (\<lambda>y. C y f))"
  unfolding rbind_def
proof (rule bind_mono)
  show "mono_option (\<lambda>f. case r of Inl e \<Rightarrow> Some (Inl e) | Inr a \<Rightarrow> C a f)" for r
    using assms(2) by (cases r) (auto intro: option.const_mono)
qed (rule assms(1))

lemma sbind_mono [partial_function_mono]:
  assumes "mono_option B" "\<And>y d. mono_option (\<lambda>f. C y d f)"
  shows "mono_option (\<lambda>f. sbind (B f) (\<lambda>y d. C y d f))"
  unfolding sbind_def
proof (rule bind_mono)
  show "mono_option (\<lambda>f. case rd of (r, d) \<Rightarrow> (case r of Inl e \<Rightarrow> Some (Inl e, d) | Inr a \<Rightarrow> C a d f))" for rd
    using assms(2) by (cases rd; cases "fst rd") (auto intro: option.const_mono)
qed (rule assms(1))

lemma getr_mono [partial_function_mono]:
  assumes "\<And>y. mono_option (\<lambda>f. C y f)"
  shows "mono_option (\<lambda>f. getr d m (\<lambda>y. C y f))"
  unfolding getr_def
proof (rule bind_mono)
  show "mono_option (\<lambda>f. case r of Inl e \<Rightarrow> Some (Inl e, d) | Inr a \<Rightarrow> C a f)" for r
    using assms by (cases r) (auto intro: option.const_mono)
qed (rule option.const_mono)

section \<open>The device\<close>

record 'b blk_ops =
  d_present :: "'b \<Rightarrow> bool"
  read_sectors512 :: "'b \<Rightarrow> u64 \<Rightarrow> nat \<Rightarrow> u8 list option"
  write_sectors512 :: "'b \<Rightarrow> u64 \<Rightarrow> u8 list \<Rightarrow> bool \<times> 'b"

text \<open>\<open>tmp[start..start + n]\<close>\<close>

definition slice :: "'a list \<Rightarrow> nat \<Rightarrow> nat \<Rightarrow> 'a list option" where
  "slice xs start n = (if start + n \<le> length xs then Some (take n (drop start xs)) else None)"

text \<open>The sectors a byte range touches: the first one and how many.\<close>

definition sector_span :: "u64 \<Rightarrow> nat \<Rightarrow> (u64 \<times> nat) option" where
  "sector_span off n = do {
     end_off \<leftarrow> checked_add off (of_nat n);
     e \<leftarrow> checked_add end_off 511;
     k \<leftarrow> checked_sub (e div 512) (off div 512);
     Some (off div 512, max (unat k) 1)
   }"

definition read_at :: "'b blk_ops \<Rightarrow> 'b \<Rightarrow> u64 \<Rightarrow> nat \<Rightarrow> u8 list option option" where
  "read_at ops d off n =
     (if \<not> d_present ops d then Some None
      else do {
        (first512, nsec512) \<leftarrow> sector_span off n;
        if off mod 512 = 0 \<and> n mod 512 = 0 then Some (read_sectors512 ops d first512 n)
        else case read_sectors512 ops d first512 (nsec512 * 512) of
          None \<Rightarrow> Some None
        | Some tmp \<Rightarrow> do { b \<leftarrow> slice tmp (unat (off mod 512)) n; Some (Some b) }
      })"

definition write_at :: "'b blk_ops \<Rightarrow> 'b \<Rightarrow> u64 \<Rightarrow> u8 list \<Rightarrow> (bool \<times> 'b) option" where
  "write_at ops d off buf =
     (if \<not> d_present ops d then Some (False, d)
      else do {
        (first512, nsec512) \<leftarrow> sector_span off (length buf);
        if off mod 512 = 0 \<and> length buf mod 512 = 0 then Some (write_sectors512 ops d first512 buf)
        else case read_sectors512 ops d first512 (nsec512 * 512) of
          None \<Rightarrow> Some (False, d)
        | Some tmp \<Rightarrow>
            (let start = unat (off mod 512) in do {
               assert_that (start + length buf \<le> length tmp);
               Some (write_sectors512 ops d first512 (take start tmp @ buf @ drop (start + length buf) tmp))
             })
      })"

section \<open>What the device guarantees\<close>

text \<open>
  \<open>img d\<close> is the content of the disk, by byte address, and \<open>cap\<close> its size in sectors. Inside its capacity
  the device serves every transfer of whole sectors.
\<close>

definition bytes_of :: "(nat \<Rightarrow> u8) \<Rightarrow> nat \<Rightarrow> nat \<Rightarrow> u8 list" where
  "bytes_of m a n = map m [a..<a + n]"

definition put_bytes :: "nat \<Rightarrow> u8 list \<Rightarrow> (nat \<Rightarrow> u8) \<Rightarrow> nat \<Rightarrow> u8" where
  "put_bytes a bs m = (\<lambda>x. if a \<le> x \<and> x < a + length bs then bs ! (x - a) else m x)"

definition blk_ok :: "'b blk_ops \<Rightarrow> ('b \<Rightarrow> nat \<Rightarrow> u8) \<Rightarrow> nat \<Rightarrow> bool" where
  "blk_ok ops img cap \<longleftrightarrow> cap * 512 < 2 ^ 63 \<and>
     (\<forall>d. d_present ops d) \<and>
     (\<forall>d s n. n mod 512 = 0 \<and> unat s * 512 + n \<le> cap * 512 \<longrightarrow>
        read_sectors512 ops d s n = Some (bytes_of (img d) (unat s * 512) n)) \<and>
     (\<forall>d s bs. length bs mod 512 = 0 \<and> unat s * 512 + length bs \<le> cap * 512 \<longrightarrow>
        (\<exists>d'. write_sectors512 ops d s bs = (True, d') \<and> img d' = put_bytes (unat s * 512) bs (img d)))"

lemma length_bytes_of [simp]: "length (bytes_of m a n) = n"
  by (simp add: bytes_of_def)

lemma nth_bytes_of [simp]: "i < n \<Longrightarrow> bytes_of m a n ! i = m (a + i)"
  by (simp add: bytes_of_def)

lemma take_drop_bytes_of: "k + n \<le> l \<Longrightarrow> take n (drop k (bytes_of m a l)) = bytes_of m (a + k) n"
  by (simp add: bytes_of_def take_map drop_map)

lemma bytes_of_put_same [simp]: "bytes_of (put_bytes a bs m) a (length bs) = bs"
  by (rule nth_equalityI) (auto simp: bytes_of_def put_bytes_def)

lemma bytes_of_put_other:
  "a + length bs \<le> b \<or> b + n \<le> a \<Longrightarrow> bytes_of (put_bytes a bs m) b n = bytes_of m b n"
  by (auto simp: bytes_of_def put_bytes_def)

lemma sector_span_eq:
  assumes "unat off + n + 511 < 2 ^ 64"
  shows "sector_span off n = Some (off div 512, max ((unat off + n + 511) div 512 - unat off div 512) 1)"
proof -
  have n: "unat (of_nat n :: u64) = n" using assms by (simp only: unat_of_nat) simp
  have a: "checked_add off (of_nat n) = Some (off + of_nat n)" "unat (off + of_nat n) = unat off + n"
    using assms n by (simp_all add: checked_add_def unat_word_ariths)
  have b: "checked_add (off + of_nat n) 511 = Some (off + of_nat n + 511)"
    "unat (off + of_nat n + 511) = unat off + n + 511"
    using assms a(2) by (simp_all add: checked_add_def unat_word_ariths)
  have d: "unat ((off + of_nat n + 511) div 512) = (unat off + n + 511) div 512" "unat (off div 512) = unat off div 512"
    using b(2) by (simp_all add: unat_div)
  have "off div 512 \<le> (off + of_nat n + 511) div 512"
    unfolding word_le_nat_alt d by (rule div_le_mono) simp
  then have "checked_sub ((off + of_nat n + 511) div 512) (off div 512) = Some ((off + of_nat n + 511) div 512 - off div 512)"
    "unat ((off + of_nat n + 511) div 512 - off div 512) = (unat off + n + 511) div 512 - unat off div 512"
    using d by (simp_all add: checked_sub_def unat_sub)
  then show ?thesis using a(1) b(1) by (simp add: sector_span_def)
qed


text \<open>\<open>read_at\<close> and \<open>write_at\<close> serve any byte range inside the capacity, aligned or not.\<close>

lemma span_covers:
  fixes a n :: nat
  defines "k \<equiv> max ((a + n + 511) div 512 - a div 512) 1"
  shows "a mod 512 + n \<le> k * 512" "a + n \<le> c * 512 \<Longrightarrow> 0 < n \<Longrightarrow> a div 512 * 512 + k * 512 \<le> c * 512"
proof -
  define q r e t where "q = a div 512" "r = a mod 512" "e = (a + n + 511) div 512" "t = (a + n + 511) mod 512"
  have a: "a = q * 512 + r" "a + n + 511 = e * 512 + t" "t < 512"
    by (simp_all add: q_r_e_t_def)
  then have e: "e * 512 \<ge> q * 512 + r + n" by linarith
  then have "q \<le> e" by linarith
  then have "max (e - q) 1 * 512 \<ge> (e - q) * 512" "(e - q) * 512 = e * 512 - q * 512"
    by (simp_all add: diff_mult_distrib)
  then show "a mod 512 + n \<le> k * 512" using e unfolding k_def q_r_e_t_def [symmetric] by linarith
  assume h: "a + n \<le> c * 512" "0 < n"
  have "e * 512 \<le> c * 512 + 511" using a(2) h(1) by linarith
  then have "e \<le> c" by linarith
  moreover have "q < e"
  proof (rule ccontr)
    assume "\<not> q < e"
    then have "e * 512 \<le> q * 512" by simp
    with e h(2) show False by linarith
  qed
  ultimately have "max (e - q) 1 = e - q" "q * 512 + (e - q) * 512 = e * 512" by (simp_all add: diff_mult_distrib)
  then show "a div 512 * 512 + k * 512 \<le> c * 512" using \<open>e \<le> c\<close> unfolding k_def q_r_e_t_def [symmetric] by simp
qed

lemma read_at_ok:
  assumes "blk_ok ops img cap" "unat off + n \<le> cap * 512" "0 < n"
  shows "read_at ops d off n = Some (Some (bytes_of (img d) (unat off) n))"
proof -
  let ?k = "max ((unat off + n + 511) div 512 - unat off div 512) 1"
  have rd: "read_sectors512 ops d s m = Some (bytes_of (img d) (unat s * 512) m)"
    if "m mod 512 = 0" "unat s * 512 + m \<le> cap * 512" for s m
    using assms(1) that by (auto simp: blk_ok_def)
  have sp: "sector_span off n = Some (off div 512, ?k)"
    using assms(1,2) by (intro sector_span_eq) (simp add: blk_ok_def)
  have q: "unat (off div 512) = unat off div 512" "unat (off mod 512) = unat off mod 512"
    by (simp_all add: unat_div unat_mod)
  have al: "unat off div 512 * 512 = unat off" if "off mod 512 = 0"
  proof -
    have "unat off mod 512 = 0" using that q(2) by simp
    then show ?thesis using div_mult_mod_eq [of "unat off" 512] by linarith
  qed
  have pr: "d_present ops d" using assms(1) by (simp add: blk_ok_def)
  show ?thesis
  proof (cases "off mod 512 = 0 \<and> n mod 512 = 0")
    case True
    then show ?thesis using pr sp rd [of n "off div 512"] q(1) al assms(2) by (simp add: read_at_def)
  next
    case False
    have "unat off mod 512 + n \<le> ?k * 512" "unat off div 512 * 512 + ?k * 512 \<le> cap * 512"
      using span_covers(1) [of "unat off" n] span_covers(2) [of "unat off" n cap, OF assms(2,3)] by simp_all
    then have r: "read_sectors512 ops d (off div 512) (?k * 512) = Some (bytes_of (img d) (unat off div 512 * 512) (?k * 512))"
      using rd [of "?k * 512" "off div 512"] q(1) by simp
    have "slice (bytes_of (img d) (unat off div 512 * 512) (?k * 512)) (unat (off mod 512)) n
        = Some (bytes_of (img d) (unat off) n)"
      using \<open>unat off mod 512 + n \<le> ?k * 512\<close> q(2) by (simp add: slice_def take_drop_bytes_of)
    then show ?thesis using False pr sp r by (auto simp: read_at_def)
  qed
qed

lemma write_at_ok:
  assumes "blk_ok ops img cap" "unat off + length buf \<le> cap * 512" "buf \<noteq> []"
  shows "\<exists>d'. write_at ops d off buf = Some (True, d') \<and> img d' = put_bytes (unat off) buf (img d)"
proof -
  let ?n = "length buf"
  let ?k = "max ((unat off + ?n + 511) div 512 - unat off div 512) 1"
  have rd: "read_sectors512 ops d s m = Some (bytes_of (img d) (unat s * 512) m)"
    if "m mod 512 = 0" "unat s * 512 + m \<le> cap * 512" for s m
    using assms(1) that by (auto simp: blk_ok_def)
  have wr: "\<exists>d'. write_sectors512 ops d s bs = (True, d') \<and> img d' = put_bytes (unat s * 512) bs (img d)"
    if "length bs mod 512 = 0" "unat s * 512 + length bs \<le> cap * 512" for s bs
    using assms(1) that by (auto simp: blk_ok_def)
  have sp: "sector_span off ?n = Some (off div 512, ?k)"
    using assms(1,2) by (intro sector_span_eq) (simp add: blk_ok_def)
  have q: "unat (off div 512) = unat off div 512" "unat (off mod 512) = unat off mod 512"
    by (simp_all add: unat_div unat_mod)
  have dm: "unat off div 512 * 512 + unat off mod 512 = unat off" by simp
  have pr: "d_present ops d" using assms(1) by (simp add: blk_ok_def)
  show ?thesis
  proof (cases "off mod 512 = 0 \<and> ?n mod 512 = 0")
    case True
    then have "unat off mod 512 = 0" using q(2) by simp
    then have "unat off div 512 * 512 = unat off" using dm by linarith
    then show ?thesis using True pr sp wr [of buf "off div 512"] q(1) assms(2) by (auto simp: write_at_def)
  next
    case False
    let ?a = "unat off div 512 * 512" and ?s = "unat off mod 512"
    define K where "K = ?k * 512"
    let ?tmp = "bytes_of (img d) ?a K"
    let ?new = "take ?s ?tmp @ buf @ drop (?s + ?n) ?tmp"
    have sz: "?s + ?n \<le> K" "?a + K \<le> cap * 512" unfolding K_def
      by (rule span_covers(1), rule span_covers(2)) (use assms(2,3) in simp_all)
    have K: "K mod 512 = 0" by (simp add: K_def)
    have r: "read_sectors512 ops d (off div 512) (?k * 512) = Some ?tmp"
      unfolding K_def [symmetric] using rd [of K "off div 512", unfolded q(1), OF K sz(2)] .
    have len: "length ?new = K" using sz(1) by simp
    have "length ?new mod 512 = 0" "unat (off div 512) * 512 + length ?new \<le> cap * 512"
      unfolding len q(1) using sz(2) K by simp_all
    from wr [OF this] obtain d' where d': "write_sectors512 ops d (off div 512) ?new = (True, d')"
        "img d' = put_bytes (unat (off div 512) * 512) ?new (img d)" by metis
    note d' = d'(1) d'(2) [unfolded q(1)]
    have "put_bytes ?a ?new (img d) = put_bytes (unat off) buf (img d)"
    proof
      fix x
      show "put_bytes ?a ?new (img d) x = put_bytes (unat off) buf (img d) x"
      proof (cases "?a \<le> x \<and> x < ?a + K")
        case True
        then obtain i where i: "x = ?a + i" "i < K" by (metis le_iff_add nat_add_left_cancel_less)
        have "put_bytes ?a ?new (img d) x = ?new ! i" using i len by (simp add: put_bytes_def)
        moreover have "?new ! i = (if i < ?s then ?tmp ! i else if i < ?s + ?n then buf ! (i - ?s) else ?tmp ! i)"
          using i(2) sz(1) by (auto simp: nth_append)
        moreover have "?tmp ! i = img d x" using i by (simp add: bytes_of_def)
        moreover have "unat off \<le> x \<longleftrightarrow> ?s \<le> i" "x < unat off + ?n \<longleftrightarrow> i < ?s + ?n" "x - unat off = i - ?s"
          using i(1) dm by linarith+
        ultimately show ?thesis by (simp add: put_bytes_def)
      next
        case False
        then have "\<not> (unat off \<le> x \<and> x < unat off + ?n)" using dm sz(1) by linarith
        then show ?thesis using False unfolding put_bytes_def len by auto
      qed
    qed
    then show ?thesis using False pr sp r d' q(2) sz(1) by (auto simp: write_at_def Let_def assert_that_def)
  qed
qed

section \<open>A memory disk\<close>

text \<open>A disk of 64 sectors in memory meets the guarantee: it serves the concrete examples.\<close>

definition ram_disk :: "(nat \<Rightarrow> u8) blk_ops" where
  "ram_disk = \<lparr>d_present = \<lambda>_. True,
     read_sectors512 = \<lambda>m s n. if unat s * 512 + n \<le> 64 * 512 then Some (bytes_of m (unat s * 512) n) else None,
     write_sectors512 = \<lambda>m s bs. if unat s * 512 + length bs \<le> 64 * 512 then (True, put_bytes (unat s * 512) bs m) else (False, m)\<rparr>"

lemma ram_disk_ok: "blk_ok ram_disk id 64"
  by (auto simp: blk_ok_def ram_disk_def)

end
