(* ===== verification/Vfs_Path.thy ===== *)
theory Vfs_Path
  imports Prelude "HOL-Library.Sublist"
begin

text \<open>
  \<^verbatim>\<open>kernel/fs/vfs/path.rs\<close>, \<^verbatim>\<open>error.rs\<close> and the mount table of \<^verbatim>\<open>mount.rs\<close>: paths as byte strings, the table sorted
  by the length of the mount point, and the search for the file system that serves a path. A file system is
  a value of the parameter type \<open>'f\<close>. The specification reads a path as its list of components: a mount
  serves the paths that its components are a prefix of, and the longest prefix wins.
\<close>

datatype vfs_error = NotMounted | BadPath | VIo | VFull | VNotFound | VName | Unsupported | FsSpecific

type_synonym path = "u8 list"

section \<open>\<^verbatim>\<open>path.rs\<close>\<close>

text \<open>\<open>String::push(b as char)\<close> appends the UTF-8 encoding of the code point \<open>b\<close>.\<close>

definition push_char :: "u8 \<Rightarrow> u8 list" where
  "push_char b = (if b < 0x80 then [b] else [0xC0 OR drop_bit 6 b, 0x80 OR (b AND 0x3F)])"

fun collapse :: "bool \<Rightarrow> path \<Rightarrow> path" where
  "collapse last_is_slash [] = []"
| "collapse last_is_slash (b # bs) =
     (if b = SLASH then (if last_is_slash then [] else [SLASH]) @ collapse True bs
      else push_char b @ collapse False bs)"

definition pop_slash :: "path \<Rightarrow> path" where
  "pop_slash s = (if length s > 1 \<and> last s = SLASH then butlast s else s)"

definition normalize_path :: "path \<Rightarrow> vfs_error + path" where
  "normalize_path p =
     (if p = [] then Inl BadPath
      else let out = (if hd p = SLASH then p else SLASH # p)
           in Inr (pop_slash (collapse False out)))"

definition normalize_mountpoint :: "path \<Rightarrow> vfs_error + path" where
  "normalize_mountpoint mp =
     (case normalize_path mp of Inl e \<Rightarrow> Inl e | Inr s \<Rightarrow> Inr (pop_slash s))"

text \<open>\<open>&path[n..]\<close> panics when \<open>n\<close> is past the end or inside a character.\<close>

definition str_from :: "path \<Rightarrow> nat \<Rightarrow> path option" where
  "str_from s n =
     (if n > length s then None
      else if n < length s \<and> 0x80 \<le> s ! n \<and> s ! n \<le> 0xBF then None
      else Some (drop n s))"

definition strip_mount_prefix :: "path \<Rightarrow> path \<Rightarrow> path option" where
  "strip_mount_prefix path mp =
     (if mp = [SLASH] then Some path
      else do {
        tail \<leftarrow> str_from path (length mp);
        Some (if tail = [] then [SLASH] else if hd tail = SLASH then tail else SLASH # tail)
      })"

section \<open>The mount table\<close>

record 'f mount =
  mp :: path
  m_fs :: 'f

text \<open>
  The common tail of \<open>mount_fat32\<close> and \<open>mount_ext2\<close>: replace the file system at a known mount point, or
  append the mount and sort. The source's sort is unstable; the second part of \<open>resolve_longest_prefix\<close> below shows that the
  order among mount points of one length does not matter.
\<close>

definition mount_at :: "path \<Rightarrow> 'f \<Rightarrow> 'f mount list \<Rightarrow> 'f mount list" where
  "mount_at p fs tbl =
     (if find (\<lambda>m. mp m = p) tbl \<noteq> None then update_first (\<lambda>m. mp m = p) (\<lambda>m. m\<lparr>m_fs := fs\<rparr>) tbl
      else sort_key (\<lambda>m. - int (length (mp m))) (tbl @ [\<lparr>mp = p, m_fs = fs\<rparr>]))"

definition serves :: "path \<Rightarrow> path \<Rightarrow> bool" where
  "serves p m =
     (if length p < length m then False
      else if length p = length m then p = m
      else take (length m) p = m \<and> (m = [SLASH] \<or> p ! length m = SLASH))"

fun resolve_mounts :: "path \<Rightarrow> 'f mount list \<Rightarrow> (vfs_error + 'f \<times> path) option" where
  "resolve_mounts p [] = Some (Inl NotMounted)"
| "resolve_mounts p (m # ms) =
     (if serves p (mp m) then do { rel \<leftarrow> strip_mount_prefix p (mp m); Some (Inr (m_fs m, rel)) }
      else resolve_mounts p ms)"

definition resolve :: "path \<Rightarrow> 'f mount list \<Rightarrow> (vfs_error + 'f \<times> path) option" where
  "resolve path mounts =
     (case normalize_path path of Inl e \<Rightarrow> Some (Inl e) | Inr p \<Rightarrow> resolve_mounts p mounts)"

section \<open>Components\<close>

text \<open>\<open>str::split\<close> at a byte, and the components of a path.\<close>

fun split_on :: "'a \<Rightarrow> 'a list \<Rightarrow> 'a list list" where
  "split_on c [] = [[]]"
| "split_on c (b # bs) =
     (if b = c then [] # split_on c bs
      else case split_on c bs of x # xs \<Rightarrow> (b # x) # xs | [] \<Rightarrow> [[b]])"

definition comps :: "path \<Rightarrow> path list" where
  "comps p = filter (\<lambda>c. c \<noteq> []) (split_on SLASH p)"

abbreviation slashed :: "path list \<Rightarrow> path" where
  "slashed cs \<equiv> concat (map (\<lambda>c. SLASH # c) cs)"

definition render :: "path list \<Rightarrow> path" where
  "render cs = (if cs = [] then [SLASH] else slashed cs)"

definition ascii :: "path \<Rightarrow> bool" where
  "ascii p \<longleftrightarrow> (\<forall>b \<in> set p. b < 0x80)"

definition names :: "path list \<Rightarrow> bool" where
  "names cs \<longleftrightarrow> (\<forall>c \<in> set cs. c \<noteq> [] \<and> SLASH \<notin> set c)"

lemma split_on_not_Nil [simp]: "split_on c bs \<noteq> []"
  by (cases bs) (auto split: list.split)

lemma split_on_Cons:
  obtains x xs where "split_on c bs = x # xs"
  by (cases "split_on c bs") auto

lemma comps_Nil [simp]: "comps [] = []"
  by (simp add: comps_def)

lemma comps_slash [simp]: "comps (SLASH # bs) = comps bs"
  by (simp add: comps_def)

lemma split_on_no_sep: "x \<in> set (split_on c bs) \<Longrightarrow> c \<notin> set x"
  by (induction bs arbitrary: x) (auto split: list.splits if_splits)

lemma names_comps [simp]: "names (comps p)"
  by (auto simp: names_def comps_def dest: split_on_no_sep)

lemma split_on_append_name: "c \<notin> set x \<Longrightarrow> split_on c (x @ bs) = (x @ hd (split_on c bs)) # tl (split_on c bs)"
  by (induction x) auto

lemma comps_slashed: "names cs \<Longrightarrow> comps (slashed cs) = cs"
proof (induction cs)
  case (Cons x cs)
  have x: "SLASH \<notin> set x" "x \<noteq> []" and IH: "comps (slashed cs) = cs" using Cons by (auto simp: names_def)
  show ?case
  proof (cases cs)
    case Nil
    then show ?thesis using x split_on_append_name [of SLASH x "[]"] by (simp add: comps_def)
  next
    case (Cons y ys)
    then show ?thesis using x IH split_on_append_name [of SLASH x "slashed cs"] by (simp add: comps_def)
  qed
qed simp

lemma comps_render [simp]: "names cs \<Longrightarrow> comps (render cs) = cs"
  by (simp add: render_def comps_slashed)

lemma comps_empty_last:
  assumes "comps bs = []" "bs \<noteq> []"
  shows "last bs = SLASH"
  using assms
proof (induction bs)
  case (Cons b bs)
  then show ?case by (cases "split_on SLASH bs") (auto simp: comps_def split: if_splits)
qed simp

lemma last_slash_splits:
  assumes "bs \<noteq> []" "last bs = c" "split_on c bs = x # xs"
  shows "xs \<noteq> []"
  using assms
proof (induction bs arbitrary: x xs)
  case (Cons b bs)
  show ?case
  proof (cases "bs = []")
    case False
    obtain y ys where y: "split_on c bs = y # ys" by (rule split_on_Cons)
    have "ys \<noteq> []" using Cons.IH [OF False _ y] Cons.prems(2) False by simp
    then show ?thesis using Cons.prems(3) y by (auto split: if_splits)
  qed (use Cons.prems in auto)
qed simp

text \<open>What \<open>collapse\<close> makes of an ASCII path, at its start or after a separator.\<close>

abbreviation trail :: "bool \<Rightarrow> path" where
  "trail b \<equiv> (if b then [SLASH] else [])"

lemma collapse_split:
  assumes "ascii bs"
  shows "(\<forall>x xs. split_on SLASH bs = x # xs \<longrightarrow>
      collapse False bs = x @ slashed (filter (\<lambda>c. c \<noteq> []) xs) @ trail (xs \<noteq> [] \<and> last bs = SLASH))
    \<and> collapse True bs = (case comps bs of [] \<Rightarrow> [] | c # cs \<Rightarrow> c @ slashed cs @ trail (last bs = SLASH))"
  using assms
proof (induction bs)
  case (Cons b bs)
  then have IH: "\<And>x xs. split_on SLASH bs = x # xs \<Longrightarrow>
      collapse False bs = x @ slashed (filter (\<lambda>c. c \<noteq> []) xs) @ trail (xs \<noteq> [] \<and> last bs = SLASH)"
    "collapse True bs = (case comps bs of [] \<Rightarrow> [] | c # cs \<Rightarrow> c @ slashed cs @ trail (last bs = SLASH))"
    and b: "b < 0x80" by (auto simp: ascii_def)
  obtain y ys where y: "split_on SLASH bs = y # ys" by (rule split_on_Cons)
  show ?case
  proof (cases "b = SLASH")
    case True
    have "SLASH # collapse True bs = slashed (comps bs) @ trail (last (b # bs) = SLASH)"
      using True comps_empty_last [of bs] by (cases "bs = []") (auto simp: IH(2) split: list.split)
    moreover have "collapse True bs = (case comps (b # bs) of [] \<Rightarrow> [] | c # cs \<Rightarrow> c @ slashed cs @ trail (last (b # bs) = SLASH))"
      using True by (cases "bs = []") (auto simp: IH(2) split: list.split)
    ultimately show ?thesis using True by (simp add: comps_def)
  next
    case False
    have "trail (ys \<noteq> [] \<and> last bs = SLASH) = trail (last (b # bs) = SLASH)"
      using False last_slash_splits [OF _ _ y] y by (cases "bs = []") auto
    then show ?thesis using False b y IH(1) [OF y] last_slash_splits [of "b # bs" SLASH "b # y" ys]
      by (auto simp: push_char_def comps_def)
  qed
qed simp

lemma normalize_ascii:
  assumes "ascii p" "p \<noteq> []"
  shows "normalize_path p = Inr (render (comps p))"
proof -
  define out where "out = (if hd p = SLASH then p else SLASH # p)"
  obtain bs where bs: "out = SLASH # bs" "comps bs = comps p" "ascii bs"
  proof (cases "hd p = SLASH")
    case True
    then show thesis using that [of "tl p"] assms by (cases p) (auto simp: out_def ascii_def)
  next
    case False
    then show thesis using that [of p] assms by (auto simp: out_def)
  qed
  have "collapse False out = slashed (comps p) @ trail (last out = SLASH)"
  proof -
    have "ascii out" "split_on SLASH out = [] # split_on SLASH bs" using bs by (simp_all add: ascii_def)
    with collapse_split [of out] have "collapse False out = slashed (comps bs) @ trail (last out = SLASH)"
      unfolding comps_def by simp
    then show ?thesis by (simp add: bs(2))
  qed
  moreover have "pop_slash (slashed cs @ trail t) = render cs" if "names cs" "cs = [] \<Longrightarrow> t" for cs t
  proof (cases "cs = []")
    case False
    then obtain ds d where ds: "cs = ds @ [d]" by (cases cs rule: rev_cases) auto
    then have d: "d \<noteq> []" "SLASH \<notin> set d" using that(1) by (auto simp: names_def)
    have "last (slashed cs) = last d" "slashed cs \<noteq> []" "length (slashed cs) > 1"
      using d(1) by (simp_all add: ds)
    moreover have "last d \<noteq> SLASH" using d last_in_set by metis
    ultimately show ?thesis using False by (simp add: pop_slash_def render_def butlast_append)
  qed (use that(2) in \<open>simp add: pop_slash_def render_def\<close>)
  moreover have "last out = SLASH" if "comps p = []"
    using comps_empty_last [of bs] that bs by (cases "bs = []") auto
  ultimately show ?thesis using assms(2) by (simp add: normalize_path_def Let_def out_def [symmetric])
qed


section \<open>Serving a path\<close>

lemma slashed_prefix_boundary:
  assumes "names ms" "names cs" "take (length (slashed ms)) (slashed cs) = slashed ms"
    "length (slashed ms) \<le> length (slashed cs)"
    "length (slashed ms) < length (slashed cs) \<Longrightarrow> slashed cs ! length (slashed ms) = SLASH"
  shows "prefix ms cs"
proof -
  obtain zs where zs: "slashed cs = slashed ms @ zs" by (metis assms(3) append_take_drop_id)
  have z: "zs = [] \<or> (\<exists>w. zs = SLASH # w)" using assms(5) zs by (cases zs) auto
  have "comps (slashed ms @ zs) = ms @ comps zs" if "names ms" for ms
    using that
  proof (induction ms)
    case (Cons x ms)
    then have x: "SLASH \<notin> set x" "x \<noteq> []" and IH: "comps (slashed ms @ zs) = ms @ comps zs"
      by (auto simp: names_def)
    have "slashed ms @ zs = [] \<or> (\<exists>w. slashed ms @ zs = SLASH # w)" using z by (cases ms) auto
    then obtain ys where ys: "split_on SLASH (slashed ms @ zs) = [] # ys" by auto
    then have "filter (\<lambda>c. c \<noteq> []) ys = ms @ comps zs" using IH by (simp add: comps_def)
    then show ?case using x ys split_on_append_name [OF x(1), of "slashed ms @ zs"] by (simp add: comps_def)
  qed simp
  from this [OF assms(1)] show ?thesis using comps_slashed [OF assms(2)] zs by (metis prefixI)
qed

lemma slashed_Nil_iff: "slashed cs = [] \<longleftrightarrow> cs = []"
  by (cases cs) auto

lemma render_root: "names cs \<Longrightarrow> render cs = [SLASH] \<longleftrightarrow> cs = []"
  by (cases cs) (auto simp: render_def names_def)

lemma serves_render:
  assumes "names ms" "names cs"
  shows "serves (render cs) (render ms) \<longleftrightarrow> prefix ms cs"
proof (cases "ms = []")
  case True
  have "length (render cs) \<ge> 1" "hd (render cs) = SLASH" by (cases cs; simp add: render_def)+
  then show ?thesis using True by (cases "render cs") (auto simp: serves_def render_def [of "[]"])
next
  case False
  then have m: "render ms = slashed ms" "render ms \<noteq> [SLASH]"
    using render_root [OF assms(1)] by (simp_all add: render_def)
  have long: "length (slashed ms) > 1" using False assms(1) by (cases ms) (auto simp: names_def)
  show ?thesis
  proof (cases "cs = []")
    case True
    then show ?thesis using False m long by (simp add: serves_def render_def [of "[]"])
  next
    case c: False
    then have r: "render cs = slashed cs" by (simp add: render_def)
    show ?thesis
    proof
      assume "serves (render cs) (render ms)"
      then show "prefix ms cs"
        by (intro slashed_prefix_boundary [OF assms]) (use m r in \<open>auto simp: serves_def split: if_splits\<close>)
    next
      assume "prefix ms cs"
      then obtain ds where ds: "cs = ms @ ds" by (auto elim: prefixE)
      then show "serves (render cs) (render ms)"
        using m r by (cases ds) (auto simp: serves_def nth_append)
    qed
  qed
qed

lemma strip_render:
  assumes "names ms" "names ds" "ascii (slashed (ms @ ds))"
  shows "strip_mount_prefix (render (ms @ ds)) (render ms) = Some (render ds)"
proof (cases "ms = []")
  case False
  then have "render ms \<noteq> [SLASH]" "render ms = slashed ms" "render (ms @ ds) = slashed ms @ slashed ds"
    using render_root [OF assms(1)] by (simp_all add: render_def)
  then show ?thesis
    by (cases ds) (simp_all add: strip_mount_prefix_def str_from_def nth_append render_def)
qed (simp add: strip_mount_prefix_def render_def)

section \<open>Resolution\<close>

text \<open>
  The table the mount calls build: canonical mount points, no two alike, longer ones first.
\<close>

definition table_ok :: "'f mount list \<Rightarrow> bool" where
  "table_ok tbl \<longleftrightarrow> (\<forall>m \<in> set tbl. mp m = render (comps (mp m))) \<and> distinct (map mp tbl)
     \<and> sorted (map (\<lambda>m. - int (length (mp m))) tbl)"

definition covers :: "path \<Rightarrow> 'f mount \<Rightarrow> bool" where
  "covers p m \<longleftrightarrow> prefix (comps (mp m)) (comps p)"

lemma resolve_mounts_find:
  assumes "\<forall>m \<in> set tbl. mp m = render (comps (mp m))" "ascii (slashed cs)" "names cs"
  shows "resolve_mounts (render cs) tbl = Some (case find (\<lambda>m. prefix (comps (mp m)) cs) tbl of
      None \<Rightarrow> Inl NotMounted
    | Some m \<Rightarrow> Inr (m_fs m, render (drop (length (comps (mp m))) cs)))"
  using assms(1)
proof (induction tbl)
  case (Cons m tbl)
  then have m: "mp m = render (comps (mp m))" by simp
  have s: "serves (render cs) (mp m) \<longleftrightarrow> prefix (comps (mp m)) cs"
    by (subst m) (simp add: serves_render assms(3))
  show ?case
  proof (cases "prefix (comps (mp m)) cs")
    case True
    then obtain ds where ds: "cs = comps (mp m) @ ds" by (auto elim: prefixE)
    then have "names ds" using assms(3) by (auto simp: names_def)
    then have "strip_mount_prefix (render cs) (mp m) = Some (render ds)"
      using strip_render [of "comps (mp m)" ds] assms(2) ds m by simp
    then show ?thesis using True s ds by (auto)
  qed (use Cons s in auto)
qed simp

lemma comps_slash_out: "ascii p \<Longrightarrow> ascii (slashed (comps p))"
proof -
  have "x \<in> set (split_on c p) \<Longrightarrow> set x \<subseteq> set p" for x c
    by (induction p arbitrary: x) (auto split: list.splits if_splits, fastforce)
  then show "ascii p \<Longrightarrow> ascii (slashed (comps p))"
    by (fastforce simp: ascii_def comps_def)
qed

text \<open>The first entry that covers a path is the one with the most components.\<close>

lemma first_is_longest:
  assumes "table_ok tbl" "find (\<lambda>m. prefix (comps (mp m)) cs) tbl = Some m" "m' \<in> set tbl" "prefix (comps (mp m')) cs"
  shows "length (comps (mp m')) \<le> length (comps (mp m))"
proof (rule ccontr)
  assume longer: "\<not> ?thesis"
  obtain i where i: "i < length tbl" "prefix (comps (mp (tbl ! i))) cs" "m = tbl ! i"
    "\<forall>j < i. \<not> prefix (comps (mp (tbl ! j))) cs" using assms(2) by (auto simp: find_Some_iff)
  obtain k where k: "k < length tbl" "m' = tbl ! k" using assms(3) by (auto simp: in_set_conv_nth)
  then have "i \<le> k" using i(4) assms(4) by (meson not_less)
  then have le: "length (mp m') \<le> length (mp m)"
    using assms(1) i(1,3) k sorted_nth_mono [of "map (\<lambda>m. - int (length (mp m))) tbl" i k] by (simp add: table_ok_def)
  have pre: "prefix (comps (mp m)) (comps (mp m'))"
    using i(2,3) assms(4) longer prefix_same_cases [of "comps (mp m)" cs "comps (mp m')"] by (auto dest: prefix_length_le)
  then obtain ds where ds: "comps (mp m') = comps (mp m) @ ds" by (auto elim: prefixE)
  have dn: "ds \<noteq> []" using ds longer by auto
  have canon: "mp m = render (comps (mp m))" "mp m' = render (comps (mp m'))"
    using assms(1,3) i by (auto simp: table_ok_def)
  have nm: "names ds" using names_comps [of "mp m'"] unfolding ds by (auto simp: names_def)
  have "length (slashed ds) > 1" using dn nm by (cases ds) (auto simp: names_def)
  moreover have "length (mp m') = length (slashed (comps (mp m))) + length (slashed ds)"
    by (subst canon(2)) (use dn in \<open>simp add: ds render_def\<close>)
  moreover have "length (mp m) \<le> max 1 (length (slashed (comps (mp m))))"
    by (subst canon(1)) (simp add: render_def)
  ultimately show False using le by linarith
qed

lemma mountpoint_ascii:
  assumes "ascii p" "p \<noteq> []"
  shows "normalize_mountpoint p = Inr (render (comps p))"
proof -
  have "pop_slash (render cs) = render cs" if "names cs" for cs
  proof (cases "cs = []")
    case False
    then obtain ds d where ds: "cs = ds @ [d]" by (cases cs rule: rev_cases) auto
    then have d: "d \<noteq> []" "SLASH \<notin> set d" using that by (auto simp: names_def)
    then have "last d \<noteq> SLASH" using last_in_set by metis
    then show ?thesis using d(1) by (simp add: pop_slash_def render_def ds)
  qed (simp add: pop_slash_def render_def)
  then show ?thesis using normalize_ascii [OF assms] by (simp add: normalize_mountpoint_def)
qed

lemma mount_at_mps: "set (map mp (mount_at q fs tbl)) = insert q (set (map mp tbl))"
proof (cases "find (\<lambda>m. mp m = q) tbl")
  case (Some m)
  then have "q \<in> mp ` set tbl" by (auto simp: find_Some_iff)
  moreover have "map mp (update_first (\<lambda>m. mp m = q) (\<lambda>m. m\<lparr>m_fs := fs\<rparr>) tbl) = map mp tbl"
    by (induction tbl) auto
  ultimately show ?thesis using Some by (auto simp: mount_at_def simp flip: set_map)
qed (auto simp: mount_at_def)

lemma mount_at_ok:
  assumes "table_ok tbl" "q = render (comps q)"
  shows "table_ok (mount_at q fs tbl)"
proof (cases "find (\<lambda>m. mp m = q) tbl")
  case None
  let ?new = "tbl @ [\<lparr>mp = q, m_fs = fs\<rparr>]"
  have "distinct (map mp ?new)" using assms(1) None by (auto simp: table_ok_def find_None_iff)
  then have "distinct (map mp (sort_key (\<lambda>m. - int (length (mp m))) ?new))"
    unfolding distinct_map distinct_sort set_sort by blast
  then show ?thesis using assms None by (auto simp: mount_at_def table_ok_def)
next
  case (Some m)
  let ?t = "update_first (\<lambda>m. mp m = q) (\<lambda>m. m\<lparr>m_fs := fs\<rparr>) tbl"
  have m: "map mp ?t = map mp tbl" by (induction tbl) auto
  have k: "map (\<lambda>m. - int (length (mp m))) xs = map (\<lambda>p. - int (length p)) (map mp xs)" for xs :: "'a mount list"
    by simp
  have "map (\<lambda>m. - int (length (mp m))) ?t = map (\<lambda>m. - int (length (mp m))) tbl"
    unfolding k m ..
  moreover have "(\<forall>x \<in> set ?t. mp x = render (comps (mp x))) \<longleftrightarrow> (\<forall>y \<in> set (map mp ?t). y = render (comps y))" by auto
  ultimately show ?thesis using assms(1) Some m by (auto simp: mount_at_def table_ok_def)
qed

text \<open>Which mount serves a path is determined by the set of mounts.\<close>

lemma covering_unique:
  assumes "table_ok tbl" "m \<in> set tbl" "m' \<in> set tbl" "prefix (comps (mp m)) cs" "prefix (comps (mp m')) cs"
    "length (comps (mp m)) = length (comps (mp m'))"
  shows "m = m'"
proof -
  have "comps (mp m) = comps (mp m')" using assms(4-6) by (metis prefix_def append_eq_append_conv)
  moreover have "mp m = render (comps (mp m))" "mp m' = render (comps (mp m'))" using assms(1-3) by (auto simp: table_ok_def)
  ultimately have "mp m = mp m'" by metis
  then show ?thesis using assms(1-3) by (auto simp: table_ok_def distinct_map inj_on_def)
qed

lemma find_same_set:
  assumes "table_ok a" "table_ok b" "set a = set b"
  shows "find (\<lambda>m. prefix (comps (mp m)) cs) a = find (\<lambda>m. prefix (comps (mp m)) cs) b"
proof (cases "find (\<lambda>m. prefix (comps (mp m)) cs) a")
  case None
  then show ?thesis using assms(3) by (simp add: find_None_iff) (metis find_None_iff)
next
  case (Some m)
  then have m: "m \<in> set a" "prefix (comps (mp m)) cs" by (auto simp: find_Some_iff)
  then obtain m' where f: "find (\<lambda>m. prefix (comps (mp m)) cs) b = Some m'"
    using assms(3) by (cases "find (\<lambda>m. prefix (comps (mp m)) cs) b") (auto simp: find_None_iff)
  then have m': "m' \<in> set b" "prefix (comps (mp m')) cs" by (auto simp: find_Some_iff)
  have "length (comps (mp m)) = length (comps (mp m'))"
    using first_is_longest [OF assms(1) Some, of m'] first_is_longest [OF assms(2) f, of m] m m' assms(3)
    by (simp add: le_antisym)
  then have "m = m'" using covering_unique [OF assms(1) m(1) _ m(2) m'(2)] m'(1) assms(3) by simp
  with Some f show ?thesis by simp
qed

lemma resolve_ascii:
  assumes "table_ok tbl" "ascii p" "p \<noteq> []"
  shows "resolve p tbl = Some (case find (\<lambda>m. prefix (comps (mp m)) (comps p)) tbl of
      None \<Rightarrow> Inl NotMounted
    | Some m \<Rightarrow> Inr (m_fs m, render (drop (length (comps (mp m))) (comps p))))"
proof -
  have "resolve_mounts (render (comps p)) tbl = Some (case find (\<lambda>m. prefix (comps (mp m)) (comps p)) tbl of
      None \<Rightarrow> Inl NotMounted
    | Some m \<Rightarrow> Inr (m_fs m, render (drop (length (comps (mp m))) (comps p))))"
    by (rule resolve_mounts_find) (use assms in \<open>auto simp: table_ok_def comps_slash_out\<close>)
  then show ?thesis by (simp add: resolve_def normalize_ascii [OF assms(2,3)])
qed

section \<open>Properties\<close>

text \<open>
  C11: resolution refines longest-prefix matching on components. On a table the mount calls build, the
  lookup of an ASCII path never panics; it fails exactly when no mount point's components are a prefix of
  the path's, and otherwise hands the path, without that prefix, to the one covering mount with the most
  components. A table with the same mounts in another order gives the same answer.
\<close>

theorem resolve_longest_prefix:
  assumes "table_ok tbl" and "ascii p" and "p \<noteq> []"
  shows "(case resolve p tbl of
      None \<Rightarrow> False
    | Some (Inl e) \<Rightarrow> e = NotMounted \<and> (\<forall>m \<in> set tbl. \<not> covers p m)
    | Some (Inr (fs, rel)) \<Rightarrow> \<exists>m \<in> set tbl. fs = m_fs m \<and> covers p m \<and> comps (mp m) @ comps rel = comps p
        \<and> rel = render (comps rel)
        \<and> (\<forall>m' \<in> set tbl. covers p m' \<longrightarrow> length (comps (mp m')) \<le> length (comps (mp m))))
    \<and> (\<forall>tbl'. table_ok tbl' \<and> set tbl' = set tbl \<longrightarrow> resolve p tbl' = resolve p tbl)"
proof (intro conjI allI impI, goal_cases)
  case (2 tbl')
  then have that: "table_ok tbl'" "set tbl' = set tbl" by simp_all
  show "resolve p tbl' = resolve p tbl"
    using find_same_set [OF that(1) assms(1) that(2)] resolve_ascii [OF assms] resolve_ascii [OF that(1) assms(2,3)] by simp
next
  case 1
  let ?f = "find (\<lambda>m. prefix (comps (mp m)) (comps p)) tbl"
  show ?case
  proof (cases ?f)
    case None
    moreover from None have "\<forall>m \<in> set tbl. \<not> covers p m" by (simp add: find_None_iff covers_def)
    ultimately show ?thesis by (simp add: resolve_ascii [OF assms])
  next
    case (Some m)
    let ?ds = "drop (length (comps (mp m))) (comps p)"
    have m: "m \<in> set tbl" "prefix (comps (mp m)) (comps p)" using Some by (auto simp: find_Some_iff)
    then have eq: "comps (mp m) @ ?ds = comps p" by (auto simp: prefix_def)
    have "set ?ds \<subseteq> set (comps p)" by (rule set_drop_subset)
    then have "names ?ds" using names_comps [of p] by (auto simp: names_def)
    then have "comps (render ?ds) = ?ds" by simp
    then show ?thesis
      using Some m eq first_is_longest [OF assms(1) Some]
      by (auto simp: resolve_ascii [OF assms] covers_def intro!: bexI [of _ m])
  qed
qed

theorem resolve_longest_prefix_witness:
  "\<exists>rel. resolve [0x2F, 0x61, 0x2F, 0x62] [\<lparr>mp = [0x2F, 0x61], m_fs = 1\<rparr>, \<lparr>mp = [0x2F], m_fs = (2::nat)\<rparr>] = Some (Inr (1, rel))
     \<and> comps rel = [[0x62]]"
proof -
  let ?t = "[\<lparr>mp = [0x2F, 0x61], m_fs = 1\<rparr>, \<lparr>mp = [0x2F], m_fs = (2::nat)\<rparr>]" and ?p = "[0x2F, 0x61, 0x2F, 0x62] :: path"
  have ok: "table_ok ?t" "ascii ?p" by (simp_all add: table_ok_def ascii_def comps_def render_def)
  have r: "resolve ?p ?t = Some (Inr (1, [0x2F, 0x62]))"
    by (simp add: resolve_def normalize_path_def pop_slash_def push_char_def serves_def strip_mount_prefix_def str_from_def)
  have c: "comps [0x2F, 0x62] = [[0x62]]" by (simp add: comps_def)
  have "\<exists>m \<in> set ?t. (1::nat) = m_fs m" using resolve_longest_prefix [OF ok] r by auto
  with r c show ?thesis by blast
qed

end
