(* ===== verification/Fat32_Names.thy ===== *)
theory Fat32_Names
  imports Vfs_Path User_Mem
begin

text \<open>
  The directory entries and names of \<^verbatim>\<open>kernel/fs/fat32.rs\<close>: the 32-byte short entry, the long-name entries that
  precede it, and the conversions between them and a file name. Strings are lists of bytes.
\<close>

datatype fat_err = Io | BadBootSig | NotFat32 | BadBpb | NotFound | Name | Full

definition SEC :: nat where "SEC = 512"

definition ATTR_VOLUME :: u8 where "ATTR_VOLUME = 0x08"
definition ATTR_DIR :: u8 where "ATTR_DIR = 0x10"
definition ATTR_ARCHIVE :: u8 where "ATTR_ARCHIVE = 0x20"

definition is_lfn :: "u8 \<Rightarrow> bool" where "is_lfn attr \<longleftrightarrow> attr AND 0x0F = 0x0F"

section \<open>Little-endian fields\<close>

definition le16 :: "u16 \<Rightarrow> u8 list" where
  "le16 w = [ucast w, ucast (drop_bit 8 w)]"

definition rd16 :: "u8 list \<Rightarrow> nat \<Rightarrow> u16" where
  "rd16 bs off = ucast (bs ! off) OR push_bit 8 (ucast (bs ! (off + 1)))"

definition rd32 :: "u8 list \<Rightarrow> nat \<Rightarrow> u32" where
  "rd32 bs off = ucast (bs ! off) OR push_bit 8 (ucast (bs ! (off + 1)))
     OR push_bit 16 (ucast (bs ! (off + 2))) OR push_bit 24 (ucast (bs ! (off + 3)))"

lemma length_le16 [simp]: "length (le16 w) = 2"
  by (simp add: le16_def)

lemma rd16_le16 [codec_simps]: "rd16 (xs @ le16 w @ ys) (length xs) = w"
proof -
  have "ucast (ucast w :: u8) OR push_bit 8 (ucast (ucast (drop_bit 8 w) :: u8)) = w"
    by (rule bit_word_eqI) (auto simp: bit_simps not_less)
  then show ?thesis by (simp add: rd16_def le16_def nth_append)
qed

lemma rd32_le32 [codec_simps]: "rd32 (xs @ le32 w @ ys) (length xs) = w"
proof -
  have "ucast (ucast w :: u8) OR push_bit 8 (ucast (ucast (drop_bit 8 w) :: u8))
      OR push_bit 16 (ucast (ucast (drop_bit 16 w) :: u8)) OR push_bit 24 (ucast (ucast (drop_bit 24 w) :: u8)) = w" (is "?l = w")
  proof (rule bit_word_eqI)
    fix n assume "n < LENGTH(32)"
    then consider "n < 8" | "8 \<le> n" "n < 16" | "16 \<le> n" "n < 24" | "24 \<le> n" "n < 32" by fastforce
    then show "bit ?l n = bit w n"
      by cases (auto simp: bit_simps)
  qed
  then show ?thesis by (simp add: rd32_def le32_def nth_append upt_rec)
qed

section \<open>Short entries\<close>

record dir_ent =
  de_name :: "u8 list"
  de_attr :: u8
  de_ntres :: u8
  de_crt_tenth :: u8
  de_crt_time :: u16
  de_crt_date :: u16
  de_acc_date :: u16
  de_clus_hi :: u16
  de_wrt_time :: u16
  de_wrt_date :: u16
  de_clus_lo :: u16
  de_size :: u32

text \<open>The \<open>repr(C)\<close> layout, read from and written to the 32 bytes of an entry.\<close>

definition dir_ent_of :: "u8 list \<Rightarrow> dir_ent" where
  "dir_ent_of p = \<lparr>de_name = take 11 p, de_attr = p ! 11, de_ntres = p ! 12, de_crt_tenth = p ! 13,
     de_crt_time = rd16 p 14, de_crt_date = rd16 p 16, de_acc_date = rd16 p 18, de_clus_hi = rd16 p 20,
     de_wrt_time = rd16 p 22, de_wrt_date = rd16 p 24, de_clus_lo = rd16 p 26, de_size = rd32 p 28\<rparr>"

definition dir_ent_bytes :: "dir_ent \<Rightarrow> u8 list" where
  "dir_ent_bytes e = de_name e @ [de_attr e, de_ntres e, de_crt_tenth e] @ le16 (de_crt_time e) @ le16 (de_crt_date e)
     @ le16 (de_acc_date e) @ le16 (de_clus_hi e) @ le16 (de_wrt_time e) @ le16 (de_wrt_date e) @ le16 (de_clus_lo e)
     @ le32 (de_size e)"

definition new_dir_ent :: "u8 list \<Rightarrow> u8 \<Rightarrow> dir_ent" where
  "new_dir_ent nm attr = \<lparr>de_name = nm, de_attr = attr, de_ntres = 0, de_crt_tenth = 0, de_crt_time = 0, de_crt_date = 0,
     de_acc_date = 0, de_clus_hi = 0, de_wrt_time = 0, de_wrt_date = 0, de_clus_lo = 0, de_size = 0\<rparr>"

definition dirent_first_clus :: "dir_ent \<Rightarrow> u32" where
  "dirent_first_clus e = push_bit 16 (ucast (de_clus_hi e)) OR ucast (de_clus_lo e)"

definition set_dirent_first_clus :: "u32 \<Rightarrow> dir_ent \<Rightarrow> dir_ent" where
  "set_dirent_first_clus cl e = e\<lparr>de_clus_lo := ucast cl, de_clus_hi := ucast (drop_bit 16 cl)\<rparr>"

section \<open>Long-name entries\<close>

record lfn_ent =
  l_ord :: u8
  l_attr :: u8
  l_type :: u8
  l_checksum :: u8
  l_name1 :: "u16 list"
  l_name2 :: "u16 list"
  l_clus_lo :: u16
  l_name3 :: "u16 list"

definition lfn_ent_of :: "u8 list \<Rightarrow> lfn_ent" where
  "lfn_ent_of p = \<lparr>l_ord = p ! 0, l_attr = p ! 11, l_type = p ! 12, l_checksum = p ! 13,
     l_name1 = map (rd16 p) [1, 3, 5, 7, 9], l_name2 = map (rd16 p) [14, 16, 18, 20, 22, 24], l_clus_lo = rd16 p 26,
     l_name3 = map (rd16 p) [28, 30]\<rparr>"

definition lfn_push_chars :: "u16 list \<Rightarrow> lfn_ent \<Rightarrow> u16 list" where
  "lfn_push_chars out ent = out @ l_name1 ent @ l_name2 ent @ l_name3 ent"

definition lfn_checksum :: "u8 list \<Rightarrow> u8" where
  "lfn_checksum short = fold (\<lambda>b s. (drop_bit 1 s OR push_bit 7 s) + b) short 0"

fun lfn_utf16_to_string :: "u16 list \<Rightarrow> u8 list" where
  "lfn_utf16_to_string [] = []"
| "lfn_utf16_to_string (u # us) =
     (if u = 0 then []
      else if u = 0xFFFF then lfn_utf16_to_string us
      else let ch = ucast (u AND 0x00FF) :: u8 in
        (if ch = 0 \<or> ch < 0x20 \<or> ch \<ge> 0x7F then 0x3F else ch) # lfn_utf16_to_string us)"

definition string_to_lfn_utf16 :: "u8 list \<Rightarrow> fat_err + u16 list" where
  "string_to_lfn_utf16 s =
     (if s = [] then Inl Name
      else if \<exists>b \<in> set s. b = SLASH \<or> b = 0 \<or> b < 0x20 \<or> b \<ge> 0x7F then Inl Name
      else Inr (map ucast s @ [0]))"

text \<open>The chunks of 13 characters, \<open>OFFS\<close>, and one raw entry per chunk.\<close>

fun chunks :: "nat \<Rightarrow> 'a list \<Rightarrow> 'a list list" where
  "chunks n xs = (if xs = [] \<or> n = 0 then [] else take n xs # chunks n (drop n xs))"

declare chunks.simps [simp del]

definition OFFS :: "nat list" where
  "OFFS = [1, 3, 5, 7, 9, 14, 16, 18, 20, 22, 24, 28, 30]"

definition put_u16_le :: "nat \<Rightarrow> u16 \<Rightarrow> u8 list \<Rightarrow> u8 list" where
  "put_u16_le off v dst = dst[off := ucast v, off + 1 := ucast (drop_bit 8 v)]"

definition lfn_raw :: "u8 \<Rightarrow> u8 \<Rightarrow> u16 list \<Rightarrow> u8 list" where
  "lfn_raw ord chk chunk =
     (let raw = (replicate 32 0)[0 := ord, 11 := 0x0F, 12 := 0, 13 := chk, 26 := 0, 27 := 0];
          raw = fold (\<lambda>o' r. put_u16_le o' 0xFFFF r) OFFS raw
      in fold (\<lambda>(o', v) r. put_u16_le o' v r) (zip OFFS chunk) raw)"

definition build_lfn_entries :: "u8 list \<Rightarrow> u8 list \<Rightarrow> fat_err + u8 list list" where
  "build_lfn_entries short long =
     (case string_to_lfn_utf16 long of
        Inl e \<Rightarrow> Inl e
      | Inr utf16 \<Rightarrow>
          (let cs = chunks 13 utf16; total = length cs; chk = lfn_checksum short in
           if total = 0 then Inl Name
           else Inr (map (\<lambda>idx. let ord_num = of_nat (total - idx) :: u8;
                                    ord = (if idx = 0 then ord_num OR 0x40 else ord_num)
                                in lfn_raw ord chk (cs ! idx)) [0..<total])))"

section \<open>Short names\<close>

text \<open>\<open>str::trim_end\<close> drops trailing white space in the sense of Unicode, here by its UTF-8 encodings.\<close>

definition white_space :: "u8 list list" where
  "white_space = [[0x20], [0x09], [0x0A], [0x0B], [0x0C], [0x0D], [0xC2, 0x85], [0xC2, 0xA0], [0xE1, 0x9A, 0x80]]
     @ map (\<lambda>b. [0xE2, 0x80, b]) [0x80, 0x81, 0x82, 0x83, 0x84, 0x85, 0x86, 0x87, 0x88, 0x89, 0x8A, 0xA8, 0xA9, 0xAF]
     @ [[0xE2, 0x81, 0x9F], [0xE3, 0x80, 0x80]]"

function trim_end :: "u8 list \<Rightarrow> u8 list" where
  "trim_end s =
     (case find (\<lambda>w. drop (length s - length w) s = w) white_space of
        None \<Rightarrow> s
      | Some w \<Rightarrow> if length w \<le> length s then trim_end (take (length s - length w) s) else s)"
  by pat_completeness auto
termination
proof (relation "measure length")
  fix s w
  assume w: "find (\<lambda>w. drop (length s - length w) s = w) white_space = Some w" and "length w \<le> length s"
  then have "w \<in> set white_space" by (auto simp: find_Some_iff)
  then have "0 < length w" by (auto simp: white_space_def)
  with \<open>length w \<le> length s\<close> have "length s - length w < length s" by linarith
  then show "(take (length s - length w) s, s) \<in> measure length" by simp
qed simp

declare trim_end.simps [simp del]

definition utf8_or_empty :: "u8 list \<Rightarrow> u8 list" where
  "utf8_or_empty bs = (if utf8_valid bs then bs else [])"

definition short_name_to_string :: "u8 list \<Rightarrow> bool \<Rightarrow> u8 list" where
  "short_name_to_string name11 is_dir =
     (let base = trim_end (utf8_or_empty (take 8 name11)); ext = trim_end (utf8_or_empty (take 3 (drop 8 name11)))
      in base @ (if \<not> is_dir \<and> ext \<noteq> [] then 0x2E # ext else []) @ (if is_dir then [SLASH] else []))"

definition to_lower :: "u8 \<Rightarrow> u8" where
  "to_lower b = (if 0x41 \<le> b \<and> b \<le> 0x5A then b + 0x20 else b)"

definition to_upper :: "u8 \<Rightarrow> u8" where
  "to_upper b = (if 0x61 \<le> b \<and> b \<le> 0x7A then b - 0x20 else b)"

definition eq_ci :: "u8 list \<Rightarrow> u8 list \<Rightarrow> bool" where
  "eq_ci a b \<longleftrightarrow> length a = length b \<and> map to_lower a = map to_lower b"

definition is_valid_short_char :: "u8 \<Rightarrow> bool" where
  "is_valid_short_char b \<longleftrightarrow> 0x41 \<le> b \<and> b \<le> 0x5A \<or> 0x30 \<le> b \<and> b \<le> 0x39
     \<or> b \<in> {0x5F, 0x24, 0x7E, 0x21, 0x23, 0x25, 0x26, 0x27, 0x28, 0x29, 0x2D, 0x40, 0x5E, 0x60, 0x7B, 0x7D}"

definition short_chars :: "nat \<Rightarrow> u8 list \<Rightarrow> u8 list" where
  "short_chars k s =
     take k (filter (\<lambda>ch. \<not> (ch \<le> 0x20 \<or> ch \<ge> 0x7F \<or> ch = 0x2E \<or> ch = SLASH) \<and> is_valid_short_char ch) (map to_upper s))"

abbreviation pad :: "nat \<Rightarrow> u8 list \<Rightarrow> u8 list" where
  "pad k s \<equiv> s @ replicate (k - length s) 0x20"

definition make_short_candidate :: "u8 list \<Rightarrow> fat_err + u8 list" where
  "make_short_candidate long =
     (let parts = split_on 0x2E long in
      if length parts > 2 then Inl Name
      else let base = parts ! 0; ext = (if length parts = 2 then parts ! 1 else []) in
        if base = [] then Inl Name
        else let name = pad 8 (short_chars 8 base) @ pad 3 (short_chars 3 ext) in
          if name ! 0 = 0x20 then Inl Name else Inr name)"

text \<open>The next candidate, \<open>STEM~n.EXT\<close>, of \<open>make_unique_short_name_in_dir\<close>.\<close>

definition tilde_name :: "u8 list \<Rightarrow> u8 \<Rightarrow> u8 list" where
  "tilde_name base n =
     pad 6 (take 6 (takeWhile (\<lambda>c. c \<noteq> 0x20) (take 8 base))) @ [0x7E, 0x30 + n] @ take 3 (drop 8 base)"

fun unique_loop :: "u8 list list \<Rightarrow> u8 \<Rightarrow> nat \<Rightarrow> u8 list \<Rightarrow> fat_err + u8 list" where
  "unique_loop taken n 0 base = Inl Full"
| "unique_loop taken n (Suc k) base =
     (if base \<notin> set taken then Inr base
      else if n = 0 \<or> n > 9 then Inl Full
      else unique_loop taken (n + 1) k (tilde_name base n))"

section \<open>Reading a directory\<close>

text \<open>
  The loop of \<open>dir_list_from_with_names\<close> over the 32-byte slots: the long-name entries seen so far and
  the checksum they carry.
\<close>

definition lfn_name :: "lfn_ent list \<Rightarrow> u8 list" where
  "lfn_name ents = lfn_utf16_to_string
     (fold (\<lambda>e out. lfn_push_chars out e) (sort_key (\<lambda>e. - int (unat (l_ord e AND 0x1F))) ents) [])"

definition entry_name :: "lfn_ent list \<Rightarrow> u8 option \<Rightarrow> dir_ent \<Rightarrow> u8 list" where
  "entry_name ents chk ent =
     (let name = (case chk of
            Some ex \<Rightarrow> if lfn_checksum (de_name ent) = ex \<and> ents \<noteq> [] then lfn_name ents else []
          | None \<Rightarrow> []);
          is_dir = (de_attr ent AND ATTR_DIR \<noteq> 0)
      in if name = [] then short_name_to_string (de_name ent) is_dir
         else if is_dir \<and> last name \<noteq> SLASH then name @ [SLASH] else name)"

fun dir_slots :: "u8 list list \<Rightarrow> lfn_ent list \<Rightarrow> u8 option \<Rightarrow> (u8 list \<times> dir_ent) list" where
  "dir_slots [] ents chk = []"
| "dir_slots (p # ps) ents chk =
     (if p ! 0 = 0 then []
      else if p ! 0 = 0xE5 then dir_slots ps [] None
      else if is_lfn (p ! 11) then
        (let ent = lfn_ent_of p;
             (ents, chk) = (if l_ord ent AND 0x40 \<noteq> 0 then ([], Some (l_checksum ent)) else (ents, chk))
         in dir_slots ps (if chk \<noteq> None then ents @ [ent] else ents) chk)
      else let ent = dir_ent_of p in
        if de_attr ent AND ATTR_VOLUME \<noteq> 0 then dir_slots ps [] None
        else (entry_name ents chk ent, ent) # dir_slots ps [] None)"

text \<open>\<open>chunks_exact(32)\<close>\<close>

definition slots :: "u8 list \<Rightarrow> u8 list list" where
  "slots raw = filter (\<lambda>c. length c = 32) (chunks 32 raw)"

definition strip_slash :: "u8 list \<Rightarrow> u8 list" where
  "strip_slash nm = (if nm \<noteq> [] \<and> last nm = SLASH then butlast nm else nm)"

section \<open>Long names survive the round trip\<close>

lemma rd16_bytes: "ucast (ucast w :: u8) OR push_bit 8 (ucast (ucast (drop_bit 8 w) :: u8)) = (w :: u16)"
  by (rule bit_word_eqI) (auto simp: bit_simps not_less)

lemma length_put_u16_le [simp]: "length (put_u16_le o' v r) = length r"
  by (simp add: put_u16_le_def)

lemma rd16_put_same: "off + 1 < length r \<Longrightarrow> rd16 (put_u16_le off v r) off = v"
  by (simp add: rd16_def put_u16_le_def rd16_bytes)

lemma rd16_put_other: "off + 1 < o' \<or> o' + 1 < off \<Longrightarrow> rd16 (put_u16_le o' v r) off = rd16 r off"
  by (auto simp: rd16_def put_u16_le_def)

lemma nth_put_other: "i \<noteq> o' \<Longrightarrow> i \<noteq> o' + 1 \<Longrightarrow> put_u16_le o' v r ! i = r ! i"
  by (simp add: put_u16_le_def)

text \<open>Slots that do not overlap keep their values while others are written.\<close>

abbreviation apart :: "nat \<Rightarrow> nat \<Rightarrow> bool" where
  "apart a b \<equiv> a + 1 < b \<or> b + 1 < a"

lemma rd16_fold_other:
  "\<forall>o' \<in> fst ` set ps. apart off o' \<Longrightarrow> rd16 (fold (\<lambda>(o', v). put_u16_le o' v) ps r) off = rd16 r off"
  by (induction ps arbitrary: r) (auto simp: rd16_put_other)

lemma nth_fold_other:
  "\<forall>o' \<in> fst ` set ps. i \<noteq> o' \<and> i \<noteq> o' + 1 \<Longrightarrow> fold (\<lambda>(o', v). put_u16_le o' v) ps r ! i = r ! i"
  by (induction ps arbitrary: r) (auto simp: nth_put_other)

lemma length_fold_put [simp]: "length (fold (\<lambda>(o', v). put_u16_le o' v) ps r) = length r"
  by (induction ps arbitrary: r) auto

lemma rd16_fold_zip:
  assumes "sorted_wrt (\<lambda>a b. a + 1 < b) os" "\<forall>o' \<in> set os. o' + 1 < length r" "length vs \<le> length os" "i < length vs"
  shows "rd16 (fold (\<lambda>(o', v). put_u16_le o' v) (zip os vs) r) (os ! i) = vs ! i"
  using assms
proof (induction os arbitrary: vs r i)
  case (Cons a os)
  then obtain v ws where vs: "vs = v # ws" by (cases vs) auto
  have ap: "\<forall>b \<in> set os. apart a b" using Cons.prems(1) by auto
  show ?case
  proof (cases i)
    case 0
    have "\<forall>o' \<in> fst ` set (zip os ws). apart a o'" using ap by (auto dest: set_zip_leftD)
    then show ?thesis using 0 vs Cons.prems(2) by (simp add: rd16_fold_other rd16_put_same)
  next
    case (Suc j)
    then show ?thesis using Cons.IH [of "put_u16_le a v r" ws j] Cons.prems vs by simp
  qed
qed simp

lemma OFFS_apart: "sorted_wrt (\<lambda>a b. a + 1 < b) OFFS" "length OFFS = 13" "\<forall>o' \<in> set OFFS. o' + 1 < 32"
  "\<forall>o' \<in> set OFFS. \<forall>i \<in> {0, 11, 12, 13}. i \<noteq> o' \<and> i \<noteq> o' + 1"
  by (simp_all add: OFFS_def)

lemma fold_const: "fold (\<lambda>o' r. put_u16_le o' v r) os r = fold (\<lambda>(o', v). put_u16_le o' v) (zip os (replicate (length os) v)) r"
  by (induction os arbitrary: r) auto

lemma nth_OFFS: "map (\<lambda>i. OFFS ! i) [0..<13] = OFFS"
  by (simp add: OFFS_def upt_rec)

lemma lfn_raw_spec:
  assumes "length c \<le> 13"
  shows "length (lfn_raw ord chk c) = 32" "lfn_raw ord chk c ! 0 = ord" "lfn_raw ord chk c ! 11 = 0x0F"
    "lfn_raw ord chk c ! 13 = chk" "map (rd16 (lfn_raw ord chk c)) OFFS = c @ replicate (13 - length c) 0xFFFF"
proof -
  define r0 where "r0 = (replicate 32 0 :: u8 list)[0 := ord, 11 := 0x0F, 12 := 0, 13 := chk, 26 := 0, 27 := 0]"
  define r1 where "r1 = fold (\<lambda>(o', v). put_u16_le o' v) (zip OFFS (replicate 13 0xFFFF)) r0"
  have raw: "lfn_raw ord chk c = fold (\<lambda>(o', v). put_u16_le o' v) (zip OFFS c) r1"
    unfolding lfn_raw_def Let_def fold_const r0_def r1_def OFFS_apart(2) ..
  have len: "length r0 = 32" "length r1 = 32" by (simp_all add: r0_def r1_def)
  show "length (lfn_raw ord chk c) = 32" by (simp add: raw len)
  have keep: "lfn_raw ord chk c ! i = r0 ! i" if "i \<in> {0, 11, 12, 13}" for i
  proof -
    have "fst ` set (zip OFFS vs) \<subseteq> set OFFS" for vs :: "u16 list" by (auto dest: set_zip_leftD)
    then have "\<forall>o' \<in> fst ` set (zip OFFS vs). i \<noteq> o' \<and> i \<noteq> o' + 1" for vs :: "u16 list"
      using OFFS_apart(4) that by blast
    then show ?thesis unfolding raw r1_def by (simp add: nth_fold_other)
  qed
  show "lfn_raw ord chk c ! 0 = ord" "lfn_raw ord chk c ! 11 = 0x0F" "lfn_raw ord chk c ! 13 = chk"
    using keep by (simp_all add: r0_def)
  show "map (rd16 (lfn_raw ord chk c)) OFFS = c @ replicate (13 - length c) 0xFFFF"
  proof (rule nth_equalityI)
    fix i assume "i < length (map (rd16 (lfn_raw ord chk c)) OFFS)"
    then have i: "i < 13" by (simp add: OFFS_apart(2))
    have "rd16 (lfn_raw ord chk c) (OFFS ! i) = (c @ replicate (13 - length c) 0xFFFF) ! i"
    proof (cases "i < length c")
      case True
      then show ?thesis using rd16_fold_zip [OF OFFS_apart(1), of r1 c i] OFFS_apart(2,3) len assms
        by (simp add: raw nth_append)
    next
      case False
      have "apart (OFFS ! i) o'" if o': "o' \<in> fst ` set (zip OFFS c)" for o'
      proof -
        obtain v where "(o', v) \<in> set (zip OFFS c)" using o' by auto
        then obtain k where k: "k < length c" "o' = OFFS ! k" unfolding in_set_zip by auto
        then have "OFFS ! k + 1 < OFFS ! i"
          using OFFS_apart(1,2) False i by (auto simp: sorted_wrt_iff_nth_less)
        then show ?thesis using k by simp
      qed
      then have "rd16 (lfn_raw ord chk c) (OFFS ! i) = rd16 r1 (OFFS ! i)"
        unfolding raw by (intro rd16_fold_other) blast
      also have "\<dots> = 0xFFFF"
        using rd16_fold_zip [OF OFFS_apart(1), of r0 "replicate 13 0xFFFF" i] OFFS_apart(2,3) len i by (simp add: r1_def)
      finally show ?thesis using False i by (simp add: nth_append)
    qed
    then show "map (rd16 (lfn_raw ord chk c)) OFFS ! i = (c @ replicate (13 - length c) 0xFFFF) ! i"
      using i by (simp add: OFFS_apart(2))
  qed (use assms in \<open>simp add: OFFS_apart(2)\<close>)
qed

lemma lfn_chars_raw:
  assumes "length c \<le> 13"
  shows "lfn_push_chars out (lfn_ent_of (lfn_raw ord chk c)) = out @ c @ replicate (13 - length c) 0xFFFF"
proof -
  have "l_name1 e @ l_name2 e @ l_name3 e = map (rd16 (lfn_raw ord chk c)) OFFS" if "e = lfn_ent_of (lfn_raw ord chk c)" for e
    by (simp add: that lfn_ent_of_def OFFS_def)
  then show ?thesis by (simp add: lfn_push_chars_def lfn_raw_spec(5) [OF assms])
qed


lemma chunks_bound: "0 < n \<Longrightarrow> c \<in> set (chunks n xs) \<Longrightarrow> length c \<le> n"
  by (induction n xs rule: chunks.induct) (subst (asm) (2) chunks.simps, auto split: if_splits)

lemma concat_padded_chunks:
  "\<exists>k. concat (map (\<lambda>c. c @ replicate (13 - length c) v) (chunks 13 xs)) = xs @ replicate k v"
proof (induction "13 :: nat" xs rule: chunks.induct)
  case (1 xs)
  show ?case
  proof (cases "xs = []")
    case True
    then show ?thesis by (subst chunks.simps) (simp add: exI [of _ 0])
  next
    case False
    then obtain k where k: "concat (map (\<lambda>c. c @ replicate (13 - length c) v) (chunks 13 (drop 13 xs))) = drop 13 xs @ replicate k v"
      using 1 by auto
    have "concat (map (\<lambda>c. c @ replicate (13 - length c) v) (chunks 13 xs))
        = take 13 xs @ replicate (13 - length (take 13 xs)) v @ drop 13 xs @ replicate k v"
      by (subst chunks.simps) (use False k in simp)
    also have "\<dots> = xs @ replicate (13 - length xs + k) v"
    proof (cases "length xs \<le> 13")
      case True
      then show ?thesis by (simp only: take_all drop_all append_Nil replicate_add append_assoc)
    next
      case False
      then have "take 13 xs @ drop 13 xs @ replicate k v = xs @ replicate k v" by (metis append.assoc append_take_drop_id)
      with False show ?thesis by simp
    qed
    finally show ?thesis by blast
  qed
qed

lemma length_chunks: "0 < n \<Longrightarrow> length (chunks n xs) = (length xs + n - 1) div n"
proof (induction n xs rule: chunks.induct)
  case (1 n xs)
  show ?case
  proof (cases "xs = []")
    case False
    have "length (chunks n xs) = Suc ((length (drop n xs) + n - 1) div n)"
      by (subst chunks.simps) (use False 1 in simp)
    also have "\<dots> = (length xs + n - 1) div n"
    proof (cases "length xs \<le> n")
      case True
      then have "(length xs + n - 1) div n = 1" using False 1(2) by (intro div_nat_eqI) (cases xs; simp)+
      with True 1(2) show ?thesis by simp
    next
      case False
      then have "length xs + n - 1 = (length xs - n + n - 1) + n" by simp
      then have "(length xs + n - 1) div n = (length xs - n + n - 1 + n) div n" by simp
      also have "\<dots> = (length xs - n + n - 1) div n + 1" using 1(2) by (intro div_add_self2) simp
      finally show ?thesis by (simp only: length_drop Suc_eq_plus1)
    qed
    finally show ?thesis .
  qed (use 1(2) in \<open>simp add: chunks.simps\<close>)
qed

definition long_name_ok :: "u8 list \<Rightarrow> bool" where
  "long_name_ok s \<longleftrightarrow> s \<noteq> [] \<and> (\<forall>b \<in> set s. 0x20 \<le> b \<and> b < 0x7F \<and> b \<noteq> SLASH)"

lemma string_to_lfn_ok: "long_name_ok s \<longleftrightarrow> string_to_lfn_utf16 s = Inr (map ucast s @ [0])"
proof -
  have "(b = SLASH \<or> b = 0 \<or> b < 0x20 \<or> b \<ge> 0x7F) \<longleftrightarrow> \<not> (0x20 \<le> b \<and> b < 0x7F \<and> b \<noteq> SLASH)" for b :: u8
    by (auto simp: not_le not_less)
  then show ?thesis by (simp add: long_name_ok_def string_to_lfn_utf16_def)
qed

lemma utf16_back:
  assumes "\<forall>b \<in> set s. 0x20 \<le> b \<and> b < 0x7F"
  shows "lfn_utf16_to_string (map ucast s @ 0 # zs) = s"
  using assms
proof (induction s)
  case (Cons b s)
  have "unat b < 2 ^ LENGTH(8)" by (rule unsigned_less)
  then have u: "unat (ucast b :: u16) = unat b" by (simp add: unsigned_ucast_eq take_bit_nat_eq_self)
  have "unat b \<ge> 0x20" "unat b < 0x7F" using Cons.prems by (simp_all add: word_le_nat_alt word_less_nat_alt)
  then have "(ucast b :: u16) \<noteq> 0" "(ucast b :: u16) \<noteq> 0xFFFF" using u by auto
  moreover have "ucast ((ucast b :: u16) AND 0xFF) = b"
  proof -
    have "(ucast b :: u16) AND 0xFF = take_bit 8 (ucast b)" by (simp add: take_bit_eq_mask mask_eq_exp_minus_1)
    moreover have "ucast (take_bit 8 (ucast b :: u16)) = b" by (rule bit_word_eqI) (auto simp: bit_simps)
    ultimately show ?thesis by simp
  qed
  ultimately show ?case using Cons by (auto simp: not_less)
qed simp


text \<open>Reading the slots of a well-formed long-name run.\<close>

definition lfn_cont :: "u8 \<Rightarrow> u8 list \<Rightarrow> bool" where
  "lfn_cont chk p \<longleftrightarrow> p ! 0 \<noteq> 0 \<and> p ! 0 \<noteq> 0xE5 \<and> is_lfn (p ! 11) \<and> p ! 0 AND 0x40 = 0"

lemma dir_slots_conts:
  "\<forall>p \<in> set ps. lfn_cont chk p \<Longrightarrow>
   dir_slots (ps @ qs) ents (Some chk) = dir_slots qs (ents @ map lfn_ent_of ps) (Some chk)"
  by (induction ps arbitrary: ents) (auto simp: lfn_cont_def lfn_ent_of_def)

lemma sort_key_sorted: "sorted (map f xs) \<Longrightarrow> sort_key f xs = xs"
  by (induction xs) (auto simp: insort_is_Cons)

lemma fold_chars:
  "fold (\<lambda>e out. lfn_push_chars out e) es out = out @ concat (map (\<lambda>e. lfn_push_chars [] e) es)"
  by (induction es arbitrary: out) (auto simp: lfn_push_chars_def)

lemma ord_bits:
  assumes "0 < k" "k < 32"
  shows "unat ((of_nat k :: u8) AND 0x1F) = k" "(of_nat k :: u8) AND 0x40 = 0" "of_nat k \<noteq> (0 :: u8)" "of_nat k \<noteq> (0xE5 :: u8)"
    "unat ((of_nat k OR 0x40 :: u8) AND 0x1F) = k" "(of_nat k OR 0x40 :: u8) AND 0x40 \<noteq> 0"
    "of_nat k OR 0x40 \<noteq> (0 :: u8)" "of_nat k OR 0x40 \<noteq> (0xE5 :: u8)"
proof -
  have "k \<in> {1, 2, 3, 4, 5, 6, 7, 8, 9, 10, 11, 12, 13, 14, 15, 16, 17, 18, 19, 20, 21, 22, 23, 24, 25, 26, 27, 28,
      29, 30, 31}" using assms by simp arith
  then show "unat ((of_nat k :: u8) AND 0x1F) = k" "(of_nat k :: u8) AND 0x40 = 0" "of_nat k \<noteq> (0 :: u8)"
    "of_nat k \<noteq> (0xE5 :: u8)" "unat ((of_nat k OR 0x40 :: u8) AND 0x1F) = k" "(of_nat k OR 0x40 :: u8) AND 0x40 \<noteq> 0"
    "of_nat k OR 0x40 \<noteq> (0 :: u8)" "of_nat k OR 0x40 \<noteq> (0xE5 :: u8)"
    by (elim insertE emptyE; simp)+
qed


lemma build_lfn_shape:
  fixes short long :: "u8 list"
  assumes "long_name_ok long" "length long < 403"
  defines "cs \<equiv> chunks 13 (map ucast long @ [0] :: u16 list)"
  shows "0 < length cs" "length cs < 32" "c \<in> set cs \<Longrightarrow> length c \<le> 13"
    "build_lfn_entries short long = Inr (map (\<lambda>idx. lfn_raw (if idx = 0 then of_nat (length cs - idx) OR 0x40
       else of_nat (length cs - idx)) (lfn_checksum short) (cs ! idx)) [0..<length cs])"
proof -
  have len: "length cs = (length long + 13) div 13" unfolding cs_def by (simp add: length_chunks)
  show "0 < length cs" "length cs < 32" unfolding len using assms(2) by linarith+
  then show "build_lfn_entries short long = Inr (map (\<lambda>idx. lfn_raw (if idx = 0 then of_nat (length cs - idx) OR 0x40
       else of_nat (length cs - idx)) (lfn_checksum short) (cs ! idx)) [0..<length cs])"
    using assms(1) unfolding string_to_lfn_ok build_lfn_entries_def cs_def by (simp add: Let_def)
  show "c \<in> set cs \<Longrightarrow> length c \<le> 13" unfolding cs_def by (rule chunks_bound) simp
qed

lemma dir_slots_long_name:
  assumes "long_name_ok long" "length long < 403" "length short = 11" "build_lfn_entries short long = Inr raws"
  shows "\<exists>ents. dir_slots (raws @ qs) [] None = dir_slots qs ents (Some (lfn_checksum short))
    \<and> ents \<noteq> [] \<and> lfn_name ents = long"
proof -
  define cs where "cs = chunks 13 (map ucast long @ [0] :: u16 list)"
  define n chk where "n = length cs" and "chk = lfn_checksum short"
  note shape = build_lfn_shape [OF assms(1,2), folded cs_def]
  have cs: "cs = chunks 13 (map ucast long @ [0])" "length cs = n" "0 < n" "n < 32" "\<forall>c \<in> set cs. length c \<le> 13"
    using shape(1-3) by (auto simp: cs_def n_def)
  have raws: "raws = map (\<lambda>idx. lfn_raw (if idx = 0 then of_nat (n - idx) OR 0x40 else of_nat (n - idx)) chk (cs ! idx)) [0..<n]"
    using shape(4) [of short] assms(4) by (simp add: n_def chk_def)
  define ord where "ord idx = (if idx = 0 then of_nat (n - idx) OR 0x40 else of_nat (n - idx) :: u8)" for idx
  define R where "R idx = lfn_raw (ord idx) chk (cs ! idx)" for idx
  have raws: "raws = R 0 # map R [1..<n]"
    using cs(3) by (simp add: raws R_def ord_def upt_conv_Cons)
  have R: "length (cs ! i) \<le> 13" if "i < n" for i using that cs(2,5) by auto
  have R0: "R i ! 0 = ord i" "R i ! 11 = 0x0F" "R i ! 13 = chk" if "i < n" for i
    unfolding R_def using lfn_raw_spec [OF R [OF that]] by simp_all
  have ordb: "unat (ord i AND 0x1F) = n - i" "ord i \<noteq> 0" "ord i \<noteq> 0xE5" "(ord i AND 0x40 = 0) = (i \<noteq> 0)" if "i < n" for i
    using ord_bits [of "n - i"] that cs(4) by (auto simp: ord_def)
  have "\<forall>p \<in> set (map R [1..<n]). lfn_cont chk p"
    using R0 ordb by (auto simp: lfn_cont_def is_lfn_def)
  then have "dir_slots (raws @ qs) [] None = dir_slots qs (map lfn_ent_of (map R [0..<n])) (Some chk)"
    using R0 [of 0] ordb [of 0] cs(3) dir_slots_conts [of "map R [1..<n]" chk qs "[lfn_ent_of (R 0)]"]
    by (simp add: raws is_lfn_def lfn_ent_of_def upt_conv_Cons)
  moreover have "lfn_name (map lfn_ent_of (map R [0..<n])) = long"
  proof -
    have "map (\<lambda>e. - int (unat (l_ord e AND 0x1F))) (map lfn_ent_of (map R [0..<n])) = map (\<lambda>i. - int (n - i)) [0..<n]"
    proof -
      have "- int (unat (l_ord (lfn_ent_of (R i)) AND 0x1F)) = - int (n - i)" if "i < n" for i
        by (simp only: lfn_ent_of_def lfn_ent.select_convs R0(1) [OF that] ordb(1) [OF that])
      then show ?thesis unfolding map_map comp_def by (intro map_cong refl) (simp only: set_upt atLeastLessThan_iff)
    qed
    moreover have "sorted (map (\<lambda>i. - int (n - i)) [0..<n])" by (auto simp: sorted_iff_nth_mono)
    ultimately have "sort_key (\<lambda>e. - int (unat (l_ord e AND 0x1F))) (map lfn_ent_of (map R [0..<n])) = map lfn_ent_of (map R [0..<n])"
      by (intro sort_key_sorted) (simp only:)
    moreover have "map (\<lambda>e. lfn_push_chars [] e) (map lfn_ent_of (map R [0..<n])) = map (\<lambda>c. c @ replicate (13 - length c) 0xFFFF) cs"
      by (rule nth_equalityI) (use R cs(2) in \<open>auto simp: R_def lfn_chars_raw\<close>)
    moreover obtain k where "concat (map (\<lambda>c. c @ replicate (13 - length c) 0xFFFF) cs) = (map ucast long @ [0]) @ replicate k 0xFFFF"
      using concat_padded_chunks [of "0xFFFF" "map ucast long @ [0]"] unfolding cs(1) by blast
    ultimately have "lfn_name (map lfn_ent_of (map R [0..<n])) = lfn_utf16_to_string (map ucast long @ 0 # replicate k 0xFFFF)"
      by (simp only: lfn_name_def fold_chars) simp
    then show ?thesis using assms(1) by (simp add: utf16_back long_name_ok_def)
  qed
  ultimately show ?thesis using cs(3) unfolding chk_def by fastforce
qed

lemma concat_map_nth:
  assumes "i < length xs"
  shows "concat (map g xs) = concat (map g (take i xs)) @ g (xs ! i) @ concat (map g (drop (Suc i) xs))"
  by (subst id_take_nth_drop [OF assms]) simp

lemma dir_ent_roundtrip [codec_simps]:
  assumes "length (de_name e) = 11"
  shows "dir_ent_of (dir_ent_bytes e) = e" "length (dir_ent_bytes e) = 32"
    "dir_ent_bytes e ! 0 = de_name e ! 0" "dir_ent_bytes e ! 11 = de_attr e"
proof -
  let ?h = "de_name e @ [de_attr e, de_ntres e, de_crt_tenth e]"
  let ?fs = "[de_crt_time e, de_crt_date e, de_acc_date e, de_clus_hi e, de_wrt_time e, de_wrt_date e, de_clus_lo e]"
  have b: "dir_ent_bytes e = ?h @ concat (map le16 ?fs) @ le32 (de_size e)" by (simp add: dir_ent_bytes_def)
  have l16: "length (concat (map le16 xs)) = 2 * length xs" for xs by (induction xs) (simp_all add: le16_def)
  have f: "rd16 (dir_ent_bytes e) (14 + 2 * i) = ?fs ! i" if "i < 7" for i
  proof -
    have "dir_ent_bytes e = (?h @ concat (map le16 (take i ?fs))) @ le16 (?fs ! i) @ concat (map le16 (drop (Suc i) ?fs)) @ le32 (de_size e)"
      unfolding b using concat_map_nth [of i ?fs le16] that by (simp only: append_assoc) simp
    moreover have "length (?h @ concat (map le16 (take i ?fs))) = 14 + 2 * i" using assms that by (simp add: l16)
    ultimately show ?thesis by (metis rd16_le16)
  qed
  have sz: "rd32 (dir_ent_bytes e) 28 = de_size e"
    unfolding b using rd32_le32 [of "?h @ concat (map le16 ?fs)" "de_size e" "[]"] assms by (simp add: l16)
  have t: "take 11 (dir_ent_bytes e) = de_name e" and n: "dir_ent_bytes e ! 11 = de_attr e"
    "dir_ent_bytes e ! 12 = de_ntres e" "dir_ent_bytes e ! 13 = de_crt_tenth e" "dir_ent_bytes e ! 0 = de_name e ! 0"
    unfolding b using assms by (simp_all add: nth_append)
  show "dir_ent_of (dir_ent_bytes e) = e"
    using f [of 0] f [of 1] f [of 2] f [of 3] f [of 4] f [of 5] f [of 6] sz t n by (simp add: dir_ent_of_def)
  show "length (dir_ent_bytes e) = 32" unfolding b using assms by (simp add: l16)
  show "dir_ent_bytes e ! 0 = de_name e ! 0" "dir_ent_bytes e ! 11 = de_attr e" using n by simp_all
qed

text \<open>The first raw entry starts over, whatever was pending.\<close>

lemma build_lfn_hd:
  assumes "long_name_ok long" "length long < 403" "build_lfn_entries short long = Inr raws"
  shows "\<exists>p ps. raws = p # ps \<and> p ! 0 \<notin> {0, 0xE5} \<and> is_lfn (p ! 11) \<and> p ! 0 AND 0x40 \<noteq> 0"
    "\<forall>p \<in> set raws. length p = 32" "length raws = (length long + 13) div 13"
proof -
  define cs where "cs = chunks 13 (map ucast long @ [0] :: u16 list)"
  note shape = build_lfn_shape [OF assms(1,2), folded cs_def]
  define R where "R idx = lfn_raw (if idx = 0 then of_nat (length cs - idx) OR 0x40 else of_nat (length cs - idx))
    (lfn_checksum short) (cs ! idx)" for idx
  have raws: "raws = map R [0..<length cs]" using shape(4) [of short] assms(3) by (simp add: R_def)
  have c: "length (cs ! i) \<le> 13" if "i < length cs" for i using shape(3) that by simp
  then show "\<forall>p \<in> set raws. length p = 32" unfolding raws R_def by (auto simp: lfn_raw_spec(1))
  have "raws = R 0 # map R [1..<length cs]" using shape(1) by (simp add: raws upt_conv_Cons)
  moreover have "R 0 ! 0 = of_nat (length cs) OR 0x40" "R 0 ! 11 = 0x0F"
    using lfn_raw_spec(2,3) [OF c [OF shape(1)]] by (simp_all add: R_def)
  ultimately show "\<exists>p ps. raws = p # ps \<and> p ! 0 \<notin> {0, 0xE5} \<and> is_lfn (p ! 11) \<and> p ! 0 AND 0x40 \<noteq> 0"
    using ord_bits(6-8) [OF shape(1,2)] by (auto simp: is_lfn_def)
  show "length raws = (length long + 13) div 13" by (simp add: raws cs_def length_chunks)
qed

lemma dir_slots_reset:
  "p ! 0 \<notin> {0, 0xE5} \<Longrightarrow> is_lfn (p ! 11) \<Longrightarrow> p ! 0 AND 0x40 \<noteq> 0 \<Longrightarrow> dir_slots (p # ps) ents chk = dir_slots (p # ps) [] None"
  by (simp add: lfn_ent_of_def)

lemma dir_slots_new_entry:
  assumes "long_name_ok long" and "length long < 403"
    and "length (de_name e) = 11" and "de_name e ! 0 \<notin> {0, 0xE5}" and "de_attr e \<in> {ATTR_DIR, ATTR_ARCHIVE}"
    and "build_lfn_entries (de_name e) long = Inr raws"
  shows "dir_slots (raws @ [dir_ent_bytes e] @ qs) pend chk
    = (if de_attr e = ATTR_DIR then long @ [SLASH] else long, e) # dir_slots qs [] None"
proof -
  obtain ents where ents: "dir_slots (raws @ [dir_ent_bytes e] @ qs) [] None
      = dir_slots ([dir_ent_bytes e] @ qs) ents (Some (lfn_checksum (de_name e)))" "ents \<noteq> []" "lfn_name ents = long"
    using dir_slots_long_name [OF assms(1-3,6)] by blast
  have at: "\<not> is_lfn (de_attr e)" "de_attr e AND ATTR_VOLUME = 0" "(de_attr e AND ATTR_DIR \<noteq> 0) = (de_attr e = ATTR_DIR)"
    using assms(5) by (auto simp: is_lfn_def ATTR_DIR_def ATTR_ARCHIVE_def ATTR_VOLUME_def)
  have "long \<noteq> []" "last long \<noteq> SLASH" using assms(1) by (auto simp: long_name_ok_def)
  then have "entry_name ents (Some (lfn_checksum (de_name e))) e = (if de_attr e = ATTR_DIR then long @ [SLASH] else long)"
    using ents(2,3) at(3) by (simp add: entry_name_def Let_def)
  then have "dir_slots ([dir_ent_bytes e] @ qs) ents (Some (lfn_checksum (de_name e)))
      = (if de_attr e = ATTR_DIR then long @ [SLASH] else long, e) # dir_slots qs [] None"
    using assms(4) at(1,2) by (simp add: dir_ent_roundtrip [OF assms(3)] Let_def)
  moreover have "dir_slots (raws @ [dir_ent_bytes e] @ qs) pend chk = dir_slots (raws @ [dir_ent_bytes e] @ qs) [] None"
    using build_lfn_hd(1) [OF assms(1,2,6)] dir_slots_reset by (metis append_Cons)
  ultimately show ?thesis using ents(1) by simp
qed

section \<open>Properties\<close>

text \<open>
  C31: The long-name entries and the short entry written for a file or directory, read back
  by the directory scan, give exactly the long name (with a slash for a directory) and the entry, whatever
  long-name entries were pending; the scan goes on behind them with no pending long name. The entries take
  one slot per 13 characters (terminator included) and one more.
\<close>

theorem long_name_roundtrip:
  assumes "long_name_ok long" and "length long < 403"
    and "length (de_name e) = 11" and "de_name e ! 0 \<notin> {0, 0xE5}" and "de_attr e \<in> {ATTR_DIR, ATTR_ARCHIVE}"
  shows "\<exists>raws. build_lfn_entries (de_name e) long = Inr raws \<and> length raws = (length long + 13) div 13
    \<and> dir_slots (raws @ [dir_ent_bytes e] @ qs) pend chk
        = (if de_attr e = ATTR_DIR then long @ [SLASH] else long, e) # dir_slots qs [] None"
proof -
  obtain raws where raws: "build_lfn_entries (de_name e) long = Inr raws"
    using build_lfn_shape(4) [OF assms(1,2), of "de_name e"] by simp
  then show ?thesis
    using build_lfn_hd(3) [OF assms(1,2) raws] dir_slots_new_entry [OF assms raws, of qs pend chk] by blast
qed

theorem long_name_roundtrip_witness:
  "\<exists>raws. build_lfn_entries (replicate 11 0x41) [0x61, 0x62] = Inr raws \<and> length raws = 1
     \<and> dir_slots (raws @ [dir_ent_bytes (new_dir_ent (replicate 11 0x41) ATTR_ARCHIVE)]) [] None
         = [([0x61, 0x62], new_dir_ent (replicate 11 0x41) ATTR_ARCHIVE)]"
proof -
  let ?e = "new_dir_ent (replicate 11 0x41) ATTR_ARCHIVE"
  have e: "de_name ?e = replicate 11 0x41" "de_attr ?e = ATTR_ARCHIVE" by (simp_all add: new_dir_ent_def)
  have "long_name_ok [0x61, 0x62]" "length [0x61, 0x62 :: u8] < 403" "length (de_name ?e) = 11"
      "de_name ?e ! 0 \<notin> {0, 0xE5}" "de_attr ?e \<in> {ATTR_DIR, ATTR_ARCHIVE}"
    unfolding e by (simp_all add: long_name_ok_def)
  from long_name_roundtrip [OF this, of "[]" "[]" None] show ?thesis
    unfolding e by (simp add: ATTR_DIR_def ATTR_ARCHIVE_def)
qed

text \<open>The short names made for a long one are 11 bytes and start with a character, not with a mark.\<close>

definition short_ok :: "u8 list \<Rightarrow> bool" where
  "short_ok s \<longleftrightarrow> length s = 11 \<and> is_valid_short_char (s ! 0)"

lemma valid_short_char: "is_valid_short_char b \<Longrightarrow> b \<notin> {0, 0xE5, 0x20}"
  by (auto simp: is_valid_short_char_def)

lemma short_chars_valid: "c \<in> set (short_chars k s) \<Longrightarrow> is_valid_short_char c"
  unfolding short_chars_def by (auto dest: in_set_takeD)

lemma length_short_chars: "length (short_chars k s) \<le> k"
  by (simp add: short_chars_def)

lemma make_short_candidate_ok: "make_short_candidate long = Inr s \<Longrightarrow> short_ok s"
proof -
  assume h: "make_short_candidate long = Inr s"
  then obtain b e where s: "s = pad 8 (short_chars 8 b) @ pad 3 (short_chars 3 e)" "s ! 0 \<noteq> 0x20"
    by (auto simp: make_short_candidate_def Let_def split: if_splits)
  show "short_ok s"
  proof (cases "short_chars 8 b")
    case Nil
    then show ?thesis using s by (simp add: nth_append)
  next
    case (Cons c cs)
    then have "is_valid_short_char c" using short_chars_valid [of c 8 b] by simp
    then show ?thesis using s(1) Cons length_short_chars [of 8 b] length_short_chars [of 3 e] by (simp add: short_ok_def)
  qed
qed

lemma tilde_name_ok:
  assumes "short_ok s"
  shows "short_ok (tilde_name s n)"
proof -
  obtain c r where c: "s = c # r" using assms by (cases s) (auto simp: short_ok_def)
  have "c \<noteq> 0x20" "is_valid_short_char c" using assms c valid_short_char by (auto simp: short_ok_def)
  then obtain t where t: "take 6 (takeWhile (\<lambda>c. c \<noteq> 0x20) (take 8 s)) = c # t" "length t \<le> 5"
    using c by (auto simp: take_Cons')
  then show ?thesis using assms \<open>is_valid_short_char c\<close> by (simp add: short_ok_def tilde_name_def)
qed

lemma unique_loop_ok: "unique_loop taken n k s = Inr s' \<Longrightarrow> short_ok s \<Longrightarrow> short_ok s' \<and> s' \<notin> set taken"
  by (induction taken n k s rule: unique_loop.induct) (auto simp: tilde_name_ok split: if_splits)

text \<open>
  The entries of a long name carry consecutive numbers, and the FAT specification stores the first 13
  characters under number 1. The scan sorts by descending number: of a name of 14 to 25 characters
  written by another system it reads only the characters from the fourteenth on.
\<close>

lemma standard_order_misread:
  assumes "length a = 13" "0 < length b" "length b < 13" "\<forall>x \<in> set (a @ b). 0x20 \<le> x \<and> x < (0x7F :: u8)"
  shows "lfn_name [lfn_ent_of (lfn_raw 0x42 chk (map ucast b @ [0])), lfn_ent_of (lfn_raw 0x01 chk (map ucast a))] = b"
proof -
  let ?e2 = "lfn_ent_of (lfn_raw 0x42 chk (map ucast b @ [0]))" and ?e1 = "lfn_ent_of (lfn_raw 0x01 chk (map ucast a))"
  have "l_ord ?e2 = 0x42" "l_ord ?e1 = 0x01"
    using lfn_raw_spec(2) [of "map ucast b @ [0]"] lfn_raw_spec(2) [of "map ucast a"] assms(1,3)
    by (simp_all add: lfn_ent_of_def)
  then have "sort_key (\<lambda>e. - int (unat (l_ord e AND 0x1F))) [?e2, ?e1] = [?e2, ?e1]" by simp
  moreover have "lfn_push_chars [] ?e2 = map ucast b @ 0 # replicate (12 - length b) 0xFFFF"
    using lfn_chars_raw [of "map ucast b @ [0]"] assms(3) by simp
  ultimately have "lfn_name [?e2, ?e1] = lfn_utf16_to_string (map ucast b @ 0 # (replicate (12 - length b) 0xFFFF @ lfn_push_chars [] ?e1))"
    by (simp only: lfn_name_def fold_chars) simp
  then show ?thesis using assms(4) by (simp add: utf16_back)
qed

end
