(* ===== verification/Ext2.thy ===== *)
theory Ext2
  imports Blk Fat32_Names
begin

text \<open>
  The second file system, \<^verbatim>\<open>kernel/fs/ext2.rs\<close>: superblock and group descriptors, inodes, block pointers, directory
  records, allocation from the bitmaps of group 0 and the operations on paths. Blocks, inodes and records are
  lists of bytes; an index past the end of one is a panic. Log output is left out.
\<close>

datatype ext2_err = EIo | BadSuperblock | BadMagic | EUnsupported | ENotFound | EName | EFull

section \<open>Fields\<close>

definition wr16 :: "nat \<Rightarrow> u16 \<Rightarrow> u8 list \<Rightarrow> u8 list option" where
  "wr16 off v bs = (if off + 2 \<le> length bs then Some (splice bs off (le16 v)) else None)"

definition wr32 :: "nat \<Rightarrow> u32 \<Rightarrow> u8 list \<Rightarrow> u8 list option" where
  "wr32 off v bs = (if off + 4 \<le> length bs then Some (splice bs off (le32 v)) else None)"

definition is_dir :: "u16 \<Rightarrow> bool" where "is_dir mode \<longleftrightarrow> mode AND 0xF000 = 0x4000"
definition is_reg :: "u16 \<Rightarrow> bool" where "is_reg mode \<longleftrightarrow> mode AND 0xF000 = 0x8000"

definition EXT2_ROOT_INO :: u32 where "EXT2_ROOT_INO = 2"

definition INODE_OFF_SIZE :: nat where "INODE_OFF_SIZE = 4"
definition INODE_OFF_LINKS :: nat where "INODE_OFF_LINKS = 26"
definition INODE_OFF_BLOCKS :: nat where "INODE_OFF_BLOCKS = 28"
definition INODE_OFF_BLOCK :: nat where "INODE_OFF_BLOCK = 40"

definition FT_REG :: u8 where "FT_REG = 1"
definition FT_DIR :: u8 where "FT_DIR = 2"

text \<open>\<open>(base + 3) & !3\<close>\<close>

definition dirent_ideal_len :: "nat \<Rightarrow> nat" where
  "dirent_ideal_len name_len = (let base = 8 + name_len in (base + 3) div 4 * 4)"

record ext2 =
  x_base_off :: u64
  block_size :: u32
  blocks_per_group :: u32
  inodes_per_group :: u32
  inode_size :: u16
  first_inode :: u32
  bgdt_off :: u64

abbreviation bsz :: "ext2 \<Rightarrow> nat" where "bsz fs \<equiv> unat (block_size fs)"

section \<open>Reading and writing at a byte offset\<close>

definition io :: "u8 list option \<Rightarrow> ext2_err + u8 list" where
  "io r = (case r of None \<Rightarrow> Inl EIo | Some b \<Rightarrow> Inr b)"

definition read_exact :: "'b blk_ops \<Rightarrow> ext2 \<Rightarrow> 'b \<Rightarrow> u64 \<Rightarrow> nat \<Rightarrow> (ext2_err + u8 list) option" where
  "read_exact ops fs d off n = do {
     a \<leftarrow> checked_add (x_base_off fs) off;
     r \<leftarrow> read_at ops d a n;
     Some (io r)
   }"

definition write_exact :: "'b blk_ops \<Rightarrow> ext2 \<Rightarrow> u64 \<Rightarrow> u8 list \<Rightarrow> 'b \<Rightarrow> ((ext2_err + unit) \<times> 'b) option" where
  "write_exact ops fs off src d = do {
     a \<leftarrow> checked_add (x_base_off fs) off;
     (ok, d) \<leftarrow> write_at ops d a src;
     Some (if ok then Inr () else Inl EIo, d)
   }"

text \<open>The superblock is read and written as two sectors; both reads are made before either result is looked at.\<close>

definition read_super :: "'b blk_ops \<Rightarrow> 'b \<Rightarrow> u64 \<Rightarrow> (ext2_err + u8 list) option" where
  "read_super ops d base = do {
     a0 \<leftarrow> checked_add base 1024;
     r0 \<leftarrow> read_at ops d a0 512;
     a1 \<leftarrow> checked_add a0 512;
     r1 \<leftarrow> read_at ops d a1 512;
     Some (case (r0, r1) of (Some b0, Some b1) \<Rightarrow> Inr (b0 @ b1) | _ \<Rightarrow> Inl EIo)
   }"

definition read_sb :: "'b blk_ops \<Rightarrow> ext2 \<Rightarrow> 'b \<Rightarrow> (ext2_err + u8 list) option" where
  "read_sb ops fs d = read_super ops d (x_base_off fs)"

definition write_sb :: "'b blk_ops \<Rightarrow> ext2 \<Rightarrow> u8 list \<Rightarrow> 'b \<Rightarrow> ((ext2_err + unit) \<times> 'b) option" where
  "write_sb ops fs sb d =
     sbind (write_exact ops fs 1024 (take 512 sb) d) (\<lambda>_ d. write_exact ops fs (1024 + 512) (drop 512 sb) d)"

definition checked_shl :: "u32 \<Rightarrow> u32 \<Rightarrow> u32 option" where
  "checked_shl a n = (if n < 32 then Some (push_bit (unat n) a) else None)"

definition ext2_mount :: "'b blk_ops \<Rightarrow> 'b \<Rightarrow> u64 \<Rightarrow> (ext2_err + ext2) option" where
  "ext2_mount ops d base =
     rbind (read_super ops d base) (\<lambda>sb.
       if rd16 sb 56 \<noteq> 0xEF53 then Some (Inl BadMagic)
       else case checked_shl 1024 (rd32 sb 24) of
         None \<Rightarrow> Some (Inl EUnsupported)
       | Some bs \<Rightarrow>
           if bs \<noteq> 1024 \<and> bs \<noteq> 2048 \<and> bs \<noteq> 4096 then Some (Inl EUnsupported)
           else Some (Inr \<lparr>x_base_off = base, block_size = bs, blocks_per_group = rd32 sb 32, inodes_per_group = rd32 sb 40,
                  inode_size = (if rd16 sb 88 = 0 then 128 else rd16 sb 88), first_inode = rd32 sb 84,
                  bgdt_off = (if bs = 1024 then 2 else 1) * ucast bs\<rparr>))"

definition debug_probe_magic :: "'b blk_ops \<Rightarrow> ext2 \<Rightarrow> 'b \<Rightarrow> (ext2_err + u16) option" where
  "debug_probe_magic ops fs d = rbind (read_sb ops fs d) (\<lambda>sb. Some (Inr (rd16 sb 56)))"

text \<open>\<open>read_block\<close> is always called with a buffer of one block.\<close>

definition read_block :: "'b blk_ops \<Rightarrow> ext2 \<Rightarrow> 'b \<Rightarrow> u32 \<Rightarrow> (ext2_err + u8 list) option" where
  "read_block ops fs d block = read_exact ops fs d (ucast block * ucast (block_size fs)) (bsz fs)"

definition write_block :: "'b blk_ops \<Rightarrow> ext2 \<Rightarrow> u32 \<Rightarrow> u8 list \<Rightarrow> 'b \<Rightarrow> ((ext2_err + unit) \<times> 'b) option" where
  "write_block ops fs block src d =
     (if length src \<noteq> bsz fs then Some (Inl BadSuperblock, d)
      else write_exact ops fs (ucast block * ucast (block_size fs)) src d)"

section \<open>Group descriptors\<close>

definition read_group_desc :: "'b blk_ops \<Rightarrow> ext2 \<Rightarrow> 'b \<Rightarrow> u32 \<Rightarrow> (ext2_err + u8 list) option" where
  "read_group_desc ops fs d grp = do {
     off \<leftarrow> checked_add (bgdt_off fs) (ucast grp * 32);
     read_exact ops fs d off 32
   }"

definition write_group_desc :: "'b blk_ops \<Rightarrow> ext2 \<Rightarrow> u32 \<Rightarrow> u8 list \<Rightarrow> 'b \<Rightarrow> ((ext2_err + unit) \<times> 'b) option" where
  "write_group_desc ops fs grp gd d = do {
     off \<leftarrow> checked_add (bgdt_off fs) (ucast grp * 32);
     write_exact ops fs off gd d
   }"

definition gd_block :: "'b blk_ops \<Rightarrow> ext2 \<Rightarrow> 'b \<Rightarrow> u32 \<Rightarrow> nat \<Rightarrow> (ext2_err + u32) option" where
  "gd_block ops fs d grp off =
     rbind (read_group_desc ops fs d grp) (\<lambda>gd. Some (if rd32 gd off = 0 then Inl BadSuperblock else Inr (rd32 gd off)))"

definition inode_table_block :: "'b blk_ops \<Rightarrow> ext2 \<Rightarrow> 'b \<Rightarrow> u32 \<Rightarrow> (ext2_err + u32) option" where
  "inode_table_block ops fs d grp = gd_block ops fs d grp 8"

definition group_block_bitmap :: "'b blk_ops \<Rightarrow> ext2 \<Rightarrow> 'b \<Rightarrow> u32 \<Rightarrow> (ext2_err + u32) option" where
  "group_block_bitmap ops fs d grp = gd_block ops fs d grp 0"

definition group_inode_bitmap :: "'b blk_ops \<Rightarrow> ext2 \<Rightarrow> 'b \<Rightarrow> u32 \<Rightarrow> (ext2_err + u32) option" where
  "group_inode_bitmap ops fs d grp = gd_block ops fs d grp 4"

section \<open>Inodes\<close>

text \<open>
  Where an inode lies: the block of the table and the offset in it. A superblock with no inodes per group
  makes the division panic.
\<close>

definition inode_pos :: "'b blk_ops \<Rightarrow> ext2 \<Rightarrow> 'b \<Rightarrow> u32 \<Rightarrow> (ext2_err + u32 \<times> nat) option" where
  "inode_pos ops fs d ino = do {
     assert_that (inodes_per_group fs \<noteq> 0);
     let idx0 = ino - 1; grp = idx0 div inodes_per_group fs; index = idx0 mod inodes_per_group fs in
     rbind (inode_table_block ops fs d grp) (\<lambda>it_block. do {
       let byte_off = (ucast index * ucast (inode_size fs) :: u64) in do {
         assert_that (block_size fs \<noteq> 0);
         blk \<leftarrow> checked_add it_block (ucast byte_off div block_size fs);
         Some (Inr (blk, unat ((ucast byte_off :: u32) mod block_size fs)))
       }
     })
   }"

definition read_inode_raw :: "'b blk_ops \<Rightarrow> ext2 \<Rightarrow> 'b \<Rightarrow> u32 \<Rightarrow> (ext2_err + u8 list) option" where
  "read_inode_raw ops fs d ino =
     (if ino = 0 then Some (Inl ENotFound)
      else rbind (inode_pos ops fs d ino) (\<lambda>(blk, off).
        rbind (read_block ops fs d blk) (\<lambda>b0.
          let n = unat (inode_size fs); take0 = min n (bsz fs - off) in do {
            h \<leftarrow> slice b0 off take0;
            if take0 < n then do {
              blk1 \<leftarrow> checked_add blk 1;
              rbind (read_block ops fs d blk1) (\<lambda>b1. do { t \<leftarrow> slice b1 0 (n - take0); Some (Inr (h @ t)) })
            } else Some (Inr h)
          })))"

definition write_inode_raw :: "'b blk_ops \<Rightarrow> ext2 \<Rightarrow> u32 \<Rightarrow> u8 list \<Rightarrow> 'b \<Rightarrow> ((ext2_err + unit) \<times> 'b) option" where
  "write_inode_raw ops fs ino raw d =
     (if ino = 0 then Some (Inl ENotFound, d)
      else if length raw \<noteq> unat (inode_size fs) then Some (Inl BadSuperblock, d)
      else getr d (inode_pos ops fs d ino) (\<lambda>(blk, off).
        getr d (read_block ops fs d blk) (\<lambda>b0.
          let take0 = min (length raw) (bsz fs - off) in do {
            assert_that (off + take0 \<le> length b0);
            sbind (write_block ops fs blk (splice b0 off (take take0 raw)) d) (\<lambda>_ d.
              if take0 < length raw then do {
                blk1 \<leftarrow> checked_add blk 1;
                getr d (read_block ops fs d blk1) (\<lambda>b1. do {
                  assert_that (length raw - take0 \<le> length b1);
                  write_block ops fs blk1 (splice b1 0 (drop take0 raw)) d
                })
              } else Some (Inr (), d))
          })))"

definition inode_get_block_ptrs :: "u8 list \<Rightarrow> u32 list option" where
  "inode_get_block_ptrs raw =
     (if INODE_OFF_BLOCK + 60 \<le> length raw then Some (map (\<lambda>i. rd32 raw (INODE_OFF_BLOCK + i * 4)) [0..<15]) else None)"

definition inode_mode_size_blocks :: "'b blk_ops \<Rightarrow> ext2 \<Rightarrow> 'b \<Rightarrow> u32 \<Rightarrow> (ext2_err + u16 \<times> u32 \<times> u32 list) option" where
  "inode_mode_size_blocks ops fs d ino =
     rbind (read_inode_raw ops fs d ino) (\<lambda>raw.
       if length raw < 100 then Some (Inl BadSuperblock)
       else Some (Inr (rd16 raw 0, rd32 raw INODE_OFF_SIZE, map (\<lambda>i. rd32 raw (INODE_OFF_BLOCK + i * 4)) [0..<15])))"

section \<open>File contents\<close>

definition read_u32_block_entry :: "'b blk_ops \<Rightarrow> ext2 \<Rightarrow> 'b \<Rightarrow> u32 \<Rightarrow> u32 \<Rightarrow> (ext2_err + u32) option" where
  "read_u32_block_entry ops fs d block index =
     (if block = 0 then Some (Inr 0)
      else if index \<ge> block_size fs div 4 then Some (Inr 0)
      else rbind (read_block ops fs d block) (\<lambda>buf. Some (Inr (rd32 buf (unat index * 4)))))"

definition inode_data_block_no :: "'b blk_ops \<Rightarrow> ext2 \<Rightarrow> 'b \<Rightarrow> u32 list \<Rightarrow> u32 \<Rightarrow> (ext2_err + u32) option" where
  "inode_data_block_no ops fs d blkptrs file_block_idx =
     (let per_block = block_size fs div 4 in
      if file_block_idx < 12 then Some (Inr (blkptrs ! unat file_block_idx))
      else let idx = file_block_idx - 12 in
        if idx < per_block then read_u32_block_entry ops fs d (blkptrs ! 12) idx
        else let idx = idx - per_block in
          case checked_mul per_block per_block of
            None \<Rightarrow> Some (Inl EUnsupported)
          | Some doubly_cap \<Rightarrow>
              if idx < doubly_cap then
                rbind (read_u32_block_entry ops fs d (blkptrs ! 13) (idx div per_block)) (\<lambda>l1.
                  if l1 = 0 then Some (Inr 0) else read_u32_block_entry ops fs d l1 (idx mod per_block))
              else Some (Inl EUnsupported))"

text \<open>The loop over the blocks of a file: what is read and how much is still wanted. A hole reads as zeros.\<close>

fun read_blocks :: "'b blk_ops \<Rightarrow> ext2 \<Rightarrow> 'b \<Rightarrow> u32 list \<Rightarrow> nat list \<Rightarrow> nat \<Rightarrow> (ext2_err + u8 list) option" where
  "read_blocks ops fs d blkptrs [] want = Some (Inr [])"
| "read_blocks ops fs d blkptrs (i # is) want =
     rbind (inode_data_block_no ops fs d blkptrs (of_nat i)) (\<lambda>disk_blk.
     rbind (if disk_blk \<noteq> 0 then read_block ops fs d disk_blk else Some (Inr (replicate (bsz fs) 0))) (\<lambda>buf.
       let n = min (bsz fs) want in
       if want - n = 0 then Some (Inr (take n buf))
       else rbind (read_blocks ops fs d blkptrs is (want - n)) (\<lambda>rest. Some (Inr (take n buf @ rest)))))"

definition read_inode_data :: "'b blk_ops \<Rightarrow> ext2 \<Rightarrow> 'b \<Rightarrow> u32 \<Rightarrow> nat \<Rightarrow> (ext2_err + u8 list) option" where
  "read_inode_data ops fs d ino max_bytes =
     rbind (inode_mode_size_blocks ops fs d ino) (\<lambda>(mode, sz, blkptrs).
       if \<not> (is_reg mode \<or> is_dir mode) then Some (Inl EUnsupported)
       else let want = min (unat sz) max_bytes in
         if want = 0 then Some (Inr [])
         else do {
           assert_that (bsz fs \<noteq> 0);
           rbind (read_blocks ops fs d blkptrs [0..<(want + bsz fs - 1) div bsz fs] want) (\<lambda>out. Some (Inr (take want out)))
         })"

section \<open>Directories\<close>

text \<open>
  One record is the inode number, the record length, the name length, the type and the name. The walk over the
  records is a recursion on the bytes that are left.
\<close>

definition rec_len :: "u8 list \<Rightarrow> nat" where "rec_len r = unat (rd16 r 4)"
definition rec_name_len :: "u8 list \<Rightarrow> nat" where "rec_name_len r = unat (r ! 6)"
definition rec_name :: "u8 list \<Rightarrow> u8 list" where "rec_name r = take (rec_name_len r) (drop 8 r)"

text \<open>A record with a file in it whose name is a valid string.\<close>

definition rec_used :: "u8 list \<Rightarrow> bool" where
  "rec_used r \<longleftrightarrow> rd32 r 0 \<noteq> 0 \<and> rec_len r \<le> length r \<and> 8 + rec_name_len r \<le> length r \<and> utf8_valid (rec_name r)"

function dir_find :: "u8 list \<Rightarrow> u8 list \<Rightarrow> u32 option" where
  "dir_find name r =
     (if length r < 8 \<or> rec_len r = 0 then None
      else if rec_used r \<and> eq_ci (rec_name r) name then Some (rd32 r 0)
      else dir_find name (drop (rec_len r) r))"
  by pat_completeness auto
termination by (relation "measure (\<lambda>(_, r). length r)") auto

declare dir_find.simps [simp del]

definition lookup_in_dir_ci :: "'b blk_ops \<Rightarrow> ext2 \<Rightarrow> 'b \<Rightarrow> u32 \<Rightarrow> u8 list \<Rightarrow> (ext2_err + u32) option" where
  "lookup_in_dir_ci ops fs d dir_ino name =
     rbind (inode_mode_size_blocks ops fs d dir_ino) (\<lambda>(mode, _, _).
       if \<not> is_dir mode then Some (Inl ENotFound)
       else rbind (read_inode_data ops fs d dir_ino (512 * 1024)) (\<lambda>raw.
         Some (case dir_find name raw of None \<Rightarrow> Inl ENotFound | Some ino \<Rightarrow> Inr ino)))"

definition ext2_split_path :: "u8 list \<Rightarrow> u8 list list" where
  "ext2_split_path p = filter (\<lambda>c. c \<noteq> []) (split_on SLASH p)"

fun walk_ci :: "'b blk_ops \<Rightarrow> ext2 \<Rightarrow> 'b \<Rightarrow> u32 \<Rightarrow> u8 list list \<Rightarrow> (ext2_err + u32) option" where
  "walk_ci ops fs d cur [] = Some (Inr cur)"
| "walk_ci ops fs d cur (c # cs) = rbind (lookup_in_dir_ci ops fs d cur c) (\<lambda>nxt. walk_ci ops fs d nxt cs)"

definition resolve_inode_ci :: "'b blk_ops \<Rightarrow> ext2 \<Rightarrow> 'b \<Rightarrow> u8 list \<Rightarrow> (ext2_err + u32) option" where
  "resolve_inode_ci ops fs d path =
     (if path = [] then Some (Inl EName)
      else if path = [SLASH] then Some (Inr EXT2_ROOT_INO)
      else walk_ci ops fs d EXT2_ROOT_INO (ext2_split_path path))"

definition resolve_parent_dir_ci :: "'b blk_ops \<Rightarrow> ext2 \<Rightarrow> 'b \<Rightarrow> u8 list \<Rightarrow> (ext2_err + u32 \<times> u8 list) option" where
  "resolve_parent_dir_ci ops fs d path =
     (let cs = ext2_split_path path in
      if cs = [] then Some (Inl EName)
      else rbind (walk_ci ops fs d EXT2_ROOT_INO (butlast cs)) (\<lambda>cur. Some (Inr (cur, last cs))))"

text \<open>A record whose type is not known is listed by the mode of its inode; an error there counts as a file.\<close>

definition child_is_dir :: "'b blk_ops \<Rightarrow> ext2 \<Rightarrow> 'b \<Rightarrow> u8 list \<Rightarrow> bool option" where
  "child_is_dir ops fs d r =
     (if r ! 7 = FT_DIR then Some True
      else if r ! 7 = FT_REG then Some False
      else do {
        m \<leftarrow> inode_mode_size_blocks ops fs d (rd32 r 0);
        Some (case m of Inl _ \<Rightarrow> False | Inr (mode, _, _) \<Rightarrow> is_dir mode)
      })"

function list_records :: "'b blk_ops \<Rightarrow> ext2 \<Rightarrow> 'b \<Rightarrow> u8 list \<Rightarrow> u8 list list option" where
  "list_records ops fs d r =
     (if length r < 8 \<or> rec_len r = 0 then Some []
      else if rec_used r then do {
        is_d \<leftarrow> child_is_dir ops fs d r;
        rest \<leftarrow> list_records ops fs d (drop (rec_len r) r);
        Some ((rec_name r @ (if is_d then [SLASH] else [])) # rest)
      }
      else list_records ops fs d (drop (rec_len r) r))"
  by pat_completeness auto
termination by (relation "measure (\<lambda>(_, _, _, r). length r)") auto

declare list_records.simps [simp del]

definition ext2_list_dir :: "'b blk_ops \<Rightarrow> ext2 \<Rightarrow> 'b \<Rightarrow> u8 list \<Rightarrow> (ext2_err + u8 list list) option" where
  "ext2_list_dir ops fs d path =
     rbind (resolve_inode_ci ops fs d path) (\<lambda>ino.
     rbind (inode_mode_size_blocks ops fs d ino) (\<lambda>(mode, _, _).
       if \<not> is_dir mode then Some (Inl ENotFound)
       else rbind (read_inode_data ops fs d ino (512 * 1024)) (\<lambda>raw. do {
         out \<leftarrow> list_records ops fs d raw;
         Some (Inr out)
       })))"

definition ext2_read_file :: "'b blk_ops \<Rightarrow> ext2 \<Rightarrow> 'b \<Rightarrow> u8 list \<Rightarrow> (ext2_err + u8 list) option" where
  "ext2_read_file ops fs d path =
     rbind (resolve_inode_ci ops fs d path) (\<lambda>ino.
     rbind (inode_mode_size_blocks ops fs d ino) (\<lambda>(mode, sz, _).
       if \<not> is_reg mode then Some (Inl ENotFound)
       else rbind (read_inode_data ops fs d ino (unat sz)) (\<lambda>v. Some (Inr (take (unat sz) v)))))"

section \<open>Counters and bitmaps\<close>

text \<open>The free counts of the superblock and of a group descriptor: read, change one field, write back.\<close>

definition sb_update :: "'b blk_ops \<Rightarrow> ext2 \<Rightarrow> nat \<Rightarrow> (u32 \<Rightarrow> u32) \<Rightarrow> 'b \<Rightarrow> ((ext2_err + unit) \<times> 'b) option" where
  "sb_update ops fs off f d = getr d (read_sb ops fs d) (\<lambda>sb. do { sb \<leftarrow> wr32 off (f (rd32 sb off)) sb; write_sb ops fs sb d })"

definition gd_update :: "'b blk_ops \<Rightarrow> ext2 \<Rightarrow> u32 \<Rightarrow> nat \<Rightarrow> (u16 \<Rightarrow> u16) \<Rightarrow> 'b \<Rightarrow> ((ext2_err + unit) \<times> 'b) option" where
  "gd_update ops fs grp off f d =
     getr d (read_group_desc ops fs d grp) (\<lambda>gd. do { gd \<leftarrow> wr16 off (f (rd16 gd off)) gd; write_group_desc ops fs grp gd d })"

definition sat_dec :: "'a::len word \<Rightarrow> 'a word \<Rightarrow> 'a word" where
  "sat_dec n cur = (if n \<le> cur then cur - n else 0)"

definition sb_dec_free_inodes :: "'b blk_ops \<Rightarrow> ext2 \<Rightarrow> u32 \<Rightarrow> 'b \<Rightarrow> ((ext2_err + unit) \<times> 'b) option" where
  "sb_dec_free_inodes ops fs n d = sb_update ops fs 16 (sat_dec n) d"

definition sb_dec_free_blocks :: "'b blk_ops \<Rightarrow> ext2 \<Rightarrow> u32 \<Rightarrow> 'b \<Rightarrow> ((ext2_err + unit) \<times> 'b) option" where
  "sb_dec_free_blocks ops fs n d = sb_update ops fs 12 (sat_dec n) d"

definition sb_inc_free_blocks :: "'b blk_ops \<Rightarrow> ext2 \<Rightarrow> u32 \<Rightarrow> 'b \<Rightarrow> ((ext2_err + unit) \<times> 'b) option" where
  "sb_inc_free_blocks ops fs n d = sb_update ops fs 12 (\<lambda>cur. cur + n) d"

definition gd_dec_free_inodes :: "'b blk_ops \<Rightarrow> ext2 \<Rightarrow> u32 \<Rightarrow> u16 \<Rightarrow> 'b \<Rightarrow> ((ext2_err + unit) \<times> 'b) option" where
  "gd_dec_free_inodes ops fs grp n d = gd_update ops fs grp 14 (sat_dec n) d"

definition gd_dec_free_blocks :: "'b blk_ops \<Rightarrow> ext2 \<Rightarrow> u32 \<Rightarrow> u16 \<Rightarrow> 'b \<Rightarrow> ((ext2_err + unit) \<times> 'b) option" where
  "gd_dec_free_blocks ops fs grp n d = gd_update ops fs grp 12 (sat_dec n) d"

definition gd_inc_free_blocks :: "'b blk_ops \<Rightarrow> ext2 \<Rightarrow> u32 \<Rightarrow> u16 \<Rightarrow> 'b \<Rightarrow> ((ext2_err + unit) \<times> 'b) option" where
  "gd_inc_free_blocks ops fs grp n d = gd_update ops fs grp 12 (\<lambda>cur. cur + n) d"

definition gd_inc_used_dirs :: "'b blk_ops \<Rightarrow> ext2 \<Rightarrow> u32 \<Rightarrow> u16 \<Rightarrow> 'b \<Rightarrow> ((ext2_err + unit) \<times> 'b) option" where
  "gd_inc_used_dirs ops fs grp n d = gd_update ops fs grp 16 (\<lambda>cur. cur + n) d"

text \<open>The search runs from bit \<open>b\<close> over at most \<open>n\<close> bits; an index past the bitmap panics.\<close>

fun bitmap_scan :: "u8 list \<Rightarrow> nat \<Rightarrow> nat \<Rightarrow> (nat \<times> u8 list) option option" where
  "bitmap_scan bm b 0 = Some None"
| "bitmap_scan bm b (Suc n) = do {
     assert_that (b div 8 < length bm);
     if \<not> bit (bm ! (b div 8)) (b mod 8)
     then Some (Some (b, bm[b div 8 := bm ! (b div 8) OR push_bit (b mod 8) 1]))
     else bitmap_scan bm (Suc b) n
   }"

definition bitmap_find_and_set :: "u8 list \<Rightarrow> nat \<Rightarrow> nat \<Rightarrow> (nat \<times> u8 list) option option" where
  "bitmap_find_and_set bm start_bit limit_bits = bitmap_scan bm start_bit (limit_bits - start_bit)"

text \<open>\<open>ok_or(Full)\<close> on the result of a search.\<close>

definition or_full :: "'d \<Rightarrow> (nat \<times> u8 list) option option \<Rightarrow> (nat \<times> u8 list \<Rightarrow> ((ext2_err + 'a) \<times> 'd) option) \<Rightarrow> ((ext2_err + 'a) \<times> 'd) option" where
  "or_full d m f = Option.bind m (\<lambda>r. case r of None \<Rightarrow> Some (Inl EFull, d) | Some p \<Rightarrow> f p)"

definition alloc_inode_group0 :: "'b blk_ops \<Rightarrow> ext2 \<Rightarrow> bool \<Rightarrow> 'b \<Rightarrow> ((ext2_err + u32) \<times> 'b) option" where
  "alloc_inode_group0 ops fs is_d d =
     getr d (group_inode_bitmap ops fs d 0) (\<lambda>ibm_blk.
     getr d (read_block ops fs d ibm_blk) (\<lambda>bm.
       let start = unat (sat_dec 1 (first_inode fs)); limit = unat (inodes_per_group fs) in
       or_full d (bitmap_find_and_set bm start limit) (\<lambda>(b, bm).
         sbind (write_block ops fs ibm_blk bm d) (\<lambda>_ d.
         sbind (sb_dec_free_inodes ops fs 1 d) (\<lambda>_ d.
         sbind (gd_dec_free_inodes ops fs 0 1 d) (\<lambda>_ d.
         sbind (if is_d then gd_inc_used_dirs ops fs 0 1 d else Some (Inr (), d)) (\<lambda>_ d. do {
           ino \<leftarrow> checked_add (of_nat b) 1;
           Some (Inr ino, d)
         })))))))"

definition alloc_block_group0 :: "'b blk_ops \<Rightarrow> ext2 \<Rightarrow> 'b \<Rightarrow> ((ext2_err + u32) \<times> 'b) option" where
  "alloc_block_group0 ops fs d =
     getr d (group_block_bitmap ops fs d 0) (\<lambda>bbm_blk.
     getr d (read_block ops fs d bbm_blk) (\<lambda>bm.
       or_full d (bitmap_find_and_set bm 0 (unat (blocks_per_group fs))) (\<lambda>(b, bm).
         sbind (write_block ops fs bbm_blk bm d) (\<lambda>_ d.
         sbind (sb_dec_free_blocks ops fs 1 d) (\<lambda>_ d.
         sbind (gd_dec_free_blocks ops fs 0 1 d) (\<lambda>_ d. Some (Inr (of_nat b), d)))))))"

definition free_block_group0 :: "'b blk_ops \<Rightarrow> ext2 \<Rightarrow> u32 \<Rightarrow> 'b \<Rightarrow> ((ext2_err + unit) \<times> 'b) option" where
  "free_block_group0 ops fs block d =
     getr d (group_block_bitmap ops fs d 0) (\<lambda>bbm_blk.
     getr d (read_block ops fs d bbm_blk) (\<lambda>bm.
       let byte = unat block div 8; b = unat block mod 8 in
       if byte \<ge> length bm then Some (Inl BadSuperblock, d)
       else sbind (write_block ops fs bbm_blk (bm[byte := bm ! byte AND NOT (push_bit b 1)]) d) (\<lambda>_ d.
         sbind (sb_inc_free_blocks ops fs 1 d) (\<lambda>_ d. gd_inc_free_blocks ops fs 0 1 d))))"

section \<open>Changing an inode\<close>

definition inode_set_block_ptr :: "nat \<Rightarrow> u32 \<Rightarrow> u8 list \<Rightarrow> u8 list option" where
  "inode_set_block_ptr idx blk raw = wr32 (INODE_OFF_BLOCK + idx * 4) blk raw"

definition inode_set_size :: "u32 \<Rightarrow> u8 list \<Rightarrow> u8 list option" where
  "inode_set_size v raw = wr32 INODE_OFF_SIZE v raw"

definition inode_set_blocks_512 :: "u32 \<Rightarrow> u8 list \<Rightarrow> u8 list option" where
  "inode_set_blocks_512 v raw = wr32 INODE_OFF_BLOCKS v raw"

definition inode_get_links :: "u8 list \<Rightarrow> u16 option" where
  "inode_get_links raw = (if INODE_OFF_LINKS + 2 \<le> length raw then Some (rd16 raw INODE_OFF_LINKS) else None)"

definition inode_set_links :: "u16 \<Rightarrow> u8 list \<Rightarrow> u8 list option" where
  "inode_set_links v raw = wr16 INODE_OFF_LINKS v raw"

definition inode_init_common :: "u16 \<Rightarrow> u16 \<Rightarrow> u8 list \<Rightarrow> u8 list option" where
  "inode_init_common mode links raw = do {
     raw \<leftarrow> wr16 0 mode (replicate (length raw) 0);
     raw \<leftarrow> wr16 2 0 raw;
     raw \<leftarrow> wr32 8 0 raw;
     raw \<leftarrow> wr32 12 0 raw;
     raw \<leftarrow> wr32 16 0 raw;
     raw \<leftarrow> wr32 20 0 raw;
     raw \<leftarrow> wr16 24 0 raw;
     raw \<leftarrow> wr16 INODE_OFF_LINKS links raw;
     wr32 32 0 raw
   }"

definition sectors512 :: "nat \<Rightarrow> u32 option" where
  "sectors512 bytes = do { n \<leftarrow> checked_add (of_nat bytes) 511; Some (n div 512) }"

section \<open>Adding a directory record\<close>

definition dirent_bytes :: "u32 \<Rightarrow> nat \<Rightarrow> u8 list \<Rightarrow> u8 \<Rightarrow> u8 list" where
  "dirent_bytes ino len name ftype = le32 ino @ le16 (of_nat len) @ [of_nat (length name), ftype] @ name"

text \<open>
  The walk over the records of one block for one with room behind its name. The new record takes that room:
  \<open>None\<close> inside is that no record has it.
\<close>

function insert_record :: "u32 \<Rightarrow> u8 list \<Rightarrow> u8 \<Rightarrow> u8 list \<Rightarrow> u8 list option option" where
  "insert_record ino name ftype r =
     (if length r < 8 \<or> rec_len r = 0 \<or> rec_len r > length r then Some None
      else let ideal = dirent_ideal_len (rec_name_len r) in
        if rec_len r \<ge> ideal + dirent_ideal_len (length name) then do {
          r1 \<leftarrow> wr16 4 (of_nat ideal) r;
          assert_that (ideal + 8 + length name \<le> length r);
          Some (Some (splice r1 ideal (dirent_bytes ino (rec_len r - ideal) name ftype)))
        }
        else if rec_len r = length r then Some None
        else do {
          rest \<leftarrow> insert_record ino name ftype (drop (rec_len r) r);
          Some (map_option (\<lambda>t. take (rec_len r) r @ t) rest)
        })"
  by pat_completeness auto
termination by (relation "measure (\<lambda>(_, _, _, r). length r)") auto

declare insert_record.simps [simp del]

fun insert_blocks :: "'b blk_ops \<Rightarrow> ext2 \<Rightarrow> u32 \<Rightarrow> u8 list \<Rightarrow> u8 \<Rightarrow> u32 list \<Rightarrow> 'b \<Rightarrow> ((ext2_err + bool) \<times> 'b) option" where
  "insert_blocks ops fs ino name ftype [] d = Some (Inr False, d)"
| "insert_blocks ops fs ino name ftype (blk # blks) d =
     (if blk = 0 then insert_blocks ops fs ino name ftype blks d
      else getr d (read_block ops fs d blk) (\<lambda>buf. do {
        r \<leftarrow> insert_record ino name ftype buf;
        case r of
          Some buf \<Rightarrow> sbind (write_block ops fs blk buf d) (\<lambda>_ d. Some (Inr True, d))
        | None \<Rightarrow> insert_blocks ops fs ino name ftype blks d
      }))"

definition add_dir_entry :: "'b blk_ops \<Rightarrow> ext2 \<Rightarrow> u32 \<Rightarrow> u32 \<Rightarrow> u8 list \<Rightarrow> u8 \<Rightarrow> 'b \<Rightarrow> ((ext2_err + unit) \<times> 'b) option" where
  "add_dir_entry ops fs dir_ino child_ino name ftype d =
     (if name = [] then Some (Inl EName, d)
      else if 0 \<in> set name \<or> SLASH \<in> set name then Some (Inl EName, d)
      else getr d (read_inode_raw ops fs d dir_ino) (\<lambda>dir_raw. do {
        dir_ptrs \<leftarrow> inode_get_block_ptrs dir_raw;
        if \<not> is_dir (rd16 dir_raw 0) then Some (Inl ENotFound, d)
        else do {
          seen \<leftarrow> lookup_in_dir_ci ops fs d dir_ino name;
          case seen of
            Inr _ \<Rightarrow> Some (Inr (), d)
          | Inl _ \<Rightarrow> do {
              assert_that (bsz fs \<noteq> 0);
              let blocks_used = max 1 ((unat (rd32 dir_raw INODE_OFF_SIZE) + bsz fs - 1) div bsz fs) in
              if blocks_used > 12 then Some (Inl EUnsupported, d)
              else sbind (insert_blocks ops fs child_ino name ftype (take blocks_used dir_ptrs) d) (\<lambda>hit d.
                if hit then Some (Inr (), d)
                else if blocks_used \<ge> 12 then Some (Inl EUnsupported, d)
                else sbind (alloc_block_group0 ops fs d) (\<lambda>new_blk d. do {
                  assert_that (8 + length name \<le> bsz fs);
                  sbind (write_block ops fs new_blk
                      (splice (replicate (bsz fs) 0) 0 (dirent_bytes child_ino (bsz fs) name ftype)) d) (\<lambda>_ d. do {
                    raw \<leftarrow> inode_set_block_ptr blocks_used new_blk dir_raw;
                    raw \<leftarrow> inode_set_size (of_nat ((blocks_used + 1) * bsz fs)) raw;
                    sectors \<leftarrow> sectors512 ((blocks_used + 1) * bsz fs);
                    raw \<leftarrow> inode_set_blocks_512 sectors raw;
                    write_inode_raw ops fs dir_ino raw d
                  })
                }))
            }
        }
      }))"

section \<open>Creating directories\<close>

definition mkdir_one :: "'b blk_ops \<Rightarrow> ext2 \<Rightarrow> u32 \<Rightarrow> u8 list \<Rightarrow> 'b \<Rightarrow> ((ext2_err + u32) \<times> 'b) option" where
  "mkdir_one ops fs parent_ino name d =
     (if name = [] then Some (Inl EName, d)
      else sbind (alloc_inode_group0 ops fs True d) (\<lambda>dir_ino d.
        sbind (alloc_block_group0 ops fs d) (\<lambda>blk d.
          let off2 = dirent_ideal_len 1; z = replicate (bsz fs) 0 in do {
            assert_that (off2 + 10 \<le> bsz fs);
            let b = splice (splice z 0 (dirent_bytes dir_ino off2 [0x2E] FT_DIR)) off2
                      (dirent_bytes parent_ino (bsz fs - off2) [0x2E, 0x2E] FT_DIR) in
            sbind (write_block ops fs blk b d) (\<lambda>_ d. do {
              raw \<leftarrow> inode_init_common (0x4000 OR 0x1ED) 2 (replicate (unat (inode_size fs)) 0);
              raw \<leftarrow> inode_set_size (block_size fs) raw;
              sectors \<leftarrow> sectors512 (bsz fs);
              raw \<leftarrow> inode_set_blocks_512 sectors raw;
              raw \<leftarrow> inode_set_block_ptr 0 blk raw;
              sbind (write_inode_raw ops fs dir_ino raw d) (\<lambda>_ d.
              sbind (add_dir_entry ops fs parent_ino dir_ino name FT_DIR d) (\<lambda>_ d.
              getr d (read_inode_raw ops fs d parent_ino) (\<lambda>p. do {
                l \<leftarrow> inode_get_links p;
                p \<leftarrow> inode_set_links (l + 1) p;
                sbind (write_inode_raw ops fs parent_ino p d) (\<lambda>_ d. Some (Inr dir_ino, d))
              })))
            })
          })))"

fun ext2_mkdir_walk :: "'b blk_ops \<Rightarrow> ext2 \<Rightarrow> u32 \<Rightarrow> u8 list list \<Rightarrow> 'b \<Rightarrow> ((ext2_err + unit) \<times> 'b) option" where
  "ext2_mkdir_walk ops fs cur [] d = Some (Inr (), d)"
| "ext2_mkdir_walk ops fs cur (c # cs) d = do {
     r \<leftarrow> lookup_in_dir_ci ops fs d cur c;
     case r of
       Inr child \<Rightarrow>
         getr d (inode_mode_size_blocks ops fs d child) (\<lambda>(mode, _, _).
           if \<not> is_dir mode then Some (Inl EName, d) else ext2_mkdir_walk ops fs child cs d)
     | Inl e \<Rightarrow>
         if e = ENotFound then sbind (mkdir_one ops fs cur c d) (\<lambda>new_dir d. ext2_mkdir_walk ops fs new_dir cs d)
         else Some (Inl e, d)
   }"

definition ext2_mkdir :: "'b blk_ops \<Rightarrow> ext2 \<Rightarrow> u8 list \<Rightarrow> 'b \<Rightarrow> ((ext2_err + unit) \<times> 'b) option" where
  "ext2_mkdir ops fs path d = ext2_mkdir_walk ops fs EXT2_ROOT_INO (ext2_split_path path) d"

section \<open>Writing files\<close>

fun free_blocks :: "'b blk_ops \<Rightarrow> ext2 \<Rightarrow> u32 list \<Rightarrow> 'b \<Rightarrow> ((ext2_err + unit) \<times> 'b) option" where
  "free_blocks ops fs [] d = Some (Inr (), d)"
| "free_blocks ops fs (b # bs) d =
     sbind (if b \<noteq> 0 then free_block_group0 ops fs b d else Some (Inr (), d)) (\<lambda>_ d. free_blocks ops fs bs d)"

definition truncate_file :: "'b blk_ops \<Rightarrow> ext2 \<Rightarrow> u32 \<Rightarrow> u32 list \<Rightarrow> 'b \<Rightarrow> ((ext2_err + unit) \<times> 'b) option" where
  "truncate_file ops fs ino ptrs d =
     sbind (free_blocks ops fs (take 12 ptrs) d) (\<lambda>_ d.
     getr d (read_inode_raw ops fs d ino) (\<lambda>raw. do {
       raw \<leftarrow> foldM (\<lambda>i raw. inode_set_block_ptr i 0 raw) [0..<12] raw;
       raw \<leftarrow> inode_set_size 0 raw;
       raw \<leftarrow> inode_set_blocks_512 0 raw;
       write_inode_raw ops fs ino raw d
     }))"

text \<open>The blocks of a fresh file: the inode with its pointers set.\<close>

fun fresh_blocks :: "'b blk_ops \<Rightarrow> ext2 \<Rightarrow> nat list \<Rightarrow> u8 list \<Rightarrow> u8 list \<Rightarrow> 'b \<Rightarrow> ((ext2_err + u8 list) \<times> 'b) option" where
  "fresh_blocks ops fs [] data raw d = Some (Inr raw, d)"
| "fresh_blocks ops fs (i # is) data raw d =
     sbind (alloc_block_group0 ops fs d) (\<lambda>blk d. do {
       raw \<leftarrow> inode_set_block_ptr i blk raw;
       let n = min (bsz fs) (length data) in
       sbind (write_block ops fs blk (take n data @ replicate (bsz fs - n) 0) d) (\<lambda>_ d.
         fresh_blocks ops fs is (drop n data) raw d)
     })"

definition write_file_fresh_into_inode :: "'b blk_ops \<Rightarrow> ext2 \<Rightarrow> u32 \<Rightarrow> u8 list \<Rightarrow> 'b \<Rightarrow> ((ext2_err + unit) \<times> 'b) option" where
  "write_file_fresh_into_inode ops fs ino data d = do {
     assert_that (bsz fs \<noteq> 0);
     let need_blocks = (length data + bsz fs - 1) div bsz fs in
     if need_blocks > 12 then Some (Inl EUnsupported, d)
     else getr d (read_inode_raw ops fs d ino) (\<lambda>raw.
       sbind (fresh_blocks ops fs [0..<need_blocks] data raw d) (\<lambda>raw d. do {
         raw \<leftarrow> inode_set_size (of_nat (length data)) raw;
         sectors \<leftarrow> sectors512 (need_blocks * bsz fs);
         raw \<leftarrow> inode_set_blocks_512 sectors raw;
         write_inode_raw ops fs ino raw d
       }))
   }"

text \<open>Appending: first every block the file will need, then the data into them.\<close>

fun fill_ptrs :: "'b blk_ops \<Rightarrow> ext2 \<Rightarrow> nat list \<Rightarrow> u32 list \<Rightarrow> u8 list \<Rightarrow> 'b \<Rightarrow> ((ext2_err + u32 list \<times> u8 list) \<times> 'b) option" where
  "fill_ptrs ops fs [] ptrs raw d = Some (Inr (ptrs, raw), d)"
| "fill_ptrs ops fs (i # is) ptrs raw d =
     (if ptrs ! i = 0 then
        sbind (alloc_block_group0 ops fs d) (\<lambda>nb d. do {
          raw \<leftarrow> inode_set_block_ptr i nb raw;
          sbind (write_block ops fs nb (replicate (bsz fs) 0) d) (\<lambda>_ d. fill_ptrs ops fs is (ptrs[i := nb]) raw d)
        })
      else fill_ptrs ops fs is ptrs raw d)"

function append_data :: "'b blk_ops \<Rightarrow> ext2 \<Rightarrow> u32 list \<Rightarrow> nat \<Rightarrow> u8 list \<Rightarrow> 'b \<Rightarrow> ((ext2_err + unit) \<times> 'b) option" where
  "append_data ops fs ptrs file_off data d =
     (if data = [] then Some (Inr (), d)
      else if bsz fs = 0 then None
      else let bi = file_off div bsz fs; in_blk = file_off mod bsz fs in
        if bi \<ge> length ptrs then Some (Inl EUnsupported, d)
        else if ptrs ! bi = 0 then Some (Inl BadSuperblock, d)
        else getr d (read_block ops fs d (ptrs ! bi)) (\<lambda>buf.
          let n = min (bsz fs - in_blk) (length data) in do {
            assert_that (in_blk + n \<le> length buf);
            sbind (write_block ops fs (ptrs ! bi) (splice buf in_blk (take n data)) d) (\<lambda>_ d.
              append_data ops fs ptrs (file_off + n) (drop n data) d)
          }))"
  by pat_completeness auto
termination by (relation "measure (\<lambda>(_, _, _, _, data, _). length data)") (auto simp: min_def)

declare append_data.simps [simp del]

definition append_to_file :: "'b blk_ops \<Rightarrow> ext2 \<Rightarrow> u32 \<Rightarrow> u32 \<Rightarrow> u8 list \<Rightarrow> 'b \<Rightarrow> ((ext2_err + unit) \<times> 'b) option" where
  "append_to_file ops fs ino cur_size data d =
     (if data = [] then Some (Inr (), d)
      else do {
        assert_that (bsz fs \<noteq> 0);
        let blocks_total = max 1 ((unat cur_size + length data + bsz fs - 1) div bsz fs) in
        if blocks_total > 12 then Some (Inl EUnsupported, d)
        else getr d (read_inode_raw ops fs d ino) (\<lambda>raw. do {
          ptrs \<leftarrow> inode_get_block_ptrs raw;
          sbind (fill_ptrs ops fs [0..<blocks_total] ptrs raw d) (\<lambda>(ptrs, raw) d.
          sbind (append_data ops fs ptrs (unat cur_size) data d) (\<lambda>_ d. do {
            raw \<leftarrow> inode_set_size (of_nat (unat cur_size + length data)) raw;
            sectors \<leftarrow> sectors512 (blocks_total * bsz fs);
            raw \<leftarrow> inode_set_blocks_512 sectors raw;
            write_inode_raw ops fs ino raw d
          }))
        })
      })"

definition ext2_write_file :: "'b blk_ops \<Rightarrow> ext2 \<Rightarrow> u8 list \<Rightarrow> u8 list \<Rightarrow> bool \<Rightarrow> 'b \<Rightarrow> ((ext2_err + unit) \<times> 'b) option" where
  "ext2_write_file ops fs path data overwrite d =
     getr d (resolve_parent_dir_ci ops fs d path) (\<lambda>(parent, leaf). do {
       existing \<leftarrow> lookup_in_dir_ci ops fs d parent leaf;
       case existing of
         Inr ino \<Rightarrow>
           getr d (inode_mode_size_blocks ops fs d ino) (\<lambda>(mode, sz, ptrs).
             if \<not> is_reg mode then Some (Inl EName, d)
             else if overwrite then
               sbind (truncate_file ops fs ino ptrs d) (\<lambda>_ d. write_file_fresh_into_inode ops fs ino data d)
             else append_to_file ops fs ino sz data d)
       | Inl _ \<Rightarrow>
           sbind (alloc_inode_group0 ops fs False d) (\<lambda>ino d. do {
             raw \<leftarrow> inode_init_common (0x8000 OR 0x1A4) 1 (replicate (unat (inode_size fs)) 0);
             raw \<leftarrow> inode_set_size 0 raw;
             raw \<leftarrow> inode_set_blocks_512 0 raw;
             sbind (write_inode_raw ops fs ino raw d) (\<lambda>_ d.
             sbind (add_dir_entry ops fs parent ino leaf FT_REG d) (\<lambda>_ d.
               write_file_fresh_into_inode ops fs ino data d))
           })
     })"

end
