(* ===== verification/Ext2_Props.thy ===== *)
theory Ext2_Props
  imports Ext2
begin

text \<open>
  What the ext2 driver guarantees: adding a directory record makes exactly that name findable, the search in a
  bitmap returns the least clear bit, an inode written is the inode read, and what a mount does not check.
\<close>

section \<open>Directory records\<close>

lemma nth_splice:
  "k + length src \<le> length out \<Longrightarrow> i < length out \<Longrightarrow> splice out k src ! i = (if k \<le> i \<and> i < k + length src then src ! (i - k) else out ! i)"
  by (auto simp: splice_def nth_append)

text \<open>A block whose records lie one behind the other, each long enough for its name, up to the end.\<close>

function records_ok :: "u8 list \<Rightarrow> bool" where
  "records_ok r =
     (if r = [] then True
      else if 8 \<le> length r \<and> dirent_ideal_len (rec_name_len r) \<le> rec_len r \<and> rec_len r \<le> length r
      then records_ok (drop (rec_len r) r) else False)"
  by pat_completeness auto
termination
proof (relation "measure length")
  fix r :: "u8 list"
  assume "r \<noteq> []" "8 \<le> length r \<and> dirent_ideal_len (rec_name_len r) \<le> rec_len r \<and> rec_len r \<le> length r"
  moreover have "8 \<le> dirent_ideal_len n" for n unfolding dirent_ideal_len_def Let_def by linarith
  then have "0 < dirent_ideal_len n" for n by (meson less_le_trans zero_less_numeral)
  ultimately have "0 < rec_len r" by (meson less_le_trans)
  with \<open>r \<noteq> []\<close> show "(drop (rec_len r) r, r) \<in> measure length" by simp
qed simp

declare records_ok.simps [simp del]

lemma ideal_bounds: "8 + n \<le> dirent_ideal_len n" "dirent_ideal_len n \<le> 11 + n"
  unfolding dirent_ideal_len_def Let_def by linarith+

lemma rec_name_len_bound: "rec_name_len r < 256"
  unfolding rec_name_len_def using unat_u8 [of "r ! 6"] by simp

lemma ideal_u16: "n < 256 \<Longrightarrow> unat (of_nat (dirent_ideal_len n) :: u16) = dirent_ideal_len n"
proof -
  assume "n < 256"
  then have "dirent_ideal_len n < 2 ^ 16" using ideal_bounds(2) [of n] by simp
  then show ?thesis by (simp only: unat_of_nat) simp
qed

lemma rec_len_bound: "rec_len r < 2 ^ 16"
proof -
  have "unat (rd16 r 4) < 2 ^ LENGTH(16)" by (rule unsigned_less)
  then show ?thesis by (simp add: rec_len_def)
qed

text \<open>A record as it is written.\<close>

lemma length_dirent_bytes [simp]: "length (dirent_bytes ino len name ft) = 8 + length name"
  by (simp add: dirent_bytes_def)

lemma dirent_fields:
  fixes name rest :: "u8 list" and ino :: u32 and ft :: u8
  assumes "length name < 256" "len < 2 ^ 16"
  defines "r \<equiv> dirent_bytes ino len name ft @ rest"
  shows "rec_len r = len" "rec_name_len r = length name" "rec_name r = name" "rd32 r 0 = ino" "8 + length name \<le> length r"
proof -
  have r: "r = le32 ino @ le16 (of_nat len) @ [of_nat (length name), ft] @ name @ rest" by (simp add: r_def dirent_bytes_def)
  show "rd32 r 0 = ino" unfolding r using rd32_le32 [of "[]"] by simp
  have l4: "length (le32 ino) = 4" by simp
  have "unat (of_nat len :: u16) = len" using assms(2) by (simp only: unat_of_nat) simp
  moreover have "rd16 r 4 = of_nat len" unfolding r using rd16_le16 [of "le32 ino"] l4 by simp
  ultimately show "rec_len r = len" by (simp add: rec_len_def)
  have "unat (of_nat (length name) :: u8) = length name" using assms(1) by (simp only: unat_of_nat) simp
  moreover have "r ! 6 = of_nat (length name)" unfolding r by (simp add: nth_append)
  ultimately show n: "rec_name_len r = length name" by (simp add: rec_name_len_def)
  show "rec_name r = name" unfolding rec_name_def n unfolding r by simp
  show "8 + length name \<le> length r" unfolding r by simp
qed

lemma eq_ci_sym: "eq_ci a b = eq_ci b a"
  by (auto simp: eq_ci_def)

lemma eq_ci_trans: "eq_ci a b \<Longrightarrow> eq_ci b c \<Longrightarrow> eq_ci a c"
  by (auto simp: eq_ci_def)

text \<open>Splitting the first record: it keeps its fields and gets its ideal length; the new record follows.\<close>

lemma split_record:
  fixes name :: "u8 list" and ino :: u32 and ft :: u8
  assumes "8 \<le> length r" "rec_len r \<le> length r" "dirent_ideal_len (rec_name_len r) + dirent_ideal_len (length name) \<le> rec_len r"
  defines "k \<equiv> dirent_ideal_len (rec_name_len r)"
  defines "r' \<equiv> splice (splice r 4 (le16 (of_nat k))) k (dirent_bytes ino (rec_len r - k) name ft)"
  shows "length r' = length r" "rec_len r' = k" "rec_name_len r' = rec_name_len r" "rec_name r' = rec_name r" "rd32 r' 0 = rd32 r 0"
    "drop k r' = dirent_bytes ino (rec_len r - k) name ft @ drop (k + 8 + length name) r"
proof -
  have b: "8 + rec_name_len r \<le> k" "8 + length name \<le> dirent_ideal_len (length name)" unfolding k_def by (rule ideal_bounds)+
  have len: "length (dirent_bytes ino (rec_len r - k) name ft) = 8 + length name" by (simp add: dirent_bytes_def)
  have fit: "k + (8 + length name) \<le> length r" using assms(2,3) b unfolding k_def by linarith
  let ?r1 = "splice r 4 (le16 (of_nat k))"
  have l1: "length ?r1 = length r" using assms(1) by simp
  show lr: "length r' = length r" unfolding r'_def using l1 len fit by simp
  have nth: "r' ! i = ?r1 ! i" if "i < k" for i
    unfolding r'_def using that l1 len fit by (subst nth_splice) auto
  have nth1: "r' ! i = r ! i" if "i < k" "i < 4 \<or> 5 < i" for i
    unfolding nth [OF that(1)] using that assms(1) fit by (subst nth_splice) auto
  show "rd32 r' 0 = rd32 r 0" using nth1 b(1) by (simp add: rd32_def)
  have "rd16 r' 4 = rd16 ?r1 4" using nth [of 4] nth [of 5] b(1) by (simp add: rd16_def)
  also have "\<dots> = of_nat k" unfolding splice_def using rd16_le16 [of "take 4 r"] assms(1) by simp
  finally show "rec_len r' = k" unfolding rec_len_def using ideal_u16 [OF rec_name_len_bound, of r] by (simp add: k_def)
  show n: "rec_name_len r' = rec_name_len r" using nth1 [of 6] b(1) by (simp add: rec_name_len_def)
  show "rec_name r' = rec_name r" unfolding rec_name_def n
  proof (rule nth_equalityI)
    show "length (take (rec_name_len r) (drop 8 r')) = length (take (rec_name_len r) (drop 8 r))" by (simp add: lr)
    fix i assume "i < length (take (rec_name_len r) (drop 8 r'))"
    then show "take (rec_name_len r) (drop 8 r') ! i = take (rec_name_len r) (drop 8 r) ! i"
      using nth1 [of "8 + i"] b(1) lr assms(1) by simp
  qed
  have "drop (k + (8 + length name)) ?r1 = drop (k + (8 + length name)) r"
    using b(1) assms(1) by (simp add: splice_def ac_simps)
  then show "drop k r' = dirent_bytes ino (rec_len r - k) name ft @ drop (k + 8 + length name) r"
    unfolding r'_def splice_def [of ?r1] using l1 len fit by (simp add: add.assoc)
qed


lemma insert_record_ok:
  assumes "records_ok r" "insert_record ino name ft r = Some (Some r')" "length name < 256" "utf8_valid name" "ino \<noteq> 0"
    "dir_find name r = None"
  shows "length r' = length r \<and> records_ok r' \<and> (\<forall>n. dir_find n r' = (if eq_ci name n then Some ino else dir_find n r))"
  using assms(1,2,6)
proof (induction r arbitrary: r' rule: length_induct)
  case (1 r)
  have r8: "8 \<le> length r" "0 < rec_len r" "rec_len r \<le> length r"
    using 1(3) by (auto simp: insert_record.simps [of ino name ft r] split: if_splits)
  have ok: "dirent_ideal_len (rec_name_len r) \<le> rec_len r" "records_ok (drop (rec_len r) r)"
    using 1(2) r8(1) by (auto simp: records_ok.simps [of r] split: if_splits)
  define k where "k = dirent_ideal_len (rec_name_len r)"
  have step: "dir_find n r = (if rec_used r \<and> eq_ci (rec_name r) n then Some (rd32 r 0) else dir_find n (drop (rec_len r) r))" for n
    using r8 by (simp add: dir_find.simps [of n r])
  have miss: "\<not> (rec_used r \<and> eq_ci (rec_name r) n)" if "eq_ci name n" for n
    using 1(4) that eq_ci_trans [of "rec_name r" n name] eq_ci_sym [of name n] unfolding step by (auto split: if_splits)
  have rest: "dir_find name (drop (rec_len r) r) = None" using 1(4) unfolding step by (auto split: if_splits)
  show ?case
  proof (cases "k + dirent_ideal_len (length name) \<le> rec_len r")
    case True
    let ?s = "splice (splice r 4 (le16 (of_nat k))) k (dirent_bytes ino (rec_len r - k) name ft)"
    have r': "r' = ?s" using 1(3) True r8
      by (auto simp: insert_record.simps [of ino name ft r] k_def [symmetric] wr16_def assert_that_def bind_eq_Some_conv split: if_splits)
    note sp = split_record [OF r8(1,3) True [unfolded k_def], folded k_def, of ino ft, folded r']
    have lb: "rec_len r - k < 2 ^ 16" using rec_len_bound [of r] by simp
    note nf = dirent_fields [OF assms(3) lb, of ino ft "drop (k + 8 + length name) r", folded sp(6)]
    have b: "8 \<le> k" "8 + length name \<le> dirent_ideal_len (length name)" using ideal_bounds(1) [of "rec_name_len r"] ideal_bounds(1) [of "length name"]
      by (simp_all add: k_def)
    have dk: "length (drop k r') = length r - k" "rec_len r - k \<le> length r - k" "0 < rec_len r - k" "8 \<le> length (drop k r')"
      using sp(1) r8(3) True b nf(5) by auto
    have after: "drop (rec_len r - k) (drop k r') = drop (rec_len r) r"
    proof -
      have "drop (rec_len r - k) (dirent_bytes ino (rec_len r - k) name ft @ drop (k + 8 + length name) r)
          = drop (rec_len r - k - (8 + length name)) (drop (k + 8 + length name) r)"
        using True b by (simp add: drop_append)
      also have "\<dots> = drop (rec_len r) r"
      proof -
        have "rec_len r - k - (8 + length name) + (k + 8 + length name) = rec_len r" using True b by linarith
        then show ?thesis by (simp only: drop_drop)
      qed
      finally show ?thesis using sp(6) by simp
    qed
    have used2: "rec_used (drop k r')" using nf dk assms(4,5) by (simp add: rec_used_def)
    have used1: "rec_used r' = rec_used r" using sp(1-5) r8(3) True by (auto simp: rec_used_def)
    have s1: "dir_find n r' = (if rec_used r \<and> eq_ci (rec_name r) n then Some (rd32 r 0) else dir_find n (drop k r'))" for n
      using sp(1-5) used1 r8(1) b(1) by (simp add: dir_find.simps [of n r'])
    have s2: "dir_find n (drop k r') = (if eq_ci name n then Some ino else dir_find n (drop (rec_len r) r))" for n
      using nf dk used2 after by (simp add: dir_find.simps [of n "drop k r'"])
    have "dir_find n r' = (if eq_ci name n then Some ino else dir_find n r)" for n
      unfolding s1 s2 step using miss [of n] by auto
    moreover have "dirent_ideal_len (length name) \<le> rec_len r - k" using True by linarith
    then have "records_ok (drop k r')"
      using nf dk after ok(2) by (subst records_ok.simps) simp
    then have "records_ok r'" using sp(1-3) r8(1,3) True by (subst records_ok.simps) (simp add: k_def)
    ultimately show ?thesis using sp(1) by blast
  next
    case False
    then obtain t where t: "insert_record ino name ft (drop (rec_len r) r) = Some (Some t)" "r' = take (rec_len r) r @ t"
      using 1(3) r8 by (auto simp: insert_record.simps [of ino name ft r] k_def [symmetric] bind_eq_Some_conv split: if_splits)
    have IH: "length t = length (drop (rec_len r) r)" "records_ok t" "dir_find n t = (if eq_ci name n then Some ino else dir_find n (drop (rec_len r) r))" for n
      using 1(1) [rule_format, of "drop (rec_len r) r" t] r8 ok(2) t(1) rest by auto
    have len: "length r' = length r" using t(2) IH(1) r8(3) by simp
    have rl: "8 + rec_name_len r \<le> rec_len r" using ok(1) ideal_bounds(1) [of "rec_name_len r"] by linarith
    have nth: "r' ! i = r ! i" if "i < rec_len r" for i using that t(2) r8(3) by (simp add: nth_append)
    have f: "rec_len r' = rec_len r" "rec_name_len r' = rec_name_len r" "rd32 r' 0 = rd32 r 0"
      using nth rl by (simp_all add: rec_len_def rec_name_len_def rd16_def rd32_def)
    have nm: "rec_name r' = rec_name r" unfolding rec_name_def f(2)
      by (rule nth_equalityI) (use len nth rl in auto)
    have dr: "drop (rec_len r) r' = t" using t(2) r8(3) by simp
    have used: "rec_used r' = rec_used r" using f nm len by (simp add: rec_used_def)
    have "dir_find n r' = (if eq_ci name n then Some ino else dir_find n r)" for n
    proof -
      have "dir_find n r' = (if rec_used r \<and> eq_ci (rec_name r) n then Some (rd32 r 0) else dir_find n t)"
        using f nm used dr len r8 by (simp add: dir_find.simps [of n r'])
      then show ?thesis using IH(3) [of n] miss [of n] step [of n] by auto
    qed
    moreover have "records_ok r'" using f dr len r8 ok(1) IH(2) by (subst records_ok.simps) simp
    ultimately show ?thesis using len by blast
  qed
qed

text \<open>
  C32: Adding a record to a directory block makes exactly that name findable. In a block with well-formed
  records that does not have the name, inserting a record for inode \<open>ino\<close> keeps the block well-formed and of
  the same size; afterwards a search for the name, in upper or lower case, finds \<open>ino\<close>, and a search for any
  other name finds what it found before.
\<close>

theorem insert_then_find:
  assumes "records_ok r" "insert_record ino name ft r = Some (Some r')" "length name < 256" "utf8_valid name" "ino \<noteq> 0"
    and "dir_find name r = None"
  shows "length r' = length r \<and> records_ok r' \<and> (\<forall>n. dir_find n r' = (if eq_ci name n then Some ino else dir_find n r))"
  by (rule insert_record_ok [OF assms])

text \<open>A block of 32 bytes with one record, for the name of one letter.\<close>

definition small_block :: "u8 list" where
  "small_block = dirent_bytes 5 32 [0x61] FT_REG @ replicate 23 0"

theorem insert_then_find_witness:
  "\<exists>r'. insert_record 7 [0x42] FT_REG small_block = Some (Some r') \<and> dir_find [0x62] r' = Some 7 \<and> dir_find [0x61] r' = Some 5"
proof -
  note f = dirent_fields [of "[0x61]" 32 5 FT_REG "replicate 23 0", folded small_block_def, simplified]
  have len: "length small_block = 32" by (simp add: small_block_def)
  have id: "dirent_ideal_len (Suc 0) = 12" by (simp add: dirent_ideal_len_def)
  have ok: "records_ok small_block" using f len id by (subst records_ok.simps) (simp add: records_ok.simps [of "[]"])
  have find: "dir_find n small_block = (if eq_ci [0x61] n then Some 5 else None)" for n
  proof -
    have "utf8_valid [0x61]" by simp
    then have "rec_used small_block" using f len by (simp add: rec_used_def)
    then show ?thesis using f len by (simp add: dir_find.simps [of n small_block] dir_find.simps [of n "[]"])
  qed
  obtain r' where r': "insert_record 7 [0x42] FT_REG small_block = Some (Some r')"
    using f len id by (simp add: insert_record.simps [of _ _ _ small_block] wr16_def assert_that_def)
  have "dir_find [0x42] small_block = None" unfolding find by (simp add: eq_ci_def to_lower_def)
  from insert_then_find [OF ok r' _ _ _ this] have "\<forall>n. dir_find n r' = (if eq_ci [0x42] n then Some 7 else dir_find n small_block)"
    by simp
  then have "dir_find [0x62] r' = Some 7" "dir_find [0x61] r' = Some 5" unfolding find by (simp_all add: eq_ci_def to_lower_def)
  with r' show ?thesis by blast
qed

section \<open>Bitmaps\<close>

definition bm_bit :: "u8 list \<Rightarrow> nat \<Rightarrow> bool" where
  "bm_bit bm b \<longleftrightarrow> bit (bm ! (b div 8)) (b mod 8)"

lemma bm_bit_set:
  assumes "b div 8 < length bm"
  shows "bm_bit (bm[b div 8 := bm ! (b div 8) OR push_bit (b mod 8) 1]) x \<longleftrightarrow> x = b \<or> bm_bit bm x"
proof (cases "x div 8 = b div 8")
  case True
  have "x mod 8 = b mod 8 \<longleftrightarrow> x = b" using True by (metis mod_div_decomp)
  moreover have "b mod 8 < 8" by simp
  ultimately show ?thesis using True assms by (auto simp: bm_bit_def bit_simps)
next
  case False
  then show ?thesis using assms by (auto simp: bm_bit_def)
qed

lemma bitmap_scan_ok:
  assumes "b + n \<le> 8 * length bm"
  shows "bitmap_scan bm b n = Some (case find (\<lambda>x. \<not> bm_bit bm x) [b..<b + n] of
    None \<Rightarrow> None | Some x \<Rightarrow> Some (x, bm[x div 8 := bm ! (x div 8) OR push_bit (x mod 8) 1]))"
  using assms
proof (induction n arbitrary: b)
  case (Suc n)
  have up: "[b..<b + Suc n] = b # [Suc b..<Suc b + n]" by (simp add: upt_conv_Cons del: upt_Suc)
  have "b div 8 < length bm" using Suc.prems by linarith
  then show ?case unfolding up using Suc by (simp add: assert_that_def bm_bit_def del: upt_Suc)
qed simp

lemma find_least: "find P [a..<b] = Some x \<longleftrightarrow> a \<le> x \<and> x < b \<and> P x \<and> (\<forall>y. a \<le> y \<and> y < x \<longrightarrow> \<not> P y)"
proof
  assume "find P [a..<b] = Some x"
  then obtain i where i: "i < length [a..<b]" "P ([a..<b] ! i)" "x = [a..<b] ! i" "\<forall>j < i. \<not> P ([a..<b] ! j)"
    by (auto simp: find_Some_iff)
  have "\<not> P y" if "a \<le> y" "y < x" for y using i that by (auto dest!: spec [of _ "y - a"])
  with i show "a \<le> x \<and> x < b \<and> P x \<and> (\<forall>y. a \<le> y \<and> y < x \<longrightarrow> \<not> P y)" by auto
next
  assume h: "a \<le> x \<and> x < b \<and> P x \<and> (\<forall>y. a \<le> y \<and> y < x \<longrightarrow> \<not> P y)"
  then show "find P [a..<b] = Some x" unfolding find_Some_iff by (intro exI [of _ "x - a"]) auto
qed

section \<open>Blocks and inodes on the disk\<close>

definition blk_addr :: "ext2 \<Rightarrow> nat \<Rightarrow> nat" where
  "blk_addr fs b = unat (x_base_off fs) + b * bsz fs"

lemma addr_u64:
  fixes base off :: u64
  assumes "unat base + unat off < 2 ^ 63"
  shows "checked_add base off = Some (base + off)" "unat (base + off) = unat base + unat off"
  using assms by (simp_all add: checked_add_def unat_word_ariths)

lemma blk_byte_off: "unat (ucast b * ucast (block_size fs) :: u64) = unat b * bsz fs" for b :: u32
proof -
  have b: "unat b < 2 ^ 32" "bsz fs < 2 ^ 32"
    by (rule u32_small)+
  then have "unat b * bsz fs < 2 ^ 32 * 2 ^ 32" by (intro mult_strict_mono) simp_all
  then have "unat b * bsz fs < 2 ^ 64" by simp
  moreover have "unat (ucast b :: u64) = unat b" "unat (ucast (block_size fs) :: u64) = bsz fs"
    by (simp_all add: unat_ucast_up)
  ultimately show ?thesis by (simp add: unat_word_ariths)
qed

lemma read_exact_ok:
  assumes "blk_ok ops img cap" "unat (x_base_off fs) + unat off + n \<le> cap * 512" "0 < n"
  shows "read_exact ops fs d off n = Some (Inr (bytes_of (img d) (unat (x_base_off fs) + unat off) n))"
proof -
  have "unat (x_base_off fs) + unat off < 2 ^ 63" using assms unfolding blk_ok_def by linarith
  note a = addr_u64 [OF this]
  have "read_at ops d (x_base_off fs + off) n = Some (Some (bytes_of (img d) (unat (x_base_off fs + off)) n))"
    by (rule read_at_ok [OF assms(1) _ assms(3)]) (simp add: a(2) assms(2))
  then show ?thesis by (simp add: read_exact_def a io_def)
qed

lemma write_exact_ok:
  assumes "blk_ok ops img cap" "unat (x_base_off fs) + unat off + length src \<le> cap * 512" "src \<noteq> []"
  shows "\<exists>d'. write_exact ops fs off src d = Some (Inr (), d') \<and> img d' = put_bytes (unat (x_base_off fs) + unat off) src (img d)"
proof -
  have "0 < length src" using assms(3) by simp
  then have "unat (x_base_off fs) + unat off < 2 ^ 63" using assms(1,2) unfolding blk_ok_def by linarith
  note a = addr_u64 [OF this]
  obtain d' where "write_at ops d (x_base_off fs + off) src = Some (True, d')" "img d' = put_bytes (unat (x_base_off fs + off)) src (img d)"
    using write_at_ok [OF assms(1), of "x_base_off fs + off" src d] assms(2,3) a(2) by auto
  then show ?thesis by (auto simp: write_exact_def a)
qed

lemma read_block_ok:
  assumes "blk_ok ops img cap" "blk_addr fs (unat b) + bsz fs \<le> cap * 512" "0 < bsz fs"
  shows "read_block ops fs d b = Some (Inr (bytes_of (img d) (blk_addr fs (unat b)) (bsz fs)))"
  using read_exact_ok [OF assms(1), of fs "ucast b * ucast (block_size fs)" "bsz fs" d] assms(2,3)
  by (simp add: read_block_def blk_byte_off blk_addr_def)

lemma write_block_ok:
  assumes "blk_ok ops img cap" "blk_addr fs (unat b) + bsz fs \<le> cap * 512" "0 < bsz fs" "length src = bsz fs"
  shows "\<exists>d'. write_block ops fs b src d = Some (Inr (), d') \<and> img d' = put_bytes (blk_addr fs (unat b)) src (img d)"
proof -
  have "src \<noteq> []" using assms(3,4) by auto
  then show ?thesis
    using write_exact_ok [OF assms(1), of fs "ucast b * ucast (block_size fs)" src d] assms(2,4)
    by (simp add: write_block_def blk_byte_off blk_addr_def)
qed

text \<open>The address of a group descriptor, and an inode whose place on the disk is well defined.\<close>

definition gd_addr :: "ext2 \<Rightarrow> u32 \<Rightarrow> nat" where
  "gd_addr fs grp = unat (x_base_off fs) + unat (bgdt_off fs) + 32 * unat grp"

definition ino_group :: "ext2 \<Rightarrow> u32 \<Rightarrow> u32" where
  "ino_group fs ino = (ino - 1) div inodes_per_group fs"

definition ino_off :: "ext2 \<Rightarrow> u32 \<Rightarrow> nat" where
  "ino_off fs ino = unat ((ino - 1) mod inodes_per_group fs) * unat (inode_size fs)"

definition ino_table :: "ext2 \<Rightarrow> (nat \<Rightarrow> u8) \<Rightarrow> u32 \<Rightarrow> u32" where
  "ino_table fs m ino = rd32 (bytes_of m (gd_addr fs (ino_group fs ino)) 32) 8"

definition ino_addr :: "ext2 \<Rightarrow> (nat \<Rightarrow> u8) \<Rightarrow> u32 \<Rightarrow> nat" where
  "ino_addr fs m ino = blk_addr fs (unat (ino_table fs m ino)) + ino_off fs ino"

definition inode_ok :: "ext2 \<Rightarrow> nat \<Rightarrow> (nat \<Rightarrow> u8) \<Rightarrow> u32 \<Rightarrow> bool" where
  "inode_ok fs cap m ino \<longleftrightarrow> ino \<noteq> 0 \<and> inodes_per_group fs \<noteq> 0 \<and> 0 < inode_size fs \<and> unat (inode_size fs) \<le> bsz fs
     \<and> gd_addr fs (ino_group fs ino) + 32 \<le> cap * 512 \<and> ino_table fs m ino \<noteq> 0 \<and> ino_off fs ino < 2 ^ 32
     \<and> unat (ino_table fs m ino) + ino_off fs ino div bsz fs + 1 < 2 ^ 32
     \<and> blk_addr fs (unat (ino_table fs m ino) + ino_off fs ino div bsz fs + 2) \<le> cap * 512"

lemma inode_pos_ok:
  assumes "blk_ok ops img cap" "inode_ok fs cap (img d) ino"
  shows "\<exists>blk. inode_pos ops fs d ino = Some (Inr (blk, ino_off fs ino mod bsz fs))
    \<and> unat blk = unat (ino_table fs (img d) ino) + ino_off fs ino div bsz fs"
proof -
  let ?g = "ino_group fs ino" and ?it = "ino_table fs (img d) ino" and ?o = "ino_off fs ino"
  note ok = assms(2) [unfolded inode_ok_def]
  have g: "unat (ucast ?g * 32 :: u64) = 32 * unat ?g"
  proof -
    have "unat ?g < 2 ^ 32" by (rule u32_small)
    moreover have "unat (ucast ?g :: u64) = unat ?g" by (simp add: unat_ucast_up)
    ultimately show ?thesis by (simp add: unat_word_ariths)
  qed
  have lt: "unat (x_base_off fs) + (unat (bgdt_off fs) + 32 * unat ?g) + 32 < 2 ^ 63"
    using ok assms(1) unfolding gd_addr_def blk_ok_def by linarith
  then have "unat (bgdt_off fs) + unat (ucast ?g * 32 :: u64) < 2 ^ 63" using g by linarith
  note a = addr_u64 [OF this]
  have "read_group_desc ops fs d ?g = Some (Inr (bytes_of (img d) (gd_addr fs ?g) 32))"
    using read_exact_ok [OF assms(1), of fs "bgdt_off fs + ucast ?g * 32" 32 d] ok a g
    by (simp add: read_group_desc_def gd_addr_def add.assoc)
  then have it: "inode_table_block ops fs d ?g = Some (Inr ?it)"
    using ok by (simp add: inode_table_block_def gd_block_def ino_table_def)
  let ?bo = "ucast ((ino - 1) mod inodes_per_group fs) * ucast (inode_size fs) :: u64"
  have bo: "unat (ucast ?bo :: u32) = ?o"
  proof -
    have "unat (ucast ((ino - 1) mod inodes_per_group fs) :: u64) = unat ((ino - 1) mod inodes_per_group fs)"
      "unat (ucast (inode_size fs) :: u64) = unat (inode_size fs)" by (simp_all add: unat_ucast_up)
    moreover have "?o < 2 ^ 32" using ok by blast
    ultimately have "unat ?bo = ?o" by (simp add: unat_word_ariths ino_off_def)
    with \<open>?o < 2 ^ 32\<close> show ?thesis by (simp add: unsigned_ucast_eq take_bit_nat_eq_self)
  qed
  have q: "unat (ucast ?bo div block_size fs :: u32) = ?o div bsz fs" "unat ((ucast ?bo :: u32) mod block_size fs) = ?o mod bsz fs"
    using bo by (simp_all only: unat_div unat_mod)
  have "unat ?it + ?o div bsz fs < 2 ^ 32" using ok by linarith
  then have add: "checked_add ?it (ucast ?bo div block_size fs) = Some (?it + ucast ?bo div block_size fs)"
    "unat (?it + ucast ?bo div block_size fs) = unat ?it + ?o div bsz fs"
    using q(1) by (simp_all add: checked_add_def unat_word_ariths)
  have "0 < unat (inode_size fs)" using ok by (simp add: word_less_nat_alt)
  then have "block_size fs \<noteq> 0" using ok by auto
  then have "inode_pos ops fs d ino = Some (Inr (?it + ucast ?bo div block_size fs, ?o mod bsz fs))"
    using ok it add(1) q(2) unfolding inode_pos_def ino_group_def by (simp add: assert_that_def)
  with add(2) show ?thesis by blast
qed

text \<open>Pieces of the disk behind each other, and a block patched in the middle.\<close>

lemma bytes_of_append: "bytes_of m a j @ bytes_of m (a + j) k = bytes_of m a (j + k)"
  by (rule nth_equalityI) (auto simp: nth_append)

lemma bytes_of_split: "j + k \<le> n \<Longrightarrow> slice (bytes_of m a n) j k = Some (bytes_of m (a + j) k)"
  by (simp add: slice_def take_drop_bytes_of)

lemma put_splice:
  assumes "j + length b \<le> n"
  shows "put_bytes a (splice (bytes_of m a n) j b) m = put_bytes (a + j) b m"
proof
  fix x
  consider "a + j \<le> x" "x < a + j + length b" | "a \<le> x" "x < a + n" "\<not> (a + j \<le> x \<and> x < a + j + length b)" | "x < a \<or> a + n \<le> x" by linarith
  then show "put_bytes a (splice (bytes_of m a n) j b) m x = put_bytes (a + j) b m x"
  proof cases
    case 1
    then have "a \<le> x" "x < a + n" "x - a < n" "j \<le> x - a" "x - a < j + length b" "x - a - j = x - (a + j)" using assms by linarith+
    then show ?thesis using 1 assms by (simp add: put_bytes_def nth_splice)
  next
    case 2
    then have "x - a < n" "\<not> (j \<le> x - a \<and> x - a < j + length b)" by linarith+
    moreover have "splice (bytes_of m a n) j b ! (x - a) = bytes_of m a n ! (x - a)"
      using calculation assms by (subst nth_splice) auto
    ultimately show ?thesis using 2 assms by (auto simp: put_bytes_def)
  next
    case 3
    then show ?thesis using assms by (auto simp: put_bytes_def)
  qed
qed

lemma put_bytes_append: "put_bytes (a + length b) c (put_bytes a b m) = put_bytes a (b @ c) m"
  by (rule ext) (auto simp: put_bytes_def nth_append)

text \<open>The first block of an inode, the offset in it and how much of the inode lies there.\<close>

lemma inode_blocks:
  assumes "blk_ok ops img cap" "inode_ok fs cap (img d) ino"
  obtains blk where "inode_pos ops fs d ino = Some (Inr (blk, ino_off fs ino mod bsz fs))"
    "ino_addr fs (img d) ino = blk_addr fs (unat blk) + ino_off fs ino mod bsz fs" "ino_off fs ino mod bsz fs < bsz fs"
    "blk_addr fs (unat blk) + bsz fs + bsz fs \<le> cap * 512" "checked_add blk 1 = Some (blk + 1)"
    "blk_addr fs (unat (blk + 1)) = blk_addr fs (unat blk) + bsz fs"
proof -
  obtain blk where blk: "inode_pos ops fs d ino = Some (Inr (blk, ino_off fs ino mod bsz fs))"
    "unat blk = unat (ino_table fs (img d) ino) + ino_off fs ino div bsz fs" using inode_pos_ok [OF assms] by blast
  note ok = assms(2) [unfolded inode_ok_def]
  have "0 < unat (inode_size fs)" using ok by (simp add: word_less_nat_alt)
  then have bs: "0 < bsz fs" using ok by linarith
  have "ino_off fs ino = ino_off fs ino div bsz fs * bsz fs + ino_off fs ino mod bsz fs" by simp
  then have addr: "ino_addr fs (img d) ino = blk_addr fs (unat blk) + ino_off fs ino mod bsz fs"
    unfolding ino_addr_def blk_addr_def blk(2) distrib_right by linarith
  have "unat blk + 1 < 2 ^ 32" using ok blk(2) by linarith
  then have add: "checked_add blk 1 = Some (blk + 1)" "unat (blk + 1) = unat blk + 1"
    by (simp_all add: checked_add_def unat_word_ariths)
  have "blk_addr fs (unat blk + 2) \<le> cap * 512" using ok blk(2) by simp
  then have "blk_addr fs (unat blk) + bsz fs + bsz fs \<le> cap * 512" by (simp add: blk_addr_def)
  with that [OF blk(1) addr _ _ add(1)] bs add(2) show ?thesis by (simp add: blk_addr_def)
qed

lemma read_inode_ok:
  assumes "blk_ok ops img cap" "inode_ok fs cap (img d) ino"
  shows "read_inode_raw ops fs d ino = Some (Inr (bytes_of (img d) (ino_addr fs (img d) ino) (unat (inode_size fs))))"
proof -
  let ?n = "unat (inode_size fs)" and ?o = "ino_off fs ino mod bsz fs"
  obtain blk where b: "inode_pos ops fs d ino = Some (Inr (blk, ?o))"
    "ino_addr fs (img d) ino = blk_addr fs (unat blk) + ?o" "?o < bsz fs"
    "blk_addr fs (unat blk) + bsz fs + bsz fs \<le> cap * 512" "checked_add blk 1 = Some (blk + 1)"
    "blk_addr fs (unat (blk + 1)) = blk_addr fs (unat blk) + bsz fs" by (rule inode_blocks [OF assms])
  have n: "?n \<le> bsz fs" "ino \<noteq> 0" using assms(2) by (auto simp: inode_ok_def)
  let ?a = "blk_addr fs (unat blk)" and ?t = "min ?n (bsz fs - ?o)"
  have r0: "read_block ops fs d blk = Some (Inr (bytes_of (img d) ?a (bsz fs)))"
    by (rule read_block_ok [OF assms(1)]) (use b(3,4) in linarith)+
  have r1: "read_block ops fs d (blk + 1) = Some (Inr (bytes_of (img d) (?a + bsz fs) (bsz fs)))"
    using read_block_ok [OF assms(1), of fs "blk + 1" d] b(3,4,6) by simp
  have h: "slice (bytes_of (img d) ?a (bsz fs)) ?o ?t = Some (bytes_of (img d) (?a + ?o) ?t)"
    by (rule bytes_of_split) (use b(3) in linarith)
  show ?thesis
  proof (cases "?t < ?n")
    case True
    then have lt: "bsz fs - ?o < ?n" and t: "?t = bsz fs - ?o" by linarith+
    then have "?a + bsz fs = ?a + ?o + ?t" using b(3) by simp
    moreover have "slice (bytes_of (img d) (?a + bsz fs) (bsz fs)) 0 (?n - ?t) = Some (bytes_of (img d) (?a + bsz fs) (?n - ?t))"
      using bytes_of_split [of 0 "?n - ?t" "bsz fs"] n(1) by simp
    ultimately show ?thesis
      using True lt n(2) b(1,2,5) r0 r1 h bytes_of_append [of "img d" "?a + ?o" ?t "?n - ?t"]
      by (simp add: read_inode_raw_def Let_def)
  next
    case False
    then have "?t = ?n" by simp
    then show ?thesis using n(2) b(1,2) r0 h by (simp add: read_inode_raw_def Let_def)
  qed
qed

lemma write_inode_ok:
  assumes "blk_ok ops img cap" "inode_ok fs cap (img d) ino" "length raw = unat (inode_size fs)"
  shows "\<exists>d'. write_inode_raw ops fs ino raw d = Some (Inr (), d') \<and> img d' = put_bytes (ino_addr fs (img d) ino) raw (img d)"
proof -
  let ?n = "unat (inode_size fs)" and ?o = "ino_off fs ino mod bsz fs"
  obtain blk where b: "inode_pos ops fs d ino = Some (Inr (blk, ?o))"
    "ino_addr fs (img d) ino = blk_addr fs (unat blk) + ?o" "?o < bsz fs"
    "blk_addr fs (unat blk) + bsz fs + bsz fs \<le> cap * 512" "checked_add blk 1 = Some (blk + 1)"
    "blk_addr fs (unat (blk + 1)) = blk_addr fs (unat blk) + bsz fs" by (rule inode_blocks [OF assms(1,2)])
  have n: "?n \<le> bsz fs" "ino \<noteq> 0" using assms(2) by (auto simp: inode_ok_def)
  let ?a = "blk_addr fs (unat blk)" and ?t = "min (length raw) (bsz fs - ?o)"
  define b0 where "b0 = splice (bytes_of (img d) ?a (bsz fs)) ?o (take ?t raw)"
  have fit: "?o + length (take ?t raw) \<le> bsz fs" using b(3) by simp
  have fit': "?o + min (unat (inode_size fs)) (bsz fs - ?o) \<le> bsz fs" using b(3) by linarith
  have r0: "read_block ops fs d blk = Some (Inr (bytes_of (img d) ?a (bsz fs)))"
    by (rule read_block_ok [OF assms(1)]) (use b(3,4) in linarith)+
  obtain d1 where d1: "write_block ops fs blk b0 d = Some (Inr (), d1)" "img d1 = put_bytes (?a + ?o) (take ?t raw) (img d)"
    using write_block_ok [OF assms(1), of fs blk b0 d] b(3,4) fit by (auto simp: b0_def put_splice)
  have step: "write_inode_raw ops fs ino raw d = (if ?t < length raw then do {
      blk1 \<leftarrow> checked_add blk 1;
      getr d1 (read_block ops fs d1 blk1) (\<lambda>b1. do {
        assert_that (length raw - ?t \<le> length b1);
        write_block ops fs blk1 (splice b1 0 (drop ?t raw)) d1 }) } else Some (Inr (), d1))"
    using n(2) assms(3) b(1) r0 d1(1) fit' unfolding b0_def by (simp add: write_inode_raw_def Let_def assert_that_def)
  show ?thesis
  proof (cases "?t < length raw")
    case True
    then have t: "?t = bsz fs - ?o" by simp
    let ?a1 = "?a + bsz fs"
    have r1: "read_block ops fs d1 (blk + 1) = Some (Inr (bytes_of (img d1) ?a1 (bsz fs)))"
      using read_block_ok [OF assms(1), of fs "blk + 1" d1] b(3,4,6) by simp
    have fit1: "0 + length (drop ?t raw) \<le> bsz fs" using n(1) assms(3) by simp
    obtain d2 where d2: "write_block ops fs (blk + 1) (splice (bytes_of (img d1) ?a1 (bsz fs)) 0 (drop ?t raw)) d1 = Some (Inr (), d2)"
      "img d2 = put_bytes ?a1 (drop ?t raw) (img d1)"
      using write_block_ok [OF assms(1), of fs "blk + 1" "splice (bytes_of (img d1) ?a1 (bsz fs)) 0 (drop ?t raw)" d1] b(3,4,6) fit1
        put_splice [OF fit1, of ?a1 "img d1"] by auto
    have "?a1 = ?a + ?o + length (take ?t raw)" using t b(3) True by simp
    then have "img d2 = put_bytes (?a + ?o) raw (img d)"
      unfolding d2(2) d1(2) by (simp only: put_bytes_append append_take_drop_id)
    moreover have "write_inode_raw ops fs ino raw d = Some (Inr (), d2)"
      unfolding step if_P [OF True] using b(5) r1 d2(1) fit1 by (simp add: assert_that_def)
    ultimately show ?thesis using b(2) by auto
  next
    case False
    then show ?thesis unfolding step using d1(2) b(2) by simp
  qed
qed

text \<open>
  An inode that is written is the inode that is read. Wherever the inode lies in its table, inside one block
  or across two, \<open>write_inode_raw\<close> changes exactly its bytes on the disk, and \<open>read_inode_raw\<close> then returns
  them, as long as the inode does not lie over the descriptor of its own group.
\<close>

lemma inode_roundtrip:
  assumes "blk_ok ops img cap" "inode_ok fs cap (img d) ino" "length raw = unat (inode_size fs)"
    and "gd_addr fs (ino_group fs ino) + 32 \<le> ino_addr fs (img d) ino"
  shows "\<exists>d'. write_inode_raw ops fs ino raw d = Some (Inr (), d')
    \<and> img d' = put_bytes (ino_addr fs (img d) ino) raw (img d)
    \<and> read_inode_raw ops fs d' ino = Some (Inr raw)"
proof -
  let ?a = "ino_addr fs (img d) ino"
  obtain d' where d': "write_inode_raw ops fs ino raw d = Some (Inr (), d')" "img d' = put_bytes ?a raw (img d)"
    using write_inode_ok [OF assms(1-3)] by blast
  have "bytes_of (img d') (gd_addr fs (ino_group fs ino)) 32 = bytes_of (img d) (gd_addr fs (ino_group fs ino)) 32"
    unfolding d'(2) using assms(4) by (intro bytes_of_put_other) simp
  then have it: "ino_table fs (img d') ino = ino_table fs (img d) ino" by (simp only: ino_table_def)
  have "inode_ok fs cap (img d') ino" using assms(2) unfolding inode_ok_def it .
  from read_inode_ok [OF assms(1) this] have "read_inode_raw ops fs d' ino = Some (Inr raw)"
    unfolding ino_addr_def it unfolding ino_addr_def [symmetric] d'(2) assms(3) [symmetric] by simp
  with d' show ?thesis by blast
qed

text \<open>A volume of 1024-byte blocks on the memory disk: the descriptors in block 2, the inode table from block 5.\<close>

definition tiny_ext2 :: ext2 where
  "tiny_ext2 = \<lparr>x_base_off = 0, block_size = 1024, blocks_per_group = 32, inodes_per_group = 8, inode_size = 128, first_inode = 3,
     bgdt_off = 2048\<rparr>"

definition gd_disk :: "nat \<Rightarrow> u8" where
  "gd_disk x = (if x = 2056 then 5 else 0)"

lemma inode_roundtrip_example:
  "\<exists>d'. write_inode_raw ram_disk tiny_ext2 4 (replicate 128 9) gd_disk = Some (Inr (), d')
    \<and> read_inode_raw ram_disk tiny_ext2 d' 4 = Some (Inr (replicate 128 9))"
proof -
  have g: "ino_group tiny_ext2 4 = 0" "gd_addr tiny_ext2 0 = 2048" "ino_off tiny_ext2 4 = 384" "blk_addr tiny_ext2 5 = 5120"
    "bsz tiny_ext2 = 1024" "blk_addr tiny_ext2 7 = 7168" "unat (inode_size tiny_ext2) = 128"
    by (simp_all add: ino_group_def gd_addr_def ino_off_def blk_addr_def tiny_ext2_def)
  have it: "ino_table tiny_ext2 gd_disk 4 = 5" unfolding ino_table_def g by (simp add: rd32_def gd_disk_def)
  have "inode_ok tiny_ext2 64 (id gd_disk) 4" unfolding inode_ok_def id_apply it g by (simp add: g) (simp add: tiny_ext2_def)
  moreover have "gd_addr tiny_ext2 (ino_group tiny_ext2 4) + 32 \<le> ino_addr tiny_ext2 (id gd_disk) 4"
    unfolding ino_addr_def id_apply it g by (simp add: g)
  ultimately show ?thesis using inode_roundtrip [OF ram_disk_ok, of tiny_ext2 gd_disk 4 "replicate 128 9"] by (auto simp: g)
qed

section \<open>Allocating a block\<close>

lemma sb_update_ok:
  assumes "blk_ok ops img cap" "unat (x_base_off fs) + 2048 \<le> cap * 512" "off + 4 \<le> 512"
  shows "\<exists>d'. sb_update ops fs off f d = Some (Inr (), d')
    \<and> (\<forall>x. x < unat (x_base_off fs) + 1024 \<or> unat (x_base_off fs) + 2048 \<le> x \<longrightarrow> img d' x = img d x)"
proof -
  let ?b = "unat (x_base_off fs)"
  have small: "?b + 2048 < 2 ^ 63" using assms(1,2) unfolding blk_ok_def by linarith
  have "?b + unat (1024 :: u64) < 2 ^ 63" using small by simp
  note a0 = addr_u64 [OF this]
  have "unat (x_base_off fs + 1024) + unat (512 :: u64) < 2 ^ 63" using small a0(2) by simp
  note a1 = addr_u64 [OF this]
  have r0: "read_at ops d (x_base_off fs + 1024) 512 = Some (Some (bytes_of (img d) (?b + 1024) 512))"
    using read_at_ok [OF assms(1), of "x_base_off fs + 1024" 512 d] a0(2) assms(2) by simp
  have r1: "read_at ops d (x_base_off fs + 1024 + 512) 512 = Some (Some (bytes_of (img d) (?b + 1536) 512))"
  proof -
    have "unat (x_base_off fs + 1024 + 512) = ?b + 1536" using a1(2) a0(2) by simp
    from read_at_ok [OF assms(1), of "x_base_off fs + 1024 + 512" 512 d, unfolded this] assms(2) show ?thesis by simp
  qed
  define sb where "sb = bytes_of (img d) (?b + 1024) 512 @ bytes_of (img d) (?b + 1536) 512"
  have rd: "read_sb ops fs d = Some (Inr sb)"
    using a0(1) a1(1) r0 r1 by (simp add: read_sb_def read_super_def sb_def)
  define sb' where "sb' = splice sb off (le32 (f (rd32 sb off)))"
  have len: "length sb = 1024" "length sb' = 1024" using assms(3) by (simp_all add: sb_def sb'_def)
  have "0 < length (take 512 sb')" "0 < length (drop 512 sb')" using len(2) by simp_all
  then have ne: "take 512 sb' \<noteq> []" "drop 512 sb' \<noteq> []" by auto
  obtain d1 where d1: "write_exact ops fs 1024 (take 512 sb') d = Some (Inr (), d1)" "img d1 = put_bytes (?b + 1024) (take 512 sb') (img d)"
    using write_exact_ok [OF assms(1), of fs 1024 "take 512 sb'" d] ne(1) len(2) assms(2) by auto
  obtain d2 where d2: "write_exact ops fs (1024 + 512) (drop 512 sb') d1 = Some (Inr (), d2)" "img d2 = put_bytes (?b + 1536) (drop 512 sb') (img d1)"
    using write_exact_ok [OF assms(1), of fs "1024 + 512" "drop 512 sb'" d1] ne(2) len(2) assms(2) by auto
  have "sb_update ops fs off f d = Some (Inr (), d2)"
    using rd len(1) assms(3) d1(1) d2(1) by (simp add: sb_update_def wr32_def write_sb_def sb'_def)
  moreover have "img d2 x = img d x" if "x < ?b + 1024 \<or> ?b + 2048 \<le> x" for x
    using that len(2) by (auto simp: d2(2) d1(2) put_bytes_def)
  ultimately show ?thesis by blast
qed

lemma gd_io:
  assumes "blk_ok ops img cap" "gd_addr fs g + 32 \<le> cap * 512"
  shows "read_group_desc ops fs d g = Some (Inr (bytes_of (img d) (gd_addr fs g) 32))"
    "length gd = 32 \<Longrightarrow> \<exists>d'. write_group_desc ops fs g gd d = Some (Inr (), d') \<and> img d' = put_bytes (gd_addr fs g) gd (img d)"
proof -
  have "unat (ucast g :: u64) = unat g" "unat g < 2 ^ 32" by (simp_all add: unat_ucast_up u32_small [simplified])
  then have g: "unat (ucast g * 32 :: u64) = 32 * unat g" by (simp add: unat_word_ariths)
  have "unat (bgdt_off fs) + unat (ucast g * 32 :: u64) < 2 ^ 63"
    using assms unfolding g gd_addr_def blk_ok_def by linarith
  note a = addr_u64 [OF this]
  have e: "unat (x_base_off fs) + unat (bgdt_off fs + ucast g * 32) = gd_addr fs g" by (simp add: a(2) g gd_addr_def)
  show "read_group_desc ops fs d g = Some (Inr (bytes_of (img d) (gd_addr fs g) 32))"
    using read_exact_ok [OF assms(1), of fs "bgdt_off fs + ucast g * 32" 32 d] assms(2) by (simp add: read_group_desc_def a(1) e)
  show "\<exists>d'. write_group_desc ops fs g gd d = Some (Inr (), d') \<and> img d' = put_bytes (gd_addr fs g) gd (img d)" if "length gd = 32"
  proof -
    have "gd \<noteq> []" using that by auto
    then show ?thesis using write_exact_ok [OF assms(1), of fs "bgdt_off fs + ucast g * 32" gd d] assms(2) that
      by (simp add: write_group_desc_def a(1) e)
  qed
qed

text \<open>The block bitmap of group 0, in its own block away from the superblock and the descriptor.\<close>

definition bbm_block :: "ext2 \<Rightarrow> (nat \<Rightarrow> u8) \<Rightarrow> u32" where
  "bbm_block fs m = rd32 (bytes_of m (gd_addr fs 0) 32) 0"

definition bbm_addr :: "ext2 \<Rightarrow> (nat \<Rightarrow> u8) \<Rightarrow> nat" where
  "bbm_addr fs m = blk_addr fs (unat (bbm_block fs m))"

definition bbm :: "ext2 \<Rightarrow> (nat \<Rightarrow> u8) \<Rightarrow> u8 list" where
  "bbm fs m = bytes_of m (bbm_addr fs m) (bsz fs)"

definition bbm_ok :: "ext2 \<Rightarrow> nat \<Rightarrow> (nat \<Rightarrow> u8) \<Rightarrow> bool" where
  "bbm_ok fs cap m \<longleftrightarrow> 0 < bsz fs \<and> unat (blocks_per_group fs) \<le> 8 * bsz fs \<and> bbm_block fs m \<noteq> 0
     \<and> unat (x_base_off fs) + 2048 \<le> gd_addr fs 0 \<and> gd_addr fs 0 + 32 \<le> bbm_addr fs m \<and> bbm_addr fs m + bsz fs \<le> cap * 512"

lemma bbm_cong:
  assumes "bbm_ok fs cap m" "\<And>x. gd_addr fs 0 \<le> x \<Longrightarrow> x < gd_addr fs 0 + 4 \<Longrightarrow> m' x = m x"
  shows "bbm_block fs m' = bbm_block fs m"
  using assms(2) by (simp add: bbm_block_def rd32_def)

lemma gd_count_ok:
  assumes "blk_ok ops img cap" "gd_addr fs g + 32 \<le> cap * 512"
  shows "\<exists>d'. gd_update ops fs g 12 f d = Some (Inr (), d') \<and> (\<forall>x. x < gd_addr fs g + 12 \<or> gd_addr fs g + 14 \<le> x \<longrightarrow> img d' x = img d x)"
proof -
  let ?old = "bytes_of (img d) (gd_addr fs g) 32"
  define v where "v = le16 (f (rd16 ?old 12))"
  have len: "length (splice ?old 12 v) = 32" by (simp add: v_def)
  obtain d' where d': "write_group_desc ops fs g (splice ?old 12 v) d = Some (Inr (), d')" "img d' = put_bytes (gd_addr fs g) (splice ?old 12 v) (img d)"
    using gd_io(2) [OF assms len] by blast
  have "img d' = put_bytes (gd_addr fs g + 12) v (img d)" unfolding d'(2) by (rule put_splice) (simp add: v_def)
  then show ?thesis using gd_io(1) [OF assms, of d] d'(1) by (auto simp: gd_update_def wr16_def v_def put_bytes_def)
qed

text \<open>
  C33: Allocating a block of an ext2 volume takes the least clear bit of the block bitmap, sets exactly that bit
  and returns its number; apart from the bitmap only the free counters of the superblock and of the group
  descriptor change. When every bit is set it fails with \<open>Full\<close> and changes nothing.
\<close>

theorem alloc_block_least:
  assumes "blk_ok ops img cap" "bbm_ok fs cap (img d)"
  shows "case find (\<lambda>b. \<not> bm_bit (bbm fs (img d)) b) [0..<unat (blocks_per_group fs)] of
      None \<Rightarrow> alloc_block_group0 ops fs d = Some (Inl EFull, d)
    | Some b \<Rightarrow> \<exists>d'. alloc_block_group0 ops fs d = Some (Inr (of_nat b), d')
        \<and> (\<forall>x < 8 * bsz fs. bm_bit (bbm fs (img d')) x \<longleftrightarrow> x = b \<or> bm_bit (bbm fs (img d)) x)
        \<and> (\<forall>x. bbm_addr fs (img d) + bsz fs \<le> x \<longrightarrow> img d' x = img d x)"
proof -
  note ok = assms(2) [unfolded bbm_ok_def]
  let ?a = "bbm_addr fs (img d)" and ?bm = "bbm fs (img d)" and ?n = "unat (blocks_per_group fs)"
  have gcap: "gd_addr fs 0 + 32 \<le> cap * 512" "unat (x_base_off fs) + 2048 \<le> cap * 512" using ok by linarith+
  have blk: "group_block_bitmap ops fs d 0 = Some (Inr (bbm_block fs (img d)))"
    using gd_io(1) [OF assms(1) gcap(1), of d] ok by (simp add: group_block_bitmap_def gd_block_def bbm_block_def)
  have rd: "read_block ops fs d (bbm_block fs (img d)) = Some (Inr ?bm)"
    using read_block_ok [OF assms(1), of fs "bbm_block fs (img d)" d] ok by (simp add: bbm_def bbm_addr_def)
  have lenb: "length ?bm = bsz fs" by (simp add: bbm_def)
  have scan: "bitmap_find_and_set ?bm 0 ?n = Some (case find (\<lambda>x. \<not> bm_bit ?bm x) [0..<?n] of
    None \<Rightarrow> None | Some x \<Rightarrow> Some (x, ?bm[x div 8 := ?bm ! (x div 8) OR push_bit (x mod 8) 1]))"
    using bitmap_scan_ok [of 0 ?n ?bm] ok lenb by (simp add: bitmap_find_and_set_def)
  show ?thesis
  proof (cases "find (\<lambda>x. \<not> bm_bit ?bm x) [0..<?n]")
    case None
    then show ?thesis using blk rd scan by (simp add: alloc_block_group0_def or_full_def)
  next
    case (Some b)
    then have b: "b < ?n" by (simp add: find_least)
    define bm' where "bm' = ?bm[b div 8 := ?bm ! (b div 8) OR push_bit (b mod 8) 1]"
    have len': "length bm' = bsz fs" by (simp add: bm'_def lenb)
    obtain d1 where d1: "write_block ops fs (bbm_block fs (img d)) bm' d = Some (Inr (), d1)" "img d1 = put_bytes ?a bm' (img d)"
      using write_block_ok [OF assms(1), of fs "bbm_block fs (img d)" bm' d] ok len' by (auto simp: bbm_addr_def)
    have le12: "12 + 4 \<le> (512 :: nat)" by simp
    obtain d2 where d2: "sb_update ops fs 12 (sat_dec 1) d1 = Some (Inr (), d2)"
      "\<forall>x. x < unat (x_base_off fs) + 1024 \<or> unat (x_base_off fs) + 2048 \<le> x \<longrightarrow> img d2 x = img d1 x"
      using sb_update_ok [OF assms(1) gcap(2) le12] by blast
    obtain d3 where d3: "gd_update ops fs 0 12 (sat_dec 1) d2 = Some (Inr (), d3)"
      "\<forall>x. x < gd_addr fs 0 + 12 \<or> gd_addr fs 0 + 14 \<le> x \<longrightarrow> img d3 x = img d2 x"
      using gd_count_ok [OF assms(1) gcap(1)] by blast
    have keep: "img d3 x = img d1 x" if "gd_addr fs 0 + 14 \<le> x" for x using d2(2) d3(2) ok that by auto
    have gd4: "img d3 x = img d x" if "gd_addr fs 0 \<le> x" "x < gd_addr fs 0 + 4" for x
    proof -
      have "img d3 x = img d1 x" using d2(2) d3(2) ok that by auto
      then show ?thesis using ok that by (auto simp: d1(2) put_bytes_def)
    qed
    then have same: "bbm_addr fs (img d3) = ?a" using bbm_cong [OF assms(2), of "img d3"] by (simp add: bbm_addr_def)
    have "img d3 x = img d1 x" if "?a \<le> x" for x using keep ok that by auto
    then have "bbm fs (img d3) = bytes_of (img d1) ?a (bsz fs)" unfolding bbm_def same by (simp add: bytes_of_def)
    then have bm3: "bbm fs (img d3) = bm'" unfolding d1(2) len' [symmetric] by simp
    have "b div 8 < length ?bm" using b ok lenb by simp linarith
    then have bits: "bm_bit (bbm fs (img d3)) x \<longleftrightarrow> x = b \<or> bm_bit ?bm x" for x unfolding bm3 bm'_def by (rule bm_bit_set)
    have "img d3 x = img d x" if "?a + bsz fs \<le> x" for x using keep [of x] ok that len' by (auto simp: d1(2) put_bytes_def)
    moreover have "alloc_block_group0 ops fs d = Some (Inr (of_nat b), d3)"
      using blk rd scan Some d1(1) d2(1) d3(1)
      by (simp add: alloc_block_group0_def or_full_def bm'_def sb_dec_free_blocks_def gd_dec_free_blocks_def)
    ultimately show ?thesis using Some bits by auto
  qed
qed

text \<open>The descriptor of \<open>bm_disk\<close> names block 4 as the bitmap; its first three bits are set.\<close>

definition bm_disk :: "nat \<Rightarrow> u8" where
  "bm_disk x = (if x = 2048 then 4 else if x = 4096 then 7 else 0)"

theorem alloc_block_least_witness:
  "\<exists>d'. alloc_block_group0 ram_disk tiny_ext2 bm_disk = Some (Inr 3, d') \<and> bm_bit (bbm tiny_ext2 d') 3"
proof -
  have g: "gd_addr tiny_ext2 0 = 2048" "bsz tiny_ext2 = 1024" "blk_addr tiny_ext2 4 = 4096" "unat (blocks_per_group tiny_ext2) = 32"
    by (simp_all add: gd_addr_def blk_addr_def tiny_ext2_def)
  have b: "bbm_block tiny_ext2 bm_disk = 4" unfolding bbm_block_def g by (simp add: rd32_def bm_disk_def)
  then have a: "bbm_addr tiny_ext2 bm_disk = 4096" by (simp add: bbm_addr_def g)
  have ok: "bbm_ok tiny_ext2 64 (id bm_disk)" unfolding bbm_ok_def id_apply a b g by (simp add: tiny_ext2_def)
  have byte: "bbm tiny_ext2 bm_disk ! 0 = 7" unfolding bbm_def a g by (simp add: bm_disk_def)
  have bits: "bm_bit (bbm tiny_ext2 bm_disk) x \<longleftrightarrow> x < 3" if "x < 8" for x
  proof -
    have "x \<in> {0, 1, 2, 3, 4, 5, 6, 7}" using that by simp arith
    then show ?thesis unfolding bm_bit_def using byte by (elim insertE emptyE) (simp_all add: bit_numeral_rec)
  qed
  have "find (\<lambda>x. \<not> bm_bit (bbm tiny_ext2 (id bm_disk)) x) [0..<unat (blocks_per_group tiny_ext2)] = Some 3"
    unfolding find_least g id_apply using bits by auto
  with alloc_block_least [OF ram_disk_ok, of tiny_ext2 bm_disk] ok show ?thesis by (auto simp: g)
qed

section \<open>What mounting does not check\<close>

text \<open>A disk with the magic number of ext2 and zeros.\<close>

definition bare_disk :: "nat \<Rightarrow> u8" where
  "bare_disk x = (if x = 1080 then 0x53 else if x = 1081 then 0xEF else 0)"

text \<open>
  A damaged superblock takes the kernel down. The mount accepts a superblock whose number of inodes per
  group is zero; the first listing of the root directory then divides by it and panics.
\<close>

lemma ext2_zero_inodes_panics:
  "\<exists>fs. ext2_mount ram_disk bare_disk 0 = Some (Inr fs) \<and> inodes_per_group fs = 0
    \<and> ext2_list_dir ram_disk fs bare_disk [SLASH] = None"
proof -
  have r: "read_at ram_disk bare_disk 1024 512 = Some (Some (bytes_of bare_disk 1024 512))"
    "read_at ram_disk bare_disk 1536 512 = Some (Some (bytes_of bare_disk 1536 512))"
    using read_at_ok [OF ram_disk_ok, of 1024 512 bare_disk] read_at_ok [OF ram_disk_ok, of 1536 512 bare_disk] by simp_all
  have sb: "read_super ram_disk bare_disk 0 = Some (Inr (bytes_of bare_disk 1024 1024))"
    using r bytes_of_append [of bare_disk 1024 512 512] by (simp add: read_super_def checked_add_def)
  let ?fs = "\<lparr>x_base_off = 0, block_size = 1024, blocks_per_group = 0, inodes_per_group = 0, inode_size = 128, first_inode = 0, bgdt_off = 2048\<rparr>"
  have m: "ext2_mount ram_disk bare_disk 0 = Some (Inr ?fs)"
    using sb by (simp add: ext2_mount_def rd16_def rd32_def bare_disk_def checked_shl_def)
  have "read_inode_raw ram_disk ?fs bare_disk 2 = None" by (simp add: read_inode_raw_def inode_pos_def assert_that_def)
  then have "ext2_list_dir ram_disk ?fs bare_disk [SLASH] = None"
    by (simp add: ext2_list_dir_def resolve_inode_ci_def EXT2_ROOT_INO_def inode_mode_size_blocks_def)
  then show ?thesis using m by (intro exI [of _ ?fs]) simp
qed

end
