(* ===== verification/Kheap.thy ===== *)
theory Kheap
  imports Vmarena
begin

text \<open>
  \<^verbatim>\<open>kernel/mm/heap/freelist.rs\<close> and \<^verbatim>\<open>global_alloc.rs\<close>: the kernel heap. Blocks tile spans of pages; a block has a
  header of four words (size, links, free flag) at its start and its size again in its last word, and free
  blocks form a doubly linked list through their headers. All of this lives in the memory that the heap
  manages: the model's memory maps the address of an aligned word to its value, and a pointer is an address
  with 0 for null. \<open>usize\<close> values are natural numbers; \<open>uadd\<close> and \<open>usub\<close> are the checked operators.
\<close>

section \<open>Words, blocks and the free list\<close>

type_synonym words = "nat \<Rightarrow> nat"

definition uadd :: "nat \<Rightarrow> nat \<Rightarrow> nat option" where
  [panic_simps]: "uadd a b = (if a + b < 2 ^ 64 then Some (a + b) else None)"

definition usub :: "nat \<Rightarrow> nat \<Rightarrow> nat option" where
  [panic_simps]: "usub a b = (if b \<le> a then Some (a - b) else None)"

text \<open>\<open>(x + align - 1) & !(align - 1)\<close>: clearing the bits of a mask subtracts them.\<close>

definition heap_align_up :: "nat \<Rightarrow> nat \<Rightarrow> nat option" where
  "heap_align_up x a = do { y \<leftarrow> uadd x a; z \<leftarrow> usub y 1; Some (z - (z AND (a - 1))) }"

definition HEADER_SIZE :: nat where "HEADER_SIZE = 32"
definition FOOTER_SIZE :: nat where "FOOTER_SIZE = 8"
definition MIN_PAYLOAD :: nat where "MIN_PAYLOAD = 16"
definition HEAP_ALIGN :: nat where "HEAP_ALIGN = 16"
definition MIN_BLOCK :: nat where "MIN_BLOCK = 64"

lemmas heap_consts = HEADER_SIZE_def FOOTER_SIZE_def MIN_PAYLOAD_def HEAP_ALIGN_def MIN_BLOCK_def

text \<open>The fields of \<open>Block\<close>: \<open>size\<close>, \<open>prev\<close>, \<open>next\<close>, \<open>free\<close>.\<close>

definition b_size :: "words \<Rightarrow> nat \<Rightarrow> nat" where [simp]: "b_size m b = m b"
definition b_prev :: "words \<Rightarrow> nat \<Rightarrow> nat" where [simp]: "b_prev m b = m (b + 8)"
definition b_next :: "words \<Rightarrow> nat \<Rightarrow> nat" where [simp]: "b_next m b = m (b + 16)"
definition b_free :: "words \<Rightarrow> nat \<Rightarrow> bool" where [simp]: "b_free m b \<longleftrightarrow> m (b + 24) \<noteq> 0"

definition payload_ptr :: "nat \<Rightarrow> nat" where "payload_ptr b = b + HEADER_SIZE"
definition from_payload :: "nat \<Rightarrow> nat" where "from_payload p = p - HEADER_SIZE"

definition set_footer :: "nat \<Rightarrow> words \<Rightarrow> words" where
  "set_footer b m = m(b + b_size m b - FOOTER_SIZE := b_size m b)"

record 'v heap =
  h_mem :: words
  h_head :: nat
  h_regions :: "(nat \<times> nat) list"
  h_pages :: 'v

definition list_push :: "nat \<Rightarrow> 'v heap \<Rightarrow> 'v heap" where
  "list_push b h =
     (let m = (h_mem h)(b + 24 := 1, b + 8 := 0, b + 16 := h_head h);
          m = (if h_head h \<noteq> 0 then m(h_head h + 8 := b) else m)
      in h\<lparr>h_mem := m, h_head := b\<rparr>)"

definition list_remove :: "nat \<Rightarrow> 'v heap \<Rightarrow> 'v heap" where
  "list_remove b h =
     (let m = (h_mem h)(b + 24 := 0);
          prev = b_prev m b;
          next = b_next m b;
          m = (if prev \<noteq> 0 then m(prev + 16 := next) else m);
          m = (if next \<noteq> 0 then m(next + 8 := prev) else m);
          hd' = (if h_head h = b then next else h_head h)
      in h\<lparr>h_mem := m(b + 8 := 0, b + 16 := 0), h_head := hd'\<rparr>)"

definition fits_with_optional_lead :: "nat \<Rightarrow> nat \<Rightarrow> nat \<Rightarrow> bool" where
  "fits_with_optional_lead block_size need lead =
     (if lead = 0 then block_size \<ge> need else block_size \<ge> lead + need \<and> lead \<ge> MIN_BLOCK)"

text \<open>The search follows the links; on a cyclic list it would not return.\<close>

partial_function (option) find_fit :: "words \<Rightarrow> nat \<Rightarrow> nat \<Rightarrow> nat \<Rightarrow> nat option" where
  "find_fit m need align cur =
     (if cur = 0 then Some 0
      else do {
        aligned_payload \<leftarrow> heap_align_up (payload_ptr cur) (max align HEAP_ALIGN);
        lead \<leftarrow> usub aligned_payload (payload_ptr cur);
        total \<leftarrow> uadd need lead;
        if b_size m cur \<ge> total \<and> fits_with_optional_lead (b_size m cur) need lead then Some cur
        else find_fit m need align (b_next m cur)
      })"

section \<open>The heap\<close>

text \<open>\<open>Heap::new\<close>, with the state of the page arena beside it.\<close>

definition heap_new :: "'v \<Rightarrow> 'v heap" where
  "heap_new v = \<lparr>h_mem = (\<lambda>_. 0), h_head = 0, h_regions = [], h_pages = v\<rparr>"

definition region_bounds :: "nat \<Rightarrow> (nat \<times> nat) list \<Rightarrow> (nat \<times> nat) option" where
  "region_bounds addr rs =
     map_option (\<lambda>(start, len). (start, start + len)) (find (\<lambda>(start, len). start \<le> addr \<and> addr < start + len) rs)"

text \<open>At most 32 regions are recorded; a failed push into the fixed vector is ignored.\<close>

definition add_span :: "nat \<Rightarrow> nat \<Rightarrow> 'v heap \<Rightarrow> 'v heap" where
  "add_span start len h =
     (if len < MIN_BLOCK then h
      else let m = (h_mem h)(start := len, start + 24 := 1, start + 8 := 0, start + 16 := 0);
               h = list_push start (h\<lparr>h_mem := set_footer start m\<rparr>)
        in h\<lparr>h_regions := (if length (h_regions h) < 32 then h_regions h @ [(start, len)] else h_regions h)\<rparr>)"

text \<open>\<open>pg\<close> is \<open>vmarena::alloc_n\<close>.\<close>

type_synonym 'v page_alloc = "nat \<Rightarrow> 'v \<Rightarrow> (u64 option \<times> 'v) option"

definition grow :: "'v page_alloc \<Rightarrow> nat \<Rightarrow> 'v heap \<Rightarrow> (bool \<times> 'v heap) option" where
  "grow pg min_bytes h = do {
     up \<leftarrow> heap_align_up min_bytes 4096;
     let n = up div 4096 in do {
       (r, v) \<leftarrow> pg n (h_pages h);
       let h = h\<lparr>h_pages := v\<rparr> in
       Some (case r of None \<Rightarrow> (False, h) | Some base_va \<Rightarrow> (True, add_span (unat base_va) (n * 4096) h))
     }
   }"

text \<open>The part of \<open>alloc\<close> before a block is taken: the search, and a second one after growing.\<close>

definition find_block :: "'v page_alloc \<Rightarrow> nat \<Rightarrow> nat \<Rightarrow> 'v heap \<Rightarrow> (nat \<times> 'v heap) option" where
  "find_block pg need align h = do {
     blk \<leftarrow> find_fit (h_mem h) need align (h_head h);
     if blk \<noteq> 0 then Some (blk, h)
     else do {
       (ok, h) \<leftarrow> grow pg need h;
       if \<not> ok then Some (0, h)
       else do { blk \<leftarrow> find_fit (h_mem h) need align (h_head h); Some (blk, h) }
     }
   }"

text \<open>
  The leading part that alignment leaves over becomes a free block of its own when it is large enough:
  the block to use, the bytes absorbed into it, and the heap.
\<close>

definition split_lead :: "nat \<Rightarrow> nat \<Rightarrow> 'v heap \<Rightarrow> (nat \<times> nat \<times> 'v heap) option" where
  "split_lead blk lead h =
     (let lead_aligned = lead - (lead AND (HEAP_ALIGN - 1)); use_size = b_size (h_mem h) blk in
      if lead_aligned \<ge> MIN_BLOCK then do {
        let h = list_push blk (h\<lparr>h_mem := set_footer blk ((h_mem h)(blk := lead_aligned))\<rparr>); rest = blk + lead_aligned in do {
          rest_size \<leftarrow> usub use_size lead_aligned;
          let m = (h_mem h)(rest := rest_size, rest + 24 := 0, rest + 8 := 0, rest + 16 := 0) in
          Some (rest, 0, h\<lparr>h_mem := set_footer rest m\<rparr>)
        }
      }
      else Some (blk, lead, h))"

text \<open>The rest of the block behind the allocation becomes a free block when it is large enough.\<close>

definition split_tail :: "nat \<Rightarrow> nat \<Rightarrow> 'v heap \<Rightarrow> 'v heap option" where
  "split_tail use_ptr alloc_size h = do {
     limit \<leftarrow> uadd alloc_size MIN_BLOCK;
     let use_size = b_size (h_mem h) use_ptr in
     Some (if use_size \<ge> limit then
         let tail = use_ptr + alloc_size;
             m = (h_mem h)(tail := use_size - alloc_size, tail + 24 := 1, tail + 8 := 0, tail + 16 := 0);
             h = list_push tail (h\<lparr>h_mem := set_footer tail m\<rparr>)
         in h\<lparr>h_mem := set_footer use_ptr ((h_mem h)(use_ptr := alloc_size, use_ptr + 24 := 0))\<rparr>
       else h\<lparr>h_mem := set_footer use_ptr ((h_mem h)(use_ptr + 24 := 0))\<rparr>)
   }"

definition heap_alloc :: "'v page_alloc \<Rightarrow> nat \<Rightarrow> nat \<Rightarrow> 'v heap \<Rightarrow> (nat \<times> 'v heap) option" where
  "heap_alloc pg size' align h = (let payload_align = max align HEAP_ALIGN in do {
     payload_size \<leftarrow> heap_align_up (max size' MIN_PAYLOAD) HEAP_ALIGN;
     need \<leftarrow> uadd (HEADER_SIZE + FOOTER_SIZE) payload_size;
     (blk, h) \<leftarrow> find_block pg need payload_align h;
     if blk = 0 then Some (0, h)
     else let h = list_remove blk h in do {
       aligned_payload \<leftarrow> heap_align_up (payload_ptr blk) payload_align;
       lead \<leftarrow> usub aligned_payload (payload_ptr blk);
       (use_ptr, absorbed, h) \<leftarrow> split_lead blk lead h;
       total \<leftarrow> uadd need absorbed;
       alloc_size \<leftarrow> heap_align_up total HEAP_ALIGN;
       h \<leftarrow> split_tail use_ptr alloc_size h;
       Some (payload_ptr use_ptr, h)
     }
   })"

definition try_coalesce_with_next :: "nat \<Rightarrow> 'v heap \<Rightarrow> 'v heap option" where
  "try_coalesce_with_next b h =
     (case region_bounds b (h_regions h) of
        None \<Rightarrow> Some h
      | Some (_, end') \<Rightarrow>
          (let next = b + b_size (h_mem h) b in
           if next = 0 \<or> next \<ge> end' then Some h
           else if b_free (h_mem h) next then
             let h = list_remove next h in do {
               sz \<leftarrow> uadd (b_size (h_mem h) b) (b_size (h_mem h) next);
               Some (h\<lparr>h_mem := set_footer b ((h_mem h)(b := sz))\<rparr>)
             }
           else Some h))"

definition try_coalesce_with_prev :: "nat \<Rightarrow> 'v heap \<Rightarrow> (nat \<times> 'v heap) option" where
  "try_coalesce_with_prev b h =
     (case region_bounds b (h_regions h) of
        None \<Rightarrow> Some (b, h)
      | Some (start, _) \<Rightarrow>
          if b < start + FOOTER_SIZE then Some (b, h)
          else let prev_sz = h_mem h (b - FOOTER_SIZE); prev = b - prev_sz in
            if prev_sz = 0 then Some (b, h)
            else if prev < start then Some (b, h)
            else if b_free (h_mem h) prev then
              let h = list_remove prev h in do {
                sz \<leftarrow> uadd (b_size (h_mem h) prev) (b_size (h_mem h) b);
                Some (prev, h\<lparr>h_mem := set_footer prev ((h_mem h)(prev := sz))\<rparr>)
              }
            else Some (b, h))"

definition heap_dealloc :: "nat \<Rightarrow> 'v heap \<Rightarrow> 'v heap option" where
  "heap_dealloc ptr h =
     (if ptr = 0 then Some h
      else let b = from_payload ptr;
               h = list_push b (h\<lparr>h_mem := (h_mem h)(b + 24 := 1, b + 8 := 0, b + 16 := 0)\<rparr>)
        in do { (b, h) \<leftarrow> try_coalesce_with_prev b h; try_coalesce_with_next b h })"

text \<open>\<open>global_alloc::init\<close>: the error strings of the source are the two constructors.\<close>

datatype heap_err = ZeroPages | ArenaFailed

definition heap_init :: "'v page_alloc \<Rightarrow> nat \<Rightarrow> 'v heap \<Rightarrow> ((heap_err + unit) \<times> 'v heap) option" where
  "heap_init pg initial_pages h =
     (if initial_pages = 0 then Some (Inl ZeroPages, h)
      else do {
        assert_that (initial_pages * 4096 < 2 ^ 64);
        (r, v) \<leftarrow> pg initial_pages (h_pages h);
        let h = h\<lparr>h_pages := v\<rparr> in
        Some (case r of None \<Rightarrow> (Inl ArenaFailed, h) | Some base_va \<Rightarrow> (Inr (), add_span (unat base_va) (initial_pages * 4096) h))
      })"

section \<open>Arithmetic\<close>

lemma and_pow2: "z AND (2 ^ k - 1) = z mod 2 ^ k" for z :: nat
proof -
  have "z AND (2 ^ k - 1) = take_bit k z" by (subst mask_eq_exp_minus_1 [symmetric]) (rule take_bit_eq_mask [symmetric])
  then show ?thesis by (simp only: take_bit_eq_mod)
qed

lemma heap_align_up_eq:
  assumes "0 < a" "z AND (a - 1) = z mod a" "x + a < 2 ^ 64" "z = x + a - 1"
  shows "heap_align_up x a = Some (z - z mod a)"
  using assms by (simp add: heap_align_up_def uadd_def usub_def)

lemma heap_align_up_ok:
  assumes "a = 2 ^ k" "x + a < 2 ^ 64"
  obtains y where "heap_align_up x a = Some y" "x \<le> y" "y < x + a" "a dvd y"
proof -
  define z where "z = x + a - 1"
  have a: "0 < a" by (simp add: assms(1))
  have up: "heap_align_up x a = Some (z - z mod a)"
    by (rule heap_align_up_eq [OF a _ assms(2) z_def]) (simp only: assms(1) and_pow2)
  have z: "z mod a < a" "z mod a \<le> z" using a by simp_all
  have "x \<le> z - z mod a" "z - z mod a < x + a" using z a unfolding z_def by linarith+
  moreover have "a dvd z - z mod a" by (simp add: minus_mod_eq_mult_div)
  ultimately show thesis using up that by blast
qed

lemma heap_align_up_fix: "a = 2 ^ k \<Longrightarrow> x + a < 2 ^ 64 \<Longrightarrow> a dvd x \<Longrightarrow> heap_align_up x a = Some x"
proof -
  assume a: "a = 2 ^ k" "x + a < 2 ^ 64" "a dvd x"
  obtain y where y: "heap_align_up x a = Some y" "x \<le> y" "y < x + a" "a dvd y" using heap_align_up_ok [OF a(1,2)] .
  have "a dvd y - x" "y - x < a" using y a(3) by (auto simp: dvd_diff_nat)
  then have "y = x" using y(2) by (metis nat_dvd_not_less diff_is_0_eq le_antisym neq0_conv)
  with y(1) show ?thesis by simp
qed

section \<open>Tiles\<close>

text \<open>
  The blocks as they lie in the spans \<open>S\<close>: \<open>Z\<close> maps the start of each block to its size. Blocks of a span follow
  each other without gaps.
\<close>

type_synonym tiles = "nat \<rightharpoonup> nat"

definition in_span :: "tiles \<Rightarrow> nat \<times> nat \<Rightarrow> nat \<Rightarrow> nat \<Rightarrow> bool" where
  "in_span Z r a s \<longleftrightarrow> fst r \<le> a \<and> a + s \<le> fst r + snd r \<and> (a + s < fst r + snd r \<longrightarrow> a + s \<in> dom Z)
     \<and> (fst r < a \<longrightarrow> (\<exists>b t. Z b = Some t \<and> fst r \<le> b \<and> b + t = a))"

definition span_bytes :: "nat \<times> nat \<Rightarrow> nat set" where
  "span_bytes r = {fst r ..< fst r + snd r}"

definition tiling :: "tiles \<Rightarrow> (nat \<times> nat) set \<Rightarrow> bool" where
  "tiling Z S \<longleftrightarrow>
     (\<forall>a s. Z a = Some s \<longrightarrow> 0 < a \<and> 16 dvd a \<and> 16 dvd s \<and> 64 \<le> s)
     \<and> (\<forall>a s b t. Z a = Some s \<longrightarrow> Z b = Some t \<longrightarrow> a < b \<longrightarrow> a + s \<le> b)
     \<and> (\<forall>a s. Z a = Some s \<longrightarrow> (\<exists>r \<in> S. in_span Z r a s))
     \<and> (\<forall>r \<in> S. \<forall>r' \<in> S. r \<noteq> r' \<longrightarrow> span_bytes r \<inter> span_bytes r' = {})"

lemma tiling_tile: "tiling Z S \<Longrightarrow> Z a = Some s \<Longrightarrow> 0 < a \<and> 16 dvd a \<and> 16 dvd s \<and> 64 \<le> s"
  unfolding tiling_def by blast

lemma tiling_order: "tiling Z S \<Longrightarrow> Z a = Some s \<Longrightarrow> Z b = Some t \<Longrightarrow> a < b \<Longrightarrow> a + s \<le> b"
  unfolding tiling_def by blast

lemma tiling_span: "tiling Z S \<Longrightarrow> Z a = Some s \<Longrightarrow> \<exists>r \<in> S. in_span Z r a s"
  unfolding tiling_def by blast

lemma tiling_span_unique: "tiling Z S \<Longrightarrow> r \<in> S \<Longrightarrow> r' \<in> S \<Longrightarrow> x \<in> span_bytes r \<Longrightarrow> x \<in> span_bytes r' \<Longrightarrow> r = r'"
  unfolding tiling_def by blast

lemma in_span_bytes: "in_span Z r a s \<Longrightarrow> x < s \<Longrightarrow> a + x \<in> span_bytes r"
  by (auto simp: in_span_def span_bytes_def)

text \<open>What keeps a tile inside its span: the successor and the predecessor stay tiles.\<close>

lemma in_span_keep:
  assumes "in_span Z r a s" "a + s \<in> dom Z \<Longrightarrow> a + s \<in> dom Z'"
    "\<And>c u. Z c = Some u \<Longrightarrow> fst r \<le> c \<Longrightarrow> c + u = a \<Longrightarrow> \<exists>b t. Z' b = Some t \<and> fst r \<le> b \<and> b + t = a"
  shows "in_span Z' r a s"
  using assms unfolding in_span_def by blast

lemma in_span_mono: "in_span Z r a s \<Longrightarrow> (\<And>c u. Z c = Some u \<Longrightarrow> Z' c = Some u) \<Longrightarrow> in_span Z' r a s"
  by (erule in_span_keep) blast+

text \<open>Cells of different tiles are different.\<close>

lemma tile_apart:
  assumes "tiling Z S" "Z a = Some s" "Z b = Some t" "a \<noteq> b" "i < s" "j < t"
  shows "a + i \<noteq> b + j"
  using tiling_order [OF assms(1-3)] tiling_order [OF assms(1,3,2)] assms(4-6) by linarith

lemma tile_inner_free:
  assumes "tiling Z S" "Z a = Some s" "0 < n" "n < s"
  shows "Z (a + n) = None"
proof (rule ccontr)
  assume "Z (a + n) \<noteq> None"
  then obtain t where "Z (a + n) = Some t" by auto
  from tiling_order [OF assms(1,2) this] assms(3,4) show False by simp
qed

text \<open>A tile can be cut in two.\<close>

lemma tiling_split:
  assumes "tiling Z S" "Z b = Some s" "16 dvd n" "64 \<le> n" "n + 64 \<le> s"
  defines "Z' \<equiv> Z(b \<mapsto> n, b + n \<mapsto> s - n)"
  shows "tiling Z' S"
  unfolding tiling_def
proof (intro conjI allI impI)
  note old = tiling_tile [OF assms(1)] and order = tiling_order [OF assms(1)]
  have b: "0 < b" "16 dvd b" "16 dvd s" "64 \<le> s" using old [OF assms(2)] by auto
  have dvd: "16 dvd b + n" "16 dvd s - n" using b assms(3) by (auto intro: dvd_diff_nat)
  have none: "Z (b + n) = None" using tile_inner_free [OF assms(1,2), of n] assms(4,5) by simp
  have cases: "(a = b \<and> t = n) \<or> (a = b + n \<and> t = s - n) \<or> (a \<noteq> b \<and> a \<noteq> b + n \<and> Z a = Some t)" if "Z' a = Some t" for a t
    using that by (auto simp: Z'_def split: if_splits)
  fix a t
  assume a: "Z' a = Some t"
  show "0 < a" "16 dvd a" "16 dvd t" "64 \<le> t" using cases [OF a] old b dvd assms(3-5) by (auto simp del: dvd_add_right_iff)
  show "a + t \<le> c" if "Z' c = Some u" "a < c" for c u
    using cases [OF a] cases [OF that(1)] order [OF assms(2), of c u] order [OF assms(2), of a t] order [of a t, OF _ assms(2)] order [of a t c u] that(2) assms(4,5)
      linorder_less_linear [of a b] by auto
  have pred: "\<exists>e t. Z' e = Some t \<and> p \<le> e \<and> e + t = x" if "Z c = Some u" "p \<le> c" "c + u = x" for c u x p
  proof (cases "c = b")
    case True
    then have "Z' (b + n) = Some (s - n)" "b + n + (s - n) = x" "p \<le> b + n"
      using that assms(2,5) by (auto simp: Z'_def)
    then show ?thesis by blast
  next
    case False
    then have "Z' c = Some u" using that(1) none by (auto simp: Z'_def)
    then show ?thesis using that by blast
  qed
  have dom: "dom Z \<subseteq> dom Z'" by (auto simp: Z'_def)
  show "\<exists>r \<in> S. in_span Z' r a t"
  proof (cases "a = b \<or> a = b + n")
    case True
    obtain r where r: "r \<in> S" "in_span Z r b s" using tiling_span [OF assms(1,2)] by blast
    have "in_span Z' r b s" by (rule in_span_keep [OF r(2)]) (use dom pred in auto)
    moreover have "Z' b = Some n" "Z' (b + n) = Some (s - n)" using assms(4) by (auto simp: Z'_def)
    ultimately have "in_span Z' r b n" "in_span Z' r (b + n) (s - n)" using assms(4,5) unfolding in_span_def by auto
    moreover have "t = n \<or> a \<noteq> b" "t = s - n \<or> a \<noteq> b + n" using a \<open>Z' b = Some n\<close> \<open>Z' (b + n) = Some (s - n)\<close> by auto
    ultimately show ?thesis using r(1) True by (elim disjE) auto
  next
    case False
    then have z: "Z a = Some t" using cases [OF a] by blast
    then obtain r where r: "r \<in> S" "in_span Z r a t" using tiling_span [OF assms(1)] by blast
    have "in_span Z' r a t" by (rule in_span_keep [OF r(2)]) (use dom pred in auto)
    with r(1) show ?thesis by blast
  qed
qed (use assms(1) in \<open>auto simp: tiling_def\<close>)

text \<open>A tile can swallow the next one.\<close>

lemma tiling_merge:
  assumes "tiling Z S" "Z b = Some s" "Z (b + s) = Some t" "r \<in> S" "in_span Z r b s" "in_span Z r (b + s) t"
  defines "Z' \<equiv> Z(b \<mapsto> s + t, b + s := None)"
  shows "tiling Z' S"
  unfolding tiling_def
proof (intro conjI allI impI)
  note old = tiling_tile [OF assms(1)] and order = tiling_order [OF assms(1)]
  have b: "0 < b" "16 dvd b" "16 dvd s" "64 \<le> s" "16 dvd t" "64 \<le> t" using old [OF assms(2)] old [OF assms(3)] by auto
  have cases: "(a = b \<and> u = s + t) \<or> (a \<noteq> b \<and> a \<noteq> b + s \<and> Z a = Some u)" if "Z' a = Some u" for a u
    using that b(4) by (auto simp: Z'_def split: if_splits)
  fix a u
  assume a: "Z' a = Some u"
  show "0 < a" "16 dvd a" "16 dvd u" "64 \<le> u" using cases [OF a] old b by auto
  show "a + u \<le> c" if "Z' c = Some v" "a < c" for c v
  proof -
    have "c \<noteq> b + s" using cases [OF that(1)] b(4) by auto
    then show ?thesis
      using cases [OF a] cases [OF that(1)] order [OF assms(2), of c v] order [OF assms(3), of c v] order [of a u c v] order [of a u, OF _ assms(2)] that(2) b(4)
      by auto
  qed
  show "\<exists>r \<in> S. in_span Z' r a u"
  proof (cases "a = b")
    case True
    then have u: "u = s + t" using cases [OF a] by blast
    have "in_span Z' r b (s + t)"
    proof -
      have "\<exists>c v. Z' c = Some v \<and> fst r \<le> c \<and> c + v = b" if lt: "fst r < b"
      proof -
        obtain c v where c: "Z c = Some v" "fst r \<le> c" "c + v = b" using assms(5) lt by (auto simp: in_span_def)
        then have "0 < v" using old [OF c(1)] by linarith
        then have "Z' c = Some v" using c b(4) by (auto simp: Z'_def)
        with c show ?thesis by blast
      qed
      moreover have "b + (s + t) \<in> dom Z'" if "b + (s + t) < fst r + snd r"
      proof -
        have "b + s + t \<in> dom Z" using assms(6) that by (auto simp: in_span_def add.assoc)
        then show ?thesis using b(4,6) by (auto simp: Z'_def add.assoc)
      qed
      ultimately show ?thesis using assms(5,6) unfolding in_span_def by auto
    qed
    then show ?thesis using True u assms(4) by blast
  next
    case False
    then have z: "Z a = Some u" "a \<noteq> b + s" using cases [OF a] by auto
    then obtain q where q: "q \<in> S" "in_span Z q a u" using tiling_span [OF assms(1)] by blast
    have "a + u \<in> dom Z'" if "a + u < fst q + snd q"
    proof -
      have d: "a + u \<in> dom Z" using q(2) that by (auto simp: in_span_def)
      have "a + u \<noteq> b + s"
        using order [OF z(1) assms(2)] order [OF assms(2) z(1)] False b(4) old [OF z(1)] by linarith
      then show ?thesis using d by (auto simp: Z'_def)
    qed
    moreover have "\<exists>c v. Z' c = Some v \<and> fst q \<le> c \<and> c + v = a" if lt: "fst q < a"
    proof -
      obtain c v where c: "Z c = Some v" "fst q \<le> c" "c + v = a" using q(2) lt by (auto simp: in_span_def)
      show ?thesis
      proof (cases "c = b + s")
        case True
        then have "v = t" using c(1) assms(3) by simp
        moreover have "q = r"
        proof (rule tiling_span_unique [OF assms(1) q(1) assms(4)])
          show "b + s \<in> span_bytes r" using in_span_bytes [OF assms(6), of 0] b(6) by simp
          show "b + s \<in> span_bytes q" using True c q(2) old [OF z(1)] by (auto simp: span_bytes_def in_span_def)
        qed
        moreover have "Z' b = Some (s + t)" using b(4) by (simp add: Z'_def)
        moreover have "fst r \<le> b" using assms(5) by (simp add: in_span_def)
        ultimately show ?thesis using True c(3) by (metis add.assoc)
      next
        case ne: False
        have "c \<noteq> b" using c z(2) assms(2) by auto
        then have "Z' c = Some v" using ne c(1) by (simp add: Z'_def)
        then show ?thesis using c by blast
      qed
    qed
    ultimately have "in_span Z' q a u" using q(2) unfolding in_span_def by blast
    with q(1) show ?thesis by blast
  qed
qed (use assms(1) in \<open>auto simp: tiling_def\<close>)

text \<open>A new span is one tile.\<close>

lemma tiling_new:
  assumes "tiling Z S" "0 < st" "16 dvd st" "16 dvd len" "64 \<le> len" "\<forall>r \<in> S. span_bytes r \<inter> {st..<st + len} = {}"
  shows "tiling (Z(st \<mapsto> len)) (insert (st, len) S)"
  unfolding tiling_def
proof (intro conjI allI impI ballI)
  note old = tiling_tile [OF assms(1)] and order = tiling_order [OF assms(1)]
  have apart: "a + u \<le> st \<or> st + len \<le> a" if z: "Z a = Some u" for a u
  proof (rule ccontr)
    assume no: "\<not> ?thesis"
    obtain r where r: "r \<in> S" "in_span Z r a u" using tiling_span [OF assms(1) z] by blast
    have "max a st - a < u" using no old [OF z] by (auto simp: max_def)
    then have "a + (max a st - a) \<in> span_bytes r" by (rule in_span_bytes [OF r(2)])
    moreover have "a + (max a st - a) \<in> {st..<st + len}" using no assms(5) by (auto simp: max_def)
    ultimately show False using assms(6) r(1) by blast
  qed
  fix a u
  assume a: "(Z(st \<mapsto> len)) a = Some u"
  show "0 < a" "16 dvd a" "16 dvd u" "64 \<le> u" using a old assms(2-5) by (auto split: if_splits)
  show "a + u \<le> c" if "(Z(st \<mapsto> len)) c = Some v" "a < c" for c v
    using a that order [of a u c v] apart [of a u] apart [of c v] old [of c v] by (auto split: if_splits)
  show "\<exists>r \<in> insert (st, len) S. in_span (Z(st \<mapsto> len)) r a u"
  proof (cases "a = st")
    case True
    then have "in_span (Z(st \<mapsto> len)) (st, len) a u" using a by (simp add: in_span_def)
    then show ?thesis by blast
  next
    case False
    then have z: "Z a = Some u" using a by simp
    then obtain r where r: "r \<in> S" "in_span Z r a u" using tiling_span [OF assms(1)] by blast
    have "Z st = None"
    proof (rule ccontr)
      assume "Z st \<noteq> None"
      then obtain v where v: "Z st = Some v" by auto
      show False using apart [OF v] old [OF v] assms(5) by auto
    qed
    then have "(Z(st \<mapsto> len)) c = Some v" if "Z c = Some v" for c v using that by auto
    then have "in_span (Z(st \<mapsto> len)) r a u" by (rule in_span_mono [OF r(2)])
    with r(1) show ?thesis by blast
  qed
next
  fix r r'
  assume "r \<in> insert (st, len) S" "r' \<in> insert (st, len) S" "r \<noteq> r'"
  then show "span_bytes r \<inter> span_bytes r' = {}"
    using assms(1,6) unfolding tiling_def by (auto simp: span_bytes_def)
qed

section \<open>Headers, footers and links\<close>

text \<open>
  A block is free (and in the list), in use, or lost: merged into a neighbour that is in no list. The last word
  of a block holds its size, or leads back to a lost block.
\<close>

datatype tile_kind = TFree | TUsed | TDead

definition foot_ok :: "tiles \<Rightarrow> (nat \<Rightarrow> tile_kind) \<Rightarrow> words \<Rightarrow> nat \<Rightarrow> nat \<Rightarrow> bool" where
  "foot_ok Z K m a s \<longleftrightarrow> m (a + s - 8) = s \<or> (\<exists>c \<in> dom Z. K c = TDead \<and> c + m (a + s - 8) = a + s)"

definition mem_ok :: "tiles \<Rightarrow> (nat \<Rightarrow> tile_kind) \<Rightarrow> words \<Rightarrow> bool" where
  "mem_ok Z K m \<longleftrightarrow> (\<forall>a s. Z a = Some s \<longrightarrow>
     (K a \<noteq> TDead \<longrightarrow> m a = s) \<and> (m (a + 24) \<noteq> 0 \<longleftrightarrow> K a = TFree) \<and> foot_ok Z K m a s)"

text \<open>A segment of the list from \<open>c\<close>, behind \<open>p\<close>, to its last block \<open>q\<close>, before \<open>n\<close>.\<close>

fun dseg :: "words \<Rightarrow> nat \<Rightarrow> nat \<Rightarrow> nat list \<Rightarrow> nat \<Rightarrow> nat \<Rightarrow> bool" where
  "dseg m p c [] q n \<longleftrightarrow> c = n \<and> q = p"
| "dseg m p c (x # xs) q n \<longleftrightarrow> c = x \<and> m (x + 8) = p \<and> dseg m x (m (x + 16)) xs q n"

definition list_ok :: "tiles \<Rightarrow> (nat \<Rightarrow> tile_kind) \<Rightarrow> words \<Rightarrow> nat \<Rightarrow> bool" where
  "list_ok Z K m c \<longleftrightarrow> (\<exists>xs q. dseg m 0 c xs q 0 \<and> distinct xs \<and> set xs = {a \<in> dom Z. K a = TFree})"

lemma mem_okD:
  assumes "mem_ok Z K m" "Z a = Some s"
  shows "K a \<noteq> TDead \<Longrightarrow> m a = s" "m (a + 24) \<noteq> 0 \<longleftrightarrow> K a = TFree" "foot_ok Z K m a s"
  using assms unfolding mem_ok_def by blast+

lemma dseg_cong:
  "\<forall>x \<in> set xs. m' (x + 8) = m (x + 8) \<and> m' (x + 16) = m (x + 16) \<Longrightarrow> dseg m' p c xs q n = dseg m p c xs q n"
  by (induction xs arbitrary: p c) auto

lemma dseg_append: "dseg m p c (xs @ ys) q n \<longleftrightarrow> (\<exists>r d. dseg m p c xs r d \<and> dseg m r d ys q n)"
  by (induction xs arbitrary: p c) auto

lemma dseg_last: "dseg m p c xs q n \<Longrightarrow> q = (if xs = [] then p else last xs)"
  by (induction xs arbitrary: p c) auto

lemma dseg_head: "dseg m p c xs q n \<Longrightarrow> c = (if xs = [] then n else hd xs)"
  by (cases xs) auto

text \<open>The link out of the last block, and the link back from the first.\<close>

lemma dseg_relink_last:
  assumes "dseg m p c xs q n" "xs \<noteq> []" "distinct xs" "\<forall>x \<in> set xs. 16 dvd x"
  shows "dseg (m(q + 16 := e)) p c xs q e"
  using assms
proof (induction xs arbitrary: p c)
  case (Cons x xs)
  have ne: "q + 16 \<noteq> x + 8"
  proof
    assume "q + 16 = x + 8"
    moreover have "q \<in> set (x # xs)" using dseg_last [OF Cons.prems(1)] by auto
    then have "16 dvd q" "16 dvd x" using Cons.prems(4) by auto
    ultimately show False by presburger
  qed
  show ?case
  proof (cases "xs = []")
    case True
    then show ?thesis using Cons.prems(1) ne by auto
  next
    case False
    then have "q = last xs" using dseg_last [OF Cons.prems(1)] by simp
    then have "q \<noteq> x" using False Cons.prems(3) by auto
    then show ?thesis using Cons ne False by auto
  qed
qed simp

lemma dseg_relink_first:
  assumes "dseg m p c (x # xs) q n" "distinct (x # xs)" "\<forall>y \<in> set (x # xs). 16 dvd y"
  shows "dseg (m(x + 8 := r)) r c (x # xs) q n"
proof -
  have "\<forall>y \<in> set xs. y + 16 \<noteq> x + 8 \<and> y + 8 \<noteq> x + 8" "x + 16 \<noteq> x + 8"
  proof (intro ballI conjI)
    fix y assume y: "y \<in> set xs"
    then have "16 dvd y" "16 dvd x" "y \<noteq> x" using assms(2,3) by auto
    then show "y + 16 \<noteq> x + 8" "y + 8 \<noteq> x + 8" by presburger+
  qed simp
  then have "dseg (m(x + 8 := r)) x (m (x + 16)) xs q n = dseg m x (m (x + 16)) xs q n" by (intro dseg_cong) auto
  then show ?thesis using assms(1) by simp
qed

text \<open>Writing a cell that is no link of a tile.\<close>

lemma list_ok_cong:
  assumes "list_ok Z K m c" "\<forall>x \<in> dom Z. K x = TFree \<longrightarrow> m' (x + 8) = m (x + 8) \<and> m' (x + 16) = m (x + 16)"
    "{a \<in> dom Z'. K' a = TFree} = {a \<in> dom Z. K a = TFree}"
  shows "list_ok Z' K' m' c"
proof -
  obtain xs q where xs: "dseg m 0 c xs q 0" "distinct xs" "set xs = {a \<in> dom Z. K a = TFree}"
    using assms(1) by (auto simp: list_ok_def)
  then have "dseg m' 0 c xs q 0" using dseg_cong [of xs m' m] assms(2) by auto
  then show ?thesis using xs(2,3) assms(3) unfolding list_ok_def by metis
qed

lemma mem_ok_cong:
  assumes "mem_ok Z K m" "\<And>a s. Z a = Some s \<Longrightarrow> m' a = m a \<and> m' (a + 24) = m (a + 24) \<and> m' (a + s - 8) = m (a + s - 8)"
  shows "mem_ok Z K m'"
  using assms unfolding mem_ok_def foot_ok_def by simp

text \<open>Links and flags of tiles can change without touching anything else.\<close>

lemma tile_cells:
  assumes "tiling Z S" "Z a = Some s" "Z c = Some t" "a + i = c + j" "i < s" "j < t"
  shows "a = c \<and> i = j"
  using tile_apart [OF assms(1-3) _ assms(5,6)] assms(4) by (cases "a = c") auto

lemma cell_ne: "tiling Z S \<Longrightarrow> Z a = Some s \<Longrightarrow> Z c = Some t \<Longrightarrow> i < s \<Longrightarrow> j < t \<Longrightarrow> i = j \<longrightarrow> a \<noteq> c \<Longrightarrow> a + i \<noteq> c + j"
  using tile_cells by blast

lemma mem_ok_links:
  assumes "mem_ok Z K m" "tiling Z S" "\<And>x. m' x \<noteq> m x \<Longrightarrow> \<exists>c \<in> dom Z. x = c + 8 \<or> x = c + 16"
  shows "mem_ok Z K m'"
proof (rule mem_ok_cong [OF assms(1)])
  fix a s assume a: "Z a = Some s"
  then have s: "64 \<le> s" using tiling_tile [OF assms(2)] by blast
  have keep: "m' (a + i) = m (a + i)" if i: "i < s" "i \<noteq> 8" "i \<noteq> 16" for i
  proof (rule ccontr)
    assume "m' (a + i) \<noteq> m (a + i)"
    then obtain c t j where c: "Z c = Some t" "a + i = c + j" "j = 8 \<or> j = 16" using assms(3) by blast
    moreover from this have "j < t" using tiling_tile [OF assms(2) c(1)] by auto
    ultimately show False using tile_cells [OF assms(2) a c(1), of i j] i by auto
  qed
  show "m' a = m a \<and> m' (a + 24) = m (a + 24) \<and> m' (a + s - 8) = m (a + s - 8)"
    using keep [of 0] keep [of 24] keep [of "s - 8"] s by simp
qed

lemma mem_ok_flag:
  assumes "mem_ok Z K m" "tiling Z S" "Z b = Some s" "K b \<noteq> TDead" "k \<noteq> TDead" "v \<noteq> 0 \<longleftrightarrow> k = TFree"
  shows "mem_ok Z (K(b := k)) (m(b + 24 := v))"
  unfolding mem_ok_def
proof (intro allI impI)
  fix a t assume a: "Z a = Some t"
  have t: "64 \<le> t" "64 \<le> s" using tiling_tile [OF assms(2)] a assms(3) by blast+
  have ne: "a + i \<noteq> b + 24" if "i < t" "i \<noteq> 24" for i
    using tile_cells [OF assms(2) a assms(3), of i 24] that t(2) by auto
  have "a \<noteq> b + 24" "a + t - 8 \<noteq> b + 24" "a + 24 = b + 24 \<longleftrightarrow> a = b" using ne [of 0] ne [of "t - 8"] t(1) by auto
  moreover have "foot_ok Z (K(b := k)) m a t"
    using mem_okD(3) [OF assms(1) a] assms(4) unfolding foot_ok_def by (metis fun_upd_other)
  ultimately show "((K(b := k)) a \<noteq> TDead \<longrightarrow> (m(b + 24 := v)) a = t) \<and> ((m(b + 24 := v)) (a + 24) \<noteq> 0 \<longleftrightarrow> (K(b := k)) a = TFree)
      \<and> foot_ok Z (K(b := k)) (m(b + 24 := v)) a t"
    using mem_okD [OF assms(1) a] assms(4-6) by (auto simp: foot_ok_def)
qed

lemma list_okD:
  assumes "tiling Z S" "list_ok Z K m c"
  obtains xs q where "dseg m 0 c xs q 0" "distinct xs" "set xs = {a \<in> dom Z. K a = TFree}" "\<forall>x \<in> set xs. 16 dvd x \<and> 0 < x"
  using assms tiling_tile [OF assms(1)] unfolding list_ok_def by blast

lemma list_push_ok:
  assumes "tiling Z S" "mem_ok Z K (h_mem h)" "list_ok Z K (h_mem h) (h_head h)" "Z b = Some s" "K b = TUsed"
  shows "mem_ok Z (K(b := TFree)) (h_mem (list_push b h))" "list_ok Z (K(b := TFree)) (h_mem (list_push b h)) b"
proof -
  let ?m = "h_mem h" and ?c = "h_head h" and ?m' = "h_mem (list_push b h)"
  obtain xs q where xs: "dseg ?m 0 ?c xs q 0" "distinct xs" "set xs = {a \<in> dom Z. K a = TFree}" "\<forall>x \<in> set xs. 16 dvd x \<and> 0 < x"
    using list_okD [OF assms(1,3)] .
  have b: "16 dvd b" "0 < b" "b \<notin> set xs" using tiling_tile [OF assms(1,4)] xs(3) assms(5) by auto
  have hd: "?c = (if xs = [] then 0 else hd xs)" using dseg_head [OF xs(1)] .
  then have c: "?c \<noteq> 0 \<Longrightarrow> ?c \<in> dom Z" using xs(3) by (metis (no_types, lifting) hd_in_set mem_Collect_eq)
  have m': "?m' = (if ?c \<noteq> 0 then (?m(b + 24 := 1, b + 8 := 0, b + 16 := ?c))(?c + 8 := b) else ?m(b + 24 := 1, b + 8 := 0, b + 16 := ?c))"
    by (simp add: list_push_def Let_def)
  have "mem_ok Z (K(b := TFree)) (?m(b + 24 := 1))" by (rule mem_ok_flag [OF assms(2,1,4)]) (use assms(5) in auto)
  then show "mem_ok Z (K(b := TFree)) ?m'"
    by (rule mem_ok_links [OF _ assms(1)]) (use c assms(4) in \<open>auto simp: m' split: if_splits\<close>)
  have keep: "?m' (x + 16) = ?m (x + 16)" "x \<noteq> ?c \<Longrightarrow> ?m' (x + 8) = ?m (x + 8)" if "x \<in> set xs" for x
  proof -
    have x: "16 dvd x" "x \<noteq> b" using that xs(4) b(3) by auto
    have "16 dvd ?c" using hd xs(4) by (auto split: if_splits)
    then have "x + 16 \<noteq> b + 24" "x + 16 \<noteq> b + 8" "x + 16 \<noteq> ?c + 8" "x + 8 \<noteq> b + 16" using x(1) b(1) by presburger+
    moreover obtain t where t: "Z x = Some t" "24 < t" "24 < s" using \<open>x \<in> set xs\<close> xs(3) tiling_tile [OF assms(1)] assms(4) by fastforce
    then have "x + 8 \<noteq> b + 24" using tile_cells [OF assms(1) t(1) assms(4), of 8 24] by auto
    then show "?m' (x + 16) = ?m (x + 16)" "x \<noteq> ?c \<Longrightarrow> ?m' (x + 8) = ?m (x + 8)" using x(2) calculation by (auto simp: m')
  qed
  have "dseg ?m' b ?c xs q' 0" if "q' = (if xs = [] then b else q)" for q'
  proof (cases xs)
    case Nil
    then show ?thesis using hd that by simp
  next
    case (Cons y ys)
    then have y: "?c = y" "y \<noteq> 0" using hd xs(4) by auto
    have "?m' (y + 8) = b" "?m' (y + 16) = ?m (y + 16)" using y keep(1) [of y] Cons by (auto simp: m')
    moreover have "dseg ?m' y (?m (y + 16)) ys q 0 = dseg ?m y (?m (y + 16)) ys q 0"
      by (rule dseg_cong) (use Cons keep y xs(2) in auto)
    ultimately show ?thesis using xs(1) Cons y(1) that by simp
  qed
  moreover have "?m' (b + 8) = 0" "?m' (b + 16) = ?c"
  proof -
    have "16 dvd ?c" "?c \<noteq> 0 \<longrightarrow> ?c \<noteq> b" using hd xs(4) b(3) by (auto split: if_splits)
    then have "?c + 8 \<noteq> b + 16" "?c \<noteq> 0 \<longrightarrow> ?c + 8 \<noteq> b + 8" using b(1) by presburger+
    then show "?m' (b + 8) = 0" "?m' (b + 16) = ?c" by (auto simp: m')
  qed
  ultimately have "dseg ?m' 0 b (b # xs) (if xs = [] then b else q) 0" by simp
  moreover have "distinct (b # xs)" "set (b # xs) = {a \<in> dom Z. (K(b := TFree)) a = TFree}" using xs(2,3) b(3) assms(4) by auto
  ultimately show "list_ok Z (K(b := TFree)) ?m' b" unfolding list_ok_def by blast
qed

lemma tile_of:
  assumes "tiling Z S" "a \<in> dom Z"
  obtains t where "Z a = Some t" "24 < t"
proof -
  from assms(2) obtain t where t: "Z a = Some t" by blast
  with tiling_tile [OF assms(1) t] show thesis by (intro that) auto
qed

lemma link_apart: "16 dvd x \<Longrightarrow> 16 dvd y \<Longrightarrow> x + 8 \<noteq> y + (16 :: nat)" "16 dvd x \<Longrightarrow> 16 dvd y \<Longrightarrow> x + 16 \<noteq> y + (8 :: nat)"
  "16 dvd x \<Longrightarrow> 16 dvd y \<Longrightarrow> x + 16 \<noteq> y + (24 :: nat)"
  by presburger+

lemma flag_apart:
  assumes "tiling Z S" "Z x = Some s" "Z y = Some t"
  shows "x + 8 \<noteq> y + 24"
  using tile_cells [OF assms, of 8 24] tiling_tile [OF assms(1,2)] tiling_tile [OF assms(1,3)] by auto

text \<open>Unlinking a block from the middle of the list.\<close>

lemma dseg_unlink:
  assumes us: "dseg m p c us r b" and vs: "dseg m b n vs q 0" and "distinct (us @ vs)" "\<forall>x \<in> set (us @ vs). 16 dvd x \<and> 0 < x"
    and m': "\<And>x. x \<in> set (us @ vs) \<Longrightarrow> m' (x + 16) = (if us \<noteq> [] \<and> x = r then n else m (x + 16))"
      "\<And>x. x \<in> set (us @ vs) \<Longrightarrow> m' (x + 8) = (if vs \<noteq> [] \<and> x = n then r else m (x + 8))"
  shows "\<exists>q'. dseg m' p (if us = [] then n else c) (us @ vs) q' 0"
proof -
  have r: "r = (if us = [] then p else last us)" using dseg_last [OF us] .
  have n: "n = (if vs = [] then 0 else hd vs)" using dseg_head [OF vs] .
  have "dseg m' p (if us = [] then n else c) us r n"
  proof (cases "us = []")
    case True
    then show ?thesis using us by simp
  next
    case False
    have "dseg (m(r + 16 := n)) p c us r n" by (rule dseg_relink_last [OF us False]) (use assms(3,4) in auto)
    moreover have "n \<notin> set us" using n assms(3,4) by (auto split: if_splits)
    then have "dseg m' p c us r n = dseg (m(r + 16 := n)) p c us r n"
    proof (intro dseg_cong ballI conjI)
      fix x assume x: "x \<in> set us"
      have d: "16 dvd r" "16 dvd x" using x r False assms(4) by auto
      have "x \<noteq> n" using x \<open>n \<notin> set us\<close> by auto
      then show "m' (x + 8) = (m(r + 16 := n)) (x + 8)" "m' (x + 16) = (m(r + 16 := n)) (x + 16)"
        using x m' False link_apart(1) [OF d(2,1)] by auto
    qed
    ultimately show ?thesis using False by simp
  qed
  moreover have "\<exists>q'. dseg m' r n vs q' 0"
  proof (cases vs)
    case Nil
    then show ?thesis using n by simp
  next
    case (Cons v ws)
    have "n = v" using n Cons by simp
    have "dseg (m(v + 8 := r)) r n (v # ws) q 0"
      by (rule dseg_relink_first [where p = b]) (use vs Cons assms(3,4) in auto)
    moreover have "r \<notin> set vs" if "us \<noteq> []" using r that assms(3) by (metis disjoint_iff distinct_append last_in_set)
    then have "dseg m' r n vs q 0 = dseg (m(v + 8 := r)) r n vs q 0"
    proof (intro dseg_cong ballI conjI)
      fix x assume x: "x \<in> set vs"
      have d: "16 dvd v" "16 dvd x" using x Cons assms(4) by auto
      have "us \<noteq> [] \<longrightarrow> x \<noteq> r" using x \<open>us \<noteq> [] \<Longrightarrow> r \<notin> set vs\<close> by auto
      then show "m' (x + 8) = (m(v + 8 := r)) (x + 8)" "m' (x + 16) = (m(v + 8 := r)) (x + 16)"
        using x m' Cons \<open>n = v\<close> link_apart(2) [OF d(2,1)] by auto
    qed
    ultimately show ?thesis using Cons by auto
  qed
  ultimately show ?thesis unfolding dseg_append by blast
qed

lemma list_remove_ok:
  assumes "tiling Z S" "mem_ok Z K (h_mem h)" "list_ok Z K (h_mem h) (h_head h)" "Z b = Some s" "K b = TFree"
  defines "h' \<equiv> list_remove b h"
  shows "mem_ok Z (K(b := TUsed)) (h_mem h')" "list_ok Z (K(b := TUsed)) (h_mem h') (h_head h')"
    "\<And>a. a \<in> dom Z \<Longrightarrow> h_mem h' a = h_mem h a"
proof -
  let ?m = "h_mem h" and ?c = "h_head h" and ?m' = "h_mem h'"
  obtain xs q where xs: "dseg ?m 0 ?c xs q 0" "distinct xs" "set xs = {a \<in> dom Z. K a = TFree}" "\<forall>x \<in> set xs. 16 dvd x \<and> 0 < x"
    using list_okD [OF assms(1,3)] .
  have "b \<in> set xs" using xs(3) assms(4,5) by auto
  then obtain us vs where uv: "xs = us @ b # vs" by (meson split_list)
  then obtain r where seg: "dseg ?m 0 ?c us r b" "?m (b + 8) = r" "dseg ?m b (?m (b + 16)) vs q 0" using xs(1) by (auto simp: dseg_append)
  define n where "n = ?m (b + 16)"
  have r: "r = (if us = [] then 0 else last us)" using dseg_last [OF seg(1)] .
  have n: "n = (if vs = [] then 0 else hd vs)" using dseg_head [OF seg(3)] by (simp add: n_def)
  have inr: "r \<noteq> 0 \<longleftrightarrow> us \<noteq> []" "us \<noteq> [] \<Longrightarrow> r \<in> set us" using r xs(4) uv by auto
  have inn: "n \<noteq> 0 \<longleftrightarrow> vs \<noteq> []" "vs \<noteq> [] \<Longrightarrow> n \<in> set vs" using n xs(4) uv by auto
  have dist: "distinct (us @ vs)" "b \<notin> set (us @ vs)" using xs(2) uv by auto
  have mem: "set (us @ vs) \<subseteq> dom Z" using xs(3) uv by auto
  have d: "16 dvd b" "\<forall>x \<in> set (us @ vs). 16 dvd x \<and> 0 < x" using xs(4) uv by auto
  have s24: "24 < s" using tiling_tile [OF assms(1,4)] by auto
  have b24: "x + 8 \<noteq> b + 24" if "x \<in> dom Z" for x using flag_apart [OF assms(1) _ assms(4)] that by auto
  let ?base = "?m(b + 24 := 0)"
  let ?bwd = "if r \<noteq> 0 then ?base(r + 16 := n) else ?base"
  let ?both = "if n \<noteq> 0 then ?bwd(n + 8 := r) else ?bwd"
  have m': "?m' = ?both(b + 8 := 0, b + 16 := 0)"
    unfolding h'_def by (simp add: list_remove_def Let_def seg(2) n_def)
  have hd: "h_head h' = (if us = [] then n else ?c)"
  proof -
    have "?c = b \<longleftrightarrow> us = []" using dseg_head [OF seg(1)] dist(2) by (cases us) auto
    then show ?thesis unfolding h'_def by (simp add: list_remove_def Let_def n_def)
  qed
  have "mem_ok Z (K(b := TUsed)) ?base" by (rule mem_ok_flag [OF assms(2,1,4)]) (use assms(5) in auto)
  then show "mem_ok Z (K(b := TUsed)) ?m'"
  proof (rule mem_ok_links [OF _ assms(1)])
    fix x assume "?m' x \<noteq> ?base x"
    then have "x = b + 8 \<or> x = b + 16 \<or> (r \<noteq> 0 \<and> x = r + 16) \<or> (n \<noteq> 0 \<and> x = n + 8)"
      by (auto simp: m' split: if_splits)
    moreover have "b \<in> dom Z" "r \<noteq> 0 \<Longrightarrow> r \<in> dom Z" "n \<noteq> 0 \<Longrightarrow> n \<in> dom Z" using inr inn mem assms(4) by auto
    ultimately show "\<exists>c \<in> dom Z. x = c + 8 \<or> x = c + 16" by blast
  qed
  show "?m' a = ?m a" if ad: "a \<in> dom Z" for a
  proof -
    obtain t where t: "Z a = Some t" "24 < t" by (rule tile_of [OF assms(1) ad])
    have off: "a \<noteq> c + i" if cd: "c \<in> dom Z" and i: "0 < i" "i \<le> 24" for c i
    proof -
      obtain u where u: "Z c = Some u" "24 < u" by (rule tile_of [OF assms(1) cd])
      then show ?thesis using tile_cells [OF assms(1) t(1) u(1), of 0 i] i t(2) by auto
    qed
    have "b \<in> dom Z" using assms(4) by auto
    moreover have "r \<noteq> 0 \<Longrightarrow> r \<in> dom Z" "n \<noteq> 0 \<Longrightarrow> n \<in> dom Z" using inr inn mem by auto
    ultimately show ?thesis using off [of b 8] off [of b 16] off [of b 24] off [of r 16] off [of n 8] by (auto simp: m')
  qed
  have "\<exists>q'. dseg ?m' 0 (if us = [] then n else ?c) (us @ vs) q' 0"
  proof (rule dseg_unlink [OF seg(1), of n vs q ?m', OF _ dist(1) d(2)])
    show "dseg ?m b n vs q 0" using seg(3) by (simp add: n_def)
  next
    fix x assume x: "x \<in> set (us @ vs)"
    then have dx: "16 dvd x" "x \<noteq> b" "x \<in> dom Z" using d(2) dist(2) mem by auto
    have dr: "16 dvd r" "16 dvd n" using r n d(2) by (auto split: if_splits)
    show "?m' (x + 16) = (if us \<noteq> [] \<and> x = r then n else ?m (x + 16))"
      using dx link_apart(2) [OF dx(1) d(1)] link_apart(2) [OF dx(1) dr(2)] link_apart(3) [OF dx(1) d(1)] inr(1) by (auto simp: m')
    show "?m' (x + 8) = (if vs \<noteq> [] \<and> x = n then r else ?m (x + 8))"
      using dx link_apart(1) [OF dx(1) d(1)] link_apart(1) [OF dx(1) dr(1)] b24 [OF dx(3)] inn(1) by (auto simp: m')
  qed
  moreover have "set (us @ vs) = {a \<in> dom Z. (K(b := TUsed)) a = TFree}"
  proof -
    have "set (us @ vs) = set xs - {b}" using uv dist(2) by auto
    then show ?thesis using xs(3) by auto
  qed
  ultimately show "list_ok Z (K(b := TUsed)) ?m' (h_head h')" unfolding list_ok_def hd using dist(1) by blast
qed

section \<open>The invariant and the steps of the operations\<close>

text \<open>\<open>own\<close> are the bytes of the pages the heap has been given.\<close>

definition heap_inv :: "nat set \<Rightarrow> tiles \<Rightarrow> (nat \<Rightarrow> tile_kind) \<Rightarrow> (nat \<times> nat) set \<Rightarrow> 'v heap \<Rightarrow> bool" where
  "heap_inv own Z K S h \<longleftrightarrow> tiling Z S \<and> mem_ok Z K (h_mem h) \<and> list_ok Z K (h_mem h) (h_head h) \<and> set (h_regions h) \<subseteq> S
     \<and> (\<forall>r \<in> S. span_bytes r \<subseteq> own \<and> fst r + snd r < 2 ^ 64)"

lemma list_push_regions [simp]: "h_regions (list_push b h) = h_regions h" "h_head (list_push b h) = b" "h_pages (list_push b h) = h_pages h"
  "h_regions (list_remove b h) = h_regions h" "h_pages (list_remove b h) = h_pages h"
  by (simp_all add: list_push_def list_remove_def Let_def)

lemma push_inv:
  assumes "heap_inv own Z K S h" "Z b = Some s" "K b = TUsed"
  shows "heap_inv own Z (K(b := TFree)) S (list_push b h)"
  using assms list_push_ok [of Z S K h b s] by (simp add: heap_inv_def)

lemma remove_inv:
  assumes "heap_inv own Z K S h" "Z b = Some s" "K b = TFree"
  shows "heap_inv own Z (K(b := TUsed)) S (list_remove b h)" "\<And>a. a \<in> dom Z \<Longrightarrow> h_mem (list_remove b h) a = h_mem h a"
  using assms list_remove_ok [of Z S K h b s] by (simp_all add: heap_inv_def)

text \<open>Pushing overwrites the links and the flag, and commutes with writes elsewhere.\<close>

lemma list_push_absorb:
  assumes "\<And>x. x \<notin> {b + 8, b + 16, b + 24} \<Longrightarrow> m x = m' x"
  shows "list_push b (h\<lparr>h_mem := m\<rparr>) = list_push b (h\<lparr>h_mem := m'\<rparr>)"
proof -
  have "m(b + 24 := u, b + 8 := v, b + 16 := w) = m'(b + 24 := u, b + 8 := v, b + 16 := w)" for u v w
    using assms by (auto simp: fun_eq_iff)
  then show ?thesis by (simp add: list_push_def Let_def)
qed

lemma list_push_write:
  assumes "x \<notin> {b + 8, b + 16, b + 24, h_head h + 8}"
  shows "(list_push b h)\<lparr>h_mem := (h_mem (list_push b h))(x := v)\<rparr> = list_push b (h\<lparr>h_mem := (h_mem h)(x := v)\<rparr>)"
  using assms by (simp add: list_push_def Let_def fun_upd_twist)

text \<open>A block in use is cut in two.\<close>

lemma cut_inv:
  assumes "heap_inv own Z K S h" "Z b = Some s" "K b = TUsed" "16 dvd n" "64 \<le> n" "n + 64 \<le> s"
    and out: "\<And>x. x \<notin> {b..<b + s} \<Longrightarrow> m x = h_mem h x"
    and new: "m b = n" "m (b + 24) = 0" "m (b + n - 8) = n" "m (b + n) = s - n" "m (b + n + 24) = 0" "m (b + s - 8) = s - n"
  shows "heap_inv own (Z(b \<mapsto> n, b + n \<mapsto> s - n)) (K(b + n := TUsed)) S (h\<lparr>h_mem := m\<rparr>)"
proof -
  let ?Z = "Z(b \<mapsto> n, b + n \<mapsto> s - n)" and ?K = "K(b + n := TUsed)"
  have til: "tiling Z S" and ok: "mem_ok Z K (h_mem h)" "list_ok Z K (h_mem h) (h_head h)" using assms(1) by (auto simp: heap_inv_def)
  have til': "tiling ?Z S" by (rule tiling_split [OF til assms(2,4,5,6)])
  have none: "Z (b + n) = None" using tile_inner_free [OF til assms(2), of n] assms(5,6) by simp
  have same: "m (a + i) = h_mem h (a + i)" if "Z a = Some t" "a \<noteq> b" "i < t" for a t i
  proof (rule out)
    show "a + i \<notin> {b..<b + s}" using tiling_order [OF til that(1) assms(2)] tiling_order [OF til assms(2) that(1)] that
      by (cases a b rule: linorder_cases) auto
  qed
  have "mem_ok ?Z ?K m" unfolding mem_ok_def
  proof (intro allI impI)
    fix a t assume a: "?Z a = Some t"
    consider "a = b" "t = n" | "a = b + n" "t = s - n" | "a \<noteq> b" "a \<noteq> b + n" "Z a = Some t" using a by (auto split: if_splits)
    then show "(?K a \<noteq> TDead \<longrightarrow> m a = t) \<and> (m (a + 24) \<noteq> 0 \<longleftrightarrow> ?K a = TFree) \<and> foot_ok ?Z ?K m a t"
    proof cases
      case 1
      then show ?thesis using new assms(3,5) by (simp add: foot_ok_def)
    next
      case 2
      have "b + n + (s - n) - 8 = b + s - 8" using assms(6) by simp
      then show ?thesis using 2 new by (simp add: foot_ok_def)
    next
      case 3
      have t: "64 \<le> t" using tiling_tile [OF til 3(3)] by blast
      have "foot_ok ?Z ?K m a t"
      proof -
        have "m (a + t - 8) = h_mem h (a + t - 8)" using same [OF 3(3,1), of "t - 8"] t by simp
        moreover have "c \<in> dom ?Z \<and> ?K c = TDead" if "c \<in> dom Z" "K c = TDead" for c using that none assms(3) by auto
        ultimately show ?thesis using mem_okD(3) [OF ok(1) 3(3)] unfolding foot_ok_def by metis
      qed
      then show ?thesis using 3 t mem_okD [OF ok(1) 3(3)] same [OF 3(3,1), of 0] same [OF 3(3,1), of 24] by simp
    qed
  qed
  moreover have "list_ok ?Z ?K m (h_head h)"
  proof (rule list_ok_cong [OF ok(2)])
    show "\<forall>x \<in> dom Z. K x = TFree \<longrightarrow> m (x + 8) = h_mem h (x + 8) \<and> m (x + 16) = h_mem h (x + 16)"
    proof (intro ballI impI)
      fix x assume x: "x \<in> dom Z" "K x = TFree"
      obtain t where t: "Z x = Some t" "24 < t" using tile_of [OF til x(1)] .
      have "x \<noteq> b" using x(2) assms(3) by auto
      then show "m (x + 8) = h_mem h (x + 8) \<and> m (x + 16) = h_mem h (x + 16)" using same [OF t(1)] t(2) by simp
    qed
    show "{a \<in> dom ?Z. ?K a = TFree} = {a \<in> dom Z. K a = TFree}" using none assms(2,3) by auto
  qed
  ultimately show ?thesis using til' assms(1) by (simp add: heap_inv_def)
qed

text \<open>A free block swallows the next one, which was just taken from the list.\<close>

lemma merge_inv:
  assumes "heap_inv own Z K S h" "Z b = Some s" "K b = TFree" "Z (b + s) = Some t" "K (b + s) = TUsed"
    and "r \<in> S" "in_span Z r b s" "in_span Z r (b + s) t"
  shows "heap_inv own (Z(b \<mapsto> s + t, b + s := None)) K S (h\<lparr>h_mem := (h_mem h)(b := s + t, b + s + t - 8 := s + t)\<rparr>)"
proof -
  let ?Z = "Z(b \<mapsto> s + t, b + s := None)" and ?m = "(h_mem h)(b := s + t, b + s + t - 8 := s + t)"
  have til: "tiling Z S" and ok: "mem_ok Z K (h_mem h)" "list_ok Z K (h_mem h) (h_head h)" using assms(1) by (auto simp: heap_inv_def)
  have st: "64 \<le> s" "64 \<le> t" "b + s + t - 8 = b + s + (t - 8)" using tiling_tile [OF til assms(2)] tiling_tile [OF til assms(4)] by auto
  have same: "?m (a + i) = h_mem h (a + i)" if "Z a = Some u" "i < u" "i = 0 \<longrightarrow> a \<noteq> b" "i = t - 8 \<longrightarrow> a \<noteq> b + s" for a u i
  proof -
    have "a + i \<noteq> b + 0" by (rule cell_ne [OF til that(1) assms(2) that(2)]) (use that(3) st(1) in auto)
    moreover have "a + i \<noteq> b + s + (t - 8)" by (rule cell_ne [OF til that(1) assms(4) that(2)]) (use that(4) st(2) in auto)
    ultimately show ?thesis unfolding st(3) by simp
  qed
  have "mem_ok ?Z K ?m" unfolding mem_ok_def
  proof (intro allI impI)
    fix a u assume a: "?Z a = Some u"
    consider "a = b" "u = s + t" | "a \<noteq> b" "a \<noteq> b + s" "Z a = Some u" using a st(1) by (auto split: if_splits)
    then show "(K a \<noteq> TDead \<longrightarrow> ?m a = u) \<and> (?m (a + 24) \<noteq> 0 \<longleftrightarrow> K a = TFree) \<and> foot_ok ?Z K ?m a u"
    proof cases
      case 1
      have "?m (b + 24) = h_mem h (b + 24)" by (rule same [OF assms(2)]) (use st(1,2) in auto)
      moreover have "?m b = s + t" "?m (b + (s + t) - 8) = s + t" using st(1,2) by (simp_all add: add.assoc)
      ultimately show ?thesis using 1 assms(3) mem_okD(2) [OF ok(1) assms(2)] by (simp only: foot_ok_def) simp
    next
      case 2
      have u: "64 \<le> u" using tiling_tile [OF til 2(3)] by blast
      have "?m (a + u - 8) = h_mem h (a + u - 8)" using same [OF 2(3), of "u - 8"] u 2 by simp
      moreover have "c \<in> dom ?Z" if "c \<in> dom Z" "K c = TDead" for c using that assms(5) by auto
      ultimately have "foot_ok ?Z K ?m a u" using mem_okD(3) [OF ok(1) 2(3)] unfolding foot_ok_def by metis
      then show ?thesis using 2 u mem_okD [OF ok(1) 2(3)] same [OF 2(3), of 0] same [OF 2(3), of 24] by simp
    qed
  qed
  moreover have "list_ok ?Z K ?m (h_head h)"
  proof (rule list_ok_cong [OF ok(2)])
    show "\<forall>x \<in> dom Z. K x = TFree \<longrightarrow> ?m (x + 8) = h_mem h (x + 8) \<and> ?m (x + 16) = h_mem h (x + 16)"
    proof (intro ballI impI)
      fix x assume x: "x \<in> dom Z" "K x = TFree"
      obtain u where u: "Z x = Some u" "24 < u" using tile_of [OF til x(1)] .
      have "x \<noteq> b + s" using x(2) assms(5) by auto
      then show "?m (x + 8) = h_mem h (x + 8) \<and> ?m (x + 16) = h_mem h (x + 16)" using same [OF u(1), of 8] same [OF u(1), of 16] u(2) by auto
    qed
    show "{a \<in> dom ?Z. K a = TFree} = {a \<in> dom Z. K a = TFree}" using assms(2,5) by auto
  qed
  ultimately show ?thesis using tiling_merge [OF til assms(2,4,6-8)] assms(1) by (simp add: heap_inv_def)
qed

text \<open>A block that is not free is lost: its size, and the last word of a later block, lead over both.\<close>

lemma lose_inv:
  assumes "heap_inv own Z K S h" "Z p = Some t" "K p \<noteq> TFree" "Z e = Some u" "p + v = e + u"
  shows "heap_inv own Z (K(p := TDead)) S (h\<lparr>h_mem := (h_mem h)(p := v, e + u - 8 := v)\<rparr>)"
proof -
  let ?K = "K(p := TDead)" and ?m = "(h_mem h)(p := v, e + u - 8 := v)"
  have til: "tiling Z S" and ok: "mem_ok Z K (h_mem h)" "list_ok Z K (h_mem h) (h_head h)" using assms(1) by (auto simp: heap_inv_def)
  have tu: "64 \<le> t" "64 \<le> u" "e + u - 8 = e + (u - 8)" using tiling_tile [OF til assms(2)] tiling_tile [OF til assms(4)] by auto
  have same: "?m (a + i) = h_mem h (a + i)" if "Z a = Some w" "i < w" "i = 0 \<longrightarrow> a \<noteq> p" "i = u - 8 \<longrightarrow> a \<noteq> e" for a w i
  proof -
    have "a + i \<noteq> p + 0" by (rule cell_ne [OF til that(1) assms(2) that(2)]) (use that(3) tu(1) in auto)
    moreover have "a + i \<noteq> e + (u - 8)" by (rule cell_ne [OF til that(1) assms(4) that(2)]) (use that(4) tu(2) in auto)
    ultimately show ?thesis unfolding tu(3) by simp
  qed
  have "mem_ok Z ?K ?m" unfolding mem_ok_def
  proof (intro allI impI)
    fix a w assume a: "Z a = Some w"
    have w: "64 \<le> w" using tiling_tile [OF til a] by blast
    have "?m (a + 24) = h_mem h (a + 24)" by (rule same [OF a]) (use w tu(2) in auto)
    moreover have "?m a = w" if "a \<noteq> p" "K a \<noteq> TDead"
    proof -
      have "?m (a + 0) = h_mem h (a + 0)" by (rule same [OF a]) (use that w tu(2) in auto)
      then show ?thesis using mem_okD(1) [OF ok(1) a that(2)] by (simp only: add_0_right)
    qed
    moreover have "foot_ok Z ?K ?m a w"
    proof (cases "a = e")
      case True
      then have "w = u" using a assms(4) by simp
      then have "p \<in> dom Z" "?K p = TDead" "p + ?m (a + w - 8) = a + w" using True assms(2,5) by auto
      then show ?thesis unfolding foot_ok_def by blast
    next
      case False
      then have "?m (a + w - 8) = h_mem h (a + w - 8)" using same [OF a, of "w - 8"] w by simp
      moreover have "?K c = TDead" if "K c = TDead" for c using that by simp
      ultimately show ?thesis using mem_okD(3) [OF ok(1) a] unfolding foot_ok_def by metis
    qed
    ultimately show "(?K a \<noteq> TDead \<longrightarrow> ?m a = w) \<and> (?m (a + 24) \<noteq> 0 \<longleftrightarrow> ?K a = TFree) \<and> foot_ok Z ?K ?m a w"
      using mem_okD(2) [OF ok(1) a] assms(3) by (cases "a = p") simp_all
  qed
  moreover have "list_ok Z ?K ?m (h_head h)"
  proof (rule list_ok_cong [OF ok(2)])
    show "\<forall>x \<in> dom Z. K x = TFree \<longrightarrow> ?m (x + 8) = h_mem h (x + 8) \<and> ?m (x + 16) = h_mem h (x + 16)"
    proof (intro ballI impI)
      fix x assume x: "x \<in> dom Z" "K x = TFree"
      obtain w where w: "Z x = Some w" "24 < w" using tile_of [OF til x(1)] .
      show "?m (x + 8) = h_mem h (x + 8) \<and> ?m (x + 16) = h_mem h (x + 16)"
        by (intro conjI same [OF w(1)]) (use w(2) tu(2) in auto)
    qed
    show "{a \<in> dom Z. ?K a = TFree} = {a \<in> dom Z. K a = TFree}" using assms(3) by auto
  qed
  ultimately show ?thesis using til assms(1) by (simp add: heap_inv_def)
qed

text \<open>A new span becomes one free block.\<close>

lemma add_span_inv:
  assumes "heap_inv own Z K S h" "0 < st" "16 dvd st" "16 dvd len" "64 \<le> len" "st + len < 2 ^ 64"
    and "own \<inter> {st..<st + len} = {}" "own \<union> {st..<st + len} \<subseteq> own'"
  shows "heap_inv own' (Z(st \<mapsto> len)) (K(st := TFree)) (insert (st, len) S) (add_span st len h)"
proof -
  let ?Z = "Z(st \<mapsto> len)" and ?K = "K(st := TUsed)" and ?S = "insert (st, len) S"
  let ?n = "(h_mem h)(st := len, st + 24 := 0, st + len - 8 := len)"
  have til: "tiling Z S" and ok: "mem_ok Z K (h_mem h)" "list_ok Z K (h_mem h) (h_head h)"
    and reg: "set (h_regions h) \<subseteq> S" and S: "\<forall>r \<in> S. span_bytes r \<subseteq> own \<and> fst r + snd r < 2 ^ 64"
    using assms(1) by (auto simp: heap_inv_def)
  have til': "tiling ?Z ?S" by (rule tiling_new [OF til assms(2-5)]) (use S assms(7) in blast)
  have apart: "a + i \<notin> {st..<st + len}" if a: "Z a = Some t" and i: "i < t" for a t i
  proof -
    obtain r where r: "r \<in> S" "in_span Z r a t" using tiling_span [OF til a] by blast
    then have "a + i \<in> own" using in_span_bytes [OF r(2) i] S by blast
    then show ?thesis using assms(7) by blast
  qed
  have none: "Z st = None" using apart [of st _ 0] tiling_tile [OF til, of st] assms(5) by (cases "Z st") auto
  have same: "?n (a + i) = h_mem h (a + i)" if "Z a = Some t" "i < t" for a t i using apart [OF that] assms(5) by auto
  have "mem_ok ?Z ?K ?n" unfolding mem_ok_def
  proof (intro allI impI)
    fix a t assume a: "?Z a = Some t"
    show "(?K a \<noteq> TDead \<longrightarrow> ?n a = t) \<and> (?n (a + 24) \<noteq> 0 \<longleftrightarrow> ?K a = TFree) \<and> foot_ok ?Z ?K ?n a t"
    proof (cases "a = st")
      case True
      then show ?thesis using a assms(5) by (auto simp: foot_ok_def)
    next
      case False
      then have z: "Z a = Some t" using a by simp
      have t: "64 \<le> t" using tiling_tile [OF til z] by blast
      have "?n (a + t - 8) = h_mem h (a + t - 8)" using same [OF z, of "t - 8"] t by simp
      moreover have "c \<in> dom ?Z \<and> ?K c = TDead" if "c \<in> dom Z" "K c = TDead" for c using that none by auto
      ultimately have "foot_ok ?Z ?K ?n a t" using mem_okD(3) [OF ok(1) z] unfolding foot_ok_def by metis
      then show ?thesis using False t mem_okD [OF ok(1) z] same [OF z, of 0] same [OF z, of 24] by simp
    qed
  qed
  moreover have "list_ok ?Z ?K ?n (h_head h)"
  proof (rule list_ok_cong [OF ok(2)])
    show "\<forall>x \<in> dom Z. K x = TFree \<longrightarrow> ?n (x + 8) = h_mem h (x + 8) \<and> ?n (x + 16) = h_mem h (x + 16)"
    proof (intro ballI impI)
      fix x assume x: "x \<in> dom Z"
      then obtain t where t: "Z x = Some t" "24 < t" using tile_of [OF til] by blast
      then show "?n (x + 8) = h_mem h (x + 8) \<and> ?n (x + 16) = h_mem h (x + 16)" using same [OF t(1), of 8] same [OF t(1), of 16] by auto
    qed
    show "{a \<in> dom ?Z. ?K a = TFree} = {a \<in> dom Z. K a = TFree}" using none by auto
  qed
  ultimately have "heap_inv own' ?Z ?K ?S (h\<lparr>h_mem := ?n\<rparr>)"
    using til' reg S assms(6,8) by (auto simp: heap_inv_def span_bytes_def)
  from push_inv [OF this, of st len] have p: "heap_inv own' ?Z (K(st := TFree)) ?S (list_push st (h\<lparr>h_mem := ?n\<rparr>))" by simp
  have "list_push st (h\<lparr>h_mem := set_footer st ((h_mem h)(st := len, st + 24 := 1, st + 8 := 0, st + 16 := 0))\<rparr>) = list_push st (h\<lparr>h_mem := ?n\<rparr>)"
    by (rule list_push_absorb) (use assms(5) in \<open>auto simp: set_footer_def heap_consts\<close>)
  then have "add_span st len h = (list_push st (h\<lparr>h_mem := ?n\<rparr>))\<lparr>h_regions := (if length (h_regions h) < 32 then h_regions h @ [(st, len)] else h_regions h)\<rparr>"
    using assms(5) by (simp add: add_span_def heap_consts)
  then show ?thesis using p reg by (auto simp: heap_inv_def)
qed

end
