(* ===== verification/Kheap_Safety.thy ===== *)
theory Kheap_Safety
  imports Kheap
begin

text \<open>
  The kernel heap over any source of pages: allocation and release keep the tiling, and from it that live
  allocations never overlap. Instantiated with the page arena.
\<close>

section \<open>The search\<close>

text \<open>What makes a block fit: the bytes that alignment skips, and the size.\<close>

definition fits :: "words \<Rightarrow> nat \<Rightarrow> nat \<Rightarrow> nat \<Rightarrow> bool" where
  "fits m need al b \<longleftrightarrow> (\<exists>y. heap_align_up (b + 32) al = Some y \<and> b + 32 \<le> y \<and> al dvd y \<and> need + (y - (b + 32)) \<le> m b
     \<and> (y = b + 32 \<or> 64 \<le> y - (b + 32)))"

lemma find_fit_ok:
  assumes "dseg m p c xs q 0" "\<forall>x \<in> set xs. 0 < x \<and> x + 32 + al < 2 ^ 64" "al = 2 ^ k" "16 \<le> al" "need + al < 2 ^ 64"
  shows "\<exists>r. find_fit m need al c = Some r \<and> (if r = 0 then \<forall>x \<in> set xs. \<not> fits m need al x else r \<in> set xs \<and> fits m need al r)"
  using assms(1,2)
proof (induction xs arbitrary: p c)
  case Nil
  then show ?case by (simp add: find_fit.simps)
next
  case (Cons x xs)
  have x: "c = x" "0 < x" "x + 32 + al < 2 ^ 64" using Cons.prems by auto
  obtain y where y: "heap_align_up (x + 32) al = Some y" "x + 32 \<le> y" "y < x + 32 + al" "al dvd y"
    using heap_align_up_ok [OF assms(3) x(3)] .
  have mx: "max al HEAP_ALIGN = al" using assms(4) by (simp add: heap_consts)
  define lead where "lead = y - (x + 32)"
  have lead: "usub y (x + 32) = Some lead" "uadd need lead = Some (need + lead)"
    using y(2,3) assms(5) by (simp_all add: usub_def uadd_def lead_def)
  have fit: "fits m need al x \<longleftrightarrow> m x \<ge> need + lead \<and> fits_with_optional_lead (m x) need lead"
    using y by (auto simp: fits_def fits_with_optional_lead_def heap_consts lead_def)
  have step: "find_fit m need al c = (if fits m need al x then Some x else find_fit m need al (m (x + 16)))"
    unfolding fit using x(1,2) y(1) mx lead by (subst find_fit.simps) (simp add: payload_ptr_def HEADER_SIZE_def)
  show ?case
  proof (cases "fits m need al x")
    case True
    then show ?thesis using step x(2) by auto
  next
    case False
    obtain r where "find_fit m need al (m (x + 16)) = Some r"
      "if r = 0 then \<forall>x \<in> set xs. \<not> fits m need al x else r \<in> set xs \<and> fits m need al r"
      using Cons.IH [of x "m (x + 16)"] Cons.prems by auto
    then show ?thesis using step False by (auto split: if_splits)
  qed
qed

text \<open>In a heap: the result is a free block that fits, or null when none does.\<close>

lemma find_fit_heap:
  assumes "heap_inv own Z K S h" "al = 2 ^ k" "16 \<le> al" "need + al < 2 ^ 64" "\<forall>x \<in> own. x + 32 + al < 2 ^ 64"
  shows "\<exists>r. find_fit (h_mem h) need al (h_head h) = Some r
    \<and> (if r = 0 then \<forall>x \<in> dom Z. K x = TFree \<longrightarrow> \<not> fits (h_mem h) need al x
       else r \<in> dom Z \<and> K r = TFree \<and> fits (h_mem h) need al r)"
proof -
  have til: "tiling Z S" and lst: "list_ok Z K (h_mem h) (h_head h)" and S: "\<forall>r \<in> S. span_bytes r \<subseteq> own"
    using assms(1) by (auto simp: heap_inv_def)
  obtain xs q where xs: "dseg (h_mem h) 0 (h_head h) xs q 0" "set xs = {a \<in> dom Z. K a = TFree}" "\<forall>x \<in> set xs. 16 dvd x \<and> 0 < x"
    using list_okD [OF til lst] .
  have "x + 32 + al < 2 ^ 64" if xd: "x \<in> dom Z" for x
  proof -
    obtain t where t: "Z x = Some t" using xd by blast
    obtain r where r: "r \<in> S" "in_span Z r x t" using tiling_span [OF til t] by blast
    then have "x \<in> own" using in_span_bytes [OF r(2), of 0] tiling_tile [OF til t] S by auto
    then show ?thesis using assms(5) by blast
  qed
  then have "\<forall>x \<in> set xs. 0 < x \<and> x + 32 + al < 2 ^ 64" using xs(2,3) by auto
  from find_fit_ok [OF xs(1) this assms(2-4)] show ?thesis unfolding xs(2) by fastforce
qed

section \<open>Taking a block\<close>

text \<open>The part of \<open>heap_alloc\<close> that carves the allocation out of a block.\<close>

definition carve :: "nat \<Rightarrow> nat \<Rightarrow> nat \<Rightarrow> 'v heap \<Rightarrow> (nat \<times> 'v heap) option" where
  "carve need al blk h = (let h = list_remove blk h in do {
     aligned_payload \<leftarrow> heap_align_up (payload_ptr blk) al;
     lead \<leftarrow> usub aligned_payload (payload_ptr blk);
     (use_ptr, absorbed, h) \<leftarrow> split_lead blk lead h;
     total \<leftarrow> uadd need absorbed;
     alloc_size \<leftarrow> heap_align_up total HEAP_ALIGN;
     h \<leftarrow> split_tail use_ptr alloc_size h;
     Some (payload_ptr use_ptr, h)
   })"

lemma heap_alloc_carve:
  "heap_alloc pg n al h = do {
     ps \<leftarrow> heap_align_up (max n MIN_PAYLOAD) HEAP_ALIGN;
     need \<leftarrow> uadd (HEADER_SIZE + FOOTER_SIZE) ps;
     (blk, h) \<leftarrow> find_block pg need (max al HEAP_ALIGN) h;
     if blk = 0 then Some (0, h) else carve need (max al HEAP_ALIGN) blk h
   }"
  unfolding heap_alloc_def carve_def Let_def by (rule refl)

text \<open>The first block of the list is not written when the cells are those of a block in use.\<close>

lemma head_apart:
  assumes "heap_inv own Z K S h" "Z b = Some s" "K b \<noteq> TFree" "i < s"
  shows "b + i \<noteq> h_head h + 8"
proof -
  have til: "tiling Z S" and lst: "list_ok Z K (h_mem h) (h_head h)" using assms(1) by (auto simp: heap_inv_def)
  obtain xs q where xs: "dseg (h_mem h) 0 (h_head h) xs q 0" "set xs = {a \<in> dom Z. K a = TFree}"
    using list_okD [OF til lst] .
  have b: "16 \<le> b" using tiling_tile [OF til assms(2)] by (auto elim: dvdE)
  show ?thesis
  proof (cases xs)
    case Nil
    then show ?thesis using xs(1) b by simp
  next
    case (Cons x ys)
    then have x: "h_head h = x" "x \<in> dom Z" "K x = TFree" using xs by auto
    obtain t where t: "Z x = Some t" "24 < t" using tile_of [OF til x(2)] .
    have "x \<noteq> b" using x(3) assms(3) by auto
    then show ?thesis using cell_ne [OF til assms(2) t(1) assms(4), of 8] t(2) x(1) by auto
  qed
qed

text \<open>One write, and its exchange with a push.\<close>

definition poke :: "nat \<Rightarrow> nat \<Rightarrow> 'v heap \<Rightarrow> 'v heap" where
  "poke x v h = h\<lparr>h_mem := (h_mem h)(x := v)\<rparr>"

lemma poke_simps [simp]: "h_head (poke x v h) = h_head h" "h_regions (poke x v h) = h_regions h" "h_mem (poke x v h) = (h_mem h)(x := v)"
  by (simp_all add: poke_def)

lemma poke_push:
  "x \<noteq> b + 8 \<Longrightarrow> x \<noteq> b + 16 \<Longrightarrow> x \<noteq> b + 24 \<Longrightarrow> x \<noteq> h_head h + 8 \<Longrightarrow> poke x v (list_push b h) = list_push b (poke x v h)"
  using list_push_write [of x b h v] by (simp add: poke_def)

lemma and_15: "n AND 15 = n mod 16" for n :: nat
  using and_pow2 [of n 4] by simp

lemma split_lead_none:
  assumes "lead < 64"
  shows "split_lead b lead h = Some (b, lead, h)"
proof -
  have "\<not> 64 \<le> lead - x" for x using assms by linarith
  then show ?thesis by (simp add: split_lead_def Let_def MIN_BLOCK_def)
qed

lemma split_lead_ok:
  assumes "heap_inv own Z K S h" "Z b = Some s" "K b = TUsed" "16 dvd lead" "64 \<le> lead" "lead + 64 \<le> s"
  shows "\<exists>h'. split_lead b lead h = Some (b + lead, 0, h')
    \<and> heap_inv own (Z(b \<mapsto> lead, b + lead \<mapsto> s - lead)) (K(b := TFree, b + lead := TUsed)) S h'"
proof -
  define rest where "rest = b + lead"
  have sz: "h_mem h b = s" using assms(1-3) by (auto simp: heap_inv_def dest: mem_okD(1))
  have la: "lead - (lead AND (HEAP_ALIGN - 1)) = lead" using assms(4) by (simp add: heap_consts and_15)
  have off: "b + i \<noteq> b + 8 \<and> b + i \<noteq> b + 16 \<and> b + i \<noteq> b + 24 \<and> b + i \<noteq> h_head h + 8" if "i < s" "24 < i" for i
    using head_apart [OF assms(1,2), of i] assms(3) that by auto
  let ?w = "poke (b + lead - 8) lead (poke b lead h)"
  let ?h = "poke (b + s - 8) (s - lead) (poke (rest + 16) 0 (poke (rest + 8) 0 (poke (rest + 24) 0 (poke rest (s - lead) ?w))))"
  have eqs: "rest + 16 = b + (lead + 16)" "rest + 8 = b + (lead + 8)" "rest + 24 = b + (lead + 24)" "rest = b + lead"
    "b + s - 8 = b + (s - 8)" "rest + (s - lead) - 8 = b + s - 8"
    using assms(5,6) by (simp_all add: rest_def)
  have "split_lead b lead h = Some (rest, 0, poke (b + s - 8) (s - lead) (poke (rest + 16) 0 (poke (rest + 8) 0 (poke (rest + 24) 0
      (poke rest (s - lead) (list_push b ?w))))))"
  proof -
    have "set_footer b ((h_mem h)(b := lead)) = (h_mem h)(b := lead, b + lead - 8 := lead)" by (simp add: set_footer_def heap_consts)
    then show ?thesis using assms(5,6) sz la eqs(6)
      by (simp add: split_lead_def heap_consts usub_def rest_def [symmetric] poke_def set_footer_def Let_def)
  qed
  moreover have "poke (b + s - 8) (s - lead) (poke (rest + 16) 0 (poke (rest + 8) 0 (poke (rest + 24) 0
      (poke rest (s - lead) (list_push b ?w))))) = list_push b ?h"
    unfolding eqs(1-5) using off [of lead] off [of "lead + 8"] off [of "lead + 16"] off [of "lead + 24"] off [of "s - 8"] assms(5,6)
    by (simp add: poke_push)
  moreover have "heap_inv own (Z(b \<mapsto> lead, b + lead \<mapsto> s - lead)) (K(b + lead := TUsed)) S (h\<lparr>h_mem := h_mem ?h\<rparr>)"
  proof (rule cut_inv [OF assms])
    show "h_mem ?h x = h_mem h x" if out: "x \<notin> {b..<b + s}" for x
    proof -
      have e: "b + lead - 8 = b + (lead - 8)" using assms(5) by simp
      have "x \<noteq> b + i" if "i < s" for i using out that by auto
      from this [of 0] this [of lead] this [of "lead - 8"] this [of "lead + 8"] this [of "lead + 16"] this [of "lead + 24"] this [of "s - 8"]
      show ?thesis using assms(5,6) unfolding eqs(1-5) e by (simp only: poke_simps fun_upd_other) simp
    qed
    have "h_mem h (b + 24) = 0" using assms(1-3) mem_okD(2) by (fastforce simp: heap_inv_def)
    then show "h_mem ?h (b + 24) = 0" using assms(5,6) by (simp add: rest_def)
  qed (use assms(5,6) in \<open>auto simp: rest_def\<close>)
  then have "heap_inv own (Z(b \<mapsto> lead, b + lead \<mapsto> s - lead)) (K(b + lead := TUsed)) S ?h" by (simp add: poke_def)
  from push_inv [OF this, of b lead] have "heap_inv own (Z(b \<mapsto> lead, b + lead \<mapsto> s - lead)) (K(b + lead := TUsed, b := TFree)) S (list_push b ?h)"
    using assms(3,5) by simp
  ultimately show ?thesis unfolding rest_def using assms(5) by (auto simp: fun_upd_twist)
qed

text \<open>A block in use may write its own flag and footer again.\<close>

lemma refoot_inv:
  assumes "heap_inv own Z K S h" "Z b = Some s" "K b = TUsed"
  shows "heap_inv own Z K S (h\<lparr>h_mem := (h_mem h)(b + 24 := 0, b + s - 8 := s)\<rparr>)"
proof -
  let ?m = "(h_mem h)(b + 24 := 0, b + s - 8 := s)"
  have til: "tiling Z S" and ok: "mem_ok Z K (h_mem h)" "list_ok Z K (h_mem h) (h_head h)" using assms(1) by (auto simp: heap_inv_def)
  have s: "64 \<le> s" using tiling_tile [OF til assms(2)] by blast
  have e: "b + s - 8 = b + (s - 8)" using s by simp
  have same: "?m (a + i) = h_mem h (a + i)" if "Z a = Some t" "i < t" "a = b \<longrightarrow> i \<noteq> 24 \<and> i \<noteq> s - 8" for a t i
    unfolding e using cell_ne [OF til that(1) assms(2) that(2), of 24] cell_ne [OF til that(1) assms(2) that(2), of "s - 8"] that(3) s
    by (auto simp del: add_diff_assoc2)
  have "mem_ok Z K ?m" unfolding mem_ok_def
  proof (intro allI impI)
    fix a t assume a: "Z a = Some t"
    have t: "64 \<le> t" using tiling_tile [OF til a] by blast
    show "(K a \<noteq> TDead \<longrightarrow> ?m a = t) \<and> (?m (a + 24) \<noteq> 0 \<longleftrightarrow> K a = TFree) \<and> foot_ok Z K ?m a t"
    proof (cases "a = b")
      case True
      then have "t = s" using a assms(2) by simp
      moreover have "?m b = h_mem h b" using same [OF assms(2), of 0] s by simp
      ultimately show ?thesis using True assms(3) mem_okD [OF ok(1) assms(2)] s by (auto simp: foot_ok_def)
    next
      case False
      then show ?thesis using same [OF a, of 0] same [OF a, of 24] same [OF a, of "t - 8"] mem_okD [OF ok(1) a] t by (simp add: foot_ok_def)
    qed
  qed
  moreover have "list_ok Z K ?m (h_head h)"
  proof (rule list_ok_cong [OF ok(2)])
    show "\<forall>x \<in> dom Z. K x = TFree \<longrightarrow> ?m (x + 8) = h_mem h (x + 8) \<and> ?m (x + 16) = h_mem h (x + 16)"
    proof (intro ballI impI)
      fix x assume x: "x \<in> dom Z" "K x = TFree"
      obtain t where t: "Z x = Some t" "24 < t" using tile_of [OF til x(1)] .
      have "x \<noteq> b" using x(2) assms(3) by auto
      then show "?m (x + 8) = h_mem h (x + 8) \<and> ?m (x + 16) = h_mem h (x + 16)" using same [OF t(1), of 8] same [OF t(1), of 16] t(2) by auto
    qed
  qed simp
  ultimately show ?thesis using assms(1) by (simp add: heap_inv_def)
qed

text \<open>The rest of a block behind an allocation of \<open>n\<close> bytes.\<close>

lemma split_tail_ok:
  assumes "heap_inv own Z K S h" "Z b = Some s" "K b = TUsed" "16 dvd n" "64 \<le> n" "n \<le> s" "n + 64 < 2 ^ 64"
  shows "\<exists>h' Z' K'. split_tail b n h = Some h' \<and> heap_inv own Z' K' S h' \<and> K' b = TUsed \<and> (\<exists>t. Z' b = Some t \<and> n \<le> t)
    \<and> (\<forall>a. a \<noteq> b \<longrightarrow> a \<in> dom Z \<longrightarrow> Z' a = Z a \<and> K' a = K a)"
proof -
  have sz: "h_mem h b = s" using assms(1-3) by (auto simp: heap_inv_def dest: mem_okD(1))
  have fl: "h_mem h (b + 24) = 0" using assms(1-3) mem_okD(2) by (fastforce simp: heap_inv_def)
  show ?thesis
  proof (cases "n + 64 \<le> s")
    case False
    then have "split_tail b n h = Some (h\<lparr>h_mem := (h_mem h)(b + 24 := 0, b + s - 8 := s)\<rparr>)"
      using assms(7) sz by (simp add: split_tail_def uadd_def heap_consts set_footer_def)
    then show ?thesis using refoot_inv [OF assms(1-3)] assms(2,3,6) by blast
  next
    case True
    define tail where "tail = b + n"
    let ?w = "poke (b + s - 8) (s - n) (poke (tail + 16) 0 (poke (tail + 8) 0 (poke (tail + 24) 1 (poke tail (s - n) h))))"
    let ?v = "poke (b + s - 8) (s - n) (poke (tail + 24) 0 (poke tail (s - n) h))"
    let ?h = "poke (b + n - 8) n (poke (b + 24) 0 (poke b n ?v))"
    have fb: "tail + (s - n) - 8 = b + s - 8" using True by (simp add: tail_def)
    have "split_tail b n h = Some (poke (b + n - 8) n (poke (b + 24) 0 (poke b n (list_push tail ?w))))"
      using assms(7) sz True fb by (simp add: split_tail_def uadd_def heap_consts set_footer_def tail_def [symmetric] poke_def Let_def)
    moreover have "list_push tail ?w = list_push tail ?v"
    proof -
      have "list_push tail (h\<lparr>h_mem := h_mem ?w\<rparr>) = list_push tail (h\<lparr>h_mem := h_mem ?v\<rparr>)"
        by (rule list_push_absorb) auto
      then show ?thesis by (simp add: poke_def)
    qed
    moreover have "poke (b + n - 8) n (poke (b + 24) 0 (poke b n (list_push tail ?v))) = list_push tail ?h"
    proof -
      have "b + i \<noteq> h_head h + 8" if "i < s" for i using head_apart [OF assms(1,2) _ that] assms(3) by simp
      from this [of 0] this [of 24] this [of "n - 8"] show ?thesis using assms(5) True by (simp add: poke_push tail_def)
    qed
    moreover have "heap_inv own (Z(b \<mapsto> n, b + n \<mapsto> s - n)) (K(b + n := TUsed)) S (h\<lparr>h_mem := h_mem ?h\<rparr>)"
    proof (rule cut_inv [OF assms(1-5) True])
      have e: "b + s - 8 = b + (s - 8)" "b + n - 8 = b + (n - 8)" using assms(5) True by simp_all
      show "h_mem ?h x = h_mem h x" if out: "x \<notin> {b..<b + s}" for x
      proof -
        have "x \<noteq> b + i" if "i < s" for i using out that by auto
        from this [of 0] this [of n] this [of "n - 8"] this [of "n + 24"] this [of 24] this [of "s - 8"]
        show ?thesis using assms(5) True unfolding e tail_def add.assoc by (simp only: poke_simps fun_upd_other) simp
      qed
    qed (use assms(5) True in \<open>auto simp: tail_def\<close>)
    then have "heap_inv own (Z(b \<mapsto> n, b + n \<mapsto> s - n)) (K(b + n := TUsed)) S ?h" by (simp add: poke_def)
    from push_inv [OF this, of tail "s - n"] have "heap_inv own (Z(b \<mapsto> n, b + n \<mapsto> s - n)) (K(b + n := TFree)) S (list_push tail ?h)"
      by (simp add: tail_def)
    moreover have "tiling Z S" using assms(1) by (simp add: heap_inv_def)
    from tile_inner_free [OF this assms(2), of n] have "Z (b + n) = None" using assms(5) True by simp
    ultimately have fin: "split_tail b n h = Some (list_push tail ?h)"
        "heap_inv own (Z(b \<mapsto> n, b + n \<mapsto> s - n)) (K(b + n := TFree)) S (list_push tail ?h)" "Z (b + n) = None" by simp_all
    have "(K(b + n := TFree)) b = TUsed" "(Z(b \<mapsto> n, b + n \<mapsto> s - n)) b = Some n" using assms(3,5) by simp_all
    moreover have "\<forall>a. a \<noteq> b \<longrightarrow> a \<in> dom Z \<longrightarrow> (Z(b \<mapsto> n, b + n \<mapsto> s - n)) a = Z a \<and> (K(b + n := TFree)) a = K a" using fin(3) by auto
    ultimately show ?thesis using fin(1,2) le_refl by blast
  qed
qed

lemma round_16: "n \<le> x \<Longrightarrow> 16 dvd x \<Longrightarrow> 16 dvd n + 8 \<Longrightarrow> n + 8 \<le> (x :: nat)"
  by presburger

lemma carve_ok:
  assumes "heap_inv own Z K S h" "Z b = Some s" "K b = TFree" "fits (h_mem h) need al b"
    and "need = 40 + ps" "16 dvd ps" "16 \<le> ps" "need + 128 < 2 ^ 64" "al = 2 ^ k" "16 \<le> al"
  shows "\<exists>u h' Z' K' t. carve need al b h = Some (u + 32, h') \<and> heap_inv own Z' K' S h' \<and> al dvd u + 32
    \<and> Z' u = Some t \<and> K' u = TUsed \<and> need \<le> t \<and> \<not> (u \<in> dom Z \<and> K u = TUsed)
    \<and> (\<forall>a \<in> dom Z. K a \<noteq> TFree \<longrightarrow> Z' a = Z a \<and> K' a = K a)"
proof -
  have til: "tiling Z S" using assms(1) by (simp add: heap_inv_def)
  note rem = remove_inv [OF assms(1-3)]
  have b: "16 dvd b" "16 dvd s" using tiling_tile [OF til assms(2)] by auto
  have sz: "h_mem h b = s" using assms(1-3) by (auto simp: heap_inv_def dest: mem_okD(1))
  obtain y where y: "heap_align_up (b + 32) al = Some y" "b + 32 \<le> y" "al dvd y" "need + (y - (b + 32)) \<le> s"
      "y = b + 32 \<or> 64 \<le> y - (b + 32)"
    using assms(4) sz by (auto simp: fits_def)
  define lead where "lead = y - (b + 32)"
  have "(2 :: nat) ^ 4 \<le> 2 ^ k" using assms(9,10) by simp
  then have "4 \<le> k" by (rule power_le_imp_le_exp [rotated]) simp
  then have "(2 :: nat) ^ 4 dvd al" unfolding assms(9) by (rule le_imp_power_dvd)
  then have "16 dvd al" by simp
  then have "16 dvd y" using y(3) by (rule dvd_trans)
  moreover have "16 dvd b + 32" using b(1) by presburger
  ultimately have "16 dvd lead" unfolding lead_def by (rule dvd_diff_nat)
  have alloc: "heap_align_up need HEAP_ALIGN = Some (need + 8)"
  proof -
    have "need + 16 < 2 ^ 64" using assms(8) by simp
    from heap_align_up_ok [of 16 4 need, OF _ this] obtain z where z: "heap_align_up need 16 = Some z" "need \<le> z" "z < need + 16" "16 dvd z" by auto
    have "z = need + 8" using z(2-4) assms(5,6) by presburger
    then show ?thesis using z(1) by (simp add: heap_consts)
  qed
  have n: "16 dvd need + 8" "64 \<le> need + 8" "need + 8 + 64 < 2 ^ 64" using assms(5-8) by presburger+
  have carve: "carve need al b h = do {
      (use_ptr, absorbed, h) \<leftarrow> split_lead b lead (list_remove b h);
      total \<leftarrow> uadd need absorbed;
      alloc_size \<leftarrow> heap_align_up total HEAP_ALIGN;
      h \<leftarrow> split_tail use_ptr alloc_size h;
      Some (payload_ptr use_ptr, h) }"
    using y(1,2) by (simp add: carve_def payload_ptr_def HEADER_SIZE_def usub_def lead_def)
  show ?thesis
  proof (cases "lead = 0")
    case True
    have "need + 8 \<le> s" by (rule round_16 [OF _ b(2) n(1)]) (use y(4) in linarith)
    then obtain h' Z' K' t where h': "split_tail b (need + 8) (list_remove b h) = Some h'" "heap_inv own Z' K' S h'" "K' b = TUsed"
        "Z' b = Some t" "need + 8 \<le> t" "\<forall>a. a \<noteq> b \<longrightarrow> a \<in> dom Z \<longrightarrow> Z' a = Z a \<and> K' a = (K(b := TUsed)) a"
      using split_tail_ok [OF rem(1) assms(2), of "need + 8"] n by auto
    have "carve need al b h = Some (b + 32, h')"
      using carve True alloc h'(1) assms(8) by (simp add: split_lead_none uadd_def payload_ptr_def HEADER_SIZE_def)
    moreover have "al dvd b + 32" using y(2,3) True by (simp add: lead_def)
    moreover have "\<not> (b \<in> dom Z \<and> K b = TUsed)" "need \<le> t" using assms(3) h'(5) by auto
    moreover have "\<forall>a \<in> dom Z. K a \<noteq> TFree \<longrightarrow> Z' a = Z a \<and> K' a = K a" using h'(6) assms(3) by (metis fun_upd_other)
    ultimately show ?thesis using h'(2-4) by blast
  next
    case False
    then have l: "64 \<le> lead" using y(2,5) by (auto simp: lead_def)
    have "16 dvd s - lead" using b(2) \<open>16 dvd lead\<close> by (rule dvd_diff_nat)
    then have l2: "need + 8 \<le> s - lead" by (rule round_16 [OF _ _ n(1), rotated]) (use y(4) lead_def in linarith)
    then have l3: "lead + 64 \<le> s" using n(2) by linarith
    obtain h1 where h1: "split_lead b lead (list_remove b h) = Some (b + lead, 0, h1)"
        "heap_inv own (Z(b \<mapsto> lead, b + lead \<mapsto> s - lead)) (K(b := TFree, b + lead := TUsed)) S h1"
      using split_lead_ok [OF rem(1) assms(2) _ \<open>16 dvd lead\<close> l l3] by auto
    obtain h' Z' K' t where h': "split_tail (b + lead) (need + 8) h1 = Some h'" "heap_inv own Z' K' S h'" "K' (b + lead) = TUsed"
        "Z' (b + lead) = Some t" "need + 8 \<le> t"
        "\<forall>a. a \<noteq> b + lead \<longrightarrow> a \<in> dom (Z(b \<mapsto> lead, b + lead \<mapsto> s - lead)) \<longrightarrow>
           Z' a = (Z(b \<mapsto> lead, b + lead \<mapsto> s - lead)) a \<and> K' a = (K(b := TFree, b + lead := TUsed)) a"
      using split_tail_ok [OF h1(2), of "b + lead" "s - lead" "need + 8"] n l2 by auto
    have none: "Z (b + lead) = None" using tile_inner_free [OF til assms(2), of lead] l l3 by simp
    have "carve need al b h = Some (b + lead + 32, h')"
      using carve h1(1) alloc h'(1) assms(8) by (simp add: uadd_def payload_ptr_def HEADER_SIZE_def)
    moreover have "al dvd b + lead + 32" using y(2,3) by (simp add: lead_def)
    moreover have "Z' a = Z a \<and> K' a = K a" if "a \<in> dom Z" "K a \<noteq> TFree" for a
    proof -
      have "a \<noteq> b" "a \<noteq> b + lead" using that none assms(3) by auto
      then show ?thesis using h'(6) that by auto
    qed
    moreover have "\<not> (b + lead \<in> dom Z \<and> K (b + lead) = TUsed)" "need \<le> t" using none h'(5) by auto
    ultimately show ?thesis using h'(2-4) by blast
  qed
qed

section \<open>Giving a block back\<close>

lemma region_bounds_span:
  assumes "heap_inv own Z K S h" "Z a = Some s" "region_bounds a (h_regions h) = Some (st, en)"
  shows "\<exists>len. (st, len) \<in> S \<and> en = st + len \<and> in_span Z (st, len) a s \<and> en < 2 ^ 64"
proof -
  have til: "tiling Z S" and S: "set (h_regions h) \<subseteq> S" "\<forall>r \<in> S. fst r + snd r < 2 ^ 64" using assms(1) by (auto simp: heap_inv_def)
  obtain len where f: "find (\<lambda>(start, len). start \<le> a \<and> a < start + len) (h_regions h) = Some (st, len)" "en = st + len"
    using assms(3) by (auto simp: region_bounds_def)
  then obtain i where i: "i < length (h_regions h)" "h_regions h ! i = (st, len)" "st \<le> a" "a < st + len" by (auto simp: find_Some_iff)
  then have r: "(st, len) \<in> S" "st \<le> a" "a < st + len" using S(1) nth_mem [OF i(1)] by auto
  obtain r where "r \<in> S" "in_span Z r a s" using tiling_span [OF til assms(2)] by blast
  moreover have "r = (st, len)"
  proof (rule tiling_span_unique [OF til \<open>r \<in> S\<close> r(1)])
    show "a \<in> span_bytes r" using in_span_bytes [OF \<open>in_span Z r a s\<close>, of 0] tiling_tile [OF til assms(2)] by simp
    show "a \<in> span_bytes (st, len)" using r by (simp add: span_bytes_def)
  qed
  ultimately show ?thesis using r(1) f(2) S(2) by auto
qed

text \<open>Every block's header and the flag that \<open>try_coalesce\<close> reads.\<close>

lemma heap_inv_block:
  assumes "heap_inv own Z K S h" "Z a = Some s"
  shows "h_mem h (a + 24) \<noteq> 0 \<longleftrightarrow> K a = TFree" "K a \<noteq> TDead \<Longrightarrow> h_mem h a = s" "64 \<le> s" "0 < a" "16 dvd a"
  using assms mem_okD [of Z K "h_mem h" a s] tiling_tile [of Z S a s] by (auto simp: heap_inv_def)

lemma coalesce_prev_eq:
  "try_coalesce_with_prev b h =
     (case region_bounds b (h_regions h) of
        None \<Rightarrow> Some (b, h)
      | Some (st, en) \<Rightarrow>
          let v = h_mem h (b - 8); p = b - v; h1 = list_remove p h in
          if st + 8 \<le> b \<and> v \<noteq> 0 \<and> st \<le> p \<and> h_mem h (p + 24) \<noteq> 0
          then do { sz \<leftarrow> uadd (h_mem h1 p) (h_mem h1 b); Some (p, h1\<lparr>h_mem := set_footer p ((h_mem h1)(p := sz))\<rparr>) }
          else Some (b, h))"
  by (cases "region_bounds b (h_regions h)") (auto simp: try_coalesce_with_prev_def Let_def FOOTER_SIZE_def)

lemma coalesce_prev_cases:
  obtains "try_coalesce_with_prev b h = Some (b, h)"
  | st en where "region_bounds b (h_regions h) = Some (st, en)" "st + 8 \<le> b" "h_mem h (b - 8) \<noteq> 0"
      "st \<le> b - h_mem h (b - 8)" "h_mem h (b - h_mem h (b - 8) + 24) \<noteq> 0"
proof (cases "region_bounds b (h_regions h)")
  case None
  then show thesis using that(1) by (simp add: coalesce_prev_eq)
next
  case (Some r)
  obtain st en where r: "r = (st, en)" by (cases r)
  let ?c = "st + 8 \<le> b \<and> h_mem h (b - 8) \<noteq> 0 \<and> st \<le> b - h_mem h (b - 8) \<and> h_mem h (b - h_mem h (b - 8) + 24) \<noteq> 0"
  show thesis
  proof (cases ?c)
    case True
    then show thesis using that(2) [OF Some [unfolded r]] by blast
  next
    case False
    then have "try_coalesce_with_prev b h = Some (b, h)" unfolding coalesce_prev_eq Let_def Some r option.case prod.case by (rule if_not_P)
    then show thesis by (rule that(1))
  qed
qed

lemma coalesce_prev_ok:
  assumes "heap_inv own Z K S h" "Z b = Some s" "K b = TFree"
  shows "\<exists>c h' K'. try_coalesce_with_prev b h = Some (c, h') \<and> heap_inv own Z K' S h' \<and> K' b = TFree
    \<and> (\<forall>a. K a \<noteq> TFree \<longrightarrow> K' a = K a) \<and> h_regions h' = h_regions h
    \<and> (c = b \<or> (\<exists>t. Z c = Some t \<and> c + t = b \<and> K c = TFree) \<and> K' c = TDead \<and> c + h_mem h' c = b + s)"
proof -
  have til: "tiling Z S" using assms(1) by (simp add: heap_inv_def)
  show ?thesis
  proof (cases b h rule: coalesce_prev_cases)
    case stay: 1
    then show ?thesis using assms(1,3) by blast
  next
    case merge: (2 st en)
    obtain len where r: "(st, len) \<in> S" "in_span Z (st, len) b s" "en = st + len" "en < 2 ^ 64"
      using region_bounds_span [OF assms(1,2) merge(1)] by blast
    obtain c t where c: "Z c = Some t" "st \<le> c" "c + t = b" using r(2) merge(2) by (auto simp: in_span_def)
    have ct: "64 \<le> t" "c + t - 8 = b - 8" using heap_inv_block(3) [OF assms(1) c(1)] c(3) by auto
    have prev: "h_mem h (b - 8) = t" "K c = TFree"
    proof -
      have "foot_ok Z K (h_mem h) c t" using assms(1) c(1) mem_okD(3) by (auto simp: heap_inv_def)
      moreover have "K d \<noteq> TDead" if d: "d + h_mem h (b - 8) = b" "d \<in> dom Z" for d
      proof -
        obtain u where u: "Z d = Some u" using d(2) by blast
        have "d = b - h_mem h (b - 8)" using d(1) by simp
        then show ?thesis using merge(5) heap_inv_block(1) [OF assms(1) u] by auto
      qed
      ultimately show t: "h_mem h (b - 8) = t" unfolding foot_ok_def ct(2) c(3) by blast
      then have "b - h_mem h (b - 8) = c" using c(3) by simp
      then show "K c = TFree" using merge(5) heap_inv_block(1) [OF assms(1) c(1)] by simp
    qed
    have pc: "b - h_mem h (b - 8) = c" using c(3) prev(1) by simp
    have cb: "c \<noteq> b" using ct c(3) by simp
    note rem = remove_inv [OF assms(1) c(1) prev(2)]
    let ?h = "list_remove c h"
    have sz: "h_mem ?h c = t" "h_mem ?h b = s"
      using heap_inv_block(2) [OF rem(1) c(1)] heap_inv_block(2) [OF rem(1) assms(2)] assms(3) cb by auto
    have fin: "c + (t + s) = b + s" "t + s < 2 ^ 64" using c(3) r(2-4) by (auto simp: in_span_def)
    let ?h' = "?h\<lparr>h_mem := (h_mem ?h)(c := t + s, b + s - 8 := t + s)\<rparr>"
    have "try_coalesce_with_prev b h = Some (c, ?h')"
    proof -
      have "c + (t + s) - 8 = b + s - 8" using fin(1) by simp
      then show ?thesis using merge sz fin(2) ct pc by (simp add: coalesce_prev_eq uadd_def set_footer_def Let_def heap_consts)
    qed
    moreover have "heap_inv own Z (K(c := TUsed, c := TDead)) S ?h'"
      by (rule lose_inv [OF rem(1) c(1) _ assms(2) fin(1)]) simp
    moreover have "c + h_mem ?h' c = b + s"
    proof -
      have "c \<noteq> b + s - 8" using fin heap_inv_block(3) [OF assms(1,2)] c(3) ct(1) by linarith
      then show ?thesis using fin(1) by simp
    qed
    ultimately show ?thesis using assms(3) cb c prev(2)
      by (intro exI [of _ c] exI [of _ ?h'] exI [of _ "K(c := TDead)"]) auto
  qed
qed

lemma coalesce_next_eq:
  "try_coalesce_with_next b h =
     (case region_bounds b (h_regions h) of
        None \<Rightarrow> Some h
      | Some (st, en) \<Rightarrow>
          let n = b + h_mem h b; h1 = list_remove n h in
          if n \<noteq> 0 \<and> n < en \<and> h_mem h (n + 24) \<noteq> 0
          then do { sz \<leftarrow> uadd (h_mem h1 b) (h_mem h1 n); Some (h1\<lparr>h_mem := set_footer b ((h_mem h1)(b := sz))\<rparr>) }
          else Some h)"
  by (cases "region_bounds b (h_regions h)") (auto simp: try_coalesce_with_next_def Let_def)

lemma coalesce_next_cases:
  obtains "try_coalesce_with_next b h = Some h"
  | st en where "region_bounds b (h_regions h) = Some (st, en)" "b + h_mem h b < en" "h_mem h (b + h_mem h b + 24) \<noteq> 0" "b + h_mem h b \<noteq> 0"
proof (cases "region_bounds b (h_regions h)")
  case None
  then show thesis using that(1) by (simp add: coalesce_next_eq)
next
  case (Some r)
  obtain st en where r: "r = (st, en)" by (cases r)
  show thesis
  proof (cases "b + h_mem h b \<noteq> 0 \<and> b + h_mem h b < en \<and> h_mem h (b + h_mem h b + 24) \<noteq> 0")
    case True
    then show thesis using that(2) [OF Some [unfolded r]] by blast
  next
    case False
    then have "try_coalesce_with_next b h = Some h" unfolding coalesce_next_eq Let_def Some r option.case prod.case by (rule if_not_P)
    then show thesis by (rule that(1))
  qed
qed

text \<open>
  \<open>c\<close> is the block given back, or the lost block that was merged with it; \<open>e\<close> with size \<open>u\<close> is the last block
  that it covers.
\<close>

lemma coalesce_next_ok:
  assumes "heap_inv own Z K S h" "Z b = Some s" "c \<in> dom Z" "c + h_mem h c = b + s"
    and "c = b \<and> K b = TFree \<or> K c = TDead"
  shows "\<exists>h' Z' K'. try_coalesce_with_next c h = Some h' \<and> heap_inv own Z' K' S h'
    \<and> (\<forall>a \<in> dom Z. K a \<noteq> TFree \<longrightarrow> Z' a = Z a \<and> K' a = K a)"
proof (cases c h rule: coalesce_next_cases)
  case 1
  then show ?thesis using assms(1) by blast
next
  case (2 st en)
  have til: "tiling Z S" using assms(1) by (simp add: heap_inv_def)
  obtain w where w: "Z c = Some w" using assms(3) by blast
  obtain len where r: "(st, len) \<in> S" "in_span Z (st, len) c w" "en = st + len" "en < 2 ^ 64"
    using region_bounds_span [OF assms(1) w 2(1)] by blast
  have bs: "64 \<le> s" using heap_inv_block(3) [OF assms(1,2)] .
  have w64: "64 \<le> w" using heap_inv_block(3) [OF assms(1) w] .
  have cb: "c \<le> b"
  proof (rule ccontr)
    assume "\<not> c \<le> b"
    then have "b + s \<le> c" using tiling_order [OF til assms(2) w] by simp
    then have "h_mem h c = 0" "c = b + s" using assms(4) by auto
    then have "h_mem h (c + 24) \<noteq> 0" using 2(3) by simp
    then have "K c = TFree" using heap_inv_block(1) [OF assms(1) w] by simp
    then show False using assms(5) \<open>\<not> c \<le> b\<close> by auto
  qed
  have sp: "in_span Z (st, len) b s"
  proof -
    obtain q where q: "q \<in> S" "in_span Z q b s" using tiling_span [OF til assms(2)] by blast
    have "q = (st, len)"
    proof (rule tiling_span_unique [OF til q(1) r(1)])
      show "b \<in> span_bytes q" using in_span_bytes [OF q(2), of 0] bs by simp
      show "b \<in> span_bytes (st, len)" using 2(2) r(2,3) cb bs assms(4) by (auto simp: span_bytes_def in_span_def)
    qed
    then show ?thesis using q(2) by simp
  qed
  define n where "n = b + s"
  have nx: "c + h_mem h c = n" using assms(4) by (simp add: n_def)
  have "n \<in> dom Z" using sp 2(2) r(3) nx by (auto simp: in_span_def n_def)
  then obtain t where t: "Z n = Some t" by blast
  have kn: "K n = TFree" using heap_inv_block(1) [OF assms(1) t] 2(3) nx by simp
  have t64: "64 \<le> t" using heap_inv_block(3) [OF assms(1) t] .
  have sn: "in_span Z (st, len) n t"
  proof -
    obtain q where q: "q \<in> S" "in_span Z q n t" using tiling_span [OF til t] by blast
    have "q = (st, len)"
    proof (rule tiling_span_unique [OF til q(1) r(1)])
      show "n \<in> span_bytes q" using in_span_bytes [OF q(2), of 0] t64 by simp
      show "n \<in> span_bytes (st, len)" using 2(2) r(3) nx sp by (auto simp: span_bytes_def in_span_def n_def)
    qed
    then show ?thesis using q(2) by simp
  qed
  note rem = remove_inv [OF assms(1) t kn]
  let ?h = "list_remove n h" and ?v = "h_mem h c + t"
  have sz: "h_mem ?h n = t" "h_mem ?h c = h_mem h c" using heap_inv_block(2) [OF rem(1) t] rem(2) assms(3) by auto
  have v: "c + ?v = n + t" "?v < 2 ^ 64" "c + ?v - 8 = n + t - 8" using nx sn r(3,4) by (auto simp: in_span_def)
  let ?h' = "?h\<lparr>h_mem := (h_mem ?h)(c := ?v, n + t - 8 := ?v)\<rparr>"
  have res: "try_coalesce_with_next c h = Some ?h'"
    using 2 sz v nx by (simp add: coalesce_next_eq uadd_def set_footer_def Let_def heap_consts)
  show ?thesis
  proof (cases "K c = TDead")
    case True
    have cn: "c \<noteq> n" using True kn by auto
    have "heap_inv own Z (K(n := TUsed, c := TDead)) S ?h'"
      by (rule lose_inv [OF rem(1) w _ t v(1)]) (use True cn in simp)
    moreover have "\<forall>a \<in> dom Z. K a \<noteq> TFree \<longrightarrow> Z a = Z a \<and> (K(n := TUsed, c := TDead)) a = K a" using True kn by auto
    ultimately show ?thesis using res by blast
  next
    case False
    then have c: "c = b" "K b = TFree" using assms(5) by auto
    have hc: "h_mem h c = s" using heap_inv_block(2) [OF assms(1,2)] c by simp
    have "heap_inv own (Z(b \<mapsto> s + t, b + s := None)) (K(n := TUsed)) S (?h\<lparr>h_mem := (h_mem ?h)(b := s + t, b + s + t - 8 := s + t)\<rparr>)"
      by (rule merge_inv [OF rem(1) assms(2)]) (use c t sp sn r(1) bs in \<open>auto simp: n_def\<close>)
    then have "heap_inv own (Z(b \<mapsto> s + t, b + s := None)) (K(n := TUsed)) S ?h'" using c hc by (simp add: n_def)
    moreover have "\<forall>a \<in> dom Z. K a \<noteq> TFree \<longrightarrow> (Z(b \<mapsto> s + t, b + s := None)) a = Z a \<and> (K(n := TUsed)) a = K a"
      using c kn by (auto simp: n_def)
    ultimately show ?thesis using res by blast
  qed
qed

text \<open>The block \<open>b\<close>, marked free and at the head of the list, as \<open>heap_dealloc\<close> leaves it before it merges.\<close>

definition released :: "nat \<Rightarrow> 'v heap \<Rightarrow> 'v heap" where
  "released b h = list_push b (h\<lparr>h_mem := (h_mem h)(b + 24 := 1, b + 8 := 0, b + 16 := 0)\<rparr>)"

text \<open>
  When the release merges the block with a free block \<open>c\<close> before it, \<open>c\<close> is dead afterwards: a tile of its old size
  that is neither free nor in use.
\<close>

lemma heap_dealloc_ok:
  assumes "heap_inv own Z K S h" "Z a = Some s" "K a = TUsed"
  shows "\<exists>h' Z' K'. heap_dealloc (a + 32) h = Some h' \<and> heap_inv own Z' K' S h'
    \<and> (\<forall>x \<in> dom Z. x \<noteq> a \<longrightarrow> K x \<noteq> TFree \<longrightarrow> Z' x = Z x \<and> K' x = K x)
    \<and> (\<forall>c h1. try_coalesce_with_prev a (released a h) = Some (c, h1) \<and> c \<noteq> a \<longrightarrow>
         (\<exists>t. Z c = Some t \<and> c + t = a \<and> K c = TFree \<and> Z' c = Some t \<and> K' c = TDead))"
proof -
  have push: "released a h = list_push a h"
  proof -
    have "list_push a (h\<lparr>h_mem := (h_mem h)(a + 24 := 1, a + 8 := 0, a + 16 := 0)\<rparr>) = list_push a (h\<lparr>h_mem := h_mem h\<rparr>)"
      by (rule list_push_absorb) auto
    then show ?thesis by (simp add: released_def)
  qed
  note p = push_inv [OF assms]
  obtain c h1 K1 where c: "try_coalesce_with_prev a (list_push a h) = Some (c, h1)" "heap_inv own Z K1 S h1" "K1 a = TFree"
      "\<forall>x. (K(a := TFree)) x \<noteq> TFree \<longrightarrow> K1 x = (K(a := TFree)) x"
      "c = a \<or> (\<exists>t. Z c = Some t \<and> c + t = a \<and> (K(a := TFree)) c = TFree) \<and> K1 c = TDead \<and> c + h_mem h1 c = a + s"
    using coalesce_prev_ok [OF p assms(2) fun_upd_same] by blast
  have "c \<in> dom Z" "c + h_mem h1 c = a + s" "c = a \<and> K1 a = TFree \<or> K1 c = TDead"
    using c(3,5) assms(2) heap_inv_block(2) [OF c(2) assms(2)] by auto
  from coalesce_next_ok [OF c(2) assms(2) this] obtain h' Z' K' where h': "try_coalesce_with_next c h1 = Some h'"
      "heap_inv own Z' K' S h'" "\<forall>x \<in> dom Z. K1 x \<noteq> TFree \<longrightarrow> Z' x = Z x \<and> K' x = K1 x" by blast
  have "heap_dealloc (a + 32) h = Some h'"
    using c(1) h'(1) push by (simp add: heap_dealloc_def from_payload_def HEADER_SIZE_def released_def)
  moreover have "\<forall>x \<in> dom Z. x \<noteq> a \<longrightarrow> K x \<noteq> TFree \<longrightarrow> Z' x = Z x \<and> K' x = K x" using h'(3) c(4) by auto
  moreover have "\<exists>t. Z d = Some t \<and> d + t = a \<and> K d = TFree \<and> Z' d = Some t \<and> K' d = TDead"
    if d: "try_coalesce_with_prev a (released a h) = Some (d, g)" "d \<noteq> a" for d g
  proof -
    have "d = c" using d(1) c(1) unfolding push by simp
    then obtain t where t: "Z d = Some t" "d + t = a" "K d = TFree" "K1 d = TDead" using c(5) d(2) by auto
    then show ?thesis using h'(3) [rule_format, of d] by (simp add: domI)
  qed
  ultimately show ?thesis using h'(2) by blast
qed

section \<open>The heap and its clients\<close>

lemma write_inv:
  assumes "heap_inv own Z K S h"
    and "\<And>x. m x \<noteq> h_mem h x \<Longrightarrow> \<exists>a s. Z a = Some s \<and> K a = TUsed \<and> a + 32 \<le> x \<and> x < a + s - 8"
  shows "heap_inv own Z K S (h\<lparr>h_mem := m\<rparr>)"
proof -
  have til: "tiling Z S" and ok: "mem_ok Z K (h_mem h)" "list_ok Z K (h_mem h) (h_head h)" using assms(1) by (auto simp: heap_inv_def)
  have same: "m (a + i) = h_mem h (a + i)" if a: "Z a = Some t" and i: "i < 32 \<or> i = t - 8" for a t i
  proof (rule ccontr)
    assume "m (a + i) \<noteq> h_mem h (a + i)"
    then obtain c u where c: "Z c = Some u" "c + 32 \<le> a + i" "a + i < c + u - 8" using assms(2) by blast
    have t: "64 \<le> t" "64 \<le> u" using tiling_tile [OF til a] tiling_tile [OF til c(1)] by auto
    define j where "j = a + i - c"
    have j: "a + i = c + j" "32 \<le> j" "j < u - 8" using c t unfolding j_def by linarith+
    have "i < t" using i t by auto
    then have "a = c \<and> i = j" using tile_cells [OF til a c(1) j(1)] j(3) by simp
    then show False using i j(2,3) a c(1) by auto
  qed
  have "mem_ok Z K m"
  proof (rule mem_ok_cong [OF ok(1)])
    fix a s assume a: "Z a = Some s"
    have "64 \<le> s" using tiling_tile [OF til a] by blast
    then show "m a = h_mem h a \<and> m (a + 24) = h_mem h (a + 24) \<and> m (a + s - 8) = h_mem h (a + s - 8)"
      using same [OF a, of 0] same [OF a, of 24] same [OF a, of "s - 8"] by simp
  qed
  moreover have "list_ok Z K m (h_head h)"
  proof (rule list_ok_cong [OF ok(2)])
    show "\<forall>x \<in> dom Z. K x = TFree \<longrightarrow> m (x + 8) = h_mem h (x + 8) \<and> m (x + 16) = h_mem h (x + 16)"
    proof (intro ballI impI)
      fix x assume "x \<in> dom Z"
      then obtain t where t: "Z x = Some t" by blast
      show "m (x + 8) = h_mem h (x + 8) \<and> m (x + 16) = h_mem h (x + 16)" using same [OF t, of 8] same [OF t, of 16] by simp
    qed
  qed simp
  ultimately show ?thesis using assms(1) by (simp add: heap_inv_def)
qed

lemma heap_inv_pages [simp]: "heap_inv own Z K S (h\<lparr>h_pages := v\<rparr>) = heap_inv own Z K S h"
  by (simp add: heap_inv_def)

lemma heap_inv_mono: "heap_inv own Z K S h \<Longrightarrow> own \<subseteq> own' \<Longrightarrow> heap_inv own' Z K S h"
  unfolding heap_inv_def by blast

lemma add_span_pages [simp]: "h_pages (add_span st len h) = h_pages h"
  by (simp add: add_span_def Let_def)

lemma split_lead_pages: "split_lead b lead h = Some (u, n, h') \<Longrightarrow> h_pages h' = h_pages h"
  by (auto simp: split_lead_def Let_def usub_def split: if_splits)

lemma split_tail_pages: "split_tail b n h = Some h' \<Longrightarrow> h_pages h' = h_pages h"
  by (auto simp: split_tail_def Let_def uadd_def split: if_splits)

lemma carve_pages:
  assumes "carve need al b h = Some (p, h')"
  shows "h_pages h' = h_pages h"
proof -
  from assms obtain l u n h1 sz where "split_lead b l (list_remove b h) = Some (u, n, h1)" "split_tail u sz h1 = Some h'"
    unfolding carve_def Let_def by (auto simp: bind_eq_Some_conv)
  then show ?thesis using split_lead_pages split_tail_pages by fastforce
qed

lemma heap_dealloc_pages:
  assumes "heap_dealloc p h = Some h'"
  shows "h_pages h' = h_pages h"
proof -
  have "h_pages h2 = h_pages h1" if "try_coalesce_with_next b h1 = Some h2" for b and h1 h2 :: "'a heap"
    using that unfolding coalesce_next_eq Let_def by (auto simp: uadd_def split: option.splits if_splits)
  moreover have "h_pages h2 = h_pages h1" if "try_coalesce_with_prev b h1 = Some (c, h2)" for b c and h1 h2 :: "'a heap"
    using that unfolding coalesce_prev_eq Let_def by (auto simp: uadd_def split: option.splits if_splits)
  ultimately show ?thesis using assms unfolding heap_dealloc_def Let_def
    by (fastforce simp: bind_eq_Some_conv split: if_splits)
qed

text \<open>What the heap relies on of the page arena: \<open>own\<close> are the bytes of the pages that are handed out.\<close>

locale page_source =
  fixes pg :: "'v page_alloc" and own :: "'v \<Rightarrow> nat set" and ok :: "'v \<Rightarrow> bool" and lim :: nat
  assumes pg_total: "ok v \<Longrightarrow> \<exists>r v'. pg n v = Some (r, v')"
    and pg_keeps: "ok v \<Longrightarrow> pg n v = Some (r, v') \<Longrightarrow> ok v' \<and> own v \<subseteq> own v'"
    and pg_run: "ok v \<Longrightarrow> pg n v = Some (Some va, v') \<Longrightarrow> 0 < n \<and> 0 < unat va \<and> 4096 dvd unat va \<and> unat va + n * 4096 < 2 ^ 64
      \<and> own v \<inter> {unat va..<unat va + n * 4096} = {} \<and> {unat va..<unat va + n * 4096} \<subseteq> own v'"
    and own_top: "ok v \<Longrightarrow> own v \<subseteq> {..<lim}"
begin

lemma span_added:
  assumes "heap_inv G Z K S h" "ok (h_pages h)" "G \<subseteq> own (h_pages h)" "pg n (h_pages h) = Some (Some va, v)"
  shows "heap_inv (G \<union> (own v - own (h_pages h))) (Z(unat va \<mapsto> n * 4096)) (K(unat va := TFree))
      (insert (unat va, n * 4096) S) (add_span (unat va) (n * 4096) (h\<lparr>h_pages := v\<rparr>))"
    and "unat va \<notin> dom Z"
proof -
  note run = pg_run [OF assms(2,4)] and keep = pg_keeps [OF assms(2,4)]
  have d: "16 dvd unat va" "16 dvd n * 4096" "64 \<le> n * 4096"
  proof -
    have "(16 :: nat) dvd 4096" by simp
    then show "16 dvd unat va" "16 dvd n * 4096" using run by (auto intro: dvd_trans)
    show "64 \<le> n * 4096" using run by simp
  qed
  have G: "G \<inter> {unat va..<unat va + n * 4096} = {}" "{unat va..<unat va + n * 4096} \<subseteq> own v - own (h_pages h)" using run assms(3) by blast+
  have "heap_inv G Z K S (h\<lparr>h_pages := v\<rparr>)" using assms(1) by simp
  then show "heap_inv (G \<union> (own v - own (h_pages h))) (Z(unat va \<mapsto> n * 4096)) (K(unat va := TFree))
      (insert (unat va, n * 4096) S) (add_span (unat va) (n * 4096) (h\<lparr>h_pages := v\<rparr>))"
    by (rule add_span_inv) (use run d G in auto)
  show "unat va \<notin> dom Z"
  proof
    assume "unat va \<in> dom Z"
    then obtain t where t: "Z (unat va) = Some t" by blast
    have til: "tiling Z S" and S: "\<forall>r \<in> S. span_bytes r \<subseteq> G" using assms(1) by (auto simp: heap_inv_def)
    obtain r where r: "r \<in> S" "in_span Z r (unat va) t" using tiling_span [OF til t] by blast
    have "unat va + 0 \<in> G" using in_span_bytes [OF r(2), of 0] tiling_tile [OF til t] S r(1) by auto
    then show False using G(1) run by auto
  qed
qed

end

text \<open>
  What \<open>Layout\<close> guarantees (a power of two, sizes that fit \<open>isize\<close>), and that an address of the arena can be
  rounded up to the alignment.
\<close>

definition layout_ok :: "nat \<Rightarrow> nat \<Rightarrow> nat \<Rightarrow> bool" where
  "layout_ok lim n al \<longleftrightarrow> (\<exists>k < 63. al = 2 ^ k) \<and> n + al < 2 ^ 63 \<and> lim + 32 + max al 16 < 2 ^ 64"

definition kept_used :: "tiles \<Rightarrow> (nat \<Rightarrow> tile_kind) \<Rightarrow> tiles \<Rightarrow> (nat \<Rightarrow> tile_kind) \<Rightarrow> bool" where
  "kept_used Z K Z' K' \<longleftrightarrow> (\<forall>a \<in> dom Z. K a \<noteq> TFree \<longrightarrow> Z' a = Z a \<and> K' a = K a)"

lemma kept_usedD: "kept_used Z K Z' K' \<Longrightarrow> Z a = Some t \<Longrightarrow> K a \<noteq> TFree \<Longrightarrow> Z' a = Some t \<and> K' a = K a"
  unfolding kept_used_def by (metis domI)

lemma kept_used_trans: "kept_used Z K Z' K' \<Longrightarrow> kept_used Z' K' Z'' K'' \<Longrightarrow> kept_used Z K Z'' K''"
  unfolding kept_used_def by (metis domD domI)

text \<open>
  The heap as its clients use it: the live allocations with their layouts, and the bytes \<open>G\<close> the heap was given.
  Clients write into live payloads; the other users of the arena do what they like with pages that are not the
  heap's.
\<close>

inductive heap_step :: "'v page_alloc \<Rightarrow> ('v \<Rightarrow> nat set) \<Rightarrow> ('v \<Rightarrow> bool) \<Rightarrow> nat \<Rightarrow>
    'v heap \<times> (nat \<times> nat \<times> nat) list \<times> nat set \<Rightarrow> 'v heap \<times> (nat \<times> nat \<times> nat) list \<times> nat set \<Rightarrow> bool"
  for pg own ok lim where
  hs_init: "heap_init pg n h = Some (r, h') \<Longrightarrow>
    heap_step pg own ok lim (h, L, G) (h', L, G \<union> (own (h_pages h') - own (h_pages h)))"
| hs_alloc: "heap_alloc pg n al h = Some (p, h') \<Longrightarrow> layout_ok lim n al \<Longrightarrow>
    heap_step pg own ok lim (h, L, G) (h', if p = 0 then L else (p, n, al) # L, G \<union> (own (h_pages h') - own (h_pages h)))"
| hs_dealloc: "(p, n, al) \<in> set L \<Longrightarrow> heap_dealloc p h = Some h' \<Longrightarrow>
    heap_step pg own ok lim (h, L, G) (h', remove1 (p, n, al) L, G)"
| hs_write: "\<forall>x. m x \<noteq> h_mem h x \<longrightarrow> (\<exists>(p, n, al) \<in> set L. p \<le> x \<and> x < p + n) \<Longrightarrow>
    heap_step pg own ok lim (h, L, G) (h\<lparr>h_mem := m\<rparr>, L, G)"
| hs_pages: "ok v \<Longrightarrow> G \<subseteq> own v \<Longrightarrow> heap_step pg own ok lim (h, L, G) (h\<lparr>h_pages := v\<rparr>, L, G)"

definition live_in :: "tiles \<Rightarrow> (nat \<Rightarrow> tile_kind) \<Rightarrow> nat \<times> nat \<times> nat \<Rightarrow> bool" where
  "live_in Z K x \<longleftrightarrow> (case x of (p, n, al) \<Rightarrow> al dvd p \<and> (\<exists>u t. p = u + 32 \<and> Z u = Some t \<and> K u = TUsed \<and> n + 40 \<le> t))"

text \<open>A block that the heap has lost, at its address and with its size.\<close>

definition dead_in :: "tiles \<Rightarrow> (nat \<Rightarrow> tile_kind) \<Rightarrow> nat \<times> nat \<Rightarrow> bool" where
  "dead_in Z K x \<longleftrightarrow> Z (fst x) = Some (snd x) \<and> K (fst x) = TDead"

definition client_inv :: "('v \<Rightarrow> nat set) \<Rightarrow> ('v \<Rightarrow> bool) \<Rightarrow> (nat \<times> nat) set \<Rightarrow> 'v heap \<times> (nat \<times> nat \<times> nat) list \<times> nat set \<Rightarrow> bool" where
  "client_inv own ok D c \<longleftrightarrow> (case c of (h, L, G) \<Rightarrow> ok (h_pages h) \<and> G \<subseteq> own (h_pages h) \<and> distinct (map fst L)
     \<and> (\<exists>Z K S. heap_inv G Z K S h \<and> (\<forall>x \<in> set L. live_in Z K x) \<and> (\<forall>x \<in> D. dead_in Z K x)))"

lemma live_in_kept: "kept_used Z K Z' K' \<Longrightarrow> live_in Z K x \<Longrightarrow> live_in Z' K' x"
  unfolding live_in_def by (cases x) (auto dest: kept_usedD)

lemma dead_in_kept: "kept_used Z K Z' K' \<Longrightarrow> dead_in Z K x \<Longrightarrow> dead_in Z' K' x"
  unfolding dead_in_def by (auto dest: kept_usedD)

context page_source
begin

lemma find_block_ok:
  assumes "heap_inv G Z K S h" "ok (h_pages h)" "G \<subseteq> own (h_pages h)" "al = 2 ^ k" "16 \<le> al" "need + al + 4096 < 2 ^ 64" "lim + 32 + al < 2 ^ 64"
  shows "\<exists>b h' Z' K' S'. find_block pg need al h = Some (b, h') \<and> ok (h_pages h') \<and> own (h_pages h) \<subseteq> own (h_pages h')
    \<and> heap_inv (G \<union> (own (h_pages h') - own (h_pages h))) Z' K' S' h' \<and> kept_used Z K Z' K'
    \<and> (b = 0 \<or> b \<in> dom Z' \<and> K' b = TFree \<and> fits (h_mem h') need al b)"
proof -
  have search: "\<exists>r. find_fit (h_mem h) need al (h_head h) = Some r \<and> (r = 0 \<or> r \<in> dom Z \<and> K r = TFree \<and> fits (h_mem h) need al r)"
    if "heap_inv G Z K S h" "ok (h_pages h)" "G \<subseteq> own (h_pages h)" for G Z K S and h :: "'v heap"
  proof -
    have "\<forall>x \<in> G. x + 32 + al < 2 ^ 64" using own_top [OF that(2)] that(3) assms(7) by fastforce
    from find_fit_heap [OF that(1) assms(4,5) _ this, of need] show ?thesis using assms(6) by (auto split: if_splits)
  qed
  have self: "kept_used Z K Z K" by (simp add: kept_used_def)
  obtain r where r: "find_fit (h_mem h) need al (h_head h) = Some r" "r = 0 \<or> r \<in> dom Z \<and> K r = TFree \<and> fits (h_mem h) need al r"
    using search [OF assms(1-3)] by blast
  show ?thesis
  proof (cases "r = 0")
    case False
    then have "find_block pg need al h = Some (r, h)" using r(1) by (simp add: find_block_def)
    moreover have "heap_inv (G \<union> (own (h_pages h) - own (h_pages h))) Z K S h" using assms(1) by simp
    ultimately show ?thesis using r(2) False assms(2) self by blast
  next
    case True
    have "need + 4096 < 2 ^ 64" using assms(6) by simp
    from heap_align_up_ok [of 4096 12 need, OF _ this] obtain up where up: "heap_align_up need 4096 = Some up" by auto
    define n where "n = up div 4096"
    obtain va v where pv: "pg n (h_pages h) = Some (va, v)" using pg_total [OF assms(2)] by blast
    note keep = pg_keeps [OF assms(2) pv]
    show ?thesis
    proof (cases va)
      case None
      have "find_block pg need al h = Some (0, h\<lparr>h_pages := v\<rparr>)"
        using r(1) True up pv None by (simp add: find_block_def grow_def n_def [symmetric] Let_def)
      moreover have "heap_inv (G \<union> (own v - own (h_pages h))) Z K S (h\<lparr>h_pages := v\<rparr>)"
        using heap_inv_mono [OF assms(1)] by simp
      ultimately show ?thesis using keep self by (metis heap.select_convs(4) heap.surjective heap.update_convs(4))
    next
      case (Some base_va)
      note sp = span_added [OF assms(1-3) pv [unfolded Some]]
      let ?h = "add_span (unat base_va) (n * 4096) (h\<lparr>h_pages := v\<rparr>)"
      have pages: "h_pages ?h = v" by simp
      have sub: "G \<union> (own v - own (h_pages h)) \<subseteq> own (h_pages ?h)" using assms(3) keep by auto
      obtain b where b: "find_fit (h_mem ?h) need al (h_head ?h) = Some b"
          "b = 0 \<or> b \<in> dom (Z(unat base_va \<mapsto> n * 4096)) \<and> (K(unat base_va := TFree)) b = TFree \<and> fits (h_mem ?h) need al b"
        using search [OF sp(1) _ sub] keep pages by metis
      have "find_block pg need al h = Some (b, ?h)"
        using r(1) True up pv Some b(1) by (simp add: find_block_def grow_def n_def [symmetric] Let_def)
      moreover have "kept_used Z K (Z(unat base_va \<mapsto> n * 4096)) (K(unat base_va := TFree))" using sp(2) by (auto simp: kept_used_def)
      ultimately show ?thesis using sp(1) b(2) keep pages by metis
    qed
  qed
qed

lemma heap_alloc_ok:
  assumes "heap_inv G Z K S h" "ok (h_pages h)" "G \<subseteq> own (h_pages h)" "layout_ok lim n al"
  shows "\<exists>p h' Z' K' S'. heap_alloc pg n al h = Some (p, h') \<and> ok (h_pages h') \<and> own (h_pages h) \<subseteq> own (h_pages h')
    \<and> heap_inv (G \<union> (own (h_pages h') - own (h_pages h))) Z' K' S' h' \<and> kept_used Z K Z' K'
    \<and> (p \<noteq> 0 \<longrightarrow> live_in Z' K' (p, n, al) \<and> \<not> (\<exists>u \<in> dom Z. K u = TUsed \<and> p = u + 32))"
proof -
  obtain k where k: "al = 2 ^ k" "k < 63" "n + al < 2 ^ 63" "lim + 32 + max al 16 < 2 ^ 64" using assms(4) by (auto simp: layout_ok_def)
  define al' where "al' = max al HEAP_ALIGN"
  obtain k' where k': "al' = 2 ^ k'"
  proof (cases "16 \<le> al")
    case True
    then have "al' = 2 ^ k" using k(1) by (simp add: al'_def heap_consts)
    then show thesis by (rule that)
  next
    case False
    then have "al' = 2 ^ 4" by (simp add: al'_def heap_consts)
    then show thesis by (rule that)
  qed
  have al': "16 \<le> al'" "al' \<le> al + 16" "al dvd al'"
  proof -
    show "16 \<le> al'" "al' \<le> al + 16" by (simp_all add: al'_def heap_consts)
    have "al dvd 16" if "\<not> 16 \<le> al"
    proof -
      have "(2 :: nat) ^ k \<le> 2 ^ 4" using that k(1) by simp
      then have "k \<le> 4" by (rule power_le_imp_le_exp [rotated]) simp
      then have "(2 :: nat) ^ k dvd 2 ^ 4" by (rule le_imp_power_dvd)
      then show ?thesis by (simp add: k(1))
    qed
    then show "al dvd al'" by (cases "al = 16") (auto simp: al'_def heap_consts max_def)
  qed
  have "max n 16 + 16 < 2 ^ 64" using k(3) by simp
  from heap_align_up_ok [of 16 4 "max n 16", OF _ this] obtain ps where ps: "heap_align_up (max n 16) 16 = Some ps"
      "max n 16 \<le> ps" "ps < max n 16 + 16" "16 dvd ps" by auto
  define need where "need = 40 + ps"
  have bound: "need + al' + 4096 < 2 ^ 64" using ps(3) k(3) al'(2) by (simp add: need_def)
  have lim: "lim + 32 + al' < 2 ^ 64" using k(4) by (simp add: al'_def heap_consts)
  have unfold: "heap_alloc pg n al h = do { (b, h) \<leftarrow> find_block pg need al' h; if b = 0 then Some (0, h) else carve need al' b h }"
  proof -
    have "heap_align_up (max n MIN_PAYLOAD) HEAP_ALIGN = Some ps" "uadd (HEADER_SIZE + FOOTER_SIZE) ps = Some need"
      using ps(1) bound by (simp_all add: heap_consts need_def uadd_def)
    then show ?thesis unfolding heap_alloc_carve al'_def [symmetric] by simp
  qed
  obtain b h1 Z1 K1 S1 where f: "find_block pg need al' h = Some (b, h1)" "ok (h_pages h1)" "own (h_pages h) \<subseteq> own (h_pages h1)"
      "heap_inv (G \<union> (own (h_pages h1) - own (h_pages h))) Z1 K1 S1 h1" "kept_used Z K Z1 K1"
      "b = 0 \<or> b \<in> dom Z1 \<and> K1 b = TFree \<and> fits (h_mem h1) need al' b"
    using find_block_ok [OF assms(1-3) k' al'(1) bound lim] by blast
  show ?thesis
  proof (cases "b = 0")
    case True
    then have "heap_alloc pg n al h = Some (0, h1)" using unfold f(1) by simp
    then show ?thesis using f(2-5) by blast
  next
    case False
    then obtain s where b: "Z1 b = Some s" "K1 b = TFree" "fits (h_mem h1) need al' b" using f(6) by blast
    have "need + 128 < 2 ^ 64" "16 \<le> ps" using bound ps(2) by simp_all
    then obtain u h' Z' K' t where c: "carve need al' b h1 = Some (u + 32, h')" "heap_inv (G \<union> (own (h_pages h1) - own (h_pages h))) Z' K' S1 h'"
        "al' dvd u + 32" "Z' u = Some t" "K' u = TUsed" "need \<le> t" "\<not> (u \<in> dom Z1 \<and> K1 u = TUsed)"
        "\<forall>a \<in> dom Z1. K1 a \<noteq> TFree \<longrightarrow> Z' a = Z1 a \<and> K' a = K1 a"
      using carve_ok [OF f(4) b need_def ps(4) _ _ k' al'(1)] by blast
    have "heap_alloc pg n al h = Some (u + 32, h')" using unfold f(1) False c(1) by simp
    moreover have "h_pages h' = h_pages h1" by (rule carve_pages [OF c(1)])
    moreover have "kept_used Z K Z' K'" by (rule kept_used_trans [OF f(5)]) (use c(8) in \<open>simp add: kept_used_def\<close>)
    moreover have "live_in Z' K' (u + 32, n, al)" using c(3-6) al'(3) ps(2) by (auto simp: live_in_def need_def intro: dvd_trans)
    moreover have "\<not> (\<exists>v \<in> dom Z. K v = TUsed \<and> u + 32 = v + 32)" using c(7) kept_usedD [OF f(5), of u] by auto
    ultimately show ?thesis using c(2) f(2,3) by metis
  qed
qed

lemma heap_init_ok:
  assumes "heap_inv G Z K S h" "ok (h_pages h)" "G \<subseteq> own (h_pages h)" "heap_init pg n h = Some (r, h')"
  shows "\<exists>Z' K' S'. ok (h_pages h') \<and> own (h_pages h) \<subseteq> own (h_pages h')
    \<and> heap_inv (G \<union> (own (h_pages h') - own (h_pages h))) Z' K' S' h' \<and> kept_used Z K Z' K'"
proof (cases "n = 0")
  case True
  then have "h' = h" using assms(4) by (simp add: heap_init_def)
  then show ?thesis using assms(1,2) by (intro exI [of _ Z] exI [of _ K] exI [of _ S]) (simp add: kept_used_def)
next
  case False
  obtain va v where pv: "pg n (h_pages h) = Some (va, v)" using pg_total [OF assms(2)] by blast
  note keep = pg_keeps [OF assms(2) pv]
  show ?thesis
  proof (cases va)
    case None
    then have "h' = h\<lparr>h_pages := v\<rparr>" using assms(4) False pv by (auto simp: heap_init_def assert_that_def Let_def split: if_splits)
    moreover have "heap_inv (G \<union> (own v - own (h_pages h))) Z K S (h\<lparr>h_pages := v\<rparr>)" using heap_inv_mono [OF assms(1)] by simp
    ultimately show ?thesis using keep by (intro exI [of _ Z] exI [of _ K] exI [of _ S]) (simp add: kept_used_def)
  next
    case (Some base_va)
    then have h': "h' = add_span (unat base_va) (n * 4096) (h\<lparr>h_pages := v\<rparr>)"
      using assms(4) False pv by (auto simp: heap_init_def assert_that_def Let_def split: if_splits)
    note sp = span_added [OF assms(1-3) pv [unfolded Some]]
    have "h_pages h' = v" using h' by simp
    moreover have "kept_used Z K (Z(unat base_va \<mapsto> n * 4096)) (K(unat base_va := TFree))" using sp(2) by (auto simp: kept_used_def)
    ultimately show ?thesis using sp(1) keep h' by metis
  qed
qed

lemma client_inv_dealloc:
  assumes "client_inv own ok D (h, L, G)" "(p, n, al) \<in> set L" "heap_dealloc p h = Some h'"
  shows "client_inv own ok D (h', remove1 (p, n, al) L, G)"
    and "try_coalesce_with_prev (from_payload p) (released (from_payload p) h) = Some (c, h1) \<Longrightarrow> c \<noteq> from_payload p \<Longrightarrow>
      b_free (h_mem h) c \<and> c < from_payload p \<and> client_inv own ok (insert (c, from_payload p - c) D) (h', remove1 (p, n, al) L, G)"
proof -
  obtain Z K S where i: "heap_inv G Z K S h" "\<forall>x \<in> set L. live_in Z K x" "ok (h_pages h)" "G \<subseteq> own (h_pages h)" "distinct (map fst L)"
      "\<forall>x \<in> D. dead_in Z K x"
    using assms(1) by (auto simp: client_inv_def)
  obtain u t where u: "p = u + 32" "Z u = Some t" "K u = TUsed" using i(2) assms(2) by (fastforce simp: live_in_def)
  have fp: "from_payload p = u" using u(1) by (simp add: from_payload_def HEADER_SIZE_def)
  obtain Z' K' where d: "heap_inv G Z' K' S h'" "\<forall>x \<in> dom Z. x \<noteq> u \<longrightarrow> K x \<noteq> TFree \<longrightarrow> Z' x = Z x \<and> K' x = K x"
    "\<forall>c h1. try_coalesce_with_prev u (released u h) = Some (c, h1) \<and> c \<noteq> u \<longrightarrow>
       (\<exists>t. Z c = Some t \<and> c + t = u \<and> K c = TFree \<and> Z' c = Some t \<and> K' c = TDead)"
    using heap_dealloc_ok [OF i(1) u(2,3)] assms(3) u(1) by auto
  have live: "live_in Z' K' x" if x: "x \<in> set (remove1 (p, n, al) L)" for x
  proof -
    have xL: "x \<in> set L" using x set_remove1_subset by fast
    have "x \<noteq> (p, n, al)" using x i(5) by (auto simp: set_remove1_eq distinct_map)
    then have "fst x \<noteq> p" using xL assms(2) i(5) by (auto simp: distinct_map inj_on_def)
    moreover obtain q m al' where q: "x = (q, m, al')" by (cases x)
    moreover have "live_in Z K x" using i(2) xL by blast
    then obtain v w where "q = v + 32" "Z v = Some w" "K v = TUsed" "m + 40 \<le> w" "al' dvd q" by (auto simp: live_in_def q)
    ultimately show ?thesis using d(2) u(1) unfolding live_in_def by auto
  qed
  have "dead_in Z' K' x" if "dead_in Z K x" for x
    using that d(2) [rule_format, of "fst x"] u(3) unfolding dead_in_def by (metis domI tile_kind.distinct(3) tile_kind.distinct(5))
  then have dead: "\<forall>x \<in> D. dead_in Z' K' x" using i(6) by blast
  have dist: "distinct (map fst (remove1 (p, n, al) L))" using i(5) by (simp add: distinct_map distinct_remove1 inj_on_def)
  have pages: "h_pages h' = h_pages h" by (rule heap_dealloc_pages [OF assms(3)])
  show "client_inv own ok D (h', remove1 (p, n, al) L, G)"
    using live dead dist pages d(1) i(3,4) unfolding client_inv_def by (simp only: prod.case) blast
  assume "try_coalesce_with_prev (from_payload p) (released (from_payload p) h) = Some (c, h1)" "c \<noteq> from_payload p"
  then obtain r where r: "Z c = Some r" "c + r = u" "K c = TFree" "Z' c = Some r" "K' c = TDead" using d(3) unfolding fp by blast
  then have "b_free (h_mem h) c" "0 < r" using heap_inv_block [OF i(1) r(1)] by simp_all
  moreover have "\<forall>x \<in> insert (c, u - c) D. dead_in Z' K' x" using dead r by (auto simp: dead_in_def)
  ultimately show "b_free (h_mem h) c \<and> c < from_payload p \<and> client_inv own ok (insert (c, from_payload p - c) D) (h', remove1 (p, n, al) L, G)"
    using live dist pages d(1) i(3,4) r(2) unfolding client_inv_def fp by (simp only: prod.case) (metis less_add_same_cancel1)
qed

lemma client_inv_step:
  assumes "heap_step pg own ok lim c c'" "client_inv own ok D c"
  shows "client_inv own ok D c'"
  using assms
proof (induction rule: heap_step.cases)
  case (hs_init n h r h' L G)
  then obtain Z K S where i: "heap_inv G Z K S h" "\<forall>x \<in> set L. live_in Z K x" "ok (h_pages h)" "G \<subseteq> own (h_pages h)" "distinct (map fst L)"
      "\<forall>x \<in> D. dead_in Z K x"
    by (auto simp: client_inv_def)
  obtain Z' K' S' where a: "ok (h_pages h')" "own (h_pages h) \<subseteq> own (h_pages h')" "kept_used Z K Z' K'"
      "heap_inv (G \<union> (own (h_pages h') - own (h_pages h))) Z' K' S' h'"
    using heap_init_ok [OF i(1,3,4) hs_init(3)] by blast
  have "\<forall>x \<in> set L. live_in Z' K' x" using i(2) live_in_kept [OF a(3)] by blast
  moreover have "\<forall>x \<in> D. dead_in Z' K' x" using i(6) dead_in_kept [OF a(3)] by blast
  moreover have "G \<union> (own (h_pages h') - own (h_pages h)) \<subseteq> own (h_pages h')" using i(4) a(2) by blast
  ultimately show ?case using hs_init(2) i(5) a(1,4) unfolding client_inv_def by blast
next
  case (hs_alloc n al h p h' L G)
  then obtain Z K S where i: "heap_inv G Z K S h" "\<forall>x \<in> set L. live_in Z K x" "ok (h_pages h)" "G \<subseteq> own (h_pages h)" "distinct (map fst L)"
      "\<forall>x \<in> D. dead_in Z K x"
    by (auto simp: client_inv_def)
  obtain Z' K' S' where a: "ok (h_pages h')" "own (h_pages h) \<subseteq> own (h_pages h')" "kept_used Z K Z' K'"
      "heap_inv (G \<union> (own (h_pages h') - own (h_pages h))) Z' K' S' h'"
      "p \<noteq> 0 \<longrightarrow> live_in Z' K' (p, n, al) \<and> \<not> (\<exists>u \<in> dom Z. K u = TUsed \<and> p = u + 32)"
    using heap_alloc_ok [OF i(1,3,4) hs_alloc(4)] hs_alloc(3) by auto
  have "p \<notin> fst ` set L" if "p \<noteq> 0"
  proof
    assume "p \<in> fst ` set L"
    then obtain n' al' where "(p, n', al') \<in> set L" by force
    then have "\<exists>u t. p = u + 32 \<and> Z u = Some t \<and> K u = TUsed" using i(2) by (fastforce simp: live_in_def)
    then show False using a(5) that by blast
  qed
  then have "distinct (map fst (if p = 0 then L else (p, n, al) # L))" using i(5) by simp
  moreover have "\<forall>x \<in> set (if p = 0 then L else (p, n, al) # L). live_in Z' K' x" using a(3,5) i(2) live_in_kept by auto
  moreover have "\<forall>x \<in> D. dead_in Z' K' x" using i(6) dead_in_kept [OF a(3)] by blast
  moreover have "G \<union> (own (h_pages h') - own (h_pages h)) \<subseteq> own (h_pages h')" using i(4) a(2) by blast
  ultimately show ?case using hs_alloc(2) a(1,4) unfolding client_inv_def by blast
next
  case (hs_dealloc p n al L h h' G)
  then show ?case using client_inv_dealloc(1) by blast
next
  case (hs_write m h L G)
  then obtain Z K S where i: "heap_inv G Z K S h" "\<forall>x \<in> set L. live_in Z K x" "ok (h_pages h)" "G \<subseteq> own (h_pages h)" "distinct (map fst L)"
      "\<forall>x \<in> D. dead_in Z K x"
    by (auto simp: client_inv_def)
  have "heap_inv G Z K S (h\<lparr>h_mem := m\<rparr>)"
  proof (rule write_inv [OF i(1)])
    fix x assume "m x \<noteq> h_mem h x"
    then obtain p n al where p: "(p, n, al) \<in> set L" "p \<le> x" "x < p + n" using hs_write(3) by blast
    obtain u t where "p = u + 32" "Z u = Some t" "K u = TUsed" "n + 40 \<le> t" using i(2) p(1) by (fastforce simp: live_in_def)
    then have "Z u = Some t \<and> K u = TUsed \<and> u + 32 \<le> x \<and> x < u + t - 8" using p by simp
    then show "\<exists>a s. Z a = Some s \<and> K a = TUsed \<and> a + 32 \<le> x \<and> x < a + s - 8" by blast
  qed
  then show ?case using hs_write(2) i unfolding client_inv_def by auto
next
  case (hs_pages v G h L)
  then show ?case by (auto simp: client_inv_def)
qed

lemma client_inv_reachable:
  assumes "(heap_step pg own ok lim)\<^sup>*\<^sup>* c c'" "client_inv own ok D c"
  shows "client_inv own ok D c'"
  using assms by (induction rule: rtranclp_induct) (auto intro: client_inv_step)

lemma client_inv_new: "ok v \<Longrightarrow> client_inv own ok {} (heap_new v, [], {})"
proof -
  assume v: "ok v"
  have "heap_inv {} Map.empty (\<lambda>_. TUsed) {} (heap_new v)"
    by (auto simp: heap_inv_def tiling_def mem_ok_def list_ok_def heap_new_def intro!: exI [of _ "[]"])
  then show ?thesis using v unfolding client_inv_def by (auto simp: heap_new_def)
qed

end

text \<open>Payloads of live allocations lie in the heap's bytes and are disjoint.\<close>

lemma client_inv_disjoint:
  assumes "client_inv own ok D (h, L, G)" "(p, n, al) \<in> set L" "(p', n', al') \<in> set L" "p \<noteq> p'"
  shows "{p..<p + n} \<inter> {p'..<p' + n'} = {}"
proof -
  obtain Z K S where i: "heap_inv G Z K S h" "\<forall>x \<in> set L. live_in Z K x" using assms(1) by (auto simp: client_inv_def)
  have til: "tiling Z S" using i(1) by (simp add: heap_inv_def)
  obtain u t where u: "p = u + 32" "Z u = Some t" "n + 40 \<le> t" using i(2) assms(2) by (fastforce simp: live_in_def)
  obtain u' t' where u': "p' = u' + 32" "Z u' = Some t'" "n' + 40 \<le> t'" using i(2) assms(3) by (fastforce simp: live_in_def)
  have "u \<noteq> u'" using u(1) u'(1) assms(4) by simp
  then have "u + t \<le> u' \<or> u' + t' \<le> u" using tiling_order [OF til u(2) u'(2)] tiling_order [OF til u'(2) u(2)] by linarith
  then show ?thesis using u u' by auto
qed

lemma client_inv_dead_disjoint:
  assumes "client_inv own ok D (h, L, G)" "(c, r) \<in> D" "(p, n, al) \<in> set L"
  shows "{p..<p + n} \<inter> {c..<c + r} = {}"
proof -
  obtain Z K S where i: "heap_inv G Z K S h" "live_in Z K (p, n, al)" "dead_in Z K (c, r)" using assms by (fastforce simp: client_inv_def)
  have til: "tiling Z S" using i(1) by (simp add: heap_inv_def)
  obtain u t where u: "p = u + 32" "Z u = Some t" "K u = TUsed" "n + 40 \<le> t" using i(2) by (auto simp: live_in_def)
  have c: "Z c = Some r" "u \<noteq> c" using i(3) u(3) by (auto simp: dead_in_def)
  then have "u + t \<le> c \<or> c + r \<le> u" using tiling_order [OF til u(2) c(1)] tiling_order [OF til c(1) u(2)] by linarith
  then show ?thesis using u by auto
qed

lemma client_inv_inside:
  assumes "client_inv own ok D (h, L, G)" "(p, n, al) \<in> set L"
  shows "{p..<p + n} \<subseteq> own (h_pages h)" "al dvd p" "p \<noteq> 0" "\<exists>h'. heap_dealloc p h = Some h'"
proof -
  obtain Z K S where i: "heap_inv G Z K S h" "\<forall>x \<in> set L. live_in Z K x" "G \<subseteq> own (h_pages h)" using assms(1) by (auto simp: client_inv_def)
  have til: "tiling Z S" and S: "\<forall>r \<in> S. span_bytes r \<subseteq> G" using i(1) by (auto simp: heap_inv_def)
  obtain u t where u: "p = u + 32" "Z u = Some t" "K u = TUsed" "n + 40 \<le> t" using i(2) assms(2) by (fastforce simp: live_in_def)
  obtain r where r: "r \<in> S" "in_span Z r u t" using tiling_span [OF til u(2)] by blast
  show "{p..<p + n} \<subseteq> own (h_pages h)"
  proof
    fix x assume x: "x \<in> {p..<p + n}"
    then have "u + (x - u) \<in> span_bytes r" using in_span_bytes [OF r(2), of "x - u"] u(1,4) by auto
    then show "x \<in> own (h_pages h)" using S r(1) i(3) x u(1) by auto
  qed
  show "al dvd p" using i(2) assms(2) by (fastforce simp: live_in_def)
  show "p \<noteq> 0" using u(1) by simp
  show "\<exists>h'. heap_dealloc p h = Some h'" using heap_dealloc_ok [OF i(1) u(2,3)] u(1) by auto
qed

section \<open>The kernel's heap\<close>

text \<open>The bytes of the pages that the arena has handed out, and what is assumed of it at the start.\<close>

definition arena_bytes :: "'h vm \<Rightarrow> nat set" where
  "arena_bytes v = {x. \<exists>i < pages (arena v). bits (a_bm (arena v)) i
     \<and> unat (a_base (arena v)) + i * 4096 \<le> x \<and> x < unat (a_base (arena v)) + (i + 1) * 4096}"

definition arena_ok :: "'h x86_ops \<Rightarrow> nat \<Rightarrow> 'h vm \<Rightarrow> bool" where
  "arena_ok ops lim v \<longleftrightarrow> vm_ok ops v \<and> map_to_keeps_pool ops \<and> a_base (arena v) \<noteq> 0
     \<and> unat (a_base (arena v)) + pages (arena v) * 4096 \<le> lim"

interpretation karena: page_source "alloc_n ops" arena_bytes "arena_ok ops lim" lim for ops lim
proof unfold_locales
  fix v n
  assume "arena_ok ops lim v"
  then show "\<exists>r v'. alloc_n ops n v = Some (r, v')" using alloc_n_total [of ops v n] by (auto simp: arena_ok_def)
next
  fix v n r v'
  assume a: "arena_ok ops lim v" "alloc_n ops n v = Some (r, v')"
  then have ai: "arena_inv ops (arena v)" and "vm_ok ops v'"
    using alloc_n_total [of ops v n] by (auto simp: arena_ok_def vm_ok_def)
  moreover from alloc_n_cases [OF ai a(2)] have "arena v' = arena v \<or> (\<exists>b. arena v' = (arena v)\<lparr>a_bm := b\<rparr> \<and> (\<forall>k. bits (a_bm (arena v)) k \<longrightarrow> bits b k))"
    by auto
  ultimately show "arena_ok ops lim v' \<and> arena_bytes v \<subseteq> arena_bytes v'"
    using a(1) by (auto simp: arena_ok_def arena_bytes_def)
next
  fix v n va v'
  assume a: "arena_ok ops lim v" "alloc_n ops n v = Some (Some va, v')"
  then have ai: "arena_inv ops (arena v)" by (simp add: arena_ok_def vm_ok_def)
  let ?a = "arena v"
  obtain i b where i: "0 < n" "clear_run (a_bm ?a) (pages ?a) n i" "va = page_at ?a i" "arena v' = ?a\<lparr>a_bm := b\<rparr>"
      "bits b = (\<lambda>k. (i \<le> k \<and> k < i + n) \<or> bits (a_bm ?a) k)"
    using alloc_n_cases [OF ai a(2)] by auto
  have c: "i + n \<le> pages ?a" "\<And>k. i \<le> k \<Longrightarrow> k < i + n \<Longrightarrow> \<not> bits (a_bm ?a) k"
  proof -
    show "i + n \<le> pages ?a" using i(2) by (simp add: clear_run_def)
    show "\<not> bits (a_bm ?a) k" if "i \<le> k" "k < i + n" for k using i(2) that unfolding clear_run_def by (metis le_add_diff_inverse nat_add_left_cancel_less)
  qed
  have va: "unat va = unat (a_base ?a) + i * 4096" unfolding i(3) by (rule unat_page_at [OF ai]) (use c(1) i(1) in simp)
  have b: "unat (a_base ?a) mod 4096 = 0" "unat (a_base ?a) + pages ?a * 4096 < 2 ^ 64" "0 < unat (a_base ?a)"
    using ai a(1) by (auto simp: arena_inv_def arena_ok_def unat_gt_0)
  have le: "(i + n) * 4096 \<le> pages ?a * 4096" using c(1) by (rule mult_le_mono1)
  have idx: "\<exists>k. i \<le> k \<and> k < i + n \<and> unat (a_base ?a) + k * 4096 \<le> x \<and> x < unat (a_base ?a) + (k + 1) * 4096"
    if "x \<in> {unat va..<unat va + n * 4096}" for x
  proof -
    define k where "k = (x - unat (a_base ?a)) div 4096"
    have x: "unat (a_base ?a) + i * 4096 \<le> x" "x < unat (a_base ?a) + (i + n) * 4096" using that by (auto simp: va algebra_simps)
    have "k * 4096 \<le> x - unat (a_base ?a)" "x - unat (a_base ?a) < (k + 1) * 4096" unfolding k_def using dividend_less_div_times [of 4096 "x - unat (a_base ?a)"] by simp_all
    then show ?thesis using x by (intro exI [of _ k]) auto
  qed
  have "arena_bytes v \<inter> {unat va..<unat va + n * 4096} = {}"
  proof (rule ccontr)
    assume "arena_bytes v \<inter> {unat va..<unat va + n * 4096} \<noteq> {}"
    then obtain x where x: "x \<in> arena_bytes v" "x \<in> {unat va..<unat va + n * 4096}" by blast
    obtain j where j: "bits (a_bm ?a) j" "unat (a_base ?a) + j * 4096 \<le> x" "x < unat (a_base ?a) + (j + 1) * 4096" using x(1) by (auto simp: arena_bytes_def)
    obtain k where k: "i \<le> k" "k < i + n" "unat (a_base ?a) + k * 4096 \<le> x" "x < unat (a_base ?a) + (k + 1) * 4096" using idx [OF x(2)] by blast
    have "j * 4096 < (k + 1) * 4096" "k * 4096 < (j + 1) * 4096" using j(2,3) k(3,4) by linarith+
    then have "j = k" unfolding mult_less_cancel2 by linarith
    then show False using j(1) c(2) [OF k(1,2)] by simp
  qed
  moreover have "{unat va..<unat va + n * 4096} \<subseteq> arena_bytes v'"
  proof
    fix x assume "x \<in> {unat va..<unat va + n * 4096}"
    then obtain k where "i \<le> k" "k < i + n" "unat (a_base ?a) + k * 4096 \<le> x" "x < unat (a_base ?a) + (k + 1) * 4096" using idx by blast
    then show "x \<in> arena_bytes v'" using c(1) i(4,5) unfolding arena_bytes_def by (auto intro!: exI [of _ k])
  qed
  moreover have "4096 dvd unat va" using va b(1) by (simp add: mod_eq_0_iff_dvd [symmetric] mod_add_eq)
  ultimately show "0 < n \<and> 0 < unat va \<and> 4096 dvd unat va \<and> unat va + n * 4096 < 2 ^ 64
      \<and> arena_bytes v \<inter> {unat va..<unat va + n * 4096} = {} \<and> {unat va..<unat va + n * 4096} \<subseteq> arena_bytes v'"
    using i(1) va b le by (simp add: algebra_simps)
next
  fix v
  assume "arena_ok ops lim v"
  then have "unat (a_base (arena v)) + pages (arena v) * 4096 \<le> lim" by (simp add: arena_ok_def)
  moreover have "(i + 1) * 4096 \<le> pages (arena v) * 4096" if "i < pages (arena v)" for i using that by (intro mult_le_mono1) simp
  ultimately show "arena_bytes v \<subseteq> {..<lim}" unfolding arena_bytes_def by fastforce
qed

section \<open>Runs of the heap\<close>

text \<open>A source of one page, and the rules by which a concrete run is evaluated.\<close>

definition one_page :: "bool page_alloc" where
  "one_page n v = Some (if v \<and> n = 1 then (Some 0x10000, False) else (None, v))"

lemma up16: "heap_align_up x 16 = do { y \<leftarrow> uadd x 16; z \<leftarrow> usub y 1; Some (z - z mod 16) }"
  using and_pow2 [of _ 4] by (simp add: heap_align_up_def)
lemma up4096: "heap_align_up x 4096 = do { y \<leftarrow> uadd x 4096; z \<leftarrow> usub y 1; Some (z - z mod 4096) }"
  using and_pow2 [of _ 12] by (simp add: heap_align_up_def)

lemmas heap_run = heap_alloc_def heap_dealloc_def find_block_def grow_def add_span_def list_push_def list_remove_def split_lead_def split_tail_def
  set_footer_def payload_ptr_def from_payload_def heap_consts up16 up4096 uadd_def usub_def fits_with_optional_lead_def
  try_coalesce_with_next_def try_coalesce_with_prev_def region_bounds_def Let_def 


lemma flat_arena_ok: "arena_ok flat_ops 0x14000 (flat_vm 0)"
  using flat_vm_ok [of 0] flat_map_to by (simp add: arena_ok_def flat_vm_def)

lemma flat_page: "\<exists>v1. alloc_n flat_ops 1 (flat_vm 0) = Some (Some 0x10000, v1)"
proof -
  have s: "find_run \<lparr>storage = [0]\<rparr> 4 1 = Some (Some 0)" "set_range \<lparr>storage = [0]\<rparr> 0 1 4 True = Some \<lparr>storage = [1]\<rparr>"
    by code_simp+
  show ?thesis
    by (simp add: alloc_n_def flat_vm_def flat_ops_def assert_that_def Let_def flat_scan page_va_def s
      checked_mul_def checked_add_def frame_alloc_def try_alloc_def phys_of_idx_def map_fixed_def align4k_def
      s [unfolded One_nat_def] flat_scan [unfolded One_nat_def numeral_2_eq_2 numeral_3_eq_3])
qed

text \<open>
  C2: Live heap allocations never overlap. In every state that the heap reaches by initialisation, allocations,
  releases of live pointers and writes of the clients into their payloads, whatever the other users of the page
  arena do with their pages: the payloads of live allocations are pairwise disjoint, lie in pages of the arena
  and have the alignment asked for, and every release and every further allocation returns, with a pointer or null.
\<close>

theorem heap_allocations_disjoint:
  assumes "(heap_step (alloc_n ops) arena_bytes (arena_ok ops lim) lim)\<^sup>*\<^sup>* (heap_new v, [], {}) (h, L, G)"
    and "arena_ok ops lim v" and "layout_ok lim n al"
  shows "distinct (map fst L)
    \<and> (\<forall>(p, m, a) \<in> set L. \<forall>(p', m', a') \<in> set L. p \<noteq> p' \<longrightarrow> {p..<p + m} \<inter> {p'..<p' + m'} = {})
    \<and> (\<forall>(p, m, a) \<in> set L. p \<noteq> 0 \<and> a dvd p \<and> {p..<p + m} \<subseteq> arena_bytes (h_pages h) \<and> (\<exists>h'. heap_dealloc p h = Some h'))
    \<and> (\<exists>p h'. heap_alloc (alloc_n ops) n al h = Some (p, h'))"
proof -
  have inv: "client_inv arena_bytes (arena_ok ops lim) {} (h, L, G)"
    by (rule karena.client_inv_reachable [OF assms(1) karena.client_inv_new [OF assms(2)]])
  then obtain Z K S where "heap_inv G Z K S h" "arena_ok ops lim (h_pages h)" "G \<subseteq> arena_bytes (h_pages h)" by (auto simp: client_inv_def)
  from karena.heap_alloc_ok [OF this assms(3)] have "\<exists>p h'. heap_alloc (alloc_n ops) n al h = Some (p, h')" by blast
  moreover have "distinct (map fst L)" using inv by (simp add: client_inv_def)
  moreover have "\<forall>(p, m, a) \<in> set L. \<forall>(p', m', a') \<in> set L. p \<noteq> p' \<longrightarrow> {p..<p + m} \<inter> {p'..<p' + m'} = {}"
    using client_inv_disjoint [OF inv] by (simp only: split_paired_Ball_Sigma case_prod_unfold) (metis prod.collapse)
  moreover have "\<forall>(p, m, a) \<in> set L. p \<noteq> 0 \<and> a dvd p \<and> {p..<p + m} \<subseteq> arena_bytes (h_pages h) \<and> (\<exists>h'. heap_dealloc p h = Some h')"
    using client_inv_inside [OF inv] by (intro ballI) (simp only: case_prod_unfold, metis prod.collapse)
  ultimately show ?thesis by blast
qed

theorem heap_allocations_disjoint_witness:
  "\<exists>h G. (heap_step (alloc_n flat_ops) arena_bytes (arena_ok flat_ops 0x14000) 0x14000)\<^sup>*\<^sup>*
       (heap_new (flat_vm 0), [], {}) (h, [(0x100C0, 100, 8), (0x10020, 100, 8)], G)
     \<and> {0x100C0..<0x100C0 + 100} \<inter> {0x10020..<0x10020 + 100 :: nat} = {}
     \<and> (\<exists>h'. heap_dealloc 0x10020 h = Some h') \<and> (\<exists>p h'. heap_alloc (alloc_n flat_ops) 16 16 h = Some (p, h'))"
proof -
  obtain v1 where v1: "alloc_n flat_ops 1 (flat_vm 0) = Some (Some 0x10000, v1)" using flat_page by blast
  obtain h h2 where h: "heap_alloc (alloc_n flat_ops) 100 8 (heap_new (flat_vm 0)) = Some (0x10020, h)"
    "heap_alloc (alloc_n flat_ops) 100 8 h = Some (0x100C0, h2)"
  proof -
    have "\<exists>h h2. heap_alloc (alloc_n flat_ops) 100 8 (heap_new (flat_vm 0)) = Some (0x10020, h)
        \<and> heap_alloc (alloc_n flat_ops) 100 8 h = Some (0x100C0, h2)"
      using v1 by (simp add: heap_run heap_new_def find_fit.simps)
    then show thesis using that by blast
  qed
  have lay: "layout_ok 0x14000 100 8" "layout_ok 0x14000 16 16"
    by (auto simp: layout_ok_def intro: exI [of _ 3] exI [of _ 4])
  let ?step = "heap_step (alloc_n flat_ops) arena_bytes (arena_ok flat_ops 0x14000) 0x14000"
  obtain G where s1: "?step (heap_new (flat_vm 0), [], {}) (h, [(0x10020, 100, 8)], G)" using hs_alloc [OF h(1) lay(1), where L = "[]" and G = "{}"] by fastforce
  obtain G2 where s2: "?step (h, [(0x10020, 100, 8)], G) (h2, [(0x100C0, 100, 8), (0x10020, 100, 8)], G2)"
    using hs_alloc [OF h(2) lay(1), where L = "[(0x10020, 100, 8)]" and G = G] by fastforce
  have r: "?step\<^sup>*\<^sup>* (heap_new (flat_vm 0), [], {}) (h2, [(0x100C0, 100, 8), (0x10020, 100, 8)], G2)"
    using s1 s2 by (meson converse_rtranclp_into_rtranclp rtranclp.rtrancl_refl)
  from heap_allocations_disjoint [OF r flat_arena_ok lay(2)] r show ?thesis by (intro exI [of _ h2] exI [of _ G2]) simp
qed

text \<open>Two blocks are taken from a fresh page and given back in the same order.\<close>

definition in_order :: "'v page_alloc \<Rightarrow> 'v heap \<Rightarrow> 'v heap option" where
  "in_order pg h = do {
     (p, h) \<leftarrow> heap_alloc pg 100 8 h;
     (q, h) \<leftarrow> heap_alloc pg 100 8 h;
     h \<leftarrow> heap_dealloc p h;
     heap_dealloc q h
   }"


lemma in_order_page:
  assumes "pg 1 v = Some (Some 0x10000, v1)"
  shows "\<exists>h. in_order pg (heap_new v) = Some h \<and> h_pages h = v1 \<and> h_head h = 0x100A0 \<and> h_mem h 0x100A0 = 160 \<and> h_mem h 0x100B0 = 0
     \<and> h_mem h 0x10000 = 4096 \<and> h_mem h 0x10018 = 0"
  using assms by (simp add: in_order_def heap_run heap_new_def find_fit.simps)

text \<open>\<open>grow\<close> asks for room for the block without its alignment: a page-aligned request takes a page and still fails.\<close>

lemma page_aligned_alloc_fails:
  assumes "pg 1 v = Some (Some 0x10000, v1)"
  shows "\<exists>h. heap_alloc pg 100 4096 (heap_new v) = Some (0, h) \<and> h_pages h = v1"
  using assms by (simp add: heap_run heap_new_def find_fit.simps)

text \<open>
  Two blocks taken from a fresh page and released in the order in which they were taken cost the heap its page:
  with no further page to be had, no allocation of more than 112 bytes succeeds after it, although nothing is
  allocated. \<open>try_coalesce_with_prev\<close> takes the predecessor out of the free list and merges the released block into
  it, but what stays in the list is the released block, with its old size.
\<close>

lemma heap_releases_lose_page:
  assumes "pg 1 v = Some (Some 0x10000, v1)" and "\<forall>k. pg k v1 = Some (None, v1)" and "112 < n" and "n < 2 ^ 62"
  shows "\<exists>h. in_order pg (heap_new v) = Some h \<and> heap_alloc pg n 8 h = Some (0, h)"
proof -
  obtain h where h: "in_order pg (heap_new v) = Some h" "h_pages h = v1" "h_head h = 0x100A0" "h_mem h 0x100A0 = 160" "h_mem h 0x100B0 = 0"
    using in_order_page [of pg v v1] assms(1) by blast
  obtain y where y: "heap_align_up n 16 = Some y" "n \<le> y" "y < n + 16" "16 dvd y" using heap_align_up_ok [of 16 4 n] assms(4) by auto
  have big: "112 < y" using y(2) assms(3) by simp
  have "160 < 40 + y"
  proof -
    obtain k where k: "y = 16 * k" using y(4) by auto
    then have "7 < k" using big by simp
    then show ?thesis using k by simp
  qed
  moreover obtain z where z: "heap_align_up (40 + y) 4096 = Some z" using heap_align_up_ok [of 4096 12 "40 + y"] y(3) assms(4) by auto
  moreover have "find_fit (h_mem h) (40 + y) 16 0x100A0 = Some 0"
    using h(4,5) \<open>160 < 40 + y\<close> y(3) assms(4) by (simp add: find_fit.simps heap_run)
  moreover have "h\<lparr>h_pages := v1\<rparr> = h" using h(2) by simp
  ultimately have "heap_alloc pg n 8 h = Some (0, h)"
    using h(2,3) y assms(2-4) by (simp add: heap_alloc_def find_block_def grow_def uadd_def heap_consts Let_def)
  with h(1) show ?thesis by blast
qed

lemma heap_releases_lose_page_example:
  "\<exists>h. in_order one_page (heap_new True) = Some h \<and> heap_alloc one_page 113 8 h = Some (0, h)"
  by (rule heap_releases_lose_page [of one_page True False 113]) (simp_all add: one_page_def)

text \<open>
  C40: A release loses the free block before it. In every state that the heap reaches, when the release of a live
  allocation \<open>p\<close> merges its block with the block \<open>c\<close> before it, which was free, then in no state after it, whatever
  is allocated and released, does a live allocation have a byte of the block \<open>c\<close>: its memory is never allocated again.
  \<open>try_coalesce_with_prev\<close> takes \<open>c\<close> out of the free list and gives it the size of both, but what stays in the list is
  the released block.
\<close>

theorem merged_block_never_reused:
  assumes "(heap_step (alloc_n ops) arena_bytes (arena_ok ops lim) lim)\<^sup>*\<^sup>* (heap_new v, [], {}) (h, L, G)" and "arena_ok ops lim v"
    and "(p, n, al) \<in> set L" and "heap_dealloc p h = Some h'"
    and "try_coalesce_with_prev (from_payload p) (released (from_payload p) h) = Some (c, h1)" and "c \<noteq> from_payload p"
    and "(heap_step (alloc_n ops) arena_bytes (arena_ok ops lim) lim)\<^sup>*\<^sup>* (h', remove1 (p, n, al) L, G) (h2, L2, G2)"
    and "(q, m, al') \<in> set L2"
  shows "b_free (h_mem h) c \<and> c < from_payload p \<and> {q..<q + m} \<inter> {c..<from_payload p} = {}"
proof -
  have "client_inv arena_bytes (arena_ok ops lim) {} (h, L, G)"
    by (rule karena.client_inv_reachable [OF assms(1) karena.client_inv_new [OF assms(2)]])
  from karena.client_inv_dealloc(2) [OF this assms(3-6)]
  have c: "b_free (h_mem h) c" "c < from_payload p"
    and inv: "client_inv arena_bytes (arena_ok ops lim) {(c, from_payload p - c)} (h', remove1 (p, n, al) L, G)" by simp_all
  have "client_inv arena_bytes (arena_ok ops lim) {(c, from_payload p - c)} (h2, L2, G2)"
    by (rule karena.client_inv_reachable [OF assms(7) inv])
  from client_inv_dead_disjoint [OF this _ assms(8)] have "{q..<q + m} \<inter> {c..<c + (from_payload p - c)} = {}" by simp
  with c show ?thesis by simp
qed

text \<open>
  Two allocations of 100 bytes are released in the order in which they were made, and one is made again: the first
  160 bytes of the page are lost.
\<close>

theorem merged_block_never_reused_witness:
  "\<exists>h h' h2 G G2. (heap_step (alloc_n flat_ops) arena_bytes (arena_ok flat_ops 0x14000) 0x14000)\<^sup>*\<^sup>*
       (heap_new (flat_vm 0), [], {}) (h, [(0x100C0, 100, 8)], G)
     \<and> heap_dealloc 0x100C0 h = Some h' \<and> b_free (h_mem h) 0x10000
     \<and> (heap_step (alloc_n flat_ops) arena_bytes (arena_ok flat_ops 0x14000) 0x14000)\<^sup>*\<^sup>* (h', [], G) (h2, [(0x100C0, 100, 8)], G2)
     \<and> {0x100C0..<0x100C0 + 100} \<inter> {0x10000..<0x100A0 :: nat} = {}"
proof -
  obtain v1 where v1: "alloc_n flat_ops 1 (flat_vm 0) = Some (Some 0x10000, v1)" using flat_page by blast
  let ?step = "heap_step (alloc_n flat_ops) arena_bytes (arena_ok flat_ops 0x14000) 0x14000"
  have lay: "layout_ok 0x14000 100 8" by (auto simp: layout_ok_def intro: exI [of _ 3])
  have "\<exists>ha hb h h' h1 h2. heap_alloc (alloc_n flat_ops) 100 8 (heap_new (flat_vm 0)) = Some (0x10020, ha)
      \<and> heap_alloc (alloc_n flat_ops) 100 8 ha = Some (0x100C0, hb) \<and> heap_dealloc 0x10020 hb = Some h
      \<and> heap_dealloc 0x100C0 h = Some h' \<and> try_coalesce_with_prev 0x100A0 (released 0x100A0 h) = Some (0x10000, h1)
      \<and> heap_alloc (alloc_n flat_ops) 100 8 h' = Some (0x100C0, h2)"
    using v1 by (simp add: heap_run heap_new_def find_fit.simps released_def)
  then obtain ha hb h h' h1 h2 where r: "heap_alloc (alloc_n flat_ops) 100 8 (heap_new (flat_vm 0)) = Some (0x10020, ha)"
    "heap_alloc (alloc_n flat_ops) 100 8 ha = Some (0x100C0, hb)" "heap_dealloc 0x10020 hb = Some h"
    "heap_dealloc 0x100C0 h = Some h'" "try_coalesce_with_prev 0x100A0 (released 0x100A0 h) = Some (0x10000, h1)"
    "heap_alloc (alloc_n flat_ops) 100 8 h' = Some (0x100C0, h2)" by blast
  obtain Ga where s1: "?step (heap_new (flat_vm 0), [], {}) (ha, [(0x10020, 100, 8)], Ga)"
    using hs_alloc [OF r(1) lay, where L = "[]" and G = "{}"] by fastforce
  obtain G where s2: "?step (ha, [(0x10020, 100, 8)], Ga) (hb, [(0x100C0, 100, 8), (0x10020, 100, 8)], G)"
    using hs_alloc [OF r(2) lay, where L = "[(0x10020, 100, 8)]" and G = Ga] by fastforce
  have s3: "?step (hb, [(0x100C0, 100, 8), (0x10020, 100, 8)], G) (h, [(0x100C0, 100, 8)], G)"
    using hs_dealloc [OF _ r(3), of 100 8 "[(0x100C0, 100, 8), (0x10020, 100, 8)]"] by fastforce
  obtain G2 where s4: "?step (h', [], G) (h2, [(0x100C0, 100, 8)], G2)"
    using hs_alloc [OF r(6) lay, where L = "[]" and G = G] by fastforce
  have a: "?step\<^sup>*\<^sup>* (heap_new (flat_vm 0), [], {}) (h, [(0x100C0, 100, 8)], G)"
    using s1 s2 s3 by (meson converse_rtranclp_into_rtranclp rtranclp.rtrancl_refl)
  have b: "?step\<^sup>*\<^sup>* (h', [], G) (h2, [(0x100C0, 100, 8)], G2)" using s4 by blast
  have "from_payload 0x100C0 = 0x100A0" by (simp add: from_payload_def HEADER_SIZE_def)
  then have "b_free (h_mem h) 0x10000 \<and> {0x100C0..<0x100C0 + 100} \<inter> {0x10000..<0x100A0 :: nat} = {}"
    using merged_block_never_reused [OF a flat_arena_ok _ r(4), of 100 8 "0x10000" h1 h2 "[(0x100C0, 100, 8)]" G2 "0x100C0" 100 8] r(5) b by simp
  then show ?thesis using a b r(4) by blast
qed

end
