(* ===== verification/Elf.thy ===== *)
theory Elf
  imports Mapper User_Mem
begin

text \<open>
  \<^verbatim>\<open>kernel/exec/elf.rs\<close> and \<^verbatim>\<open>new_user_address_space\<close> of \<^verbatim>\<open>mm/aspace/address_space.rs\<close>: the loader of user programs. It
  walks and builds page tables itself, through the direct map, so physical memory is the state: the page tables as
  arrays of entries, the bytes, and the frame pool. Entries, the indices of an address and \<open>VirtAddr::new\<close> belong to
  the \<open>x86_64\<close> crate and are the parameter record \<open>pt_ops\<close>. The outer option of a result is the panic.
\<close>

datatype elf_error = BadMagic | Not64 | BadPhdr | NoMem

text \<open>\<open>pt_index 4\<close> to \<open>pt_index 1\<close> are \<open>p4_index\<close> to \<open>p1_index\<close>; \<open>pe_set\<close> is \<open>set_addr\<close> on a new entry, \<open>pe_frame\<close> is \<open>frame().ok()\<close>.\<close>

record 'e pt_ops =
  pt_virt :: "u64 \<Rightarrow> u64 option"
  pt_index :: "nat \<Rightarrow> u64 \<Rightarrow> nat"
  pe_new :: 'e
  pe_unused :: "'e \<Rightarrow> bool"
  pe_set :: "u64 \<Rightarrow> pt_flag set \<Rightarrow> 'e"
  pe_addr :: "'e \<Rightarrow> u64"
  pe_frame :: "'e \<Rightarrow> u64 option"

record 'e pmem =
  ptab :: "u64 \<Rightarrow> nat \<Rightarrow> 'e"
  pbyt :: "u64 \<Rightarrow> u8"
  pl :: frame_pool

section \<open>The file format\<close>

record elf64_ehdr =
  e_ident :: "u8 list"
  e_type :: u16
  e_machine :: u16
  e_version :: u32
  e_entry :: u64
  e_phoff :: u64
  e_shoff :: u64
  e_flags :: u32
  e_ehsize :: u16
  e_phentsize :: u16
  e_phnum :: u16
  e_shentsize :: u16
  e_shnum :: u16
  e_shstrndx :: u16

record elf64_phdr =
  p_type :: u32
  p_flags :: u32
  p_offset :: u64
  p_vaddr :: u64
  p_paddr :: u64
  p_filesz :: u64
  p_memsz :: u64
  p_align :: u64

definition PT_LOAD :: u32 where "PT_LOAD = 1"
definition PF_X :: u32 where "PF_X = 1"
definition PF_W :: u32 where "PF_W = 2"

definition ehdr_of :: "u8 list \<Rightarrow> elf64_ehdr" where
  "ehdr_of b = \<lparr>e_ident = take 16 b, e_type = field16 b 16, e_machine = field16 b 18, e_version = field32 b 20,
     e_entry = field64 b 3, e_phoff = field64 b 4, e_shoff = field64 b 5, e_flags = field32 b 48, e_ehsize = field16 b 52,
     e_phentsize = field16 b 54, e_phnum = field16 b 56, e_shentsize = field16 b 58, e_shnum = field16 b 60,
     e_shstrndx = field16 b 62\<rparr>"

definition phdr_of :: "u8 list \<Rightarrow> elf64_phdr" where
  "phdr_of b = \<lparr>p_type = field32 b 0, p_flags = field32 b 4, p_offset = field64 b 1, p_vaddr = field64 b 2, p_paddr = field64 b 3,
     p_filesz = field64 b 4, p_memsz = field64 b 5, p_align = field64 b 6\<rparr>"

definition read_ehdr :: "u8 list \<Rightarrow> elf_error + elf64_ehdr" where
  "read_ehdr img =
     (if length img < 64 then Inl BadMagic
      else let eh = ehdr_of img in
        if take 4 (e_ident eh) \<noteq> [0x7f, 0x45, 0x4C, 0x46] then Inl BadMagic
        else if e_ident eh ! 4 \<noteq> 2 then Inl Not64
        else Inr eh)"

definition phdr_at :: "u8 list \<Rightarrow> u64 \<Rightarrow> (elf_error + elf64_phdr) option" where
  "phdr_at img off = do {
     e \<leftarrow> checked_add off 56;
     Some (if unat e > length img then Inl BadPhdr else Inr (phdr_of (drop (unat off) img)))
   }"

section \<open>Page tables\<close>

text \<open>\<open>write_bytes(.., 0, 4096)\<close> on a frame, of which every entry is then unused.\<close>

definition zero_frame :: "'e pt_ops \<Rightarrow> u64 \<Rightarrow> 'e pmem \<Rightarrow> 'e pmem" where
  "zero_frame ops f m = m\<lparr>ptab := (ptab m)(f := \<lambda>_. pe_new ops), pbyt := write_bytes (pbyt m) f (replicate 4096 0)\<rparr>"

definition take_frame :: "(u64 \<Rightarrow> u64 option) \<Rightarrow> 'e pmem \<Rightarrow> (u64 option \<times> 'e pmem) option" where
  "take_frame pf m = do { (r, p) \<leftarrow> try_alloc pf (pl m); Some (r, m\<lparr>pl := p\<rparr>) }"

definition ensure_table :: "'e pt_ops \<Rightarrow> (u64 \<Rightarrow> u64 option) \<Rightarrow> u64 \<Rightarrow> nat \<Rightarrow> 'e pmem \<Rightarrow> ((elf_error + u64) \<times> 'e pmem) option" where
  "ensure_table ops pf t i m =
     (if pe_unused ops (ptab m t i) then do {
        (r, m) \<leftarrow> take_frame pf m;
        case r of
          None \<Rightarrow> Some (Inl NoMem, m)
        | Some f \<Rightarrow>
            (let m = zero_frame ops f m;
                 m = m\<lparr>ptab := (ptab m)(t := (ptab m t)(i := pe_set ops f {PRESENT, WRITABLE, USER_ACCESSIBLE}))\<rparr>
             in Some (Inr (pe_addr ops (ptab m t i)), m))
      }
      else Some (Inr (pe_addr ops (ptab m t i)), m))"

definition map_page :: "'e pt_ops \<Rightarrow> (u64 \<Rightarrow> u64 option) \<Rightarrow> u64 \<Rightarrow> u64 \<Rightarrow> u64 \<Rightarrow> pt_flag set \<Rightarrow> 'e pmem \<Rightarrow> ((elf_error + unit) \<times> 'e pmem) option" where
  "map_page ops pf root va frame flags m = do {
     v \<leftarrow> pt_virt ops va;
     (r3, m) \<leftarrow> ensure_table ops pf root (pt_index ops 4 v) m;
     case r3 of Inl e \<Rightarrow> Some (Inl e, m) | Inr p3 \<Rightarrow> do {
       (r2, m) \<leftarrow> ensure_table ops pf p3 (pt_index ops 3 v) m;
       case r2 of Inl e \<Rightarrow> Some (Inl e, m) | Inr p2 \<Rightarrow> do {
         (r1, m) \<leftarrow> ensure_table ops pf p2 (pt_index ops 2 v) m;
         case r1 of Inl e \<Rightarrow> Some (Inl e, m) | Inr p1 \<Rightarrow>
           Some (Inr (), m\<lparr>ptab := (ptab m)(p1 := (ptab m p1)(pt_index ops 1 v := pe_set ops frame (insert PRESENT flags)))\<rparr>)
       }
     }
   }"

definition va_to_pa :: "'e pt_ops \<Rightarrow> u64 \<Rightarrow> u64 \<Rightarrow> 'e pmem \<Rightarrow> u64 option option" where
  "va_to_pa ops root va m = do {
     v \<leftarrow> pt_virt ops va;
     Some (do {
       p3 \<leftarrow> pe_frame ops (ptab m root (pt_index ops 4 v));
       p2 \<leftarrow> pe_frame ops (ptab m p3 (pt_index ops 3 v));
       p1 \<leftarrow> pe_frame ops (ptab m p2 (pt_index ops 2 v));
       fr \<leftarrow> pe_frame ops (ptab m p1 (pt_index ops 1 v));
       Some (fr + (va AND 0xfff))
     })
   }"

definition page_mapped :: "'e pt_ops \<Rightarrow> u64 \<Rightarrow> u64 \<Rightarrow> 'e pmem \<Rightarrow> bool option" where
  "page_mapped ops root va m = do { r \<leftarrow> va_to_pa ops root (va AND NOT 0xfff) m; Some (r \<noteq> None) }"

text \<open>\<open>(start..end).step_by(4096)\<close>\<close>

definition page_range :: "u64 \<Rightarrow> u64 \<Rightarrow> u64 list" where
  "page_range start stop = map (\<lambda>i. start + of_nat i * 4096) [0..<(unat stop - unat start + 4095) div 4096]"

section \<open>Loading\<close>

text \<open>The two loops over pages differ in when the new frame is zeroed.\<close>

fun zero_pages_loop :: "'e pt_ops \<Rightarrow> (u64 \<Rightarrow> u64 option) \<Rightarrow> u64 \<Rightarrow> pt_flag set \<Rightarrow> u64 list \<Rightarrow> 'e pmem \<Rightarrow> ((elf_error + unit) \<times> 'e pmem) option" where
  "zero_pages_loop ops pf root flags [] m = Some (Inr (), m)"
| "zero_pages_loop ops pf root flags (cur # rest) m = do {
     mapped \<leftarrow> page_mapped ops root cur m;
     if mapped then zero_pages_loop ops pf root flags rest m
     else do {
       (r, m) \<leftarrow> take_frame pf m;
       case r of None \<Rightarrow> Some (Inl NoMem, m) | Some fr \<Rightarrow> do {
         (r, m) \<leftarrow> map_page ops pf root cur fr flags (zero_frame ops fr m);
         case r of Inl e \<Rightarrow> Some (Inl e, m) | Inr _ \<Rightarrow> zero_pages_loop ops pf root flags rest m
       }
     }
   }"

definition map_user_zero :: "'e pt_ops \<Rightarrow> (u64 \<Rightarrow> u64 option) \<Rightarrow> u64 \<Rightarrow> u64 \<Rightarrow> u64 \<Rightarrow> bool \<Rightarrow> 'e pmem \<Rightarrow> ((elf_error + unit) \<times> 'e pmem) option" where
  "map_user_zero ops pf root va len writable m = do {
     e \<leftarrow> checked_add va len;
     e \<leftarrow> checked_add e 0xfff;
     zero_pages_loop ops pf root (if writable then {USER_ACCESSIBLE, WRITABLE} else {USER_ACCESSIBLE})
       (page_range (va AND NOT 0xfff) (e AND NOT 0xfff)) m
   }"

fun seg_pages_loop :: "'e pt_ops \<Rightarrow> (u64 \<Rightarrow> u64 option) \<Rightarrow> u64 \<Rightarrow> pt_flag set \<Rightarrow> u64 list \<Rightarrow> 'e pmem \<Rightarrow> ((elf_error + unit) \<times> 'e pmem) option" where
  "seg_pages_loop ops pf root flags [] m = Some (Inr (), m)"
| "seg_pages_loop ops pf root flags (cur # rest) m = do {
     mapped \<leftarrow> page_mapped ops root cur m;
     if mapped then seg_pages_loop ops pf root flags rest m
     else do {
       (r, m) \<leftarrow> take_frame pf m;
       case r of None \<Rightarrow> Some (Inl NoMem, m) | Some fr \<Rightarrow> do {
         (r, m) \<leftarrow> map_page ops pf root cur fr flags m;
         case r of Inl e \<Rightarrow> Some (Inl e, m) | Inr _ \<Rightarrow> seg_pages_loop ops pf root flags rest (zero_frame ops fr m)
       }
     }
   }"

fun copy_into_user :: "'e pt_ops \<Rightarrow> u64 \<Rightarrow> u64 \<Rightarrow> nat \<Rightarrow> u8 list \<Rightarrow> 'e pmem \<Rightarrow> ((elf_error + unit) \<times> 'e pmem) option" where
  "copy_into_user ops root dst_va off [] m = Some (Inr (), m)"
| "copy_into_user ops root dst_va off (b # bs) m = do {
     va \<leftarrow> checked_add dst_va (of_nat off);
     pa \<leftarrow> va_to_pa ops root va m;
     case pa of
       None \<Rightarrow> Some (Inl BadPhdr, m)
     | Some pa \<Rightarrow> copy_into_user ops root dst_va (off + 1) bs (m\<lparr>pbyt := (pbyt m)(pa := b)\<rparr>)
   }"

definition seg_flags :: "elf64_phdr \<Rightarrow> pt_flag set" where
  "seg_flags ph = {USER_ACCESSIBLE} \<union> (if p_flags ph AND PF_W \<noteq> 0 then {WRITABLE} else {}) \<union> (if p_flags ph AND PF_X \<noteq> 0 then {} else {NO_EXECUTE})"

text \<open>The body of the loop over program headers for a segment to load.\<close>

definition load_segment :: "'e pt_ops \<Rightarrow> (u64 \<Rightarrow> u64 option) \<Rightarrow> u64 \<Rightarrow> u8 list \<Rightarrow> elf64_phdr \<Rightarrow> 'e pmem \<Rightarrow> ((elf_error + unit) \<times> 'e pmem) option" where
  "load_segment ops pf root img ph m = do {
     e \<leftarrow> checked_add (p_vaddr ph) (p_memsz ph);
     e \<leftarrow> checked_add e 0xfff;
     (r, m) \<leftarrow> seg_pages_loop ops pf root (seg_flags ph) (page_range (p_vaddr ph AND NOT 0xfff) (e AND NOT 0xfff)) m;
     case r of Inl err \<Rightarrow> Some (Inl err, m) | Inr _ \<Rightarrow>
       (case checked_add (p_offset ph) (p_filesz ph) of
          None \<Rightarrow> Some (Inl BadPhdr, m)
        | Some file_end \<Rightarrow>
            if unat file_end > length img then Some (Inl BadPhdr, m)
            else copy_into_user ops root (p_vaddr ph) 0 (take (unat (p_filesz ph)) (drop (unat (p_offset ph)) img)) m)
   }"

fun load_phdrs :: "'e pt_ops \<Rightarrow> (u64 \<Rightarrow> u64 option) \<Rightarrow> u64 \<Rightarrow> u8 list \<Rightarrow> u64 \<Rightarrow> u64 \<Rightarrow> nat list \<Rightarrow> 'e pmem \<Rightarrow> ((elf_error + unit) \<times> 'e pmem) option" where
  "load_phdrs ops pf root img phoff entsz [] m = Some (Inr (), m)"
| "load_phdrs ops pf root img phoff entsz (i # is) m = do {
     d \<leftarrow> checked_mul (of_nat i) entsz;
     off \<leftarrow> checked_add phoff d;
     r \<leftarrow> phdr_at img off;
     case r of Inl e \<Rightarrow> Some (Inl e, m) | Inr ph \<Rightarrow>
       if p_type ph \<noteq> PT_LOAD \<or> p_memsz ph = 0 then load_phdrs ops pf root img phoff entsz is m
       else do {
         (r, m) \<leftarrow> load_segment ops pf root img ph m;
         case r of Inl e \<Rightarrow> Some (Inl e, m) | Inr _ \<Rightarrow> load_phdrs ops pf root img phoff entsz is m
       }
   }"

definition load_elf64_user :: "'e pt_ops \<Rightarrow> (u64 \<Rightarrow> u64 option) \<Rightarrow> u64 \<Rightarrow> u8 list \<Rightarrow> 'e pmem \<Rightarrow> ((elf_error + u64) \<times> 'e pmem) option" where
  "load_elf64_user ops pf root img m =
     (case read_ehdr img of
        Inl e \<Rightarrow> Some (Inl e, m)
      | Inr eh \<Rightarrow>
          if unat (e_phentsize eh) < 56 then Some (Inl BadPhdr, m)
          else do {
            (r, m) \<leftarrow> load_phdrs ops pf root img (e_phoff eh) (ucast (e_phentsize eh)) [0..<unat (e_phnum eh)] m;
            Some (case r of Inl e \<Rightarrow> Inl e | Inr _ \<Rightarrow> Inr (e_entry eh), m)
          })"

text \<open>A new top-level table with the kernel's half of the current one.\<close>

definition new_user_address_space :: "'e pt_ops \<Rightarrow> (u64 \<Rightarrow> u64 option) \<Rightarrow> u64 \<Rightarrow> 'e pmem \<Rightarrow> (u64 \<times> 'e pmem) option" where
  "new_user_address_space ops pf cur_root m = do {
     (r, m) \<leftarrow> take_frame pf m;
     new_root \<leftarrow> r;
     let m = zero_frame ops new_root m;
     Some (new_root, m\<lparr>ptab := (ptab m)(new_root := \<lambda>i. if 256 \<le> i \<and> i < 512 then ptab m cur_root i else ptab m new_root i)\<rparr>)
   }"

end
