(* ===== verification/Elf_Props.thy ===== *)
theory Elf_Props
  imports Elf
begin

text \<open>
  What the loader of \<^verbatim>\<open>kernel/exec/elf.rs\<close> does to the image of a process. The tables of an address space are described
  by a map from paths of indices to frames (\<open>tree\<close>); over it, walking, growing and mapping are lemmas on the map, and
  the pages of the process form the function \<open>proc_image\<close> from addresses to bytes. A run of the loader is then a fold of
  \<open>place_segment\<close> over the segments of the file, and it fails only when the pool is too small.
\<close>

section \<open>What is relied on of the crate\<close>

definition page_idx4 :: "u64 \<Rightarrow> nat list" where
  "page_idx4 va = [unat va div 2 ^ 39 mod 512, unat va div 2 ^ 30 mod 512, unat va div 2 ^ 21 mod 512, unat va div 2 ^ 12 mod 512]"

definition pt_laws :: "'e pt_ops \<Rightarrow> bool" where
  "pt_laws ops \<longleftrightarrow> (\<forall>va. unat va < 2 ^ 47 \<longrightarrow> pt_virt ops va = Some va)
     \<and> (\<forall>va. [pt_index ops 4 va, pt_index ops 3 va, pt_index ops 2 va, pt_index ops 1 va] = page_idx4 va)
     \<and> pe_unused ops (pe_new ops) \<and> pe_frame ops (pe_new ops) = None
     \<and> (\<forall>a fl. 4096 dvd unat a \<longrightarrow> unat a < 2 ^ 52 \<longrightarrow> PRESENT \<in> fl \<longrightarrow>
          \<not> pe_unused ops (pe_set ops a fl) \<and> pe_frame ops (pe_set ops a fl) = Some a \<and> pe_addr ops (pe_set ops a fl) = a)"

section \<open>The tree of tables\<close>

text \<open>
  \<open>N\<close> names the frame at the end of every path of indices: the empty path is the root, a path of four is a page of the
  process. The tables hold exactly these frames, in the user half, and no frame is used twice or free.
\<close>

definition tree :: "'e pt_ops \<Rightarrow> (u64 \<Rightarrow> u64 option) \<Rightarrow> u64 \<Rightarrow> (nat list \<rightharpoonup> u64) \<Rightarrow> 'e pmem \<Rightarrow> bool" where
  "tree ops pf root N m \<longleftrightarrow> N [] = Some root \<and> inj_on N (dom N) \<and> pool_ok pf (pl m)
     \<and> (\<forall>p f. N p = Some f \<longrightarrow> f \<notin> free_frames (pl m) \<and> 4096 dvd unat f \<and> unat f < 2 ^ 52)
     \<and> (\<forall>p i. N (p @ [i]) \<noteq> None \<longrightarrow> N p \<noteq> None \<and> length p < 4 \<and> (p = [] \<longrightarrow> i < 256))
     \<and> (\<forall>p t i. N p = Some t \<longrightarrow> length p < 4 \<longrightarrow> (p = [] \<longrightarrow> i < 256) \<longrightarrow>
          (case N (p @ [i]) of
             None \<Rightarrow> pe_unused ops (ptab m t i) \<and> pe_frame ops (ptab m t i) = None
           | Some f \<Rightarrow> \<not> pe_unused ops (ptab m t i) \<and> pe_frame ops (ptab m t i) = Some f \<and> pe_addr ops (ptab m t i) = f))"

lemma tree_node:
  assumes "tree ops pf root N m" "N p = Some t" "length p < 4" "p = [] \<longrightarrow> i < 256"
  shows "pe_unused ops (ptab m t i) \<longleftrightarrow> N (p @ [i]) = None" "pe_frame ops (ptab m t i) = N (p @ [i])"
    "N (p @ [i]) = Some f \<Longrightarrow> pe_addr ops (ptab m t i) = f"
proof -
  have c: "case N (p @ [i]) of None \<Rightarrow> pe_unused ops (ptab m t i) \<and> pe_frame ops (ptab m t i) = None
      | Some f \<Rightarrow> \<not> pe_unused ops (ptab m t i) \<and> pe_frame ops (ptab m t i) = Some f \<and> pe_addr ops (ptab m t i) = f"
    using assms unfolding tree_def by blast
  then show "pe_unused ops (ptab m t i) \<longleftrightarrow> N (p @ [i]) = None" "pe_frame ops (ptab m t i) = N (p @ [i])"
    "N (p @ [i]) = Some f \<Longrightarrow> pe_addr ops (ptab m t i) = f" by (auto split: option.splits)
qed

text \<open>The walk of the tables gives the frame of the page.\<close>

lemma va_to_pa_tree:
  assumes "pt_laws ops" "tree ops pf root N m" "unat va < 2 ^ 47"
  shows "va_to_pa ops root va m = Some (map_option (\<lambda>f. f + (va AND 0xfff)) (N (page_idx4 va)))"
proof -
  define i4 i3 i2 i1 where i: "i4 = pt_index ops 4 va" "i3 = pt_index ops 3 va" "i2 = pt_index ops 2 va" "i1 = pt_index ops 1 va"
  have v: "pt_virt ops va = Some va" "page_idx4 va = [i4, i3, i2, i1]" using assms(1,3) by (auto simp: pt_laws_def i)
  have "i4 = unat va div 2 ^ 39 mod 512" using v(2) by (simp add: page_idx4_def)
  then have i4: "i4 < 256" using assms(3) by (simp add: less_mult_imp_div_less)
  have r: "N [] = Some root" using assms(2) by (simp add: tree_def)
  have pc: "N p = None \<Longrightarrow> N (p @ [i]) = None" for p i using assms(2) unfolding tree_def by metis
  note n = tree_node(2) [OF assms(2)]
  have s4: "pe_frame ops (ptab m root i4) = N [i4]" using n [OF r, of i4] i4 by simp
  show ?thesis
  proof (cases "N [i4]")
    case None
    then have "N [i4, i3] = None" using pc [of "[i4]" i3] by simp
    then have "N [i4, i3, i2] = None" using pc [of "[i4, i3]" i2] by simp
    then have "N [i4, i3, i2, i1] = None" using pc [of "[i4, i3, i2]" i1] by simp
    then show ?thesis using None s4 v by (simp add: va_to_pa_def i)
  next
    case (Some p3)
    then have s3: "pe_frame ops (ptab m p3 i3) = N [i4, i3]" using n [of "[i4]" p3 i3] by simp
    show ?thesis
    proof (cases "N [i4, i3]")
      case None
      then have "N [i4, i3, i2] = None" using pc [of "[i4, i3]" i2] by simp
      then have "N [i4, i3, i2, i1] = None" using pc [of "[i4, i3, i2]" i1] by simp
      then show ?thesis using None s4 s3 Some v by (simp add: va_to_pa_def i)
    next
      case p2: (Some p2)
      then have s2: "pe_frame ops (ptab m p2 i2) = N [i4, i3, i2]" using n [of "[i4, i3]" p2 i2] by simp
      show ?thesis
      proof (cases "N [i4, i3, i2]")
        case None
        then have "N [i4, i3, i2, i1] = None" using pc [of "[i4, i3, i2]" i1] by simp
        then show ?thesis using None s4 s3 s2 Some p2 v by (simp add: va_to_pa_def i)
      next
        case p1: (Some p1)
        then have "pe_frame ops (ptab m p1 i1) = N [i4, i3, i2, i1]" using n [of "[i4, i3, i2]" p1 i1] by simp
        then show ?thesis using s4 s3 s2 Some p2 p1 v by (cases "N [i4, i3, i2, i1]") (simp_all add: va_to_pa_def i)
      qed
    qed
  qed
qed

text \<open>A frame from the pool.\<close>

lemma take_frame_cases:
  assumes "pool_ok pf (pl m)"
  shows "\<exists>r m'. take_frame pf m = Some (r, m') \<and> ptab m' = ptab m \<and> pbyt m' = pbyt m \<and> pool_ok pf (pl m')
    \<and> (case r of None \<Rightarrow> pl m' = pl m \<and> free_frames (pl m) = {}
       | Some f \<Rightarrow> f \<in> free_frames (pl m) \<and> free_frames (pl m') = free_frames (pl m) - {f} \<and> 4096 dvd unat f \<and> unat f < 2 ^ 52)"
proof (cases "free_frames (pl m) = {}")
  case True
  then show ?thesis using try_alloc_empty [OF assms] assms by (simp add: take_frame_def)
next
  case False
  let ?f = "Min (free_frames (pl m))"
  obtain p' where p': "try_alloc pf (pl m) = Some (Some ?f, p')" "free_frames p' = free_frames (pl m) - {?f}" "pool_ok pf p'"
    using try_alloc_lowest [OF assms False] by blast
  have f: "?f \<in> free_frames (pl m)" using Min_in [OF finite_free_frames False] .
  then obtain i where i: "?f = frame_at (pl m) i" "i < tracked (pl m)" by (auto simp: free_frames_def)
  have inv: "pool_inv (pl m)" using assms by (simp add: pool_ok_def)
  have "unat ?f = unat (base (pl m)) + i * 4096" unfolding i(1) using unat_frame_at(1) [OF inv] i(2) by simp
  moreover have "unat (base (pl m)) + tracked (pl m) * 4096 \<le> 2 ^ 52" "4096 dvd unat (base (pl m))" using inv by (auto simp: pool_inv_def)
  moreover have "Suc i * 4096 \<le> tracked (pl m) * 4096" using i(2) by (intro mult_le_mono1) simp
  ultimately have "4096 dvd unat ?f" "unat ?f < 2 ^ 52" by auto
  then show ?thesis using p' f by (simp add: take_frame_def)
qed

text \<open>Hanging a frame into the tree.\<close>

lemma tree_extend:
  assumes "tree ops pf root N m" "N p = Some t" "length p < 4" "p = [] \<longrightarrow> i < 256" "N (p @ [i]) = None" "f \<notin> ran N"
    and "f \<notin> free_frames (pl m')" "4096 dvd unat f" "unat f < 2 ^ 52" "pool_ok pf (pl m')" "free_frames (pl m') \<subseteq> free_frames (pl m)"
    and same: "\<And>q u j. N q = Some u \<Longrightarrow> (u, j) \<noteq> (t, i) \<Longrightarrow> ptab m' u j = ptab m u j"
    and entry: "\<not> pe_unused ops (ptab m' t i)" "pe_frame ops (ptab m' t i) = Some f" "pe_addr ops (ptab m' t i) = f"
    and fresh: "\<And>j. length p < 3 \<Longrightarrow> pe_unused ops (ptab m' f j) \<and> pe_frame ops (ptab m' f j) = None"
  shows "tree ops pf root (N(p @ [i] \<mapsto> f)) m'"
proof -
  let ?N = "N(p @ [i] \<mapsto> f)"
  have t: "N [] = Some root" "inj_on N (dom N)" "\<And>p f. N p = Some f \<Longrightarrow> f \<notin> free_frames (pl m) \<and> 4096 dvd unat f \<and> unat f < 2 ^ 52"
      "\<And>p i. N (p @ [i]) \<noteq> None \<Longrightarrow> N p \<noteq> None \<and> length p < 4 \<and> (p = [] \<longrightarrow> i < 256)"
    using assms(1) unfolding tree_def by blast+
  have inj: "q = q'" if "N q = Some u" "N q' = Some u" for q q' u using t(2) that by (auto simp: inj_on_def dom_def)
  have node: "case ?N (q @ [j]) of None \<Rightarrow> pe_unused ops (ptab m' u j) \<and> pe_frame ops (ptab m' u j) = None
      | Some g \<Rightarrow> \<not> pe_unused ops (ptab m' u j) \<and> pe_frame ops (ptab m' u j) = Some g \<and> pe_addr ops (ptab m' u j) = g"
    if q: "?N q = Some u" "length q < 4" "q = [] \<longrightarrow> j < 256" for q u j
  proof (cases "q = p @ [i]")
    case True
    then have "u = f" "length p < 3" using q by auto
    moreover have "N (p @ [i] @ [j]) = None" using t(4) [of "p @ [i]" j] assms(5) by (cases "N (p @ [i] @ [j])") auto
    ultimately show ?thesis using True fresh [of j] by simp
  next
    case False
    then have nq: "N q = Some u" using q(1) by simp
    show ?thesis
    proof (cases "(u, j) = (t, i)")
      case True
      then have "q = p" using inj nq assms(2) by simp
      then show ?thesis using True entry by simp
    next
      case other: False
      then have ne: "q @ [j] \<noteq> p @ [i]" using nq assms(2) by auto
      have "case N (q @ [j]) of None \<Rightarrow> pe_unused ops (ptab m u j) \<and> pe_frame ops (ptab m u j) = None
          | Some g \<Rightarrow> \<not> pe_unused ops (ptab m u j) \<and> pe_frame ops (ptab m u j) = Some g \<and> pe_addr ops (ptab m u j) = g"
        using assms(1) nq q(2,3) unfolding tree_def by blast
      moreover have "?N (q @ [j]) = N (q @ [j])" using ne by (rule fun_upd_other)
      ultimately show ?thesis using same [OF nq other] by (cases "N (q @ [j])") simp_all
    qed
  qed
  have "inj_on ?N (dom ?N)" using t(2) assms(6) by (auto simp: inj_on_def ran_def)
  moreover have "?N [] = Some root" using t(1) by simp
  moreover have "g \<notin> free_frames (pl m') \<and> 4096 dvd unat g \<and> unat g < 2 ^ 52" if "?N q = Some g" for q g
    using that t(3) [of q g] assms(7,8,9,11) by (auto split: if_splits)
  moreover have "?N q \<noteq> None \<and> length q < 4 \<and> (q = [] \<longrightarrow> j < 256)" if "?N (q @ [j]) \<noteq> None" for q j
    using that t(4) [of q j] assms(2,3,4) by (auto split: if_splits)
  ultimately show ?thesis unfolding tree_def using assms(10) node by blast
qed

text \<open>The bytes of a page.\<close>

abbreviation page_kept :: "'e pmem \<Rightarrow> 'e pmem \<Rightarrow> u64 \<Rightarrow> bool" where
  "page_kept m m' u \<equiv> (\<forall>r < 4096. pbyt m' (u + of_nat r) = pbyt m (u + of_nat r))"

lemma zero_frame_byt:
  assumes "4096 dvd unat u" "4096 dvd unat f" "r < 4096"
  shows "pbyt (zero_frame ops f m) (u + of_nat r) = (if u = f then 0 else pbyt m (u + of_nat r))"
proof (cases "u = f")
  case True
  have "unat (f + of_nat r - f) = r" using assms(3) by (simp add: unat_of_nat)
  then show ?thesis using True assms(3) by (simp add: zero_frame_def write_bytes_def)
next
  case False
  then have "\<not> unat (u + of_nat r - f) < 4096" using pages_distinct_bytes(1) [OF assms] by simp
  then show ?thesis using False by (simp add: zero_frame_def write_bytes_def)
qed

text \<open>The tables have grown by at most \<open>k\<close> frames and the pages of the process are what they were.\<close>

definition grows :: "'e pt_ops \<Rightarrow> (u64 \<Rightarrow> u64 option) \<Rightarrow> u64 \<Rightarrow> nat \<Rightarrow> (nat list \<rightharpoonup> u64) \<Rightarrow> 'e pmem \<Rightarrow> (nat list \<rightharpoonup> u64) \<Rightarrow> 'e pmem \<Rightarrow> bool" where
  "grows ops pf root k N m N' m' \<longleftrightarrow> tree ops pf root N' m' \<and> (\<forall>q. length q = 4 \<longrightarrow> N' q = N q) \<and> ran N' \<subseteq> ran N \<union> free_frames (pl m)
     \<and> free_frames (pl m') \<subseteq> free_frames (pl m) \<and> card (free_frames (pl m)) \<le> card (free_frames (pl m')) + k
     \<and> (\<forall>u. 4096 dvd unat u \<longrightarrow> u \<notin> free_frames (pl m) \<longrightarrow> page_kept m m' u)"

lemma grows_refl: "tree ops pf root N m \<Longrightarrow> grows ops pf root k N m N m"
  by (auto simp: grows_def)

lemma grows_trans:
  assumes "grows ops pf root k N m N1 m1" "grows ops pf root j N1 m1 N2 m2"
  shows "grows ops pf root (k + j) N m N2 m2"
proof -
  have sub: "free_frames (pl m1) \<subseteq> free_frames (pl m)" using assms(1) by (simp add: grows_def)
  have "page_kept m m2 u" if u: "4096 dvd unat u" "u \<notin> free_frames (pl m)" for u
  proof -
    have "page_kept m m1 u" using assms(1) u unfolding grows_def by blast
    moreover have "page_kept m1 m2 u" using assms(2) u sub unfolding grows_def by blast
    ultimately show ?thesis by simp
  qed
  moreover have "tree ops pf root N2 m2" "\<forall>q. length q = 4 \<longrightarrow> N2 q = N q" "ran N2 \<subseteq> ran N \<union> free_frames (pl m)"
      "free_frames (pl m2) \<subseteq> free_frames (pl m)" "card (free_frames (pl m)) \<le> card (free_frames (pl m2)) + (k + j)"
    using assms sub unfolding grows_def by auto
  ultimately show ?thesis unfolding grows_def by blast
qed

lemma ensure_table_ok:
  assumes "pt_laws ops" "tree ops pf root N m" "N p = Some t" "length p < 3" "p = [] \<longrightarrow> i < 256"
  shows "(free_frames (pl m) = {} \<and> (\<exists>m'. ensure_table ops pf t i m = Some (Inl NoMem, m')))
    \<or> (\<exists>f m' N'. ensure_table ops pf t i m = Some (Inr f, m') \<and> grows ops pf root 1 N m N' m' \<and> N' (p @ [i]) = Some f)"
proof (cases "N (p @ [i])")
  case (Some f)
  then have "ensure_table ops pf t i m = Some (Inr f, m)" using tree_node [OF assms(2,3), of i] assms(4,5) by (simp add: ensure_table_def)
  then show ?thesis using grows_refl [OF assms(2)] Some by blast
next
  case None
  have pool: "pool_ok pf (pl m)" using assms(2) by (simp add: tree_def)
  have un: "pe_unused ops (ptab m t i)" using tree_node(1) [OF assms(2,3)] assms(4,5) None by simp
  obtain r m1 where m1: "take_frame pf m = Some (r, m1)" "ptab m1 = ptab m" "pbyt m1 = pbyt m" "pool_ok pf (pl m1)"
      "case r of None \<Rightarrow> pl m1 = pl m \<and> free_frames (pl m) = {}
       | Some f \<Rightarrow> f \<in> free_frames (pl m) \<and> free_frames (pl m1) = free_frames (pl m) - {f} \<and> 4096 dvd unat f \<and> unat f < 2 ^ 52"
    using take_frame_cases [OF pool] by blast
  show ?thesis
  proof (cases r)
    case no: None
    then show ?thesis using un m1(1,5) by (simp add: ensure_table_def)
  next
    case (Some f)
    then have f: "f \<in> free_frames (pl m)" "free_frames (pl m1) = free_frames (pl m) - {f}" "4096 dvd unat f" "unat f < 2 ^ 52" using m1(5) by auto
    have fr: "f \<notin> ran N" using assms(2) f(1) unfolding tree_def ran_def by blast
    then have ft: "f \<noteq> t" using assms(3) by (auto simp: ran_def)
    let ?N = "N(p @ [i] \<mapsto> f)"
    let ?e = "pe_set ops f {PRESENT, WRITABLE, USER_ACCESSIBLE}"
    let ?z = "zero_frame ops f m1"
    let ?m = "?z\<lparr>ptab := (ptab ?z)(t := (ptab ?z t)(i := ?e))\<rparr>"
    have law: "\<not> pe_unused ops ?e" "pe_frame ops ?e = Some f" "pe_addr ops ?e = f" "pe_unused ops (pe_new ops)" "pe_frame ops (pe_new ops) = None"
      using assms(1) f(3,4) unfolding pt_laws_def by auto
    have plz: "pl ?m = pl m1" "ptab ?m t i = ?e" "\<And>j. ptab ?m f j = pe_new ops" using ft by (simp_all add: zero_frame_def)
    have sm: "ptab ?m u j = ptab m u j" if "N q = Some u" "(u, j) \<noteq> (t, i)" for q u j
      using that fr m1(2) by (auto simp: zero_frame_def ran_def)
    have "tree ops pf root ?N ?m"
      using tree_extend [OF assms(2,3) _ assms(5) None fr, of ?m] assms(4) f m1(4) plz law sm by fastforce
    moreover have "page_kept m ?m u" if "4096 dvd unat u" "u \<notin> free_frames (pl m)" for u
    proof -
      have "u \<noteq> f" using that(2) f(1) by auto
      then show ?thesis using zero_frame_byt [OF that(1) f(3), of _ ops m1] m1(3) by simp
    qed
    moreover have "ran ?N \<subseteq> ran N \<union> free_frames (pl m)" using f(1) by (auto simp: ran_def)
    moreover have "card (free_frames (pl m)) \<le> card (free_frames (pl ?m)) + 1" using f(1,2) plz(1) by (simp add: card_Diff_singleton)
    ultimately have "grows ops pf root 1 N m ?N ?m" unfolding grows_def using f(2) plz(1) assms(4) by auto
    moreover have "ensure_table ops pf t i m = Some (Inr f, ?m)" using un m1(1) Some law(3) plz(2) by (simp add: ensure_table_def Let_def)
    ultimately show ?thesis by (metis fun_upd_same)
  qed
qed

lemma page_idx4_user: "unat va < 2 ^ 47 \<Longrightarrow> page_idx4 va ! 0 < 256"
  by (simp add: page_idx4_def less_mult_imp_div_less)

text \<open>Mapping a page takes at most three frames for tables and fails only when there are fewer.\<close>

lemma map_page_ok:
  assumes "pt_laws ops" "tree ops pf root N m" "unat va < 2 ^ 47" "N (page_idx4 va) = None"
    and "fr \<notin> ran N" "fr \<notin> free_frames (pl m)" "4096 dvd unat fr" "unat fr < 2 ^ 52"
  shows "(card (free_frames (pl m)) < 3 \<and> (\<exists>m'. map_page ops pf root va fr flags m = Some (Inl NoMem, m')))
    \<or> (\<exists>m' N'. map_page ops pf root va fr flags m = Some (Inr (), m') \<and> tree ops pf root (N'(page_idx4 va \<mapsto> fr)) m'
         \<and> (\<forall>q. length q = 4 \<longrightarrow> N' q = N q) \<and> (\<forall>q. length q < 4 \<longrightarrow> N' q \<noteq> Some fr) \<and> card (free_frames (pl m)) \<le> card (free_frames (pl m')) + 3
         \<and> (\<forall>u. 4096 dvd unat u \<longrightarrow> u \<notin> free_frames (pl m) \<longrightarrow> page_kept m m' u))"
proof -
  define i4 i3 i2 i1 where i: "i4 = pt_index ops 4 va" "i3 = pt_index ops 3 va" "i2 = pt_index ops 2 va" "i1 = pt_index ops 1 va"
  have v: "pt_virt ops va = Some va" and px: "page_idx4 va = [i4, i3, i2, i1]" using assms(1,3) by (auto simp: pt_laws_def i)
  have i4: "i4 < 256" using page_idx4_user [OF assms(3)] px by simp
  have root: "N [] = Some root" using assms(2) by (simp add: tree_def)
  consider m3 where "free_frames (pl m) = {}" "ensure_table ops pf root i4 m = Some (Inl NoMem, m3)"
    | p3 m3 N3 where "ensure_table ops pf root i4 m = Some (Inr p3, m3)" "grows ops pf root 1 N m N3 m3" "N3 [i4] = Some p3"
    using ensure_table_ok [OF assms(1,2) root, of i4] i4 by auto
  then show ?thesis
  proof cases
    case 1
    then show ?thesis using v by (simp add: map_page_def i)
  next
    case e3: (2 p3 m3 N3)
    then have t3: "tree ops pf root N3 m3" by (simp add: grows_def)
    consider m2 where "free_frames (pl m3) = {}" "ensure_table ops pf p3 i3 m3 = Some (Inl NoMem, m2)"
      | p2 m2 N2 where "ensure_table ops pf p3 i3 m3 = Some (Inr p2, m2)" "grows ops pf root 1 N3 m3 N2 m2" "N2 [i4, i3] = Some p2"
      using ensure_table_ok [OF assms(1) t3 e3(3), of i3] by auto
    then show ?thesis
    proof cases
      case 1
      then show ?thesis using v e3 by (simp add: map_page_def i grows_def)
    next
      case e2: (2 p2 m2 N2)
      then have t2: "tree ops pf root N2 m2" and g2: "grows ops pf root 2 N m N2 m2"
        using grows_trans [OF e3(2) e2(2)] by (simp_all add: grows_def numeral_2_eq_2)
      consider m1 where "free_frames (pl m2) = {}" "ensure_table ops pf p2 i2 m2 = Some (Inl NoMem, m1)"
        | p1 m1 N1 where "ensure_table ops pf p2 i2 m2 = Some (Inr p1, m1)" "grows ops pf root 1 N2 m2 N1 m1" "N1 [i4, i3, i2] = Some p1"
        using ensure_table_ok [OF assms(1) t2 e2(3), of i2] by auto
      then show ?thesis
      proof cases
        case 1
        then show ?thesis using v e3 e2 g2 by (simp add: map_page_def i grows_def)
      next
        case e1: (2 p1 m1 N1)
        then have g1: "grows ops pf root 3 N m N1 m1" using grows_trans [OF g2 e1(2)] by simp
        then have t1: "tree ops pf root N1 m1" "free_frames (pl m1) \<subseteq> free_frames (pl m)" "fr \<notin> ran N1" "pool_ok pf (pl m1)"
          using assms(5,6) by (auto simp: grows_def tree_def)
        let ?e = "pe_set ops fr (insert PRESENT flags)"
        let ?m = "m1\<lparr>ptab := (ptab m1)(p1 := (ptab m1 p1)(i1 := ?e))\<rparr>"
        have run: "map_page ops pf root va fr flags m = Some (Inr (), ?m)" using e3 e2 e1 v by (simp add: map_page_def i)
        have law: "\<not> pe_unused ops ?e" "pe_frame ops ?e = Some fr" "pe_addr ops ?e = fr" using assms(1,7,8) unfolding pt_laws_def by auto
        have none: "N1 ([i4, i3, i2] @ [i1]) = None" using g1 assms(4) px by (simp add: grows_def)
        have sm: "ptab ?m u j = ptab m1 u j" if "(u, j) \<noteq> (p1, i1)" for u j using that by auto
        have "tree ops pf root (N1([i4, i3, i2] @ [i1] \<mapsto> fr)) ?m"
          by (rule tree_extend [OF t1(1) e1(3) _ _ none t1(3)]) (use assms(6,7,8) t1 law sm in auto)
        moreover have "N1 q \<noteq> Some fr" for q using t1(3) by (auto simp: ran_def)
        ultimately show ?thesis using run px g1 unfolding grows_def by (intro disjI2 exI [of _ ?m] exI [of _ N1]) simp
      qed
    qed
  qed
qed

section \<open>The image of a process\<close>

text \<open>The byte at a user address, read through the tables.\<close>

definition proc_image :: "'e pt_ops \<Rightarrow> u64 \<Rightarrow> 'e pmem \<Rightarrow> nat \<Rightarrow> u8 option" where
  "proc_image ops root m a = (if a < 2 ^ 47 then case va_to_pa ops root (of_nat a) m of Some (Some pa) \<Rightarrow> Some (pbyt m pa) | _ \<Rightarrow> None else None)"

definition user_space :: "'e pt_ops \<Rightarrow> (u64 \<Rightarrow> u64 option) \<Rightarrow> u64 \<Rightarrow> 'e pmem \<Rightarrow> bool" where
  "user_space ops pf root m \<longleftrightarrow> (\<exists>N. tree ops pf root N m)"

lemma unat_user: "a < 2 ^ 47 \<Longrightarrow> unat (of_nat a :: u64) = a"
  by (simp add: unat_of_nat take_bit_eq_mod)

lemma proc_image_tree:
  assumes "pt_laws ops" "tree ops pf root N m" "a < 2 ^ 47"
  shows "proc_image ops root m a = map_option (\<lambda>f. pbyt m (f + of_nat (a mod 4096))) (N (page_idx4 (of_nat a)))"
  using va_to_pa_tree [OF assms(1,2), of "of_nat a"] assms(3) unat_user [OF assms(3)]
  by (cases "N (page_idx4 (of_nat a))") (simp_all add: proc_image_def and_fff(1))

lemma page_idx4_eq:
  assumes "unat va < 2 ^ 47" "unat vb < 2 ^ 47"
  shows "page_idx4 va = page_idx4 vb \<longleftrightarrow> unat va div 4096 = unat vb div 4096"
proof -
  define x y where xy: "x = unat va div 4096" "y = unat vb div 4096"
  have d: "n div 2 ^ 39 = n div 4096 div 512 div 512 div 512" "n div 2 ^ 30 = n div 4096 div 512 div 512"
    "n div 2 ^ 21 = n div 4096 div 512" "n div 2 ^ 12 = n div 4096" for n :: nat
    by (simp_all add: div_mult2_eq [symmetric])
  have l: "x div 512 div 512 div 512 < 512" "y div 512 div 512 div 512 < 512" using assms by (simp_all add: xy div_mult2_eq [symmetric] less_mult_imp_div_less)
  have step: "n = k" if "n mod 512 = k mod 512" "n div 512 = k div 512" for n k :: nat using that by (metis div_mult_mod_eq)
  have "x = y" if "page_idx4 va = page_idx4 vb"
  proof -
    have e: "x div 512 div 512 div 512 mod 512 = y div 512 div 512 div 512 mod 512" "x div 512 div 512 mod 512 = y div 512 div 512 mod 512"
        "x div 512 mod 512 = y div 512 mod 512" "x mod 512 = y mod 512"
      using that by (simp_all only: page_idx4_def d xy list.inject)
    have "x div 512 div 512 div 512 = y div 512 div 512 div 512" using l e(1) by simp
    then have "x div 512 div 512 = y div 512 div 512" by (rule step [OF e(2)])
    then have "x div 512 = y div 512" by (rule step [OF e(3)])
    then show ?thesis by (rule step [OF e(4)])
  qed
  moreover have "page_idx4 va = page_idx4 vb" if "x = y" using that by (simp only: page_idx4_def d xy)
  ultimately show ?thesis unfolding xy by blast
qed

lemma page_idx4_base: "page_idx4 (va AND NOT 0xfff) = page_idx4 va"
proof -
  have d: "n div 2 ^ 39 = n div 4096 div 2 ^ 27" "n div 2 ^ 30 = n div 4096 div 2 ^ 18"
    "n div 2 ^ 21 = n div 4096 div 2 ^ 9" "n div 2 ^ 12 = n div 4096" for n :: nat
    by (simp_all add: div_mult2_eq [symmetric])
  have "unat (va AND NOT 0xfff) div 4096 = unat va div 4096" unfolding and_fff(2) minus_mod_eq_div_mult by simp
  then show ?thesis by (simp only: page_idx4_def d)
qed

lemma page_mapped_tree:
  assumes "pt_laws ops" "tree ops pf root N m" "unat va < 2 ^ 47"
  shows "page_mapped ops root va m = Some (N (page_idx4 va) \<noteq> None)"
proof -
  have "unat (va AND NOT 0xfff) < 2 ^ 47" unfolding and_fff(2) using assms(3) by simp
  from va_to_pa_tree [OF assms(1,2) this] show ?thesis unfolding page_idx4_base by (simp add: page_mapped_def)
qed

section \<open>New pages\<close>

lemma tree_same:
  assumes "tree ops pf root N m" "\<And>p t. N p = Some t \<Longrightarrow> length p < 4 \<Longrightarrow> ptab m' t = ptab m t"
    and "pool_ok pf (pl m')" "free_frames (pl m') \<subseteq> free_frames (pl m)"
  shows "tree ops pf root N m'"
proof -
  have "case N (p @ [i]) of None \<Rightarrow> pe_unused ops (ptab m' t i) \<and> pe_frame ops (ptab m' t i) = None
      | Some g \<Rightarrow> \<not> pe_unused ops (ptab m' t i) \<and> pe_frame ops (ptab m' t i) = Some g \<and> pe_addr ops (ptab m' t i) = g"
    if "N p = Some t" "length p < 4" "p = [] \<longrightarrow> i < 256" for p t i
    unfolding assms(2) [OF that(1,2)] using that assms(1) unfolding tree_def by blast
  moreover have "f \<notin> free_frames (pl m')" if "N p = Some f" for p f using that assms(1,4) unfolding tree_def by blast
  ultimately show ?thesis using assms(1,3) unfolding tree_def by simp
qed

lemma tree_zero:
  assumes "tree ops pf root N m" "\<And>p. length p < 4 \<Longrightarrow> N p \<noteq> Some f"
  shows "tree ops pf root N (zero_frame ops f m)"
proof (rule tree_same [OF assms(1)])
  show "ptab (zero_frame ops f m) t = ptab m t" if "N p = Some t" "length p < 4" for p t
    using that(1) assms(2) [OF that(2)] by (auto simp: zero_frame_def)
qed (use assms(1) in \<open>simp_all add: zero_frame_def tree_def\<close>)

lemma take_frame_tree:
  assumes "tree ops pf root N m"
  shows "(free_frames (pl m) = {} \<and> (\<exists>m'. take_frame pf m = Some (None, m')))
    \<or> (\<exists>f m'. take_frame pf m = Some (Some f, m') \<and> tree ops pf root N m' \<and> pbyt m' = pbyt m \<and> f \<notin> ran N
         \<and> f \<in> free_frames (pl m) \<and> free_frames (pl m') = free_frames (pl m) - {f} \<and> 4096 dvd unat f \<and> unat f < 2 ^ 52
         \<and> card (free_frames (pl m)) = card (free_frames (pl m')) + 1)"
proof -
  have "pool_ok pf (pl m)" using assms by (simp add: tree_def)
  then obtain r m' where m': "take_frame pf m = Some (r, m')" "ptab m' = ptab m" "pbyt m' = pbyt m" "pool_ok pf (pl m')"
      "case r of None \<Rightarrow> pl m' = pl m \<and> free_frames (pl m) = {}
       | Some f \<Rightarrow> f \<in> free_frames (pl m) \<and> free_frames (pl m') = free_frames (pl m) - {f} \<and> 4096 dvd unat f \<and> unat f < 2 ^ 52"
    using take_frame_cases by blast
  show ?thesis
  proof (cases r)
    case None
    then show ?thesis using m'(1,5) by simp
  next
    case (Some f)
    then have f: "f \<in> free_frames (pl m)" "free_frames (pl m') = free_frames (pl m) - {f}" "4096 dvd unat f" "unat f < 2 ^ 52" using m'(5) by auto
    have "tree ops pf root N m'" using m'(2,4) f(2) by (intro tree_same [OF assms]) auto
    moreover have "f \<notin> ran N" using assms f(1) unfolding tree_def ran_def by blast
    moreover have "card (free_frames (pl m)) = card (free_frames (pl m')) + 1"
      unfolding f(2) using f(1) finite_free_frames by (simp add: card_Suc_Diff1 del: card_Diff_insert)
    ultimately show ?thesis using m'(1,3) f Some by blast
  qed
qed

text \<open>The image with pages of zeros where nothing was mapped.\<close>

definition map_pages :: "u64 list \<Rightarrow> (nat \<Rightarrow> u8 option) \<Rightarrow> nat \<Rightarrow> u8 option" where
  "map_pages cs I a = (if I a = None \<and> a < 2 ^ 47 \<and> (\<exists>c \<in> set cs. a div 4096 = unat c div 4096) then Some 0 else I a)"

lemma new_page_image:
  assumes "pt_laws ops" "tree ops pf root N m" "tree ops pf root N' m'" "unat c < 2 ^ 47" "N (page_idx4 c) = None"
    and "\<And>q. length q = 4 \<Longrightarrow> N' q = (N(page_idx4 c \<mapsto> fr)) q"
    and kept: "\<And>u. 4096 dvd unat u \<Longrightarrow> u \<notin> free_frames (pl m) \<Longrightarrow> page_kept m m' u" and zero: "\<And>r. r < 4096 \<Longrightarrow> pbyt m' (fr + of_nat r) = 0"
  shows "proc_image ops root m' = map_pages [c] (proc_image ops root m)"
proof
  fix a
  show "proc_image ops root m' a = map_pages [c] (proc_image ops root m) a"
  proof (cases "a < 2 ^ 47")
    case False
    then show ?thesis by (simp add: proc_image_def map_pages_def)
  next
    case True
    have len: "length (page_idx4 (of_nat a)) = 4" by (simp add: page_idx4_def)
    note i = proc_image_tree [OF assms(1,2) True] and i' = proc_image_tree [OF assms(1,3) True]
    show ?thesis
    proof (cases "a div 4096 = unat c div 4096")
      case eq: True
      then have "page_idx4 (of_nat a) = page_idx4 c" using page_idx4_eq [of "of_nat a" c] assms(4) True unat_user [OF True] by simp
      then show ?thesis using i i' assms(5) assms(6) [OF len] zero [of "a mod 4096"] eq True by (simp add: map_pages_def)
    next
      case ne: False
      then have "page_idx4 (of_nat a) \<noteq> page_idx4 c" using page_idx4_eq [of "of_nat a" c] assms(4) True unat_user [OF True] by simp
      then have n: "N' (page_idx4 (of_nat a)) = N (page_idx4 (of_nat a))" using assms(6) [OF len] by simp
      have "pbyt m' (f + of_nat (a mod 4096)) = pbyt m (f + of_nat (a mod 4096))" if "N (page_idx4 (of_nat a)) = Some f" for f
      proof -
        have "4096 dvd unat f" "f \<notin> free_frames (pl m)" using assms(2) that unfolding tree_def by blast+
        then show ?thesis using kept [of f] by simp
      qed
      then show ?thesis using i i' n ne by (cases "N (page_idx4 (of_nat a))") (simp_all add: map_pages_def)
    qed
  qed
qed

text \<open>A new page of zeros, zeroed before it is mapped (\<open>b\<close>) or after.\<close>

definition zero_if :: "'e pt_ops \<Rightarrow> u64 \<Rightarrow> bool \<Rightarrow> 'e pmem \<Rightarrow> 'e pmem" where
  "zero_if ops f b m = (if b then zero_frame ops f m else m)"

lemma new_page:
  assumes "pt_laws ops" "tree ops pf root N m" "unat c < 2 ^ 47" "N (page_idx4 c) = None"
  obtains (no_frame) m' where "card (free_frames (pl m)) < 4" "take_frame pf m = Some (None, m')"
    | (no_table) f m1 m2 where "card (free_frames (pl m)) < 4" "take_frame pf m = Some (Some f, m1)"
        "map_page ops pf root c f flags (zero_if ops f b m1) = Some (Inl NoMem, m2)"
    | (new) f m1 m2 where "take_frame pf m = Some (Some f, m1)" "map_page ops pf root c f flags (zero_if ops f b m1) = Some (Inr (), m2)"
        "user_space ops pf root (zero_if ops f (\<not> b) m2)" "card (free_frames (pl m)) \<le> card (free_frames (pl (zero_if ops f (\<not> b) m2))) + 4"
        "proc_image ops root (zero_if ops f (\<not> b) m2) = map_pages [c] (proc_image ops root m)"
proof -
  consider m' where "free_frames (pl m) = {}" "take_frame pf m = Some (None, m')"
    | f m1 where "take_frame pf m = Some (Some f, m1)" "tree ops pf root N m1" "pbyt m1 = pbyt m" "f \<notin> ran N" "f \<in> free_frames (pl m)"
        "free_frames (pl m1) = free_frames (pl m) - {f}" "4096 dvd unat f" "unat f < 2 ^ 52" "card (free_frames (pl m)) = card (free_frames (pl m1)) + 1"
    using take_frame_tree [OF assms(2)] by blast
  then show thesis
  proof cases
    case 1
    then show thesis using no_frame by simp
  next
    case f: (2 f m1)
    define z where z_if: "z = zero_if ops f"
    then have z_def: "z = (\<lambda>b m. if b then zero_frame ops f m else m)" by (simp add: zero_if_def fun_eq_iff)
    have zp: "pl (z b m) = pl m" for b m by (simp add: z_def zero_frame_def)
    have t1: "tree ops pf root N (z b m1)" using tree_zero [OF f(2)] f(2,4) by (auto simp: z_def ran_def)
    have fz: "f \<notin> free_frames (pl (z b m1))" using f(6) zp by simp
    consider m2 where "card (free_frames (pl m1)) < 3" "map_page ops pf root c f flags (z b m1) = Some (Inl NoMem, m2)"
      | m2 N' where "map_page ops pf root c f flags (z b m1) = Some (Inr (), m2)" "tree ops pf root (N'(page_idx4 c \<mapsto> f)) m2"
          "\<forall>q. length q = 4 \<longrightarrow> N' q = N q" "\<forall>q. length q < 4 \<longrightarrow> N' q \<noteq> Some f" "card (free_frames (pl m1)) \<le> card (free_frames (pl m2)) + 3"
          "\<forall>u. 4096 dvd unat u \<longrightarrow> u \<notin> free_frames (pl m1) \<longrightarrow> page_kept (z b m1) m2 u"
      using map_page_ok [OF assms(1) t1 assms(3,4) f(4) fz f(7,8), of flags] unfolding zp by blast
    then show thesis
    proof cases
      case 1
      then show thesis using no_table f(1,9) unfolding z_if by simp
    next
      case p: (2 m2 N')
      let ?m = "z (\<not> b) m2"
      have t2: "tree ops pf root (N'(page_idx4 c \<mapsto> f)) ?m"
      proof (cases b)
        case False
        have "(N'(page_idx4 c \<mapsto> f)) q \<noteq> Some f" if "length q < 4" for q
          using that p(4) by (auto simp: page_idx4_def)
        then show ?thesis using tree_zero [OF p(2), of f] False by (simp add: z_def)
      qed (use p(2) in \<open>simp add: z_def\<close>)
      have zero: "pbyt ?m (f + of_nat r) = 0" if "r < 4096" for r
        using zero_frame_byt [OF f(7,7) that] p(6) f(6,7) that by (cases b) (auto simp: z_def)
      have kept: "page_kept m ?m u" if u: "4096 dvd unat u" "u \<notin> free_frames (pl m)" for u
      proof -
        have ne: "u \<noteq> f" using u(2) f(5) by auto
        have "page_kept (z b m1) m2 u" using p(6) u f(6) by blast
        then show ?thesis using ne f(3) by (cases b) (simp_all add: z_def zero_frame_byt [OF u(1) f(7)])
      qed
      have "proc_image ops root ?m = map_pages [c] (proc_image ops root m)"
        by (rule new_page_image [OF assms(1,2) t2 assms(3,4) _ kept zero]) (use p(3) in auto)
      moreover have "user_space ops pf root ?m" using t2 by (auto simp: user_space_def)
      moreover have "card (free_frames (pl m)) \<le> card (free_frames (pl ?m)) + 4" using p(5) f(9) zp by simp
      ultimately show thesis using new [OF f(1)] p(1) unfolding z_if by blast
    qed
  qed
qed

lemma map_pages_Cons: "map_pages (c # cs) I = map_pages cs (map_pages [c] I)"
  by (auto simp: map_pages_def fun_eq_iff)

lemma map_pages_mapped:
  assumes "pt_laws ops" "tree ops pf root N m" "unat c < 2 ^ 47" "N (page_idx4 c) \<noteq> None"
  shows "map_pages [c] (proc_image ops root m) = proc_image ops root m"
proof
  fix a
  have "proc_image ops root m a \<noteq> None" if "a < 2 ^ 47" "a div 4096 = unat c div 4096"
  proof -
    have "page_idx4 (of_nat a) = page_idx4 c" using page_idx4_eq [of "of_nat a" c] assms(3) that unat_user [OF that(1)] by simp
    then show ?thesis using proc_image_tree [OF assms(1,2) that(1)] assms(4) by simp
  qed
  then show "map_pages [c] (proc_image ops root m) a = proc_image ops root m a" by (auto simp: map_pages_def)
qed

text \<open>What both loops over pages do; they fail only when the pool is too small.\<close>

definition pages_done :: "'e pt_ops \<Rightarrow> (u64 \<Rightarrow> u64 option) \<Rightarrow> u64 \<Rightarrow> u64 list \<Rightarrow> 'e pmem \<Rightarrow> ((elf_error + unit) \<times> 'e pmem) option \<Rightarrow> bool" where
  "pages_done ops pf root cs m res \<longleftrightarrow>
     (card (free_frames (pl m)) < 4 * length cs \<and> (\<exists>m'. res = Some (Inl NoMem, m')))
     \<or> (\<exists>m'. res = Some (Inr (), m') \<and> user_space ops pf root m' \<and> card (free_frames (pl m)) \<le> card (free_frames (pl m')) + 4 * length cs
          \<and> proc_image ops root m' = map_pages cs (proc_image ops root m))"

lemma pages_done_step:
  assumes "user_space ops pf root m1 \<Longrightarrow> pages_done ops pf root cs m1 res" "user_space ops pf root m1"
    and "card (free_frames (pl m)) \<le> card (free_frames (pl m1)) + 4" "proc_image ops root m1 = map_pages [c] (proc_image ops root m)"
  shows "pages_done ops pf root (c # cs) m res"
proof -
  have "map_pages cs (proc_image ops root m1) = map_pages (c # cs) (proc_image ops root m)" unfolding assms(4) by (rule map_pages_Cons [symmetric])
  then show ?thesis using assms(1) [OF assms(2)] assms(3) unfolding pages_done_def by auto
qed

lemma seg_pages_loop_ok:
  assumes "pt_laws ops" "\<And>c. c \<in> set cs \<Longrightarrow> unat c < 2 ^ 47" "user_space ops pf root m"
  shows "pages_done ops pf root cs m (seg_pages_loop ops pf root flags cs m)"
  using assms(2,3)
proof (induction cs arbitrary: m)
  case Nil
  then show ?case by (simp add: pages_done_def map_pages_def fun_eq_iff)
next
  case (Cons c cs)
  obtain N where t: "tree ops pf root N m" using Cons.prems(2) by (auto simp: user_space_def)
  have c: "unat c < 2 ^ 47" using Cons.prems(1) by simp
  note ih = Cons.IH [OF Cons.prems(1) [OF list.set_intros(2)]]
  note pm = page_mapped_tree [OF assms(1) t c]
  show ?case
  proof (cases "N (page_idx4 c)")
    case (Some f)
    then have "pages_done ops pf root (c # cs) m (seg_pages_loop ops pf root flags cs m)"
      using pages_done_step [OF ih Cons.prems(2)] map_pages_mapped [OF assms(1) t c] by auto
    then show ?thesis using Some pm by simp
  next
    case None
    show ?thesis
    proof (cases rule: new_page [OF assms(1) t c None, where flags = flags and b = False, case_names no_frame no_table new])
      case (new f m1 m2)
      from pages_done_step [OF ih this(3,4,5)] show ?thesis using new(1,2) None pm by (simp add: zero_if_def)
    qed (use None pm in \<open>simp_all add: zero_if_def pages_done_def\<close>)
  qed
qed

lemma zero_pages_loop_ok:
  assumes "pt_laws ops" "\<And>c. c \<in> set cs \<Longrightarrow> unat c < 2 ^ 47" "user_space ops pf root m"
  shows "pages_done ops pf root cs m (zero_pages_loop ops pf root flags cs m)"
  using assms(2,3)
proof (induction cs arbitrary: m)
  case Nil
  then show ?case by (simp add: pages_done_def map_pages_def fun_eq_iff)
next
  case (Cons c cs)
  obtain N where t: "tree ops pf root N m" using Cons.prems(2) by (auto simp: user_space_def)
  have c: "unat c < 2 ^ 47" using Cons.prems(1) by simp
  note ih = Cons.IH [OF Cons.prems(1) [OF list.set_intros(2)]]
  note pm = page_mapped_tree [OF assms(1) t c]
  show ?case
  proof (cases "N (page_idx4 c)")
    case (Some f)
    then have "pages_done ops pf root (c # cs) m (zero_pages_loop ops pf root flags cs m)"
      using pages_done_step [OF ih Cons.prems(2)] map_pages_mapped [OF assms(1) t c] by auto
    then show ?thesis using Some pm by simp
  next
    case None
    show ?thesis
    proof (cases rule: new_page [OF assms(1) t c None, where flags = flags and b = True, case_names no_frame no_table new])
      case (new f m1 m2)
      from pages_done_step [OF ih this(3,4,5)] show ?thesis using new(1,2) None pm by (simp add: zero_if_def)
    qed (use None pm in \<open>simp_all add: zero_if_def pages_done_def\<close>)
  qed
qed

section \<open>Ranges of pages\<close>

lemma checked_add_unat: "unat x + unat y < 2 ^ 64 \<Longrightarrow> \<exists>z. checked_add x y = Some z \<and> unat z = unat x + unat y" for x y :: u64
  by (simp add: checked_add_def unat_word_ariths)

lemma page_range_pages:
  assumes "unat x + n \<le> 2 ^ 47" "unat e = unat x + n + 4095"
  defines "cs \<equiv> page_range (x AND NOT 0xfff) (e AND NOT 0xfff)"
  shows "c \<in> set cs \<Longrightarrow> unat c < 2 ^ 47"
    and "(\<exists>c \<in> set cs. k = unat c div 4096) \<longleftrightarrow> unat x div 4096 \<le> k \<and> k * 4096 < unat x + n"
    and "length cs = (unat x + n + 4095) div 4096 - unat x div 4096"
proof -
  let ?s = "unat x div 4096" and ?t = "(unat x + n + 4095) div 4096"
  have s: "unat (x AND NOT 0xfff) = ?s * 4096" "unat (e AND NOT 0xfff) = ?t * 4096"
    unfolding and_fff(2) minus_mod_eq_div_mult assms(2) by simp_all
  have "?t * 4096 - ?s * 4096 + 4095 = (?t - ?s) * 4096 + 4095" by (simp add: diff_mult_distrib)
  then have len: "(?t * 4096 - ?s * 4096 + 4095) div 4096 = ?t - ?s" by simp
  have u: "unat ((x AND NOT 0xfff) + of_nat i * 4096) = (?s + i) * 4096" if "i < ?t - ?s" for i
  proof -
    have "(?s + i) * 4096 < ?t * 4096" using that by simp
    also have "\<dots> \<le> unat x + n + 4095" by simp
    finally have "(?s + i) * 4096 < 2 ^ 64" using assms(1) by simp
    moreover have "(x AND NOT 0xfff) + of_nat i * 4096 = of_nat ((?s + i) * 4096)"
    proof -
      have "of_nat ((?s + i) * 4096) = of_nat (?s * 4096) + of_nat i * (4096 :: u64)" by (simp add: add_mult_distrib)
      then show ?thesis unfolding s(1) [symmetric] by simp
    qed
    ultimately show ?thesis by (simp only: unat_of_nat) (simp add: take_bit_eq_mod)
  qed
  have top: "(?s + i) * 4096 < unat x + n" if "i < ?t - ?s" for i
  proof -
    have "(?s + i + 1) * 4096 \<le> unat x + n + 4095" using that by (simp add: less_eq_div_iff_mult_less_eq [symmetric])
    then show ?thesis by simp
  qed
  show "length cs = ?t - ?s" unfolding cs_def page_range_def s len by simp
  show "unat c < 2 ^ 47" if "c \<in> set cs"
    using that top assms(1) u unfolding cs_def page_range_def s len by fastforce
  show "(\<exists>c \<in> set cs. k = unat c div 4096) \<longleftrightarrow> ?s \<le> k \<and> k * 4096 < unat x + n"
  proof
    assume "\<exists>c \<in> set cs. k = unat c div 4096"
    then obtain i where "i < ?t - ?s" "k = unat ((x AND NOT 0xfff) + of_nat i * 4096) div 4096" unfolding cs_def page_range_def s len by auto
    then show "?s \<le> k \<and> k * 4096 < unat x + n" using u top by simp
  next
    assume k: "?s \<le> k \<and> k * 4096 < unat x + n"
    then have "k + 1 \<le> ?t" by (simp add: less_eq_div_iff_mult_less_eq)
    then have i: "k - ?s < ?t - ?s" using k by linarith
    have "k = unat ((x AND NOT 0xfff) + of_nat (k - ?s) * 4096) div 4096" unfolding u [OF i] using k by simp
    then show "\<exists>c \<in> set cs. k = unat c div 4096" using i unfolding cs_def page_range_def s len by auto
  qed
qed

section \<open>Copying\<close>

lemma user_write:
  assumes "pt_laws ops" "tree ops pf root N m" "a < 2 ^ 47" "proc_image ops root m a \<noteq> None"
  obtains pa where "va_to_pa ops root (of_nat a) m = Some (Some pa)" "tree ops pf root N (m\<lparr>pbyt := (pbyt m)(pa := b)\<rparr>)"
    "proc_image ops root (m\<lparr>pbyt := (pbyt m)(pa := b)\<rparr>) = (proc_image ops root m)(a \<mapsto> b)"
proof -
  note ia = proc_image_tree [OF assms(1,2)]
  obtain f where f: "N (page_idx4 (of_nat a)) = Some f" using ia [OF assms(3)] assms(4) by auto
  let ?pa = "f + of_nat (a mod 4096)"
  let ?m = "m\<lparr>pbyt := (pbyt m)(?pa := b)\<rparr>"
  have w: "va_to_pa ops root (of_nat a) m = Some (Some ?pa)"
    using va_to_pa_tree [OF assms(1,2), of "of_nat a"] assms(3) f unat_user [OF assms(3)] by (simp add: and_fff(1))
  have t: "tree ops pf root N ?m" using assms(2) by (intro tree_same [OF assms(2)]) (simp_all add: tree_def)
  have al: "4096 dvd unat g" if "N q = Some g" for q g using assms(2) that unfolding tree_def by blast
  have inj: "inj_on N (dom N)" using assms(2) unfolding tree_def by blast
  have "proc_image ops root ?m a' = ((proc_image ops root m)(a \<mapsto> b)) a'" for a'
  proof (cases "a' < 2 ^ 47")
    case False
    then show ?thesis using assms(3) by (auto simp: proc_image_def)
  next
    case True
    note i' = proc_image_tree [OF assms(1) t True] and i = ia [OF True]
    show ?thesis
    proof (cases "N (page_idx4 (of_nat a'))")
      case None
      then show ?thesis using i i' f by auto
    next
      case (Some g)
      have "a' = a" if "g + of_nat (a' mod 4096) = ?pa"
      proof -
        have "g = f \<and> a' mod 4096 = a mod 4096" using pages_distinct_bytes(2) [OF al [OF Some] al [OF f] _ that] by simp
        moreover from this have "page_idx4 (of_nat a') = page_idx4 (of_nat a)" using inj_onD [OF inj, of "page_idx4 (of_nat a')" "page_idx4 (of_nat a)"] Some f by auto
        then have "a' div 4096 = a div 4096" using page_idx4_eq [of "of_nat a'" "of_nat a"] True assms(3) unat_user by simp
        ultimately show ?thesis by (metis div_mult_mod_eq)
      qed
      then show ?thesis using i i' Some f by auto
    qed
  qed
  then show thesis using that [OF w t] by blast
qed

definition put_bytes :: "nat \<Rightarrow> u8 list \<Rightarrow> (nat \<Rightarrow> u8 option) \<Rightarrow> nat \<Rightarrow> u8 option" where
  "put_bytes s bs I a = (if s \<le> a \<and> a < s + length bs then Some (bs ! (a - s)) else I a)"

lemma copy_into_user_ok:
  assumes "pt_laws ops" "tree ops pf root N m" "unat dst + off + length bs \<le> 2 ^ 47"
    and "\<And>i. i < length bs \<Longrightarrow> proc_image ops root m (unat dst + off + i) \<noteq> None"
  shows "\<exists>m'. copy_into_user ops root dst off bs m = Some (Inr (), m') \<and> tree ops pf root N m' \<and> pl m' = pl m
    \<and> proc_image ops root m' = put_bytes (unat dst + off) bs (proc_image ops root m)"
  using assms(2,3,4)
proof (induction bs arbitrary: off m)
  case Nil
  then show ?case by (auto simp: put_bytes_def fun_eq_iff)
next
  case (Cons b bs)
  let ?a = "unat dst + off"
  have a: "?a < 2 ^ 47" "proc_image ops root m ?a \<noteq> None" using Cons.prems(2) Cons.prems(3) [of 0] by auto
  obtain pa where pa: "va_to_pa ops root (of_nat ?a) m = Some (Some pa)" "tree ops pf root N (m\<lparr>pbyt := (pbyt m)(pa := b)\<rparr>)"
      "proc_image ops root (m\<lparr>pbyt := (pbyt m)(pa := b)\<rparr>) = (proc_image ops root m)(?a \<mapsto> b)"
    by (rule user_write [OF assms(1) Cons.prems(1) a])
  have "unat dst + unat (of_nat off :: u64) < 2 ^ 64" using a(1) unat_user [of off] by simp
  then have ca: "checked_add dst (of_nat off) = Some (of_nat ?a)" by (simp add: checked_add_def)
  let ?m = "m\<lparr>pbyt := (pbyt m)(pa := b)\<rparr>"
  have "proc_image ops root ?m (unat dst + (off + 1) + i) \<noteq> None" if "i < length bs" for i
    using Cons.prems(3) [of "Suc i"] that unfolding pa(3) by (simp add: add.assoc)
  moreover have "unat dst + (off + 1) + length bs \<le> 2 ^ 47" using Cons.prems(2) by simp
  ultimately obtain m' where m': "copy_into_user ops root dst (off + 1) bs ?m = Some (Inr (), m')" "tree ops pf root N m'" "pl m' = pl ?m"
      "proc_image ops root m' = put_bytes (?a + 1) bs ((proc_image ops root m)(?a \<mapsto> b))"
    using Cons.IH [OF pa(2), of "off + 1"] unfolding pa(3) add.assoc by blast
  have "put_bytes (?a + 1) bs ((proc_image ops root m)(?a \<mapsto> b)) = put_bytes ?a (b # bs) (proc_image ops root m)"
    by (auto simp: put_bytes_def fun_eq_iff nth_Cons')
  then show ?case using m' ca pa(1) by simp
qed

section \<open>Segments\<close>

text \<open>What loading a segment makes of an image: the bytes of the file, and zeros in the rest of its pages where nothing was mapped.\<close>

definition place_segment :: "u8 list \<Rightarrow> elf64_phdr \<Rightarrow> (nat \<Rightarrow> u8 option) \<Rightarrow> nat \<Rightarrow> u8 option" where
  "place_segment img ph I a = (let v = unat (p_vaddr ph) in
     if v \<le> a \<and> a < v + unat (p_filesz ph) then Some (img ! (unat (p_offset ph) + (a - v)))
     else if I a = None \<and> v div 4096 \<le> a div 4096 \<and> a div 4096 * 4096 < v + unat (p_memsz ph) then Some 0
     else I a)"

definition seg_ok :: "u8 list \<Rightarrow> elf64_phdr \<Rightarrow> bool" where
  "seg_ok img ph \<longleftrightarrow> unat (p_vaddr ph) + unat (p_memsz ph) \<le> 2 ^ 47 \<and> p_filesz ph \<le> p_memsz ph
     \<and> unat (p_offset ph) + unat (p_filesz ph) \<le> length img"

definition seg_pages :: "elf64_phdr \<Rightarrow> nat" where
  "seg_pages ph = (unat (p_vaddr ph) + unat (p_memsz ph) + 4095) div 4096 - unat (p_vaddr ph) div 4096"

lemma place_segment_split:
  assumes "seg_ok img ph" "unat (p_vaddr ph) + unat (p_memsz ph) + 4095 = unat e"
  shows "put_bytes (unat (p_vaddr ph)) (take (unat (p_filesz ph)) (drop (unat (p_offset ph)) img))
      (map_pages (page_range (p_vaddr ph AND NOT 0xfff) (e AND NOT 0xfff)) I) = place_segment img ph I"
proof
  fix a
  let ?v = "unat (p_vaddr ph)"
  have top: "a < 2 ^ 47" if "a div 4096 * 4096 < ?v + unat (p_memsz ph)"
  proof -
    have "a div 4096 < 2 ^ 47 div 4096" using that assms(1) by (simp add: seg_ok_def)
    then show ?thesis by (simp add: div_less_iff_less_mult)
  qed
  have len: "length (take (unat (p_filesz ph)) (drop (unat (p_offset ph)) img)) = unat (p_filesz ph)" using assms(1) by (auto simp: seg_ok_def)
  have nth: "take (unat (p_filesz ph)) (drop (unat (p_offset ph)) img) ! (a - ?v) = img ! (unat (p_offset ph) + (a - ?v))"
    if "?v \<le> a" "a < ?v + unat (p_filesz ph)" using that assms(1) by (simp add: seg_ok_def)
  have mp: "map_pages (page_range (p_vaddr ph AND NOT 0xfff) (e AND NOT 0xfff)) I a
      = (if I a = None \<and> ?v div 4096 \<le> a div 4096 \<and> a div 4096 * 4096 < ?v + unat (p_memsz ph) then Some 0 else I a)"
    using page_range_pages(2) [of "p_vaddr ph" "unat (p_memsz ph)" e "a div 4096"] assms top unfolding map_pages_def seg_ok_def by auto
  show "put_bytes ?v (take (unat (p_filesz ph)) (drop (unat (p_offset ph)) img))
      (map_pages (page_range (p_vaddr ph AND NOT 0xfff) (e AND NOT 0xfff)) I) a = place_segment img ph I a"
    unfolding put_bytes_def place_segment_def Let_def len mp by (rule if_cong [OF refl _ refl]) (simp only: nth)
qed

definition loaded :: "'e pt_ops \<Rightarrow> (u64 \<Rightarrow> u64 option) \<Rightarrow> u64 \<Rightarrow> u8 list \<Rightarrow> elf64_phdr list \<Rightarrow> 'e pmem \<Rightarrow> ((elf_error + 'a) \<times> 'e pmem) option \<Rightarrow> 'a \<Rightarrow> bool" where
  "loaded ops pf root img phs m res x \<longleftrightarrow>
     (card (free_frames (pl m)) < 4 * sum_list (map seg_pages phs) \<and> (\<exists>m'. res = Some (Inl NoMem, m')))
     \<or> (\<exists>m'. res = Some (Inr x, m') \<and> user_space ops pf root m' \<and> card (free_frames (pl m)) \<le> card (free_frames (pl m')) + 4 * sum_list (map seg_pages phs)
          \<and> proc_image ops root m' = fold (place_segment img) phs (proc_image ops root m))"

lemma load_segment_ok:
  assumes "pt_laws ops" "user_space ops pf root m" "seg_ok img ph" "length img < 2 ^ 64"
  shows "loaded ops pf root img [ph] m (load_segment ops pf root img ph m) ()"
proof -
  let ?v = "p_vaddr ph" and ?bs = "take (unat (p_filesz ph)) (drop (unat (p_offset ph)) img)"
  have b: "unat ?v + unat (p_memsz ph) \<le> 2 ^ 47" "unat (p_filesz ph) \<le> unat (p_memsz ph)" "unat (p_offset ph) + unat (p_filesz ph) \<le> length img"
    using assms(3) by (auto simp: seg_ok_def word_le_nat_alt)
  obtain e1 where e1: "checked_add ?v (p_memsz ph) = Some e1" "unat e1 = unat ?v + unat (p_memsz ph)"
    using checked_add_unat [of ?v "p_memsz ph"] b(1) by auto
  obtain e where e: "checked_add e1 0xfff = Some e" "unat e = unat ?v + unat (p_memsz ph) + 4095"
    using checked_add_unat [of e1 "0xfff"] e1(2) b(1) by auto
  obtain fe where fe: "checked_add (p_offset ph) (p_filesz ph) = Some fe" "unat fe \<le> length img"
    using checked_add_unat [of "p_offset ph" "p_filesz ph"] b(3) assms(4) by auto
  let ?cs = "page_range (?v AND NOT 0xfff) (e AND NOT 0xfff)"
  note pr = page_range_pages [OF b(1) e(2)]
  have len: "length ?cs = seg_pages ph" using pr(3) by (simp add: seg_pages_def)
  have run: "load_segment ops pf root img ph m = do {
      (r, m) \<leftarrow> seg_pages_loop ops pf root (seg_flags ph) ?cs m;
      case r of Inl err \<Rightarrow> Some (Inl err, m) | Inr _ \<Rightarrow> copy_into_user ops root ?v 0 ?bs m }"
    using e1(1) e(1) fe by (auto simp: load_segment_def intro!: Option.bind_cong split: sum.splits)
  consider m1 where "card (free_frames (pl m)) < 4 * length ?cs" "seg_pages_loop ops pf root (seg_flags ph) ?cs m = Some (Inl NoMem, m1)"
    | m1 where "seg_pages_loop ops pf root (seg_flags ph) ?cs m = Some (Inr (), m1)" "user_space ops pf root m1"
        "card (free_frames (pl m)) \<le> card (free_frames (pl m1)) + 4 * length ?cs" "proc_image ops root m1 = map_pages ?cs (proc_image ops root m)"
    using seg_pages_loop_ok [OF assms(1) pr(1) assms(2), where flags = "seg_flags ph"] unfolding pages_done_def by blast
  then show ?thesis
  proof cases
    case 1
    then show ?thesis using run len by (simp add: loaded_def)
  next
    case (2 m1)
    obtain N where N: "tree ops pf root N m1" using 2(2) by (auto simp: user_space_def)
    have "proc_image ops root m1 (unat ?v + i) \<noteq> None" if "i < length ?bs" for i
    proof -
      have i: "i < unat (p_filesz ph)" using that by simp
      have "(unat ?v + i) div 4096 * 4096 \<le> unat ?v + i" by simp
      then have "(unat ?v + i) div 4096 * 4096 < unat ?v + unat (p_memsz ph)" "unat ?v + i < 2 ^ 47" using i b(1,2) by linarith+
      moreover have "unat ?v div 4096 \<le> (unat ?v + i) div 4096" by (intro div_le_mono) simp
      ultimately show ?thesis unfolding 2(4) map_pages_def using pr(2) by auto
    qed
    then obtain m' where m': "copy_into_user ops root ?v 0 ?bs m1 = Some (Inr (), m')" "tree ops pf root N m'" "pl m' = pl m1"
        "proc_image ops root m' = put_bytes (unat ?v) ?bs (proc_image ops root m1)"
      using copy_into_user_ok [OF assms(1) N, of ?v 0 ?bs] b by auto
    have "proc_image ops root m' = place_segment img ph (proc_image ops root m)"
      unfolding m'(4) 2(4) using place_segment_split [OF assms(3)] e(2) by simp
    moreover have "user_space ops pf root m'" using m'(2) by (auto simp: user_space_def)
    ultimately show ?thesis using run 2(1,3) m'(1,3) len by (simp add: loaded_def)
  qed
qed

lemma loaded_step:
  assumes "loaded ops pf root img [ph] m r1 ()" "\<And>m1. user_space ops pf root m1 \<Longrightarrow> loaded ops pf root img phs m1 (g m1) x"
  shows "loaded ops pf root img (ph # phs) m (do { (r, m) \<leftarrow> r1; case r of Inl e \<Rightarrow> Some (Inl e, m) | Inr _ \<Rightarrow> g m }) x"
proof -
  consider m1 where "card (free_frames (pl m)) < 4 * seg_pages ph" "r1 = Some (Inl NoMem, m1)"
    | m1 where "r1 = Some (Inr (), m1)" "user_space ops pf root m1" "card (free_frames (pl m)) \<le> card (free_frames (pl m1)) + 4 * seg_pages ph"
        "proc_image ops root m1 = place_segment img ph (proc_image ops root m)"
    using assms(1) by (auto simp: loaded_def)
  then show ?thesis
  proof cases
    case 1
    then show ?thesis by (simp add: loaded_def)
  next
    case (2 m1)
    then show ?thesis using assms(2) [OF 2(2)] by (auto simp: loaded_def)
  qed
qed

section \<open>Files\<close>

definition elf_phdrs :: "u8 list \<Rightarrow> elf64_ehdr \<Rightarrow> elf64_phdr list" where
  "elf_phdrs img eh = map (\<lambda>i. phdr_of (drop (unat (e_phoff eh) + i * unat (e_phentsize eh)) img)) [0..<unat (e_phnum eh)]"

definition elf_segments :: "u8 list \<Rightarrow> elf64_ehdr \<Rightarrow> elf64_phdr list" where
  "elf_segments img eh = filter (\<lambda>ph. p_type ph = PT_LOAD \<and> p_memsz ph \<noteq> 0) (elf_phdrs img eh)"

definition elf_ok :: "u8 list \<Rightarrow> elf64_ehdr \<Rightarrow> bool" where
  "elf_ok img eh \<longleftrightarrow> length img < 2 ^ 63 \<and> read_ehdr img = Inr eh \<and> 56 \<le> unat (e_phentsize eh)
     \<and> unat (e_phoff eh) + unat (e_phnum eh) * unat (e_phentsize eh) \<le> length img \<and> (\<forall>ph \<in> set (elf_segments img eh). seg_ok img ph)"

lemma load_phdrs_ok:
  assumes "pt_laws ops" "user_space ops pf root m" "length img < 2 ^ 63" "56 \<le> es" "es < 2 ^ 16"
    and "\<And>i. i \<in> set is \<Longrightarrow> unat off + (i + 1) * es \<le> length img"
    and "\<And>ph. ph \<in> set (filter (\<lambda>ph. p_type ph = PT_LOAD \<and> p_memsz ph \<noteq> 0) (map (\<lambda>i. phdr_of (drop (unat off + i * es) img)) is)) \<Longrightarrow> seg_ok img ph"
  shows "loaded ops pf root img (filter (\<lambda>ph. p_type ph = PT_LOAD \<and> p_memsz ph \<noteq> 0) (map (\<lambda>i. phdr_of (drop (unat off + i * es) img)) is)) m
    (load_phdrs ops pf root img off (of_nat es) is m) ()"
  using assms(2,6,7)
proof (induction "is" arbitrary: m)
  case Nil
  then show ?case by (simp add: loaded_def)
next
  case (Cons i "is")
  let ?ph = "phdr_of (drop (unat off + i * es) img)"
  have i: "unat off + i * es + 56 \<le> length img" using Cons.prems(2) [of i] assms(4) by simp
  have "i * 56 \<le> i * es" using assms(4) by simp
  then have "i < 2 ^ 63" "i * es < 2 ^ 63" using i assms(3) by linarith+
  then have u: "unat (of_nat i :: u64) = i" "unat (of_nat es :: u64) = es" using assms(5) by (simp_all add: unat_of_nat take_bit_eq_mod)
  obtain d where d: "checked_mul (of_nat i) (of_nat es :: u64) = Some d" "unat d = i * es"
    using u \<open>i * es < 2 ^ 63\<close> by (simp add: checked_mul_def unat_word_ariths)
  obtain o' where o': "checked_add off d = Some o'" "unat o' = unat off + i * es" using checked_add_unat [of off d] d(2) i assms(3) by auto
  obtain e where e: "checked_add o' 56 = Some e" "unat e = unat off + i * es + 56" using checked_add_unat [of o' 56] o'(2) i assms(3) by auto
  have at: "phdr_at img o' = Some (Inr ?ph)" using e i o'(2) by (simp add: phdr_at_def)
  note ih = Cons.IH [OF _ Cons.prems(2) Cons.prems(3)]
  show ?case
  proof (cases "p_type ?ph = PT_LOAD \<and> p_memsz ?ph \<noteq> 0")
    case False
    then have "load_phdrs ops pf root img off (of_nat es) (i # is) m = load_phdrs ops pf root img off (of_nat es) is m"
      using d(1) o'(1) at by auto
    then show ?thesis using ih [OF Cons.prems(1)] False by auto
  next
    case True
    then have ok: "seg_ok img ?ph" using Cons.prems(3) [of ?ph] by simp
    have run: "load_phdrs ops pf root img off (of_nat es) (i # is) m = do {
        (r, m) \<leftarrow> load_segment ops pf root img ?ph m;
        case r of Inl e \<Rightarrow> Some (Inl e, m) | Inr _ \<Rightarrow> load_phdrs ops pf root img off (of_nat es) is m }"
      using True d(1) o'(1) at by auto
    show ?thesis unfolding run using loaded_step [OF load_segment_ok [OF assms(1) Cons.prems(1) ok] ih] True assms(3) by simp
  qed
qed

lemma load_elf64_user_ok:
  assumes "pt_laws ops" "user_space ops pf root m" "elf_ok img eh"
  shows "loaded ops pf root img (elf_segments img eh) m (load_elf64_user ops pf root img m) (e_entry eh)"
proof -
  let ?es = "unat (e_phentsize eh)"
  have ok: "length img < 2 ^ 63" "read_ehdr img = Inr eh" "56 \<le> ?es" "unat (e_phoff eh) + unat (e_phnum eh) * ?es \<le> length img"
      "\<And>ph. ph \<in> set (elf_segments img eh) \<Longrightarrow> seg_ok img ph"
    using assms(3) unfolding elf_ok_def by auto
  have es: "?es < 2 ^ 16" using unsigned_less [of "e_phentsize eh", where ?'a = nat] by simp
  have "unat (e_phoff eh) + (i + 1) * ?es \<le> length img" if "i \<in> set [0..<unat (e_phnum eh)]" for i
  proof -
    have "(i + 1) * ?es \<le> unat (e_phnum eh) * ?es" using that by (intro mult_le_mono1) simp
    then show ?thesis using ok(4) by linarith
  qed
  then have "loaded ops pf root img (elf_segments img eh) m
      (load_phdrs ops pf root img (e_phoff eh) (of_nat ?es) [0..<unat (e_phnum eh)] m) ()"
    using load_phdrs_ok [OF assms(1,2) ok(1,3) es, of "[0..<unat (e_phnum eh)]" "e_phoff eh"] ok(5) unfolding elf_segments_def elf_phdrs_def by blast
  moreover have "load_elf64_user ops pf root img m = do {
      (r, m) \<leftarrow> load_phdrs ops pf root img (e_phoff eh) (of_nat ?es) [0..<unat (e_phnum eh)] m;
      Some (case r of Inl e \<Rightarrow> Inl e | Inr _ \<Rightarrow> Inr (e_entry eh), m) }"
    using ok(2,3) by (simp add: load_elf64_user_def)
  ultimately show ?thesis unfolding loaded_def by auto
qed

text \<open>A new address space is empty in the user half and has the kernel's tables in the other.\<close>

lemma new_user_address_space_ok:
  assumes "pt_laws ops" "pool_ok pf (pl m)" "free_frames (pl m) \<noteq> {}" "cur \<notin> free_frames (pl m)"
  shows "\<exists>root m'. new_user_address_space ops pf cur m = Some (root, m') \<and> root \<in> free_frames (pl m) \<and> user_space ops pf root m'
    \<and> proc_image ops root m' = Map.empty \<and> (\<forall>i. 256 \<le> i \<longrightarrow> i < 512 \<longrightarrow> ptab m' root i = ptab m cur i)
    \<and> card (free_frames (pl m)) = card (free_frames (pl m')) + 1"
proof -
  obtain r m1 where m1: "take_frame pf m = Some (r, m1)" "ptab m1 = ptab m" "pool_ok pf (pl m1)"
      "case r of None \<Rightarrow> pl m1 = pl m \<and> free_frames (pl m) = {}
       | Some f \<Rightarrow> f \<in> free_frames (pl m) \<and> free_frames (pl m1) = free_frames (pl m) - {f} \<and> 4096 dvd unat f \<and> unat f < 2 ^ 52"
    using take_frame_cases [OF assms(2)] by blast
  then obtain f where f: "r = Some f" "f \<in> free_frames (pl m)" "free_frames (pl m1) = free_frames (pl m) - {f}" "4096 dvd unat f" "unat f < 2 ^ 52"
    using assms(3) by (cases r) auto
  define m' where "m' = (let m = zero_frame ops f m1 in m\<lparr>ptab := (ptab m)(f := \<lambda>i. if 256 \<le> i \<and> i < 512 then ptab m cur i else ptab m f i)\<rparr>)"
  have run: "new_user_address_space ops pf cur m = Some (f, m')" using m1(1) f(1) by (simp add: new_user_address_space_def m'_def Let_def)
  have pl: "pl m' = pl m1" by (simp add: m'_def zero_frame_def Let_def)
  have t: "ptab m' f i = (if 256 \<le> i \<and> i < 512 then ptab m cur i else pe_new ops)" for i
    using f(2) assms(4) m1(2) by (auto simp: m'_def zero_frame_def Let_def)
  have new: "pe_unused ops (pe_new ops)" "pe_frame ops (pe_new ops) = None" using assms(1) by (simp_all add: pt_laws_def)
  have tr: "tree ops pf f [[] \<mapsto> f] m'" using f m1(3) pl t new by (auto simp: tree_def)
  have "proc_image ops f m' a = None" for a
    using proc_image_tree [OF assms(1) tr, of a] by (cases "a < 2 ^ 47") (simp_all add: proc_image_def page_idx4_def)
  moreover have "card (free_frames (pl m)) = card (free_frames (pl m')) + 1"
    unfolding pl f(3) using f(2) finite_free_frames by (simp add: card_Suc_Diff1 del: card_Diff_insert)
  ultimately show ?thesis using run f(2) tr t by (auto simp: user_space_def)
qed

lemma map_user_zero_ok:
  assumes "pt_laws ops" "user_space ops pf root m" "unat va + unat len \<le> 2 ^ 47"
  defines "n \<equiv> (unat va + unat len + 4095) div 4096 - unat va div 4096"
  shows "(card (free_frames (pl m)) < 4 * n \<and> (\<exists>m'. map_user_zero ops pf root va len w m = Some (Inl NoMem, m')))
    \<or> (\<exists>m'. map_user_zero ops pf root va len w m = Some (Inr (), m') \<and> user_space ops pf root m' \<and> card (free_frames (pl m)) \<le> card (free_frames (pl m')) + 4 * n
         \<and> proc_image ops root m' = (\<lambda>a. if proc_image ops root m a = None \<and> a < 2 ^ 47 \<and> unat va div 4096 \<le> a div 4096 \<and> a div 4096 * 4096 < unat va + unat len
                                       then Some 0 else proc_image ops root m a))"
proof -
  obtain e1 where e1: "checked_add va len = Some e1" "unat e1 = unat va + unat len"
    using checked_add_unat [of va len] assms(3) by auto
  obtain e where e: "checked_add e1 0xfff = Some e" "unat e = unat va + unat len + 4095"
    using checked_add_unat [of e1 "0xfff"] e1(2) assms(3) by auto
  let ?cs = "page_range (va AND NOT 0xfff) (e AND NOT 0xfff)"
  note pr = page_range_pages [OF assms(3) e(2)]
  let ?fl = "if w then {USER_ACCESSIBLE, WRITABLE} else {USER_ACCESSIBLE}"
  have run: "map_user_zero ops pf root va len w m = zero_pages_loop ops pf root ?fl ?cs m" using e1(1) e(1) by (simp add: map_user_zero_def)
  have mp: "map_pages ?cs I = (\<lambda>a. if I a = None \<and> a < 2 ^ 47 \<and> unat va div 4096 \<le> a div 4096 \<and> a div 4096 * 4096 < unat va + unat len then Some 0 else I a)" for I
    unfolding map_pages_def fun_eq_iff pr(2) by simp
  have "pages_done ops pf root ?cs m (zero_pages_loop ops pf root ?fl ?cs m)" by (rule zero_pages_loop_ok [OF assms(1) pr(1) assms(2)])
  then show ?thesis unfolding pages_done_def pr(3) n_def run mp .
qed

section \<open>Loading a program\<close>

definition demo_pt :: "(u64 \<times> pt_flag set) option pt_ops" where
  "demo_pt = \<lparr>pt_virt = \<lambda>v. if unat v < 2 ^ 47 \<or> 2 ^ 64 - 2 ^ 47 \<le> unat v then Some v else None,
     pt_index = \<lambda>l v. unat v div 2 ^ (12 + 9 * (l - 1)) mod 512, pe_new = None, pe_unused = \<lambda>e. e = None, pe_set = \<lambda>a fl. Some (a, fl),
     pe_addr = \<lambda>e. case e of None \<Rightarrow> 0 | Some (a, fl) \<Rightarrow> a, pe_frame = \<lambda>e. case e of None \<Rightarrow> None | Some (a, fl) \<Rightarrow> if PRESENT \<in> fl then Some a else None\<rparr>"

lemma demo_pt_laws: "pt_laws demo_pt"
  by (simp add: pt_laws_def demo_pt_def page_idx4_def)

text \<open>One header of 64 bytes, one segment header, two bytes of program for \<open>0x400ffe\<close>, four bytes in memory.\<close>

definition demo_elf :: "u8 list" where
  "demo_elf = [0x7f, 0x45, 0x4c, 0x46, 2, 1, 1, 0, 0, 0, 0, 0, 0, 0, 0, 0, 2, 0, 0x3e, 0, 1, 0, 0, 0,
     0xfe, 0x0f, 0x40, 0, 0, 0, 0, 0, 64, 0, 0, 0, 0, 0, 0, 0, 0, 0, 0, 0, 0, 0, 0, 0, 0, 0, 0, 0, 64, 0, 56, 0, 1, 0, 0, 0, 0, 0, 0, 0,
     1, 0, 0, 0, 5, 0, 0, 0, 120, 0, 0, 0, 0, 0, 0, 0, 0xfe, 0x0f, 0x40, 0, 0, 0, 0, 0, 0, 0, 0, 0, 0, 0, 0, 0,
     2, 0, 0, 0, 0, 0, 0, 0, 4, 0, 0, 0, 0, 0, 0, 0, 0, 0x10, 0, 0, 0, 0, 0, 0, 0xeb, 0xfe]"

lemma demo_elf_ok: "read_ehdr demo_elf = Inr (ehdr_of demo_elf)" "e_entry (ehdr_of demo_elf) = 0x400ffe"
    "elf_segments demo_elf (ehdr_of demo_elf) = [\<lparr>p_type = 1, p_flags = 5, p_offset = 120, p_vaddr = 0x400ffe, p_paddr = 0, p_filesz = 2, p_memsz = 4, p_align = 0x1000\<rparr>]"
    "elf_ok demo_elf (ehdr_of demo_elf)"
  by (simp_all add: elf_ok_def seg_ok_def elf_segments_def elf_phdrs_def read_ehdr_def ehdr_of_def phdr_of_def demo_elf_def field16_def field32_def field64_def from_le64_def PT_LOAD_def)

text \<open>A machine with \<open>n\<close> free frames from \<open>0x10000\<close> and an empty table at \<open>0x1000\<close>.\<close>

definition demo_mem :: "nat \<Rightarrow> (u64 \<times> pt_flag set) option pmem" where
  "demo_mem n = \<lparr>ptab = \<lambda>_ _. None, pbyt = \<lambda>_. 0x55, pl = \<lparr>base = 0x10000, tracked = n, bm = \<lparr>storage = replicate n 0\<rparr>\<rparr>\<rparr>"

lemma demo_pool:
  assumes "n < 2 ^ 16"
  shows "pool_ok Some (pl (demo_mem n))" "card (free_frames (pl (demo_mem n))) = n" "0x1000 \<notin> free_frames (pl (demo_mem n))"
proof -
  show ok: "pool_ok Some (pl (demo_mem n))"
    using assms by (simp add: demo_mem_def pool_ok_def pool_inv_def frames_accepted_def capacity_bits_def)
  then have inv: "pool_inv (pl (demo_mem n))" by (simp add: pool_ok_def)
  have "\<not> bits \<lparr>storage = replicate n 0\<rparr> i" if "i < n" for i
    using that by (simp add: bits_def)
  then have f: "free_frames (pl (demo_mem n)) = frame_at (pl (demo_mem n)) ` {..<n}" by (auto simp: free_frames_def demo_mem_def)
  moreover have "inj_on (frame_at (pl (demo_mem n))) {..<n}" using frame_at_inj [OF inv] by (auto simp: inj_on_def demo_mem_def)
  ultimately show "card (free_frames (pl (demo_mem n))) = n" by (simp add: card_image)
  have "frame_at (pl (demo_mem n)) i \<noteq> 0x1000" if "i < n" for i
    using unat_frame_at(1) [OF inv, of i] that by (auto simp: demo_mem_def)
  then show "0x1000 \<notin> free_frames (pl (demo_mem n))" unfolding f by auto
qed

lemma demo_space:
  assumes "n < 2 ^ 16"
  shows "user_space demo_pt Some 0x1000 (demo_mem n)" "proc_image demo_pt 0x1000 (demo_mem n) = Map.empty"
proof -
  have t: "tree demo_pt Some 0x1000 [[] \<mapsto> 0x1000] (demo_mem n)"
    using demo_pool [OF assms] by (auto simp: tree_def demo_pt_def demo_mem_def)
  then show "user_space demo_pt Some 0x1000 (demo_mem n)" by (auto simp: user_space_def)
  have "proc_image demo_pt 0x1000 (demo_mem n) a = None" for a
    using proc_image_tree [OF demo_pt_laws t, of a] by (cases "a < 2 ^ 47") (simp_all add: proc_image_def page_idx4_def)
  then show "proc_image demo_pt 0x1000 (demo_mem n) = Map.empty" by auto
qed

text \<open>
  C7: a well-formed file whose segments are in the user half is loaded whenever there are four free frames for each page
  of its segments: the loader returns the entry point of the header, and the process sees, for every segment in turn, the
  bytes of the file, zeros in the rest of its pages where nothing was mapped before, and every other byte as it was.
\<close>

theorem load_elf64_user_image:
  assumes "pt_laws ops" "user_space ops pf root m" "elf_ok img eh"
    and "4 * sum_list (map seg_pages (elf_segments img eh)) \<le> card (free_frames (pl m))"
  shows "\<exists>m'. load_elf64_user ops pf root img m = Some (Inr (e_entry eh), m') \<and> user_space ops pf root m'
    \<and> proc_image ops root m' = fold (place_segment img) (elf_segments img eh) (proc_image ops root m)"
  using load_elf64_user_ok [OF assms(1-3)] assms(4) unfolding loaded_def by auto

theorem load_elf64_user_image_witness:
  "\<exists>m'. load_elf64_user demo_pt Some 0x1000 demo_elf (demo_mem 8) = Some (Inr 0x400ffe, m')
    \<and> map (proc_image demo_pt 0x1000 m') [0x3fffff, 0x400ffd, 0x400ffe, 0x400fff, 0x401000, 0x401fff, 0x402000]
        = [None, Some 0, Some 0xeb, Some 0xfe, Some 0, Some 0, None]"
proof -
  have "4 * sum_list (map seg_pages (elf_segments demo_elf (ehdr_of demo_elf))) \<le> card (free_frames (pl (demo_mem 8)))"
    using demo_pool(2) [of 8] by (simp add: demo_elf_ok(3) seg_pages_def)
  from load_elf64_user_image [OF demo_pt_laws demo_space(1) demo_elf_ok(4) this] obtain m' where
    "load_elf64_user demo_pt Some 0x1000 demo_elf (demo_mem 8) = Some (Inr 0x400ffe, m')"
    "proc_image demo_pt 0x1000 m' = place_segment demo_elf \<lparr>p_type = 1, p_flags = 5, p_offset = 120, p_vaddr = 0x400ffe, p_paddr = 0, p_filesz = 2, p_memsz = 4, p_align = 0x1000\<rparr> Map.empty"
    using demo_space(2) [of 8] by (auto simp: demo_elf_ok)
  then show ?thesis by (simp add: place_segment_def demo_elf_def)
qed

end
