(* ===== verification/Sched.thy ===== *)
theory Sched
  imports Vmarena
begin

text \<open>
  \<^verbatim>\<open>kernel/sched/task.rs\<close> and \<^verbatim>\<open>kernel/sched/proc.rs\<close>: tasks, the run queue and the scheduler. A \<open>*mut Task\<close> is
  an address, 0 is null, and the tasks live in a store from addresses to records; following a pointer
  that is not in the store is \<open>None\<close>, like a panic. \<open>switch_context\<close> is assembly: \<open>schedule\<close> returns which
  switch it performs last, in the state in which it performs it. The address a \<open>Box\<close> gets from the heap
  is an argument of the spawn functions.
\<close>

type_synonym ptr = u64

datatype task_state = New | Runnable | Running | Sleeping | Blocked | Zombie

record cpu_context =
  cx_rsp :: u64
  cx_r15 :: u64
  cx_r14 :: u64
  cx_r13 :: u64
  cx_r12 :: u64
  cx_rbx :: u64
  cx_rbp :: u64
  cx_rdi :: u64
  cx_rip :: u64

record trap_frame =
  tf_r15 :: u64
  tf_r14 :: u64
  tf_r13 :: u64
  tf_r12 :: u64
  tf_r11 :: u64
  tf_r10 :: u64
  tf_r9 :: u64
  tf_r8 :: u64
  tf_rsi :: u64
  tf_rdi :: u64
  tf_rbp :: u64
  tf_rdx :: u64
  tf_rcx :: u64
  tf_rbx :: u64
  tf_rax :: u64
  tf_rip :: u64
  tf_cs :: u64
  tf_rflags :: u64
  tf_user_rsp :: u64
  tf_user_ss :: u64

datatype task_kind = KThread u64 u64 | UThread u64

record task =
  tid :: u64
  t_state :: task_state
  t_kind :: task_kind
  t_kstack_top :: u64
  t_ctx :: cpu_context
  wake_jiffies :: u64
  timeslice :: u32
  tf_valid :: bool
  t_tf :: trap_frame
  t_name :: "u8 list"

definition context_default :: cpu_context where
  "context_default = \<lparr>cx_rsp = 0, cx_r15 = 0, cx_r14 = 0, cx_r13 = 0, cx_r12 = 0, cx_rbx = 0, cx_rbp = 0,
     cx_rdi = 0, cx_rip = 0\<rparr>"

definition trap_frame_default :: trap_frame where
  "trap_frame_default = \<lparr>tf_r15 = 0, tf_r14 = 0, tf_r13 = 0, tf_r12 = 0, tf_r11 = 0, tf_r10 = 0, tf_r9 = 0,
     tf_r8 = 0, tf_rsi = 0, tf_rdi = 0, tf_rbp = 0, tf_rdx = 0, tf_rcx = 0, tf_rbx = 0, tf_rax = 0,
     tf_rip = 0, tf_cs = 0, tf_rflags = 0, tf_user_rsp = 0, tf_user_ss = 0\<rparr>"

datatype proc_state = PNew | PRunning | PZombie

record address_space =
  as_root :: u64
  as_flags :: u64

record process =
  pr_pid :: u64
  pr_aspace :: address_space
  pr_kstack_top :: u64
  pr_main_task :: ptr
  pr_state :: proc_state
  pr_name :: "u8 list"

text \<open>
  The statics of the two files, with the machine state that the scheduler touches: the active address
  space, the stack pointer in the TSS, the interrupt flag, and the words of the kernel stacks.
\<close>

record sched =
  tasks :: "ptr \<rightharpoonup> task"
  runq :: "ptr list"
  current :: ptr
  idle :: ptr
  need_resched :: bool
  s_inited :: bool
  in_sys :: bool
  next_tid :: u64
  jiffies :: u64
  procs :: "process list"
  next_pid :: u64
  cr3 :: address_space
  rsp0 :: u64
  iflag :: bool
  kstk :: "u64 \<Rightarrow> u64"

definition DEFAULT_SLICE :: u32 where "DEFAULT_SLICE = 2"
definition MIN_KSTACK_PAGES :: nat where "MIN_KSTACK_PAGES = 16"

text \<open>Writing through a task pointer.\<close>

definition upd_task :: "ptr \<Rightarrow> (task \<Rightarrow> task) \<Rightarrow> sched \<Rightarrow> sched option" where
  "upd_task p f s = (case tasks s p of None \<Rightarrow> None | Some t \<Rightarrow> Some (s\<lparr>tasks := (tasks s)(p \<mapsto> f t)\<rparr>))"

section \<open>Simple operations\<close>

definition syscall_enter :: "sched \<Rightarrow> sched" where "syscall_enter s = s\<lparr>in_sys := True\<rparr>"
definition syscall_exit :: "sched \<Rightarrow> sched" where "syscall_exit s = s\<lparr>in_sys := False\<rparr>"
definition in_syscall :: "sched \<Rightarrow> bool" where "in_syscall s = in_sys s"

definition idle_ptr :: "sched \<Rightarrow> ptr option" where
  "idle_ptr s = (if idle s = 0 then None else Some (idle s))"

definition ms_to_ticks :: "u64 \<Rightarrow> u64" where "ms_to_ticks ms = ms"

definition request_resched :: "sched \<Rightarrow> sched" where "request_resched s = s\<lparr>need_resched := True\<rparr>"

definition sched_init :: "ptr \<Rightarrow> sched \<Rightarrow> sched option" where
  "sched_init idle_task s = do {
     assert_that (idle_task \<noteq> 0);
     s \<leftarrow> upd_task idle_task (\<lambda>t. t\<lparr>t_state := Runnable, timeslice := - 1\<rparr>) (s\<lparr>idle := idle_task\<rparr>);
     Some (s\<lparr>runq := filter (\<lambda>p. p \<noteq> idle_task) (runq s), current := 0, s_inited := True\<rparr>)
   }"

section \<open>Kernel stacks\<close>

text \<open>The guard page is unmapped and its frame freed; the arena keeps the page reserved.\<close>

definition alloc_kstack_top :: "'h x86_ops \<Rightarrow> nat \<Rightarrow> 'h vm \<Rightarrow> (u64 \<times> 'h vm) option" where
  "alloc_kstack_top ops n s = (let total = max n MIN_KSTACK_PAGES + 1 in do {
     (r, s) \<leftarrow> alloc_n ops total s;
     base \<leftarrow> r;
     (u, m) \<leftarrow> unmap ops base (mem s);
     m \<leftarrow> (case u of Inr pf \<Rightarrow> frame_free pf m | Inl _ \<Rightarrow> Some m);
     off \<leftarrow> checked_mul (of_nat total) 4096;
     top \<leftarrow> checked_add base off;
     top \<leftarrow> x_virt ops top;
     Some (top, s\<lparr>mem := m\<rparr>)
   })"

section \<open>Spawning\<close>

definition spawn_kthread ::
  "u64 \<Rightarrow> u64 \<Rightarrow> u8 list \<Rightarrow> u64 \<Rightarrow> u64 \<Rightarrow> u64 \<Rightarrow> ptr \<Rightarrow> sched \<Rightarrow> (ptr \<times> sched) option" where
  "spawn_kthread kthread_exit kthread_trampoline name entry arg kstack_top raw s = do {
     sp1 \<leftarrow> checked_sub kstack_top 8;
     sp2 \<leftarrow> checked_sub sp1 8;
     sp3 \<leftarrow> checked_sub sp2 8;
     let t = \<lparr>tid = next_tid s, t_state = Runnable, t_kind = KThread entry arg, t_kstack_top = kstack_top,
           t_ctx = context_default\<lparr>cx_rsp := sp3, cx_rdi := arg, cx_rip := kthread_trampoline\<rparr>,
           wake_jiffies = 0, timeslice = DEFAULT_SLICE, tf_valid = False, t_tf = trap_frame_default,
           t_name = name\<rparr> in
     Some (raw, s\<lparr>next_tid := next_tid s + 1, kstk := (kstk s)(sp1 := kthread_exit, sp2 := arg, sp3 := entry),
           tasks := (tasks s)(raw \<mapsto> t), runq := runq s @ [raw]\<rparr>)
   }"

definition spawn_uthread :: "u8 list \<Rightarrow> u64 \<Rightarrow> u64 \<Rightarrow> trap_frame \<Rightarrow> ptr \<Rightarrow> sched \<Rightarrow> ptr \<times> sched" where
  "spawn_uthread name pid kstack_top initial_tf raw s =
     (let t = \<lparr>tid = next_tid s, t_state = Runnable, t_kind = UThread pid, t_kstack_top = kstack_top,
            t_ctx = context_default, wake_jiffies = 0, timeslice = DEFAULT_SLICE, tf_valid = True,
            t_tf = initial_tf, t_name = name\<rparr>
      in (raw, s\<lparr>next_tid := next_tid s + 1, tasks := (tasks s)(raw \<mapsto> t), runq := runq s @ [raw]\<rparr>))"

section \<open>Processes\<close>

definition alloc_pid :: "sched \<Rightarrow> u64 \<times> sched" where
  "alloc_pid s = (next_pid s, s\<lparr>next_pid := next_pid s + 1\<rparr>)"

definition for_pid :: "u64 \<Rightarrow> sched \<Rightarrow> process option" where
  "for_pid pid s = find (\<lambda>p. pr_pid p = pid) (procs s)"

text \<open>\<open>new_user_address_space\<close> builds page tables; its result is the argument \<open>aspace\<close>.\<close>

definition create_kernel_backed_process ::
  "u64 \<Rightarrow> u64 \<Rightarrow> address_space \<Rightarrow> u8 list \<Rightarrow> u64 \<Rightarrow> u64 \<Rightarrow> u64 \<Rightarrow> ptr \<Rightarrow> sched \<Rightarrow> (u64 \<times> sched) option" where
  "create_kernel_backed_process kthread_exit kthread_trampoline aspace name entry arg kstack_top raw s =
     (let (pid, s) = alloc_pid s in do {
        (task_ptr, s) \<leftarrow> spawn_kthread kthread_exit kthread_trampoline name entry arg kstack_top raw s;
        s \<leftarrow> upd_task task_ptr (\<lambda>t. t\<lparr>t_kind := UThread pid\<rparr>) s;
        Some (pid, s\<lparr>procs := procs s @ [\<lparr>pr_pid = pid, pr_aspace = aspace, pr_kstack_top = kstack_top,
          pr_main_task = task_ptr, pr_state = PRunning, pr_name = name\<rparr>]\<rparr>)
      })"

definition current_pid :: "sched \<Rightarrow> u64 option option" where
  "current_pid s =
     (if current s = 0 then Some None
      else case tasks s (current s) of
        None \<Rightarrow> None
      | Some t \<Rightarrow> Some (case t_kind t of KThread _ _ \<Rightarrow> None | UThread pid \<Rightarrow> Some pid))"

section \<open>Choosing the next task\<close>

text \<open>
  The loop both \<open>schedule\<close> and \<open>preempt_from_timer\<close> run: at most \<open>len\<close> times, the head of the queue is
  taken if it is runnable and moved to the back otherwise. A picked null pointer means none.
\<close>

fun pick_loop :: "(ptr \<rightharpoonup> task) \<Rightarrow> nat \<Rightarrow> ptr list \<Rightarrow> (ptr \<times> ptr list) option" where
  "pick_loop ts 0 q = Some (0, q)"
| "pick_loop ts (Suc n) [] = Some (0, [])"
| "pick_loop ts (Suc n) (t # q) =
     (if t = 0 then pick_loop ts n (q @ [t])
      else case ts t of
        None \<Rightarrow> None
      | Some tk \<Rightarrow> if t_state tk = Runnable then Some (t, q) else pick_loop ts n (q @ [t]))"

definition pick_next :: "sched \<Rightarrow> (ptr \<times> sched) option" where
  "pick_next s = do {
     (picked, q) \<leftarrow> pick_loop (tasks s) (length (runq s)) (runq s);
     nxt \<leftarrow> (if picked = 0 then idle_ptr s else Some picked);
     Some (nxt, s\<lparr>runq := q\<rparr>)
   }"

definition prepare_next_task_machine_state :: "ptr \<Rightarrow> sched \<Rightarrow> sched option" where
  "prepare_next_task_machine_state p s =
     (case tasks s p of
        None \<Rightarrow> None
      | Some t \<Rightarrow> Some (case t_kind t of
          UThread pid \<Rightarrow>
            (case for_pid pid s of
               Some pr \<Rightarrow> s\<lparr>cr3 := pr_aspace pr, rsp0 := t_kstack_top t\<rparr>
             | None \<Rightarrow> s\<lparr>rsp0 := t_kstack_top t\<rparr>)
        | KThread _ _ \<Rightarrow> s\<lparr>rsp0 := t_kstack_top t\<rparr>))"

section \<open>\<open>schedule\<close>\<close>

datatype switch = NoSwitch | SwitchFromBoot ptr | SwitchTo ptr ptr

definition schedule :: "sched \<Rightarrow> (switch \<times> sched) option" where
  "schedule s =
     (if \<not> s_inited s then Some (NoSwitch, s)
      else let s = s\<lparr>iflag := False\<rparr>; cur = current s in do {
        (nxt, s) \<leftarrow> pick_next s;
        if nxt = 0 then Some (NoSwitch, s\<lparr>iflag := True\<rparr>)
        else if cur = 0 then do {
          s \<leftarrow> upd_task nxt (\<lambda>t. t\<lparr>timeslice := (if timeslice t = 0 then DEFAULT_SLICE else timeslice t),
                 t_state := Running\<rparr>) s;
          s \<leftarrow> prepare_next_task_machine_state nxt s;
          Some (SwitchFromBoot nxt, s\<lparr>current := nxt, need_resched := False\<rparr>)
        }
        else do {
          ct \<leftarrow> tasks s cur;
          s \<leftarrow> (if nxt \<noteq> cur \<and> t_state ct = Running
               then do { s \<leftarrow> upd_task cur (\<lambda>t. t\<lparr>t_state := Runnable\<rparr>) s; Some (s\<lparr>runq := runq s @ [cur]\<rparr>) }
               else Some s);
          if nxt = cur then do {
            i \<leftarrow> idle_ptr s;
            s \<leftarrow> (if cur = i then upd_task cur (\<lambda>t. t\<lparr>timeslice := - 1\<rparr>) s else Some s);
            Some (NoSwitch, s\<lparr>need_resched := False, iflag := True\<rparr>)
          }
          else do {
            i \<leftarrow> idle_ptr s;
            s \<leftarrow> upd_task nxt (\<lambda>t. t\<lparr>timeslice := (if timeslice t = 0 then (if nxt = i then - 1 else DEFAULT_SLICE)
                   else timeslice t), t_state := Running\<rparr>) s;
            s \<leftarrow> prepare_next_task_machine_state nxt s;
            Some (SwitchTo cur nxt, s\<lparr>current := nxt, need_resched := False\<rparr>)
          }
        }
      })"

definition yield_now :: "sched \<Rightarrow> (switch \<times> sched) option" where
  "yield_now s = schedule (request_resched s)"

definition sleep_ms :: "u64 \<Rightarrow> sched \<Rightarrow> (switch \<times> sched) option" where
  "sleep_ms ms s = (let wake = saturating_add (jiffies s) (ms_to_ticks ms); cur = current s in do {
     s \<leftarrow> upd_task cur (\<lambda>t. t\<lparr>t_state := Sleeping, wake_jiffies := wake\<rparr>) s;
     schedule (s\<lparr>runq := runq s @ [cur], need_resched := True\<rparr>)
   })"

text \<open>One turn of the loop of \<open>kthread_exit\<close>, which marks the task and then yields for ever.\<close>

definition kthread_exit_turn :: "sched \<Rightarrow> (switch \<times> sched) option" where
  "kthread_exit_turn s = do {
     s \<leftarrow> upd_task (current s) (\<lambda>t. t\<lparr>t_state := Zombie\<rparr>) s;
     yield_now s
   }"

section \<open>The timer\<close>

fun wake_loop :: "u64 \<Rightarrow> ptr list \<Rightarrow> bool \<Rightarrow> (ptr \<rightharpoonup> task) \<Rightarrow> (bool \<times> (ptr \<rightharpoonup> task)) option" where
  "wake_loop now [] woke ts = Some (woke, ts)"
| "wake_loop now (t # q) woke ts =
     (if t = 0 then wake_loop now q woke ts
      else case ts t of
        None \<Rightarrow> None
      | Some tk \<Rightarrow>
          if t_state tk = Sleeping \<and> wake_jiffies tk \<le> now
          then wake_loop now q True (ts(t \<mapsto> tk\<lparr>t_state := Runnable, timeslice := DEFAULT_SLICE\<rparr>))
          else wake_loop now q woke ts)"

definition on_tick :: "sched \<Rightarrow> sched option" where
  "on_tick s = (let s = s\<lparr>jiffies := jiffies s + 1\<rparr>; cur = current s in do {
     s \<leftarrow> (if cur = 0 then Some s else do {
        i \<leftarrow> idle_ptr s;
        if cur = i then Some s else do {
          ct \<leftarrow> tasks s cur;
          if t_state ct \<noteq> Running then Some s
          else let left = (if timeslice ct > 0 then timeslice ct - 1 else timeslice ct) in
            Some (s\<lparr>tasks := (tasks s)(cur \<mapsto> ct\<lparr>timeslice := left\<rparr>),
                    need_resched := (if left = 0 then True else need_resched s)\<rparr>)
        }
      });
     (woke, ts) \<leftarrow> wake_loop (jiffies s) (runq s) False (tasks s);
     Some (s\<lparr>tasks := ts, need_resched := (if woke then True else need_resched s)\<rparr>)
   })"

text \<open>The inner option is the null pointer: no switch on return from the interrupt.\<close>

definition preempt_from_timer :: "trap_frame \<Rightarrow> sched \<Rightarrow> (trap_frame option \<times> sched) option" where
  "preempt_from_timer tf s =
     (if \<not> s_inited s then Some (None, s)
      else if \<not> need_resched s then Some (None, s)
      else if tf_cs tf AND 3 \<noteq> 3 then Some (None, s\<lparr>need_resched := False\<rparr>)
      else let cur = current s in
        if cur = 0 then Some (None, s\<lparr>need_resched := False\<rparr>)
        else do {
          s \<leftarrow> upd_task cur (\<lambda>t. t\<lparr>t_tf := tf, tf_valid := True\<rparr>) s;
          i \<leftarrow> idle_ptr s;
          ct \<leftarrow> tasks s cur;
          s \<leftarrow> (if cur \<noteq> i \<and> t_state ct = Running
               then do { s \<leftarrow> upd_task cur (\<lambda>t. t\<lparr>t_state := Runnable\<rparr>) s; Some (s\<lparr>runq := runq s @ [cur]\<rparr>) }
               else Some s);
          (nxt, s) \<leftarrow> pick_next s;
          if nxt = 0 \<or> nxt = cur then do {
            s \<leftarrow> upd_task cur (\<lambda>t. t\<lparr>t_state := Running\<rparr>) s;
            Some (None, s\<lparr>need_resched := False\<rparr>)
          }
          else do {
            nt \<leftarrow> tasks s nxt;
            if \<not> tf_valid nt \<or> tf_cs (t_tf nt) AND 3 \<noteq> 3 then do {
              s \<leftarrow> upd_task cur (\<lambda>t. t\<lparr>t_state := Running\<rparr>) s;
              Some (None, s\<lparr>need_resched := False\<rparr>)
            }
            else do {
              s \<leftarrow> upd_task nxt (\<lambda>t. t\<lparr>t_state := Running\<rparr>) s;
              s \<leftarrow> prepare_next_task_machine_state nxt s;
              Some (Some (t_tf nt), s\<lparr>current := nxt, need_resched := False\<rparr>)
            }
          }
        })"

section \<open>Picking\<close>

definition ready :: "(ptr \<rightharpoonup> task) \<Rightarrow> ptr \<Rightarrow> bool" where
  "ready ts p \<longleftrightarrow> (\<exists>t. ts p = Some t \<and> t_state t = Runnable)"

text \<open>
  The loop finds the first runnable task and keeps the cyclic order of the others; with no
  runnable task it leaves the queue as it was.
\<close>

lemma pick_loop_skip:
  assumes "\<forall>p \<in> set xs. p \<noteq> 0 \<and> ts p \<noteq> None \<and> \<not> ready ts p"
  shows "pick_loop ts (length xs + n) (xs @ ys) = pick_loop ts n (ys @ xs)"
  using assms
proof (induction xs arbitrary: ys)
  case (Cons x xs)
  then have "pick_loop ts (length (x # xs) + n) ((x # xs) @ ys) = pick_loop ts (length xs + n) (xs @ ys @ [x])"
    by (auto simp: ready_def)
  with Cons.IH [of "ys @ [x]"] Cons.prems show ?case by simp
qed simp

lemma pick_loop_first:
  assumes "\<forall>p \<in> set q. p \<noteq> 0 \<and> ts p \<noteq> None"
  shows "pick_loop ts (length q) q = Some (case dropWhile (\<lambda>p. \<not> ready ts p) q of
      [] \<Rightarrow> (0, q) | p # r \<Rightarrow> (p, r @ takeWhile (\<lambda>p. \<not> ready ts p) q))"
proof -
  let ?xs = "takeWhile (\<lambda>p. \<not> ready ts p) q" and ?ys = "dropWhile (\<lambda>p. \<not> ready ts p) q"
  have q: "q = ?xs @ ?ys" by simp
  have xs: "\<forall>p \<in> set ?xs. p \<noteq> 0 \<and> ts p \<noteq> None \<and> \<not> ready ts p"
    using assms by (auto dest: set_takeWhileD)
  have "pick_loop ts (length ?xs + length ?ys) (?xs @ ?ys) = pick_loop ts (length ?ys) (?ys @ ?xs)"
    using xs by (rule pick_loop_skip)
  moreover have "length ?xs + length ?ys = length q" by (metis length_append q)
  ultimately have *: "pick_loop ts (length q) q = pick_loop ts (length ?ys) (?ys @ ?xs)" by simp
  show ?thesis
  proof (cases ?ys)
    case Nil
    with * q show ?thesis unfolding Nil by simp
  next
    case (Cons p r)
    then have "ready ts p" using hd_dropWhile [of "\<lambda>p. \<not> ready ts p" q] by simp
    moreover have "p \<in> set q" using Cons set_dropWhileD [of p "\<lambda>p. \<not> ready ts p" q] by simp
    ultimately show ?thesis using * Cons assms by (auto simp: ready_def)
  qed
qed

section \<open>Invariant\<close>

definition st :: "sched \<Rightarrow> ptr \<Rightarrow> task_state option" where
  "st s p = map_option t_state (tasks s p)"

definition sched_wf :: "sched \<Rightarrow> bool" where
  "sched_wf s \<longleftrightarrow> s_inited s \<and> idle s \<noteq> 0 \<and> tasks s 0 = None \<and> tasks s (idle s) \<noteq> None
     \<and> (\<forall>p \<in> set (runq s). tasks s p \<noteq> None) \<and> distinct (runq s)
     \<and> (current s = 0 \<or> tasks s (current s) \<noteq> None)"

text \<open>
  No task is lost (a runnable or sleeping task other than the idle task is queued), no queued task
  runs, only the current task (or the preempted idle task) is marked running, and the current task
  is not queued. While \<open>sleep_ms\<close> runs, the current task is already queued as a sleeper: that is
  the weaker \<open>sched_inv_sleep\<close>.
\<close>

definition sched_inv_sleep :: "sched \<Rightarrow> bool" where
  "sched_inv_sleep s \<longleftrightarrow> sched_wf s \<and> (\<forall>p \<in> set (runq s). st s p \<noteq> Some Running)
     \<and> (idle s \<in> set (runq s) \<longrightarrow> st s (idle s) = Some Runnable)
     \<and> (\<forall>p. st s p \<in> {Some Runnable, Some Sleeping} \<longrightarrow> p \<in> set (runq s) \<or> p = idle s)
     \<and> (\<forall>p. st s p = Some Running \<longrightarrow> p = current s \<or> p = idle s)
     \<and> (current s \<in> set (runq s) \<longrightarrow> st s (current s) = Some Sleeping)"

definition sched_inv :: "sched \<Rightarrow> bool" where
  "sched_inv s \<longleftrightarrow> sched_inv_sleep s \<and> current s \<notin> set (runq s)"

definition ready_queue :: "sched \<Rightarrow> ptr list" where
  "ready_queue s = filter (ready (tasks s)) (runq s)"

lemma ready_st: "ready (tasks s) p \<longleftrightarrow> st s p = Some Runnable"
  by (auto simp: ready_def st_def)

lemma st_None: "st s p = None \<longleftrightarrow> tasks s p = None"
  by (simp add: st_def)

lemma runq_inj: "s\<lparr>runq := a\<rparr> = s\<lparr>runq := b\<rparr> \<Longrightarrow> a = b"
  by (drule arg_cong [of _ _ runq]) simp

lemma pick_next_spec:
  assumes "sched_wf s"
  shows "\<exists>nxt q. pick_next s = Some (nxt, s\<lparr>runq := q\<rparr>) \<and> tasks s nxt \<noteq> None \<and> distinct q
    \<and> filter (ready (tasks s)) q = tl (ready_queue s)
    \<and> (if ready_queue s = [] then nxt = idle s \<and> q = runq s
       else nxt = hd (ready_queue s) \<and> nxt \<in> set (runq s) \<and> set q = set (runq s) - {nxt})"
proof -
  let ?P = "\<lambda>p. \<not> ready (tasks s) p" and ?q = "runq s"
  have wf: "\<forall>p \<in> set ?q. p \<noteq> 0 \<and> tasks s p \<noteq> None" and d: "distinct ?q" and i: "idle_ptr s = Some (idle s)"
    using assms by (auto simp: sched_wf_def idle_ptr_def)
  note pl = pick_loop_first [OF wf]
  show ?thesis
  proof (cases "dropWhile ?P ?q")
    case Nil
    then have "ready_queue s = []" by (auto simp: ready_queue_def filter_empty_conv)
    moreover have "pick_next s = Some (idle s, s\<lparr>runq := ?q\<rparr>)" using pl i unfolding Nil by (simp add: pick_next_def)
    ultimately show ?thesis using assms d by (auto simp: sched_wf_def ready_queue_def)
  next
    case (Cons p r)
    let ?xs = "takeWhile ?P ?q"
    have q: "?q = ?xs @ p # r" using Cons takeWhile_dropWhile_id [of ?P ?q] by simp
    have rp: "ready (tasks s) p" using Cons hd_dropWhile [of ?P ?q] by simp
    have fx: "filter (ready (tasks s)) ?xs = []" by (auto simp: filter_empty_conv dest: set_takeWhileD)
    have "filter (ready (tasks s)) ?q = filter (ready (tasks s)) (?xs @ p # r)" using q by (rule arg_cong)
    then have rq: "ready_queue s = p # filter (ready (tasks s)) r" using rp fx by (simp add: ready_queue_def)
    have mem: "set ?q = set ?xs \<union> {p} \<union> set r" by (subst q) auto
    have dist: "distinct (?xs @ p # r)" using d q by simp
    have "p \<noteq> 0" "tasks s p \<noteq> None" using wf mem by auto
    moreover have "pick_next s = Some (p, s\<lparr>runq := r @ ?xs\<rparr>)"
      using pl \<open>p \<noteq> 0\<close> unfolding Cons by (simp add: pick_next_def)
    moreover have "distinct (r @ ?xs)" "set (r @ ?xs) = set ?q - {p}" using dist mem by auto
    ultimately show ?thesis using rq mem fx by auto
  qed
qed

lemma prepare_next_total:
  assumes "tasks s p \<noteq> None"
  shows "\<exists>a b. prepare_next_task_machine_state p s = Some (s\<lparr>cr3 := a, rsp0 := b\<rparr>)"
proof -
  obtain t where t: "tasks s p = Some t" using assms by blast
  show ?thesis
  proof (cases "\<exists>pid pr. t_kind t = UThread pid \<and> for_pid pid s = Some pr")
    case True
    then obtain pid pr where "t_kind t = UThread pid" "for_pid pid s = Some pr" by blast
    with t show ?thesis
      by (intro exI [of _ "pr_aspace pr"] exI [of _ "t_kstack_top t"]) (simp add: prepare_next_task_machine_state_def)
  next
    case False
    with t have "prepare_next_task_machine_state p s = Some (s\<lparr>rsp0 := t_kstack_top t\<rparr>)"
      by (cases "t_kind t") (auto simp: prepare_next_task_machine_state_def split: option.split)
    then show ?thesis by (intro exI [of _ "cr3 s"] exI [of _ "t_kstack_top t"]) simp
  qed
qed

text \<open>What \<open>schedule\<close> does to the states, the queue and the current task.\<close>

definition switched :: "sched \<Rightarrow> ptr \<Rightarrow> bool" where
  "switched s nxt \<longleftrightarrow> current s \<noteq> 0 \<and> nxt \<noteq> current s \<and> st s (current s) = Some Running"

lemma switched_self [simp]: "\<not> switched s (current s)"
  by (simp add: switched_def)

lemma run_next:
  assumes "tasks s nxt = Some nt"
  obtains x y where "do { s \<leftarrow> upd_task nxt f s; s \<leftarrow> prepare_next_task_machine_state nxt s;
      Some (a, s\<lparr>current := nxt, need_resched := False\<rparr>) }
    = Some (a, s\<lparr>tasks := (tasks s)(nxt \<mapsto> f nt), cr3 := x, rsp0 := y, current := nxt, need_resched := False\<rparr>)"
proof -
  let ?s = "s\<lparr>tasks := (tasks s)(nxt \<mapsto> f nt)\<rparr>"
  obtain x y where "prepare_next_task_machine_state nxt ?s = Some (?s\<lparr>cr3 := x, rsp0 := y\<rparr>)"
    using prepare_next_total [of ?s nxt] by auto
  then have "do { s \<leftarrow> upd_task nxt f s; s \<leftarrow> prepare_next_task_machine_state nxt s;
      Some (a, s\<lparr>current := nxt, need_resched := False\<rparr>) }
    = Some (a, s\<lparr>tasks := (tasks s)(nxt \<mapsto> f nt), cr3 := x, rsp0 := y, current := nxt, need_resched := False\<rparr>)"
    using assms by (simp add: upd_task_def)
  then show thesis by (rule that)
qed

lemma schedule_effect:
  assumes wf: "sched_wf s" and pn: "pick_next s = Some (nxt, s\<lparr>runq := q\<rparr>)" and tn: "tasks s nxt \<noteq> None"
  obtains a s' where "schedule s = Some (a, s')"
    "current s' = nxt" "runq s' = q @ (if switched s nxt then [current s] else [])" "idle s' = idle s"
    "s_inited s'" "jiffies s' = jiffies s" "procs s' = procs s"
    "st s' = (\<lambda>p. if p = nxt \<and> nxt \<noteq> current s then Some Running
        else if p = current s \<and> switched s nxt then Some Runnable else st s p)"
    "\<forall>p. p \<noteq> nxt \<and> \<not> (p = current s \<and> switched s nxt) \<longrightarrow> tasks s' p = tasks s p"
    "a = (if current s = 0 then SwitchFromBoot nxt else if nxt = current s then NoSwitch else SwitchTo (current s) nxt)"
    "\<forall>p. map_option t_ctx (tasks s' p) = map_option t_ctx (tasks s p)"
proof -
  have n0: "nxt \<noteq> 0" and ini: "s_inited s" and i: "idle s \<noteq> 0"
    and c: "current s = 0 \<or> tasks s (current s) \<noteq> None"
    using wf tn by (auto simp: sched_wf_def)
  obtain nt where nt: "tasks s nxt = Some nt" using tn by blast
  have pn': "pick_next (s\<lparr>iflag := False\<rparr>) = Some (nxt, s\<lparr>runq := q, iflag := False\<rparr>)"
    using pn by (auto simp: pick_next_def idle_ptr_def split: Option.bind_splits if_splits dest!: runq_inj)
  let ?S = "s\<lparr>runq := q, iflag := False\<rparr>"
  show thesis
  proof (cases "current s = 0")
    case True
    let ?f = "\<lambda>t. t\<lparr>timeslice := (if timeslice t = 0 then DEFAULT_SLICE else timeslice t), t_state := Running\<rparr>"
    have "schedule s = do { s \<leftarrow> upd_task nxt ?f ?S; s \<leftarrow> prepare_next_task_machine_state nxt s;
        Some (SwitchFromBoot nxt, s\<lparr>current := nxt, need_resched := False\<rparr>) }"
      using ini pn' n0 True by (simp add: schedule_def Let_def)
    moreover obtain x y where "do { s \<leftarrow> upd_task nxt ?f ?S; s \<leftarrow> prepare_next_task_machine_state nxt s;
        Some (SwitchFromBoot nxt, s\<lparr>current := nxt, need_resched := False\<rparr>) }
      = Some (SwitchFromBoot nxt, ?S\<lparr>tasks := (tasks ?S)(nxt \<mapsto> ?f nt), cr3 := x, rsp0 := y, current := nxt, need_resched := False\<rparr>)"
      by (rule run_next [of ?S nxt nt]) (simp add: nt)
    ultimately have "schedule s = Some (SwitchFromBoot nxt, ?S\<lparr>tasks := (tasks ?S)(nxt \<mapsto> ?f nt), cr3 := x, rsp0 := y,
        current := nxt, need_resched := False\<rparr>)" by (rule trans)
    then show thesis by (rule that) (use True n0 ini nt in \<open>auto simp: st_def switched_def fun_eq_iff\<close>)
  next
    case False
    then obtain ct where ct: "tasks s (current s) = Some ct" using c by blast
    show thesis
    proof (cases "nxt = current s")
      case True
      let ?ts = "if current s = idle s then (tasks s)(current s \<mapsto> ct\<lparr>timeslice := - 1\<rparr>) else tasks s"
      have "schedule s = Some (NoSwitch, s\<lparr>runq := q, tasks := ?ts, need_resched := False, iflag := True\<rparr>)"
        using ini pn' n0 True False ct i
        by (cases "current s = idle s") (simp_all add: schedule_def Let_def upd_task_def idle_ptr_def)
      then show thesis
        by (rule that) (use True False ini ct in \<open>auto simp: st_def switched_def fun_eq_iff\<close>)
    next
      case ne: False
      let ?f = "\<lambda>t. t\<lparr>timeslice := (if timeslice t = 0 then (if nxt = idle s then - 1 else DEFAULT_SLICE)
                   else timeslice t), t_state := Running\<rparr>"
      let ?T = "if t_state ct = Running then ?S\<lparr>tasks := (tasks s)(current s \<mapsto> ct\<lparr>t_state := Runnable\<rparr>),
          runq := q @ [current s]\<rparr> else ?S"
      let ?a = "SwitchTo (current s) nxt"
      have "schedule s = do { s \<leftarrow> upd_task nxt ?f ?T; s \<leftarrow> prepare_next_task_machine_state nxt s;
          Some (?a, s\<lparr>current := nxt, need_resched := False\<rparr>) }"
        using ini pn' n0 False ne ct i
        by (cases "t_state ct = Running")
          (simp_all add: schedule_def Let_def upd_task_def [of "current s"] idle_ptr_def)
      moreover obtain x y where "do { s \<leftarrow> upd_task nxt ?f ?T; s \<leftarrow> prepare_next_task_machine_state nxt s;
          Some (?a, s\<lparr>current := nxt, need_resched := False\<rparr>) }
        = Some (?a, ?T\<lparr>tasks := (tasks ?T)(nxt \<mapsto> ?f nt), cr3 := x, rsp0 := y, current := nxt, need_resched := False\<rparr>)"
        by (rule run_next [of ?T nxt nt]) (use nt ne in simp)
      ultimately have "schedule s = Some (?a, ?T\<lparr>tasks := (tasks ?T)(nxt \<mapsto> ?f nt), cr3 := x, rsp0 := y,
          current := nxt, need_resched := False\<rparr>)" by (rule trans)
      then show thesis
        by (rule that) (use ne False ini ct nt in \<open>auto simp: st_def switched_def fun_eq_iff\<close>)
    qed
  qed
qed

text \<open>
  \<open>schedule\<close> never panics on a state that satisfies the invariant, restores it, and serves the ready
  queue first-in first-out: its head runs next, and a current task that was still running goes to
  the back.
\<close>

lemma schedule_round_robin:
  assumes inv: "sched_inv_sleep s"
  shows "\<exists>a s'. schedule s = Some (a, s') \<and> sched_inv s' \<and> idle s' = idle s \<and> jiffies s' = jiffies s
    \<and> current s' = (case ready_queue s of [] \<Rightarrow> idle s | p # _ \<Rightarrow> p)
    \<and> ready_queue s' = tl (ready_queue s) @ (if switched s (current s') then [current s] else [])
    \<and> st s' (current s') = (if current s' = current s then st s (current s) else Some Running)
    \<and> (\<forall>p. p \<noteq> current s' \<and> \<not> (p = current s \<and> switched s (current s')) \<longrightarrow> tasks s' p = tasks s p)"
proof -
  have wf: "sched_wf s" using inv by (simp add: sched_inv_sleep_def)
  obtain nxt q where pn: "pick_next s = Some (nxt, s\<lparr>runq := q\<rparr>)" and pick: "tasks s nxt \<noteq> None" "distinct q"
      "filter (ready (tasks s)) q = tl (ready_queue s)"
      "if ready_queue s = [] then nxt = idle s \<and> q = runq s
       else nxt = hd (ready_queue s) \<and> nxt \<in> set (runq s) \<and> set q = set (runq s) - {nxt}"
    using pick_next_spec [OF wf] by blast
  from wf pn pick(1) obtain a s' where sch: "schedule s = Some (a, s')"
    and cur': "current s' = nxt" and rq': "runq s' = q @ (if switched s nxt then [current s] else [])"
    and keep: "idle s' = idle s" "s_inited s'" "jiffies s' = jiffies s"
    and st': "st s' = (\<lambda>p. if p = nxt \<and> nxt \<noteq> current s then Some Running
        else if p = current s \<and> switched s nxt then Some Runnable else st s p)"
    and other: "\<forall>p. p \<noteq> nxt \<and> \<not> (p = current s \<and> switched s nxt) \<longrightarrow> tasks s' p = tasks s p"
    by (rule schedule_effect)
  have sub: "set q \<subseteq> set (runq s)" using pick(4) by (auto split: if_splits)
  have same: "nxt = idle s \<and> ready_queue s = []" if "nxt = current s"
  proof (rule ccontr)
    assume "\<not> (nxt = idle s \<and> ready_queue s = [])"
    then have ne: "ready_queue s \<noteq> []" using pick(4) by argo
    then have "nxt = hd (ready_queue s)" "nxt \<in> set (runq s)" using pick(4) by argo+
    then have "st s nxt = Some Runnable" "nxt \<in> set (runq s)"
      using hd_in_set [OF ne] by (simp_all add: ready_queue_def ready_st)
    with that inv show False by (simp add: sched_inv_sleep_def)
  qed
  have nq: "nxt \<notin> set q"
  proof (cases "ready_queue s = []")
    case True
    then have "st s (idle s) \<noteq> Some Runnable \<or> idle s \<notin> set (runq s)"
      by (auto simp: ready_queue_def filter_empty_conv ready_st)
    then show ?thesis using True pick(4) inv by (auto simp: sched_inv_sleep_def)
  qed (use pick(4) in auto)
  have sw: "current s \<notin> set (runq s)" if "switched s nxt"
    using that inv unfolding sched_inv_sleep_def switched_def by force
  have none: "tasks s' p = None \<longleftrightarrow> tasks s p = None" for p
    using st' pick(1) wf by (auto simp flip: st_None simp: switched_def sched_wf_def)
  have i0: "idle s \<noteq> 0" "tasks s 0 = None" "tasks s (idle s) \<noteq> None" using wf by (auto simp: sched_wf_def)
  have "sched_wf s'"
    unfolding sched_wf_def cur' rq' keep(1) none
    using keep(2) i0 pick(1,2) sub sw wf by (auto simp: sched_wf_def switched_def)
  moreover have "p \<in> set (runq s') \<or> p = idle s" if "st s' p \<in> {Some Runnable, Some Sleeping}" for p
  proof (cases "p = nxt")
    case True
    then have "nxt = current s" using that st' by (auto split: if_splits)
    with same True show ?thesis by simp
  next
    case False
    have "p \<in> set q \<or> p = idle s" if "\<not> (p = current s \<and> switched s nxt)"
    proof -
      have "st s p \<in> {Some Runnable, Some Sleeping}"
        using \<open>st s' p \<in> _\<close> that False st' by (auto split: if_splits)
      then show ?thesis using inv pick(4) False by (auto simp: sched_inv_sleep_def split: if_splits)
    qed
    then show ?thesis using rq' by auto
  qed
  moreover have "st s' p \<noteq> Some Running" if "p \<in> set (runq s')" for p
    using that rq' st' nq sub sw inv by (auto simp: sched_inv_sleep_def split: if_splits)
  moreover have "st s' (idle s) = Some Runnable" if "idle s \<in> set (runq s')"
    using that rq' st' nq sub inv by (auto simp: sched_inv_sleep_def split: if_splits)
  moreover have "p = nxt \<or> p = idle s" if "st s' p = Some Running" for p
    using that st' inv i0(2) by (cases "p = 0") (auto simp: sched_inv_sleep_def switched_def st_def [of s 0] split: if_splits)
  moreover have "nxt \<notin> set (runq s')" using nq rq' by (auto simp: switched_def)
  ultimately have "sched_inv s'"
    unfolding sched_inv_def sched_inv_sleep_def keep(1) cur' by blast
  moreover have "nxt = (case ready_queue s of [] \<Rightarrow> idle s | p # _ \<Rightarrow> p)"
    using pick(4) by (cases "ready_queue s") auto
  moreover have "ready_queue s' = tl (ready_queue s) @ (if switched s nxt then [current s] else [])"
  proof -
    have "filter (ready (tasks s')) q = filter (ready (tasks s)) q"
      using nq sub sw by (intro filter_cong) (auto simp: ready_st st')
    then show ?thesis using pick(3) rq' by (auto simp: ready_queue_def ready_st st' switched_def)
  qed
  ultimately show ?thesis using sch keep cur' st' other by auto
qed

section \<open>Other operations keep the invariant\<close>

lemma sched_inv_flags:
  "sched_inv_sleep (s\<lparr>need_resched := b\<rparr>) = sched_inv_sleep s" "sched_inv (s\<lparr>need_resched := b\<rparr>) = sched_inv s"
  "ready_queue (s\<lparr>need_resched := b\<rparr>) = ready_queue s" "switched (s\<lparr>need_resched := b\<rparr>) p = switched s p"
  "st (s\<lparr>need_resched := b\<rparr>) = st s" "idle (s\<lparr>need_resched := b\<rparr>) = idle s"
  "jiffies (s\<lparr>need_resched := b\<rparr>) = jiffies s" "current (s\<lparr>need_resched := b\<rparr>) = current s"
  by (simp_all add: sched_inv_def sched_inv_sleep_def sched_wf_def st_def ready_queue_def switched_def fun_eq_iff)

lemma yield_now_step:
  assumes "sched_inv s"
  shows "\<exists>a s'. yield_now s = Some (a, s') \<and> sched_inv s' \<and> idle s' = idle s \<and> jiffies s' = jiffies s
    \<and> current s' = (case ready_queue s of [] \<Rightarrow> idle s | p # _ \<Rightarrow> p)
    \<and> ready_queue s' = tl (ready_queue s) @ (if switched s (current s') then [current s] else [])
    \<and> st s' (current s') = (if current s' = current s then st s (current s) else Some Running)"
proof -
  have "sched_inv_sleep (s\<lparr>need_resched := True\<rparr>)" using assms by (simp add: sched_inv_flags sched_inv_def)
  from schedule_round_robin [OF this] show ?thesis
    unfolding yield_now_def request_resched_def sched_inv_flags by blast
qed

text \<open>A sleeping task is queued as a sleeper with its wake-up time; another task runs.\<close>

lemma sleep_ms_step:
  assumes inv: "sched_inv s" and cur: "current s \<noteq> 0" "current s \<noteq> idle s"
  shows "\<exists>a s'. sleep_ms ms s = Some (a, s') \<and> sched_inv s' \<and> current s' \<noteq> current s
    \<and> (\<exists>t. tasks s' (current s) = Some t \<and> t_state t = Sleeping \<and> wake_jiffies t = saturating_add (jiffies s) ms)"
proof -
  obtain ct where ct: "tasks s (current s) = Some ct" using inv cur by (auto simp: sched_inv_def sched_inv_sleep_def sched_wf_def)
  let ?t = "ct\<lparr>t_state := Sleeping, wake_jiffies := saturating_add (jiffies s) ms\<rparr>"
  define u where "u = s\<lparr>tasks := (tasks s)(current s \<mapsto> ?t), runq := runq s @ [current s], need_resched := True\<rparr>"
  have u: "idle u = idle s" "current u = current s" "tasks u (current s) = Some ?t" by (simp_all add: u_def)
  have st: "st u = (st s)(current s := Some Sleeping)" by (auto simp: st_def u_def)
  have inv': "sched_inv_sleep u"
    unfolding sched_inv_sleep_def st using inv cur
    by (auto simp: sched_inv_def sched_inv_sleep_def sched_wf_def u_def)
  have run: "sleep_ms ms s = schedule u" using ct by (simp add: sleep_ms_def upd_task_def ms_to_ticks_def Let_def u_def)
  from schedule_round_robin [OF inv', unfolded u] obtain a s' where s': "schedule u = Some (a, s')" "sched_inv s'"
    "current s' = (case ready_queue u of [] \<Rightarrow> idle s | p # _ \<Rightarrow> p)"
    "\<forall>p. p \<noteq> current s' \<and> \<not> (p = current s \<and> switched u (current s')) \<longrightarrow> tasks s' p = tasks u p" by blast
  have "current s \<notin> set (ready_queue u)" by (simp add: ready_queue_def ready_st st)
  then have ne: "current s' \<noteq> current s" using s'(3) cur by (auto split: list.splits)
  have "\<not> switched u (current s')" by (simp add: switched_def st u)
  then have "tasks s' (current s) = Some ?t" using s'(4) ne u(3) by metis
  with run s' ne show ?thesis by auto
qed

text \<open>The wake-up loop of \<open>on_tick\<close> as a map over the tasks in the queue.\<close>

definition due :: "u64 \<Rightarrow> task \<Rightarrow> bool" where
  "due now tk \<longleftrightarrow> t_state tk = Sleeping \<and> wake_jiffies tk \<le> now"

definition woken :: "u64 \<Rightarrow> task \<Rightarrow> task" where
  "woken now tk = (if due now tk then tk\<lparr>t_state := Runnable, timeslice := DEFAULT_SLICE\<rparr> else tk)"

lemma wake_loop_spec:
  assumes "\<forall>p \<in> set q. p \<noteq> 0 \<and> ts p \<noteq> None" "distinct q"
  shows "\<exists>w'. wake_loop now q w ts = Some (w', \<lambda>p. if p \<in> set q then map_option (woken now) (ts p) else ts p)"
  using assms
proof (induction q arbitrary: w ts)
  case (Cons p q)
  then obtain tk where tk: "ts p = Some tk" "p \<noteq> 0" by auto
  let ?ts = "ts(p \<mapsto> woken now tk)"
  have eq: "wake_loop now (p # q) w ts = wake_loop now q (w \<or> due now tk) ?ts"
    using tk by (auto simp: woken_def due_def fun_upd_idem)
  have "\<forall>x \<in> set q. x \<noteq> 0 \<and> ?ts x \<noteq> None" "distinct q" using Cons.prems by auto
  from Cons.IH [OF this, of "w \<or> due now tk"] obtain w' where
    "wake_loop now q (w \<or> due now tk) ?ts = Some (w', \<lambda>x. if x \<in> set q then map_option (woken now) (?ts x) else ?ts x)" ..
  moreover have "(\<lambda>x. if x \<in> set q then map_option (woken now) (?ts x) else ?ts x)
      = (\<lambda>x. if x \<in> set (p # q) then map_option (woken now) (ts x) else ts x)"
    using Cons.prems(2) tk by (auto simp: fun_eq_iff)
  ultimately show ?case using eq by auto
qed auto

text \<open>A tick advances the clock, wakes every sleeper that is due and changes no other state.\<close>

lemma on_tick_spec:
  assumes inv: "sched_inv s"
  shows "\<exists>s'. on_tick s = Some s' \<and> jiffies s' = jiffies s + 1 \<and> current s' = current s \<and> idle s' = idle s
    \<and> runq s' = runq s \<and> s_inited s'
    \<and> (\<forall>p. p \<notin> set (runq s) \<longrightarrow> st s' p = st s p)
    \<and> (\<forall>p \<in> set (runq s). tasks s' p = map_option (woken (jiffies s + 1)) (tasks s p))"
proof -
  have wf: "\<forall>p \<in> set (runq s). p \<noteq> 0 \<and> tasks s p \<noteq> None" "distinct (runq s)" "s_inited s"
    and i: "idle s \<noteq> 0" and c: "current s = 0 \<or> tasks s (current s) \<noteq> None" and cq: "current s \<notin> set (runq s)"
    using inv by (auto simp: sched_inv_def sched_inv_sleep_def sched_wf_def)
  let ?j = "jiffies s + 1"
  have "\<exists>ts b. on_tick s = (case wake_loop ?j (runq s) False ts of None \<Rightarrow> None
      | Some (w, ts) \<Rightarrow> Some (s\<lparr>jiffies := ?j, tasks := ts, need_resched := (if w then True else b)\<rparr>))
      \<and> (\<forall>p. p \<noteq> current s \<longrightarrow> ts p = tasks s p) \<and> map_option t_state (ts (current s)) = st s (current s)"
  proof (cases "current s = 0 \<or> current s = idle s \<or> st s (current s) \<noteq> Some Running")
    case True
    then have "on_tick s = (case wake_loop ?j (runq s) False (tasks s) of None \<Rightarrow> None
      | Some (w, ts) \<Rightarrow> Some (s\<lparr>jiffies := ?j, tasks := ts, need_resched := (if w then True else need_resched s)\<rparr>))"
      using i c by (auto simp: on_tick_def Let_def idle_ptr_def st_def split: option.split)
    then show ?thesis by (intro exI [of _ "tasks s"] exI [of _ "need_resched s"]) (simp add: st_def)
  next
    case False
    then obtain ct where ct: "tasks s (current s) = Some ct" "t_state ct = Running" by (auto simp: st_def)
    let ?l = "if timeslice ct > 0 then timeslice ct - 1 else timeslice ct"
    let ?ts = "(tasks s)(current s \<mapsto> ct\<lparr>timeslice := ?l\<rparr>)"
    let ?b = "if ?l = 0 then True else need_resched s"
    have "on_tick s = (case wake_loop ?j (runq s) False ?ts of None \<Rightarrow> None
      | Some (w, ts) \<Rightarrow> Some (s\<lparr>jiffies := ?j, tasks := ts, need_resched := (if w then True else ?b)\<rparr>))"
      using False i ct by (simp add: on_tick_def Let_def idle_ptr_def split: option.split)
    then show ?thesis using ct by (intro exI [of _ ?ts] exI [of _ ?b]) (simp add: st_def)
  qed
  then obtain ts b where run: "on_tick s = (case wake_loop ?j (runq s) False ts of None \<Rightarrow> None
      | Some (w, ts) \<Rightarrow> Some (s\<lparr>jiffies := ?j, tasks := ts, need_resched := (if w then True else b)\<rparr>))"
    and ts: "\<forall>p. p \<noteq> current s \<longrightarrow> ts p = tasks s p" "map_option t_state (ts (current s)) = st s (current s)" by blast
  have q: "\<forall>p \<in> set (runq s). ts p = tasks s p" using ts(1) cq by metis
  then have "\<forall>p \<in> set (runq s). p \<noteq> 0 \<and> ts p \<noteq> None" using wf(1) by simp
  from wake_loop_spec [OF this wf(2)] obtain w where
    "wake_loop ?j (runq s) False ts = Some (w, \<lambda>p. if p \<in> set (runq s) then map_option (woken ?j) (ts p) else ts p)" by blast
  with run q ts wf(3) show ?thesis by (auto simp: st_def) metis
qed

lemma on_tick_inv:
  assumes inv: "sched_inv s" and run: "on_tick s = Some s'"
  shows "sched_inv s'"
proof -
  from on_tick_spec [OF inv] run have s': "current s' = current s" "idle s' = idle s" "runq s' = runq s" "s_inited s'"
    "\<forall>p. p \<notin> set (runq s) \<longrightarrow> st s' p = st s p"
    "\<forall>p \<in> set (runq s). tasks s' p = map_option (woken (jiffies s + 1)) (tasks s p)" by auto
  have q: "st s' p = st s p \<or> (st s p = Some Sleeping \<and> st s' p = Some Runnable)" for p
  proof (cases "p \<in> set (runq s)")
    case True
    then show ?thesis using s'(6) by (cases "tasks s p") (auto simp: st_def woken_def due_def)
  qed (use s'(5) in auto)
  then have none: "tasks s' p = None \<longleftrightarrow> tasks s p = None" for p by (metis st_None option.distinct(1))
  have runs: "st s' p = Some Running \<longleftrightarrow> st s p = Some Running"
    and live: "st s' p \<in> {Some Runnable, Some Sleeping} \<longleftrightarrow> st s p \<in> {Some Runnable, Some Sleeping}"
    and rdy: "st s p = Some Runnable \<Longrightarrow> st s' p = Some Runnable" for p
    using q [of p] by auto
  show ?thesis
    using inv s'(4) rdy unfolding sched_inv_def sched_inv_sleep_def sched_wf_def s'(1-3) none runs live by blast
qed

section \<open>Steps of the system\<close>

text \<open>
  A new task is in no queue; killing (\<open>sys_proc_kill\<close>, \<open>sys_exit\<close>) marks a task as a zombie where it is.
\<close>

lemma spawn_inv:
  assumes inv: "sched_inv s" and fresh: "raw \<noteq> 0" "tasks s raw = None"
    and s': "s' = s\<lparr>next_tid := n, kstk := k, tasks := (tasks s)(raw \<mapsto> t), runq := runq s @ [raw]\<rparr>"
    and t: "t_state t = Runnable"
  shows "sched_inv s'"
proof -
  have st: "st s' = (st s)(raw := Some Runnable)" using t by (auto simp: st_def s')
  have new: "raw \<noteq> idle s" "raw \<notin> set (runq s)" "raw \<noteq> current s"
    using inv fresh by (auto simp: sched_inv_def sched_inv_sleep_def sched_wf_def)
  have wf: "sched_wf s'" using inv fresh new by (auto simp: sched_inv_def sched_inv_sleep_def sched_wf_def s')
  show ?thesis
    using inv wf new unfolding sched_inv_def sched_inv_sleep_def st by (auto simp: s')
qed

lemma spawn_uthread_inv:
  assumes "sched_inv s" "raw \<noteq> 0" "tasks s raw = None"
  shows "sched_inv (snd (spawn_uthread name pid ktop tf raw s))"
proof -
  let ?t = "\<lparr>tid = next_tid s, t_state = Runnable, t_kind = UThread pid, t_kstack_top = ktop,
            t_ctx = context_default, wake_jiffies = 0, timeslice = DEFAULT_SLICE, tf_valid = True,
            t_tf = tf, t_name = name\<rparr>"
  show ?thesis
    by (rule spawn_inv [OF assms, where n = "next_tid s + 1" and k = "kstk s" and t = ?t])
      (simp_all add: spawn_uthread_def)
qed

lemma spawn_kthread_inv:
  assumes "sched_inv s" "raw \<noteq> 0" "tasks s raw = None" "spawn_kthread ea tr name entry arg ktop raw s = Some (p, s')"
  shows "sched_inv s' \<and> p = raw"
proof -
  obtain sp1 where sp1: "checked_sub ktop 8 = Some sp1"
    using assms(4) by (cases "checked_sub ktop 8") (simp_all add: spawn_kthread_def)
  obtain sp2 where sp2: "checked_sub sp1 8 = Some sp2"
    using assms(4) sp1 by (cases "checked_sub sp1 8") (simp_all add: spawn_kthread_def)
  obtain sp3 where sp3: "checked_sub sp2 8 = Some sp3"
    using assms(4) sp1 sp2 by (cases "checked_sub sp2 8") (simp_all add: spawn_kthread_def)
  let ?t = "\<lparr>tid = next_tid s, t_state = Runnable, t_kind = KThread entry arg, t_kstack_top = ktop,
           t_ctx = context_default\<lparr>cx_rsp := sp3, cx_rdi := arg, cx_rip := tr\<rparr>,
           wake_jiffies = 0, timeslice = DEFAULT_SLICE, tf_valid = False, t_tf = trap_frame_default,
           t_name = name\<rparr>"
  have "p = raw \<and> s' = s\<lparr>next_tid := next_tid s + 1, kstk := (kstk s)(sp1 := ea, sp2 := arg, sp3 := entry),
      tasks := (tasks s)(raw \<mapsto> ?t), runq := runq s @ [raw]\<rparr>"
    using assms(4) sp1 sp2 sp3 by (auto simp: spawn_kthread_def Let_def)
  then show ?thesis using spawn_inv [OF assms(1-3)] by (metis task.select_convs(2))
qed

lemma zombie_inv:
  assumes inv: "sched_inv s" and run: "upd_task p (\<lambda>t. t\<lparr>t_state := Zombie\<rparr>) s = Some s'" and ni: "p \<noteq> idle s"
  shows "sched_inv s'"
proof -
  obtain t where t: "tasks s p = Some t" "s' = s\<lparr>tasks := (tasks s)(p \<mapsto> t\<lparr>t_state := Zombie\<rparr>)\<rparr>"
    using run by (auto simp: upd_task_def split: option.splits)
  have st: "st s' = (st s)(p := Some Zombie)" by (auto simp: st_def t(2))
  have wf: "sched_wf s'" using inv t by (auto simp: sched_inv_def sched_inv_sleep_def sched_wf_def)
  show ?thesis using inv wf ni unfolding sched_inv_def sched_inv_sleep_def st by (auto simp: t(2))
qed

text \<open>What can happen between two entries of the scheduler, the timer's preemption apart.\<close>

inductive sched_step :: "sched \<Rightarrow> sched \<Rightarrow> bool" where
  step_kthread: "raw \<noteq> 0 \<Longrightarrow> tasks s raw = None \<Longrightarrow> spawn_kthread ea tr name entry arg ktop raw s = Some (p, s') \<Longrightarrow>
     sched_step s s'"
| step_uthread: "raw \<noteq> 0 \<Longrightarrow> tasks s raw = None \<Longrightarrow> sched_step s (snd (spawn_uthread name pid ktop tf raw s))"
| step_tick: "on_tick s = Some s' \<Longrightarrow> sched_step s s'"
| step_yield: "yield_now s = Some (a, s') \<Longrightarrow> sched_step s s'"
| step_sleep: "current s \<noteq> 0 \<Longrightarrow> current s \<noteq> idle s \<Longrightarrow> sleep_ms ms s = Some (a, s') \<Longrightarrow> sched_step s s'"
| step_zombie: "p \<noteq> idle s \<Longrightarrow> upd_task p (\<lambda>t. t\<lparr>t_state := Zombie\<rparr>) s = Some s' \<Longrightarrow> sched_step s s'"

lemma sched_step_inv:
  assumes "sched_step s s'" "sched_inv s"
  shows "sched_inv s'"
  using assms
proof (cases rule: sched_step.cases)
  case (step_yield a)
  then show ?thesis using yield_now_step [OF assms(2)] by auto
next
  case (step_sleep ms a)
  then show ?thesis using sleep_ms_step [OF assms(2), of ms] by auto
qed (use assms(2) in \<open>auto intro: spawn_uthread_inv on_tick_inv zombie_inv dest: spawn_kthread_inv\<close>)

section \<open>Fairness\<close>

fun yields :: "nat \<Rightarrow> sched \<Rightarrow> sched option" where
  "yields 0 s = Some s"
| "yields (Suc n) s = (case yield_now s of None \<Rightarrow> None | Some (a, s') \<Rightarrow> yields n s')"

lemma yields_reach:
  assumes "sched_inv s" "current s \<noteq> 0" "st s (current s) = Some Running" "k < length (ready_queue s)"
  shows "\<exists>s'. yields (Suc k) s = Some s' \<and> sched_inv s' \<and> current s' = ready_queue s ! k
    \<and> st s' (current s') = Some Running"
  using assms
proof (induction k arbitrary: s)
  case (0 s)
  then obtain p R where R: "ready_queue s = p # R" by (cases "ready_queue s") auto
  then have "p \<in> set (runq s)" by (metis filter_is_subset list.set_intros(1) ready_queue_def subsetD)
  then have "p \<noteq> current s" using 0(1) by (auto simp: sched_inv_def)
  with yield_now_step [OF 0(1)] R show ?case by auto
next
  case (Suc k s)
  then obtain p R where R: "ready_queue s = p # R" by (cases "ready_queue s") auto
  then have "p \<in> set (runq s)" by (metis filter_is_subset list.set_intros(1) ready_queue_def subsetD)
  then have ne: "p \<noteq> current s" "p \<noteq> 0" "switched s p"
    using Suc.prems by (auto simp: sched_inv_def sched_inv_sleep_def sched_wf_def switched_def)
  with yield_now_step [OF Suc.prems(1)] R obtain a t where t: "yield_now s = Some (a, t)" "sched_inv t"
    "current t = p" "ready_queue t = R @ [current s]" "st t (current t) = Some Running" by auto
  have "k < length (ready_queue t)" "ready_queue t ! k = ready_queue s ! Suc k"
    using Suc.prems(4) R t(4) by (auto simp: nth_append)
  with Suc.IH [OF t(2) _ t(5)] t ne show ?case by auto
qed

section \<open>Timer preemption\<close>

definition user_frame :: "task \<Rightarrow> bool" where
  "user_frame t \<longleftrightarrow> tf_valid t \<and> tf_cs (t_tf t) AND 3 = 3"

text \<open>The state in which \<open>preempt_from_timer\<close> picks: the frame saved, the running task requeued.\<close>

definition requeued :: "trap_frame \<Rightarrow> sched \<Rightarrow> sched" where
  "requeued tf s = (case tasks s (current s) of None \<Rightarrow> s | Some ct \<Rightarrow>
     (if current s \<noteq> idle s \<and> t_state ct = Running
      then s\<lparr>tasks := (tasks s)(current s \<mapsto> ct\<lparr>t_tf := tf, tf_valid := True, t_state := Runnable\<rparr>),
             runq := runq s @ [current s]\<rparr>
      else s\<lparr>tasks := (tasks s)(current s \<mapsto> ct\<lparr>t_tf := tf, tf_valid := True\<rparr>)\<rparr>))"

definition preemptible :: "trap_frame \<Rightarrow> sched \<Rightarrow> bool" where
  "preemptible tf s \<longleftrightarrow> sched_inv s \<and> need_resched s \<and> tf_cs tf AND 3 = 3 \<and> current s \<noteq> 0"

lemma requeued_st:
  assumes "preemptible tf s"
  shows "st (requeued tf s) = (if current s \<noteq> idle s \<and> st s (current s) = Some Running
      then (st s)(current s := Some Runnable) else st s)"
    and "runq (requeued tf s) = (if current s \<noteq> idle s \<and> st s (current s) = Some Running
      then runq s @ [current s] else runq s)"
    and "idle (requeued tf s) = idle s" "current (requeued tf s) = current s"
    and "sched_wf (requeued tf s)"
    and "ready_queue (requeued tf s) = ready_queue s @ (if current s \<noteq> idle s \<and> st s (current s) = Some Running
      then [current s] else [])"
proof -
  obtain ct where ct: "tasks s (current s) = Some ct"
    using assms by (auto simp: preemptible_def sched_inv_def sched_inv_sleep_def sched_wf_def)
  have cq: "current s \<notin> set (runq s)" and wf: "sched_wf s"
    using assms by (auto simp: preemptible_def sched_inv_def sched_inv_sleep_def)
  show 1: "st (requeued tf s) = (if current s \<noteq> idle s \<and> st s (current s) = Some Running
      then (st s)(current s := Some Runnable) else st s)"
    using ct by (auto simp: requeued_def st_def fun_eq_iff)
  show 2: "runq (requeued tf s) = (if current s \<noteq> idle s \<and> st s (current s) = Some Running
      then runq s @ [current s] else runq s)" "idle (requeued tf s) = idle s" "current (requeued tf s) = current s"
    using ct by (auto simp: requeued_def st_def)
  show "sched_wf (requeued tf s)"
    using wf ct cq by (auto simp: requeued_def sched_wf_def)
  have "filter (ready (tasks (requeued tf s))) (runq s) = filter (ready (tasks s)) (runq s)"
    using cq by (intro filter_cong refl) (auto simp: ready_st 1)
  then show "ready_queue (requeued tf s) = ready_queue s @ (if current s \<noteq> idle s \<and> st s (current s) = Some Running
      then [current s] else [])"
    unfolding ready_queue_def 2(1) by (auto simp: ready_st 1)
qed

lemma preempt_eq:
  assumes pre: "preemptible tf s" and pn: "pick_next (requeued tf s) = Some (nxt, (requeued tf s)\<lparr>runq := q\<rparr>)"
    and nt: "tasks (requeued tf s) nxt = Some nt" and ct: "tasks (requeued tf s) (current s) = Some ct'"
  shows "preempt_from_timer tf s =
    (let s1 = (requeued tf s)\<lparr>runq := q\<rparr>; back = s1\<lparr>tasks := (tasks s1)(current s \<mapsto> ct'\<lparr>t_state := Running\<rparr>), need_resched := False\<rparr>
     in if nxt = current s \<or> \<not> user_frame nt then Some (None, back)
        else do { s2 \<leftarrow> upd_task nxt (\<lambda>t. t\<lparr>t_state := Running\<rparr>) s1;
             s2 \<leftarrow> prepare_next_task_machine_state nxt s2;
             Some (Some (t_tf nt), s2\<lparr>current := nxt, need_resched := False\<rparr>) })"
proof -
  have ini: "s_inited s" "need_resched s" "tf_cs tf AND 3 = 3" "current s \<noteq> 0" "idle s \<noteq> 0" "tasks s 0 = None"
    using pre by (auto simp: preemptible_def sched_inv_def sched_inv_sleep_def sched_wf_def)
  obtain t0 where t0: "tasks s (current s) = Some t0"
    using pre by (auto simp: preemptible_def sched_inv_def sched_inv_sleep_def sched_wf_def)
  have "nxt \<noteq> 0" using nt t0 ini by (auto simp: requeued_def split: if_splits)
  let ?run = "current s \<noteq> idle s \<and> t_state t0 = Running"
  show ?thesis
  proof (cases ?run)
    case True
    then have "requeued tf s = s\<lparr>tasks := (tasks s)(current s \<mapsto> t0\<lparr>t_tf := tf, tf_valid := True, t_state := Runnable\<rparr>),
             runq := runq s @ [current s]\<rparr>" using t0 by (simp add: requeued_def)
    then show ?thesis
      using True pn nt ct ini t0 \<open>nxt \<noteq> 0\<close>
      by (cases "nxt = current s"; cases "user_frame nt") (simp_all add: preempt_from_timer_def upd_task_def [of "current s"] idle_ptr_def Let_def user_frame_def)
  next
    case False
    then have "requeued tf s = s\<lparr>tasks := (tasks s)(current s \<mapsto> t0\<lparr>t_tf := tf, tf_valid := True\<rparr>)\<rparr>"
      using t0 by (auto simp: requeued_def)
    moreover from this have "\<not> (current s \<noteq> idle s \<and> t_state ct' = Running)" using ct False by auto
    ultimately show ?thesis
      using False pn nt ct ini t0 \<open>nxt \<noteq> 0\<close>
      by (cases "current s = idle s"; cases "nxt = current s"; cases "user_frame nt") (simp_all add: preempt_from_timer_def upd_task_def [of "current s"] upd_task_def [of "idle s"] idle_ptr_def Let_def user_frame_def)
  qed
qed

lemma dispatch_inv:
  assumes wf: "sched_wf u" and nr: "\<forall>p \<in> set (runq u). st u p \<noteq> Some Running"
    and idl: "idle u \<in> set (runq u) \<longrightarrow> st u (idle u) = Some Runnable"
    and lost: "\<forall>p. st u p \<in> {Some Runnable, Some Sleeping} \<longrightarrow> p \<in> set (runq u) \<or> p = idle u"
    and run: "\<forall>p. st u p = Some Running \<longrightarrow> p = idle u"
    and pick: "tasks u nxt \<noteq> None" "distinct q"
      "if ready_queue u = [] then nxt = idle u \<and> q = runq u
       else nxt = hd (ready_queue u) \<and> nxt \<in> set (runq u) \<and> set q = set (runq u) - {nxt}"
    and s': "st s' = (st u)(nxt := Some Running)" "runq s' = q" "current s' = nxt" "idle s' = idle u" "s_inited s'"
  shows "sched_inv s'"
proof -
  have nq: "nxt \<notin> set q"
  proof (cases "ready_queue u = []")
    case True
    then have "st u (idle u) \<noteq> Some Runnable \<or> idle u \<notin> set (runq u)"
      by (auto simp: ready_queue_def filter_empty_conv ready_st)
    then show ?thesis using True pick(3) idl by auto
  qed (use pick(3) in auto)
  have sub: "set q \<subseteq> set (runq u)" and q: "\<And>p. p \<in> set (runq u) \<Longrightarrow> p \<noteq> nxt \<Longrightarrow> p \<in> set q"
    using pick(3) by (auto split: if_splits)
  have none: "tasks s' p = None \<longleftrightarrow> tasks u p = None" for p
    using s'(1) pick(1) by (auto simp flip: st_None)
  have "sched_wf s'"
    using wf pick(1,2) sub s'(5) unfolding sched_wf_def s'(2-4) none by auto
  then show ?thesis
    unfolding sched_inv_def sched_inv_sleep_def s'(1-4)
    using nr idl lost run nq sub q by auto
qed

text \<open>
  With a user frame on the head of the ready queue, preemption keeps the invariant and runs that task next. With an
  empty queue the current task goes on, unless it is no longer running and the idle task has a user frame.
\<close>

definition preempt_target :: "sched \<Rightarrow> ptr" where
  "preempt_target s = (case ready_queue s of p # _ \<Rightarrow> p
     | [] \<Rightarrow> if st s (current s) = Some Running \<or> \<not> (\<exists>t. tasks s (idle s) = Some t \<and> user_frame t) then current s else idle s)"

lemma resumed_inv:
  assumes "sched_inv s" "current s \<noteq> 0" "st s' = (st s)(current s := Some Running)" "runq s' = runq s" "current s' = current s"
    "idle s' = idle s" "s_inited s'"
  shows "sched_inv s'"
proof -
  have cur: "tasks s (current s) \<noteq> None" using assms(1,2) by (auto simp: sched_inv_def sched_inv_sleep_def sched_wf_def)
  have none: "tasks s' p = None \<longleftrightarrow> tasks s p = None" for p using assms(3) cur by (auto simp flip: st_None)
  have "sched_wf s'" using assms(1,7) unfolding sched_inv_def sched_inv_sleep_def sched_wf_def assms(4-6) none by simp
  then show ?thesis using assms(1) unfolding sched_inv_def sched_inv_sleep_def assms(3-6) by auto
qed

lemma preempt_dispatches:
  fixes s tf
  defines "u \<equiv> requeued tf s"
  assumes pre: "preemptible tf s" and pn: "pick_next u = Some (nxt, u\<lparr>runq := q\<rparr>)" and pick: "tasks u nxt \<noteq> None" "distinct q"
      "if ready_queue u = [] then nxt = idle u \<and> q = runq u
       else nxt = hd (ready_queue u) \<and> nxt \<in> set (runq u) \<and> set q = set (runq u) - {nxt}"
    and nt: "tasks u nxt = Some nt" and ct: "tasks u (current s) = Some ct" and frame: "nxt = current s \<or> user_frame nt"
  shows "\<exists>r s'. preempt_from_timer tf s = Some (r, s') \<and> sched_inv s' \<and> current s' = nxt"
proof -
  note u = requeued_st [OF pre, folded u_def]
  have inv: "sched_inv s" and ini: "s_inited u"
    using pre u(5) by (auto simp: preemptible_def sched_wf_def)
  obtain x y where "do { s2 \<leftarrow> upd_task nxt (\<lambda>t. t\<lparr>t_state := Running\<rparr>) (u\<lparr>runq := q\<rparr>);
       s2 \<leftarrow> prepare_next_task_machine_state nxt s2;
       Some (Some (t_tf nt), s2\<lparr>current := nxt, need_resched := False\<rparr>) }
     = Some (Some (t_tf nt), u\<lparr>runq := q\<rparr>\<lparr>tasks := (tasks (u\<lparr>runq := q\<rparr>))(nxt \<mapsto> nt\<lparr>t_state := Running\<rparr>),
         cr3 := x, rsp0 := y, current := nxt, need_resched := False\<rparr>)"
    by (rule run_next [of "u\<lparr>runq := q\<rparr>" nxt nt]) (use nt in simp)
  with frame obtain r s' where run: "preempt_from_timer tf s = Some (r, s')"
    and s': "st s' = (st u)(nxt := Some Running)" "runq s' = q" "current s' = nxt" "idle s' = idle u" "s_inited s'"
    using preempt_eq [OF pre, folded u_def, OF pn nt ct] nt ct u(4) ini
    by (cases "nxt = current s") (auto simp: Let_def st_def fun_eq_iff)
  have "sched_inv s'"
  proof (rule dispatch_inv [OF u(5) _ _ _ _ pick s'])
    show "\<forall>p \<in> set (runq u). st u p \<noteq> Some Running"
      using inv unfolding u(1,2) by (auto simp: sched_inv_def sched_inv_sleep_def)
    show "idle u \<in> set (runq u) \<longrightarrow> st u (idle u) = Some Runnable"
      using inv unfolding u(1,2,3) by (auto simp: sched_inv_def sched_inv_sleep_def)
    show "\<forall>p. st u p \<in> {Some Runnable, Some Sleeping} \<longrightarrow> p \<in> set (runq u) \<or> p = idle u"
      using inv unfolding u(1,2,3) by (auto simp: sched_inv_def sched_inv_sleep_def)
    show "\<forall>p. st u p = Some Running \<longrightarrow> p = idle u"
      using inv unfolding u(1,2,3) by (auto simp: sched_inv_def sched_inv_sleep_def)
  qed
  with run s'(3) show ?thesis by blast
qed

lemma preempt_user_frames:
  assumes pre: "preemptible tf s"
    and uf: "\<And>p R t. ready_queue s = p # R \<Longrightarrow> tasks s p = Some t \<Longrightarrow> user_frame t"
  shows "\<exists>r s'. preempt_from_timer tf s = Some (r, s') \<and> sched_inv s' \<and> current s' = preempt_target s"
proof -
  define u where "u = requeued tf s"
  let ?run = "current s \<noteq> idle s \<and> st s (current s) = Some Running"
  note u = requeued_st [OF pre, folded u_def]
  have inv: "sched_inv s" and c0: "current s \<noteq> 0" and ini: "s_inited u"
    using pre u(5) by (auto simp: preemptible_def sched_wf_def)
  obtain nxt q where pn: "pick_next u = Some (nxt, u\<lparr>runq := q\<rparr>)" and pick: "tasks u nxt \<noteq> None" "distinct q"
      "if ready_queue u = [] then nxt = idle u \<and> q = runq u
       else nxt = hd (ready_queue u) \<and> nxt \<in> set (runq u) \<and> set q = set (runq u) - {nxt}"
    using pick_next_spec [OF u(5)] by blast
  obtain nt where nt: "tasks u nxt = Some nt" using pick(1) by blast
  have "tasks u (current s) \<noteq> None"
    using u(5) c0 by (auto simp: sched_wf_def u(4))
  then obtain ct where ct: "tasks u (current s) = Some ct" by blast
  have nxt: "nxt = (case ready_queue s of p # _ \<Rightarrow> p | [] \<Rightarrow> if ?run then current s else idle s)"
    using pick(3) unfolding u(6) u(3) by (cases "ready_queue s") auto
  have ns: "tasks s nxt = Some nt" if "nxt \<noteq> current s"
    using nt that unfolding u_def requeued_def by (auto split: option.splits if_splits)
  show ?thesis
  proof (cases "nxt = current s \<or> user_frame nt")
    case False
    then have e: "ready_queue s = []" "nxt = idle s" "\<not> ?run" "st s (current s) \<noteq> Some Running"
      using nxt uf ns by (cases "ready_queue s"; auto split: if_splits)+
    then have "q = runq s" using pick(3) u(2,3,6) by auto
    then obtain s' where s': "preempt_from_timer tf s = Some (None, s')" "st s' = (st s)(current s := Some Running)" "runq s' = runq s"
      "current s' = current s" "idle s' = idle s" "s_inited s'"
      using preempt_eq [OF pre, folded u_def, OF pn nt ct] False e(3) u ini by (auto simp: Let_def st_def fun_eq_iff)
    moreover have "sched_inv s'" by (rule resumed_inv [OF inv c0 s'(2-6)])
    moreover have "preempt_target s = current s" using False e ns by (auto simp: preempt_target_def)
    ultimately show ?thesis by auto
  next
    case True
    have "preempt_target s = nxt"
      using nxt True ns by (cases "ready_queue s"; cases "nxt = current s") (auto simp: preempt_target_def split: if_splits)
    then show ?thesis using preempt_dispatches [OF pre, folded u_def, OF pn pick nt ct True] by simp
  qed
qed

text \<open>
  The other case: the picked task has no user frame (every kernel thread that never entered user mode).
  The task was taken out of the queue and is not put back.
\<close>

lemma preempt_drops:
  assumes pre: "preemptible tf s" and cur: "current s \<noteq> idle s" "st s (current s) = Some Running"
    and R: "ready_queue s = k # R" and kt: "tasks s k = Some t" "\<not> user_frame t"
  shows "\<exists>s'. preempt_from_timer tf s = Some (None, s') \<and> current s' = current s
    \<and> st s' k = Some Runnable \<and> k \<notin> set (runq s') \<and> k \<noteq> idle s \<or> k = idle s"
proof (cases "k = idle s")
  case False
  define u where "u = requeued tf s"
  note u = requeued_st [OF pre, folded u_def]
  have inv: "sched_inv s" and c0: "current s \<noteq> 0" using pre by (auto simp: preemptible_def)
  have rq: "ready_queue u = k # R @ [current s]" using R cur by (simp add: u(6))
  obtain nxt q where pn: "pick_next u = Some (nxt, u\<lparr>runq := q\<rparr>)"
    and pick: "if ready_queue u = [] then nxt = idle u \<and> q = runq u
       else nxt = hd (ready_queue u) \<and> nxt \<in> set (runq u) \<and> set q = set (runq u) - {nxt}"
    using pick_next_spec [OF u(5)] by blast
  then have k: "nxt = k" "k \<notin> set q" using rq by auto
  have "k \<in> set (ready_queue s)" using R by simp
  then have kq: "k \<in> set (runq s)" "st s k = Some Runnable" by (auto simp: ready_queue_def ready_st)
  then have ne: "k \<noteq> current s" using inv by (auto simp: sched_inv_def)
  then have nt: "tasks u k = Some t" using kt(1) unfolding u_def requeued_def by (auto split: option.splits)
  have "tasks u (current s) \<noteq> None" using u(5) c0 by (auto simp: sched_wf_def u(4))
  then obtain ct where ct: "tasks u (current s) = Some ct" by blast
  have "st u k = Some Runnable" using kq(2) ne by (simp add: u(1))
  then show ?thesis
    using preempt_eq [OF pre, folded u_def, OF pn [unfolded k] nt ct] kt(2) ne k(2) u(4) False
    by (auto simp: Let_def st_def)
qed simp

section \<open>Properties\<close>

text \<open>A boot state for the witnesses: an idle kernel thread, a user task and a second kernel thread.\<close>

definition a_task :: "task_kind \<Rightarrow> bool \<Rightarrow> u64 \<Rightarrow> task" where
  "a_task k v cs = \<lparr>tid = 1, t_state = Runnable, t_kind = k, t_kstack_top = 0x9000, t_ctx = context_default,
     wake_jiffies = 0, timeslice = DEFAULT_SLICE, tf_valid = v, t_tf = trap_frame_default\<lparr>tf_cs := cs\<rparr>, t_name = []\<rparr>"

definition booted :: "ptr \<Rightarrow> sched" where
  "booted cur = \<lparr>tasks = [0x10 \<mapsto> a_task (KThread 0 0) False 0,
       0x20 \<mapsto> (a_task (UThread 1) True 0x33)\<lparr>t_state := (if cur = 0x20 then Running else Runnable)\<rparr>,
       0x30 \<mapsto> a_task (KThread 1 0) False 0],
     runq = (if cur = 0x20 then [0x30] else [0x20, 0x30]), current = cur, idle = 0x10, need_resched = True,
     s_inited = True, in_sys = False, next_tid = 4, jiffies = 0, procs = [], next_pid = 2,
     cr3 = \<lparr>as_root = 0, as_flags = 0\<rparr>, rsp0 = 0, iflag = True, kstk = (\<lambda>_. 0)\<rparr>"

lemma booted_inv: "cur \<in> {0, 0x20} \<Longrightarrow> sched_inv (booted cur)"
  by (auto simp: sched_inv_def sched_inv_sleep_def sched_wf_def st_def booted_def a_task_def)

lemma booted_ready: "ready_queue (booted 0) = [0x20, 0x30]" "ready_queue (booted 0x20) = [0x30]"
  by (auto simp: ready_queue_def ready_def booted_def a_task_def)

text \<open>
  C8: no task is lost and none runs twice. After any sequence of spawns, ticks, yields, sleeps and
  exits, every runnable or sleeping task other than the idle task is in the run queue exactly once, no
  queued task is marked running, and only the current task (or the idle task) is.
\<close>

theorem sched_no_task_lost:
  assumes "sched_step\<^sup>*\<^sup>* s0 s" and "sched_inv s0"
  shows "distinct (runq s) \<and> current s \<notin> set (runq s)
    \<and> (\<forall>p t. tasks s p = Some t \<and> t_state t \<in> {Runnable, Sleeping} \<and> p \<noteq> idle s \<longrightarrow> p \<in> set (runq s))
    \<and> (\<forall>p t. tasks s p = Some t \<and> t_state t = Running \<longrightarrow> p \<in> {current s, idle s} - set (runq s))"
proof -
  have "sched_inv s" using assms by (induction rule: rtranclp_induct) (auto intro: sched_step_inv)
  then have inv: "sched_wf s" "current s \<notin> set (runq s)" "\<forall>p \<in> set (runq s). st s p \<noteq> Some Running"
    "\<forall>p. st s p \<in> {Some Runnable, Some Sleeping} \<longrightarrow> p \<in> set (runq s) \<or> p = idle s"
    "\<forall>p. st s p = Some Running \<longrightarrow> p = current s \<or> p = idle s"
    by (simp_all add: sched_inv_def sched_inv_sleep_def)
  have "p \<in> set (runq s)" if "tasks s p = Some t" "t_state t \<in> {Runnable, Sleeping}" "p \<noteq> idle s" for p t
  proof -
    have "st s p \<in> {Some Runnable, Some Sleeping}" using that by (auto simp: st_def)
    with inv(4) that(3) show ?thesis by blast
  qed
  moreover have "p \<in> {current s, idle s} - set (runq s)" if "tasks s p = Some t" "t_state t = Running" for p t
  proof -
    have "st s p = Some Running" using that by (simp add: st_def)
    with inv(3,5) show ?thesis by blast
  qed
  moreover have "distinct (runq s)" using inv(1) by (simp add: sched_wf_def)
  ultimately show ?thesis using inv(2) by blast
qed

theorem sched_no_task_lost_witness:
  "\<exists>s. sched_step\<^sup>*\<^sup>* (booted 0x20) s \<and> distinct (runq s) \<and> current s \<notin> set (runq s) \<and> jiffies s = 1"
proof -
  obtain s where s: "on_tick (booted 0x20) = Some s" "jiffies s = 1"
    using on_tick_spec [OF booted_inv, of "0x20"] by (auto simp: booted_def)
  then have r: "sched_step\<^sup>*\<^sup>* (booted 0x20) s" by (intro r_into_rtranclp step_tick)
  from sched_no_task_lost [OF this booted_inv] r s(2) show ?thesis by auto
qed

text \<open>
  C9: refinement. Seen through the queue of runnable tasks, \<open>schedule\<close> is a first-in first-out
  round robin: it never panics, the head runs next (the idle task when there is none), and a current
  task that was still running goes to the back.
\<close>

theorem schedule_refines_round_robin:
  assumes "sched_inv s"
  shows "\<exists>a s'. schedule s = Some (a, s') \<and> sched_inv s'
    \<and> (current s', ready_queue s') =
        (case ready_queue s of
           p # R \<Rightarrow> (p, R @ (if current s \<noteq> 0 \<and> st s (current s) = Some Running then [current s] else []))
         | [] \<Rightarrow> (idle s, if current s \<notin> {0, idle s} \<and> st s (current s) = Some Running then [current s] else []))"
proof -
  have "sched_inv_sleep s" using assms by (simp add: sched_inv_def)
  from schedule_round_robin [OF this] obtain a s' where s': "schedule s = Some (a, s')" "sched_inv s'"
    "current s' = (case ready_queue s of [] \<Rightarrow> idle s | p # _ \<Rightarrow> p)"
    "ready_queue s' = tl (ready_queue s) @ (if switched s (current s') then [current s] else [])"
    by blast
  show ?thesis
  proof (cases "ready_queue s")
    case Nil
    with s' show ?thesis by (auto simp: switched_def)
  next
    case (Cons p R)
    then have "p \<in> set (runq s)" by (metis filter_is_subset list.set_intros(1) ready_queue_def subsetD)
    then have "p \<noteq> current s" using assms by (auto simp: sched_inv_def)
    with Cons s' show ?thesis by (auto simp: switched_def)
  qed
qed

theorem schedule_refines_round_robin_witness:
  "\<exists>a s'. schedule (booted 0x20) = Some (a, s') \<and> current s' = 0x30 \<and> ready_queue s' = [0x20]"
  using schedule_refines_round_robin [OF booted_inv, of "0x20"] booted_ready(2)
  by (auto simp: booted_def a_task_def st_def)

text \<open>
  C35: no starvation. The task at position \<open>k\<close> of the ready queue runs after exactly \<open>k + 1\<close> yields.
\<close>

theorem ready_task_runs:
  assumes "sched_inv s" and "current s \<noteq> 0" and "st s (current s) = Some Running" and "k < length (ready_queue s)"
  shows "\<exists>s'. yields (k + 1) s = Some s' \<and> current s' = ready_queue s ! k \<and> st s' (current s') = Some Running"
  using yields_reach [OF assms] by (metis Suc_eq_plus1)

theorem ready_task_runs_witness:
  "\<exists>s'. yields (0 + 1) (booted 0x20) = Some s' \<and> current s' = 0x30 \<and> st s' (current s') = Some Running"
proof -
  have "current (booted 0x20) \<noteq> 0" "st (booted 0x20) (current (booted 0x20)) = Some Running"
    by (simp_all add: booted_def st_def)
  from ready_task_runs [OF booted_inv this, of 0] booted_ready(2) show ?thesis by (simp add: booted_def)
qed

text \<open>
  A tick wakes a sleeper exactly when its wake-up time is reached, keeps every other queued task
  as it is, and keeps the scheduler's invariant.
\<close>

lemma tick_wakes_exactly_due:
  assumes "sched_inv s" and "p \<in> set (runq s)" and "tasks s p = Some t"
  shows "\<exists>s' t'. on_tick s = Some s' \<and> sched_inv s' \<and> jiffies s' = jiffies s + 1 \<and> tasks s' p = Some t'
    \<and> (if t_state t = Sleeping \<and> wake_jiffies t \<le> jiffies s + 1
       then t_state t' = Runnable \<and> timeslice t' = DEFAULT_SLICE else t' = t)"
proof -
  from on_tick_spec [OF assms(1)] obtain s' where s': "on_tick s = Some s'" "jiffies s' = jiffies s + 1"
    "\<forall>p \<in> set (runq s). tasks s' p = map_option (woken (jiffies s + 1)) (tasks s p)" by blast
  moreover from this assms(2,3) have "tasks s' p = Some (woken (jiffies s + 1) t)" by simp
  ultimately show ?thesis using on_tick_inv [OF assms(1)] by (auto simp: woken_def due_def)
qed

lemma tick_wakes_exactly_due_example:
  "\<exists>s' t'. on_tick (booted 0x20) = Some s' \<and> tasks s' 0x30 = Some t' \<and> t' = a_task (KThread 1 0) False 0"
proof -
  have "0x30 \<in> set (runq (booted 0x20))" "tasks (booted 0x20) 0x30 = Some (a_task (KThread 1 0) False 0)"
    by (simp_all add: booted_def)
  from tick_wakes_exactly_due [OF booted_inv this] show ?thesis by (auto simp: a_task_def)
qed

text \<open>
  C36: timer preemption of user code never panics, keeps the invariant and runs the head of the ready queue next,
  provided that this one task has a saved user-mode frame; with no ready task it returns to the current task (or goes
  to the idle task when the current one is no longer running and the idle task has a user frame, which a kernel thread
  does not). Nothing is required of the other tasks, the idle task among them.
\<close>

theorem preempt_keeps_invariant:
  assumes "preemptible tf s"
    and "\<forall>p R t. ready_queue s = p # R \<and> tasks s p = Some t \<longrightarrow> user_frame t"
  shows "\<exists>r s'. preempt_from_timer tf s = Some (r, s') \<and> sched_inv s'
    \<and> current s' = (case ready_queue s of p # _ \<Rightarrow> p
        | [] \<Rightarrow> if st s (current s) = Some Running \<or> \<not> (\<exists>t. tasks s (idle s) = Some t \<and> user_frame t) then current s else idle s)"
  using preempt_user_frames [OF assms(1)] assms(2) unfolding preempt_target_def by blast

text \<open>The idle task is the kernel thread of the boot state; the second task has entered user mode.\<close>

theorem preempt_keeps_invariant_witness:
  "\<exists>r s'. preempt_from_timer (trap_frame_default\<lparr>tf_cs := 0x33\<rparr>)
      ((booted 0x20)\<lparr>tasks := (tasks (booted 0x20))(0x30 \<mapsto> a_task (UThread 3) True 0x33)\<rparr>)
      = Some (r, s') \<and> sched_inv s' \<and> current s' = 0x30"
proof -
  let ?s = "(booted 0x20)\<lparr>tasks := (tasks (booted 0x20))(0x30 \<mapsto> a_task (UThread 3) True 0x33)\<rparr>"
  have p: "preemptible (trap_frame_default\<lparr>tf_cs := 0x33\<rparr>) ?s"
    by (auto simp: preemptible_def sched_inv_def sched_inv_sleep_def sched_wf_def st_def booted_def a_task_def)
  have r: "ready_queue ?s = [0x30]" by (simp add: ready_queue_def ready_def booted_def a_task_def)
  have "\<forall>p R t. ready_queue ?s = p # R \<and> tasks ?s p = Some t \<longrightarrow> user_frame t"
    unfolding r by (auto simp: booted_def user_frame_def a_task_def)
  from preempt_keeps_invariant [OF p this] r show ?thesis by auto
qed

text \<open>
  When the head of the ready queue is a task without a saved user-mode frame, such as a kernel
  thread that \<open>spawn_kthread\<close> created, the timer's preemption takes it out of the run queue, returns to
  the interrupted task and never puts it back: the task is runnable and in no queue.
\<close>

lemma preempt_loses_kernel_thread:
  assumes "preemptible tf s" and "current s \<noteq> idle s" and "st s (current s) = Some Running"
    and "ready_queue s = k # R" and "k \<noteq> idle s" and "tasks s k = Some t" and "\<not> tf_valid t"
  shows "\<exists>s'. preempt_from_timer tf s = Some (None, s') \<and> current s' = current s
    \<and> st s' k = Some Runnable \<and> k \<notin> set (runq s')"
  using preempt_drops [OF assms(1-4,6)] assms(5,7) by (auto simp: user_frame_def)

lemma preempt_loses_kernel_thread_example:
  "\<exists>s'. preempt_from_timer (trap_frame_default\<lparr>tf_cs := 0x33\<rparr>) (booted 0x20) = Some (None, s')
     \<and> current s' = 0x20 \<and> st s' 0x30 = Some Runnable \<and> 0x30 \<notin> set (runq s')"
proof -
  have p: "preemptible (trap_frame_default\<lparr>tf_cs := 0x33\<rparr>) (booted 0x20)"
    using booted_inv [of "0x20"] by (simp add: preemptible_def booted_def)
  from preempt_loses_kernel_thread [OF p _ _ booted_ready(2), of "a_task (KThread 1 0) False 0"] show ?thesis
    by (simp add: booted_def st_def a_task_def)
qed

text \<open>
  A thread that \<open>spawn_uthread\<close> created has a saved user frame and an all-zero kernel context,
  and \<open>schedule\<close> looks only at the context: when a caller yields right after spawning (as a process
  that spawns a child and waits for it does) and nothing else is ready, the processor is switched to
  the new thread with instruction pointer and stack pointer 0.
\<close>

lemma yield_enters_null_context:
  assumes "sched_inv s" and "current s \<noteq> 0" and "ready_queue s = []" and "raw \<noteq> 0" and "tasks s raw = None"
  shows "\<exists>s' t. yield_now (snd (spawn_uthread name pid ktop tf raw s)) = Some (SwitchTo (current s) raw, s')
    \<and> tasks s' raw = Some t \<and> cx_rip (t_ctx t) = 0 \<and> cx_rsp (t_ctx t) = 0"
proof -
  define u where "u = request_resched (snd (spawn_uthread name pid ktop tf raw s))"
  have "sched_inv u" unfolding u_def request_resched_def sched_inv_flags
    using spawn_uthread_inv [OF assms(1,4,5)] .
  then have wf: "sched_wf u" by (simp add: sched_inv_def sched_inv_sleep_def)
  have cur: "current u = current s" and ctx: "map_option t_ctx (tasks u raw) = Some context_default"
    by (simp_all add: u_def request_resched_def spawn_uthread_def Let_def)
  have "raw \<notin> set (runq s)" "raw \<noteq> current s"
    using assms(1,2,5) by (auto simp: sched_inv_def sched_inv_sleep_def sched_wf_def)
  then have ne: "raw \<noteq> current s" and rq: "ready_queue u = [raw]"
    using assms(3) by (auto simp: u_def request_resched_def spawn_uthread_def Let_def ready_queue_def ready_def
        filter_empty_conv)
  obtain q where pn: "pick_next u = Some (raw, u\<lparr>runq := q\<rparr>)" and tn: "tasks u raw \<noteq> None"
    using pick_next_spec [OF wf] rq by auto
  obtain a s' where r: "schedule u = Some (a, s')"
    "a = (if current u = 0 then SwitchFromBoot raw else if raw = current u then NoSwitch else SwitchTo (current u) raw)"
    "\<forall>p. map_option t_ctx (tasks s' p) = map_option t_ctx (tasks u p)"
    by (rule schedule_effect [OF wf pn tn])
  have "map_option t_ctx (tasks s' raw) = Some context_default" using r(3) ctx by simp
  then show ?thesis using r(1,2) cur assms(2) ne by (auto simp: yield_now_def u_def context_default_def)
qed

lemma yield_enters_null_context_example:
  "\<exists>s' t. yield_now (snd (spawn_uthread [] 7 0xA000 trap_frame_default 0x40 ((booted 0x20)\<lparr>runq := [], tasks := (tasks (booted 0x20))(0x30 := None)\<rparr>)))
     = Some (SwitchTo 0x20 0x40, s') \<and> tasks s' 0x40 = Some t \<and> cx_rip (t_ctx t) = 0"
proof -
  let ?s = "(booted 0x20)\<lparr>runq := [], tasks := (tasks (booted 0x20))(0x30 := None)\<rparr>"
  have "sched_inv ?s" "current ?s \<noteq> 0" "ready_queue ?s = []" "tasks ?s 0x40 = None" "current ?s = 0x20"
    by (auto simp: sched_inv_def sched_inv_sleep_def sched_wf_def st_def booted_def a_task_def ready_queue_def)
  with yield_enters_null_context [of ?s "0x40" "[]" 7 "0xA000" trap_frame_default] show ?thesis by auto
qed

end
