(* ===== verification/Proc.thy ===== *)
theory Proc
  imports Sched User_Mem
begin

text \<open>
  \<^verbatim>\<open>kernel/syscall/proc.rs\<close>: the process system calls, over the scheduler's state and the caller's user
  memory. The outer option of a result is the panic. \<open>sys_proc_spawn\<close> calls the ELF
  loader and is in the theory of programs.
\<close>

record psys =
  sch :: sched
  pum :: umem

fun proc_state_to_u32 :: "proc_state \<Rightarrow> u32" where
  "proc_state_to_u32 PNew = 0"
| "proc_state_to_u32 PRunning = 1"
| "proc_state_to_u32 PZombie = 2"

text \<open>The 32-byte name buffer (zeroed by \<open>Default\<close>) after the copy, and the length it returns.\<close>

definition fill_name_buf :: "u8 list \<Rightarrow> u8 list \<times> u32" where
  "fill_name_buf name = (let n = min (length name) 32 in (take n name @ replicate (32 - n) 0, of_nat n))"

text \<open>One turn of \<open>sys_exit\<close>: mark task and process, then yield; the call never returns.\<close>

definition mark_zombie :: "u64 \<Rightarrow> sched \<Rightarrow> sched" where
  "mark_zombie pid s = s\<lparr>procs := update_first (\<lambda>p. pr_pid p = pid) (\<lambda>p. p\<lparr>pr_state := PZombie\<rparr>) (procs s)\<rparr>"

definition sys_exit :: "psys \<Rightarrow> (switch \<times> psys) option" where
  "sys_exit s = do {
     t \<leftarrow> (if current (sch s) = 0 then Some (sch s)
          else upd_task (current (sch s)) (\<lambda>t. t\<lparr>t_state := Zombie\<rparr>) (sch s));
     cp \<leftarrow> current_pid t;
     let t = (case cp of Some pid \<Rightarrow> mark_zombie pid t | None \<Rightarrow> t);
     (a, t) \<leftarrow> yield_now t;
     Some (a, s\<lparr>sch := t\<rparr>)
   }"

definition sys_yield :: "psys \<Rightarrow> i64 \<times> psys" where
  "sys_yield s = (0, s\<lparr>sch := request_resched (sch s)\<rparr>)"

definition sys_sleep_ms :: "u64 \<Rightarrow> psys \<Rightarrow> (i64 \<times> psys) option" where
  "sys_sleep_ms ms s = do { (a, t) \<leftarrow> sleep_ms ms (sch s); Some (0, s\<lparr>sch := t\<rparr>) }"

definition sys_getpid :: "psys \<Rightarrow> i64 option" where
  "sys_getpid s =
     (if current (sch s) = 0 then Some (- ENOSYS)
      else case tasks (sch s) (current (sch s)) of
        None \<Rightarrow> None
      | Some t \<Rightarrow> Some (case t_kind t of UThread pid \<Rightarrow> sint pid | KThread _ _ \<Rightarrow> 0))"

text \<open>
  The waiting loop: each turn looks at the process table as it then is, so the argument is the
  sequence of states the caller sees when its turns come, each after a \<open>yield_now\<close> in the previous one.
  \<open>None\<close> inside is "still waiting" when the sequence is over.
\<close>

fun wait_loop :: "u64 \<Rightarrow> psys list \<Rightarrow> (i64 + psys) option" where
  "wait_loop pid [] = None"
| "wait_loop pid (s # turns) =
     (case find (\<lambda>p. pr_pid p = pid) (procs (sch s)) of
        None \<Rightarrow> Some (Inl (- ESRCH))
      | Some p \<Rightarrow> if pr_state p = PZombie then Some (Inr s) else wait_loop pid turns)"

definition sys_proc_wait :: "u64 \<Rightarrow> u64 \<Rightarrow> psys list \<Rightarrow> (i64 \<times> psys option) option" where
  "sys_proc_wait pid status_out_ptr turns =
     (if pid = 0 then Some (- EINVAL, None)
      else case wait_loop pid turns of
        None \<Rightarrow> None
      | Some (Inl e) \<Rightarrow> Some (e, None)
      | Some (Inr s) \<Rightarrow>
          if status_out_ptr \<noteq> 0 then
            (case copy_to_user (pum s) status_out_ptr (le64 0) of
               None \<Rightarrow> Some (- EFAULT, Some s)
             | Some m \<Rightarrow> Some (sint pid, Some (s\<lparr>pum := m\<rparr>)))
          else Some (sint pid, Some s))"

definition sys_proc_kill :: "u64 \<Rightarrow> psys \<Rightarrow> (i64 \<times> psys) option" where
  "sys_proc_kill pid s =
     (if pid = 0 then Some (- EINVAL, s)
      else case find (\<lambda>p. pr_pid p = pid) (procs (sch s)) of
        None \<Rightarrow> Some (- ESRCH, s)
      | Some p \<Rightarrow> do {
          let t = mark_zombie pid (sch s);
          t \<leftarrow> (if pr_main_task p = 0 then Some t
               else upd_task (pr_main_task p) (\<lambda>k. k\<lparr>t_state := Zombie\<rparr>) t);
          Some (0, s\<lparr>sch := t\<rparr>)
        })"

section \<open>Listing\<close>

definition proc_list_entry :: "process \<Rightarrow> u8 list" where
  "proc_list_entry p = (let (nm, n) = fill_name_buf (pr_name p) in
     le32 (ucast (pr_pid p)) @ le32 (proc_state_to_u32 (pr_state p)) @ le32 n @ le32 0 @ nm)"

abbreviation ENTRY_SIZE :: nat where "ENTRY_SIZE \<equiv> 48"

fun list_loop :: "u64 \<Rightarrow> process list \<Rightarrow> nat list \<Rightarrow> umem \<Rightarrow> (bool \<times> umem) option" where
  "list_loop out_ptr ps [] m = Some (True, m)"
| "list_loop out_ptr ps (i # is) m = do {
     dst \<leftarrow> checked_add out_ptr (of_nat (i * ENTRY_SIZE));
     case copy_to_user m dst (proc_list_entry (ps ! i)) of
       None \<Rightarrow> Some (False, m)
     | Some m \<Rightarrow> list_loop out_ptr ps is m
   }"

definition sys_proc_list :: "u64 \<Rightarrow> u64 \<Rightarrow> u64 \<Rightarrow> psys \<Rightarrow> (i64 \<times> psys) option" where
  "sys_proc_list out_ptr out_cap_entries total_out_ptr s = (let ps = procs (sch s) in
     case (if total_out_ptr = 0 then Some (pum s)
           else copy_to_user (pum s) total_out_ptr (le64 (of_nat (length ps)))) of
       None \<Rightarrow> Some (- EFAULT, s)
     | Some m \<Rightarrow>
         (let s = s\<lparr>pum := m\<rparr> in
          if out_cap_entries = 0 then Some (0, s)
          else if out_ptr = 0 then Some (- EFAULT, s)
          else let n = min (unat out_cap_entries) (length ps) in do {
            (ok, m) \<leftarrow> list_loop out_ptr ps [0..<n] m;
            Some (if ok then int n else - EFAULT, s\<lparr>pum := m\<rparr>)
          }))"

definition sys_proc_info :: "u64 \<Rightarrow> u64 \<Rightarrow> psys \<Rightarrow> (i64 \<times> psys) option" where
  "sys_proc_info pid out_ptr s =
     (if pid = 0 then Some (- EINVAL, s)
      else if out_ptr = 0 then Some (- EFAULT, s)
      else case find (\<lambda>p. pr_pid p = pid) (procs (sch s)) of
        None \<Rightarrow> Some (- ESRCH, s)
      | Some p \<Rightarrow> do {
          main_tid \<leftarrow> (if pr_main_task p = 0 then Some 0
                       else case tasks (sch s) (pr_main_task p) of None \<Rightarrow> None | Some t \<Rightarrow> Some (tid t));
          let (nm, n) = fill_name_buf (pr_name p) in
          Some (case copy_to_user (pum s) out_ptr
                  (le32 (ucast (pr_pid p)) @ le32 (proc_state_to_u32 (pr_state p)) @ le64 main_tid
                     @ le32 n @ le32 0 @ nm) of
                  None \<Rightarrow> (- EFAULT, s)
                | Some m \<Rightarrow> (0, s\<lparr>pum := m\<rparr>))
        })"

text \<open>\<open>path_basename\<close>: the last non-empty component of the path, or \<open>userproc\<close>.\<close>

fun split_slash :: "u8 list \<Rightarrow> u8 list \<Rightarrow> u8 list list" where
  "split_slash acc [] = [acc]"
| "split_slash acc (b # bs) = (if b = SLASH then acc # split_slash [] bs else split_slash (acc @ [b]) bs)"

definition userproc :: "u8 list" where
  "userproc = [0x75, 0x73, 0x65, 0x72, 0x70, 0x72, 0x6F, 0x63]"

definition path_basename :: "u8 list \<Rightarrow> u8 list" where
  "path_basename path =
     (let lst = fold (\<lambda>part lst. if part \<noteq> [] then part else lst) (split_slash [] path) []
      in if lst = [] then userproc else lst)"

section \<open>Facts\<close>

lemma length_fill_name_buf [simp]: "length (fst (fill_name_buf nm)) = 32"
  by (simp add: fill_name_buf_def Let_def)

lemma length_proc_list_entry [simp]: "length (proc_list_entry p) = 48"
  using length_fill_name_buf [of "pr_name p"]
  by (cases "fill_name_buf (pr_name p)") (simp add: proc_list_entry_def Let_def)

lemma find_mark_zombie:
  "find (\<lambda>p. pr_pid p = i) (procs (mark_zombie pid s))
     = (if i = pid then map_option (\<lambda>p. p\<lparr>pr_state := PZombie\<rparr>) (find (\<lambda>p. pr_pid p = i) (procs s))
        else find (\<lambda>p. pr_pid p = i) (procs s))"
  unfolding mark_zombie_def by (simp add: find_update_first find_update_first_other)

lemma mark_zombie_keeps [simp]:
  "tasks (mark_zombie pid s) = tasks s" "runq (mark_zombie pid s) = runq s" "current (mark_zombie pid s) = current s"
  "idle (mark_zombie pid s) = idle s" "s_inited (mark_zombie pid s) = s_inited s"
  by (simp_all add: mark_zombie_def)

lemma mark_zombie_inv [simp]: "sched_inv (mark_zombie pid s) = sched_inv s"
  by (simp add: sched_inv_def sched_inv_sleep_def sched_wf_def st_def)


text \<open>The process table points at tasks that exist, never at the idle task.\<close>

definition procs_wf :: "sched \<Rightarrow> bool" where
  "procs_wf s \<longleftrightarrow> (\<forall>p \<in> set (procs s). pr_main_task p \<noteq> idle s \<and> (pr_main_task p = 0 \<or> tasks s (pr_main_task p) \<noteq> None))"

lemma find_pid:
  assumes "find (\<lambda>p. pr_pid p = pid) ps = Some p"
  shows "p \<in> set ps \<and> pr_pid p = pid"
  using assms by (auto simp: find_Some_iff)

lemma kill_effect:
  assumes "sched_inv (sch s)" "procs_wf (sch s)" "pid \<noteq> 0" "find (\<lambda>p. pr_pid p = pid) (procs (sch s)) = Some p"
  obtains t where "sys_proc_kill pid s = Some (0, s\<lparr>sch := t\<rparr>)" "sched_inv t" "runq t = runq (sch s)"
    "current t = current (sch s)" "procs t = procs (mark_zombie pid (sch s))"
    "st t = (if pr_main_task p = 0 then st (sch s) else (st (sch s))(pr_main_task p := Some Zombie))"
proof (cases "pr_main_task p = 0")
  case True
  with assms show thesis
    by (intro that [of "mark_zombie pid (sch s)"]) (simp_all add: sys_proc_kill_def st_def fun_eq_iff)
next
  case False
  let ?m = "mark_zombie pid (sch s)"
  have "pr_main_task p \<noteq> idle (sch s)" "tasks (sch s) (pr_main_task p) \<noteq> None"
    using assms(2) find_pid [OF assms(4)] False by (auto simp: procs_wf_def)
  then obtain k where k: "tasks (sch s) (pr_main_task p) = Some k" and ni: "pr_main_task p \<noteq> idle ?m" by auto
  let ?t = "?m\<lparr>tasks := (tasks ?m)(pr_main_task p \<mapsto> k\<lparr>t_state := Zombie\<rparr>)\<rparr>"
  have u: "upd_task (pr_main_task p) (\<lambda>k. k\<lparr>t_state := Zombie\<rparr>) ?m = Some ?t"
    using k by (simp add: upd_task_def)
  then have "sched_inv ?t" using assms(1) ni by (intro zombie_inv [OF _ u]) simp_all
  then show thesis
    by (rule that [of ?t, rotated]) (use assms(3,4) False u in \<open>simp_all add: sys_proc_kill_def st_def fun_eq_iff\<close>)
qed

lemma zombie_yields:
  assumes inv: "sched_inv s" and cur: "current s \<noteq> idle s" "st s (current s) = Some Zombie"
  obtains a s' where "yield_now s = Some (a, s')" "sched_inv s'" "current s' \<noteq> current s"
    "st s' (current s) = Some Zombie" "procs s' = procs s"
proof -
  define u where "u = request_resched s"
  have u_eq: "u = s\<lparr>need_resched := True\<rparr>" by (simp add: u_def request_resched_def)
  have sleep: "sched_inv_sleep u" unfolding u_eq sched_inv_flags using inv by (simp add: sched_inv_def)
  then have wf: "sched_wf u" by (simp add: sched_inv_sleep_def)
  have eqs: "current u = current s" "st u = st s" "runq u = runq s" "idle u = idle s" "procs u = procs s"
    unfolding u_eq sched_inv_flags by simp_all
  note u = sleep wf eqs
  obtain nxt q where pn: "pick_next u = Some (nxt, u\<lparr>runq := q\<rparr>)" and tn: "tasks u nxt \<noteq> None"
    and pick: "if ready_queue u = [] then nxt = idle u \<and> q = runq u
       else nxt = hd (ready_queue u) \<and> nxt \<in> set (runq u) \<and> set q = set (runq u) - {nxt}"
    using pick_next_spec [OF u(2)] by blast
  have "current s \<notin> set (runq s)" using inv by (simp add: sched_inv_def)
  then have ne: "nxt \<noteq> current s" using pick cur(1) unfolding eqs by metis
  obtain a s' where r: "schedule u = Some (a, s')" "current s' = nxt" "procs s' = procs u"
    "st s' = (\<lambda>p. if p = nxt \<and> nxt \<noteq> current u then Some Running
        else if p = current u \<and> switched u nxt then Some Runnable else st u p)"
    by (rule schedule_effect [OF u(2) pn tn])
  have "\<not> switched u nxt" using cur(2) unfolding switched_def eqs by simp
  then have "st s' (current s) = Some Zombie" using r(4) ne cur(2) u(3,4) by simp
  moreover have "sched_inv s'" using schedule_round_robin [OF u(1)] r(1) by auto
  ultimately show thesis using that [of a s'] r(1,2,3) u(7) ne by (simp add: yield_now_def u_def)
qed

lemma wait_first_zombie:
  assumes "find (\<lambda>p. pr_pid p = pid) (procs (sch s)) = Some p" "pr_state p = PZombie" "pid \<noteq> 0"
  shows "sys_proc_wait pid 0 (s # turns) = Some (sint pid, Some s)"
  using assms by (simp add: sys_proc_wait_def)

lemma list_loop_spec:
  assumes "n \<le> length ps" "k \<le> n" "n * 48 < 2 ^ 64" "k = 0 \<or> unat out + 48 * k \<le> unat USER_MAX"
  shows "\<exists>ok m'. list_loop out ps [k..<n] m = Some (ok, m') \<and> (\<forall>x \<ge> USER_MAX. m' x = m x)
    \<and> (ok \<longleftrightarrow> k = n \<or> unat out + 48 * n \<le> unat USER_MAX)
    \<and> (ok \<longrightarrow> m' = write_bytes m (out + of_nat (48 * k)) (concat (map proc_list_entry (take (n - k) (drop k ps)))))"
  using assms
proof (induction "n - k" arbitrary: k m)
  case 0
  then show ?case by (auto simp: write_bytes_def)
next
  case (Suc d)
  then have k: "k < n" "[k..<n] = k # [Suc k..<n]" "k < length ps" by (simp_all add: upt_conv_Cons)
  let ?e = "proc_list_entry (ps ! k)" and ?a = "out + of_nat (48 * k)"
  have u: "unat (of_nat (48 * k) :: u64) = 48 * k" using k(1) Suc.prems(3) by (simp only: unat_of_nat) simp
  have "unat USER_MAX < 2 ^ 64" by (simp add: USER_MAX_def)
  moreover have "unat out < 2 ^ LENGTH(64)" by (rule unsigned_less)
  ultimately have ov: "unat out + 48 * k < 2 ^ 64" using Suc.prems(4) by auto
  then have a: "checked_add out (of_nat (k * 48)) = Some ?a" "unat ?a = unat out + 48 * k"
    using u by (simp_all add: checked_add_def mult.commute unat_word_ariths)
  show ?case
  proof (cases "is_user_range ?a 48")
    case False
    then have "unat USER_MAX < unat out + 48 * Suc k" using is_user_range_iff [of 48 ?a] a(2) by simp
    moreover have "48 * Suc k \<le> 48 * n" using k(1) by simp
    ultimately have "\<not> unat out + 48 * n \<le> unat USER_MAX" by linarith
    then show ?thesis using False a(1) k(1,2) by (intro exI [of _ False]) (simp add: copy_to_user_def)
  next
    case True
    then have end_le: "unat out + 48 * Suc k \<le> unat USER_MAX" using is_user_range_iff [of 48 ?a] a(2) by simp
    let ?m = "write_bytes m ?a ?e"
    obtain ok m' where r: "list_loop out ps [Suc k..<n] ?m = Some (ok, m')" "\<forall>x \<ge> USER_MAX. m' x = ?m x"
      "ok \<longleftrightarrow> Suc k = n \<or> unat out + 48 * n \<le> unat USER_MAX"
      "ok \<longrightarrow> m' = write_bytes ?m (out + of_nat (48 * Suc k))
          (concat (map proc_list_entry (take (n - Suc k) (drop (Suc k) ps))))"
    proof -
      have "d = n - Suc k" "Suc k \<le> n" "Suc k = 0 \<or> unat out + 48 * Suc k \<le> unat USER_MAX"
        using Suc.hyps(2) k(1) end_le by simp_all
      from Suc.hyps(1) [OF this(1) Suc.prems(1) this(2) Suc.prems(3) this(3), of ?m] show thesis
        using that by blast
    qed
    have tk: "take (n - k) (drop k ps) = ps ! k # take (n - Suc k) (drop (Suc k) ps)"
      using k by (simp add: Cons_nth_drop_Suc [symmetric] take_Cons')
    have len: "length (concat (map proc_list_entry xs)) = 48 * length xs" for xs
      by (induction xs) simp_all
    have wr: "write_bytes ?m (?a + of_nat (length ?e)) (concat (map proc_list_entry (take (n - Suc k) (drop (Suc k) ps))))
        = write_bytes m ?a (concat (map proc_list_entry (take (n - k) (drop k ps))))"
      unfolding tk using Suc.prems(1,3) k(1) by (subst write_bytes_append) (simp_all add: len)
    have ad: "?a + of_nat (length ?e) = out + of_nat (48 * Suc k)" by simp
    have ok: "ok \<longrightarrow> m' = write_bytes m ?a (concat (map proc_list_entry (take (n - k) (drop k ps))))"
      using r(4) unfolding ad [symmetric] wr .
    have "?m x = m x" if "x \<ge> USER_MAX" for x
      using True that by (intro write_bytes_outside) simp_all
    then have ker: "\<forall>x \<ge> USER_MAX. m' x = m x" using r(2) by simp
    have "list_loop out ps [k..<n] m = Some (ok, m')"
      using a(1) k(2) True r(1) by (simp add: copy_to_user_def)
    moreover have "ok \<longleftrightarrow> k = n \<or> unat out + 48 * n \<le> unat USER_MAX" using r(3) end_le k(1) by auto
    ultimately show ?thesis using ok ker by blast
  qed
qed

section \<open>Properties\<close>

text \<open>One user process, pid 1, whose main task is the running one.\<close>

definition one_proc :: psys where
  "one_proc = \<lparr>sch = (booted 0x20)\<lparr>procs := [\<lparr>pr_pid = 1, pr_aspace = \<lparr>as_root = 0, as_flags = 0\<rparr>,
     pr_kstack_top = 0x9000, pr_main_task = 0x20, pr_state = PRunning, pr_name = []\<rparr>]\<rparr>, pum = (\<lambda>_. 0)\<rparr>"

lemma one_proc_inv: "sched_inv (sch one_proc)" "procs_wf (sch one_proc)"
  using booted_inv [of "0x20"]
  by (simp_all add: one_proc_def sched_inv_def sched_inv_sleep_def sched_wf_def st_def procs_wf_def)
    (simp_all add: booted_def)

text \<open>
  C37: killing an existing process always succeeds, keeps the scheduler's invariant, turns exactly that
  process and its main task into zombies (queue, current task, the other processes and tasks stay), and
  a wait for it that starts then returns its pid at once.
\<close>

theorem kill_then_wait:
  assumes "sched_inv (sch s)" and "procs_wf (sch s)" and "pid \<noteq> 0" and "for_pid pid (sch s) = Some p"
  shows "\<exists>s'. sys_proc_kill pid s = Some (0, s') \<and> sched_inv (sch s') \<and> pum s' = pum s
    \<and> runq (sch s') = runq (sch s) \<and> current (sch s') = current (sch s)
    \<and> (\<forall>i. for_pid i (sch s') = (if i = pid then Some (p\<lparr>pr_state := PZombie\<rparr>) else for_pid i (sch s)))
    \<and> (\<forall>k. st (sch s') k = (if k = pr_main_task p \<and> k \<noteq> 0 then Some Zombie else st (sch s) k))
    \<and> sys_proc_wait pid 0 [s'] = Some (sint pid, Some s')"
proof -
  have f: "find (\<lambda>p. pr_pid p = pid) (procs (sch s)) = Some p" using assms(4) by (simp add: for_pid_def)
  obtain t where t: "sys_proc_kill pid s = Some (0, s\<lparr>sch := t\<rparr>)" "sched_inv t" "runq t = runq (sch s)"
    "current t = current (sch s)" "procs t = procs (mark_zombie pid (sch s))"
    "st t = (if pr_main_task p = 0 then st (sch s) else (st (sch s))(pr_main_task p := Some Zombie))"
    by (rule kill_effect [OF assms(1-3) f])
  have pids: "for_pid i t = (if i = pid then Some (p\<lparr>pr_state := PZombie\<rparr>) else for_pid i (sch s))" for i
    using f by (simp add: for_pid_def t(5) find_mark_zombie)
  have "sys_proc_wait pid 0 [s\<lparr>sch := t\<rparr>] = Some (sint pid, Some (s\<lparr>sch := t\<rparr>))"
    by (rule wait_first_zombie [where p = "p\<lparr>pr_state := PZombie\<rparr>"])
      (use assms(3) pids [of pid] in \<open>simp_all add: for_pid_def\<close>)
  with t pids show ?thesis by (intro exI [of _ "s\<lparr>sch := t\<rparr>"]) auto
qed

theorem kill_then_wait_witness:
  "\<exists>s'. sys_proc_kill 1 one_proc = Some (0, s') \<and> st (sch s') 0x20 = Some Zombie
     \<and> sys_proc_wait 1 0 [s'] = Some (1, Some s')"
proof -
  have "for_pid 1 (sch one_proc) = Some \<lparr>pr_pid = 1, pr_aspace = \<lparr>as_root = 0, as_flags = 0\<rparr>,
     pr_kstack_top = 0x9000, pr_main_task = 0x20, pr_state = PRunning, pr_name = []\<rparr>"
    by (simp add: for_pid_def one_proc_def)
  from kill_then_wait [OF one_proc_inv _ this] show ?thesis by auto
qed

text \<open>
  \<open>exit\<close> never returns to its caller: the calling task becomes a zombie, another task runs, the
  zombie is in no queue of runnable tasks, its process is marked and the scheduler's invariant holds.
\<close>

lemma exit_switches_away:
  assumes "sched_inv (sch s)" and "current (sch s) \<noteq> 0" and "current (sch s) \<noteq> idle (sch s)"
    and "current_pid (sch s) = Some (Some pid)" and "for_pid pid (sch s) = Some p"
  shows "\<exists>a s'. sys_exit s = Some (a, s') \<and> sched_inv (sch s') \<and> current (sch s') \<noteq> current (sch s)
    \<and> st (sch s') (current (sch s)) = Some Zombie \<and> current (sch s) \<notin> set (ready_queue (sch s'))
    \<and> for_pid pid (sch s') = Some (p\<lparr>pr_state := PZombie\<rparr>)"
proof -
  let ?c = "current (sch s)"
  obtain t where t: "tasks (sch s) ?c = Some t"
    using assms(2,4) by (auto simp: current_pid_def split: option.splits)
  let ?z = "(sch s)\<lparr>tasks := (tasks (sch s))(?c \<mapsto> t\<lparr>t_state := Zombie\<rparr>)\<rparr>"
  have up: "upd_task ?c (\<lambda>t. t\<lparr>t_state := Zombie\<rparr>) (sch s) = Some ?z" using t by (simp add: upd_task_def)
  have cp: "current_pid ?z = Some (Some pid)" using assms(2,4) t by (simp add: current_pid_def)
  let ?m = "mark_zombie pid ?z"
  have "sched_inv ?m" using zombie_inv [OF assms(1) up assms(3)] by simp
  then obtain a s' where r: "yield_now ?m = Some (a, s')" "sched_inv s'" "current s' \<noteq> current ?m"
    "st s' (current ?m) = Some Zombie" "procs s' = procs ?m"
    by (rule zombie_yields) (use assms(3) in \<open>simp_all add: st_def\<close>)
  have "sys_exit s = Some (a, s\<lparr>sch := s'\<rparr>)" using assms(2) up cp r(1) by (simp add: sys_exit_def Let_def)
  moreover have "for_pid pid s' = Some (p\<lparr>pr_state := PZombie\<rparr>)"
    using assms(5) by (simp add: for_pid_def r(5) find_mark_zombie)
  moreover have "?c \<notin> set (ready_queue s')" using r(4) by (simp add: ready_queue_def ready_st)
  ultimately show ?thesis using r by auto
qed

lemma exit_switches_away_example:
  "\<exists>a s'. sys_exit one_proc = Some (a, s') \<and> current (sch s') \<noteq> 0x20 \<and> st (sch s') 0x20 = Some Zombie"
proof -
  have "current (sch one_proc) \<noteq> 0" "current (sch one_proc) \<noteq> idle (sch one_proc)"
    "current_pid (sch one_proc) = Some (Some 1)"
    by (simp_all add: one_proc_def booted_def current_pid_def a_task_def)
  moreover have "for_pid 1 (sch one_proc) = Some \<lparr>pr_pid = 1, pr_aspace = \<lparr>as_root = 0, as_flags = 0\<rparr>,
     pr_kstack_top = 0x9000, pr_main_task = 0x20, pr_state = PRunning, pr_name = []\<rparr>"
    by (simp add: for_pid_def one_proc_def)
  moreover have "current (sch one_proc) = 0x20" by (simp add: one_proc_def booted_def)
  ultimately show ?thesis using exit_switches_away [OF one_proc_inv(1)] by metis
qed

text \<open>
  Listing never panics, whatever addresses the caller passes, and writes nothing outside the user
  range. The result is \<open>EFAULT\<close> exactly when a pointer it has to use is null or leaves the user range;
  otherwise it is the smaller of the capacity and the number of processes, and the buffer then holds
  exactly the entries of that many processes.
\<close>

lemma proc_list_writes_entries:
  fixes cap :: u64
  assumes "length (procs (sch s)) * 48 < 2 ^ 64"
  defines "n \<equiv> min (unat cap) (length (procs (sch s)))"
  shows "\<exists>r s'. sys_proc_list out_ptr cap total_ptr s = Some (r, s') \<and> sch s' = sch s
    \<and> (\<forall>x \<ge> USER_MAX. pum s' x = pum s x)
    \<and> (if total_ptr \<noteq> 0 \<and> \<not> is_user_range total_ptr 8 \<or> cap \<noteq> 0 \<and> (out_ptr = 0 \<or> \<not> is_user_range out_ptr (48 * n))
       then r = - EFAULT
       else r = int n \<and> read_bytes (pum s') out_ptr (48 * n) = concat (map proc_list_entry (take n (procs (sch s)))))"
proof (cases "if total_ptr = 0 then Some (pum s) else copy_to_user (pum s) total_ptr (le64 (of_nat (length (procs (sch s)))))")
  case None
  then have "total_ptr \<noteq> 0 \<and> \<not> is_user_range total_ptr 8" by (auto simp: copy_to_user_def split: if_splits)
  with None show ?thesis by (simp add: sys_proc_list_def Let_def)
next
  case (Some m)
  have km: "\<forall>x \<ge> USER_MAX. m x = pum s x"
    using Some copy_to_user_kernel [of "pum s" total_ptr] by (auto split: if_splits)
  have tok: "\<not> (total_ptr \<noteq> 0 \<and> \<not> is_user_range total_ptr 8)"
    using Some by (auto simp: copy_to_user_def split: if_splits)
  show ?thesis
  proof (cases "cap = 0 \<or> out_ptr = 0")
    case True
    then show ?thesis using Some km tok by (auto simp: sys_proc_list_def Let_def read_bytes_def n_def)
  next
    case False
    have n48: "n * 48 < 2 ^ 64" using assms(1) by (simp add: n_def min_def)
    obtain ok m' where l: "list_loop out_ptr (procs (sch s)) [0..<n] m = Some (ok, m')"
      "\<forall>x \<ge> USER_MAX. m' x = m x" "ok \<longleftrightarrow> 0 = n \<or> unat out_ptr + 48 * n \<le> unat USER_MAX"
      "ok \<longrightarrow> m' = write_bytes m out_ptr (concat (map proc_list_entry (take n (procs (sch s)))))"
      using list_loop_spec [of n "procs (sch s)" 0 out_ptr m] n48 by (auto simp: n_def)
    let ?es = "concat (map proc_list_entry (take n (procs (sch s))))"
    have len: "length (concat (map proc_list_entry xs)) = 48 * length xs" for xs by (induction xs) simp_all
    have le: "length ?es = 48 * n" by (simp add: len n_def)
    have "read_bytes m' out_ptr (48 * n) = ?es" if ok
      using l(4) that read_write_bytes [of ?es m out_ptr] n48 le by simp
    moreover have "sys_proc_list out_ptr cap total_ptr s = Some (if ok then int n else - EFAULT, s\<lparr>pum := m'\<rparr>)"
      using Some False l(1) by (simp add: sys_proc_list_def Let_def n_def)
    moreover have "ok \<longleftrightarrow> is_user_range out_ptr (48 * n)" using l(3) n48 by (auto simp: is_user_range_iff)
    ultimately show ?thesis using km tok l(2) False by (cases ok) auto
  qed
qed

lemma proc_list_writes_entries_example:
  "\<exists>s'. sys_proc_list 0x1000 8 0 one_proc = Some (1, s')
     \<and> read_bytes (pum s') 0x1000 48 = concat (map proc_list_entry (procs (sch one_proc)))"
proof -
  have ps: "procs (sch one_proc) = [\<lparr>pr_pid = 1, pr_aspace = \<lparr>as_root = 0, as_flags = 0\<rparr>,
     pr_kstack_top = 0x9000, pr_main_task = 0x20, pr_state = PRunning, pr_name = []\<rparr>]" by (simp add: one_proc_def)
  have "is_user_range 0x1000 48" by (simp add: is_user_range_def checked_add_def USER_MAX_def)
  with proc_list_writes_entries [of one_proc "0x1000" 8 0] ps show ?thesis by fastforce
qed

end
