(* ===== verification/Fat32.thy ===== *)
theory Fat32
  imports Blk Fat32_Names
begin

text \<open>
  The volume layer of \<^verbatim>\<open>kernel/fs/fat32.rs\<close>: mounting, sectors, the file allocation table and cluster chains.
  A volume is the record of its geometry; the disk behind it is the device state of \<open>Blk\<close>. Loops that follow
  the table are partial functions: on a table with a cycle some of them do not end.
\<close>

record fat32 =
  base_off_bytes :: u64
  bps :: u16
  spc :: u8
  rsvd :: u16
  nfats :: u8
  fatsz :: u32
  totsec :: u32
  fat_start_sec :: u32
  data_start_sec :: u32
  data_clusters :: u32
  root_clus :: u32

section \<open>Sectors\<close>

definition sec_off :: "fat32 \<Rightarrow> u32 \<Rightarrow> u64 option" where
  "sec_off fs lba_sec = do {
     o' \<leftarrow> checked_mul (ucast lba_sec) (ucast (bps fs));
     checked_add (base_off_bytes fs) o'
   }"

definition read_sector :: "'b blk_ops \<Rightarrow> fat32 \<Rightarrow> 'b \<Rightarrow> u32 \<Rightarrow> (fat_err + u8 list) option" where
  "read_sector ops fs d lba_sec = do {
     off \<leftarrow> sec_off fs lba_sec;
     r \<leftarrow> read_at ops d off SEC;
     Some (case r of None \<Rightarrow> Inl Io | Some buf \<Rightarrow> Inr buf)
   }"

definition write_sector :: "'b blk_ops \<Rightarrow> fat32 \<Rightarrow> u32 \<Rightarrow> u8 list \<Rightarrow> 'b \<Rightarrow> ((fat_err + unit) \<times> 'b) option" where
  "write_sector ops fs lba_sec buf d = do {
     off \<leftarrow> sec_off fs lba_sec;
     (ok, d') \<leftarrow> write_at ops d off buf;
     Some (if ok then Inr () else Inl Io, d')
   }"

section \<open>Mounting\<close>

definition fat_mount :: "'b blk_ops \<Rightarrow> 'b \<Rightarrow> u64 \<Rightarrow> (fat_err + fat32) option" where
  "fat_mount ops d base = do {
     r \<leftarrow> read_at ops d base SEC;
     case r of
       None \<Rightarrow> Some (Inl Io)
     | Some bs \<Rightarrow>
         if bs ! 510 \<noteq> 0x55 \<or> bs ! 511 \<noteq> 0xAA then Some (Inl BadBootSig)
         else let b = rd16 bs 11 in
           if b \<noteq> 512 \<and> b \<noteq> 1024 \<and> b \<noteq> 2048 \<and> b \<noteq> 4096 then Some (Inl BadBpb)
           else let sp = bs ! 13; rs = rd16 bs 14; nf = bs ! 16; root_ent_cnt = rd16 bs 17; fat_sz16 = rd16 bs 22;
                    tot16 = rd16 bs 19; tot32 = rd32 bs 32; tot = (if tot16 \<noteq> 0 then ucast tot16 else tot32);
                    fatsz32 = rd32 bs 36; root = rd32 bs 44 in
             if root_ent_cnt \<noteq> 0 then Some (Inl NotFat32)
             else if fat_sz16 \<noteq> 0 then Some (Inl NotFat32)
             else if fatsz32 = 0 \<or> nf = 0 \<or> rs = 0 \<or> sp = 0 \<or> tot = 0 then Some (Inl BadBpb)
             else if root < 2 then Some (Inl BadBpb)
             else do {
               f \<leftarrow> checked_mul (ucast nf) fatsz32;
               data_start \<leftarrow> checked_add (ucast rs) f;
               let data_secs = (if data_start \<le> tot then tot - data_start else 0);
                   clusters = data_secs div ucast sp in
               Some (if clusters < 65525 then Inl NotFat32
                 else Inr \<lparr>base_off_bytes = base, bps = b, spc = sp, rsvd = rs, nfats = nf, fatsz = fatsz32, totsec = tot,
                        fat_start_sec = ucast rs, data_start_sec = data_start, data_clusters = clusters, root_clus = root\<rparr>)
             }
   }"

section \<open>The allocation table\<close>

definition clus_to_first_sector :: "fat32 \<Rightarrow> u32 \<Rightarrow> u32 option" where
  "clus_to_first_sector fs clus = do {
     k \<leftarrow> checked_sub clus 2;
     k \<leftarrow> checked_mul k (ucast (spc fs));
     checked_add (data_start_sec fs) k
   }"

definition is_eoc :: "u32 \<Rightarrow> bool" where
  "is_eoc v \<longleftrightarrow> v \<ge> 0x0FFFFFF8"

text \<open>The sector of the table and the offset in it: an offset past the 512-byte buffer panics.\<close>

definition fat_pos :: "fat32 \<Rightarrow> u32 \<Rightarrow> (u32 \<times> nat) option" where
  "fat_pos fs clus = do {
     idx \<leftarrow> checked_mul clus 4;
     assert_that (bps fs \<noteq> 0);
     sec \<leftarrow> checked_add (fat_start_sec fs) (idx div ucast (bps fs));
     Some (sec, unat (idx mod ucast (bps fs)))
   }"

definition fat_entry_read :: "'b blk_ops \<Rightarrow> fat32 \<Rightarrow> 'b \<Rightarrow> u32 \<Rightarrow> (fat_err + u32) option" where
  "fat_entry_read ops fs d clus = do {
     (fat_sec, off) \<leftarrow> fat_pos fs clus;
     rbind (read_sector ops fs d fat_sec) (\<lambda>sec. do {
       assert_that (off + 3 < SEC);
       Some (Inr (rd32 sec off AND 0x0FFFFFFF))
     })
   }"

fun fat_copies :: "'b blk_ops \<Rightarrow> fat32 \<Rightarrow> u32 \<Rightarrow> nat \<Rightarrow> u32 \<Rightarrow> nat list \<Rightarrow> 'b \<Rightarrow> ((fat_err + unit) \<times> 'b) option" where
  "fat_copies ops fs fat_sec0 off val [] d = Some (Inr (), d)"
| "fat_copies ops fs fat_sec0 off val (f # fl) d = do {
     k \<leftarrow> checked_mul (of_nat f) (fatsz fs);
     secno \<leftarrow> checked_add fat_sec0 k;
     getr d (read_sector ops fs d secno) (\<lambda>sec. do {
       assert_that (off + 3 < SEC);
       sbind (write_sector ops fs secno (take off sec @ le32 (val AND 0x0FFFFFFF) @ drop (off + 4) sec) d)
         (\<lambda>_ d. fat_copies ops fs fat_sec0 off val fl d)
     })
   }"

definition fat_entry_write :: "'b blk_ops \<Rightarrow> fat32 \<Rightarrow> u32 \<Rightarrow> u32 \<Rightarrow> 'b \<Rightarrow> ((fat_err + unit) \<times> 'b) option" where
  "fat_entry_write ops fs clus val d = do {
     (fat_sec0, off) \<leftarrow> fat_pos fs clus;
     fat_copies ops fs fat_sec0 off val [0..<unat (nfats fs)] d
   }"

fun alloc_scan :: "'b blk_ops \<Rightarrow> fat32 \<Rightarrow> nat \<Rightarrow> u32 \<Rightarrow> 'b \<Rightarrow> ((fat_err + u32 option) \<times> 'b) option" where
  "alloc_scan ops fs 0 clus d = Some (Inr None, d)"
| "alloc_scan ops fs (Suc n) clus d =
     getr d (fat_entry_read ops fs d clus) (\<lambda>v.
       if v = 0 then sbind (fat_entry_write ops fs clus 0x0FFFFFF7 d) (\<lambda>_ d. Some (Inr (Some clus), d))
       else alloc_scan ops fs n (clus + 1) d)"

definition alloc_free_cluster :: "'b blk_ops \<Rightarrow> fat32 \<Rightarrow> 'b \<Rightarrow> ((fat_err + u32 option) \<times> 'b) option" where
  "alloc_free_cluster ops fs d = do {
     mx \<leftarrow> checked_add (data_clusters fs) 2;
     alloc_scan ops fs (unat mx - 2) 2 d
   }"

text \<open>\<open>alloc_free_cluster()?.ok_or(Full)?\<close>\<close>

definition alloc_or_full :: "'b blk_ops \<Rightarrow> fat32 \<Rightarrow> 'b \<Rightarrow> ((fat_err + u32) \<times> 'b) option" where
  "alloc_or_full ops fs d = sbind (alloc_free_cluster ops fs d)
     (\<lambda>r d. Some (case r of None \<Rightarrow> Inl Full | Some c \<Rightarrow> Inr c, d))"

partial_function (option) free_chain :: "'b blk_ops \<Rightarrow> fat32 \<Rightarrow> u32 \<Rightarrow> 'b \<Rightarrow> ((fat_err + unit) \<times> 'b) option" where
  "free_chain ops fs cur d =
     getr d (fat_entry_read ops fs d cur) (\<lambda>nxt.
     sbind (fat_entry_write ops fs cur 0 d) (\<lambda>_ d.
       if nxt < 2 \<or> is_eoc nxt then Some (Inr (), d) else free_chain ops fs nxt d))"

definition free_cluster_chain :: "'b blk_ops \<Rightarrow> fat32 \<Rightarrow> u32 \<Rightarrow> 'b \<Rightarrow> ((fat_err + unit) \<times> 'b) option" where
  "free_cluster_chain ops fs start d = (if start < 2 then Some (Inr (), d) else free_chain ops fs start d)"

section \<open>Reading a chain\<close>

text \<open>
  The sectors of one cluster: what was read and how many bytes are still wanted. The loop stops early on a
  partial sector.
\<close>

fun read_secs :: "'b blk_ops \<Rightarrow> fat32 \<Rightarrow> 'b \<Rightarrow> u32 \<Rightarrow> nat list \<Rightarrow> nat \<Rightarrow> (fat_err + u8 list \<times> nat) option" where
  "read_secs ops fs d first_sec [] left = Some (Inr ([], left))"
| "read_secs ops fs d first_sec (s # ss) left = do {
     secno \<leftarrow> checked_add first_sec (of_nat s);
     rbind (read_sector ops fs d secno) (\<lambda>buf.
       let n = min SEC left in
       if n < SEC then Some (Inr (take n buf, 0))
       else rbind (read_secs ops fs d first_sec ss (left - SEC)) (\<lambda>(out, left). Some (Inr (take n buf @ out, left))))
   }"

partial_function (option) read_chain :: "'b blk_ops \<Rightarrow> fat32 \<Rightarrow> 'b \<Rightarrow> u32 \<Rightarrow> nat \<Rightarrow> (fat_err + u8 list) option" where
  "read_chain ops fs d cur left = do {
     first_sec \<leftarrow> clus_to_first_sector fs cur;
     rbind (read_secs ops fs d first_sec [0..<unat (spc fs)] left) (\<lambda>ol.
       if snd ol = 0 then Some (Inr (fst ol))
       else rbind (fat_entry_read ops fs d cur) (\<lambda>nxt.
         if is_eoc nxt \<or> nxt < 2 then Some (Inr (fst ol))
         else rbind (read_chain ops fs d nxt (snd ol)) (\<lambda>rest. Some (Inr (fst ol @ rest)))))
   }"

definition read_cluster_chain :: "'b blk_ops \<Rightarrow> fat32 \<Rightarrow> 'b \<Rightarrow> u32 \<Rightarrow> nat \<Rightarrow> (fat_err + u8 list) option" where
  "read_cluster_chain ops fs d start_clus max_bytes =
     (if start_clus < 2 \<or> max_bytes = 0 then Some (Inr []) else read_chain ops fs d start_clus max_bytes)"

section \<open>Writing a chain\<close>

text \<open>
  One cluster is written sector by sector from the data that is left, padded with zeros; the result is the
  data behind it.
\<close>

fun write_secs :: "'b blk_ops \<Rightarrow> fat32 \<Rightarrow> u32 \<Rightarrow> nat list \<Rightarrow> nat \<Rightarrow> u8 list \<Rightarrow> 'b \<Rightarrow> ((fat_err + u8 list) \<times> 'b) option" where
  "write_secs ops fs first_sec [] left data d = Some (Inr data, d)"
| "write_secs ops fs first_sec (s # ss) left data d = do {
     secno \<leftarrow> checked_add first_sec (of_nat s);
     let n = min SEC left in
     sbind (write_sector ops fs secno (take n data @ replicate (SEC - n) 0) d) (\<lambda>_ d.
       write_secs ops fs first_sec ss (left - n) (drop n data) d)
   }"

text \<open>Taking the next cluster of a chain, or appending a new one; \<open>endp\<close> decides what an end looks like.\<close>

definition extend_chain :: "'b blk_ops \<Rightarrow> fat32 \<Rightarrow> (u32 \<Rightarrow> bool) \<Rightarrow> u32 \<Rightarrow> 'b \<Rightarrow> ((fat_err + u32) \<times> 'b) option" where
  "extend_chain ops fs endp cur d =
     getr d (fat_entry_read ops fs d cur) (\<lambda>nxt.
       if endp nxt then
         sbind (alloc_or_full ops fs d) (\<lambda>newc d.
         sbind (fat_entry_write ops fs cur newc d) (\<lambda>_ d.
         sbind (fat_entry_write ops fs newc 0x0FFFFFFF d) (\<lambda>_ d. Some (Inr newc, d))))
       else Some (Inr nxt, d))"

partial_function (option) write_chain :: "'b blk_ops \<Rightarrow> fat32 \<Rightarrow> u32 \<Rightarrow> u8 list \<Rightarrow> 'b \<Rightarrow> ((fat_err + u32) \<times> 'b) option" where
  "write_chain ops fs cur data d = do {
     first_sec \<leftarrow> clus_to_first_sector fs cur;
     sbind (write_secs ops fs first_sec [0..<unat (spc fs)] (min (unat (spc fs) * unat (bps fs)) (length data)) data d)
       (\<lambda>rest d.
         if rest = [] then
           sbind (fat_entry_write ops fs cur 0x0FFFFFFF d) (\<lambda>_ d. Some (Inr cur, d))
         else sbind (extend_chain ops fs is_eoc cur d) (\<lambda>nxt d. write_chain ops fs nxt rest d))
   }"

definition write_cluster_chain_from :: "'b blk_ops \<Rightarrow> fat32 \<Rightarrow> u32 \<Rightarrow> u8 list \<Rightarrow> 'b \<Rightarrow> ((fat_err + u32) \<times> 'b) option" where
  "write_cluster_chain_from ops fs start_clus data d = write_chain ops fs start_clus data d"

section \<open>Well-formed volumes\<close>

text \<open>
  The disk seen as 512-byte sectors of the volume. \<open>vol_ok\<close> is a volume as a formatter lays it out: sectors
  of 512 bytes, a table large enough for every cluster, copies and data behind each other and inside the
  disk, and fewer clusters than the reserved marks.
\<close>

definition sec :: "('b \<Rightarrow> nat \<Rightarrow> u8) \<Rightarrow> fat32 \<Rightarrow> 'b \<Rightarrow> nat \<Rightarrow> u8 list" where
  "sec img fs d s = bytes_of (img d) (unat (base_off_bytes fs) + 512 * s) 512"

definition vol_ok :: "fat32 \<Rightarrow> nat \<Rightarrow> bool" where
  "vol_ok fs cap \<longleftrightarrow> bps fs = 512 \<and> 0 < unat (spc fs) \<and> 0 < unat (nfats fs)
     \<and> unat (fat_start_sec fs) + unat (nfats fs) * unat (fatsz fs) \<le> unat (data_start_sec fs)
     \<and> (unat (data_clusters fs) + 2) * 4 \<le> unat (fatsz fs) * 512
     \<and> unat (data_start_sec fs) + unat (data_clusters fs) * unat (spc fs) \<le> unat (totsec fs)
     \<and> unat (base_off_bytes fs) + unat (totsec fs) * 512 \<le> cap * 512
     \<and> unat (data_clusters fs) + 2 \<le> 0x0FFFFFF0"

definition in_vol :: "fat32 \<Rightarrow> u32 \<Rightarrow> bool" where
  "in_vol fs c \<longleftrightarrow> 2 \<le> c \<and> unat c < unat (data_clusters fs) + 2"

lemma length_sec [simp]: "length (sec img fs d s) = 512"
  by (simp add: sec_def)

lemma sec_off_ok:
  assumes "blk_ok ops img cap" "vol_ok fs cap" "unat s < unat (totsec fs)"
  shows "\<exists>off. sec_off fs s = Some off \<and> unat off = unat (base_off_bytes fs) + 512 * unat s"
proof -
  have cap: "unat (base_off_bytes fs) + unat (totsec fs) * 512 \<le> cap * 512" "cap * 512 < 2 ^ 63" "bps fs = 512"
    using assms(1,2) by (auto simp: vol_ok_def blk_ok_def)
  have u: "unat (ucast s :: u64) = unat s" "unat (ucast (512 :: u16) :: u64) = 512"
    using unat_ucast_up [of s, where ?'b = 64] by simp_all
  have "unat s * 512 < 2 ^ 64" using u32_small [of s] by simp
  then have m: "checked_mul (ucast s) (ucast (bps fs)) = Some (ucast s * 512 :: u64)" "unat (ucast s * 512 :: u64) = unat s * 512"
    using u cap(3) by (simp_all add: checked_mul_def unat_word_ariths)
  have "unat (base_off_bytes fs) + unat s * 512 < 2 ^ 63" using cap(1,2) assms(3) by linarith
  then have "unat (base_off_bytes fs) + unat s * 512 < 2 ^ 64" by simp
  then have "checked_add (base_off_bytes fs) (ucast s * 512) = Some (base_off_bytes fs + ucast s * 512)"
    "unat (base_off_bytes fs + ucast s * 512) = unat (base_off_bytes fs) + unat s * 512"
    using m(2) by (simp_all add: checked_add_def unat_word_ariths)
  then show ?thesis using m(1) by (simp add: sec_off_def)
qed

lemma read_sector_ok:
  assumes "blk_ok ops img cap" "vol_ok fs cap" "unat s < unat (totsec fs)"
  shows "read_sector ops fs d s = Some (Inr (sec img fs d (unat s)))"
proof -
  obtain off where off: "sec_off fs s = Some off" "unat off = unat (base_off_bytes fs) + 512 * unat s"
    using sec_off_ok [OF assms] by blast
  have "unat (base_off_bytes fs) + unat (totsec fs) * 512 \<le> cap * 512" using assms(2) by (simp add: vol_ok_def)
  then have "unat off + 512 \<le> cap * 512" using off(2) assms(3) by linarith
  then have "read_at ops d off SEC = Some (Some (bytes_of (img d) (unat off) 512))"
    unfolding SEC_def by (intro read_at_ok [OF assms(1)]) simp_all
  then show ?thesis using off by (simp add: read_sector_def sec_def)
qed

lemma write_sector_ok:
  assumes "blk_ok ops img cap" "vol_ok fs cap" "unat s < unat (totsec fs)" "length buf = 512"
  shows "\<exists>d'. write_sector ops fs s buf d = Some (Inr (), d') \<and> sec img fs d' = (sec img fs d)(unat s := buf)"
proof -
  obtain off where off: "sec_off fs s = Some off" "unat off = unat (base_off_bytes fs) + 512 * unat s"
    using sec_off_ok [OF assms(1-3)] by blast
  have "unat (base_off_bytes fs) + unat (totsec fs) * 512 \<le> cap * 512" using assms(2) by (simp add: vol_ok_def)
  then have "unat off + length buf \<le> cap * 512" using off(2) assms(3,4) by linarith
  then obtain d' where d': "write_at ops d off buf = Some (True, d')" "img d' = put_bytes (unat off) buf (img d)"
    using write_at_ok [OF assms(1)] assms(4) by (metis list.size(3) zero_neq_numeral)
  have "sec img fs d' t = ((sec img fs d)(unat s := buf)) t" for t
  proof (cases "t = unat s")
    case True
    have "bytes_of (img d') (unat (base_off_bytes fs) + 512 * unat s) 512 = buf"
      unfolding d'(2) off(2) assms(4) [symmetric] by (rule bytes_of_put_same)
    with True show ?thesis by (simp add: sec_def)
  next
    case False
    then have "512 * t + 512 \<le> 512 * unat s \<or> 512 * unat s + 512 \<le> 512 * t" by (cases "t < unat s") auto
    then have "unat off + length buf \<le> unat (base_off_bytes fs) + 512 * t \<or> unat (base_off_bytes fs) + 512 * t + 512 \<le> unat off"
      using off(2) assms(4) by linarith
    with False show ?thesis unfolding sec_def d'(2) by (simp add: bytes_of_put_other)
  qed
  then show ?thesis using off(1) d'(1) by (auto simp: write_sector_def)
qed


subsection \<open>The table\<close>

text \<open>Entry \<open>c\<close> of the first copy of the table.\<close>

definition fat :: "('b \<Rightarrow> nat \<Rightarrow> u8) \<Rightarrow> fat32 \<Rightarrow> 'b \<Rightarrow> u32 \<Rightarrow> u32" where
  "fat img fs d c = rd32 (sec img fs d (unat (fat_start_sec fs) + unat c * 4 div 512)) (unat c * 4 mod 512) AND 0x0FFFFFFF"

lemma vol_ok_sizes:
  assumes "vol_ok fs cap"
  shows "unat (fat_start_sec fs) + unat (fatsz fs) \<le> unat (data_start_sec fs)" "unat (data_start_sec fs) \<le> unat (totsec fs)"
    "unat (totsec fs) < 2 ^ 32"
proof -
  have "0 < unat (nfats fs)" "unat (fat_start_sec fs) + unat (nfats fs) * unat (fatsz fs) \<le> unat (data_start_sec fs)"
    using assms by (auto simp: vol_ok_def)
  moreover from this(1) have "unat (fatsz fs) \<le> unat (nfats fs) * unat (fatsz fs)" by simp
  ultimately show "unat (fat_start_sec fs) + unat (fatsz fs) \<le> unat (data_start_sec fs)" by linarith
  show "unat (data_start_sec fs) \<le> unat (totsec fs)" using assms by (simp add: vol_ok_def)
  show "unat (totsec fs) < 2 ^ 32" by (rule u32_small)
qed

lemma fat_pos_ok:
  assumes "vol_ok fs cap" "in_vol fs c"
  shows "\<exists>s. fat_pos fs c = Some (s, unat c * 4 mod 512) \<and> unat s = unat (fat_start_sec fs) + unat c * 4 div 512
    \<and> unat c * 4 div 512 < unat (fatsz fs)"
proof -
  have c: "unat c < unat (data_clusters fs) + 2" "unat (data_clusters fs) + 2 \<le> 0x0FFFFFF0"
    "(unat (data_clusters fs) + 2) * 4 \<le> unat (fatsz fs) * 512" "bps fs = 512"
    using assms by (auto simp: vol_ok_def in_vol_def)
  have "unat c * 4 < 2 ^ 32" using c by simp
  then have m: "checked_mul c 4 = Some (c * 4)" "unat (c * 4) = unat c * 4"
    by (simp_all add: checked_mul_def unat_word_ariths)
  have q: "unat (c * 4 div 512) = unat c * 4 div 512" "unat (c * 4 mod 512) = unat c * 4 mod 512"
    using m(2) by (simp_all add: unat_div unat_mod)
  have lt: "unat c * 4 div 512 < unat (fatsz fs)" using c(1,3) by (simp add: div_less_iff_less_mult)
  have "unat (fat_start_sec fs) + unat c * 4 div 512 < 2 ^ 32" using lt vol_ok_sizes [OF assms(1)] by linarith
  then have "checked_add (fat_start_sec fs) (c * 4 div 512) = Some (fat_start_sec fs + c * 4 div 512)"
    "unat (fat_start_sec fs + c * 4 div 512) = unat (fat_start_sec fs) + unat c * 4 div 512"
    using q(1) by (simp_all add: checked_add_def unat_word_ariths)
  then show ?thesis using m(1) q(2) c(4) lt by (simp add: fat_pos_def assert_that_def)
qed

lemma off_room: "n * 4 mod 512 + 3 < (512 :: nat)"
proof -
  have "n * 4 mod 512 = 4 * (n mod 128)" using mult_mod_right [of 4 n 128] by (simp add: mult.commute)
  moreover have "n mod 128 < 128" by simp
  ultimately show ?thesis by linarith
qed

lemma fat_entry_read_ok:
  assumes "blk_ok ops img cap" "vol_ok fs cap" "in_vol fs c"
  shows "fat_entry_read ops fs d c = Some (Inr (fat img fs d c))"
proof -
  obtain s where s: "fat_pos fs c = Some (s, unat c * 4 mod 512)" "unat s = unat (fat_start_sec fs) + unat c * 4 div 512"
    "unat c * 4 div 512 < unat (fatsz fs)" using fat_pos_ok [OF assms(2,3)] by blast
  have "unat s < unat (totsec fs)" using s(2,3) vol_ok_sizes [OF assms(2)] by linarith
  from read_sector_ok [OF assms(1,2) this] s off_room [of "unat c"] show ?thesis
    by (simp add: fat_entry_read_def fat_def assert_that_def SEC_def)
qed

lemma rd32_patch_same:
  "length bs = 512 \<Longrightarrow> off + 3 < 512 \<Longrightarrow> rd32 (take off bs @ le32 v @ drop (off + 4) bs) off = v"
  using rd32_le32 [of "take off bs" v "drop (off + 4) bs"] by simp

lemma rd32_patch_other:
  assumes "length bs = 512" "off + 3 < 512" "o2 + 3 < 512" "off + 3 < o2 \<or> o2 + 3 < off"
  shows "rd32 (take off bs @ le32 v @ drop (off + 4) bs) o2 = rd32 bs o2"
proof -
  have "(take off bs @ le32 v @ drop (off + 4) bs) ! i = bs ! i" if "i < 512" "i < off \<or> off + 3 < i" for i
    using that assms(1,2) by (auto simp: nth_append)
  then show ?thesis using assms(3,4) by (auto simp: rd32_def)
qed

lemma fat_copies_ok:
  fixes s0 :: u32
  assumes "blk_ok ops img cap" "vol_ok fs cap" "off + 3 < 512" "distinct fl" "0 < unat (fatsz fs)"
    "\<forall>f \<in> set fl. f < 256 \<and> unat s0 + f * unat (fatsz fs) < unat (totsec fs)"
  shows "\<exists>d'. fat_copies ops fs s0 off val fl d = Some (Inr (), d')
    \<and> sec img fs d' = (\<lambda>t. if \<exists>f \<in> set fl. t = unat s0 + f * unat (fatsz fs)
        then take off (sec img fs d t) @ le32 (val AND 0x0FFFFFFF) @ drop (off + 4) (sec img fs d t) else sec img fs d t)"
  using assms(4,6)
proof (induction fl arbitrary: d)
  case (Cons f fl)
  let ?z = "unat (fatsz fs)" and ?t = "unat s0 + f * unat (fatsz fs)"
  have f: "f < 256" "?t < unat (totsec fs)" using Cons.prems(2) by auto
  then have lt: "?t < 2 ^ 32" using u32_small [of "totsec fs"] by linarith
  have uf: "unat (of_nat f :: u32) = f" using f(1) by (intro u32_of_nat) simp
  have m: "checked_mul (of_nat f) (fatsz fs) = Some (of_nat f * fatsz fs)" "unat (of_nat f * fatsz fs) = f * ?z"
    using lt uf by (simp_all add: checked_mul_def unat_word_ariths)
  have a: "checked_add s0 (of_nat f * fatsz fs) = Some (s0 + of_nat f * fatsz fs)" "unat (s0 + of_nat f * fatsz fs) = ?t"
    using lt m(2) by (simp_all add: checked_add_def unat_word_ariths)
  let ?new = "take off (sec img fs d ?t) @ le32 (val AND 0x0FFFFFFF) @ drop (off + 4) (sec img fs d ?t)"
  have "unat (s0 + of_nat f * fatsz fs) < unat (totsec fs)" "length ?new = 512" using a(2) f(2) assms(3) by simp_all
  then obtain d1 where d1: "write_sector ops fs (s0 + of_nat f * fatsz fs) ?new d = Some (Inr (), d1)"
    "sec img fs d1 = (sec img fs d)(?t := ?new)"
    using write_sector_ok [OF assms(1,2), of "s0 + of_nat f * fatsz fs" ?new d] a(2) by auto
  have rd: "read_sector ops fs d (s0 + of_nat f * fatsz fs) = Some (Inr (sec img fs d ?t))"
    using read_sector_ok [OF assms(1,2), of "s0 + of_nat f * fatsz fs" d] a(2) f(2) by simp
  obtain d' where d': "fat_copies ops fs s0 off val fl d1 = Some (Inr (), d')"
    "sec img fs d' = (\<lambda>t. if \<exists>f \<in> set fl. t = unat s0 + f * ?z
        then take off (sec img fs d1 t) @ le32 (val AND 0x0FFFFFFF) @ drop (off + 4) (sec img fs d1 t) else sec img fs d1 t)"
    using Cons.IH [of d1] Cons.prems by auto
  have "fat_copies ops fs s0 off val (f # fl) d = Some (Inr (), d')"
    using m(1) a(1) rd d1(1) d'(1) assms(3) by (simp add: assert_that_def SEC_def)
  moreover have "\<not> (\<exists>g \<in> set fl. ?t = unat s0 + g * ?z)" using Cons.prems(1) assms(5) by auto
  ultimately show ?case using d'(2) d1(2) by (intro exI [of _ d']) (auto simp: fun_eq_iff)
qed (auto)

text \<open>Writing an entry changes that entry and no sector of the data area.\<close>

lemma fat_entry_write_ok:
  assumes "blk_ok ops img cap" "vol_ok fs cap" "in_vol fs c"
  shows "\<exists>d'. fat_entry_write ops fs c v d = Some (Inr (), d')
    \<and> (\<forall>x. in_vol fs x \<longrightarrow> fat img fs d' x = (if x = c then v AND 0x0FFFFFFF else fat img fs d x))
    \<and> (\<forall>t \<ge> unat (data_start_sec fs). sec img fs d' t = sec img fs d t)"
proof -
  obtain s where s: "fat_pos fs c = Some (s, unat c * 4 mod 512)" "unat s = unat (fat_start_sec fs) + unat c * 4 div 512"
    "unat c * 4 div 512 < unat (fatsz fs)" using fat_pos_ok [OF assms(2,3)] by blast
  let ?z = "unat (fatsz fs)" and ?o = "unat c * 4 mod 512" and ?n = "unat (nfats fs)"
  have tot: "unat (fat_start_sec fs) + ?n * ?z \<le> unat (data_start_sec fs)" "unat (data_start_sec fs) \<le> unat (totsec fs)"
    "0 < ?n" using assms(2) by (auto simp: vol_ok_def)
  have inside: "unat s + f * ?z < unat (data_start_sec fs)" if "f < ?n" for f
  proof -
    have "Suc f * ?z \<le> ?n * ?z" using that by (intro mult_le_mono1) simp
    then show ?thesis using s(2,3) tot(1) by simp
  qed
  have "?n < 2 ^ LENGTH(8)" by (rule unsigned_less)
  moreover have "unat s + f * ?z < unat (totsec fs)" if "f < ?n" for f using inside [OF that] tot(2) by linarith
  ultimately have fl: "\<forall>f \<in> set [0..<?n]. f < 256 \<and> unat s + f * ?z < unat (totsec fs)" by auto
  have "0 < ?z" using s(3) by simp
  then obtain d' where d': "fat_copies ops fs s ?o v [0..<?n] d = Some (Inr (), d')"
    "sec img fs d' = (\<lambda>t. if \<exists>f \<in> set [0..<?n]. t = unat s + f * ?z
        then take ?o (sec img fs d t) @ le32 (v AND 0x0FFFFFFF) @ drop (?o + 4) (sec img fs d t) else sec img fs d t)"
    using fat_copies_ok [OF assms(1,2) off_room [of "unat c"] distinct_upt _ fl, of v d] by metis
  have data: "sec img fs d' t = sec img fs d t" if "t \<ge> unat (data_start_sec fs)" for t
  proof -
    have "\<not> (\<exists>f \<in> set [0..<?n]. t = unat s + f * ?z)" using inside that by fastforce
    then show ?thesis by (simp add: d'(2))
  qed
  have "fat img fs d' x = (if x = c then v AND 0x0FFFFFFF else fat img fs d x)" if x: "in_vol fs x" for x
  proof -
    let ?t = "unat (fat_start_sec fs) + unat x * 4 div 512"
    obtain xs where xs: "unat x * 4 div 512 < ?z" using fat_pos_ok [OF assms(2) x] by blast
    have hit: "(\<exists>f \<in> set [0..<?n]. ?t = unat s + f * ?z) \<longleftrightarrow> ?t = unat s"
    proof
      assume "\<exists>f \<in> set [0..<?n]. ?t = unat s + f * ?z"
      then obtain f where f: "?t = unat s + f * ?z" by blast
      have "f = 0"
      proof (rule ccontr)
        assume "f \<noteq> 0"
        then have "?z \<le> f * ?z" by simp
        with f s(2) xs show False by linarith
      qed
      with f show "?t = unat s" by simp
    qed (use tot(3) in \<open>auto intro!: bexI [of _ 0]\<close>)
    have patched: "sec img fs d' ?t = (if ?t = unat s
        then take ?o (sec img fs d ?t) @ le32 (v AND 0x0FFFFFFF) @ drop (?o + 4) (sec img fs d ?t) else sec img fs d ?t)"
      unfolding d'(2) hit ..
    show ?thesis
    proof (cases "?t = unat s")
      case True
      then have q: "unat x * 4 div 512 = unat c * 4 div 512" using s(2) by simp
      show ?thesis
      proof (cases "x = c")
        case True
        have "rd32 (sec img fs d' ?t) ?o = v AND 0x0FFFFFFF"
          unfolding patched if_P [OF \<open>?t = unat s\<close>] by (rule rd32_patch_same [OF length_sec off_room])
        then show ?thesis unfolding fat_def True by (simp add: and.assoc)
      next
        case False
        then have "unat x \<noteq> unat c" by (metis word_unat_eq_iff)
        then have "unat x * 4 mod 512 \<noteq> ?o" using q by (metis div_mult_mod_eq mult_cancel2 zero_neq_numeral)
        moreover have "unat x * 4 mod 512 = 4 * (unat x mod 128)" "?o = 4 * (unat c mod 128)"
          using mult_mod_right [of 4 "unat x" 128] mult_mod_right [of 4 "unat c" 128] by (simp_all add: mult.commute)
        moreover have "4 * a \<noteq> 4 * b \<Longrightarrow> 4 * b + 3 < 4 * a \<or> 4 * a + 3 < 4 * b" for a b :: nat by presburger
        ultimately have "?o + 3 < unat x * 4 mod 512 \<or> unat x * 4 mod 512 + 3 < ?o" by (simp only:)
        then have "rd32 (sec img fs d' ?t) (unat x * 4 mod 512) = rd32 (sec img fs d ?t) (unat x * 4 mod 512)"
          unfolding patched if_P [OF True] by (rule rd32_patch_other [OF length_sec off_room off_room])
        then show ?thesis using False by (simp only: fat_def if_False)
      qed
    next
      case False
      then have "x \<noteq> c" using s(2) by auto
      with False patched show ?thesis by (simp only: fat_def if_False)
    qed
  qed
  with d'(1) data s(1) show ?thesis by (auto simp: fat_entry_write_def)
qed

text \<open>\<open>d'\<close> is \<open>d\<close> with entry \<open>c\<close> of the table set to \<open>v\<close>.\<close>

definition entry_set :: "('b \<Rightarrow> nat \<Rightarrow> u8) \<Rightarrow> fat32 \<Rightarrow> u32 \<Rightarrow> u32 \<Rightarrow> 'b \<Rightarrow> 'b \<Rightarrow> bool" where
  "entry_set img fs c v d d' \<longleftrightarrow> (\<forall>x. in_vol fs x \<longrightarrow> fat img fs d' x = (if x = c then v else fat img fs d x))
     \<and> (\<forall>t \<ge> unat (data_start_sec fs). sec img fs d' t = sec img fs d t)"

lemma fat_entry_write_set:
  assumes "blk_ok ops img cap" "vol_ok fs cap" "in_vol fs c" "v AND 0x0FFFFFFF = v"
  shows "\<exists>d'. fat_entry_write ops fs c v d = Some (Inr (), d') \<and> entry_set img fs c v d d'"
  using fat_entry_write_ok [OF assms(1-3), of v d] unfolding entry_set_def assms(4) .

lemma small_mask: "unat (v :: u32) < 2 ^ 28 \<Longrightarrow> v AND 0x0FFFFFFF = v"
proof -
  assume "unat v < 2 ^ 28"
  then have "unat (take_bit 28 v) = unat v" by (simp only: unsigned_take_bit_eq take_bit_nat_eq_self)
  then have "take_bit 28 v = v" by (simp only: word_unat_eq_iff)
  then show ?thesis by (simp add: take_bit_eq_mask mask_eq_exp_minus_1)
qed

lemma in_vol_mask: "vol_ok fs cap \<Longrightarrow> in_vol fs c \<Longrightarrow> c AND 0x0FFFFFFF = c"
  by (intro small_mask) (simp add: vol_ok_def in_vol_def)

lemma in_vol_link:
  assumes "vol_ok fs cap" "in_vol fs c"
  shows "\<not> is_eoc c" "\<not> c < 2" "c \<noteq> 0"
proof -
  have "unat c < 0x0FFFFFF8" using assms by (auto simp: vol_ok_def in_vol_def)
  then show "\<not> is_eoc c" by (simp add: is_eoc_def word_le_nat_alt)
qed (use assms(2) in \<open>auto simp: in_vol_def\<close>)

lemma alloc_scan_ok:
  assumes "blk_ok ops img cap" "vol_ok fs cap" "2 \<le> c" "unat c + n = unat (data_clusters fs) + 2"
  shows "(\<exists>x d'. in_vol fs x \<and> c \<le> x \<and> fat img fs d x = 0 \<and> alloc_scan ops fs n c d = Some (Inr (Some x), d')
        \<and> (\<forall>y. c \<le> y \<and> y < x \<longrightarrow> fat img fs d y \<noteq> 0) \<and> entry_set img fs x 0x0FFFFFF7 d d')
    \<or> ((\<forall>x. in_vol fs x \<and> c \<le> x \<longrightarrow> fat img fs d x \<noteq> 0) \<and> alloc_scan ops fs n c d = Some (Inr None, d))"
  using assms(3,4)
proof (induction n arbitrary: c)
  case 0
  then show ?case by (auto simp: in_vol_def word_le_nat_alt)
next
  case (Suc n)
  have c: "in_vol fs c" using Suc.prems by (simp add: in_vol_def)
  note rd = fat_entry_read_ok [OF assms(1,2) c, of d]
  show ?case
  proof (cases "fat img fs d c = 0")
    case True
    obtain d' where "fat_entry_write ops fs c 0x0FFFFFF7 d = Some (Inr (), d')" "entry_set img fs c 0x0FFFFFF7 d d'"
      using fat_entry_write_set [OF assms(1,2) c, of "0x0FFFFFF7" d] by auto
    with True rd c show ?thesis by (intro disjI1 exI [of _ c] exI [of _ d']) auto
  next
    case False
    have small: "unat c + 1 < 2 ^ 32" using Suc.prems(2) assms(2) by (simp add: vol_ok_def)
    then have c1: "unat (c + 1) = unat c + 1" by (simp add: unat_word_ariths)
    have le: "c + 1 \<le> x \<longleftrightarrow> c \<le> x \<and> c \<noteq> x" for x
      unfolding word_le_nat_alt c1 by (metis Suc_eq_plus1 Suc_leI le_neq_implies_less not_less_eq_eq word_unat_eq_iff le_trans lessI less_imp_le_nat)
    have "2 \<le> c + 1" using Suc.prems(1) c1 by (simp add: word_le_nat_alt)
    then have IH: "(\<exists>x d'. in_vol fs x \<and> c + 1 \<le> x \<and> fat img fs d x = 0 \<and> alloc_scan ops fs n (c + 1) d = Some (Inr (Some x), d')
        \<and> (\<forall>y. c + 1 \<le> y \<and> y < x \<longrightarrow> fat img fs d y \<noteq> 0) \<and> entry_set img fs x 0x0FFFFFF7 d d')
      \<or> ((\<forall>x. in_vol fs x \<and> c + 1 \<le> x \<longrightarrow> fat img fs d x \<noteq> 0) \<and> alloc_scan ops fs n (c + 1) d = Some (Inr None, d))"
      using Suc.IH [of "c + 1"] Suc.prems(2) c1 by simp
    have step: "alloc_scan ops fs (Suc n) c d = alloc_scan ops fs n (c + 1) d" using False rd by simp
    show ?thesis unfolding step using IH False unfolding le by metis
  qed
qed

lemma alloc_or_full_ok:
  assumes "blk_ok ops img cap" "vol_ok fs cap"
  shows "(\<exists>x d'. in_vol fs x \<and> fat img fs d x = 0 \<and> (\<forall>y. in_vol fs y \<and> y < x \<longrightarrow> fat img fs d y \<noteq> 0)
        \<and> alloc_or_full ops fs d = Some (Inr x, d') \<and> entry_set img fs x 0x0FFFFFF7 d d')
    \<or> ((\<forall>x. in_vol fs x \<longrightarrow> fat img fs d x \<noteq> 0) \<and> alloc_or_full ops fs d = Some (Inl Full, d))"
proof -
  have "unat (data_clusters fs) + 2 < 2 ^ 32" using assms(2) by (simp add: vol_ok_def)
  then have a: "checked_add (data_clusters fs) 2 = Some (data_clusters fs + 2)" "unat (data_clusters fs + 2) = unat (data_clusters fs) + 2"
    by (simp_all add: checked_add_def unat_word_ariths)
  then have e: "alloc_free_cluster ops fs d = alloc_scan ops fs (unat (data_clusters fs)) 2 d"
    by (simp add: alloc_free_cluster_def)
  show ?thesis
    using alloc_scan_ok [OF assms, of 2 "unat (data_clusters fs)" d]
    by (auto simp: alloc_or_full_def e in_vol_def)
qed

end
