(* ===== verification/Fat32_Chain.thy ===== *)
theory Fat32_Chain
  imports Fat32
begin

text \<open>
  Cluster chains on a well-formed volume: what the loops of \<open>Fat32\<close> do to the allocation table and to the
  data area, and that they end. The contents of a cluster are its sectors one behind the other.
\<close>

section \<open>Clusters\<close>

definition csec :: "fat32 \<Rightarrow> u32 \<Rightarrow> nat" where
  "csec fs c = unat (data_start_sec fs) + (unat c - 2) * unat (spc fs)"

definition secs :: "('b \<Rightarrow> nat \<Rightarrow> u8) \<Rightarrow> fat32 \<Rightarrow> 'b \<Rightarrow> nat \<Rightarrow> nat list \<Rightarrow> u8 list" where
  "secs img fs d f ss = concat (map (\<lambda>s. sec img fs d (f + s)) ss)"

definition clus :: "('b \<Rightarrow> nat \<Rightarrow> u8) \<Rightarrow> fat32 \<Rightarrow> 'b \<Rightarrow> u32 \<Rightarrow> u8 list" where
  "clus img fs d c = secs img fs d (csec fs c) [0..<unat (spc fs)]"

text \<open>Bytes in a cluster.\<close>

definition cbytes :: "fat32 \<Rightarrow> nat" where
  "cbytes fs = unat (spc fs) * 512"

lemma secs_simps [simp]:
  "secs img fs d f [] = []" "secs img fs d f (s # ss) = sec img fs d (f + s) @ secs img fs d f ss"
  by (simp_all add: secs_def)

lemma length_secs [simp]: "length (secs img fs d f ss) = 512 * length ss"
  by (induction ss) auto

lemma length_clus [simp]: "length (clus img fs d c) = cbytes fs"
  by (simp add: clus_def cbytes_def)

lemma secs_cong: "(\<And>s. s \<in> set ss \<Longrightarrow> sec img fs d' (f + s) = sec img fs d (f + s)) \<Longrightarrow> secs img fs d' f ss = secs img fs d f ss"
  unfolding secs_def by (rule arg_cong [where f = concat], rule map_cong) auto

lemma csec_fits:
  assumes "vol_ok fs cap" "in_vol fs c"
  shows "csec fs c + unat (spc fs) \<le> unat (totsec fs)" "unat (data_start_sec fs) \<le> csec fs c"
proof -
  have "Suc (unat c - 2) \<le> unat (data_clusters fs)" using assms(2) by (auto simp: in_vol_def word_le_nat_alt)
  then have "Suc (unat c - 2) * unat (spc fs) \<le> unat (data_clusters fs) * unat (spc fs)" by (rule mult_le_mono1)
  then show "csec fs c + unat (spc fs) \<le> unat (totsec fs)" using assms(1) by (simp add: csec_def vol_ok_def)
qed (simp add: csec_def)

lemma csec_disjoint:
  assumes "in_vol fs c" "in_vol fs x" "x \<noteq> c"
  shows "csec fs x + unat (spc fs) \<le> csec fs c \<or> csec fs c + unat (spc fs) \<le> csec fs x"
proof -
  have "unat x \<noteq> unat c" "2 \<le> unat x" "2 \<le> unat c" using assms by (auto simp: in_vol_def word_le_nat_alt word_unat_eq_iff)
  then consider "Suc (unat x - 2) \<le> unat c - 2" | "Suc (unat c - 2) \<le> unat x - 2" by linarith
  then show ?thesis
  proof cases
    case 1
    from mult_le_mono1 [OF this, of "unat (spc fs)"] show ?thesis by (simp add: csec_def)
  next
    case 2
    from mult_le_mono1 [OF this, of "unat (spc fs)"] show ?thesis by (simp add: csec_def)
  qed
qed

lemma clus_to_first_sector_ok:
  assumes "vol_ok fs cap" "in_vol fs c"
  shows "\<exists>f. clus_to_first_sector fs c = Some f \<and> unat f = csec fs c"
proof -
  let ?k = "unat c - 2"
  have two: "(2 :: u32) \<le> c" using assms(2) by (simp add: in_vol_def)
  have s: "checked_sub c 2 = Some (c - 2)" "unat (c - 2) = ?k"
    using two by (simp_all add: checked_sub_def unat_sub)
  have u: "unat (ucast (spc fs) :: u32) = unat (spc fs)" by (rule unat_ucast_up) simp
  have "csec fs c + unat (spc fs) \<le> unat (totsec fs)" by (rule csec_fits [OF assms])
  then have lt: "unat (data_start_sec fs) + ?k * unat (spc fs) < 2 ^ 32"
    using u32_small [of "totsec fs"] by (simp add: csec_def)
  then have m: "checked_mul (c - 2) (ucast (spc fs)) = Some ((c - 2) * ucast (spc fs))"
    "unat ((c - 2) * ucast (spc fs)) = ?k * unat (spc fs)"
    using s(2) u by (simp_all add: checked_mul_def unat_word_ariths)
  have "checked_add (data_start_sec fs) ((c - 2) * ucast (spc fs)) = Some (data_start_sec fs + (c - 2) * ucast (spc fs))"
    "unat (data_start_sec fs + (c - 2) * ucast (spc fs)) = csec fs c"
    using lt m(2) by (simp_all add: checked_add_def unat_word_ariths csec_def)
  then show ?thesis using s(1) m(1) by (simp add: clus_to_first_sector_def)
qed

lemma sector_no:
  fixes f :: u32
  assumes "unat f + s < unat (totsec fs)"
  shows "checked_add f (of_nat s) = Some (f + of_nat s)" "unat (f + of_nat s) = unat f + s"
proof -
  have lt: "unat f + s < 2 ^ 32" using assms u32_small [of "totsec fs"] by linarith
  then have "unat (of_nat s :: u32) = s" by (intro u32_of_nat) simp
  then show "checked_add f (of_nat s) = Some (f + of_nat s)" "unat (f + of_nat s) = unat f + s"
    using lt by (simp_all add: checked_add_def unat_word_ariths)
qed

lemma read_secs_ok:
  fixes f :: u32
  assumes "blk_ok ops img cap" "vol_ok fs cap" "\<forall>s \<in> set ss. unat f + s < unat (totsec fs)"
  shows "read_secs ops fs d f ss left = Some (Inr (take left (secs img fs d (unat f) ss), left - 512 * length ss))"
  using assms(3)
proof (induction ss arbitrary: left)
  case (Cons s ss)
  have s: "unat f + s < unat (totsec fs)" using Cons.prems by simp
  note n = sector_no [OF s]
  have rd: "read_sector ops fs d (f + of_nat s) = Some (Inr (sec img fs d (unat f + s)))"
    using read_sector_ok [OF assms(1,2), of "f + of_nat s" d] n(2) s by simp
  show ?case
  proof (cases "left < 512")
    case True
    then show ?thesis using n(1) rd by (simp add: SEC_def)
  next
    case False
    then have "read_secs ops fs d f ss (left - 512)
        = Some (Inr (take (left - 512) (secs img fs d (unat f) ss), left - 512 - 512 * length ss))"
      using Cons by simp
    with False n(1) rd show ?thesis by (simp add: SEC_def min_def)
  qed
qed simp

lemma write_secs_ok:
  fixes f :: u32
  assumes "blk_ok ops img cap" "vol_ok fs cap"
    "k \<le> n" "unat f + n \<le> unat (totsec fs)" "left \<le> length data" "left \<le> 512 * (n - k)"
  shows "\<exists>d'. write_secs ops fs f [k..<n] left data d = Some (Inr (drop left data), d')
    \<and> secs img fs d' (unat f) [k..<n] = take left data @ replicate (512 * (n - k) - left) 0
    \<and> (\<forall>t. t < unat f + k \<or> unat f + n \<le> t \<longrightarrow> sec img fs d' t = sec img fs d t)"
  using assms(3-6)
proof (induction "n - k" arbitrary: k left data d)
  case 0
  then show ?case by simp
next
  case (Suc m)
  have up: "[k..<n] = k # [Suc k..<n]" using Suc.hyps(2) by (simp add: upt_conv_Cons)
  let ?n = "min 512 left"
  have s: "unat f + k < unat (totsec fs)" using Suc.hyps(2) Suc.prems(2) by linarith
  note no = sector_no [OF s]
  let ?piece = "take ?n data @ replicate (512 - ?n) 0"
  have "length ?piece = 512" using Suc.prems(3) by auto
  then obtain d1 where d1: "write_sector ops fs (f + of_nat k) ?piece d = Some (Inr (), d1)"
    "sec img fs d1 = (sec img fs d)(unat f + k := ?piece)"
    using write_sector_ok [OF assms(1,2), of "f + of_nat k" ?piece d] no(2) s by auto
  have left: "left - ?n \<le> length (drop ?n data)" "left - ?n \<le> 512 * (n - Suc k)"
    using Suc.hyps(2) Suc.prems by (auto simp: min_def)
  have m: "m = n - Suc k" and sk: "Suc k \<le> n" using Suc.hyps(2) by simp_all
  obtain d' where d': "write_secs ops fs f [Suc k..<n] (left - ?n) (drop ?n data) d1 = Some (Inr (drop (left - ?n) (drop ?n data)), d')"
    "secs img fs d' (unat f) [Suc k..<n] = take (left - ?n) (drop ?n data) @ replicate (512 * (n - Suc k) - (left - ?n)) 0"
    "\<forall>t. t < unat f + Suc k \<or> unat f + n \<le> t \<longrightarrow> sec img fs d' t = sec img fs d1 t"
    using Suc.hyps(1) [OF m sk Suc.prems(2) left, of d1] by metis
  have "write_secs ops fs f [k..<n] left data d = Some (Inr (drop left data), d')"
    using no(1) d1(1) d'(1) unfolding up by (simp add: SEC_def min.commute)
  moreover have "secs img fs d' (unat f) [k..<n] = ?piece @ secs img fs d' (unat f) [Suc k..<n]"
    unfolding up using d'(3) d1(2) by simp
  moreover have "?piece @ take (left - ?n) (drop ?n data) @ replicate (512 * (n - Suc k) - (left - ?n)) 0
      = take left data @ replicate (512 * (n - k) - left) 0"
  proof (cases "left \<le> 512")
    case True
    have "512 - left + 512 * (n - Suc k) = 512 * (n - k) - left" using True Suc.hyps(2) by auto
    then show ?thesis using True by (simp add: replicate_add [symmetric] min_def)
  next
    case False
    have "take left data = take 512 data @ take (left - 512) (drop 512 data)"
      using False by (metis le_add_diff_inverse less_imp_le_nat not_less take_add)
    moreover have "512 * (n - Suc k) - (left - 512) = 512 * (n - k) - left" using False Suc.hyps(2) by auto
    ultimately show ?thesis using False by simp
  qed
  moreover have "\<forall>t. t < unat f + k \<or> unat f + n \<le> t \<longrightarrow> sec img fs d' t = sec img fs d t"
    using d'(3) d1(2) Suc.hyps(2) by auto
  ultimately show ?case using d'(2) by (metis append.assoc)
qed

section \<open>The volume as two maps\<close>

text \<open>
  What a volume is to its callers: the table and the contents of the clusters, both as maps on the clusters
  that exist. The operations on entries and clusters are updates of these maps.
\<close>

definition tab :: "('b \<Rightarrow> nat \<Rightarrow> u8) \<Rightarrow> fat32 \<Rightarrow> 'b \<Rightarrow> u32 \<rightharpoonup> u32" where
  "tab img fs d = (\<lambda>x. if in_vol fs x then Some (fat img fs d x) else None)"

definition con :: "('b \<Rightarrow> nat \<Rightarrow> u8) \<Rightarrow> fat32 \<Rightarrow> 'b \<Rightarrow> u32 \<rightharpoonup> u8 list" where
  "con img fs d = (\<lambda>x. if in_vol fs x then Some (clus img fs d x) else None)"

definition EOC :: u32 where "EOC = 0x0FFFFFFF"

lemma eoc_facts [simp]: "is_eoc EOC" "EOC \<noteq> 0" "\<not> EOC < 2"
  by (simp_all add: EOC_def is_eoc_def)

lemma tab_SomeD: "tab img fs d c = Some v \<Longrightarrow> in_vol fs c \<and> fat img fs d c = v"
  by (auto simp: tab_def split: if_splits)

lemma tab_in_vol: "in_vol fs c \<Longrightarrow> tab img fs d c = Some (fat img fs d c)"
  by (simp add: tab_def)

lemma dom_tab: "dom (tab img fs d) = {c. in_vol fs c}"
  by (auto simp: tab_def split: if_splits)

lemma con_in_vol: "in_vol fs c \<Longrightarrow> con img fs d c = Some (clus img fs d c)"
  by (simp add: con_def)

lemma fat_read:
  assumes "blk_ok ops img cap" "vol_ok fs cap" "tab img fs d c = Some v"
  shows "fat_entry_read ops fs d c = Some (Inr v)"
  using fat_entry_read_ok [OF assms(1,2)] tab_SomeD [OF assms(3)] by blast

lemma fat_write:
  assumes "blk_ok ops img cap" "vol_ok fs cap" "in_vol fs c" "v AND 0x0FFFFFFF = v"
  shows "\<exists>d'. fat_entry_write ops fs c v d = Some (Inr (), d') \<and> tab img fs d' = (tab img fs d)(c \<mapsto> v) \<and> con img fs d' = con img fs d"
proof -
  obtain d' where d': "fat_entry_write ops fs c v d = Some (Inr (), d')" "entry_set img fs c v d d'"
    using fat_entry_write_set [OF assms] by blast
  have "clus img fs d' x = clus img fs d x" if "in_vol fs x" for x
    unfolding clus_def using d'(2) csec_fits(2) [OF assms(2) that] by (intro secs_cong) (auto simp: entry_set_def)
  then have "con img fs d' = con img fs d" by (auto simp: con_def)
  moreover have "tab img fs d' = (tab img fs d)(c \<mapsto> v)"
    using d'(2) assms(3) by (auto simp: tab_def entry_set_def fun_eq_iff)
  ultimately show ?thesis using d'(1) by blast
qed

text \<open>Allocation takes the least free cluster and marks it; a volume without one is full.\<close>

definition free_clusters :: "(u32 \<rightharpoonup> u32) \<Rightarrow> u32 set" where
  "free_clusters T = {c. T c = Some 0}"

lemma alloc_spec:
  assumes "blk_ok ops img cap" "vol_ok fs cap"
  shows "if free_clusters (tab img fs d) = {} then alloc_or_full ops fs d = Some (Inl Full, d)
    else \<exists>d'. let x = Min (free_clusters (tab img fs d)) in alloc_or_full ops fs d = Some (Inr x, d')
      \<and> tab img fs d' = (tab img fs d)(x \<mapsto> 0x0FFFFFF7) \<and> con img fs d' = con img fs d"
proof -
  consider x d' where "in_vol fs x" "fat img fs d x = 0" "\<forall>y. in_vol fs y \<and> y < x \<longrightarrow> fat img fs d y \<noteq> 0"
      "alloc_or_full ops fs d = Some (Inr x, d')" "entry_set img fs x 0x0FFFFFF7 d d'"
    | "\<forall>x. in_vol fs x \<longrightarrow> fat img fs d x \<noteq> 0" "alloc_or_full ops fs d = Some (Inl Full, d)"
    using alloc_or_full_ok [OF assms, of d] by metis
  then show ?thesis
  proof cases
    case 1
    have mem: "x \<in> free_clusters (tab img fs d)" using 1(1,2) by (simp add: free_clusters_def tab_def)
    have "x \<le> y" if "y \<in> free_clusters (tab img fs d)" for y
    proof -
      have "in_vol fs y" "fat img fs d y = 0" using that by (auto simp: free_clusters_def dest: tab_SomeD)
      then show ?thesis using 1(3) by (metis not_le)
    qed
    then have min: "Min (free_clusters (tab img fs d)) = x" using mem by (intro Min_eqI) auto
    have "clus img fs d' z = clus img fs d z" if "in_vol fs z" for z
      unfolding clus_def using 1(5) csec_fits(2) [OF assms(2) that] by (intro secs_cong) (auto simp: entry_set_def)
    then have "con img fs d' = con img fs d" by (auto simp: con_def)
    moreover have "tab img fs d' = (tab img fs d)(x \<mapsto> 0x0FFFFFF7)"
      using 1(1,5) by (auto simp: tab_def entry_set_def fun_eq_iff)
    ultimately show ?thesis using mem min 1(4) by (auto simp: Let_def)
  next
    case 2
    then have "free_clusters (tab img fs d) = {}" by (auto simp: free_clusters_def dest: tab_SomeD)
    then show ?thesis using 2 by simp
  qed
qed

text \<open>Writing one cluster replaces its contents and touches nothing else.\<close>

lemma fat_sec_before:
  assumes "vol_ok fs cap" "in_vol fs x"
  shows "unat (fat_start_sec fs) + unat x * 4 div 512 < unat (data_start_sec fs)"
  using fat_pos_ok [OF assms] vol_ok_sizes(1) [OF assms(1)] by auto

lemma write_cluster_ok:
  fixes f :: u32 and data :: "u8 list"
  assumes "blk_ok ops img cap" "vol_ok fs cap" "in_vol fs c" "unat f = csec fs c"
  defines "n \<equiv> min (cbytes fs) (length data)"
  shows "\<exists>d'. write_secs ops fs f [0..<unat (spc fs)] n data d = Some (Inr (drop n data), d')
    \<and> tab img fs d' = tab img fs d \<and> con img fs d' = (con img fs d)(c \<mapsto> take n data @ replicate (cbytes fs - n) 0)"
proof -
  have fit: "unat f + unat (spc fs) \<le> unat (totsec fs)" using csec_fits(1) [OF assms(2,3)] assms(4) by simp
  have n: "n \<le> length data" "n \<le> 512 * (unat (spc fs) - 0)" by (simp_all add: n_def cbytes_def mult.commute)
  obtain d' where d': "write_secs ops fs f [0..<unat (spc fs)] n data d = Some (Inr (drop n data), d')"
    "secs img fs d' (unat f) [0..<unat (spc fs)] = take n data @ replicate (512 * (unat (spc fs) - 0) - n) 0"
    "\<forall>t. t < unat f + 0 \<or> unat f + unat (spc fs) \<le> t \<longrightarrow> sec img fs d' t = sec img fs d t"
    using write_secs_ok [OF assms(1,2) le0 fit n, of d] by metis
  have "fat img fs d' x = fat img fs d x" if "in_vol fs x" for x
    using d'(3) fat_sec_before [OF assms(2) that] csec_fits(2) [OF assms(2,3)] assms(4) unfolding fat_def by simp
  moreover have "clus img fs d' c = take n data @ replicate (cbytes fs - n) 0"
    using d'(2) assms(4) by (simp add: clus_def cbytes_def mult.commute)
  moreover have "clus img fs d' x = clus img fs d x" if x: "in_vol fs x" "x \<noteq> c" for x
    unfolding clus_def
  proof (rule secs_cong)
    fix s assume "s \<in> set [0..<unat (spc fs)]"
    then have "csec fs x + s < unat f \<or> unat f + unat (spc fs) \<le> csec fs x + s"
      using csec_disjoint [OF assms(3) x] assms(4) by auto
    then show "sec img fs d' (csec fs x + s) = sec img fs d (csec fs x + s)" using d'(3) by auto
  qed
  ultimately show ?thesis using d'(1) assms(3) by (auto simp: tab_def con_def fun_eq_iff)
qed

section \<open>Chains\<close>

fun chain :: "(u32 \<rightharpoonup> u32) \<Rightarrow> u32 list \<Rightarrow> bool" where
  "chain T [] \<longleftrightarrow> False"
| "chain T [c] \<longleftrightarrow> (case T c of Some v \<Rightarrow> is_eoc v | None \<Rightarrow> False)"
| "chain T (c # e # cs) \<longleftrightarrow> T c = Some e \<and> chain T (e # cs)"

definition content :: "(u32 \<rightharpoonup> u8 list) \<Rightarrow> u32 list \<Rightarrow> u8 list" where
  "content C cs = concat (map (\<lambda>c. the (C c)) cs)"

lemma content_simps [simp]: "content C [] = []" "content C (c # cs) = the (C c) @ content C cs"
  by (simp_all add: content_def)

lemma content_cong: "(\<And>c. c \<in> set cs \<Longrightarrow> C' c = C c) \<Longrightarrow> content C' cs = content C cs"
  unfolding content_def by (rule arg_cong [where f = concat], rule map_cong) auto

lemma chain_cong: "(\<And>c. c \<in> set cs \<Longrightarrow> T' c = T c) \<Longrightarrow> chain T' cs = chain T cs"
  by (induction T cs rule: chain.induct) auto

lemma chain_dom: "chain T cs \<Longrightarrow> set cs \<subseteq> dom T"
  by (induction T cs rule: chain.induct) (auto split: option.splits)

lemma length_content:
  assumes "set cs \<subseteq> {c. in_vol fs c}"
  shows "length (content (con img fs d) cs) = cbytes fs * length cs"
  using assms by (induction cs) (auto simp: con_in_vol)

text \<open>Reading follows a chain to its end, or until it has enough.\<close>

lemma read_chain_ok:
  assumes "blk_ok ops img cap" "vol_ok fs cap" "chain (tab img fs d) (c # cs)"
  shows "read_chain ops fs d c left = Some (Inr (take left (content (con img fs d) (c # cs))))"
  using assms(3)
proof (induction cs arbitrary: c left)
  case Nil
  then obtain v where v: "tab img fs d c = Some v" "is_eoc v" by (auto split: option.splits)
  have c: "in_vol fs c" using v(1) by (auto dest: tab_SomeD)
  obtain f where f: "clus_to_first_sector fs c = Some f" "unat f = csec fs c"
    using clus_to_first_sector_ok [OF assms(2) c] by blast
  have "\<forall>s \<in> set [0..<unat (spc fs)]. unat f + s < unat (totsec fs)"
    using csec_fits(1) [OF assms(2) c] f(2) by auto
  from read_secs_ok [OF assms(1,2) this, of d left] f fat_read [OF assms(1,2) v(1)] v(2)
  show ?case by (subst read_chain.simps) (simp add: clus_def con_in_vol [OF c])
next
  case (Cons e cs)
  then have v: "tab img fs d c = Some e" "chain (tab img fs d) (e # cs)" by auto
  have c: "in_vol fs c" using v(1) by (auto dest: tab_SomeD)
  have "in_vol fs e" using chain_dom [OF v(2)] by (auto dest: tab_SomeD)
  note e = in_vol_link [OF assms(2) this]
  obtain f where f: "clus_to_first_sector fs c = Some f" "unat f = csec fs c"
    using clus_to_first_sector_ok [OF assms(2) c] by blast
  have "\<forall>s \<in> set [0..<unat (spc fs)]. unat f + s < unat (totsec fs)"
    using csec_fits(1) [OF assms(2) c] f(2) by auto
  then have "read_secs ops fs d f [0..<unat (spc fs)] left = Some (Inr (take left (clus img fs d c), left - cbytes fs))"
    using read_secs_ok [OF assms(1,2), of "[0..<unat (spc fs)]" f d left] f(2) by (simp add: clus_def cbytes_def mult.commute)
  with Cons.IH [OF v(2), of "left - cbytes fs"] f(1) fat_read [OF assms(1,2) v(1)] e
  show ?case by (subst read_chain.simps) (auto simp: con_in_vol [OF c])
qed

text \<open>Growing a chain at its end links the least free cluster behind it.\<close>

lemma free_clusters_in_vol: "x \<in> free_clusters (tab img fs d) \<Longrightarrow> in_vol fs x"
  by (auto simp: free_clusters_def dest: tab_SomeD)

lemma Min_free:
  "free_clusters (tab img fs d) \<noteq> {} \<Longrightarrow> Min (free_clusters (tab img fs d)) \<in> free_clusters (tab img fs d)"
  by (rule Min_in) auto

lemma extend_chain_ok:
  assumes "blk_ok ops img cap" "vol_ok fs cap" "tab img fs d cur = Some v" "endp v" "v \<noteq> 0"
  shows "if free_clusters (tab img fs d) = {} then extend_chain ops fs endp cur d = Some (Inl Full, d)
    else \<exists>d'. let x = Min (free_clusters (tab img fs d)) in extend_chain ops fs endp cur d = Some (Inr x, d')
      \<and> tab img fs d' = (tab img fs d)(cur \<mapsto> x, x \<mapsto> EOC) \<and> con img fs d' = con img fs d"
proof (cases "free_clusters (tab img fs d) = {}")
  case True
  then show ?thesis using alloc_spec [OF assms(1,2), of d] fat_read [OF assms(1-3)] assms(4) by (simp add: extend_chain_def)
next
  case False
  define x where "x = Min (free_clusters (tab img fs d))"
  have mem: "x \<in> free_clusters (tab img fs d)" unfolding x_def by (rule Min_free [OF False])
  note x = free_clusters_in_vol [OF mem]
  have cur: "in_vol fs cur" "x \<noteq> cur" using assms(3,5) mem by (auto simp: free_clusters_def dest: tab_SomeD)
  obtain d1 where d1: "alloc_or_full ops fs d = Some (Inr x, d1)" "tab img fs d1 = (tab img fs d)(x \<mapsto> 0x0FFFFFF7)"
    "con img fs d1 = con img fs d" using alloc_spec [OF assms(1,2), of d] False unfolding x_def Let_def by auto
  obtain d2 where d2: "fat_entry_write ops fs cur x d1 = Some (Inr (), d2)" "tab img fs d2 = (tab img fs d1)(cur \<mapsto> x)"
    "con img fs d2 = con img fs d1" using fat_write [OF assms(1,2) cur(1) in_vol_mask [OF assms(2) x]] by blast
  obtain d3 where d3: "fat_entry_write ops fs x 0x0FFFFFFF d2 = Some (Inr (), d3)" "tab img fs d3 = (tab img fs d2)(x \<mapsto> EOC)"
    "con img fs d3 = con img fs d2" using fat_write [OF assms(1,2) x, of EOC d2] by (auto simp: EOC_def)
  have "tab img fs d3 = (tab img fs d)(cur \<mapsto> x, x \<mapsto> EOC)" using d1(2) d2(2) d3(2) by (simp add: fun_eq_iff)
  moreover have "extend_chain ops fs endp cur d = Some (Inr x, d3)"
    using fat_read [OF assms(1-3)] assms(4) d1(1) d2(1) d3(1) by (simp add: extend_chain_def)
  moreover have "con img fs d3 = con img fs d" using d1(3) d2(3) d3(3) by simp
  ultimately show ?thesis unfolding if_not_P [OF False] Let_def x_def [symmetric] by blast
qed

text \<open>
  Writing fills as many clusters as the data needs. \<open>more_clusters\<close> counts those behind the first; when that many are
  not free the write fails with \<open>Full\<close>.
\<close>

definition more_clusters :: "fat32 \<Rightarrow> u8 list \<Rightarrow> nat" where
  "more_clusters fs data = (length data - 1) div cbytes fs"

definition written :: "('b \<Rightarrow> nat \<Rightarrow> u8) \<Rightarrow> fat32 \<Rightarrow> 'b \<Rightarrow> u32 \<Rightarrow> u8 list \<Rightarrow> u32 list \<Rightarrow> 'b \<Rightarrow> bool" where
  "written img fs d cur data cs d' \<longleftrightarrow> distinct (cur # cs) \<and> set cs \<subseteq> free_clusters (tab img fs d)
     \<and> length cs = more_clusters fs data \<and> chain (tab img fs d') (cur # cs)
     \<and> (\<forall>x. x \<notin> set (cur # cs) \<longrightarrow> tab img fs d' x = tab img fs d x \<and> con img fs d' x = con img fs d x)
     \<and> content (con img fs d') (cur # cs) = data @ replicate (cbytes fs * Suc (more_clusters fs data) - length data) 0"

lemma cbytes_pos: "vol_ok fs cap \<Longrightarrow> 0 < cbytes fs"
  by (simp add: vol_ok_def cbytes_def)

lemma more_small: "vol_ok fs cap \<Longrightarrow> length data \<le> cbytes fs \<Longrightarrow> more_clusters fs data = 0"
  using cbytes_pos [of fs cap] by (simp add: more_clusters_def)

lemma more_large:
  assumes "vol_ok fs cap" "cbytes fs < length data"
  shows "more_clusters fs data = Suc (more_clusters fs (drop (cbytes fs) data))"
proof -
  define k where "k = length data - cbytes fs - 1"
  have "length data - 1 = k + cbytes fs" "length (drop (cbytes fs) data) - 1 = k" using assms(2) by (simp_all add: k_def)
  then show ?thesis using cbytes_pos [OF assms(1)] by (simp only: more_clusters_def div_add_self2 Suc_eq_plus1)
qed

lemma free_after_extend:
  assumes "T cur = Some v" "v \<noteq> 0" "x \<in> free_clusters T" "x \<noteq> 0"
  shows "free_clusters (T(cur \<mapsto> x, x \<mapsto> EOC)) = free_clusters T - {x}"
  using assms by (auto simp: free_clusters_def split: if_splits)

lemma written_step:
  assumes "vol_ok fs cap" "cbytes fs < length data" "tab img fs d cur = Some v" "v \<noteq> 0" "x \<in> free_clusters (tab img fs d)"
    and d1: "tab img fs d1 = tab img fs d" "con img fs d1 = (con img fs d)(cur \<mapsto> take (cbytes fs) data)"
    and d2: "tab img fs d2 = (tab img fs d)(cur \<mapsto> x, x \<mapsto> EOC)" "con img fs d2 = con img fs d1"
    and w: "written img fs d2 x (drop (cbytes fs) data) cs d'"
  shows "written img fs d cur data (x # cs) d'"
proof -
  have x0: "x \<noteq> 0" using in_vol_link(3) [OF assms(1)] assms(5) by (auto simp: free_clusters_in_vol)
  note fr = free_after_extend [OF assms(3-5) x0]
  have sub: "set cs \<subseteq> free_clusters (tab img fs d) - {x}" using w fr d2(1) by (simp add: written_def)
  have cur: "cur \<notin> set (x # cs)" using sub assms(3-5) by (auto simp: free_clusters_def)
  have keep: "y \<notin> set (x # cs) \<Longrightarrow> tab img fs d' y = tab img fs d2 y \<and> con img fs d' y = con img fs d2 y" for y
    using w by (auto simp: written_def)
  have "tab img fs d' cur = Some x" "con img fs d' cur = Some (take (cbytes fs) data)"
    using keep [OF cur] cur d1 d2 by auto
  moreover have "tab img fs d' y = tab img fs d y \<and> con img fs d' y = con img fs d y" if "y \<notin> set (cur # x # cs)" for y
    using keep [of y] that d1 d2 by auto
  moreover have "cbytes fs * Suc (more_clusters fs (drop (cbytes fs) data)) - length (drop (cbytes fs) data)
      = cbytes fs * Suc (more_clusters fs data) - length data"
    using more_large [OF assms(1,2)] assms(2) by simp
  ultimately show ?thesis
    using w sub cur assms(5) more_large [OF assms(1,2)] unfolding written_def by auto
qed

lemma write_chain_ok:
  assumes "blk_ok ops img cap" "vol_ok fs cap" "tab img fs d cur = Some v" "is_eoc v"
  shows "if more_clusters fs data \<le> card (free_clusters (tab img fs d))
    then \<exists>cs d'. write_chain ops fs cur data d = Some (Inr (last (cur # cs)), d') \<and> written img fs d cur data cs d'
    else \<exists>d'. write_chain ops fs cur data d = Some (Inl Full, d')"
  using assms(3,4)
proof (induction "length data" arbitrary: cur data d v rule: less_induct)
  case less
  have cur: "in_vol fs cur" using less.prems(1) by (auto dest: tab_SomeD)
  have v0: "v \<noteq> 0" using less.prems(2) by (auto simp: is_eoc_def)
  define n where "n = min (cbytes fs) (length data)"
  obtain f where f: "clus_to_first_sector fs cur = Some f" "unat f = csec fs cur"
    using clus_to_first_sector_ok [OF assms(2) cur] by blast
  obtain d1 where d1: "write_secs ops fs f [0..<unat (spc fs)] n data d = Some (Inr (drop n data), d1)"
    "tab img fs d1 = tab img fs d" "con img fs d1 = (con img fs d)(cur \<mapsto> take n data @ replicate (cbytes fs - n) 0)"
    unfolding n_def using write_cluster_ok [OF assms(1,2) cur f(2), of data d] by metis
  have n: "n = min (unat (spc fs) * unat (bps fs)) (length data)" using assms(2) by (simp add: n_def cbytes_def vol_ok_def)
  show ?case
  proof (cases "length data \<le> cbytes fs")
    case True
    then have len: "n = length data" by (simp add: n_def)
    obtain d2 where d2: "fat_entry_write ops fs cur 0x0FFFFFFF d1 = Some (Inr (), d2)" "tab img fs d2 = (tab img fs d1)(cur \<mapsto> EOC)"
      "con img fs d2 = con img fs d1" using fat_write [OF assms(1,2) cur, of EOC d1] by (auto simp: EOC_def)
    have "write_chain ops fs cur data d = Some (Inr cur, d2)"
      using f(1) d1(1) d2(1) len by (subst write_chain.simps) (simp add: n [symmetric])
    moreover have "written img fs d cur data [] d2"
      using d1(2,3) d2(2,3) len more_small [OF assms(2) True] by (simp add: written_def)
    ultimately show ?thesis using more_small [OF assms(2) True] by auto
  next
    case False
    then have big: "cbytes fs < length data" and len: "n = cbytes fs" by (simp_all add: n_def)
    let ?rest = "drop (cbytes fs) data" and ?free = "free_clusters (tab img fs d)"
    have step: "write_chain ops fs cur data d = sbind (extend_chain ops fs is_eoc cur d1) (\<lambda>nxt d. write_chain ops fs nxt ?rest d)"
      using f(1) d1(1) big len by (subst write_chain.simps) (simp add: n [symmetric])
    note ext = extend_chain_ok [OF assms(1,2), of d1 cur v is_eoc, unfolded d1(2), OF less.prems v0]
    note m = more_large [OF assms(2) big]
    show ?thesis
    proof (cases "?free = {}")
      case True
      then show ?thesis using ext step m by simp
    next
      case False
      define x where "x = Min ?free"
      have x: "x \<in> ?free" unfolding x_def by (rule Min_free [OF False])
      obtain d2 where d2: "extend_chain ops fs is_eoc cur d1 = Some (Inr x, d2)"
        "tab img fs d2 = (tab img fs d)(cur \<mapsto> x, x \<mapsto> EOC)" "con img fs d2 = con img fs d1"
        using ext unfolding if_not_P [OF False] Let_def x_def [symmetric] by metis
      have "x \<noteq> 0" using in_vol_link(3) [OF assms(2) free_clusters_in_vol [OF x]] .
      from free_after_extend [OF less.prems(1) v0 x this]
      have fr: "free_clusters (tab img fs d2) = ?free - {x}" by (simp add: d2(2))
      then have "more_clusters fs data \<le> card ?free \<longleftrightarrow> more_clusters fs ?rest \<le> card (free_clusters (tab img fs d2))"
        using m card_Diff_singleton [OF x] x False by (simp add: Suc_le_eq) (metis One_nat_def Suc_pred card_gt_0_iff finite less_Suc_eq_le)
      moreover have "length ?rest < length data" using cbytes_pos [OF assms(2)] big by simp
      moreover have "tab img fs d2 x = Some EOC" by (simp add: d2(2))
      ultimately have IH: "if more_clusters fs data \<le> card ?free
        then \<exists>cs d'. write_chain ops fs x ?rest d2 = Some (Inr (last (x # cs)), d') \<and> written img fs d2 x ?rest cs d'
        else \<exists>d'. write_chain ops fs x ?rest d2 = Some (Inl Full, d')"
        using less.hyps [of ?rest d2 x EOC] by simp
      have con1: "con img fs d1 = (con img fs d)(cur \<mapsto> take (cbytes fs) data)" using d1(3) len by simp
      have "written img fs d cur data (x # cs) d'" if "written img fs d2 x ?rest cs d'" for cs d'
        by (rule written_step [OF assms(2) big less.prems(1) v0 x d1(2) con1 d2(2,3) that])
      note w = this
      show ?thesis
      proof (cases "more_clusters fs data \<le> card ?free")
        case True
        obtain cs d' where "write_chain ops fs x ?rest d2 = Some (Inr (last (x # cs)), d')" "written img fs d2 x ?rest cs d'"
          using IH unfolding if_P [OF True] by blast
        then have "write_chain ops fs cur data d = Some (Inr (last (cur # x # cs)), d')" "written img fs d cur data (x # cs) d'"
          using step d2(1) w by simp_all
        then show ?thesis unfolding if_P [OF True] by blast
      next
        case False
        then show ?thesis using IH step d2(1) by simp
      qed
    qed
  qed
qed

text \<open>
  Storing data in a new chain, the way \<open>write_file_at\<close> does it: take a cluster, mark it as the end of its
  chain and write.
\<close>

definition store_new :: "'b blk_ops \<Rightarrow> fat32 \<Rightarrow> u8 list \<Rightarrow> 'b \<Rightarrow> ((fat_err + u32) \<times> 'b) option" where
  "store_new ops fs data d =
     (if data = [] then Some (Inr 0, d)
      else sbind (alloc_or_full ops fs d) (\<lambda>c d.
        sbind (fat_entry_write ops fs c 0x0FFFFFFF d) (\<lambda>_ d.
        sbind (write_cluster_chain_from ops fs c data d) (\<lambda>_ d. Some (Inr c, d)))))"

lemma store_new_ok:
  assumes "blk_ok ops img cap" "vol_ok fs cap" "data \<noteq> []"
  shows "if more_clusters fs data < card (free_clusters (tab img fs d))
    then \<exists>c cs d'. store_new ops fs data d = Some (Inr c, d') \<and> c \<in> free_clusters (tab img fs d) \<and> written img fs d c data cs d'
    else \<exists>d'. store_new ops fs data d = Some (Inl Full, d')"
proof (cases "free_clusters (tab img fs d) = {}")
  case True
  then show ?thesis using alloc_spec [OF assms(1,2), of d] assms(3) by (simp add: store_new_def)
next
  case False
  let ?free = "free_clusters (tab img fs d)"
  define c where "c = Min ?free"
  have c: "c \<in> ?free" unfolding c_def by (rule Min_free [OF False])
  note cv = free_clusters_in_vol [OF c]
  obtain d1 where d1: "alloc_or_full ops fs d = Some (Inr c, d1)" "tab img fs d1 = (tab img fs d)(c \<mapsto> 0x0FFFFFF7)"
    "con img fs d1 = con img fs d" using alloc_spec [OF assms(1,2), of d] unfolding if_not_P [OF False] c_def Let_def by metis
  obtain d2 where d2: "fat_entry_write ops fs c 0x0FFFFFFF d1 = Some (Inr (), d2)" "tab img fs d2 = (tab img fs d1)(c \<mapsto> EOC)"
    "con img fs d2 = con img fs d1" using fat_write [OF assms(1,2) cv, of EOC d1] by (auto simp: EOC_def)
  have t2: "tab img fs d2 = (tab img fs d)(c \<mapsto> EOC)" using d1(2) d2(2) by simp
  have fr: "free_clusters (tab img fs d2) = ?free - {c}" unfolding t2 by (auto simp: free_clusters_def split: if_splits)
  have "card ?free > 0" using c by (auto simp: card_gt_0_iff)
  then have iff: "more_clusters fs data < card ?free \<longleftrightarrow> more_clusters fs data \<le> card (free_clusters (tab img fs d2))"
    using fr card_Diff_singleton [OF c] by simp linarith
  have w: "written img fs d c data cs d'" if "written img fs d2 c data cs d'" for cs d'
    using that fr t2 d1(3) d2(3) by (auto simp: written_def)
  have "tab img fs d2 c = Some EOC" using t2 by simp
  note wr = write_chain_ok [OF assms(1,2) this eoc_facts(1), of data]
  have st: "store_new ops fs data d = sbind (write_chain ops fs c data d2) (\<lambda>_ d. Some (Inr c, d))"
    using d1(1) d2(1) assms(3) by (simp add: store_new_def write_cluster_chain_from_def)
  show ?thesis
  proof (cases "more_clusters fs data < card ?free")
    case True
    with wr iff w obtain cs d' where "write_chain ops fs c data d2 = Some (Inr (last (c # cs)), d')" "written img fs d c data cs d'"
      by (metis (no_types))
    then have "store_new ops fs data d = Some (Inr c, d')" "written img fs d c data cs d'" using st by simp_all
    then show ?thesis unfolding if_P [OF True] using c by blast
  next
    case False
    then show ?thesis using wr iff st by auto
  qed
qed

lemma chain_in_use:
  assumes "vol_ok fs cap" "chain (tab img fs d) cs" "c \<in> set cs"
  shows "c \<notin> free_clusters (tab img fs d)"
  using assms(2,3)
proof (induction "tab img fs d" cs rule: chain.induct)
  case (2 c')
  then show ?case by (auto simp: free_clusters_def is_eoc_def split: option.splits)
next
  case (3 c' e cs)
  then have "in_vol fs e" using chain_dom [of "tab img fs d" "e # cs"] by (auto simp: dom_tab)
  then have "e \<noteq> 0" by (rule in_vol_link(3) [OF assms(1)])
  with 3 show ?case by (auto simp: free_clusters_def)
qed simp

text \<open>
  C12: A file's data stored in a new cluster chain reads back exactly. On every well-formed volume with enough
  free clusters, storing \<open>data\<close> the way \<open>write_file_at\<close> does succeeds, reading the new chain returns
  \<open>data\<close>, and every chain that was on the volume before still reads the same, at any length. Only free clusters
  are changed: every cluster that was not free, linked, marked bad or on a cycle, keeps its entry in the table
  and its contents.
\<close>

theorem store_then_read:
  assumes "blk_ok ops img cap" "vol_ok fs cap" "data \<noteq> []"
    and "more_clusters fs data < card (free_clusters (tab img fs d))"
  shows "\<exists>c d'. store_new ops fs data d = Some (Inr c, d')
    \<and> read_cluster_chain ops fs d' c (length data) = Some (Inr data)
    \<and> (\<forall>c0 cs n. chain (tab img fs d) (c0 # cs) \<longrightarrow>
         read_cluster_chain ops fs d' c0 n = read_cluster_chain ops fs d c0 n)
    \<and> (\<forall>x. x \<notin> free_clusters (tab img fs d) \<longrightarrow>
         tab img fs d' x = tab img fs d x \<and> con img fs d' x = con img fs d x)"
proof -
  obtain c cs d' where st: "store_new ops fs data d = Some (Inr c, d')" "c \<in> free_clusters (tab img fs d)"
    "written img fs d c data cs d'" using store_new_ok [OF assms(1-3), of d] unfolding if_P [OF assms(4)] by metis
  note w = st(3) [unfolded written_def]
  have ch: "chain (tab img fs d') (c # cs)" using w by blast
  have "in_vol fs c" by (rule free_clusters_in_vol [OF st(2)])
  then have "\<not> c < 2" by (rule in_vol_link(2) [OF assms(2)])
  then have rd: "read_cluster_chain ops fs d' c (length data) = Some (Inr data)"
    using read_chain_ok [OF assms(1,2) ch, of "length data"] assms(3)
    unfolding read_cluster_chain_def w [THEN conjunct2, THEN conjunct2, THEN conjunct2, THEN conjunct2, THEN conjunct2] by simp
  have kept: "tab img fs d' x = tab img fs d x \<and> con img fs d' x = con img fs d x" if "x \<notin> free_clusters (tab img fs d)" for x
    using that st(2) w by auto
  have "read_cluster_chain ops fs d' c0 n = read_cluster_chain ops fs d c0 n" if c0: "chain (tab img fs d) (c0 # cs0)" for c0 cs0 n
  proof -
    have same: "tab img fs d' x = tab img fs d x \<and> con img fs d' x = con img fs d x" if "x \<in> set (c0 # cs0)" for x
      using chain_in_use [OF assms(2) c0 that] kept by blast
    then have "chain (tab img fs d') (c0 # cs0)" using c0 chain_cong [of "c0 # cs0" "tab img fs d'" "tab img fs d"] by blast
    moreover have "content (con img fs d') (c0 # cs0) = content (con img fs d) (c0 # cs0)"
      by (rule content_cong) (use same in blast)
    ultimately show ?thesis
      using read_chain_ok [OF assms(1,2), of d' c0 cs0 n] read_chain_ok [OF assms(1,2) c0, of n]
      by (simp add: read_cluster_chain_def)
  qed
  with st(1) rd kept show ?thesis by blast
qed

text \<open>A volume of eight clusters on an empty memory disk.\<close>

definition tiny :: fat32 where
  "tiny = \<lparr>base_off_bytes = 512, bps = 512, spc = 1, rsvd = 1, nfats = 2, fatsz = 1, totsec = 16, fat_start_sec = 1,
     data_start_sec = 3, data_clusters = 8, root_clus = 2\<rparr>"

lemma tiny_ok: "vol_ok tiny 64"
  by (simp add: tiny_def vol_ok_def)

lemma tiny_empty: "tab id tiny (\<lambda>_. 0) = (\<lambda>c. if in_vol tiny c then Some 0 else None)"
proof -
  have "rd32 (replicate 512 0) (unat c * 4 mod 512) = 0" for c :: u32
    using off_room [of "unat c"] by (simp add: rd32_def)
  then have "fat id tiny (\<lambda>_. 0) c = 0" for c by (simp add: fat_def sec_def bytes_of_def map_replicate_const)
  then show ?thesis by (simp add: tab_def fun_eq_iff)
qed

theorem store_then_read_witness:
  "\<exists>c d'. store_new ram_disk tiny [1, 2, 3] (\<lambda>_. 0) = Some (Inr c, d')
    \<and> read_cluster_chain ram_disk tiny d' c 3 = Some (Inr [1, 2, 3])"
proof -
  have "2 \<in> free_clusters (tab id tiny (\<lambda>_. 0))" unfolding tiny_empty by (simp add: free_clusters_def in_vol_def tiny_def)
  then have "0 < card (free_clusters (tab id tiny (\<lambda>_. 0)))" by (auto simp: card_gt_0_iff)
  then have "more_clusters tiny [1, 2, 3] < card (free_clusters (tab id tiny (\<lambda>_. 0)))"
    by (simp add: more_clusters_def cbytes_def tiny_def)
  from store_then_read [OF ram_disk_ok tiny_ok _ this] show ?thesis
    by (simp add: eval_nat_numeral) blast
qed

section \<open>Freeing a chain\<close>

text \<open>The links of a table, and a table whose links stay inside it.\<close>

definition links :: "(u32 \<rightharpoonup> u32) \<Rightarrow> (u32 \<times> u32) set" where
  "links T = {(a, b). T a = Some b \<and> \<not> b < 2 \<and> \<not> is_eoc b}"

definition links_closed :: "(u32 \<rightharpoonup> u32) \<Rightarrow> bool" where
  "links_closed T \<longleftrightarrow> (\<forall>(a, b) \<in> links T. b \<in> dom T)"

definition reach :: "(u32 \<rightharpoonup> u32) \<Rightarrow> u32 \<Rightarrow> u32 set" where
  "reach T c = (links T)\<^sup>* `` {c}"

lemma links_zero: "links (T(c \<mapsto> 0)) = {(a, b) \<in> links T. a \<noteq> c}"
  by (auto simp: links_def split: if_splits)

lemma reach_end: "\<nexists>b. (c, b) \<in> links T \<Longrightarrow> reach T c = {c}"
  unfolding reach_def by (auto elim: converse_rtranclE)

lemma reach_step:
  assumes "(c, b) \<in> links T"
  shows "reach T c = insert c (reach (T(c \<mapsto> 0)) b)"
proof
  have sub: "(links (T(c \<mapsto> 0)))\<^sup>* \<subseteq> (links T)\<^sup>*" by (rule rtrancl_mono) (auto simp: links_zero)
  then show "insert c (reach (T(c \<mapsto> 0)) b) \<subseteq> reach T c"
    using assms by (auto simp: reach_def intro: converse_rtrancl_into_rtrancl)
  have "x = c \<or> (b, x) \<in> (links (T(c \<mapsto> 0)))\<^sup>*" if "(c, x) \<in> (links T)\<^sup>*" for x
    using that
  proof (induction rule: rtrancl_induct)
    case (step y z)
    show ?case
    proof (cases "y = c")
      case True
      with step.hyps(2) assms have "z = b" by (auto simp: links_def)
      then show ?thesis by simp
    next
      case False
      then have "(y, z) \<in> links (T(c \<mapsto> 0))" using step.hyps(2) by (simp add: links_zero)
      with False step.IH show ?thesis by (blast intro: rtrancl_into_rtrancl)
    qed
  qed simp
  then show "reach T c \<subseteq> insert c (reach (T(c \<mapsto> 0)) b)" by (auto simp: reach_def)
qed

lemma free_chain_ok:
  assumes "blk_ok ops img cap" "vol_ok fs cap" "links_closed (tab img fs d)" "in_vol fs cur"
  shows "\<exists>d'. free_chain ops fs cur d = Some (Inr (), d') \<and> con img fs d' = con img fs d
    \<and> tab img fs d' = (\<lambda>x. if x \<in> reach (tab img fs d) cur then Some 0 else tab img fs d x)"
  using assms(3,4)
proof (induction "card {x. \<exists>v. tab img fs d x = Some v \<and> v \<noteq> 0}" arbitrary: d cur rule: less_induct)
  case less
  let ?T = "tab img fs d"
  have T: "?T cur = Some (fat img fs d cur)" by (rule tab_in_vol [OF less.prems(2)])
  define nxt where "nxt = fat img fs d cur"
  obtain d1 where d1: "fat_entry_write ops fs cur 0 d = Some (Inr (), d1)" "tab img fs d1 = ?T(cur \<mapsto> 0)"
    "con img fs d1 = con img fs d" using fat_write [OF assms(1,2) less.prems(2), of 0 d] by auto
  have step: "free_chain ops fs cur d = (if nxt < 2 \<or> is_eoc nxt then Some (Inr (), d1) else free_chain ops fs nxt d1)"
    using fat_read [OF assms(1,2) T] d1(1) by (subst free_chain.simps) (simp add: nxt_def)
  show ?case
  proof (cases "nxt < 2 \<or> is_eoc nxt")
    case True
    then have "reach ?T cur = {cur}" using T by (intro reach_end) (auto simp: links_def nxt_def)
    then have "tab img fs d1 = (\<lambda>x. if x \<in> reach ?T cur then Some 0 else ?T x)" unfolding d1(2) by (simp add: fun_eq_iff)
    then show ?thesis using True step d1(3) by simp
  next
    case False
    then have link: "(cur, nxt) \<in> links ?T" using T by (auto simp: links_def nxt_def)
    then have nv: "in_vol fs nxt" using less.prems(1) by (auto simp: links_closed_def dom_tab)
    have cl: "links_closed (tab img fs d1)" using less.prems(1) unfolding d1(2) links_closed_def links_zero by auto
    let ?N = "\<lambda>d. {x. \<exists>v. tab img fs d x = Some v \<and> v \<noteq> 0}"
    have N: "?N d1 = ?N d - {cur}" and cur: "cur \<in> ?N d" using d1(2) T False by (auto simp: nxt_def split: if_splits)
    have "card (?N d1) < card (?N d)" unfolding N by (rule card_Diff1_less [OF finite cur])
    from less.hyps [OF this cl nv] obtain d' where d': "free_chain ops fs nxt d1 = Some (Inr (), d')"
      "con img fs d' = con img fs d1"
      "tab img fs d' = (\<lambda>x. if x \<in> reach (tab img fs d1) nxt then Some 0 else tab img fs d1 x)" by blast
    have "tab img fs d' = (\<lambda>x. if x \<in> reach ?T cur then Some 0 else ?T x)"
      unfolding d'(3) d1(2) reach_step [OF link] by (auto simp: fun_eq_iff)
    then show ?thesis using False step d'(1,2) d1(3) by simp
  qed
qed

text \<open>
  C13: Freeing a cluster chain always ends, even on a damaged volume whose table has a cycle or chains that
  run together: on every table whose links stay inside the volume, exactly the clusters reachable from the
  start become free and no other entry and no data changes.
\<close>

theorem free_cluster_chain_terminates:
  assumes "blk_ok ops img cap" "vol_ok fs cap" "links_closed (tab img fs d)" "in_vol fs start"
  shows "\<exists>d'. free_cluster_chain ops fs start d = Some (Inr (), d') \<and> con img fs d' = con img fs d
    \<and> tab img fs d' = (\<lambda>x. if x \<in> reach (tab img fs d) start then Some 0 else tab img fs d x)"
proof -
  have "\<not> start < 2" using assms(4) by (auto simp: in_vol_def)
  then show ?thesis using free_chain_ok [OF assms] by (simp add: free_cluster_chain_def)
qed

text \<open>A table with the cycle 2, 3, 2 is freed.\<close>

definition cyclic_disk :: "nat \<Rightarrow> u8" where
  "cyclic_disk = put_bytes (512 + 512 + 8) (le32 3 @ le32 2) (\<lambda>_. 0)"

lemma tiny_clusters: "in_vol tiny c \<longleftrightarrow> c \<in> {2, 3, 4, 5, 6, 7, 8, 9}"
proof -
  have "unat c < 10 \<longleftrightarrow> unat c \<in> {0, 1, 2, 3, 4, 5, 6, 7, 8, 9}" by auto
  then show ?thesis by (simp add: in_vol_def tiny_def word_le_nat_alt word_unat_eq_iff) linarith
qed

lemma tiny_entry:
  assumes "in_vol tiny c"
  defines "a \<equiv> 1024 + 4 * unat c"
  shows "tab id tiny d c = Some ((ucast (d a) OR push_bit 8 (ucast (d (a + 1))) OR push_bit 16 (ucast (d (a + 2)))
    OR push_bit 24 (ucast (d (a + 3)))) AND 0x0FFFFFFF)"
proof -
  have c: "unat c < 10" using assms by (simp add: in_vol_def tiny_def)
  have base: "unat (base_off_bytes tiny) = 512" by (simp add: tiny_def)
  have "sec id tiny d 1 ! (unat c * 4 + i) = d (a + i)" if "i < 4" for i
    using that c by (simp add: sec_def a_def base mult.commute add.assoc)
  from this [of 0] this [of 1] this [of 2] this [of 3]
  have "fat id tiny d c = (ucast (d a) OR push_bit 8 (ucast (d (a + 1))) OR push_bit 16 (ucast (d (a + 2)))
    OR push_bit 24 (ucast (d (a + 3)))) AND 0x0FFFFFFF"
    using c by (simp add: fat_def rd32_def) (simp add: tiny_def)
  with assms show ?thesis by (simp add: tab_def)
qed

lemma cyclic_table:
  "tab id tiny cyclic_disk = (\<lambda>c. if c = 2 then Some 3 else if c = 3 then Some 2 else if in_vol tiny c then Some 0 else None)"
proof
  fix c :: u32
  have bytes: "le32 3 @ le32 2 = ([3, 0, 0, 0, 2, 0, 0, 0] :: u8 list)" by (simp add: le32_def upt_rec)
  have d: "cyclic_disk x = (if x = 1032 then 3 else if x = 1036 then 2 else 0)" for x
    unfolding cyclic_disk_def put_bytes_def bytes by (auto simp: nth_Cons')
  show "tab id tiny cyclic_disk c = (if c = 2 then Some 3 else if c = 3 then Some 2 else if in_vol tiny c then Some 0 else None)"
  proof (cases "in_vol tiny c")
    case True
    then show ?thesis using tiny_entry [OF True, of cyclic_disk] unfolding tiny_clusters by (auto simp: d)
  qed (auto simp: tab_def tiny_clusters)
qed

theorem free_cluster_chain_terminates_witness:
  "\<exists>d'. free_cluster_chain ram_disk tiny 2 cyclic_disk = Some (Inr (), d')
    \<and> tab id tiny d' 2 = Some 0 \<and> tab id tiny d' 3 = Some 0"
proof -
  let ?T = "tab id tiny cyclic_disk"
  have l: "links ?T = {(2, 3), (3, 2)}" by (auto simp: cyclic_table links_def is_eoc_def split: if_splits)
  have "links_closed ?T" unfolding links_closed_def l by (simp add: dom_def) (simp add: cyclic_table)
  moreover have "in_vol tiny 2" by (simp add: in_vol_def tiny_def)
  moreover have "2 \<in> reach ?T 2" "3 \<in> reach ?T 2" unfolding reach_def l by auto
  ultimately show ?thesis using free_cluster_chain_terminates [OF ram_disk_ok tiny_ok, of cyclic_disk 2] by auto
qed

section \<open>What mounting checks\<close>

lemma cluster_sector:
  assumes "unat (data_start_sec fs) + unat (data_clusters fs) * unat (spc fs) \<le> unat (totsec fs)" "in_vol fs c"
  shows "\<exists>s. clus_to_first_sector fs c = Some s \<and> unat s = unat (data_start_sec fs) + (unat c - 2) * unat (spc fs)
    \<and> unat s + unat (spc fs) \<le> unat (totsec fs)"
proof -
  have c: "2 \<le> unat c" "Suc (unat c - 2) \<le> unat (data_clusters fs)" using assms(2) by (auto simp: in_vol_def word_le_nat_alt)
  have "Suc (unat c - 2) * unat (spc fs) \<le> unat (data_clusters fs) * unat (spc fs)" using c(2) by (rule mult_le_mono1)
  then have b: "unat (data_start_sec fs) + (unat c - 2) * unat (spc fs) + unat (spc fs) \<le> unat (totsec fs)"
    using assms(1) by simp
  have "unat (totsec fs) < 2 ^ 32" using unsigned_less [of "totsec fs"] by simp
  then have l: "unat (data_start_sec fs) + (unat c - 2) * unat (spc fs) < 2 ^ 32" using b by linarith
  have k: "unat (c - 2) = unat c - 2" using c(1) by (simp add: unat_sub word_le_nat_alt)
  have sp: "unat (ucast (spc fs) :: u32) = unat (spc fs)" by (simp add: unat_ucast_up)
  have "unat ((c - 2) * ucast (spc fs)) = (unat c - 2) * unat (spc fs)"
    using l k sp by (simp add: unat_word_ariths)
  then show ?thesis using l k sp c(1) b
    by (auto simp: clus_to_first_sector_def checked_sub_def checked_mul_def checked_add_def word_le_nat_alt unat_word_ariths)
qed

lemma cluster_runs:
  assumes "unat (data_start_sec fs) + unat (data_clusters fs) * unat (spc fs) \<le> unat (totsec fs)"
  shows "\<forall>c. in_vol fs c \<longrightarrow> (\<exists>s. clus_to_first_sector fs c = Some s
    \<and> unat (data_start_sec fs) \<le> unat s \<and> unat s + unat (spc fs) \<le> unat (totsec fs)
    \<and> (\<forall>c' s'. in_vol fs c' \<and> c' \<noteq> c \<and> clus_to_first_sector fs c' = Some s' \<longrightarrow>
         {unat s..<unat s + unat (spc fs)} \<inter> {unat s'..<unat s' + unat (spc fs)} = {}))"
proof (intro allI impI)
  fix c assume c: "in_vol fs c"
  obtain s where s: "clus_to_first_sector fs c = Some s" "unat s = unat (data_start_sec fs) + (unat c - 2) * unat (spc fs)"
    "unat s + unat (spc fs) \<le> unat (totsec fs)" using cluster_sector [OF assms c] by blast
  have "{unat s..<unat s + unat (spc fs)} \<inter> {unat s'..<unat s' + unat (spc fs)} = {}"
    if c': "in_vol fs c'" "c' \<noteq> c" "clus_to_first_sector fs c' = Some s'" for c' s'
  proof -
    have s': "unat s' = unat (data_start_sec fs) + (unat c' - 2) * unat (spc fs)" using cluster_sector [OF assms c'(1)] c'(3) by auto
    have "2 \<le> unat c" "2 \<le> unat c'" "unat c \<noteq> unat c'" using c c'(1,2) by (auto simp: in_vol_def word_le_nat_alt word_unat_eq_iff)
    then have "unat c - 2 \<noteq> unat c' - 2" by linarith
    then have "Suc (unat c - 2) * unat (spc fs) \<le> (unat c' - 2) * unat (spc fs)
      \<or> Suc (unat c' - 2) * unat (spc fs) \<le> (unat c - 2) * unat (spc fs)"
      by (metis mult_le_mono1 Suc_leI linorder_neqE_nat)
    then show ?thesis using s(2) s' by auto
  qed
  with s show "\<exists>s. clus_to_first_sector fs c = Some s \<and> unat (data_start_sec fs) \<le> unat s \<and> unat s + unat (spc fs) \<le> unat (totsec fs)
    \<and> (\<forall>c' s'. in_vol fs c' \<and> c' \<noteq> c \<and> clus_to_first_sector fs c' = Some s' \<longrightarrow>
         {unat s..<unat s + unat (spc fs)} \<inter> {unat s'..<unat s' + unat (spc fs)} = {})" by auto
qed

text \<open>
  C34: What a mounted volume satisfies. Whatever is on the disk, a volume that \<open>mount\<close> returns has a supported
  sector size, at least one sector per cluster, one table and one reserved sector, a root cluster that is not
  a reserved number and at least 65525 clusters; its tables lie between the reserved sectors and the data, with
  no wrap-around in the 32-bit sums, and its last cluster ends inside the volume. So for every cluster of the
  volume (numbers 2 to \<open>data_clusters + 1\<close>) \<open>clus_to_first_sector\<close> passes its checked arithmetic and gives a
  run of \<open>spc\<close> sectors inside the data region; different clusters have disjoint runs. Nothing is claimed of
  the root cluster beyond its lower bound, nor of the position of a table entry: \<open>mount\<close> checks neither.
\<close>

theorem mount_geometry:
  assumes "fat_mount ops d base = Some (Inr fs)"
  shows "bps fs \<in> {512, 1024, 2048, 4096} \<and> 0 < spc fs \<and> 0 < nfats fs \<and> 0 < rsvd fs \<and> 0 < fatsz fs \<and> 2 \<le> root_clus fs
    \<and> base_off_bytes fs = base \<and> unat (fat_start_sec fs) = unat (rsvd fs)
    \<and> unat (data_start_sec fs) = unat (rsvd fs) + unat (nfats fs) * unat (fatsz fs)
    \<and> 65525 \<le> unat (data_clusters fs)
    \<and> unat (data_start_sec fs) + unat (data_clusters fs) * unat (spc fs) \<le> unat (totsec fs)
    \<and> (\<forall>c. in_vol fs c \<longrightarrow> (\<exists>s. clus_to_first_sector fs c = Some s
         \<and> unat (data_start_sec fs) \<le> unat s \<and> unat s + unat (spc fs) \<le> unat (totsec fs)
         \<and> (\<forall>c' s'. in_vol fs c' \<and> c' \<noteq> c \<and> clus_to_first_sector fs c' = Some s' \<longrightarrow>
              {unat s..<unat s + unat (spc fs)} \<inter> {unat s'..<unat s' + unat (spc fs)} = {})))"
proof -
  obtain bs where bs: "read_at ops d base SEC = Some (Some bs)"
    using assms by (auto simp: fat_mount_def bind_eq_Some_conv split: option.splits)
  define b sp rs nf tot fz root where "b = rd16 bs 11" and "sp = bs ! 13" and "rs = rd16 bs 14" and "nf = bs ! 16"
    and "tot = (if rd16 bs 19 \<noteq> 0 then ucast (rd16 bs 19) else rd32 bs 32)" and "fz = rd32 bs 36" and "root = rd32 bs 44"
  note D = b_def [symmetric] sp_def [symmetric] rs_def [symmetric] nf_def [symmetric] tot_def [symmetric] fz_def [symmetric] root_def [symmetric]
  have m: "b \<in> {512, 1024, 2048, 4096}" "\<not> (fz = 0 \<or> nf = 0 \<or> rs = 0 \<or> sp = 0 \<or> tot = 0)" "\<not> root < 2"
    and r: "do { f \<leftarrow> checked_mul (ucast nf) fz; data_start \<leftarrow> checked_add (ucast rs) f;
        let data_secs = (if data_start \<le> tot then tot - data_start else 0); clusters = data_secs div ucast sp in
        Some (if clusters < 65525 then Inl NotFat32
              else Inr \<lparr>base_off_bytes = base, bps = b, spc = sp, rsvd = rs, nfats = nf, fatsz = fz, totsec = tot,
                     fat_start_sec = ucast rs, data_start_sec = data_start, data_clusters = clusters, root_clus = root\<rparr>) }
      = Some (Inr fs)"
    using assms unfolding fat_mount_def bs Option.bind_lunit option.case Let_def D by (auto split: if_splits)
  from r obtain f ds where f: "checked_mul (ucast nf) fz = Some f" "checked_add (ucast rs) f = Some (ds :: u32)"
    by (auto simp: bind_eq_Some_conv)
  define cl where "cl = (if ds \<le> tot then tot - ds else 0) div ucast sp"
  have cl: "\<not> cl < 65525" "fs = \<lparr>base_off_bytes = base, bps = b, spc = sp, rsvd = rs, nfats = nf, fatsz = fz, totsec = tot,
      fat_start_sec = ucast rs, data_start_sec = ds, data_clusters = cl, root_clus = root\<rparr>"
    using r f unfolding Let_def by (auto simp: cl_def split: if_splits)
  have u: "unat (ucast rs :: u32) = unat rs" "unat (ucast nf :: u32) = unat nf" "unat (ucast sp :: u32) = unat sp"
    by (simp_all add: unat_ucast_up)
  have ds: "unat ds = unat rs + unat nf * unat fz" using unat_checked_mul [OF f(1)] unat_checked_add [OF f(2)] u by simp
  have c0: "65525 \<le> unat cl" using cl(1) by (simp add: word_less_nat_alt)
  then have "ds \<le> tot" by (auto simp: cl_def split: if_splits)
  then have q: "unat cl = (unat tot - unat ds) div unat sp" "unat ds \<le> unat tot"
    using u(3) by (simp_all add: cl_def unat_div unat_sub word_le_nat_alt)
  have "unat cl * unat sp \<le> unat tot - unat ds" unfolding q(1) by (rule div_times_less_eq_dividend)
  then have "unat ds + unat cl * unat sp \<le> unat tot" using q(2) by linarith
  then have geo: "unat (data_start_sec fs) + unat (data_clusters fs) * unat (spc fs) \<le> unat (totsec fs)" using cl(2) by simp
  have "bps fs \<in> {512, 1024, 2048, 4096}" "0 < spc fs" "0 < nfats fs" "0 < rsvd fs" "0 < fatsz fs" "2 \<le> root_clus fs"
    "base_off_bytes fs = base" "unat (fat_start_sec fs) = unat (rsvd fs)"
    "unat (data_start_sec fs) = unat (rsvd fs) + unat (nfats fs) * unat (fatsz fs)" "65525 \<le> unat (data_clusters fs)"
    using m ds c0 u unfolding cl(2) by (auto simp: word_gt_0)
  with geo cluster_runs [OF geo] show ?thesis by blast
qed

text \<open>A disk with the boot sector of a volume of 1024-byte sectors; every other byte is 1.\<close>

definition large_boot :: "nat \<Rightarrow> u8" where
  "large_boot x = (if x = 12 then 4 else if x \<in> {13, 14, 16} then 1 else if x \<in> {34, 37, 44} then 2
     else if x = 510 then 0x55 else if x = 511 then 0xAA else if x < 512 then 0 else 1)"

definition large_vol :: fat32 where
  "large_vol = \<lparr>base_off_bytes = 0, bps = 1024, spc = 1, rsvd = 1, nfats = 1, fatsz = 512, totsec = 0x20000, fat_start_sec = 1,
     data_start_sec = 513, data_clusters = 130559, root_clus = 2\<rparr>"

lemma large_mounts: "fat_mount ram_disk large_boot 0 = Some (Inr large_vol)"
proof -
  have "read_at ram_disk large_boot 0 SEC = Some (Some (bytes_of large_boot 0 512))"
    using read_at_ok [OF ram_disk_ok, of 0 512 large_boot] by (simp add: SEC_def)
  then show ?thesis
    by (simp add: fat_mount_def rd16_def rd32_def large_boot_def large_vol_def checked_mul_def checked_add_def)
qed

lemma large_sector:
  assumes "off \<le> 8192"
  shows "read_at ram_disk large_boot (of_nat (512 + off)) SEC = Some (Some (replicate 512 1))"
proof -
  have u: "unat (of_nat (512 + off) :: u64) = 512 + off" using assms by (simp only: unat_of_nat) simp
  have "bytes_of large_boot (512 + off) 512 = replicate 512 1"
    by (rule nth_equalityI) (simp_all add: large_boot_def)
  then show ?thesis using read_at_ok [OF ram_disk_ok, of "of_nat (512 + off)" 512 large_boot] u assms by (simp add: SEC_def)
qed

lemma large_entry:
  assumes "unat c < 256"
  shows "fat_entry_read ram_disk large_vol large_boot c
    = (if unat c < 128 then Some (Inr (0x01010101 AND 0x0FFFFFFF)) else None)"
proof -
  have "unat c * 4 < 2 ^ 32" using assms by simp
  then have m: "checked_mul c 4 = Some (c * 4)" "unat (c * 4) = unat c * 4"
    by (simp_all add: checked_mul_def unat_word_ariths)
  have "unat (c * 4 div 1024) = 0" "unat (c * 4 mod 1024) = unat c * 4" using assms m(2) by (simp_all add: unat_div unat_mod)
  then have pos: "fat_pos large_vol c = Some (1, unat c * 4)"
    using m(1) by (simp add: fat_pos_def large_vol_def assert_that_def checked_add_def) (simp add: unat_eq_zero)
  have "read_sector ram_disk large_vol large_boot 1 = Some (Inr (replicate 512 1))"
    using large_sector [of 512] by (simp add: read_sector_def sec_off_def large_vol_def checked_mul_def checked_add_def)
  then show ?thesis using pos by (auto simp: fat_entry_read_def assert_that_def SEC_def rd32_def)
qed

lemma large_scan: "unat c \<le> 128 \<Longrightarrow> 129 \<le> unat c + n \<Longrightarrow> alloc_scan ram_disk large_vol n c large_boot = None"
proof (induction n arbitrary: c)
  case (Suc n)
  show ?case
  proof (cases "unat c = 128")
    case False
    then have "unat (c + 1) = unat c + 1" using Suc.prems(1) by (simp add: unat_word_ariths)
    then have "alloc_scan ram_disk large_vol n (c + 1) large_boot = None" using Suc False by simp
    then show ?thesis using large_entry [of c] Suc.prems(1) False by simp
  qed (use large_entry [of c] in simp)
qed simp

text \<open>
  A volume of 1024-byte sectors mounts, but the kernel cannot use it: sector buffers are 512 bytes long and
  the offset of a table entry is taken modulo the sector size, so on a volume whose first 128 clusters are in
  use the first allocation indexes past the buffer and panics.
\<close>

lemma large_sector_volume_panics:
  "\<exists>fs. fat_mount ram_disk large_boot 0 = Some (Inr fs) \<and> bps fs = 1024 \<and> alloc_free_cluster ram_disk fs large_boot = None"
proof -
  have "alloc_free_cluster ram_disk large_vol large_boot = None"
    using large_scan [of 2 130559] by (simp add: alloc_free_cluster_def large_vol_def checked_add_def)
  then show ?thesis using large_mounts by (auto simp: large_vol_def)
qed

theorem mount_geometry_witness:
  "fat_mount ram_disk large_boot 0 = Some (Inr large_vol) \<and> 65525 \<le> unat (data_clusters large_vol)
    \<and> (\<exists>s. clus_to_first_sector large_vol 0x1FE00 = Some s \<and> unat s + 1 \<le> 0x20000)"
proof -
  have "in_vol large_vol 0x1FE00" by (simp add: in_vol_def large_vol_def)
  moreover have "unat (spc large_vol) = 1" "unat (totsec large_vol) = 0x20000" by (simp_all add: large_vol_def)
  ultimately show ?thesis using mount_geometry [OF large_mounts] large_mounts by metis
qed

end
