(* ===== verification/Fat32_Dir.thy ===== *)
theory Fat32_Dir
  imports Fat32_Chain
begin

text \<open>
  The directory layer of \<^verbatim>\<open>kernel/fs/fat32.rs\<close>: appending to a chain, listing and searching a directory, finding
  room for entries, writing entries, and the operations on paths (\<open>read_file\<close>, \<open>mkdir\<close>, \<open>list_dir\<close>,
  \<open>write_file\<close>). Each function is a definition over the disk state, in the order of the source.
\<close>

section \<open>Appending\<close>

definition chain_end :: "u32 \<Rightarrow> bool" where
  "chain_end nxt \<longleftrightarrow> nxt < 2 \<or> is_eoc nxt"

text \<open>\<open>while remaining >= clus_bytes\<close>: skip the clusters that are full, growing a chain that is too short.\<close>

partial_function (option) skip_full ::
  "'b blk_ops \<Rightarrow> fat32 \<Rightarrow> u32 \<Rightarrow> u32 \<Rightarrow> u32 \<Rightarrow> 'b \<Rightarrow> ((fat_err + u32 \<times> u32) \<times> 'b) option" where
  "skip_full ops fs clus_bytes cur remaining d =
     (if remaining < clus_bytes then Some (Inr (cur, remaining), d)
      else sbind (extend_chain ops fs chain_end cur d) (\<lambda>nxt d. skip_full ops fs clus_bytes nxt (remaining - clus_bytes) d))"

text \<open>One cluster is read as a whole, patched and written back.\<close>

fun load_secs :: "'b blk_ops \<Rightarrow> fat32 \<Rightarrow> 'b \<Rightarrow> u32 \<Rightarrow> nat list \<Rightarrow> (fat_err + u8 list) option" where
  "load_secs ops fs d first_sec [] = Some (Inr [])"
| "load_secs ops fs d first_sec (s # ss) = do {
     secno \<leftarrow> checked_add first_sec (of_nat s);
     rbind (read_sector ops fs d secno) (\<lambda>buf. rbind (load_secs ops fs d first_sec ss) (\<lambda>rest. Some (Inr (buf @ rest))))
   }"

fun store_secs :: "'b blk_ops \<Rightarrow> fat32 \<Rightarrow> u32 \<Rightarrow> u8 list \<Rightarrow> nat list \<Rightarrow> 'b \<Rightarrow> ((fat_err + unit) \<times> 'b) option" where
  "store_secs ops fs first_sec tmp [] d = Some (Inr (), d)"
| "store_secs ops fs first_sec tmp (s # ss) d = do {
     secno \<leftarrow> checked_add first_sec (of_nat s);
     buf \<leftarrow> slice tmp (s * SEC) SEC;
     sbind (write_sector ops fs secno buf d) (\<lambda>_ d. store_secs ops fs first_sec tmp ss d)
   }"

partial_function (option) append_loop ::
  "'b blk_ops \<Rightarrow> fat32 \<Rightarrow> nat \<Rightarrow> u32 \<Rightarrow> nat \<Rightarrow> u8 list \<Rightarrow> 'b \<Rightarrow> ((fat_err + unit) \<times> 'b) option" where
  "append_loop ops fs clus_total cur file_off data d = do {
     first_sec \<leftarrow> clus_to_first_sector fs cur;
     getr d (load_secs ops fs d first_sec [0..<unat (spc fs)]) (\<lambda>loaded.
       let tmp = loaded @ replicate (clus_total - length loaded) 0;
           n = min (clus_total - file_off) (length data) in do {
         assert_that (file_off + n \<le> clus_total);
         sbind (store_secs ops fs first_sec (splice tmp file_off (take n data)) [0..<unat (spc fs)] d) (\<lambda>_ d.
           if n \<ge> length data then Some (Inr (), d)
           else sbind (extend_chain ops fs chain_end cur d) (\<lambda>nxt d. append_loop ops fs clus_total nxt 0 (drop n data) d))
       })
   }"

text \<open>A fresh chain of one cluster.\<close>

definition new_chain :: "'b blk_ops \<Rightarrow> fat32 \<Rightarrow> 'b \<Rightarrow> ((fat_err + u32) \<times> 'b) option" where
  "new_chain ops fs d = sbind (alloc_or_full ops fs d) (\<lambda>c d. sbind (fat_entry_write ops fs c 0x0FFFFFFF d) (\<lambda>_ d. Some (Inr c, d)))"

definition append_to_chain ::
  "'b blk_ops \<Rightarrow> fat32 \<Rightarrow> u32 \<Rightarrow> u32 \<Rightarrow> u8 list \<Rightarrow> 'b \<Rightarrow> ((fat_err + u32 \<times> u32) \<times> 'b) option" where
  "append_to_chain ops fs start_clus cur_size data d =
     (if data = [] then Some (Inr (start_clus, cur_size), d)
      else sbind (if start_clus < 2 then new_chain ops fs d else Some (Inr start_clus, d)) (\<lambda>start d. do {
        clus_bytes \<leftarrow> checked_mul (ucast (spc fs)) (ucast (bps fs));
        sbind (skip_full ops fs clus_bytes start cur_size d) (\<lambda>(cur, remaining) d.
        sbind (append_loop ops fs (unat clus_bytes) cur (unat remaining) data d) (\<lambda>_ d.
          Some (Inr (start, cur_size + of_nat (length data)), d)))
      }))"

section \<open>Reading directories\<close>

definition dir_list_from_with_names :: "'b blk_ops \<Rightarrow> fat32 \<Rightarrow> 'b \<Rightarrow> u32 \<Rightarrow> (fat_err + (u8 list \<times> dir_ent) list) option" where
  "dir_list_from_with_names ops fs d start_clus =
     rbind (read_cluster_chain ops fs d start_clus (256 * 1024)) (\<lambda>raw. Some (Inr (dir_slots (slots raw) [] None)))"

definition find_name :: "u8 list \<Rightarrow> (u8 list \<times> dir_ent) list \<Rightarrow> dir_ent option" where
  "find_name want l = map_option snd (find (\<lambda>(nm, _). eq_ci (strip_slash nm) want) l)"

definition dir_find_in_dir :: "'b blk_ops \<Rightarrow> fat32 \<Rightarrow> 'b \<Rightarrow> u32 \<Rightarrow> u8 list \<Rightarrow> (fat_err + dir_ent option) option" where
  "dir_find_in_dir ops fs d dirclus want =
     rbind (dir_list_from_with_names ops fs d dirclus) (\<lambda>l. Some (Inr (find_name want l)))"

definition is_dir_ent :: "dir_ent \<Rightarrow> bool" where
  "is_dir_ent ent \<longleftrightarrow> de_attr ent AND ATTR_DIR \<noteq> 0"

definition split_path :: "u8 list \<Rightarrow> u8 list list" where
  "split_path p = filter (\<lambda>c. c \<noteq> []) (split_on SLASH p)"

text \<open>\<open>ok_or(NotFound)\<close> on what a search found, and the cluster of a directory it found.\<close>

definition found :: "dir_ent option \<Rightarrow> (dir_ent \<Rightarrow> (fat_err + 'a) option) \<Rightarrow> (fat_err + 'a) option" where
  "found r f = (case r of None \<Rightarrow> Some (Inl NotFound) | Some ent \<Rightarrow> f ent)"

fun walk_dirs :: "'b blk_ops \<Rightarrow> fat32 \<Rightarrow> 'b \<Rightarrow> u32 \<Rightarrow> u8 list list \<Rightarrow> (fat_err + u32) option" where
  "walk_dirs ops fs d cur [] = Some (Inr cur)"
| "walk_dirs ops fs d cur (c # cs) =
     rbind (dir_find_in_dir ops fs d cur c) (\<lambda>r. found r (\<lambda>ent.
       if \<not> is_dir_ent ent then Some (Inl NotFound)
       else if dirent_first_clus ent < 2 then Some (Inl BadBpb)
       else walk_dirs ops fs d (dirent_first_clus ent) cs))"

definition resolve_dir :: "'b blk_ops \<Rightarrow> fat32 \<Rightarrow> 'b \<Rightarrow> u8 list \<Rightarrow> (fat_err + u32 option) option" where
  "resolve_dir ops fs d path =
     (let cs = split_path path in
      if cs = [] then Some (Inr None)
      else rbind (walk_dirs ops fs d (root_clus fs) cs) (\<lambda>c. Some (Inr (Some c))))"

section \<open>Room for entries\<close>

text \<open>The scan of one sector for \<open>need\<close> consecutive free slots: the slot index, the run so far and its start.\<close>

definition slot_free :: "u8 list \<Rightarrow> bool" where
  "slot_free p \<longleftrightarrow> p ! 0 = 0 \<or> p ! 0 = 0xE5"

fun run_scan :: "nat \<Rightarrow> u8 list list \<Rightarrow> nat \<Rightarrow> nat \<Rightarrow> nat \<Rightarrow> nat option" where
  "run_scan need [] i run run_start = None"
| "run_scan need (p # ps) i run run_start =
     (if slot_free p then
        (let run_start = (if run = 0 then i else run_start) in
         if Suc run \<ge> need then Some run_start else run_scan need ps (Suc i) (Suc run) run_start)
      else run_scan need ps (Suc i) 0 run_start)"

fun free_run_secs :: "'b blk_ops \<Rightarrow> fat32 \<Rightarrow> 'b \<Rightarrow> nat \<Rightarrow> u32 \<Rightarrow> nat list \<Rightarrow> (fat_err + (nat \<times> nat) option) option" where
  "free_run_secs ops fs d need first_sec [] = Some (Inr None)"
| "free_run_secs ops fs d need first_sec (s # ss) = do {
     secno \<leftarrow> checked_add first_sec (of_nat s);
     rbind (read_sector ops fs d secno) (\<lambda>buf.
       case run_scan need (chunks 32 buf) 0 0 0 of
         Some run_start \<Rightarrow> Some (Inr (Some (s, run_start)))
       | None \<Rightarrow> free_run_secs ops fs d need first_sec ss)
   }"

fun zero_secs :: "'b blk_ops \<Rightarrow> fat32 \<Rightarrow> u32 \<Rightarrow> nat list \<Rightarrow> 'b \<Rightarrow> ((fat_err + unit) \<times> 'b) option" where
  "zero_secs ops fs first_sec [] d = Some (Inr (), d)"
| "zero_secs ops fs first_sec (s # ss) d = do {
     secno \<leftarrow> checked_add first_sec (of_nat s);
     sbind (write_sector ops fs secno (replicate SEC 0) d) (\<lambda>_ d. zero_secs ops fs first_sec ss d)
   }"

text \<open>The end of the directory: append a cluster of zeros.\<close>

definition grow_dir :: "'b blk_ops \<Rightarrow> fat32 \<Rightarrow> u32 \<Rightarrow> 'b \<Rightarrow> ((fat_err + u32) \<times> 'b) option" where
  "grow_dir ops fs cur d =
     getr d (fat_entry_read ops fs d cur) (\<lambda>nxt.
       if chain_end nxt then
         sbind (alloc_or_full ops fs d) (\<lambda>newc d.
         sbind (fat_entry_write ops fs cur newc d) (\<lambda>_ d.
         sbind (fat_entry_write ops fs newc 0x0FFFFFFF d) (\<lambda>_ d. do {
           first_sec_new \<leftarrow> clus_to_first_sector fs newc;
           sbind (zero_secs ops fs first_sec_new [0..<unat (spc fs)] d) (\<lambda>_ d. Some (Inr newc, d))
         })))
       else Some (Inr nxt, d))"

partial_function (option) dir_find_free_run ::
  "'b blk_ops \<Rightarrow> fat32 \<Rightarrow> u32 \<Rightarrow> nat \<Rightarrow> 'b \<Rightarrow> ((fat_err + u32 \<times> nat \<times> nat) \<times> 'b) option" where
  "dir_find_free_run ops fs cur need d = do {
     first_sec \<leftarrow> clus_to_first_sector fs cur;
     getr d (free_run_secs ops fs d need first_sec [0..<unat (spc fs)]) (\<lambda>r.
       if r \<noteq> None then Some (Inr (cur, the r), d)
       else sbind (grow_dir ops fs cur d) (\<lambda>nxt d. dir_find_free_run ops fs nxt need d))
   }"

definition write_dir_entries_at :: "'b blk_ops \<Rightarrow> fat32 \<Rightarrow> u32 \<Rightarrow> u8 list list \<Rightarrow> 'b \<Rightarrow> ((fat_err + unit) \<times> 'b) option" where
  "write_dir_entries_at ops fs dirclus entries d =
     sbind (dir_find_free_run ops fs dirclus (length entries) d) (\<lambda>(clus, sec_in_clus, entry_start) d. do {
       first_sec \<leftarrow> clus_to_first_sector fs clus;
       secno \<leftarrow> checked_add first_sec (of_nat sec_in_clus);
       getr d (read_sector ops fs d secno) (\<lambda>buf. do {
         assert_that (entry_start * 32 + length (concat entries) \<le> SEC);
         write_sector ops fs secno (splice buf (entry_start * 32) (concat entries)) d
       })
     })"

definition make_unique_short_name_in_dir :: "'b blk_ops \<Rightarrow> fat32 \<Rightarrow> 'b \<Rightarrow> u32 \<Rightarrow> u8 list \<Rightarrow> (fat_err + u8 list) option" where
  "make_unique_short_name_in_dir ops fs d dirclus long =
     (case make_short_candidate long of
        Inl e \<Rightarrow> Some (Inl e)
      | Inr base \<Rightarrow> rbind (dir_list_from_with_names ops fs d dirclus) (\<lambda>l.
          Some (unique_loop (map (\<lambda>(_, ent). de_name ent) l) 1 10 base)))"

section \<open>Writing an entry\<close>

text \<open>The update of an entry in place: the first slot in use that is no long-name entry and has the short name.\<close>

fun patch_slots :: "u8 list \<Rightarrow> (dir_ent \<Rightarrow> dir_ent) \<Rightarrow> u8 list list \<Rightarrow> u8 list list option" where
  "patch_slots short f [] = None"
| "patch_slots short f (p # ps) =
     (if slot_free p \<or> is_lfn (p ! 11) \<or> take 11 p \<noteq> short then map_option (\<lambda>r. p # r) (patch_slots short f ps)
      else Some (dir_ent_bytes (f (dir_ent_of p)) # ps))"

fun patch_secs ::
  "'b blk_ops \<Rightarrow> fat32 \<Rightarrow> u8 list \<Rightarrow> (dir_ent \<Rightarrow> dir_ent) \<Rightarrow> u32 \<Rightarrow> nat list \<Rightarrow> 'b \<Rightarrow> ((fat_err + bool) \<times> 'b) option" where
  "patch_secs ops fs short f first_sec [] d = Some (Inr False, d)"
| "patch_secs ops fs short f first_sec (s # ss) d = do {
     secno \<leftarrow> checked_add first_sec (of_nat s);
     getr d (read_sector ops fs d secno) (\<lambda>buf.
       case patch_slots short f (chunks 32 buf) of
         Some ps \<Rightarrow> sbind (write_sector ops fs secno (concat ps) d) (\<lambda>_ d. Some (Inr True, d))
       | None \<Rightarrow> patch_secs ops fs short f first_sec ss d)
   }"

partial_function (option) patch_entry ::
  "'b blk_ops \<Rightarrow> fat32 \<Rightarrow> u8 list \<Rightarrow> (dir_ent \<Rightarrow> dir_ent) \<Rightarrow> u32 \<Rightarrow> 'b \<Rightarrow> ((fat_err + unit) \<times> 'b) option" where
  "patch_entry ops fs short f cur d = do {
     first_sec \<leftarrow> clus_to_first_sector fs cur;
     sbind (patch_secs ops fs short f first_sec [0..<unat (spc fs)] d) (\<lambda>hit d.
       if hit then Some (Inr (), d)
       else getr d (fat_entry_read ops fs d cur) (\<lambda>nxt.
         if chain_end nxt then Some (Inl NotFound, d) else patch_entry ops fs short f nxt d))
   }"

definition ent_attr :: "bool \<Rightarrow> u8" where
  "ent_attr is_dir = (if is_dir then ATTR_DIR else ATTR_ARCHIVE)"

definition dir_write_file_entry ::
  "'b blk_ops \<Rightarrow> fat32 \<Rightarrow> u32 \<Rightarrow> u8 list \<Rightarrow> u32 \<Rightarrow> u32 \<Rightarrow> u8 list option \<Rightarrow> bool \<Rightarrow> 'b \<Rightarrow> ((fat_err + unit) \<times> 'b) option" where
  "dir_write_file_entry ops fs dirclus long_name start_clus fsize overwrite_existing_short is_dir d =
     (case overwrite_existing_short of
        Some short \<Rightarrow>
          patch_entry ops fs short
            (\<lambda>ent. (set_dirent_first_clus start_clus (ent\<lparr>de_attr := ent_attr is_dir\<rparr>))\<lparr>de_size := fsize\<rparr>) dirclus d
      | None \<Rightarrow>
          getr d (make_unique_short_name_in_dir ops fs d dirclus long_name) (\<lambda>short.
            case build_lfn_entries short long_name of
              Inl e \<Rightarrow> Some (Inl e, d)
            | Inr lfn_raws \<Rightarrow>
                write_dir_entries_at ops fs dirclus
                  (lfn_raws @ [dir_ent_bytes ((set_dirent_first_clus start_clus (new_dir_ent short (ent_attr is_dir)))\<lparr>de_size := fsize\<rparr>)]) d))"

section \<open>Files and directories by path\<close>

fun read_walk :: "'b blk_ops \<Rightarrow> fat32 \<Rightarrow> 'b \<Rightarrow> u32 \<Rightarrow> u8 list list \<Rightarrow> (fat_err + u8 list) option" where
  "read_walk ops fs d cur_dir [] = Some (Inl NotFound)"
| "read_walk ops fs d cur_dir (c # cs) =
     rbind (dir_find_in_dir ops fs d cur_dir c) (\<lambda>r. found r (\<lambda>ent.
       let cl = dirent_first_clus ent in
       if cs \<noteq> [] then
         (if \<not> is_dir_ent ent then Some (Inl NotFound)
          else if cl < 2 then Some (Inl BadBpb)
          else read_walk ops fs d cl cs)
       else if is_dir_ent ent then Some (Inl NotFound)
       else let sz = unat (de_size ent) in
         if cl < 2 \<and> sz > 0 then Some (Inl BadBpb)
         else rbind (read_cluster_chain ops fs d cl sz) (\<lambda>data. Some (Inr (take sz data)))))"

definition read_file :: "'b blk_ops \<Rightarrow> fat32 \<Rightarrow> 'b \<Rightarrow> u8 list \<Rightarrow> (fat_err + u8 list) option" where
  "read_file ops fs d path =
     (let cs = split_path path in if cs = [] then Some (Inl Name) else read_walk ops fs d (root_clus fs) cs)"

definition dot_name :: "nat \<Rightarrow> u8 list" where
  "dot_name k = replicate k 0x2E @ replicate (11 - k) 0x20"

definition mkdir_at :: "'b blk_ops \<Rightarrow> fat32 \<Rightarrow> u32 option \<Rightarrow> u8 list \<Rightarrow> 'b \<Rightarrow> ((fat_err + unit) \<times> 'b) option" where
  "mkdir_at ops fs parent_dir name d =
     (let parent = (case parent_dir of None \<Rightarrow> root_clus fs | Some p \<Rightarrow> p) in
      getr d (dir_find_in_dir ops fs d parent name) (\<lambda>r.
        if r \<noteq> None then Some (Inr (), d)
        else sbind (new_chain ops fs d) (\<lambda>cl d. do {
          first_sec \<leftarrow> clus_to_first_sector fs cl;
          sbind (zero_secs ops fs first_sec [0..<unat (spc fs)] d) (\<lambda>_ d.
          getr d (read_sector ops fs d first_sec) (\<lambda>sec0.
            let dot = dir_ent_bytes (set_dirent_first_clus cl (new_dir_ent (dot_name 1) ATTR_DIR));
                dotdot = dir_ent_bytes (set_dirent_first_clus parent (new_dir_ent (dot_name 2) ATTR_DIR)) in
            sbind (write_sector ops fs first_sec (splice (splice sec0 0 dot) 32 dotdot) d) (\<lambda>_ d.
              dir_write_file_entry ops fs parent name cl 0 None True d)))
        })))"

fun mkdir_walk :: "'b blk_ops \<Rightarrow> fat32 \<Rightarrow> u32 \<Rightarrow> u8 list list \<Rightarrow> 'b \<Rightarrow> ((fat_err + unit) \<times> 'b) option" where
  "mkdir_walk ops fs cur_dir [] d = Some (Inr (), d)"
| "mkdir_walk ops fs cur_dir (c # cs) d =
     getr d (dir_find_in_dir ops fs d cur_dir c) (\<lambda>r.
       case r of
         Some ent \<Rightarrow>
           if \<not> is_dir_ent ent then Some (Inl Name, d)
           else if dirent_first_clus ent < 2 then Some (Inl BadBpb, d)
           else mkdir_walk ops fs (dirent_first_clus ent) cs d
       | None \<Rightarrow>
           sbind (mkdir_at ops fs (Some cur_dir) c d) (\<lambda>_ d.
           getr d (rbind (dir_find_in_dir ops fs d cur_dir c) (\<lambda>r. found r (\<lambda>ent. Some (Inr ent)))) (\<lambda>ent.
             mkdir_walk ops fs (dirent_first_clus ent) cs d)))"

definition mkdir :: "'b blk_ops \<Rightarrow> fat32 \<Rightarrow> u8 list \<Rightarrow> 'b \<Rightarrow> ((fat_err + unit) \<times> 'b) option" where
  "mkdir ops fs path d = mkdir_walk ops fs (root_clus fs) (split_path path) d"

definition list_dir :: "'b blk_ops \<Rightarrow> fat32 \<Rightarrow> 'b \<Rightarrow> u8 list \<Rightarrow> (fat_err + u8 list list) option" where
  "list_dir ops fs d path =
     rbind (if path = [SLASH] \<or> path = [] then Some (Inr (root_clus fs))
            else rbind (resolve_dir ops fs d path) (\<lambda>r. Some (case r of None \<Rightarrow> Inl BadBpb | Some c \<Rightarrow> Inr c)))
       (\<lambda>dirclus. rbind (dir_list_from_with_names ops fs d dirclus) (\<lambda>ents. Some (Inr (map fst ents))))"

definition list_root :: "'b blk_ops \<Rightarrow> fat32 \<Rightarrow> 'b \<Rightarrow> (fat_err + u8 list list) option" where
  "list_root ops fs d = list_dir ops fs d [SLASH]"

definition write_file_at ::
  "'b blk_ops \<Rightarrow> fat32 \<Rightarrow> u32 option \<Rightarrow> u8 list \<Rightarrow> u8 list \<Rightarrow> bool \<Rightarrow> 'b \<Rightarrow> ((fat_err + unit) \<times> 'b) option" where
  "write_file_at ops fs parent_dir name data overwrite d =
     (let dirclus = (case parent_dir of None \<Rightarrow> root_clus fs | Some p \<Rightarrow> p) in
      getr d (dir_find_in_dir ops fs d dirclus name) (\<lambda>existing.
        case existing of
          Some ent \<Rightarrow>
            if is_dir_ent ent then Some (Inl Name, d)
            else if overwrite then
              sbind (if dirent_first_clus ent \<ge> 2 then free_cluster_chain ops fs (dirent_first_clus ent) d else Some (Inr (), d)) (\<lambda>_ d.
              sbind (store_new ops fs data d) (\<lambda>start d.
                dir_write_file_entry ops fs dirclus name start (of_nat (length data)) (Some (de_name ent)) False d))
            else
              sbind (append_to_chain ops fs (dirent_first_clus ent) (de_size ent) data d) (\<lambda>(start, new_size) d.
                dir_write_file_entry ops fs dirclus name start new_size (Some (de_name ent)) False d)
        | None \<Rightarrow>
            sbind (store_new ops fs data d) (\<lambda>start d.
              dir_write_file_entry ops fs dirclus name start (of_nat (length data)) None False d)))"

definition join_slash :: "u8 list list \<Rightarrow> u8 list" where
  "join_slash cs = (case cs of [] \<Rightarrow> [] | c # cs \<Rightarrow> c @ concat (map (\<lambda>c. SLASH # c) cs))"

definition write_file :: "'b blk_ops \<Rightarrow> fat32 \<Rightarrow> u8 list \<Rightarrow> u8 list \<Rightarrow> bool \<Rightarrow> 'b \<Rightarrow> ((fat_err + unit) \<times> 'b) option" where
  "write_file ops fs path data overwrite d =
     (let cs = split_path path in
      if cs = [] then Some (Inl Name, d)
      else getr d (if butlast cs = [] then Some (Inr (Some (root_clus fs)))
                   else rbind (resolve_dir ops fs d (join_slash (butlast cs)))
                     (\<lambda>r. Some (Inr (case r of None \<Rightarrow> Some (root_clus fs) | Some c \<Rightarrow> Some c))))
             (\<lambda>parent_dir. write_file_at ops fs parent_dir (last cs) data overwrite d))"

end
