(* ===== verification/Fat32_Files.thy ===== *)
theory Fat32_Files
  imports Fat32_Dir
begin

text \<open>
  What the directory layer does on a well-formed volume: the bytes of a directory as 32-byte slots, the search
  for room, the effect of writing entries on the listing, and from these the round trip of a file through
  \<open>write_file\<close> and \<open>read_file\<close>.
\<close>

section \<open>Slots\<close>

lemma chunks_append:
  assumes "0 < n" "length xs = n * k"
  shows "chunks n (xs @ ys) = chunks n xs @ chunks n ys"
  using assms(2)
proof (induction k arbitrary: xs)
  case 0
  then show ?case using assms(1) by (simp add: chunks.simps [of n "[]"])
next
  case (Suc k)
  then have len: "n \<le> length xs" "xs \<noteq> []" using assms(1) by auto
  have "chunks n (drop n xs @ ys) = chunks n (drop n xs) @ chunks n ys" using Suc by simp
  with len assms(1) show ?case by (simp add: chunks.simps [of n "xs @ ys"] chunks.simps [of n xs])
qed

lemma chunks_single: "0 < n \<Longrightarrow> length p = n \<Longrightarrow> chunks n p = [p]"
  by (auto simp: chunks.simps [of n p] chunks.simps [of n "[]"])

lemma chunks_concat: "0 < n \<Longrightarrow> \<forall>p \<in> set ps. length p = n \<Longrightarrow> chunks n (concat ps) = ps"
proof (induction ps)
  case (Cons p ps)
  then show ?case using chunks_append [of n p 1 "concat ps"] by (simp add: chunks_single)
qed (simp add: chunks.simps)

lemma chunks_full:
  assumes "0 < n" "length xs = n * k"
  shows "length (chunks n xs) = k" "\<forall>c \<in> set (chunks n xs). length c = n" "concat (chunks n xs) = xs"
proof -
  have "length (chunks n xs) = k \<and> (\<forall>c \<in> set (chunks n xs). length c = n) \<and> concat (chunks n xs) = xs"
    using assms(2)
  proof (induction k arbitrary: xs)
    case 0
    then show ?case using assms(1) by (simp add: chunks.simps [of n "[]"])
  next
    case (Suc k)
    then have "xs \<noteq> []" "length (drop n xs) = n * k" using assms(1) by auto
    with Suc.IH [of "drop n xs"] Suc.prems assms(1) show ?case by (simp add: chunks.simps [of n xs])
  qed
  then show "length (chunks n xs) = k" "\<forall>c \<in> set (chunks n xs). length c = n" "concat (chunks n xs) = xs" by auto
qed

lemma slots_full: "length raw = 32 * k \<Longrightarrow> slots raw = chunks 32 raw"
  using chunks_full(2) [of 32 raw k] by (simp add: slots_def)

lemma chunks_nth:
  assumes "0 < n" "length xs = n * k" "i < k"
  shows "chunks n xs ! i = take n (drop (n * i) xs)"
  using assms(2,3)
proof (induction k arbitrary: xs i)
  case (Suc k)
  then have x: "xs \<noteq> []" "length (drop n xs) = n * k" using assms(1) by auto
  show ?case
  proof (cases i)
    case 0
    then show ?thesis using x(1) assms(1) by (simp add: chunks.simps [of n xs])
  next
    case (Suc j)
    then show ?thesis using x Suc.IH [of "drop n xs" j] Suc.prems(2) assms(1) by (simp add: chunks.simps [of n xs] add.commute)
  qed
qed simp

text \<open>Writing whole slots over a run of slots.\<close>

lemma chunks_splice:
  assumes "0 < n" "length xs = n * k" "\<forall>p \<in> set ps. length p = n" "j + length ps \<le> k"
  shows "chunks n (splice xs (n * j) (concat ps)) = take j (chunks n xs) @ ps @ drop (j + length ps) (chunks n xs)"
proof -
  let ?c = "chunks n xs"
  note full = chunks_full [OF assms(1,2)]
  have lenc: "length (concat qs) = n * length qs" if "\<forall>p \<in> set qs. length p = n" for qs :: "'a list list"
    using that by (induction qs) auto
  have take_c: "take (n * i) xs = concat (take i ?c)" "drop (n * i) xs = concat (drop i ?c)" if "i \<le> k" for i
  proof -
    have "xs = concat (take i ?c) @ concat (drop i ?c)"
      using full(3) by (metis append_take_drop_id concat_append)
    moreover have "\<forall>p \<in> set (take i ?c). length p = n" "length (take i ?c) = i"
      using full(1,2) that by (auto dest: in_set_takeD)
    then have "length (concat (take i ?c)) = n * i" using lenc by metis
    ultimately show "take (n * i) xs = concat (take i ?c)" "drop (n * i) xs = concat (drop i ?c)"
      by (metis append_eq_conv_conj)+
  qed
  have "splice xs (n * j) (concat ps) = concat (take j ?c @ ps @ drop (j + length ps) ?c)"
    using take_c(1) [of j] take_c(2) [of "j + length ps"] assms(4) lenc [OF assms(3)]
    by (simp add: splice_def distrib_left)
  moreover have "\<forall>p \<in> set (take j ?c @ ps @ drop (j + length ps) ?c). length p = n"
    using full(2) assms(3) by (auto dest: in_set_takeD in_set_dropD)
  ultimately show ?thesis using chunks_concat [OF assms(1)] by metis
qed

section \<open>The listing and the entries written into it\<close>

abbreviation live :: "u8 list \<Rightarrow> bool" where "live p \<equiv> p ! 0 \<noteq> 0"

text \<open>Up to the first free mark the listing is that of the slots before it, then that of the rest.\<close>

lemma dir_slots_append:
  "\<forall>p \<in> set xs. live p \<Longrightarrow> \<exists>es ck. \<forall>ys. dir_slots (xs @ ys) ents chk = dir_slots xs ents chk @ dir_slots ys es ck"
proof (induction xs arbitrary: ents chk)
  case Nil
  then show ?case by auto
next
  case (Cons p xs)
  then have p: "p ! 0 \<noteq> 0" and xs: "\<forall>p \<in> set xs. live p" by auto
  note IH = Cons.IH [OF xs]
  consider "p ! 0 = 0xE5" | "p ! 0 \<noteq> 0xE5" "is_lfn (p ! 11)" | "p ! 0 \<noteq> 0xE5" "\<not> is_lfn (p ! 11)" by blast
  then show ?case
  proof cases
    case 1
    with IH [of "[]" None] p show ?thesis by simp
  next
    case 2
    define ents' chk' where "ents' = (if l_ord (lfn_ent_of p) AND 0x40 \<noteq> 0 then [] else ents)"
      and "chk' = (if l_ord (lfn_ent_of p) AND 0x40 \<noteq> 0 then Some (l_checksum (lfn_ent_of p)) else chk)"
    have "dir_slots (p # zs) ents chk = dir_slots zs (if chk' \<noteq> None then ents' @ [lfn_ent_of p] else ents') chk'" for zs
      using p 2 by (simp add: ents'_def chk'_def Let_def)
    then show ?thesis using IH [of "if chk' \<noteq> None then ents' @ [lfn_ent_of p] else ents'" chk'] by simp
  next
    case 3
    with IH [of "[]" None] p show ?thesis by (auto simp: Let_def)
  qed
qed

lemma dir_slots_stop: "\<not> live p \<Longrightarrow> dir_slots (xs @ p # ys) ents chk = dir_slots (xs @ p # zs) ents chk"
proof (induction xs arbitrary: ents chk)
  case (Cons q xs)
  then show ?case by (auto simp: Let_def)
qed simp

section \<open>Room for entries\<close>

text \<open>The search over the sectors of a directory, each one as its 16 slots: the sector and the slot in it.\<close>

fun find_room :: "nat \<Rightarrow> u8 list list list \<Rightarrow> (nat \<times> nat) option" where
  "find_room need [] = None"
| "find_room need (g # gs) =
     (case run_scan need g 0 0 0 of
        Some st \<Rightarrow> Some (0, st)
      | None \<Rightarrow> map_option (\<lambda>(i, st). (Suc i, st)) (find_room need gs))"

lemma find_room_append:
  "find_room need (xs @ ys) =
     (case find_room need xs of Some r \<Rightarrow> Some r | None \<Rightarrow> map_option (\<lambda>(i, st). (length xs + i, st)) (find_room need ys))"
proof (induction xs)
  case Nil
  show ?case by (cases "find_room need ys") auto
next
  case (Cons x xs)
  then show ?case by (cases "find_room need ys") (auto split: option.splits)
qed

lemma find_room_bound: "find_room need gs = Some (i, st) \<Longrightarrow> i < length gs"
  by (induction need gs arbitrary: i st rule: find_room.induct) (auto split: option.splits)

lemma run_scan_used: "\<forall>p \<in> set us. \<not> slot_free p \<Longrightarrow> run_scan need (us @ zs) i 0 rs = run_scan need zs (i + length us) 0 rs"
  by (induction us arbitrary: i) auto

lemma run_scan_free:
  "\<forall>p \<in> set zs. slot_free p \<Longrightarrow> run < need \<Longrightarrow>
   run_scan need zs i run rs = (if need \<le> run + length zs then Some (if run = 0 then i else rs) else None)"
  by (induction zs arbitrary: i run rs) (auto simp: Let_def)

lemma run_scan_packed:
  assumes "\<forall>p \<in> set us. \<not> slot_free p" "\<forall>p \<in> set zs. slot_free p" "0 < need"
  shows "run_scan need (us @ zs) 0 0 0 = (if need \<le> length zs then Some (length us) else None)"
  using run_scan_used [OF assms(1), of need zs 0 0] run_scan_free [OF assms(2), of 0 need "length us" 0] assms(3) by simp

text \<open>In a directory whose free slots are all at its end, the entries go where the directory ends if they fit into that sector, and to the start of the next sector if they do not.\<close>

lemma find_room_packed:
  assumes "\<forall>g \<in> set gs. length g = 16" "concat gs = us @ zs" "\<forall>p \<in> set us. \<not> slot_free p" "\<forall>p \<in> set zs. slot_free p"
    "0 < need" "need \<le> 16"
  defines "q \<equiv> length us div 16" and "r \<equiv> length us mod 16"
  shows "find_room need gs = (if r + need \<le> 16 then (if q < length gs then Some (q, r) else None)
    else if Suc q < length gs then Some (Suc q, 0) else None)"
  using assms(1-4) unfolding q_def r_def
proof (induction gs arbitrary: us)
  case Nil
  then show ?case by simp
next
  case (Cons g gs)
  have g: "length g = 16" "\<forall>g \<in> set gs. length g = 16" using Cons.prems(1) by auto
  show ?case
  proof (cases "16 \<le> length us")
    case True
    have "take 16 (g @ concat gs) = take 16 (us @ zs)" using Cons.prems(2) by simp
    then have gu: "g = take 16 us" using g(1) True by simp
    have "drop 16 (g @ concat gs) = drop 16 (us @ zs)" using Cons.prems(2) by simp
    then have "concat gs = drop 16 us @ zs" using g(1) True by simp
    moreover have "\<forall>p \<in> set (drop 16 us). \<not> slot_free p" using Cons.prems(3) by (auto dest: in_set_dropD)
    moreover have "run_scan need g 0 0 0 = None"
      using run_scan_packed [of g "[]" need] Cons.prems(3) assms(5) gu by (auto dest: in_set_takeD)
    moreover have "length us div 16 = Suc ((length us - 16) div 16)" "length us mod 16 = (length us - 16) mod 16"
      using True by (simp_all add: le_div_geq le_mod_geq)
    ultimately show ?thesis using Cons.IH [of "drop 16 us"] g(2) Cons.prems(4) by simp
  next
    case False
    let ?z = "take (16 - length us) zs"
    have "take 16 (g @ concat gs) = take 16 (us @ zs)" using Cons.prems(2) by simp
    then have gz: "g = us @ ?z" using g(1) False by simp
    have "drop 16 (g @ concat gs) = drop 16 (us @ zs)" using Cons.prems(2) by simp
    then have rest: "concat gs = drop (16 - length us) zs" using g(1) False by simp
    have scan: "run_scan need g 0 0 0 = (if need \<le> 16 - length us then Some (length us) else None)"
    proof -
      have "\<forall>p \<in> set ?z. slot_free p" using Cons.prems(4) by (auto dest: in_set_takeD)
      from run_scan_packed [OF Cons.prems(3) this assms(5)] have "run_scan need g 0 0 0 = (if need \<le> length ?z then Some (length us) else None)"
        unfolding gz [symmetric] .
      moreover have "length us + length ?z = 16" using gz g(1) by (metis length_append)
      then have "length ?z = 16 - length us" by linarith
      ultimately show ?thesis by (simp only:)
    qed
    have q: "length us div 16 = 0" "length us mod 16 = length us" using False by simp_all
    show ?thesis
    proof (cases "need \<le> 16 - length us")
      case True
      then show ?thesis using scan q False by simp
    next
      case no: False
      have "find_room need gs = (if 0 < length gs then Some (0, 0) else None)"
      proof (cases gs)
        case hs: (Cons h hs)
        have "set h \<subseteq> set (drop (16 - length us) zs)" unfolding rest [symmetric] hs by auto
        then have "\<forall>p \<in> set h. slot_free p" using Cons.prems(4) set_drop_subset by fast
        moreover have "length h = 16" using g(2) hs by simp
        ultimately have "run_scan need h 0 0 0 = Some 0" using run_scan_packed [of "[]" h need] assms(5,6) by simp
        then show ?thesis using hs by simp
      qed simp
      then show ?thesis using scan q no False by auto
    qed
  qed
qed

section \<open>Directories on the disk\<close>

definition csecs :: "('b \<Rightarrow> nat \<Rightarrow> u8) \<Rightarrow> fat32 \<Rightarrow> 'b \<Rightarrow> u32 \<Rightarrow> u8 list list" where
  "csecs img fs d c = map (\<lambda>s. sec img fs d (csec fs c + s)) [0..<unat (spc fs)]"

text \<open>The slots of a directory with the clusters \<open>cs\<close>, by sector and in one list.\<close>

definition groups :: "('b \<Rightarrow> nat \<Rightarrow> u8) \<Rightarrow> fat32 \<Rightarrow> 'b \<Rightarrow> u32 list \<Rightarrow> u8 list list list" where
  "groups img fs d cs = map (chunks 32) (concat (map (csecs img fs d) cs))"

definition dslots :: "('b \<Rightarrow> nat \<Rightarrow> u8) \<Rightarrow> fat32 \<Rightarrow> 'b \<Rightarrow> u32 list \<Rightarrow> u8 list list" where
  "dslots img fs d cs = chunks 32 (content (con img fs d) cs)"

lemma chunks_sectors: "\<forall>b \<in> set bs. length b = 512 \<Longrightarrow> chunks 32 (concat bs) = concat (map (chunks 32) bs)"
proof (induction bs)
  case (Cons b bs)
  then show ?case using chunks_append [of 32 b 16 "concat bs"] by simp
qed (simp add: chunks.simps)

lemma groups_slots:
  assumes "set cs \<subseteq> {c. in_vol fs c}"
  shows "concat (groups img fs d cs) = dslots img fs d cs" "\<forall>g \<in> set (groups img fs d cs). length g = 16"
    "length (groups img fs d cs) = unat (spc fs) * length cs"
proof -
  have "content (con img fs d) cs = concat (concat (map (csecs img fs d) cs))"
    using assms by (induction cs) (auto simp: con_in_vol clus_def secs_def csecs_def)
  moreover have "\<forall>b \<in> set (concat (map (csecs img fs d) cs)). length b = 512" by (auto simp: csecs_def)
  ultimately show "concat (groups img fs d cs) = dslots img fs d cs" by (simp add: groups_def dslots_def chunks_sectors)
  show "\<forall>g \<in> set (groups img fs d cs). length g = 16"
    by (auto simp: groups_def csecs_def chunks_full(1) [of 32 _ 16])
  have "length (concat (map (csecs img fs d) cs)) = unat (spc fs) * length cs"
    by (induction cs) (auto simp: csecs_def)
  then show "length (groups img fs d cs) = unat (spc fs) * length cs" by (simp add: groups_def)
qed

lemma free_run_secs_ok:
  fixes f :: u32
  assumes "blk_ok ops img cap" "vol_ok fs cap" "\<forall>s \<in> set ss. unat f + s < unat (totsec fs)"
  shows "free_run_secs ops fs d need f ss =
    Some (Inr (map_option (\<lambda>(i, st). (ss ! i, st)) (find_room need (map (\<lambda>s. chunks 32 (sec img fs d (unat f + s))) ss))))"
  using assms(3)
proof (induction ss)
  case (Cons s ss)
  have s: "unat f + s < unat (totsec fs)" using Cons.prems by simp
  note n = sector_no [OF s]
  have rd: "read_sector ops fs d (f + of_nat s) = Some (Inr (sec img fs d (unat f + s)))"
    using read_sector_ok [OF assms(1,2), of "f + of_nat s" d] n(2) s by simp
  have "map_option (\<lambda>(i, st). ((s # ss) ! i, st)) (map_option (\<lambda>(i, st). (Suc i, st)) r) = map_option (\<lambda>(i, st). (ss ! i, st)) r"
    for r :: "(nat \<times> nat) option" by (cases r) auto
  then show ?case using Cons n(1) rd by (auto split: option.splits)
qed simp

lemma dir_find_free_run_ok:
  assumes "blk_ok ops img cap" "vol_ok fs cap" "chain (tab img fs d) (c # cs)"
    "find_room need (groups img fs d (c # cs)) = Some (i, st)"
  shows "dir_find_free_run ops fs c need d = Some (Inr ((c # cs) ! (i div unat (spc fs)), i mod unat (spc fs), st), d)"
  using assms(3,4)
proof (induction cs arbitrary: c i)
  case Nil
  let ?n = "unat (spc fs)"
  have c: "in_vol fs c" using chain_dom [OF Nil.prems(1)] by (auto simp: dom_tab)
  obtain f where f: "clus_to_first_sector fs c = Some f" "unat f = csec fs c"
    using clus_to_first_sector_ok [OF assms(2) c] by blast
  have i: "i < ?n" using find_room_bound [OF Nil.prems(2)] by (simp add: groups_def csecs_def)
  have "\<forall>s \<in> set [0..<?n]. unat f + s < unat (totsec fs)" using csec_fits(1) [OF assms(2) c] f(2) by auto
  from free_run_secs_ok [OF assms(1,2) this, of d need] Nil.prems(2) f(2) i
  have "free_run_secs ops fs d need f [0..<?n] = Some (Inr (Some (i, st)))" by (simp add: groups_def csecs_def comp_def)
  then show ?case using f(1) i by (subst dir_find_free_run.simps) simp
next
  case (Cons e cs)
  let ?n = "unat (spc fs)"
  have v: "tab img fs d c = Some e" "chain (tab img fs d) (e # cs)" using Cons.prems(1) by auto
  have c: "in_vol fs c" using v(1) by (auto dest: tab_SomeD)
  have "in_vol fs e" using chain_dom [OF v(2)] by (auto simp: dom_tab)
  note e = in_vol_link [OF assms(2) this]
  obtain f where f: "clus_to_first_sector fs c = Some f" "unat f = csec fs c"
    using clus_to_first_sector_ok [OF assms(2) c] by blast
  let ?g = "map (\<lambda>s. chunks 32 (sec img fs d (unat f + s))) [0..<?n]"
  have split: "groups img fs d (c # e # cs) = ?g @ groups img fs d (e # cs)"
    by (simp add: groups_def csecs_def f(2) comp_def)
  have "\<forall>s \<in> set [0..<?n]. unat f + s < unat (totsec fs)" using csec_fits(1) [OF assms(2) c] f(2) by auto
  note fr = free_run_secs_ok [OF assms(1,2) this, of d need]
  show ?case
  proof (cases "find_room need ?g")
    case None
    then obtain k where k: "find_room need (groups img fs d (e # cs)) = Some (k, st)" "i = ?n + k"
      using Cons.prems(2) unfolding split find_room_append by auto
    have "grow_dir ops fs c d = Some (Inr e, d)"
      using fat_read [OF assms(1,2) v(1)] e by (simp add: grow_dir_def chain_end_def)
    then have "dir_find_free_run ops fs c need d = dir_find_free_run ops fs e need d"
      using f(1) fr None by (subst dir_find_free_run.simps) simp
    moreover have "0 < ?n" using assms(2) by (simp add: vol_ok_def)
    then have "i div ?n = Suc (k div ?n)" "i mod ?n = k mod ?n" unfolding k(2) by (simp_all only: div_add_self1 mod_add_self1 Suc_eq_plus1)
    ultimately show ?thesis using Cons.IH [OF v(2) k(1)] by simp
  next
    case (Some r)
    then have r: "r = (i, st)" using Cons.prems(2) unfolding split find_room_append by simp
    have i: "i < ?n" using find_room_bound Some r by fastforce
    have "free_run_secs ops fs d need f [0..<?n] = Some (Inr (Some (i, st)))" using fr Some r i by simp
    then show ?thesis using f(1) i by (subst dir_find_free_run.simps) simp
  qed
qed

text \<open>Writing one sector of a cluster, and what it does to the bytes of a chain.\<close>

lemma write_in_cluster:
  fixes f :: u32
  assumes "blk_ok ops img cap" "vol_ok fs cap" "in_vol fs c" "unat f = csec fs c" "s < unat (spc fs)" "length buf = 512"
  shows "\<exists>d'. write_sector ops fs (f + of_nat s) buf d = Some (Inr (), d') \<and> tab img fs d' = tab img fs d
    \<and> con img fs d' = (con img fs d)(c \<mapsto> splice (clus img fs d c) (512 * s) buf)"
proof -
  let ?n = "unat (spc fs)"
  have s: "unat f + s < unat (totsec fs)" using csec_fits(1) [OF assms(2,3)] assms(4,5) by simp
  note no = sector_no [OF s]
  obtain d' where d': "write_sector ops fs (f + of_nat s) buf d = Some (Inr (), d')"
    "sec img fs d' = (sec img fs d)(csec fs c + s := buf)"
    using write_sector_ok [OF assms(1,2), of "f + of_nat s" buf d] no(2) s assms(4,6) by auto
  have "fat img fs d' x = fat img fs d x" if "in_vol fs x" for x
    using d'(2) fat_sec_before [OF assms(2) that] csec_fits(2) [OF assms(2,3)] unfolding fat_def by simp
  then have tab: "tab img fs d' = tab img fs d" by (auto simp: tab_def)
  have other: "clus img fs d' x = clus img fs d x" if "in_vol fs x" "x \<noteq> c" for x
    unfolding clus_def using csec_disjoint [OF assms(3) that] assms(5) d'(2) by (intro secs_cong) auto
  have "clus img fs d' c = splice (clus img fs d c) (512 * s) buf"
  proof -
    have up: "[0..<?n] = [0..<s] @ s # [Suc s..<?n]" using assms(5) upt_add_eq_append [of 0 s "?n - s"] by (simp add: upt_conv_Cons)
    have app: "secs img fs d f (xs @ ys) = secs img fs d f xs @ secs img fs d f ys" for d f xs ys by (simp add: secs_def)
    have keep: "secs img fs d' (csec fs c) xs = secs img fs d (csec fs c) xs" if "s \<notin> set xs" for xs
      using that d'(2) by (intro secs_cong) auto
    show ?thesis unfolding clus_def up app
      using keep [of "[0..<s]"] keep [of "[Suc s..<?n]"] d'(2) assms(6) by (simp add: splice_def)
  qed
  then have "con img fs d' = (con img fs d)(c \<mapsto> splice (clus img fs d c) (512 * s) buf)"
    using other assms(3) by (auto simp: con_def fun_eq_iff)
  with d'(1) tab show ?thesis by blast
qed

lemma splice_append:
  "length xs \<le> i \<Longrightarrow> splice (xs @ ys) i b = xs @ splice ys (i - length xs) b"
  "i + length b \<le> length xs \<Longrightarrow> splice (xs @ ys) i b = splice xs i b @ ys"
  by (simp_all add: splice_def)

lemma content_patch:
  assumes "vol_ok fs cap" "set cs \<subseteq> {c. in_vol fs c}" "distinct cs" "k < length cs" "o' + length b \<le> cbytes fs"
  shows "content ((con img fs d)(cs ! k \<mapsto> splice (clus img fs d (cs ! k)) o' b)) cs
    = splice (content (con img fs d) cs) (cbytes fs * k + o') b"
  using assms(2-4)
proof (induction cs arbitrary: k)
  case (Cons c cs)
  have c: "con img fs d c = Some (clus img fs d c)" using Cons.prems(1) by (simp add: con_in_vol)
  show ?case
  proof (cases k)
    case 0
    define C where "C = (con img fs d)(c \<mapsto> splice (clus img fs d c) o' b)"
    have "content C cs = content (con img fs d) cs" "C c = Some (splice (clus img fs d c) o' b)"
      using Cons.prems(2) by (auto simp: C_def intro!: content_cong)
    then show ?thesis using 0 c assms(5) by (simp add: C_def [symmetric] splice_append(2))
  next
    case (Suc m)
    then have ne: "cs ! m \<noteq> c" using Cons.prems(2,3) by auto
    define C where "C = (con img fs d)(cs ! m \<mapsto> splice (clus img fs d (cs ! m)) o' b)"
    have "content C cs = splice (content (con img fs d) cs) (cbytes fs * m + o') b"
      unfolding C_def by (rule Cons.IH) (use Cons.prems Suc in auto)
    moreover have "C c = Some (clus img fs d c)" using ne c by (simp add: C_def)
    ultimately show ?thesis using Suc c C_def [symmetric] splice_append(1) [of "clus img fs d c" "cbytes fs + cbytes fs * m + o'"] by (simp add: algebra_simps)
  qed
qed simp

text \<open>A chain has no cluster twice.\<close>

lemma chain_unique:
  assumes "vol_ok fs cap" "chain (tab img fs d) (c # xs)" "chain (tab img fs d) (c # ys)"
  shows "xs = ys"
  using assms(2,3)
proof (induction xs arbitrary: c ys)
  case Nil
  then obtain v where v: "tab img fs d c = Some v" "is_eoc v" by (auto split: option.splits)
  show ?case
  proof (cases ys)
    case (Cons y ys')
    then have "v = y" "in_vol fs y" using Nil.prems(2) v(1) chain_dom [of "tab img fs d" "y # ys'"] by (auto simp: dom_tab)
    then show ?thesis using in_vol_link(1) [OF assms(1)] v(2) by blast
  qed simp
next
  case (Cons x xs)
  then have x: "tab img fs d c = Some x" "chain (tab img fs d) (x # xs)" by auto
  have "in_vol fs x" using chain_dom [OF x(2)] by (auto simp: dom_tab)
  then have "\<not> is_eoc x" by (rule in_vol_link(1) [OF assms(1)])
  then obtain ys' where "ys = x # ys'" "chain (tab img fs d) (x # ys')" using Cons.prems(2) x(1) by (cases ys) auto
  then show ?case using Cons.IH [OF x(2)] by simp
qed

lemma chain_suffix: "chain T (xs @ c # ys) \<Longrightarrow> chain T (c # ys)"
proof (induction xs)
  case (Cons x xs)
  then show ?case by (cases xs) auto
qed simp

lemma chain_distinct:
  assumes "vol_ok fs cap" "chain (tab img fs d) cs"
  shows "distinct cs"
proof (rule ccontr)
  assume "\<not> distinct cs"
  then obtain c xs ys zs where "cs = xs @ [c] @ ys @ [c] @ zs" by (metis not_distinct_decomp)
  then have "chain (tab img fs d) (c # ys @ c # zs)" "chain (tab img fs d) (c # zs)"
    using assms(2) chain_suffix [of "tab img fs d" xs c "ys @ c # zs"] chain_suffix [of "tab img fs d" "xs @ c # ys" c zs] by auto
  then have "ys @ c # zs = zs" by (rule chain_unique [OF assms(1)])
  then have "length (ys @ c # zs) = length zs" by simp
  then show False by simp
qed

text \<open>A file's entries replace a run of slots in the directory and nothing else.\<close>

lemma splice_splice:
  assumes "i + n \<le> length xs" "j + length b \<le> n"
  shows "splice xs i (splice (take n (drop i xs)) j b) = splice xs (i + j) b"
proof -
  define m where "m = n - (j + length b)"
  have m: "n = j + length b + m" using assms(2) by (simp add: m_def)
  let ?ys = "drop i xs"
  have "splice (take n ?ys) j b = take j ?ys @ b @ take m (drop (j + length b) ?ys)"
    by (simp add: splice_def drop_take m min_def)
  moreover have "length (splice (take n ?ys) j b) = n" using assms by (simp add: splice_def)
  moreover have "drop (i + n) xs = drop m (drop (j + length b) ?ys)" unfolding m by (simp add: ac_simps)
  ultimately have "splice xs i (splice (take n ?ys) j b)
      = (take i xs @ take j ?ys) @ b @ take m (drop (j + length b) ?ys) @ drop m (drop (j + length b) ?ys)"
    unfolding splice_def [of xs] by simp
  also have "\<dots> = take (i + j) xs @ b @ drop (j + length b) ?ys" by (simp only: take_add append_take_drop_id)
  finally show ?thesis by (simp add: splice_def ac_simps)
qed

lemma nth_concat_equal:
  assumes "\<forall>x \<in> set xss. length x = n" "i < n * length xss"
  shows "concat xss ! i = xss ! (i div n) ! (i mod n)"
  using assms
proof (induction xss arbitrary: i)
  case (Cons x xss)
  show ?case
  proof (cases "i < n")
    case False
    have "0 < n" using Cons.prems(2) by (cases n) auto
    then have "i div n = Suc ((i - n) div n)" "i mod n = (i - n) mod n" "i - n < n * length xss"
      using Cons.prems(2) False by (auto simp: le_div_geq le_mod_geq)
    then show ?thesis using Cons False by (simp add: nth_append)
  qed (use Cons.prems(1) in \<open>simp add: nth_append\<close>)
qed simp

lemma sector_of_content:
  assumes "set cs \<subseteq> {c. in_vol fs c}" "i < unat (spc fs) * length cs"
  shows "sec img fs d (csec fs (cs ! (i div unat (spc fs))) + i mod unat (spc fs)) = take 512 (drop (512 * i) (content (con img fs d) cs))"
proof -
  let ?n = "unat (spc fs)" and ?bs = "concat (map (csecs img fs d) cs)"
  have con: "content (con img fs d) cs = concat ?bs"
    using assms(1) by (induction cs) (auto simp: con_in_vol clus_def secs_def csecs_def)
  have b: "\<forall>b \<in> set ?bs. length b = 512" by (auto simp: csecs_def)
  have lb: "length ?bs = ?n * length cs" by (induction cs) (auto simp: csecs_def)
  have "0 < ?n" using assms(2) by (cases ?n) auto
  then have q: "i div ?n < length cs" "i mod ?n < ?n" using assms(2) by (simp_all add: less_mult_imp_div_less mult.commute)
  have "?bs ! i = csecs img fs d (cs ! (i div ?n)) ! (i mod ?n)"
    using nth_concat_equal [of "map (csecs img fs d) cs" ?n i] assms(2) q by (simp add: csecs_def)
  also have "\<dots> = sec img fs d (csec fs (cs ! (i div ?n)) + i mod ?n)" using q(2) by (simp add: csecs_def)
  finally have "sec img fs d (csec fs (cs ! (i div ?n)) + i mod ?n) = ?bs ! i" ..
  also have "\<dots> = chunks 512 (concat ?bs) ! i" using chunks_concat [of 512 ?bs] b by simp
  also have "\<dots> = take 512 (drop (512 * i) (concat ?bs))"
    by (rule chunks_nth [where k = "?n * length cs"]) (use assms length_content [OF assms(1), of img d] in \<open>simp_all add: cbytes_def con\<close>)
  finally show ?thesis unfolding con .
qed

lemma dir_list_ok:
  assumes "blk_ok ops img cap" "vol_ok fs cap" "chain (tab img fs d) (c # cs)" "cbytes fs * length (c # cs) \<le> 256 * 1024"
  shows "dir_list_from_with_names ops fs d c = Some (Inr (dir_slots (dslots img fs d (c # cs)) [] None))"
proof -
  have iv: "set (c # cs) \<subseteq> {c. in_vol fs c}" using chain_dom [OF assms(3)] by (simp add: dom_tab)
  then have "\<not> c < 2" using in_vol_link(2) [OF assms(2)] by simp
  moreover have len: "length (content (con img fs d) (c # cs)) = cbytes fs * length (c # cs)" by (rule length_content [OF iv])
  moreover have "slots (content (con img fs d) (c # cs)) = dslots img fs d (c # cs)"
    using len slots_full [of "content (con img fs d) (c # cs)" "unat (spc fs) * 16 * length (c # cs)"]
    by (simp add: dslots_def cbytes_def)
  ultimately show ?thesis
    using read_chain_ok [OF assms(1-3), of "256 * 1024"] assms(4)
    by (simp add: dir_list_from_with_names_def read_cluster_chain_def del: content_simps)
qed

lemma write_dir_entries_ok:
  assumes "blk_ok ops img cap" "vol_ok fs cap" "chain (tab img fs d) (c # cs)"
    "find_room (length es) (groups img fs d (c # cs)) = Some (i, st)" "\<forall>p \<in> set es. length p = 32" "st + length es \<le> 16"
  defines "j \<equiv> 16 * i + st"
  shows "\<exists>d'. write_dir_entries_at ops fs c es d = Some (Inr (), d') \<and> tab img fs d' = tab img fs d
    \<and> dslots img fs d' (c # cs) = take j (dslots img fs d (c # cs)) @ es @ drop (j + length es) (dslots img fs d (c # cs))
    \<and> (\<forall>x. x \<notin> set (c # cs) \<longrightarrow> con img fs d' x = con img fs d x)"
proof -
  let ?n = "unat (spc fs)" and ?B = "content (con img fs d) (c # cs)"
  define k s where "k = i div ?n" and "s = i mod ?n"
  have n: "0 < ?n" using assms(2) by (simp add: vol_ok_def)
  have iv: "set (c # cs) \<subseteq> {c. in_vol fs c}" using chain_dom [OF assms(3)] by (simp add: dom_tab)
  have i: "i < ?n * length (c # cs)" using find_room_bound [OF assms(4)] groups_slots(3) [OF iv] by metis
  then have k: "k < length (c # cs)" "s < ?n" "i = ?n * k + s"
    using n by (simp_all add: k_def s_def less_mult_imp_div_less mult.commute)
  define x where "x = (c # cs) ! k"
  have x: "in_vol fs x" using iv k(1) unfolding x_def by (metis mem_Collect_eq nth_mem subsetD)
  obtain f where f: "clus_to_first_sector fs x = Some f" "unat f = csec fs x" using clus_to_first_sector_ok [OF assms(2) x] by blast
  have sn: "unat f + s < unat (totsec fs)" using csec_fits(1) [OF assms(2) x] f(2) k(2) by simp
  note no = sector_no [OF sn]
  let ?old = "sec img fs d (csec fs x + s)"
  define buf where "buf = splice ?old (32 * st) (concat es)"
  have lc: "length (concat es) = 32 * length es" using assms(5) by (induction es) auto
  then have fit: "32 * st + length (concat es) \<le> 512" using assms(6) by simp
  then have len: "length buf = 512" by (simp add: buf_def splice_def)
  obtain d' where d': "write_sector ops fs (f + of_nat s) buf d = Some (Inr (), d')" "tab img fs d' = tab img fs d"
    "con img fs d' = (con img fs d)(x \<mapsto> splice (clus img fs d x) (512 * s) buf)"
    using write_in_cluster [OF assms(1,2) x f(2) k(2) len] by blast
  have rd: "read_sector ops fs d (f + of_nat s) = Some (Inr ?old)"
    using read_sector_ok [OF assms(1,2), of "f + of_nat s" d] no(2) sn f(2) by simp
  have w: "write_dir_entries_at ops fs c es d = Some (Inr (), d')"
    using dir_find_free_run_ok [OF assms(1-4)] f(1) no(1) rd d'(1) fit
    unfolding k_def [symmetric] s_def [symmetric] x_def [symmetric] buf_def
    by (simp add: write_dir_entries_at_def assert_that_def SEC_def mult.commute)
  have cb: "512 * s + length buf \<le> cbytes fs"
  proof -
    have "Suc s * 512 \<le> ?n * 512" using k(2) by (intro mult_le_mono1) simp
    then show ?thesis using len by (simp add: cbytes_def)
  qed
  have lenB: "length ?B = cbytes fs * length (c # cs)" by (rule length_content [OF iv])
  have pos: "cbytes fs * k + 512 * s = 512 * i" using k(3) by (simp add: cbytes_def algebra_simps)
  have old: "?old = take 512 (drop (512 * i) ?B)"
    using sector_of_content [OF iv i] by (simp add: x_def k_def s_def)
  have room: "512 * i + 512 \<le> length ?B"
  proof -
    have "Suc i * 512 \<le> ?n * length (c # cs) * 512" using i by (intro mult_le_mono1) simp
    then show ?thesis using lenB by (simp add: cbytes_def algebra_simps)
  qed
  have "content (con img fs d') (c # cs) = splice ?B (512 * i) buf"
    unfolding d'(3) x_def pos [symmetric]
    by (rule content_patch [OF assms(2) iv chain_distinct [OF assms(2,3)] k(1) cb])
  also have "\<dots> = splice ?B (32 * j) (concat es)"
    unfolding buf_def old using splice_splice [OF room fit] by (simp add: j_def algebra_simps)
  finally have "dslots img fs d' (c # cs) = chunks 32 (splice ?B (32 * j) (concat es))" by (simp add: dslots_def)
  moreover have "length ?B = 32 * (?n * 16 * length (c # cs))" using lenB by (simp add: cbytes_def)
  moreover have "j + length es \<le> ?n * 16 * length (c # cs)"
  proof -
    have "Suc i * 16 \<le> ?n * length (c # cs) * 16" using i by (intro mult_le_mono1) simp
    then show ?thesis using assms(6) by (simp add: j_def algebra_simps)
  qed
  ultimately have "dslots img fs d' (c # cs) = take j (dslots img fs d (c # cs)) @ es @ drop (j + length es) (dslots img fs d (c # cs))"
    using chunks_splice [of 32 ?B "?n * 16 * length (c # cs)" es j] assms(5) by (simp add: dslots_def)
  moreover have "con img fs d' y = con img fs d y" if "y \<notin> set (c # cs)" for y
  proof -
    have "y \<noteq> x" using that k(1) unfolding x_def by (metis nth_mem)
    then show ?thesis by (simp add: d'(3))
  qed
  ultimately show ?thesis using w d'(2) by blast
qed

section \<open>Creating a file\<close>

lemma dirent_first_clus_set [simp]: "dirent_first_clus (set_dirent_first_clus c e) = c"
proof -
  have "push_bit 16 (ucast (ucast (drop_bit 16 c) :: u16)) OR ucast (ucast c :: u16) = c"
    by (rule bit_word_eqI) (auto simp: bit_simps)
  then show ?thesis by (simp add: dirent_first_clus_def set_dirent_first_clus_def)
qed

text \<open>The entry written for a new file.\<close>

definition file_ent :: "u8 list \<Rightarrow> u32 \<Rightarrow> nat \<Rightarrow> dir_ent" where
  "file_ent short c n = (set_dirent_first_clus c (new_dir_ent short ATTR_ARCHIVE))\<lparr>de_size := of_nat n\<rparr>"

lemma file_ent_facts [simp]:
  "de_name (file_ent short c n) = short" "de_attr (file_ent short c n) = ATTR_ARCHIVE" "de_size (file_ent short c n) = of_nat n"
  "dirent_first_clus (file_ent short c n) = c" "\<not> is_dir_ent (file_ent short c n)"
proof -
  show "dirent_first_clus (file_ent short c n) = c"
    using dirent_first_clus_set [of c "new_dir_ent short ATTR_ARCHIVE"] by (simp add: file_ent_def dirent_first_clus_def)
qed (simp_all add: file_ent_def set_dirent_first_clus_def new_dir_ent_def is_dir_ent_def ATTR_ARCHIVE_def ATTR_DIR_def)

definition slots_needed :: "u8 list \<Rightarrow> nat" where
  "slots_needed name = Suc ((length name + 13) div 13)"

lemma groups_cong:
  assumes "set cs \<subseteq> {c. in_vol fs c}" "\<forall>c \<in> set cs. con img fs d' c = con img fs d c"
  shows "groups img fs d' cs = groups img fs d cs" "dslots img fs d' cs = dslots img fs d cs"
proof -
  have "csecs img fs e c = chunks 512 (the (con img fs e c))" if "c \<in> set cs" for e c
  proof -
    have "the (con img fs e c) = concat (csecs img fs e c)" using assms(1) that by (auto simp: con_in_vol clus_def secs_def csecs_def)
    moreover have "chunks 512 (concat (csecs img fs e c)) = csecs img fs e c" by (rule chunks_concat) (auto simp: csecs_def)
    ultimately show ?thesis by simp
  qed
  then have "map (csecs img fs d') cs = map (csecs img fs d) cs" using assms(2) by simp
  then show "groups img fs d' cs = groups img fs d cs" by (simp only: groups_def)
  show "dslots img fs d' cs = dslots img fs d cs" unfolding dslots_def using content_cong [of cs] assms(2) by metis
qed

text \<open>What \<open>store_new\<close> leaves behind: the data in clusters that were free, everything else as it was.\<close>

lemma store_new_frame:
  assumes "blk_ok ops img cap" "vol_ok fs cap" "data \<noteq> [] \<longrightarrow> more_clusters fs data < card (free_clusters (tab img fs d))"
  shows "\<exists>c d' fcs. store_new ops fs data d = Some (Inr c, d') \<and> set fcs \<subseteq> free_clusters (tab img fs d)
    \<and> (\<forall>x. x \<notin> set fcs \<longrightarrow> tab img fs d' x = tab img fs d x \<and> con img fs d' x = con img fs d x)
    \<and> (\<forall>d2. (\<forall>x \<in> set fcs. tab img fs d2 x = tab img fs d' x \<and> con img fs d2 x = con img fs d' x) \<longrightarrow>
         read_cluster_chain ops fs d2 c (length data) = Some (Inr data)) \<and> (data \<noteq> [] \<longrightarrow> \<not> c < 2)"
proof (cases "data = []")
  case True
  then show ?thesis by (intro exI [of _ 0] exI [of _ d] exI [of _ "[]"]) (simp add: store_new_def read_cluster_chain_def)
next
  case False
  then obtain c cs d' where st: "store_new ops fs data d = Some (Inr c, d')" "c \<in> free_clusters (tab img fs d)"
    "written img fs d c data cs d'" using store_new_ok [OF assms(1,2), of data d] assms(3) by auto
  note w = st(3) [unfolded written_def]
  have c2: "\<not> c < 2" using in_vol_link(2) [OF assms(2) free_clusters_in_vol [OF st(2)]] .
  have "read_cluster_chain ops fs d2 c (length data) = Some (Inr data)"
    if same: "\<forall>x \<in> set (c # cs). tab img fs d2 x = tab img fs d' x \<and> con img fs d2 x = con img fs d' x" for d2
  proof -
    have "chain (tab img fs d2) (c # cs)" using w chain_cong [of "c # cs" "tab img fs d2" "tab img fs d'"] same by blast
    moreover have "content (con img fs d2) (c # cs) = content (con img fs d') (c # cs)" by (rule content_cong) (use same in blast)
    moreover have "take (length data) (content (con img fs d') (c # cs)) = data"
      unfolding w [THEN conjunct2, THEN conjunct2, THEN conjunct2, THEN conjunct2, THEN conjunct2] by simp
    ultimately show ?thesis using read_chain_ok [OF assms(1,2), of d2 c cs "length data"] False c2
      by (simp add: read_cluster_chain_def del: content_simps)
  qed
  moreover have "set (c # cs) \<subseteq> free_clusters (tab img fs d)" using w st(2) by auto
  moreover have "\<forall>x. x \<notin> set (c # cs) \<longrightarrow> tab img fs d' x = tab img fs d x \<and> con img fs d' x = con img fs d x" using w by blast
  ultimately show ?thesis using st(1) c2 by blast
qed

text \<open>
  A directory the new name can go into: its clusters \<open>dc # dcs\<close>, small enough to be read as a whole, with no
  entry of that name, a free short name, and room.
\<close>

definition can_create :: "('b \<Rightarrow> nat \<Rightarrow> u8) \<Rightarrow> fat32 \<Rightarrow> 'b \<Rightarrow> u32 \<Rightarrow> u32 list \<Rightarrow> u8 list \<Rightarrow> u8 list \<Rightarrow> bool" where
  "can_create img fs d dc dcs name short \<longleftrightarrow>
     chain (tab img fs d) (dc # dcs) \<and> cbytes fs * length (dc # dcs) \<le> 256 * 1024
     \<and> long_name_ok name \<and> slots_needed name \<le> 16
     \<and> (let l = dir_slots (dslots img fs d (dc # dcs)) [] None in find_name name l = None
          \<and> (case make_short_candidate name of Inl _ \<Rightarrow> False
             | Inr base \<Rightarrow> unique_loop (map (\<lambda>(_, ent). de_name ent) l) 1 10 base = Inr short))"

lemma create_file_ok:
  assumes "blk_ok ops img cap" "vol_ok fs cap" "can_create img fs d dc dcs name short"
    "data \<noteq> [] \<longrightarrow> more_clusters fs data < card (free_clusters (tab img fs d))"
    "find_room (slots_needed name) (groups img fs d (dc # dcs)) = Some (i, st)" "st + slots_needed name \<le> 16"
  defines "ds \<equiv> dslots img fs d (dc # dcs)" and "j \<equiv> 16 * i + st"
  shows "\<exists>c raws d'. write_file_at ops fs (Some dc) name data ow d = Some (Inr (), d') \<and> chain (tab img fs d') (dc # dcs)
    \<and> build_lfn_entries short name = Inr raws \<and> short_ok short
    \<and> dslots img fs d' (dc # dcs) = take j ds @ raws @ [dir_ent_bytes (file_ent short c (length data))] @ drop (j + slots_needed name) ds
    \<and> read_cluster_chain ops fs d' c (length data) = Some (Inr data) \<and> (data \<noteq> [] \<longrightarrow> \<not> c < 2)"
proof -
  let ?cs = "dc # dcs" and ?l = "dir_slots ds [] None"
  note can = assms(3) [unfolded can_create_def Let_def, folded ds_def]
  have ch: "chain (tab img fs d) ?cs" and sz: "cbytes fs * length ?cs \<le> 256 * 1024" and nm: "long_name_ok name" "slots_needed name \<le> 16"
    and none: "find_name name ?l = None" using can by auto
  obtain base where base: "make_short_candidate name = Inr base" "unique_loop (map (\<lambda>(_, ent). de_name ent) ?l) 1 10 base = Inr short"
    using can by (auto split: sum.splits)
  have short: "short_ok short" using unique_loop_ok [OF base(2)] make_short_candidate_ok [OF base(1)] by blast
  have iv: "set ?cs \<subseteq> {c. in_vol fs c}" using chain_dom [OF ch] by (simp add: dom_tab)
  have "(length name + 13) div 13 \<le> 15" using nm(2) by (simp add: slots_needed_def)
  then have ln: "length name < 403" by linarith
  obtain raws where raws: "build_lfn_entries short name = Inr raws"
    using build_lfn_shape(4) [OF nm(1) ln, of short] by simp
  note rw = build_lfn_hd(2,3) [OF nm(1) ln raws]
  obtain c d1 fcs where st: "store_new ops fs data d = Some (Inr c, d1)" "set fcs \<subseteq> free_clusters (tab img fs d)"
    "\<forall>x. x \<notin> set fcs \<longrightarrow> tab img fs d1 x = tab img fs d x \<and> con img fs d1 x = con img fs d x"
    "\<forall>d2. (\<forall>x \<in> set fcs. tab img fs d2 x = tab img fs d1 x \<and> con img fs d2 x = con img fs d1 x) \<longrightarrow>
         read_cluster_chain ops fs d2 c (length data) = Some (Inr data)" "data \<noteq> [] \<longrightarrow> \<not> c < 2"
    using store_new_frame [OF assms(1,2,4)] by blast
  have dis: "x \<notin> set fcs" if "x \<in> set ?cs" for x using chain_in_use [OF assms(2) ch that] st(2) by blast
  have ch1: "chain (tab img fs d1) ?cs" using ch chain_cong [of ?cs "tab img fs d1" "tab img fs d"] st(3) dis by blast
  have same: "groups img fs d1 ?cs = groups img fs d ?cs" "dslots img fs d1 ?cs = ds"
    unfolding ds_def by (rule groups_cong [OF iv], use st(3) dis in blast)+
  define e where "e = file_ent short c (length data)"
  let ?es = "raws @ [dir_ent_bytes e]"
  have len: "length ?es = slots_needed name" "\<forall>p \<in> set ?es. length p = 32"
    using rw short dir_ent_roundtrip(2) [of e] by (auto simp: slots_needed_def e_def short_ok_def)
  obtain d2 where d2: "write_dir_entries_at ops fs dc ?es d1 = Some (Inr (), d2)" "tab img fs d2 = tab img fs d1"
    "dslots img fs d2 ?cs = take j ds @ ?es @ drop (j + slots_needed name) ds"
    "\<forall>x. x \<notin> set ?cs \<longrightarrow> con img fs d2 x = con img fs d1 x"
    using write_dir_entries_ok [OF assms(1,2) ch1, of ?es i st, unfolded same len(1), OF assms(5) len(2) assms(6)]
    unfolding j_def by blast
  have find: "dir_find_in_dir ops fs d dc name = Some (Inr None)"
    using dir_list_ok [OF assms(1,2) ch sz] none by (simp add: dir_find_in_dir_def ds_def)
  have "make_unique_short_name_in_dir ops fs d1 dc name = Some (Inr short)"
    using dir_list_ok [OF assms(1,2) ch1 sz] base same(2) by (simp add: make_unique_short_name_in_dir_def)
  then have "dir_write_file_entry ops fs dc name c (of_nat (length data)) None False d1 = Some (Inr (), d2)"
    using raws d2(1) by (simp add: dir_write_file_entry_def e_def file_ent_def ent_attr_def)
  then have "write_file_at ops fs (Some dc) name data ow d = Some (Inr (), d2)"
    using find st(1) by (simp add: write_file_at_def)
  moreover have "chain (tab img fs d2) ?cs" using ch1 d2(2) by simp
  moreover have "read_cluster_chain ops fs d2 c (length data) = Some (Inr data)"
    using st(4) d2(2,4) dis by metis
  ultimately show ?thesis using raws short d2(3) st(5) unfolding e_def by (metis append.assoc)
qed

section \<open>Files by path\<close>

text \<open>A directory with \<open>k\<close> slots in use and only unused ones behind them, as this driver leaves it.\<close>

definition packed :: "u8 list list \<Rightarrow> nat \<Rightarrow> bool" where
  "packed ds k \<longleftrightarrow> k \<le> length ds \<and> (\<forall>p \<in> set (take k ds). \<not> slot_free p) \<and> (\<forall>p \<in> set (drop k ds). p ! 0 = 0)"

lemma packed_room:
  assumes "set cs \<subseteq> {c. in_vol fs c}" "packed (dslots img fs d cs) k" "0 < need" "need \<le> 16"
  shows "find_room need (groups img fs d cs) =
    (if k mod 16 + need \<le> 16 then (if k < length (dslots img fs d cs) then Some (k div 16, k mod 16) else None)
     else if 16 * Suc (k div 16) < length (dslots img fs d cs) then Some (Suc (k div 16), 0) else None)"
proof -
  let ?ds = "dslots img fs d cs" and ?gs = "groups img fs d cs"
  note gs = groups_slots [OF assms(1), of img d]
  have "length (concat gs) = 16 * length gs" if "\<forall>g \<in> set gs. length g = 16" for gs :: "u8 list list list"
    using that by (induction gs) auto
  then have len: "length ?ds = 16 * length ?gs" using gs(1,2) by metis
  have cc: "concat ?gs = take k ?ds @ drop k ?ds" using gs(1) by simp
  have "\<forall>p \<in> set (take k ?ds). \<not> slot_free p" "\<forall>p \<in> set (drop k ?ds). slot_free p" "length (take k ?ds) = k"
    using assms(2) by (auto simp: packed_def slot_free_def)
  then have fr: "find_room need ?gs = (if k mod 16 + need \<le> 16 then (if k div 16 < length ?gs then Some (k div 16, k mod 16) else None)
    else if Suc (k div 16) < length ?gs then Some (Suc (k div 16), 0) else None)"
    using find_room_packed [OF gs(2) cc _ _ assms(3,4)] by simp
  have "k div 16 < length ?gs \<longleftrightarrow> k < length ?ds" unfolding len by (simp add: div_less_iff_less_mult mult.commute)
  moreover have "Suc (k div 16) < length ?gs \<longleftrightarrow> 16 * Suc (k div 16) < length ?ds"
    unfolding len by (simp only: nat_mult_less_cancel_disj) simp
  ultimately show ?thesis using fr by (simp only:)
qed

lemma split_path_single: "long_name_ok name \<Longrightarrow> split_path (SLASH # name) = [name]"
proof -
  assume "long_name_ok name"
  then have "SLASH \<notin> set name" "name \<noteq> []" by (auto simp: long_name_ok_def)
  moreover have "SLASH \<notin> set xs \<Longrightarrow> split_on SLASH xs = [xs]" for xs by (induction xs) auto
  ultimately show ?thesis by (simp add: split_path_def)
qed

lemma root_paths:
  assumes "long_name_ok name"
  shows "write_file ops fs (SLASH # name) data ow d = write_file_at ops fs (Some (root_clus fs)) name data ow d"
    "read_file ops fs d (SLASH # name) = read_walk ops fs d (root_clus fs) [name]"
  by (simp_all add: write_file_def read_file_def split_path_single [OF assms])

lemma packed_listing:
  assumes "packed ds k"
  shows "dir_slots ds [] None = dir_slots (take k ds) [] None"
proof -
  have "\<forall>p \<in> set (take k ds). live p" using assms by (auto simp: packed_def slot_free_def)
  then obtain es ck where "dir_slots (take k ds @ drop k ds) [] None = dir_slots (take k ds) [] None @ dir_slots (drop k ds) es ck"
    using dir_slots_append by blast
  moreover have "dir_slots (drop k ds) es ck = []" using assms by (cases "drop k ds") (auto simp: packed_def)
  ultimately show ?thesis by simp
qed

lemma eq_ci_refl [simp]: "eq_ci s s"
  by (simp add: eq_ci_def)

text \<open>
  A file created in the root directory reads back: on a well-formed volume, in a root directory that ends in a
  sector with enough unused slots, and the listing of the root gets the new name at its end.
\<close>

lemma create_then_read:
  assumes "blk_ok ops img cap" "vol_ok fs cap" "can_create img fs d (root_clus fs) dcs name short"
    and "data \<noteq> [] \<longrightarrow> more_clusters fs data < card (free_clusters (tab img fs d))" "length data < 2 ^ 32"
    and "packed (dslots img fs d (root_clus fs # dcs)) k" "k < length (dslots img fs d (root_clus fs # dcs))"
    and "k mod 16 + slots_needed name \<le> 16"
  shows "\<exists>d' old. write_file ops fs (SLASH # name) data ow d = Some (Inr (), d')
    \<and> read_file ops fs d' (SLASH # name) = Some (Inr data)
    \<and> list_root ops fs d = Some (Inr old) \<and> list_root ops fs d' = Some (Inr (old @ [name]))"
proof -
  let ?cs = "root_clus fs # dcs" and ?n = "slots_needed name"
  define ds where "ds = dslots img fs d ?cs"
  note can = assms(3) [unfolded can_create_def Let_def, folded ds_def]
  have ch: "chain (tab img fs d) ?cs" and sz: "cbytes fs * length ?cs \<le> 256 * 1024" and nm: "long_name_ok name"
    and none: "find_name name (dir_slots ds [] None) = None" using can by auto
  have iv: "set ?cs \<subseteq> {c. in_vol fs c}" using chain_dom [OF ch] by (simp add: dom_tab)
  have room: "find_room ?n (groups img fs d ?cs) = Some (k div 16, k mod 16)"
    using packed_room [OF iv assms(6), of ?n] assms(7,8) by (simp add: slots_needed_def)
  obtain c raws d' where w: "write_file_at ops fs (Some (root_clus fs)) name data ow d = Some (Inr (), d')"
    "chain (tab img fs d') ?cs" "build_lfn_entries short name = Inr raws" "short_ok short"
    "dslots img fs d' ?cs = take k ds @ raws @ [dir_ent_bytes (file_ent short c (length data))] @ drop (k + ?n) ds"
    "read_cluster_chain ops fs d' c (length data) = Some (Inr data)" "data \<noteq> [] \<longrightarrow> \<not> c < 2"
    using create_file_ok [OF assms(1-4) room assms(8), of ow, folded ds_def] by (auto simp: mult.commute)
  define e where "e = file_ent short c (length data)"
  note pk = assms(6) [folded ds_def]
  have "\<forall>p \<in> set (take k ds). live p" using pk by (auto simp: packed_def slot_free_def)
  then obtain es ck where app: "dir_slots (take k ds @ ys) [] None = dir_slots (take k ds) [] None @ dir_slots ys es ck" for ys
    using dir_slots_append by metis
  have "length name < 403" using can by (auto simp: slots_needed_def)
  then have new: "dir_slots (raws @ [dir_ent_bytes e] @ drop (k + ?n) ds) es ck = (name, e) # dir_slots (drop (k + ?n) ds) [] None"
    using dir_slots_new_entry [OF nm, of e raws "drop (k + ?n) ds" es ck] w(3,4) valid_short_char
    by (auto simp: e_def short_ok_def ATTR_ARCHIVE_def ATTR_DIR_def)
  have "set (drop (k + ?n) ds) \<subseteq> set (drop k ds)" by (rule set_drop_subset_set_drop) simp
  then have "dir_slots (drop (k + ?n) ds) [] None = []" using pk by (cases "drop (k + ?n) ds") (auto simp: packed_def)
  then have l': "dir_slots (dslots img fs d' ?cs) [] None = dir_slots ds [] None @ [(name, e)]"
    unfolding w(5) e_def [symmetric] packed_listing [OF pk] app new by simp
  have "last name \<noteq> SLASH" using nm by (auto simp: long_name_ok_def)
  then have "find_name name (dir_slots ds [] None @ [(name, e)]) = Some e"
    using none by (auto simp: find_name_def find_append strip_slash_def)
  then have fd: "dir_find_in_dir ops fs d' (root_clus fs) name = Some (Inr (Some e))"
    using dir_list_ok [OF assms(1,2) w(2) sz] l' by (simp add: dir_find_in_dir_def)
  have un: "unat (of_nat (length data) :: u32) = length data" using assms(5) by (rule u32_of_nat)
  have "read_walk ops fs d' (root_clus fs) [name] = Some (Inr data)"
  proof -
    have "\<not> is_dir_ent e" "dirent_first_clus e = c" "unat (de_size e) = length data" using un by (simp_all add: e_def)
    moreover have "\<not> (c < 2 \<and> 0 < length data)" using w(7) by auto
    ultimately show ?thesis using fd w(6) by (simp only: read_walk.simps rbind_simps option.case Let_def found_def) simp
  qed
  moreover have "list_root ops fs d = Some (Inr (map fst (dir_slots ds [] None)))"
    using dir_list_ok [OF assms(1,2) ch sz] by (simp add: list_root_def list_dir_def ds_def)
  moreover have "list_root ops fs d' = Some (Inr (map fst (dir_slots ds [] None) @ [name]))"
    using dir_list_ok [OF assms(1,2) w(2) sz] l' by (simp add: list_root_def list_dir_def)
  ultimately show ?thesis using w(1) unfolding root_paths [OF nm] by blast
qed

text \<open>
  A file that was written successfully can be lost. When the directory ends in a sector with too few
  unused slots for the new name and there is another sector behind it, the entries go to that next sector;
  the unused slots in between mark the end of the directory for every reader. \<open>write_file\<close> returns success,
  but reading the path gives \<open>NotFound\<close> and the listing does not change.
\<close>

lemma create_lost_behind_end_mark:
  assumes "blk_ok ops img cap" "vol_ok fs cap" "can_create img fs d (root_clus fs) dcs name short"
    and "data \<noteq> [] \<longrightarrow> more_clusters fs data < card (free_clusters (tab img fs d))"
    and "packed (dslots img fs d (root_clus fs # dcs)) k" "16 * Suc (k div 16) < length (dslots img fs d (root_clus fs # dcs))"
    and "16 < k mod 16 + slots_needed name"
  shows "\<exists>d'. write_file ops fs (SLASH # name) data ow d = Some (Inr (), d')
    \<and> read_file ops fs d' (SLASH # name) = Some (Inl NotFound) \<and> list_root ops fs d' = list_root ops fs d"
proof -
  let ?cs = "root_clus fs # dcs" and ?n = "slots_needed name" and ?j = "16 * Suc (k div 16)"
  define ds where "ds = dslots img fs d ?cs"
  note can = assms(3) [unfolded can_create_def Let_def, folded ds_def]
  have ch: "chain (tab img fs d) ?cs" and sz: "cbytes fs * length ?cs \<le> 256 * 1024" and nm: "long_name_ok name" "?n \<le> 16"
    and none: "find_name name (dir_slots ds [] None) = None" using can by auto
  have iv: "set ?cs \<subseteq> {c. in_vol fs c}" using chain_dom [OF ch] by (simp add: dom_tab)
  have room: "find_room ?n (groups img fs d ?cs) = Some (Suc (k div 16), 0)"
    using packed_room [OF iv assms(5), of ?n] assms(6,7) nm(2) by (simp add: slots_needed_def)
  obtain c raws d' where w: "write_file_at ops fs (Some (root_clus fs)) name data ow d = Some (Inr (), d')"
    "chain (tab img fs d') ?cs"
    "dslots img fs d' ?cs = take ?j ds @ raws @ [dir_ent_bytes (file_ent short c (length data))] @ drop (?j + ?n) ds"
    using create_file_ok [OF assms(1-4) room _, of ow, folded ds_def] nm(2) by auto
  note pk = assms(5) [folded ds_def]
  have k: "k < ?j" "?j < length ds" using assms(6) unfolding ds_def by (simp_all add: dividend_less_times_div)
  then have "k < length ds" by linarith
  then have "ds ! k \<in> set (drop k ds)" by (metis Cons_nth_drop_Suc list.set_intros(1))
  then have z: "ds ! k ! 0 = 0" using pk by (auto simp: packed_def)
  obtain u where u: "take ?j ds = take k ds @ ds ! k # u"
    using k id_take_nth_drop [of k "take ?j ds"] by (auto simp: min_def)
  have old: "ds = take k ds @ ds ! k # drop (Suc k) ds" by (rule id_take_nth_drop) fact
  have l': "dir_slots (dslots img fs d' ?cs) [] None = dir_slots ds [] None"
    unfolding w(3) u append_assoc append_Cons using dir_slots_stop [of "ds ! k" "take k ds"] z old by metis
  have "read_walk ops fs d' (root_clus fs) [name] = Some (Inl NotFound)"
    using dir_list_ok [OF assms(1,2) w(2) sz] l' none by (simp add: dir_find_in_dir_def found_def)
  moreover have "list_root ops fs d' = list_root ops fs d"
    using dir_list_ok [OF assms(1,2) w(2) sz] dir_list_ok [OF assms(1,2) ch sz] l' by (simp add: list_root_def list_dir_def ds_def)
  ultimately show ?thesis using w(1) unfolding root_paths [OF nm(1)] by blast
qed

section \<open>Names that fit no sector\<close>

lemma zero_secs_write:
  "zero_secs ops fs f ss d = map_option (\<lambda>(r, d). (map_sum id (\<lambda>_. ()) r, d)) (write_secs ops fs f ss 0 [] d)"
proof (induction ss arbitrary: d)
  case (Cons s ss)
  show ?case
  proof (cases "checked_add f (of_nat s)")
    case (Some n)
    then show ?thesis using Cons
      by (cases "write_sector ops fs n (replicate SEC 0) d") (auto simp: sbind_def split: sum.splits prod.splits)
  qed simp
qed simp

lemma grow_dir_ok:
  assumes "blk_ok ops img cap" "vol_ok fs cap" "tab img fs d cur = Some v" "chain_end v" "v \<noteq> 0"
  shows "if free_clusters (tab img fs d) = {} then grow_dir ops fs cur d = Some (Inl Full, d)
    else \<exists>x d'. x \<in> free_clusters (tab img fs d) \<and> grow_dir ops fs cur d = Some (Inr x, d')
      \<and> tab img fs d' = (tab img fs d)(cur \<mapsto> x, x \<mapsto> EOC)"
proof (cases "free_clusters (tab img fs d) = {}")
  case True
  then show ?thesis using alloc_spec [OF assms(1,2), of d] fat_read [OF assms(1-3)] assms(4) by (simp add: grow_dir_def)
next
  case False
  define x where "x = Min (free_clusters (tab img fs d))"
  have mem: "x \<in> free_clusters (tab img fs d)" unfolding x_def by (rule Min_free [OF False])
  note xv = free_clusters_in_vol [OF mem]
  obtain d1 where d1: "extend_chain ops fs chain_end cur d = Some (Inr x, d1)" "tab img fs d1 = (tab img fs d)(cur \<mapsto> x, x \<mapsto> EOC)"
    using extend_chain_ok [OF assms(1-3), where endp = chain_end, OF assms(4,5)] unfolding if_not_P [OF False] Let_def x_def [symmetric] by metis
  obtain f where f: "clus_to_first_sector fs x = Some f" "unat f = csec fs x" using clus_to_first_sector_ok [OF assms(2) xv] by blast
  obtain d2 where d2: "write_secs ops fs f [0..<unat (spc fs)] 0 [] d1 = Some (Inr [], d2)" "tab img fs d2 = tab img fs d1"
    using write_cluster_ok [OF assms(1,2) xv f(2), of "[]" d1] by auto
  have "grow_dir ops fs cur d = sbind (extend_chain ops fs chain_end cur d) (\<lambda>newc d. do {
      first_sec_new \<leftarrow> clus_to_first_sector fs newc;
      sbind (zero_secs ops fs first_sec_new [0..<unat (spc fs)] d) (\<lambda>_ d. Some (Inr newc, d)) })"
    using fat_read [OF assms(1-3)] assms(4)
    by (simp add: grow_dir_def extend_chain_def sbind_assoc)
  then have "grow_dir ops fs cur d = Some (Inr x, d2)" using d1(1) f(1) d2(1) by (simp add: zero_secs_write)
  then show ?thesis using mem d1(2) d2(2) unfolding if_not_P [OF False] by metis
qed

lemma run_scan_never: "run + length ps < need \<Longrightarrow> run_scan need ps i run rs = None"
  by (induction ps arbitrary: i run rs) (auto simp: Let_def)

lemma find_room_never: "\<forall>g \<in> set gs. length g < need \<Longrightarrow> find_room need gs = None"
  by (induction gs) (auto simp: run_scan_never)

text \<open>Without a run in any sector the search grows the directory until the volume is full.\<close>

lemma no_room_step:
  assumes "blk_ok ops img cap" "vol_ok fs cap" "in_vol fs c" "16 < need"
  shows "dir_find_free_run ops fs c need d = sbind (grow_dir ops fs c d) (\<lambda>nxt d. dir_find_free_run ops fs nxt need d)"
proof -
  obtain f where f: "clus_to_first_sector fs c = Some f" "unat f = csec fs c" using clus_to_first_sector_ok [OF assms(2,3)] by blast
  have "\<forall>s \<in> set [0..<unat (spc fs)]. unat f + s < unat (totsec fs)" using csec_fits(1) [OF assms(2,3)] f(2) by auto
  moreover have "find_room need (map (\<lambda>s. chunks 32 (sec img fs d (unat f + s))) [0..<unat (spc fs)]) = None"
    using assms(4) by (intro find_room_never) (auto simp: chunks_full(1) [of 32 _ 16])
  ultimately have "free_run_secs ops fs d need f [0..<unat (spc fs)] = Some (Inr None)"
    using free_run_secs_ok [OF assms(1,2), of "[0..<unat (spc fs)]" f d need] by simp
  with f(1) show ?thesis by (subst dir_find_free_run.simps) simp
qed

lemma no_room_at_end:
  assumes "blk_ok ops img cap" "vol_ok fs cap" "tab img fs d c = Some v" "is_eoc v" "16 < need"
  shows "\<exists>d'. dir_find_free_run ops fs c need d = Some (Inl Full, d') \<and> free_clusters (tab img fs d') = {}"
  using assms(3,4)
proof (induction "card (free_clusters (tab img fs d))" arbitrary: c d v rule: less_induct)
  case less
  have c: "in_vol fs c" using less.prems(1) by (auto dest: tab_SomeD)
  have v: "chain_end v" "v \<noteq> 0" using less.prems(2) by (auto simp: chain_end_def is_eoc_def)
  note step = no_room_step [OF assms(1,2) c assms(5), of d]
  note grow = grow_dir_ok [OF assms(1,2) less.prems(1) v]
  show ?case
  proof (cases "free_clusters (tab img fs d) = {}")
    case True
    then show ?thesis using grow step by simp
  next
    case False
    then obtain x d1 where x: "x \<in> free_clusters (tab img fs d)" "grow_dir ops fs c d = Some (Inr x, d1)"
      "tab img fs d1 = (tab img fs d)(c \<mapsto> x, x \<mapsto> EOC)" using grow unfolding if_not_P [OF False] by blast
    have "x \<noteq> 0" using in_vol_link(3) [OF assms(2) free_clusters_in_vol [OF x(1)]] .
    then have fr: "free_clusters (tab img fs d1) = free_clusters (tab img fs d) - {x}"
      unfolding x(3) by (rule free_after_extend [OF less.prems(1) v(2) x(1)])
    have "card (free_clusters (tab img fs d1)) < card (free_clusters (tab img fs d))"
      unfolding fr by (rule card_Diff1_less [OF finite x(1)])
    moreover have "tab img fs d1 x = Some EOC" by (simp add: x(3))
    ultimately show ?thesis using less.hyps [of d1 x EOC] step x(2) by simp
  qed
qed

lemma no_room:
  assumes "blk_ok ops img cap" "vol_ok fs cap" "chain (tab img fs d) (c # cs)" "16 < need"
  shows "\<exists>d'. dir_find_free_run ops fs c need d = Some (Inl Full, d') \<and> free_clusters (tab img fs d') = {}"
  using assms(3)
proof (induction cs arbitrary: c)
  case Nil
  then show ?case using no_room_at_end [OF assms(1,2) _ _ assms(4)] by (auto split: option.splits)
next
  case (Cons e cs)
  then have v: "tab img fs d c = Some e" "chain (tab img fs d) (e # cs)" by auto
  have c: "in_vol fs c" "in_vol fs e" using v chain_dom [OF v(2)] by (auto simp: dom_tab dest: tab_SomeD)
  have "grow_dir ops fs c d = Some (Inr e, d)"
    using fat_read [OF assms(1,2) v(1)] in_vol_link [OF assms(2) c(2)] by (simp add: grow_dir_def chain_end_def)
  then show ?case using no_room_step [OF assms(1,2) c(1) assms(4), of d] Cons.IH [OF v(2)] by simp
qed

text \<open>
  A long name fills the volume. The entries of a name of 195 or more characters need more than the 16
  slots of a sector, and the search for room only looks inside sectors: creating such a file, even an empty
  one, links every free cluster of the volume to the directory and then fails with \<open>Full\<close>.
\<close>

lemma long_name_fills_volume:
  assumes "blk_ok ops img cap" "vol_ok fs cap" "chain (tab img fs d) (root_clus fs # dcs)"
    and "cbytes fs * length (root_clus fs # dcs) \<le> 256 * 1024" "long_name_ok name" "195 \<le> length name" "length name < 403"
    and "make_unique_short_name_in_dir ops fs d (root_clus fs) name = Some (Inr short)"
    and "dir_find_in_dir ops fs d (root_clus fs) name = Some (Inr None)"
  shows "\<exists>d'. write_file ops fs (SLASH # name) [] ow d = Some (Inl Full, d') \<and> free_clusters (tab img fs d') = {}"
proof -
  obtain raws where raws: "build_lfn_entries short name = Inr raws"
    using build_lfn_shape(4) [OF assms(5,7), of short] by simp
  have "195 + 13 \<le> length name + 13" using assms(6) by simp
  then have "(195 + 13) div 13 \<le> (length name + 13) div 13" by (rule div_le_mono)
  then have need: "16 < length (raws @ [p])" for p using build_lfn_hd(3) [OF assms(5,7) raws] by simp
  have "\<exists>d'. write_dir_entries_at ops fs (root_clus fs) (raws @ [p]) d = Some (Inl Full, d') \<and> free_clusters (tab img fs d') = {}" for p
    using no_room [OF assms(1-3) need [of p]] by (auto simp: write_dir_entries_at_def)
  then show ?thesis
    using raws assms(8,9) unfolding root_paths(1) [OF assms(5)]
    by (simp add: write_file_at_def store_new_def dir_write_file_entry_def)
qed

section \<open>Two small root directories\<close>

text \<open>
  On the volume \<open>tiny\<close>: an empty root directory in cluster 2, and one in clusters 2 and 3 whose first sector
  has fifteen slots in use (volume labels).
\<close>

definition root_disk :: "nat \<Rightarrow> u8" where
  "root_disk x = (if x \<in> {1032, 1033, 1034} then 0xFF else if x = 1035 then 0x0F else 0)"

definition full_disk :: "nat \<Rightarrow> u8" where
  "full_disk x = (if x = 1032 then 3 else if x \<in> {1036, 1037, 1038} then 0xFF else if x = 1039 then 0x0F
     else if 2048 \<le> x \<and> x < 2528 then 8 else 0)"

lemma tiny_facts: "root_clus tiny = 2" "in_vol tiny 2" "in_vol tiny 3" "in_vol tiny 4" "cbytes tiny = 512"
  by (simp_all add: in_vol_def cbytes_def tiny_def)

lemma tiny_free: "d 1040 = 0 \<Longrightarrow> d 1041 = 0 \<Longrightarrow> d 1042 = 0 \<Longrightarrow> d 1043 = 0 \<Longrightarrow> 0 < card (free_clusters (tab id tiny d))"
proof -
  assume "d 1040 = 0" "d 1041 = 0" "d 1042 = 0" "d 1043 = 0"
  then have "tab id tiny d 4 = Some 0" using tiny_entry [OF tiny_facts(4), of d] by simp
  then show ?thesis by (auto simp: free_clusters_def card_gt_0_iff)
qed

lemma tiny_cluster: "con id tiny d 2 = Some (bytes_of d 2048 512)" "con id tiny d 3 = Some (bytes_of d 2560 512)"
proof -
  have base: "unat (base_off_bytes tiny) = 512" "unat (spc tiny) = 1" "csec tiny 2 = 3" "csec tiny 3 = 4"
    by (simp_all add: csec_def tiny_def)
  then show "con id tiny d 2 = Some (bytes_of d 2048 512)" "con id tiny d 3 = Some (bytes_of d 2560 512)"
    using con_in_vol [OF tiny_facts(2), of id d] con_in_vol [OF tiny_facts(3), of id d] by (simp_all add: clus_def sec_def)
qed

lemma chunks_replicate: "chunks 32 (replicate (32 * k) v) = replicate k (replicate 32 v)"
proof -
  have "replicate (32 * k) v = concat (replicate k (replicate 32 v))"
    by (induction k) (simp_all add: replicate_add)
  then show ?thesis using chunks_concat [of 32 "replicate k (replicate 32 v)"] by simp
qed

lemma root_slots: "dslots id tiny root_disk [2] = replicate 16 (replicate 32 0)"
proof -
  have "bytes_of root_disk 2048 512 = replicate (32 * 16) 0" by (rule nth_equalityI) (auto simp: root_disk_def)
  then show ?thesis unfolding dslots_def content_simps tiny_cluster option.sel append_Nil2 by (simp only: chunks_replicate)
qed

lemma full_slots: "dslots id tiny full_disk [2, 3] = replicate 15 (replicate 32 8) @ replicate 17 (replicate 32 0)"
proof -
  have "bytes_of full_disk 2048 512 @ bytes_of full_disk 2560 512 = replicate (32 * 15) 8 @ replicate (32 * 17) 0"
    by (rule nth_equalityI) (auto simp: full_disk_def nth_append)
  then have "dslots id tiny full_disk [2, 3] = chunks 32 (replicate (32 * 15) 8 @ replicate (32 * 17) 0)"
    unfolding dslots_def content_simps tiny_cluster option.sel append_Nil2 by (simp only:)
  also have "\<dots> = chunks 32 (replicate (32 * 15) 8) @ chunks 32 (replicate (32 * 17) 0)" by (rule chunks_append) simp_all
  finally show ?thesis by (simp only: chunks_replicate)
qed

lemma short_a: "make_short_candidate [0x61] = Inr (0x41 # replicate 10 0x20)"
  by (simp add: make_short_candidate_def short_chars_def to_upper_def is_valid_short_char_def) (simp add: eval_nat_numeral)

lemma full_listing: "dir_slots (replicate 15 (replicate 32 8) @ replicate 17 (replicate 32 0)) [] None = []"
  by (simp add: eval_nat_numeral dir_ent_of_def is_lfn_def ATTR_VOLUME_def)

lemma name_a: "long_name_ok [0x61]" "slots_needed [0x61] = 2"
  by (simp_all add: long_name_ok_def slots_needed_def)

lemma root_can_create: "can_create id tiny root_disk 2 [] [0x61] (0x41 # replicate 10 0x20)"
proof -
  have "tab id tiny root_disk 2 = Some 0x0FFFFFFF" using tiny_entry [OF tiny_facts(2), of root_disk] by (simp add: root_disk_def)
  then show ?thesis using name_a short_a
    by (simp add: can_create_def root_slots tiny_facts find_name_def is_eoc_def) (simp add: eval_nat_numeral)
qed

lemma full_can_create: "can_create id tiny full_disk 2 [3] [0x61] (0x41 # replicate 10 0x20)"
proof -
  have "tab id tiny full_disk 2 = Some 3" "tab id tiny full_disk 3 = Some 0x0FFFFFFF"
    using tiny_entry [OF tiny_facts(2), of full_disk] tiny_entry [OF tiny_facts(3), of full_disk] by (simp_all add: full_disk_def)
  then show ?thesis using name_a short_a
    by (simp add: can_create_def full_slots full_listing tiny_facts find_name_def is_eoc_def) (simp add: eval_nat_numeral)
qed

text \<open>The hypotheses of the creation, on the volume with the empty root directory.\<close>

lemma root_space: "more_clusters tiny [1, 2, 3] < card (free_clusters (tab id tiny root_disk))"
  using tiny_free [of root_disk] by (simp add: more_clusters_def tiny_facts root_disk_def)

lemma root_packed: "packed (dslots id tiny root_disk [2]) 0" "0 < length (dslots id tiny root_disk [2])"
  unfolding root_slots by (simp_all add: packed_def)

lemma create_lost_behind_end_mark_example:
  "\<exists>d'. write_file ram_disk tiny [SLASH, 0x61] [1, 2, 3] False full_disk = Some (Inr (), d')
    \<and> read_file ram_disk tiny d' [SLASH, 0x61] = Some (Inl NotFound)"
proof -
  have sp: "more_clusters tiny [1, 2, 3] < card (free_clusters (tab id tiny full_disk))"
    using tiny_free [of full_disk] by (simp add: more_clusters_def tiny_facts full_disk_def)
  have pk: "packed (dslots id tiny full_disk [2, 3]) 15" "16 * Suc (15 div 16) < length (dslots id tiny full_disk [2, 3])"
      "16 < 15 mod 16 + slots_needed [0x61]"
    unfolding full_slots by (simp_all add: packed_def name_a slot_free_def)
  from create_lost_behind_end_mark [OF ram_disk_ok tiny_ok, of full_disk "[3]" "[0x61]" _ "[1, 2, 3]" 15 False, unfolded tiny_facts(1), OF full_can_create _ pk] sp
  show ?thesis by auto
qed

lemma long_name_fills_volume_example:
  "\<exists>d'. write_file ram_disk tiny (SLASH # replicate 200 0x61) [] False root_disk = Some (Inl Full, d')
    \<and> free_clusters (tab id tiny d') = {}"
proof -
  have ch: "chain (tab id tiny root_disk) [2]" using root_can_create by (simp add: can_create_def)
  have sz: "cbytes tiny * length [2 :: u32] \<le> 256 * 1024" by (simp add: tiny_facts)
  note l = dir_list_ok [OF ram_disk_ok tiny_ok ch sz]
  have nm: "long_name_ok (replicate 200 0x61)" "195 \<le> length (replicate 200 (0x61 :: u8))" "length (replicate 200 (0x61 :: u8)) < 403"
    by (simp_all add: long_name_ok_def)
  have empty: "dir_slots (replicate 16 (replicate 32 0)) [] None = []" by (simp add: eval_nat_numeral)
  have find: "dir_find_in_dir ram_disk tiny root_disk 2 (replicate 200 0x61) = Some (Inr None)"
    using l by (simp add: dir_find_in_dir_def root_slots empty find_name_def)
  have "split_on 0x2E (replicate n (0x61 :: u8)) = [replicate n 0x61]" for n by (induction n) simp_all
  moreover have "take 8 (replicate 200 (0x41 :: u8)) = replicate 8 0x41" by simp
  ultimately have "make_short_candidate (replicate 200 0x61) = Inr (replicate 8 0x41 @ replicate 3 0x20)"
    by (simp add: make_short_candidate_def short_chars_def to_upper_def is_valid_short_char_def nth_append Let_def)
  then have "make_unique_short_name_in_dir ram_disk tiny root_disk 2 (replicate 200 0x61) = Some (Inr (replicate 8 0x41 @ replicate 3 0x20))"
    using l by (simp add: make_unique_short_name_in_dir_def root_slots empty unique_loop.simps(2) [of _ _ 9, simplified])
  from long_name_fills_volume [OF ram_disk_ok tiny_ok, of root_disk "[]", unfolded tiny_facts(1), OF ch sz nm this find]
  show ?thesis .
qed

end
