(* ===== verification/Vfs.thy ===== *)
theory Vfs
  imports Fat32_Files Ext2 Vfs_Path
begin

text \<open>
  The virtual file system: the two implementations of the trait \<open>FileSystem\<close> and mounting (\<^verbatim>\<open>kernel/fs/vfs/mount.rs\<close>),
  the operations on paths (\<^verbatim>\<open>ops.rs\<close>) and the system calls over them (\<^verbatim>\<open>kernel/syscall/vfs.rs\<close>). The state is the
  mount table and the disk behind all volumes.
\<close>

section \<open>Errors\<close>

text \<open>\<open>From<FatErr>\<close> and \<open>From<Ext2Err>\<close>.\<close>

fun from_fat_err :: "fat_err \<Rightarrow> vfs_error" where
  "from_fat_err Io = VIo"
| "from_fat_err BadBootSig = FsSpecific"
| "from_fat_err NotFat32 = FsSpecific"
| "from_fat_err BadBpb = FsSpecific"
| "from_fat_err NotFound = VNotFound"
| "from_fat_err Name = VName"
| "from_fat_err Full = VFull"

fun from_ext2_err :: "ext2_err \<Rightarrow> vfs_error" where
  "from_ext2_err EIo = VIo"
| "from_ext2_err BadMagic = FsSpecific"
| "from_ext2_err BadSuperblock = FsSpecific"
| "from_ext2_err ENotFound = VNotFound"
| "from_ext2_err EName = VName"
| "from_ext2_err EUnsupported = Unsupported"
| "from_ext2_err EFull = VFull"

definition rmap :: "('e \<Rightarrow> 'g) \<Rightarrow> ('e + 'a) option \<Rightarrow> ('g + 'a) option" where
  "rmap f m = map_option (map_sum f id) m"

definition smap :: "('e \<Rightarrow> 'g) \<Rightarrow> (('e + 'a) \<times> 'd) option \<Rightarrow> (('g + 'a) \<times> 'd) option" where
  "smap f m = map_option (map_prod (map_sum f id) id) m"

section \<open>The trait \<open>FileSystem\<close>\<close>

datatype fs_kind = KFat32 fat32 | KExt2 ext2

fun fs_read :: "'b blk_ops \<Rightarrow> fs_kind \<Rightarrow> 'b \<Rightarrow> path \<Rightarrow> (vfs_error + u8 list) option" where
  "fs_read ops (KFat32 fs) d path = rmap from_fat_err (read_file ops fs d path)"
| "fs_read ops (KExt2 fs) d path = rmap from_ext2_err (ext2_read_file ops fs d path)"

fun fs_write :: "'b blk_ops \<Rightarrow> fs_kind \<Rightarrow> path \<Rightarrow> u8 list \<Rightarrow> bool \<Rightarrow> 'b \<Rightarrow> ((vfs_error + unit) \<times> 'b) option" where
  "fs_write ops (KFat32 fs) path data ow d = smap from_fat_err (write_file ops fs path data ow d)"
| "fs_write ops (KExt2 fs) path data ow d = smap from_ext2_err (ext2_write_file ops fs path data ow d)"

fun fs_mkdir :: "'b blk_ops \<Rightarrow> fs_kind \<Rightarrow> path \<Rightarrow> 'b \<Rightarrow> ((vfs_error + unit) \<times> 'b) option" where
  "fs_mkdir ops (KFat32 fs) path d = smap from_fat_err (mkdir ops fs path d)"
| "fs_mkdir ops (KExt2 fs) path d = smap from_ext2_err (ext2_mkdir ops fs path d)"

text \<open>\<open>mkdir_p\<close> makes every prefix of the path; the accumulated path starts as the root.\<close>

fun mkdir_parts :: "'b blk_ops \<Rightarrow> fs_kind \<Rightarrow> path \<Rightarrow> path list \<Rightarrow> 'b \<Rightarrow> ((vfs_error + unit) \<times> 'b) option" where
  "mkdir_parts ops k acc [] d = Some (Inr (), d)"
| "mkdir_parts ops k acc (part # parts) d =
     (if part = [] then mkdir_parts ops k acc parts d
      else let acc = acc @ (if length acc > 1 then [SLASH] else []) @ part in
        sbind (fs_mkdir ops k acc d) (\<lambda>_ d. mkdir_parts ops k acc parts d))"

definition fs_mkdir_p :: "'b blk_ops \<Rightarrow> fs_kind \<Rightarrow> path \<Rightarrow> 'b \<Rightarrow> ((vfs_error + unit) \<times> 'b) option" where
  "fs_mkdir_p ops k path d =
     (case normalize_path path of
        Inl e \<Rightarrow> Some (Inl e, d)
      | Inr p \<Rightarrow>
          if p = [SLASH] then Some (Inr (), d)
          else mkdir_parts ops k [SLASH] (split_on SLASH (dropWhile (\<lambda>b. b = SLASH) p)) d)"

fun fs_list :: "'b blk_ops \<Rightarrow> fs_kind \<Rightarrow> 'b \<Rightarrow> path \<Rightarrow> (vfs_error + path list) option" where
  "fs_list ops (KFat32 fs) d path =
     rmap from_fat_err (if path = [SLASH] then list_root ops fs d else list_dir ops fs d path)"
| "fs_list ops (KExt2 fs) d path = rmap from_ext2_err (ext2_list_dir ops fs d path)"

section \<open>Mounting\<close>

type_synonym mounts = "fs_kind mount list"

definition mount_fat32 :: "'b blk_ops \<Rightarrow> 'b \<Rightarrow> path \<Rightarrow> u64 \<Rightarrow> mounts \<Rightarrow> ((vfs_error + unit) \<times> mounts) option" where
  "mount_fat32 ops d mountpoint base tbl =
     (case normalize_mountpoint mountpoint of
        Inl e \<Rightarrow> Some (Inl e, tbl)
      | Inr p \<Rightarrow> getr tbl (rmap from_fat_err (fat_mount ops d base)) (\<lambda>fs. Some (Inr (), mount_at p (KFat32 fs) tbl)))"

definition mount_ext2 :: "'b blk_ops \<Rightarrow> 'b \<Rightarrow> path \<Rightarrow> u64 \<Rightarrow> mounts \<Rightarrow> ((vfs_error + unit) \<times> mounts) option" where
  "mount_ext2 ops d mountpoint base tbl =
     (case normalize_mountpoint mountpoint of
        Inl e \<Rightarrow> Some (Inl e, tbl)
      | Inr p \<Rightarrow> getr tbl (rmap from_ext2_err (ext2_mount ops d base)) (\<lambda>fs. Some (Inr (), mount_at p (KExt2 fs) tbl)))"

definition mount_root_auto :: "'b blk_ops \<Rightarrow> 'b \<Rightarrow> mounts \<Rightarrow> ((vfs_error + unit) \<times> mounts) option" where
  "mount_root_auto ops d tbl = do {
     (r, tbl) \<leftarrow> mount_fat32 ops d [SLASH] 0 tbl;
     case r of
       Inr _ \<Rightarrow> Some (Inr (), tbl)
     | Inl _ \<Rightarrow> mount_ext2 ops d [SLASH] 0 tbl
   }"

section \<open>Operations on paths\<close>

definition vfs_read :: "'b blk_ops \<Rightarrow> mounts \<Rightarrow> 'b \<Rightarrow> path \<Rightarrow> (vfs_error + u8 list) option" where
  "vfs_read ops tbl d path = rbind (resolve path tbl) (\<lambda>(k, rel). fs_read ops k d rel)"

definition vfs_write_opts :: "'b blk_ops \<Rightarrow> mounts \<Rightarrow> path \<Rightarrow> u8 list \<Rightarrow> bool \<Rightarrow> 'b \<Rightarrow> ((vfs_error + unit) \<times> 'b) option" where
  "vfs_write_opts ops tbl path data ow d = getr d (resolve path tbl) (\<lambda>(k, rel). fs_write ops k rel data ow d)"

definition vfs_write :: "'b blk_ops \<Rightarrow> mounts \<Rightarrow> path \<Rightarrow> u8 list \<Rightarrow> 'b \<Rightarrow> ((vfs_error + unit) \<times> 'b) option" where
  "vfs_write ops tbl path data d = vfs_write_opts ops tbl path data False d"

definition vfs_write_overwrite :: "'b blk_ops \<Rightarrow> mounts \<Rightarrow> path \<Rightarrow> u8 list \<Rightarrow> 'b \<Rightarrow> ((vfs_error + unit) \<times> 'b) option" where
  "vfs_write_overwrite ops tbl path data d = vfs_write_opts ops tbl path data True d"

definition vfs_mkdir_p :: "'b blk_ops \<Rightarrow> mounts \<Rightarrow> path \<Rightarrow> 'b \<Rightarrow> ((vfs_error + unit) \<times> 'b) option" where
  "vfs_mkdir_p ops tbl path d = getr d (resolve path tbl) (\<lambda>(k, rel). fs_mkdir_p ops k rel d)"

definition vfs_list :: "'b blk_ops \<Rightarrow> mounts \<Rightarrow> 'b \<Rightarrow> path \<Rightarrow> (vfs_error + path list) option" where
  "vfs_list ops tbl d path = rbind (resolve path tbl) (\<lambda>(k, rel). fs_list ops k d rel)"

section \<open>System calls\<close>

record 'b vfs_state =
  v_um :: umem
  v_tbl :: mounts
  v_disk :: 'b

fun vfs_err_to_errno :: "vfs_error \<Rightarrow> i64" where
  "vfs_err_to_errno VNotFound = - ENOENT"
| "vfs_err_to_errno BadPath = - EINVAL"
| "vfs_err_to_errno VName = - EINVAL"
| "vfs_err_to_errno NotMounted = - ENODEV"
| "vfs_err_to_errno Unsupported = - ENOSYS"
| "vfs_err_to_errno VFull = - ENOSPC"
| "vfs_err_to_errno VIo = - EIO"
| "vfs_err_to_errno FsSpecific = - EINVAL"

text \<open>\<open>VfsReadArgs\<close>: \<open>path_ptr\<close>, \<open>path_len\<close>, \<open>off\<close>, \<open>buf_ptr\<close>, \<open>buf_len\<close>.\<close>

definition sys_vfs_read :: "'b blk_ops \<Rightarrow> u64 \<Rightarrow> 'b vfs_state \<Rightarrow> (i64 \<times> 'b vfs_state) option" where
  "sys_vfs_read ops args_ptr s =
     (case copy_user_struct (v_um s) args_ptr 40 of
        Inl e \<Rightarrow> Some (e, s)
      | Inr args \<Rightarrow>
          (case copy_user_str (v_um s) (field64 args 0) (field64 args 1) of
             Inl e \<Rightarrow> Some (e, s)
           | Inr path \<Rightarrow>
               if field64 args 3 = 0 then Some (- EFAULT, s)
               else if field64 args 2 \<noteq> 0 then Some (- EINVAL, s)
               else do {
                 r \<leftarrow> vfs_read ops (v_tbl s) (v_disk s) path;
                 Some (case r of
                     Inl e \<Rightarrow> (vfs_err_to_errno e, s)
                   | Inr data \<Rightarrow>
                       (let to_copy = min (unat (field64 args 4)) (length data) in
                        if to_copy = 0 then (0, s)
                        else case copy_to_user (v_um s) (field64 args 3) (take to_copy data) of
                          None \<Rightarrow> (- EFAULT, s)
                        | Some m \<Rightarrow> (int to_copy, s\<lparr>v_um := m\<rparr>)))
               }))"

definition sys_vfs_write :: "'b blk_ops \<Rightarrow> u64 \<Rightarrow> 'b vfs_state \<Rightarrow> (i64 \<times> 'b vfs_state) option" where
  "sys_vfs_write ops args_ptr s =
     (case copy_user_struct (v_um s) args_ptr 40 of
        Inl e \<Rightarrow> Some (e, s)
      | Inr args \<Rightarrow>
          (case copy_user_str (v_um s) (field64 args 0) (field64 args 1) of
             Inl e \<Rightarrow> Some (e, s)
           | Inr path \<Rightarrow>
               if field64 args 3 = 0 then Some (- EFAULT, s)
               else if field64 args 2 \<noteq> 0 then Some (- EINVAL, s)
               else if field64 args 4 > 1024 * 1024 then Some (- EINVAL, s)
               else case copy_from_user (v_um s) (field64 args 3) (unat (field64 args 4)) of
                 None \<Rightarrow> Some (- EFAULT, s)
               | Some data \<Rightarrow> do {
                   (r, d) \<leftarrow> vfs_write ops (v_tbl s) path data (v_disk s);
                   Some (case r of Inl e \<Rightarrow> vfs_err_to_errno e | Inr _ \<Rightarrow> 0, s\<lparr>v_disk := d\<rparr>)
                 }))"

text \<open>\<open>VfsListArgs\<close>: \<open>path_ptr\<close>, \<open>path_len\<close>, \<open>out_ptr\<close>, \<open>out_len\<close>.\<close>

definition sys_vfs_list :: "'b blk_ops \<Rightarrow> u64 \<Rightarrow> 'b vfs_state \<Rightarrow> (i64 \<times> 'b vfs_state) option" where
  "sys_vfs_list ops args_ptr s =
     (case copy_user_struct (v_um s) args_ptr 32 of
        Inl e \<Rightarrow> Some (e, s)
      | Inr args \<Rightarrow>
          (case copy_user_str (v_um s) (field64 args 0) (field64 args 1) of
             Inl e \<Rightarrow> Some (e, s)
           | Inr path \<Rightarrow>
               if field64 args 2 = 0 then Some (- EFAULT, s)
               else do {
                 r \<leftarrow> vfs_list ops (v_tbl s) (v_disk s) path;
                 Some (case r of
                     Inl e \<Rightarrow> (vfs_err_to_errno e, s)
                   | Inr entries \<Rightarrow>
                       (let out = concat (map (\<lambda>n. n @ [0x0A]) entries) in
                        if length out > unat (field64 args 3) then (- EINVAL, s)
                        else if out = [] then (0, s)
                        else case copy_to_user (v_um s) (field64 args 2) out of
                          None \<Rightarrow> (- EFAULT, s)
                        | Some m \<Rightarrow> (int (length out), s\<lparr>v_um := m\<rparr>)))
               }))"

definition sys_vfs_mkdir :: "'b blk_ops \<Rightarrow> u64 \<Rightarrow> u64 \<Rightarrow> 'b vfs_state \<Rightarrow> (i64 \<times> 'b vfs_state) option" where
  "sys_vfs_mkdir ops path_ptr path_len s =
     (case copy_user_str (v_um s) path_ptr path_len of
        Inl e \<Rightarrow> Some (e, s)
      | Inr path \<Rightarrow> do {
          (r, d) \<leftarrow> vfs_mkdir_p ops (v_tbl s) path (v_disk s);
          Some (case r of Inl e \<Rightarrow> vfs_err_to_errno e | Inr _ \<Rightarrow> 0, s\<lparr>v_disk := d\<rparr>)
        })"

text \<open>
  \<open>VfsMountArgs\<close>: \<open>fs\<close> (the low half of the first eight bytes), \<open>mount_ptr\<close>, \<open>mount_len\<close>, \<open>base_off_bytes\<close>.
  \<open>pid\<close> is what \<open>current_pid\<close> returns; only the kernel and the first process may mount.
\<close>

definition sys_vfs_mount :: "'b blk_ops \<Rightarrow> u64 option \<Rightarrow> u64 \<Rightarrow> 'b vfs_state \<Rightarrow> (i64 \<times> 'b vfs_state) option" where
  "sys_vfs_mount ops pid args_ptr s =
     (case copy_user_struct (v_um s) args_ptr 32 of
        Inl e \<Rightarrow> Some (e, s)
      | Inr args \<Rightarrow>
          (case copy_user_str (v_um s) (field64 args 1) (field64 args 2) of
             Inl e \<Rightarrow> Some (e, s)
           | Inr mp' \<Rightarrow>
               if pid \<noteq> Some 1 \<and> pid \<noteq> Some 0 then Some (- EINVAL, s)
               else do {
                 (r, tbl) \<leftarrow> (let k = ucast (field64 args 0) :: u32; off = field64 args 3 in
                    if k = 1 then mount_fat32 ops (v_disk s) mp' off (v_tbl s)
                    else if k = 2 then mount_ext2 ops (v_disk s) mp' off (v_tbl s)
                    else Some (Inl BadPath, v_tbl s));
                 Some (case r of Inl e \<Rightarrow> vfs_err_to_errno e | Inr _ \<Rightarrow> 0, s\<lparr>v_tbl := tbl\<rparr>)
               }))"

section \<open>Creating a file through a mounted file system\<close>

text \<open>
  What a file system promises about a path it can create: the write succeeds, the path then reads back, and the
  name is listed. The operations on paths are proved from this promise and the resolution of the path alone.
\<close>

locale file_system =
  fixes fsread :: "'k \<Rightarrow> 'b \<Rightarrow> path \<Rightarrow> (vfs_error + u8 list) option"
    and fswrite :: "'k \<Rightarrow> path \<Rightarrow> u8 list \<Rightarrow> bool \<Rightarrow> 'b \<Rightarrow> ((vfs_error + unit) \<times> 'b) option"
    and fslist :: "'k \<Rightarrow> 'b \<Rightarrow> path \<Rightarrow> (vfs_error + path list) option"
    and creatable :: "'k \<Rightarrow> path \<Rightarrow> u8 list \<Rightarrow> 'b \<Rightarrow> bool"
  assumes create: "creatable k p data d \<Longrightarrow> \<exists>d' old. fswrite k p data ow d = Some (Inr (), d')
    \<and> fsread k d' p = Some (Inr data) \<and> fslist k d [SLASH] = Some (Inr old) \<and> fslist k d' [SLASH] = Some (Inr (old @ [tl p]))"
begin

lemma write_through_mounts:
  assumes "resolve p tbl = Some (Inr (k, q))" "creatable k q data d"
  shows "\<exists>d'. getr d (resolve p tbl) (\<lambda>(k, q). fswrite k q data ow d) = Some (Inr (), d')
    \<and> rbind (resolve p tbl) (\<lambda>(k, q). fsread k d' q) = Some (Inr data)
    \<and> (\<forall>r. resolve r tbl = Some (Inr (k, [SLASH])) \<longrightarrow>
         (\<exists>old. rbind (resolve r tbl) (\<lambda>(k, q). fslist k d q) = Some (Inr old)
            \<and> rbind (resolve r tbl) (\<lambda>(k, q). fslist k d' q) = Some (Inr (old @ [tl q]))))"
  using create [OF assms(2), of ow] assms(1) by fastforce

end

text \<open>
  On a FAT32 volume the root directory can take a name when it is well formed, has no such name yet, ends in a
  sector with enough unused slots, and the data fits.
\<close>

definition can_create_at :: "'b blk_ops \<Rightarrow> ('b \<Rightarrow> nat \<Rightarrow> u8) \<Rightarrow> nat \<Rightarrow> fs_kind \<Rightarrow> path \<Rightarrow> u8 list \<Rightarrow> 'b \<Rightarrow> bool" where
  "can_create_at ops img cap k p data d \<longleftrightarrow> blk_ok ops img cap \<and> length data < 2 ^ 32 \<and>
     (\<exists>fs name dcs short n. k = KFat32 fs \<and> p = SLASH # name \<and> vol_ok fs cap
        \<and> can_create img fs d (root_clus fs) dcs name short
        \<and> (data \<noteq> [] \<longrightarrow> more_clusters fs data < card (free_clusters (tab img fs d)))
        \<and> packed (dslots img fs d (root_clus fs # dcs)) n \<and> n < length (dslots img fs d (root_clus fs # dcs))
        \<and> n mod 16 + slots_needed name \<le> 16)"

interpretation fatfs: file_system "fs_read ops" "fs_write ops" "\<lambda>k d p. fs_list ops k d p" "can_create_at ops img cap"
  for ops img cap
proof unfold_locales
  fix k p data d ow
  assume "can_create_at ops img cap k p data d"
  then obtain fs name dcs short n where k: "k = KFat32 fs" "p = SLASH # name" and h: "blk_ok ops img cap" "vol_ok fs cap"
      "can_create img fs d (root_clus fs) dcs name short"
      "data \<noteq> [] \<longrightarrow> more_clusters fs data < card (free_clusters (tab img fs d))" "length data < 2 ^ 32"
      "packed (dslots img fs d (root_clus fs # dcs)) n" "n < length (dslots img fs d (root_clus fs # dcs))"
      "n mod 16 + slots_needed name \<le> 16"
    unfolding can_create_at_def by blast
  from create_then_read [OF h, of ow] show "\<exists>d' old. fs_write ops k p data ow d = Some (Inr (), d')
    \<and> fs_read ops k d' p = Some (Inr data) \<and> fs_list ops k d [SLASH] = Some (Inr old)
    \<and> fs_list ops k d' [SLASH] = Some (Inr (old @ [tl p]))"
    by (auto simp: k rmap_def smap_def)
qed

lemmas vfs_ops_defs = vfs_read_def vfs_write_def vfs_write_overwrite_def vfs_write_opts_def vfs_list_def

lemma vfs_create_then_read:
  assumes "resolve p tbl = Some (Inr (k, q))" "can_create_at ops img cap k q data d"
  shows "\<exists>d'. vfs_write ops tbl p data d = Some (Inr (), d') \<and> vfs_read ops tbl d' p = Some (Inr data)
    \<and> (\<forall>r. resolve r tbl = Some (Inr (k, [SLASH])) \<longrightarrow>
         (\<exists>old. vfs_list ops tbl d r = Some (Inr old) \<and> vfs_list ops tbl d' r = Some (Inr (old @ [tl q]))))"
  using fatfs.write_through_mounts [OF assms, of False] unfolding vfs_ops_defs .

section \<open>Files through the system calls\<close>

text \<open>The argument block at \<open>ptr\<close> names the path \<open>p\<close> and a buffer, at offset 0.\<close>

definition file_args :: "umem \<Rightarrow> u64 \<Rightarrow> path \<Rightarrow> u64 \<Rightarrow> u64 \<Rightarrow> bool" where
  "file_args m ptr p buf len \<longleftrightarrow> (\<exists>args. copy_user_struct m ptr 40 = Inr args
     \<and> copy_user_str m (field64 args 0) (field64 args 1) = Inr p \<and> field64 args 2 = 0
     \<and> field64 args 3 = buf \<and> field64 args 4 = len \<and> buf \<noteq> 0)"

lemma sys_vfs_write_args:
  assumes "file_args (v_um s) ptr p buf len" "len \<le> 1024 * 1024" "copy_from_user (v_um s) buf (unat len) = Some data"
    "vfs_write ops (v_tbl s) p data (v_disk s) = Some (Inr (), d)"
  shows "sys_vfs_write ops ptr s = Some (0, s\<lparr>v_disk := d\<rparr>)"
  using assms by (auto simp: file_args_def sys_vfs_write_def)

lemma sys_vfs_read_args:
  assumes "file_args (v_um s) ptr p buf len" "vfs_read ops (v_tbl s) (v_disk s) p = Some (Inr data)"
    "copy_to_user (v_um s) buf (take (unat len) data) = Some m"
  shows "sys_vfs_read ops ptr s = Some (int (min (unat len) (length data)), s\<lparr>v_um := m\<rparr>)"
proof (cases "min (unat len) (length data) = 0")
  case True
  then have "take (unat len) data = []" by (auto simp: min_def split: if_splits)
  then have "m = v_um s" using assms(3) by (auto simp: copy_to_user_def write_bytes_def split: if_splits)
  with True assms(1,2) show ?thesis by (auto simp: file_args_def sys_vfs_read_def)
next
  case False
  have "take (min (unat len) (length data)) data = take (unat len) data" by (simp add: min_def)
  with False assms show ?thesis by (auto simp: file_args_def sys_vfs_read_def Let_def)
qed

text \<open>
  C5: A new file written by one system call is read by another. The path resolves to a new name in the root
  directory of a mounted FAT32 volume of 512-byte sectors on a disk that answers every transfer; the directory holds
  no such name yet, is packed up to its end mark and has room for the entries in the sector of that mark; enough
  clusters are free, and the data is at most 1 MiB. Then \<open>sys_vfs_write\<close> returns 0 and changes the disk only, and
  \<open>sys_vfs_read\<close> of the same path returns the number of bytes copied, and the buffer holds that prefix of what was
  written, which is all of it when the buffer is large enough. Outside these conditions nothing is claimed: a write to
  an existing file appends to it, and where the directory sector has no room the write succeeds and the file is not
  found (\<open>create_lost_behind_end_mark\<close>).
\<close>

theorem file_syscalls_roundtrip:
  assumes "file_args (v_um s) wp p src n" "n \<le> 1024 * 1024" "copy_from_user (v_um s) src (unat n) = Some data"
    and "file_args (v_um s) rp p dst len" "copy_to_user (v_um s) dst (take (unat len) data) = Some m"
    and "resolve p (v_tbl s) = Some (Inr (k, q))" "can_create_at ops img cap k q data (v_disk s)"
  shows "\<exists>d'. sys_vfs_write ops wp s = Some (0, s\<lparr>v_disk := d'\<rparr>)
    \<and> sys_vfs_read ops rp (s\<lparr>v_disk := d'\<rparr>) = Some (int (min (unat len) (length data)), s\<lparr>v_disk := d', v_um := m\<rparr>)
    \<and> read_bytes m dst (min (unat len) (length data)) = take (unat len) data"
proof -
  obtain d' where d': "vfs_write ops (v_tbl s) p data (v_disk s) = Some (Inr (), d')" "vfs_read ops (v_tbl s) d' p = Some (Inr data)"
    using vfs_create_then_read [OF assms(6,7)] by blast
  have "length data < 2 ^ 32" using assms(7) by (simp add: can_create_at_def)
  then have "length (take (unat len) data) < 2 ^ 64" by simp
  from copy_to_user_reads_back [OF assms(5) this] show ?thesis
    using sys_vfs_write_args [OF assms(1-3) d'(1)] sys_vfs_read_args [of "s\<lparr>v_disk := d'\<rparr>" rp p dst len ops data m] assms(4,5) d'(2)
    by (auto simp: min.commute)
qed

text \<open>A user image with both argument blocks, the path and three bytes of data.\<close>

definition user_image :: umem where
  "user_image a =
     (if a \<in> {0x1001, 0x1101} then 0x20 else if a \<in> {0x1008, 0x1108} then 2
      else if a = 0x1019 then 0x30 else if a = 0x1020 then 3 else if a = 0x1119 then 0x40 else if a = 0x1120 then 16
      else if a = 0x2000 then SLASH else if a = 0x2001 then 0x61
      else if a = 0x3000 then 1 else if a = 0x3001 then 2 else if a = 0x3002 then 3 else 0)"

lemma user_image_bytes:
  "read_bytes user_image 0x2000 2 = [SLASH, 0x61]" "read_bytes user_image 0x3000 3 = [1, 2, 3]"
  "map (field64 (read_bytes user_image 0x1000 40)) [0, 1, 2, 3, 4] = [0x2000, 2, 0, 0x3000, 3]"
  "map (field64 (read_bytes user_image 0x1100 40)) [0, 1, 2, 3, 4] = [0x2000, 2, 0, 0x4000, 16]"
  by code_simp+

lemma user_image_args:
  "file_args user_image 0x1000 [SLASH, 0x61] 0x3000 3" "file_args user_image 0x1100 [SLASH, 0x61] 0x4000 16"
proof -
  have r: "is_user_range 0x1000 40" "is_user_range 0x1100 40" "is_user_range 0x2000 2" by (simp_all add: is_user_range_iff USER_MAX_def)
  have "copy_user_str user_image 0x2000 2 = Inr [SLASH, 0x61]"
    using r user_image_bytes(1) by (simp add: copy_user_str_def copy_from_user_def strip_nul_def)
  then show "file_args user_image 0x1000 [SLASH, 0x61] 0x3000 3" "file_args user_image 0x1100 [SLASH, 0x61] 0x4000 16"
    using r user_image_bytes(3,4) by (simp_all add: file_args_def copy_user_struct_def copy_from_user_def)
qed

theorem file_syscalls_roundtrip_witness:
  "\<exists>d'. sys_vfs_write ram_disk 0x1000 \<lparr>v_um = user_image, v_tbl = [\<lparr>mp = [SLASH], m_fs = KFat32 tiny\<rparr>], v_disk = root_disk\<rparr>
      = Some (0, \<lparr>v_um = user_image, v_tbl = [\<lparr>mp = [SLASH], m_fs = KFat32 tiny\<rparr>], v_disk = d'\<rparr>)
    \<and> map_option fst (sys_vfs_read ram_disk 0x1100
        \<lparr>v_um = user_image, v_tbl = [\<lparr>mp = [SLASH], m_fs = KFat32 tiny\<rparr>], v_disk = d'\<rparr>) = Some 3"
proof -
  let ?t = "[\<lparr>mp = [SLASH], m_fs = KFat32 tiny\<rparr>]"
  let ?s = "\<lparr>v_um = user_image, v_tbl = ?t, v_disk = root_disk\<rparr>"
  have res: "resolve [SLASH, 0x61] ?t = Some (Inr (KFat32 tiny, [SLASH, 0x61]))"
    by (simp add: resolve_def normalize_path_def pop_slash_def push_char_def serves_def strip_mount_prefix_def str_from_def)
  have "blk_ok ram_disk id 64 \<and> vol_ok tiny 64" using ram_disk_ok tiny_ok by blast
  then have can: "can_create_at ram_disk id 64 (KFat32 tiny) [SLASH, 0x61] [1, 2, 3] root_disk"
    using root_can_create root_space root_packed name_a
    by (auto simp: can_create_at_def tiny_facts intro!: exI [of _ "0 :: nat"])
  have w: "copy_from_user user_image 0x3000 3 = Some [1, 2, 3]"
    "copy_to_user user_image 0x4000 (take 16 [1, 2, 3]) = Some (write_bytes user_image 0x4000 [1, 2, 3])"
    using user_image_bytes(2) by (simp_all add: copy_from_user_def copy_to_user_def is_user_range_iff USER_MAX_def)
  note rt = file_syscalls_roundtrip [of ?s "0x1000" "[SLASH, 0x61]" "0x3000" 3 "[1, 2, 3]" "0x1100" "0x4000" 16
      "write_bytes user_image 0x4000 [1, 2, 3]" "KFat32 tiny" "[SLASH, 0x61]" ram_disk id 64]
  obtain d' where "sys_vfs_write ram_disk 0x1000 ?s = Some (0, ?s\<lparr>v_disk := d'\<rparr>)"
    "map_option fst (sys_vfs_read ram_disk 0x1100 (?s\<lparr>v_disk := d'\<rparr>)) = Some 3"
    using rt user_image_args res w can by auto
  then show ?thesis by auto
qed

end
