(* ===== verification/Exec.thy ===== *)
theory Exec
  imports Elf_Props Proc Vfs
begin

text \<open>
  \<^verbatim>\<open>kernel/exec/exec_impl.rs\<close> and \<open>sys_proc_spawn\<close> of \<^verbatim>\<open>kernel/syscall/proc.rs\<close>: a program is read from a file, loaded into
  a new address space with a stack, and started, either as a new thread or by turning the current one into a user
  thread. The state joins the scheduler, the kernel's arena and mapper, and the memory the loader writes. The tables of
  the kernel's half that the mapper changes are its own parameter state; the frame pool is one and the same.
\<close>

datatype exec_error = BadElf | NoMemory | VfsReadFail

record loaded_user_elf =
  le_entry :: u64
  le_user_stack_top :: u64

record ('h, 'e) xsys =
  xsch :: sched
  xum :: umem
  xvm :: "'h vm"
  xtab :: "u64 \<Rightarrow> nat \<Rightarrow> 'e"
  xbyt :: "u64 \<Rightarrow> u8"
  kernel_aspace :: "address_space option"

definition USER_STACK_TOP :: u64 where "USER_STACK_TOP = 0x00007ffffffff000"
definition USER_STACK_PAGES :: nat where "USER_STACK_PAGES = 16"

definition load_user_elf_into ::
  "'e pt_ops \<Rightarrow> (u64 \<Rightarrow> u64 option) \<Rightarrow> (path \<Rightarrow> (vfs_error + u8 list) option) \<Rightarrow> u64 \<Rightarrow> path \<Rightarrow> 'e pmem \<Rightarrow> ((exec_error + loaded_user_elf) \<times> 'e pmem) option" where
  "load_user_elf_into ops pf rd root path m = do {
     r \<leftarrow> rd path;
     case r of Inl _ \<Rightarrow> Some (Inl VfsReadFail, m) | Inr img \<Rightarrow> do {
       (r, m) \<leftarrow> load_elf64_user ops pf root img m;
       case r of Inl e \<Rightarrow> Some (Inl (if e = NoMem then NoMemory else BadElf), m) | Inr entry \<Rightarrow> do {
         let stack_size = of_nat (USER_STACK_PAGES * 4096);
         stack_bottom \<leftarrow> checked_sub USER_STACK_TOP stack_size;
         (r, m) \<leftarrow> map_user_zero ops pf root stack_bottom stack_size True m;
         case r of Inl _ \<Rightarrow> Some (Inl NoMemory, m) | Inr _ \<Rightarrow> do {
           rsp \<leftarrow> checked_sub USER_STACK_TOP 8;
           Some (Inr \<lparr>le_entry = entry, le_user_stack_top = rsp\<rparr>, m)
         }
       }
     }
   }"

text \<open>The memory as the loader sees it, and the state after the loader has written it.\<close>

definition get_pmem :: "('h, 'e) xsys \<Rightarrow> 'e pmem" where
  "get_pmem s = \<lparr>ptab = xtab s, pbyt = xbyt s, pl = pool (mem (xvm s))\<rparr>"

definition put_pmem :: "'e pmem \<Rightarrow> ('h, 'e) xsys \<Rightarrow> ('h, 'e) xsys" where
  "put_pmem m s = s\<lparr>xtab := ptab m, xbyt := pbyt m, xvm := (xvm s)\<lparr>mem := (mem (xvm s))\<lparr>pool := pl m\<rparr>\<rparr>\<rparr>"

text \<open>\<open>AddressSpace::activate\<close>: CR3, and a mapper for it.\<close>

definition activate :: "address_space \<Rightarrow> ('h, 'e) xsys \<Rightarrow> ('h, 'e) xsys" where
  "activate a s = s\<lparr>xsch := (xsch s)\<lparr>cr3 := a\<rparr>, xvm := (xvm s)\<lparr>mem := (mem (xvm s))\<lparr>mapper_set := True\<rparr>\<rparr>\<rparr>"

definition user_frame :: "u16 \<Rightarrow> u16 \<Rightarrow> u64 \<Rightarrow> u64 \<Rightarrow> trap_frame" where
  "user_frame ucode udata rip rsp = trap_frame_default\<lparr>tf_rip := rip, tf_cs := ucast (ucode OR 3), tf_rflags := 0x202,
     tf_user_rsp := rsp, tf_user_ss := ucast (udata OR 3)\<rparr>"

text \<open>\<open>ucode\<close> and \<open>udata\<close> are the selectors of \<open>gdt::user_segments\<close>, \<open>raw\<close> the address of the boxed task.\<close>

definition sys_proc_spawn ::
  "'h x86_ops \<Rightarrow> 'e pt_ops \<Rightarrow> (path \<Rightarrow> (vfs_error + u8 list) option) \<Rightarrow> u16 \<Rightarrow> u16 \<Rightarrow> ptr \<Rightarrow> u64 \<Rightarrow> ('h, 'e) xsys \<Rightarrow> (i64 \<times> ('h, 'e) xsys) option" where
  "sys_proc_spawn xops ops rd ucode udata raw args_ptr s =
     (case copy_user_struct (xum s) args_ptr 40 of
        Inl e \<Rightarrow> Some (e, s)
      | Inr args \<Rightarrow>
          (case copy_user_str (xum s) (field64 args 0) (field64 args 1) of
             Inl e \<Rightarrow> Some (e, s)
           | Inr path \<Rightarrow>
               if field64 args 2 \<noteq> 0 \<or> field64 args 3 \<noteq> 0 then Some (- ENOSYS, s)
               else do {
                 let caller_aspace = cr3 (xsch s);
                 ka \<leftarrow> kernel_aspace s;
                 let s = activate ka s;
                 let (pid, sc) = alloc_pid (xsch s);
                 let s = s\<lparr>xsch := sc\<rparr>;
                 (kstack_top, v) \<leftarrow> alloc_kstack_top xops 2 (xvm s);
                 let s = s\<lparr>xvm := v\<rparr>;
                 (root, m) \<leftarrow> new_user_address_space ops (x_frame xops) (as_root (cr3 (xsch s))) (get_pmem s);
                 let aspace = \<lparr>as_root = root, as_flags = as_flags (cr3 (xsch s))\<rparr>;
                 (r, m) \<leftarrow> load_user_elf_into ops (x_frame xops) rd root path m;
                 let s = put_pmem m s;
                 case r of
                   Inl _ \<Rightarrow> Some (- EINVAL, activate caller_aspace s)
                 | Inr ld \<Rightarrow>
                     (let (task_ptr, sc) = spawn_uthread userproc pid kstack_top
                            (user_frame ucode udata (le_entry ld) (le_user_stack_top ld)) raw (xsch s);
                          sc = sc\<lparr>procs := procs sc @ [\<lparr>pr_pid = pid, pr_aspace = aspace, pr_kstack_top = kstack_top,
                            pr_main_task = task_ptr, pr_state = PRunning, pr_name = path_basename path\<rparr>]\<rparr>
                      in Some (sint pid, activate caller_aspace (s\<lparr>xsch := sc\<rparr>)))
               }))"

section \<open>Turning the current thread into a user thread\<close>

text \<open>The result is what \<open>iretq\<close> loads: instruction pointer, code segment, flags, stack pointer, stack segment.\<close>

definition enter_user ::
  "u16 \<Rightarrow> u16 \<Rightarrow> address_space \<Rightarrow> u64 \<Rightarrow> u64 \<Rightarrow> ('h, 'e) xsys \<Rightarrow> ((u64 \<times> u64 \<times> u64 \<times> u64 \<times> u64) \<times> ('h, 'e) xsys) option" where
  "enter_user ucode udata aspace rip rsp s = do {
     let tf = user_frame ucode udata rip rsp;
     sc \<leftarrow> (if current (xsch s) = 0 then Some (xsch s)
           else do {
             sc \<leftarrow> upd_task (current (xsch s)) (\<lambda>t. t\<lparr>tf_valid := True, t_tf := tf\<rparr>) (xsch s);
             t \<leftarrow> tasks sc (current sc);
             Some (sc\<lparr>rsp0 := t_kstack_top t\<rparr>)
           });
     Some ((rip, tf_cs tf, 0x202, rsp, tf_user_ss tf), activate aspace (s\<lparr>xsch := sc\<lparr>iflag := False\<rparr>\<rparr>))
   }"

text \<open>A failed load halts the machine's thread for good: the inner \<open>Inl\<close>.\<close>

definition run_user_elf ::
  "'h x86_ops \<Rightarrow> 'e pt_ops \<Rightarrow> (path \<Rightarrow> (vfs_error + u8 list) option) \<Rightarrow> u16 \<Rightarrow> u16 \<Rightarrow> path \<Rightarrow> u8 list \<Rightarrow> ('h, 'e) xsys
     \<Rightarrow> ((exec_error + u64 \<times> u64 \<times> u64 \<times> u64 \<times> u64) \<times> ('h, 'e) xsys) option" where
  "run_user_elf xops ops rd ucode udata path name s = do {
     let (pid, sc) = alloc_pid (xsch s);
     let s = s\<lparr>xsch := sc\<rparr>;
     (root, m) \<leftarrow> new_user_address_space ops (x_frame xops) (as_root (cr3 (xsch s))) (get_pmem s);
     let aspace = \<lparr>as_root = root, as_flags = as_flags (cr3 (xsch s))\<rparr>;
     (r, m) \<leftarrow> load_user_elf_into ops (x_frame xops) rd root path m;
     let s = put_pmem m s;
     case r of
       Inl e \<Rightarrow> Some (Inl e, s)
     | Inr ld \<Rightarrow> do {
         let cur = current (xsch s);
         top \<leftarrow> (if cur = 0 then Some 0 else map_option t_kstack_top (tasks (xsch s) cur));
         let sc = (xsch s)\<lparr>procs := procs (xsch s) @ [\<lparr>pr_pid = pid, pr_aspace = aspace, pr_kstack_top = top,
           pr_main_task = cur, pr_state = PRunning, pr_name = name\<rparr>]\<rparr>;
         sc \<leftarrow> (if cur = 0 then Some sc else upd_task cur (\<lambda>t. t\<lparr>t_kind := UThread pid\<rparr>) sc);
         (iret, s) \<leftarrow> enter_user ucode udata aspace (le_entry ld) (le_user_stack_top ld) (s\<lparr>xsch := sc\<rparr>);
         Some (Inr iret, s)
       }
   }"

section \<open>Facts\<close>

definition with_stack :: "(nat \<Rightarrow> u8 option) \<Rightarrow> nat \<Rightarrow> u8 option" where
  "with_stack I a = (if I a = None \<and> 0x7ffffffef000 \<le> a \<and> a < 0x7ffffffff000 then Some 0 else I a)"

lemma load_user_elf_into_ok:
  assumes "pt_laws ops" "user_space ops pf root m" "elf_ok img eh" "rd path = Some (Inr img)"
    and "4 * (sum_list (map seg_pages (elf_segments img eh)) + 16) \<le> card (free_frames (pl m))"
  shows "\<exists>m'. load_user_elf_into ops pf rd root path m = Some (Inr \<lparr>le_entry = e_entry eh, le_user_stack_top = 0x7fffffffeff8\<rparr>, m')
    \<and> user_space ops pf root m' \<and> proc_image ops root m' = with_stack (fold (place_segment img) (elf_segments img eh) (proc_image ops root m))"
proof -
  obtain m1 where m1: "load_elf64_user ops pf root img m = Some (Inr (e_entry eh), m1)" "user_space ops pf root m1"
      "card (free_frames (pl m)) \<le> card (free_frames (pl m1)) + 4 * sum_list (map seg_pages (elf_segments img eh))"
      "proc_image ops root m1 = fold (place_segment img) (elf_segments img eh) (proc_image ops root m)"
    using load_elf64_user_ok [OF assms(1-3)] assms(5) unfolding loaded_def by auto
  let ?bottom = "0x7ffffffef000 :: u64" and ?size = "0x10000 :: u64"
  have c: "checked_sub USER_STACK_TOP (of_nat (USER_STACK_PAGES * 4096)) = Some ?bottom" "checked_sub USER_STACK_TOP 8 = Some 0x7fffffffeff8"
      "of_nat (USER_STACK_PAGES * 4096) = ?size"
    by (simp_all add: checked_sub_def USER_STACK_TOP_def USER_STACK_PAGES_def word_le_nat_alt)
  have "(unat ?bottom + unat ?size + 4095) div 4096 - unat ?bottom div 4096 = 16" by simp
  moreover have "4 * 16 \<le> card (free_frames (pl m1))" using m1(3) assms(5) by simp
  ultimately obtain m' where m': "map_user_zero ops pf root ?bottom ?size True m1 = Some (Inr (), m')" "user_space ops pf root m'"
      "proc_image ops root m' = (\<lambda>a. if proc_image ops root m1 a = None \<and> a < 2 ^ 47 \<and> unat ?bottom div 4096 \<le> a div 4096
         \<and> a div 4096 * 4096 < unat ?bottom + unat ?size then Some 0 else proc_image ops root m1 a)"
    using map_user_zero_ok [OF assms(1) m1(2), of ?bottom ?size True] by auto
  have "(a < 2 ^ 47 \<and> unat ?bottom div 4096 \<le> a div 4096 \<and> a div 4096 * 4096 < unat ?bottom + unat ?size)
      \<longleftrightarrow> 0x7ffffffef000 \<le> a \<and> a < 0x7ffffffff000" for a :: nat
    by (simp add: less_eq_div_iff_mult_less_eq) linarith
  then have "proc_image ops root m' = with_stack (proc_image ops root m1)" unfolding m'(3) with_stack_def by auto
  then show ?thesis using assms(4) m1(1,4) m'(1,2) c by (simp add: load_user_elf_into_def)
qed

text \<open>A program in a new address space.\<close>

lemma fresh_program:
  assumes "pt_laws ops" "pool_ok pf (pl m)" "cur \<notin> free_frames (pl m)" "elf_ok img eh" "rd path = Some (Inr img)"
    and "4 * (sum_list (map seg_pages (elf_segments img eh)) + 16) < card (free_frames (pl m))"
  shows "\<exists>root m1 m2. new_user_address_space ops pf cur m = Some (root, m1) \<and> root \<in> free_frames (pl m)
    \<and> load_user_elf_into ops pf rd root path m1 = Some (Inr \<lparr>le_entry = e_entry eh, le_user_stack_top = 0x7fffffffeff8\<rparr>, m2)
    \<and> user_space ops pf root m2 \<and> proc_image ops root m2 = with_stack (fold (place_segment img) (elf_segments img eh) Map.empty)"
proof -
  have "free_frames (pl m) \<noteq> {}" using assms(6) by auto
  then obtain root m1 where m1: "new_user_address_space ops pf cur m = Some (root, m1)" "root \<in> free_frames (pl m)" "user_space ops pf root m1"
      "proc_image ops root m1 = Map.empty" "card (free_frames (pl m)) = card (free_frames (pl m1)) + 1"
    using new_user_address_space_ok [OF assms(1,2) _ assms(3)] by blast
  have "4 * (sum_list (map seg_pages (elf_segments img eh)) + 16) \<le> card (free_frames (pl m1))" using m1(5) assms(6) by simp
  from load_user_elf_into_ok [where rd = rd and path = path, OF assms(1) m1(3) assms(4,5) this] show ?thesis using m1 by auto
qed

lemma load_user_elf_into_rsp:
  assumes "load_user_elf_into ops pf rd root path m = Some (Inr ld, m')"
  shows "le_user_stack_top ld = 0x7fffffffeff8"
proof -
  have "checked_sub USER_STACK_TOP 8 = Some 0x7fffffffeff8" by (simp add: checked_sub_def USER_STACK_TOP_def word_le_nat_alt)
  then show ?thesis using assms by (auto simp: load_user_elf_into_def Let_def split: Option.bind_splits sum.splits prod.splits)
qed

lemma copy_user_errors:
  "copy_user_struct um p n = Inl e \<Longrightarrow> e = - EFAULT" "copy_user_str um p l = Inl e \<Longrightarrow> e \<in> {- EFAULT, - EINVAL}"
  by (auto simp: copy_user_struct_def copy_user_str_def Let_def split: if_splits option.splits)

text \<open>Every return of \<open>sys_proc_spawn\<close> is in the caller's address space; a failed one has changed no task, queue or process.\<close>

lemma spawn_outcome:
  assumes "sys_proc_spawn xops ops rd ucode udata raw args_ptr s = Some (r, s')"
  shows "cr3 (xsch s') = cr3 (xsch s)"
    and "(r \<in> {- EFAULT, - EINVAL, - ENOSYS} \<and> tasks (xsch s') = tasks (xsch s) \<and> runq (xsch s') = runq (xsch s) \<and> procs (xsch s') = procs (xsch s))
      \<or> (r = sint (next_pid (xsch s)) \<and> runq (xsch s') = runq (xsch s) @ [raw] \<and> (\<exists>p. procs (xsch s') = procs (xsch s) @ [p]
           \<and> pr_pid p = next_pid (xsch s) \<and> pr_main_task p = raw \<and> pr_state p = PRunning)
         \<and> (\<forall>q. q \<noteq> raw \<longrightarrow> tasks (xsch s') q = tasks (xsch s) q)
         \<and> (\<exists>t. tasks (xsch s') raw = Some t \<and> t_state t = Runnable \<and> t_kind t = UThread (next_pid (xsch s)) \<and> tf_valid t
              \<and> tf_user_rsp (t_tf t) = 0x7fffffffeff8))"
  using assms unfolding sys_proc_spawn_def
  by (auto simp: activate_def put_pmem_def alloc_pid_def spawn_uthread_def user_frame_def Let_def
      dest: copy_user_errors load_user_elf_into_rsp split: sum.splits if_splits prod.splits Option.bind_splits)

text \<open>A spawn that fails in the loader has used a process number and keeps the pages of the kernel stack it made.\<close>

lemma spawn_failure_keeps_stack:
  assumes "sys_proc_spawn xops ops rd ucode udata raw args_ptr s = Some (r, s')" "r < 0" "next_pid (xsch s') \<noteq> next_pid (xsch s)"
    and "0 \<le> sint (next_pid (xsch s))"
  shows "\<exists>ka top v. kernel_aspace s = Some ka \<and> alloc_kstack_top xops 2 (xvm (activate ka s)) = Some (top, v) \<and> arena (xvm s') = arena v
    \<and> next_pid (xsch s') = next_pid (xsch s) + 1 \<and> r = - EINVAL"
  using assms unfolding sys_proc_spawn_def
  by (auto simp: activate_def put_pmem_def alloc_pid_def spawn_uthread_def Let_def split: sum.splits if_splits prod.splits Option.bind_splits)

section \<open>Running a program\<close>

lemma get_put_pmem [simp]: "get_pmem (put_pmem m s) = m" "get_pmem (activate a s) = get_pmem s" "get_pmem (s\<lparr>xsch := sc\<rparr>) = get_pmem s"
    "xsch (put_pmem m s) = xsch s" "xsch (activate a s) = (xsch s)\<lparr>cr3 := a\<rparr>"
  by (simp_all add: get_pmem_def put_pmem_def activate_def)

text \<open>
  C6: running a well-formed program from the current thread, with four free frames for each page of its segments and its
  stack and one for the top table, always reaches user mode: \<open>iretq\<close> gets the entry point, the user selectors and the top
  of the stack, a new process of the current thread is in the table, its address space is active, and the memory it sees
  is the segments of the file over an otherwise empty space, with sixteen zero pages of stack.
\<close>

theorem run_user_elf_starts:
  assumes "pt_laws ops" "pool_ok (x_frame xops) (pool (mem (xvm s)))" "as_root (cr3 (xsch s)) \<notin> free_frames (pool (mem (xvm s)))"
    and "rd path = Some (Inr img)" "elf_ok img eh" "4 * (sum_list (map seg_pages (elf_segments img eh)) + 16) < card (free_frames (pool (mem (xvm s))))"
    and "current (xsch s) \<noteq> 0" "tasks (xsch s) (current (xsch s)) = Some t"
  shows "\<exists>root s'. run_user_elf xops ops rd ucode udata path name s
        = Some (Inr (e_entry eh, ucast (ucode OR 3), 0x202, 0x7fffffffeff8, ucast (udata OR 3)), s')
    \<and> root \<in> free_frames (pool (mem (xvm s))) \<and> cr3 (xsch s') = \<lparr>as_root = root, as_flags = as_flags (cr3 (xsch s))\<rparr>
    \<and> rsp0 (xsch s') = t_kstack_top t \<and> \<not> iflag (xsch s')
    \<and> procs (xsch s') = procs (xsch s) @ [\<lparr>pr_pid = next_pid (xsch s), pr_aspace = cr3 (xsch s'), pr_kstack_top = t_kstack_top t,
         pr_main_task = current (xsch s), pr_state = PRunning, pr_name = name\<rparr>]
    \<and> proc_image ops root (get_pmem s') = with_stack (fold (place_segment img) (elf_segments img eh) Map.empty)"
proof -
  have pl: "pl (get_pmem s) = pool (mem (xvm s))" by (simp add: get_pmem_def)
  obtain root m1 m2 where m: "new_user_address_space ops (x_frame xops) (as_root (cr3 (xsch s))) (get_pmem s) = Some (root, m1)"
      "root \<in> free_frames (pool (mem (xvm s)))"
      "load_user_elf_into ops (x_frame xops) rd root path m1 = Some (Inr \<lparr>le_entry = e_entry eh, le_user_stack_top = 0x7fffffffeff8\<rparr>, m2)"
      "proc_image ops root m2 = with_stack (fold (place_segment img) (elf_segments img eh) Map.empty)"
    using fresh_program [OF assms(1), of "x_frame xops" "get_pmem s" _ img eh rd path] assms(2-6) unfolding pl by blast
  then show ?thesis using assms(7,8)
    by (simp add: run_user_elf_def enter_user_def alloc_pid_def upd_task_def user_frame_def trap_frame_default_def Let_def)
qed

definition demo_sys :: "((u64 \<times> u64) list, (u64 \<times> pt_flag set) option) xsys" where
  "demo_sys = \<lparr>xsch = (booted 0x20)\<lparr>cr3 := \<lparr>as_root = 0x1000, as_flags = 0\<rparr>\<rparr>, xum = \<lambda>_. 0,
     xvm = \<lparr>arena = arena (flat_vm 0), once = True, mem = \<lparr>hw = [], mapper_set = True, pool = pl (demo_mem 80)\<rparr>\<rparr>,
     xtab = ptab (demo_mem 80), xbyt = pbyt (demo_mem 80), kernel_aspace = Some \<lparr>as_root = 0x1000, as_flags = 0\<rparr>\<rparr>"

theorem run_user_elf_starts_witness:
  "\<exists>root s'. run_user_elf flat_ops demo_pt (\<lambda>_. Some (Inr demo_elf)) 0x30 0x28 [0x2f] [0x69] demo_sys
      = Some (Inr (0x400ffe, 0x33, 0x202, 0x7fffffffeff8, 0x2b), s')
    \<and> as_root (cr3 (xsch s')) = root \<and> map pr_name (procs (xsch s')) = [[0x69]]
    \<and> map (proc_image demo_pt root (get_pmem s')) [0x400ffe, 0x400fff, 0x401000, 0x402000, 0x7fffffffeff8, 0x7ffffffff000]
        = [Some 0xeb, Some 0xfe, Some 0, None, Some 0, None]"
proof -
  have p: "pool (mem (xvm demo_sys)) = pl (demo_mem 80)" "current (xsch demo_sys) = 0x20" "procs (xsch demo_sys) = []" "as_root (cr3 (xsch demo_sys)) = 0x1000"
    "tasks (xsch demo_sys) 0x20 = Some ((a_task (UThread 1) True 0x33)\<lparr>t_state := Running\<rparr>)"
    by (simp_all add: demo_sys_def booted_def)
  have sel: "ucast (0x30 OR 3 :: u16) = (0x33 :: u64)" "ucast (0x28 OR 3 :: u16) = (0x2b :: u64)" by simp_all
  have f: "x_frame flat_ops = Some" by (simp add: flat_ops_def)
  have "4 * (sum_list (map seg_pages (elf_segments demo_elf (ehdr_of demo_elf))) + 16) < card (free_frames (pl (demo_mem 80)))"
    using demo_pool(2) [of 80] by (simp add: demo_elf_ok(3) seg_pages_def)
  with run_user_elf_starts [OF demo_pt_laws, of flat_ops demo_sys "\<lambda>_. Some (Inr demo_elf)" "[0x2f]" demo_elf "ehdr_of demo_elf" _ "0x30" "0x28" "[0x69]"]
    demo_pool(1,3) [of 80] demo_elf_ok(4)
  obtain root s' where r: "run_user_elf flat_ops demo_pt (\<lambda>_. Some (Inr demo_elf)) 0x30 0x28 [0x2f] [0x69] demo_sys
      = Some (Inr (0x400ffe, 0x33, 0x202, 0x7fffffffeff8, 0x2b), s')" "as_root (cr3 (xsch s')) = root" "map pr_name (procs (xsch s')) = [[0x69]]"
      "proc_image demo_pt root (get_pmem s') = with_stack (fold (place_segment demo_elf) (elf_segments demo_elf (ehdr_of demo_elf)) Map.empty)"
    unfolding p f sel demo_elf_ok(2) by fastforce
  have n: "demo_elf ! 120 = 0xeb" "demo_elf ! 121 = 0xfe" by (simp_all add: demo_elf_def)
  have "map (proc_image demo_pt root (get_pmem s')) [0x400ffe, 0x400fff, 0x401000, 0x402000, 0x7fffffffeff8, 0x7ffffffff000]
      = [Some 0xeb, Some 0xfe, Some 0, None, Some 0, None]"
    unfolding r(4) demo_elf_ok(3) by (simp add: with_stack_def place_segment_def n)
  then show ?thesis using r(1,2,3) by (intro exI conjI)
qed

end
