(* ===== verification/Virtq.thy ===== *)
theory Virtq
  imports Vmarena "HOL-Library.Multiset"
begin

text \<open>
  \<^verbatim>\<open>kernel/drivers/virtio/virtqueue\<close> (\<^verbatim>\<open>defs.rs\<close>, \<^verbatim>\<open>mem.rs\<close>, \<^verbatim>\<open>queue.rs\<close>) and \<open>setup_queue\<close> of \<^verbatim>\<open>pci/transport.rs\<close>:
  a split virtqueue. The memory that driver and device share is a descriptor table and two rings with 16-bit
  counters that wrap: the driver writes descriptor heads into the available ring and the device writes completions
  into the used ring. \<open>v_dev\<close> is where the device stands in the available ring; the driver never reads it.
\<close>

section \<open>The queue\<close>

record desc =
  dsc_addr :: u64
  dsc_len :: u32
  dsc_flags :: u16
  dsc_next :: u16

definition VIRTQ_DESC_F_NEXT :: u16 where "VIRTQ_DESC_F_NEXT = 1"
definition VIRTQ_DESC_F_WRITE :: u16 where "VIRTQ_DESC_F_WRITE = 2"

record used_elem =
  ue_id :: u32
  ue_len :: u32

record vring =
  v_qsz :: u16
  v_desc :: "nat \<Rightarrow> desc"
  v_avail_idx :: u16
  v_avail :: "nat \<Rightarrow> u16"
  v_used_idx :: u16
  v_used :: "nat \<Rightarrow> used_elem"
  v_free :: "u16 list"
  v_last_used :: u16
  v_notify_mul :: u32
  v_notify_off :: u16
  v_kicks :: "(nat \<times> u16) list"
  v_dev :: u16

text \<open>The sizes of the parts and the number of pages that \<open>VirtQueue::new\<close> computes; \<open>x & !(2^k - 1)\<close> rounds down.\<close>

definition desc_sz :: "u16 \<Rightarrow> nat" where "desc_sz qsz = (16 * unat qsz + 15) div 16 * 16"
definition avail_sz :: "u16 \<Rightarrow> nat" where "avail_sz qsz = (4 + 2 * unat qsz + 2 + 3) div 4 * 4"
definition used_sz :: "u16 \<Rightarrow> nat" where "used_sz qsz = (4 + 8 * unat qsz + 3) div 4 * 4"
definition queue_pages :: "u16 \<Rightarrow> nat" where "queue_pages qsz = (desc_sz qsz + avail_sz qsz + used_sz qsz + 4096 + 4095) div 4096"

text \<open>Where the three parts lie in a slab at \<open>slab_va\<close>: descriptors, available ring, used ring.\<close>

definition queue_layout :: "u16 \<Rightarrow> u64 \<Rightarrow> (u64 \<times> u64 \<times> u64) option" where
  "queue_layout qsz slab_va = do {
     avail_va \<leftarrow> checked_add slab_va (of_nat (desc_sz qsz));
     a \<leftarrow> checked_add avail_va (of_nat (avail_sz qsz));
     b \<leftarrow> checked_add a 4095;
     Some (slab_va, avail_va, b AND NOT 4095)
   }"

text \<open>
  The queue on zeroed memory, all descriptors free; the next one to hand out is the last of the list. The memory of the
  rings is taken as given: \<open>VirtQueue::new\<close> gets it from \<open>alloc_pages_contig\<close> (below), which uses up pages of the
  arena and may panic or retry for ever, and this step is not part of \<open>vq_new\<close>, of \<open>setup_queue\<close> or of the attachment of
  a device. The rings are the functions \<open>v_desc\<close>, \<open>v_avail\<close> and \<open>v_used\<close>, apart from all other memory.
\<close>

definition vq_new :: "u16 \<Rightarrow> u32 \<Rightarrow> u16 \<Rightarrow> vring" where
  "vq_new qsz notify_mul notify_off =
     \<lparr>v_qsz = qsz, v_desc = (\<lambda>_. \<lparr>dsc_addr = 0, dsc_len = 0, dsc_flags = 0, dsc_next = 0\<rparr>), v_avail_idx = 0, v_avail = (\<lambda>_. 0),
      v_used_idx = 0, v_used = (\<lambda>_. \<lparr>ue_id = 0, ue_len = 0\<rparr>), v_free = rev (map of_nat [0..<unat qsz]), v_last_used = 0,
      v_notify_mul = notify_mul, v_notify_off = notify_off, v_kicks = [], v_dev = 0\<rparr>"

text \<open>\<open>max\<close> is the queue size that the device offers.\<close>

definition setup_queue :: "u16 \<Rightarrow> u32 \<Rightarrow> u16 \<Rightarrow> vring option" where
  "setup_queue mx notify_mul notify_off =
     (if mx = 0 then None else Some (vq_new (if mx > 256 then 256 else mx) notify_mul notify_off))"

definition alloc_desc :: "vring \<Rightarrow> (u16 \<times> vring) option" where
  "alloc_desc q = (if v_free q = [] then None else Some (last (v_free q), q\<lparr>v_free := butlast (v_free q)\<rparr>))"

definition free_desc :: "u16 \<Rightarrow> vring \<Rightarrow> vring" where
  "free_desc h q = (if h \<ge> v_qsz q then q else q\<lparr>v_free := v_free q @ [h]\<rparr>)"

definition free_count :: "vring \<Rightarrow> nat" where
  "free_count q = length (v_free q)"

text \<open>The remainder by a queue size of zero panics.\<close>

definition vq_push :: "u16 \<Rightarrow> vring \<Rightarrow> vring option" where
  "vq_push h q = (let idx = v_avail_idx q in
     if v_qsz q = 0 then None
     else Some (q\<lparr>v_avail := (v_avail q)(unat idx mod unat (v_qsz q) := h), v_avail_idx := idx + 1\<rparr>))"

definition pop_used :: "vring \<Rightarrow> (used_elem option \<times> vring) option" where
  "pop_used q =
     (if v_used_idx q = v_last_used q then Some (None, q)
      else if v_qsz q = 0 then None
      else Some (Some (v_used q (unat (v_last_used q) mod unat (v_qsz q))), q\<lparr>v_last_used := v_last_used q + 1\<rparr>))"

text \<open>A write of the queue number at the queue's offset in the notification area.\<close>

definition notify :: "u16 \<Rightarrow> vring \<Rightarrow> vring" where
  "notify qsel q = q\<lparr>v_kicks := v_kicks q @ [(unat (ucast (v_notify_off q) * v_notify_mul q), qsel)]\<rparr>"

section \<open>Contiguous queue memory\<close>

text \<open>\<open>frame::alloc().expect(..)\<close> as often as there are pages.\<close>

fun take_frames :: "'h x86_ops \<Rightarrow> nat \<Rightarrow> 'h mm \<Rightarrow> (u64 list \<times> 'h mm) option" where
  "take_frames ops 0 m = Some ([], m)"
| "take_frames ops (Suc n) m = do {
     (f, m) \<leftarrow> frame_alloc ops m;
     case f of
       None \<Rightarrow> None
     | Some f \<Rightarrow> do { (fs, m) \<leftarrow> take_frames ops n m; Some (f # fs, m) }
   }"

fun free_frames_of :: "u64 list \<Rightarrow> 'h mm \<Rightarrow> 'h mm option" where
  "free_frames_of [] m = Some m"
| "free_frames_of (f # fs) m = do { m \<leftarrow> frame_free f m; free_frames_of fs m }"

definition contiguous :: "u64 list \<Rightarrow> bool" where
  "contiguous fs \<longleftrightarrow> list_all (\<lambda>i. fs ! i = hd fs + of_nat i * 4096) [1..<length fs]"

fun map_frames :: "'h x86_ops \<Rightarrow> u64 \<Rightarrow> nat \<Rightarrow> u64 list \<Rightarrow> 'h mm \<Rightarrow> 'h mm option" where
  "map_frames ops va_base i [] m = Some m"
| "map_frames ops va_base i (f # fs) m = do {
     va \<leftarrow> page_va ops va_base i;
     (r, m) \<leftarrow> map_fixed ops va f RW m;
     case r of Inl _ \<Rightarrow> None | Inr _ \<Rightarrow> map_frames ops va_base (i + 1) fs m
   }"

text \<open>
  The loop labelled \<open>'retry\<close>: frames that are not contiguous are given back and taken again. Its value is the
  frames and the memory, inside an option for a panic; that it does not return is the outer \<open>None\<close>.
\<close>

partial_function (option) contig_retry :: "'h x86_ops \<Rightarrow> nat \<Rightarrow> 'h mm \<Rightarrow> (u64 list \<times> 'h mm) option option" where
  "contig_retry ops n m =
     (case take_frames ops n m of
        None \<Rightarrow> Some None
      | Some (fs, m1) \<Rightarrow>
          if contiguous fs then Some (Some (fs, m1))
          else (case free_frames_of fs m1 of None \<Rightarrow> Some None | Some m2 \<Rightarrow> contig_retry ops n m2))"

text \<open>The address and the first frame of \<open>n_pages\<close> pages; \<open>unback_pages\<close> is the loop that unmaps and frees what \<open>alloc_n\<close> mapped.\<close>

definition alloc_pages_contig :: "'h x86_ops \<Rightarrow> nat \<Rightarrow> 'h vm \<Rightarrow> ((u64 \<times> u64) \<times> 'h vm) option option" where
  "alloc_pages_contig ops n_pages s =
     (case (do { assert_that (n_pages \<ge> 1); (r, s) \<leftarrow> alloc_n ops n_pages s; va \<leftarrow> r; m \<leftarrow> unback_pages ops va 0 n_pages (mem s); Some (va, s\<lparr>mem := m\<rparr>) }) of
        None \<Rightarrow> Some None
      | Some (va, s) \<Rightarrow>
          (case contig_retry ops n_pages (mem s) of
             None \<Rightarrow> None
           | Some None \<Rightarrow> Some None
           | Some (Some (fs, m)) \<Rightarrow> Some (do { m \<leftarrow> map_frames ops va 0 fs m; Some ((va, hd fs), s\<lparr>mem := m\<rparr>) })))"

section \<open>The rings as queues\<close>

text \<open>
  The abstraction: the heads that the device has not taken yet, and the completions that the driver has not taken
  yet. A queue is well formed when its size divides the range of the counters, as the size of a split queue does,
  and neither ring holds more than it has slots for.
\<close>

definition ring :: "nat \<Rightarrow> (nat \<Rightarrow> 'a) \<Rightarrow> u16 \<Rightarrow> u16 \<Rightarrow> 'a list" where
  "ring n r lo hi = map (\<lambda>i. r (unat (lo + of_nat i) mod n)) [0..<unat (hi - lo)]"

definition avail_list :: "vring \<Rightarrow> u16 list" where
  "avail_list q = ring (unat (v_qsz q)) (v_avail q) (v_dev q) (v_avail_idx q)"

definition used_list :: "vring \<Rightarrow> used_elem list" where
  "used_list q = ring (unat (v_qsz q)) (v_used q) (v_last_used q) (v_used_idx q)"

definition vq_ok :: "vring \<Rightarrow> bool" where
  "vq_ok q \<longleftrightarrow> v_qsz q \<noteq> 0 \<and> unat (v_qsz q) dvd 2 ^ 16 \<and> length (avail_list q) \<le> unat (v_qsz q) \<and> length (used_list q) \<le> unat (v_qsz q)"

text \<open>What the device does: it takes the next available head, and it completes one.\<close>

definition dev_take :: "vring \<Rightarrow> (u16 \<times> vring) option" where
  "dev_take q = (if v_dev q = v_avail_idx q then None else Some (v_avail q (unat (v_dev q) mod unat (v_qsz q)), q\<lparr>v_dev := v_dev q + 1\<rparr>))"

definition dev_complete :: "used_elem \<Rightarrow> vring \<Rightarrow> vring" where
  "dev_complete e q = q\<lparr>v_used := (v_used q)(unat (v_used_idx q) mod unat (v_qsz q) := e), v_used_idx := v_used_idx q + 1\<rparr>"

lemma length_ring [simp]: "length (ring n r lo hi) = unat (hi - lo)"
  by (simp add: ring_def)

lemma unat_mod_dvd: "n dvd 2 ^ 16 \<Longrightarrow> unat (lo + of_nat i :: u16) mod n = (unat lo + i) mod n"
  by (simp add: unat_word_ariths unat_of_nat mod_mod_cancel mod_simps)

lemma qsz_half: "n dvd 2 ^ 16 \<Longrightarrow> n \<noteq> 0 \<Longrightarrow> n < 2 ^ 16 \<Longrightarrow> n \<le> (2 :: nat) ^ 15"
proof -
  assume n: "n dvd 2 ^ 16" "n \<noteq> 0" "n < 2 ^ 16"
  then obtain k where k: "n * k = 2 ^ 16" by (metis dvdE)
  then have "k \<noteq> 0" "k \<noteq> 1" using n(3) by (auto intro: ccontr)
  then have "2 * n \<le> n * k" by (cases k) auto
  then show ?thesis using k by simp
qed

lemma ring_push:
  assumes "n dvd 2 ^ 16" "n < 2 ^ 16" "unat (hi - lo) < n"
  shows "ring n (r(unat hi mod n := x)) lo (hi + 1) = ring n r lo hi @ [x]"
proof -
  define k where "k = unat (hi - lo)"
  have k: "k < n" using assms(3) by (simp add: k_def)
  have hi: "hi = lo + of_nat k" by (simp add: k_def)
  have "n \<le> 2 ^ 15" using qsz_half [OF assms(1) _ assms(2)] k by simp
  then have "unat (of_nat (Suc k) :: u16) = Suc k" using k by (simp only: unat_of_nat) simp
  moreover have "hi + 1 - lo = of_nat (Suc k)" by (simp add: hi)
  ultimately have len: "unat (hi + 1 - lo) = Suc k" by metis
  have slot: "unat (lo + of_nat i) mod n \<noteq> unat hi mod n" if "i < k" for i
  proof
    assume "unat (lo + of_nat i) mod n = unat hi mod n"
    then have "(unat lo + i) mod n = (unat lo + k) mod n" unfolding hi unat_mod_dvd [OF assms(1)] .
    then have "n dvd unat lo + k - (unat lo + i)" using that by (metis mod_eq_dvd_iff_nat add_le_cancel_left less_imp_le)
    then have "n dvd k - i" by simp
    then show False using that k by (auto dest: dvd_imp_le)
  qed
  have "ring n (r(unat hi mod n := x)) lo (hi + 1) = map (\<lambda>i. (r(unat hi mod n := x)) (unat (lo + of_nat i) mod n)) [0..<Suc k]"
    by (simp only: ring_def len)
  also have "\<dots> = map (\<lambda>i. r (unat (lo + of_nat i) mod n)) [0..<k] @ [x]" using slot by (simp add: hi)
  also have "\<dots> = ring n r lo hi @ [x]" by (simp add: ring_def k_def)
  finally show ?thesis .
qed

lemma ring_pop:
  assumes "hi \<noteq> lo"
  shows "ring n r lo hi = r (unat lo mod n) # ring n r (lo + 1) hi"
proof -
  have "unat (hi - lo) \<noteq> 0" using assms by (simp add: unat_eq_zero)
  moreover have "hi - (lo + 1) = hi - lo - 1" by simp
  moreover have "unat (hi - lo - 1) = unat (hi - lo) - 1" using assms by (simp add: unat_minus_one)
  ultimately have k: "unat (hi - lo) = Suc (unat (hi - (lo + 1)))" by (metis Suc_pred' neq0_conv)
  have "[0..<Suc m] = 0 # map Suc [0..<m]" for m by (metis map_Suc_upt upt_conv_Cons zero_less_Suc)
  then show ?thesis by (simp add: ring_def k comp_def add_ac)
qed

lemma ring_empty: "ring n r lo hi = [] \<longleftrightarrow> hi = lo"
  by (simp add: ring_def unat_eq_zero)

text \<open>The four operations on the abstraction.\<close>

lemma push_refines:
  assumes "vq_ok q" "length (avail_list q) < unat (v_qsz q)"
  shows "\<exists>q'. vq_push h q = Some q' \<and> vq_ok q' \<and> avail_list q' = avail_list q @ [h] \<and> used_list q' = used_list q
    \<and> v_free q' = v_free q \<and> v_qsz q' = v_qsz q \<and> v_desc q' = v_desc q"
proof -
  let ?n = "unat (v_qsz q)"
  let ?q = "q\<lparr>v_avail := (v_avail q)(unat (v_avail_idx q) mod ?n := h), v_avail_idx := v_avail_idx q + 1\<rparr>"
  have n: "?n dvd 2 ^ 16" "v_qsz q \<noteq> 0" using assms(1) by (auto simp: vq_ok_def)
  have "?n < 2 ^ 16" using unsigned_less [of "v_qsz q"] by simp
  from ring_push [OF n(1) this, of "v_avail_idx q" "v_dev q" "v_avail q" h] assms(2)
  have a: "avail_list ?q = avail_list q @ [h]" by (simp add: avail_list_def)
  have u: "used_list ?q = used_list q" by (simp add: used_list_def)
  have "vq_ok ?q" unfolding vq_ok_def a u using assms by (simp add: vq_ok_def)
  moreover have "vq_push h q = Some ?q" using n(2) by (simp add: vq_push_def Let_def)
  ultimately show ?thesis using a u by (intro exI [of _ ?q]) simp
qed

lemma pop_used_refines:
  assumes "vq_ok q"
  shows "case used_list q of
      [] \<Rightarrow> pop_used q = Some (None, q)
    | e # es \<Rightarrow> \<exists>q'. pop_used q = Some (Some e, q') \<and> vq_ok q' \<and> used_list q' = es \<and> avail_list q' = avail_list q
        \<and> v_free q' = v_free q \<and> v_qsz q' = v_qsz q \<and> v_desc q' = v_desc q"
proof (cases "v_used_idx q = v_last_used q")
  case True
  then have "used_list q = []" by (simp add: used_list_def ring_empty)
  with True show ?thesis by (simp add: pop_used_def)
next
  case False
  let ?q = "q\<lparr>v_last_used := v_last_used q + 1\<rparr>"
  have u: "used_list q = v_used q (unat (v_last_used q) mod unat (v_qsz q)) # used_list ?q"
    unfolding used_list_def using ring_pop [OF False] by simp
  have "avail_list ?q = avail_list q" by (simp add: avail_list_def)
  moreover from this have "vq_ok ?q" using assms u unfolding vq_ok_def by simp
  moreover have "pop_used q = Some (Some (v_used q (unat (v_last_used q) mod unat (v_qsz q))), ?q)"
    using False assms by (simp add: pop_used_def vq_ok_def)
  ultimately show ?thesis unfolding u by simp
qed

lemma dev_take_refines:
  assumes "vq_ok q"
  shows "case avail_list q of
      [] \<Rightarrow> dev_take q = None
    | h # hs \<Rightarrow> \<exists>q'. dev_take q = Some (h, q') \<and> vq_ok q' \<and> avail_list q' = hs \<and> used_list q' = used_list q
        \<and> v_free q' = v_free q \<and> v_qsz q' = v_qsz q \<and> v_desc q' = v_desc q"
proof (cases "v_avail_idx q = v_dev q")
  case True
  then have "avail_list q = []" by (simp add: avail_list_def ring_empty)
  with True show ?thesis by (simp add: dev_take_def)
next
  case False
  let ?q = "q\<lparr>v_dev := v_dev q + 1\<rparr>"
  have a: "avail_list q = v_avail q (unat (v_dev q) mod unat (v_qsz q)) # avail_list ?q"
    unfolding avail_list_def using ring_pop [OF False] by simp
  have "used_list ?q = used_list q" by (simp add: used_list_def)
  moreover from this have "vq_ok ?q" using assms a unfolding vq_ok_def by simp
  moreover have "dev_take q = Some (v_avail q (unat (v_dev q) mod unat (v_qsz q)), ?q)" using False by (auto simp: dev_take_def)
  ultimately show ?thesis unfolding a by simp
qed

lemma dev_complete_refines:
  assumes "vq_ok q" "length (used_list q) < unat (v_qsz q)"
  shows "vq_ok (dev_complete e q) \<and> used_list (dev_complete e q) = used_list q @ [e] \<and> avail_list (dev_complete e q) = avail_list q"
proof -
  let ?n = "unat (v_qsz q)"
  have n: "?n dvd 2 ^ 16" using assms(1) by (auto simp: vq_ok_def)
  have "?n < 2 ^ 16" using unsigned_less [of "v_qsz q"] by simp
  from ring_push [OF n this, of "v_used_idx q" "v_last_used q" "v_used q" e] assms(2)
  have u: "used_list (dev_complete e q) = used_list q @ [e]" by (simp add: used_list_def dev_complete_def)
  have a: "avail_list (dev_complete e q) = avail_list q" by (simp add: avail_list_def dev_complete_def)
  have "vq_ok (dev_complete e q)" unfolding vq_ok_def a u using assms by (simp add: vq_ok_def dev_complete_def)
  with a u show ?thesis by simp
qed

lemma vq_new_lists: "avail_list (vq_new n a b) = []" "used_list (vq_new n a b) = []"
  by (simp_all add: avail_list_def used_list_def vq_new_def ring_def)

section \<open>What a driver relies on\<close>

text \<open>
  A queue through which a driver lends buffers, named by heads, to a device and gets them back: pushed heads appear
  at the end of \<open>avail\<close>, completions are taken from the front of \<open>used\<close>. A driver that gives every buffer it gets
  back to the device again never overruns the ring: that is proved here for any such queue.
\<close>

definition ue_head :: "used_elem \<Rightarrow> u16" where
  "ue_head e = ucast (ue_id e AND 0xFFFF)"

locale virtqueue =
  fixes push :: "u16 \<Rightarrow> 'q \<Rightarrow> 'q option"
    and pop :: "'q \<Rightarrow> (used_elem option \<times> 'q) option"
    and avail :: "'q \<Rightarrow> u16 list"
    and used :: "'q \<Rightarrow> used_elem list"
    and ok :: "'q \<Rightarrow> bool"
    and cap :: "'q \<Rightarrow> nat"
  assumes push: "ok q \<Longrightarrow> length (avail q) < cap q \<Longrightarrow>
      \<exists>q'. push h q = Some q' \<and> ok q' \<and> avail q' = avail q @ [h] \<and> used q' = used q \<and> cap q' = cap q"
    and pop_none: "ok q \<Longrightarrow> used q = [] \<Longrightarrow> pop q = Some (None, q)"
    and pop_some: "ok q \<Longrightarrow> used q = e # es \<Longrightarrow>
      \<exists>q'. pop q = Some (Some e, q') \<and> ok q' \<and> used q' = es \<and> avail q' = avail q \<and> cap q' = cap q"
begin

text \<open>\<open>held\<close> are the heads that the device has taken and not completed; each of \<open>heads\<close> is in one place.\<close>

definition lent :: "u16 list \<Rightarrow> u16 list \<Rightarrow> 'q \<Rightarrow> bool" where
  "lent heads held q \<longleftrightarrow> ok q \<and> length heads \<le> cap q \<and> mset (avail q) + mset held + mset (map ue_head (used q)) = mset heads"

lemma lent_used: "lent heads held q \<Longrightarrow> e \<in> set (used q) \<Longrightarrow> ue_head e \<in> set heads"
  unfolding lent_def by (metis image_eqI list.set_map set_mset_mset union_iff)

lemma recycle:
  assumes "lent heads held q" "used q = e # es"
  shows "\<exists>q1 q2. pop q = Some (Some e, q1) \<and> push (ue_head e) q1 = Some q2 \<and> lent heads held q2 \<and> used q2 = es
    \<and> avail q2 = avail q @ [ue_head e]"
proof -
  obtain q1 where q1: "pop q = Some (Some e, q1)" "ok q1" "used q1 = es" "avail q1 = avail q" "cap q1 = cap q"
    using pop_some assms unfolding lent_def by blast
  have m: "mset (avail q) + mset held + mset (map ue_head (used q)) = mset heads" using assms(1) by (simp add: lent_def)
  then have "size (mset (avail q) + mset held + mset (map ue_head (used q))) = length heads" by simp
  then have "length (avail q1) < cap q1" using assms q1(4,5) by (simp add: lent_def)
  from push [OF q1(2) this, of "ue_head e"] obtain q2 where
    q2: "push (ue_head e) q1 = Some q2" "ok q2" "avail q2 = avail q1 @ [ue_head e]" "used q2 = used q1" "cap q2 = cap q1" by blast
  have "lent heads held q2" using q2 q1 m assms by (simp add: lent_def ac_simps)
  then show ?thesis using q1 q2 by auto
qed

end

interpretation vq: virtqueue vq_push pop_used avail_list used_list vq_ok "\<lambda>q. unat (v_qsz q)"
proof unfold_locales
  fix q :: vring and h e es
  show "\<exists>q'. vq_push h q = Some q' \<and> vq_ok q' \<and> avail_list q' = avail_list q @ [h] \<and> used_list q' = used_list q \<and> unat (v_qsz q') = unat (v_qsz q)"
    if "vq_ok q" "length (avail_list q) < unat (v_qsz q)" using push_refines [OF that] by fastforce
  show "pop_used q = Some (None, q)" if "vq_ok q" "used_list q = []" using pop_used_refines [OF that(1)] that(2) by simp
  show "\<exists>q'. pop_used q = Some (Some e, q') \<and> vq_ok q' \<and> used_list q' = es \<and> avail_list q' = avail_list q \<and> unat (v_qsz q') = unat (v_qsz q)"
    if "vq_ok q" "used_list q = e # es" using pop_used_refines [OF that(1)] that(2) by fastforce
qed

section \<open>The layout of the rings\<close>

lemma pages_cover: "t \<le> (t + 4095) div 4096 * 4096" for t :: nat
  using div_mult_mod_eq [of "t + 4095" 4096] mod_less_divisor [of 4096 "t + 4095"] by linarith

text \<open>
  The parts of a queue fit the slab that is allocated for it. In a slab that starts on a page and is as long as
  \<open>VirtQueue::new\<close> asks for, the descriptors, the available ring with its header and trailer and the used ring with
  its header follow each other without overlap and end inside the slab, at the alignments that the device requires.
\<close>

lemma queue_rings_fit:
  assumes "4096 dvd unat slab" and "unat slab + queue_pages qsz * 4096 < 2 ^ 64"
  shows "\<exists>d a u. queue_layout qsz slab = Some (d, a, u) \<and> unat d = unat slab \<and> unat d + 16 * unat qsz \<le> unat a
    \<and> unat a + (6 + 2 * unat qsz) \<le> unat u \<and> unat u + (4 + 8 * unat qsz) \<le> unat slab + queue_pages qsz * 4096
    \<and> 16 dvd unat a \<and> 4096 dvd unat u"
proof -
  have q: "unat qsz < 2 ^ 16" using unsigned_less [of qsz] by simp
  have ds: "desc_sz qsz = 16 * unat qsz" by (simp add: desc_sz_def)
  have as: "6 + 2 * unat qsz \<le> avail_sz qsz" "avail_sz qsz < 2 ^ 18" using q by (auto simp: avail_sz_def)
  have us: "used_sz qsz = 4 + 8 * unat qsz" unfolding used_sz_def by presburger
  let ?t = "desc_sz qsz + avail_sz qsz + used_sz qsz + 4096"
  have pg: "?t \<le> queue_pages qsz * 4096" unfolding queue_pages_def using pages_cover [of ?t] .
  have sz: "unat (of_nat (desc_sz qsz) :: u64) = desc_sz qsz" "unat (of_nat (avail_sz qsz) :: u64) = avail_sz qsz"
  proof -
    have "desc_sz qsz < 2 ^ 64" "avail_sz qsz < 2 ^ 64" using q as(2) by (simp_all add: ds)
    then show "unat (of_nat (desc_sz qsz) :: u64) = desc_sz qsz" "unat (of_nat (avail_sz qsz) :: u64) = avail_sz qsz"
      by (simp_all only: unat_of_nat) simp_all
  qed
  let ?a = "slab + of_nat (desc_sz qsz)" and ?b = "slab + of_nat (desc_sz qsz) + of_nat (avail_sz qsz)"
  have a: "unat ?a = unat slab + desc_sz qsz" using sz(1) pg assms(2) by (simp add: unat_word_ariths)
  have b: "unat ?b = unat slab + desc_sz qsz + avail_sz qsz" using a sz(2) pg assms(2) by (simp add: unat_word_ariths)
  have c: "unat (?b + 4095) = unat ?b + 4095" using b pg assms(2) by (simp add: unat_word_ariths)
  let ?u = "(?b + 4095) AND NOT 4095"
  have u: "unat ?u = unat (?b + 4095) - unat (?b + 4095) mod 4096" using unat_and_not_mask [of 12 "?b + 4095"] by simp
  have "queue_layout qsz slab = Some (slab, ?a, ?u)" using a b c sz pg assms(2) by (simp add: queue_layout_def checked_add_def)
  moreover have "16 dvd unat ?a"
  proof -
    have "16 dvd unat slab" by (rule dvd_trans [OF _ assms(1)]) simp
    then show ?thesis by (simp only: a) (simp add: ds)
  qed
  moreover have "4096 dvd unat ?u" unfolding u by (simp add: minus_mod_eq_mult_div)
  moreover have "unat ?b \<le> unat ?u" "unat ?u \<le> unat ?b + 4095"
    unfolding u c using mod_less_divisor [of 4096 "unat ?b + 4095"] by linarith+
  ultimately show ?thesis using a b ds as us pg by (intro exI [of _ slab] exI [of _ ?a] exI [of _ ?u]) simp
qed

lemma queue_rings_fit_example:
  "\<exists>a u. queue_layout 256 0x10000 = Some (0x10000, a, u) \<and> unat u + (4 + 8 * 256) \<le> 0x10000 + queue_pages 256 * 4096"
proof -
  have "4096 dvd unat (0x10000 :: u64)" "unat (0x10000 :: u64) + queue_pages 256 * 4096 < 2 ^ 64"
    by (simp_all add: queue_pages_def desc_sz_def avail_sz_def used_sz_def)
  from queue_rings_fit [OF this] show ?thesis by (auto simp: word_unat_eq_iff)
qed

section \<open>Contiguous frames\<close>

text \<open>The \<open>n\<close> lowest addresses of a set, which the pool hands out in this order.\<close>

fun lowest :: "nat \<Rightarrow> u64 set \<Rightarrow> u64 list" where
  "lowest 0 F = []"
| "lowest (Suc n) F = Min F # lowest n (F - {Min F})"

lemma lowest_in: "finite F \<Longrightarrow> n \<le> card F \<Longrightarrow> set (lowest n F) \<subseteq> F"
proof (induction n arbitrary: F)
  case (Suc n)
  then have "Min F \<in> F" by (intro Min_in) auto
  moreover have "set (lowest n (F - {Min F})) \<subseteq> F - {Min F}" using Suc.prems calculation by (intro Suc.IH) auto
  ultimately show ?case by auto
qed simp

lemma take_frames_lowest:
  assumes "pool_ok (x_frame ops) (pool m)" "n \<le> card (free_frames (pool m))"
  shows "\<exists>m'. take_frames ops n m = Some (lowest n (free_frames (pool m)), m') \<and> pool_ok (x_frame ops) (pool m')
    \<and> free_frames (pool m') = free_frames (pool m) - set (lowest n (free_frames (pool m)))
    \<and> base (pool m') = base (pool m) \<and> tracked (pool m') = tracked (pool m) \<and> m' = m\<lparr>pool := pool m'\<rparr>"
  using assms
proof (induction n arbitrary: m)
  case (Suc n)
  let ?F = "free_frames (pool m)"
  have ne: "?F \<noteq> {}" using Suc.prems(2) by auto
  obtain p' where p: "try_alloc (x_frame ops) (pool m) = Some (Some (Min ?F), p')" "free_frames p' = ?F - {Min ?F}" "pool_ok (x_frame ops) p'"
    using try_alloc_lowest [OF Suc.prems(1) ne] by blast
  have k: "base p' = base (pool m)" "tracked p' = tracked (pool m)" using try_alloc_keeps [OF p(1)] by auto
  have "n \<le> card (?F - {Min ?F})" using Suc.prems(2) Min_in [OF finite_free_frames ne] finite_free_frames by simp
  with Suc.IH [of "m\<lparr>pool := p'\<rparr>"] p obtain m' where m': "take_frames ops n (m\<lparr>pool := p'\<rparr>) = Some (lowest n (?F - {Min ?F}), m')"
      "pool_ok (x_frame ops) (pool m')" "free_frames (pool m') = ?F - {Min ?F} - set (lowest n (?F - {Min ?F}))"
      "base (pool m') = base p'" "tracked (pool m') = tracked p'" "m' = m\<lparr>pool := pool m'\<rparr>" by auto
  then show ?case using p k by (auto simp: frame_alloc_def)
qed auto

lemma free_inner_keeps: "free_inner f p = Some p' \<Longrightarrow> base p' = base p \<and> tracked p' = tracked p"
  by (auto simp: free_inner_def bind_eq_Some_conv split: option.splits)

lemma free_frames_of_ok:
  assumes "pool_ok pf (pool m)" "\<forall>f \<in> set fs. \<exists>i < tracked (pool m). f = frame_at (pool m) i"
  shows "\<exists>m'. free_frames_of fs m = Some m' \<and> pool_ok pf (pool m') \<and> free_frames (pool m') = free_frames (pool m) \<union> set fs"
  using assms
proof (induction fs arbitrary: m)
  case (Cons f fs)
  obtain p' where p: "free_inner f (pool m) = Some p'" "pool_ok pf p'" "free_frames p' = insert f (free_frames (pool m))"
    using free_inner_spec [OF Cons.prems(1), of f] Cons.prems(2) by auto
  have "\<forall>g \<in> set fs. \<exists>i < tracked p'. g = frame_at p' i"
    using Cons.prems(2) free_inner_keeps [OF p(1)] by (simp add: frame_at_def)
  from Cons.IH [of "m\<lparr>pool := p'\<rparr>"] p this show ?case by (auto simp: frame_free_def)
qed simp

text \<open>A round that fails leaves the pool with the same free frames, so the next one takes the same frames.\<close>

lemma failed_round:
  assumes "pool_ok (x_frame ops) (pool m)" "n \<le> card (free_frames (pool m))"
  shows "\<exists>m1 m2. take_frames ops n m = Some (lowest n (free_frames (pool m)), m1) \<and> free_frames_of (lowest n (free_frames (pool m))) m1 = Some m2
    \<and> pool_ok (x_frame ops) (pool m2) \<and> free_frames (pool m2) = free_frames (pool m)"
proof -
  let ?F = "free_frames (pool m)"
  obtain m1 where m1: "take_frames ops n m = Some (lowest n ?F, m1)" "pool_ok (x_frame ops) (pool m1)" "free_frames (pool m1) = ?F - set (lowest n ?F)"
      "base (pool m1) = base (pool m)" "tracked (pool m1) = tracked (pool m)"
    using take_frames_lowest [OF assms] by blast
  have sub: "set (lowest n ?F) \<subseteq> ?F" by (rule lowest_in [OF finite_free_frames assms(2)])
  then have "\<forall>f \<in> set (lowest n ?F). \<exists>i < tracked (pool m1). f = frame_at (pool m1) i"
    using m1(4,5) by (force simp: free_frames_def frame_at_def)
  from free_frames_of_ok [OF m1(2) this] obtain m2 where "free_frames_of (lowest n ?F) m1 = Some m2" "pool_ok (x_frame ops) (pool m2)"
    "free_frames (pool m2) = free_frames (pool m1) \<union> set (lowest n ?F)" by blast
  with m1 sub show ?thesis by auto
qed

lemma contig_retry_stuck:
  assumes "contig_retry ops n m = Some r"
  shows "pool_ok (x_frame ops) (pool m) \<longrightarrow> n \<le> card (free_frames (pool m)) \<longrightarrow> contiguous (lowest n (free_frames (pool m)))"
  using assms
proof (rule contig_retry.raw_induct [rotated], intro impI)
  fix retry ops n and m :: "'a mm" and r
  assume ih: "\<And>ops n m r. retry ops n m = Some r \<Longrightarrow>
      pool_ok (x_frame ops) (pool m) \<longrightarrow> n \<le> card (free_frames (pool m)) \<longrightarrow> contiguous (lowest n (free_frames (pool m)))"
    and run: "(case take_frames ops n m of None \<Rightarrow> Some None
      | Some (fs, m1) \<Rightarrow> if contiguous fs then Some (Some (fs, m1))
          else (case free_frames_of fs m1 of None \<Rightarrow> Some None | Some m2 \<Rightarrow> retry ops n m2)) = Some r"
    and ok: "pool_ok (x_frame ops) (pool m)" "n \<le> card (free_frames (pool m))"
  obtain m1 m2 where t: "take_frames ops n m = Some (lowest n (free_frames (pool m)), m1)" "free_frames_of (lowest n (free_frames (pool m))) m1 = Some m2"
      "pool_ok (x_frame ops) (pool m2)" "free_frames (pool m2) = free_frames (pool m)"
    using failed_round [OF ok] by blast
  show "contiguous (lowest n (free_frames (pool m)))"
  proof (rule ccontr)
    assume nc: "\<not> contiguous (lowest n (free_frames (pool m)))"
    then have "retry ops n m2 = Some r" using run t(1,2) by simp
    from ih [OF this] t(3,4) ok(2) nc show False by simp
  qed
qed

text \<open>
  C25: \<open>alloc_pages_contig\<close> terminates only by luck. With enough free frames, its retry loop returns exactly when the
  lowest free frames happen to be contiguous, and then in its first round; otherwise it gives the frames back,
  is handed the same ones again and never returns.
\<close>

theorem contig_retry_iff:
  assumes "pool_ok (x_frame ops) (pool m)" and "n \<le> card (free_frames (pool m))"
  shows "if contiguous (lowest n (free_frames (pool m)))
    then \<exists>m'. contig_retry ops n m = Some (Some (lowest n (free_frames (pool m)), m'))
    else contig_retry ops n m = None"
proof (cases "contiguous (lowest n (free_frames (pool m)))")
  case True
  then show ?thesis using take_frames_lowest [OF assms] by (subst contig_retry.simps) auto
next
  case False
  then show ?thesis using contig_retry_stuck [of ops n m] assms by (cases "contig_retry ops n m") auto
qed

text \<open>Of the frames at \<open>0x1000\<close>, \<open>0x2000\<close> and \<open>0x3000\<close> the one in the middle is taken: a request for two pages hangs.\<close>

theorem contig_retry_iff_witness:
  "contig_retry flat_ops 2 (mem (flat_vm 2)) = None \<and> (\<exists>m'. contig_retry flat_ops 1 (mem (flat_vm 2)) = Some (Some ([0x1000], m')))"
proof -
  let ?p = "pool (mem (flat_vm 2))"
  have b: "\<not> bit (2 :: u64) 0" "bit (2 :: u64) 1" "\<not> bit (2 :: u64) 2" by (simp_all add: bit_2_iff)
  have lt: "i < 3 \<longleftrightarrow> i = 0 \<or> i = 1 \<or> i = 2" for i :: nat by (auto simp: numeral_eq_Suc less_Suc_eq)
  have "{i. i < tracked ?p \<and> \<not> bits (bm ?p) i} = {0, 2}"
    using b by (simp add: flat_vm_def bits_def capacity_bits_def lt set_eq_iff conj_disj_distribR conj_commute cong: conj_cong)
  moreover have "free_frames ?p = frame_at ?p ` {i. i < tracked ?p \<and> \<not> bits (bm ?p) i}" by (auto simp: free_frames_def)
  ultimately have F: "free_frames ?p = {0x1000, 0x3000}" by (simp add: frame_at_def flat_vm_def)
  have P: "pool_ok (x_frame flat_ops) (pool (mem (flat_vm 2)))" using flat_vm_ok [of 2] by (simp add: vm_ok_def)
  have one: "lowest 1 S = [Min S]" for S by simp
  have two: "lowest 2 S = Min S # lowest 1 (S - {Min S})" for S by (simp only: flip: Suc_1) simp
  have L: "lowest 2 {0x1000, 0x3000 :: u64} = [0x1000, 0x3000]" "lowest 1 {0x1000, 0x3000 :: u64} = [0x1000]"
    unfolding two one by (simp_all add: insert_Diff_if)
  have "2 \<le> card (free_frames (pool (mem (flat_vm 2))))" unfolding F by simp
  from contig_retry_iff [OF P this] have "contig_retry flat_ops 2 (mem (flat_vm 2)) = None"
    unfolding F L by (simp add: contiguous_def upt_rec)
  moreover have "1 \<le> card (free_frames (pool (mem (flat_vm 2))))" unfolding F by simp
  from contig_retry_iff [OF P this] have "\<exists>m'. contig_retry flat_ops 1 (mem (flat_vm 2)) = Some (Some ([0x1000], m'))"
    unfolding F L by (simp add: contiguous_def)
  ultimately show ?thesis by simp
qed

end
