(* ===== verification/Virtio_Net.thy ===== *)
theory Virtio_Net
  imports Virtq Net_State User_Mem Kheap_Safety
begin

text \<open>
  \<^verbatim>\<open>kernel/drivers/virtio/net.rs\<close>: the network driver over the virtqueue. Kernel memory
  is a function from addresses to bytes. The device acts while \<open>send_frame\<close> spins: the parameter \<open>step\<close> is what it
  does between two looks at the used ring. Logging and its counters are left out.
\<close>

definition VIRTIO_NET_F_MTU :: u64 where "VIRTIO_NET_F_MTU = 0x8"
definition VIRTIO_NET_F_MAC :: u64 where "VIRTIO_NET_F_MAC = 0x20"
definition VIRTIO_NET_F_STATUS :: u64 where "VIRTIO_NET_F_STATUS = 0x10000"
definition VIRTIO_NET_S_LINK_UP :: u16 where "VIRTIO_NET_S_LINK_UP = 1"
definition RX_QUEUE_SEL :: u16 where "RX_QUEUE_SEL = 0"
definition TX_QUEUE_SEL :: u16 where "TX_QUEUE_SEL = 1"
definition RX_BUF_SIZE :: nat where "RX_BUF_SIZE = 4096"
definition TX_BUF_SIZE :: nat where "TX_BUF_SIZE = 4096"
definition NET_HDR_LEN :: nat where "NET_HDR_LEN = 12"
definition MAX_FRAME_LEN :: nat where "MAX_FRAME_LEN = TX_BUF_SIZE - NET_HDR_LEN"
definition TX_WAIT_SPIN_LIMIT :: nat where "TX_WAIT_SPIN_LIMIT = 0x20000000"

lemmas vn_consts = RX_BUF_SIZE_def TX_BUF_SIZE_def NET_HDR_LEN_def MAX_FRAME_LEN_def

type_synonym kbytes = "u64 \<Rightarrow> u8"

abbreviation kread :: "kbytes \<Rightarrow> u64 \<Rightarrow> nat \<Rightarrow> u8 list" where "kread \<equiv> read_bytes"
abbreviation kwrite :: "u64 \<Rightarrow> u8 list \<Rightarrow> kbytes \<Rightarrow> kbytes" where "kwrite a bs m \<equiv> write_bytes m a bs"

text \<open>\<open>vn_device\<close> is the device configuration area, as long as the device says it is.\<close>

record vnet =
  vn_features :: u64
  vn_device :: "u8 list option"
  vn_rxq :: vring
  vn_txq :: vring
  vn_rx_bufs :: "u64 list"
  vn_tx_buf :: u64
  vn_mac :: "mac option"
  vn_mtu :: u16
  vn_mem :: kbytes

definition cfg_read_u8 :: "nat \<Rightarrow> vnet \<Rightarrow> u8 option" where
  "cfg_read_u8 off v = (case vn_device v of None \<Rightarrow> None | Some c \<Rightarrow> if off \<ge> length c then None else Some (c ! off))"

definition cfg_read_le16 :: "nat \<Rightarrow> vnet \<Rightarrow> u16 option" where
  "cfg_read_le16 off v = (case vn_device v of None \<Rightarrow> None | Some c \<Rightarrow>
     if off + 1 \<ge> length c then None else Some (ucast (c ! off) OR push_bit 8 (ucast (c ! (off + 1)))))"

definition vn_link_up :: "vnet \<Rightarrow> bool" where
  "vn_link_up v =
     (if vn_features v AND VIRTIO_NET_F_STATUS = 0 then True
      else case cfg_read_le16 6 v of Some st \<Rightarrow> st AND VIRTIO_NET_S_LINK_UP \<noteq> 0 | None \<Rightarrow> True)"

section \<open>Receiving\<close>

definition put_desc :: "u16 \<Rightarrow> desc \<Rightarrow> vring \<Rightarrow> vring" where
  "put_desc d x q = q\<lparr>v_desc := (v_desc q)(unat d := x)\<rparr>"

text \<open>\<open>Vec::resize\<close> to hold index \<open>d\<close>, then the assignment.\<close>

definition set_buf :: "u16 \<Rightarrow> u64 \<Rightarrow> u64 list \<Rightarrow> u64 list" where
  "set_buf d buf bufs = (bufs @ replicate (unat d + 1 - length bufs) 0)[unat d := buf]"

fun prime_loop :: "'h x86_ops \<Rightarrow> nat \<Rightarrow> vnet \<Rightarrow> 'h vm \<Rightarrow> (vnet \<times> 'h vm) option" where
  "prime_loop ops 0 v s = Some (v, s)"
| "prime_loop ops (Suc n) v s = do {
     (r, s) \<leftarrow> vm_alloc ops s;
     buf \<leftarrow> r;
     t \<leftarrow> translate ops buf (mem s);
     pa \<leftarrow> t;
     (d, q) \<leftarrow> alloc_desc (vn_rxq v);
     let v = v\<lparr>vn_rx_bufs := set_buf d buf (vn_rx_bufs v), vn_mem := kwrite buf (replicate RX_BUF_SIZE 0) (vn_mem v)\<rparr>;
         q = put_desc d \<lparr>dsc_addr = pa, dsc_len = of_nat RX_BUF_SIZE, dsc_flags = VIRTQ_DESC_F_WRITE, dsc_next = 0\<rparr> q in do {
       q \<leftarrow> vq_push d q;
       prime_loop ops n (v\<lparr>vn_rxq := q\<rparr>) s
     }
   }"

definition prime_rx :: "'h x86_ops \<Rightarrow> vnet \<Rightarrow> 'h vm \<Rightarrow> (vnet \<times> 'h vm) option" where
  "prime_rx ops v s = do {
     (v, s) \<leftarrow> prime_loop ops (unat (v_qsz (vn_rxq v))) v s;
     Some (v\<lparr>vn_rxq := notify RX_QUEUE_SEL (vn_rxq v)\<rparr>, s)
   }"

definition rx_buf :: "u16 \<Rightarrow> vnet \<Rightarrow> u64 option" where
  "rx_buf h v = (if unat h < length (vn_rx_bufs v) then Some (vn_rx_bufs v ! unat h) else None)"

definition recycle_rx :: "u16 \<Rightarrow> vnet \<Rightarrow> vnet option" where
  "recycle_rx h v =
     (let m = (case rx_buf h v of
                 Some buf \<Rightarrow> if buf \<noteq> 0 then kwrite buf (replicate NET_HDR_LEN 0) (vn_mem v) else vn_mem v
               | None \<Rightarrow> vn_mem v) in do {
        q \<leftarrow> vq_push h (vn_rxq v);
        Some (v\<lparr>vn_mem := m, vn_rxq := notify RX_QUEUE_SEL q\<rparr>)
      })"

text \<open>The bytes that end up in the caller's buffer of \<open>cap\<close> bytes.\<close>

definition poll_rx_into :: "nat \<Rightarrow> vnet \<Rightarrow> (u8 list option \<times> vnet) option" where
  "poll_rx_into cap v = do {
     (r, q) \<leftarrow> pop_used (vn_rxq v);
     let v = v\<lparr>vn_rxq := q\<rparr> in
     case r of
       None \<Rightarrow> Some (None, v)
     | Some used \<Rightarrow>
         (let h = ue_head used; buf_va = (case rx_buf h v of Some b \<Rightarrow> b | None \<Rightarrow> 0); total_len = unat (ue_len used) in
          if buf_va = 0 then do { v \<leftarrow> recycle_rx h v; Some (Some [], v) }
          else if total_len < NET_HDR_LEN then do { v \<leftarrow> recycle_rx h v; Some (Some [], v) }
          else let frame_len = total_len - NET_HDR_LEN; copy_len = min frame_len cap;
                   out = kread (vn_mem v) (buf_va + of_nat NET_HDR_LEN) copy_len in
            do { v \<leftarrow> recycle_rx h v; Some (Some out, v) })
   }"

section \<open>Sending\<close>

fun tx_wait :: "(vnet \<Rightarrow> vnet) \<Rightarrow> nat \<Rightarrow> vnet \<Rightarrow> (bool \<times> vnet) option" where
  "tx_wait step 0 v = Some (False, v)"
| "tx_wait step (Suc n) v = do {
     (r, q) \<leftarrow> pop_used (vn_txq v);
     case r of
       Some u \<Rightarrow> Some (True, v\<lparr>vn_txq := free_desc (ue_head u) q\<rparr>)
     | None \<Rightarrow> if n = 0 then Some (False, v\<lparr>vn_txq := q\<rparr>) else tx_wait step n (step (v\<lparr>vn_txq := q\<rparr>))
   }"

text \<open>Up to the notification: the frame behind an empty header in the transmit page, one descriptor, its head pushed.\<close>

definition tx_post :: "(u64 \<Rightarrow> u64 option) \<Rightarrow> u8 list \<Rightarrow> vnet \<Rightarrow> vnet option" where
  "tx_post tr frame v =
     (let m = kwrite (vn_tx_buf v + of_nat NET_HDR_LEN) frame (kwrite (vn_tx_buf v) (replicate TX_BUF_SIZE 0) (vn_mem v)) in do {
        pa \<leftarrow> tr (vn_tx_buf v);
        (d, q) \<leftarrow> alloc_desc (vn_txq v);
        let q = put_desc d \<lparr>dsc_addr = pa, dsc_len = of_nat (NET_HDR_LEN + length frame), dsc_flags = 0, dsc_next = 0\<rparr> q in do {
          q \<leftarrow> vq_push d q;
          Some (v\<lparr>vn_mem := m, vn_txq := notify TX_QUEUE_SEL q\<rparr>)
        }
      })"

definition vn_send_frame :: "(u64 \<Rightarrow> u64 option) \<Rightarrow> (vnet \<Rightarrow> vnet) \<Rightarrow> u8 list \<Rightarrow> vnet \<Rightarrow> (bool \<times> vnet) option" where
  "vn_send_frame tr step frame v =
     (if frame = [] then Some (False, v)
      else if length frame > MAX_FRAME_LEN then Some (False, v)
      else do { v \<leftarrow> tx_post tr frame v; tx_wait step TX_WAIT_SPIN_LIMIT v })"

section \<open>Attaching\<close>

text \<open>
  \<open>try_attach\<close> from the result of the feature negotiation, the queue sizes and the configuration area that the device
  offers, and the notification parameters of its two queues; \<open>m0\<close> is the memory.
\<close>

definition vn_attach :: "'h x86_ops \<Rightarrow> u64 option \<Rightarrow> u8 list option \<Rightarrow> (u16 \<times> u32 \<times> u16) \<Rightarrow> (u16 \<times> u32 \<times> u16) \<Rightarrow> kbytes \<Rightarrow> 'h vm
    \<Rightarrow> (vnet option \<times> 'h vm) option" where
  "vn_attach ops negotiated device rx tx m0 s =
     (case negotiated of
        None \<Rightarrow> Some (None, s)
      | Some accepted \<Rightarrow>
          (case setup_queue (fst rx) (fst (snd rx)) (snd (snd rx)) of
             None \<Rightarrow> Some (None, s)
           | Some rxq \<Rightarrow>
               (case setup_queue (fst tx) (fst (snd tx)) (snd (snd tx)) of
                  None \<Rightarrow> Some (None, s)
                | Some txq \<Rightarrow> do {
                    (r, s) \<leftarrow> vm_alloc ops s;
                    tx_buf \<leftarrow> r;
                    let mac = (case device of None \<Rightarrow> None
                               | Some c \<Rightarrow> if accepted AND VIRTIO_NET_F_MAC \<noteq> 0 \<and> length c \<ge> 6 then Some (take 6 c) else None);
                        mtu = (case device of None \<Rightarrow> 1500
                               | Some c \<Rightarrow> if accepted AND VIRTIO_NET_F_MTU \<noteq> 0 \<and> length c \<ge> 10
                                   then ucast (c ! 8) OR push_bit 8 (ucast (c ! 9)) else 1500);
                        v = \<lparr>vn_features = accepted, vn_device = device, vn_rxq = rxq, vn_txq = txq, vn_rx_bufs = [], vn_tx_buf = tx_buf,
                             vn_mac = mac, vn_mtu = mtu, vn_mem = kwrite tx_buf (replicate TX_BUF_SIZE 0) m0\<rparr> in do {
                      (v, s) \<leftarrow> prime_rx ops v s;
                      Some (Some v, s)
                    }
                  })))"

text \<open>
  The functions on the static device, as the parameter record of the stack above; before a device is attached
  there is none. The record has no value for a panic of the driver: it is mapped to no frame, or to a failed
  transmission, with the device as it was, and in the program the machine stops there. The theorems on receiving and
  transmitting below are stated on \<open>poll_rx_into\<close> and \<open>vn_send_frame\<close> themselves, where a panic is \<open>None\<close>, and show that
  there is none.
\<close>

definition virtio_nic :: "(u64 \<Rightarrow> u64 option) \<Rightarrow> (vnet \<Rightarrow> vnet) \<Rightarrow> vnet option nic_ops" where
  "virtio_nic tr step =
     \<lparr>nic_is_ready = (\<lambda>d. d \<noteq> None),
      nic_mac_addr = (\<lambda>d. Option.bind d vn_mac),
      nic_link_up = (\<lambda>d. case d of None \<Rightarrow> False | Some v \<Rightarrow> vn_link_up v),
      nic_mtu = map_option vn_mtu,
      nic_recv_frame = (\<lambda>cap d. case d of None \<Rightarrow> (None, None)
        | Some v \<Rightarrow> (case poll_rx_into cap v of None \<Rightarrow> (None, d) | Some (r, v) \<Rightarrow> (r, Some v))),
      nic_send_frame = (\<lambda>f d. case d of None \<Rightarrow> (False, None)
        | Some v \<Rightarrow> (case vn_send_frame tr step f v of None \<Rightarrow> (False, d) | Some (r, v) \<Rightarrow> (r, Some v)))\<rparr>"

section \<open>The receive queue\<close>

text \<open>
  Every head of the queue names a page of its own, and is available, held by the device or completed.
\<close>

definition heads :: "vring \<Rightarrow> u16 list" where
  "heads q = map of_nat [0..<unat (v_qsz q)]"

definition pages_apart :: "u64 list \<Rightarrow> bool" where
  "pages_apart bufs \<longleftrightarrow> (\<forall>b \<in> set bufs. b \<noteq> 0 \<and> unat b + 4096 < 2 ^ 64)
     \<and> (\<forall>i < length bufs. \<forall>j < length bufs. i \<noteq> j \<longrightarrow> unat (bufs ! i) + 4096 \<le> unat (bufs ! j) \<or> unat (bufs ! j) + 4096 \<le> unat (bufs ! i))"

definition rx_inv :: "u16 list \<Rightarrow> vnet \<Rightarrow> bool" where
  "rx_inv held v \<longleftrightarrow> vq.lent (heads (vn_rxq v)) held (vn_rxq v) \<and> length (vn_rx_bufs v) = unat (v_qsz (vn_rxq v)) \<and> pages_apart (vn_rx_bufs v)"

text \<open>The frame that a completion announces, cut to the caller's buffer.\<close>

definition frame_of :: "nat \<Rightarrow> vnet \<Rightarrow> used_elem \<Rightarrow> u8 list" where
  "frame_of cap v e = kread (vn_mem v) (vn_rx_bufs v ! unat (ue_head e) + 12) (min (unat (ue_len e) - 12) cap)"

lemma heads_less: "h \<in> set (heads q) \<Longrightarrow> unat h < unat (v_qsz q)"
proof -
  assume "h \<in> set (heads q)"
  then obtain i where i: "h = of_nat i" "i < unat (v_qsz q)" by (auto simp: heads_def)
  moreover have "unat (v_qsz q) < 2 ^ 16" using unsigned_less [of "v_qsz q"] by simp
  ultimately show ?thesis by (simp add: unat_of_nat)
qed

lemma queue_fields [simp]:
  "avail_list (notify k q) = avail_list q" "used_list (notify k q) = used_list q" "vq_ok (notify k q) = vq_ok q" "v_qsz (notify k q) = v_qsz q"
  "v_free (notify k q) = v_free q" "heads (notify k q) = heads q" "v_desc (notify k q) = v_desc q"
  by (simp_all add: notify_def avail_list_def used_list_def vq_ok_def heads_def)

lemma lent_notify [simp]: "vq.lent hs held (notify k q) = vq.lent hs held q"
  by (simp add: vq.lent_def)

lemma push_size: "vq_push h q = Some q' \<Longrightarrow> v_qsz q' = v_qsz q" "pop_used q = Some (r, q') \<Longrightarrow> v_qsz q' = v_qsz q"
  by (auto simp: vq_push_def pop_used_def Let_def split: if_splits)

lemma poll_rx_ok:
  assumes "rx_inv held v" "used_list (vn_rxq v) = e # es"
  shows "\<exists>q. poll_rx_into cap v = Some (Some (frame_of cap v e), v\<lparr>vn_mem := kwrite (vn_rx_bufs v ! unat (ue_head e)) (replicate 12 0) (vn_mem v), vn_rxq := q\<rparr>)
    \<and> rx_inv held (v\<lparr>vn_mem := m, vn_rxq := q\<rparr>) \<and> used_list q = es \<and> avail_list q = avail_list (vn_rxq v) @ [ue_head e]"
proof -
  let ?q = "vn_rxq v" and ?h = "ue_head e"
  have l: "vq.lent (heads ?q) held ?q" "length (vn_rx_bufs v) = unat (v_qsz ?q)" "pages_apart (vn_rx_bufs v)" using assms(1) by (auto simp: rx_inv_def)
  obtain q1 q2 where q: "pop_used ?q = Some (Some e, q1)" "vq_push ?h q1 = Some q2" "vq.lent (heads ?q) held q2" "used_list q2 = es"
      "avail_list q2 = avail_list ?q @ [?h]"
    using vq.recycle [OF l(1) assms(2)] by blast
  have "?h \<in> set (heads ?q)" by (rule vq.lent_used [OF l(1)]) (simp add: assms(2))
  then have h: "unat ?h < length (vn_rx_bufs v)" using heads_less l(2) by simp
  then have b: "rx_buf ?h (v\<lparr>vn_rxq := q1\<rparr>) = Some (vn_rx_bufs v ! unat ?h)" "vn_rx_bufs v ! unat ?h \<noteq> 0"
    using l(3) by (auto simp: rx_buf_def pages_apart_def)
  have sz: "v_qsz q2 = v_qsz ?q" using push_size q(1,2) by metis
  have "poll_rx_into cap v = Some (Some (frame_of cap v e), v\<lparr>vn_mem := kwrite (vn_rx_bufs v ! unat ?h) (replicate 12 0) (vn_mem v), vn_rxq := notify RX_QUEUE_SEL q2\<rparr>)"
    using q b by (auto simp: poll_rx_into_def recycle_rx_def frame_of_def read_bytes_def Let_def vn_consts)
  moreover have "rx_inv held (v\<lparr>vn_mem := m, vn_rxq := notify RX_QUEUE_SEL q2\<rparr>)"
    using l q(3) sz by (simp add: rx_inv_def heads_def)
  ultimately show ?thesis using q(4,5) by (intro exI [of _ "notify RX_QUEUE_SEL q2"]) simp
qed

text \<open>Clearing the header of a buffer leaves every frame.\<close>

lemma frame_of_header:
  assumes "pages_apart (vn_rx_bufs v)" "k < length (vn_rx_bufs v)" "unat (ue_head e) < length (vn_rx_bufs v)" "unat (ue_len e) \<le> 4096"
  shows "frame_of cap (v\<lparr>vn_mem := kwrite (vn_rx_bufs v ! k) (replicate 12 0) (vn_mem v), vn_rxq := q\<rparr>) e = frame_of cap v e"
proof -
  let ?a = "vn_rx_bufs v ! unat (ue_head e)" and ?b = "vn_rx_bufs v ! k"
  have w: "unat ?a + 4096 < 2 ^ 64" "unat ?b + 4096 < 2 ^ 64" using assms(1-3) by (auto simp: pages_apart_def)
  then have a: "unat (?a + 12) = unat ?a + 12" by (simp add: unat_word_ariths)
  have "?a = ?b \<or> unat ?a + 4096 \<le> unat ?b \<or> unat ?b + 4096 \<le> unat ?a" using assms(1-3) unfolding pages_apart_def by metis
  then have "kread (kwrite ?b (replicate 12 0) (vn_mem v)) (?a + 12) (min (unat (ue_len e) - 12) cap) = kread (vn_mem v) (?a + 12) (min (unat (ue_len e) - 12) cap)"
    using w a assms(4) by (intro read_write_apart) (auto simp: a min_def)
  then show ?thesis by (simp add: frame_of_def)
qed

fun rx_polls :: "nat \<Rightarrow> nat \<Rightarrow> vnet \<Rightarrow> (u8 list list \<times> vnet) option" where
  "rx_polls 0 cap v = Some ([], v)"
| "rx_polls (Suc n) cap v = do {
     (r, v) \<leftarrow> poll_rx_into cap v;
     f \<leftarrow> r;
     (fs, v) \<leftarrow> rx_polls n cap v;
     Some (f # fs, v)
   }"

lemma rx_inv_head: "rx_inv held v \<Longrightarrow> e \<in> set (used_list (vn_rxq v)) \<Longrightarrow> unat (ue_head e) < length (vn_rx_bufs v)"
  using vq.lent_used heads_less unfolding rx_inv_def by metis

lemma rx_polls_ok:
  assumes "rx_inv held v" "used_list (vn_rxq v) = es" "\<forall>e \<in> set es. unat (ue_len e) \<le> 4096"
  shows "\<exists>v'. rx_polls (length es) cap v = Some (map (frame_of cap v) es, v') \<and> rx_inv held v' \<and> used_list (vn_rxq v') = []
    \<and> avail_list (vn_rxq v') = avail_list (vn_rxq v) @ map ue_head es"
  using assms
proof (induction es arbitrary: v)
  case (Cons e es)
  let ?m = "kwrite (vn_rx_bufs v ! unat (ue_head e)) (replicate 12 0) (vn_mem v)"
  obtain q where q: "poll_rx_into cap v = Some (Some (frame_of cap v e), v\<lparr>vn_mem := ?m, vn_rxq := q\<rparr>)"
      "rx_inv held (v\<lparr>vn_mem := ?m, vn_rxq := q\<rparr>)" "used_list q = es" "avail_list q = avail_list (vn_rxq v) @ [ue_head e]"
    using poll_rx_ok [OF Cons.prems(1,2)] by blast
  let ?v = "v\<lparr>vn_mem := ?m, vn_rxq := q\<rparr>"
  obtain v' where v': "rx_polls (length es) cap ?v = Some (map (frame_of cap ?v) es, v')" "rx_inv held v'" "used_list (vn_rxq v') = []"
      "avail_list (vn_rxq v') = avail_list (vn_rxq ?v) @ map ue_head es"
    using Cons.IH [OF q(2)] q(3) Cons.prems(3) by auto
  have bp: "pages_apart (vn_rx_bufs v)" using Cons.prems(1) by (simp add: rx_inv_def)
  have "frame_of cap ?v x = frame_of cap v x" if "x \<in> set es" for x
    using frame_of_header [OF bp rx_inv_head [OF Cons.prems(1)] rx_inv_head [OF Cons.prems(1)]] Cons.prems(2,3) that by simp
  then have "map (frame_of cap ?v) es = map (frame_of cap v) es" by simp
  with q(1,4) v' show ?case by simp
qed simp

section \<open>Priming the receive queue\<close>

text \<open>After \<open>k\<close> rounds: the first \<open>k\<close> heads are available, each with a page of its own from the arena.\<close>

definition primed :: "nat \<Rightarrow> vring \<Rightarrow> u64 list \<Rightarrow> 'h vm \<Rightarrow> bool" where
  "primed k q bufs s \<longleftrightarrow> vq_ok q \<and> k \<le> unat (v_qsz q) \<and> v_free q = rev (map of_nat [k..<unat (v_qsz q)])
     \<and> avail_list q = map of_nat [0..<k] \<and> used_list q = []
     \<and> length bufs = k \<and> pages_apart bufs \<and> (\<forall>b \<in> set bufs. {unat b..<unat b + 4096} \<subseteq> arena_bytes s)"

lemma put_desc_fields [simp]:
  "avail_list (put_desc d x q) = avail_list q" "used_list (put_desc d x q) = used_list q" "vq_ok (put_desc d x q) = vq_ok q" "v_qsz (put_desc d x q) = v_qsz q"
  "v_free (put_desc d x q) = v_free q"
  by (simp_all add: put_desc_def avail_list_def used_list_def vq_ok_def)

lemma free_fields [simp]:
  "avail_list (q\<lparr>v_free := f\<rparr>) = avail_list q" "used_list (q\<lparr>v_free := f\<rparr>) = used_list q" "vq_ok (q\<lparr>v_free := f\<rparr>) = vq_ok q"
  by (simp_all add: avail_list_def used_list_def vq_ok_def)

lemma pages_apart_snoc:
  assumes "pages_apart bufs" "b \<noteq> 0" "unat b + 4096 < 2 ^ 64" "\<forall>c \<in> set bufs. {unat c..<unat c + 4096} \<inter> {unat b..<unat b + 4096} = {}"
  shows "pages_apart (bufs @ [b])"
proof -
  have "unat c + 4096 \<le> unat b \<or> unat b + 4096 \<le> unat c" if "c \<in> set bufs" for c
  proof (rule ccontr)
    assume "\<not> ?thesis"
    then have "max (unat b) (unat c) \<in> {unat c..<unat c + 4096} \<inter> {unat b..<unat b + 4096}" by auto
    then show False using assms(4) that by blast
  qed
  then show ?thesis using assms(1-3) unfolding pages_apart_def by (auto simp: nth_append less_Suc_eq) (metis nth_mem)+
qed

lemma prime_one:
  assumes "primed k q bufs s" "arena_ok ops lim s" "k < unat (v_qsz q)" "vm_alloc ops s = Some (Some buf, t)"
  shows "\<exists>q1. alloc_desc q = Some (of_nat k, q1) \<and> set_buf (of_nat k) buf bufs = bufs @ [buf] \<and> arena_ok ops lim t
    \<and> (\<forall>x. \<exists>q2. vq_push (of_nat k) (put_desc (of_nat k) x q1) = Some q2 \<and> primed (Suc k) q2 (bufs @ [buf]) t \<and> v_qsz q2 = v_qsz q)"
proof -
  let ?n = "unat (v_qsz q)"
  have p: "vq_ok q" "v_free q = rev (map of_nat [k..<?n])" "avail_list q = map of_nat [0..<k]" "used_list q = []" "length bufs = k"
      "pages_apart bufs" "\<forall>b \<in> set bufs. {unat b..<unat b + 4096} \<subseteq> arena_bytes s" using assms(1) by (auto simp: primed_def)
  have "?n < 2 ^ 16" using unsigned_less [of "v_qsz q"] by simp
  then have uk: "unat (of_nat k :: u16) = k" using assms(3) by (simp add: unat_of_nat)
  have split: "[k..<?n] = k # [Suc k..<?n]" using assms(3) by (simp add: upt_conv_Cons)
  let ?q1 = "q\<lparr>v_free := rev (map of_nat [Suc k..<?n])\<rparr>"
  have al: "alloc_desc q = Some (of_nat k, ?q1)" using p(2) split by (simp add: alloc_desc_def)
  have sb: "set_buf (of_nat k) buf bufs = bufs @ [buf]" using p(5) uk by (simp add: set_buf_def list_update_append)
  have page: "alloc_n ops 1 s = Some (Some buf, t)" using assms(4) by (simp add: vm_alloc_def)
  note r = karena.pg_run [OF assms(2) page] and kp = karena.pg_keeps [OF assms(2) page]
  have r': "buf \<noteq> 0" "unat buf + 4096 < 2 ^ 64" "arena_bytes s \<inter> {unat buf..<unat buf + 4096} = {}" using r by (auto simp: unat_gt_0 [symmetric])
  then have "\<forall>c \<in> set bufs. {unat c..<unat c + 4096} \<inter> {unat buf..<unat buf + 4096} = {}" using p(7) by blast
  from pages_apart_snoc [OF p(6) r'(1,2) this] have pa: "pages_apart (bufs @ [buf])" .
  have ab: "\<forall>c \<in> set (bufs @ [buf]). {unat c..<unat c + 4096} \<subseteq> arena_bytes t" using r kp p(7) by auto
  have push: "\<exists>q2. vq_push (of_nat k) (put_desc (of_nat k) x ?q1) = Some q2 \<and> primed (Suc k) q2 (bufs @ [buf]) t \<and> v_qsz q2 = v_qsz q" for x
  proof -
    have "vq_ok (put_desc (of_nat k) x ?q1)" "length (avail_list (put_desc (of_nat k) x ?q1)) < unat (v_qsz (put_desc (of_nat k) x ?q1))"
      using p(1,3) assms(3) by simp_all
    from push_refines [OF this, of "of_nat k"] obtain q2 where q2: "vq_push (of_nat k) (put_desc (of_nat k) x ?q1) = Some q2" "vq_ok q2"
        "avail_list q2 = avail_list q @ [of_nat k]" "used_list q2 = used_list q" "v_free q2 = rev (map of_nat [Suc k..<?n])" "v_qsz q2 = v_qsz q" by auto
    then show ?thesis using pa ab p assms(3) by (intro exI [of _ q2]) (simp add: primed_def)
  qed
  show ?thesis using al sb push kp by blast
qed

lemma prime_loop_ok:
  assumes "primed k (vn_rxq v) (vn_rx_bufs v) s" "arena_ok ops lim s" "k + n \<le> unat (v_qsz (vn_rxq v))" "prime_loop ops n v s = Some (v', s')"
  shows "primed (k + n) (vn_rxq v') (vn_rx_bufs v') s' \<and> v_qsz (vn_rxq v') = v_qsz (vn_rxq v)"
  using assms
proof (induction n arbitrary: k v s)
  case (Suc n)
  obtain buf t pa where b: "vm_alloc ops s = Some (Some buf, t)" "translate ops buf (mem t) = Some (Some pa)"
    using Suc.prems(4) by (auto simp: bind_eq_Some_conv split: option.splits)
  have k: "k < unat (v_qsz (vn_rxq v))" using Suc.prems(3) by simp
  obtain q1 where q1: "alloc_desc (vn_rxq v) = Some (of_nat k, q1)" "set_buf (of_nat k) buf (vn_rx_bufs v) = vn_rx_bufs v @ [buf]" "arena_ok ops lim t"
      "\<And>x. \<exists>q2. vq_push (of_nat k) (put_desc (of_nat k) x q1) = Some q2 \<and> primed (Suc k) q2 (vn_rx_bufs v @ [buf]) t \<and> v_qsz q2 = v_qsz (vn_rxq v)"
    using prime_one [OF Suc.prems(1,2) k b(1)] by blast
  let ?x = "\<lparr>dsc_addr = pa, dsc_len = of_nat RX_BUF_SIZE, dsc_flags = VIRTQ_DESC_F_WRITE, dsc_next = 0\<rparr>"
  obtain q2 where q2: "vq_push (of_nat k) (put_desc (of_nat k) ?x q1) = Some q2" "primed (Suc k) q2 (vn_rx_bufs v @ [buf]) t" "v_qsz q2 = v_qsz (vn_rxq v)"
    using q1(4) by blast
  let ?u = "v\<lparr>vn_rx_bufs := vn_rx_bufs v @ [buf], vn_mem := kwrite buf (replicate RX_BUF_SIZE 0) (vn_mem v), vn_rxq := q2\<rparr>"
  have "prime_loop ops n ?u t = Some (v', s')" using Suc.prems(4) b q1(1,2) q2(1) by simp
  from Suc.IH [OF _ q1(3) _ this, of "Suc k"] q2(2,3) Suc.prems(3) show ?case by simp
qed auto

lemma primed_new:
  assumes "unat n dvd 2 ^ 16" "n \<noteq> 0"
  shows "primed 0 (vq_new n a b) [] s"
proof -
  have z: "v_qsz (vq_new n a b) = n" "v_free (vq_new n a b) = rev (map of_nat [0..<unat n])" by (simp_all add: vq_new_def)
  then have "vq_ok (vq_new n a b)" using assms unfolding vq_ok_def vq_new_lists by simp
  then show ?thesis unfolding primed_def z vq_new_lists by (simp add: pages_apart_def)
qed

lemma prime_rx_inv:
  assumes "arena_ok ops lim s" "vn_rxq v = vq_new n a b" "unat n dvd 2 ^ 16" "n \<noteq> 0" "vn_rx_bufs v = []" "prime_rx ops v s = Some (v', s')"
  shows "rx_inv [] v' \<and> avail_list (vn_rxq v') = heads (vn_rxq v')"
proof -
  obtain u where u: "prime_loop ops (unat (v_qsz (vn_rxq v))) v s = Some (u, s')" "v' = u\<lparr>vn_rxq := notify RX_QUEUE_SEL (vn_rxq u)\<rparr>"
    using assms(6) by (auto simp: prime_rx_def bind_eq_Some_conv)
  have p0: "primed 0 (vn_rxq v) (vn_rx_bufs v) s" unfolding assms(2,5) by (rule primed_new [OF assms(3,4)])
  have p: "primed (unat (v_qsz (vn_rxq v))) (vn_rxq u) (vn_rx_bufs u) s'" "v_qsz (vn_rxq u) = v_qsz (vn_rxq v)"
    using prime_loop_ok [OF p0 assms(1) _ u(1)] by simp_all
  then have "vq.lent (heads (vn_rxq u)) [] (vn_rxq u)" by (simp add: primed_def vq.lent_def heads_def)
  then show ?thesis using p u(2) by (simp add: rx_inv_def primed_def heads_def)
qed

section \<open>Driver and device on the receive queue\<close>

text \<open>
  The driver polls; the device takes available heads and completes what it holds, in any order, having written
  whatever it likes into memory.
\<close>

inductive rx_step :: "vnet \<times> u16 list \<Rightarrow> vnet \<times> u16 list \<Rightarrow> bool" where
  rs_poll: "poll_rx_into cap v = Some (r, v') \<Longrightarrow> rx_step (v, held) (v', held)"
| rs_take: "dev_take (vn_rxq v) = Some (h, q) \<Longrightarrow> rx_step (v, held) (v\<lparr>vn_rxq := q\<rparr>, h # held)"
| rs_complete: "ue_head e \<in> set held \<Longrightarrow>
    rx_step (v, held) (v\<lparr>vn_rxq := dev_complete e (vn_rxq v), vn_mem := m\<rparr>, remove1 (ue_head e) held)"

lemma poll_rx_none:
  assumes "rx_inv held v" "used_list (vn_rxq v) = []"
  shows "poll_rx_into cap v = Some (None, v)"
proof -
  have "pop_used (vn_rxq v) = Some (None, vn_rxq v)" using vq.pop_none assms by (simp add: rx_inv_def vq.lent_def)
  then show ?thesis by (simp add: poll_rx_into_def Let_def)
qed

lemma rx_step_inv:
  assumes "rx_step c c'" "case c of (v, held) \<Rightarrow> rx_inv held v"
  shows "case c' of (v, held) \<Rightarrow> rx_inv held v"
  using assms
proof (cases rule: rx_step.cases)
  case (rs_poll cap v r v' held)
  have i: "rx_inv held v" using assms(2) rs_poll(1) by simp
  show ?thesis
  proof (cases "used_list (vn_rxq v)")
    case Nil
    then show ?thesis using poll_rx_none [OF i Nil] rs_poll i by simp
  next
    case (Cons e es)
    from poll_rx_ok [OF i this, of cap] rs_poll show ?thesis by auto
  qed
next
  case (rs_take v h q held)
  have i: "vq.lent (heads (vn_rxq v)) held (vn_rxq v)" using assms(2) rs_take(1) by (simp add: rx_inv_def)
  then have "vq_ok (vn_rxq v)" by (simp add: vq.lent_def)
  from dev_take_refines [OF this] rs_take(3) obtain hs where
    t: "avail_list (vn_rxq v) = h # hs" "vq_ok q" "avail_list q = hs" "used_list q = used_list (vn_rxq v)" "v_qsz q = v_qsz (vn_rxq v)"
    by (auto split: list.splits)
  then have "vq.lent (heads (vn_rxq v)) (h # held) q" using i by (simp add: vq.lent_def)
  then show ?thesis using assms(2) rs_take(1,2) t(5) by (simp add: rx_inv_def heads_def)
next
  case (rs_complete e held v m)
  let ?q = "vn_rxq v"
  have i: "vq.lent (heads ?q) held ?q" using assms(2) rs_complete(1) by (simp add: rx_inv_def)
  have "size (mset (avail_list ?q) + mset held + mset (map ue_head (used_list ?q))) = length (heads ?q)" using i by (simp add: vq.lent_def)
  moreover have "0 < length held" using rs_complete(3) by auto
  ultimately have "length (used_list ?q) < unat (v_qsz ?q)" by (cases held) (simp_all add: heads_def)
  from dev_complete_refines [OF _ this, of e] i
  have c: "vq_ok (dev_complete e ?q)" "used_list (dev_complete e ?q) = used_list ?q @ [e]" "avail_list (dev_complete e ?q) = avail_list ?q"
    by (auto simp: vq.lent_def)
  have z: "v_qsz (dev_complete e ?q) = v_qsz ?q" by (simp add: dev_complete_def)
  define M where "M = mset held - {#ue_head e#}"
  have M: "mset held = add_mset (ue_head e) M" "mset (remove1 (ue_head e) held) = M" using rs_complete(3) by (simp_all add: M_def)
  have "vq.lent (heads ?q) (remove1 (ue_head e) held) (dev_complete e ?q)" using i unfolding vq.lent_def M c z by (simp add: c)
  then show ?thesis using assms(2) rs_complete(1,2) z by (simp add: rx_inv_def heads_def)
qed

lemma vn_attach_inv:
  assumes "vn_attach ops neg device rx tx m0 s = Some (Some v, s')" "arena_ok ops lim s" "unat (fst rx) dvd 2 ^ 16"
  shows "rx_inv [] v \<and> avail_list (vn_rxq v) = heads (vn_rxq v)"
proof -
  obtain rxq txq where rx: "setup_queue (fst rx) (fst (snd rx)) (snd (snd rx)) = Some rxq" "setup_queue (fst tx) (fst (snd tx)) (snd (snd tx)) = Some txq"
    using assms(1) by (auto simp: vn_attach_def split: option.splits)
  let ?n = "if fst rx > 256 then 256 else fst rx"
  have n: "rxq = vq_new ?n (fst (snd rx)) (snd (snd rx))" "?n \<noteq> 0" using rx(1) by (auto simp: setup_queue_def split: if_splits)
  have d: "unat ?n dvd 2 ^ 16" using assms(3) by simp
  obtain buf t u where u: "vm_alloc ops s = Some (Some buf, t)" "prime_rx ops u t = Some (v, s')" "vn_rxq u = rxq" "vn_rx_bufs u = []"
    using assms(1) rx by (auto simp: vn_attach_def Let_def bind_eq_Some_conv split: option.splits) 
  have "arena_ok ops lim t" using karena.pg_keeps [OF assms(2)] u(1) by (simp add: vm_alloc_def)
  from prime_rx_inv [OF this _ d n(2) u(4,2)] u(3) n(1) show ?thesis by simp
qed

section \<open>The transmit queue\<close>

lemma alloc_desc_fields:
  "alloc_desc q = Some (d, q') \<Longrightarrow> d = last (v_free q) \<and> v_free q \<noteq> [] \<and> q' = q\<lparr>v_free := butlast (v_free q)\<rparr>"
  by (auto simp: alloc_desc_def split: if_splits)

lemma tx_post_ok:
  assumes "vq_ok (vn_txq v)" "v_free (vn_txq v) \<noteq> []" "length (avail_list (vn_txq v)) < unat (v_qsz (vn_txq v))" "tr (vn_tx_buf v) = Some pa"
  shows "\<exists>q. tx_post tr frame v = Some (v\<lparr>vn_mem := kwrite (vn_tx_buf v + 12) frame (kwrite (vn_tx_buf v) (replicate 4096 0) (vn_mem v)), vn_txq := q\<rparr>)
    \<and> vq_ok q \<and> avail_list q = avail_list (vn_txq v) @ [last (v_free (vn_txq v))] \<and> used_list q = used_list (vn_txq v)
    \<and> v_free q = butlast (v_free (vn_txq v)) \<and> v_qsz q = v_qsz (vn_txq v)
    \<and> v_desc q (unat (last (v_free (vn_txq v)))) = \<lparr>dsc_addr = pa, dsc_len = of_nat (12 + length frame), dsc_flags = 0, dsc_next = 0\<rparr>"
proof -
  let ?q = "vn_txq v" and ?d = "last (v_free (vn_txq v))"
  let ?x = "\<lparr>dsc_addr = pa, dsc_len = of_nat (12 + length frame), dsc_flags = 0, dsc_next = 0\<rparr>"
  let ?p = "put_desc ?d ?x (?q\<lparr>v_free := butlast (v_free ?q)\<rparr>)"
  have "vq_ok ?p" "length (avail_list ?p) < unat (v_qsz ?p)" using assms(1,3) by simp_all
  from push_refines [OF this, of ?d] obtain q where q: "vq_push ?d ?p = Some q" "vq_ok q" "avail_list q = avail_list ?q @ [?d]"
      "used_list q = used_list ?q" "v_free q = butlast (v_free ?q)" "v_qsz q = v_qsz ?q" "v_desc q = v_desc ?p" by auto
  have "tx_post tr frame v = Some (v\<lparr>vn_mem := kwrite (vn_tx_buf v + 12) frame (kwrite (vn_tx_buf v) (replicate 4096 0) (vn_mem v)), vn_txq := notify TX_QUEUE_SEL q\<rparr>)"
    using assms(2,4) q(1) by (simp add: tx_post_def alloc_desc_def Let_def vn_consts)
  then show ?thesis using q by (intro exI [of _ "notify TX_QUEUE_SEL q"]) (simp add: put_desc_def)
qed

text \<open>The wait, when the first completion is there after \<open>k\<close> steps of the device, and when none comes.\<close>

lemma tx_wait_done:
  assumes "k < n" "\<forall>j < k. vq_ok (vn_txq ((step ^^ j) w)) \<and> used_list (vn_txq ((step ^^ j) w)) = []"
    "vq_ok (vn_txq ((step ^^ k) w))" "used_list (vn_txq ((step ^^ k) w)) = e # es"
  shows "\<exists>q. tx_wait step n w = Some (True, ((step ^^ k) w)\<lparr>vn_txq := free_desc (ue_head e) q\<rparr>) \<and> used_list q = es
    \<and> v_free q = v_free (vn_txq ((step ^^ k) w)) \<and> v_qsz q = v_qsz (vn_txq ((step ^^ k) w)) \<and> avail_list q = avail_list (vn_txq ((step ^^ k) w))"
  using assms
proof (induction k arbitrary: n w)
  case 0
  then obtain m where "n = Suc m" by (cases n) auto
  with pop_used_refines [of "vn_txq w"] 0 show ?case by fastforce
next
  case (Suc k)
  then obtain m where m: "n = Suc m" "k < m" by (cases n) auto
  have "vq_ok (vn_txq w)" "used_list (vn_txq w) = []" using Suc.prems(2) by (force dest: spec [of _ 0])+
  then have p: "pop_used (vn_txq w) = Some (None, vn_txq w)" using vq.pop_none by blast
  have sh: "(step ^^ j) (step w) = (step ^^ Suc j) w" for j by (simp add: funpow_swap1)
  have "tx_wait step n w = tx_wait step m (step w)" using p m by simp
  moreover have "\<forall>j < k. vq_ok (vn_txq ((step ^^ j) (step w))) \<and> used_list (vn_txq ((step ^^ j) (step w))) = []"
    unfolding sh using Suc.prems(2) by (metis Suc_less_eq)
  ultimately show ?case using Suc.IH [OF m(2), of "step w"] Suc.prems(3,4) unfolding sh by simp
qed

lemma tx_wait_stalled: "vq_ok (vn_txq w) \<Longrightarrow> used_list (vn_txq w) = [] \<Longrightarrow> tx_wait (\<lambda>v. v) n w = Some (False, w)"
proof (induction n)
  case (Suc n)
  then have "pop_used (vn_txq w) = Some (None, vn_txq w)" using vq.pop_none by blast
  with Suc show ?case by simp
qed simp

fun tx_sends :: "(u64 \<Rightarrow> u64 option) \<Rightarrow> (vnet \<Rightarrow> vnet) \<Rightarrow> u8 list list \<Rightarrow> vnet \<Rightarrow> (bool list \<times> vnet) option" where
  "tx_sends tr step [] v = Some ([], v)"
| "tx_sends tr step (f # fs) v = do {
     (r, v) \<leftarrow> vn_send_frame tr step f v;
     (rs, v) \<leftarrow> tx_sends tr step fs v;
     Some (r # rs, v)
   }"

definition sendable :: "u8 list \<Rightarrow> bool" where
  "sendable f \<longleftrightarrow> f \<noteq> [] \<and> length f \<le> MAX_FRAME_LEN"

lemma tx_sends_stalled:
  assumes "vq_ok (vn_txq v)" "used_list (vn_txq v) = []" "length (avail_list (vn_txq v)) + length (v_free (vn_txq v)) \<le> unat (v_qsz (vn_txq v))"
    "tr (vn_tx_buf v) = Some pa" "\<forall>f \<in> set fs. sendable f" "length fs \<le> length (v_free (vn_txq v))"
  shows "\<exists>v'. tx_sends tr (\<lambda>v. v) fs v = Some (replicate (length fs) False, v') \<and> length (v_free (vn_txq v')) = length (v_free (vn_txq v)) - length fs
    \<and> vn_tx_buf v' = vn_tx_buf v"
  using assms
proof (induction fs arbitrary: v)
  case (Cons f fs)
  have "v_free (vn_txq v) \<noteq> []" using Cons.prems(6) by auto
  moreover from this have "length (avail_list (vn_txq v)) < unat (v_qsz (vn_txq v))" using Cons.prems(3) by (cases "v_free (vn_txq v)") auto
  ultimately obtain q where q: "tx_post tr f v = Some (v\<lparr>vn_mem := kwrite (vn_tx_buf v + 12) f (kwrite (vn_tx_buf v) (replicate 4096 0) (vn_mem v)), vn_txq := q\<rparr>)"
      "vq_ok q" "length (avail_list q) = length (avail_list (vn_txq v)) + 1" "used_list q = used_list (vn_txq v)" "v_free q = butlast (v_free (vn_txq v))" "v_qsz q = v_qsz (vn_txq v)"
    using tx_post_ok [of v tr pa f] Cons.prems(1,4) by auto
  let ?w = "v\<lparr>vn_mem := kwrite (vn_tx_buf v + 12) f (kwrite (vn_tx_buf v) (replicate 4096 0) (vn_mem v)), vn_txq := q\<rparr>"
  have "tx_wait (\<lambda>v. v) TX_WAIT_SPIN_LIMIT ?w = Some (False, ?w)" using q(2,4) Cons.prems(2) by (intro tx_wait_stalled) simp_all
  then have s: "vn_send_frame tr (\<lambda>v. v) f v = Some (False, ?w)" using Cons.prems(5) q(1) by (simp add: vn_send_frame_def sendable_def)
  have "\<exists>v'. tx_sends tr (\<lambda>v. v) fs ?w = Some (replicate (length fs) False, v') \<and> length (v_free (vn_txq v')) = length (v_free (vn_txq ?w)) - length fs
    \<and> vn_tx_buf v' = vn_tx_buf ?w"
    by (rule Cons.IH) (use Cons.prems q in auto)
  then show ?case using s q(5) by auto
qed simp

section \<open>A small device\<close>

text \<open>Two buffers; the device has taken both heads and completed the second with three bytes of frame.\<close>

definition two_bufs :: vnet where
  "two_bufs = \<lparr>vn_features = 0, vn_device = None,
     vn_rxq = (vq_new 2 0 0)\<lparr>v_free := [], v_avail := of_nat, v_avail_idx := 2, v_dev := 2, v_used := (\<lambda>_. \<lparr>ue_id = 1, ue_len = 15\<rparr>), v_used_idx := 1\<rparr>,
     vn_txq = vq_new 2 0 0, vn_rx_bufs = [0x10000, 0x11000], vn_tx_buf = 0x12000, vn_mac = None, vn_mtu = 1500,
     vn_mem = (\<lambda>a. if a = 0x1100C then 7 else 0)\<rparr>"

lemma two_bufs_lists:
  "used_list (vn_rxq two_bufs) = [\<lparr>ue_id = 1, ue_len = 15\<rparr>]" "avail_list (vn_rxq two_bufs) = []" "v_qsz (vn_rxq two_bufs) = 2"
  "vn_txq two_bufs = vq_new 2 0 0" "vn_tx_buf two_bufs = 0x12000" "vn_rx_bufs two_bufs = [0x10000, 0x11000]"
  by (simp_all add: two_bufs_def used_list_def avail_list_def ring_def vq_new_def)

lemma two_bufs_inv: "rx_inv [0] two_bufs"
proof -
  have "[0..<2] = [0, 1 :: nat]" by (simp add: upt_rec)
  then have "mset (avail_list (vn_rxq two_bufs)) + mset [0] + mset (map ue_head (used_list (vn_rxq two_bufs))) = mset (heads (vn_rxq two_bufs))"
    by (simp add: two_bufs_lists heads_def ue_head_def)
  moreover have "vq_ok (vn_rxq two_bufs)" by (simp add: vq_ok_def two_bufs_lists)
  moreover have "pages_apart [0x10000, 0x11000]" by (auto simp: pages_apart_def less_Suc_eq)
  ultimately show ?thesis by (simp add: rx_inv_def vq.lent_def two_bufs_lists heads_def)
qed

lemma tx_new: "vq_ok (vq_new 2 0 0)" "v_free (vq_new 2 0 0) = [1, 0]" "v_qsz (vq_new 2 0 0) = 2"
proof -
  show z: "v_qsz (vq_new 2 0 0) = 2" by (simp add: vq_new_def)
  then show "vq_ok (vq_new 2 0 0)" by (simp add: vq_ok_def vq_new_lists)
  have "[0..<2] = [0, 1 :: nat]" by (simp add: upt_rec)
  then show "v_free (vq_new 2 0 0) = [1, 0]" by (simp add: vq_new_def)
qed

section \<open>Properties\<close>

text \<open>
  C20: Received frames are delivered once and in order. When the device has completed the buffers \<open>es\<close> and none of its
  lengths exceeds the page it was given, as many polls return exactly the frames that lie behind the headers of
  these buffers, cut to the caller's capacity and in the order of completion; all of the buffers are with the
  device again afterwards, and a further poll finds nothing.
\<close>

theorem rx_delivers_in_order:
  assumes "rx_inv held v" and "used_list (vn_rxq v) = es" and "\<forall>e \<in> set es. unat (ue_len e) \<le> 4096"
  shows "\<exists>v'. rx_polls (length es) cap v
        = Some (map (\<lambda>e. kread (vn_mem v) (vn_rx_bufs v ! unat (ue_head e) + 12) (min (unat (ue_len e) - 12) cap)) es, v')
    \<and> avail_list (vn_rxq v') = avail_list (vn_rxq v) @ map ue_head es
    \<and> poll_rx_into cap v' = Some (None, v') \<and> rx_inv held v'"
  using rx_polls_ok [OF assms, of cap] poll_rx_none unfolding frame_of_def by blast

theorem rx_delivers_in_order_witness:
  "\<exists>v'. rx_polls 1 100 two_bufs = Some ([[7, 0, 0]], v') \<and> poll_rx_into 100 v' = Some (None, v')"
proof -
  let ?e = "\<lparr>ue_id = 1, ue_len = 15\<rparr>"
  have "\<exists>v'. rx_polls (length [?e]) 100 two_bufs
        = Some (map (\<lambda>e. kread (vn_mem two_bufs) (vn_rx_bufs two_bufs ! unat (ue_head e) + 12) (min (unat (ue_len e) - 12) 100)) [?e], v')
      \<and> avail_list (vn_rxq v') = avail_list (vn_rxq two_bufs) @ map ue_head [?e] \<and> poll_rx_into 100 v' = Some (None, v') \<and> rx_inv [0] v'"
    by (rule rx_delivers_in_order [OF two_bufs_inv two_bufs_lists(1)]) simp
  moreover have "kread (vn_mem two_bufs) (vn_rx_bufs two_bufs ! unat (ue_head ?e) + 12) (min (unat (ue_len ?e) - 12) 100) = [7, 0, 0]"
    by (simp add: two_bufs_def ue_head_def read_bytes_def upt_rec)
  ultimately show ?thesis by auto
qed

text \<open>
  C21: No receive buffer is ever lost or lent twice. From the attachment of a device that offers a queue whose size is a
  power of two, whatever the interleaving of polls with the device's taking and completing buffers: every head
  is in exactly one of the available ring, the device and the used ring, and no poll panics.
\<close>

theorem rx_buffers_conserved:
  assumes "vn_attach ops neg device rx tx m0 s = Some (Some v0, s')" and "arena_ok ops lim s" and "unat (fst rx) dvd 2 ^ 16"
    and "rx_step\<^sup>*\<^sup>* (v0, []) (v, held)"
  shows "mset (avail_list (vn_rxq v)) + mset held + mset (map ue_head (used_list (vn_rxq v))) = mset (map of_nat [0..<unat (v_qsz (vn_rxq v))])
    \<and> (\<exists>r v'. poll_rx_into cap v = Some (r, v'))"
proof -
  have "case (v, held) of (v, held) \<Rightarrow> rx_inv held v"
    using assms(4)
  proof (induction rule: rtranclp_induct)
    case base
    then show ?case using vn_attach_inv [OF assms(1-3)] by simp
  next
    case (step c c')
    then show ?case using rx_step_inv by blast
  qed
  then have i: "rx_inv held v" by simp
  then have "\<exists>r v'. poll_rx_into cap v = Some (r, v')"
    using poll_rx_none [OF i] poll_rx_ok [OF i] by (cases "used_list (vn_rxq v)") blast+
  with i show ?thesis by (simp add: rx_inv_def vq.lent_def heads_def)
qed

lemma flat_attach: "\<exists>v s. vn_attach flat_ops (Some 0) None (2, 0, 0) (2, 0, 0) (\<lambda>_. 0) (flat_vm 0) = Some (Some v, s)"
proof -
  have s: "find_run \<lparr>storage = [0]\<rparr> 4 1 = Some (Some 0)" "set_range \<lparr>storage = [0]\<rparr> 0 1 4 True = Some \<lparr>storage = [1]\<rparr>"
    "find_run \<lparr>storage = [1]\<rparr> 4 1 = Some (Some 1)" "set_range \<lparr>storage = [1]\<rparr> 1 2 4 True = Some \<lparr>storage = [3]\<rparr>"
    by code_simp+
  have two: "prime_loop ops 2 v t = prime_loop ops (Suc (Suc 0)) v t" for ops :: "(u64 \<times> u64) list x86_ops" and v t by (simp add: numeral_2_eq_2)
  have "[0..<2] = [0, 1 :: nat]" by (simp add: upt_rec)
  then show ?thesis
    by (simp add: vn_attach_def setup_queue_def vq_new_def vm_alloc_def alloc_n_def flat_vm_def flat_ops_def assert_that_def Let_def flat_scan page_va_def s
      checked_mul_def checked_add_def frame_alloc_def try_alloc_def phys_of_idx_def map_fixed_def align4k_def prime_rx_def two alloc_desc_def
      translate_def vq_push_def put_desc_def s [unfolded One_nat_def numeral_2_eq_2] flat_scan [unfolded One_nat_def numeral_2_eq_2 numeral_3_eq_3])
qed

theorem rx_buffers_conserved_witness:
  "\<exists>v s. vn_attach flat_ops (Some 0) None (2, 0, 0) (2, 0, 0) (\<lambda>_. 0) (flat_vm 0) = Some (Some v, s)
    \<and> (\<exists>r v'. poll_rx_into 100 v = Some (r, v'))"
proof -
  obtain v s where a: "vn_attach flat_ops (Some 0) None (2, 0, 0) (2, 0, 0) (\<lambda>_. 0) (flat_vm 0) = Some (Some v, s)" using flat_attach by blast
  have "unat (fst (2 :: u16, 0 :: u32, 0 :: u16)) dvd 2 ^ 16" by simp
  from rx_buffers_conserved [OF a flat_arena_ok this rtranclp.rtrancl_refl, of 100] a show ?thesis by blast
qed

text \<open>
  C26: What \<open>send_frame\<close> hands to the device. The transmit page holds an empty header and the frame, the descriptor just
  taken describes exactly these bytes and its head is the last of the available ring; when the device completes
  a buffer within the spin limit the call returns true and that buffer is free again.
\<close>

theorem tx_hands_over:
  assumes "vq_ok (vn_txq v)" and "v_free (vn_txq v) \<noteq> []" and "length (avail_list (vn_txq v)) < unat (v_qsz (vn_txq v))"
    and "tr (vn_tx_buf v) = Some pa" and "frame \<noteq> []" and "length frame \<le> MAX_FRAME_LEN" and "unat (vn_tx_buf v) + 4096 < 2 ^ 64"
    and "k < TX_WAIT_SPIN_LIMIT"
    and "\<And>w. tx_post tr frame v = Some w \<Longrightarrow> (\<forall>j < k. vq_ok (vn_txq ((step ^^ j) w)) \<and> used_list (vn_txq ((step ^^ j) w)) = [])
       \<and> vq_ok (vn_txq ((step ^^ k) w)) \<and> used_list (vn_txq ((step ^^ k) w)) = [e]"
  shows "\<exists>w v'. tx_post tr frame v = Some w
    \<and> kread (vn_mem w) (vn_tx_buf v) (12 + length frame) = replicate 12 0 @ frame
    \<and> v_desc (vn_txq w) (unat (last (v_free (vn_txq v)))) = \<lparr>dsc_addr = pa, dsc_len = of_nat (12 + length frame), dsc_flags = 0, dsc_next = 0\<rparr>
    \<and> avail_list (vn_txq w) = avail_list (vn_txq v) @ [last (v_free (vn_txq v))]
    \<and> vn_send_frame tr step frame v = Some (True, v') \<and> used_list (vn_txq v') = []
    \<and> (ue_head e < v_qsz (vn_txq ((step ^^ k) w)) \<longrightarrow> v_free (vn_txq v') = v_free (vn_txq ((step ^^ k) w)) @ [ue_head e])"
proof -
  let ?m = "kwrite (vn_tx_buf v + 12) frame (kwrite (vn_tx_buf v) (replicate 4096 0) (vn_mem v))"
  obtain q where q: "tx_post tr frame v = Some (v\<lparr>vn_mem := ?m, vn_txq := q\<rparr>)" "avail_list q = avail_list (vn_txq v) @ [last (v_free (vn_txq v))]"
      "v_desc q (unat (last (v_free (vn_txq v)))) = \<lparr>dsc_addr = pa, dsc_len = of_nat (12 + length frame), dsc_flags = 0, dsc_next = 0\<rparr>"
    using tx_post_ok [of v tr pa frame] assms(1-4) by blast
  let ?w = "v\<lparr>vn_mem := ?m, vn_txq := q\<rparr>"
  have lf: "12 + length frame \<le> 4096" using assms(6) by (simp add: vn_consts)
  have a: "unat (vn_tx_buf v + 12) = unat (vn_tx_buf v) + 12" using assms(7) by (simp add: unat_word_ariths)
  have "kread ?m (vn_tx_buf v) 12 = kread (kwrite (vn_tx_buf v) (replicate 4096 0) (vn_mem v)) (vn_tx_buf v) 12"
    by (rule read_write_apart) (use a assms(7) lf in auto)
  also have "\<dots> = replicate 12 0" using read_write_inside [of 0 12 "replicate 4096 (0 :: u8)" "vn_mem v" "vn_tx_buf v"] by simp
  finally have h: "kread ?m (vn_tx_buf v) 12 = replicate 12 0" .
  have f: "kread ?m (vn_tx_buf v + 12) (length frame) = frame" using lf by (intro read_write_bytes) simp
  have "kread ?m (vn_tx_buf v) (12 + length frame) = kread ?m (vn_tx_buf v) 12 @ kread ?m (vn_tx_buf v + 12) (length frame)"
    unfolding read_bytes_def upt_add_eq_append [OF le0] map_append by (simp add: map_add_upt [symmetric] add_ac comp_def)
  then have bytes: "kread ?m (vn_tx_buf v) (12 + length frame) = replicate 12 0 @ frame" by (simp only: h f)
  obtain q' where q': "tx_wait step TX_WAIT_SPIN_LIMIT ?w = Some (True, ((step ^^ k) ?w)\<lparr>vn_txq := free_desc (ue_head e) q'\<rparr>)" "used_list q' = []"
      "v_free q' = v_free (vn_txq ((step ^^ k) ?w))" "v_qsz q' = v_qsz (vn_txq ((step ^^ k) ?w))"
    using tx_wait_done [OF assms(8), of step ?w e "[]"] assms(9) [OF q(1)] by blast
  have "vn_send_frame tr step frame v = Some (True, ((step ^^ k) ?w)\<lparr>vn_txq := free_desc (ue_head e) q'\<rparr>)"
    using q(1) q'(1) assms(5,6) by (simp add: vn_send_frame_def)
  moreover have "used_list (free_desc (ue_head e) q') = []" using q'(2) by (simp add: free_desc_def)
  moreover have "ue_head e < v_qsz (vn_txq ((step ^^ k) ?w)) \<longrightarrow> v_free (free_desc (ue_head e) q') = v_free (vn_txq ((step ^^ k) ?w)) @ [ue_head e]"
    using q'(3,4) by (auto simp: free_desc_def dest: leD)
  ultimately show ?thesis using q bytes by (intro exI [of _ ?w] exI [of _ "((step ^^ k) ?w)\<lparr>vn_txq := free_desc (ue_head e) q'\<rparr>"]) simp
qed

theorem tx_hands_over_witness:
  "\<exists>v'. vn_send_frame Some (\<lambda>v. v\<lparr>vn_txq := dev_complete \<lparr>ue_id = 0, ue_len = 0\<rparr> (vn_txq v)\<rparr>) [1, 2, 3] two_bufs = Some (True, v')"
proof -
  let ?e = "\<lparr>ue_id = 0, ue_len = 0\<rparr>"
  let ?step = "\<lambda>v. v\<lparr>vn_txq := dev_complete ?e (vn_txq v)\<rparr>"
  have t: "vq_ok (vn_txq two_bufs)" "v_free (vn_txq two_bufs) \<noteq> []" "length (avail_list (vn_txq two_bufs)) < unat (v_qsz (vn_txq two_bufs))"
    by (simp_all add: two_bufs_lists tx_new vq_new_lists)
  have dev: "(\<forall>j < 1. vq_ok (vn_txq ((?step ^^ j) w)) \<and> used_list (vn_txq ((?step ^^ j) w)) = [])
      \<and> vq_ok (vn_txq ((?step ^^ 1) w)) \<and> used_list (vn_txq ((?step ^^ 1) w)) = [?e]" if w: "tx_post Some [1, 2, 3] two_bufs = Some w" for w
  proof -
    have "vq_ok (vn_txq w)" "used_list (vn_txq w) = []" "v_qsz (vn_txq w) = 2"
      using tx_post_ok [OF t, of Some "0x12000" "[1, 2, 3]"] w by (auto simp: two_bufs_lists tx_new vq_new_lists)
    then show ?thesis using dev_complete_refines [of "vn_txq w" ?e] by simp
  qed
  have f: "Some (vn_tx_buf two_bufs) = Some 0x12000" "[1, 2, 3 :: u8] \<noteq> []" "length [1, 2, 3 :: u8] \<le> MAX_FRAME_LEN"
    "unat (vn_tx_buf two_bufs) + 4096 < 2 ^ 64" "1 < TX_WAIT_SPIN_LIMIT"
    by (simp_all add: two_bufs_lists vn_consts TX_WAIT_SPIN_LIMIT_def)
  from tx_hands_over [where tr = Some, OF t f dev] show ?thesis by blast
qed

text \<open>
  A device that stops completing makes the kernel panic. Every send then times out and returns false, but its
  descriptor is not given back; after as many sends as there were free descriptors the next one finds none and panics.
\<close>

lemma tx_timeouts_panic:
  assumes "vq_ok (vn_txq v)" and "used_list (vn_txq v) = []"
    and "length (avail_list (vn_txq v)) + length (v_free (vn_txq v)) \<le> unat (v_qsz (vn_txq v))"
    and "tr (vn_tx_buf v) = Some pa" and "\<forall>f \<in> set fs. f \<noteq> [] \<and> length f \<le> MAX_FRAME_LEN" and "length fs = length (v_free (vn_txq v))"
    and "frame \<noteq> []" and "length frame \<le> MAX_FRAME_LEN"
  shows "\<exists>v'. tx_sends tr (\<lambda>v. v) fs v = Some (replicate (length fs) False, v') \<and> vn_send_frame tr (\<lambda>v. v) frame v' = None"
proof -
  have "\<forall>f \<in> set fs. sendable f" using assms(5) by (auto simp: sendable_def)
  from tx_sends_stalled [where tr = tr, OF assms(1-4) this] assms(6) obtain v' where
    v': "tx_sends tr (\<lambda>v. v) fs v = Some (replicate (length fs) False, v')" "length (v_free (vn_txq v')) = 0" by auto
  then have "tx_post tr frame v' = None" by (auto simp: tx_post_def alloc_desc_def Let_def split: option.splits)
  then have "vn_send_frame tr (\<lambda>v. v) frame v' = None" using assms(7,8) by (simp add: vn_send_frame_def)
  with v'(1) show ?thesis by blast
qed

lemma tx_timeouts_panic_example:
  "\<exists>v'. tx_sends Some (\<lambda>v. v) [[1], [2]] two_bufs = Some ([False, False], v') \<and> vn_send_frame Some (\<lambda>v. v) [3] v' = None"
  using tx_timeouts_panic [of two_bufs Some "0x12000" "[[1], [2]]" "[3]"]
  by (simp add: two_bufs_lists tx_new vq_new_lists vn_consts)

end
