(* ===== verification/Virtio_Input.thy ===== *)
theory Virtio_Input
  imports Virtio_Net
begin

text \<open>
  \<^verbatim>\<open>kernel/drivers/virtio/input.rs\<close> and \<^verbatim>\<open>kernel/syscall/input.rs\<close>: keyboards and pointers over the virtqueue, and
  the system call that hands their events to a process. The state is the memory of the caller, kernel memory and the
  devices behind \<open>IN_DEVS\<close>, which is \<open>None\<close> until the first use. An \<open>i32\<close> is its word.
\<close>

datatype input_msg = Key u16 bool bool | Rel u16 u32 | Syn | Other u16 u16 u32

record vinput =
  vi_evt :: vring
  vi_bufs :: "u64 list"

record in_sys =
  in_um :: umem
  in_kmem :: kbytes
  in_devs :: "vinput list option"

fun in_prime_loop :: "'h x86_ops \<Rightarrow> nat \<Rightarrow> vinput \<Rightarrow> 'h vm \<Rightarrow> (vinput \<times> 'h vm) option" where
  "in_prime_loop ops 0 d s = Some (d, s)"
| "in_prime_loop ops (Suc n) d s = do {
     (r, s) \<leftarrow> vm_alloc ops s;
     buf \<leftarrow> r;
     t \<leftarrow> translate ops buf (mem s);
     pa \<leftarrow> t;
     (h, q) \<leftarrow> alloc_desc (vi_evt d);
     q \<leftarrow> vq_push h (put_desc h \<lparr>dsc_addr = pa, dsc_len = 8, dsc_flags = VIRTQ_DESC_F_WRITE, dsc_next = 0\<rparr> q);
     in_prime_loop ops n (d\<lparr>vi_bufs := set_buf h buf (vi_bufs d), vi_evt := q\<rparr>) s
   }"

definition in_prime :: "'h x86_ops \<Rightarrow> nat \<Rightarrow> vinput \<Rightarrow> 'h vm \<Rightarrow> (vinput \<times> 'h vm) option" where
  "in_prime ops n d s = do {
     (d, s) \<leftarrow> in_prime_loop ops (min n (unat (v_qsz (vi_evt d)))) d s;
     Some (d\<lparr>vi_evt := notify 0 (vi_evt d)\<rparr>, s)
   }"

definition in_recycle :: "u16 \<Rightarrow> vinput \<Rightarrow> vinput option" where
  "in_recycle i d = do { q \<leftarrow> vq_push i (vi_evt d); Some (d\<lparr>vi_evt := notify 0 q\<rparr>) }"

text \<open>The \<open>match\<close> on the eight bytes of a \<open>RawInputEvent\<close>.\<close>

definition event_msg :: "u8 list \<Rightarrow> input_msg" where
  "event_msg ev = (let etype = field16 ev 0; code = field16 ev 2; value = field32 ev 4 in
     if etype = 1 then Key code (value \<noteq> 0) (value = 2)
     else if etype = 2 then Rel code value
     else if etype = 0 then Syn
     else Other etype code value)"

definition poll_one :: "kbytes \<Rightarrow> vinput \<Rightarrow> ((u16 \<times> input_msg) option \<times> vinput) option" where
  "poll_one m d = do {
     (r, q) \<leftarrow> pop_used (vi_evt d);
     let d = d\<lparr>vi_evt := q\<rparr> in
     case r of
       None \<Rightarrow> Some (None, d)
     | Some u \<Rightarrow>
         (let i = ue_head u; buf_va = (if unat i < length (vi_bufs d) then vi_bufs d ! unat i else 0) in
          if buf_va = 0 then Some (Some (i, Other 0 0 0), d)
          else Some (Some (i, event_msg (kread m buf_va 8)), d))
   }"

definition ensure_in_globals :: "in_sys \<Rightarrow> in_sys" where
  "ensure_in_globals s = (if in_devs s = None then s\<lparr>in_devs := Some []\<rparr> else s)"

definition count_devices :: "in_sys \<Rightarrow> nat" where
  "count_devices s = (case in_devs s of None \<Rightarrow> 0 | Some ds \<Rightarrow> length ds)"

text \<open>
  \<open>try_attach\<close>, from whether the features were accepted, the notification parameters and the size of the queue, and
  the size that is read back from the device.
\<close>

definition in_attach :: "'h x86_ops \<Rightarrow> bool \<Rightarrow> (u16 \<times> u32 \<times> u16) \<Rightarrow> u16 \<Rightarrow> in_sys \<Rightarrow> 'h vm \<Rightarrow> (bool \<times> in_sys \<times> 'h vm) option" where
  "in_attach ops negotiated evt qsz s vm =
     (let s = ensure_in_globals s in
      if \<not> negotiated then Some (False, s, vm)
      else case setup_queue (fst evt) (fst (snd evt)) (snd (snd evt)) of
        None \<Rightarrow> Some (False, s, vm)
      | Some q \<Rightarrow> do {
          (d, vm) \<leftarrow> in_prime ops (min 32 (unat qsz)) \<lparr>vi_evt = q, vi_bufs = []\<rparr> vm;
          Some (True, s\<lparr>in_devs := map_option (\<lambda>ds. ds @ [d]) (in_devs s)\<rparr>, vm)
        })"

fun poll_devs :: "kbytes \<Rightarrow> vinput list \<Rightarrow> (input_msg option \<times> vinput list) option" where
  "poll_devs m [] = Some (None, [])"
| "poll_devs m (d # ds) = do {
     (r, d) \<leftarrow> poll_one m d;
     case r of
       Some (i, msg) \<Rightarrow> do { d \<leftarrow> in_recycle i d; Some (Some msg, d # ds) }
     | None \<Rightarrow> do { (r, ds) \<leftarrow> poll_devs m ds; Some (r, d # ds) }
   }"

definition poll_msg :: "in_sys \<Rightarrow> (input_msg option \<times> in_sys) option" where
  "poll_msg s = (case in_devs s of
     None \<Rightarrow> Some (None, s)
   | Some ds \<Rightarrow> do { (r, ds) \<leftarrow> poll_devs (in_kmem s) ds; Some (r, s\<lparr>in_devs := Some ds\<rparr>) })"

text \<open>The \<open>AbiInputEvent\<close> of a message, in the bytes that are written one by one.\<close>

definition msg_event :: "input_msg \<Rightarrow> u8 list" where
  "msg_event msg =
     (let (etype, code, value) = (case msg of
            Syn \<Rightarrow> (0, 0, 0)
          | Key code pressed repeat \<Rightarrow> (1, code, if repeat then 2 else if pressed then 1 else 0)
          | Rel code value \<Rightarrow> (2, code, value)
          | Other etype code value \<Rightarrow> (etype, code, value))
      in le16f etype @ le16f code @ le32 value)"

definition sys_input_next_event :: "u64 \<Rightarrow> in_sys \<Rightarrow> (i64 \<times> in_sys) option" where
  "sys_input_next_event user_out_ptr s =
     (if user_out_ptr = 0 then Some (- EFAULT, s)
      else do {
        (r, s) \<leftarrow> poll_msg s;
        case r of
          None \<Rightarrow> Some (- EAGAIN, s)
        | Some msg \<Rightarrow>
            (case copy_to_user (in_um s) user_out_ptr (msg_event msg) of
               None \<Rightarrow> Some (- EFAULT, s)
             | Some m \<Rightarrow> Some (0, s\<lparr>in_um := m\<rparr>))
      })"

section \<open>Events\<close>

text \<open>
  What a process is to see of the eight bytes that a device wrote: a key value other than 0, 1 and 2 counts as a
  press, the fields of a synchronisation event are cleared, everything else is passed through.
\<close>

definition delivered :: "u8 list \<Rightarrow> u8 list" where
  "delivered ev =
     (if field16 ev 0 = 0 then replicate 8 0
      else if field16 ev 0 = 1 \<and> field32 ev 4 \<notin> {0, 1, 2} then take 4 ev @ [1, 0, 0, 0]
      else ev)"

lemma byte_bit_ge: "\<not> bit (x :: u8) (8 + n)"
  using bit_imp_le_length [of x "8 + n"] by auto

lemma le16f_field16: "k + 1 < length ev \<Longrightarrow> le16f (field16 ev k) = [ev ! k, ev ! (k + 1)]"
  by (auto simp: le16f_def field16_def intro!: bit_word_eqI simp: bit_simps byte_bit_ge)

lemma le32_field32: "k + 3 < length ev \<Longrightarrow> le32 (field32 ev k) = [ev ! k, ev ! (k + 1), ev ! (k + 2), ev ! (k + 3)]"
proof -
  have "[0..<4] = [0, 1, 2, 3 :: nat]" by (simp add: upt_rec)
  moreover have "ucast (field32 ev k) = ev ! k" "ucast (drop_bit 8 (field32 ev k)) = ev ! (k + 1)"
    "ucast (drop_bit 16 (field32 ev k)) = ev ! (k + 2)" "ucast (drop_bit 24 (field32 ev k)) = ev ! (k + 3)"
    by (auto simp: field32_def field16_def bit_simps byte_bit_ge numeral_3_eq_3 intro!: bit_word_eqI)
  ultimately show ?thesis by (simp add: le32_def)
qed

lemma msg_event_msg:
  assumes "length ev = 8"
  shows "msg_event (event_msg ev) = delivered ev"
proof -
  have f: "le16f (field16 ev 0) = [ev ! 0, ev ! 1]" "le16f (field16 ev 2) = [ev ! 2, ev ! 3]" "le32 (field32 ev 4) = [ev ! 4, ev ! 5, ev ! 6, ev ! 7]"
    using le16f_field16 [of 0 ev] le16f_field16 [of 2 ev] le32_field32 [of 4 ev] assms by simp_all
  have ev: "ev = [ev ! 0, ev ! 1, ev ! 2, ev ! 3] @ [ev ! 4, ev ! 5, ev ! 6, ev ! 7]"
    using assms by (auto simp: list_eq_iff_nth_eq less_Suc_eq numeral_eq_Suc)
  have four: "take 4 ev = [ev ! 0, ev ! 1] @ [ev ! 2, ev ! 3]" using assms by (auto simp: list_eq_iff_nth_eq less_Suc_eq numeral_eq_Suc)
  have c: "le32 1 = [1, 0, 0, 0]" "le32 0 = [0, 0, 0, 0]" "le16f 0 = [0, 0]" by code_simp+
  consider "field16 ev 0 = 0" | "field16 ev 0 = 1" "field32 ev 4 = 0" | "field16 ev 0 = 1" "field32 ev 4 = 1" | "field16 ev 0 = 1" "field32 ev 4 = 2"
    | "field16 ev 0 = 1" "field32 ev 4 \<notin> {0, 1, 2}" | "field16 ev 0 \<notin> {0, 1}" by auto
  then show ?thesis
  proof cases
    case 1
    then show ?thesis using c by (simp add: event_msg_def msg_event_def delivered_def numeral_eq_Suc)
  next
    case 2
    then show ?thesis using f ev c by (auto simp: event_msg_def msg_event_def delivered_def)
  next
    case 3
    then show ?thesis using f ev c by (auto simp: event_msg_def msg_event_def delivered_def)
  next
    case 4
    then show ?thesis using f ev c by (auto simp: event_msg_def msg_event_def delivered_def)
  next
    case 5
    then show ?thesis using f four c by (auto simp: event_msg_def msg_event_def delivered_def)
  next
    case 6
    then show ?thesis using f ev c by (auto simp: event_msg_def msg_event_def delivered_def Let_def)
  qed
qed

section \<open>The event queues\<close>

text \<open>Each primed head has a buffer and is available, held by the device or completed.\<close>

definition ev_inv :: "u16 list \<Rightarrow> vinput \<Rightarrow> bool" where
  "ev_inv held d \<longleftrightarrow> vq.lent (map of_nat [0..<length (vi_bufs d)]) held (vi_evt d) \<and> 0 \<notin> set (vi_bufs d)"

definition in_inv :: "u16 list list \<Rightarrow> vinput list \<Rightarrow> bool" where
  "in_inv helds ds \<longleftrightarrow> list_all2 ev_inv helds ds"

text \<open>The events that a device has completed, as the process is to see them, and those of all devices in turn.\<close>

definition ev_pending :: "kbytes \<Rightarrow> vinput \<Rightarrow> u8 list list" where
  "ev_pending m d = map (\<lambda>e. delivered (kread m (vi_bufs d ! unat (ue_head e)) 8)) (used_list (vi_evt d))"

definition in_pending :: "kbytes \<Rightarrow> vinput list \<Rightarrow> u8 list list" where
  "in_pending m ds = concat (map (ev_pending m) ds)"

lemma lent_cap: "vq.lent hs held q \<Longrightarrow> length hs < 2 ^ 16"
  using unsigned_less [of "v_qsz q", where ?'a = nat] by (simp add: vq.lent_def)

lemma poll_one_none:
  assumes "ev_inv held d" "used_list (vi_evt d) = []"
  shows "poll_one m d = Some (None, d)"
proof -
  have "pop_used (vi_evt d) = Some (None, vi_evt d)" using vq.pop_none assms by (simp add: ev_inv_def vq.lent_def)
  then show ?thesis by (simp add: poll_one_def Let_def)
qed

lemma poll_one_some:
  assumes "ev_inv held d" "used_list (vi_evt d) = e # es"
  shows "\<exists>d1 d2. poll_one m d = Some (Some (ue_head e, event_msg (kread m (vi_bufs d ! unat (ue_head e)) 8)), d1)
    \<and> in_recycle (ue_head e) d1 = Some d2 \<and> ev_inv held d2 \<and> vi_bufs d2 = vi_bufs d \<and> used_list (vi_evt d2) = es"
proof -
  let ?q = "vi_evt d" and ?h = "ue_head e" and ?hs = "map of_nat [0..<length (vi_bufs d)]"
  have l: "vq.lent ?hs held ?q" "0 \<notin> set (vi_bufs d)" using assms(1) by (auto simp: ev_inv_def)
  obtain q1 q2 where q: "pop_used ?q = Some (Some e, q1)" "vq_push ?h q1 = Some q2" "vq.lent ?hs held q2" "used_list q2 = es"
    using vq.recycle [OF l(1) assms(2)] by blast
  have "?h \<in> set ?hs" by (rule vq.lent_used [OF l(1)]) (simp add: assms(2))
  then obtain i where i: "?h = of_nat i" "i < length (vi_bufs d)" by auto
  then have h: "unat ?h < length (vi_bufs d)" using lent_cap [OF l(1)] by (simp add: unat_of_nat)
  then have "vi_bufs d ! unat ?h \<noteq> 0" using l(2) by (metis nth_mem)
  then have "poll_one m d = Some (Some (?h, event_msg (kread m (vi_bufs d ! unat ?h) 8)), d\<lparr>vi_evt := q1\<rparr>)
      \<and> in_recycle ?h (d\<lparr>vi_evt := q1\<rparr>) = Some (d\<lparr>vi_evt := notify 0 q2\<rparr>) \<and> ev_inv held (d\<lparr>vi_evt := notify 0 q2\<rparr>)"
    using q h l(2) by (simp add: poll_one_def in_recycle_def ev_inv_def Let_def)
  then show ?thesis using q(4) by fastforce
qed

lemma poll_devs_some:
  assumes "in_inv helds ds" "in_pending m ds = x # xs"
  shows "\<exists>msg ds'. poll_devs m ds = Some (Some msg, ds') \<and> msg_event msg = x \<and> in_inv helds ds' \<and> in_pending m ds' = xs"
  using assms
proof (induction ds arbitrary: helds)
  case (Cons d ds)
  obtain held hs where h: "helds = held # hs" "ev_inv held d" "in_inv hs ds"
    using Cons.prems(1) unfolding in_inv_def by (auto simp: list_all2_Cons2)
  show ?case
  proof (cases "used_list (vi_evt d)")
    case Nil
    then have "in_pending m ds = x # xs" using Cons.prems(2) by (simp add: in_pending_def ev_pending_def)
    from Cons.IH [OF h(3) this] obtain msg ds' where
      "poll_devs m ds = Some (Some msg, ds')" "msg_event msg = x" "in_inv hs ds'" "in_pending m ds' = xs" by blast
    then show ?thesis using poll_one_none [OF h(2) Nil, of m] Nil h
      by (auto simp: in_inv_def in_pending_def ev_pending_def intro!: exI [of _ "d # ds'"])
  next
    case (Cons e es)
    from poll_one_some [OF h(2) this, of m] obtain d1 d2 where
      d: "poll_one m d = Some (Some (ue_head e, event_msg (kread m (vi_bufs d ! unat (ue_head e)) 8)), d1)"
      "in_recycle (ue_head e) d1 = Some d2" "ev_inv held d2" "vi_bufs d2 = vi_bufs d" "used_list (vi_evt d2) = es" by blast
    have x: "x = msg_event (event_msg (kread m (vi_bufs d ! unat (ue_head e)) 8))" "in_pending m (d2 # ds) = xs"
      using Cons.prems(2) Cons d(4,5) by (simp_all add: in_pending_def ev_pending_def msg_event_msg)
    show ?thesis using d x h by (auto simp: in_inv_def intro!: exI [of _ "d2 # ds"])
  qed
qed (simp add: in_pending_def)

lemma poll_devs_none:
  assumes "in_inv helds ds" "in_pending m ds = []"
  shows "poll_devs m ds = Some (None, ds)"
  using assms
proof (induction ds arbitrary: helds)
  case (Cons d ds)
  then obtain held hs where h: "ev_inv held d" "in_inv hs ds" unfolding in_inv_def by (auto simp: list_all2_Cons2)
  have "used_list (vi_evt d) = []" "in_pending m ds = []" using Cons.prems(2) by (simp_all add: in_pending_def ev_pending_def)
  with poll_one_none [OF h(1)] Cons.IH [OF h(2)] show ?case by simp
qed simp

lemma length_msg_event [simp]: "length (msg_event msg) = 8"
  by (simp add: msg_event_def le16f_def split: prod.split)

text \<open>Calls with one buffer, as long as they succeed; each gives the eight bytes found in the buffer.\<close>

fun input_calls :: "nat \<Rightarrow> u64 \<Rightarrow> in_sys \<Rightarrow> (u8 list list \<times> in_sys) option" where
  "input_calls 0 p s = Some ([], s)"
| "input_calls (Suc n) p s = do {
     (r, s) \<leftarrow> sys_input_next_event p s;
     if r \<noteq> 0 then None else do { (evs, t) \<leftarrow> input_calls n p s; Some (read_bytes (in_um s) p 8 # evs, t) }
   }"

lemma next_event_some:
  assumes "in_devs s = Some ds" "in_inv helds ds" "in_pending (in_kmem s) ds = x # xs" "p \<noteq> 0" "is_user_range p 8"
  shows "\<exists>ds' s'. sys_input_next_event p s = Some (0, s') \<and> in_devs s' = Some ds' \<and> in_kmem s' = in_kmem s \<and> in_inv helds ds'
    \<and> in_pending (in_kmem s) ds' = xs \<and> in_um s' = write_bytes (in_um s) p x \<and> length x = 8"
proof -
  from poll_devs_some [OF assms(2,3)] obtain msg ds' where
    d: "poll_devs (in_kmem s) ds = Some (Some msg, ds')" "msg_event msg = x" "in_inv helds ds'" "in_pending (in_kmem s) ds' = xs" by blast
  let ?s = "s\<lparr>in_devs := Some ds', in_um := write_bytes (in_um s) p x\<rparr>"
  have "length x = 8" using d(2) by auto
  then have "sys_input_next_event p s = Some (0, ?s)"
    using d assms(1,4,5) by (simp add: sys_input_next_event_def poll_msg_def copy_to_user_def)
  then show ?thesis using d \<open>length x = 8\<close> by (intro exI [of _ ds'] exI [of _ ?s]) simp
qed

text \<open>
  C22: No input event is lost, made up or reordered. As many calls as there are completed events return them all, one
  each, device by device and in the order each device completed them, as the eight bytes the device wrote in the
  process's reading of them; every buffer goes back to its device, and the call after that reports \<open>EAGAIN\<close> and
  changes nothing.
\<close>

theorem input_events_delivered:
  assumes "in_devs s = Some ds" and "in_inv helds ds" and "p \<noteq> 0" and "is_user_range p 8"
  shows "\<exists>s' ds'. input_calls (length (in_pending (in_kmem s) ds)) p s = Some (in_pending (in_kmem s) ds, s')
    \<and> in_devs s' = Some ds' \<and> in_inv helds ds' \<and> sys_input_next_event p s' = Some (- EAGAIN, s')"
  using assms
proof (induction "in_pending (in_kmem s) ds" arbitrary: s ds)
  case Nil
  have "poll_devs (in_kmem s) ds = Some (None, ds)" using poll_devs_none Nil by metis
  then have "sys_input_next_event p s = Some (- EAGAIN, s)" using Nil by (simp add: sys_input_next_event_def poll_msg_def)
  then show ?case using Nil.prems unfolding Nil.hyps(1) [symmetric] by simp
next
  case (Cons x xs)
  obtain ds1 s1 where s1: "sys_input_next_event p s = Some (0, s1)" "in_devs s1 = Some ds1" "in_kmem s1 = in_kmem s" "in_inv helds ds1"
      "in_pending (in_kmem s) ds1 = xs" "in_um s1 = write_bytes (in_um s) p x" "length x = 8"
    using next_event_some [OF Cons.prems(1,2) Cons.hyps(2) [symmetric] Cons.prems(3,4)] by blast
  have "xs = in_pending (in_kmem s1) ds1" using s1(3,5) by simp
  from Cons.hyps(1) [OF this s1(2,4) Cons.prems(3,4)] obtain s' ds' where
    s': "input_calls (length xs) p s1 = Some (xs, s')" "in_devs s' = Some ds'" "in_inv helds ds'" "sys_input_next_event p s' = Some (- EAGAIN, s')"
    unfolding s1(3,5) by blast
  have "read_bytes (in_um s1) p 8 = x" using read_write_bytes [of x "in_um s" p] s1(6,7) by simp
  with s' s1(1) show ?case unfolding Cons.hyps(2) [symmetric] by auto
qed

text \<open>A device with one completed event, the press of key 30.\<close>

definition key_mem :: kbytes where
  "key_mem a = (if a = 0x5000 then 1 else if a = 0x5002 then 30 else if a = 0x5004 then 1 else 0)"

definition key_dev :: vinput where
  "key_dev = \<lparr>vi_evt = dev_complete \<lparr>ue_id = 0, ue_len = 8\<rparr> (vq_new 2 0 0), vi_bufs = [0x5000]\<rparr>"

lemma key_dev_state: "used_list (vi_evt key_dev) = [\<lparr>ue_id = 0, ue_len = 8\<rparr>]" "ev_inv [] key_dev"
proof -
  have ok: "vq_ok (vq_new 2 0 0)" unfolding vq_ok_def vq_new_lists by (simp add: vq_new_def)
  have z: "v_qsz (vq_new 2 0 0) = 2" by (simp add: vq_new_def)
  have c: "vq_ok (vi_evt key_dev)" "used_list (vi_evt key_dev) = [\<lparr>ue_id = 0, ue_len = 8\<rparr>]" "avail_list (vi_evt key_dev) = []"
    using dev_complete_refines [OF ok, of "\<lparr>ue_id = 0, ue_len = 8\<rparr>"] by (simp_all add: key_dev_def vq_new_lists z)
  then show "used_list (vi_evt key_dev) = [\<lparr>ue_id = 0, ue_len = 8\<rparr>]" by simp
  show "ev_inv [] key_dev" using c by (simp add: ev_inv_def vq.lent_def ue_head_def) (simp add: key_dev_def dev_complete_def vq_new_def)
qed

theorem input_events_delivered_witness:
  "\<exists>s'. input_calls 1 0x1000 \<lparr>in_um = (\<lambda>_. 0), in_kmem = key_mem, in_devs = Some [key_dev]\<rparr> = Some ([[1, 0, 30, 0, 1, 0, 0, 0]], s')
    \<and> sys_input_next_event 0x1000 s' = Some (- EAGAIN, s')"
proof -
  let ?s = "\<lparr>in_um = (\<lambda>_. 0), in_kmem = key_mem, in_devs = Some [key_dev]\<rparr>"
  have b: "kread key_mem 0x5000 8 = [1, 0, 30, 0, 1, 0, 0, 0]" by (simp add: read_bytes_def upt_rec key_mem_def)
  have d: "delivered [1, 0, 30, 0, 1, 0, 0, 0] = [1, 0, 30, 0, 1, 0, 0, 0]" by code_simp
  have h: "vi_bufs key_dev ! unat (ue_head \<lparr>ue_id = 0, ue_len = 8\<rparr>) = 0x5000" by (simp add: key_dev_def ue_head_def)
  have p: "in_pending (in_kmem ?s) [key_dev] = [[1, 0, 30, 0, 1, 0, 0, 0]]"
    by (simp add: in_pending_def ev_pending_def key_dev_state h b d)
  have "in_inv [[]] [key_dev]" using key_dev_state(2) by (simp add: in_inv_def)
  moreover have "is_user_range 0x1000 8" by (simp add: is_user_range_def checked_add_def USER_MAX_def)
  ultimately show ?thesis using input_events_delivered [of ?s "[key_dev]" "[[]]" "0x1000"] unfolding p by auto
qed

section \<open>Attaching\<close>

lemma in_prime_loop_ok:
  assumes "primed k (vi_evt d) (vi_bufs d) s" "arena_ok ops lim s" "k + n \<le> unat (v_qsz (vi_evt d))" "in_prime_loop ops n d s = Some (d', s')"
  shows "primed (k + n) (vi_evt d') (vi_bufs d') s'"
  using assms
proof (induction n arbitrary: k d s)
  case (Suc n)
  obtain buf t pa where b: "vm_alloc ops s = Some (Some buf, t)" "translate ops buf (mem t) = Some (Some pa)"
    using Suc.prems(4) by (auto simp: bind_eq_Some_conv split: option.splits)
  have k: "k < unat (v_qsz (vi_evt d))" using Suc.prems(3) by simp
  let ?x = "\<lparr>dsc_addr = pa, dsc_len = 8, dsc_flags = VIRTQ_DESC_F_WRITE, dsc_next = 0\<rparr>"
  obtain q1 q2 where q: "alloc_desc (vi_evt d) = Some (of_nat k, q1)" "set_buf (of_nat k) buf (vi_bufs d) = vi_bufs d @ [buf]" "arena_ok ops lim t"
      "vq_push (of_nat k) (put_desc (of_nat k) ?x q1) = Some q2" "primed (Suc k) q2 (vi_bufs d @ [buf]) t" "v_qsz q2 = v_qsz (vi_evt d)"
    using prime_one [OF Suc.prems(1,2) k b(1)] by blast
  have "in_prime_loop ops n (d\<lparr>vi_bufs := vi_bufs d @ [buf], vi_evt := q2\<rparr>) t = Some (d', s')" using Suc.prems(4) b q(1,2,4) by simp
  from Suc.IH [OF _ q(3) _ this, of "Suc k"] q(5,6) Suc.prems(3) show ?case by simp
qed auto

text \<open>An attached device joins the list with the invariant, every event buffer available to it.\<close>

lemma in_attach_inv:
  assumes "in_attach ops neg evt qsz s vm = Some (True, s', vm')" "arena_ok ops lim vm" "unat (fst evt) dvd 2 ^ 16"
    and "in_inv helds (case in_devs s of None \<Rightarrow> [] | Some ds \<Rightarrow> ds)"
  shows "\<exists>ds'. in_devs s' = Some ds' \<and> in_inv (helds @ [[]]) ds'"
proof -
  let ?n = "if fst evt > 256 then 256 else fst evt" and ?ds = "case in_devs s of None \<Rightarrow> [] | Some ds \<Rightarrow> ds"
  let ?d0 = "\<lparr>vi_evt = vq_new ?n (fst (snd evt)) (snd (snd evt)), vi_bufs = []\<rparr>"
  have n: "?n \<noteq> 0" "unat ?n dvd 2 ^ 16" using assms(1,3) by (auto simp: in_attach_def setup_queue_def Let_def split: if_splits)
  obtain d where d: "in_prime ops (min 32 (unat qsz)) ?d0 vm = Some (d, vm')" "in_devs s' = Some (?ds @ [d])"
    using assms(1) by (auto simp: in_attach_def setup_queue_def ensure_in_globals_def Let_def bind_eq_Some_conv split: if_splits option.splits)
  obtain u where u: "in_prime_loop ops (min (min 32 (unat qsz)) (unat (v_qsz (vi_evt ?d0)))) ?d0 vm = Some (u, vm')" "d = u\<lparr>vi_evt := notify 0 (vi_evt u)\<rparr>"
    using d(1) by (auto simp: in_prime_def bind_eq_Some_conv)
  have "primed 0 (vi_evt ?d0) (vi_bufs ?d0) vm" unfolding vinput.simps by (rule primed_new [OF n(2,1)])
  from in_prime_loop_ok [OF this assms(2) _ u(1)] obtain k where "primed k (vi_evt u) (vi_bufs u) vm'" by auto
  then have "ev_inv [] d" unfolding u(2) by (auto simp: primed_def ev_inv_def vq.lent_def pages_apart_def)
  then show ?thesis using d(2) assms(4) by (simp add: in_inv_def list_all2_appendI)
qed

text \<open>
  A pointer that is not null but not in user memory: the event is taken off the device's queue and lost.
\<close>

lemma bad_pointer_loses_event:
  assumes "in_devs s = Some ds" "in_inv helds ds" "in_pending (in_kmem s) ds = x # xs" "\<not> is_user_range p 8" "p \<noteq> 0"
  shows "\<exists>s' ds'. sys_input_next_event p s = Some (- EFAULT, s') \<and> in_devs s' = Some ds' \<and> in_pending (in_kmem s') ds' = xs"
proof -
  from poll_devs_some [OF assms(2,3)] obtain msg ds' where
    d: "poll_devs (in_kmem s) ds = Some (Some msg, ds')" "in_pending (in_kmem s) ds' = xs" by blast
  then show ?thesis using assms(1,4,5) by (simp add: sys_input_next_event_def poll_msg_def copy_to_user_def)
qed

end
