(* ===== verification/Virtio_Pci.thy ===== *)
theory Virtio_Pci
  imports Virtio_Net
begin

text \<open>
  \<^verbatim>\<open>kernel/drivers/pci/cfg_io.rs\<close> and \<^verbatim>\<open>kernel/drivers/virtio/pci/{caps,init,transport}.rs\<close>: PCI configuration space,
  the capabilities of a virtio function and the memory windows of its BARs, and the negotiation of features.
  Configuration space is a function from the address word that is written to \<open>PCI_CFG_ADDR\<close> to the dword behind
  \<open>PCI_CFG_DATA\<close>; it keeps what is written to it. Logging is left out.
\<close>

type_synonym pci_cfg = "u32 \<Rightarrow> u32"

section \<open>Configuration space\<close>

definition pci_cfg_addr :: "u8 \<Rightarrow> u8 \<Rightarrow> u8 \<Rightarrow> u8 \<Rightarrow> u32" where
  "pci_cfg_addr bus dv func off =
     0x80000000 OR push_bit 16 (ucast bus) OR push_bit 11 (ucast dv) OR push_bit 8 (ucast func) OR (ucast off AND 0xFC)"

definition pci_read_u32 :: "pci_cfg \<Rightarrow> u8 \<Rightarrow> u8 \<Rightarrow> u8 \<Rightarrow> u8 \<Rightarrow> u32" where
  "pci_read_u32 c bus dv func off = c (pci_cfg_addr bus dv func off)"

definition pci_read_u16 :: "pci_cfg \<Rightarrow> u8 \<Rightarrow> u8 \<Rightarrow> u8 \<Rightarrow> u8 \<Rightarrow> u16" where
  "pci_read_u16 c bus dv func off =
     (let v = pci_read_u32 c bus dv func (off AND NOT 3) in ucast (drop_bit (unat (off AND 3) * 8) v AND 0xFFFF))"

definition pci_read_u8 :: "pci_cfg \<Rightarrow> u8 \<Rightarrow> u8 \<Rightarrow> u8 \<Rightarrow> u8 \<Rightarrow> u8" where
  "pci_read_u8 c bus dv func off =
     (let v = pci_read_u32 c bus dv func (off AND NOT 3) in ucast (drop_bit (unat (off AND 3) * 8) v AND 0xFF))"

definition pci_write_u32 :: "u8 \<Rightarrow> u8 \<Rightarrow> u8 \<Rightarrow> u8 \<Rightarrow> u32 \<Rightarrow> pci_cfg \<Rightarrow> pci_cfg" where
  "pci_write_u32 bus dv func off val c = c(pci_cfg_addr bus dv func off := val)"

definition pci_write_u16 :: "u8 \<Rightarrow> u8 \<Rightarrow> u8 \<Rightarrow> u8 \<Rightarrow> u16 \<Rightarrow> pci_cfg \<Rightarrow> pci_cfg" where
  "pci_write_u16 bus dv func off val c =
     (let off_al = off AND NOT 3; shift = unat (off AND 3) * 8;
          d = pci_read_u32 c bus dv func off_al;
          d = d AND NOT (push_bit shift 0xFFFF);
          d = d OR push_bit shift (ucast val)
      in pci_write_u32 bus dv func off_al d c)"

definition enable_pci_function :: "u8 \<Rightarrow> u8 \<Rightarrow> u8 \<Rightarrow> pci_cfg \<Rightarrow> pci_cfg" where
  "enable_pci_function bus dv func c =
     (let cmd = pci_read_u16 c bus dv func 4; new_cmd = cmd OR 2 OR 4 in
      if new_cmd \<noteq> cmd then pci_write_u16 bus dv func 4 new_cmd c else c)"

section \<open>BARs\<close>

definition PCI_VENDOR_VIRTIO :: u16 where "PCI_VENDOR_VIRTIO = 0x1AF4"
definition PCI_CAP_PTR :: u8 where "PCI_CAP_PTR = 0x34"
definition PCI_BAR0 :: u8 where "PCI_BAR0 = 0x10"
definition NUM_BARS :: nat where "NUM_BARS = 6"
definition PCI_CAP_ID_VENDOR :: u8 where "PCI_CAP_ID_VENDOR = 9"
definition MAP_LEN :: u64 where "MAP_LEN = 0x400000"

record bar_mapping =
  bm_pa :: u64
  bm_va :: u64
  bm_len :: u64
  bm_index :: nat

datatype virtio_dev_kind = Blk | Input | Net | OtherKind

text \<open>A pointer is its address, \<open>null\<close> is 0.\<close>

record virtio_regs =
  r_bar_map :: "bar_mapping option list"
  r_common :: u64
  r_notify :: u64
  r_notify_mul :: u32
  r_isr :: u64
  r_device :: u64
  r_device_len :: u32
  r_kind :: virtio_dev_kind

definition regs_new :: virtio_regs where
  "regs_new = \<lparr>r_bar_map = replicate NUM_BARS None, r_common = 0, r_notify = 0, r_notify_mul = 0, r_isr = 0, r_device = 0,
     r_device_len = 0, r_kind = OtherKind\<rparr>"

text \<open>The loop of \<open>map_mmio\<close>, page by page; \<open>False\<close> is the early return of \<open>None\<close>.\<close>

fun map_mmio_loop :: "'h x86_ops \<Rightarrow> u64 \<Rightarrow> u64 \<Rightarrow> u64 \<Rightarrow> nat \<Rightarrow> 'h mm \<Rightarrow> (bool \<times> 'h mm) option" where
  "map_mmio_loop ops pa va_hint off 0 m = Some (True, m)"
| "map_mmio_loop ops pa va_hint off (Suc n) m = do {
     a \<leftarrow> checked_add (pa AND NOT 0xFFF) off;
     pf \<leftarrow> x_frame ops a;
     w \<leftarrow> checked_add va_hint off;
     v \<leftarrow> x_virt ops w;
     t \<leftarrow> translate ops v m;
     case t of
       Some _ \<Rightarrow> map_mmio_loop ops pa va_hint (off + 4096) n m
     | None \<Rightarrow> do {
         (r, m) \<leftarrow> map_fixed ops v pf MMIO m;
         case r of Inl _ \<Rightarrow> Some (False, m) | Inr _ \<Rightarrow> map_mmio_loop ops pa va_hint (off + 4096) n m
       }
   }"

definition map_mmio :: "'h x86_ops \<Rightarrow> u64 \<Rightarrow> u64 \<Rightarrow> u64 \<Rightarrow> nat \<Rightarrow> 'h mm \<Rightarrow> (bar_mapping option \<times> 'h mm) option" where
  "map_mmio ops pa len va_hint i m = do {
     (ok, m) \<leftarrow> map_mmio_loop ops pa va_hint 0 (unat ((len + 4095) div 4096)) m;
     Some (if ok then Some \<lparr>bm_pa = pa, bm_va = va_hint, bm_len = len, bm_index = i\<rparr> else None, m)
   }"

text \<open>Where BAR \<open>i\<close> of a function is mapped, with wrapping additions.\<close>

definition bar_va :: "u8 \<Rightarrow> u8 \<Rightarrow> u8 \<Rightarrow> nat \<Rightarrow> u64" where
  "bar_va bus dv func i =
     (let fn_key = push_bit 24 (ucast bus) OR push_bit 16 (ucast dv) OR push_bit 8 (ucast func) :: u64
      in 0xFFFFFF3000000000 + push_bit 8 fn_key + of_nat i * 0x400000)"

function map_all_bars :: "'h x86_ops \<Rightarrow> pci_cfg \<Rightarrow> u8 \<Rightarrow> u8 \<Rightarrow> u8 \<Rightarrow> nat \<Rightarrow> virtio_regs \<Rightarrow> 'h mm \<Rightarrow> (virtio_regs \<times> 'h mm) option" where
  "map_all_bars ops c bus dv func i regs m =
     (if i \<ge> NUM_BARS then Some (regs, m)
      else let off = PCI_BAR0 + of_nat i * 4; bar_lo = pci_read_u32 c bus dv func off in
        if bar_lo = 0 then map_all_bars ops c bus dv func (i + 1) regs m
        else if bar_lo AND 1 \<noteq> 0 then map_all_bars ops c bus dv func (i + 1) regs m
        else let is_64 = drop_bit 1 bar_lo AND 3 = 2;
                 pa = ucast (bar_lo AND NOT 0xF) :: u64;
                 pa = (if is_64 then pa OR push_bit 32 (ucast (pci_read_u32 c bus dv func (off + 4))) else pa);
                 va_hint = bar_va bus dv func i;
                 next = (if is_64 then i + 2 else i + 1)
             in if pa = 0 then map_all_bars ops c bus dv func next regs m
                else do {
                  (b, m) \<leftarrow> map_mmio ops pa MAP_LEN va_hint i m;
                  map_all_bars ops c bus dv func next
                    (case b of None \<Rightarrow> regs | Some _ \<Rightarrow> regs\<lparr>r_bar_map := (r_bar_map regs)[i := b]\<rparr>) m
                })"
  by pat_completeness auto
termination by (relation "measure (\<lambda>(ops, c, bus, dv, func, i, regs, m). NUM_BARS - i)") (auto simp: NUM_BARS_def)
declare map_all_bars.simps [simp del]

section \<open>Capabilities\<close>

text \<open>The outer option is the panic of the plain addition at the end.\<close>

definition map_bar_direct :: "virtio_regs \<Rightarrow> nat \<Rightarrow> u32 \<Rightarrow> u32 \<Rightarrow> u64 option option" where
  "map_bar_direct regs bar_idx off len =
     (if bar_idx \<ge> NUM_BARS then Some None
      else case r_bar_map regs ! bar_idx of
        None \<Rightarrow> Some None
      | Some b \<Rightarrow>
          if saturating_add (ucast off) (ucast len) > bm_len b then Some None
          else map_option Some (checked_add (bm_va b) (ucast off)))"

definition cap_entry :: "pci_cfg \<Rightarrow> u8 \<Rightarrow> u8 \<Rightarrow> u8 \<Rightarrow> u8 \<Rightarrow> u8 \<Rightarrow> virtio_regs \<Rightarrow> virtio_regs option" where
  "cap_entry c bus dv func ptr cap_len regs = do {
     p3 \<leftarrow> checked_add ptr 3; p4 \<leftarrow> checked_add ptr 4; p5 \<leftarrow> checked_add ptr 5; p8 \<leftarrow> checked_add ptr 8; p12 \<leftarrow> checked_add ptr 12;
     let cfg_type = pci_read_u8 c bus dv func p3;
     let bar_idx = unat (pci_read_u8 c bus dv func p4);
     let offset = pci_read_u32 c bus dv func p8;
     let len = pci_read_u32 c bus dv func p12;
     base_ptr \<leftarrow> map_bar_direct regs bar_idx offset len;
     case base_ptr of
       None \<Rightarrow> Some regs
     | Some b \<Rightarrow>
         if cfg_type = 1 then Some (regs\<lparr>r_common := b\<rparr>)
         else if cfg_type = 2 then do {
           mul \<leftarrow> (if cap_len \<ge> 20 then do { p16 \<leftarrow> checked_add ptr 16; Some (pci_read_u32 c bus dv func p16) } else Some 2);
           Some (regs\<lparr>r_notify := b, r_notify_mul := mul\<rparr>)
         }
         else if cfg_type = 3 then Some (regs\<lparr>r_isr := b\<rparr>)
         else if cfg_type = 4 then Some (regs\<lparr>r_device := b, r_device_len := len\<rparr>)
         else Some regs
   }"

fun cap_loop :: "pci_cfg \<Rightarrow> u8 \<Rightarrow> u8 \<Rightarrow> u8 \<Rightarrow> nat \<Rightarrow> u8 \<Rightarrow> virtio_regs \<Rightarrow> virtio_regs option" where
  "cap_loop c bus dv func 0 ptr regs = Some regs"
| "cap_loop c bus dv func (Suc hops) ptr regs =
     (if ptr < 0x40 then Some regs
      else do {
        p1 \<leftarrow> checked_add ptr 1; p2 \<leftarrow> checked_add ptr 2;
        let cap_id = pci_read_u8 c bus dv func ptr;
        let cap_nxt = pci_read_u8 c bus dv func p1;
        let cap_len = pci_read_u8 c bus dv func p2;
        regs \<leftarrow> (if cap_id = PCI_CAP_ID_VENDOR \<and> cap_len \<ge> 16 then cap_entry c bus dv func ptr cap_len regs else Some regs);
        if cap_nxt = 0 \<or> cap_nxt = ptr then Some regs else cap_loop c bus dv func hops cap_nxt regs
      })"

text \<open>The kind from the device id; \<open>dcap\<close> is the first eight bytes of the device area.\<close>

definition kind_of :: "(u64 \<Rightarrow> u64) \<Rightarrow> u16 \<Rightarrow> virtio_regs \<Rightarrow> virtio_dev_kind" where
  "kind_of dcap did regs =
     (if did \<in> {0x1041, 0x1000} then Net
      else if did \<in> {0x1042, 0x1001} then Blk
      else if did \<in> {0x1052, 0x1048, 0x1006} then Input
      else if r_device regs \<noteq> 0 \<and> r_device_len regs \<ge> 8 then if dcap (r_device regs) \<noteq> 0 then Blk else OtherKind
      else OtherKind)"

definition parse_caps_for_device ::
  "'h x86_ops \<Rightarrow> pci_cfg \<Rightarrow> (u64 \<Rightarrow> u64) \<Rightarrow> u8 \<Rightarrow> u8 \<Rightarrow> u8 \<Rightarrow> 'h mm \<Rightarrow> (virtio_regs option \<times> 'h mm) option" where
  "parse_caps_for_device ops c dcap bus dv func m =
     (if pci_read_u16 c bus dv func 0 \<noteq> PCI_VENDOR_VIRTIO then Some (None, m)
      else do {
        (regs, m) \<leftarrow> map_all_bars ops c bus dv func 0 regs_new m;
        let ptr = pci_read_u8 c bus dv func PCI_CAP_PTR in
        if ptr < 0x40 then Some (None, m)
        else do {
          regs \<leftarrow> cap_loop c bus dv func 64 ptr regs;
          let regs = regs\<lparr>r_kind := kind_of dcap (pci_read_u16 c bus dv func 2) regs\<rparr> in
          Some (if r_common regs = 0 \<or> r_notify regs = 0 then None else Some regs, m)
        }
      })"

section \<open>The scan\<close>

text \<open>
  \<open>init\<close> visits every function of every bus. The drivers' \<open>try_attach\<close> is the parameter: given the kind and the
  registers it changes the state \<open>'s\<close> and says whether it took the device. Once a block or network device is taken,
  later ones of that kind are passed over.
\<close>

record ('h, 's) pci_scan =
  sc_cfg :: pci_cfg
  sc_mm :: "'h mm"
  sc_drv :: 's
  got_blk :: bool
  got_net :: bool

definition scan_fn :: "'h x86_ops \<Rightarrow> (u64 \<Rightarrow> u64) \<Rightarrow> (virtio_dev_kind \<Rightarrow> virtio_regs \<Rightarrow> 's \<Rightarrow> (bool \<times> 's) option) \<Rightarrow> u8 \<times> u8 \<times> u8
    \<Rightarrow> ('h, 's) pci_scan \<Rightarrow> ('h, 's) pci_scan option" where
  "scan_fn ops dcap attach fn s = (let (bus, dv, func) = fn in
     if pci_read_u16 (sc_cfg s) bus dv func 0 \<noteq> PCI_VENDOR_VIRTIO then Some s
     else let s = s\<lparr>sc_cfg := enable_pci_function bus dv func (sc_cfg s)\<rparr> in do {
       (r, m) \<leftarrow> parse_caps_for_device ops (sc_cfg s) dcap bus dv func (sc_mm s);
       let s = s\<lparr>sc_mm := m\<rparr> in
       case r of
         None \<Rightarrow> Some s
       | Some regs \<Rightarrow>
           if r_kind regs = Blk \<and> \<not> got_blk s then do { (ok, t) \<leftarrow> attach Blk regs (sc_drv s); Some (s\<lparr>sc_drv := t, got_blk := ok\<rparr>) }
           else if r_kind regs = Net \<and> \<not> got_net s then do { (ok, t) \<leftarrow> attach Net regs (sc_drv s); Some (s\<lparr>sc_drv := t, got_net := ok\<rparr>) }
           else if r_kind regs = Input then do { (ok, t) \<leftarrow> attach Input regs (sc_drv s); Some (s\<lparr>sc_drv := t\<rparr>) }
           else Some s
     })"

fun scan_fns :: "'h x86_ops \<Rightarrow> (u64 \<Rightarrow> u64) \<Rightarrow> (virtio_dev_kind \<Rightarrow> virtio_regs \<Rightarrow> 's \<Rightarrow> (bool \<times> 's) option) \<Rightarrow> (u8 \<times> u8 \<times> u8) list
    \<Rightarrow> ('h, 's) pci_scan \<Rightarrow> ('h, 's) pci_scan option" where
  "scan_fns ops dcap attach [] s = Some s"
| "scan_fns ops dcap attach (fn # fns) s = do { s \<leftarrow> scan_fn ops dcap attach fn s; scan_fns ops dcap attach fns s }"

definition virtio_init :: "'h x86_ops \<Rightarrow> (u64 \<Rightarrow> u64) \<Rightarrow> (virtio_dev_kind \<Rightarrow> virtio_regs \<Rightarrow> 's \<Rightarrow> (bool \<times> 's) option)
    \<Rightarrow> pci_cfg \<Rightarrow> 'h mm \<Rightarrow> 's \<Rightarrow> ('h, 's) pci_scan option" where
  "virtio_init ops dcap attach c m t =
     scan_fns ops dcap attach [(of_nat bus, of_nat dv, of_nat func). bus \<leftarrow> [0..<256], dv \<leftarrow> [0..<32], func \<leftarrow> [0..<8]]
       \<lparr>sc_cfg = c, sc_mm = m, sc_drv = t, got_blk = False, got_net = False\<rparr>"

section \<open>Negotiation\<close>

text \<open>
  The common configuration as the driver sees it: the status byte, the features the device offers, those it was
  told, and whether it takes them, which shows in the bit \<open>FEATURES_OK\<close> that it leaves set.
\<close>

record virtio_common =
  device_status :: u8
  device_features :: u64
  driver_features :: u64
  accepts :: "u64 \<Rightarrow> bool"

definition VIRTIO_F_VERSION_1 :: u64 where "VIRTIO_F_VERSION_1 = 0x100000000"
definition STATUS_ACKNOWLEDGE :: u8 where "STATUS_ACKNOWLEDGE = 1"
definition STATUS_DRIVER :: u8 where "STATUS_DRIVER = 2"
definition STATUS_DRIVER_OK :: u8 where "STATUS_DRIVER_OK = 4"
definition STATUS_FEATURES_OK :: u8 where "STATUS_FEATURES_OK = 8"
definition STATUS_FAILED :: u8 where "STATUS_FAILED = 0x80"

definition reset_device :: "virtio_common \<Rightarrow> virtio_common" where
  "reset_device c = c\<lparr>device_status := 0\<rparr>"

definition set_status :: "u8 \<Rightarrow> virtio_common \<Rightarrow> virtio_common" where
  "set_status b c = c\<lparr>device_status := device_status c OR b\<rparr>"

definition features_ok :: "virtio_common \<Rightarrow> bool \<times> virtio_common" where
  "features_ok c =
     (let st = device_status c OR STATUS_FEATURES_OK;
          c = c\<lparr>device_status := if accepts c (driver_features c) then st else st AND NOT STATUS_FEATURES_OK\<rparr>
      in (device_status c AND STATUS_FEATURES_OK \<noteq> 0, c))"

definition negotiate_features_with :: "u64 \<Rightarrow> virtio_common \<Rightarrow> u64 option \<times> virtio_common" where
  "negotiate_features_with wanted c =
     (let c = set_status STATUS_DRIVER (set_status STATUS_ACKNOWLEDGE (reset_device c));
          feats = device_features c;
          accept = wanted AND feats;
          accept = (if feats AND VIRTIO_F_VERSION_1 \<noteq> 0 then accept OR VIRTIO_F_VERSION_1 else accept);
          (ok, c) = features_ok (c\<lparr>driver_features := accept\<rparr>)
      in if \<not> ok then (None, c\<lparr>device_status := STATUS_FAILED\<rparr>) else (Some accept, c))"

definition negotiate_features :: "virtio_common \<Rightarrow> bool \<times> virtio_common" where
  "negotiate_features c = (let (r, c) = negotiate_features_with 0 c in (r \<noteq> None, c))"

text \<open>The features asked for are the wanted ones among those offered, and version 1 when it is offered.\<close>

lemma negotiation:
  "negotiate_features_with wanted c =
     (let a = (wanted OR VIRTIO_F_VERSION_1) AND device_features c in
      if accepts c a then (Some a, c\<lparr>driver_features := a, device_status := 0xB\<rparr>)
      else (None, c\<lparr>driver_features := a, device_status := 0x80\<rparr>))"
proof -
  have n: "bit VIRTIO_F_VERSION_1 n \<longleftrightarrow> n = 32" for n
  proof -
    have v: "VIRTIO_F_VERSION_1 = 2 ^ 32" by (simp add: VIRTIO_F_VERSION_1_def)
    show ?thesis unfolding v bit_exp_iff by auto
  qed
  have b: "feats AND VIRTIO_F_VERSION_1 = (if bit feats 32 then VIRTIO_F_VERSION_1 else 0)" for feats :: u64
    by (rule bit_word_eqI) (auto simp: bit_simps n)
  have v: "VIRTIO_F_VERSION_1 \<noteq> 0" by (simp add: VIRTIO_F_VERSION_1_def)
  have e: "(if device_features c AND VIRTIO_F_VERSION_1 \<noteq> 0 then wanted AND device_features c OR VIRTIO_F_VERSION_1 else wanted AND device_features c)
      = (wanted OR VIRTIO_F_VERSION_1) AND device_features c"
    unfolding b using v by (auto intro!: bit_word_eqI simp: bit_simps n)
  have s: "(11 :: u8) AND 8 \<noteq> 0" "(3 :: u8) AND NOT 8 = 3" "(3 :: u8) AND 8 = 0" by code_simp+
  show ?thesis
    unfolding negotiate_features_with_def features_ok_def set_status_def reset_device_def
      STATUS_ACKNOWLEDGE_def STATUS_DRIVER_def STATUS_FEATURES_OK_def STATUS_FAILED_def
    using e s by (cases "device_features c AND VIRTIO_F_VERSION_1 = 0") (simp_all add: Let_def)
qed

section \<open>The windows\<close>

lemma u8_less: "unat (x :: u8) < 256" "bit x n \<Longrightarrow> n < 8"
  using unsigned_less [of x, where ?'a = nat] bit_imp_le_length [of x n] by simp_all

lemma fn_key_sum:
  "push_bit 24 (ucast bus) OR push_bit 16 (ucast dv) OR push_bit 8 (ucast func) =
     (of_nat (unat bus * 2 ^ 24 + unat dv * 2 ^ 16 + unat func * 2 ^ 8) :: u64)"
  for bus dv func :: u8
proof -
  have d: "push_bit 16 (ucast dv) AND push_bit 8 (ucast func) = (0 :: u64)"
    "push_bit 24 (ucast bus) AND (push_bit 16 (ucast dv) OR push_bit 8 (ucast func)) = (0 :: u64)"
    by (rule bit_word_eqI, auto simp: bit_simps dest!: u8_less(2))+
  show ?thesis unfolding disjunctive_add_eq_or [OF d(2), symmetric] unfolding disjunctive_add_eq_or [OF d(1), symmetric]
    by (simp add: push_bit_eq_mult mult.commute)
qed

lemma unat_bar_va:
  assumes "i < 6"
  shows "unat (bar_va bus dv func i) =
    (0xFFFFFF3000000000 + unat bus * 2 ^ 32 + unat dv * 2 ^ 24 + unat func * 2 ^ 16 + i * 0x400000) mod 2 ^ 64"
proof -
  have p: "push_bit 8 (of_nat n) = (of_nat (n * 2 ^ 8) :: u64)" for n by (simp add: push_bit_eq_mult mult.commute)
  have n: "0xFFFFFF3000000000 = (of_nat 0xFFFFFF3000000000 :: u64)" "0x400000 = (of_nat 0x400000 :: u64)" by simp_all
  have "bar_va bus dv func i =
      of_nat (0xFFFFFF3000000000 + (unat bus * 2 ^ 24 + unat dv * 2 ^ 16 + unat func * 2 ^ 8) * 2 ^ 8 + i * 0x400000)"
    unfolding bar_va_def fn_key_sum Let_def p unfolding n by (simp only: of_nat_add of_nat_mult)
  moreover have "unat (of_nat k :: u64) = k mod 2 ^ 64" for k by (simp add: unat_of_nat take_bit_eq_mod)
  moreover have "(unat bus * 2 ^ 24 + unat dv * 2 ^ 16 + unat func * 2 ^ 8) * 2 ^ 8 = unat bus * 2 ^ 32 + unat dv * 2 ^ 24 + unat func * 2 ^ 16" by simp
  ultimately show ?thesis by (simp only: add.assoc)
qed

definition window :: "u8 \<Rightarrow> u8 \<Rightarrow> u8 \<Rightarrow> nat \<Rightarrow> nat set" where
  "window bus dv func i = {unat (bar_va bus dv func i)..<unat (bar_va bus dv func i) + unat MAP_LEN}"

text \<open>Below bus 208 the sum does not wrap.\<close>

lemma unat_bar_va_low:
  assumes "unat bus < 0xD0" "unat dv < 32" "unat func < 8" "i < 6"
  shows "unat (bar_va bus dv func i) = 0xFFFFFF3000000000 + unat bus * 2 ^ 32 + unat dv * 2 ^ 24 + unat func * 2 ^ 16 + i * 0x400000"
  unfolding unat_bar_va [OF assms(4)] using assms by (intro mod_less) simp

text \<open>
  C27: The windows of function 0 of every device. On the buses below 208 (\<open>0xD0\<close>), the windows of the first four BARs of
  function 0 of all 32 devices of a bus are pairwise disjoint and lie in the kernel half of the address space, so that
  no such device is reached through the registers of another. None of the limits can be dropped: see below.
\<close>

theorem bar_windows_disjoint:
  assumes "unat bus < 0xD0" and "unat dv < 32" and "i < 4" and "unat bus' < 0xD0" and "unat dv' < 32" and "i' < 4"
    and "(bus, dv, i) \<noteq> (bus', dv', i')"
  shows "window bus dv 0 i \<inter> window bus' dv' 0 i' = {} \<and> window bus dv 0 i \<subseteq> {0xFFFF800000000000..<2 ^ 64}"
proof -
  define k where "k = unat bus * 1024 + unat dv * 4 + i"
  define k' where "k' = unat bus' * 1024 + unat dv' * 4 + i'"
  have a: "unat (bar_va bus dv 0 i) = 0xFFFFFF3000000000 + k * 0x400000" "unat (bar_va bus' dv' 0 i') = 0xFFFFFF3000000000 + k' * 0x400000"
    using unat_bar_va_low [of bus dv 0 i] unat_bar_va_low [of bus' dv' 0 i'] assms by (simp_all add: k_def k'_def)
  have m: "unat MAP_LEN = 0x400000" by (simp add: MAP_LEN_def)
  have "k \<noteq> k'"
  proof
    assume e: "k = k'"
    have digit: "q = q' \<and> r = r'" if "q * n + r = q' * n + r'" "r < n" "r' < n" for q q' r r' n :: nat
      using that by (metis add.commute div_mult_self4 div_less mod_mult_self3 mod_less add_0 add.right_neutral less_nat_zero_code div_mult_self3)
    have "b = b' \<and> d = d' \<and> j = j'" if "b * 1024 + d * 4 + j = b' * 1024 + d' * 4 + j'" "d < 32" "d' < 32" "j < 4" "j' < 4" for b b' d d' j j' :: nat
      using that digit [of "b * 256 + d" 4 j "b' * 256 + d'" j'] digit [of b 256 d b' d'] by simp
    from this [OF e [unfolded k_def k'_def] assms(2,5,3,6)] show False using assms(7) by (auto simp: word_unat_eq_iff)
  qed
  then have "k < k' \<or> k' < k" by auto
  then have "window bus dv 0 i \<inter> window bus' dv' 0 i' = {}" unfolding window_def a m by auto
  moreover have "k < 0xD0 * 1024" using assms(1-3) by (simp add: k_def)
  then have "window bus dv 0 i \<subseteq> {0xFFFF800000000000..<2 ^ 64}" unfolding window_def a m by auto
  ultimately show ?thesis by simp
qed

theorem bar_windows_disjoint_witness: "window 0 3 0 1 \<inter> window 207 31 0 3 = {} \<and> window 0 3 0 1 \<subseteq> {0xFFFF800000000000..<2 ^ 64}"
  using bar_windows_disjoint [of 0 3 1 207 31 3] by simp

text \<open>
  Outside these limits they are not: BARs 4 and 5 of a device have the windows of BARs 0 and 1 of the next one,
  the functions of one device overlap, and from bus 208 on the windows lie in the user half, the first at address 0.
\<close>

lemma bar_windows_overlap:
  assumes "unat bus < 0xD0" "unat dv < 31" "unat func < 8" "i < 2"
  shows "window bus dv func (i + 4) = window bus (dv + 1) func i"
proof -
  have "unat (dv + 1) = unat dv + 1" using assms(2) by (simp add: unat_word_ariths)
  then have "unat (bar_va bus dv func (i + 4)) = unat (bar_va bus (dv + 1) func i)"
    using assms unat_bar_va_low [of bus dv func "i + 4"] unat_bar_va_low [of bus "dv + 1" func i] by (simp add: algebra_simps)
  then show ?thesis by (simp only: window_def)
qed

lemma function_windows_overlap:
  assumes "unat bus < 0xD0" "unat dv < 32" "unat func < 7" "i < 6"
  shows "unat (bar_va bus dv (func + 1) i) \<in> window bus dv func i"
proof -
  have "unat (func + 1) = unat func + 1" using assms(3) by (simp add: unat_word_ariths)
  then show ?thesis using assms unat_bar_va_low [of bus dv func i] unat_bar_va_low [of bus dv "func + 1" i]
    by (simp add: window_def MAP_LEN_def)
qed

lemma high_bus_windows:
  assumes "0xD0 \<le> unat bus" "unat dv < 32" "unat func < 8" "i < 6"
  shows "unat (bar_va bus dv func i) < 2 ^ 47" "bar_va 0xD0 0 0 0 = 0"
proof -
  have "unat bus < 256" by (rule u8_less)
  define r where "r = (unat bus - 0xD0) * 2 ^ 32 + unat dv * 2 ^ 24 + unat func * 2 ^ 16 + i * 0x400000"
  have "0xFFFFFF3000000000 + unat bus * 2 ^ 32 + unat dv * 2 ^ 24 + unat func * 2 ^ 16 + i * 0x400000 = 2 ^ 64 + r"
    using assms(1) by (simp add: r_def diff_mult_distrib)
  moreover have r: "r < 2 ^ 47" using assms \<open>unat bus < 256\<close> by (simp add: r_def)
  ultimately have "unat (bar_va bus dv func i) = (2 ^ 64 + r) mod 2 ^ 64" unfolding unat_bar_va [OF assms(4)] by metis
  then have "unat (bar_va bus dv func i) = r" using r by simp
  with r show "unat (bar_va bus dv func i) < 2 ^ 47" by simp
  show "bar_va 0xD0 0 0 0 = 0" using unat_bar_va [of 0 "0xD0" 0 0] by (simp add: unat_eq_zero)
qed

section \<open>The register areas\<close>

text \<open>The mapped BARs are the windows of the function; an area of \<open>n\<close> bytes is absent or inside one of them.\<close>

definition bars_ok :: "u8 \<Rightarrow> u8 \<Rightarrow> u8 \<Rightarrow> virtio_regs \<Rightarrow> bool" where
  "bars_ok bus dv func regs \<longleftrightarrow> length (r_bar_map regs) = 6
     \<and> (\<forall>i < 6. \<forall>b. r_bar_map regs ! i = Some b \<longrightarrow> bm_va b = bar_va bus dv func i \<and> bm_len b = MAP_LEN)"

definition area_ok :: "u8 \<Rightarrow> u8 \<Rightarrow> u8 \<Rightarrow> u64 \<Rightarrow> nat \<Rightarrow> bool" where
  "area_ok bus dv func p n \<longleftrightarrow> p = 0 \<or> (\<exists>i < 6. unat (bar_va bus dv func i) \<le> unat p \<and> unat p + n \<le> unat (bar_va bus dv func i) + unat MAP_LEN)"

definition regs_ok :: "u8 \<Rightarrow> u8 \<Rightarrow> u8 \<Rightarrow> virtio_regs \<Rightarrow> bool" where
  "regs_ok bus dv func regs \<longleftrightarrow> bars_ok bus dv func regs \<and> area_ok bus dv func (r_common regs) 0 \<and> area_ok bus dv func (r_notify regs) 0
     \<and> area_ok bus dv func (r_isr regs) 0 \<and> area_ok bus dv func (r_device regs) (unat (r_device_len regs))"

lemma map_mmio_bar: "map_mmio ops pa len va i m = Some (Some b, m') \<Longrightarrow> bm_va b = va \<and> bm_len b = len"
  by (auto simp: map_mmio_def bind_eq_Some_conv split: if_splits)

lemma map_all_bars_ok:
  assumes "map_all_bars ops c bus dv func i regs m = Some (regs', m')" "regs_ok bus dv func regs"
  shows "regs_ok bus dv func regs'"
  using assms
proof (induction "NUM_BARS - i" arbitrary: i regs m rule: less_induct)
  case less
  let ?lo = "pci_read_u32 c bus dv func (PCI_BAR0 + of_nat i * 4)"
  let ?is64 = "drop_bit 1 ?lo AND 3 = 2"
  let ?pa = "if ?is64 then ucast (?lo AND NOT 0xF) OR push_bit 32 (ucast (pci_read_u32 c bus dv func (PCI_BAR0 + of_nat i * 4 + 4))) else ucast (?lo AND NOT 0xF) :: u64"
  let ?next = "if ?is64 then i + 2 else i + 1"
  have ih: "regs_ok bus dv func regs'" if "map_all_bars ops c bus dv func j r n = Some (regs', m')" "regs_ok bus dv func r" "j > i" "i < NUM_BARS" for j r n
    using less.hyps [OF _ that(1,2)] that(3,4) by simp
  note run = less.prems(1) [unfolded map_all_bars.simps [of ops c bus dv func i]]
  show ?case
  proof (cases "i \<ge> NUM_BARS \<or> ?lo = 0 \<or> ?lo AND 1 \<noteq> 0 \<or> ?pa = 0")
    case True
    then show ?thesis using ih [of "i + 1"] ih [of "i + 2"] run less.prems(2) by (simp add: Let_def split: if_splits)
  next
    case False
    obtain b m1 where b: "map_mmio ops ?pa MAP_LEN (bar_va bus dv func i) i m = Some (b, m1)"
      "map_all_bars ops c bus dv func ?next (case b of None \<Rightarrow> regs | Some _ \<Rightarrow> regs\<lparr>r_bar_map := (r_bar_map regs)[i := b]\<rparr>) m1 = Some (regs', m')"
      using run False by (simp add: Let_def bind_eq_Some_conv split: prod.splits if_splits)
    have "regs_ok bus dv func (case b of None \<Rightarrow> regs | Some _ \<Rightarrow> regs\<lparr>r_bar_map := (r_bar_map regs)[i := b]\<rparr>)"
    proof (cases b)
      case (Some x)
      then have "bm_va x = bar_va bus dv func i \<and> bm_len x = MAP_LEN" using map_mmio_bar b(1) by blast
      then show ?thesis using less.prems(2) Some False by (auto simp: regs_ok_def bars_ok_def nth_list_update NUM_BARS_def split: if_splits)
    qed (use less.prems(2) in simp)
    from ih [OF b(2) this] False show ?thesis by simp
  qed
qed

text \<open>An offset and length accepted for a BAR stay inside its window.\<close>

lemma map_bar_direct_area:
  assumes "map_bar_direct regs i off len = Some (Some p)" "bars_ok bus dv func regs"
  shows "area_ok bus dv func p (unat len)"
proof -
  obtain b where b: "i < 6" "r_bar_map regs ! i = Some b" "saturating_add (ucast off) (ucast len) \<le> bm_len b" "checked_add (bm_va b) (ucast off) = Some p"
    using assms(1) by (auto simp: map_bar_direct_def NUM_BARS_def not_less split: if_splits option.splits)
  have v: "bm_va b = bar_va bus dv func i" "bm_len b = MAP_LEN" using assms(2) b(1,2) by (auto simp: bars_ok_def)
  have o: "unat (ucast off :: u64) = unat off" "unat (ucast len :: u64) = unat len" by (simp_all add: unat_ucast_up)
  have "unat off < 2 ^ 32" "unat len < 2 ^ 32" using unsigned_less [of off, where ?'a = nat] unsigned_less [of len, where ?'a = nat] by simp_all
  then have "unat off + unat len \<le> unat MAP_LEN" using b(3) v(2) o by (simp add: saturating_add_def word_le_nat_alt unat_word_ariths)
  moreover have "unat p = unat (bm_va b) + unat off" using b(4) o(1) by (auto simp: checked_add_Some_iff unat_word_ariths)
  ultimately show ?thesis using b(1) v(1) by (auto simp: area_ok_def intro!: exI [of _ i])
qed

lemma area_ok_less: "area_ok bus dv func p n \<Longrightarrow> k \<le> n \<Longrightarrow> area_ok bus dv func p k"
  by (auto simp: area_ok_def)

lemma cap_entry_ok:
  assumes "cap_entry c bus dv func ptr cap_len regs = Some regs'" "regs_ok bus dv func regs"
  shows "regs_ok bus dv func regs'"
proof -
  have b: "bars_ok bus dv func regs" using assms(2) by (simp add: regs_ok_def)
  have a: "area_ok bus dv func p (unat len)" "area_ok bus dv func p 0" if "map_bar_direct regs i off len = Some (Some p)" for i off len p
    using map_bar_direct_area [OF that b] area_ok_less by auto
  obtain i off len bp and t :: u8 where md: "map_bar_direct regs i off len = Some bp" and r: "(case bp of None \<Rightarrow> Some regs | Some b \<Rightarrow>
         if t = 1 then Some (regs\<lparr>r_common := b\<rparr>)
         else if t = 2 then do {
           mul \<leftarrow> (if cap_len \<ge> 20 then do { p16 \<leftarrow> checked_add ptr 16; Some (pci_read_u32 c bus dv func p16) } else Some 2);
           Some (regs\<lparr>r_notify := b, r_notify_mul := mul\<rparr>)
         }
         else if t = 3 then Some (regs\<lparr>r_isr := b\<rparr>)
         else if t = 4 then Some (regs\<lparr>r_device := b, r_device_len := len\<rparr>)
         else Some regs) = Some regs'"
    using assms(1) unfolding cap_entry_def Let_def bind_eq_Some_conv by blast
  show ?thesis
  proof (cases bp)
    case (Some p)
    note ar = a [OF md [unfolded Some]]
    consider "regs' = regs" | "regs' = regs\<lparr>r_common := p\<rparr>" | mul where "regs' = regs\<lparr>r_notify := p, r_notify_mul := mul\<rparr>"
      | "regs' = regs\<lparr>r_isr := p\<rparr>" | "regs' = regs\<lparr>r_device := p, r_device_len := len\<rparr>"
      using r Some by (auto simp: bind_eq_Some_conv split: if_splits)
    then show ?thesis using ar assms(2) by cases (simp_all add: regs_ok_def bars_ok_def)
  qed (use r assms(2) in simp)
qed

lemma cap_loop_ok:
  "cap_loop c bus dv func hops ptr regs = Some regs' \<Longrightarrow> regs_ok bus dv func regs \<Longrightarrow> regs_ok bus dv func regs'"
  by (induction hops arbitrary: ptr regs) (auto simp: bind_eq_Some_conv Let_def dest: cap_entry_ok split: if_splits)

text \<open>
  A network device with one BAR and the two areas it must have, on a machine where every page is mapped already.
\<close>

definition demo_cfg :: pci_cfg where
  "demo_cfg a = (if a = 0x80000000 then 0x10411AF4 else if a = 0x80000010 then 0x100000 else if a = 0x80000034 then 0x40
     else if a = 0x80000040 then 0x01105009 else if a = 0x8000004C then 0x1000
     else if a = 0x80000050 then 0x02100009 else if a = 0x80000058 then 0x1000 else if a = 0x8000005C then 0x1000 else 0)"

definition all_mapped :: "(u64 \<times> u64) list x86_ops" where
  "all_mapped = flat_ops\<lparr>x_translate_addr := \<lambda>va h. Some va\<rparr>"

lemma demo_reads:
  "pci_read_u16 demo_cfg 0 0 0 0 = PCI_VENDOR_VIRTIO" "pci_read_u8 demo_cfg 0 0 0 PCI_CAP_PTR = 0x40"
  "pci_read_u32 demo_cfg 0 0 0 PCI_BAR0 = 0x100000"
  "pci_read_u32 demo_cfg 0 0 0 (PCI_BAR0 + 4) = 0" "pci_read_u32 demo_cfg 0 0 0 (PCI_BAR0 + 8) = 0" "pci_read_u32 demo_cfg 0 0 0 (PCI_BAR0 + 12) = 0"
  "pci_read_u32 demo_cfg 0 0 0 (PCI_BAR0 + 16) = 0" "pci_read_u32 demo_cfg 0 0 0 (PCI_BAR0 + 20) = 0"
  "map (pci_read_u8 demo_cfg 0 0 0) [0x40, 0x41, 0x42, 0x43, 0x44] = [9, 0x50, 16, 1, 0]"
  "map (pci_read_u8 demo_cfg 0 0 0) [0x50, 0x51, 0x52, 0x53, 0x54] = [9, 0, 16, 2, 0]"
  "map (pci_read_u32 demo_cfg 0 0 0) [0x48, 0x4C, 0x58, 0x5C] = [0, 0x1000, 0x1000, 0x1000]"
  by code_simp+

lemma demo_bits: "drop_bit 1 (0x100000 :: u32) AND 3 = 0" "(0x100000 :: u32) AND 1 = 0" "(ucast ((0x100000 :: u32) AND NOT 0xF) :: u64) = 0x100000"
  by code_simp+

lemma map_mmio_loop_mapped:
  assumes "mapper_set m" "unat off + n * 4096 \<le> 0x400000"
  shows "map_mmio_loop all_mapped 0x100000 0xFFFFFF3000000000 off n m = Some (True, m)"
  using assms(2)
proof (induction n arbitrary: off)
  case (Suc n)
  have "unat (off + 4096) = unat off + 4096" using Suc.prems by (simp add: unat_word_ariths)
  then have "map_mmio_loop all_mapped 0x100000 0xFFFFFF3000000000 (off + 4096) n m = Some (True, m)" using Suc by simp
  then show ?case using Suc.prems assms(1)
    by (simp add: checked_add_def all_mapped_def flat_ops_def translate_def assert_that_def)
qed simp

lemma demo_parse:
  assumes "mapper_set m"
  shows "\<exists>regs. parse_caps_for_device all_mapped demo_cfg (\<lambda>_. 0) 0 0 0 m = Some (Some regs, m)"
proof -
  let ?b = "Some \<lparr>bm_pa = 0x100000, bm_va = 0xFFFFFF3000000000, bm_len = MAP_LEN, bm_index = 0\<rparr>"
  let ?r = "regs_new\<lparr>r_bar_map := (r_bar_map regs_new)[0 := ?b]\<rparr>"
  have va: "bar_va 0 0 0 0 = 0xFFFFFF3000000000" by (simp add: bar_va_def)
  have mm: "map_mmio all_mapped 0x100000 MAP_LEN 0xFFFFFF3000000000 0 m = Some (?b, m)"
    using map_mmio_loop_mapped [OF assms, of 0 1024] by (simp add: map_mmio_def MAP_LEN_def)
  have n: "map_all_bars all_mapped demo_cfg 0 0 0 i r m = map_all_bars all_mapped demo_cfg 0 0 0 (i + 1) r m"
    if "i < 6" "pci_read_u32 demo_cfg 0 0 0 (PCI_BAR0 + of_nat i * 4) = 0" for i r
    using that by (subst map_all_bars.simps) (simp add: NUM_BARS_def Let_def)
  have "map_all_bars all_mapped demo_cfg 0 0 0 1 ?r m = Some (?r, m)"
    using n [of 1 ?r] n [of 2 ?r] n [of 3 ?r] n [of 4 ?r] n [of 5 ?r] demo_reads map_all_bars.simps [of all_mapped demo_cfg 0 0 0 6 ?r m]
    by (simp add: NUM_BARS_def flip: numeral_2_eq_2)
  then have bars: "map_all_bars all_mapped demo_cfg 0 0 0 0 regs_new m = Some (?r, m)"
    using demo_reads demo_bits mm va by (subst map_all_bars.simps) (simp add: NUM_BARS_def Let_def)
  have loop: "\<exists>r'. cap_loop demo_cfg 0 0 0 (Suc (Suc n)) 0x40 ?r = Some r' \<and> r_common r' \<noteq> 0 \<and> r_notify r' \<noteq> 0" for n
    using demo_reads by (simp add: cap_entry_def map_bar_direct_def checked_add_def saturating_add_def regs_new_def NUM_BARS_def MAP_LEN_def PCI_CAP_ID_VENDOR_def Let_def)
  have "Suc (Suc 62) = 64" by simp
  with loop [of 62] obtain r' where "cap_loop demo_cfg 0 0 0 64 0x40 ?r = Some r'" "r_common r' \<noteq> 0" "r_notify r' \<noteq> 0" by metis
  then show ?thesis using bars demo_reads by (simp add: parse_caps_for_device_def Let_def)
qed

text \<open>
  Every register area that the capabilities of a device name lies inside one of the windows that were mapped for
  the function, the device area with its whole length, whatever the device says in its configuration space;
  the areas a driver cannot do without are there.
\<close>

lemma regs_inside_windows:
  assumes "parse_caps_for_device ops c dcap bus dv func m = Some (Some regs, m')"
  shows "r_common regs \<noteq> 0 \<and> r_notify regs \<noteq> 0 \<and> area_ok bus dv func (r_common regs) 0 \<and> area_ok bus dv func (r_notify regs) 0
    \<and> area_ok bus dv func (r_isr regs) 0 \<and> area_ok bus dv func (r_device regs) (unat (r_device_len regs))"
proof -
  obtain r1 r2 where r: "map_all_bars ops c bus dv func 0 regs_new m = Some (r1, m')" "cap_loop c bus dv func 64 (pci_read_u8 c bus dv func PCI_CAP_PTR) r1 = Some r2"
      "regs = r2\<lparr>r_kind := kind_of dcap (pci_read_u16 c bus dv func 2) r2\<rparr>" "r_common regs \<noteq> 0" "r_notify regs \<noteq> 0"
    using assms by (auto simp: parse_caps_for_device_def bind_eq_Some_conv Let_def split: if_splits)
  have "regs_ok bus dv func regs_new" by (simp add: regs_ok_def bars_ok_def area_ok_def regs_new_def NUM_BARS_def)
  from cap_loop_ok [OF r(2) map_all_bars_ok [OF r(1) this]] r(3-5) show ?thesis by (simp add: regs_ok_def)
qed

lemma regs_inside_windows_example:
  "\<exists>regs. parse_caps_for_device all_mapped demo_cfg (\<lambda>_. 0) 0 0 0 (mem (flat_vm 0)) = Some (Some regs, mem (flat_vm 0))
    \<and> area_ok 0 0 0 (r_common regs) 0"
proof -
  have "mapper_set (mem (flat_vm 0))" by (simp add: flat_vm_def)
  then obtain regs where "parse_caps_for_device all_mapped demo_cfg (\<lambda>_. 0) 0 0 0 (mem (flat_vm 0)) = Some (Some regs, mem (flat_vm 0))"
    using demo_parse by blast
  with regs_inside_windows [OF this] show ?thesis by blast
qed

text \<open>The walk along the capability list adds to 8-bit offsets with panics: a pointer to one of the last two bytes ends it so.\<close>

lemma unaligned_cap_panics: "ptr \<ge> 0xFE \<Longrightarrow> cap_loop c bus dv func (Suc n) ptr regs = None"
  by (auto simp: checked_add_def word_le_nat_alt word_less_nat_alt)

text \<open>Enabling a function sets two bits of its command register and changes nothing else.\<close>

lemma enable_pci_function_spec:
  "enable_pci_function bus dv func c = c(pci_cfg_addr bus dv func 4 := c (pci_cfg_addr bus dv func 4) OR 6)"
proof -
  let ?v = "c (pci_cfg_addr bus dv func 4)"
  let ?cmd = "ucast (?v AND 0xFFFF) :: u16"
  have o: "(4 :: u8) AND NOT 3 = 4" "(4 :: u8) AND 3 = 0" by code_simp+
  have m: "bit (0xFFFF :: u32) n \<longleftrightarrow> n < 16" for n
  proof -
    have "(0xFFFF :: u32) = mask 16" by (simp add: mask_eq_exp_minus_1)
    then show ?thesis by (simp only: bit_mask_iff) auto
  qed
  have b6: "bit (6 :: u32) n \<longleftrightarrow> n \<in> {1, 2}" "bit (6 :: u16) n \<longleftrightarrow> n \<in> {1, 2}" for n
  proof -
    have "(6 :: u32) = 2 ^ 1 OR 2 ^ 2" "(6 :: u16) = 2 ^ 1 OR 2 ^ 2" by simp_all
    then show "bit (6 :: u32) n \<longleftrightarrow> n \<in> {1, 2}" "bit (6 :: u16) n \<longleftrightarrow> n \<in> {1, 2}" by (simp_all only: bit_or_iff bit_exp_iff) auto
  qed
  have c6: "?cmd OR 2 OR 4 = ?cmd OR 6" by simp
  have w: "(?v AND NOT 0xFFFF) OR ucast (?cmd OR 6) = ?v OR 6"
    by (rule bit_word_eqI, simp only: bit_or_iff bit_and_iff bit_not_iff bit_unsigned_iff m b6) auto
  have same: "?v OR 6 = ?v" if "?cmd OR 6 = ?cmd"
  proof -
    have "bit ?v n" if "n \<in> {1, 2}" for n
    proof -
      have "bit (?cmd OR 6) n" using that by (auto simp: bit_or_iff b6)
      then have "bit ?cmd n" using \<open>?cmd OR 6 = ?cmd\<close> by simp
      then show ?thesis by (simp add: bit_simps)
    qed
    then show ?thesis by (intro bit_word_eqI, simp only: bit_or_iff b6) blast
  qed
  show ?thesis
  proof (cases "?cmd OR 6 = ?cmd")
    case True
    then show ?thesis using same c6 o by (simp add: enable_pci_function_def pci_read_u16_def pci_read_u32_def Let_def fun_upd_idem)
  next
    case False
    then show ?thesis using c6 o w
      by (simp add: enable_pci_function_def pci_read_u16_def pci_read_u32_def pci_write_u16_def pci_write_u32_def Let_def)
  qed
qed

text \<open>\<open>init\<close> attaches at most one block and one network device: the flags only go up.\<close>

lemma scan_fn_flags:
  "scan_fn ops dcap attach fn s = Some s' \<Longrightarrow> (got_blk s \<longrightarrow> got_blk s') \<and> (got_net s \<longrightarrow> got_net s')"
  by (auto simp: scan_fn_def Let_def bind_eq_Some_conv split: prod.splits if_splits option.splits)

end
