(* ===== verification/Virtio_Blk.thy ===== *)
theory Virtio_Blk
  imports Virtio_Net
begin

text \<open>
  \<^verbatim>\<open>kernel/drivers/virtio/blk.rs\<close>: one transfer of the block driver over the virtqueue. The device works on physical
  memory, so memory is a function of physical addresses here, and the driver's own accesses go through the
  translation of the mapper. An access to an unmapped page is a fault and has no result (\<open>None\<close>), like a panic.
\<close>

definition VIRTIO_BLK_T_IN :: u32 where "VIRTIO_BLK_T_IN = 0"
definition VIRTIO_BLK_T_OUT :: u32 where "VIRTIO_BLK_T_OUT = 1"
definition VIRTIO_BLK_F_BLK_SIZE :: u64 where "VIRTIO_BLK_F_BLK_SIZE = 0x40"

record 'h vblk =
  vb_q :: vring
  vb_capacity :: u64
  vb_blk_size :: u32
  vb_pm :: "u64 \<Rightarrow> u8"
  vb_vm :: "'h vm"

definition blk_tr :: "'h x86_ops \<Rightarrow> u64 \<Rightarrow> 'h vblk \<Rightarrow> u64 option" where
  "blk_tr ops va s = x_translate_addr ops va (hw (mem (vb_vm s)))"

fun store_va :: "'h x86_ops \<Rightarrow> u64 \<Rightarrow> u8 list \<Rightarrow> 'h vblk \<Rightarrow> 'h vblk option" where
  "store_va ops va [] s = Some s"
| "store_va ops va (b # bs) s = do {
     pa \<leftarrow> blk_tr ops va s;
     store_va ops (va + 1) bs (s\<lparr>vb_pm := (vb_pm s)(pa := b)\<rparr>)
   }"

fun load_va :: "'h x86_ops \<Rightarrow> u64 \<Rightarrow> nat \<Rightarrow> 'h vblk \<Rightarrow> u8 list option" where
  "load_va ops va 0 s = Some []"
| "load_va ops va (Suc n) s = do {
     pa \<leftarrow> blk_tr ops va s;
     bs \<leftarrow> load_va ops (va + 1) n s;
     Some (vb_pm s pa # bs)
   }"

text \<open>\<open>VirtioBlkReqHdr\<close>.\<close>

definition blk_req_hdr :: "bool \<Rightarrow> u64 \<Rightarrow> u8 list" where
  "blk_req_hdr is_read sector512 = le32 (if is_read then VIRTIO_BLK_T_IN else VIRTIO_BLK_T_OUT) @ le32 0 @ le64 sector512"

section \<open>The buffer\<close>

text \<open>
  The loop over the pages of the caller's buffer: the last frame when the pages are mapped to consecutive frames, or
  \<open>None\<close>. The outer option is the panic of an addition or of a non-canonical address.
\<close>

fun phys_run :: "'h x86_ops \<Rightarrow> nat \<Rightarrow> u64 \<Rightarrow> u64 option \<Rightarrow> 'h mm \<Rightarrow> u64 option option" where
  "phys_run ops 0 cur_va last_pa_page m = Some last_pa_page"
| "phys_run ops (Suc n) cur_va last_pa_page m = do {
     va \<leftarrow> x_virt ops cur_va;
     t \<leftarrow> translate ops va m;
     case t of
       None \<Rightarrow> Some None
     | Some p \<Rightarrow>
         (let pa = p AND NOT 0xfff in do {
            brk \<leftarrow> (case last_pa_page of None \<Rightarrow> Some False | Some prev \<Rightarrow> do { e \<leftarrow> checked_add prev 4096; Some (pa \<noteq> e) });
            if brk then Some None
            else do { cur_va \<leftarrow> checked_add cur_va 4096; phys_run ops n cur_va (Some pa) m }
          })
   }"

text \<open>
  The base address, the base frame, the offset and whether the data must be copied. The code behind the check is
  that of \<open>alloc_pages_contig\<close>, which may not return: the outer \<open>None\<close>.
\<close>

definition dma_prepare_buffer :: "'h x86_ops \<Rightarrow> u64 \<Rightarrow> nat \<Rightarrow> 'h vm \<Rightarrow> ((u64 \<times> u64 \<times> u64 \<times> bool) \<times> 'h vm) option option" where
  "dma_prepare_buffer ops data len v =
     (case (do {
        end_va \<leftarrow> checked_add data (of_nat (len - 1));
        let start_page = data AND NOT 0xfff;
        let end_page = end_va AND NOT 0xfff;
        lst \<leftarrow> phys_run ops (unat ((end_page - start_page) div 4096) + 1) start_page None (mem v);
        case lst of
          None \<Rightarrow> Some None
        | Some _ \<Rightarrow> do { va \<leftarrow> x_virt ops start_page; t \<leftarrow> translate ops va (mem v); p \<leftarrow> t; Some (Some (p AND NOT 0xfff)) }
      }) of
        None \<Rightarrow> Some None
      | Some (Some first_pa_page) \<Rightarrow> Some (Some ((0, first_pa_page, data AND 0xfff, False), v))
      | Some None \<Rightarrow>
          (case alloc_pages_contig ops ((unat (data AND 0xfff) + len + 4095) div 4096) v of
             None \<Rightarrow> None
           | Some None \<Rightarrow> Some None
           | Some (Some ((va, pa), v)) \<Rightarrow> Some (Some ((va, pa, data AND 0xfff, True), v))))"

section \<open>The transfer\<close>

text \<open>The three descriptors, always the first three of the table.\<close>

definition blk_chain :: "u64 \<Rightarrow> u64 \<Rightarrow> nat \<Rightarrow> bool \<Rightarrow> u64 \<Rightarrow> vring \<Rightarrow> vring" where
  "blk_chain hdr_pa data_pa len is_read status_pa q =
     put_desc 2 \<lparr>dsc_addr = status_pa, dsc_len = 1, dsc_flags = VIRTQ_DESC_F_WRITE, dsc_next = 0\<rparr>
      (put_desc 1 \<lparr>dsc_addr = data_pa, dsc_len = of_nat len, dsc_flags = (if is_read then VIRTQ_DESC_F_WRITE else 0) OR VIRTQ_DESC_F_NEXT, dsc_next = 2\<rparr>
       (put_desc 0 \<lparr>dsc_addr = hdr_pa, dsc_len = 16, dsc_flags = VIRTQ_DESC_F_NEXT, dsc_next = 1\<rparr> q))"

definition blk_page :: "'h x86_ops \<Rightarrow> 'h vblk \<Rightarrow> ((u64 \<times> u64) \<times> 'h vblk) option" where
  "blk_page ops s = do {
     (r, v) \<leftarrow> vm_alloc ops (vb_vm s);
     va \<leftarrow> r;
     t \<leftarrow> translate ops va (mem v);
     pa \<leftarrow> t;
     Some ((va, pa), s\<lparr>vb_vm := v\<rparr>)
   }"

text \<open>The pages of the header and of the status byte: the frame of the one, address and frame of the other.\<close>

definition xfer_pages :: "'h x86_ops \<Rightarrow> u64 \<Rightarrow> bool \<Rightarrow> 'h vblk \<Rightarrow> ((u64 \<times> u64 \<times> u64) \<times> 'h vblk) option" where
  "xfer_pages ops sector512 is_read s = do {
     ((hdr_va, hdr_pa), s) \<leftarrow> blk_page ops s;
     s \<leftarrow> store_va ops hdr_va (blk_req_hdr is_read sector512) s;
     ((status_va, status_pa), s) \<leftarrow> blk_page ops s;
     s \<leftarrow> store_va ops status_va [0x5a] s;
     Some ((hdr_pa, status_va, status_pa), s)
   }"

text \<open>Up to the notification; the result is the address of the status byte.\<close>

definition xfer_post :: "'h x86_ops \<Rightarrow> u64 \<Rightarrow> u64 \<Rightarrow> nat \<Rightarrow> bool \<Rightarrow> 'h vblk \<Rightarrow> (u64 \<times> 'h vblk) option option" where
  "xfer_post ops sector512 data len is_read s =
     (case xfer_pages ops sector512 is_read s of
        None \<Rightarrow> Some None
      | Some ((hdr_pa, status_va, status_pa), s) \<Rightarrow>
          (case dma_prepare_buffer ops data len (vb_vm s) of
             None \<Rightarrow> None
           | Some None \<Rightarrow> Some None
           | Some (Some ((dma_va, dma_pa, dma_off, needs_copy), v)) \<Rightarrow> Some (do {
               let s = s\<lparr>vb_vm := v\<rparr>;
               s \<leftarrow> (if needs_copy \<and> \<not> is_read
                     then do { bs \<leftarrow> load_va ops data len s; a \<leftarrow> checked_add dma_va dma_off; store_va ops a bs s }
                     else Some s);
               data_pa \<leftarrow> checked_add dma_pa dma_off;
               q \<leftarrow> vq_push 0 (blk_chain hdr_pa data_pa len is_read status_pa (vb_q s));
               Some (status_va, s\<lparr>vb_q := notify 0 q\<rparr>)
             })))"

text \<open>The wait has no bound; \<open>step\<close> is what the device does between two looks at the used ring.\<close>

partial_function (option) xfer_wait :: "'h x86_ops \<Rightarrow> ('h vblk \<Rightarrow> 'h vblk) \<Rightarrow> u64 \<Rightarrow> 'h vblk \<Rightarrow> (bool \<times> 'h vblk) option option" where
  "xfer_wait ops step status_va s =
     (case pop_used (vb_q s) of
        None \<Rightarrow> Some None
      | Some (Some u, q) \<Rightarrow>
          Some (do { st \<leftarrow> load_va ops status_va 1 (s\<lparr>vb_q := q\<rparr>); Some (st = [0], s\<lparr>vb_q := q\<rparr>) })
      | Some (None, q) \<Rightarrow> xfer_wait ops step status_va (step (s\<lparr>vb_q := q\<rparr>)))"

definition xfer :: "'h x86_ops \<Rightarrow> ('h vblk \<Rightarrow> 'h vblk) \<Rightarrow> u64 \<Rightarrow> u64 \<Rightarrow> nat \<Rightarrow> bool \<Rightarrow> 'h vblk \<Rightarrow> (bool \<times> 'h vblk) option option" where
  "xfer ops step sector512 data len is_read s =
     (case xfer_post ops sector512 data len is_read s of
        None \<Rightarrow> None
      | Some None \<Rightarrow> Some None
      | Some (Some (status_va, s)) \<Rightarrow> xfer_wait ops step status_va s)"

text \<open>
  \<open>try_attach\<close>, from the result of the negotiation, the queue, the features of the device, and the capacity and block
  size in its configuration area; the capacity in MiB is computed for a message, with an addition that can panic.
\<close>

definition blk_attach :: "bool \<Rightarrow> (u16 \<times> u32 \<times> u16) \<Rightarrow> u64 \<Rightarrow> u64 \<Rightarrow> u32 \<Rightarrow> (u64 \<Rightarrow> u8) \<Rightarrow> 'h vm \<Rightarrow> 'h vblk option option" where
  "blk_attach negotiated q dev_feats capacity_sectors bs pm v =
     (if \<not> negotiated then Some None
      else case setup_queue (fst q) (fst (snd q)) (snd (snd q)) of
        None \<Rightarrow> Some None
      | Some vq0 \<Rightarrow>
          (let blk_size = (if dev_feats AND VIRTIO_BLK_F_BLK_SIZE \<noteq> 0 \<and> bs \<noteq> 0 then bs else 512) in do {
             mib \<leftarrow> checked_add (saturating_mul capacity_sectors 512) 0x100000;
             Some (Some \<lparr>vb_q = vq0, vb_capacity = capacity_sectors, vb_blk_size = blk_size, vb_pm = pm, vb_vm = v\<rparr>)
           }))"

section \<open>Every transfer keeps pages\<close>

definition used_set :: "'h vm \<Rightarrow> nat set" where
  "used_set v = {i. i < pages (arena v) \<and> bits (a_bm (arena v)) i}"

lemma used_set_sub: "used_set v \<subseteq> {..<pages (arena v)}"
  by (auto simp: used_set_def)

lemma finite_used_set: "finite (used_set v)"
  using used_set_sub by (rule finite_subset) simp

lemma card_used_set: "card (used_set v) \<le> pages (arena v)"
  using card_mono [OF _ used_set_sub] by simp

text \<open>\<open>alloc_n\<close> adds the pages of the run and takes none away.\<close>

lemma alloc_n_used:
  assumes "arena_inv ops (arena v)" "alloc_n ops n v = Some (r, v')"
  shows "arena_inv ops (arena v') \<and> pages (arena v') = pages (arena v) \<and> used_set v \<subseteq> used_set v'
    \<and> (r \<noteq> None \<longrightarrow> card (used_set v) + n \<le> card (used_set v'))"
  using alloc_n_cases [OF assms]
proof (elim disjE)
  assume "\<exists>i b. 0 < n \<and> clear_run (a_bm (arena v)) (pages (arena v)) n i
      \<and> (\<forall>j < i. \<not> clear_run (a_bm (arena v)) (pages (arena v)) n j) \<and> r \<in> {None, Some (page_at (arena v) i)}
      \<and> arena v' = (arena v)\<lparr>a_bm := b\<rparr> \<and> capacity_bits b = capacity_bits (a_bm (arena v))
      \<and> bits b = (\<lambda>k. (i \<le> k \<and> k < i + n) \<or> bits (a_bm (arena v)) k)"
  then obtain i b where b: "clear_run (a_bm (arena v)) (pages (arena v)) n i" "arena v' = (arena v)\<lparr>a_bm := b\<rparr>"
      "capacity_bits b = capacity_bits (a_bm (arena v))" "bits b = (\<lambda>k. (i \<le> k \<and> k < i + n) \<or> bits (a_bm (arena v)) k)" by blast
  have clr: "\<not> bits (a_bm (arena v)) k" if "i \<le> k" "k < i + n" for k
    using b(1) that le_Suc_ex [OF that(1)] by (auto simp: clear_run_def)
  have u: "used_set v' = {i..<i + n} \<union> used_set v" "{i..<i + n} \<inter> used_set v = {}"
    using b clr by (auto simp: used_set_def clear_run_def)
  then have "card (used_set v') = n + card (used_set v)"
    using card_Un_disjoint [of "{i..<i + n}" "used_set v"] finite_used_set [of v] by simp
  then show ?thesis using b(2,3) u(1) arena_inv_bm [OF assms(1)] by auto
qed (use assms(1) in auto)

lemma vm_alloc_used:
  assumes "arena_inv ops (arena v)" "vm_alloc ops v = Some (Some va, v')"
  shows "arena_inv ops (arena v') \<and> pages (arena v') = pages (arena v) \<and> card (used_set v) + 1 \<le> card (used_set v')"
  using alloc_n_used [OF assms(1), of 1 "Some va" v'] assms(2) by (auto simp: vm_alloc_def)

lemma store_va_vm: "store_va ops va bs s = Some s' \<Longrightarrow> vb_vm s' = vb_vm s \<and> vb_q s' = vb_q s"
  by (induction bs arbitrary: va s) (fastforce simp: bind_eq_Some_conv)+

lemma dma_prepare_used:
  assumes "arena_inv ops (arena v)" "dma_prepare_buffer ops data len v = Some (Some (r, v'))"
  shows "arena_inv ops (arena v') \<and> pages (arena v') = pages (arena v) \<and> card (used_set v) \<le> card (used_set v')"
proof (cases "v' = v")
  case False
  then obtain n x where x: "alloc_pages_contig ops n v = Some (Some (x, v'))"
    using assms(2) unfolding dma_prepare_buffer_def by (auto split: option.splits)
  then obtain va v1 m where v1: "alloc_n ops n v = Some (Some va, v1)" "v' = v1\<lparr>mem := m\<rparr>"
    by (auto simp: alloc_pages_contig_def bind_eq_Some_conv split: option.splits)
  have "used_set v' = used_set v1" using v1(2) by (simp add: used_set_def)
  then show ?thesis using alloc_n_used [OF assms(1) v1(1)] v1(2) finite_used_set by (auto intro: card_mono)
qed (use assms(1) in simp)

lemma xfer_post_used:
  assumes "arena_inv ops (arena (vb_vm s))" "xfer_post ops sector512 data len is_read s = Some (Some (sv, s'))"
  shows "arena_inv ops (arena (vb_vm s')) \<and> pages (arena (vb_vm s')) = pages (arena (vb_vm s)) \<and> card (used_set (vb_vm s)) + 2 \<le> card (used_set (vb_vm s'))"
proof -
  obtain p1 p2 s4 where x: "xfer_pages ops sector512 is_read s = Some ((p1, sv, p2), s4)"
    and d: "\<exists>r v. dma_prepare_buffer ops data len (vb_vm s4) = Some (Some (r, v)) \<and> vb_vm s' = v"
    using assms(2) unfolding xfer_post_def
    by (fastforce simp: bind_eq_Some_conv Let_def dest: store_va_vm split: option.splits if_splits)
  obtain h1 s1 s2 s3 where
    s: "blk_page ops s = Some ((h1, p1), s1)" "store_va ops h1 (blk_req_hdr is_read sector512) s1 = Some s2" "blk_page ops s2 = Some ((sv, p2), s3)"
      "store_va ops sv [0x5a] s3 = Some s4"
    using x by (auto simp: xfer_pages_def bind_eq_Some_conv)
  have pg: "arena_inv ops (arena (vb_vm s')) \<and> pages (arena (vb_vm s')) = pages (arena (vb_vm s)) \<and> card (used_set (vb_vm s)) + 1 \<le> card (used_set (vb_vm s'))"
    if bp: "blk_page ops s = Some (x, s')" and av: "arena_inv ops (arena (vb_vm s))" for x s s'
  proof -
    obtain va where "vm_alloc ops (vb_vm s) = Some (Some va, vb_vm s')" using bp by (auto simp: blk_page_def bind_eq_Some_conv)
    from vm_alloc_used [OF av this] show ?thesis .
  qed
  note a = pg [OF s(1) assms(1)] and v2 = store_va_vm [OF s(2)] and v4 = store_va_vm [OF s(4)]
  have b: "arena_inv ops (arena (vb_vm s3))" "pages (arena (vb_vm s3)) = pages (arena (vb_vm s))" "card (used_set (vb_vm s)) + 2 \<le> card (used_set (vb_vm s3))"
    using pg [OF s(3)] a v2 by auto
  obtain r v where v: "dma_prepare_buffer ops data len (vb_vm s3) = Some (Some (r, v))" "vb_vm s' = v" using d v4 by auto
  from dma_prepare_used [OF b(1) v(1)] b v(2) show ?thesis by simp
qed

text \<open>The wait ends in a state that the device made.\<close>

lemma xfer_wait_inv:
  assumes "xfer_wait ops step sv s = Some (Some (r, s'))" "P s" "\<And>s q. P s \<Longrightarrow> P (s\<lparr>vb_q := q\<rparr>)" "\<And>s. P s \<Longrightarrow> P (step s)"
  shows "P s'"
proof -
  have "(\<forall>s. P s \<longrightarrow> P (step s)) \<longrightarrow> P s \<longrightarrow> (case x of None \<Rightarrow> True | Some (r, s') \<Rightarrow> P s')" if "xfer_wait ops step sv s = Some x" for x
    using that
  proof (rule xfer_wait.raw_induct [rotated], intro impI)
    fix f ops step sv and s :: "'a vblk" and x
    assume ih: "\<And>ops step sv s x. f ops step sv s = Some x \<Longrightarrow>
        (\<forall>s. P s \<longrightarrow> P (step s)) \<longrightarrow> P s \<longrightarrow> (case x of None \<Rightarrow> True | Some (r, s') \<Rightarrow> P s')"
      and run: "(case pop_used (vb_q s) of None \<Rightarrow> Some None
        | Some (None, q) \<Rightarrow> f ops step sv (step (s\<lparr>vb_q := q\<rparr>))
        | Some (Some u, q) \<Rightarrow> Some (load_va ops sv 1 (s\<lparr>vb_q := q\<rparr>) \<bind> (\<lambda>st. Some (st = [0], s\<lparr>vb_q := q\<rparr>)))) = Some x"
      and st: "\<forall>s. P s \<longrightarrow> P (step s)" "P s"
    show "case x of None \<Rightarrow> True | Some (r, s') \<Rightarrow> P s'"
      using run ih [of ops step sv "step (s\<lparr>vb_q := snd (the (pop_used (vb_q s)))\<rparr>)" x] st assms(3)
      by (auto simp: bind_eq_Some_conv split: option.splits prod.splits)
  qed
  from this [OF assms(1)] assms(2,4) show ?thesis by simp
qed

lemma xfer_wait_vm: "xfer_wait ops step sv s = Some (Some (r, s')) \<Longrightarrow> (\<And>s. vb_vm (step s) = vb_vm s) \<Longrightarrow> vb_vm s' = vb_vm s"
  by (erule xfer_wait_inv [where P = "\<lambda>t. vb_vm t = vb_vm s"]) simp_all

text \<open>A sequence of transfers, each with its sector, buffer, length and direction, all of which return.\<close>

fun xfers :: "'h x86_ops \<Rightarrow> ('h vblk \<Rightarrow> 'h vblk) \<Rightarrow> (u64 \<times> u64 \<times> nat \<times> bool) list \<Rightarrow> 'h vblk \<Rightarrow> bool list \<Rightarrow> 'h vblk \<Rightarrow> bool" where
  "xfers ops step [] s rs s' \<longleftrightarrow> rs = [] \<and> s' = s"
| "xfers ops step ((sector, data, len, rd) # reqs) s rs s' \<longleftrightarrow>
     (case xfer ops step sector data len rd s of
        Some (Some (r, t)) \<Rightarrow> rs \<noteq> [] \<and> hd rs = r \<and> xfers ops step reqs t (tl rs) s'
      | _ \<Rightarrow> False)"

text \<open>A machine with identity translation, and a device that completes at once.\<close>

definition id_ops :: "(u64 \<times> u64) list x86_ops" where
  "id_ops = flat_ops\<lparr>x_translate_addr := \<lambda>va h. Some va\<rparr>"

definition quick_dev :: "(u64 \<times> u64) list vblk \<Rightarrow> (u64 \<times> u64) list vblk" where
  "quick_dev s = s\<lparr>vb_q := dev_complete \<lparr>ue_id = 0, ue_len = 0\<rparr> (vb_q s), vb_pm := (vb_pm s)(0x11000 := 0)\<rparr>"

definition blk0 :: "(u64 \<times> u64) list vblk" where
  "blk0 = \<lparr>vb_q = vq_new 4 0 0, vb_capacity = 100, vb_blk_size = 512, vb_pm = (\<lambda>_. 0), vb_vm = flat_vm 0\<rparr>"

lemma store_va_id: "\<exists>s'. store_va id_ops va bs s = Some s'"
  by (induction bs arbitrary: va s) (simp_all add: blk_tr_def id_ops_def)

lemma flat_alloc_two:
  "\<exists>v1 v2. vm_alloc id_ops (flat_vm 0) = Some (Some 0x10000, v1) \<and> vm_alloc id_ops v1 = Some (Some 0x11000, v2) \<and> mapper_set (mem v1) \<and> mapper_set (mem v2)"
proof -
  have s: "find_run \<lparr>storage = [0]\<rparr> 4 1 = Some (Some 0)" "set_range \<lparr>storage = [0]\<rparr> 0 1 4 True = Some \<lparr>storage = [1]\<rparr>"
    "find_run \<lparr>storage = [1]\<rparr> 4 1 = Some (Some 1)" "set_range \<lparr>storage = [1]\<rparr> 1 2 4 True = Some \<lparr>storage = [3]\<rparr>"
    by code_simp+
  show ?thesis
    by (simp add: vm_alloc_def alloc_n_def flat_vm_def id_ops_def flat_ops_def assert_that_def Let_def flat_scan page_va_def s
      checked_mul_def checked_add_def frame_alloc_def try_alloc_def phys_of_idx_def map_fixed_def align4k_def
      s [unfolded One_nat_def numeral_2_eq_2] flat_scan [unfolded One_nat_def numeral_2_eq_2 numeral_3_eq_3])
qed

lemma blk0_transfer: "\<exists>s'. xfer id_ops quick_dev 0 0x20000 512 True blk0 = Some (Some (True, s'))"
proof -
  obtain v1 v2 where v: "vm_alloc id_ops (flat_vm 0) = Some (Some 0x10000, v1)" "vm_alloc id_ops v1 = Some (Some 0x11000, v2)" "mapper_set (mem v1)" "mapper_set (mem v2)"
    using flat_alloc_two by blast
  have t: "translate id_ops a (mem v) = Some (Some a)" if "mapper_set (mem v)" for a and v :: "(u64 \<times> u64) list vm"
    using that by (simp add: translate_def assert_that_def id_ops_def)
  obtain s2 where s2: "store_va id_ops 0x10000 (blk_req_hdr True 0) (blk0\<lparr>vb_vm := v1\<rparr>) = Some s2" using store_va_id by blast
  have v2: "vb_vm s2 = v1" "vb_q s2 = vb_q blk0" using store_va_vm [OF s2] by simp_all
  obtain s4 where s4: "store_va id_ops 0x11000 [0x5a] (s2\<lparr>vb_vm := v2\<rparr>) = Some s4" using store_va_id by blast
  have v4: "vb_vm s4 = v2" "vb_q s4 = vq_new 4 0 0" using store_va_vm [OF s4] v2(2) by (simp_all add: blk0_def)
  have bv: "vb_vm blk0 = flat_vm 0" by (simp add: blk0_def)
  have pg: "xfer_pages id_ops 0 True blk0 = Some ((0x10000, 0x11000, 0x11000), s4)"
    unfolding xfer_pages_def blk_page_def bv using v t s2 v2 s4 by (simp del: store_va.simps)
  have a: "(0x20000 :: u64) AND NOT 0xfff = 0x20000" "(0x201FF :: u64) AND NOT 0xfff = 0x20000" "(0x20000 :: u64) AND 0xfff = 0" by code_simp+
  have d: "dma_prepare_buffer id_ops 0x20000 512 v2 = Some (Some ((0, 0x20000, 0, False), v2))"
    unfolding dma_prepare_buffer_def using a t [OF v(4)] by (simp add: checked_add_def Let_def) (simp add: id_ops_def flat_ops_def)
  let ?q = "notify 0 (the (vq_push 0 (blk_chain 0x10000 0x20000 512 True 0x11000 (vq_new 4 0 0))))"
  let ?p = "s4\<lparr>vb_q := ?q\<rparr>"
  have post: "xfer_post id_ops 0 0x20000 512 True blk0 = Some (Some (0x11000, ?p))"
    unfolding xfer_post_def using pg d v4 by (simp add: checked_add_def vq_push_def Let_def blk_chain_def put_desc_def vq_new_def)
  have q1: "pop_used ?q = Some (None, ?q)" by (simp add: pop_used_def vq_push_def Let_def notify_def blk_chain_def put_desc_def vq_new_def)
  let ?r = "quick_dev ?p"
  have q2: "pop_used (vb_q ?r) = Some (Some \<lparr>ue_id = 0, ue_len = 0\<rparr>, (vb_q ?r)\<lparr>v_last_used := 1\<rparr>)"
    by (simp add: quick_dev_def pop_used_def dev_complete_def vq_push_def Let_def notify_def blk_chain_def put_desc_def vq_new_def)
  have "load_va id_ops 0x11000 1 (?r\<lparr>vb_q := q\<rparr>) = Some [0]" for q by (simp add: blk_tr_def id_ops_def quick_dev_def)
  then have "\<exists>s'. xfer_wait id_ops quick_dev 0x11000 ?r = Some (Some (True, s'))" using q2 by (subst xfer_wait.simps) simp
  then have "\<exists>s'. xfer_wait id_ops quick_dev 0x11000 ?p = Some (Some (True, s'))" using q1 by (subst xfer_wait.simps) simp
  then show ?thesis using post by (simp add: xfer_def)
qed

text \<open>
  C24: The driver never gives back the two pages it takes for the header and the status of a request. Whatever the
  device does and whatever is read or written, after \<open>n\<close> transfers that returned, successful or not, \<open>2 * n\<close> more
  pages of the kernel's arena are in use; so no more than half as many transfers as the arena has pages ever
  return, and the next one panics or hangs.
\<close>

theorem transfers_exhaust_arena:
  assumes "arena_inv ops (arena (vb_vm s))" and "\<And>s. vb_vm (step s) = vb_vm s" and "xfers ops step reqs s rs s'"
  shows "card (used_set (vb_vm s)) + 2 * length reqs \<le> card (used_set (vb_vm s')) \<and> 2 * length reqs \<le> pages (arena (vb_vm s))"
proof -
  have "card (used_set (vb_vm s)) + 2 * length reqs \<le> card (used_set (vb_vm s')) \<and> pages (arena (vb_vm s')) = pages (arena (vb_vm s))"
    using assms(1,3)
  proof (induction reqs arbitrary: s rs)
    case (Cons q reqs)
    obtain sector data len rd where q: "q = (sector, data, len, rd)" by (metis surj_pair)
    obtain r t where t: "xfer ops step sector data len rd s = Some (Some (r, t))" "xfers ops step reqs t (tl rs) s'"
      using Cons.prems(2) q by (auto split: option.splits)
    obtain sv p where p: "xfer_post ops sector data len rd s = Some (Some (sv, p))" "xfer_wait ops step sv p = Some (Some (r, t))"
      using t(1) by (auto simp: xfer_def split: option.splits)
    have "vb_vm t = vb_vm p" using xfer_wait_vm [OF p(2)] assms(2) by blast
    with xfer_post_used [OF Cons.prems(1) p(1)] have
      u: "arena_inv ops (arena (vb_vm t))" "pages (arena (vb_vm t)) = pages (arena (vb_vm s))" "card (used_set (vb_vm s)) + 2 \<le> card (used_set (vb_vm t))" by simp_all
    from Cons.IH [OF u(1) t(2)] u(2,3) show ?case by simp
  qed simp
  then show ?thesis using card_used_set [of "vb_vm s'"] by linarith
qed

theorem transfers_exhaust_arena_witness:
  "\<exists>s'. xfers id_ops quick_dev [(0, 0x20000, 512, True)] blk0 [True] s' \<and> card (used_set (vb_vm blk0)) + 2 \<le> card (used_set (vb_vm s'))"
proof -
  obtain s' where x: "xfers id_ops quick_dev [(0, 0x20000, 512, True)] blk0 [True] s'" using blk0_transfer by auto
  have "arena_inv id_ops (arena (vb_vm blk0))" using flat_vm_ok [of 0] by (simp add: vm_ok_def blk0_def id_ops_def arena_inv_def virt_accepted_def)
  moreover have "vb_vm (quick_dev s) = vb_vm s" for s by (simp add: quick_dev_def)
  ultimately show ?thesis using transfers_exhaust_arena [OF _ _ x] x by auto
qed

section \<open>Direct transfers\<close>

text \<open>
  What is relied on of the \<open>x86_64\<close> crate: \<open>VirtAddr::new\<close> returns canonical addresses as they are, a translation keeps
  the offset in the page, and frames are aligned and below 2^52.
\<close>

definition page_offsets :: "'h x86_ops \<Rightarrow> bool" where
  "page_offsets ops \<longleftrightarrow> (\<forall>a b. x_virt ops a = Some b \<longrightarrow> b = a)
     \<and> (\<forall>va h. x_translate_addr ops va h = map_option (\<lambda>p. p + (va AND 0xfff)) (x_translate_addr ops (va AND NOT 0xfff) h))
     \<and> (\<forall>va h p. x_translate_addr ops (va AND NOT 0xfff) h = Some p \<longrightarrow> 4096 dvd unat p \<and> unat p < 2 ^ 52)"

lemma phys_run_iff:
  assumes "page_offsets ops" "mapper_set m" "0 < n" "4096 dvd unat cur" "unat cur + n * 4096 < 2 ^ 64"
    and "\<forall>j < n. x_virt ops (cur + of_nat j * 4096) \<noteq> None" and "\<forall>prev. lst = Some prev \<longrightarrow> unat prev < 2 ^ 52"
  shows "\<exists>r. phys_run ops n cur lst m = Some r \<and> (r \<noteq> None \<longleftrightarrow>
    (\<exists>f. (\<forall>j < n. x_translate_addr ops (cur + of_nat j * 4096) (hw m) = Some (f + of_nat j * 4096)) \<and> (\<forall>prev. lst = Some prev \<longrightarrow> f = prev + 4096)))"
  using assms(3-7)
proof (induction n arbitrary: cur lst)
  case (Suc n)
  have v: "x_virt ops cur = Some cur"
  proof -
    obtain b where "x_virt ops cur = Some b" using Suc.prems(4) [rule_format, of 0] by auto
    then show ?thesis using assms(1) by (auto simp: page_offsets_def)
  qed
  let ?T = "\<lambda>j. x_translate_addr ops (cur + of_nat j * 4096) (hw m)"
  show ?case
  proof (cases "x_translate_addr ops cur (hw m)")
    case None
    then show ?thesis using v assms(2) by (auto simp: translate_def assert_that_def intro!: exI [of _ None] dest: spec [of _ 0])
  next
    case (Some p)
    have c0: "cur AND NOT 0xfff = cur" using page_offset(1) [OF Suc.prems(2), of 0] by simp
    then have p: "4096 dvd unat p" "unat p < 2 ^ 52" using assms(1) Some unfolding page_offsets_def by metis+
    have pp: "p AND NOT 0xfff = p" using page_offset(1) [OF p(1), of 0] by simp
    have pv: "checked_add prev 4096 = Some (prev + 4096)" if "lst = Some prev" for prev
      using Suc.prems(5) that by (simp add: checked_add_def)
    have nx: "checked_add cur 4096 = Some (cur + 4096)" "unat (cur + 4096) = unat cur + 4096"
      using Suc.prems(3) by (simp_all add: checked_add_def unat_word_ariths)
    have step: "phys_run ops (Suc n) cur lst m = (if \<exists>prev. lst = Some prev \<and> p \<noteq> prev + 4096 then Some None else phys_run ops n (cur + 4096) (Some p) m)"
      using v Some assms(2) pv nx(1) pp by (cases lst) (auto simp: translate_def assert_that_def Let_def)
    have T0: "?T 0 = Some p" using Some by simp
    show ?thesis
    proof (cases "\<exists>prev. lst = Some prev \<and> p \<noteq> prev + 4096")
      case True
      then show ?thesis using step T0 by (auto intro!: exI [of _ None] dest: spec [of _ 0])
    next
      case ok: False
      show ?thesis
      proof (cases "n = 0")
        case True
        then show ?thesis using step ok T0 by (auto intro!: exI [of _ "Some p"] exI [of _ p])
      next
        case False
        have al: "4096 dvd unat (cur + 4096)" using Suc.prems(2) nx(2) by simp
        have sh: "cur + 4096 + of_nat j * 4096 = cur + of_nat (Suc j) * 4096" "p + 4096 + of_nat j * 4096 = p + of_nat (Suc j) * 4096" for j by (simp_all add: algebra_simps)
        have "\<forall>j < n. x_virt ops (cur + 4096 + of_nat j * 4096) \<noteq> None" unfolding sh using Suc.prems(4) by (meson Suc_less_eq)
        from Suc.IH [OF _ al _ this, of "Some p"] False Suc.prems(3) nx(2) p(2) obtain r where
          r: "phys_run ops n (cur + 4096) (Some p) m = Some r"
            "r \<noteq> None \<longleftrightarrow> (\<forall>j < n. ?T (Suc j) = Some (p + of_nat (Suc j) * 4096))" unfolding sh [symmetric] by auto
        have "(\<forall>j < Suc n. ?T j = Some (f + of_nat j * 4096)) \<longleftrightarrow> f = p \<and> (\<forall>j < n. ?T (Suc j) = Some (p + of_nat (Suc j) * 4096))" for f
          using T0 by (auto simp: All_less_Suc2)
        then show ?thesis using r step ok by auto
      qed
    qed
  qed
qed simp

lemma byte_translation:
  assumes "page_offsets ops" "4096 dvd unat p" "r < 4096"
  shows "x_translate_addr ops (p + of_nat r) h = map_option (\<lambda>f. f + of_nat r) (x_translate_addr ops p h)"
  using assms(1) page_offset [OF assms(2,3)] unfolding page_offsets_def by metis

text \<open>The pages of a buffer follow each other in physical memory exactly when its bytes do.\<close>

lemma pages_iff_bytes:
  assumes "page_offsets ops" "4096 dvd unat p" "off < 4096" "0 < len"
  shows "(\<forall>j < (off + len - 1) div 4096 + 1. x_translate_addr ops (p + of_nat j * 4096) h = Some (f + of_nat j * 4096))
    \<longleftrightarrow> (\<forall>i < len. x_translate_addr ops (p + of_nat off + of_nat i) h = Some (f + of_nat off + of_nat i))" (is "?P \<longleftrightarrow> ?B")
proof -
  have sp: "q + of_nat off + of_nat i = q + of_nat ((off + i) div 4096) * 4096 + of_nat ((off + i) mod 4096)" for q :: u64 and i
  proof -
    have "(of_nat (off + i) :: u64) = of_nat ((off + i) div 4096 * 4096 + (off + i) mod 4096)" by simp
    then show ?thesis by (simp only: of_nat_add of_nat_mult) simp
  qed
  have tr: "x_translate_addr ops (p + of_nat off + of_nat i) h =
      map_option (\<lambda>g. g + of_nat ((off + i) mod 4096)) (x_translate_addr ops (p + of_nat ((off + i) div 4096) * 4096) h)" for i
    unfolding sp [of p] by (rule byte_translation [OF assms(1) aligned_add [OF assms(2)]]) simp
  show ?thesis
  proof
    assume P: ?P
    show ?B
    proof (intro allI impI)
      fix i assume "i < len"
      then have "(off + i) div 4096 < (off + len - 1) div 4096 + 1" by (simp add: div_le_mono less_Suc_eq_le)
      with P have "x_translate_addr ops (p + of_nat ((off + i) div 4096) * 4096) h = Some (f + of_nat ((off + i) div 4096) * 4096)" by blast
      then show "x_translate_addr ops (p + of_nat off + of_nat i) h = Some (f + of_nat off + of_nat i)" unfolding tr sp [of f] by simp
    qed
  next
    assume B: ?B
    show ?P
    proof (intro allI impI)
      fix j assume j: "j < (off + len - 1) div 4096 + 1"
      define i where "i = j * 4096 - off"
      have jle: "j * 4096 \<le> off + len - 1" using j div_times_less_eq_dividend [of "off + len - 1" 4096] mult_le_mono1 [of j "(off + len - 1) div 4096" 4096] by linarith
      have i: "i < len" "(off + i) div 4096 = j"
      proof -
        show "i < len" using jle assms(4) unfolding i_def by linarith
        show "(off + i) div 4096 = j"
        proof (cases "j = 0")
          case False
          then have "off + i = j * 4096" using assms(3) by (cases j) (auto simp: i_def)
          then show ?thesis by simp
        qed (use assms(3) in \<open>simp add: i_def\<close>)
      qed
      from B i(1) have "x_translate_addr ops (p + of_nat off + of_nat i) h = Some (f + of_nat off + of_nat i)" by blast
      then obtain g where g: "x_translate_addr ops (p + of_nat j * 4096) h = Some g" "g + of_nat ((off + i) mod 4096) = f + of_nat j * 4096 + of_nat ((off + i) mod 4096)"
        unfolding tr sp [of f] i(2) by auto
      then show "x_translate_addr ops (p + of_nat j * 4096) h = Some (f + of_nat j * 4096)" by simp
    qed
  qed
qed

lemma buffer_pages:
  assumes "0 < len" "unat (data :: u64) + len < 2 ^ 64"
  shows "checked_add data (of_nat (len - 1)) = Some (data + of_nat (len - 1))"
    "unat ((((data + of_nat (len - 1)) AND NOT 0xfff) - (data AND NOT 0xfff)) div 4096) + 1 = (unat data mod 4096 + len - 1) div 4096 + 1"
    "data = (data AND NOT 0xfff) + of_nat (unat data mod 4096)" "4096 dvd unat (data AND NOT 0xfff)"
proof -
  let ?D = "unat data" and ?e = "data + of_nat (len - 1)"
  have l: "unat (of_nat (len - 1) :: u64) = len - 1" using assms by (simp only: unat_of_nat) simp
  show "checked_add data (of_nat (len - 1)) = Some ?e" using assms l by (simp add: checked_add_def)
  have e: "unat ?e = ?D + (len - 1)" using assms l by (simp add: unat_word_ariths)
  have s: "unat (data AND NOT 0xfff) = ?D div 4096 * 4096" unfolding and_fff(2) by (simp add: minus_mod_eq_div_mult)
  then show "4096 dvd unat (data AND NOT 0xfff)" by simp
  have s': "unat (?e AND NOT 0xfff) = (?D + (len - 1)) div 4096 * 4096" unfolding and_fff(2) e by (simp add: minus_mod_eq_div_mult)
  have le: "?D div 4096 \<le> (?D + (len - 1)) div 4096" by (simp add: div_le_mono)
  have "unat ((?e AND NOT 0xfff) - (data AND NOT 0xfff)) = (?D + (len - 1)) div 4096 * 4096 - ?D div 4096 * 4096"
    using s s' le by (simp add: unat_sub word_le_nat_alt)
  then have "unat (((?e AND NOT 0xfff) - (data AND NOT 0xfff)) div 4096) = (?D + (len - 1)) div 4096 - ?D div 4096"
    by (simp add: unat_div_distrib flip: diff_mult_distrib)
  moreover have "(?D + (len - 1)) div 4096 = ?D div 4096 + (?D mod 4096 + len - 1) div 4096"
  proof -
    have "?D + (len - 1) = ?D div 4096 * 4096 + (?D mod 4096 + (len - 1))" by simp
    then have "(?D + (len - 1)) div 4096 = (?D div 4096 * 4096 + (?D mod 4096 + (len - 1))) div 4096" by metis
    also have "\<dots> = ?D div 4096 + (?D mod 4096 + (len - 1)) div 4096" by (simp only: div_mult_self3)
    finally show ?thesis using assms(1) by simp
  qed
  ultimately show "unat (((?e AND NOT 0xfff) - (data AND NOT 0xfff)) div 4096) + 1 = (?D mod 4096 + len - 1) div 4096 + 1" by simp
  have "?D mod 4096 < 2 ^ 64" using mod_less_divisor [of 4096 ?D] by simp
  then have "unat (of_nat (?D mod 4096) :: u64) = ?D mod 4096" by (simp only: unat_of_nat) simp
  then show "data = (data AND NOT 0xfff) + of_nat (?D mod 4096)"
    using s assms by (simp add: word_unat_eq_iff unat_word_ariths)
qed

text \<open>A machine whose translations keep the offset and whose virtual addresses are canonical, and a buffer in the kernel half
  over two pages in consecutive frames.\<close>

definition off_ops :: "(u64 \<times> u64) list x86_ops" where
  "off_ops = flat_ops\<lparr>x_virt := (\<lambda>a. if a < 0x0000800000000000 \<or> a \<ge> 0xffff800000000000 then Some a else None),
     x_translate_addr := \<lambda>va h. map_option (\<lambda>p. of_nat (unat p div 4096 mod 2 ^ 40 * 4096) + (va AND 0xfff)) (map_of h (va AND NOT 0xfff))\<rparr>"

definition off_vm :: "(u64 \<times> u64) list vm" where
  "off_vm = (flat_vm 0)\<lparr>mem := (mem (flat_vm 0))\<lparr>hw := [(0xFFFFFF0000020000, 0x9000), (0xFFFFFF0000021000, 0xA000)]\<rparr>\<rparr>"

lemma off_ops_ok: "page_offsets off_ops"
proof -
  have "unat (of_nat (k mod 2 ^ 40 * 4096) :: u64) = k mod 2 ^ 40 * 4096" for k :: nat
  proof -
    have "k mod 2 ^ 40 < 2 ^ 40" by simp
    then have "k mod 2 ^ 40 * 4096 < 2 ^ 64" by simp
    then show ?thesis by (simp only: unat_of_nat) simp
  qed
  moreover have "k mod 2 ^ 40 * 4096 < 2 ^ 52" for k :: nat
  proof -
    have "k mod 2 ^ 40 < 2 ^ 40" by simp
    then show ?thesis by simp
  qed
  moreover have "(va AND NOT 0xfff) AND NOT 0xfff = va AND NOT 0xfff" "(va AND NOT 0xfff) AND 0xfff = 0" for va :: u64
  proof -
    have "4096 dvd unat (va AND NOT 0xfff)" unfolding and_fff(2) minus_mod_eq_div_mult by simp
    from page_offset [OF this, of 0] show "(va AND NOT 0xfff) AND NOT 0xfff = va AND NOT 0xfff" "(va AND NOT 0xfff) AND 0xfff = 0" by simp_all
  qed
  ultimately show ?thesis unfolding page_offsets_def off_ops_def by (auto simp: flat_ops_def option.map_comp comp_def)
qed

text \<open>
  C23: A buffer is handed to the device as it is exactly when it is one piece of physical memory. The driver's walk over
  the pages finds that the bytes of a buffer are mapped to consecutive physical addresses if and only if they are,
  and then the address it computes for the device is that of the first byte and nothing is allocated. The pages of the buffer must be canonical
  addresses, which is what \<open>VirtAddr::new\<close> accepts, in either half of the address space, and the buffer may not
  reach the last page.
\<close>

theorem dma_direct_iff:
  assumes "page_offsets ops" and "mapper_set (mem v)" and "0 < len" and "unat data + len + 4096 < 2 ^ 64"
    and "\<And>a. unat data div 4096 * 4096 \<le> unat a \<Longrightarrow> unat a < unat data + len \<Longrightarrow> x_virt ops a \<noteq> None"
  shows "(\<exists>va pa off. dma_prepare_buffer ops data len v = Some (Some ((va, pa, off, False), v)) \<and> pa + off = f)
    \<longleftrightarrow> (\<forall>i < len. x_translate_addr ops (data + of_nat i) (hw (mem v)) = Some (f + of_nat i))"
proof -
  define off where "off = unat data mod 4096"
  define p where "p = data AND NOT 0xfff"
  define n where "n = (off + len - 1) div 4096 + 1"
  have len: "unat data + len < 2 ^ 64" using assms(4) by simp
  note bp = buffer_pages [OF assms(3) len, folded p_def off_def]
  have o: "off < 4096" "data AND 0xfff = of_nat off" by (simp_all add: off_def and_fff(1))
  have up: "unat p + off = unat data" unfolding p_def off_def and_fff(2) by simp
  have nl: "(n - 1) * 4096 \<le> off + len - 1" unfolding n_def using div_times_less_eq_dividend [of "off + len - 1" 4096] by simp
  have lt: "unat p + n * 4096 < 2 ^ 64" using nl up assms(3,4) by (simp add: n_def)
  have vi: "x_virt ops (p + of_nat j * 4096) \<noteq> None" if "j < n" for j
  proof -
    have "j * 4096 \<le> (n - 1) * 4096" using that by (intro mult_le_mono1) simp
    then have jj: "unat p + j * 4096 < unat data + len" using nl up assms(3) by linarith
    have "p + of_nat j * 4096 = of_nat (unat p + j * 4096)" by simp
    then have "unat (p + of_nat j * 4096) = unat p + j * 4096" using jj len by (simp only: unat_of_nat) simp
    moreover have "unat data div 4096 * 4096 = unat p" using up by (simp add: off_def minus_mod_eq_div_mult [symmetric])
    ultimately show ?thesis using assms(5) jj by simp
  qed
  have xp: "x_virt ops p = Some p" using vi [of 0] assms(1) by (auto simp: n_def page_offsets_def)
  obtain r where r: "phys_run ops n p None (mem v) = Some r"
      "r \<noteq> None \<longleftrightarrow> (\<exists>g. \<forall>j < n. x_translate_addr ops (p + of_nat j * 4096) (hw (mem v)) = Some (g + of_nat j * 4096))"
    using phys_run_iff [OF assms(1,2) _ bp(4) lt, of None] vi by (auto simp: n_def)
  have pages: "(\<forall>j < n. x_translate_addr ops (p + of_nat j * 4096) (hw (mem v)) = Some (g + of_nat j * 4096))
      \<longleftrightarrow> (\<forall>i < len. x_translate_addr ops (data + of_nat i) (hw (mem v)) = Some (g + of_nat off + of_nat i))" for g
    using pages_iff_bytes [OF assms(1) bp(4) o(1) assms(3), of "hw (mem v)" g] unfolding n_def [symmetric] bp(3) [symmetric] .
  have n1: "unat ((((data + of_nat (len - 1)) AND NOT 0xfff) - p) div 4096) + 1 = n" using bp(2) by (simp add: n_def)
  have D: "dma_prepare_buffer ops data len v =
      (case (case r of None \<Rightarrow> Some None
         | Some _ \<Rightarrow> do { va \<leftarrow> x_virt ops p; t \<leftarrow> translate ops va (mem v); q \<leftarrow> t; Some (Some (q AND NOT 0xfff)) }) of
        None \<Rightarrow> Some None
      | Some (Some first_pa_page) \<Rightarrow> Some (Some ((0, first_pa_page, data AND 0xfff, False), v))
      | Some None \<Rightarrow>
          (case alloc_pages_contig ops ((unat (data AND 0xfff) + len + 4095) div 4096) v of
             None \<Rightarrow> None
           | Some None \<Rightarrow> Some None
           | Some (Some ((va, pa), v)) \<Rightarrow> Some (Some ((va, pa, data AND 0xfff, True), v))))"
    unfolding dma_prepare_buffer_def bp(1) Option.bind.bind_lunit Let_def p_def [symmetric] n1 r(1) by (rule refl)
  show ?thesis
  proof (cases r)
    case None
    then have "\<not> (\<forall>i < len. x_translate_addr ops (data + of_nat i) (hw (mem v)) = Some (f + of_nat i))"
      using r(2) pages [of "f - of_nat off"] by auto
    moreover have "\<not> (\<exists>va pa off. dma_prepare_buffer ops data len v = Some (Some ((va, pa, off, False), v)))"
      unfolding D using None by (auto split: option.splits)
    ultimately show ?thesis by blast
  next
    case (Some l)
    then obtain g where g: "\<forall>j < n. x_translate_addr ops (p + of_nat j * 4096) (hw (mem v)) = Some (g + of_nat j * 4096)" using r(2) by auto
    then have g0: "x_translate_addr ops p (hw (mem v)) = Some g" by (auto simp: n_def dest: spec [of _ 0])
    have "p AND NOT 0xfff = p" using page_offset(1) [OF bp(4), of 0] by simp
    then have "4096 dvd unat g" using g0 assms(1) unfolding page_offsets_def by metis
    then have "g AND NOT 0xfff = g" using page_offset(1) [of g 0] by simp
    then have d: "dma_prepare_buffer ops data len v = Some (Some ((0, g, data AND 0xfff, False), v))"
      unfolding D using Some xp g0 assms(2) by (simp add: translate_def assert_that_def)
    have "(\<forall>i < len. x_translate_addr ops (data + of_nat i) (hw (mem v)) = Some (f + of_nat i)) \<longleftrightarrow> f = g + of_nat off"
      using pages [of g] g assms(3) by (auto dest: spec [of _ 0])
    then show ?thesis using d o(2) by auto
  qed
qed

theorem dma_direct_iff_witness:
  "\<exists>va pa off. dma_prepare_buffer off_ops 0xFFFFFF0000020100 4096 off_vm = Some (Some ((va, pa, off, False), off_vm)) \<and> pa + off = 0x9100"
proof -
  have n: "(0x100 + 4096 - 1) div 4096 + 1 = (2 :: nat)" by simp
  have p: "0xFFFFFF0000020000 AND NOT 0xfff = (0xFFFFFF0000020000 :: u64)" "0xFFFFFF0000021000 AND NOT 0xfff = (0xFFFFFF0000021000 :: u64)" "0xFFFFFF0000020000 AND 0xfff = (0 :: u64)" "0xFFFFFF0000021000 AND 0xfff = (0 :: u64)" by code_simp+
  have "\<forall>j < (0x100 + 4096 - 1) div 4096 + 1. x_translate_addr off_ops (0xFFFFFF0000020000 + of_nat j * 4096) (hw (mem off_vm)) = Some (0x9000 + of_nat j * 4096)"
    unfolding n using p by (auto simp: less_2_cases_iff off_ops_def off_vm_def)
  then have "\<forall>i < 4096. x_translate_addr off_ops (0xFFFFFF0000020000 + of_nat 0x100 + of_nat i) (hw (mem off_vm)) = Some (0x9000 + of_nat 0x100 + of_nat i)"
    using pages_iff_bytes [OF off_ops_ok, of "0xFFFFFF0000020000" "0x100" 4096 "hw (mem off_vm)" "0x9000"] by simp
  then have "\<forall>i < 4096. x_translate_addr off_ops (0xFFFFFF0000020100 + of_nat i) (hw (mem off_vm)) = Some (0x9100 + of_nat i)" by simp
  moreover have "mapper_set (mem off_vm)" by (simp add: off_vm_def flat_vm_def)
  moreover have "x_virt off_ops a \<noteq> None" if "0xFFFFFF0000020000 \<le> unat a" for a
    using that by (simp add: off_ops_def word_le_nat_alt)
  ultimately show ?thesis using dma_direct_iff [OF off_ops_ok, of off_vm 4096 "0xFFFFFF0000020100" "0x9100"] by simp
qed

text \<open>
  A read into any other buffer: the data ends up in the pages that the driver allocated, and nothing copies it to the
  caller. The call writes only the header and the status, so whatever bytes \<open>A\<close> of physical memory the device leaves
  alone, those of the caller's buffer among them, are as they were before the wait.
\<close>

lemma bounced_read_not_copied:
  assumes "xfer_post ops sector512 data len True s = Some (Some (sv, p))" "xfer_wait ops step sv p = Some (Some (r, s'))"
    and "\<And>s a. a \<in> A \<Longrightarrow> vb_pm (step s) a = vb_pm s a"
  shows "\<exists>x t. xfer_pages ops sector512 True s = Some (x, t) \<and> (\<forall>a \<in> A. vb_pm s' a = vb_pm t a)"
proof -
  obtain x t where x: "xfer_pages ops sector512 True s = Some (x, t)" "vb_pm p = vb_pm t"
    using assms(1) by (auto simp: xfer_post_def Let_def bind_eq_Some_conv split: option.splits)
  have "\<forall>a \<in> A. vb_pm s' a = vb_pm p a"
    by (rule xfer_wait_inv [OF assms(2), where P = "\<lambda>t. \<forall>a \<in> A. vb_pm t a = vb_pm p a"]) (simp_all add: assms(3))
  then show ?thesis using x by metis
qed

end
