(* ===== verification/Dns.thy ===== *)
theory Dns
  imports Errno Vfs_Path
begin

text \<open>
  \<^verbatim>\<open>user/rlibc/src/dns.rs\<close>: the stub resolver of user programs. A string is its bytes. The datagrams come from the network
  calls, whose results are an argument: the result of sending, and the sequence of what the receiving calls return.
\<close>

type_synonym ipv4 = "u8 list"

definition DNS_SERVER_QEMU_USER :: ipv4 where "DNS_SERVER_QEMU_USER = [10, 0, 2, 3]"
definition DNS_PORT :: u16 where "DNS_PORT = 53"
definition DNS_LOCAL_PORT_BASE :: u16 where "DNS_LOCAL_PORT_BASE = 53000"
definition DNS_TYPE_A :: u16 where "DNS_TYPE_A = 1"
definition DNS_CLASS_IN :: u16 where "DNS_CLASS_IN = 1"

text \<open>The length of the buffer that \<open>resolve_a_all_with_server\<close> receives into.\<close>

definition DNS_BUF_LEN :: nat where "DNS_BUF_LEN = 512"

definition DOT :: u8 where "DOT = 0x2e"

fun push_labels :: "u8 list list \<Rightarrow> u8 list \<Rightarrow> i64 + u8 list" where
  "push_labels [] out = Inr out"
| "push_labels (label # ls) out =
     (if label = [] \<or> length label > 63 then Inl EINVAL
      else push_labels ls (out @ of_nat (length label) # label))"

definition build_query :: "u8 list \<Rightarrow> u16 \<Rightarrow> i64 + u8 list" where
  "build_query name qid =
     (if name = [] \<or> length name > 253 then Inl EINVAL
      else case push_labels (split_on DOT name) (be16 qid @ be16 0x0100 @ be16 1 @ be16 0 @ be16 0 @ be16 0) of
        Inl e \<Rightarrow> Inl e
      | Inr out \<Rightarrow> Inr (out @ [0] @ be16 DNS_TYPE_A @ be16 DNS_CLASS_IN))"

function skip_loop :: "u8 list \<Rightarrow> nat \<Rightarrow> nat \<Rightarrow> nat option" where
  "skip_loop buf off jumps =
     (if off \<ge> length buf then None
      else let len = buf ! off in
        if len AND 0xc0 = 0xc0 then (if off + 1 \<ge> length buf then None else Some (off + 2))
        else if len = 0 then Some (off + 1)
        else if len AND 0xc0 \<noteq> 0 then None
        else if jumps + 1 > 128 then None
        else skip_loop buf (off + 1 + unat len) (jumps + 1))"
  by pat_completeness auto
termination
  by (relation "measure (\<lambda>(buf, off, jumps). length buf - off)") auto

declare skip_loop.simps [simp del]

definition skip_name :: "u8 list \<Rightarrow> nat \<Rightarrow> nat option" where
  "skip_name buf off = skip_loop buf off 0"

fun skip_questions :: "u8 list \<Rightarrow> nat \<Rightarrow> nat \<Rightarrow> i64 + nat" where
  "skip_questions buf 0 off = Inr off"
| "skip_questions buf (Suc n) off =
     (case skip_name buf off of
        None \<Rightarrow> Inl EINVAL
      | Some off \<Rightarrow> if off + 4 > length buf then Inl EINVAL else skip_questions buf n (off + 4))"

definition contains_ip :: "ipv4 list \<Rightarrow> ipv4 \<Rightarrow> bool" where
  "contains_ip ips ip \<longleftrightarrow> list_ex (\<lambda>existing. existing = ip) ips"

fun read_answers :: "u8 list \<Rightarrow> nat \<Rightarrow> nat \<Rightarrow> ipv4 list \<Rightarrow> i64 + ipv4 list" where
  "read_answers buf 0 off ips = Inr ips"
| "read_answers buf (Suc n) off ips =
     (case skip_name buf off of
        None \<Rightarrow> Inl EINVAL
      | Some off \<Rightarrow>
          if off + 10 > length buf then Inl EINVAL
          else let rr_type = from_be16 (buf ! off) (buf ! (off + 1));
                   rr_class = from_be16 (buf ! (off + 2)) (buf ! (off + 3));
                   rdlen = unat (from_be16 (buf ! (off + 8)) (buf ! (off + 9)));
                   off = off + 10 in
            if off + rdlen > length buf then Inl EINVAL
            else let ips = (if rr_type = DNS_TYPE_A \<and> rr_class = DNS_CLASS_IN \<and> rdlen = 4
                       then let ip = [buf ! off, buf ! (off + 1), buf ! (off + 2), buf ! (off + 3)] in
                            if \<not> contains_ip ips ip then ips @ [ip] else ips
                       else ips)
                 in read_answers buf n (off + rdlen) ips)"

definition parse_response_all :: "u8 list \<Rightarrow> u16 \<Rightarrow> i64 + ipv4 list" where
  "parse_response_all buf expected_id =
     (if length buf < 12 then Inl EINVAL
      else if from_be16 (buf ! 0) (buf ! 1) \<noteq> expected_id then Inl EINVAL
      else let flags = from_be16 (buf ! 2) (buf ! 3) in
        if flags AND 0x8000 = 0 \<or> flags AND 0x000f \<noteq> 0 then Inl EINVAL
        else case skip_questions buf (unat (from_be16 (buf ! 4) (buf ! 5))) 12 of
          Inl e \<Rightarrow> Inl e
        | Inr off \<Rightarrow> read_answers buf (unat (from_be16 (buf ! 6) (buf ! 7))) off [])"

text \<open>
  A received datagram of any length is cut to the buffer by \<open>udp_recv_from\<close>, and only the part in the buffer is parsed.
  The outer \<open>None\<close>: still waiting when the sequence of received datagrams is over.
\<close>

fun dns_resolve_loop :: "ipv4 \<Rightarrow> u16 \<Rightarrow> (i64 + ipv4 \<times> u16 \<times> u8 list) list \<Rightarrow> (i64 + ipv4 list) option" where
  "dns_resolve_loop dns_server qid [] = None"
| "dns_resolve_loop dns_server qid (Inl e # rs) = Some (Inl e)"
| "dns_resolve_loop dns_server qid (Inr (src_ip, src_port, dat) # rs) =
     (if src_ip \<noteq> dns_server \<or> src_port \<noteq> DNS_PORT then dns_resolve_loop dns_server qid rs
      else Some (case parse_response_all (take DNS_BUF_LEN dat) qid of
        Inl e \<Rightarrow> Inl e
      | Inr ips \<Rightarrow> if ips = [] then Inl EAGAIN else Inr ips))"

text \<open>\<open>snd\<close> calls \<open>udp_send_to\<close>; the result has the new value of \<open>NEXT_DNS_ID\<close>, whose \<open>fetch_add\<close> wraps.\<close>

definition resolve_a_all_with_server ::
  "(ipv4 \<Rightarrow> u16 \<Rightarrow> u16 \<Rightarrow> u8 list \<Rightarrow> i64 + nat) \<Rightarrow> (u16 \<Rightarrow> (i64 + ipv4 \<times> u16 \<times> u8 list) list) \<Rightarrow> u8 list \<Rightarrow> ipv4 \<Rightarrow> u16 \<Rightarrow> (i64 + ipv4 list) option \<times> u16" where
  "resolve_a_all_with_server send recv name dns_server next_id =
     (let qid = next_id;
          local_port = DNS_LOCAL_PORT_BASE + qid mod 1000 in
      (case build_query name qid of
         Inl e \<Rightarrow> Some (Inl e)
       | Inr query \<Rightarrow>
           (case send dns_server DNS_PORT local_port query of
              Inl e \<Rightarrow> Some (Inl e)
            | Inr _ \<Rightarrow> dns_resolve_loop dns_server qid (recv local_port)), next_id + 1))"

definition resolve_a_all where
  "resolve_a_all send recv name next_id = resolve_a_all_with_server send recv name DNS_SERVER_QEMU_USER next_id"

definition first_ip :: "(i64 + ipv4 list) option \<Rightarrow> (i64 + ipv4) option" where
  "first_ip r = map_option (\<lambda>r. case r of Inl e \<Rightarrow> Inl e | Inr ips \<Rightarrow> if ips = [] then Inl EAGAIN else Inr (ips ! 0)) r"

definition resolve_a where
  "resolve_a send recv name next_id = map_prod first_ip id (resolve_a_all send recv name next_id)"

definition resolve_a_with_server where
  "resolve_a_with_server send recv name dns_server next_id = map_prod first_ip id (resolve_a_all_with_server send recv name dns_server next_id)"

section \<open>The wire format\<close>

text \<open>A name is its labels, ended by a zero byte or by a pointer into the message.\<close>

type_synonym dns_name = "u8 list list \<times> (u8 \<times> u8) option"

definition label_bytes :: "u8 list list \<Rightarrow> u8 list" where
  "label_bytes ls = concat (map (\<lambda>l. of_nat (length l) # l) ls)"

fun name_bytes :: "dns_name \<Rightarrow> u8 list" where
  "name_bytes (ls, None) = label_bytes ls @ [0]"
| "name_bytes (ls, Some (a, b)) = label_bytes ls @ [a, b]"

definition label_ok :: "u8 list \<Rightarrow> bool" where
  "label_ok l \<longleftrightarrow> l \<noteq> [] \<and> length l \<le> 63"

fun name_ok :: "dns_name \<Rightarrow> bool" where
  "name_ok (ls, p) \<longleftrightarrow> length ls \<le> 128 \<and> list_all label_ok ls \<and> (case p of None \<Rightarrow> True | Some (a, b) \<Rightarrow> a AND 0xc0 = 0xc0)"

record dns_rr =
  rr_name :: dns_name
  rr_ty :: u16
  rr_cl :: u16
  rr_ttl :: "u8 list"
  rr_data :: "u8 list"

definition rr_bytes :: "dns_rr \<Rightarrow> u8 list" where
  "rr_bytes r = name_bytes (rr_name r) @ be16 (rr_ty r) @ be16 (rr_cl r) @ rr_ttl r @ be16 (of_nat (length (rr_data r))) @ rr_data r"

definition rr_ok :: "dns_rr \<Rightarrow> bool" where
  "rr_ok r \<longleftrightarrow> name_ok (rr_name r) \<and> length (rr_ttl r) = 4 \<and> length (rr_data r) < 2 ^ 16"

definition question_bytes :: "dns_name \<times> u8 list \<Rightarrow> u8 list" where
  "question_bytes q = name_bytes (fst q) @ snd q"

definition question_ok :: "dns_name \<times> u8 list \<Rightarrow> bool" where
  "question_ok q \<longleftrightarrow> name_ok (fst q) \<and> length (snd q) = 4"

definition response_bytes :: "u16 \<Rightarrow> u16 \<Rightarrow> u16 \<Rightarrow> u16 \<Rightarrow> (dns_name \<times> u8 list) list \<Rightarrow> dns_rr list \<Rightarrow> u8 list \<Rightarrow> u8 list" where
  "response_bytes qid flags ns ar qs rs rest =
     be16 qid @ be16 flags @ be16 (of_nat (length qs)) @ be16 (of_nat (length rs)) @ be16 ns @ be16 ar
     @ concat (map question_bytes qs) @ concat (map rr_bytes rs) @ rest"

definition response_ok :: "u16 \<Rightarrow> (dns_name \<times> u8 list) list \<Rightarrow> dns_rr list \<Rightarrow> bool" where
  "response_ok flags qs rs \<longleftrightarrow> flags AND 0x8000 \<noteq> 0 \<and> flags AND 0x000f = 0 \<and> length qs < 2 ^ 16 \<and> length rs < 2 ^ 16
     \<and> list_all question_ok qs \<and> list_all rr_ok rs"

text \<open>The addresses of a response, each at its first occurrence.\<close>

definition a_records :: "dns_rr list \<Rightarrow> ipv4 list" where
  "a_records rs = rev (remdups (rev (map rr_data (filter (\<lambda>r. rr_ty r = DNS_TYPE_A \<and> rr_cl r = DNS_CLASS_IN \<and> length (rr_data r) = 4) rs))))"

section \<open>Parsing\<close>

lemma label_len: "label_ok l \<Longrightarrow> (of_nat (length l) :: u8) AND 0xc0 = 0 \<and> (of_nat (length l) :: u8) \<noteq> 0 \<and> unat (of_nat (length l) :: u8) = length l"
proof -
  assume "label_ok l"
  then have l: "0 < length l" "length l < 64" by (auto simp: label_ok_def)
  have u: "unat (of_nat (length l) :: u8) = length l" using l(2) by (simp add: unat_of_nat take_bit_eq_mod)
  have "list_all (\<lambda>n. (of_nat n :: u8) AND 0xc0 = 0) [0..<64]" by code_simp
  then have "(of_nat (length l) :: u8) AND 0xc0 = 0" using l(2) unfolding list_all_iff by auto
  moreover have "(of_nat (length l) :: u8) \<noteq> 0" using u l(1) by (metis unat_0 less_numeral_extra(3))
  ultimately show ?thesis using u by blast
qed

lemma skip_loop_name:
  assumes "list_all label_ok ls" "jumps + length ls \<le> 128" "case p of None \<Rightarrow> True | Some (a, b) \<Rightarrow> a AND 0xc0 = 0xc0"
  shows "skip_loop (pre @ name_bytes (ls, p) @ post) (length pre) jumps = Some (length pre + length (name_bytes (ls, p)))"
  using assms
proof (induction ls arbitrary: pre jumps)
  case Nil
  then show ?case by (cases p) (auto simp: skip_loop.simps [of _ "length pre"] label_bytes_def nth_append)
next
  case (Cons l ls)
  let ?n = "of_nat (length l) :: u8"
  have l: "?n AND 0xc0 = 0" "?n \<noteq> 0" "unat ?n = length l" using label_len [of l] Cons.prems(1) by auto
  have b: "name_bytes (l # ls, p) = (?n # l) @ name_bytes (ls, p)" by (cases p) (auto simp: label_bytes_def)
  let ?buf = "pre @ name_bytes (l # ls, p) @ post"
  have buf: "?buf = (pre @ ?n # l) @ name_bytes (ls, p) @ post" unfolding b by simp
  have at: "?buf ! length pre = ?n" unfolding b by simp
  have "skip_loop ?buf (length pre) jumps = skip_loop ?buf (length pre + 1 + length l) (jumps + 1)"
  proof -
    have "length pre < length ?buf" unfolding b by simp
    then show ?thesis unfolding skip_loop.simps [of ?buf "length pre"] Let_def at using l Cons.prems(2) by (auto simp: b)
  qed
  also have "length pre + 1 + length l = length (pre @ ?n # l)" by simp
  also have "skip_loop ?buf (length (pre @ ?n # l)) (jumps + 1) = Some (length (pre @ ?n # l) + length (name_bytes (ls, p)))"
    unfolding buf by (rule Cons.IH) (use Cons.prems in auto)
  finally show ?case unfolding b by simp
qed

lemma skip_name_bytes:
  "name_ok nm \<Longrightarrow> skip_name (pre @ name_bytes nm @ post) (length pre) = Some (length pre + length (name_bytes nm))"
  using skip_loop_name [of "fst nm" 0 "snd nm" pre post] by (cases nm) (auto simp: skip_name_def)

lemma skip_questions_bytes:
  "list_all question_ok qs \<Longrightarrow>
     skip_questions (pre @ concat (map question_bytes qs) @ post) (length qs) (length pre) = Inr (length pre + length (concat (map question_bytes qs)))"
proof (induction qs arbitrary: pre)
  case (Cons q qs)
  let ?buf = "pre @ concat (map question_bytes (q # qs)) @ post"
  have q: "name_ok (fst q)" "length (snd q) = 4" using Cons.prems by (auto simp: question_ok_def)
  have b: "?buf = pre @ name_bytes (fst q) @ (snd q @ concat (map question_bytes qs) @ post)" by (simp add: question_bytes_def)
  have "skip_name ?buf (length pre) = Some (length pre + length (name_bytes (fst q)))" unfolding b by (rule skip_name_bytes [OF q(1)])
  moreover have "skip_questions ((pre @ question_bytes q) @ concat (map question_bytes qs) @ post) (length qs) (length (pre @ question_bytes q))
      = Inr (length (pre @ question_bytes q) + length (concat (map question_bytes qs)))"
    using Cons.IH [of "pre @ question_bytes q"] Cons.prems by simp
  moreover have "length (question_bytes q) = length (name_bytes (fst q)) + 4" using q(2) by (simp add: question_bytes_def)
  ultimately show ?case by (simp add: add.assoc)
qed simp

text \<open>One answer.\<close>

definition note_ip :: "dns_rr \<Rightarrow> ipv4 list \<Rightarrow> ipv4 list" where
  "note_ip r ips = (if rr_ty r = DNS_TYPE_A \<and> rr_cl r = DNS_CLASS_IN \<and> length (rr_data r) = 4 \<and> rr_data r \<notin> set ips then ips @ [rr_data r] else ips)"

lemma read_answer:
  assumes "rr_ok r"
  shows "read_answers (pre @ rr_bytes r @ post) (Suc n) (length pre) ips
    = read_answers (pre @ rr_bytes r @ post) n (length (pre @ rr_bytes r)) (note_ip r ips)"
proof -
  let ?nm = "name_bytes (rr_name r)" and ?d = "rr_data r"
  let ?buf = "pre @ rr_bytes r @ post"
  define k where "k = length pre + length ?nm"
  have ok: "name_ok (rr_name r)" "length (rr_ttl r) = 4" "length ?d < 2 ^ 16" using assms by (auto simp: rr_ok_def)
  have four: "length xs = 4 \<Longrightarrow> \<exists>a b c d. xs = [a, b, c, d]" for xs :: "u8 list" by (auto simp: length_Suc_conv numeral_eq_Suc)
  obtain t0 t1 t2 t3 where t: "rr_ttl r = [t0, t1, t2, t3]" using four [OF ok(2)] by blast
  have b: "?buf = (pre @ ?nm) @ be16 (rr_ty r) @ be16 (rr_cl r) @ rr_ttl r @ be16 (of_nat (length ?d)) @ ?d @ post" by (simp add: rr_bytes_def)
  have s: "skip_name ?buf (length pre) = Some k" unfolding k_def
    using skip_name_bytes [OF ok(1), of pre "be16 (rr_ty r) @ be16 (rr_cl r) @ rr_ttl r @ be16 (of_nat (length ?d)) @ ?d @ post"] b by simp
  have nth: "?buf ! (k + i) = (be16 (rr_ty r) @ be16 (rr_cl r) @ rr_ttl r @ be16 (of_nat (length ?d)) @ ?d @ post) ! i" for i
    unfolding b k_def by (metis length_append nth_append_length_plus)
  have ty: "from_be16 (?buf ! k) (?buf ! (k + 1)) = rr_ty r" "from_be16 (?buf ! (k + 2)) (?buf ! (k + 3)) = rr_cl r"
    using nth [of 0] nth [of 1] nth [of 2] nth [of 3] by (simp_all add: be16_def t from_be16_be16)
  have len: "unat (from_be16 (?buf ! (k + 8)) (?buf ! (k + 9))) = length ?d"
    using ok(3) nth [of 8] nth [of 9] by (simp add: be16_def t from_be16_be16 unat_of_nat take_bit_eq_mod)
  have d: "[?buf ! (k + 10), ?buf ! (k + 10 + 1), ?buf ! (k + 10 + 2), ?buf ! (k + 10 + 3)] = ?d" if "length ?d = 4"
  proof -
    from that obtain d0 d1 d2 d3 where "?d = [d0, d1, d2, d3]" using four by blast
    moreover have "k + 10 + 1 = k + 11" "k + 10 + 2 = k + 12" "k + 10 + 3 = k + 13" by simp_all
    ultimately show ?thesis using nth [of 10] nth [of 11] nth [of 12] nth [of 13] by (simp only:) (simp add: be16_def t)
  qed
  have e: "length (pre @ rr_bytes r) = k + 10 + length ?d" "length ?buf = k + 10 + length ?d + length post"
    using ok(2) by (simp_all add: rr_bytes_def k_def)
  show ?thesis unfolding e(1) using s ty len d e(2) by (auto simp: note_ip_def contains_ip_def list_ex_iff Let_def)
qed

lemma read_answers_bytes:
  "list_all rr_ok rs \<Longrightarrow> read_answers (pre @ concat (map rr_bytes rs) @ post) (length rs) (length pre) ips = Inr (fold note_ip rs ips)"
proof (induction rs arbitrary: pre ips)
  case (Cons r rs)
  have "read_answers (pre @ rr_bytes r @ concat (map rr_bytes rs) @ post) (Suc (length rs)) (length pre) ips
      = read_answers ((pre @ rr_bytes r) @ concat (map rr_bytes rs) @ post) (length rs) (length (pre @ rr_bytes r)) (note_ip r ips)"
    using read_answer [of r pre "concat (map rr_bytes rs) @ post"] Cons.prems by simp
  then show ?case using Cons.IH [of "pre @ rr_bytes r"] Cons.prems by simp
qed simp


lemma fold_note_ip: "distinct ips \<Longrightarrow> fold note_ip rs ips = rev (remdups (rev (ips @ map rr_data
    (filter (\<lambda>r. rr_ty r = DNS_TYPE_A \<and> rr_cl r = DNS_CLASS_IN \<and> length (rr_data r) = 4) rs))))"
proof (induction rs arbitrary: ips)
  case Nil
  then show ?case by (simp add: distinct_remdups_id)
next
  case (Cons r rs)
  have d: "remdups (rev xs @ x # rev ips) = remdups (rev xs @ rev ips)" if "x \<in> set ips" for xs :: "ipv4 list" and x
    using that by (induction xs rule: rev_induct) auto
  show ?case using Cons.IH [of "note_ip r ips"] Cons.prems d by (auto simp: note_ip_def)
qed

lemma parse_response_bytes:
  assumes "response_ok flags qs rs"
  shows "parse_response_all (response_bytes qid flags ns ar qs rs rest) qid = Inr (a_records rs)"
proof -
  let ?h = "be16 qid @ be16 flags @ be16 (of_nat (length qs)) @ be16 (of_nat (length rs)) @ be16 ns @ be16 ar"
  let ?q = "concat (map question_bytes qs)" and ?r = "concat (map rr_bytes rs)"
  let ?buf = "response_bytes qid flags ns ar qs rs rest"
  have ok: "flags AND 0x8000 \<noteq> 0" "flags AND 0x000f = 0" "length qs < 2 ^ 16" "length rs < 2 ^ 16" "list_all question_ok qs" "list_all rr_ok rs"
    using assms by (auto simp: response_ok_def)
  have b: "?buf = ?h @ ?q @ ?r @ rest" by (simp add: response_bytes_def)
  have h: "length ?buf \<ge> 12" "from_be16 (?buf ! 0) (?buf ! 1) = qid" "from_be16 (?buf ! 2) (?buf ! 3) = flags"
      "unat (from_be16 (?buf ! 4) (?buf ! 5)) = length qs" "unat (from_be16 (?buf ! 6) (?buf ! 7)) = length rs"
    using ok(3,4) by (simp_all add: response_bytes_def be16_def from_be16_be16 unat_of_nat take_bit_eq_mod)
  have "skip_questions ?buf (length qs) 12 = Inr (12 + length ?q)"
    using skip_questions_bytes [OF ok(5), of ?h "?r @ rest"] unfolding b by simp
  moreover have "read_answers ?buf (length rs) (12 + length ?q) [] = Inr (fold note_ip rs [])"
  proof -
    have "length (?h @ ?q) = 12 + length ?q" by simp
    then show ?thesis using read_answers_bytes [OF ok(6), of "?h @ ?q" rest "[]"] unfolding b by (simp only: append_assoc)
  qed
  moreover have "fold note_ip rs [] = a_records rs" using fold_note_ip [of "[]" rs] by (simp add: a_records_def)
  ultimately show ?thesis using h ok(1,2) by (simp add: parse_response_all_def Let_def)
qed

section \<open>Asking\<close>

lemma push_labels_ok: "list_all label_ok ls \<Longrightarrow> push_labels ls out = Inr (out @ label_bytes ls)"
  by (induction ls arbitrary: out) (auto simp: label_ok_def label_bytes_def)

definition query_bytes :: "u8 list list \<Rightarrow> u16 \<Rightarrow> u8 list" where
  "query_bytes ls qid = be16 qid @ be16 0x0100 @ be16 1 @ be16 0 @ be16 0 @ be16 0 @ name_bytes (ls, None) @ be16 1 @ be16 1"

lemma build_query_iff:
  "build_query name qid = (if 0 < length name \<and> length name \<le> 253 \<and> list_all label_ok (split_on DOT name)
     then Inr (query_bytes (split_on DOT name) qid) else Inl EINVAL)"
proof -
  have "push_labels ls out = Inl EINVAL" if "\<not> list_all label_ok ls" for ls out
    using that by (induction ls arbitrary: out) (auto simp: label_ok_def)
  then show ?thesis
    by (auto simp: build_query_def query_bytes_def push_labels_ok DNS_TYPE_A_def DNS_CLASS_IN_def)
qed

lemma dns_resolve_loop_skips:
  assumes "list_all (\<lambda>(ip, port, d). ip \<noteq> server \<or> port \<noteq> DNS_PORT) noise"
  shows "dns_resolve_loop server qid (map Inr noise @ rs) = dns_resolve_loop server qid rs"
  using assms by (induction noise) auto

lemma take_response:
  assumes "length (response_bytes qid flags ns ar qs rs []) \<le> n"
  shows "take n (response_bytes qid flags ns ar qs rs rest)
    = response_bytes qid flags ns ar qs rs (take (n - length (response_bytes qid flags ns ar qs rs [])) rest)"
proof -
  have "response_bytes qid flags ns ar qs rs t = response_bytes qid flags ns ar qs rs [] @ t" for t
    by (simp add: response_bytes_def)
  with assms show ?thesis by (metis take_append take_all)
qed

text \<open>
  C18: for a name of valid labels the resolver sends the query for exactly those labels and, whatever datagrams of other
  hosts or other ports arrive first, returns from the first datagram of the server, when that is a well-formed response
  whose questions and answers fit in the 512-byte buffer, the addresses of its A records, each once and in order; a
  response without any gives EAGAIN. What follows the answers in the datagram may be cut off. An earlier datagram of the
  server's port itself is not skipped: \<open>stale_response_fails\<close> shows what it does.
\<close>

theorem resolver_returns_addresses:
  assumes "0 < length name" "length name \<le> 253" "list_all label_ok (split_on DOT name)"
    and "send server 53 (53000 + qid mod 1000) (query_bytes (split_on DOT name) qid) = Inr n"
    and "recv (53000 + qid mod 1000) = map Inr noise @ Inr (server, 53, response_bytes qid flags ns ar qs rs rest) # later"
    and "list_all (\<lambda>(ip, port, d). ip \<noteq> server \<or> port \<noteq> 53) noise" "response_ok flags qs rs"
    and "length (response_bytes qid flags ns ar qs rs []) \<le> 512"
  shows "resolve_a_all_with_server send recv name server qid
    = (Some (if a_records rs = [] then Inl EAGAIN else Inr (a_records rs)), qid + 1)"
proof -
  have "dns_resolve_loop server qid (recv (53000 + qid mod 1000)) = Some (if a_records rs = [] then Inl EAGAIN else Inr (a_records rs))"
    unfolding assms(5) using dns_resolve_loop_skips [of server noise qid] assms(6) parse_response_bytes [OF assms(7)]
    by (simp add: DNS_PORT_def DNS_BUF_LEN_def take_response [OF assms(8)])
  then show ?thesis
    using assms(1-4) by (simp add: resolve_a_all_with_server_def build_query_iff DNS_LOCAL_PORT_BASE_def DNS_PORT_def Let_def)
qed

theorem resolver_returns_addresses_witness:
  "resolve_a_all_with_server (\<lambda>_ _ _ _. Inr 0)
      (\<lambda>_. [Inr ([1, 2, 3, 4], 53, []),
            Inr ([10, 0, 2, 3], 53, response_bytes 7 0x8180 0 0 [(([[0x61], [0x62]], None), [0, 1, 0, 1])]
              [\<lparr>rr_name = ([], Some (0xc0, 0x0c)), rr_ty = 5, rr_cl = 1, rr_ttl = [0, 0, 0, 1], rr_data = [1, 0x63, 0]\<rparr>,
               \<lparr>rr_name = ([[0x63]], None), rr_ty = 1, rr_cl = 1, rr_ttl = [0, 0, 0, 1], rr_data = [93, 184, 216, 34]\<rparr>,
               \<lparr>rr_name = ([[0x63]], None), rr_ty = 1, rr_cl = 1, rr_ttl = [0, 0, 0, 1], rr_data = [93, 184, 216, 35]\<rparr>,
               \<lparr>rr_name = ([], Some (0xc0, 0x0c)), rr_ty = 1, rr_cl = 1, rr_ttl = [0, 0, 0, 1], rr_data = [93, 184, 216, 34]\<rparr>] [])])
      [0x61, 0x2e, 0x62] [10, 0, 2, 3] 7
    = (Some (Inr [[93, 184, 216, 34], [93, 184, 216, 35]]), 8)"
proof -
  let ?qs = "[(([[0x61], [0x62]], None), [0, 1, 0, 1])] :: (dns_name \<times> u8 list) list"
  let ?rs = "[\<lparr>rr_name = ([], Some (0xc0, 0x0c)), rr_ty = 5, rr_cl = 1, rr_ttl = [0, 0, 0, 1], rr_data = [1, 0x63, 0]\<rparr>,
               \<lparr>rr_name = ([[0x63]], None), rr_ty = 1, rr_cl = 1, rr_ttl = [0, 0, 0, 1], rr_data = [93, 184, 216, 34]\<rparr>,
               \<lparr>rr_name = ([[0x63]], None), rr_ty = 1, rr_cl = 1, rr_ttl = [0, 0, 0, 1], rr_data = [93, 184, 216, 35]\<rparr>,
               \<lparr>rr_name = ([], Some (0xc0, 0x0c)), rr_ty = 1, rr_cl = 1, rr_ttl = [0, 0, 0, 1], rr_data = [93, 184, 216, 34]\<rparr>] :: dns_rr list"
  have "response_ok 0x8180 ?qs ?rs" by (simp add: response_ok_def question_ok_def rr_ok_def label_ok_def)
  moreover have "length (response_bytes 7 0x8180 0 0 ?qs ?rs []) \<le> 512"
    by (simp add: response_bytes_def question_bytes_def rr_bytes_def label_bytes_def)
  moreover have "list_all label_ok (split_on DOT [0x61, 0x2e, 0x62])" by (simp add: label_ok_def DOT_def)
  moreover have "a_records ?rs = [[93, 184, 216, 34], [93, 184, 216, 35]]" by (simp add: a_records_def DNS_TYPE_A_def DNS_CLASS_IN_def)
  ultimately show ?thesis
    using resolver_returns_addresses [of "[0x61, 0x2e, 0x62]" "\<lambda>_ _ _ _. Inr 0" "[10, 0, 2, 3]" 7 0
        "\<lambda>_. [Inr ([1, 2, 3, 4], 53, []), Inr ([10, 0, 2, 3], 53, response_bytes 7 0x8180 0 0 ?qs ?rs [])]"
        "[([1, 2, 3, 4], 53, [])]" "0x8180" 0 0 ?qs ?rs "[]" "[]"] by simp
qed

text \<open>A datagram of the server with another number ends the search, though the answer may be the next one.\<close>

lemma stale_response_fails:
  assumes "build_query name qid = Inr q" "send server 53 (53000 + qid mod 1000) q = Inr n" "12 \<le> length d" "from_be16 (d ! 0) (d ! 1) \<noteq> qid"
    and "recv (53000 + qid mod 1000) = Inr (server, 53, d) # later"
  shows "resolve_a_all_with_server send recv name server qid = (Some (Inl EINVAL), qid + 1)"
  using assms by (simp add: resolve_a_all_with_server_def parse_response_all_def DNS_LOCAL_PORT_BASE_def DNS_PORT_def DNS_BUF_LEN_def Let_def)

end
