(* ===== verification/Http.thy ===== *)
theory Http
  imports Dns
begin

text \<open>
  \<^verbatim>\<open>user/rlibc/src/http.rs\<close>: fetching a page over the resolver and a TCP stream. The stream's calls are the parameter record
  \<open>tcp_ops\<close> over a state of their own; both loops of a fetch end, since every turn that continues makes progress.
\<close>

record 's tcp_ops =
  st_connect :: "ipv4 \<Rightarrow> u16 \<Rightarrow> 's \<Rightarrow> (i64 + u64) \<times> 's"
  st_send :: "u64 \<Rightarrow> u8 list \<Rightarrow> 's \<Rightarrow> (i64 + nat) \<times> 's"
  st_recv :: "u64 \<Rightarrow> nat \<Rightarrow> 's \<Rightarrow> (i64 + u8 list) \<times> 's"
  st_close :: "u64 \<Rightarrow> 's \<Rightarrow> 's"

definition to_ascii_lower :: "u8 \<Rightarrow> u8" where
  "to_ascii_lower b = (if 0x41 \<le> b \<and> b \<le> 0x5a then b + 32 else b)"

definition is_ascii_space :: "u8 \<Rightarrow> bool" where
  "is_ascii_space b \<longleftrightarrow> b = 0x20 \<or> b = 0x0a \<or> b = 0x0d \<or> b = 0x09"

definition is_host_char :: "u8 \<Rightarrow> bool" where
  "is_host_char b \<longleftrightarrow> (0x61 \<le> b \<and> b \<le> 0x7a) \<or> (0x41 \<le> b \<and> b \<le> 0x5a) \<or> (0x30 \<le> b \<and> b \<le> 0x39) \<or> b = 0x2e \<or> b = 0x2d"

definition starts_with_ci :: "u8 list \<Rightarrow> u8 list \<Rightarrow> bool" where
  "starts_with_ci haystack needle \<longleftrightarrow>
     \<not> length haystack < length needle \<and> list_all (\<lambda>i. to_ascii_lower (haystack ! i) = to_ascii_lower (needle ! i)) [0..<length needle]"

definition trim_ascii :: "u8 list \<Rightarrow> u8 list" where
  "trim_ascii s = rev (dropWhile is_ascii_space (rev (dropWhile is_ascii_space s)))"

definition http_normalize_path :: "u8 list \<Rightarrow> u8 list" where
  "http_normalize_path path = (if path = [] then [SLASH] else path)"

definition HTTP :: "u8 list" where "HTTP = [0x68, 0x74, 0x74, 0x70, 0x3a, 0x2f, 0x2f]"
definition HTTPS :: "u8 list" where "HTTPS = [0x68, 0x74, 0x74, 0x70, 0x73, 0x3a, 0x2f, 0x2f]"

definition parse_http_url :: "u8 list \<Rightarrow> u8 list \<times> u8 list" where
  "parse_http_url url =
     (let s = trim_ascii url in
      if \<not> starts_with_ci s HTTP \<and> starts_with_ci s HTTPS then ([], [])
      else let s = (if starts_with_ci s HTTP then drop 7 s else s);
               host_part = takeWhile (\<lambda>b. b \<noteq> SLASH) s;
               path_part = (if length host_part < length s then drop (length host_part) s else [SLASH])
           in (map to_ascii_lower (filter is_host_char (takeWhile (\<lambda>b. b \<noteq> 0x3a) host_part)),
               if path_part = [] then [SLASH] else path_part))"

definition ascii :: "string \<Rightarrow> u8 list" where
  "ascii s = map (\<lambda>c. of_nat (of_char c)) s"

definition crlf :: "u8 list" where "crlf = [0x0d, 0x0a]"

definition http_request :: "u8 list \<Rightarrow> u8 list \<Rightarrow> u8 list" where
  "http_request host path = ascii ''GET '' @ http_normalize_path path @ ascii '' HTTP/1.0'' @ crlf
     @ ascii ''Host: '' @ host @ crlf @ ascii ''User-Agent: MicrOS64'' @ crlf @ ascii ''Accept: text/html,*/*'' @ crlf
     @ ascii ''Connection: close'' @ crlf @ crlf"

function send_loop :: "'s tcp_ops \<Rightarrow> u64 \<Rightarrow> u8 list \<Rightarrow> nat \<Rightarrow> 's \<Rightarrow> (i64 + unit) \<times> 's" where
  "send_loop ops fd bytes sent st =
     (if sent < length bytes then
        case st_send ops fd (drop sent bytes) st of
          (Inl e, st) \<Rightarrow> (Inl e, st)
        | (Inr n, st) \<Rightarrow> if n = 0 then (Inr (), st) else send_loop ops fd bytes (sent + n) st
      else (Inr (), st))"
  by pat_completeness auto
termination
  by (relation "measure (\<lambda>(ops, fd, bytes, sent, st). length bytes - sent)") auto

function http_recv_loop :: "'s tcp_ops \<Rightarrow> u64 \<Rightarrow> u8 list \<Rightarrow> 's \<Rightarrow> (i64 + u8 list) \<times> 's" where
  "http_recv_loop ops fd out st =
     (case st_recv ops fd 1024 st of
        (Inl e, st) \<Rightarrow> (if out \<noteq> [] then Inr out else Inl e, st)
      | (Inr dat, st) \<Rightarrow>
          if dat = [] then (Inr out, st)
          else if length (out @ dat) \<ge> 32 * 1024 then (Inr (out @ dat), st)
          else http_recv_loop ops fd (out @ dat) st)"
  by pat_completeness auto
termination
  by (relation "measure (\<lambda>(ops, fd, out, st). 32 * 1024 - length out)") (auto intro!: diff_less_mono2 simp: not_le)

declare send_loop.simps [simp del] http_recv_loop.simps [simp del]

text \<open>The stream is closed explicitly at the end, and by \<open>drop\<close> when an error returns early.\<close>

definition drop_stream :: "'s tcp_ops \<Rightarrow> u64 \<Rightarrow> 's \<Rightarrow> 's" where
  "drop_stream ops fd st = (if fd \<noteq> 0 then st_close ops fd st else st)"

definition get_ipv4 :: "'s tcp_ops \<Rightarrow> u8 list \<Rightarrow> ipv4 \<Rightarrow> u8 list \<Rightarrow> 's \<Rightarrow> (i64 + u8 list) \<times> 's" where
  "get_ipv4 ops host dst_ip path st =
     (case st_connect ops dst_ip 80 st of
        (Inl e, st) \<Rightarrow> (Inl e, st)
      | (Inr fd, st) \<Rightarrow>
          (case send_loop ops fd (http_request host path) 0 st of
             (Inl e, st) \<Rightarrow> (Inl e, drop_stream ops fd st)
           | (Inr _, st) \<Rightarrow>
               (case http_recv_loop ops fd [] st of
                  (Inl e, st) \<Rightarrow> (Inl e, drop_stream ops fd st)
                | (Inr out, st) \<Rightarrow> (Inr out, st_close ops fd st))))"

definition get_gateway_root :: "'s tcp_ops \<Rightarrow> 's \<Rightarrow> (i64 + u8 list) \<times> 's" where
  "get_gateway_root ops st = get_ipv4 ops (ascii ''10.0.2.2'') [10, 0, 2, 2] [SLASH] st"

text \<open>\<open>rsv\<close> is \<open>resolve_a\<close>; \<open>None\<close> while it waits.\<close>

definition http_get :: "(u8 list \<Rightarrow> (i64 + ipv4) option) \<Rightarrow> 's tcp_ops \<Rightarrow> u8 list \<Rightarrow> u8 list \<Rightarrow> 's \<Rightarrow> ((i64 + u8 list) \<times> 's) option" where
  "http_get rsv ops host path st =
     (case rsv host of
        None \<Rightarrow> None
      | Some (Inl e) \<Rightarrow> Some (Inl e, st)
      | Some (Inr ip) \<Rightarrow> Some (get_ipv4 ops host ip path st))"

definition get_url :: "(u8 list \<Rightarrow> (i64 + ipv4) option) \<Rightarrow> 's tcp_ops \<Rightarrow> u8 list \<Rightarrow> 's \<Rightarrow> ((i64 + u8 list) \<times> 's) option" where
  "get_url rsv ops url st =
     (let (host, path) = parse_http_url url in
      if host = [] then Some (Inl EINVAL, st) else http_get rsv ops host path st)"

section \<open>Addresses\<close>

lemma trim_ascii_id:
  assumes "s \<noteq> []" "\<not> is_ascii_space (hd s)" "\<not> is_ascii_space (last s)"
  shows "trim_ascii s = s"
proof -
  have "dropWhile is_ascii_space s = s" using assms(1,2) by (cases s) auto
  moreover have "dropWhile is_ascii_space (rev s) = rev s" using assms(1,3) by (cases s rule: rev_cases) auto
  ultimately show ?thesis by (simp add: trim_ascii_def)
qed

lemma http_prefix: "starts_with_ci (HTTP @ s) HTTP" "hd (HTTP @ s) = 0x68"
  by (simp_all add: starts_with_ci_def HTTP_def)

lemma host_no_sep: "is_host_char b \<Longrightarrow> b \<noteq> SLASH \<and> b \<noteq> 0x3a"
  by (auto simp: is_host_char_def word_le_nat_alt)

text \<open>A plain address is taken apart into its host and its path; a port is dropped, and so is every other character of the host.\<close>

lemma parse_http_url_host:
  assumes "list_all (\<lambda>b. b \<noteq> SLASH) hp" "path = [] \<or> hd path = SLASH" "hp @ path \<noteq> []" "\<not> is_ascii_space (last (hp @ path))"
  shows "parse_http_url (HTTP @ hp @ path)
    = (map to_ascii_lower (filter is_host_char (takeWhile (\<lambda>b. b \<noteq> 0x3a) hp)), if path = [] then [SLASH] else path)"
proof -
  have t: "trim_ascii (HTTP @ hp @ path) = HTTP @ hp @ path"
    using assms(3,4) by (intro trim_ascii_id) (auto simp: HTTP_def is_ascii_space_def)
  have "takeWhile (\<lambda>b. b \<noteq> SLASH) (hp @ path) = hp @ takeWhile (\<lambda>b. b \<noteq> SLASH) path"
    using assms(1) by (intro takeWhile_append2) (auto simp: list_all_iff)
  moreover have "takeWhile (\<lambda>b. b \<noteq> SLASH) path = []" using assms(2) by (cases path) auto
  ultimately have h: "takeWhile (\<lambda>b. b \<noteq> SLASH) (hp @ path) = hp" by simp
  have d: "drop 7 (HTTP @ hp @ path) = hp @ path" by (simp add: HTTP_def)
  have p: "starts_with_ci (HTTP @ hp @ path) HTTP = True" using http_prefix(1) [of "hp @ path"] by simp
  show ?thesis unfolding parse_http_url_def Let_def t d p simp_thms if_True if_False h by simp
qed

lemma parse_http_url_roundtrip:
  assumes "host \<noteq> []" "list_all (\<lambda>b. is_host_char b \<and> to_ascii_lower b = b) host" "path = [] \<or> hd path = SLASH" "\<not> is_ascii_space (last (host @ path))"
  shows "parse_http_url (HTTP @ host @ path) = (host, if path = [] then [SLASH] else path)"
proof -
  have "list_all (\<lambda>b. b \<noteq> SLASH) host" "takeWhile (\<lambda>b. b \<noteq> 0x3a) host = host"
    using assms(2) host_no_sep by (auto simp: list_all_iff takeWhile_eq_all_conv)
  moreover have "map to_ascii_lower (filter is_host_char host) = host" using assms(2) by (induction host) auto
  ultimately show ?thesis using parse_http_url_host [of host path] assms(1,3,4) by (simp only: append_is_Nil_conv) simp
qed

lemma parse_http_url_drops_port:
  assumes "list_all (\<lambda>b. is_host_char b \<and> to_ascii_lower b = b) host" "list_all (\<lambda>b. b \<noteq> SLASH) port" "hd path = SLASH" "path \<noteq> []" "\<not> is_ascii_space (last path)"
  shows "parse_http_url (HTTP @ host @ 0x3a # port @ path) = (host, path)"
proof -
  have "list_all (\<lambda>b. b \<noteq> SLASH) (host @ 0x3a # port)" using assms(1,2) host_no_sep by (auto simp: list_all_iff)
  moreover have "takeWhile (\<lambda>b. b \<noteq> 0x3a) (host @ 0x3a # port) = host"
    using assms(1) host_no_sep by (subst takeWhile_append2) (auto simp: list_all_iff)
  moreover have "map to_ascii_lower (filter is_host_char host) = host" using assms(1) by (induction host) auto
  ultimately show ?thesis using parse_http_url_host [of "host @ 0x3a # port" path] assms by simp
qed

lemma starts_with_nth: "starts_with_ci s p \<Longrightarrow> i < length p \<Longrightarrow> to_ascii_lower (s ! i) = to_ascii_lower (p ! i)"
  by (auto simp: starts_with_ci_def list_all_iff)

lemma https_refused:
  assumes "starts_with_ci (trim_ascii url) HTTPS"
  shows "get_url rsv ops url st = Some (Inl EINVAL, st)"
proof -
  have "\<not> starts_with_ci (trim_ascii url) HTTP"
  proof
    assume "starts_with_ci (trim_ascii url) HTTP"
    then have "to_ascii_lower (trim_ascii url ! 4) = to_ascii_lower (HTTP ! 4)" by (intro starts_with_nth) (simp_all add: HTTP_def)
    moreover have "to_ascii_lower (trim_ascii url ! 4) = to_ascii_lower (HTTPS ! 4)" using assms by (intro starts_with_nth) (simp_all add: HTTPS_def)
    ultimately show False by (simp add: HTTP_def HTTPS_def to_ascii_lower_def)
  qed
  then show ?thesis using assms by (simp add: get_url_def parse_http_url_def Let_def)
qed

section \<open>Fetching\<close>

text \<open>What is relied on of the stream: a send takes some of the bytes, a receive gives the next chunk, and none at the end.\<close>

definition stream_laws :: "'s tcp_ops \<Rightarrow> ('s \<Rightarrow> u8 list) \<Rightarrow> ('s \<Rightarrow> u8 list list) \<Rightarrow> bool" where
  "stream_laws ops sent chunks \<longleftrightarrow>
     (\<forall>fd bs st. bs \<noteq> [] \<longrightarrow> (\<exists>n st'. st_send ops fd bs st = (Inr n, st') \<and> 0 < n \<and> n \<le> length bs \<and> sent st' = sent st @ take n bs \<and> chunks st' = chunks st))
     \<and> (\<forall>fd k st. chunks st = [] \<longrightarrow> st_recv ops fd k st = (Inr [], st))
     \<and> (\<forall>fd k st c cs. chunks st = c # cs \<longrightarrow> c \<noteq> [] \<and> (\<exists>st'. st_recv ops fd k st = (Inr c, st') \<and> sent st' = sent st \<and> chunks st' = cs))"

fun upto_limit :: "u8 list \<Rightarrow> u8 list list \<Rightarrow> u8 list" where
  "upto_limit out [] = out"
| "upto_limit out (c # cs) = (if length (out @ c) \<ge> 32 * 1024 then out @ c else upto_limit (out @ c) cs)"

lemma send_loop_sends:
  assumes "stream_laws ops sent chunks" "k \<le> length bs"
  shows "\<exists>st'. send_loop ops fd bs k st = (Inr (), st') \<and> sent st' = sent st @ drop k bs \<and> chunks st' = chunks st"
  using assms(2)
proof (induction "length bs - k" arbitrary: k st rule: less_induct)
  case less
  show ?case
  proof (cases "k < length bs")
    case False
    then have "send_loop ops fd bs k st = (Inr (), st)" by (simp add: send_loop.simps [of ops fd bs k])
    then show ?thesis using False by simp
  next
    case True
    then have "drop k bs \<noteq> []" by simp
    then obtain n st1 where s: "st_send ops fd (drop k bs) st = (Inr n, st1)" "0 < n" "n \<le> length (drop k bs)"
        "sent st1 = sent st @ take n (drop k bs)" "chunks st1 = chunks st"
      using assms(1) unfolding stream_laws_def by metis
    have "length bs - (k + n) < length bs - k" "k + n \<le> length bs" using s(2,3) True by auto
    then obtain st' where "send_loop ops fd bs (k + n) st1 = (Inr (), st')" "sent st' = sent st1 @ drop (k + n) bs" "chunks st' = chunks st1"
      using less.hyps by blast
    moreover have "take n (drop k bs) @ drop (k + n) bs = drop k bs" by (metis add.commute append_take_drop_id drop_drop)
    ultimately show ?thesis using s True by (simp add: send_loop.simps [of ops fd bs k])
  qed
qed

lemma recv_loop_collects:
  assumes "stream_laws ops sent chunks"
  shows "\<exists>st'. http_recv_loop ops fd out st = (Inr (upto_limit out (chunks st)), st') \<and> sent st' = sent st"
proof (induction "chunks st" arbitrary: out st)
  case Nil
  then have "st_recv ops fd 1024 st = (Inr [], st)" using assms unfolding stream_laws_def by metis
  then show ?case using Nil [symmetric] by (simp add: http_recv_loop.simps [of ops fd out st])
next
  case (Cons c cs)
  then obtain st1 where s: "st_recv ops fd 1024 st = (Inr c, st1)" "c \<noteq> []" "sent st1 = sent st" "chunks st1 = cs"
    using assms unfolding stream_laws_def by metis
  then show ?case using Cons.hyps(1) [of st1 "out @ c"] Cons.hyps(2) [symmetric] by (auto simp: http_recv_loop.simps [of ops fd out st])
qed

lemma upto_limit_all: "length out + length (concat cs) < 32 * 1024 \<Longrightarrow> upto_limit out cs = out @ concat cs"
  by (induction cs arbitrary: out) auto

lemma get_ipv4_fetches:
  assumes "stream_laws ops sent chunks" "st_connect ops ip 80 st = (Inr fd, st0)" "length (concat (chunks st0)) < 32 * 1024"
  shows "\<exists>st1. get_ipv4 ops host ip path st = (Inr (concat (chunks st0)), st_close ops fd st1) \<and> sent st1 = sent st0 @ http_request host path"
proof -
  obtain s1 where s1: "send_loop ops fd (http_request host path) 0 st0 = (Inr (), s1)" "sent s1 = sent st0 @ http_request host path" "chunks s1 = chunks st0"
    using send_loop_sends [OF assms(1), of 0 "http_request host path" fd st0] by auto
  obtain s2 where "http_recv_loop ops fd [] s1 = (Inr (upto_limit [] (chunks s1)), s2)" "sent s2 = sent s1"
    using recv_loop_collects [OF assms(1)] by blast
  then show ?thesis using s1 assms(2,3) upto_limit_all [of "[]" "chunks st0"] by (intro exI [of _ s2]) (simp add: get_ipv4_def)
qed


text \<open>A page by its address: the request on the stream names the host and the path, and the result is everything the server sends.\<close>

lemma page_fetched:
  assumes "host \<noteq> []" "list_all (\<lambda>b. is_host_char b \<and> to_ascii_lower b = b) host" "path \<noteq> []" "hd path = SLASH" "\<not> is_ascii_space (last path)"
    and "rsv host = Some (Inr ip)" "stream_laws ops sent chunks" "st_connect ops ip 80 st = (Inr fd, st0)" "length (concat (chunks st0)) < 32 * 1024"
  shows "\<exists>st1. get_url rsv ops (HTTP @ host @ path) st = Some (Inr (concat (chunks st0)), st_close ops fd st1) \<and> sent st1 = sent st0 @ http_request host path"
proof -
  have "parse_http_url (HTTP @ host @ path) = (host, path)" using parse_http_url_roundtrip [OF assms(1,2), of path] assms(3-5) by simp
  then show ?thesis using get_ipv4_fetches [OF assms(7-9), of host path] assms(1,6) by (auto simp: get_url_def http_get_def)
qed

end
