(* ===== verification/Canvas.thy ===== *)
theory Canvas
  imports Prelude
begin

text \<open>
  \<^verbatim>\<open>user/libui/src/geom.rs\<close>, \<^verbatim>\<open>canvas.rs\<close> and \<^verbatim>\<open>text.rs\<close>: drawing into a frame buffer through a clip rectangle. \<open>i32\<close> is an
  integer in its range: \<open>chk\<close> is checked arithmetic (the outer \<open>None\<close> is the panic), \<open>sat\<close> the saturating kind. The frame
  buffer is a function from the index of a pixel to its colour; the font is a parameter. The index \<open>y * pitch + x\<close> is a
  natural number, where the program has \<open>usize\<close> with an overflow check: \<open>pixel_index_fits\<close> shows that it cannot
  overflow for a pixel of a frame buffer that has fewer than 2^64 pixels, as every one in memory has.
\<close>

definition I32_MAX :: int where "I32_MAX = 2 ^ 31 - 1"
definition I32_MIN :: int where "I32_MIN = - (2 ^ 31)"

definition sat :: "int \<Rightarrow> int" where
  "sat v = max I32_MIN (min I32_MAX v)"

definition chk :: "int \<Rightarrow> int option" where
  "chk v = (if I32_MIN \<le> v \<and> v \<le> I32_MAX then Some v else None)"

definition as_i32 :: "nat \<Rightarrow> int" where
  "as_i32 n = (let r = int n mod 2 ^ 32 in if r < 2 ^ 31 then r else r - 2 ^ 32)"

record point =
  pt_x :: int
  pt_y :: int

record rect =
  rx :: int
  ry :: int
  rw :: int
  rh :: int

definition right :: "rect \<Rightarrow> int" where "right r = sat (rx r + rw r)"
definition bottom :: "rect \<Rightarrow> int" where "bottom r = sat (ry r + rh r)"

definition contains :: "rect \<Rightarrow> point \<Rightarrow> bool" where
  "contains r p \<longleftrightarrow> pt_x p \<ge> rx r \<and> pt_y p \<ge> ry r \<and> pt_x p < right r \<and> pt_y p < bottom r"

definition inset :: "rect \<Rightarrow> int \<Rightarrow> int \<Rightarrow> rect" where
  "inset r dx dy = \<lparr>rx = sat (rx r + dx), ry = sat (ry r + dy), rw = sat (rw r - sat (dx * 2)), rh = sat (rh r - sat (dy * 2))\<rparr>"

definition translate_rect :: "rect \<Rightarrow> int \<Rightarrow> int \<Rightarrow> rect" where
  "translate_rect r dx dy = \<lparr>rx = sat (rx r + dx), ry = sat (ry r + dy), rw = rw r, rh = rh r\<rparr>"

definition intersect_rect :: "rect \<Rightarrow> rect \<Rightarrow> rect option option" where
  "intersect_rect a b =
     (let x0 = max (rx a) (rx b); y0 = max (ry a) (ry b); x1 = min (right a) (right b); y1 = min (bottom a) (bottom b) in
      if x1 \<le> x0 \<or> y1 \<le> y0 then Some None
      else do { w \<leftarrow> chk (x1 - x0); h \<leftarrow> chk (y1 - y0); Some (Some \<lparr>rx = x0, ry = y0, rw = w, rh = h\<rparr>) })"

record canvas =
  fb :: "nat \<Rightarrow> u32"
  pitch :: nat
  cwidth :: nat
  cheight :: nat
  clip :: rect

definition screen :: "canvas \<Rightarrow> rect" where
  "screen c = \<lparr>rx = 0, ry = 0, rw = as_i32 (cwidth c), rh = as_i32 (cheight c)\<rparr>"

definition canvas_new :: "(nat \<Rightarrow> u32) \<Rightarrow> nat \<Rightarrow> nat \<Rightarrow> nat \<Rightarrow> canvas" where
  "canvas_new f p w h = \<lparr>fb = f, pitch = p, cwidth = w, cheight = h, clip = \<lparr>rx = 0, ry = 0, rw = as_i32 w, rh = as_i32 h\<rparr>\<rparr>"

definition set_clip :: "rect \<Rightarrow> canvas \<Rightarrow> canvas option" where
  "set_clip r c = do {
     i \<leftarrow> intersect_rect (screen c) r;
     Some (c\<lparr>clip := (case i of None \<Rightarrow> \<lparr>rx = 0, ry = 0, rw = 0, rh = 0\<rparr> | Some r \<Rightarrow> r)\<rparr>)
   }"

definition reset_clip :: "canvas \<Rightarrow> canvas" where
  "reset_clip c = c\<lparr>clip := screen c\<rparr>"

definition intersects :: "rect \<Rightarrow> canvas \<Rightarrow> bool option" where
  "intersects r c = do { i \<leftarrow> intersect_rect (clip c) r; Some (i \<noteq> None) }"

definition put_pixel :: "int \<Rightarrow> int \<Rightarrow> u32 \<Rightarrow> canvas \<Rightarrow> canvas" where
  "put_pixel x y color c =
     (if x < rx (clip c) \<or> y < ry (clip c) \<or> x \<ge> right (clip c) \<or> y \<ge> bottom (clip c) then c
      else if x < 0 \<or> y < 0 then c
      else if nat x \<ge> cwidth c \<or> nat y \<ge> cheight c then c
      else c\<lparr>fb := (fb c)(nat y * pitch c + nat x := color)\<rparr>)"

definition fill_row :: "nat \<Rightarrow> nat \<Rightarrow> u32 \<Rightarrow> (nat \<Rightarrow> u32) \<Rightarrow> nat \<Rightarrow> u32" where
  "fill_row a n color f = (\<lambda>k. if a \<le> k \<and> k < a + n then color else f k)"

definition fill_rect :: "rect \<Rightarrow> u32 \<Rightarrow> canvas \<Rightarrow> canvas option" where
  "fill_rect r color c = do {
     i \<leftarrow> intersect_rect r (clip c);
     case i of
       None \<Rightarrow> Some c
     | Some r \<Rightarrow>
         (let x0 = nat (max (rx r) 0); y0 = nat (max (ry r) 0);
              x1 = nat (max (min (right r) (as_i32 (cwidth c))) 0); y1 = nat (max (min (bottom r) (as_i32 (cheight c))) 0) in
          if x0 \<ge> x1 \<or> y0 \<ge> y1 then Some c
          else Some (c\<lparr>fb := fold (\<lambda>yy. fill_row (yy * pitch c + x0) (x1 - x0) color) [y0..<y1] (fb c)\<rparr>))
   }"

definition clear :: "u32 \<Rightarrow> canvas \<Rightarrow> canvas option" where
  "clear color c = fill_rect (screen c) color c"

definition hline :: "int \<Rightarrow> int \<Rightarrow> int \<Rightarrow> u32 \<Rightarrow> canvas \<Rightarrow> canvas option" where
  "hline x y w color c = (if w \<le> 0 then Some c else fill_rect \<lparr>rx = x, ry = y, rw = w, rh = 1\<rparr> color c)"

definition vline :: "int \<Rightarrow> int \<Rightarrow> int \<Rightarrow> u32 \<Rightarrow> canvas \<Rightarrow> canvas option" where
  "vline x y h color c = (if h \<le> 0 then Some c else fill_rect \<lparr>rx = x, ry = y, rw = 1, rh = h\<rparr> color c)"

text \<open>Colours are \<open>u32\<close>: every product and sum is checked.\<close>

definition lerp_channel :: "u32 \<Rightarrow> u32 \<Rightarrow> u32 \<Rightarrow> u32 \<Rightarrow> u32 option" where
  "lerp_channel a b num den = do {
     d \<leftarrow> checked_sub den num;
     p \<leftarrow> checked_mul a d;
     q \<leftarrow> checked_mul b num;
     s \<leftarrow> checked_add p q;
     if den = 0 then None else Some (s div den)
   }"

definition lerp_rgb :: "u32 \<Rightarrow> u32 \<Rightarrow> u32 \<Rightarrow> u32 \<Rightarrow> u32 option" where
  "lerp_rgb a b num den = do {
     rr \<leftarrow> lerp_channel (drop_bit 16 a AND 0xff) (drop_bit 16 b AND 0xff) num den;
     rg \<leftarrow> lerp_channel (drop_bit 8 a AND 0xff) (drop_bit 8 b AND 0xff) num den;
     rb \<leftarrow> lerp_channel (a AND 0xff) (b AND 0xff) num den;
     Some (push_bit 16 rr OR push_bit 8 rg OR rb)
   }"

fun gradient_rows :: "rect \<Rightarrow> u32 \<Rightarrow> u32 \<Rightarrow> u32 \<Rightarrow> int list \<Rightarrow> canvas \<Rightarrow> canvas option" where
  "gradient_rows r tc bc den [] c = Some c"
| "gradient_rows r tc bc den (row # rows) c = do {
     color \<leftarrow> lerp_rgb tc bc (of_int row) den;
     y \<leftarrow> chk (ry r + row);
     c \<leftarrow> fill_rect \<lparr>rx = rx r, ry = y, rw = rw r, rh = 1\<rparr> color c;
     gradient_rows r tc bc den rows c
   }"

definition fill_vertical_gradient :: "rect \<Rightarrow> u32 \<Rightarrow> u32 \<Rightarrow> canvas \<Rightarrow> canvas option" where
  "fill_vertical_gradient r tc bc c =
     (if rw r \<le> 0 \<or> rh r \<le> 0 then Some c
      else do {
        hit \<leftarrow> intersects r c;
        if \<not> hit then Some c
        else gradient_rows r tc bc (of_int (max (rh r - 1) 1)) (map int [0..<nat (rh r)]) c
      })"

definition stroke_rect :: "rect \<Rightarrow> u32 \<Rightarrow> canvas \<Rightarrow> canvas option" where
  "stroke_rect r color c =
     (if rw r \<le> 0 \<or> rh r \<le> 0 then Some c
      else do {
        c \<leftarrow> fill_rect \<lparr>rx = rx r, ry = ry r, rw = rw r, rh = 1\<rparr> color c;
        b \<leftarrow> chk (bottom r - 1);
        c \<leftarrow> fill_rect \<lparr>rx = rx r, ry = b, rw = rw r, rh = 1\<rparr> color c;
        c \<leftarrow> fill_rect \<lparr>rx = rx r, ry = ry r, rw = 1, rh = rh r\<rparr> color c;
        e \<leftarrow> chk (right r - 1);
        fill_rect \<lparr>rx = e, ry = ry r, rw = 1, rh = rh r\<rparr> color c
      })"

definition stroke_rect_inset :: "rect \<Rightarrow> int \<Rightarrow> u32 \<Rightarrow> canvas \<Rightarrow> canvas option" where
  "stroke_rect_inset r d color c = (let r = inset r d d in if rw r > 0 \<and> rh r > 0 then stroke_rect r color c else Some c)"

section \<open>Text\<close>

definition CHAR_W :: int where "CHAR_W = 8"
definition CHAR_H :: int where "CHAR_H = 8"

definition measure_text :: "nat list \<Rightarrow> int" where
  "measure_text text = sat (as_i32 (length text) * CHAR_W)"

definition draw_bit :: "int \<Rightarrow> int \<Rightarrow> u32 \<Rightarrow> u32 option \<Rightarrow> u8 \<Rightarrow> nat \<Rightarrow> nat \<Rightarrow> canvas \<Rightarrow> canvas option" where
  "draw_bit x y fg bg bits row col c = do {
     px \<leftarrow> chk (x + int col);
     py \<leftarrow> chk (y + int row);
     Some (if drop_bit col bits AND 1 \<noteq> 0 then put_pixel px py fg c
           else case bg of Some b \<Rightarrow> put_pixel px py b c | None \<Rightarrow> c)
   }"

fun ofold :: "('a \<Rightarrow> 'b \<Rightarrow> 'b option) \<Rightarrow> 'a list \<Rightarrow> 'b \<Rightarrow> 'b option" where
  "ofold f [] s = Some s"
| "ofold f (x # xs) s = do { s \<leftarrow> f x s; ofold f xs s }"

definition draw_char :: "(nat \<Rightarrow> u8 list option) \<Rightarrow> int \<Rightarrow> int \<Rightarrow> u32 \<Rightarrow> u32 option \<Rightarrow> nat \<Rightarrow> canvas \<Rightarrow> canvas option" where
  "draw_char font x y fg bg ch c =
     (case font ch of
        None \<Rightarrow> Some c
      | Some glyph \<Rightarrow> ofold (\<lambda>(row, bits). ofold (\<lambda>col. draw_bit x y fg bg bits row col) [0..<8]) (enumerate 0 glyph) c)"

fun draw_text :: "(nat \<Rightarrow> u8 list option) \<Rightarrow> int \<Rightarrow> int \<Rightarrow> u32 \<Rightarrow> u32 option \<Rightarrow> nat list \<Rightarrow> canvas \<Rightarrow> canvas option" where
  "draw_text font x y fg bg [] c = Some c"
| "draw_text font x y fg bg (ch # chs) c = do {
     c \<leftarrow> draw_char font x y fg bg ch c;
     xx \<leftarrow> chk (x + CHAR_W);
     draw_text font xx y fg bg chs c
   }"

section \<open>The invariant\<close>

definition rect_ok :: "rect \<Rightarrow> bool" where
  "rect_ok r \<longleftrightarrow> {rx r, ry r, rw r, rh r} \<subseteq> {I32_MIN..I32_MAX}"

definition canvas_inv :: "canvas \<Rightarrow> bool" where
  "canvas_inv c \<longleftrightarrow> cwidth c \<le> pitch c \<and> int (cwidth c) \<le> I32_MAX \<and> int (cheight c) \<le> I32_MAX
     \<and> 0 \<le> rx (clip c) \<and> 0 \<le> ry (clip c) \<and> 0 \<le> rw (clip c) \<and> 0 \<le> rh (clip c)
     \<and> rx (clip c) + rw (clip c) \<le> int (cwidth c) \<and> ry (clip c) + rh (clip c) \<le> int (cheight c)"

definition pixel :: "canvas \<Rightarrow> nat \<Rightarrow> nat \<Rightarrow> u32" where
  "pixel c x y = fb c (y * pitch c + x)"

definition inside :: "rect \<Rightarrow> nat \<Rightarrow> nat \<Rightarrow> bool" where
  "inside r x y \<longleftrightarrow> rx r \<le> int x \<and> int x < rx r + rw r \<and> ry r \<le> int y \<and> int y < ry r + rh r"

lemmas i32_defs = I32_MAX_def I32_MIN_def

lemma as_i32_small: "int n \<le> I32_MAX \<Longrightarrow> as_i32 n = int n"
  by (simp add: as_i32_def Let_def I32_MAX_def)

lemma canvas_clip:
  assumes "canvas_inv c"
  shows "right (clip c) = rx (clip c) + rw (clip c)" "bottom (clip c) = ry (clip c) + rh (clip c)"
  using assms by (auto simp: canvas_inv_def right_def bottom_def sat_def i32_defs)

text \<open>The \<open>usize\<close> arithmetic of the index of a pixel does not overflow; nor does that of a row, which starts at one.\<close>

lemma pixel_index_fits:
  assumes "canvas_inv c" "cheight c * pitch c < 2 ^ 64" "x < cwidth c" "y < cheight c"
  shows "y * pitch c < 2 ^ 64 \<and> y * pitch c + x < 2 ^ 64"
proof -
  have "x < pitch c" using assms(1,3) by (simp add: canvas_inv_def)
  moreover have "Suc y * pitch c \<le> cheight c * pitch c" using assms(4) by (intro mult_le_mono1) simp
  ultimately show ?thesis using assms(2) by simp
qed

text \<open>The common part of a rectangle and the clip, as \<open>fill_rect\<close> computes it.\<close>

lemma intersect_clip:
  assumes "canvas_inv c" "rect_ok r"
  obtains (none) "intersect_rect r (clip c) = Some None" "\<And>x y. x < cwidth c \<Longrightarrow> y < cheight c \<Longrightarrow> \<not> (inside r x y \<and> inside (clip c) x y)"
    | (some) q where "intersect_rect r (clip c) = Some (Some q)" "0 \<le> rx q" "0 \<le> ry q" "0 < rw q" "0 < rh q"
        "rx q + rw q \<le> int (cwidth c)" "ry q + rh q \<le> int (cheight c)" "\<And>x y. inside q x y \<longleftrightarrow> inside r x y \<and> inside (clip c) x y"
proof -
  let ?x0 = "max (rx r) (rx (clip c))" and ?y0 = "max (ry r) (ry (clip c))"
  let ?x1 = "min (right r) (right (clip c))" and ?y1 = "min (bottom r) (bottom (clip c))"
  note cc = canvas_clip [OF assms(1)]
  have inv: "0 \<le> rx (clip c)" "0 \<le> ry (clip c)" "0 \<le> rw (clip c)" "0 \<le> rh (clip c)" "rx (clip c) + rw (clip c) \<le> int (cwidth c)"
      "ry (clip c) + rh (clip c) \<le> int (cheight c)" "int (cwidth c) \<le> I32_MAX" "int (cheight c) \<le> I32_MAX"
    using assms(1) by (auto simp: canvas_inv_def)
  have r: "right r = max I32_MIN (min I32_MAX (rx r + rw r))" "bottom r = max I32_MIN (min I32_MAX (ry r + rh r))" by (simp_all add: right_def bottom_def sat_def)
  have in_iff: "inside r x y \<and> inside (clip c) x y \<longleftrightarrow> ?x0 \<le> int x \<and> int x < ?x1 \<and> ?y0 \<le> int y \<and> int y < ?y1" for x y
    unfolding inside_def cc using inv r by (auto simp: i32_defs)
  show thesis
  proof (cases "?x1 \<le> ?x0 \<or> ?y1 \<le> ?y0")
    case True
    then have "intersect_rect r (clip c) = Some None" by (simp add: intersect_rect_def Let_def)
    moreover have "\<not> (inside r x y \<and> inside (clip c) x y)" for x y unfolding in_iff using True by linarith
    ultimately show ?thesis using none by blast
  next
    case False
    let ?q = "\<lparr>rx = ?x0, ry = ?y0, rw = ?x1 - ?x0, rh = ?y1 - ?y0\<rparr>"
    have b: "0 \<le> ?x0" "0 \<le> ?y0" "?x0 < ?x1" "?y0 < ?y1" "?x1 \<le> int (cwidth c)" "?y1 \<le> int (cheight c)" using False inv cc by auto
    then have "chk (?x1 - ?x0) = Some (?x1 - ?x0)" "chk (?y1 - ?y0) = Some (?y1 - ?y0)" using inv(7,8) by (auto simp: chk_def i32_defs)
    then have "intersect_rect r (clip c) = Some (Some ?q)" using False by (auto simp: intersect_rect_def Let_def)
    moreover have "inside ?q x y \<longleftrightarrow> inside r x y \<and> inside (clip c) x y" for x y unfolding in_iff by (auto simp: inside_def)
    ultimately show ?thesis using some [of ?q] b by simp
  qed
qed

section \<open>Filling\<close>

lemma fold_fill_row:
  assumes "x1 \<le> p" "x0 \<le> x1"
  shows "fold (\<lambda>yy. fill_row (yy * p + x0) (x1 - x0) color) ys f k
    = (if x0 \<le> k mod p \<and> k mod p < x1 \<and> k div p \<in> set ys \<and> 0 < p then color else f k)"
proof (cases "p = 0")
  case True
  then have "x1 - x0 = 0" using assms by simp
  then have "fill_row a (x1 - x0) color g = g" for a g by (auto simp: fill_row_def fun_eq_iff)
  then show ?thesis using True by (induction ys arbitrary: f) auto
next
  case False
  have row: "yy * p + x0 \<le> k \<and> k < yy * p + x0 + (x1 - x0) \<longleftrightarrow> x0 \<le> k mod p \<and> k mod p < x1 \<and> k div p = yy" for yy
  proof
    assume a: "yy * p + x0 \<le> k \<and> k < yy * p + x0 + (x1 - x0)"
    define d where "d = k - yy * p"
    have d: "k = yy * p + d" "x0 \<le> d" "d < x1" using a assms(2) unfolding d_def by linarith+
    then have "d < p" using assms(1) by simp
    then show "x0 \<le> k mod p \<and> k mod p < x1 \<and> k div p = yy" using d by simp
  next
    assume a: "x0 \<le> k mod p \<and> k mod p < x1 \<and> k div p = yy"
    have "k = yy * p + k mod p" using a by (metis div_mult_mod_eq)
    then show "yy * p + x0 \<le> k \<and> k < yy * p + x0 + (x1 - x0)" using a assms(2) by (intro conjI) linarith+
  qed
  have "fill_row (yy * p + x0) (x1 - x0) color g k = (if x0 \<le> k mod p \<and> k mod p < x1 \<and> k div p = yy then color else g k)" for g yy
    unfolding fill_row_def row ..
  then show ?thesis using False by (induction ys arbitrary: f) auto
qed

text \<open>\<open>fill_rect\<close> paints exactly the pixels of the rectangle inside the clip and touches no other word of memory.\<close>

definition paints :: "(nat \<Rightarrow> nat \<Rightarrow> bool) \<Rightarrow> u32 \<Rightarrow> canvas \<Rightarrow> canvas \<Rightarrow> bool" where
  "paints S color c c' \<longleftrightarrow> c' = c\<lparr>fb := fb c'\<rparr>
     \<and> (\<forall>k. fb c' k = (if pitch c \<noteq> 0 \<and> S (k mod pitch c) (k div pitch c) \<and> inside (clip c) (k mod pitch c) (k div pitch c) then color else fb c k))"

lemma fill_rect_paints:
  assumes "canvas_inv c" "rect_ok r"
  shows "\<exists>c'. fill_rect r color c = Some c' \<and> paints (inside r) color c c'"
proof (cases rule: intersect_clip [OF assms, case_names none some])
  case none
  have "inside (clip c) x y \<Longrightarrow> x < cwidth c \<and> y < cheight c" for x y using assms(1) by (auto simp: canvas_inv_def inside_def)
  then show ?thesis using none by (auto simp: fill_rect_def paints_def)
next
  case (some q)
  define x0 y0 x1 y1 where d: "x0 = nat (rx q)" "y0 = nat (ry q)" "x1 = nat (rx q + rw q)" "y1 = nat (ry q + rh q)"
  have wh: "int (cwidth c) \<le> I32_MAX" "int (cheight c) \<le> I32_MAX" "cwidth c \<le> pitch c" using assms(1) by (auto simp: canvas_inv_def)
  have rb: "right q = rx q + rw q" "bottom q = ry q + rh q" using some wh by (auto simp: right_def bottom_def sat_def i32_defs)
  have ord: "x0 < x1" "y0 < y1" "x1 \<le> pitch c" using some(2-7) wh(3) by (auto simp: d)
  let ?f = "fold (\<lambda>yy. fill_row (yy * pitch c + x0) (x1 - x0) color) [y0..<y1] (fb c)"
  have run: "fill_rect r color c = Some (c\<lparr>fb := ?f\<rparr>)"
    using some(1-7) ord wh by (auto simp: fill_rect_def Let_def rb as_i32_small d max_def min_def)
  have "x0 \<le> x \<and> x < x1 \<and> y \<in> set [y0..<y1] \<longleftrightarrow> inside r x y \<and> inside (clip c) x y" for x y
    unfolding some(8) [symmetric] using some(2-5) by (auto simp: inside_def d)
  moreover have "?f k = (if x0 \<le> k mod pitch c \<and> k mod pitch c < x1 \<and> k div pitch c \<in> set [y0..<y1] \<and> 0 < pitch c then color else fb c k)" for k
    using ord by (intro fold_fill_row) auto
  ultimately show ?thesis using run ord by (auto simp: paints_def)
qed

lemma paints_trans: "paints S col c c1 \<Longrightarrow> paints T col c1 c2 \<Longrightarrow> paints (\<lambda>x y. S x y \<or> T x y) col c c2"
  unfolding paints_def by (cases c; cases c1; cases c2) auto

lemma paints_cong: "paints S col c c' \<Longrightarrow> (\<And>x y. inside (clip c) x y \<Longrightarrow> S x y = T x y) \<Longrightarrow> paints T col c c'"
  unfolding paints_def by auto

lemma canvas_inv_fb: "paints S col c c' \<Longrightarrow> canvas_inv c' = canvas_inv c"
  unfolding paints_def by (cases c; cases c') (auto simp: canvas_inv_def)

lemma new_inv: "w \<le> p \<Longrightarrow> int w \<le> I32_MAX \<Longrightarrow> int h \<le> I32_MAX \<Longrightarrow> canvas_inv (canvas_new f p w h)"
  by (simp add: canvas_inv_def canvas_new_def as_i32_small)

lemma reset_clip_inv: "canvas_inv c \<Longrightarrow> canvas_inv (reset_clip c)"
  by (auto simp: canvas_inv_def reset_clip_def screen_def as_i32_small)

lemma set_clip_inv:
  assumes "canvas_inv c" "rect_ok r"
  shows "\<exists>c'. set_clip r c = Some c' \<and> canvas_inv c' \<and> fb c' = fb c \<and> (\<forall>x y. inside (clip c') x y \<longleftrightarrow> inside r x y \<and> x < cwidth c \<and> y < cheight c)"
proof -
  let ?c = "reset_clip c"
  have inv: "canvas_inv ?c" using reset_clip_inv [OF assms(1)] .
  have clip: "clip ?c = screen c" "cwidth ?c = cwidth c" "cheight ?c = cheight c" by (simp_all add: reset_clip_def)
  have wh: "int (cwidth c) \<le> I32_MAX" "int (cheight c) \<le> I32_MAX" using assms(1) by (auto simp: canvas_inv_def)
  have scr: "inside (screen c) x y \<longleftrightarrow> x < cwidth c \<and> y < cheight c" for x y using wh by (auto simp: inside_def screen_def as_i32_small)
  have sym: "intersect_rect (screen c) r = intersect_rect r (screen c)" by (auto simp: intersect_rect_def Let_def max.commute min.commute)
  show ?thesis
  proof (cases rule: intersect_clip [OF inv assms(2), case_names none some])
    case none
    then have "set_clip r c = Some (c\<lparr>clip := \<lparr>rx = 0, ry = 0, rw = 0, rh = 0\<rparr>\<rparr>)" using clip sym by (simp add: set_clip_def)
    moreover have "\<not> (inside r x y \<and> x < cwidth c \<and> y < cheight c)" for x y using none(2) [of x y] clip scr by auto
    ultimately show ?thesis using assms(1) by (auto simp: canvas_inv_def inside_def)
  next
    case (some q)
    then have "set_clip r c = Some (c\<lparr>clip := q\<rparr>)" using clip sym by (simp add: set_clip_def)
    then show ?thesis using some clip scr assms(1) by (auto simp: canvas_inv_def)
  qed
qed

text \<open>The frame of a rectangle.\<close>

lemma stroke_rect_paints:
  assumes "canvas_inv c" "rect_ok r" "0 < rw r" "0 < rh r" "rx r + rw r \<le> I32_MAX" "ry r + rh r \<le> I32_MAX"
  shows "\<exists>c'. stroke_rect r color c = Some c'
    \<and> paints (\<lambda>x y. inside r x y \<and> (int x \<in> {rx r, rx r + rw r - 1} \<or> int y \<in> {ry r, ry r + rh r - 1})) color c c'"
proof -
  have ok: "I32_MIN \<le> rx r" "I32_MIN \<le> ry r" "rx r \<le> I32_MAX" "ry r \<le> I32_MAX" "rw r \<le> I32_MAX" "rh r \<le> I32_MAX" using assms(2) by (auto simp: rect_ok_def)
  have rb: "right r = rx r + rw r" "bottom r = ry r + rh r" using assms ok by (auto simp: right_def bottom_def sat_def i32_defs)
  have ck: "chk (bottom r - 1) = Some (ry r + rh r - 1)" "chk (right r - 1) = Some (rx r + rw r - 1)" using assms ok by (auto simp: rb chk_def)
  let ?r1 = "\<lparr>rx = rx r, ry = ry r, rw = rw r, rh = 1\<rparr>" and ?r2 = "\<lparr>rx = rx r, ry = ry r + rh r - 1, rw = rw r, rh = 1\<rparr>"
  let ?r3 = "\<lparr>rx = rx r, ry = ry r, rw = 1, rh = rh r\<rparr>" and ?r4 = "\<lparr>rx = rx r + rw r - 1, ry = ry r, rw = 1, rh = rh r\<rparr>"
  have "1 \<in> {I32_MIN..I32_MAX}" by (simp add: i32_defs)
  then have o: "rect_ok ?r1" "rect_ok ?r2" "rect_ok ?r3" "rect_ok ?r4" using assms ok unfolding rect_ok_def by auto
  obtain c1 where c1: "fill_rect ?r1 color c = Some c1" "paints (inside ?r1) color c c1" using fill_rect_paints [OF assms(1) o(1)] by blast
  obtain c2 where c2: "fill_rect ?r2 color c1 = Some c2" "paints (inside ?r2) color c1 c2"
    using fill_rect_paints [OF _ o(2), of c1] assms(1) canvas_inv_fb [OF c1(2)] by blast
  obtain c3 where c3: "fill_rect ?r3 color c2 = Some c3" "paints (inside ?r3) color c2 c3"
    using fill_rect_paints [OF _ o(3), of c2] assms(1) canvas_inv_fb [OF c1(2)] canvas_inv_fb [OF c2(2)] by blast
  obtain c4 where c4: "fill_rect ?r4 color c3 = Some c4" "paints (inside ?r4) color c3 c4"
    using fill_rect_paints [OF _ o(4), of c3] assms(1) canvas_inv_fb [OF c1(2)] canvas_inv_fb [OF c2(2)] canvas_inv_fb [OF c3(2)] by blast
  have "stroke_rect r color c = Some c4" using assms(3,4) ck c1(1) c2(1) c3(1) c4(1) by (simp add: stroke_rect_def)
  moreover note paints_trans [OF paints_trans [OF paints_trans [OF c1(2) c2(2)] c3(2)] c4(2)]
  ultimately show ?thesis using assms(3,4) by (auto elim!: paints_cong simp: inside_def)
qed

section \<open>Nothing outside the clip\<close>

definition confined :: "canvas \<Rightarrow> canvas \<Rightarrow> bool" where
  "confined c c' \<longleftrightarrow> c' = c\<lparr>fb := fb c'\<rparr>
     \<and> (\<forall>k. fb c' k \<noteq> fb c k \<longrightarrow> pitch c \<noteq> 0 \<and> inside (clip c) (k mod pitch c) (k div pitch c))"

lemma confined_refl [simp]: "confined c c"
  by (simp add: confined_def)

lemma confined_trans: "confined c c1 \<Longrightarrow> confined c1 c2 \<Longrightarrow> confined c c2"
  unfolding confined_def by (cases c; cases c1; cases c2) (auto, metis+)

lemma confined_inv: "confined c c' \<Longrightarrow> canvas_inv c \<Longrightarrow> canvas_inv c'"
  unfolding confined_def by (cases c; cases c') (auto simp: canvas_inv_def)

lemma paints_confined: "paints S col c c' \<Longrightarrow> confined c c'"
  unfolding paints_def confined_def by auto

lemma fill_rect_confined: "canvas_inv c \<Longrightarrow> rect_ok r \<Longrightarrow> fill_rect r col c = Some c' \<Longrightarrow> confined c c'"
  using fill_rect_paints [of c r col] paints_confined by auto

lemma put_pixel_confined:
  assumes "canvas_inv c"
  shows "confined c (put_pixel x y col c)"
proof -
  have "inside (clip c) ((nat y * pitch c + nat x) mod pitch c) ((nat y * pitch c + nat x) div pitch c)"
    if "\<not> x < rx (clip c)" "\<not> y < ry (clip c)" "\<not> right (clip c) \<le> x" "\<not> bottom (clip c) \<le> y" "0 \<le> x" "0 \<le> y" "nat x < cwidth c"
  proof -
    have "nat x < pitch c" using that(7) assms by (simp add: canvas_inv_def)
    then show ?thesis using that canvas_clip [OF assms] by (auto simp: inside_def)
  qed
  moreover have "pitch c \<noteq> 0" if "nat x < cwidth c" using that assms by (auto simp: canvas_inv_def)
  ultimately show ?thesis by (auto simp: put_pixel_def confined_def not_le not_less)
qed

text \<open>Composite operations, by the same argument for each call they make.\<close>

lemma ofold_confined:
  assumes "\<And>x c c'. x \<in> set xs \<Longrightarrow> canvas_inv c \<Longrightarrow> f x c = Some c' \<Longrightarrow> confined c c'" "canvas_inv c" "ofold f xs c = Some c'"
  shows "confined c c'"
  using assms
proof (induction xs arbitrary: c)
  case (Cons x xs)
  then obtain c1 where c1: "f x c = Some c1" "ofold f xs c1 = Some c'" by (auto split: Option.bind_splits)
  have "confined c c1" using Cons.prems(1) [of x] Cons.prems(2) c1(1) by simp
  moreover have "confined c1 c'"
    by (rule Cons.IH [OF _ confined_inv [OF \<open>confined c c1\<close> Cons.prems(2)] c1(2)]) (use Cons.prems(1) in auto)
  ultimately show ?case by (rule confined_trans)
qed simp

lemma draw_char_confined:
  assumes "canvas_inv c" "draw_char font x y fg bg ch c = Some c'"
  shows "confined c c'"
proof -
  have bit: "confined c c'" if "canvas_inv c" "draw_bit x y fg bg bits row col c = Some c'" for bits row col c c'
    using that put_pixel_confined by (auto simp: draw_bit_def split: Option.bind_splits if_splits option.splits)
  show ?thesis
  proof (cases "font ch")
    case None
    then show ?thesis using assms(2) by (simp add: draw_char_def)
  next
    case (Some glyph)
    then have "ofold (\<lambda>(row, bits). ofold (\<lambda>col. draw_bit x y fg bg bits row col) [0..<8]) (enumerate 0 glyph) c = Some c'"
      using assms(2) by (simp add: draw_char_def)
    then show ?thesis
    proof (rule ofold_confined [OF _ assms(1), rotated])
      fix z c c' assume a: "canvas_inv c" "(case z of (row, bits) \<Rightarrow> ofold (\<lambda>col. draw_bit x y fg bg bits row col) [0..<8]) c = Some c'"
      obtain row bits where z: "z = (row, bits)" by (cases z)
      show "confined c c'" by (rule ofold_confined [OF _ a(1) a(2) [unfolded z prod.case]]) (rule bit)
    qed
  qed
qed

lemma draw_text_confined: "canvas_inv c \<Longrightarrow> draw_text font x y fg bg chs c = Some c' \<Longrightarrow> confined c c'"
proof (induction chs arbitrary: x c)
  case (Cons ch chs)
  then obtain c1 xx where c1: "draw_char font x y fg bg ch c = Some c1" "draw_text font xx y fg bg chs c1 = Some c'" by (auto split: Option.bind_splits)
  note a = draw_char_confined [OF Cons.prems(1) c1(1)]
  show ?case using confined_trans [OF a Cons.IH [OF confined_inv [OF a Cons.prems(1)] c1(2)]] .
qed simp

lemma stroke_rect_confined:
  assumes "canvas_inv c" "rect_ok r" "stroke_rect r col c = Some c'"
  shows "confined c c'"
proof (cases "rw r \<le> 0 \<or> rh r \<le> 0")
  case True
  then show ?thesis using assms(3) by (simp add: stroke_rect_def)
next
  case False
  then obtain c1 c2 c3 b e where s: "fill_rect \<lparr>rx = rx r, ry = ry r, rw = rw r, rh = 1\<rparr> col c = Some c1" "chk (bottom r - 1) = Some b"
      "fill_rect \<lparr>rx = rx r, ry = b, rw = rw r, rh = 1\<rparr> col c1 = Some c2" "fill_rect \<lparr>rx = rx r, ry = ry r, rw = 1, rh = rh r\<rparr> col c2 = Some c3"
      "chk (right r - 1) = Some e" "fill_rect \<lparr>rx = e, ry = ry r, rw = 1, rh = rh r\<rparr> col c3 = Some c'"
    using assms(3) by (auto simp: stroke_rect_def split: Option.bind_splits)
  have rng: "b \<in> {I32_MIN..I32_MAX}" "e \<in> {I32_MIN..I32_MAX}" "1 \<in> {I32_MIN..I32_MAX}" using s(2,5) by (auto simp: chk_def i32_defs split: if_splits)
  have a1: "confined c c1" using fill_rect_confined [OF assms(1) _ s(1)] assms(2) rng by (simp add: rect_ok_def)
  have a2: "confined c1 c2" using fill_rect_confined [OF confined_inv [OF a1 assms(1)] _ s(3)] assms(2) rng by (simp add: rect_ok_def)
  note c2 = confined_trans [OF a1 a2]
  have a3: "confined c2 c3" using fill_rect_confined [OF confined_inv [OF c2 assms(1)] _ s(4)] assms(2) rng by (simp add: rect_ok_def)
  note c3 = confined_trans [OF c2 a3]
  have a4: "confined c3 c'" using fill_rect_confined [OF confined_inv [OF c3 assms(1)] _ s(6)] assms(2) rng by (simp add: rect_ok_def)
  show ?thesis by (rule confined_trans [OF c3 a4])
qed

lemma gradient_rows_confined:
  assumes "rect_ok r"
  shows "canvas_inv c \<Longrightarrow> gradient_rows r tc bc den rows c = Some c' \<Longrightarrow> confined c c'"
proof (induction rows arbitrary: c)
  case (Cons row rows)
  then obtain color y c1 where s: "chk (ry r + row) = Some y" "fill_rect \<lparr>rx = rx r, ry = y, rw = rw r, rh = 1\<rparr> color c = Some c1"
      "gradient_rows r tc bc den rows c1 = Some c'" by (auto split: Option.bind_splits)
  have "rect_ok \<lparr>rx = rx r, ry = y, rw = rw r, rh = 1\<rparr>" using s(1) assms by (auto simp: rect_ok_def chk_def i32_defs split: if_splits)
  then have a: "confined c c1" by (rule fill_rect_confined [OF Cons.prems(1) _ s(2)])
  show ?case using confined_trans [OF a Cons.IH [OF confined_inv [OF a Cons.prems(1)] s(3)]] .
qed simp

lemma sat_range: "sat v \<in> {I32_MIN..I32_MAX}"
  by (simp add: sat_def i32_defs)

section \<open>Programs that draw\<close>

datatype draw_cmd = DClear u32 | DPixel int int u32 | DHline int int int u32 | DVline int int int u32 | DFill rect u32
  | DGradient rect u32 u32 | DStroke rect u32 | DStrokeInset rect int u32 | DText int int u32 "u32 option" "nat list"

fun run_cmd :: "(nat \<Rightarrow> u8 list option) \<Rightarrow> draw_cmd \<Rightarrow> canvas \<Rightarrow> canvas option" where
  "run_cmd font (DClear col) c = clear col c"
| "run_cmd font (DPixel x y col) c = Some (put_pixel x y col c)"
| "run_cmd font (DHline x y w col) c = hline x y w col c"
| "run_cmd font (DVline x y h col) c = vline x y h col c"
| "run_cmd font (DFill r col) c = fill_rect r col c"
| "run_cmd font (DGradient r a b) c = fill_vertical_gradient r a b c"
| "run_cmd font (DStroke r col) c = stroke_rect r col c"
| "run_cmd font (DStrokeInset r d col) c = stroke_rect_inset r d col c"
| "run_cmd font (DText x y fg bg text) c = draw_text font x y fg bg text c"

definition i32s :: "int list \<Rightarrow> bool" where
  "i32s vs \<longleftrightarrow> set vs \<subseteq> {I32_MIN..I32_MAX}"

fun cmd_ok :: "draw_cmd \<Rightarrow> bool" where
  "cmd_ok (DHline x y w col) = i32s [x, y, w]"
| "cmd_ok (DVline x y h col) = i32s [x, y, h]"
| "cmd_ok (DFill r col) = rect_ok r"
| "cmd_ok (DGradient r a b) = rect_ok r"
| "cmd_ok (DStroke r col) = rect_ok r"
| "cmd_ok _ = True"

lemma run_cmd_confined:
  assumes "canvas_inv c" "cmd_ok d" "run_cmd font d c = Some c'"
  shows "confined c c'"
proof -
  have one: "1 \<in> {I32_MIN..I32_MAX}" "0 \<in> {I32_MIN..I32_MAX}" by (simp_all add: i32_defs)
  have scr: "rect_ok (screen c)" using assms(1) one by (auto simp: rect_ok_def screen_def as_i32_small canvas_inv_def i32_defs)
  show ?thesis
  proof (cases d)
    case (DStrokeInset r k col)
    have "rect_ok (inset r k k)" using sat_range by (auto simp: rect_ok_def inset_def)
    then show ?thesis using assms DStrokeInset stroke_rect_confined by (auto simp: stroke_rect_inset_def Let_def split: if_splits)
  next
    case (DGradient r a b)
    then show ?thesis using assms gradient_rows_confined by (auto simp: fill_vertical_gradient_def split: if_splits Option.bind_splits)
  next
    case (DHline x y w col)
    then have "rect_ok \<lparr>rx = x, ry = y, rw = w, rh = 1\<rparr>" using assms(2) one by (simp add: rect_ok_def i32s_def)
    then show ?thesis using fill_rect_confined [OF assms(1)] assms(3) DHline by (auto simp: hline_def split: if_splits)
  next
    case (DVline x y h col)
    then have "rect_ok \<lparr>rx = x, ry = y, rw = 1, rh = h\<rparr>" using assms(2) one by (simp add: rect_ok_def i32s_def)
    then show ?thesis using fill_rect_confined [OF assms(1)] assms(3) DVline by (auto simp: vline_def split: if_splits)
  qed (use assms scr fill_rect_confined stroke_rect_confined put_pixel_confined draw_text_confined in \<open>auto simp: clear_def\<close>)
qed

text \<open>
  C19: whatever a program draws, every pixel that changes is inside the clip and inside the screen; no other word of
  memory is written.
\<close>

theorem drawing_stays_in_clip:
  assumes "canvas_inv c" "list_all cmd_ok cmds" "ofold (run_cmd font) cmds c = Some c'" "fb c' k \<noteq> fb c k"
  shows "k < cheight c * pitch c \<and> k mod pitch c < cwidth c \<and> inside (clip c) (k mod pitch c) (k div pitch c)"
proof -
  have "confined c c'"
    by (rule ofold_confined [OF _ assms(1,3)]) (use run_cmd_confined assms(2) in \<open>auto simp: list_all_iff\<close>)
  then have i: "inside (clip c) (k mod pitch c) (k div pitch c)" "0 < pitch c" using assms(4) by (auto simp: confined_def)
  then have "k mod pitch c < cwidth c" "k div pitch c < cheight c" using assms(1) by (auto simp: canvas_inv_def inside_def)
  then show ?thesis using i by (simp add: div_less_iff_less_mult)
qed

definition demo_canvas :: canvas where
  "demo_canvas = canvas_new (\<lambda>_. 0) 5 4 3"

theorem drawing_stays_in_clip_witness:
  "\<exists>c'. ofold (run_cmd (\<lambda>_. None)) [DPixel 9 9 2, DFill \<lparr>rx = - 3, ry = 1, rw = 100, rh = 1\<rparr> 7] demo_canvas = Some c'
    \<and> map (fb c') [4, 5, 8, 9, 14, 15] = [0, 7, 7, 0, 0, 0] \<and> 5 < cheight demo_canvas * pitch demo_canvas"
proof -
  let ?cmds = "[DPixel 9 9 2, DFill \<lparr>rx = - 3, ry = 1, rw = 100, rh = 1\<rparr> 7]"
  have inv: "canvas_inv demo_canvas" unfolding demo_canvas_def by (rule new_inv) (simp_all add: i32_defs)
  have run: "\<exists>c'. ofold (run_cmd (\<lambda>_. None)) ?cmds demo_canvas = Some c' \<and> map (fb c') [4, 5, 8, 9, 14, 15] = [0, 7, 7, 0, 0, 0]"
    by (simp add: demo_canvas_def canvas_new_def fill_rect_def put_pixel_def intersect_rect_def screen_def right_def bottom_def sat_def chk_def
        i32_defs as_i32_def Let_def fill_row_def upt_conv_Cons)
  then obtain c' where c: "ofold (run_cmd (\<lambda>_. None)) ?cmds demo_canvas = Some c' \<and> map (fb c') [4, 5, 8, 9, 14, 15] = [0, 7, 7, 0, 0, 0]" ..
  note c' = c [THEN conjunct1] c [THEN conjunct2]
  have "fb c' 5 \<noteq> fb demo_canvas 5" using c'(2) by (simp add: demo_canvas_def canvas_new_def)
  moreover have "list_all cmd_ok ?cmds" by (simp add: rect_ok_def i32_defs)
  ultimately have "5 < cheight demo_canvas * pitch demo_canvas" using drawing_stays_in_clip [OF inv _ c'(1)] by blast
  then show ?thesis using c' by (intro exI conjI)
qed

end
