(* ===== verification/Spec2Isabelle.thy ===== *)
theory Spec2Isabelle
  imports Ipc Net_Syscalls Ext2_Props Kheap_Safety Exec Virtio_Input Virtio_Pci Virtio_Blk Http Canvas
begin

text \<open>
  \<^bold>\<open>micros: the kernel's allocators, scheduler, processes, IPC, network stack, file systems, drivers and user libraries\<close>

  The program is an x86-64 kernel in Rust (\<^verbatim>\<open>src/src/kernel\<close>) with its user space (\<^verbatim>\<open>src/src/user\<close>). This development models the parts that hold
  its own logic, with the names of the source, and proves what makes them correct.

  \<^bold>\<open>Conventions.\<close> Machine integers are words (\<open>u8\<close> to \<open>u64\<close>); \<open>usize\<close> indices are natural numbers where the
  code only indexes with them. Kernel and user space are built with the development profile, so arithmetic overflow,
  a failed assertion and an index out of range panic: fallible code returns an outer \<open>option\<close> whose \<open>None\<close> is
  the panic, and \<open>checked_add\<close> and its relatives of \<open>Prelude\<close> are the checked operators. Errors that the code
  returns are values of a sum type or negative error numbers. State behind a static lock is a record passed
  along; every definition is executable. Code that is not Rust source of the repository (the page-table
  primitives of the \<open>x86_64\<close> crate, devices, assembly) is a parameter.

  \<^bold>\<open>Memory.\<close> \<open>Align\<close> (\<^verbatim>\<open>utils/align.rs\<close>) and \<open>Bitset\<close> (\<^verbatim>\<open>utils/bitset.rs\<close>) are the helpers; \<open>Bitset\<close> shows that the
  word-wise searches return the least answer and that the bulk writes change exactly their range. \<open>Frame\<close>
  (\<^verbatim>\<open>mm/phys/frame.rs\<close>) is the physical frame pool: initialisation frees exactly the usable frames of the
  memory map that the bitmap covers, no frame is handed out twice. \<open>Mapper\<close> (\<^verbatim>\<open>mm/map/mapper.rs\<close>) maps and unmaps over the parameter record \<open>x86_ops\<close>. \<open>Vmarena\<close>
  (\<^verbatim>\<open>mm/virt/vmarena.rs\<close>) hands out runs of kernel pages: live runs never overlap, allocation followed by
  release restores the bitmap, and two defects of the failure and alignment paths are shown. \<open>Kheap\<close>
  (\<^verbatim>\<open>mm/heap/freelist.rs\<close>, \<^verbatim>\<open>global_alloc.rs\<close>) is the heap's free list, kept in the words of the memory it manages:
  blocks tile the spans, and the invariant \<open>heap_inv\<close> relates headers, footers, flags and links to that tiling.
  \<open>Kheap_Safety\<close> shows that live allocations stay disjoint whatever the clients do in theirs, that every call
  returns (\<open>find_fit\<close> follows links and is a partial function), and that a release which merges with the free block before
  it loses that block for good.

  \<^bold>\<open>Scheduling and processes.\<close> \<open>Sched\<close> (\<^verbatim>\<open>sched/task.rs\<close>, \<^verbatim>\<open>sched/proc.rs\<close>): tasks are records in a store addressed
  by pointers. The invariant \<open>sched_inv\<close> says that no runnable task is lost and none runs twice; every step of
  \<open>sched_step\<close> keeps it, \<open>schedule\<close> refines a round robin over the ready queue, and every ready task gets its
  turn. The timer's preemption keeps it when the head of the ready queue has a user frame, and loses the task when it
  has not; two defects are proved.
  \<open>Proc\<close> (\<^verbatim>\<open>syscall/proc.rs\<close>): the process calls over that state and the user memory of \<open>User_Mem\<close>
  (\<^verbatim>\<open>mm/aspace/user_copy.rs\<close>, \<^verbatim>\<open>syscall/util.rs\<close>). Waiting is a loop over the states the caller sees at its turns.

  \<^bold>\<open>Programs.\<close> \<open>Elf\<close> (\<^verbatim>\<open>exec/elf.rs\<close>, \<^verbatim>\<open>mm/aspace/address_space.rs\<close>) reads a program file and builds the page tables of a
  process, which are arrays of entries in the modelled memory; entries and address indices of the \<open>x86_64\<close> crate are the
  parameter record \<open>pt_ops\<close>, used through the laws \<open>pt_laws\<close>. \<open>Elf_Props\<close> describes an address space by the map from
  index paths to frames and shows that loading is, on the image of the process, a fold over the segments, and that it
  fails only for lack of frames. \<open>Exec\<close> (\<^verbatim>\<open>exec/exec_impl.rs\<close>, \<open>sys_proc_spawn\<close>) joins it with the file system, the
  scheduler and the arena: a well-formed program reaches user mode with the image of its file, and every spawn returns in
  the caller's address space.

  \<^bold>\<open>IPC.\<close> \<open>Ipc\<close> (\<^verbatim>\<open>syscall/chan.rs\<close>, \<^verbatim>\<open>syscall/shm.rs\<close>): channels are bounded first-in first-out queues; frames of
  shared-memory objects are exclusive.

  \<^bold>\<open>Network.\<close> \<open>Checksum\<close>, \<open>Net_State\<close> (\<^verbatim>\<open>net/iface.rs\<close> and the statics), \<open>Ethernet\<close>, \<open>Arp\<close>, \<open>Ipv4\<close> (with ICMP), \<open>Udp\<close>,
  \<open>Tcp\<close> follow the files of \<^verbatim>\<open>kernel/net\<close>; \<open>Net_Stack\<close> ties the receive dispatcher to the blocking calls.
  \<open>Net_Syscalls\<close> (\<^verbatim>\<open>syscall/net.rs\<close>) is the calls on top, with what they read and write of user memory.
  \<open>Net_Properties\<close> proves the codecs' round trips, delivery end to end, the connection state machine, that
  received TCP data is a prefix of what the peer sent, and the invariant of the tables. Polling loops have
  the source's own bounds (\<open>DEFAULT_IO_POLLS\<close> and the bounds of \<open>resolve_mac\<close> and \<open>recv_from\<close>), so no fuel is added.

  \<^bold>\<open>File systems.\<close> \<open>Blk\<close> (\<open>read_at\<close> and \<open>write_at\<close> of \<^verbatim>\<open>drivers/virtio/blk.rs\<close>) gives byte-granular access over whole
  sectors; the sector transfer is the parameter record \<open>blk_ops\<close>, with the hypothesis \<open>blk_ok\<close> that it is a disk:
  an image of bytes that a write changes in its range only and that answers every transfer (\<open>ram_disk\<close> is an instance).
  The transfer of the driver is modelled apart, in \<open>Virtio_Blk\<close>; it loses two pages of the arena each time and so is
  such a disk only until the arena is used up, and only for buffers in one piece of physical memory. FAT32 (\<^verbatim>\<open>fs/fat32.rs\<close>) is
  \<open>Fat32_Names\<close> (entries, long and short names, the directory scan), \<open>Fat32\<close> (mounting, sectors, the allocation
  table), \<open>Fat32_Chain\<close> (chains over the table seen as a map: storing, reading, freeing, the geometry a mount
  guarantees), \<open>Fat32_Dir\<close> (the directory and file operations) and \<open>Fat32_Files\<close> (their effect on the slots of a
  directory, creation of files and its defects). Loops over cluster chains are partial functions: on a damaged
  table they may not end; freeing is proved to end always. \<open>Ext2\<close> and \<open>Ext2_Props\<close> (\<^verbatim>\<open>fs/ext2.rs\<close>): all operations,
  with the directory records, inodes and the block bitmap proved correct. \<open>Vfs_Path\<close> (\<^verbatim>\<open>fs/vfs/path.rs\<close> and the table
  of \<^verbatim>\<open>mount.rs\<close>) shows that resolution is the longest-prefix match on components; \<open>Vfs\<close> (\<^verbatim>\<open>mount.rs\<close>, \<^verbatim>\<open>ops.rs\<close>,
  \<^verbatim>\<open>syscall/vfs.rs\<close>) puts both file systems behind one interface, up to the system calls.

  \<^bold>\<open>Drivers.\<close> \<open>Virtq\<close> (\<^verbatim>\<open>drivers/virtio/virtqueue\<close>) is the split queue: a record with the rings as functions of the slot and
  the 16-bit counters. The abstraction reads off the heads that the device has not taken and the completions
  that the driver has not taken, and each operation refines an operation on these lists across the wrap-around.
  Its search for contiguous frames is a partial function that does not always return; the memory of the rings, which
  comes from that search, is taken as given when a queue is set up. \<open>Virtio_Net\<close>, \<open>Virtio_Input\<close>
  (with \<^verbatim>\<open>syscall/input.rs\<close>) and \<open>Virtio_Blk\<close> (\<^verbatim>\<open>net.rs\<close>, \<^verbatim>\<open>input.rs\<close>, \<^verbatim>\<open>blk.rs\<close>) are the drivers over it; the device is
  either a step relation that takes and completes buffers, or the parameter \<open>step\<close> where the driver spins. Frames
  and events arrive in order, no buffer is lost, and the page walk that decides on direct transfers is exact; the
  leaks of pages and descriptors are proved too. \<open>Virtio_Pci\<close> (\<^verbatim>\<open>drivers/pci\<close>, \<^verbatim>\<open>drivers/virtio/pci\<close>) is configuration
  space, the BAR windows, the capability walk (64 hops at most, as in the source) and the negotiation.

  \<^bold>\<open>User space.\<close> \<open>Dns\<close> and \<open>Http\<close> (\<^verbatim>\<open>user/rlibc/src/dns.rs\<close>, \<^verbatim>\<open>http.rs\<close>) are the resolver and the page fetch of the user
  library over the results of the network calls: a message format is specified beside them, and the resolver returns the
  addresses of every well-formed response that fits its 512-byte buffer and is the first datagram of the server. \<open>Canvas\<close> (\<^verbatim>\<open>user/libui/src/geom.rs\<close>, \<^verbatim>\<open>canvas.rs\<close>, \<^verbatim>\<open>text.rs\<close>) draws into the frame
  buffer: filling and framing paint exactly the pixels of the rectangle inside the clip, and nothing else is ever written.

  \<^bold>\<open>Interfaces.\<close> What a client relies on is a locale, interpreted on the model's definitions: \<open>frame_source\<close> (the
  frame pool, and the mapper state that holds it, for the arena and shared memory), \<open>keyed_table\<close> (the ARP
  cache and the connection table), \<open>page_source\<close> (the arena, for the heap and
  the receive buffers), \<open>virtqueue\<close> (the rings, for the drivers) and \<open>file_system\<close> (what the operations on paths need of a mounted volume,
  interpreted on the model of FAT32).

  \<^bold>\<open>Not modelled.\<close> The architecture layer; of user space, the system-call wrappers, the widgets, the window manager and the
  applications. Concurrency inside one operation is excluded by the
  source's locks and disabled interrupts; interleaving is between operations.
\<close>

end
